(* ===== verification/Prelude.thy ===== *)
theory Prelude
  imports Main "HOL-Library.Word" "HOL-Library.Multiset"
begin

text \<open>
  Shared vocabulary of the development: the widths of \<^verbatim>\<open>nsparse/types.h\<close>, exceptions as
  values of a sum type, little-endian byte strings, the standard-library algorithms the sources
  call (\<^verbatim>\<open>std::ranges::sort\<close>, \<^verbatim>\<open>std::lower_bound\<close>), and generic list lemmas.

  Integers: \<open>idx_t\<close> (int32), \<open>offset_t\<close> (int64) and \<open>int\<close> are mathematical integers with the
  wrap-around of a cast written out (\<open>i32\<close>, \<open>i64\<close>); \<open>term_t\<close> (uint16) and \<open>size_t\<close> (uint64) are
  natural numbers with \<open>u16\<close> and \<open>u64\<close> written out where an operation can wrap.
\<close>

section \<open>Collections of rules\<close>

named_theorems err_simps \<open>evaluation of the exception monad\<close>
named_theorems codec_simps \<open>lengths and round trips of byte encodings\<close>

section \<open>Types and widths\<close>

type_synonym byte = "8 word"
type_synonym idx_t = int
type_synonym offset_t = int
type_synonym term_t = nat
type_synonym size_t = nat

definition SIZE_MAX :: nat where
  "SIZE_MAX = 18446744073709551615"

definition u16 :: "nat \<Rightarrow> nat" where
  "u16 n = n mod 65536"

definition u64 :: "nat \<Rightarrow> nat" where
  "u64 n = n mod 18446744073709551616"

definition i32 :: "int \<Rightarrow> int" where
  "i32 x = (x + 2147483648) mod 4294967296 - 2147483648"

definition i64 :: "int \<Rightarrow> int" where
  "i64 x = (x + 9223372036854775808) mod 18446744073709551616 - 9223372036854775808"

text \<open>\<^verbatim>\<open>static_cast<size_t>\<close> of a signed value.\<close>

definition size_of_int :: "int \<Rightarrow> size_t" where
  "size_of_int x = nat (x mod 18446744073709551616)"

definition INVALID_IDX :: idx_t where
  "INVALID_IDX = -1"

definition is_i32 :: "int \<Rightarrow> bool" where
  "is_i32 x \<longleftrightarrow> -2147483648 \<le> x \<and> x < 2147483648"

definition is_i64 :: "int \<Rightarrow> bool" where
  "is_i64 x \<longleftrightarrow> -9223372036854775808 \<le> x \<and> x < 9223372036854775808"

lemma u16_id [simp]: "n < 65536 \<Longrightarrow> u16 n = n"
  by (simp add: u16_def)

lemma u16_less [simp]: "u16 n < 65536"
  by (simp add: u16_def)

lemma u64_id [simp]: "n < 18446744073709551616 \<Longrightarrow> u64 n = n"
  by (simp add: u64_def)

lemma i32_id [simp]: "is_i32 x \<Longrightarrow> i32 x = x"
  by (simp add: i32_def is_i32_def)

lemma i64_id [simp]: "is_i64 x \<Longrightarrow> i64 x = x"
  by (simp add: i64_def is_i64_def)

lemma is_i32_i32 [simp]: "is_i32 (i32 x)"
  by (simp add: i32_def is_i32_def)

lemma is_i64_i64 [simp]: "is_i64 (i64 x)"
  by (simp add: i64_def is_i64_def)

lemma is_i32_int: "n < 2147483648 \<Longrightarrow> is_i32 (int n)"
  by (simp add: is_i32_def)

lemma size_of_int_id [simp]:
  "0 \<le> x \<Longrightarrow> is_i64 x \<Longrightarrow> size_of_int x = nat x"
  by (simp add: size_of_int_def is_i64_def)

section \<open>Exceptions as values\<close>

text \<open>
  The exceptions of \<^verbatim>\<open>utils/checks.h\<close> and its callers, with their message.
  \<open>Undefined_behaviour\<close> marks the branches on which the C++ reads or writes outside an array.
\<close>

datatype exn =
    Invalid_argument string
  | Runtime_error string
  | Out_of_range string
  | Logic_error string
  | Length_error string
  | Undefined_behaviour string

type_synonym 'a res = "exn + 'a"

fun bindE :: "exn + 'a \<Rightarrow> ('a \<Rightarrow> exn + 'b) \<Rightarrow> exn + 'b" where
  "bindE (Inl e) f = Inl e"
| "bindE (Inr x) f = f x"

definition throw_if :: "bool \<Rightarrow> exn \<Rightarrow> exn + unit" where
  "throw_if c e = (if c then Inl e else Inr ())"

fun mapE :: "('a \<Rightarrow> exn + 'b) \<Rightarrow> 'a list \<Rightarrow> exn + 'b list" where
  "mapE f [] = Inr []"
| "mapE f (x # xs) = bindE (f x) (\<lambda>y. bindE (mapE f xs) (\<lambda>ys. Inr (y # ys)))"

fun foldE :: "('s \<Rightarrow> 'a \<Rightarrow> exn + 's) \<Rightarrow> 's \<Rightarrow> 'a list \<Rightarrow> exn + 's" where
  "foldE f s [] = Inr s"
| "foldE f s (x # xs) = bindE (f s x) (\<lambda>s'. foldE f s' xs)"

lemma bindE_Inr_iff [err_simps]:
  "bindE m f = Inr y \<longleftrightarrow> (\<exists>x. m = Inr x \<and> f x = Inr y)"
  by (cases m) auto

lemma bindE_Inl_iff [err_simps]:
  "bindE m f = Inl e \<longleftrightarrow> m = Inl e \<or> (\<exists>x. m = Inr x \<and> f x = Inl e)"
  by (cases m) auto

lemma bindE_cong [fundef_cong]:
  "m = m' \<Longrightarrow> (\<And>x. m' = Inr x \<Longrightarrow> f x = f' x) \<Longrightarrow> bindE m f = bindE m' f'"
  by (cases m') auto

lemma throw_if_Inr_iff [err_simps]: "throw_if c e = Inr u \<longleftrightarrow> \<not> c"
  by (simp add: throw_if_def)

lemma throw_if_Inl_iff [err_simps]: "throw_if c e = Inl e' \<longleftrightarrow> c \<and> e' = e"
  by (auto simp: throw_if_def)

lemma throw_if_simps [simp]: "throw_if True e = Inl e" "throw_if False e = Inr ()"
  by (simp_all add: throw_if_def)

lemma mapE_Inr_all:
  "(\<And>x. x \<in> set xs \<Longrightarrow> f x = Inr (g x)) \<Longrightarrow> mapE f xs = Inr (map g xs)"
  by (induction xs) auto

lemma bindE_return: "bindE m Inr = m"
  by (cases m) simp_all

lemma bindE_assoc: "bindE (bindE m f) g = bindE m (\<lambda>x. bindE (f x) g)"
  by (cases m) simp_all

lemma mapE_cong [fundef_cong]:
  "xs = ys \<Longrightarrow> (\<And>x. x \<in> set ys \<Longrightarrow> f x = g x) \<Longrightarrow> mapE f xs = mapE g ys"
  by (induction ys arbitrary: xs) auto

lemma mapE_map: "mapE f (map g xs) = mapE (\<lambda>x. f (g x)) xs"
  by (induction xs) simp_all

lemma mapE_append: "mapE f (xs @ ys) = bindE (mapE f xs) (\<lambda>as. bindE (mapE f ys) (\<lambda>bs. Inr (as @ bs)))"
  by (induction xs) (simp_all add: bindE_return bindE_assoc)

lemma upt_split: "a \<le> b \<Longrightarrow> b \<le> c \<Longrightarrow> [a..<c] = [a..<b] @ [b..<c]"
  by (metis le_add_diff_inverse upt_add_eq_append)

lemma mapE_upt_shift: "mapE (\<lambda>i. f (b + i)) [0..<n] = mapE f [b..<b + n]"
proof -
  have "[b..<b + n] = map (\<lambda>i. b + i) [0..<n]" by (simp add: map_add_upt add.commute)
  then show ?thesis by (simp add: mapE_map)
qed

lemma mapE_Inr_length: "mapE f xs = Inr ys \<Longrightarrow> length ys = length xs"
  by (induction xs arbitrary: ys) (auto simp: err_simps)

lemma mapE_list_all2:
  assumes "\<And>i. i < length xs \<Longrightarrow> \<exists>r. f i = Inr r \<and> P (xs ! i) r"
  shows "\<exists>rs. mapE f [0..<length xs] = Inr rs \<and> list_all2 P xs rs"
proof -
  have "\<forall>i. \<exists>r. i < length xs \<longrightarrow> f i = Inr r \<and> P (xs ! i) r" using assms by blast
  then obtain r where r: "\<forall>i. i < length xs \<longrightarrow> f i = Inr (r i) \<and> P (xs ! i) (r i)"
    by (rule choice [THEN exE])
  have "mapE f [0..<length xs] = Inr (map r [0..<length xs])"
    by (rule mapE_Inr_all) (use r in simp)
  moreover have "list_all2 P xs (map r [0..<length xs])" using r by (simp add: list_all2_conv_all_nth)
  ultimately show ?thesis by blast
qed

lemma foldE_cong [fundef_cong]:
  "xs = ys \<Longrightarrow> s = t \<Longrightarrow> (\<And>s x. x \<in> set ys \<Longrightarrow> f s x = g s x) \<Longrightarrow> foldE f s xs = foldE g t ys"
proof (induction xs arbitrary: ys s t)
  case (Cons x xs)
  show ?case
  proof (cases "f s x")
    case (Inr s')
    with Cons.prems Cons.IH [OF refl refl, of s'] show ?thesis by auto
  qed (use Cons.prems in auto)
qed simp

lemma foldE_append: "foldE f s (xs @ ys) = bindE (foldE f s xs) (\<lambda>s'. foldE f s' ys)"
proof (induction xs arbitrary: s)
  case (Cons x xs)
  then show ?case by (cases "f s x") auto
qed simp

lemma foldE_Inr_foldl:
  "(\<And>s x. x \<in> set xs \<Longrightarrow> f s x = Inr (g s x)) \<Longrightarrow> foldE f s xs = Inr (foldl g s xs)"
  by (induction xs arbitrary: s) auto

subsection \<open>The checks of utils/checks.h\<close>

definition throw_if_not_positive :: "int \<Rightarrow> exn + int" where
  "throw_if_not_positive value =
     (if value \<le> 0 then Inl (Invalid_argument ''value must be positive'') else Inr value)"

text \<open>A pointer that may be null is an \<open>option\<close>.\<close>

definition throw_if_null :: "'a option \<Rightarrow> string \<Rightarrow> exn + 'a" where
  "throw_if_null p msg = (case p of None \<Rightarrow> Inl (Invalid_argument msg) | Some x \<Rightarrow> Inr x)"

definition checked_mul :: "size_t \<Rightarrow> size_t \<Rightarrow> exn + size_t" where
  "checked_mul lhs rhs =
     (if rhs \<noteq> 0 \<and> lhs > SIZE_MAX div rhs
      then Inl (Runtime_error ''size overflow in index file'')
      else Inr (u64 (lhs * rhs)))"

lemma throw_if_not_positive_Inr [err_simps]:
  "throw_if_not_positive v = Inr w \<longleftrightarrow> 0 < v \<and> w = v"
  by (auto simp: throw_if_not_positive_def)

lemma throw_if_null_Inr [err_simps]: "throw_if_null p m = Inr x \<longleftrightarrow> p = Some x"
  by (auto simp: throw_if_null_def split: option.splits)

lemma checked_mul_exact:
  assumes "lhs \<le> SIZE_MAX"
  shows "checked_mul lhs rhs =
    (if lhs * rhs \<le> SIZE_MAX then Inr (lhs * rhs)
     else Inl (Runtime_error ''size overflow in index file''))"
proof (cases "rhs = 0")
  case False
  then have "lhs \<le> SIZE_MAX div rhs \<longleftrightarrow> lhs * rhs \<le> SIZE_MAX"
    by (simp add: less_eq_div_iff_mult_less_eq)
  moreover have "u64 (lhs * rhs) = lhs * rhs" if "lhs * rhs \<le> SIZE_MAX"
    using that by (simp add: SIZE_MAX_def)
  ultimately show ?thesis
    using False by (auto simp: checked_mul_def)
qed (simp add: checked_mul_def u64_def)

section \<open>Little-endian bytes\<close>

fun le_bytes :: "nat \<Rightarrow> nat \<Rightarrow> byte list" where
  "le_bytes 0 x = []"
| "le_bytes (Suc k) x = of_nat (x mod 256) # le_bytes k (x div 256)"

fun le_nat :: "byte list \<Rightarrow> nat" where
  "le_nat [] = 0"
| "le_nat (b # bs) = unat b + 256 * le_nat bs"

lemma length_le_bytes [simp, codec_simps]: "length (le_bytes k x) = k"
  by (induction k arbitrary: x) auto

lemma unat_of_nat_mod_256: "unat (of_nat (x mod 256) :: byte) = x mod 256"
  by (simp add: unat_of_nat)

lemma le_nat_le_bytes_mod: "le_nat (le_bytes k x) = x mod 256 ^ k"
proof (induction k arbitrary: x)
  case (Suc k)
  have "x mod (256 * 256 ^ k) = 256 * (x div 256 mod 256 ^ k) + x mod 256"
    by (rule mod_mult2_eq)
  then show ?case by (simp add: Suc unat_of_nat_mod_256)
qed simp

lemma le_nat_le_bytes [simp, codec_simps]: "x < 256 ^ k \<Longrightarrow> le_nat (le_bytes k x) = x"
  by (simp add: le_nat_le_bytes_mod)

lemma byte_less [simp]: "unat (b :: byte) < 256"
proof -
  have "unat b < 2 ^ LENGTH(8)" by (rule unsigned_less)
  then show ?thesis by simp
qed

lemma le_nat_less: "le_nat bs < 256 ^ length bs"
proof (induction bs)
  case (Cons b bs)
  with byte_less [of b] show ?case by (simp del: byte_less)
qed simp

lemma le_bytes_le_nat [simp, codec_simps]: "le_bytes (length bs) (le_nat bs) = bs"
proof (induction bs)
  case (Cons b bs)
  from byte_less [of b] have "(unat b + 256 * le_nat bs) mod 256 = unat b" "(unat b + 256 * le_nat bs) div 256 = le_nat bs"
    by simp_all
  with Cons show ?case by simp
qed simp

lemma le_nat_inj: "length as = length bs \<Longrightarrow> le_nat as = le_nat bs \<Longrightarrow> as = bs"
  by (metis le_bytes_le_nat)

section \<open>std::ranges::sort with a comparator\<close>

text \<open>
  The comparator is a strict order and the sort is the insertion sort libstdc++ finishes every
  \<^verbatim>\<open>std::sort\<close> with. The order of elements the comparator does not separate is unspecified
  by the standard, so the lemmas used downstream say only that the result is a sorted
  permutation.
\<close>

fun insert_by :: "('a \<Rightarrow> 'a \<Rightarrow> bool) \<Rightarrow> 'a \<Rightarrow> 'a list \<Rightarrow> 'a list" where
  "insert_by lt x [] = [x]"
| "insert_by lt x (y # ys) = (if lt x y then x # y # ys else y # insert_by lt x ys)"

definition sort_by :: "('a \<Rightarrow> 'a \<Rightarrow> bool) \<Rightarrow> 'a list \<Rightarrow> 'a list" where
  "sort_by lt xs = foldl (\<lambda>acc x. insert_by lt x acc) [] xs"

lemma mset_insert_by [simp]: "mset (insert_by lt x ys) = add_mset x (mset ys)"
  by (induction ys) auto

lemma mset_sort_by_aux:
  "mset (foldl (\<lambda>acc x. insert_by lt x acc) acc xs) = mset acc + mset xs"
  by (induction xs arbitrary: acc) auto

lemma mset_sort_by [simp]: "mset (sort_by lt xs) = mset xs"
  by (simp add: sort_by_def mset_sort_by_aux)

lemma set_sort_by [simp]: "set (sort_by lt xs) = set xs"
  by (metis mset_sort_by set_mset_mset)

lemma length_sort_by [simp]: "length (sort_by lt xs) = length xs"
  by (metis mset_sort_by size_mset)

lemma distinct_sort_by [simp]: "distinct (sort_by lt xs) = distinct xs"
  by (metis mset_sort_by mset_eq_imp_distinct_iff)

lemma set_insert_by [simp]: "set (insert_by lt x ys) = insert x (set ys)"
  by (metis mset_insert_by set_mset_add_mset_insert set_mset_mset)

lemma sorted_insert_by:
  assumes "\<And>a b. lt a b \<longleftrightarrow> f a < f b" and "sorted_wrt (\<lambda>a b. f a \<le> f b) ys"
  shows "sorted_wrt (\<lambda>a b. f a \<le> (f b :: 'k :: linorder)) (insert_by lt x ys)"
  using assms(2)
proof (induction ys)
  case (Cons y ys)
  then show ?case by (auto simp: assms(1))
qed simp

lemma sorted_sort_by:
  assumes "\<And>a b. lt a b \<longleftrightarrow> f a < f b"
  shows "sorted_wrt (\<lambda>a b. f a \<le> (f b :: 'k :: linorder)) (sort_by lt xs)"
proof -
  have "sorted_wrt (\<lambda>a b. f a \<le> f b) (foldl (\<lambda>acc x. insert_by lt x acc) acc xs)"
    if "sorted_wrt (\<lambda>a b. f a \<le> f b) acc" for acc
    using that
  proof (induction xs arbitrary: acc)
    case (Cons x xs)
    show ?case using Cons.IH [OF sorted_insert_by [OF assms Cons.prems]] by simp
  qed simp
  then show ?thesis by (simp add: sort_by_def)
qed

lemma sorted_insert_by_desc:
  assumes "\<And>a b. lt a b \<longleftrightarrow> f b < f a" and "sorted_wrt (\<lambda>a b. f b \<le> f a) ys"
  shows "sorted_wrt (\<lambda>a b. f b \<le> (f a :: 'k :: linorder)) (insert_by lt x ys)"
  using assms(2)
proof (induction ys)
  case (Cons y ys)
  then show ?case by (auto simp: assms(1))
qed simp

lemma sorted_sort_by_desc:
  assumes "\<And>a b. lt a b \<longleftrightarrow> f b < f a"
  shows "sorted_wrt (\<lambda>a b. f b \<le> (f a :: 'k :: linorder)) (sort_by lt xs)"
proof -
  have "sorted_wrt (\<lambda>a b. f b \<le> f a) (foldl (\<lambda>acc x. insert_by lt x acc) acc xs)"
    if "sorted_wrt (\<lambda>a b. f b \<le> f a) acc" for acc
    using that
  proof (induction xs arbitrary: acc)
    case (Cons x xs)
    show ?case using Cons.IH [OF sorted_insert_by_desc [OF assms Cons.prems]] by simp
  qed simp
  then show ?thesis by (simp add: sort_by_def)
qed

section \<open>std::lower_bound\<close>

text \<open>The binary search of the standard library over \<open>[first, first + len)\<close>.\<close>

function lower_bound_from :: "'a :: linorder list \<Rightarrow> 'a \<Rightarrow> nat \<Rightarrow> nat \<Rightarrow> nat" where
  "lower_bound_from xs v first len =
     (if len = 0 then first
      else let half = len div 2; middle = first + half
           in if xs ! middle < v then lower_bound_from xs v (Suc middle) (len - half - 1)
              else lower_bound_from xs v first half)"
  by pat_completeness auto
termination
  by (relation "measure (\<lambda>(xs, v, first, len). len)") auto

declare lower_bound_from.simps [simp del]

lemma lower_bound_from_0 [simp]: "lower_bound_from xs v first 0 = first"
  by (simp add: lower_bound_from.simps)

definition lower_bound :: "'a :: linorder list \<Rightarrow> 'a \<Rightarrow> nat" where
  "lower_bound xs v = lower_bound_from xs v 0 (length xs)"

lemma lower_bound_from_spec:
  assumes "sorted xs" and "first + len \<le> length xs"
    and "\<And>j. j < first \<Longrightarrow> xs ! j < v"
    and "\<And>j. first + len \<le> j \<Longrightarrow> j < length xs \<Longrightarrow> v \<le> xs ! j"
  shows "first \<le> lower_bound_from xs v first len \<and> lower_bound_from xs v first len \<le> first + len \<and>
    (\<forall>j < lower_bound_from xs v first len. xs ! j < v) \<and>
    (\<forall>j. lower_bound_from xs v first len \<le> j \<and> j < length xs \<longrightarrow> v \<le> xs ! j)"
  using assms
proof (induction xs v first len rule: lower_bound_from.induct)
  case (1 xs v first len)
  show ?case
  proof (cases "len = 0")
    case True
    with "1.prems" show ?thesis by auto
  next
    case False
    define half where "half = len div 2"
    define middle where "middle = first + half"
    have mid: "middle < first + len" using False by (simp add: middle_def half_def)
    with "1.prems"(2) have midl: "middle < length xs" by simp
    show ?thesis
    proof (cases "xs ! middle < v")
      case True
      have lt: "xs ! j < v" if "j < Suc middle" for j
        using that midl True "1.prems"(1) le_less_trans [OF sorted_nth_mono [of xs j middle]]
        by (auto simp: less_Suc_eq_le)
      have "Suc middle + (len - half - 1) = first + len"
        using mid False by (simp add: middle_def half_def)
      with "1.IH"(1) [OF False half_def middle_def True "1.prems"(1) _ lt] "1.prems"(2,4)
      show ?thesis
        using False True mid
        by (simp add: lower_bound_from.simps [of xs v first len] half_def middle_def Let_def)
    next
      case nless: False
      have ge: "v \<le> xs ! j" if "first + half \<le> j" "j < length xs" for j
        using that nless "1.prems"(1) midl sorted_nth_mono [of xs middle j]
        by (auto simp: middle_def)
      have "first + half \<le> length xs" using midl by (simp add: middle_def)
      with "1.IH"(2) [OF False half_def middle_def nless "1.prems"(1) _ "1.prems"(3) ge]
      show ?thesis
        using False nless mid
        by (auto simp: lower_bound_from.simps [of xs v first len] half_def middle_def Let_def)
    qed
  qed
qed

lemma lower_bound_le: "sorted xs \<Longrightarrow> lower_bound xs v \<le> length xs"
  using lower_bound_from_spec [of xs 0 "length xs" v] by (auto simp: lower_bound_def)

lemma lower_bound_less: "sorted xs \<Longrightarrow> j < lower_bound xs v \<Longrightarrow> xs ! j < v"
  using lower_bound_from_spec [of xs 0 "length xs" v] by (auto simp: lower_bound_def)

lemma lower_bound_ge: "sorted xs \<Longrightarrow> lower_bound xs v \<le> j \<Longrightarrow> j < length xs \<Longrightarrow> v \<le> xs ! j"
  using lower_bound_from_spec [of xs 0 "length xs" v] by (auto simp: lower_bound_def)

lemma lower_bound_nth:
  assumes "sorted xs" and "distinct xs" and "i < length xs"
  shows "lower_bound xs (xs ! i) = i"
proof (rule antisym)
  show "lower_bound xs (xs ! i) \<le> i"
    using lower_bound_less [OF assms(1), of i "xs ! i"] by (meson not_le_imp_less order_less_irrefl)
  show "i \<le> lower_bound xs (xs ! i)"
  proof (rule ccontr)
    assume "\<not> i \<le> lower_bound xs (xs ! i)"
    then have *: "lower_bound xs (xs ! i) < i" by simp
    then have "xs ! i \<le> xs ! lower_bound xs (xs ! i)"
      using lower_bound_ge [OF assms(1)] assms(3) by simp
    moreover have "xs ! lower_bound xs (xs ! i) \<le> xs ! i"
      using * assms(1,3) by (simp add: sorted_nth_mono)
    ultimately show False
      using * assms by (simp add: nth_eq_iff_index_eq)
  qed
qed

end
