(* ===== verification/Buf.thy ===== *)
theory Buf
  imports Prelude
begin

text \<open>
  \<^verbatim>\<open>utils/buf.h\<close>: \<open>Buf<T>\<close>, a fixed-length array that owns a vector, owns something else, or
  borrows. A buffer is the elements it shows, whether its data pointer is null, and its owner:
  the releaser's identity is what \<open>take_vector\<close> tests.
\<close>

datatype owner = Owns_nothing | Owns_vector | Owns_other

record 'a buf =
  buf_elems :: "'a list"
  buf_null :: bool
  buf_owner :: owner

definition buf_default :: "'a buf" where
  "buf_default = \<lparr>buf_elems = [], buf_null = True, buf_owner = Owns_nothing\<rparr>"

text \<open>An empty vector's data pointer may be null or not; the owner decides either way.\<close>

definition buf_own :: "'a list \<Rightarrow> 'a buf" where
  "buf_own vector = \<lparr>buf_elems = vector, buf_null = (vector = []), buf_owner = Owns_vector\<rparr>"

text \<open>A pointer to borrow is \<open>None\<close> when null.\<close>

definition buf_borrow :: "'a list option \<Rightarrow> 'a buf" where
  "buf_borrow data = (case data of
       None \<Rightarrow> \<lparr>buf_elems = [], buf_null = True, buf_owner = Owns_nothing\<rparr>
     | Some xs \<Rightarrow> \<lparr>buf_elems = xs, buf_null = False, buf_owner = Owns_nothing\<rparr>)"

text \<open>A null releaser makes the buffer non-owning.\<close>

definition buf_adopt :: "'a list \<Rightarrow> bool \<Rightarrow> 'a buf" where
  "buf_adopt data has_releaser =
     \<lparr>buf_elems = data, buf_null = False,
      buf_owner = (if has_releaser then Owns_other else Owns_nothing)\<rparr>"

definition buf_size :: "'a buf \<Rightarrow> size_t" where
  "buf_size b = length (buf_elems b)"

definition buf_byte_size :: "nat \<Rightarrow> 'a buf \<Rightarrow> size_t" where
  "buf_byte_size sizeof b = u64 (buf_size b * sizeof)"

definition buf_empty :: "'a buf \<Rightarrow> bool" where
  "buf_empty b \<longleftrightarrow> buf_size b = 0"

definition buf_owns :: "'a buf \<Rightarrow> bool" where
  "buf_owns b \<longleftrightarrow> buf_owner b \<noteq> Owns_nothing"

text \<open>\<open>operator[]\<close> does not check; reading past the end is undefined.\<close>

definition buf_get :: "'a buf \<Rightarrow> nat \<Rightarrow> exn + 'a" where
  "buf_get b i = (if i < length (buf_elems b) then Inr (buf_elems b ! i)
     else Inl (Undefined_behaviour ''Buf::operator[] past the end''))"

definition buf_at :: "'a buf \<Rightarrow> nat \<Rightarrow> exn + 'a" where
  "buf_at b i = (if i \<ge> buf_size b then Inl (Out_of_range ''Buf index out of range'')
     else Inr (buf_elems b ! i))"

definition owned_vector :: "'a buf \<Rightarrow> 'a list option" where
  "owned_vector b = (if buf_owner b = Owns_vector then Some (buf_elems b) else None)"

text \<open>The vector taken out, and the buffer left behind.\<close>

definition take_vector :: "'a buf \<Rightarrow> exn + 'a list \<times> 'a buf" where
  "take_vector b =
     (if \<not> buf_owns b \<and> buf_null b then Inr ([], b)
      else case owned_vector b of
        None \<Rightarrow> Inl (Runtime_error ''Buf does not own a vector: borrowed and mapped buffers cannot grow'')
      | Some taken \<Rightarrow> Inr (taken, buf_default))"

section \<open>What may grow\<close>

definition growable :: "'a buf \<Rightarrow> bool" where
  "growable b \<longleftrightarrow> buf_owner b = Owns_vector \<or> buf_owner b = Owns_nothing \<and> buf_null b \<and> buf_elems b = []"

lemma growable_default [simp, intro]: "growable buf_default"
  by (simp add: growable_def buf_default_def)

lemma growable_own [simp, intro]: "growable (buf_own xs)"
  by (simp add: growable_def buf_own_def)

lemma buf_elems_simps [simp]:
  "buf_elems buf_default = []" "buf_elems (buf_own xs) = xs"
  "buf_elems (buf_borrow None) = []" "buf_elems (buf_borrow (Some xs)) = xs"
  "buf_elems (buf_adopt xs r) = xs"
  by (simp_all add: buf_default_def buf_own_def buf_borrow_def buf_adopt_def)

lemma take_vector_growable:
  "growable b \<Longrightarrow> \<exists>b'. take_vector b = Inr (buf_elems b, b') \<and> growable b' \<and> buf_elems b' = []"
  by (auto simp: take_vector_def growable_def buf_owns_def owned_vector_def buf_default_def)

lemma take_vector_borrowed:
  "take_vector (buf_borrow (Some xs)) =
     Inl (Runtime_error ''Buf does not own a vector: borrowed and mapped buffers cannot grow'')"
  by (simp add: take_vector_def buf_borrow_def buf_owns_def owned_vector_def)

end
