(* ===== verification/Float32.thy ===== *)
theory Float32
  imports Complex_Main Prelude
begin

text \<open>
  The \<^verbatim>\<open>float\<close> of the sources (\<open>weight_t\<close>, and every score): IEEE-754 binary32 values as
  their 32 bits, with the comparisons, the four arithmetic operations and the conversions from
  integers, rounding to nearest with ties to even. Values move through the program as bits, so
  copies and round trips are exact for every bit pattern, NaNs included.

  The search loops are written once for any type with the operations they use (\<open>zero\<close>, \<open>plus\<close>,
  \<open>times\<close>, \<open>ord\<close>); \<open>f32\<close> is an instance of these classes, so each loop runs on floats, and the
  theorems about it say in the sort of the weights which laws of arithmetic they need.
\<close>

section \<open>Representation\<close>

datatype f32 = F32 (f32_bits: "32 word")

definition f32_exp :: "f32 \<Rightarrow> int" where
  "f32_exp x = (uint (f32_bits x) div 8388608) mod 256"

definition f32_man :: "f32 \<Rightarrow> int" where
  "f32_man x = uint (f32_bits x) mod 8388608"

definition f32_sign :: "f32 \<Rightarrow> bool" where
  "f32_sign x \<longleftrightarrow> uint (f32_bits x) \<ge> 2147483648"

definition is_nan :: "f32 \<Rightarrow> bool" where
  "is_nan x \<longleftrightarrow> f32_exp x = 255 \<and> f32_man x \<noteq> 0"

definition is_inf :: "f32 \<Rightarrow> bool" where
  "is_inf x \<longleftrightarrow> f32_exp x = 255 \<and> f32_man x = 0"

definition f32_finite :: "f32 \<Rightarrow> bool" where
  "f32_finite x \<longleftrightarrow> f32_exp x \<noteq> 255"

text \<open>A finite float is \<open>f32_sig x * 2 ^ f32_scale x\<close>, with an integer significand.\<close>

definition f32_sig :: "f32 \<Rightarrow> int" where
  "f32_sig x =
     (let m = (if f32_exp x = 0 then f32_man x else 8388608 + f32_man x)
      in if f32_sign x then - m else m)"

definition f32_scale :: "f32 \<Rightarrow> int" where
  "f32_scale x = (if f32_exp x = 0 then -149 else f32_exp x - 150)"

definition pow2 :: "int \<Rightarrow> rat" where
  "pow2 k = (if 0 \<le> k then 2 ^ nat k else 1 / 2 ^ nat (- k))"

definition f32_val :: "f32 \<Rightarrow> rat" where
  "f32_val x = of_int (f32_sig x) * pow2 (f32_scale x)"

definition f32_pack :: "bool \<Rightarrow> int \<Rightarrow> f32" where
  "f32_pack s n = F32 (word_of_int ((if s then 2147483648 else 0) + n))"

definition f32_nan :: f32 where
  "f32_nan = F32 0x7FC00000"

definition f32_inf :: "bool \<Rightarrow> f32" where
  "f32_inf s = f32_pack s 0x7F800000"

section \<open>Rounding\<close>

function bit_length :: "int \<Rightarrow> int" where
  "bit_length n = (if n \<le> 0 then 0 else 1 + bit_length (n div 2))"
  by pat_completeness auto
termination
  by (relation "measure nat") auto

declare bit_length.simps [simp del]

definition div_half_even :: "int \<Rightarrow> int \<Rightarrow> int" where
  "div_half_even m d =
     (let q = m div d; r = 2 * (m mod d)
      in if r < d then q else if r > d then q + 1 else if even q then q else q + 1)"

text \<open>
  Rounds \<open>m * 2 ^ e\<close> (\<open>m\<close> not negative). The result is a multiple \<open>n\<close> of the quantum
  \<open>2 ^ q\<close>; biased exponent and mantissa then come out of one addition, which also carries a
  significand that rounded up into the next exponent and an exponent that overflowed into
  infinity.
\<close>

definition f32_round :: "bool \<Rightarrow> int \<Rightarrow> int \<Rightarrow> f32" where
  "f32_round s m e =
     (if m = 0 then f32_pack s 0
      else let q = max (e + bit_length m - 24) (-149);
               n = (if q \<le> e then m * 2 ^ nat (e - q) else div_half_even m (2 ^ nat (q - e)));
               bits = (if n < 8388608 then n else (q + 149) * 8388608 + n)
           in if bits \<ge> 0x7F800000 then f32_inf s else f32_pack s bits)"

definition f32_of_dyadic :: "int \<Rightarrow> int \<Rightarrow> f32" where
  "f32_of_dyadic m e = f32_round (m < 0) \<bar>m\<bar> e"

definition f32_of_int :: "int \<Rightarrow> f32" where
  "f32_of_int i = f32_of_dyadic i 0"

definition f32_of_nat :: "nat \<Rightarrow> f32" where
  "f32_of_nat n = f32_of_int (int n)"

section \<open>Arithmetic and comparison\<close>

definition f32_neg :: "f32 \<Rightarrow> f32" where
  "f32_neg x = F32 (f32_bits x + 0x80000000)"

text \<open>Both significands brought to the smaller of the two scales.\<close>

definition f32_align :: "f32 \<Rightarrow> f32 \<Rightarrow> int \<times> int \<times> int" where
  "f32_align x y =
     (let e = min (f32_scale x) (f32_scale y)
      in (f32_sig x * 2 ^ nat (f32_scale x - e), f32_sig y * 2 ^ nat (f32_scale y - e), e))"

definition f32_add :: "f32 \<Rightarrow> f32 \<Rightarrow> f32" where
  "f32_add x y =
     (if is_nan x \<or> is_nan y then f32_nan
      else if is_inf x then (if is_inf y \<and> f32_sign x \<noteq> f32_sign y then f32_nan else x)
      else if is_inf y then y
      else let (a, b, e) = f32_align x y
           in if a + b = 0 then f32_pack (f32_sign x \<and> f32_sign y) 0 else f32_of_dyadic (a + b) e)"

definition f32_mul :: "f32 \<Rightarrow> f32 \<Rightarrow> f32" where
  "f32_mul x y =
     (let s = (f32_sign x \<noteq> f32_sign y)
      in if is_nan x \<or> is_nan y then f32_nan
         else if is_inf x then (if f32_sig y = 0 then f32_nan else f32_inf s)
         else if is_inf y then (if f32_sig x = 0 then f32_nan else f32_inf s)
         else f32_round s (\<bar>f32_sig x\<bar> * \<bar>f32_sig y\<bar>) (f32_scale x + f32_scale y))"

text \<open>
  The quotient is computed to 64 extra bits with a sticky last bit, which rounds like the exact
  quotient.
\<close>

definition f32_div :: "f32 \<Rightarrow> f32 \<Rightarrow> f32" where
  "f32_div x y =
     (let s = (f32_sign x \<noteq> f32_sign y)
      in if is_nan x \<or> is_nan y then f32_nan
         else if is_inf x then (if is_inf y then f32_nan else f32_inf s)
         else if is_inf y then f32_pack s 0
         else if f32_sig y = 0 then (if f32_sig x = 0 then f32_nan else f32_inf s)
         else let n = \<bar>f32_sig x\<bar> * 2 ^ 64; d = \<bar>f32_sig y\<bar>;
                  m = 2 * (n div d) + (if n mod d = 0 then 0 else 1)
              in f32_round s m (f32_scale x - f32_scale y - 65))"

definition f32_lt :: "f32 \<Rightarrow> f32 \<Rightarrow> bool" where
  "f32_lt x y \<longleftrightarrow>
     (if is_nan x \<or> is_nan y then False
      else if is_inf x then f32_sign x \<and> \<not> (is_inf y \<and> f32_sign y)
      else if is_inf y then \<not> f32_sign y
      else let (a, b, e) = f32_align x y in a < b)"

definition f32_le :: "f32 \<Rightarrow> f32 \<Rightarrow> bool" where
  "f32_le x y \<longleftrightarrow> \<not> is_nan x \<and> \<not> is_nan y \<and> \<not> f32_lt y x"

instantiation f32 :: "{zero, one, plus, uminus, minus, times, inverse, ord}"
begin
definition zero_f32 :: f32 where "zero_f32 = F32 0"
definition one_f32 :: f32 where "one_f32 = F32 0x3F800000"
definition plus_f32 :: "f32 \<Rightarrow> f32 \<Rightarrow> f32" where "plus_f32 = f32_add"
definition uminus_f32 :: "f32 \<Rightarrow> f32" where "uminus_f32 = f32_neg"
definition minus_f32 :: "f32 \<Rightarrow> f32 \<Rightarrow> f32" where "minus_f32 x y = f32_add x (f32_neg y)"
definition times_f32 :: "f32 \<Rightarrow> f32 \<Rightarrow> f32" where "times_f32 = f32_mul"
definition divide_f32 :: "f32 \<Rightarrow> f32 \<Rightarrow> f32" where "divide_f32 = f32_div"
definition inverse_f32 :: "f32 \<Rightarrow> f32" where "inverse_f32 x = f32_div (F32 0x3F800000) x"
definition less_f32 :: "f32 \<Rightarrow> f32 \<Rightarrow> bool" where "less_f32 = f32_lt"
definition less_eq_f32 :: "f32 \<Rightarrow> f32 \<Rightarrow> bool" where "less_eq_f32 = f32_le"
instance ..
end

section \<open>Bytes\<close>

text \<open>\<^verbatim>\<open>*reinterpret_cast<const float*>(ptr)\<close> on a little-endian host.\<close>

definition f32_bytes :: "f32 \<Rightarrow> byte list" where
  "f32_bytes x = le_bytes 4 (unat (f32_bits x))"

definition f32_of_bytes :: "byte list \<Rightarrow> f32" where
  "f32_of_bytes bs = F32 (of_nat (le_nat bs))"

lemma length_f32_bytes [simp, codec_simps]: "length (f32_bytes x) = 4"
  by (simp add: f32_bytes_def)

lemma unat32_less [simp]: "unat (w :: 32 word) < 4294967296"
proof -
  have "unat w < 2 ^ LENGTH(32)" by (rule unsigned_less)
  then show ?thesis by simp
qed

lemma f32_of_bytes_f32_bytes [simp, codec_simps]: "f32_of_bytes (f32_bytes x) = x"
  by (cases x) (simp add: f32_bytes_def f32_of_bytes_def le_nat_le_bytes_mod)

lemma f32_bytes_f32_of_bytes:
  assumes "length bs = 4"
  shows "f32_bytes (f32_of_bytes bs) = bs"
proof -
  have "le_nat bs < 4294967296" using le_nat_less [of bs] assms by simp
  then have "unat (of_nat (le_nat bs) :: 32 word) = le_nat bs"
    by (simp add: unat_of_nat)
  then show ?thesis using le_bytes_le_nat [of bs] assms
    by (simp add: f32_bytes_def f32_of_bytes_def)
qed

section \<open>Sanity checks of the arithmetic\<close>

text \<open>
  \<open>1 + 1 = 2\<close>; \<open>0.1 + 0.2\<close> as floats is the float \<open>0x3E99999A\<close>; \<open>2^24 + 1\<close> rounds to even;
  an overflowing product is infinite; a NaN compares false.
\<close>

lemmas f32_eval = f32_add_def f32_mul_def f32_div_def f32_lt_def f32_le_def f32_neg_def
  f32_align_def f32_of_dyadic_def f32_round_def div_half_even_def f32_pack_def f32_inf_def
  f32_nan_def f32_sig_def f32_scale_def f32_sign_def f32_exp_def f32_man_def is_nan_def is_inf_def
  plus_f32_def times_f32_def less_f32_def less_eq_f32_def one_f32_def zero_f32_def minus_f32_def
  uminus_f32_def divide_f32_def f32_of_int_def f32_of_nat_def bit_length.simps

lemma f32_arith_examples:
  "(1 :: f32) + 1 = F32 0x40000000"
  "F32 0x3DCCCCCD + F32 0x3E4CCCCD = F32 0x3E99999A"
  "F32 0x4B800000 + 1 = F32 0x4B800000"
  "F32 0x7F7FFFFF * F32 0x40000000 = F32 0x7F800000"
  "1 / F32 0x40400000 = F32 0x3EAAAAAB"
  "\<not> f32_nan < 1" "\<not> 1 \<le> f32_nan" "(1 :: f32) < F32 0x40000000"
  by (simp_all add: f32_eval)

end
