(* ===== verification/Stream_IO.thy ===== *)
theory Stream_IO
  imports Buf Float32
begin

text \<open>
  The byte streams: \<^verbatim>\<open>io/buffered_io.cpp\<close>, \<^verbatim>\<open>utils/mmap_cursor.h\<close>, \<^verbatim>\<open>io/align.h\<close> and \<open>read_owned\<close>
  of \<^verbatim>\<open>utils/buf.h\<close>. A writer is the bytes written so far; a reader is a byte string and a
  position in it; a cursor has in addition the address its bytes are mapped at.
\<close>

section \<open>BufferedIOWriter and BufferedIOReader\<close>

type_synonym writer = "byte list"

definition buffered_write :: "byte list \<Rightarrow> writer \<Rightarrow> writer" where
  "buffered_write src buffer = buffer @ src"

definition writer_pos :: "writer \<Rightarrow> size_t" where
  "writer_pos buffer = length buffer"

record reader =
  rd_data :: "byte list"
  rd_pos :: nat

definition reader_new :: "byte list \<Rightarrow> reader" where
  "reader_new data = \<lparr>rd_data = data, rd_pos = 0\<rparr>"

definition reader_remaining :: "reader \<Rightarrow> size_t" where
  "reader_remaining r = length (rd_data r) - rd_pos r"

text \<open>The bytes copied, the number of items read, and the reader. A short read is not an error.\<close>

definition buffered_read :: "size_t \<Rightarrow> size_t \<Rightarrow> reader \<Rightarrow> byte list \<times> size_t \<times> reader" where
  "buffered_read sz nitems r =
     (let total_bytes = u64 (sz * nitems);
          available = length (rd_data r) - rd_pos r;
          to_read = min total_bytes available
      in (take to_read (drop (rd_pos r) (rd_data r)), to_read div sz,
          r\<lparr>rd_pos := rd_pos r + to_read\<rparr>))"

definition reader_reset :: "reader \<Rightarrow> reader" where
  "reader_reset r = r\<lparr>rd_pos := 0\<rparr>"

section \<open>Scalars\<close>

text \<open>
  \<^verbatim>\<open>T x = 0; io_reader->read(&x, sizeof(T), 1);\<close> ignores the cnt: on a short read the bytes
  not copied stay zero, which is what \<open>le_nat\<close> of the copied prefix says.
\<close>

definition write_nat :: "nat \<Rightarrow> nat \<Rightarrow> writer \<Rightarrow> exn + writer" where
  "write_nat width x w = Inr (buffered_write (le_bytes width x) w)"

definition read_nat :: "nat \<Rightarrow> reader \<Rightarrow> exn + nat \<times> reader" where
  "read_nat width r = (case buffered_read width 1 r of (bs, _, r') \<Rightarrow> Inr (le_nat bs, r'))"

abbreviation write_size_t :: "size_t \<Rightarrow> writer \<Rightarrow> exn + writer" where
  "write_size_t \<equiv> write_nat 8"

abbreviation read_size_t :: "reader \<Rightarrow> exn + size_t \<times> reader" where
  "read_size_t \<equiv> read_nat 8"

section \<open>MmapCursor\<close>

record cursor =
  mc_base :: nat
  mc_data :: "byte list"
  mc_pos :: nat

definition mmap_eof :: exn where
  "mmap_eof = Runtime_error ''mmap: unexpected end of index file''"

definition cursor_remaining :: "cursor \<Rightarrow> size_t" where
  "cursor_remaining c = length (mc_data c) - mc_pos c"

definition cursor_ensure :: "size_t \<Rightarrow> cursor \<Rightarrow> exn + unit" where
  "cursor_ensure bytes c = throw_if (bytes > length (mc_data c) - mc_pos c) mmap_eof"

definition cursor_skip :: "size_t \<Rightarrow> cursor \<Rightarrow> exn + cursor" where
  "cursor_skip bytes c = bindE (cursor_ensure bytes c) (\<lambda>_. Inr (c\<lparr>mc_pos := mc_pos c + bytes\<rparr>))"

definition map_nat :: "nat \<Rightarrow> cursor \<Rightarrow> exn + nat \<times> cursor" where
  "map_nat width c = bindE (cursor_ensure width c)
     (\<lambda>_. Inr (le_nat (take width (drop (mc_pos c) (mc_data c))), c\<lparr>mc_pos := mc_pos c + width\<rparr>))"

abbreviation map_size_t :: "cursor \<Rightarrow> exn + size_t \<times> cursor" where
  "map_size_t \<equiv> map_nat 8"

text \<open>
  \<open>read_array<T>\<close>: null for no elements, otherwise a pointer to bytes of the mapping, given here
  as those bytes. The alignment test is on the address.
\<close>

definition cursor_read_array ::
  "nat \<Rightarrow> nat \<Rightarrow> size_t \<Rightarrow> cursor \<Rightarrow> exn + byte list option \<times> cursor" where
  "cursor_read_array sizeof alignof n c =
     (if n = 0 then Inr (None, c)
      else if n > cursor_remaining c div sizeof then Inl mmap_eof
      else if (mc_base c + mc_pos c) mod alignof \<noteq> 0
      then Inl (Runtime_error ''mmap: array is misaligned for its element type'')
      else Inr (Some (take (n * sizeof) (drop (mc_pos c) (mc_data c))),
                c\<lparr>mc_pos := mc_pos c + n * sizeof\<rparr>))"

section \<open>Padding\<close>

definition kMaxAlignment :: nat where
  "kMaxAlignment = 8"

definition padding_for :: "size_t \<Rightarrow> size_t \<Rightarrow> exn + size_t" where
  "padding_for pos alignment =
     (if alignment = 0 then Inl (Runtime_error ''index file declares a zero element width'')
      else Inr ((alignment - pos mod alignment) mod alignment))"

text \<open>
  The zeros come from, and the padding is read into, an array of \<open>kMaxAlignment\<close> bytes: more
  than that runs off its end.
\<close>

definition pad_to :: "size_t \<Rightarrow> writer \<Rightarrow> exn + writer" where
  "pad_to alignment w = bindE (padding_for (writer_pos w) alignment) (\<lambda>bytes.
     if bytes > kMaxAlignment then Inl (Undefined_behaviour ''padding longer than kMaxAlignment'')
     else if bytes > 0 then Inr (buffered_write (replicate bytes 0) w) else Inr w)"

text \<open>Only the bytes the stream has are stored, so it is those that must fit.\<close>

definition skip_padding :: "size_t \<Rightarrow> reader \<Rightarrow> exn + reader" where
  "skip_padding alignment r = bindE (padding_for (rd_pos r) alignment) (\<lambda>bytes.
     if bytes > 0
     then case buffered_read 1 bytes r of (bs, _, r') \<Rightarrow>
       if length bs > kMaxAlignment then Inl (Undefined_behaviour ''padding longer than kMaxAlignment'')
       else Inr r'
     else Inr r)"

definition cursor_skip_padding :: "size_t \<Rightarrow> cursor \<Rightarrow> exn + cursor" where
  "cursor_skip_padding alignment c =
     bindE (padding_for (mc_pos c) alignment) (\<lambda>bytes. cursor_skip bytes c)"

section \<open>Arrays\<close>

text \<open>The bytes of an array, and an array's elements from its bytes.\<close>

definition encode_array :: "('a \<Rightarrow> byte list) \<Rightarrow> 'a list \<Rightarrow> byte list" where
  "encode_array enc xs = concat (map enc xs)"

fun decode_array :: "(byte list \<Rightarrow> 'a) \<Rightarrow> nat \<Rightarrow> nat \<Rightarrow> byte list \<Rightarrow> 'a list" where
  "decode_array dec sizeof 0 bs = []"
| "decode_array dec sizeof (Suc n) bs =
     dec (take sizeof bs) # decode_array dec sizeof n (drop sizeof bs)"

text \<open>\<^verbatim>\<open>std::vector<T> values(cnt)\<close> throws past \<open>max_size\<close>; a failed allocation is not modelled.\<close>

definition vector_max_size :: "nat \<Rightarrow> nat" where
  "vector_max_size sizeof = 9223372036854775807 div sizeof"

definition read_owned ::
  "(byte list \<Rightarrow> 'a) \<Rightarrow> nat \<Rightarrow> size_t \<Rightarrow> reader \<Rightarrow> exn + 'a buf \<times> reader" where
  "read_owned dec sizeof cnt r =
     (if cnt = 0 then Inr (buf_default, r)
      else if cnt > vector_max_size sizeof
      then Inl (Logic_error ''cannot create std::vector larger than max_size()'')
      else case buffered_read sizeof cnt r of (bs, n, r') \<Rightarrow>
        if n \<noteq> cnt then Inl (Runtime_error ''Truncated array in index file'')
        else Inr (buf_own (decode_array dec sizeof cnt bs), r'))"

definition write_padded :: "('a \<Rightarrow> byte list) \<Rightarrow> size_t \<Rightarrow> 'a list \<Rightarrow> writer \<Rightarrow> exn + writer" where
  "write_padded enc alignment data w = bindE (pad_to alignment w) (\<lambda>w'.
     if length data > 0 then Inr (buffered_write (encode_array enc data) w') else Inr w')"

definition read_padded ::
  "(byte list \<Rightarrow> 'a) \<Rightarrow> nat \<Rightarrow> size_t \<Rightarrow> size_t \<Rightarrow> reader \<Rightarrow> exn + 'a buf \<times> reader" where
  "read_padded dec sizeof alignment cnt r =
     bindE (skip_padding alignment r) (read_owned dec sizeof cnt)"

definition map_array ::
  "(byte list \<Rightarrow> 'a) \<Rightarrow> nat \<Rightarrow> nat \<Rightarrow> size_t \<Rightarrow> cursor \<Rightarrow> exn + 'a list option \<times> cursor" where
  "map_array dec sizeof alignof cnt c = bindE (cursor_read_array sizeof alignof cnt c)
     (\<lambda>(p, c'). Inr (map_option (decode_array dec sizeof cnt) p, c'))"

text \<open>Padding skipped, then the array, with the address it was looked for at.\<close>

definition map_padded ::
  "(byte list \<Rightarrow> 'a) \<Rightarrow> nat \<Rightarrow> nat \<Rightarrow> size_t \<Rightarrow> size_t \<Rightarrow> cursor \<Rightarrow>
     exn + ('a list option \<times> nat) \<times> cursor" where
  "map_padded dec sizeof alignof alignment cnt c =
     bindE (cursor_skip_padding alignment c) (\<lambda>c1.
     bindE (map_array dec sizeof alignof cnt c1) (\<lambda>(p, c2). Inr ((p, mc_base c1 + mc_pos c1), c2)))"

definition borrow_padded ::
  "(byte list \<Rightarrow> 'a) \<Rightarrow> nat \<Rightarrow> nat \<Rightarrow> size_t \<Rightarrow> size_t \<Rightarrow> cursor \<Rightarrow> exn + 'a buf \<times> cursor" where
  "borrow_padded dec sizeof alignof alignment cnt c =
     bindE (map_padded dec sizeof alignof alignment cnt c) (\<lambda>((p, _), c2). Inr (buf_borrow p, c2))"

section \<open>Round trips\<close>

text \<open>
  What a writer appends, a reader placed at its start reads back, and stands just past it
  afterwards, whatever was written before and follows after. The stream is abstract: \<open>mk\<close> makes
  one of bytes and a position.
\<close>

definition round_trips ::
  "(byte list \<Rightarrow> nat \<Rightarrow> 'r) \<Rightarrow> (writer \<Rightarrow> exn + writer) \<Rightarrow> ('r \<Rightarrow> exn + 'a \<times> 'r) \<Rightarrow>
     ('a \<Rightarrow> bool) \<Rightarrow> bool" where
  "round_trips mk ser des P \<longleftrightarrow> (\<forall>w rest. \<exists>out y. ser w = Inr (w @ out) \<and> P y \<and>
     des (mk (w @ out @ rest) (length w)) = Inr (y, mk (w @ out @ rest) (length w + length out)))"

definition mk_reader :: "byte list \<Rightarrow> nat \<Rightarrow> reader" where
  "mk_reader data pos = \<lparr>rd_data = data, rd_pos = pos\<rparr>"

definition mk_cursor :: "nat \<Rightarrow> byte list \<Rightarrow> nat \<Rightarrow> cursor" where
  "mk_cursor base data pos = \<lparr>mc_base = base, mc_data = data, mc_pos = pos\<rparr>"

lemma round_tripsI:
  assumes "\<And>w rest. \<exists>out y. ser w = Inr (w @ out) \<and> P y \<and>
     des (mk (w @ out @ rest) (length w)) = Inr (y, mk (w @ out @ rest) (length w + length out))"
  shows "round_trips mk ser des P"
  using assms by (simp add: round_trips_def)

lemma round_trips_bind:
  assumes "round_trips mk s1 d1 P" and "\<And>x. P x \<Longrightarrow> round_trips mk s2 (d2 x) Q"
  shows "round_trips mk (\<lambda>w. bindE (s1 w) s2) (\<lambda>r. bindE (d1 r) (\<lambda>(x, r'). d2 x r')) Q"
proof (rule round_tripsI)
  fix w rest :: "byte list"
  have "\<exists>out1. s1 w = Inr (w @ out1)" using assms(1) by (meson round_trips_def)
  then obtain o1 where s1: "s1 w = Inr (w @ o1)" by blast
  have "\<exists>x. P x" using assms(1) by (meson round_trips_def)
  then have "\<exists>o2. s2 (w @ o1) = Inr ((w @ o1) @ o2)" using assms(2) by (meson round_trips_def)
  then obtain o2 where s2: "s2 (w @ o1) = Inr ((w @ o1) @ o2)" by blast
  obtain x where x: "P x" "d1 (mk (w @ o1 @ o2 @ rest) (length w)) =
      Inr (x, mk (w @ o1 @ o2 @ rest) (length w + length o1))"
    using assms(1) [unfolded round_trips_def, rule_format, of w "o2 @ rest"] s1 by auto
  obtain y where "Q y" "d2 x (mk ((w @ o1) @ o2 @ rest) (length (w @ o1))) =
      Inr (y, mk ((w @ o1) @ o2 @ rest) (length (w @ o1) + length o2))"
    using assms(2) [OF x(1), unfolded round_trips_def, rule_format, of "w @ o1" rest] s2 by auto
  then show "\<exists>out y. bindE (s1 w) s2 = Inr (w @ out) \<and> Q y \<and>
      bindE (d1 (mk (w @ out @ rest) (length w))) (\<lambda>(x, r'). d2 x r') =
        Inr (y, mk (w @ out @ rest) (length w + length out))"
    using s1 s2 x by (intro exI [of _ "o1 @ o2"] exI [of _ y]) (simp add: add.assoc)
qed

lemma round_trips_return: "P y \<Longrightarrow> round_trips mk Inr (\<lambda>r. Inr (y, r)) P"
  by (rule round_tripsI) (intro exI [of _ "[]"], auto)

lemma round_trips_mono:
  "round_trips mk s d P \<Longrightarrow> (\<And>x. P x \<Longrightarrow> Q x) \<Longrightarrow> round_trips mk s d Q"
  unfolding round_trips_def by meson

text \<open>The result built from what was read.\<close>

lemma round_trips_map:
  assumes "round_trips mk s d P" and "\<And>x. P x \<Longrightarrow> Q (f x)"
  shows "round_trips mk s (\<lambda>r. bindE (d r) (\<lambda>(x, r'). Inr (f x, r'))) Q"
proof (rule round_tripsI)
  fix w rest :: "byte list"
  obtain out y where "s w = Inr (w @ out)" "P y"
    "d (mk (w @ out @ rest) (length w)) = Inr (y, mk (w @ out @ rest) (length w + length out))"
    using assms(1) unfolding round_trips_def by meson
  then show "\<exists>out y. s w = Inr (w @ out) \<and> Q y \<and>
      bindE (d (mk (w @ out @ rest) (length w))) (\<lambda>(x, r'). Inr (f x, r')) =
        Inr (y, mk (w @ out @ rest) (length w + length out))"
    using assms(2) by (intro exI [of _ out] exI [of _ "f y"]) simp
qed

lemma buffered_read_mk:
  assumes "length bs = sizeof * n" and "sizeof * n < 18446744073709551616" and "0 < sizeof"
  shows "buffered_read sizeof n (mk_reader (w @ bs @ rest) (length w)) =
    (bs, n, mk_reader (w @ bs @ rest) (length w + length bs))"
  using assms by (simp add: buffered_read_def mk_reader_def Let_def)

lemma round_trips_read_nat:
  assumes "x < 256 ^ width" and "0 < width" and "width \<le> 8"
  shows "round_trips mk_reader (write_nat width x) (read_nat width) ((=) x)"
proof (rule round_tripsI)
  fix w rest :: "byte list"
  show "\<exists>out y. write_nat width x w = Inr (w @ out) \<and> x = y \<and>
    read_nat width (mk_reader (w @ out @ rest) (length w)) =
      Inr (y, mk_reader (w @ out @ rest) (length w + length out))"
    using assms buffered_read_mk [of "le_bytes width x" width 1 w rest]
    by (intro exI [of _ "le_bytes width x"] exI [of _ x])
      (simp add: write_nat_def buffered_write_def read_nat_def)
qed

lemma round_trips_map_nat:
  assumes "x < 256 ^ width"
  shows "round_trips (mk_cursor base) (write_nat width x) (map_nat width) ((=) x)"
proof (rule round_tripsI)
  fix w rest :: "byte list"
  show "\<exists>out y. write_nat width x w = Inr (w @ out) \<and> x = y \<and>
    map_nat width (mk_cursor base (w @ out @ rest) (length w)) =
      Inr (y, mk_cursor base (w @ out @ rest) (length w + length out))"
    using assms
    by (intro exI [of _ "le_bytes width x"] exI [of _ x])
      (simp add: write_nat_def buffered_write_def map_nat_def cursor_ensure_def mk_cursor_def)
qed

subsection \<open>Padding\<close>

lemma padding_for_less: "padding_for pos a = Inr n \<Longrightarrow> n < a \<and> (pos + n) mod a = 0"
proof -
  assume "padding_for pos a = Inr n"
  then have a: "0 < a" and n: "n = (a - pos mod a) mod a"
    by (auto simp: padding_for_def split: if_splits)
  have "(pos + n) mod a = (pos mod a + (a - pos mod a)) mod a" by (simp add: n mod_simps)
  also have "pos mod a + (a - pos mod a) = a" using a by (simp add: less_imp_le)
  finally show ?thesis using a n by simp
qed

lemma padding_for_total:
  assumes "0 < a"
  shows "\<exists>n. padding_for pos a = Inr n \<and> n < a \<and> (pos + n) mod a = 0"
proof -
  have "padding_for pos a = Inr ((a - pos mod a) mod a)" using assms by (simp add: padding_for_def)
  from conjI [OF this padding_for_less [OF this]] show ?thesis by (rule exI)
qed

lemma round_trips_padding:
  assumes "0 < a" and "a \<le> kMaxAlignment"
  shows "round_trips mk_reader (pad_to a) (\<lambda>r. bindE (skip_padding a r) (\<lambda>r'. Inr ((), r'))) (\<lambda>_. True)"
proof (rule round_tripsI)
  fix w rest :: "byte list"
  obtain n where n: "padding_for (length w) a = Inr n" "n < a" using padding_for_total [OF assms(1), of "length w"] by (elim exE conjE)
  have "skip_padding a (mk_reader (w @ replicate n 0 @ rest) (length w)) =
      Inr (mk_reader (w @ replicate n 0 @ rest) (length w + n))"
    using n assms buffered_read_mk [of "replicate n 0" 1 n w rest]
    by (auto simp: skip_padding_def mk_reader_def kMaxAlignment_def)
  moreover have "pad_to a w = Inr (w @ replicate n 0)"
    using n assms by (auto simp: pad_to_def writer_pos_def buffered_write_def)
  ultimately show "\<exists>out y. pad_to a w = Inr (w @ out) \<and> True \<and>
      bindE (skip_padding a (mk_reader (w @ out @ rest) (length w))) (\<lambda>r'. Inr ((), r')) =
        Inr (y, mk_reader (w @ out @ rest) (length w + length out))"
    by (intro exI [of _ "replicate n 0"] exI [of _ "()"]) simp
qed

section \<open>Element codecs\<close>

locale elem_codec =
  fixes enc :: "'a \<Rightarrow> byte list" and dec :: "byte list \<Rightarrow> 'a" and sizeof :: nat and valid :: "'a \<Rightarrow> bool"
  assumes sizeof_pos: "0 < sizeof"
    and length_enc: "length (enc x) = sizeof"
    and dec_enc: "valid x \<Longrightarrow> dec (enc x) = x"
begin

lemma length_encode: "length (encode_array enc xs) = sizeof * length xs"
  by (induction xs) (simp_all add: encode_array_def length_enc)

lemma decode_encode:
  "\<forall>x \<in> set xs. valid x \<Longrightarrow> decode_array dec sizeof (length xs) (encode_array enc xs @ rest) = xs"
  by (induction xs) (simp_all add: encode_array_def length_enc dec_enc)

lemma fits: "n \<le> vector_max_size sizeof \<Longrightarrow> sizeof * n < 18446744073709551616"
proof -
  assume "n \<le> vector_max_size sizeof"
  then have "sizeof * n \<le> sizeof * (9223372036854775807 div sizeof)"
    by (simp add: vector_max_size_def)
  also have "\<dots> \<le> 9223372036854775807" by simp
  finally show ?thesis by simp
qed

text \<open>An array written with \<open>write_padded\<close> is read back by \<open>read_padded\<close>, into a buffer that owns it.\<close>

lemma round_trips_read:
  assumes "0 < a" and "a \<le> kMaxAlignment" and "\<forall>x \<in> set xs. valid x"
    and "length xs \<le> vector_max_size sizeof"
  shows "round_trips mk_reader (write_padded enc a xs) (read_padded dec sizeof a (length xs))
    (\<lambda>b. buf_elems b = xs \<and> growable b)"
proof (rule round_tripsI)
  fix w rest :: "byte list"
  let ?e = "encode_array enc xs"
  obtain pad where pad: "pad_to a w = Inr (w @ pad)"
    "skip_padding a (mk_reader (w @ pad @ ?e @ rest) (length w)) =
      Inr (mk_reader (w @ pad @ ?e @ rest) (length w + length pad))"
    using round_trips_padding [OF assms(1,2), unfolded round_trips_def, rule_format, of w "?e @ rest"]
    by (auto simp: err_simps)
  have "decode_array dec sizeof (length xs) ?e = xs" using decode_encode [OF assms(3), of "[]"] by simp
  moreover have "buffered_read sizeof (length xs) (mk_reader ((w @ pad) @ ?e @ rest) (length (w @ pad))) =
      (?e, length xs, mk_reader ((w @ pad) @ ?e @ rest) (length (w @ pad) + length ?e))"
    by (rule buffered_read_mk) (use assms(4) fits sizeof_pos in \<open>auto simp: length_encode\<close>)
  ultimately have "\<exists>b. read_owned dec sizeof (length xs) (mk_reader (w @ pad @ ?e @ rest) (length w + length pad)) =
      Inr (b, mk_reader (w @ pad @ ?e @ rest) (length w + (length pad + length ?e))) \<and>
      buf_elems b = xs \<and> growable b"
    using assms(4) by (cases "xs = []") (simp_all add: read_owned_def encode_array_def add.assoc)
  then obtain b where "read_owned dec sizeof (length xs) (mk_reader (w @ pad @ ?e @ rest) (length w + length pad)) =
      Inr (b, mk_reader (w @ pad @ ?e @ rest) (length w + (length pad + length ?e)))"
    "buf_elems b = xs" "growable b" by blast
  then show "\<exists>out y. write_padded enc a xs w = Inr (w @ out) \<and> (buf_elems y = xs \<and> growable y) \<and>
      read_padded dec sizeof a (length xs) (mk_reader (w @ out @ rest) (length w)) =
        Inr (y, mk_reader (w @ out @ rest) (length w + length out))"
    using pad by (intro exI [of _ "pad @ ?e"] exI [of _ b])
      (auto simp: write_padded_def buffered_write_def read_padded_def encode_array_def)
qed

text \<open>And found in place in a mapping that starts on an aligned address.\<close>

lemma round_trips_mapped:
  assumes "0 < a" and "a \<le> kMaxAlignment" and "\<forall>x \<in> set xs. valid x"
    and "al dvd a" and "a dvd base"
  shows "round_trips (mk_cursor base) (write_padded enc a xs) (map_padded dec sizeof al a (length xs))
    (\<lambda>(p, addr). p = (if xs = [] then None else Some xs) \<and> addr mod a = 0)"
proof (rule round_tripsI)
  fix w rest :: "byte list"
  let ?e = "encode_array enc xs"
  obtain n where n: "padding_for (length w) a = Inr n" "n < a" "(length w + n) mod a = 0"
    using padding_for_total [OF assms(1), of "length w"] by (elim exE conjE)
  let ?data = "w @ (replicate n 0 @ ?e) @ rest"
  have "a dvd length w + n" using n(3) by (rule mod_0_imp_dvd)
  then have "a dvd base + (length w + n)" using assms(5) by (rule dvd_add [rotated])
  then have aligned: "(base + (length w + n)) mod a = 0" "(base + (length w + n)) mod al = 0"
    by (rule dvd_imp_mod_0, intro dvd_imp_mod_0 dvd_trans [OF assms(4)])
  have dec: "decode_array dec sizeof (length xs) ?e = xs" using decode_encode [OF assms(3), of "[]"] by simp
  have "sizeof * length xs \<le> sizeof * length xs + length rest" by simp
  then have room: "length xs \<le> (sizeof * length xs + length rest) div sizeof"
    using sizeof_pos by (simp add: less_eq_div_iff_mult_less_eq mult.commute)
  have "map_padded dec sizeof al a (length xs) (mk_cursor base ?data (length w)) =
      Inr ((if xs = [] then None else Some xs, base + (length w + n)),
           mk_cursor base ?data (length w + (n + length ?e)))"
    using n(1) aligned dec room
    by (simp add: map_padded_def map_array_def cursor_skip_padding_def cursor_skip_def
        cursor_ensure_def cursor_read_array_def cursor_remaining_def mk_cursor_def
        length_encode encode_array_def [of enc "[]"] mult.commute add.assoc)
  moreover have "write_padded enc a xs w = Inr (w @ replicate n 0 @ ?e)"
    using n assms(2)
    by (auto simp: write_padded_def pad_to_def writer_pos_def buffered_write_def encode_array_def)
  ultimately show "\<exists>out y. write_padded enc a xs w = Inr (w @ out) \<and>
      (case y of (p, addr) \<Rightarrow> p = (if xs = [] then None else Some xs) \<and> addr mod a = 0) \<and>
      map_padded dec sizeof al a (length xs) (mk_cursor base (w @ out @ rest) (length w)) =
        Inr (y, mk_cursor base (w @ out @ rest) (length w + length out))"
    using aligned(1)
    by (intro exI [of _ "replicate n 0 @ ?e"]
        exI [of _ "(if xs = [] then None else Some xs, base + (length w + n))"]) simp
qed

lemma round_trips_borrow:
  assumes "0 < a" and "a \<le> kMaxAlignment" and "\<forall>x \<in> set xs. valid x"
    and "al dvd a" and "a dvd base"
  shows "round_trips (mk_cursor base) (write_padded enc a xs) (borrow_padded dec sizeof al a (length xs))
    (\<lambda>b. buf_elems b = xs \<and> (xs \<noteq> [] \<longrightarrow> \<not> growable b))"
proof -
  have "(\<lambda>((p, _ :: nat), c2). Inr (buf_borrow p, c2)) =
      (\<lambda>(x, c2 :: cursor). Inr (buf_borrow (fst x), c2) :: exn + 'a buf \<times> cursor)"
    by (auto simp: fun_eq_iff)
  then have "borrow_padded dec sizeof al a (length xs) =
      (\<lambda>c. bindE (map_padded dec sizeof al a (length xs) c) (\<lambda>(x, c2). Inr (buf_borrow (fst x), c2)))"
    unfolding borrow_padded_def by (intro ext) (simp only:)
  moreover have "round_trips (mk_cursor base) (write_padded enc a xs)
      (\<lambda>c. bindE (map_padded dec sizeof al a (length xs) c) (\<lambda>(x, c2). Inr (buf_borrow (fst x), c2)))
      (\<lambda>b. buf_elems b = xs \<and> (xs \<noteq> [] \<longrightarrow> \<not> growable b))"
    by (rule round_trips_map [OF round_trips_mapped [OF assms]])
      (auto simp: growable_def buf_borrow_def split: if_splits)
  ultimately show ?thesis by simp
qed

end

subsection \<open>The element types on the wire\<close>

definition u8_bytes :: "byte \<Rightarrow> byte list" where
  "u8_bytes b = [b]"

definition u8_of_bytes :: "byte list \<Rightarrow> byte" where
  "u8_of_bytes bs = hd bs"

definition term_bytes :: "term_t \<Rightarrow> byte list" where
  "term_bytes t = le_bytes 2 t"

definition int_bytes :: "nat \<Rightarrow> int \<Rightarrow> byte list" where
  "int_bytes width x = le_bytes width (nat (x mod 256 ^ width))"

definition int_of_bytes :: "byte list \<Rightarrow> int" where
  "int_of_bytes bs =
     (let n = int (le_nat bs) in if 2 * n < 256 ^ length bs then n else n - 256 ^ length bs)"

abbreviation idx_bytes :: "idx_t \<Rightarrow> byte list" where
  "idx_bytes \<equiv> int_bytes 4"

abbreviation offset_bytes :: "offset_t \<Rightarrow> byte list" where
  "offset_bytes \<equiv> int_bytes 8"

lemma int_of_int_bytes:
  assumes "- (256 ^ w) \<le> 2 * x" and "2 * x < 256 ^ w"
  shows "int_of_bytes (int_bytes w x) = x"
proof -
  have pos: "(0 :: int) < 256 ^ w" by simp
  have n: "int (le_nat (int_bytes w x)) = x mod 256 ^ w"
    using pos by (simp add: int_bytes_def le_nat_le_bytes_mod nat_mod_distrib [symmetric] zmod_int)
  show ?thesis
  proof (cases "0 \<le> x")
    case True
    then have "x mod 256 ^ w = x" using assms by simp
    then show ?thesis using n assms by (simp add: int_of_bytes_def Let_def) (simp add: int_bytes_def)
  next
    case False
    have "0 \<le> x + 256 ^ w" "x + 256 ^ w < 256 ^ w" using False assms by linarith+
    then have "(x + 256 ^ w) mod 256 ^ w = x + 256 ^ w" by (rule mod_pos_pos_trivial)
    then have "x mod 256 ^ w = x + 256 ^ w" by simp
    then show ?thesis using n assms False by (simp add: int_of_bytes_def Let_def) (simp add: int_bytes_def)
  qed
qed

lemma length_int_bytes [simp, codec_simps]: "length (int_bytes w x) = w"
  by (simp add: int_bytes_def)

interpretation u8_codec: elem_codec u8_bytes u8_of_bytes 1 "\<lambda>_. True"
  by unfold_locales (simp_all add: u8_bytes_def u8_of_bytes_def)

interpretation term_codec: elem_codec term_bytes le_nat 2 "\<lambda>t. t < 65536"
  by unfold_locales (simp_all add: term_bytes_def)

interpretation size_codec: elem_codec "le_bytes 8" le_nat 8 "\<lambda>n. n < 18446744073709551616"
  by unfold_locales simp_all

interpretation idx_codec: elem_codec idx_bytes int_of_bytes 4 is_i32
  by unfold_locales (simp_all add: is_i32_def int_of_int_bytes)

interpretation offset_codec: elem_codec offset_bytes int_of_bytes 8 is_i64
  by unfold_locales (simp_all add: is_i64_def int_of_int_bytes)

interpretation float_codec: elem_codec f32_bytes f32_of_bytes 4 "\<lambda>_. True"
  by unfold_locales simp_all

lemma encode_u8 [simp]: "encode_array u8_bytes bs = bs"
  by (induction bs) (simp_all add: encode_array_def u8_bytes_def)

lemma length_encode_term [simp]: "length (encode_array term_bytes ts) = 2 * length ts"
  by (simp add: term_codec.length_encode)

section \<open>Sequences of objects\<close>

fun write_all :: "('a \<Rightarrow> writer \<Rightarrow> exn + writer) \<Rightarrow> 'a list \<Rightarrow> writer \<Rightarrow> exn + writer" where
  "write_all ser [] w = Inr w"
| "write_all ser (x # xs) w = bindE (ser x w) (write_all ser xs)"

fun read_n :: "('r \<Rightarrow> exn + 'a \<times> 'r) \<Rightarrow> nat \<Rightarrow> 'r \<Rightarrow> exn + 'a list \<times> 'r" where
  "read_n des 0 r = Inr ([], r)"
| "read_n des (Suc n) r = bindE (des r) (\<lambda>(x, r1). bindE (read_n des n r1) (\<lambda>(xs, r2). Inr (x # xs, r2)))"

lemma round_trips_all:
  "(\<And>x. x \<in> set xs \<Longrightarrow> round_trips mk (ser x) des (P x)) \<Longrightarrow>
     round_trips mk (write_all ser xs) (read_n des (length xs)) (list_all2 P xs)"
proof (induction xs)
  case Nil
  have rt: "round_trips mk Inr (\<lambda>r :: 'b. Inr ([], r)) (list_all2 P [])"
    by (rule round_trips_return) simp
  have "write_all ser [] = Inr" "read_n des 0 = (\<lambda>r :: 'b. Inr ([], r))" by (intro ext, simp)+
  with rt show ?case by (metis list.size(3))
next
  case (Cons x xs)
  have "write_all ser (x # xs) = (\<lambda>w. bindE (ser x w) (write_all ser xs))" by (intro ext) simp
  moreover have "read_n des (length (x # xs)) =
      (\<lambda>r. bindE (des r) (\<lambda>(y, r1). bindE (read_n des (length xs) r1) (\<lambda>(ys, r2). Inr (y # ys, r2))))"
    by (intro ext) simp
  moreover have "round_trips mk (\<lambda>w. bindE (ser x w) (write_all ser xs))
      (\<lambda>r. bindE (des r) (\<lambda>(y, r1). bindE (read_n des (length xs) r1) (\<lambda>(ys, r2). Inr (y # ys, r2))))
      (list_all2 P (x # xs))"
  proof (rule round_trips_bind)
    show "round_trips mk (ser x) des (P x)" using Cons.prems by simp
    fix y assume "P x y"
    then show "round_trips mk (write_all ser xs)
        (\<lambda>r1. bindE (read_n des (length xs) r1) (\<lambda>(ys, r2). Inr (y # ys, r2))) (list_all2 P (x # xs))"
      by (intro round_trips_map [OF Cons.IH]) (use Cons.prems in auto)
  qed
  ultimately show ?case by simp
qed

section \<open>The cursor stays in bounds\<close>

text \<open>
  C22: every access of \<open>MmapCursor\<close> to a mapped file stays inside the mapping, whatever counts the
  file declares: the position never passes the end, an array handed out is exactly \<open>n\<close> elements of
  the mapping's bytes at an address aligned for the element, and a request for more than is left
  is refused rather than wrapped.
\<close>

definition cursor_ok :: "cursor \<Rightarrow> bool" where
  "cursor_ok c \<longleftrightarrow> mc_pos c \<le> length (mc_data c)"

theorem cursor_in_bounds:
  assumes "cursor_ok c" and "0 < sizeof"
  shows "(cursor_skip bytes c = Inr c1 \<longrightarrow> cursor_ok c1 \<and> mc_pos c1 = mc_pos c + bytes) \<and>
    (map_nat width c = Inr (x, c2) \<longrightarrow> cursor_ok c2 \<and> x < 256 ^ width) \<and>
    (cursor_read_array sizeof al n c = Inr (p, c3) \<longrightarrow> cursor_ok c3 \<and> mc_data c3 = mc_data c \<and>
       (case p of None \<Rightarrow> n = 0
        | Some bs \<Rightarrow> length bs = n * sizeof \<and> (mc_base c + mc_pos c) mod al = 0 \<and>
            (\<exists>post. mc_data c = take (mc_pos c) (mc_data c) @ bs @ post))) \<and>
    (n * sizeof > cursor_remaining c \<longrightarrow> cursor_read_array sizeof al n c = Inl mmap_eof)"
proof -
  have skip: "cursor_ok c1 \<and> mc_pos c1 = mc_pos c + bytes" if "cursor_skip bytes c = Inr c1"
    using assms(1) that by (auto simp: cursor_skip_def cursor_ensure_def err_simps cursor_ok_def)
  have scalar: "cursor_ok c2 \<and> x < 256 ^ width" if m: "map_nat width c = Inr (x, c2)"
  proof -
  have "cursor_ok c2"
    using assms(1) m by (auto simp: map_nat_def cursor_ensure_def err_simps cursor_ok_def)
  moreover have "width \<le> length (mc_data c) - mc_pos c" "x = le_nat (take width (drop (mc_pos c) (mc_data c)))"
    using m by (auto simp: map_nat_def cursor_ensure_def err_simps)
  then have "x < 256 ^ width"
    using le_nat_less [of "take width (drop (mc_pos c) (mc_data c))"] by (simp add: min_absorb2)
  ultimately show ?thesis by simp
  qed
  have arr: "cursor_ok c3 \<and> mc_data c3 = mc_data c \<and> (case p of None \<Rightarrow> n = 0
      | Some bs \<Rightarrow> length bs = n * sizeof \<and> (mc_base c + mc_pos c) mod al = 0 \<and>
          (\<exists>post. mc_data c = take (mc_pos c) (mc_data c) @ bs @ post))"
    if r: "cursor_read_array sizeof al n c = Inr (p, c3)"
  proof (cases "n = 0")
    case True
    then show ?thesis using r assms(1) by (simp add: cursor_read_array_def)
  next
    case False
    then have "n \<le> cursor_remaining c div sizeof" and al: "(mc_base c + mc_pos c) mod al = 0"
      and p: "p = Some (take (n * sizeof) (drop (mc_pos c) (mc_data c)))"
      and c3: "c3 = c\<lparr>mc_pos := mc_pos c + n * sizeof\<rparr>"
      using r by (auto simp: cursor_read_array_def split: if_splits)
    then have le: "n * sizeof \<le> length (mc_data c) - mc_pos c"
      using assms(2) by (simp add: cursor_remaining_def less_eq_div_iff_mult_less_eq)
    have "mc_data c = take (mc_pos c) (mc_data c) @ take (n * sizeof) (drop (mc_pos c) (mc_data c)) @
        drop (n * sizeof) (drop (mc_pos c) (mc_data c))"
      by (simp only: append_take_drop_id)
    then show ?thesis using le al assms(1) by (auto simp: p c3 cursor_ok_def)
  qed
  have eof: "cursor_read_array sizeof al n c = Inl mmap_eof" if "n * sizeof > cursor_remaining c"
  proof -
  from that have "n > cursor_remaining c div sizeof"
    using assms(2) by (simp add: div_less_iff_less_mult)
  then show ?thesis by (simp add: cursor_read_array_def)
  qed
  from skip scalar arr eof show ?thesis by blast
qed

theorem cursor_in_bounds_witness:
  "cursor_read_array 4 4 9223372036854775808 \<lparr>mc_base = 0, mc_data = [1, 2, 3, 4], mc_pos = 0\<rparr> = Inl mmap_eof"
proof -
  let ?c = "\<lparr>mc_base = 0, mc_data = [1, 2, 3, 4], mc_pos = 0\<rparr>"
  have "cursor_ok ?c" "(0 :: nat) < 4" by (simp_all add: cursor_ok_def)
  from cursor_in_bounds [OF this, of 0 ?c 0 0 ?c 4 9223372036854775808 None ?c] show ?thesis
    by (simp add: cursor_remaining_def)
qed

end
