(* ===== verification/Sparse_Vectors.thy ===== *)
theory Sparse_Vectors
  imports Stream_IO
begin

text \<open>
  \<^verbatim>\<open>sparse_vectors.cpp\<close>: \<open>SparseVectors\<close>, a compressed-row matrix of terms with values of 1, 2, 4
  or 8 bytes kept as raw bytes. Offsets are int64; the additions that rebase them are taken not
  to overflow (the offsets count bytes in memory). A reference lemma reads the matrix as its
  list of rows.
\<close>

section \<open>The matrix\<close>

definition U8 :: size_t where "U8 = 1"
definition U16 :: size_t where "U16 = 2"
definition U32 :: size_t where "U32 = 4"
definition U64 :: size_t where "U64 = 8"

record sparse_vectors =
  sv_indptr :: "offset_t buf"
  sv_indices :: "term_t buf"
  sv_values :: "byte buf"
  sv_element_size :: size_t
  sv_dimension :: size_t

definition sv_default :: sparse_vectors where
  "sv_default = \<lparr>sv_indptr = buf_default, sv_indices = buf_default, sv_values = buf_default,
     sv_element_size = 0, sv_dimension = 0\<rparr>"

definition sv_new :: "size_t \<Rightarrow> size_t \<Rightarrow> exn + sparse_vectors" where
  "sv_new element_size dimension = bindE (throw_if_not_positive (int dimension))
     (\<lambda>_. Inr (sv_default\<lparr>sv_element_size := element_size, sv_dimension := dimension\<rparr>))"

definition num_vectors :: "sparse_vectors \<Rightarrow> size_t" where
  "num_vectors v = (if buf_empty (sv_indptr v) then 0 else buf_size (sv_indptr v) - 1)"

section \<open>Appending\<close>

text \<open>An array argument is its elements; its size is their number.\<close>

definition add_vectors ::
  "sparse_vectors \<Rightarrow> offset_t list \<Rightarrow> term_t list \<Rightarrow> byte list \<Rightarrow> exn + sparse_vectors" where
  "add_vectors v indptr indices weights =
     (if u64 (length indices * sv_element_size v) \<noteq> length weights
      then Inl (Invalid_argument ''Indices and weights must have the same size'')
      else if length indptr < 2 then Inr v
      else bindE (take_vector (sv_indptr v)) (\<lambda>(indptr_taken, _).
           bindE (take_vector (sv_indices v)) (\<lambda>(indices_vec, _).
           bindE (take_vector (sv_values v)) (\<lambda>(values_vec, _).
             let indptr_vec = (if indptr_taken = [] then [0] else indptr_taken);
                 offset = last indptr_vec
             in Inr (v\<lparr>sv_indptr := buf_own (indptr_vec @ map (\<lambda>p. p + offset) (tl indptr)),
                       sv_indices := buf_own (indices_vec @ indices),
                       sv_values := buf_own (values_vec @ weights)\<rparr>)))))"

definition add_vector ::
  "sparse_vectors \<Rightarrow> term_t list \<Rightarrow> byte list \<Rightarrow> exn + sparse_vectors" where
  "add_vector v indices weights =
     bindE (take_vector (sv_indptr v)) (\<lambda>(indptr_taken, _).
     bindE (take_vector (sv_indices v)) (\<lambda>(indices_vec, _).
     bindE (take_vector (sv_values v)) (\<lambda>(values_vec, _).
       let offset = (if indptr_taken = [] then 0 else last indptr_taken);
           indptr_vec = (if indptr_taken = [] then [0] else indptr_taken)
       in Inr (v\<lparr>sv_indptr := buf_own (indptr_vec @ [offset + int (length indices)]),
                 sv_indices := buf_own (indices_vec @ indices),
                 sv_values := buf_own (values_vec @ weights)\<rparr>))))"

section \<open>Mapping a final layout\<close>

text \<open>
  Pointers may be null (\<open>None\<close>) whatever the size passed with them; \<open>values_addr\<close> is the address
  of the values, zero for a null pointer.
\<close>

fun monotonic :: "offset_t list \<Rightarrow> bool" where
  "monotonic (a # b # xs) \<longleftrightarrow> \<not> b < a \<and> monotonic (b # xs)"
| "monotonic _ \<longleftrightarrow> True"

definition map_vectors ::
  "size_t \<Rightarrow> size_t \<Rightarrow> offset_t list option \<Rightarrow> size_t \<Rightarrow> term_t list option \<Rightarrow> size_t \<Rightarrow>
     byte list option \<Rightarrow> size_t \<Rightarrow> nat \<Rightarrow> exn + sparse_vectors" where
  "map_vectors element_size dimension indptr indptr_size indices indices_size values values_size
     values_addr =
     bindE (throw_if_not_positive (int dimension)) (\<lambda>_.
     bindE (throw_if (element_size \<noteq> U8 \<and> element_size \<noteq> U16 \<and> element_size \<noteq> U32 \<and>
              element_size \<noteq> U64) (Invalid_argument ''Invalid element size'')) (\<lambda>_.
     let vectors = sv_default\<lparr>sv_element_size := element_size, sv_dimension := dimension\<rparr>
     in if indptr_size = 0 then Inr vectors
        else bindE (throw_if_null indptr ''Mapped indptr must not be null'') (\<lambda>ip.
          bindE (throw_if (indices_size > 0 \<and> (indices = None \<or> values = None))
                   (Invalid_argument ''unexpected nullptr'')) (\<lambda>_.
          bindE (throw_if (u64 (indices_size * element_size) \<noteq> values_size)
                   (Invalid_argument ''Indices and weights must have the same size'')) (\<lambda>_.
          bindE (throw_if (values_addr mod element_size \<noteq> 0)
                   (Invalid_argument ''Mapped values are misaligned for the element size'')) (\<lambda>_.
          bindE (throw_if (ip ! 0 \<noteq> 0) (Invalid_argument ''Mapped indptr must start at 0'')) (\<lambda>_.
          bindE (throw_if (\<not> monotonic (take indptr_size ip))
                   (Invalid_argument ''Mapped indptr is not monotonic'')) (\<lambda>_.
          bindE (throw_if (size_of_int (ip ! (indptr_size - 1)) \<noteq> indices_size)
                   (Invalid_argument ''Mapped indptr does not end at the index count'')) (\<lambda>_.
          Inr (vectors\<lparr>sv_indptr := buf_borrow (Some ip), sv_indices := buf_borrow indices,
                       sv_values := buf_borrow values\<rparr>))))))))))"

section \<open>Dense rows\<close>

text \<open>The value at position \<open>i\<close>, read at the stored width.\<close>

definition sv_float_at :: "(byte list \<Rightarrow> 'w) \<Rightarrow> (nat \<Rightarrow> 'w) \<Rightarrow> size_t \<Rightarrow> byte list \<Rightarrow> nat \<Rightarrow> 'w" where
  "sv_float_at dec conv element_size values i =
     (let value_ptr = drop (i * element_size) values
      in if element_size = U32 then dec (take 4 value_ptr)
         else if element_size = U16 then conv (le_nat (take 2 value_ptr))
         else conv (le_nat (take 1 value_ptr)))"

definition vector_idx_ok :: "sparse_vectors \<Rightarrow> idx_t \<Rightarrow> bool" where
  "vector_idx_ok v vector_idx \<longleftrightarrow>
     \<not> (vector_idx < 0 \<or> vector_idx > i32 (int (buf_size (sv_indptr v))) - 2)"

definition store :: "nat \<Rightarrow> 'a \<Rightarrow> 'a list \<Rightarrow> exn + 'a list" where
  "store i x xs = (if i < length xs then Inr (xs[i := x])
     else Inl (Undefined_behaviour ''write past the end''))"

definition get_dense_vector_typed ::
  "(byte list \<Rightarrow> 'w) \<Rightarrow> (nat \<Rightarrow> 'w) \<Rightarrow> sparse_vectors \<Rightarrow> idx_t \<Rightarrow> exn + 'w :: zero list" where
  "get_dense_vector_typed dec conv v vector_idx =
     (if \<not> vector_idx_ok v vector_idx then Inl (Out_of_range ''Vector index out of range'')
      else bindE (buf_get (sv_indptr v) (nat vector_idx)) (\<lambda>start.
           bindE (buf_get (sv_indptr v) (nat vector_idx + 1)) (\<lambda>stop.
           bindE (if sv_dimension v > 0 then Inr (sv_dimension v)
                  else bindE (buf_get (sv_indices v) (nat (stop - 1))) (\<lambda>t. Inr (t + 1))) (\<lambda>n.
           foldE (\<lambda>dense i. bindE (buf_get (sv_indices v) i) (\<lambda>t.
                    store t (sv_float_at dec conv (sv_element_size v) (buf_elems (sv_values v)) i) dense))
             (replicate n 0) [nat start..<nat stop]))))"

definition get_dense_vector_float :: "sparse_vectors \<Rightarrow> idx_t \<Rightarrow> exn + f32 list" where
  "get_dense_vector_float = get_dense_vector_typed f32_of_bytes f32_of_nat"

definition get_dense_vector :: "sparse_vectors \<Rightarrow> idx_t \<Rightarrow> exn + byte list" where
  "get_dense_vector v vector_idx =
     (if \<not> vector_idx_ok v vector_idx then Inl (Out_of_range ''Vector index out of range'')
      else bindE (buf_get (sv_indptr v) (nat vector_idx)) (\<lambda>start.
           bindE (buf_get (sv_indptr v) (nat vector_idx + 1)) (\<lambda>stop.
           foldE (\<lambda>dense i.
               foldE (\<lambda>dense j. bindE (buf_get (sv_indices v) i) (\<lambda>t.
                   bindE (buf_get (sv_values v) (i * sv_element_size v + j)) (\<lambda>b.
                   store (t * sv_element_size v + j) b dense)))
                 dense [0..<sv_element_size v])
             (replicate (u64 (sv_dimension v * sv_element_size v)) 0) [nat start..<nat stop])))"

section \<open>Serialization\<close>

text \<open>\<open>count\<close> elements from a data pointer.\<close>

definition take_elems :: "size_t \<Rightarrow> 'a list \<Rightarrow> exn + 'a list" where
  "take_elems n xs = (if n \<le> length xs then Inr (take n xs)
     else Inl (Undefined_behaviour ''read past the end''))"

definition sv_serialize :: "sparse_vectors \<Rightarrow> writer \<Rightarrow> exn + writer" where
  "sv_serialize v w =
     (let vector_count = num_vectors v
      in bindE (write_size_t vector_count w) (\<lambda>w1.
         if vector_count > 0
         then bindE (write_size_t (sv_dimension v) w1) (\<lambda>w2.
              bindE (write_size_t (sv_element_size v) w2) (\<lambda>w3.
              bindE (take_elems (u64 (vector_count + 1)) (buf_elems (sv_indptr v))) (\<lambda>indptr.
              bindE (write_padded offset_bytes 8 indptr w3) (\<lambda>w4.
              bindE (buf_get (sv_indptr v) vector_count) (\<lambda>nnz.
              let indices_size = size_of_int nnz
              in bindE (take_elems indices_size (buf_elems (sv_indices v))) (\<lambda>indices.
                 bindE (write_padded term_bytes 2 indices w4) (\<lambda>w5.
                 bindE (take_elems (u64 (indices_size * sv_element_size v))
                          (buf_elems (sv_values v))) (\<lambda>values.
                 write_padded u8_bytes (sv_element_size v) values w5))))))))
         else Inr w1))"

definition sv_deserialize :: "sparse_vectors \<Rightarrow> reader \<Rightarrow> exn + sparse_vectors \<times> reader" where
  "sv_deserialize v r =
     bindE (read_size_t r) (\<lambda>(vector_count, r1).
     if vector_count > 0
     then bindE (read_size_t r1) (\<lambda>(dimension, r2).
          bindE (read_size_t r2) (\<lambda>(element_size, r3).
          bindE (read_padded int_of_bytes 8 8 (u64 (vector_count + 1)) r3) (\<lambda>(indptr, r4).
          bindE (buf_get indptr vector_count) (\<lambda>nnz.
          let indices_size = size_of_int nnz
          in bindE (read_padded le_nat 2 2 indices_size r4) (\<lambda>(indices, r5).
             bindE (checked_mul indices_size element_size) (\<lambda>value_size.
             bindE (read_padded u8_of_bytes 1 element_size value_size r5) (\<lambda>(values, r6).
             Inr (\<lparr>sv_indptr = indptr, sv_indices = indices, sv_values = values,
                   sv_element_size = element_size, sv_dimension = dimension\<rparr>, r6))))))))
     else Inr (v, r1))"

definition sv_mmap_deserialize :: "cursor option \<Rightarrow> exn + sparse_vectors \<times> cursor" where
  "sv_mmap_deserialize cur =
     bindE (throw_if_null cur ''cursor must not be null'') (\<lambda>c.
     bindE (map_size_t c) (\<lambda>(vector_count, c1).
     if vector_count = 0 then Inr (sv_default, c1)
     else bindE (map_size_t c1) (\<lambda>(dimension, c2).
          bindE (map_size_t c2) (\<lambda>(element_size, c3).
          let indptr_size = u64 (vector_count + 1)
          in bindE (throw_if (indptr_size = 0)
                 (Runtime_error ''mmap: implausible vector count in index file'')) (\<lambda>_.
             bindE (map_padded int_of_bytes 8 8 8 indptr_size c3) (\<lambda>((indptr, _), c5).
             let indices_size = size_of_int (the indptr ! vector_count)
             in bindE (map_padded le_nat 2 2 2 indices_size c5) (\<lambda>((indices, _), c7).
                bindE (checked_mul indices_size element_size) (\<lambda>value_size.
                bindE (map_padded u8_of_bytes 1 1 element_size value_size c7) (\<lambda>((values, addr), c9).
                bindE (map_vectors element_size dimension indptr indptr_size indices indices_size
                         values value_size (case values of None \<Rightarrow> 0 | Some _ \<Rightarrow> addr))
                  (\<lambda>v. Inr (v, c9)))))))))))"

section \<open>The rows a matrix stands for\<close>

definition slice :: "nat \<Rightarrow> nat \<Rightarrow> 'a list \<Rightarrow> 'a list" where
  "slice start stop xs = take (stop - start) (drop start xs)"

definition csr_rows :: "size_t \<Rightarrow> offset_t list \<Rightarrow> term_t list \<Rightarrow> 'b list \<Rightarrow> (term_t list \<times> 'b list) list" where
  "csr_rows es indptr indices values =
     map (\<lambda>(s, e). (slice (nat s) (nat e) indices, slice (nat s * es) (nat e * es) values))
       (zip indptr (tl indptr))"

definition csr_wf :: "size_t \<Rightarrow> offset_t list \<Rightarrow> term_t list \<Rightarrow> 'b list \<Rightarrow> bool" where
  "csr_wf es indptr indices values \<longleftrightarrow> indptr \<noteq> [] \<and> hd indptr = 0 \<and> sorted indptr \<and>
     last indptr = int (length indices) \<and> length values = length indices * es"

definition sv_rows :: "sparse_vectors \<Rightarrow> (term_t list \<times> byte list) list" where
  "sv_rows v = csr_rows (sv_element_size v) (buf_elems (sv_indptr v)) (buf_elems (sv_indices v))
     (buf_elems (sv_values v))"

definition sv_content_wf :: "sparse_vectors \<Rightarrow> bool" where
  "sv_content_wf v \<longleftrightarrow>
     buf_elems (sv_indptr v) = [] \<and> buf_elems (sv_indices v) = [] \<and> buf_elems (sv_values v) = [] \<or>
     csr_wf (sv_element_size v) (buf_elems (sv_indptr v)) (buf_elems (sv_indices v)) (buf_elems (sv_values v))"

definition sv_growable :: "sparse_vectors \<Rightarrow> bool" where
  "sv_growable v \<longleftrightarrow> growable (sv_indptr v) \<and> growable (sv_indices v) \<and> growable (sv_values v)"

lemma slice_append1: "b \<le> length xs \<Longrightarrow> slice a b (xs @ ys) = slice a b xs"
  by (simp add: slice_def)

lemma slice_append2: "slice (length xs + a) (length xs + b) (xs @ ys) = slice a b ys"
  by (simp add: slice_def)

lemma length_slice [simp]: "b \<le> length xs \<Longrightarrow> length (slice a b xs) = b - a"
  by (simp add: slice_def)

lemma slice_nth: "a + i < b \<Longrightarrow> b \<le> length xs \<Longrightarrow> slice a b xs ! i = xs ! (a + i)"
  by (simp add: slice_def)

lemma zip_tl_append:
  "xs \<noteq> [] \<Longrightarrow> zip (xs @ ys) (tl xs @ ys) = zip xs (tl xs) @ zip (last xs # ys) ys"
proof (induction xs)
  case (Cons x xs)
  then show ?case by (cases xs) auto
qed simp

lemma csr_wf_bounds:
  assumes "csr_wf es indptr indices values" and "p \<in> set indptr"
  shows "0 \<le> p \<and> p \<le> int (length indices)"
proof -
  obtain i where i: "i < length indptr" "p = indptr ! i" using assms(2) by (auto simp: in_set_conv_nth)
  have "indptr ! 0 \<le> indptr ! i" "indptr ! i \<le> indptr ! (length indptr - 1)"
    using assms(1) i(1) by (auto simp: csr_wf_def intro!: sorted_nth_mono)
  then show ?thesis using assms(1) i(2) by (auto simp: csr_wf_def hd_conv_nth last_conv_nth)
qed

lemma in_zip_tl: "(a, b) \<in> set (zip xs (tl xs)) \<Longrightarrow> a \<in> set xs \<and> b \<in> set xs"
  by (cases xs) (auto dest: set_zip_leftD set_zip_rightD)

lemma csr_rows_append:
  assumes "csr_wf es ip ix vs" and "csr_wf es ip' ix' vs'"
  shows "csr_rows es (ip @ map (\<lambda>p. p + last ip) (tl ip')) (ix @ ix') (vs @ vs') =
    csr_rows es ip ix vs @ csr_rows es ip' ix' vs'"
proof -
  let ?off = "last ip" and ?f = "\<lambda>p. p + last ip"
  have ne: "ip \<noteq> []" "ip' \<noteq> []" "hd ip' = 0" and off: "?off = int (length ix)"
    and lv: "length vs = length ix * es"
    using assms by (auto simp: csr_wf_def)
  have "last ip # map ?f (tl ip') = map ?f ip'" using ne by (cases ip') auto
  then have z: "zip (ip @ map ?f (tl ip')) (tl (ip @ map ?f (tl ip'))) =
      zip ip (tl ip) @ zip (map ?f ip') (map ?f (tl ip'))"
    using ne(1) zip_tl_append [OF ne(1), of "map ?f (tl ip')"] by simp
  have left: "map (\<lambda>(s, e). (slice (nat s) (nat e) (ix @ ix'), slice (nat s * es) (nat e * es) (vs @ vs')))
      (zip ip (tl ip)) = csr_rows es ip ix vs"
    unfolding csr_rows_def
  proof (intro map_cong refl, clarify)
    fix s e assume "(s, e) \<in> set (zip ip (tl ip))"
    then have "nat e \<le> length ix" using csr_wf_bounds [OF assms(1)] in_zip_tl by fastforce
    moreover from this have "nat e * es \<le> length vs" by (simp add: lv)
    ultimately show "slice (nat s) (nat e) (ix @ ix') = slice (nat s) (nat e) ix \<and>
        slice (nat s * es) (nat e * es) (vs @ vs') = slice (nat s * es) (nat e * es) vs"
      by (simp add: slice_append1)
  qed
  have right: "map (\<lambda>(s, e). (slice (nat s) (nat e) (ix @ ix'), slice (nat s * es) (nat e * es) (vs @ vs')))
      (zip (map ?f ip') (map ?f (tl ip'))) = csr_rows es ip' ix' vs'"
    unfolding csr_rows_def zip_map_map map_map
  proof (intro map_cong refl)
    fix x assume x: "x \<in> set (zip ip' (tl ip'))"
    obtain s e where se: "x = (s, e)" by (cases x)
    have "0 \<le> s" "0 \<le> e" using x csr_wf_bounds [OF assms(2)] in_zip_tl [of s e ip'] unfolding se by blast+
    then have n: "nat (s + ?off) = length ix + nat s" "nat (e + ?off) = length ix + nat e"
      by (simp_all add: off nat_add_distrib)
    then have m: "nat (s + ?off) * es = length vs + nat s * es" "nat (e + ?off) * es = length vs + nat e * es"
      by (simp_all add: lv distrib_right)
    have "slice (nat (s + ?off)) (nat (e + ?off)) (ix @ ix') = slice (nat s) (nat e) ix'"
      unfolding n by (rule slice_append2)
    moreover have "slice (nat (s + ?off) * es) (nat (e + ?off) * es) (vs @ vs') = slice (nat s * es) (nat e * es) vs'"
      unfolding m by (rule slice_append2)
    ultimately show "((\<lambda>(s, e). (slice (nat s) (nat e) (ix @ ix'), slice (nat s * es) (nat e * es) (vs @ vs'))) \<circ>
        (\<lambda>(x, y). (?f x, ?f y))) x =
      (case x of (s, e) \<Rightarrow> (slice (nat s) (nat e) ix', slice (nat s * es) (nat e * es) vs'))"
      by (simp add: se)
  qed
  show ?thesis
    using left right by (simp add: csr_rows_def [of _ "ip @ _"] z)
qed

lemma csr_wf_append:
  assumes "csr_wf es ip ix vs" and "csr_wf es ip' ix' vs'"
  shows "csr_wf es (ip @ map (\<lambda>p. p + last ip) (tl ip')) (ix @ ix') (vs @ vs')"
proof -
  let ?f = "\<lambda>p. p + last ip"
  have "sorted (tl ip')" using assms(2) by (cases ip') (auto simp: csr_wf_def)
  then have "sorted (map ?f (tl ip'))" by (auto simp: sorted_map sorted_wrt_mono_rel [of _ "(\<le>)"])
  moreover have "a \<le> ?f b" if "a \<in> set ip" "b \<in> set (tl ip')" for a b
  proof -
    have "0 \<le> b" using csr_wf_bounds [OF assms(2), of b] that(2) by (cases ip') auto
    moreover have "a \<le> last ip" using csr_wf_bounds [OF assms(1) that(1)] assms(1) by (simp add: csr_wf_def)
    ultimately show ?thesis by simp
  qed
  ultimately have "sorted (ip @ map ?f (tl ip'))"
    using assms(1) by (auto simp: sorted_append csr_wf_def)
  moreover have "last (ip @ map ?f (tl ip')) = int (length (ix @ ix'))"
  proof (cases "tl ip'")
    case Nil
    then have "ip' = [0]" using assms(2) by (cases ip') (auto simp: csr_wf_def)
    then show ?thesis using assms by (simp add: csr_wf_def)
  next
    case (Cons a list)
    then have "last (tl ip') = last ip'" by (cases ip') auto
    moreover have "last (map ?f (tl ip')) = ?f (last (tl ip'))" using Cons by (intro last_map) simp
    moreover have "last (ip @ map ?f (tl ip')) = last (map ?f (tl ip'))" using Cons by simp
    ultimately show ?thesis using assms by (simp add: csr_wf_def)
  qed
  ultimately show ?thesis using assms by (auto simp: csr_wf_def distrib_right)
qed

lemma csr_rows_zero [simp]: "csr_rows es [0] [] [] = []"
  by (simp add: csr_rows_def)

lemma csr_wf_zero [simp]: "csr_wf es [0] [] []"
  by (simp add: csr_wf_def)

lemma csr_wf_single: "length vs = length ix * es \<Longrightarrow> csr_wf es [0, int (length ix)] ix vs"
  by (simp add: csr_wf_def)

lemma csr_rows_single: "length vs = length ix * es \<Longrightarrow> csr_rows es [0, int (length ix)] ix vs = [(ix, vs)]"
  by (simp add: csr_rows_def slice_def)

lemma length_csr_rows [simp]: "length (csr_rows es ip ix vs) = length ip - 1"
  by (simp add: csr_rows_def)

lemma num_vectors_rows: "num_vectors v = length (sv_rows v)"
  by (simp add: num_vectors_def sv_rows_def buf_empty_def buf_size_def)

section \<open>Appending appends rows\<close>

lemma sv_take_vectors:
  assumes "sv_growable v"
  shows "\<exists>b1 b2 b3. take_vector (sv_indptr v) = Inr (buf_elems (sv_indptr v), b1) \<and>
    take_vector (sv_indices v) = Inr (buf_elems (sv_indices v), b2) \<and>
    take_vector (sv_values v) = Inr (buf_elems (sv_values v), b3)"
  using assms take_vector_growable by (metis sv_growable_def)

text \<open>The matrix with its offsets as they stand once a first zero has been pushed.\<close>

definition sv_offsets :: "sparse_vectors \<Rightarrow> offset_t list" where
  "sv_offsets v = (if buf_elems (sv_indptr v) = [] then [0] else buf_elems (sv_indptr v))"

lemma sv_offsets_wf:
  assumes "sv_content_wf v"
  shows "csr_wf (sv_element_size v) (sv_offsets v) (buf_elems (sv_indices v)) (buf_elems (sv_values v))"
    "csr_rows (sv_element_size v) (sv_offsets v) (buf_elems (sv_indices v)) (buf_elems (sv_values v)) = sv_rows v"
  using assms by (auto simp: sv_content_wf_def sv_offsets_def sv_rows_def csr_rows_def csr_wf_def)

lemma add_vectors_content:
  assumes "sv_content_wf v" and "sv_growable v" and "csr_wf (sv_element_size v) indptr indices weights"
    and "length indices * sv_element_size v \<le> SIZE_MAX"
  shows "\<exists>v'. add_vectors v indptr indices weights = Inr v' \<and> sv_content_wf v' \<and> sv_growable v' \<and>
    sv_element_size v' = sv_element_size v \<and> sv_dimension v' = sv_dimension v \<and>
    sv_rows v' = sv_rows v @ csr_rows (sv_element_size v) indptr indices weights"
proof (cases "length indptr < 2")
  case True
  then obtain a where "indptr = [a]" using assms(3) by (cases indptr) (auto simp: csr_wf_def)
  then have "csr_rows (sv_element_size v) indptr indices weights = []" by (simp add: csr_rows_def)
  moreover have "add_vectors v indptr indices weights = Inr v"
    using True assms(3,4) by (simp add: add_vectors_def csr_wf_def SIZE_MAX_def)
  ultimately show ?thesis using assms(1,2) by simp
next
  case False
  obtain b1 b2 b3 where t: "take_vector (sv_indptr v) = Inr (buf_elems (sv_indptr v), b1)"
    "take_vector (sv_indices v) = Inr (buf_elems (sv_indices v), b2)"
    "take_vector (sv_values v) = Inr (buf_elems (sv_values v), b3)"
    using sv_take_vectors [OF assms(2)] by blast
  define v' where "v' = v\<lparr>sv_indptr := buf_own (sv_offsets v @ map (\<lambda>p. p + last (sv_offsets v)) (tl indptr)),
    sv_indices := buf_own (buf_elems (sv_indices v) @ indices),
    sv_values := buf_own (buf_elems (sv_values v) @ weights)\<rparr>"
  have "add_vectors v indptr indices weights = Inr v'"
    using False assms(3,4) t
    by (auto simp: add_vectors_def csr_wf_def SIZE_MAX_def v'_def sv_offsets_def Let_def)
  moreover have "sv_content_wf v'" "sv_rows v' = sv_rows v @ csr_rows (sv_element_size v) indptr indices weights"
    using csr_wf_append [OF sv_offsets_wf(1) [OF assms(1)] assms(3)]
      csr_rows_append [OF sv_offsets_wf(1) [OF assms(1)] assms(3)] sv_offsets_wf(2) [OF assms(1)]
    by (simp_all add: sv_content_wf_def v'_def sv_rows_def)
  ultimately show ?thesis by (auto simp: v'_def sv_growable_def)
qed

lemma add_vector_content:
  assumes "sv_content_wf v" and "sv_growable v"
    and "length weights = length indices * sv_element_size v"
  shows "\<exists>v'. add_vector v indices weights = Inr v' \<and> sv_content_wf v' \<and> sv_growable v' \<and>
    sv_element_size v' = sv_element_size v \<and> sv_dimension v' = sv_dimension v \<and>
    sv_rows v' = sv_rows v @ [(indices, weights)]"
proof -
  obtain b1 b2 b3 where t: "take_vector (sv_indptr v) = Inr (buf_elems (sv_indptr v), b1)"
    "take_vector (sv_indices v) = Inr (buf_elems (sv_indices v), b2)"
    "take_vector (sv_values v) = Inr (buf_elems (sv_values v), b3)"
    using sv_take_vectors [OF assms(2)] by blast
  define v' where "v' = v\<lparr>sv_indptr := buf_own (sv_offsets v @ [last (sv_offsets v) + int (length indices)]),
    sv_indices := buf_own (buf_elems (sv_indices v) @ indices),
    sv_values := buf_own (buf_elems (sv_values v) @ weights)\<rparr>"
  have "add_vector v indices weights = Inr v'"
    using t by (auto simp: add_vector_def v'_def sv_offsets_def Let_def)
  moreover have "sv_content_wf v'" "sv_rows v' = sv_rows v @ [(indices, weights)]"
    using csr_wf_append [OF sv_offsets_wf(1) [OF assms(1)] csr_wf_single [OF assms(3)]]
      csr_rows_append [OF sv_offsets_wf(1) [OF assms(1)] csr_wf_single [OF assms(3)]]
      csr_rows_single [OF assms(3)] sv_offsets_wf(2) [OF assms(1)]
    by (simp_all add: sv_content_wf_def v'_def sv_rows_def add.commute)
  ultimately show ?thesis by (auto simp: v'_def sv_growable_def)
qed

section \<open>Round trips\<close>

text \<open>A matrix the wire format can carry: its widths fit, and no array passes \<open>max_size\<close>.\<close>

definition sv_wire :: "sparse_vectors \<Rightarrow> bool" where
  "sv_wire v \<longleftrightarrow> sv_content_wf v \<and> sv_element_size v \<in> {U8, U16, U32, U64} \<and>
     0 < sv_dimension v \<and> sv_dimension v \<le> SIZE_MAX \<and>
     (\<forall>t \<in> set (buf_elems (sv_indices v)). t < 65536) \<and>
     length (buf_elems (sv_indptr v)) \<le> vector_max_size 8 \<and>
     length (buf_elems (sv_indices v)) \<le> vector_max_size 2 \<and>
     length (buf_elems (sv_values v)) \<le> vector_max_size 1"

definition same_content :: "sparse_vectors \<Rightarrow> sparse_vectors \<Rightarrow> bool" where
  "same_content v v' \<longleftrightarrow> buf_elems (sv_indptr v') = buf_elems (sv_indptr v) \<and>
     buf_elems (sv_indices v') = buf_elems (sv_indices v) \<and>
     buf_elems (sv_values v') = buf_elems (sv_values v) \<and>
     (num_vectors v > 0 \<longrightarrow> sv_element_size v' = sv_element_size v \<and> sv_dimension v' = sv_dimension v)"

text \<open>The layout of a matrix with rows.\<close>

lemma sv_wire_rows:
  assumes "sv_wire v" and "num_vectors v > 0"
  shows "csr_wf (sv_element_size v) (buf_elems (sv_indptr v)) (buf_elems (sv_indices v)) (buf_elems (sv_values v))"
    "length (buf_elems (sv_indptr v)) = Suc (num_vectors v)"
    "buf_elems (sv_indptr v) ! num_vectors v = int (length (buf_elems (sv_indices v)))"
    "length (buf_elems (sv_values v)) = length (buf_elems (sv_indices v)) * sv_element_size v"
    "length (buf_elems (sv_indptr v)) \<le> 1152921504606846975" "length (buf_elems (sv_indices v)) \<le> 4611686018427387903"
    "length (buf_elems (sv_values v)) \<le> 9223372036854775807"
    "sv_element_size v \<in> {1, 2, 4, 8}"
    "\<forall>p \<in> set (buf_elems (sv_indptr v)). is_i64 p"
proof -
  have ne: "buf_elems (sv_indptr v) \<noteq> []"
    using assms(2) by (auto simp: num_vectors_def buf_empty_def buf_size_def)
  then show wf: "csr_wf (sv_element_size v) (buf_elems (sv_indptr v)) (buf_elems (sv_indices v)) (buf_elems (sv_values v))"
    using assms(1) by (auto simp: sv_wire_def sv_content_wf_def)
  show l: "length (buf_elems (sv_indptr v)) = Suc (num_vectors v)"
    using ne by (simp add: num_vectors_def buf_empty_def buf_size_def)
  show "buf_elems (sv_indptr v) ! num_vectors v = int (length (buf_elems (sv_indices v)))"
    using wf l ne by (simp add: csr_wf_def last_conv_nth)
  show "length (buf_elems (sv_values v)) = length (buf_elems (sv_indices v)) * sv_element_size v"
    using wf by (simp add: csr_wf_def)
  show "length (buf_elems (sv_indptr v)) \<le> 1152921504606846975"
    and li: "length (buf_elems (sv_indices v)) \<le> 4611686018427387903"
    and "length (buf_elems (sv_values v)) \<le> 9223372036854775807"
    using assms(1) by (auto simp: sv_wire_def vector_max_size_def)
  show "sv_element_size v \<in> {1, 2, 4, 8}"
    using assms(1) by (auto simp: sv_wire_def U8_def U16_def U32_def U64_def)
  show "\<forall>p \<in> set (buf_elems (sv_indptr v)). is_i64 p"
  proof
    fix p assume "p \<in> set (buf_elems (sv_indptr v))"
    from csr_wf_bounds [OF wf this] li show "is_i64 p" by (auto simp: is_i64_def)
  qed
qed

lemma sv_serialize_eq:
  assumes "sv_wire v" and "num_vectors v > 0"
  shows "sv_serialize v = (\<lambda>w. bindE (write_size_t (num_vectors v) w) (\<lambda>w.
    bindE (write_size_t (sv_dimension v) w) (\<lambda>w. bindE (write_size_t (sv_element_size v) w) (\<lambda>w.
    bindE (write_padded offset_bytes 8 (buf_elems (sv_indptr v)) w) (\<lambda>w.
    bindE (write_padded term_bytes 2 (buf_elems (sv_indices v)) w)
      (write_padded u8_bytes (sv_element_size v) (buf_elems (sv_values v))))))))"
proof -
  note r = sv_wire_rows [OF assms]
  have "u64 (num_vectors v + 1) = length (buf_elems (sv_indptr v))" using r(2,5) by simp
  moreover have "buf_get (sv_indptr v) (num_vectors v) = Inr (int (length (buf_elems (sv_indices v))))"
    using r(2,3) by (simp add: buf_get_def)
  moreover have "size_of_int (int (length (buf_elems (sv_indices v)))) = length (buf_elems (sv_indices v))"
    using r(6) by (simp add: is_i64_def)
  moreover have "u64 (length (buf_elems (sv_indices v)) * sv_element_size v) = length (buf_elems (sv_values v))"
    using r(4,7) by simp
  ultimately show ?thesis
    using assms(2) by (intro ext) (simp add: sv_serialize_def Let_def take_elems_def)
qed

lemma sv_empty_content: "sv_content_wf v \<Longrightarrow> num_vectors v = 0 \<Longrightarrow>
  buf_elems (sv_indices v) = [] \<and> buf_elems (sv_values v) = [] \<and> length (buf_elems (sv_indptr v)) \<le> 1"
  by (auto simp: sv_content_wf_def num_vectors_def buf_empty_def buf_size_def csr_wf_def Suc_le_eq
      length_Suc_conv last_conv_nth hd_conv_nth split: if_splits)

lemma sv_round_trip:
  assumes wire: "sv_wire v" and ne: "num_vectors v > 0"
  shows "round_trips mk_reader (sv_serialize v) (sv_deserialize v0)
    (\<lambda>v'. same_content v v' \<and> sv_growable v')"
proof -
  note r = sv_wire_rows [OF wire ne]
  have terms: "\<forall>t \<in> set (buf_elems (sv_indices v)). t < 65536" using wire by (simp add: sv_wire_def)
  have es: "0 < sv_element_size v" "sv_element_size v \<le> kMaxAlignment"
    using r(8) by (auto simp: kMaxAlignment_def)
  have lens: "length (buf_elems (sv_indptr v)) \<le> vector_max_size 8"
    "length (buf_elems (sv_indices v)) \<le> vector_max_size 2" "length (buf_elems (sv_values v)) \<le> vector_max_size 1"
    using wire by (simp_all add: sv_wire_def)
  have n1: "u64 (num_vectors v + 1) = length (buf_elems (sv_indptr v))" using r(2,5) by simp
  have sz: "size_of_int (int (length (buf_elems (sv_indices v)))) = length (buf_elems (sv_indices v))"
    using r(6) by (simp add: is_i64_def)
  have mul: "checked_mul (length (buf_elems (sv_indices v))) (sv_element_size v) = Inr (length (buf_elems (sv_values v)))"
    using r(4,6,7) by (simp add: checked_mul_exact SIZE_MAX_def)
  have get: "buf_get b (num_vectors v) = Inr (int (length (buf_elems (sv_indices v))))"
    if "buf_elems b = buf_elems (sv_indptr v)" for b
    using that r(2,3) by (simp add: buf_get_def)
  have small: "num_vectors v < 256 ^ 8" "sv_dimension v < 256 ^ 8" "sv_element_size v < 256 ^ 8"
    using r(2,5,8) wire by (auto simp: sv_wire_def SIZE_MAX_def)
  have vals_rt: "round_trips mk_reader (write_padded u8_bytes (sv_element_size v) (buf_elems (sv_values v)))
      (\<lambda>r. bindE (read_padded u8_of_bytes 1 (sv_element_size v) (length (buf_elems (sv_values v))) r)
        (\<lambda>(values, r6). Inr (\<lparr>sv_indptr = b1, sv_indices = b2, sv_values = values,
           sv_element_size = sv_element_size v, sv_dimension = sv_dimension v\<rparr>, r6)))
      (\<lambda>v'. same_content v v' \<and> sv_growable v')"
    if "buf_elems b1 = buf_elems (sv_indptr v) \<and> growable b1" "buf_elems b2 = buf_elems (sv_indices v) \<and> growable b2" for b1 b2
    by (rule round_trips_map [OF u8_codec.round_trips_read [OF es _ lens(3)]])
      (use that in \<open>auto simp: same_content_def sv_growable_def\<close>)
  have indices_rt: "round_trips mk_reader (\<lambda>w. bindE (write_padded term_bytes 2 (buf_elems (sv_indices v)) w)
        (write_padded u8_bytes (sv_element_size v) (buf_elems (sv_values v))))
      (\<lambda>r. bindE (read_padded le_nat 2 2 (length (buf_elems (sv_indices v))) r) (\<lambda>(indices, r5).
         bindE (read_padded u8_of_bytes 1 (sv_element_size v) (length (buf_elems (sv_values v))) r5)
        (\<lambda>(values, r6). Inr (\<lparr>sv_indptr = b1, sv_indices = indices, sv_values = values,
           sv_element_size = sv_element_size v, sv_dimension = sv_dimension v\<rparr>, r6))))
      (\<lambda>v'. same_content v v' \<and> sv_growable v')"
    if "buf_elems b1 = buf_elems (sv_indptr v) \<and> growable b1" for b1
    by (rule round_trips_bind [OF term_codec.round_trips_read [OF _ _ terms lens(2)] vals_rt [OF that]])
      (simp_all add: kMaxAlignment_def)
  have "round_trips mk_reader (\<lambda>w. bindE (write_padded offset_bytes 8 (buf_elems (sv_indptr v)) w) (\<lambda>w.
        bindE (write_padded term_bytes 2 (buf_elems (sv_indices v)) w)
        (write_padded u8_bytes (sv_element_size v) (buf_elems (sv_values v)))))
      (\<lambda>r. bindE (read_padded int_of_bytes 8 8 (length (buf_elems (sv_indptr v))) r) (\<lambda>(indptr, r4).
        bindE (buf_get indptr (num_vectors v)) (\<lambda>nnz.
        bindE (read_padded le_nat 2 2 (size_of_int nnz) r4) (\<lambda>(indices, r5).
        bindE (checked_mul (size_of_int nnz) (sv_element_size v)) (\<lambda>value_size.
        bindE (read_padded u8_of_bytes 1 (sv_element_size v) value_size r5)
        (\<lambda>(values, r6). Inr (\<lparr>sv_indptr = indptr, sv_indices = indices, sv_values = values,
           sv_element_size = sv_element_size v, sv_dimension = sv_dimension v\<rparr>, r6)))))))
      (\<lambda>v'. same_content v v' \<and> sv_growable v')"
  proof (rule round_trips_bind [OF offset_codec.round_trips_read [OF _ _ r(9) lens(1)]])
    fix b assume b: "buf_elems b = buf_elems (sv_indptr v) \<and> growable b"
    from b have g: "buf_get b (num_vectors v) = Inr (int (length (buf_elems (sv_indices v))))"
      using get by blast
    show "round_trips mk_reader (\<lambda>w. bindE (write_padded term_bytes 2 (buf_elems (sv_indices v)) w)
        (write_padded u8_bytes (sv_element_size v) (buf_elems (sv_values v))))
      (\<lambda>r4. bindE (buf_get b (num_vectors v)) (\<lambda>nnz.
        bindE (read_padded le_nat 2 2 (size_of_int nnz) r4) (\<lambda>(indices, r5).
        bindE (checked_mul (size_of_int nnz) (sv_element_size v)) (\<lambda>value_size.
        bindE (read_padded u8_of_bytes 1 (sv_element_size v) value_size r5)
        (\<lambda>(values, r6). Inr (\<lparr>sv_indptr = b, sv_indices = indices, sv_values = values,
           sv_element_size = sv_element_size v, sv_dimension = sv_dimension v\<rparr>, r6))))))
      (\<lambda>v'. same_content v v' \<and> sv_growable v')"
      using indices_rt [OF b] by (simp add: g sz mul)
  qed (simp_all add: kMaxAlignment_def)
  note arrays = this
  have "round_trips mk_reader (\<lambda>w. bindE (write_size_t (sv_dimension v) w) (\<lambda>w. bindE (write_size_t (sv_element_size v) w) (\<lambda>w.
      bindE (write_padded offset_bytes 8 (buf_elems (sv_indptr v)) w) (\<lambda>w.
      bindE (write_padded term_bytes 2 (buf_elems (sv_indices v)) w)
        (write_padded u8_bytes (sv_element_size v) (buf_elems (sv_values v)))))))
      (\<lambda>r1. bindE (read_size_t r1) (\<lambda>(dimension, r2). bindE (read_size_t r2) (\<lambda>(element_size, r3).
      bindE (read_padded int_of_bytes 8 8 (u64 (num_vectors v + 1)) r3) (\<lambda>(indptr, r4).
        bindE (buf_get indptr (num_vectors v)) (\<lambda>nnz.
        bindE (read_padded le_nat 2 2 (size_of_int nnz) r4) (\<lambda>(indices, r5).
        bindE (checked_mul (size_of_int nnz) element_size) (\<lambda>value_size.
        bindE (read_padded u8_of_bytes 1 element_size value_size r5)
        (\<lambda>(values, r6). Inr (\<lparr>sv_indptr = indptr, sv_indices = indices, sv_values = values,
           sv_element_size = element_size, sv_dimension = dimension\<rparr>, r6)))))))))
      (\<lambda>v'. same_content v v' \<and> sv_growable v')"
    by (intro round_trips_bind [OF round_trips_read_nat] small) (use arrays n1 in simp_all)
  then show ?thesis
    unfolding sv_serialize_eq [OF wire ne] sv_deserialize_def Let_def
    by (intro round_trips_bind [OF round_trips_read_nat] small) (use ne in simp_all)
qed

subsection \<open>The mapped reader\<close>

lemma monotonic_sorted: "monotonic xs \<longleftrightarrow> sorted xs"
proof (induction xs rule: monotonic.induct)
  case (1 a b xs)
  then show ?case by (force simp: not_less)
qed auto

text \<open>Everything search relies on is checked before anything is borrowed.\<close>

lemma map_vectors_wf:
  assumes "map_vectors es dimn (Some ip) (length ip) ix nix vs nvs addr = Inr v" and "ip \<noteq> []"
    and "\<And>xs. ix = Some xs \<Longrightarrow> length xs = nix" and "\<And>bs. vs = Some bs \<Longrightarrow> length bs = nvs"
    and "nix * es \<le> SIZE_MAX" and "int nix < 9223372036854775808" and "\<forall>p \<in> set ip. is_i64 p"
    and "0 < nix"
  shows "csr_wf es ip (buf_elems (sv_indices v)) (buf_elems (sv_values v)) \<and>
    buf_elems (sv_indptr v) = ip \<and> sv_element_size v = es \<and> sv_dimension v = dimn \<and> 0 < dimn"
proof -
  have c: "es \<in> {U8, U16, U32, U64}" "0 < dimn" "ix \<noteq> None" "vs \<noteq> None" "u64 (nix * es) = nvs" "ip ! 0 = 0"
    "monotonic ip" "size_of_int (ip ! (length ip - 1)) = nix"
    and v: "v = sv_default\<lparr>sv_element_size := es, sv_dimension := dimn, sv_indptr := buf_borrow (Some ip),
      sv_indices := buf_borrow ix, sv_values := buf_borrow vs\<rparr>"
    using assms(1,2,8) by (auto simp: map_vectors_def err_simps Let_def)
  have srt: "sorted ip" using c(7) by (simp add: monotonic_sorted)
  have "ip ! 0 \<le> ip ! (length ip - 1)" using srt assms(2) by (intro sorted_nth_mono) auto
  then have "0 \<le> last ip" "is_i64 (last ip)" "last ip = ip ! (length ip - 1)"
    using c(6) assms(2,7) by (auto simp: last_conv_nth)
  then have "last ip = int nix" using c(8) by auto
  moreover have "nvs = nix * es" using c(5) assms(5) by (simp add: SIZE_MAX_def)
  moreover obtain xs bs where "ix = Some xs" "vs = Some bs" using c(3,4) by auto
  ultimately show ?thesis
    using c assms srt by (auto simp: csr_wf_def v hd_conv_nth)
qed

lemma map_vectors_accepts:
  assumes "csr_wf es ip ix vs" and "es \<in> {U8, U16, U32, U64}" and "0 < dimn"
    and "length ix * es \<le> SIZE_MAX" and "length ix < 9223372036854775808" and "addr mod es = 0"
  shows "map_vectors es dimn (Some ip) (length ip) (if ix = [] then None else Some ix) (length ix)
      (if vs = [] then None else Some vs) (length vs) (case (if vs = [] then None else Some vs) of None \<Rightarrow> 0 | Some _ \<Rightarrow> addr) =
    Inr (sv_default\<lparr>sv_element_size := es, sv_dimension := dimn, sv_indptr := buf_borrow (Some ip),
      sv_indices := buf_borrow (if ix = [] then None else Some ix),
      sv_values := buf_borrow (if vs = [] then None else Some vs)\<rparr>)"
proof -
  have ne: "ip \<noteq> []" "ip ! 0 = 0" "ip ! (length ip - 1) = int (length ix)" "monotonic ip"
    and lv: "length vs = length ix * es"
    using assms(1) by (auto simp: csr_wf_def hd_conv_nth last_conv_nth monotonic_sorted)
  have es: "0 < es" using assms(2) by (auto simp: U8_def U16_def U32_def U64_def)
  have "ix = [] \<longleftrightarrow> vs = []" using lv es by auto
  moreover have "size_of_int (int (length ix)) = length ix" using assms(5) by (simp add: is_i64_def)
  moreover have "u64 (length ix * es) = length vs" using assms(4) lv by (simp add: SIZE_MAX_def)
  moreover have "throw_if_not_positive (int dimn) = Inr (int dimn)"
    using assms(3) by (simp add: throw_if_not_positive_def)
  ultimately show ?thesis
    using ne assms(2,6) by (auto simp: map_vectors_def Let_def throw_if_null_def)
qed

lemma sv_map_round_trip:
  assumes wire: "sv_wire v" and ne: "num_vectors v > 0" and base: "8 dvd base"
  shows "round_trips (mk_cursor base) (sv_serialize v) (\<lambda>c. sv_mmap_deserialize (Some c)) (same_content v)"
proof -
  note r = sv_wire_rows [OF wire ne]
  have terms: "\<forall>t \<in> set (buf_elems (sv_indices v)). t < 65536" using wire by (simp add: sv_wire_def)
  have es: "0 < sv_element_size v" "sv_element_size v \<le> kMaxAlignment" "sv_element_size v dvd 8"
    using r(8) by (auto simp: kMaxAlignment_def)
  then have es_base: "sv_element_size v dvd base" using base by (meson dvd_trans)
  have base2: "2 dvd base" using base by (meson dvd_trans even_numeral)
  have n1: "u64 (num_vectors v + 1) = length (buf_elems (sv_indptr v))" using r(2,5) by simp
  have sz: "size_of_int (int (length (buf_elems (sv_indices v)))) = length (buf_elems (sv_indices v))"
    using r(6) by (simp add: is_i64_def)
  have mul: "checked_mul (length (buf_elems (sv_indices v))) (sv_element_size v) = Inr (length (buf_elems (sv_values v)))"
    using r(4,6,7) by (simp add: checked_mul_exact SIZE_MAX_def)
  have ipne: "buf_elems (sv_indptr v) \<noteq> []" using r(2) by auto
  have small: "num_vectors v < 256 ^ 8" "sv_dimension v < 256 ^ 8" "sv_element_size v < 256 ^ 8"
    using r(2,5,8) wire by (auto simp: sv_wire_def SIZE_MAX_def)
  let ?opt = "\<lambda>xs. if xs = [] then None else Some xs"
  have build: "map_vectors (sv_element_size v) (sv_dimension v) (Some (buf_elems (sv_indptr v)))
      (length (buf_elems (sv_indptr v))) (?opt (buf_elems (sv_indices v))) (length (buf_elems (sv_indices v)))
      (?opt (buf_elems (sv_values v))) (length (buf_elems (sv_values v)))
      (case ?opt (buf_elems (sv_values v)) of None \<Rightarrow> 0 | Some _ \<Rightarrow> addr) =
    Inr (sv_default\<lparr>sv_element_size := sv_element_size v, sv_dimension := sv_dimension v,
      sv_indptr := buf_borrow (Some (buf_elems (sv_indptr v))),
      sv_indices := buf_borrow (?opt (buf_elems (sv_indices v))),
      sv_values := buf_borrow (?opt (buf_elems (sv_values v)))\<rparr>)"
    if "addr mod sv_element_size v = 0" for addr
    by (rule map_vectors_accepts [OF r(1)]) (use wire r(4,6,7) that in \<open>auto simp: sv_wire_def SIZE_MAX_def\<close>)
  have build_rt: "round_trips (mk_cursor base) (write_padded u8_bytes (sv_element_size v) (buf_elems (sv_values v)))
      (\<lambda>c7. bindE (map_padded u8_of_bytes 1 1 (sv_element_size v) (length (buf_elems (sv_values v))) c7)
        (\<lambda>((values, addr), c9). bindE (map_vectors (sv_element_size v) (sv_dimension v)
            (Some (buf_elems (sv_indptr v))) (length (buf_elems (sv_indptr v)))
            (?opt (buf_elems (sv_indices v))) (length (buf_elems (sv_indices v))) values
            (length (buf_elems (sv_values v))) (case values of None \<Rightarrow> 0 | Some _ \<Rightarrow> addr))
          (\<lambda>v. Inr (v, c9)))) (same_content v)"
  proof (rule round_tripsI)
    fix w rest :: "byte list"
    have rt: "round_trips (mk_cursor base) (write_padded u8_bytes (sv_element_size v) (buf_elems (sv_values v)))
        (map_padded u8_of_bytes 1 1 (sv_element_size v) (length (buf_elems (sv_values v))))
        (\<lambda>(p, addr). p = ?opt (buf_elems (sv_values v)) \<and> addr mod sv_element_size v = 0)"
      by (rule u8_codec.round_trips_mapped [OF es(1,2) _ _ es_base]) simp_all
    obtain out y where oy: "write_padded u8_bytes (sv_element_size v) (buf_elems (sv_values v)) w = Inr (w @ out)"
      "case y of (p, addr) \<Rightarrow> p = ?opt (buf_elems (sv_values v)) \<and> addr mod sv_element_size v = 0"
      "map_padded u8_of_bytes 1 1 (sv_element_size v) (length (buf_elems (sv_values v)))
         (mk_cursor base (w @ out @ rest) (length w)) = Inr (y, mk_cursor base (w @ out @ rest) (length w + length out))"
      using rt unfolding round_trips_def by meson
    obtain p addr where y: "y = (p, addr)" by (cases y)
    have p: "p = ?opt (buf_elems (sv_values v))" and addr: "addr mod sv_element_size v = 0"
      using oy(2) unfolding y by simp_all
    have o: "map_padded u8_of_bytes 1 1 (sv_element_size v) (length (buf_elems (sv_values v)))
         (mk_cursor base (w @ out @ rest) (length w)) =
       Inr ((?opt (buf_elems (sv_values v)), addr), mk_cursor base (w @ out @ rest) (length w + length out))"
      using oy(3) unfolding y p .
    define v' where "v' = sv_default\<lparr>sv_element_size := sv_element_size v, sv_dimension := sv_dimension v,
      sv_indptr := buf_borrow (Some (buf_elems (sv_indptr v))),
      sv_indices := buf_borrow (?opt (buf_elems (sv_indices v))),
      sv_values := buf_borrow (?opt (buf_elems (sv_values v)))\<rparr>"
    show "\<exists>out y. write_padded u8_bytes (sv_element_size v) (buf_elems (sv_values v)) w = Inr (w @ out) \<and>
      same_content v y \<and>
      bindE (map_padded u8_of_bytes 1 1 (sv_element_size v) (length (buf_elems (sv_values v)))
          (mk_cursor base (w @ out @ rest) (length w)))
        (\<lambda>((values, addr), c9). bindE (map_vectors (sv_element_size v) (sv_dimension v)
            (Some (buf_elems (sv_indptr v))) (length (buf_elems (sv_indptr v)))
            (?opt (buf_elems (sv_indices v))) (length (buf_elems (sv_indices v))) values
            (length (buf_elems (sv_values v))) (case values of None \<Rightarrow> 0 | Some _ \<Rightarrow> addr))
          (\<lambda>v. Inr (v, c9))) =
      Inr (y, mk_cursor base (w @ out @ rest) (length w + length out))"
    proof (intro exI [of _ out] exI [of _ v'] conjI)
      show "write_padded u8_bytes (sv_element_size v) (buf_elems (sv_values v)) w = Inr (w @ out)" by (rule oy(1))
      show "same_content v v'" by (simp add: v'_def same_content_def)
    qed (unfold o bindE.simps prod.case build [OF addr] v'_def, rule refl)
  qed
  have indices_rt: "round_trips (mk_cursor base) (\<lambda>w. bindE (write_padded term_bytes 2 (buf_elems (sv_indices v)) w)
        (write_padded u8_bytes (sv_element_size v) (buf_elems (sv_values v))))
      (\<lambda>c5. bindE (map_padded le_nat 2 2 2 (length (buf_elems (sv_indices v))) c5) (\<lambda>((indices, _), c7).
         bindE (map_padded u8_of_bytes 1 1 (sv_element_size v) (length (buf_elems (sv_values v))) c7)
        (\<lambda>((values, addr), c9). bindE (map_vectors (sv_element_size v) (sv_dimension v)
            (Some (buf_elems (sv_indptr v))) (length (buf_elems (sv_indptr v)))
            indices (length (buf_elems (sv_indices v))) values
            (length (buf_elems (sv_values v))) (case values of None \<Rightarrow> 0 | Some _ \<Rightarrow> addr))
          (\<lambda>v. Inr (v, c9))))) (same_content v)"
    by (rule round_trips_bind [OF term_codec.round_trips_mapped [OF _ _ terms _ base2]])
      (use build_rt in \<open>auto simp: kMaxAlignment_def\<close>)
  have indptr_rt: "round_trips (mk_cursor base) (\<lambda>w. bindE (write_padded offset_bytes 8 (buf_elems (sv_indptr v)) w) (\<lambda>w.
        bindE (write_padded term_bytes 2 (buf_elems (sv_indices v)) w)
        (write_padded u8_bytes (sv_element_size v) (buf_elems (sv_values v)))))
      (\<lambda>c3. bindE (map_padded int_of_bytes 8 8 8 (length (buf_elems (sv_indptr v))) c3) (\<lambda>((indptr, _), c5).
         bindE (map_padded le_nat 2 2 2 (size_of_int (the indptr ! num_vectors v)) c5) (\<lambda>((indices, _), c7).
         bindE (checked_mul (size_of_int (the indptr ! num_vectors v)) (sv_element_size v)) (\<lambda>value_size.
         bindE (map_padded u8_of_bytes 1 1 (sv_element_size v) value_size c7)
        (\<lambda>((values, addr), c9). bindE (map_vectors (sv_element_size v) (sv_dimension v)
            indptr (length (buf_elems (sv_indptr v)))
            indices (size_of_int (the indptr ! num_vectors v)) values
            value_size (case values of None \<Rightarrow> 0 | Some _ \<Rightarrow> addr))
          (\<lambda>v. Inr (v, c9))))))) (same_content v)"
    by (rule round_trips_bind [OF offset_codec.round_trips_mapped [OF _ _ r(9) _ base]])
      (use indices_rt ipne r(3) sz mul in \<open>auto simp: kMaxAlignment_def\<close>)
  have "u64 (num_vectors v + 1) \<noteq> 0" using n1 r(2) by simp
  then have "round_trips (mk_cursor base) (\<lambda>w. bindE (write_size_t (sv_dimension v) w) (\<lambda>w.
        bindE (write_size_t (sv_element_size v) w) (\<lambda>w.
        bindE (write_padded offset_bytes 8 (buf_elems (sv_indptr v)) w) (\<lambda>w.
        bindE (write_padded term_bytes 2 (buf_elems (sv_indices v)) w)
        (write_padded u8_bytes (sv_element_size v) (buf_elems (sv_values v)))))))
      (\<lambda>c1. bindE (map_size_t c1) (\<lambda>(dimension, c2). bindE (map_size_t c2) (\<lambda>(element_size, c3).
         bindE (throw_if (u64 (num_vectors v + 1) = 0)
                 (Runtime_error ''mmap: implausible vector count in index file'')) (\<lambda>_.
         bindE (map_padded int_of_bytes 8 8 8 (u64 (num_vectors v + 1)) c3) (\<lambda>((indptr, _), c5).
         bindE (map_padded le_nat 2 2 2 (size_of_int (the indptr ! num_vectors v)) c5) (\<lambda>((indices, _), c7).
         bindE (checked_mul (size_of_int (the indptr ! num_vectors v)) element_size) (\<lambda>value_size.
         bindE (map_padded u8_of_bytes 1 1 element_size value_size c7)
        (\<lambda>((values, addr), c9). bindE (map_vectors element_size dimension
            indptr (u64 (num_vectors v + 1)) indices (size_of_int (the indptr ! num_vectors v)) values
            value_size (case values of None \<Rightarrow> 0 | Some _ \<Rightarrow> addr))
          (\<lambda>v. Inr (v, c9)))))))))) (same_content v)"
    by (intro round_trips_bind [OF round_trips_map_nat] small) (use indptr_rt n1 in simp_all)
  then show ?thesis
    unfolding sv_serialize_eq [OF wire ne] sv_mmap_deserialize_def Let_def throw_if_null_def
      option.case bindE.simps
    by (intro round_trips_bind [OF round_trips_map_nat] small) (use ne in simp)
qed

section \<open>Dense rows\<close>

text \<open>The values of a row's bytes, at the stored width.\<close>

definition row_floats :: "(byte list \<Rightarrow> 'w) \<Rightarrow> (nat \<Rightarrow> 'w) \<Rightarrow> size_t \<Rightarrow> byte list \<Rightarrow> 'w list" where
  "row_floats dec conv es bytes = map (sv_float_at dec conv es bytes) [0..<length bytes div es]"

text \<open>A vector of \<open>n\<close> zeros with a row's entries stored in order: a later one overwrites.\<close>

definition densify :: "nat \<Rightarrow> term_t list \<Rightarrow> 'w :: zero list \<Rightarrow> 'w list" where
  "densify n terms ws = foldl (\<lambda>d (t, w). d[t := w]) (replicate n 0) (zip terms ws)"

lemma length_foldl_update [simp]: "length (foldl (\<lambda>d (t, w). d[t := w]) d ps) = length d"
  by (induction ps arbitrary: d) auto

lemma length_densify [simp]: "length (densify n terms ws) = n"
  by (simp add: densify_def)

lemma foldl_update_nth:
  "t < length d \<Longrightarrow> foldl (\<lambda>d (t, w). d[t := w]) d ps ! t =
     (case map_of (rev ps) t of None \<Rightarrow> d ! t | Some w \<Rightarrow> w)"
proof (induction ps rule: rev_induct)
  case (snoc p ps)
  then show ?case by (cases p) (auto simp: nth_list_update)
qed simp

lemma densify_nth:
  "t < n \<Longrightarrow> densify n terms ws ! t = (case map_of (rev (zip terms ws)) t of None \<Rightarrow> 0 | Some w \<Rightarrow> w)"
  by (simp add: densify_def foldl_update_nth split: option.split)

lemma sv_float_at_slice:
  assumes "a + j < b" and "b * es \<le> length xs" and "es \<in> {1, 2, 4, 8}"
  shows "sv_float_at dec conv es (slice (a * es) (b * es) xs) j = sv_float_at dec conv es xs (a + j)"
proof -
  have le: "(a + j) * es + es \<le> b * es"
    using mult_le_mono1 [of "Suc (a + j)" b es] assms(1) by simp
  have "take m (drop (j * es) (slice (a * es) (b * es) xs)) = take m (drop ((a + j) * es) xs)" if "m \<le> es" for m
  proof -
    have "m \<le> b * es - a * es - j * es" using le that by (simp add: distrib_right)
    then show ?thesis by (simp add: slice_def drop_take distrib_right min_absorb1 add.commute)
  qed
  then show ?thesis using assms(3) by (auto simp: sv_float_at_def U32_def U16_def Let_def)
qed

lemma foldE_store:
  assumes "\<And>i. i \<in> set is \<Longrightarrow> g i = Inr (t i)" and "\<And>i. i \<in> set is \<Longrightarrow> t i < length d"
  shows "foldE (\<lambda>dense i. bindE (g i) (\<lambda>x. store x (f i) dense)) d is =
    Inr (foldl (\<lambda>d (t, w). d[t := w]) d (map (\<lambda>i. (t i, f i)) is))"
  using assms by (induction "is" arbitrary: d) (auto simp: store_def)

lemma csr_row_bounds:
  assumes "csr_wf es ip ix vs" and "i + 1 < length ip"
  shows "0 \<le> ip ! i" "ip ! i \<le> ip ! (i + 1)" "nat (ip ! (i + 1)) \<le> length ix"
    "csr_rows es ip ix vs ! i = (slice (nat (ip ! i)) (nat (ip ! (i + 1))) ix,
       slice (nat (ip ! i) * es) (nat (ip ! (i + 1)) * es) vs)"
proof -
  have "ip ! i \<in> set ip" "ip ! (i + 1) \<in> set ip" using assms(2) by simp_all
  from this [THEN csr_wf_bounds [OF assms(1)]]
  show "0 \<le> ip ! i" "nat (ip ! (i + 1)) \<le> length ix" by auto
  show "ip ! i \<le> ip ! (i + 1)" using assms by (auto simp: csr_wf_def intro!: sorted_nth_mono)
  show "csr_rows es ip ix vs ! i = (slice (nat (ip ! i)) (nat (ip ! (i + 1))) ix,
       slice (nat (ip ! i) * es) (nat (ip ! (i + 1)) * es) vs)"
    using assms(2) by (simp add: csr_rows_def nth_tl)
qed

lemma get_dense_vector_typed_row:
  fixes dec :: "byte list \<Rightarrow> 'w :: zero"
  assumes "sv_content_wf v" and "sv_element_size v \<in> {1, 2, 4, 8}" and "0 < sv_dimension v"
    and "\<forall>t \<in> set (buf_elems (sv_indices v)). t < sv_dimension v"
    and "i < num_vectors v" and "num_vectors v < 2147483647"
  shows "get_dense_vector_typed dec conv v (int i) =
    Inr (densify (sv_dimension v) (fst (sv_rows v ! i)) (row_floats dec conv (sv_element_size v) (snd (sv_rows v ! i))))"
proof -
  let ?ip = "buf_elems (sv_indptr v)" and ?ix = "buf_elems (sv_indices v)" and ?vs = "buf_elems (sv_values v)"
    and ?es = "sv_element_size v"
  have len: "length ?ip = Suc (num_vectors v)" and wf: "csr_wf ?es ?ip ?ix ?vs"
    using assms(1,5) by (auto simp: sv_content_wf_def num_vectors_def buf_empty_def buf_size_def split: if_splits)
  have i: "i + 1 < length ?ip" using assms(5) len by simp
  define s where "s = nat (?ip ! i)"
  define e where "e = nat (?ip ! (i + 1))"
  note b = csr_row_bounds [OF wf i, folded s_def e_def]
  have se: "s \<le> e" using b(2) by (simp add: s_def e_def)
  have lv: "e * ?es \<le> length ?vs" using b(3) wf by (simp add: csr_wf_def)
  have ok: "vector_idx_ok v (int i)"
    using assms(5,6) len by (simp add: vector_idx_ok_def buf_size_def is_i32_def)
  have get: "buf_get (sv_indices v) j = Inr (?ix ! j)" if "j \<in> set [s..<e]" for j
    using that b(3) by (simp add: buf_get_def)
  have t: "?ix ! j < length (replicate (sv_dimension v) (0 :: 'w))" if "j \<in> set [s..<e]" for j
    using that b(3) assms(4) by simp
  have es0: "0 < ?es" using assms(2) by auto
  have "get_dense_vector_typed dec conv v (int i) =
      foldE (\<lambda>dense j. bindE (buf_get (sv_indices v) j) (\<lambda>t. store t (sv_float_at dec conv ?es ?vs j) dense))
        (replicate (sv_dimension v) 0) [s..<e]"
    using ok i assms(3) by (simp add: get_dense_vector_typed_def buf_get_def [of "sv_indptr v"] s_def e_def)
  also have "\<dots> = Inr (foldl (\<lambda>d (t, w). d[t := w]) (replicate (sv_dimension v) 0)
      (map (\<lambda>j. (?ix ! j, sv_float_at dec conv ?es ?vs j)) [s..<e]))"
    by (rule foldE_store [OF get t])
  also have "map (\<lambda>j. (?ix ! j, sv_float_at dec conv ?es ?vs j)) [s..<e] =
      zip (fst (sv_rows v ! i)) (row_floats dec conv ?es (snd (sv_rows v ! i)))"
  proof (rule nth_equalityI)
    have l: "length (slice (s * ?es) (e * ?es) ?vs) div ?es = e - s"
      using lv es0 by (simp add: flip: diff_mult_distrib)
    show "length (map (\<lambda>j. (?ix ! j, sv_float_at dec conv ?es ?vs j)) [s..<e]) =
        length (zip (fst (sv_rows v ! i)) (row_floats dec conv ?es (snd (sv_rows v ! i))))"
      using b(3) l by (simp add: sv_rows_def b(4) row_floats_def)
    fix j assume "j < length (map (\<lambda>j. (?ix ! j, sv_float_at dec conv ?es ?vs j)) [s..<e])"
    then have j: "s + j < e" by simp
    have "sv_float_at dec conv ?es (slice (s * ?es) (e * ?es) ?vs) j = sv_float_at dec conv ?es ?vs (s + j)"
      by (rule sv_float_at_slice [OF j lv assms(2)])
    then show "map (\<lambda>j. (?ix ! j, sv_float_at dec conv ?es ?vs j)) [s..<e] ! j =
        zip (fst (sv_rows v ! i)) (row_floats dec conv ?es (snd (sv_rows v ! i))) ! j"
      using j b(3) l nth_upt [OF j] by (simp add: sv_rows_def b(4) row_floats_def slice_nth)
  qed
  finally show ?thesis by (simp add: densify_def)
qed

section \<open>Properties\<close>

lemma le_nat_zeros [simp]: "le_nat (replicate n 0) = 0"
  by (induction n) simp_all

lemma le_bytes_numeral:
  "le_bytes (numeral k) x = of_nat (x mod 256) # le_bytes (pred_numeral k) (x div 256)"
  using le_bytes.simps(2) [of "pred_numeral k" x] by (simp only: numeral_eq_Suc [of k])

text \<open>
  C19: \<open>add_vectors\<close> appends the given rows and changes no stored one: the matrix stands for the
  old rows followed by the new ones, its offsets start at 0, ascend and end at the number of
  entries, and it can grow again.
\<close>

theorem add_vectors_appends_rows:
  assumes "sv_content_wf v" and "sv_growable v" and "csr_wf (sv_element_size v) indptr indices weights"
    and "length indices * sv_element_size v \<le> SIZE_MAX"
  shows "\<exists>v'. add_vectors v indptr indices weights = Inr v' \<and> sv_content_wf v' \<and> sv_growable v' \<and>
    sv_rows v' = sv_rows v @ csr_rows (sv_element_size v) indptr indices weights \<and>
    num_vectors v' = num_vectors v + (length indptr - 1)"
proof -
  obtain v' where v': "add_vectors v indptr indices weights = Inr v'" "sv_content_wf v'" "sv_growable v'"
    "sv_rows v' = sv_rows v @ csr_rows (sv_element_size v) indptr indices weights"
    using add_vectors_content [OF assms] by blast
  moreover have "num_vectors v' = num_vectors v + (length indptr - 1)"
    by (simp add: num_vectors_rows v'(4))
  ultimately show ?thesis by blast
qed

theorem add_vectors_appends_rows_witness:
  "\<exists>v'. add_vectors (sv_default\<lparr>sv_element_size := 1, sv_dimension := 9\<rparr>) [0, 2, 3] [4, 7, 8] [1, 2, 3] = Inr v' \<and>
     num_vectors v' = 2"
proof -
  let ?v = "sv_default\<lparr>sv_element_size := 1, sv_dimension := 9\<rparr>"
  have "sv_content_wf ?v" "sv_growable ?v" "csr_wf (sv_element_size ?v) [0, 2, 3] [4, 7, 8] [1, 2, 3 :: byte]"
    "length [4, 7, 8 :: nat] * sv_element_size ?v \<le> SIZE_MAX"
    by (simp_all add: sv_content_wf_def sv_growable_def sv_default_def csr_wf_def SIZE_MAX_def)
  from add_vectors_appends_rows [OF this] obtain v' where
    "add_vectors ?v [0, 2, 3] [4, 7, 8] [1, 2, 3] = Inr v'" "num_vectors v' = num_vectors ?v + (length [0, 2, 3 :: int] - 1)"
    by blast
  moreover have "num_vectors ?v = 0" by (simp add: num_vectors_def sv_default_def buf_empty_def buf_size_def)
  ultimately show ?thesis by simp
qed

text \<open>
  C20: a matrix written with \<open>serialize\<close> after any bytes and before any bytes is read back with
  the same offsets, terms, values and widths by \<open>deserialize\<close>, into buffers that can grow, and
  by \<open>mmap_deserialize\<close> from a mapping aligned to 8 bytes; both stop exactly at its end.
\<close>

theorem sparse_vectors_round_trip:
  assumes "sv_wire v" and "num_vectors v > 0" and "8 dvd base"
  shows "round_trips mk_reader (sv_serialize v) (sv_deserialize v0) (\<lambda>v'. same_content v v' \<and> sv_growable v') \<and>
    round_trips (mk_cursor base) (sv_serialize v) (\<lambda>c. sv_mmap_deserialize (Some c)) (same_content v)"
  using sv_round_trip [OF assms(1,2)] sv_map_round_trip [OF assms] by simp

theorem sparse_vectors_round_trip_witness:
  "round_trips (mk_cursor 4096)
     (sv_serialize \<lparr>sv_indptr = buf_own [0, 2, 3], sv_indices = buf_own [4, 7, 8],
        sv_values = buf_own [1, 2, 3], sv_element_size = 1, sv_dimension = 9\<rparr>)
     (\<lambda>c. sv_mmap_deserialize (Some c))
     (same_content \<lparr>sv_indptr = buf_own [0, 2, 3], sv_indices = buf_own [4, 7, 8],
        sv_values = buf_own [1, 2, 3], sv_element_size = 1, sv_dimension = 9\<rparr>)"
proof -
  let ?v = "\<lparr>sv_indptr = buf_own [0, 2, 3], sv_indices = buf_own [4, 7, 8],
     sv_values = buf_own [1, 2, 3], sv_element_size = 1, sv_dimension = 9\<rparr>"
  have "sv_wire ?v"
    by (simp add: sv_wire_def sv_content_wf_def csr_wf_def U8_def vector_max_size_def SIZE_MAX_def)
  moreover have "num_vectors ?v > 0" by (simp add: num_vectors_def buf_empty_def buf_size_def)
  moreover have "(8 :: nat) dvd 4096" by simp
  ultimately show ?thesis using sparse_vectors_round_trip [of ?v 4096 sv_default] by blast
qed

text \<open>
  \<open>get_dense_vector_float\<close> of a stored row is a zero vector of the matrix's dimension with the
  row's values at its terms, whatever the stored width, and reads and writes inside its arrays;
  an index that is negative or past the last row is refused.
\<close>

theorem dense_row_correct:
  assumes "sv_content_wf v" and "sv_element_size v \<in> {1, 2, 4, 8}" and "0 < sv_dimension v"
    and "\<forall>t \<in> set (buf_elems (sv_indices v)). t < sv_dimension v"
    and "0 < num_vectors v" and "num_vectors v < 2147483647"
  shows "get_dense_vector_float v i =
    (if 0 \<le> i \<and> i < int (num_vectors v)
     then Inr (densify (sv_dimension v) (fst (sv_rows v ! nat i))
            (row_floats f32_of_bytes f32_of_nat (sv_element_size v) (snd (sv_rows v ! nat i))))
     else Inl (Out_of_range ''Vector index out of range''))"
proof (cases "0 \<le> i \<and> i < int (num_vectors v)")
  case True
  then have "nat i < num_vectors v" by linarith
  from get_dense_vector_typed_row [of _ _ f32_of_bytes f32_of_nat, OF assms(1-4) this assms(6)] True show ?thesis by (simp add: get_dense_vector_float_def)
next
  case False
  have "i32 (int (buf_size (sv_indptr v))) = int (num_vectors v) + 1"
    using assms(5,6) by (simp add: num_vectors_def buf_empty_def is_i32_def split: if_splits)
  then have "\<not> vector_idx_ok v i" using False by (auto simp: vector_idx_ok_def)
  then show ?thesis using False by (auto simp: get_dense_vector_float_def get_dense_vector_typed_def)
qed

theorem dense_row_correct_witness:
  "get_dense_vector_float \<lparr>sv_indptr = buf_own [0, 2, 3], sv_indices = buf_own [1, 0, 2],
     sv_values = buf_own [1, 2, 3], sv_element_size = 1, sv_dimension = 3\<rparr> 2 =
   Inl (Out_of_range ''Vector index out of range'')"
proof -
  let ?v = "\<lparr>sv_indptr = buf_own [0, 2, 3], sv_indices = buf_own [1, 0, 2],
     sv_values = buf_own [1, 2, 3], sv_element_size = 1, sv_dimension = 3\<rparr>"
  have n: "num_vectors ?v = 2" by (simp add: num_vectors_def buf_empty_def buf_size_def)
  have "sv_content_wf ?v" "sv_element_size ?v \<in> {1, 2, 4, 8}" "0 < sv_dimension ?v"
    "\<forall>t \<in> set (buf_elems (sv_indices ?v)). t < sv_dimension ?v"
    by (simp_all add: sv_content_wf_def csr_wf_def)
  moreover have "0 < num_vectors ?v" "num_vectors ?v < 2147483647" unfolding n by simp_all
  ultimately have "get_dense_vector_float ?v 2 = (if 0 \<le> (2 :: int) \<and> 2 < int (num_vectors ?v)
     then Inr (densify (sv_dimension ?v) (fst (sv_rows ?v ! nat 2))
            (row_floats f32_of_bytes f32_of_nat (sv_element_size ?v) (snd (sv_rows ?v ! nat 2))))
     else Inl (Out_of_range ''Vector index out of range''))"
    by (rule dense_row_correct)
  then show ?thesis unfolding n by simp
qed

lemma header_words:
  fixes a b c rest
  defines "data \<equiv> le_bytes 8 a @ le_bytes 8 b @ le_bytes 8 c @ rest"
  shows "read_size_t \<lparr>rd_data = data, rd_pos = 0\<rparr> = Inr (u64 a, \<lparr>rd_data = data, rd_pos = 8\<rparr>)"
    "read_size_t \<lparr>rd_data = data, rd_pos = 8\<rparr> = Inr (u64 b, \<lparr>rd_data = data, rd_pos = 16\<rparr>)"
    "read_size_t \<lparr>rd_data = data, rd_pos = 16\<rparr> = Inr (u64 c, \<lparr>rd_data = data, rd_pos = 24\<rparr>)"
    "map_size_t (mk_cursor base data 0) = Inr (u64 a, mk_cursor base data 8)"
    "map_size_t (mk_cursor base data 8) = Inr (u64 b, mk_cursor base data 16)"
    "map_size_t (mk_cursor base data 16) = Inr (u64 c, mk_cursor base data 24)"
  by (simp_all add: data_def read_nat_def buffered_read_def map_nat_def mk_cursor_def cursor_ensure_def le_nat_le_bytes_mod u64_def)

text \<open>
  C21: two corrupt headers separate the readers, whatever follows them. A vector count of \<open>SIZE_MAX\<close>
  wraps the number of offsets to zero, and \<open>deserialize\<close> then reads an offset through a null pointer.
  It does not check the declared element width before it pads to it either, so for one empty row of a
  width above 48 it reads more than eight bytes of padding into an array of eight. \<open>mmap_deserialize\<close>
  throws on both.
\<close>

theorem deserialize_corrupt_header:
  assumes "48 < width" and "width < 2 ^ 64"
  shows "(\<forall>dimn es rest. let data = le_bytes 8 SIZE_MAX @ le_bytes 8 dimn @ le_bytes 8 es @ rest in
      (\<exists>m. sv_deserialize v0 (reader_new data) = Inl (Undefined_behaviour m)) \<and>
      (\<exists>m. sv_mmap_deserialize (Some (mk_cursor base data 0)) = Inl (Runtime_error m))) \<and>
    (\<forall>dimn rest. let data = le_bytes 8 1 @ le_bytes 8 dimn @ le_bytes 8 width @ replicate 16 0 @ rest in
      (8 < length rest \<longrightarrow> (\<exists>m. sv_deserialize v0 (reader_new data) = Inl (Undefined_behaviour m))) \<and>
      (\<exists>m. sv_mmap_deserialize (Some (mk_cursor base data 0)) = Inl (Runtime_error m) \<or>
           sv_mmap_deserialize (Some (mk_cursor base data 0)) = Inl (Invalid_argument m)))"
proof (intro conjI allI)
  fix dimn es rest
  let ?data = "le_bytes 8 SIZE_MAX @ le_bytes 8 dimn @ le_bytes 8 es @ rest"
  note h = header_words [where a = SIZE_MAX and b = dimn and c = es and rest = rest]
  have n: "u64 SIZE_MAX = SIZE_MAX" "u64 (Suc SIZE_MAX) = 0" "SIZE_MAX \<noteq> 0" by (simp_all add: SIZE_MAX_def u64_def)
  have "sv_deserialize v0 (reader_new ?data) = Inl (Undefined_behaviour ''Buf::operator[] past the end'')"
    using n by (simp add: sv_deserialize_def buf_default_def reader_new_def h read_padded_def skip_padding_def padding_for_def read_owned_def buf_get_def)
  moreover have "sv_mmap_deserialize (Some (mk_cursor base ?data 0)) = Inl (Runtime_error ''mmap: implausible vector count in index file'')"
    using n by (simp add: sv_mmap_deserialize_def throw_if_null_def h throw_if_def Let_def)
  ultimately show "let data = ?data in (\<exists>m. sv_deserialize v0 (reader_new data) = Inl (Undefined_behaviour m)) \<and>
      (\<exists>m. sv_mmap_deserialize (Some (mk_cursor base data 0)) = Inl (Runtime_error m))"
    unfolding Let_def by blast
next
  fix dimn and rest :: "byte list"
  let ?tail = "replicate 16 0 @ rest"
  let ?data = "le_bytes 8 1 @ le_bytes 8 dimn @ le_bytes 8 width @ ?tail"
  define data where "data = ?data"
  note h = header_words [where a = 1 and b = dimn and c = width and rest = ?tail, folded data_def]
  have w: "u64 width = width" "u64 1 = 1" "u64 2 = 2" using assms(2) by (simp_all add: u64_def)
  have len: "length data = 40 + length rest" by (simp add: data_def)
  have zeros: "take 16 (drop 24 data) = replicate 16 0" by (simp add: data_def)
  have ptr: "decode_array int_of_bytes 8 2 (replicate 16 0) = [0, 0]"
    by (simp add: numeral_2_eq_2 int_of_bytes_def Let_def)
  have pad: "padding_for 40 width = Inr (width - 40)"
    using assms(1) by (simp add: padding_for_def)
  have more: "8 < width - 40" using assms(1) by linarith
  have ip: "read_padded int_of_bytes 8 8 2 \<lparr>rd_data = data, rd_pos = 24\<rparr> = Inr (buf_own [0, 0], \<lparr>rd_data = data, rd_pos = 40\<rparr>)"
    using zeros ptr by (simp add: read_padded_def skip_padding_def padding_for_def read_owned_def vector_max_size_def buffered_read_def len)
  have ix: "read_padded le_nat 2 2 0 \<lparr>rd_data = data, rd_pos = 40\<rparr> = Inr (buf_default, \<lparr>rd_data = data, rd_pos = 40\<rparr>)"
    by (simp add: read_padded_def skip_padding_def padding_for_def read_owned_def)
  have vs: "\<exists>m. read_padded u8_of_bytes 1 width 0 \<lparr>rd_data = data, rd_pos = 40\<rparr> = Inl (Undefined_behaviour m)"
    if "8 < length rest" using that more assms by (simp add: read_padded_def skip_padding_def pad buffered_read_def len kMaxAlignment_def Let_def u64_def)
  have "\<exists>m. sv_deserialize v0 (reader_new data) = Inl (Undefined_behaviour m)" if "8 < length rest"
    using vs [OF that] w by (auto simp: sv_deserialize_def reader_new_def h ip [unfolded numeral_2_eq_2] ix buf_get_def size_of_int_def checked_mul_def Let_def)
  moreover have "\<exists>m. sv_mmap_deserialize (Some (mk_cursor base data 0)) = Inl (Runtime_error m) \<or>
      sv_mmap_deserialize (Some (mk_cursor base data 0)) = Inl (Invalid_argument m)"
  proof (cases "(base + 24) mod 8 = 0")
    case True
    have mp: "map_padded int_of_bytes 8 8 8 2 (mk_cursor base data 24) = Inr ((Some [0, 0], base + 24), mk_cursor base data 40)"
      using True zeros ptr
      by (simp add: map_padded_def cursor_skip_padding_def padding_for_def cursor_skip_def cursor_ensure_def map_array_def
          cursor_read_array_def cursor_remaining_def mk_cursor_def len throw_if_def)
    have mx: "map_padded le_nat 2 2 2 0 (mk_cursor base data 40) = Inr ((None, base + 40), mk_cursor base data 40)"
      by (simp add: map_padded_def cursor_skip_padding_def padding_for_def cursor_skip_def cursor_ensure_def map_array_def
          cursor_read_array_def mk_cursor_def throw_if_def)
    have mv: "map_padded u8_of_bytes 1 1 width 0 (mk_cursor base data 40) = Inl mmap_eof \<or>
        (\<exists>a c. map_padded u8_of_bytes 1 1 width 0 (mk_cursor base data 40) = Inr ((None, a), c))"
      by (simp add: map_padded_def cursor_skip_padding_def pad cursor_skip_def cursor_ensure_def map_array_def
          cursor_read_array_def mk_cursor_def throw_if_def)
    have wide: "\<exists>m. map_vectors width (u64 dimn) ip a ix b vs c addr = Inl (Invalid_argument m)" for ip a ix b vs c addr
      using assms(1) by (auto simp: map_vectors_def throw_if_not_positive_def throw_if_def U8_def U16_def U32_def U64_def)
    show ?thesis
      using mv wide [of "Some [0, 0]" "Suc (Suc 0)" None 0 None 0 0] w by (auto simp: sv_mmap_deserialize_def throw_if_null_def h throw_if_def Let_def mp [unfolded numeral_2_eq_2] mx
          size_of_int_def checked_mul_def mmap_eof_def)
  next
    case False
    have "\<not> (16 + length rest) div 8 < 2" by linarith
    with False have "map_padded int_of_bytes 8 8 8 2 (mk_cursor base data 24) = Inl (Runtime_error ''mmap: array is misaligned for its element type'')"
      by (simp add: map_padded_def cursor_skip_padding_def padding_for_def cursor_skip_def cursor_ensure_def map_array_def
          cursor_read_array_def cursor_remaining_def mk_cursor_def len throw_if_def)
    then show ?thesis
      using w by (simp add: sv_mmap_deserialize_def throw_if_null_def h throw_if_def Let_def numeral_2_eq_2)
  qed
  ultimately show "let data = ?data in (8 < length rest \<longrightarrow> (\<exists>m. sv_deserialize v0 (reader_new data) = Inl (Undefined_behaviour m))) \<and>
      (\<exists>m. sv_mmap_deserialize (Some (mk_cursor base data 0)) = Inl (Runtime_error m) \<or>
           sv_mmap_deserialize (Some (mk_cursor base data 0)) = Inl (Invalid_argument m))"
    unfolding Let_def data_def by blast
qed

theorem deserialize_corrupt_header_witness:
  "(\<exists>m. sv_deserialize sv_default (reader_new (le_bytes 8 1 @ le_bytes 8 1 @ le_bytes 8 64 @ replicate 16 0 @ replicate 24 0)) =
      Inl (Undefined_behaviour m)) \<and>
   (\<exists>m. sv_mmap_deserialize (Some (mk_cursor 4096 (le_bytes 8 SIZE_MAX @ le_bytes 8 1 @ le_bytes 8 4 @ []) 0)) = Inl (Runtime_error m))"
proof -
  have "(48 :: nat) < 64" "(64 :: nat) < 2 ^ 64" by simp_all
  note w = deserialize_corrupt_header [OF this, of sv_default 4096, unfolded Let_def]
  from conjunct2 [OF w, rule_format, of "replicate 24 0" 1] conjunct1 [OF w, rule_format, of 1 4 "[]"] show ?thesis by simp
qed

end
