(* ===== verification/Std_Heap.thy ===== *)
theory Std_Heap
  imports Prelude
begin

text \<open>
  \<^verbatim>\<open>std::priority_queue\<close> over a vector, as \<^verbatim>\<open>utils/ranker.h\<close> uses it: the binary heap of the
  standard library with its sift-up (\<open>push_heap\<close>) and its leaf-searching sift-down
  (\<open>pop_heap\<close>). The laws a client may rely on are the locale \<open>priority_queue\<close>; the standard
  leaves open which of several equally ranked elements is on top, and so do the laws.
\<close>

section \<open>The interface\<close>

locale priority_queue =
  fixes push :: "'q \<Rightarrow> 'a \<Rightarrow> 'q"
    and peek :: "'q \<Rightarrow> 'a"
    and pop :: "'q \<Rightarrow> 'q"
    and elems :: "'q \<Rightarrow> 'a multiset"
    and inv :: "'q \<Rightarrow> bool"
    and key :: "'a \<Rightarrow> 'k :: linorder"
  assumes elems_push: "inv q \<Longrightarrow> elems (push q x) = add_mset x (elems q)"
    and inv_push: "inv q \<Longrightarrow> inv (push q x)"
    and top_in: "inv q \<Longrightarrow> elems q \<noteq> {#} \<Longrightarrow> peek q \<in># elems q"
    and top_least: "inv q \<Longrightarrow> x \<in># elems q \<Longrightarrow> key (peek q) \<le> key x"
    and elems_pop: "inv q \<Longrightarrow> elems q \<noteq> {#} \<Longrightarrow> elems (pop q) = elems q - {#peek q#}"
    and inv_pop: "inv q \<Longrightarrow> elems q \<noteq> {#} \<Longrightarrow> inv (pop q)"

text \<open>The loop \<^verbatim>\<open>while (!pq.empty()) { ... pq.top() ...; pq.pop(); }\<close>, run \<open>n\<close> times.\<close>

fun drain :: "('q \<Rightarrow> 'a) \<Rightarrow> ('q \<Rightarrow> 'q) \<Rightarrow> nat \<Rightarrow> 'q \<Rightarrow> 'a list" where
  "drain peek pop 0 q = []"
| "drain peek pop (Suc n) q = peek q # drain peek pop n (pop q)"

lemma length_drain [simp]: "length (drain peek pop n q) = n"
  by (induction n arbitrary: q) auto

context priority_queue
begin

lemma mset_drain:
  "inv q \<Longrightarrow> size (elems q) = n \<Longrightarrow> mset (drain peek pop n q) = elems q"
proof (induction n arbitrary: q)
  case (Suc n)
  then have ne: "elems q \<noteq> {#}" by auto
  then have "size (elems (pop q)) = n"
    using Suc.prems elems_pop [of q] top_in [of q] by (simp add: size_Diff_singleton)
  then have "mset (drain peek pop n (pop q)) = elems q - {#peek q#}"
    using Suc.IH [of "pop q"] Suc.prems(1) inv_pop [OF _ ne] elems_pop [OF _ ne] by simp
  then show ?case using top_in [OF Suc.prems(1) ne] by simp
qed simp

lemma sorted_drain:
  "inv q \<Longrightarrow> size (elems q) = n \<Longrightarrow> sorted (map key (drain peek pop n q))"
proof (induction n arbitrary: q)
  case (Suc n)
  then have ne: "elems q \<noteq> {#}" by auto
  then have sz: "size (elems (pop q)) = n"
    using Suc.prems elems_pop [of q] top_in [of q] by (simp add: size_Diff_singleton)
  have "mset (drain peek pop n (pop q)) = elems (pop q)"
    using mset_drain [of "pop q" n] inv_pop [OF Suc.prems(1) ne] sz by simp
  then have "set (drain peek pop n (pop q)) = set_mset (elems (pop q))"
    by (metis set_mset_mset)
  then have "\<forall>x \<in> set (drain peek pop n (pop q)). key (peek q) \<le> key x"
    using top_least [OF Suc.prems(1)] elems_pop [OF Suc.prems(1) ne] by (auto dest: in_diffD)
  then show ?case using Suc.IH [OF inv_pop [OF Suc.prems(1) ne] sz] by simp
qed simp

end

section \<open>The binary heap\<close>

text \<open>\<open>lt a b\<close> is the comparator; an element that compares \<open>lt\<close> its child has to go below it.\<close>

function sift_up :: "('a \<Rightarrow> 'a \<Rightarrow> bool) \<Rightarrow> 'a list \<Rightarrow> nat \<Rightarrow> 'a \<Rightarrow> 'a list" where
  "sift_up lt xs hole v =
     (let parent = (hole - 1) div 2
      in if 0 < hole \<and> lt (xs ! parent) v
         then sift_up lt (xs[hole := xs ! parent]) parent v
         else xs[hole := v])"
  by pat_completeness auto
termination
  by (relation "measure (\<lambda>(lt, xs, hole, v). hole)") auto

function sift_down :: "('a \<Rightarrow> 'a \<Rightarrow> bool) \<Rightarrow> 'a list \<Rightarrow> nat \<Rightarrow> 'a list \<times> nat" where
  "sift_down lt xs hole =
     (let len = length xs
      in if hole < (len - 1) div 2
         then let right = 2 * (hole + 1);
                  child = (if lt (xs ! right) (xs ! (right - 1)) then right - 1 else right)
              in sift_down lt (xs[hole := xs ! child]) child
         else if even len \<and> 2 \<le> len \<and> hole = (len - 2) div 2
         then (xs[hole := xs ! (2 * hole + 1)], 2 * hole + 1)
         else (xs, hole))"
  by pat_completeness auto
termination
  by (relation "measure (\<lambda>(lt, xs, hole). length xs - hole)") (auto split: if_splits)

declare sift_up.simps [simp del] sift_down.simps [simp del]

lemma sift_down_step:
  assumes "hole < (length xs - 1) div 2"
    and "child = (if lt (xs ! (2 * (hole + 1))) (xs ! (2 * (hole + 1) - 1))
                  then 2 * (hole + 1) - 1 else 2 * (hole + 1))"
  shows "sift_down lt xs hole = sift_down lt (xs[hole := xs ! child]) child"
  unfolding assms(2) using assms(1) by (subst sift_down.simps) (simp add: Let_def)

lemma sift_down_last:
  assumes "\<not> hole < (length xs - 1) div 2"
    and "even (length xs) \<and> 2 \<le> length xs \<and> hole = (length xs - 2) div 2"
  shows "sift_down lt xs hole = (xs[hole := xs ! (2 * hole + 1)], 2 * hole + 1)"
  by (subst sift_down.simps) (use assms in \<open>simp only: Let_def if_True if_False simp_thms\<close>)

lemma sift_down_leaf:
  assumes "\<not> hole < (length xs - 1) div 2"
    and "\<not> (even (length xs) \<and> 2 \<le> length xs \<and> hole = (length xs - 2) div 2)"
  shows "sift_down lt xs hole = (xs, hole)"
  by (subst sift_down.simps) (use assms in \<open>simp only: Let_def if_False\<close>)

definition pq_push :: "('a \<Rightarrow> 'a \<Rightarrow> bool) \<Rightarrow> 'a list \<Rightarrow> 'a \<Rightarrow> 'a list" where
  "pq_push lt q x = sift_up lt (q @ [x]) (length q) x"

definition pq_top :: "'a list \<Rightarrow> 'a" where
  "pq_top q = q ! 0"

definition pq_pop :: "('a \<Rightarrow> 'a \<Rightarrow> bool) \<Rightarrow> 'a list \<Rightarrow> 'a list" where
  "pq_pop lt q =
     (if 1 < length q
      then let (xs, hole) = sift_down lt (butlast q) 0 in sift_up lt xs hole (last q)
      else butlast q)"

subsection \<open>Permutation\<close>

lemma length_sift_up [simp]: "length (sift_up lt xs hole v) = length xs"
  by (induction lt xs hole v rule: sift_up.induct)
    (subst sift_up.simps, simp add: Let_def)

lemma mset_move_hole:
  assumes "i < length xs" and "j < length xs" and "i \<noteq> j"
  shows "mset (xs[i := xs ! j, j := v]) = mset (xs[i := v])"
proof -
  have "xs[i := xs ! j, j := v] = (xs[i := v])[i := (xs[i := v]) ! j, j := (xs[i := v]) ! i]"
    using assms by (simp add: list_update_swap)
  then show ?thesis using assms mset_swap [of j "xs[i := v]" i] by simp
qed

lemma mset_sift_up: "hole < length xs \<Longrightarrow> mset (sift_up lt xs hole v) = mset (xs[hole := v])"
proof (induction lt xs hole v rule: sift_up.induct)
  case (1 lt xs hole v)
  show ?case
  proof (cases "0 < hole \<and> lt (xs ! ((hole - 1) div 2)) v")
    case True
    have p: "(hole - 1) div 2 < hole" using True by auto
    then have "mset (sift_up lt (xs[hole := xs ! ((hole - 1) div 2)]) ((hole - 1) div 2) v) =
        mset (xs[hole := xs ! ((hole - 1) div 2), (hole - 1) div 2 := v])"
      using "1.IH" [OF refl True] "1.prems" by simp
    also have "\<dots> = mset (xs[hole := v])"
      using mset_move_hole [of hole xs "(hole - 1) div 2" v] p "1.prems" by simp
    finally show ?thesis using True by (subst sift_up.simps) (simp add: Let_def)
  next
    case False
    then show ?thesis by (subst sift_up.simps) (auto simp: Let_def)
  qed
qed

text \<open>What one step of the descent does to the list and the hole.\<close>

lemma sift_down_props:
  assumes "sift_down lt xs hole = (ys, h)" and "hole < length xs"
  shows "length ys = length xs \<and> h < length xs \<and> mset (ys[h := v]) = mset (xs[hole := v])"
  using assms
proof (induction lt xs hole arbitrary: ys h rule: sift_down.induct)
  case (1 lt xs hole)
  define right where "right = 2 * (hole + 1)"
  define child where "child = (if lt (xs ! right) (xs ! (right - 1)) then right - 1 else right)"
  show ?case
  proof (cases "hole < (length xs - 1) div 2")
    case True
    then have c: "child < length xs" "hole < child"
      by (auto simp: child_def right_def)
    have "sift_down lt xs hole = sift_down lt (xs[hole := xs ! child]) child"
      by (rule sift_down_step [OF True]) (simp only: child_def right_def)
    with "1.prems"(1) have "sift_down lt (xs[hole := xs ! child]) child = (ys, h)"
      by (simp only:)
    from "1.IH" [OF refl True right_def child_def this] c
    show ?thesis using mset_move_hole [of hole xs child v] "1.prems"(2) by simp
  next
    case False
    show ?thesis
    proof (cases "even (length xs) \<and> 2 \<le> length xs \<and> hole = (length xs - 2) div 2")
      case last: True
      then have "2 * hole + 1 < length xs" by auto
      moreover have "ys = xs[hole := xs ! (2 * hole + 1)]" "h = 2 * hole + 1"
        using trans [OF sift_down_last [OF False last, symmetric] "1.prems"(1)] by auto
      ultimately show ?thesis
        using "1.prems"(2) mset_move_hole [of hole xs "2 * hole + 1" v] by simp
    next
      case nlast: False
      then show ?thesis using "1.prems" sift_down_leaf [OF False nlast, of lt] by simp
    qed
  qed
qed

lemma mset_pq_push [simp]: "mset (pq_push lt q x) = add_mset x (mset q)"
  by (simp add: pq_push_def mset_sift_up)

lemma length_pq_push [simp]: "length (pq_push lt q x) = Suc (length q)"
  by (simp add: pq_push_def)

lemma mset_pq_pop:
  assumes "q \<noteq> []"
  shows "mset (pq_pop lt q) = mset q - {#pq_top q#}"
proof (cases "1 < length q")
  case True
  obtain ys h where sd: "sift_down lt (butlast q) 0 = (ys, h)" by (cases "sift_down lt (butlast q) 0")
  with sift_down_props [OF sd, of "last q"] True
  have h: "h < length ys" and m: "mset (ys[h := last q]) = mset ((butlast q)[0 := last q])"
    by auto
  obtain x xs where q: "q = x # xs" "xs \<noteq> []" using True by (cases q) auto
  have "mset (butlast xs @ [last xs]) = mset xs"
    by (simp only: append_butlast_last_id [OF q(2)])
  then have "mset ((butlast q)[0 := last q]) = mset xs"
    using q by (simp del: append_butlast_last_id)
  then show ?thesis using True sd mset_sift_up [OF h, of lt "last q"] m q
    by (simp add: pq_pop_def pq_top_def)
next
  case False
  with assms obtain x where "q = [x]" by (cases q) (auto simp: Suc_lessI)
  then show ?thesis by (simp add: pq_pop_def pq_top_def)
qed

subsection \<open>Heap order\<close>

definition heap_edge :: "('a \<Rightarrow> 'k :: linorder) \<Rightarrow> 'a list \<Rightarrow> nat \<Rightarrow> bool" where
  "heap_edge key xs i \<longleftrightarrow> key (xs ! ((i - 1) div 2)) \<le> key (xs ! i)"

definition is_heap :: "('a \<Rightarrow> 'k :: linorder) \<Rightarrow> 'a list \<Rightarrow> bool" where
  "is_heap key xs \<longleftrightarrow> (\<forall>i. 0 < i \<and> i < length xs \<longrightarrow> heap_edge key xs i)"

text \<open>
  The list with a hole: every edge that does not end in the hole's position is ordered once
  \<open>v\<close> is put there (going up), or every edge that does not touch the hole (going down); in
  both, the hole's children are not below the hole's parent.
\<close>

definition bridge :: "('a \<Rightarrow> 'k :: linorder) \<Rightarrow> 'a list \<Rightarrow> nat \<Rightarrow> bool" where
  "bridge key xs hole \<longleftrightarrow> (0 < hole \<longrightarrow>
     (\<forall>c. 0 < c \<and> c < length xs \<and> (c - 1) div 2 = hole \<longrightarrow>
        key (xs ! ((hole - 1) div 2)) \<le> key (xs ! c)))"

definition up_ok :: "('a \<Rightarrow> 'k :: linorder) \<Rightarrow> 'a list \<Rightarrow> nat \<Rightarrow> 'a \<Rightarrow> bool" where
  "up_ok key xs hole v \<longleftrightarrow> bridge key xs hole \<and>
     (\<forall>i. 0 < i \<and> i < length xs \<and> i \<noteq> hole \<longrightarrow> heap_edge key (xs[hole := v]) i)"

definition down_ok :: "('a \<Rightarrow> 'k :: linorder) \<Rightarrow> 'a list \<Rightarrow> nat \<Rightarrow> bool" where
  "down_ok key xs hole \<longleftrightarrow> bridge key xs hole \<and>
     (\<forall>i. 0 < i \<and> i < length xs \<and> i \<noteq> hole \<and> (i - 1) div 2 \<noteq> hole \<longrightarrow> heap_edge key xs i)"

lemma up_ok_step:
  fixes key :: "'a \<Rightarrow> 'k :: linorder"
  assumes ok: "up_ok key xs hole v" and h: "0 < hole" "hole < length xs"
    and lt: "key v < key (xs ! ((hole - 1) div 2))"
  shows "up_ok key (xs[hole := xs ! ((hole - 1) div 2)]) ((hole - 1) div 2) v"
proof -
  define p where "p = (hole - 1) div 2"
  have p: "p < hole" "p < length xs" using h by (auto simp: p_def)
  have edge: "key ((xs[hole := v]) ! ((i - 1) div 2)) \<le> key ((xs[hole := v]) ! i)"
    if "0 < i" "i < length xs" "i \<noteq> hole" for i
    using ok that by (auto simp: up_ok_def heap_edge_def)
  have br: "key (xs ! p) \<le> key (xs ! c)" if "0 < c" "c < length xs" "(c - 1) div 2 = hole" for c
    using ok h that by (auto simp: up_ok_def bridge_def p_def)
  have "heap_edge key (xs[hole := xs ! p, p := v]) i" if i: "0 < i" "i < length xs" "i \<noteq> p" for i
  proof (cases "i = hole")
    case True
    have "key v \<le> key (xs ! p)" using lt by (simp add: p_def)
    then show ?thesis using p h unfolding True heap_edge_def p_def [symmetric] by simp
  next
    case False
    have lt': "key v < key (xs ! p)" using lt by (simp add: p_def)
    show ?thesis
      unfolding heap_edge_def
      using edge [OF i(1,2) False] br [OF i(1,2)] lt' p h i False
      by (auto simp: nth_list_update dest: less_imp_le order_trans)
  qed
  moreover have "bridge key (xs[hole := xs ! p]) p"
    unfolding bridge_def
  proof (intro impI allI, elim conjE)
    fix c assume c: "0 < p" "0 < c" "c < length (xs[hole := xs ! p])" "(c - 1) div 2 = p"
    have pp: "(p - 1) div 2 < p" "p \<noteq> hole" using c(1) p by auto
    then have "key (xs ! ((p - 1) div 2)) \<le> key (xs ! p)"
      using edge [of p] p c(1) by (auto simp: nth_list_update)
    moreover have "key (xs ! p) \<le> key (xs ! c)" if "c \<noteq> hole"
      using edge [of c] that c p by (auto simp: nth_list_update)
    ultimately show "key (xs[hole := xs ! p] ! ((p - 1) div 2)) \<le> key (xs[hole := xs ! p] ! c)"
      using pp p h by (auto simp: nth_list_update)
  qed
  ultimately show ?thesis by (simp add: up_ok_def p_def)
qed

lemma is_heap_sift_up:
  fixes key :: "'a \<Rightarrow> 'k :: linorder"
  assumes "\<And>a b. lt a b \<longleftrightarrow> key b < key a"
    and "up_ok key xs hole v" and "hole < length xs"
  shows "is_heap key (sift_up lt xs hole v)"
  using assms
proof (induction lt xs hole v rule: sift_up.induct)
  case (1 lt xs hole v)
  show ?case
  proof (cases "0 < hole \<and> lt (xs ! ((hole - 1) div 2)) v")
    case True
    then have "key v < key (xs ! ((hole - 1) div 2))" using "1.prems"(1) by blast
    then have "up_ok key (xs[hole := xs ! ((hole - 1) div 2)]) ((hole - 1) div 2) v"
      using up_ok_step [OF "1.prems"(2)] True "1.prems"(3) by blast
    with "1.IH" [OF refl True "1.prems"(1)] True "1.prems"(3)
    show ?thesis by (subst sift_up.simps) (auto simp: Let_def)
  next
    case False
    have "heap_edge key (xs[hole := v]) hole" if "0 < hole"
      using False that "1.prems"(1,3) by (auto simp: heap_edge_def nth_list_update not_less)
    then have "is_heap key (xs[hole := v])"
      using "1.prems"(2) by (auto simp: is_heap_def up_ok_def)
    with False show ?thesis by (subst sift_up.simps) (auto simp: Let_def)
  qed
qed

lemma down_ok_step:
  fixes key :: "'a \<Rightarrow> 'k :: linorder"
  assumes ok: "down_ok key xs hole" and c: "child < length xs" "0 < child" "(child - 1) div 2 = hole"
    and least: "\<And>w. 0 < w \<Longrightarrow> w < length xs \<Longrightarrow> (w - 1) div 2 = hole \<Longrightarrow> key (xs ! child) \<le> key (xs ! w)"
  shows "down_ok key (xs[hole := xs ! child]) child"
proof -
  have hc: "hole < child" using c by auto
  have edge: "key (xs ! ((i - 1) div 2)) \<le> key (xs ! i)"
    if "0 < i" "i < length xs" "i \<noteq> hole" "(i - 1) div 2 \<noteq> hole" for i
    using ok that by (auto simp: down_ok_def heap_edge_def)
  have "heap_edge key (xs[hole := xs ! child]) i"
    if i: "0 < i" "i < length xs" "i \<noteq> child" "(i - 1) div 2 \<noteq> child" for i
  proof (cases "i = hole")
    case True
    have "key (xs ! ((hole - 1) div 2)) \<le> key (xs ! child)"
      using ok True i c by (auto simp: down_ok_def bridge_def)
    then show ?thesis using True i hc c by (auto simp: heap_edge_def nth_list_update)
  next
    case False
    then show ?thesis
      using edge [of i] least [of i] i c hc by (auto simp: heap_edge_def nth_list_update)
  qed
  moreover have "bridge key (xs[hole := xs ! child]) child"
    using edge c hc by (auto simp: bridge_def nth_list_update)
  ultimately show ?thesis by (simp add: down_ok_def)
qed

lemma down_ok_sift_down:
  fixes key :: "'a \<Rightarrow> 'k :: linorder"
  assumes "\<And>a b. lt a b \<longleftrightarrow> key b < key a"
    and "down_ok key xs hole" and "hole < length xs"
    and "sift_down lt xs hole = (ys, h)"
  shows "down_ok key ys h \<and> (\<forall>c. 0 < c \<and> c < length ys \<longrightarrow> (c - 1) div 2 \<noteq> h)"
  using assms
proof (induction lt xs hole arbitrary: ys h rule: sift_down.induct)
  case (1 lt xs hole)
  define right where "right = 2 * (hole + 1)"
  define child where "child = (if lt (xs ! right) (xs ! (right - 1)) then right - 1 else right)"
  have kids: "w = right \<or> w = right - 1" if "0 < w" "(w - 1) div 2 = hole" for w
    using that unfolding right_def by presburger
  show ?case
  proof (cases "hole < (length xs - 1) div 2")
    case True
    then have c: "child < length xs" "0 < child" "(child - 1) div 2 = hole"
      by (auto simp: child_def right_def)
    have least: "key (xs ! child) \<le> key (xs ! w)"
      if "0 < w" "w < length xs" "(w - 1) div 2 = hole" for w
      using kids [OF that(1,3)] "1.prems"(1) by (auto simp: child_def not_less)
    have "sift_down lt xs hole = sift_down lt (xs[hole := xs ! child]) child"
      by (rule sift_down_step [OF True]) (simp only: child_def right_def)
    with "1.prems"(4) have "sift_down lt (xs[hole := xs ! child]) child = (ys, h)"
      by (simp only:)
    with "1.IH" [OF refl True right_def child_def "1.prems"(1) down_ok_step [OF "1.prems"(2) c least]] c
    show ?thesis by simp
  next
    case False
    show ?thesis
    proof (cases "even (length xs) \<and> 2 \<le> length xs \<and> hole = (length xs - 2) div 2")
      case last: True
      then have len: "length xs = 2 * hole + 2" by (auto elim!: evenE)
      have only: "w = 2 * hole + 1" if "0 < w" "w < length xs" "(w - 1) div 2 = hole" for w
        using len that by presburger
      have "key (xs ! (2 * hole + 1)) \<le> key (xs ! w)"
        if "0 < w" "w < length xs" "(w - 1) div 2 = hole" for w
        using only [OF that] by simp
      then have "down_ok key (xs[hole := xs ! (2 * hole + 1)]) (2 * hole + 1)"
        by (intro down_ok_step [OF "1.prems"(2)]) (simp_all add: len)
      moreover have "ys = xs[hole := xs ! (2 * hole + 1)]" "h = 2 * hole + 1"
        using trans [OF sift_down_last [OF False last, symmetric] "1.prems"(4)] by auto
      moreover have "(c - 1) div 2 \<noteq> 2 * hole + 1" if "0 < c" "c < length xs" for c
        using len that by presburger
      ultimately show ?thesis by (simp only: length_list_update simp_thms) blast
    next
      case nlast: False
      have "(c - 1) div 2 \<noteq> hole" if "0 < c" "c < length xs" for c
        using that False nlast by presburger
      then show ?thesis using "1.prems"(2,4) sift_down_leaf [OF False nlast, of lt] by simp
    qed
  qed
qed

lemma is_heap_pq_push:
  fixes key :: "'a \<Rightarrow> 'k :: linorder"
  assumes "\<And>a b. lt a b \<longleftrightarrow> key b < key a" and "is_heap key q"
  shows "is_heap key (pq_push lt q x)"
proof -
  have no: "(c - Suc 0) div 2 \<noteq> length q" if "0 < c" "c < Suc (length q)" for c
    using that by presburger
  have "up_ok key (q @ [x]) (length q) x"
    using assms(2) no by (auto simp: up_ok_def bridge_def is_heap_def heap_edge_def nth_append less_Suc_eq)
  then show ?thesis by (simp add: pq_push_def is_heap_sift_up [OF assms(1)])
qed

lemma is_heap_pq_pop:
  fixes key :: "'a \<Rightarrow> 'k :: linorder"
  assumes lt: "\<And>a b. lt a b \<longleftrightarrow> key b < key a" and heap: "is_heap key q"
  shows "is_heap key (pq_pop lt q)"
proof (cases "1 < length q")
  case True
  obtain ys h where sd: "sift_down lt (butlast q) 0 = (ys, h)" by (cases "sift_down lt (butlast q) 0")
  have "down_ok key (butlast q) 0"
    using heap by (auto simp: down_ok_def bridge_def is_heap_def heap_edge_def nth_butlast)
  from down_ok_sift_down [OF lt this _ sd] True
  have d: "down_ok key ys h" and leaf: "\<And>c. 0 < c \<Longrightarrow> c < length ys \<Longrightarrow> (c - 1) div 2 \<noteq> h"
    by auto
  have "heap_edge key (ys[h := last q]) i" if "0 < i" "i < length ys" "i \<noteq> h" for i
    using d leaf [OF that(1,2)] that by (simp add: down_ok_def heap_edge_def nth_list_update)
  then have "up_ok key ys h (last q)"
    using d by (simp add: up_ok_def down_ok_def)
  moreover have "h < length ys" using sift_down_props [OF sd] True by simp
  ultimately show ?thesis using True sd is_heap_sift_up [OF lt] by (simp add: pq_pop_def)
next
  case False
  then show ?thesis using heap by (simp add: pq_pop_def is_heap_def)
qed

lemma is_heap_top_least:
  fixes key :: "'a \<Rightarrow> 'k :: linorder"
  assumes "is_heap key q" and "i < length q"
  shows "key (pq_top q) \<le> key (q ! i)"
  using assms(2)
proof (induction i rule: less_induct)
  case (less i)
  show ?case
  proof (cases "i = 0")
    case False
    then have "key (pq_top q) \<le> key (q ! ((i - 1) div 2))"
      using less.IH [of "(i - 1) div 2"] less.prems by auto
    also have "\<dots> \<le> key (q ! i)"
      using assms(1) False less.prems by (auto simp: is_heap_def heap_edge_def)
    finally show ?thesis .
  qed (simp add: pq_top_def)
qed

section \<open>The heap is a priority queue\<close>

text \<open>
  For every comparator that compares keys of a linear order; the two holders of
  \<^verbatim>\<open>utils/ranker.h\<close> compare scores with \<^verbatim>\<open>std::greater\<close>.
\<close>

interpretation heap: priority_queue
  "pq_push (\<lambda>a b. key b < (key a :: 'k :: linorder))" pq_top
  "pq_pop (\<lambda>a b. key b < key a)" mset "is_heap key" key
  for key :: "'a \<Rightarrow> 'k :: linorder"
proof (unfold_locales, goal_cases)
  case (3 q)
  then show ?case by (cases q) (auto simp: pq_top_def)
next
  case (4 q x)
  then show ?case using is_heap_top_least [of key q] by (auto simp: in_set_conv_nth)
next
  case (5 q)
  then have "q \<noteq> []" by auto
  then show ?case by (rule mset_pq_pop)
qed (auto intro: is_heap_pq_push is_heap_pq_pop)

end
