(* ===== verification/Ranker.thy ===== *)
theory Ranker
  imports Std_Heap
begin

text \<open>
  \<^verbatim>\<open>utils/ranker.h\<close> and \<^verbatim>\<open>utils/vector_process.h\<close>: the bounded holders of the best-scored
  items, \<open>TopKHolder\<close> and \<open>DedupeTopKHolder\<close>, and \<open>top_k_tokens\<close>. A holder's score type is any
  type with a comparison; the theorems take a linear order (a score type without NaN).
\<close>

section \<open>TopKHolder\<close>

datatype ('s, 'i) topk_item = TopKItem (score: 's) (item_id: 'i)

text \<open>
  \<open>CompareItem\<close> with \<^verbatim>\<open>std::greater\<close>: the queue's top is an item of least score. The initial
  threshold is infinity, here \<open>None\<close>.
\<close>

definition compare_item :: "('s :: ord, 'i) topk_item \<Rightarrow> ('s, 'i) topk_item \<Rightarrow> bool" where
  "compare_item item1 item2 \<longleftrightarrow> score item2 < score item1"

record ('s, 'i) topk_holder =
  tk_k :: int
  tk_pq :: "('s, 'i) topk_item list"
  tk_threshold :: "'s option"

definition topk_new :: "int \<Rightarrow> exn + ('s, 'i) topk_holder" where
  "topk_new k = bindE (throw_if_not_positive k)
     (\<lambda>_. Inr \<lparr>tk_k = k, tk_pq = [], tk_threshold = None\<rparr>)"

definition topk_size :: "('s, 'i) topk_holder \<Rightarrow> nat" where
  "topk_size h = length (tk_pq h)"

definition topk_full :: "('s, 'i) topk_holder \<Rightarrow> bool" where
  "topk_full h \<longleftrightarrow> int (length (tk_pq h)) = tk_k h"

definition topk_empty :: "('s, 'i) topk_holder \<Rightarrow> bool" where
  "topk_empty h \<longleftrightarrow> tk_pq h = []"

definition topk_peek_score :: "('s, 'i) topk_holder \<Rightarrow> 's" where
  "topk_peek_score h = score (pq_top (tk_pq h))"

definition within_threshold :: "'s :: ord \<Rightarrow> 's option \<Rightarrow> bool" where
  "within_threshold s t \<longleftrightarrow> (case t of None \<Rightarrow> True | Some th \<Rightarrow> s \<le> th)"

definition topk_add ::
  "('s :: ord, 'i) topk_holder \<Rightarrow> 's \<Rightarrow> 'i \<Rightarrow> ('s, 'i) topk_holder" where
  "topk_add h s item =
     (let pq = tk_pq h; k = tk_k h
      in if int (length pq) \<ge> k \<and> within_threshold s (tk_threshold h) then h
         else if int (length pq) < k
         then let pq' = pq_push compare_item pq (TopKItem s item)
              in if int (length pq') = k
                 then h\<lparr>tk_pq := pq', tk_threshold := Some (score (pq_top pq'))\<rparr>
                 else h\<lparr>tk_pq := pq'\<rparr>
         else let pq' = pq_push compare_item (pq_pop compare_item pq) (TopKItem s item)
              in h\<lparr>tk_pq := pq', tk_threshold := Some (score (pq_top pq'))\<rparr>)"

definition topk_drain :: "('s :: ord, 'i) topk_holder \<Rightarrow> ('s, 'i) topk_item list" where
  "topk_drain h = drain pq_top (pq_pop compare_item) (length (tk_pq h)) (tk_pq h)"

text \<open>\<^verbatim>\<open>std::vector<T> ret(k)\<close> starts as \<open>k\<close> default-constructed elements.\<close>

definition topk_top_k :: "'i \<Rightarrow> ('s :: ord, 'i) topk_holder \<Rightarrow> 'i list" where
  "topk_top_k dflt h =
     (if tk_k h \<le> 0 then []
      else let d = take (nat (tk_k h)) (map item_id (topk_drain h))
           in d @ replicate (nat (tk_k h) - length d) dflt)"

definition topk_top_k_descending :: "('s :: ord, 'i) topk_holder \<Rightarrow> 'i list" where
  "topk_top_k_descending h =
     (if tk_k h \<le> 0 \<or> topk_size h \<le> 0 then [] else rev (map item_id (topk_drain h)))"

definition topk_items_descending :: "('s :: ord, 'i) topk_holder \<Rightarrow> 's list \<times> 'i list" where
  "topk_items_descending h =
     (if tk_k h \<le> 0 \<or> topk_size h \<le> 0 then ([], [])
      else (rev (map score (topk_drain h)), rev (map item_id (topk_drain h))))"

text \<open>\<^verbatim>\<open>vector::resize(n, pad)\<close>.\<close>

definition resize :: "nat \<Rightarrow> 'a \<Rightarrow> 'a list \<Rightarrow> 'a list" where
  "resize n pad xs = take n xs @ replicate (n - length xs) pad"

definition topk_descending_with_padding :: "('s :: ord, 'i) topk_holder \<Rightarrow> 'i \<Rightarrow> 'i list" where
  "topk_descending_with_padding h pad = resize (nat (tk_k h)) pad (topk_top_k_descending h)"

definition topk_add_all ::
  "('s :: ord, 'i) topk_holder \<Rightarrow> ('s \<times> 'i) list \<Rightarrow> ('s, 'i) topk_holder" where
  "topk_add_all h xs = foldl (\<lambda>h (s, i). topk_add h s i) h xs"

subsection \<open>The contract: the k best\<close>

text \<open>
  A selection of the \<open>k\<close> best of a multiset: as many as there are up to \<open>k\<close>, and nothing left
  out scores above anything kept. Which of equally scored items are kept is left open.
\<close>

definition is_topk :: "nat \<Rightarrow> ('a \<Rightarrow> 's :: linorder) \<Rightarrow> 'a multiset \<Rightarrow> 'a multiset \<Rightarrow> bool" where
  "is_topk k key M S \<longleftrightarrow> S \<subseteq># M \<and> size S = min k (size M) \<and>
     (\<forall>x \<in># S. \<forall>y \<in># M - S. key y \<le> key x)"

lemma is_topk_empty [simp]: "is_topk k key {#} {#}"
  by (simp add: is_topk_def)

lemma is_topk_all: "size M \<le> k \<Longrightarrow> is_topk k key M M"
  by (simp add: is_topk_def)

lemma is_topk_room:
  assumes "is_topk k key M S" and "size S < k"
  shows "S = M"
proof -
  have "size M = size S" using assms by (auto simp: is_topk_def min_def split: if_splits)
  with assms(1) show ?thesis
    by (metis is_topk_def mset_subset_size nat_less_le subset_mset.le_less)
qed

lemma is_topk_add_room:
  assumes "is_topk k key M S" and "size S < k"
  shows "is_topk k key (add_mset x M) (add_mset x S)"
proof -
  have "S = M" by (rule is_topk_room [OF assms])
  then show ?thesis using assms(2) by (simp add: is_topk_def)
qed

lemma is_topk_reject:
  assumes "is_topk k key M S" and "size S = k" and "\<And>y. y \<in># S \<Longrightarrow> key x \<le> key y"
  shows "is_topk k key (add_mset x M) S"
proof -
  have sub: "S \<subseteq># M" using assms(1) by (simp add: is_topk_def)
  then have "add_mset x M - S = add_mset x (M - S)"
    by (metis add_mset_add_single subset_mset.diff_add_assoc2)
  moreover have "S \<subseteq># add_mset x M" using sub by (simp add: subset_mset.add_increasing2 mset_subset_eq_insertD subset_mset.order_trans [OF sub])
  ultimately show ?thesis using assms by (auto simp: is_topk_def)
qed

lemma is_topk_replace:
  assumes "is_topk k key M S" and "size S = k" and "m \<in># S"
    and "\<And>y. y \<in># S \<Longrightarrow> key m \<le> key y" and "key m \<le> key x"
  shows "is_topk k key (add_mset x M) (add_mset x (S - {#m#}))"
proof -
  have sub: "S \<subseteq># M" and best: "\<And>a b. a \<in># S \<Longrightarrow> b \<in># M - S \<Longrightarrow> key b \<le> key a"
    using assms(1) by (auto simp: is_topk_def)
  have sub': "S - {#m#} \<subseteq># M" using sub by (meson diff_subset_eq_self subset_mset.order_trans)
  have "M - (S - {#m#}) = add_mset m (M - S)"
    using sub assms(3) by (metis add_mset_add_single insert_DiffM2 mset_subset_eq_single subset_mset.add_diff_assoc2 diff_union_swap2 mset_add multi_self_add_other_not_self subset_mset.diff_diff_right subset_mset.diff_add_assoc2)
  then have out: "key y \<le> key m" if "y \<in># M - (S - {#m#})" for y
    using that best [OF assms(3)] by auto
  have "key y \<le> key a" if "a \<in># add_mset x (S - {#m#})" "y \<in># M - (S - {#m#})" for a y
    using that out [OF that(2)] assms(4,5) by (auto dest: in_diffD intro: order_trans)
  moreover have "size (S - {#m#}) = k - 1" "0 < k"
    using assms(2,3) by (auto simp: size_Diff_singleton dest: multi_member_split)
  moreover have "min k (Suc (size M)) = k" using size_mset_mono [OF sub] assms(2) by simp
  ultimately show ?thesis using sub' by (auto simp: is_topk_def)
qed

text \<open>The scores of a selection are determined, whatever the choice among equal ones.\<close>

lemma is_topk_scores:
  fixes key :: "'a \<Rightarrow> 's :: linorder"
  assumes "is_topk k key M S" and "mset xs = image_mset key M" and "mset ys = image_mset key S"
    and "sorted_wrt (\<lambda>a b. b \<le> a) ys"
  shows "ys = take k (rev (sort xs))"
proof -
  have sub: "S \<subseteq># M" and sz: "size S = min k (size M)"
    and best: "\<And>a b. a \<in># S \<Longrightarrow> b \<in># M - S \<Longrightarrow> key b \<le> key a"
    using assms(1) by (auto simp: is_topk_def)
  define ds where "ds = sorted_list_of_multiset (image_mset key (M - S))"
  have sds: "sorted ds" "mset ds = image_mset key (M - S)" by (simp_all add: ds_def)
  have sys: "sorted (rev ys)" using assms(4) by (simp add: sorted_wrt_rev)
  have "set ys = key ` set_mset S" "set ds = key ` set_mset (M - S)"
    using assms(3) sds(2) by (metis set_image_mset set_mset_mset)+
  then have "sorted (ds @ rev ys)"
    using best by (auto simp: sorted_append sds(1) sys)
  moreover have "mset (ds @ rev ys) = mset xs"
    using sub assms(2,3) sds(2) by (simp add: image_mset_union [symmetric] del: image_mset_union)
  ultimately have srt: "sort xs = ds @ rev ys"
    by (metis properties_for_sort)
  have "length ys = size S" using assms(3) by (metis size_image_mset size_mset)
  moreover have "length ds = size (M - S)" using sds(2) by (metis size_image_mset size_mset)
  moreover have "size (M - S) = size M - size S" by (rule size_Diff_submset [OF sub])
  ultimately have "take k (ys @ rev ds) = ys" using sz by (auto simp: min_def split: if_splits)
  then show ?thesis by (simp add: srt)
qed

text \<open>The first \<open>k\<close> of a sorted list.\<close>

lemma is_topk_take:
  assumes "sorted_wrt (\<lambda>a b. key b \<le> key a) xs"
  shows "is_topk k key (mset xs) (mset (take k xs))"
proof -
  have m: "mset xs = mset (take k xs) + mset (drop k xs)"
    by (metis append_take_drop_id mset_append)
  have "key y \<le> key x" if "x \<in> set (take k xs)" "y \<in> set (drop k xs)" for x y
    using assms that by (metis append_take_drop_id sorted_wrt_append)
  then show ?thesis unfolding is_topk_def by (simp add: m)
qed

subsection \<open>The holder keeps the k best\<close>

lemma compare_item_fun: "compare_item = (\<lambda>a b. score b < score a)"
  by (intro ext) (simp add: compare_item_def)

definition topk_inv ::
  "nat \<Rightarrow> ('s :: linorder, 'i) topk_item multiset \<Rightarrow> ('s, 'i) topk_holder \<Rightarrow> bool" where
  "topk_inv k M h \<longleftrightarrow> 0 < k \<and> tk_k h = int k \<and> is_heap score (tk_pq h) \<and>
     is_topk k score M (mset (tk_pq h)) \<and>
     (length (tk_pq h) = k \<longrightarrow> tk_threshold h = Some (score (pq_top (tk_pq h))))"

lemma topk_inv_new: "topk_new k = Inr h \<Longrightarrow> topk_inv (nat k) {#} h \<and> 0 < k"
  by (auto simp: topk_new_def err_simps topk_inv_def is_heap_def)

lemma topk_inv_size: "topk_inv k M h \<Longrightarrow> length (tk_pq h) = min k (size M)"
  by (simp add: topk_inv_def is_topk_def)

lemma pq_top_in: "is_heap key q \<Longrightarrow> q \<noteq> [] \<Longrightarrow> pq_top q \<in># mset q"
  using heap.top_in [of key q] by simp

lemma topk_inv_add:
  fixes h :: "('s :: linorder, 'i) topk_holder"
  assumes inv: "topk_inv k M h"
  shows "topk_inv k (add_mset (TopKItem s i) M) (topk_add h s i)"
proof -
  let ?q = "tk_pq h" and ?x = "TopKItem s i"
  have k: "0 < k" "tk_k h = int k" and heap: "is_heap score ?q"
    and tk: "is_topk k score M (mset ?q)"
    and th: "length ?q = k \<Longrightarrow> tk_threshold h = Some (score (pq_top ?q))"
    using inv by (auto simp: topk_inv_def)
  have le: "length ?q \<le> k" using topk_inv_size [OF inv] by simp
  have heap_push: "is_heap score (pq_push compare_item q x)" if "is_heap score q"
    for q :: "('s, 'i) topk_item list" and x
    using heap.inv_push [OF that] by (simp add: compare_item_fun)
  show ?thesis
  proof (cases "length ?q = k")
    case full: True
    then have ne: "?q \<noteq> []" using k by auto
    have least: "score (pq_top ?q) \<le> score y" if "y \<in># mset ?q" for y
      using heap.top_least [OF heap that] .
    show ?thesis
    proof (cases "s \<le> score (pq_top ?q)")
      case True
      then have "topk_add h s i = h"
        using full k th by (simp add: topk_add_def within_threshold_def Let_def)
      moreover have "is_topk k score (add_mset ?x M) (mset ?q)"
        by (rule is_topk_reject [OF tk]) (use full True least in \<open>auto intro: order_trans\<close>)
      ultimately show ?thesis using inv by (simp add: topk_inv_def)
    next
      case False
      define q' where "q' = pq_push compare_item (pq_pop compare_item ?q) ?x"
      have add: "topk_add h s i = h\<lparr>tk_pq := q', tk_threshold := Some (score (pq_top q'))\<rparr>"
        using full k th False by (simp add: topk_add_def within_threshold_def Let_def q'_def)
      have pop: "is_heap score (pq_pop compare_item ?q)"
        "mset (pq_pop compare_item ?q) = mset ?q - {#pq_top ?q#}"
        using heap.inv_pop [OF heap] heap.elems_pop [OF heap] ne by (simp_all add: compare_item_fun)
      have "is_topk k score (add_mset ?x M) (add_mset ?x (mset ?q - {#pq_top ?q#}))"
        by (rule is_topk_replace [OF tk])
          (use full False pq_top_in [OF heap ne] least in auto)
      then show ?thesis
        using k heap_push [OF pop(1)] pop(2) by (simp add: topk_inv_def add q'_def)
    qed
  next
    case False
    then have room: "length ?q < k" using le by simp
    define q' where "q' = pq_push compare_item ?q ?x"
    have "is_topk k score (add_mset ?x M) (mset q')"
      using is_topk_add_room [OF tk] room by (simp add: q'_def)
    then show ?thesis
      using k heap_push [OF heap, of ?x] room
      by (simp add: topk_inv_def topk_add_def Let_def q'_def)
  qed
qed

definition pair_item :: "'s \<times> 'i \<Rightarrow> ('s, 'i) topk_item" where
  "pair_item p = TopKItem (fst p) (snd p)"

lemma topk_inv_add_all:
  "topk_inv k M h \<Longrightarrow> topk_inv k (image_mset pair_item (mset xs) + M) (topk_add_all h xs)"
proof (induction xs arbitrary: M h)
  case (Cons x xs)
  have "topk_inv k (add_mset (pair_item x) M) (topk_add h (fst x) (snd x))"
    using topk_inv_add [OF Cons.prems] by (simp add: pair_item_def)
  from Cons.IH [OF this] show ?case
    by (simp add: topk_add_all_def case_prod_beta)
qed (simp add: topk_add_all_def)

lemma mset_topk_drain: "topk_inv k M h \<Longrightarrow> mset (topk_drain h) = mset (tk_pq h)"
  using heap.mset_drain [of score "tk_pq h"]
  by (simp add: topk_drain_def topk_inv_def compare_item_fun)

lemma sorted_topk_drain: "topk_inv k M h \<Longrightarrow> sorted (map score (topk_drain h))"
  using heap.sorted_drain [of score "tk_pq h"]
  by (simp add: topk_drain_def topk_inv_def compare_item_fun)

lemma length_topk_drain [simp]: "length (topk_drain h) = length (tk_pq h)"
  by (simp add: topk_drain_def)

lemma topk_items_descending_eq:
  assumes "topk_inv k M h"
  shows "topk_items_descending h = (rev (map score (topk_drain h)), rev (map item_id (topk_drain h)))"
  using assms by (auto simp: topk_items_descending_def topk_inv_def topk_size_def topk_drain_def)

text \<open>What the holder returns after any sequence of additions.\<close>

lemma topk_items_descending_spec:
  assumes "topk_inv k M h" and "topk_items_descending h = (scores, ids)"
  shows "length scores = min k (size M)" "length ids = length scores"
    "sorted_wrt (\<lambda>a b. b \<le> a) scores"
    "is_topk k score M (mset (map2 TopKItem scores ids))"
proof -
  have e: "scores = rev (map score (topk_drain h))" "ids = rev (map item_id (topk_drain h))"
    using assms(2) topk_items_descending_eq [OF assms(1)] by simp_all
  show "length scores = min k (size M)" "length ids = length scores"
    using topk_inv_size [OF assms(1)] by (simp_all add: e)
  show "sorted_wrt (\<lambda>a b. b \<le> a) scores"
    using sorted_topk_drain [OF assms(1)] by (simp add: e sorted_wrt_rev)
  have "map2 TopKItem scores ids = rev (topk_drain h)"
    by (simp add: e zip_rev zip_map_map zip_same_conv_map rev_map [symmetric] o_def)
  then show "is_topk k score M (mset (map2 TopKItem scores ids))"
    using assms(1) mset_topk_drain [OF assms(1)] by (simp add: topk_inv_def)
qed

section \<open>DedupeTopKHolder\<close>

datatype ('s, 'd, 'i) dedupe_item = DedupeItem (dd_score: 's) (dd_id: 'd) (dd_item: 'i)

definition compare_dedupe :: "('s :: ord, 'd, 'i) dedupe_item \<Rightarrow> ('s, 'd, 'i) dedupe_item \<Rightarrow> bool" where
  "compare_dedupe item1 item2 \<longleftrightarrow> dd_score item2 < dd_score item1"

record ('s, 'd, 'i) dedupe_holder =
  dk_k :: int
  dk_pq :: "('s, 'd, 'i) dedupe_item list"
  dk_dedupe :: "'d set"

text \<open>
  A \<open>k\<close> that is not positive is the business of the caller, here as in the models of its callers:
  \<open>reserve\<close> throws for a negative one, and the first \<open>add\<close> reads an empty queue for zero.
\<close>

definition dedupe_new :: "int \<Rightarrow> ('s, 'd, 'i) dedupe_holder" where
  "dedupe_new k = \<lparr>dk_k = k, dk_pq = [], dk_dedupe = {}\<rparr>"

text \<open>The three-argument \<open>add\<close>; sizes are compared as \<open>size_t\<close>, so \<open>k\<close> is converted.\<close>

definition dedupe_add ::
  "('s :: ord, 'd, 'i) dedupe_holder \<Rightarrow> 's \<Rightarrow> 'd \<Rightarrow> 'i \<Rightarrow> ('s, 'd, 'i) dedupe_holder" where
  "dedupe_add h s i item =
     (let pq = dk_pq h; k = size_of_int (dk_k h)
      in if length pq \<ge> k \<and> s \<le> dd_score (pq_top pq) then h
         else if i \<in> dk_dedupe h then h
         else if length pq < k
         then h\<lparr>dk_pq := pq_push compare_dedupe pq (DedupeItem s i item),
                dk_dedupe := insert i (dk_dedupe h)\<rparr>
         else if dd_score (pq_top pq) < s
         then h\<lparr>dk_pq := pq_push compare_dedupe (pq_pop compare_dedupe pq) (DedupeItem s i item),
                dk_dedupe := insert i (dk_dedupe h - {dd_id (pq_top pq)})\<rparr>
         else h)"

text \<open>The two-argument \<open>add\<close>, where the id is also the item (through a cast).\<close>

definition dedupe_add_id ::
  "('d \<Rightarrow> 'i) \<Rightarrow> ('s :: ord, 'd, 'i) dedupe_holder \<Rightarrow> 's \<Rightarrow> 'd \<Rightarrow> ('s, 'd, 'i) dedupe_holder" where
  "dedupe_add_id cast h s i = dedupe_add h s i (cast i)"

definition dedupe_drain :: "('s :: ord, 'd, 'i) dedupe_holder \<Rightarrow> ('s, 'd, 'i) dedupe_item list" where
  "dedupe_drain h = drain pq_top (pq_pop compare_dedupe) (length (dk_pq h)) (dk_pq h)"

definition dedupe_top_k :: "('s :: ord, 'd, 'i) dedupe_holder \<Rightarrow> 'i list" where
  "dedupe_top_k h = map dd_item (dedupe_drain h)"

definition dedupe_top_k_descending :: "('s :: ord, 'd, 'i) dedupe_holder \<Rightarrow> 'i list" where
  "dedupe_top_k_descending h =
     (if dk_k h \<le> 0 \<or> dk_pq h = [] then [] else rev (map dd_item (dedupe_drain h)))"

definition dedupe_descending_with_padding :: "('s :: ord, 'd, 'i) dedupe_holder \<Rightarrow> 'i \<Rightarrow> 'i list" where
  "dedupe_descending_with_padding h pad =
     resize (size_of_int (dk_k h)) pad (dedupe_top_k_descending h)"

text \<open>
  \<open>ids\<close> and \<open>scores\<close> start as \<open>k\<close> pads and the drained items overwrite the first ones.
\<close>

definition dedupe_with_scores_and_padding ::
  "('s :: ord, 'd, 'i) dedupe_holder \<Rightarrow> 'i \<Rightarrow> 's \<Rightarrow> 'i list \<times> 's list" where
  "dedupe_with_scores_and_padding h pad score_pad =
     (let k = size_of_int (dk_k h)
      in if dk_k h \<le> 0 \<or> dk_pq h = [] then (replicate k pad, replicate k score_pad)
         else (resize k pad (rev (map dd_item (dedupe_drain h))),
               resize k score_pad (rev (map dd_score (dedupe_drain h)))))"

definition dedupe_add_all ::
  "('s :: ord, 'd, 'i) dedupe_holder \<Rightarrow> ('s \<times> 'd \<times> 'i) list \<Rightarrow> ('s, 'd, 'i) dedupe_holder" where
  "dedupe_add_all h xs = foldl (\<lambda>h (s, i, item). dedupe_add h s i item) h xs"

subsection \<open>The deduplicating holder keeps the k best distinct ids\<close>

lemma compare_dedupe_fun: "compare_dedupe = (\<lambda>a b. dd_score b < dd_score a)"
  by (intro ext) (simp add: compare_dedupe_def)

text \<open>
  \<open>seen\<close> are the items added so far. The holder relies on one score and one item per id; then
  what it keeps is a selection of the best of the \<^emph>\<open>set\<close> of seen items.
\<close>

definition one_per_id :: "('s, 'd, 'i) dedupe_item set \<Rightarrow> bool" where
  "one_per_id A \<longleftrightarrow> inj_on dd_id A"

definition dedupe_inv ::
  "nat \<Rightarrow> ('s :: linorder, 'd, 'i) dedupe_item set \<Rightarrow> ('s, 'd, 'i) dedupe_holder \<Rightarrow> bool" where
  "dedupe_inv k seen h \<longleftrightarrow> 0 < k \<and> k < 2147483648 \<and> dk_k h = int k \<and> finite seen \<and>
     is_heap dd_score (dk_pq h) \<and> dk_dedupe h = dd_id ` set (dk_pq h) \<and>
     is_topk k dd_score (mset_set seen) (mset (dk_pq h))"

lemma dedupe_inv_new: "0 < k \<Longrightarrow> k < 2147483648 \<Longrightarrow> dedupe_inv k {} (dedupe_new (int k))"
  by (simp add: dedupe_inv_def dedupe_new_def is_heap_def)

lemma dedupe_inv_subset: "dedupe_inv k seen h \<Longrightarrow> set (dk_pq h) \<subseteq> seen"
  by (metis dedupe_inv_def finite_set_mset_mset_set is_topk_def set_mset_mono set_mset_mset)

lemma dedupe_inv_add:
  fixes h :: "('s :: linorder, 'd, 'i) dedupe_holder"
  assumes inv: "dedupe_inv k seen h" and one: "one_per_id (insert (DedupeItem s i item) seen)"
  shows "dedupe_inv k (insert (DedupeItem s i item) seen) (dedupe_add h s i item)"
proof -
  let ?q = "dk_pq h" and ?x = "DedupeItem s i item"
  have k: "0 < k" "k < 2147483648" "dk_k h = int k" "size_of_int (dk_k h) = k"
    and fin: "finite seen" and heap: "is_heap dd_score ?q" and ids: "dk_dedupe h = dd_id ` set ?q"
    and tk: "is_topk k dd_score (mset_set seen) (mset ?q)"
    using inv by (auto simp: dedupe_inv_def is_i64_def)
  have sub: "set ?q \<subseteq> seen" by (rule dedupe_inv_subset [OF inv])
  have le: "length ?q \<le> k" using tk by (auto simp: is_topk_def)
  have least: "dd_score (pq_top ?q) \<le> dd_score y" if "y \<in> set ?q" for y
    using heap.top_least [OF heap, of y] that by simp
  have outside: "dd_score y \<le> dd_score (pq_top ?q)" if "y \<in> seen" "y \<notin> set ?q" "?q \<noteq> []" for y
    using tk that fin pq_top_in [OF heap that(3)] by (auto simp: is_topk_def in_diff_count not_in_iff)
  have new: "?x \<notin> seen" if "i \<notin> dk_dedupe h" "length ?q < k \<or> dd_score (pq_top ?q) < s"
  proof
    assume "?x \<in> seen"
    then have "?x \<notin> set ?q" using that(1) ids by force
    show False
    proof (cases "length ?q < k")
      case True
      then have "mset ?q = mset_set seen" using is_topk_room [OF tk] by simp
      then have "set ?q = seen" using fin by (metis finite_set_mset_mset_set set_mset_mset)
      with \<open>?x \<in> seen\<close> \<open>?x \<notin> set ?q\<close> show False by simp
    next
      case False
      then have "?q \<noteq> []" using k(1) by auto
      from outside [OF \<open>?x \<in> seen\<close> \<open>?x \<notin> set ?q\<close> this] that(2) False show False by simp
    qed
  qed
  have msets: "mset_set (insert ?x seen) = add_mset ?x (mset_set seen)" if "?x \<notin> seen"
    using that fin by simp
  have heap_push: "is_heap dd_score (pq_push compare_dedupe q x)" if "is_heap dd_score q"
    for q :: "('s, 'd, 'i) dedupe_item list" and x
    using heap.inv_push [OF that] by (simp add: compare_dedupe_fun)
  consider (reject) "length ?q = k" "s \<le> dd_score (pq_top ?q)"
    | (dup) "i \<in> dk_dedupe h" "\<not> (length ?q = k \<and> s \<le> dd_score (pq_top ?q))"
    | (room) "i \<notin> dk_dedupe h" "length ?q < k"
    | (replace) "i \<notin> dk_dedupe h" "length ?q = k" "dd_score (pq_top ?q) < s"
    using le by fastforce
  then show ?thesis
  proof cases
    case reject
    then have "dedupe_add h s i item = h" using k by (simp add: dedupe_add_def Let_def)
    moreover have "is_topk k dd_score (mset_set (insert ?x seen)) (mset ?q)"
    proof (cases "?x \<in> seen")
      case False
      show ?thesis unfolding msets [OF False]
        by (rule is_topk_reject [OF tk]) (use reject least in \<open>auto intro: order_trans\<close>)
    qed (use tk in \<open>simp add: insert_absorb\<close>)
    ultimately show ?thesis using inv by (simp add: dedupe_inv_def)
  next
    case dup
    then have "dedupe_add h s i item = h" using k le by (auto simp: dedupe_add_def Let_def)
    moreover obtain y where "y \<in> set ?q" "dd_id y = i" using dup ids by auto
    then have "?x \<in> seen"
      using one sub by (auto simp: one_per_id_def inj_on_def)
    ultimately show ?thesis using inv by (simp add: insert_absorb)
  next
    case room
    define q' where "q' = pq_push compare_dedupe ?q ?x"
    have "dedupe_add h s i item = h\<lparr>dk_pq := q', dk_dedupe := insert i (dk_dedupe h)\<rparr>"
      using room k by (simp add: dedupe_add_def Let_def q'_def)
    moreover have "set q' = insert ?x (set ?q)"
      unfolding q'_def by (metis mset_pq_push set_mset_add_mset_insert set_mset_mset)
    moreover have "is_topk k dd_score (mset_set (insert ?x seen)) (mset q')"
      unfolding msets [OF new [OF room(1) disjI1 [OF room(2)]]]
      using is_topk_add_room [OF tk] room by (simp add: q'_def)
    ultimately show ?thesis
      using k fin ids heap_push [OF heap, of ?x] by (simp add: dedupe_inv_def q'_def)
  next
    case replace
    then have ne: "?q \<noteq> []" using k by auto
    have top: "pq_top ?q \<in> set ?q" using pq_top_in [OF heap ne] by simp
    define q' where "q' = pq_push compare_dedupe (pq_pop compare_dedupe ?q) ?x"
    have add: "dedupe_add h s i item =
        h\<lparr>dk_pq := q', dk_dedupe := insert i (dk_dedupe h - {dd_id (pq_top ?q)})\<rparr>"
      using replace k by (simp add: dedupe_add_def Let_def q'_def)
    have pop: "is_heap dd_score (pq_pop compare_dedupe ?q)"
      "mset (pq_pop compare_dedupe ?q) = mset ?q - {#pq_top ?q#}"
      using heap.inv_pop [OF heap] heap.elems_pop [OF heap] ne by (simp_all add: compare_dedupe_fun)
    have "mset ?q \<subseteq># mset_set seen" using tk by (simp add: is_topk_def)
    then have dist: "count (mset ?q) y \<le> 1" for y
      using fin by (metis count_mset_set le_zero_eq mset_subset_eq_count nle_le zero_le)
    have "y \<in># mset ?q - {#pq_top ?q#} \<longleftrightarrow> y \<in> set ?q - {pq_top ?q}" for y
      using dist [of y] top by (auto simp: in_diff_count le_Suc_eq dest!: in_diffD)
    then have setq: "set q' = insert ?x (set ?q - {pq_top ?q})"
      using pop(2) unfolding q'_def
      by (metis mset_pq_push set_mset_add_mset_insert set_mset_mset set_eqI)
    have "inj_on dd_id (set ?q)" using one sub by (auto simp: one_per_id_def intro: inj_on_subset)
    then have "dd_id ` (set ?q - {pq_top ?q}) = dk_dedupe h - {dd_id (pq_top ?q)}"
      using top ids by (auto simp: inj_on_def)
    moreover have "is_topk k dd_score (mset_set (insert ?x seen)) (mset q')"
      unfolding msets [OF new [OF replace(1) disjI2 [OF replace(3)]]] q'_def mset_pq_push pop(2)
      by (rule is_topk_replace [OF tk]) (use replace top least in auto)
    ultimately show ?thesis
      using k fin heap_push [OF pop(1), of ?x] setq by (simp add: dedupe_inv_def add q'_def)
  qed
qed

definition triple_item :: "'s \<times> 'd \<times> 'i \<Rightarrow> ('s, 'd, 'i) dedupe_item" where
  "triple_item t = DedupeItem (fst t) (fst (snd t)) (snd (snd t))"

lemma dedupe_inv_add_all:
  assumes "dedupe_inv k seen h" and "one_per_id (triple_item ` set xs \<union> seen)"
  shows "dedupe_inv k (triple_item ` set xs \<union> seen) (dedupe_add_all h xs)"
  using assms
proof (induction xs arbitrary: seen h)
  case (Cons x xs)
  obtain s i item where x: "x = (s, i, item)" by (cases x)
  have "one_per_id (insert (triple_item x) seen)"
    using Cons.prems(2) by (auto simp: one_per_id_def elim: inj_on_subset)
  then have "dedupe_inv k (insert (triple_item x) seen) (dedupe_add h s i item)"
    using dedupe_inv_add [OF Cons.prems(1)] by (simp add: x triple_item_def)
  from Cons.IH [OF this] Cons.prems(2) show ?case
    by (simp add: x dedupe_add_all_def)
qed (simp add: dedupe_add_all_def)

lemma dedupe_drain_props:
  assumes "dedupe_inv k seen h"
  shows "mset (dedupe_drain h) = mset (dk_pq h)" "sorted (map dd_score (dedupe_drain h))"
    "length (dedupe_drain h) = min k (card seen)"
proof -
  have h: "is_heap dd_score (dk_pq h)" "length (dk_pq h) = min k (card seen)"
    using assms by (auto simp: dedupe_inv_def is_topk_def)
  then show "mset (dedupe_drain h) = mset (dk_pq h)" "sorted (map dd_score (dedupe_drain h))"
    "length (dedupe_drain h) = min k (card seen)"
    using heap.mset_drain [OF h(1)] heap.sorted_drain [OF h(1)]
    by (simp_all add: dedupe_drain_def compare_dedupe_fun)
qed

lemma length_resize [simp]: "length (resize n pad xs) = n"
  by (simp add: resize_def)

lemma resize_short: "length xs \<le> n \<Longrightarrow> resize n pad xs = xs @ replicate (n - length xs) pad"
  by (simp add: resize_def)

lemma dedupe_with_scores_eq:
  assumes "dedupe_inv k seen h"
  shows "dedupe_with_scores_and_padding h pad score_pad =
    (resize k pad (rev (map dd_item (dedupe_drain h))),
     resize k score_pad (rev (map dd_score (dedupe_drain h))))"
proof -
  have k: "0 < k" "k < 2147483648" "dk_k h = int k" using assms by (auto simp: dedupe_inv_def)
  then have "size_of_int (dk_k h) = k" by (simp add: is_i64_def)
  moreover have "dedupe_drain h = []" if "dk_pq h = []" using that by (simp add: dedupe_drain_def)
  ultimately show ?thesis using k
    by (auto simp: dedupe_with_scores_and_padding_def resize_def)
qed

section \<open>top_k_tokens\<close>

text \<open>
  The terms of a query with the \<open>k\<close> largest weights. The holder's constructor rejects a
  \<open>k\<close> that is not positive, but only when there is something to cut.
\<close>

definition top_k_tokens :: "term_t list \<Rightarrow> 's :: ord list \<Rightarrow> int \<Rightarrow> exn + term_t list" where
  "top_k_tokens indices weights k =
     (if k \<ge> int (length indices) then Inr indices
      else bindE (topk_new k)
        (\<lambda>h. Inr (topk_top_k_descending (topk_add_all h (zip weights indices)))))"

lemma topk_top_k_descending_eq:
  "topk_inv k M h \<Longrightarrow> topk_top_k_descending h = snd (topk_items_descending h)"
  by (simp add: topk_top_k_descending_def topk_items_descending_def)

section \<open>Properties\<close>

lemma inj_pair_item: "inj pair_item"
  by (auto intro: injI simp: pair_item_def prod_eq_iff)

lemma image_mset_subset_inj:
  assumes "inj f" and "image_mset f A \<subseteq># image_mset f B"
  shows "A \<subseteq># B"
proof -
  have "image_mset (inv f) (image_mset f C) = C" for C
    using assms(1) by (simp add: multiset.map_comp)
  then show ?thesis using image_mset_subseteq_mono [OF assms(2), of "inv f"] by simp
qed

text \<open>What a holder with an invariant hands out, as pairs of score and id.\<close>

lemma topk_items_pairs:
  fixes xs :: "('s :: linorder \<times> 'i) list"
  assumes "topk_inv k (image_mset pair_item (mset xs)) h"
    and "topk_items_descending h = (scores, ids)"
  shows "length ids = length scores" "mset (zip scores ids) \<subseteq># mset xs"
    "scores = take k (rev (sort (map fst xs)))"
    "is_topk k fst (mset xs) (mset (zip scores ids))"
proof -
  let ?M = "image_mset pair_item (mset xs)"
  note spec = topk_items_descending_spec [OF assms]
  show len: "length ids = length scores" by (rule spec(2))
  have "map2 TopKItem scores ids = map pair_item (zip scores ids)"
    by (simp add: pair_item_def case_prod_beta)
  then have m: "mset (map2 TopKItem scores ids) = image_mset pair_item (mset (zip scores ids))"
    by (simp only: mset_map)
  have tk: "is_topk k score ?M (image_mset pair_item (mset (zip scores ids)))"
    using spec(4) unfolding m .
  then have "image_mset pair_item (mset (zip scores ids)) \<subseteq># ?M"
    by (simp only: is_topk_def)
  then show sub: "mset (zip scores ids) \<subseteq># mset xs"
    by (rule image_mset_subset_inj [OF inj_pair_item])
  show "scores = take k (rev (sort (map fst xs)))"
  proof (rule is_topk_scores [OF tk _ _ spec(3)])
    show "mset (map fst xs) = image_mset score ?M"
      by (simp add: multiset.map_comp o_def pair_item_def)
    show "mset scores = image_mset score (image_mset pair_item (mset (zip scores ids)))"
      using len by (simp add: multiset.map_comp o_def pair_item_def flip: mset_map)
  qed
  have "?M - image_mset pair_item (mset (zip scores ids)) =
      image_mset pair_item (mset xs - mset (zip scores ids))"
    by (rule image_mset_Diff [OF sub, symmetric])
  then show "is_topk k fst (mset xs) (mset (zip scores ids))"
    using tk sub by (simp add: is_topk_def pair_item_def)
qed

lemma topk_new_add_all:
  "topk_new k = Inr h \<Longrightarrow>
    topk_inv (nat k) (image_mset pair_item (mset xs)) (topk_add_all h xs)"
  using topk_inv_add_all [of "nat k" "{#}" h xs] topk_inv_new [of k h] by simp

text \<open>
  C8: whatever is added to a fresh holder of capacity \<open>k\<close>, \<open>top_k_items_descending\<close> returns
  as many ids as scores, each pair is one that was added, and they are the \<open>k\<close> best: the scores
  are the first \<open>k\<close> of all added scores sorted in descending order.
\<close>

theorem topk_holder_best:
  fixes xs :: "('s :: linorder \<times> 'i) list"
  assumes "topk_new k = Inr h"
    and "topk_items_descending (topk_add_all h xs) = (scores, ids)"
  shows "length ids = length scores \<and> mset (zip scores ids) \<subseteq># mset xs \<and>
    scores = take (nat k) (rev (sort (map fst xs)))"
  using topk_items_pairs [OF topk_new_add_all [OF assms(1)] assms(2)] by blast

theorem topk_holder_best_witness:
  "\<exists>h. topk_new 2 = Inr (h :: (int, nat) topk_holder) \<and>
     fst (topk_items_descending (topk_add_all h [(5, 0), (7, 1), (3, 2), (9, 3)])) = [9, 7]"
proof -
  obtain h :: "(int, nat) topk_holder" where h: "topk_new 2 = Inr h"
    by (simp add: topk_new_def throw_if_not_positive_def)
  obtain scores ids where
    r: "topk_items_descending (topk_add_all h [(5, 0), (7, 1), (3, 2), (9, 3)]) = (scores, ids)"
    by (cases "topk_items_descending (topk_add_all h [(5, 0), (7, 1), (3, 2), (9, 3)])")
  show ?thesis using h r topk_holder_best [OF h r] by simp
qed

text \<open>
  C18: the deduplicating holder, fed items whose id determines score and item, returns padded
  arrays of exactly \<open>k\<close> entries whose leading part are the \<open>k\<close> best of the distinct items, in
  descending order of score, with pairwise different ids.
\<close>

theorem dedupe_holder_best:
  fixes xs :: "('s :: linorder \<times> 'd \<times> 'i) list"
  assumes "0 < k" and "k < 2147483648" and "one_per_id (triple_item ` set xs)"
    and "dedupe_with_scores_and_padding (dedupe_add_all (dedupe_new (int k)) xs) pad score_pad =
      (ids, scores)"
  shows "\<exists>best. ids = resize k pad (map dd_item best) \<and> scores = resize k score_pad (map dd_score best) \<and>
    set best \<subseteq> triple_item ` set xs \<and> distinct (map dd_id best) \<and>
    map dd_score best = take k (rev (sort (map dd_score (remdups (map triple_item xs)))))"
proof -
  define h where "h = dedupe_add_all (dedupe_new (int k)) xs"
  let ?seen = "triple_item ` set xs"
  have inv: "dedupe_inv k ?seen h"
    using dedupe_inv_add_all [OF dedupe_inv_new [OF assms(1,2)], of xs] assms(3) by (simp add: h_def)
  define best where "best = rev (dedupe_drain h)"
  note d = dedupe_drain_props [OF inv]
  have mb: "mset best = mset (dk_pq h)" by (simp add: best_def d(1))
  have "map dd_score best = take k (rev (sort (map dd_score (remdups (map triple_item xs)))))"
  proof (rule is_topk_scores)
    show "is_topk k dd_score (mset_set ?seen) (mset best)" using inv mb by (simp add: dedupe_inv_def)
    show "mset (map dd_score (remdups (map triple_item xs))) = image_mset dd_score (mset_set ?seen)"
      by (simp add: mset_set_set [symmetric] flip: set_map)
    show "sorted_wrt (\<lambda>a b. b \<le> a) (map dd_score best)"
      using d(2) by (simp add: best_def sorted_wrt_rev flip: rev_map)
  qed simp
  moreover have sb: "set best = set (dk_pq h)" using mb by (metis set_mset_mset)
  moreover have "distinct best"
  proof -
    have "mset best \<subseteq># mset_set ?seen" using inv mb by (simp add: dedupe_inv_def is_topk_def)
    then have "count (mset best) y \<le> 1" for y
      by (metis count_mset_set le_zero_eq mset_subset_eq_count nle_le zero_le)
    then show ?thesis
      by (metis distinct_count_atmost_1 count_mset_0_iff le_antisym less_one linorder_not_less set_mset_mset count_greater_eq_one_iff)
  qed
  then have "distinct (map dd_id best)"
    using assms(3) dedupe_inv_subset [OF inv] sb
    by (auto simp: distinct_map one_per_id_def intro: inj_on_subset)
  moreover have "ids = resize k pad (map dd_item best)" "scores = resize k score_pad (map dd_score best)"
    using assms(4) dedupe_with_scores_eq [OF inv, of pad score_pad]
    by (simp_all add: h_def best_def rev_map)
  ultimately show ?thesis using dedupe_inv_subset [OF inv] by blast
qed

theorem dedupe_holder_best_witness:
  "snd (dedupe_with_scores_and_padding
     (dedupe_add_all (dedupe_new 5) ([(5, 0, 0), (7, 1, 1), (5, 0, 0), (2, 4, 4)] :: (int \<times> nat \<times> nat) list))
     99 (-1)) = [7, 5, 2, -1, -1]"
proof -
  let ?xs = "[(5, 0, 0), (7, 1, 1), (5, 0, 0), (2, 4, 4)] :: (int \<times> nat \<times> nat) list"
  let ?r = "dedupe_with_scores_and_padding (dedupe_add_all (dedupe_new (int 5)) ?xs) 99 (-1)"
  have r: "?r = (fst ?r, snd ?r)" by simp
  have one: "one_per_id (triple_item ` set ?xs)"
    by (auto simp: one_per_id_def triple_item_def)
  have "(0 :: nat) < 5" "(5 :: nat) < 2147483648" by simp_all
  from dedupe_holder_best [OF this one r] obtain best :: "(int, nat, nat) dedupe_item list" where
    "snd ?r = resize 5 (-1) (map dd_score best)"
    "map dd_score best = take 5 (rev (sort (map dd_score (remdups (map triple_item ?xs)))))"
    by blast
  then show ?thesis by (simp add: triple_item_def resize_def eval_nat_numeral)
qed

text \<open>
  \<open>top_k_tokens\<close> returns every term when the cut is not below the query's length, and
  otherwise exactly \<open>k\<close> of the query's terms, whose weights are the \<open>k\<close> largest.
\<close>

theorem top_k_tokens_best:
  fixes weights :: "'s :: linorder list"
  assumes "length weights = length indices" and "top_k_tokens indices weights k = Inr cuts"
  shows "if int (length indices) \<le> k then cuts = indices
    else length cuts = nat k \<and>
      (\<exists>ws. length ws = nat k \<and> mset (zip ws cuts) \<subseteq># mset (zip weights indices) \<and>
         ws = take (nat k) (rev (sort weights)))"
proof (cases "int (length indices) \<le> k")
  case True
  then show ?thesis using assms(2) by (simp add: top_k_tokens_def)
next
  case False
  then obtain h where h: "topk_new k = Inr (h :: ('s, nat) topk_holder)"
    and c: "cuts = topk_top_k_descending (topk_add_all h (zip weights indices))"
    using assms(2) by (auto simp: top_k_tokens_def err_simps)
  obtain ws ids where r: "topk_items_descending (topk_add_all h (zip weights indices)) = (ws, ids)"
    by (cases "topk_items_descending (topk_add_all h (zip weights indices))")
  note inv = topk_new_add_all [OF h, of "zip weights indices"]
  note p = topk_items_pairs [OF inv r]
  have "cuts = ids" by (simp add: c topk_top_k_descending_eq [OF inv] r)
  moreover have "length ws = nat k"
    using p(3) False assms(1) by simp
  ultimately show ?thesis using False p assms(1) by auto
qed

theorem top_k_tokens_best_witness:
  "\<exists>cuts. top_k_tokens [3, 8, 9] [5, 1, 7 :: int] 2 = Inr cuts \<and> length cuts = 2"
proof -
  have "topk_new 2 \<noteq> (Inl e :: exn + (int, nat) topk_holder)" for e
    by (simp add: topk_new_def throw_if_not_positive_def)
  then obtain cuts where c: "top_k_tokens [3, 8, 9] [5, 1, 7 :: int] 2 = Inr cuts"
    by (cases "topk_new 2 :: exn + (int, nat) topk_holder") (auto simp: top_k_tokens_def)
  show ?thesis using c top_k_tokens_best [OF _ c] by simp
qed

end
