(* ===== verification/Inverted_Lists.thy ===== *)
theory Inverted_Lists
  imports Sparse_Vectors Ranker
begin

text \<open>
  \<^verbatim>\<open>invlists/inverted_lists.cpp\<close>: \<open>InvertedList\<close>, a posting list of document ids and values kept as
  raw bytes, and \<open>ArrayInvertedLists\<close>, one list per term, with \<open>build_inverted_lists\<close>, pruning and
  the wire format. Values are read at the stored width: 4 bytes through a decoder \<open>dec\<close> (the
  code's is \<open>f32_of_bytes\<close>), 1 and 2 bytes as numbers converted by \<open>conv\<close> (the code's is
  \<open>f32_of_nat\<close>). The list's spinlock only serialises calls and is not modelled.
\<close>

section \<open>InvertedList\<close>

record inverted_list =
  il_element_size :: size_t
  il_doc_ids :: "idx_t buf"
  il_codes :: "byte buf"

definition il_new :: "size_t \<Rightarrow> inverted_list" where
  "il_new element_size = \<lparr>il_element_size = element_size, il_doc_ids = buf_default, il_codes = buf_default\<rparr>"

definition il_size :: "inverted_list \<Rightarrow> size_t" where
  "il_size l = buf_size (il_doc_ids l)"

text \<open>\<open>ids\<close> and \<open>codes\<close> point at \<open>n_entry\<close> ids and as many values.\<close>

definition il_add_entries ::
  "inverted_list \<Rightarrow> size_t \<Rightarrow> idx_t list \<Rightarrow> byte list \<Rightarrow> exn + inverted_list" where
  "il_add_entries l n_entry ids codes =
     (if n_entry = 0 then Inr l
      else bindE (take_vector (il_doc_ids l)) (\<lambda>(doc_ids, _).
           bindE (take_vector (il_codes l)) (\<lambda>(code_bytes, _).
           bindE (take_elems n_entry ids) (\<lambda>new_ids.
           bindE (take_elems (u64 (n_entry * il_element_size l)) codes) (\<lambda>new_codes.
           Inr (l\<lparr>il_doc_ids := buf_own (doc_ids @ new_ids),
                  il_codes := buf_own (code_bytes @ new_codes)\<rparr>))))))"

definition il_set_entries :: "inverted_list \<Rightarrow> idx_t list \<Rightarrow> byte list \<Rightarrow> exn + inverted_list" where
  "il_set_entries l doc_ids codes =
     (if length codes \<noteq> u64 (length doc_ids * il_element_size l)
      then Inl (Invalid_argument ''codes must hold one element_size-wide value per doc id'')
      else Inr (l\<lparr>il_doc_ids := buf_own doc_ids, il_codes := buf_own codes\<rparr>))"

definition il_clear :: "inverted_list \<Rightarrow> inverted_list" where
  "il_clear l = l\<lparr>il_doc_ids := buf_default, il_codes := buf_default\<rparr>"

subsection \<open>Values\<close>

definition value_at :: "(byte list \<Rightarrow> 'w) \<Rightarrow> (nat \<Rightarrow> 'w) \<Rightarrow> size_t \<Rightarrow> byte list \<Rightarrow> nat \<Rightarrow> 'w" where
  "value_at dec conv element_size codes i =
     (let value_ptr = drop (i * element_size) codes
      in if element_size = U32 then dec (take 4 value_ptr)
         else if element_size = U16 then conv (le_nat (take 2 value_ptr))
         else conv (le_nat (take 1 value_ptr)))"

definition il_get_value :: "(byte list \<Rightarrow> 'w) \<Rightarrow> (nat \<Rightarrow> 'w) \<Rightarrow> inverted_list \<Rightarrow> nat \<Rightarrow> 'w" where
  "il_get_value dec conv l i = value_at dec conv (il_element_size l) (buf_elems (il_codes l)) i"

definition il_max_value :: "(byte list \<Rightarrow> 'w) \<Rightarrow> (nat \<Rightarrow> 'w) \<Rightarrow> inverted_list \<Rightarrow> 'w :: {zero, ord}" where
  "il_max_value dec conv l =
     foldl (\<lambda>max_val i. let v = il_get_value dec conv l i in if max_val < v then v else max_val)
       0 [0..<il_size l]"

definition create_value_doc_id_pair ::
  "(byte list \<Rightarrow> 'w) \<Rightarrow> (nat \<Rightarrow> 'w) \<Rightarrow> inverted_list \<Rightarrow> nat \<Rightarrow> ('w \<times> idx_t) list" where
  "create_value_doc_id_pair dec conv l n_docs =
     map (\<lambda>i. (value_at dec conv (il_element_size l) (buf_elems (il_codes l)) i, buf_elems (il_doc_ids l) ! i))
       [0..<n_docs]"

definition prune_and_keep_doc_ids ::
  "(byte list \<Rightarrow> 'w :: ord) \<Rightarrow> (nat \<Rightarrow> 'w) \<Rightarrow> inverted_list \<Rightarrow> size_t \<Rightarrow> idx_t list" where
  "prune_and_keep_doc_ids dec conv l lambda =
     (let n_docs = il_size l
      in if lambda \<le> 0 \<or> n_docs = 0 \<or> lambda \<ge> n_docs then buf_elems (il_doc_ids l)
         else map snd (take lambda
                (sort_by (\<lambda>a b. fst b < fst a) (create_value_doc_id_pair dec conv l n_docs))))"

subsection \<open>Serialization\<close>

definition il_serialize :: "inverted_list \<Rightarrow> writer \<Rightarrow> exn + writer" where
  "il_serialize l w =
     bindE (write_size_t (il_size l) w) (\<lambda>w1.
     bindE (write_padded idx_bytes 4 (buf_elems (il_doc_ids l)) w1) (\<lambda>w2.
     write_padded u8_bytes (il_element_size l) (buf_elems (il_codes l)) w2))"

definition il_deserialize :: "size_t \<Rightarrow> reader \<Rightarrow> exn + inverted_list \<times> reader" where
  "il_deserialize element_size r =
     bindE (read_size_t r) (\<lambda>(list_size, r1).
     bindE (read_padded int_of_bytes 4 4 list_size r1) (\<lambda>(doc_ids, r2).
     bindE (checked_mul list_size element_size) (\<lambda>code_size.
     bindE (read_padded u8_of_bytes 1 element_size code_size r2) (\<lambda>(codes, r3).
     Inr (\<lparr>il_element_size = element_size, il_doc_ids = doc_ids, il_codes = codes\<rparr>, r3)))))"

definition il_mmap_deserialize :: "size_t \<Rightarrow> cursor \<Rightarrow> exn + inverted_list \<times> cursor" where
  "il_mmap_deserialize element_size c =
     bindE (map_size_t c) (\<lambda>(list_size, c1).
     bindE (borrow_padded int_of_bytes 4 4 4 list_size c1) (\<lambda>(doc_ids, c2).
     bindE (checked_mul list_size element_size) (\<lambda>code_size.
     bindE (map_padded u8_of_bytes 1 1 element_size code_size c2) (\<lambda>((codes, addr), c3).
     bindE (throw_if (list_size > 0 \<and> addr mod element_size \<noteq> 0)
              (Runtime_error ''mmap: posting values are misaligned for the element size'')) (\<lambda>_.
     Inr (\<lparr>il_element_size = element_size, il_doc_ids = doc_ids, il_codes = buf_borrow codes\<rparr>, c3))))))"

section \<open>ArrayInvertedLists\<close>

record array_inverted_lists =
  ail_n_term :: size_t
  ail_element_size :: size_t
  ail_lists :: "inverted_list list"

definition ail_new :: "size_t \<Rightarrow> size_t \<Rightarrow> array_inverted_lists" where
  "ail_new n_term element_size = \<lparr>ail_n_term = n_term, ail_element_size = element_size,
     ail_lists = replicate n_term (il_new element_size)\<rparr>"

definition ail_size :: "array_inverted_lists \<Rightarrow> size_t" where
  "ail_size a = length (ail_lists a)"

definition ail_add_entries ::
  "array_inverted_lists \<Rightarrow> term_t \<Rightarrow> size_t \<Rightarrow> idx_t list \<Rightarrow> byte list \<Rightarrow> exn + array_inverted_lists" where
  "ail_add_entries a term_id n_entry doc_ids code =
     (if term_id \<ge> ail_n_term a then Inl (Invalid_argument ''term_id out of range'')
      else bindE (il_add_entries (ail_lists a ! term_id) n_entry doc_ids code)
             (\<lambda>l. Inr (a\<lparr>ail_lists := (ail_lists a)[term_id := l]\<rparr>)))"

definition ail_add_entry ::
  "array_inverted_lists \<Rightarrow> term_t \<Rightarrow> idx_t \<Rightarrow> byte list \<Rightarrow> exn + array_inverted_lists" where
  "ail_add_entry a term_id doc_id code = ail_add_entries a term_id 1 [doc_id] code"

subsection \<open>build_inverted_lists\<close>

text \<open>\<open>for (offset_t j = indptr[i]; j < indptr[i + 1]; ++j)\<close> over all rows, as (row, position) pairs.\<close>

definition csr_entries :: "offset_t list \<Rightarrow> nat \<Rightarrow> (nat \<times> nat) list" where
  "csr_entries indptr n_docs =
     concat (map (\<lambda>i. map (\<lambda>j. (i, j)) [nat (indptr ! i)..<nat (indptr ! (i + 1))]) [0..<n_docs])"

definition count_terms :: "size_t \<Rightarrow> term_t list \<Rightarrow> (nat \<times> nat) list \<Rightarrow> exn + nat list" where
  "count_terms n_term indices entries =
     foldE (\<lambda>counts (i, j). let term_id = indices ! j
        in if term_id \<ge> n_term then Inl (Invalid_argument ''term_id out of range'')
           else Inr (counts[term_id := counts ! term_id + 1])) (replicate n_term 0) entries"

definition fill_step ::
  "size_t \<Rightarrow> term_t list \<Rightarrow> byte list \<Rightarrow> (idx_t list \<times> byte list) list \<Rightarrow> nat \<times> nat \<Rightarrow>
     (idx_t list \<times> byte list) list" where
  "fill_step element_size indices values pairs = (\<lambda>(i, j).
     let term_id = indices ! j; (ids, codes) = pairs ! term_id
     in pairs[term_id := (ids @ [i32 (int i)], codes @ take element_size (drop (j * element_size) values))])"

definition fill_postings ::
  "size_t \<Rightarrow> size_t \<Rightarrow> term_t list \<Rightarrow> byte list \<Rightarrow> (nat \<times> nat) list \<Rightarrow> (idx_t list \<times> byte list) list" where
  "fill_postings n_term element_size indices values entries =
     foldl (fill_step element_size indices values) (replicate n_term ([], [])) entries"

definition build_inverted_lists ::
  "size_t \<Rightarrow> size_t \<Rightarrow> sparse_vectors option \<Rightarrow> exn + array_inverted_lists" where
  "build_inverted_lists n_term element_size vectors =
     bindE (throw_if_null vectors ''vectors must not be null'') (\<lambda>v.
     let entries = csr_entries (buf_elems (sv_indptr v)) (num_vectors v);
         indices = buf_elems (sv_indices v)
     in bindE (count_terms n_term indices entries) (\<lambda>counts.
        let filled = fill_postings n_term element_size indices (buf_elems (sv_values v)) entries
        in bindE (mapE (\<lambda>trm. if counts ! trm = 0 then Inr (il_new element_size)
                    else il_set_entries (il_new element_size) (fst (filled ! trm)) (snd (filled ! trm)))
                  [0..<n_term])
             (\<lambda>ls. Inr (ail_new n_term element_size\<lparr>ail_lists := ls\<rparr>))))"

subsection \<open>Serialization\<close>

definition ail_serialize :: "array_inverted_lists \<Rightarrow> writer \<Rightarrow> exn + writer" where
  "ail_serialize a w =
     bindE (write_size_t (ail_n_term a) w) (\<lambda>w1.
     bindE (write_size_t (ail_element_size a) w1) (\<lambda>w2.
     write_all il_serialize (ail_lists a) w2))"

definition throw_if_foreign_element_size :: "size_t \<Rightarrow> size_t \<Rightarrow> exn + unit" where
  "throw_if_foreign_element_size stored expected = throw_if (stored \<noteq> expected)
     (Runtime_error ''stored posting element width is not the one this index reads'')"

definition ail_read :: "reader option \<Rightarrow> size_t \<Rightarrow> exn + array_inverted_lists \<times> reader" where
  "ail_read rd element_size =
     bindE (throw_if_null rd ''reader must not be null'') (\<lambda>r.
     bindE (read_size_t r) (\<lambda>(n_term, r1).
     bindE (read_size_t r1) (\<lambda>(stored_element_size, r2).
     bindE (throw_if_foreign_element_size stored_element_size element_size) (\<lambda>_.
     bindE (read_n (il_deserialize element_size) n_term r2) (\<lambda>(ls, r3).
     Inr (ail_new n_term element_size\<lparr>ail_lists := ls\<rparr>, r3))))))"

definition ail_map :: "cursor option \<Rightarrow> size_t \<Rightarrow> exn + array_inverted_lists \<times> cursor" where
  "ail_map cur element_size =
     bindE (throw_if_null cur ''cursor must not be null'') (\<lambda>c.
     bindE (map_size_t c) (\<lambda>(n_term, c1).
     bindE (map_size_t c1) (\<lambda>(stored_element_size, c2).
     bindE (throw_if_foreign_element_size stored_element_size element_size) (\<lambda>_.
     bindE (throw_if (n_term > cursor_remaining c2 div 8)
              (Runtime_error ''mmap: implausible term count in index file'')) (\<lambda>_.
     bindE (read_n (il_mmap_deserialize element_size) n_term c2) (\<lambda>(ls, c3).
     Inr (ail_new n_term element_size\<lparr>ail_lists := ls\<rparr>, c3)))))))"

section \<open>build_inverted_lists groups the entries by term\<close>

definition entries_of :: "term_t list \<Rightarrow> term_t \<Rightarrow> (nat \<times> nat) list \<Rightarrow> (nat \<times> nat) list" where
  "entries_of indices t entries = filter (\<lambda>(i, j). indices ! j = t) entries"

definition code_at :: "size_t \<Rightarrow> byte list \<Rightarrow> nat \<Rightarrow> byte list" where
  "code_at es values j = take es (drop (j * es) values)"

lemma entries_of_append [simp]: "entries_of ix t (xs @ ys) = entries_of ix t xs @ entries_of ix t ys"
  by (simp add: entries_of_def)

lemma length_fill_step [simp]: "length (fill_step es ix vs ls e) = length ls"
  by (simp add: fill_step_def Let_def split: prod.splits)

lemma length_foldl_fill: "length (foldl (fill_step es ix vs) ls entries) = length ls"
  by (induction entries arbitrary: ls) auto

lemma length_fill_postings [simp]: "length (fill_postings n es ix vs entries) = n"
  by (simp add: fill_postings_def length_foldl_fill)

lemma fill_postings_nth:
  assumes "\<And>i j. (i, j) \<in> set entries \<Longrightarrow> ix ! j < n" and "t < n"
  shows "fill_postings n es ix vs entries ! t =
    (map (\<lambda>(i, j). i32 (int i)) (entries_of ix t entries),
     concat (map (\<lambda>(i, j). code_at es vs j) (entries_of ix t entries)))"
  using assms(1)
proof (induction entries rule: rev_induct)
  case Nil
  then show ?case using assms(2) by (simp add: fill_postings_def entries_of_def)
next
  case (snoc e entries)
  obtain i j where e: "e = (i, j)" by (cases e)
  let ?f = "fill_postings n es ix vs entries"
  have ij: "ix ! j < n" using snoc.prems [of i j] by (simp add: e)
  have IH: "?f ! t = (map (\<lambda>(i, j). i32 (int i)) (entries_of ix t entries),
     concat (map (\<lambda>(i, j). code_at es vs j) (entries_of ix t entries)))"
    by (rule snoc.IH) (use snoc.prems in auto)
  have step: "fill_postings n es ix vs (entries @ [e]) =
      ?f[ix ! j := (fst (?f ! (ix ! j)) @ [i32 (int i)], snd (?f ! (ix ! j)) @ code_at es vs j)]"
    by (simp add: fill_postings_def fill_step_def e Let_def case_prod_beta code_at_def)
  show ?case
  proof (cases "ix ! j = t")
    case True
    then show ?thesis using IH ij assms(2) unfolding step by (simp add: e entries_of_def)
  next
    case False
    then show ?thesis using IH unfolding step by (simp add: e entries_of_def)
  qed
qed

lemma count_terms_eq:
  assumes "\<And>i j. (i, j) \<in> set entries \<Longrightarrow> ix ! j < n"
  shows "\<exists>counts. count_terms n ix entries = Inr counts \<and> length counts = n \<and>
    (\<forall>t < n. counts ! t = length (entries_of ix t entries))"
  using assms
proof (induction entries rule: rev_induct)
  case Nil
  then show ?case by (simp add: count_terms_def entries_of_def)
next
  case (snoc e entries)
  obtain i j where e: "e = (i, j)" by (cases e)
  have ij: "ix ! j < n" using snoc.prems [of i j] by (simp add: e)
  obtain counts where c: "count_terms n ix entries = Inr counts" "length counts = n"
    "\<forall>t < n. counts ! t = length (entries_of ix t entries)"
    using snoc.IH snoc.prems by auto
  have "count_terms n ix (entries @ [e]) = Inr (counts[ix ! j := counts ! (ix ! j) + 1])"
    using c(1) ij by (simp add: count_terms_def foldE_append e Let_def)
  moreover have "counts[ix ! j := counts ! (ix ! j) + 1] ! t = length (entries_of ix t (entries @ [e]))"
    if "t < n" for t
    using that c ij by (auto simp: e entries_of_def nth_list_update)
  ultimately show ?case using c(2) by simp
qed

lemma count_terms_rejects:
  assumes "(i, j) \<in> set entries" and "ix ! j \<ge> n"
  shows "count_terms n ix entries = Inl (Invalid_argument ''term_id out of range'')"
proof -
  have "foldE (\<lambda>counts (i, j). let term_id = ix ! j
        in if term_id \<ge> n then Inl (Invalid_argument ''term_id out of range'')
           else Inr (counts[term_id := counts ! term_id + 1])) cs entries =
      Inl (Invalid_argument ''term_id out of range'')" for cs :: "nat list"
    using assms by (induction entries arbitrary: cs) (auto simp: Let_def split: if_splits)
  then show ?thesis by (simp add: count_terms_def)
qed

lemma csr_entries_Suc:
  "csr_entries ip (Suc n) = csr_entries ip n @ map (Pair n) [nat (ip ! n)..<nat (ip ! (n + 1))]"
  by (simp add: csr_entries_def)

lemma csr_entries_bounds:
  assumes "csr_wf es ip ix vs" and "n < length ip" and "(i, j) \<in> set (csr_entries ip n)"
  shows "i < n" "j < length ix"
proof -
  from assms(3) have ij: "i < n" "nat (ip ! i) \<le> j" "j < nat (ip ! (i + 1))"
    by (auto simp: csr_entries_def)
  then show "i < n" by simp
  have "i + 1 < length ip" using ij(1) assms(2) by simp
  from csr_row_bounds(3) [OF assms(1) this] ij(3) show "j < length ix" by simp
qed

lemma length_code_at: "j < m \<Longrightarrow> length vs = m * es \<Longrightarrow> length (code_at es vs j) = es"
proof -
  assume "j < m" "length vs = m * es"
  then have "j * es + es \<le> length vs" using mult_le_mono1 [of "Suc j" m es] by simp
  then show ?thesis by (simp add: code_at_def)
qed

text \<open>The list the code builds for a term.\<close>

definition posting_entries :: "sparse_vectors \<Rightarrow> term_t \<Rightarrow> (nat \<times> nat) list" where
  "posting_entries v t =
     entries_of (buf_elems (sv_indices v)) t (csr_entries (buf_elems (sv_indptr v)) (num_vectors v))"

definition built_list :: "size_t \<Rightarrow> sparse_vectors \<Rightarrow> term_t \<Rightarrow> inverted_list" where
  "built_list es v t =
     (if posting_entries v t = [] then il_new es
      else \<lparr>il_element_size = es,
        il_doc_ids = buf_own (map (\<lambda>(i, j). i32 (int i)) (posting_entries v t)),
        il_codes = buf_own (concat (map (\<lambda>(i, j). code_at es (buf_elems (sv_values v)) j) (posting_entries v t)))\<rparr>)"

lemma sv_rows_wf:
  assumes "sv_content_wf v" and "0 < num_vectors v"
  shows "csr_wf (sv_element_size v) (buf_elems (sv_indptr v)) (buf_elems (sv_indices v)) (buf_elems (sv_values v))"
    "num_vectors v < length (buf_elems (sv_indptr v))"
  using assms by (auto simp: sv_content_wf_def num_vectors_def buf_empty_def buf_size_def split: if_splits)

lemma entries_in_range:
  assumes "sv_content_wf v" and "(i, j) \<in> set (csr_entries (buf_elems (sv_indptr v)) (num_vectors v))"
  shows "i < num_vectors v \<and> j < length (buf_elems (sv_indices v))"
proof (cases "0 < num_vectors v")
  case True
  from csr_entries_bounds [OF sv_rows_wf [OF assms(1) True] assms(2)] show ?thesis by simp
next
  case False
  then show ?thesis using assms(2) by (simp add: csr_entries_def)
qed

lemma length_concat_codes:
  "(\<And>p. p \<in> set ps \<Longrightarrow> length (f p) = k) \<Longrightarrow> length (concat (map f ps)) = length ps * k"
  by (induction ps) auto

lemma posting_codes_length:
  assumes "sv_content_wf v" and "sv_element_size v = es"
  shows "length (concat (map (\<lambda>(i, j). code_at es (buf_elems (sv_values v)) j) (posting_entries v t))) =
    length (posting_entries v t) * es"
proof (rule length_concat_codes)
  fix p assume "p \<in> set (posting_entries v t)"
  then obtain i j where p: "p = (i, j)" "(i, j) \<in> set (csr_entries (buf_elems (sv_indptr v)) (num_vectors v))"
    by (auto simp: posting_entries_def entries_of_def)
  then have j: "j < length (buf_elems (sv_indices v))" and "0 < num_vectors v"
    using entries_in_range [OF assms(1)] by fastforce+
  from sv_rows_wf(1) [OF assms(1) this(2)] have "length (buf_elems (sv_values v)) = length (buf_elems (sv_indices v)) * es"
    using assms(2) by (simp add: csr_wf_def)
  with j show "length (case p of (i, j) \<Rightarrow> code_at es (buf_elems (sv_values v)) j) = es"
    by (simp add: p length_code_at)
qed

text \<open>Every position belongs to a row.\<close>

lemma csr_entries_prefix:
  assumes "csr_wf es ip ix vs" and "n < length ip" and "j < nat (ip ! n)"
  shows "\<exists>i. (i, j) \<in> set (csr_entries ip n)"
  using assms(2,3)
proof (induction n)
  case 0
  then show ?case using assms(1) by (simp add: csr_wf_def hd_conv_nth)
next
  case (Suc n)
  show ?case
  proof (cases "j < nat (ip ! n)")
    case True
    then show ?thesis using Suc by (auto simp: csr_entries_Suc)
  next
    case False
    then show ?thesis using Suc.prems by (intro exI [of _ n]) (auto simp: csr_entries_Suc)
  qed
qed

lemma csr_entries_cover:
  assumes "csr_wf es ip ix vs" and "n = length ip - 1" and "j < length ix"
  shows "\<exists>i. (i, j) \<in> set (csr_entries ip n)"
proof (rule csr_entries_prefix [OF assms(1)])
  show "n < length ip" using assms(1,2) by (auto simp: csr_wf_def)
  have "last ip = ip ! (length ip - 1)" by (rule last_conv_nth) (use assms(1) in \<open>simp add: csr_wf_def\<close>)
  then show "j < nat (ip ! n)" using assms by (simp add: csr_wf_def)
qed

lemma length_entries_le:
  assumes "csr_wf es ip ix vs" and "n < length ip"
  shows "length (csr_entries ip n) \<le> nat (ip ! n)"
  using assms(2)
proof (induction n)
  case (Suc n)
  then have "length (csr_entries ip n) \<le> nat (ip ! n)" by simp
  moreover have "nat (ip ! n) \<le> nat (ip ! (n + 1))"
    using csr_row_bounds(2) [OF assms(1), of n] Suc.prems by simp
  ultimately show ?case by (simp add: csr_entries_Suc)
qed (simp add: csr_entries_def)

lemma length_posting_entries:
  assumes "sv_content_wf v"
  shows "length (posting_entries v t) \<le> length (buf_elems (sv_indices v))"
proof (cases "0 < num_vectors v")
  case True
  note w = sv_rows_wf [OF assms True]
  have "length (posting_entries v t) \<le> length (csr_entries (buf_elems (sv_indptr v)) (num_vectors v))"
    by (simp add: posting_entries_def entries_of_def)
  also have "\<dots> \<le> nat (buf_elems (sv_indptr v) ! num_vectors v)" by (rule length_entries_le [OF w])
  also have "\<dots> \<le> length (buf_elems (sv_indices v))"
    using csr_wf_bounds [OF w(1), of "buf_elems (sv_indptr v) ! num_vectors v"] w(2) by (simp add: nat_le_iff)
  finally show ?thesis .
qed (simp add: posting_entries_def csr_entries_def entries_of_def)

lemma build_inverted_lists_eq:
  assumes wf: "sv_content_wf v" and es: "sv_element_size v = es"
    and terms: "\<forall>t \<in> set (buf_elems (sv_indices v)). t < n_term"
    and fits: "length (buf_elems (sv_indices v)) * es \<le> SIZE_MAX"
  shows "build_inverted_lists n_term es (Some v) =
    Inr (ail_new n_term es\<lparr>ail_lists := map (built_list es v) [0..<n_term]\<rparr>)"
proof -
  let ?ix = "buf_elems (sv_indices v)" and ?en = "csr_entries (buf_elems (sv_indptr v)) (num_vectors v)"
  let ?vs = "buf_elems (sv_values v)"
  have lt: "?ix ! j < n_term" if "(i, j) \<in> set ?en" for i j
    using entries_in_range [OF wf that] terms by simp
  obtain counts where c: "count_terms n_term ?ix ?en = Inr counts"
    "\<forall>t < n_term. counts ! t = length (entries_of ?ix t ?en)"
    using count_terms_eq [of ?en ?ix n_term] lt by blast
  let ?filled = "fill_postings n_term es ?ix ?vs ?en"
  have each: "(if counts ! t = 0 then Inr (il_new es)
         else il_set_entries (il_new es) (fst (?filled ! t)) (snd (?filled ! t))) = Inr (built_list es v t)"
    if "t \<in> set [0..<n_term]" for t
  proof -
    have t: "t < n_term" using that by simp
    have f: "?filled ! t = (map (\<lambda>(i, j). i32 (int i)) (posting_entries v t),
        concat (map (\<lambda>(i, j). code_at es ?vs j) (posting_entries v t)))"
      unfolding posting_entries_def by (rule fill_postings_nth [OF lt t])
    have "length (posting_entries v t) * es \<le> SIZE_MAX"
      using length_posting_entries [OF wf] fits by (meson le_trans mult_le_mono1)
    then have "u64 (length (posting_entries v t) * es) = length (posting_entries v t) * es"
      by (simp add: SIZE_MAX_def)
    then show ?thesis
      using c(2) t posting_codes_length [OF wf es, of t]
      by (auto simp: f il_set_entries_def il_new_def built_list_def posting_entries_def [symmetric])
  qed
  have "mapE (\<lambda>t. if counts ! t = 0 then Inr (il_new es)
         else il_set_entries (il_new es) (fst (?filled ! t)) (snd (?filled ! t))) [0..<n_term] =
      Inr (map (built_list es v) [0..<n_term])"
    by (rule mapE_Inr_all, rule each)
  then show ?thesis
    using c(1) by (simp add: build_inverted_lists_def throw_if_null_def Let_def)
qed

section \<open>What a built list holds\<close>

text \<open>The typed view of a list the search reads, and of a row, for 4-byte values.\<close>

definition il_postings :: "(byte list \<Rightarrow> 'w) \<Rightarrow> inverted_list \<Rightarrow> idx_t list \<times> 'w list" where
  "il_postings dec l =
     (buf_elems (il_doc_ids l), decode_array dec 4 (il_size l) (buf_elems (il_codes l)))"

definition typed_row :: "(byte list \<Rightarrow> 'w) \<Rightarrow> term_t list \<times> byte list \<Rightarrow> (term_t \<times> 'w) list" where
  "typed_row dec r = zip (fst r) (decode_array dec 4 (length (fst r)) (snd r))"

text \<open>The weight of a term in a row: the value stored for it, or zero.\<close>

definition row_weight :: "(byte list \<Rightarrow> 'w) \<Rightarrow> sparse_vectors \<Rightarrow> term_t \<Rightarrow> nat \<Rightarrow> 'w :: zero" where
  "row_weight dec v t i = (if i < num_vectors v
     then case map_of (typed_row dec (sv_rows v ! i)) t of None \<Rightarrow> 0 | Some w \<Rightarrow> w else 0)"

definition rows_distinct :: "sparse_vectors \<Rightarrow> bool" where
  "rows_distinct v \<longleftrightarrow> (\<forall>r \<in> set (sv_rows v). distinct (fst r))"

lemma length_decode_array [simp]: "length (decode_array dec k n bs) = n"
  by (induction n arbitrary: bs) auto

lemma decode_concat:
  "(\<And>c. c \<in> set cs \<Longrightarrow> length c = k) \<Longrightarrow> decode_array dec k (length cs) (concat cs) = map dec cs"
  by (induction cs) auto

lemma decode_array_code_at:
  "n * k \<le> length bs \<Longrightarrow> decode_array dec k n bs = map (\<lambda>j. dec (code_at k bs j)) [0..<n]"
proof (induction n arbitrary: bs)
  case (Suc n)
  have d: "code_at k (drop k bs) j = code_at k bs (Suc j)" for j
    by (simp add: code_at_def add.commute)
  have "[0..<Suc n] = 0 # map Suc [0..<n]" by (simp add: upt_conv_Cons map_Suc_upt del: upt_Suc)
  moreover have "n * k \<le> length (drop k bs)" using Suc.prems by simp
  ultimately show ?case using Suc.IH [of "drop k bs"] by (simp add: d o_def) (simp add: code_at_def)
qed simp

lemma code_at_slice:
  assumes "a + j < b" and "b * k \<le> length xs"
  shows "code_at k (slice (a * k) (b * k) xs) j = code_at k xs (a + j)"
proof -
  have le: "(a + j) * k + k \<le> b * k" using mult_le_mono1 [of "Suc (a + j)" b k] assms(1) by simp
  then have "k \<le> b * k - a * k - j * k" by (simp add: distrib_right)
  then show ?thesis by (simp add: code_at_def slice_def drop_take distrib_right min_absorb1 add.commute)
qed

lemma typed_row_eq:
  assumes wf: "sv_content_wf v" and es: "sv_element_size v = 4" and i: "i < num_vectors v"
  shows "typed_row dec (sv_rows v ! i) =
    map (\<lambda>j. (buf_elems (sv_indices v) ! j, dec (code_at 4 (buf_elems (sv_values v)) j)))
      [nat (buf_elems (sv_indptr v) ! i)..<nat (buf_elems (sv_indptr v) ! (i + 1))]"
proof -
  let ?ip = "buf_elems (sv_indptr v)" and ?ix = "buf_elems (sv_indices v)" and ?vs = "buf_elems (sv_values v)"
  have n: "0 < num_vectors v" using i by simp
  note w = sv_rows_wf [OF wf n]
  have i1: "i + 1 < length ?ip" using w(2) i by simp
  note b = csr_row_bounds [OF w(1) i1]
  define s where "s = nat (?ip ! i)"
  define e where "e = nat (?ip ! (i + 1))"
  have row: "sv_rows v ! i = (slice s e ?ix, slice (s * 4) (e * 4) ?vs)"
    using b(4) by (simp add: sv_rows_def s_def e_def es)
  have e: "e \<le> length ?ix" using b(3) by (simp add: e_def)
  have vs: "e * 4 \<le> length ?vs" using w(1) e by (simp add: csr_wf_def es)
  have "decode_array dec 4 (e - s) (slice (s * 4) (e * 4) ?vs) =
      map (\<lambda>j. dec (code_at 4 (slice (s * 4) (e * 4) ?vs) j)) [0..<e - s]"
    by (rule decode_array_code_at) (use vs in \<open>simp add: diff_mult_distrib\<close>)
  also have "\<dots> = map (\<lambda>j. dec (code_at 4 ?vs (s + j))) [0..<e - s]"
    using code_at_slice [of s _ e 4 ?vs] vs by (intro map_cong) auto
  finally have dec: "decode_array dec 4 (e - s) (slice (s * 4) (e * 4) ?vs) =
      map (\<lambda>j. dec (code_at 4 ?vs (s + j))) [0..<e - s]" .
  show ?thesis
    unfolding row s_def [symmetric] e_def [symmetric]
    by (rule nth_equalityI) (use e dec in \<open>auto simp: typed_row_def slice_nth\<close>)
qed

lemma filter_key_distinct:
  "distinct (map f xs) \<Longrightarrow> filter (\<lambda>j. f j = t) xs =
     (case map_of (map (\<lambda>j. (f j, j)) xs) t of None \<Rightarrow> [] | Some j \<Rightarrow> [j])"
proof (induction xs)
  case (Cons x xs)
  have "filter (\<lambda>j. f j = f x) xs = []" using Cons.prems by (auto simp: filter_empty_conv) (metis imageI)
  then show ?case using Cons by auto
qed simp

lemma map_of_map_key: "map_of (map (\<lambda>j. (f j, g j)) xs) t = map_option g (map_of (map (\<lambda>j. (f j, j)) xs) t)"
  by (induction xs) auto

lemma posting_scan:
  assumes "\<And>i. i < n \<Longrightarrow> distinct (map (\<lambda>j. ix ! j) [nat (ip ! i)..<nat (ip ! (i + 1))])"
  shows "sorted_wrt (<) (map fst (entries_of ix t (csr_entries ip n))) \<and>
    (\<forall>i \<in> set (map fst (entries_of ix t (csr_entries ip n))). i < n) \<and>
    (\<forall>i. map_of (entries_of ix t (csr_entries ip n)) i = (if i < n
       then map_of (map (\<lambda>j. (ix ! j, j)) [nat (ip ! i)..<nat (ip ! (i + 1))]) t else None))"
  using assms
proof (induction n)
  case 0
  then show ?case by (simp add: csr_entries_def entries_of_def)
next
  case (Suc n)
  let ?E = "entries_of ix t (csr_entries ip n)" and ?r = "[nat (ip ! n)..<nat (ip ! (n + 1))]"
  have IH: "sorted_wrt (<) (map fst ?E) \<and> (\<forall>i \<in> set (map fst ?E). i < n) \<and>
    (\<forall>i. map_of ?E i = (if i < n
       then map_of (map (\<lambda>j. (ix ! j, j)) [nat (ip ! i)..<nat (ip ! (i + 1))]) t else None))"
    by (rule Suc.IH) (use Suc.prems in simp)
  have "entries_of ix t (map (Pair n) ?r) = map (Pair n) (filter (\<lambda>j. ix ! j = t) ?r)"
    by (simp add: entries_of_def filter_map o_def)
  also have "\<dots> = (case map_of (map (\<lambda>j. (ix ! j, j)) ?r) t of None \<Rightarrow> [] | Some j \<Rightarrow> [(n, j)])"
    using filter_key_distinct [OF Suc.prems [OF lessI], of t] by (simp split: option.split)
  finally have E: "entries_of ix t (csr_entries ip (Suc n)) =
      ?E @ (case map_of (map (\<lambda>j. (ix ! j, j)) ?r) t of None \<Rightarrow> [] | Some j \<Rightarrow> [(n, j)])"
    by (simp add: csr_entries_Suc)
  have "map_of ?E n = None" using IH by simp
  then show ?case using IH unfolding E
    by (auto simp: sorted_wrt_append map_add_def less_Suc_eq split: option.splits)
qed

lemma map_of_int_keys:
  "map_of (map (\<lambda>(i, j). (int i, g j)) E) d = (if 0 \<le> d then map_option g (map_of E (nat d)) else None)"
  by (induction E) auto

lemma built_list_postings:
  fixes dec :: "byte list \<Rightarrow> 'w :: zero"
  assumes wf: "sv_content_wf v" and es: "sv_element_size v = 4" and dis: "rows_distinct v"
    and n: "num_vectors v < 2147483648"
    and P: "P = il_postings dec (built_list 4 v t)"
  shows "sorted_wrt (<) (fst P)" "length (snd P) = length (fst P)"
    "\<forall>d \<in> set (fst P). 0 \<le> d \<and> d < int (num_vectors v)"
    "(case map_of (zip (fst P) (snd P)) d of None \<Rightarrow> 0 | Some w \<Rightarrow> w) =
       (if 0 \<le> d then row_weight dec v t (nat d) else 0)"
proof -
  let ?ip = "buf_elems (sv_indptr v)" and ?ix = "buf_elems (sv_indices v)" and ?vs = "buf_elems (sv_values v)"
  define E where "E = posting_entries v t"
  have row: "distinct (map (\<lambda>j. ?ix ! j) [nat (?ip ! i)..<nat (?ip ! (i + 1))])" if "i < num_vectors v" for i
  proof -
    have "sv_rows v ! i \<in> set (sv_rows v)" using that num_vectors_rows [of v] by simp
    then have "distinct (fst (sv_rows v ! i))" using dis by (simp add: rows_distinct_def)
    then have "distinct (map fst (typed_row f32_of_bytes (sv_rows v ! i)))"
      by (simp add: typed_row_def)
    then show ?thesis by (simp add: typed_row_eq [OF wf es that] o_def)
  qed
  note scan = posting_scan [of "num_vectors v" ?ix ?ip t, OF row, folded posting_entries_def, folded E_def]
  have lenc: "length (code_at 4 ?vs j) = 4" if "(i, j) \<in> set E" for i j
  proof -
    have ij: "(i, j) \<in> set (csr_entries ?ip (num_vectors v))"
      using that by (auto simp: E_def posting_entries_def entries_of_def)
    from entries_in_range [OF wf ij] have "j < length ?ix" "0 < num_vectors v" by auto
    with sv_rows_wf(1) [OF wf] show ?thesis by (auto simp: csr_wf_def es intro: length_code_at)
  qed
  have ids: "fst P = map (\<lambda>(i, j). int i) E"
  proof -
    have "map (\<lambda>(i, j). i32 (int i)) E = map (\<lambda>(i, j). int i) E"
      using scan n by (force simp: is_i32_int)
    then show ?thesis
      by (simp add: P il_postings_def built_list_def E_def [symmetric] il_new_def)
  qed
  have vals: "snd P = map (\<lambda>(i, j). dec (code_at 4 ?vs j)) E"
  proof -
    have "decode_array dec 4 (length (map (\<lambda>(i, j). code_at 4 ?vs j) E))
        (concat (map (\<lambda>(i, j). code_at 4 ?vs j) E)) = map dec (map (\<lambda>(i, j). code_at 4 ?vs j) E)"
      by (rule decode_concat) (use lenc in auto)
    then show ?thesis
      by (simp add: P il_postings_def built_list_def E_def [symmetric] il_new_def il_size_def
          buf_size_def case_prod_beta o_def)
  qed
  show "sorted_wrt (<) (fst P)"
    using scan by (simp add: ids sorted_wrt_map case_prod_beta)
  show "length (snd P) = length (fst P)" by (simp add: ids vals)
  show "\<forall>d \<in> set (fst P). 0 \<le> d \<and> d < int (num_vectors v)"
    using scan by (auto simp: ids)
  have z: "zip (fst P) (snd P) = map (\<lambda>(i, j). (int i, dec (code_at 4 ?vs j))) E"
    by (simp add: ids vals zip_map_map zip_same_conv_map case_prod_beta)
  have e: "map_of E i = (if i < num_vectors v
       then map_of (map (\<lambda>j. (?ix ! j, j)) [nat (?ip ! i)..<nat (?ip ! (i + 1))]) t else None)" for i
    using scan by blast
  have "map_of (typed_row dec (sv_rows v ! i)) t = map_option (\<lambda>j. dec (code_at 4 ?vs j)) (map_of E i)"
    if "i < num_vectors v" for i
    unfolding e typed_row_eq [OF wf es that] using that
    by (subst map_of_map_key) simp
  then show "(case map_of (zip (fst P) (snd P)) d of None \<Rightarrow> 0 | Some w \<Rightarrow> w) =
       (if 0 \<le> d then row_weight dec v t (nat d) else 0)"
    unfolding z map_of_int_keys
    by (cases "nat d < num_vectors v") (auto simp: row_weight_def e split: option.splits)
qed

section \<open>Round trips\<close>

definition il_wire :: "size_t \<Rightarrow> inverted_list \<Rightarrow> bool" where
  "il_wire es l \<longleftrightarrow> il_element_size l = es \<and> es \<in> {1, 2, 4, 8} \<and>
     length (buf_elems (il_codes l)) = length (buf_elems (il_doc_ids l)) * es \<and>
     (\<forall>d \<in> set (buf_elems (il_doc_ids l)). is_i32 d) \<and>
     length (buf_elems (il_doc_ids l)) \<le> vector_max_size 4 \<and>
     length (buf_elems (il_codes l)) \<le> vector_max_size 1"

definition same_list :: "inverted_list \<Rightarrow> inverted_list \<Rightarrow> bool" where
  "same_list l l' \<longleftrightarrow> il_element_size l' = il_element_size l \<and>
     buf_elems (il_doc_ids l') = buf_elems (il_doc_ids l) \<and> buf_elems (il_codes l') = buf_elems (il_codes l)"

lemma il_serialize_eq: "il_serialize l = (\<lambda>w. bindE (write_size_t (il_size l) w) (\<lambda>w.
    bindE (write_padded idx_bytes 4 (buf_elems (il_doc_ids l)) w)
      (write_padded u8_bytes (il_element_size l) (buf_elems (il_codes l)))))"
  by (intro ext) (simp add: il_serialize_def)

lemma il_wireD:
  assumes "il_wire es l"
  shows "0 < es" "es \<le> kMaxAlignment" "es dvd 8" "il_size l < 256 ^ 8"
    "checked_mul (il_size l) es = Inr (length (buf_elems (il_codes l)))"
    "length (buf_elems (il_doc_ids l)) = il_size l"
proof -
  show "0 < es" "es \<le> kMaxAlignment" "es dvd 8" using assms by (auto simp: il_wire_def kMaxAlignment_def)
  have "il_size l \<le> 2305843009213693951" "length (buf_elems (il_codes l)) \<le> 9223372036854775807"
    using assms by (auto simp: il_wire_def vector_max_size_def il_size_def buf_size_def)
  then show "il_size l < 256 ^ 8" "checked_mul (il_size l) es = Inr (length (buf_elems (il_codes l)))"
    using assms by (auto simp: il_wire_def checked_mul_exact SIZE_MAX_def il_size_def buf_size_def)
  show "length (buf_elems (il_doc_ids l)) = il_size l" by (simp add: il_size_def buf_size_def)
qed

lemma il_round_trip:
  assumes "il_wire es l"
  shows "round_trips mk_reader (il_serialize l) (il_deserialize es) (same_list l)"
proof -
  note d = il_wireD [OF assms]
  have w: "\<forall>d \<in> set (buf_elems (il_doc_ids l)). is_i32 d" "il_size l \<le> vector_max_size 4"
    "length (buf_elems (il_codes l)) \<le> vector_max_size 1" "il_element_size l = es"
    using assms d(6) by (auto simp: il_wire_def)
  have codes_rt: "round_trips mk_reader (write_padded u8_bytes es (buf_elems (il_codes l)))
      (\<lambda>r. bindE (read_padded u8_of_bytes 1 es (length (buf_elems (il_codes l))) r)
        (\<lambda>(codes, r3). Inr (\<lparr>il_element_size = es, il_doc_ids = b, il_codes = codes\<rparr>, r3))) (same_list l)"
    if "buf_elems b = buf_elems (il_doc_ids l) \<and> growable b" for b
    by (rule round_trips_map [OF u8_codec.round_trips_read [OF d(1,2) _ w(3)]])
      (use that w(4) in \<open>auto simp: same_list_def\<close>)
  have "round_trips mk_reader (\<lambda>w. bindE (write_padded idx_bytes 4 (buf_elems (il_doc_ids l)) w)
        (write_padded u8_bytes es (buf_elems (il_codes l))))
      (\<lambda>r. bindE (read_padded int_of_bytes 4 4 (il_size l) r) (\<lambda>(b, r2).
        bindE (checked_mul (il_size l) es) (\<lambda>code_size.
        bindE (read_padded u8_of_bytes 1 es code_size r2)
        (\<lambda>(codes, r3). Inr (\<lparr>il_element_size = es, il_doc_ids = b, il_codes = codes\<rparr>, r3)))))
      (same_list l)"
    unfolding d(5) bindE.simps
    by (rule round_trips_bind [OF idx_codec.round_trips_read [OF _ _ w(1), of 4, unfolded d(6)] codes_rt])
      (use w(2) in \<open>simp_all add: kMaxAlignment_def\<close>)
  then show ?thesis
    unfolding il_serialize_eq il_deserialize_def w(4)
    by (intro round_trips_bind [OF round_trips_read_nat [OF d(4)]]) simp_all
qed

text \<open>Byte codes borrowed from a mapping, with the readers' alignment check.\<close>

lemma round_trips_map_codes:
  assumes "0 < es" and "es \<le> kMaxAlignment" and "es dvd base"
    and "\<And>b. buf_elems b = codes \<Longrightarrow> Q (f b)"
  shows "round_trips (mk_cursor base) (write_padded u8_bytes es codes)
    (\<lambda>c. bindE (map_padded u8_of_bytes 1 1 es (length codes) c) (\<lambda>((p, addr), c3).
       bindE (throw_if (c0 \<and> addr mod es \<noteq> 0) e) (\<lambda>_. Inr (f (buf_borrow p), c3)))) Q"
proof -
  have "round_trips (mk_cursor base) (\<lambda>w. bindE (write_padded u8_bytes es codes w) Inr)
    (\<lambda>c. bindE (map_padded u8_of_bytes 1 1 es (length codes) c) (\<lambda>((p, addr), c3).
       bindE (throw_if (c0 \<and> addr mod es \<noteq> 0) e) (\<lambda>_. Inr (f (buf_borrow p), c3)))) Q"
  proof (rule round_trips_bind [OF u8_codec.round_trips_mapped [OF assms(1,2) _ _ assms(3)]])
    fix x :: "byte list option \<times> nat"
    assume x: "case x of (p, addr) \<Rightarrow> p = (if codes = [] then None else Some codes) \<and> addr mod es = 0"
    obtain p addr where p: "x = (p, addr)" by (cases x)
    have q: "p = (if codes = [] then None else Some codes)" "addr mod es = 0" using x unfolding p by simp_all
    have c: "throw_if (c0 \<and> addr mod es \<noteq> 0) e = Inr ()" unfolding q(2) by simp
    show "round_trips (mk_cursor base) Inr (case x of (p, addr) \<Rightarrow> \<lambda>c3.
        bindE (throw_if (c0 \<and> addr mod es \<noteq> 0) e) (\<lambda>_. Inr (f (buf_borrow p), c3))) Q"
      unfolding p prod.case c bindE.simps
      by (rule round_trips_return, rule assms(4)) (use q(1) in auto)
  qed simp_all
  moreover have "(\<lambda>w. bindE (write_padded u8_bytes es codes w) Inr) = write_padded u8_bytes es codes"
    by (intro ext) (metis bindE.simps sum.exhaust)
  ultimately show ?thesis by simp
qed

lemma il_map_round_trip:
  assumes "il_wire es l" and "8 dvd base"
  shows "round_trips (mk_cursor base) (il_serialize l) (il_mmap_deserialize es) (same_list l)"
proof -
  note d = il_wireD [OF assms(1)]
  have w: "\<forall>d \<in> set (buf_elems (il_doc_ids l)). is_i32 d" "il_element_size l = es"
    using assms d(6) by (auto simp: il_wire_def)
  have bases: "es dvd base" "4 dvd base" using d(3) assms(2) by (auto intro: dvd_trans)
  have codes_rt: "round_trips (mk_cursor base) (write_padded u8_bytes es (buf_elems (il_codes l)))
      (\<lambda>c. bindE (map_padded u8_of_bytes 1 1 es (length (buf_elems (il_codes l))) c)
        (\<lambda>((codes, addr), c3). bindE (throw_if (il_size l > 0 \<and> addr mod es \<noteq> 0)
              (Runtime_error ''mmap: posting values are misaligned for the element size'')) (\<lambda>_.
          Inr (\<lparr>il_element_size = es, il_doc_ids = b, il_codes = buf_borrow codes\<rparr>, c3)))) (same_list l)"
    if b: "buf_elems b = buf_elems (il_doc_ids l) \<and> Q" for b Q
    by (rule round_trips_map_codes [OF d(1,2) bases(1)]) (use b w(2) in \<open>simp add: same_list_def\<close>)
  have "round_trips (mk_cursor base) (\<lambda>w. bindE (write_padded idx_bytes 4 (buf_elems (il_doc_ids l)) w)
        (write_padded u8_bytes es (buf_elems (il_codes l))))
      (\<lambda>r. bindE (borrow_padded int_of_bytes 4 4 4 (il_size l) r) (\<lambda>(b, c2).
        bindE (checked_mul (il_size l) es) (\<lambda>code_size.
        bindE (map_padded u8_of_bytes 1 1 es code_size c2)
        (\<lambda>((codes, addr), c3). bindE (throw_if (il_size l > 0 \<and> addr mod es \<noteq> 0)
              (Runtime_error ''mmap: posting values are misaligned for the element size'')) (\<lambda>_.
          Inr (\<lparr>il_element_size = es, il_doc_ids = b, il_codes = buf_borrow codes\<rparr>, c3)))))) (same_list l)"
    unfolding d(5) bindE.simps
    by (rule round_trips_bind [OF idx_codec.round_trips_borrow [OF _ _ w(1) _ bases(2), of 4, unfolded d(6)] codes_rt])
      (simp_all add: kMaxAlignment_def)
  then show ?thesis
    unfolding il_serialize_eq il_mmap_deserialize_def w(2)
    by (intro round_trips_bind [OF round_trips_map_nat [OF d(4)]]) simp_all
qed

text \<open>All lists of a file.\<close>

definition ail_wire :: "size_t \<Rightarrow> array_inverted_lists \<Rightarrow> bool" where
  "ail_wire es a \<longleftrightarrow> ail_n_term a = length (ail_lists a) \<and> ail_n_term a \<le> SIZE_MAX \<and>
     ail_element_size a = es \<and> es \<in> {1, 2, 4, 8} \<and> (\<forall>l \<in> set (ail_lists a). il_wire es l)"

definition same_lists :: "array_inverted_lists \<Rightarrow> array_inverted_lists \<Rightarrow> bool" where
  "same_lists a a' \<longleftrightarrow> ail_n_term a' = ail_n_term a \<and> ail_element_size a' = ail_element_size a \<and>
     list_all2 same_list (ail_lists a) (ail_lists a')"

lemma ail_serialize_eq: "ail_serialize a = (\<lambda>w. bindE (write_size_t (ail_n_term a) w) (\<lambda>w.
    bindE (write_size_t (ail_element_size a) w) (write_all il_serialize (ail_lists a))))"
  by (intro ext) (simp add: ail_serialize_def)

lemma ail_round_trip:
  assumes "ail_wire es a"
  shows "round_trips mk_reader (ail_serialize a) (\<lambda>r. ail_read (Some r) es) (same_lists a)"
proof -
  have w: "ail_n_term a = length (ail_lists a)" "ail_n_term a < 256 ^ 8" "es < 256 ^ 8"
    "ail_element_size a = es" "\<And>l. l \<in> set (ail_lists a) \<Longrightarrow> il_wire es l"
    using assms by (auto simp: ail_wire_def SIZE_MAX_def)
  have lists_rt: "round_trips mk_reader (write_all il_serialize (ail_lists a))
      (\<lambda>r. bindE (read_n (il_deserialize es) (ail_n_term a) r)
        (\<lambda>(ls, r3). Inr (ail_new (ail_n_term a) es\<lparr>ail_lists := ls\<rparr>, r3))) (same_lists a)"
    unfolding w(1)
    by (rule round_trips_map [OF round_trips_all [OF il_round_trip [OF w(5)]]])
      (use w(1,4) in \<open>auto simp: same_lists_def ail_new_def\<close>)
  then show ?thesis
    unfolding ail_serialize_eq ail_read_def throw_if_null_def option.case bindE.simps w(4)
    by (intro round_trips_bind [OF round_trips_read_nat] w(2,3))
      (auto simp: throw_if_foreign_element_size_def)
qed

text \<open>Each list takes at least its count, so the mapped reader's plausibility check passes.\<close>

lemma pad_to_length: "pad_to a w = Inr w' \<Longrightarrow> length w \<le> length w'"
  by (auto simp: pad_to_def err_simps buffered_write_def split: if_splits)

lemma write_padded_length: "write_padded enc a xs w = Inr w' \<Longrightarrow> length w \<le> length w'"
  by (auto simp: write_padded_def err_simps buffered_write_def dest!: pad_to_length split: if_splits)

lemma write_padded_appends: "write_padded enc a xs w = Inr w' \<Longrightarrow> \<exists>out. w' = w @ out"
  by (auto simp: write_padded_def pad_to_def err_simps buffered_write_def split: if_splits)

lemma il_serialize_appends: "il_serialize l w = Inr w' \<Longrightarrow> \<exists>out. w' = w @ out"
  by (auto simp: il_serialize_def write_nat_def err_simps buffered_write_def dest!: write_padded_appends)

lemma write_all_appends: "write_all il_serialize ls w = Inr w' \<Longrightarrow> \<exists>out. w' = w @ out"
proof (induction ls arbitrary: w)
  case (Cons l ls)
  then obtain w1 where "il_serialize l w = Inr w1" "write_all il_serialize ls w1 = Inr w'"
    by (auto simp: err_simps)
  with Cons.IH il_serialize_appends show ?case by fastforce
qed simp

lemma il_serialize_length: "il_serialize l w = Inr w' \<Longrightarrow> length w + 8 \<le> length w'"
  by (auto simp: il_serialize_def write_nat_def err_simps buffered_write_def dest!: write_padded_length)

lemma write_all_length: "write_all il_serialize ls w = Inr w' \<Longrightarrow> length w + 8 * length ls \<le> length w'"
proof (induction ls arbitrary: w)
  case (Cons l ls)
  then obtain w1 where "il_serialize l w = Inr w1" "write_all il_serialize ls w1 = Inr w'"
    by (auto simp: err_simps)
  with Cons.IH il_serialize_length show ?case by fastforce
qed simp

lemma ail_map_round_trip:
  assumes "ail_wire es a" and base: "8 dvd base"
  shows "round_trips (mk_cursor base) (ail_serialize a) (\<lambda>c. ail_map (Some c) es) (same_lists a)"
proof -
  have w: "ail_n_term a = length (ail_lists a)" "ail_n_term a < 256 ^ 8" "es < 256 ^ 8"
    "ail_element_size a = es" "\<And>l. l \<in> set (ail_lists a) \<Longrightarrow> il_wire es l"
    using assms by (auto simp: ail_wire_def SIZE_MAX_def)
  have lists_rt: "round_trips (mk_cursor base) (write_all il_serialize (ail_lists a))
      (read_n (il_mmap_deserialize es) (ail_n_term a)) (list_all2 same_list (ail_lists a))"
    unfolding w(1) by (rule round_trips_all [OF il_map_round_trip [OF w(5) base]])
  have "round_trips (mk_cursor base) (write_all il_serialize (ail_lists a))
      (\<lambda>c2. bindE (throw_if (ail_n_term a > cursor_remaining c2 div 8)
              (Runtime_error ''mmap: implausible term count in index file'')) (\<lambda>_.
        bindE (read_n (il_mmap_deserialize es) (ail_n_term a) c2)
        (\<lambda>(ls, c3). Inr (ail_new (ail_n_term a) es\<lparr>ail_lists := ls\<rparr>, c3)))) (same_lists a)"
  proof (rule round_tripsI)
    fix w0 rest :: "byte list"
    obtain out ls where o: "write_all il_serialize (ail_lists a) w0 = Inr (w0 @ out)"
      "list_all2 same_list (ail_lists a) ls"
      "read_n (il_mmap_deserialize es) (ail_n_term a) (mk_cursor base (w0 @ out @ rest) (length w0)) =
        Inr (ls, mk_cursor base (w0 @ out @ rest) (length w0 + length out))"
      using lists_rt unfolding round_trips_def by meson
    have "8 * ail_n_term a \<le> length out" using write_all_length [OF o(1)] w(1) by simp
    then have "\<not> ail_n_term a > cursor_remaining (mk_cursor base (w0 @ out @ rest) (length w0)) div 8"
      by (simp add: cursor_remaining_def mk_cursor_def not_less less_eq_div_iff_mult_less_eq)
    then show "\<exists>out y. write_all il_serialize (ail_lists a) w0 = Inr (w0 @ out) \<and> same_lists a y \<and>
      bindE (throw_if (ail_n_term a > cursor_remaining (mk_cursor base (w0 @ out @ rest) (length w0)) div 8)
              (Runtime_error ''mmap: implausible term count in index file'')) (\<lambda>_.
        bindE (read_n (il_mmap_deserialize es) (ail_n_term a) (mk_cursor base (w0 @ out @ rest) (length w0)))
        (\<lambda>(ls, c3). Inr (ail_new (ail_n_term a) es\<lparr>ail_lists := ls\<rparr>, c3))) =
      Inr (y, mk_cursor base (w0 @ out @ rest) (length w0 + length out))"
      using o w(4) by (intro exI [of _ out] exI [of _ "ail_new (ail_n_term a) es\<lparr>ail_lists := ls\<rparr>"])
        (simp add: same_lists_def ail_new_def)
  qed
  then show ?thesis
    unfolding ail_serialize_eq ail_map_def throw_if_null_def option.case bindE.simps w(4)
    by (intro round_trips_bind [OF round_trips_map_nat] w(2,3))
      (auto simp: throw_if_foreign_element_size_def)
qed

section \<open>Properties\<close>

text \<open>
  C23: \<open>build_inverted_lists\<close> groups a matrix's entries by term. With every term in range, list \<open>t\<close>
  holds, for 4-byte values and rows that repeat no term, exactly the documents with that term in
  strictly ascending order, each with the value its row stores; a term out of range anywhere is
  refused as a whole.
\<close>

theorem build_inverted_lists_correct:
  fixes dec :: "byte list \<Rightarrow> 'w :: zero"
  assumes "sv_content_wf v" and "sv_element_size v = 4" and "rows_distinct v"
    and "num_vectors v < 2147483648" and "length (buf_elems (sv_indices v)) * 4 \<le> SIZE_MAX"
    and "0 < num_vectors v"
  shows "if \<forall>t \<in> set (buf_elems (sv_indices v)). t < n_term
    then \<exists>a. build_inverted_lists n_term 4 (Some v) = Inr a \<and> length (ail_lists a) = n_term \<and>
      (\<forall>t < n_term. \<exists>ids vals. il_postings dec (ail_lists a ! t) = (ids, vals) \<and>
         sorted_wrt (<) ids \<and> length vals = length ids \<and> (\<forall>d \<in> set ids. 0 \<le> d \<and> d < int (num_vectors v)) \<and>
         (\<forall>i. (case map_of (zip ids vals) (int i) of None \<Rightarrow> 0 | Some w \<Rightarrow> w) = row_weight dec v t i))
    else build_inverted_lists n_term 4 (Some v) = Inl (Invalid_argument ''term_id out of range'')"
proof (cases "\<forall>t \<in> set (buf_elems (sv_indices v)). t < n_term")
  case True
  let ?a = "ail_new n_term 4\<lparr>ail_lists := map (built_list 4 v) [0..<n_term]\<rparr>"
  have "build_inverted_lists n_term 4 (Some v) = Inr ?a"
    by (rule build_inverted_lists_eq [OF assms(1,2) True assms(5)])
  moreover have "\<exists>ids vals. il_postings dec (ail_lists ?a ! t) = (ids, vals) \<and>
         sorted_wrt (<) ids \<and> length vals = length ids \<and> (\<forall>d \<in> set ids. 0 \<le> d \<and> d < int (num_vectors v)) \<and>
         (\<forall>i. (case map_of (zip ids vals) (int i) of None \<Rightarrow> 0 | Some w \<Rightarrow> w) = row_weight dec v t i)"
    if "t < n_term" for t
  proof (intro exI conjI allI)
    let ?P = "il_postings dec (built_list 4 v t)"
    note b = built_list_postings [OF assms(1-4) refl, of dec t]
    show "il_postings dec (ail_lists ?a ! t) = (fst ?P, snd ?P)" using that by simp
    show "sorted_wrt (<) (fst ?P)" "length (snd ?P) = length (fst ?P)"
      "\<forall>d \<in> set (fst ?P). 0 \<le> d \<and> d < int (num_vectors v)"
      by (rule b)+
    show "(case map_of (zip (fst ?P) (snd ?P)) (int i) of None \<Rightarrow> 0 | Some w \<Rightarrow> w) = row_weight dec v t i" for i
      using b(4) [of "int i"] by simp
  qed
  ultimately show ?thesis using True by (auto simp: ail_new_def)
next
  case False
  then obtain j where j: "j < length (buf_elems (sv_indices v))" "\<not> buf_elems (sv_indices v) ! j < n_term"
    by (auto simp: in_set_conv_nth)
  note w = sv_rows_wf [OF assms(1,6)]
  obtain i where "(i, j) \<in> set (csr_entries (buf_elems (sv_indptr v)) (num_vectors v))"
    using csr_entries_cover [OF w(1) _ j(1), of "num_vectors v"] assms(6)
    by (auto simp: num_vectors_def buf_size_def split: if_splits)
  from count_terms_rejects [OF this, where ix = "buf_elems (sv_indices v)" and n = n_term] j(2) False show ?thesis
    by (auto simp: build_inverted_lists_def throw_if_null_def Let_def not_less)
qed

theorem build_inverted_lists_correct_witness:
  "\<exists>a. build_inverted_lists 3 4 (Some \<lparr>sv_indptr = buf_own [0, 2, 3], sv_indices = buf_own [2, 0, 2],
      sv_values = buf_own (encode_array idx_bytes [5, 7, 9]), sv_element_size = 4, sv_dimension = 3\<rparr>) = Inr a \<and>
    length (ail_lists a) = 3"
proof -
  let ?v = "\<lparr>sv_indptr = buf_own [0, 2, 3], sv_indices = buf_own [2, 0, 2],
      sv_values = buf_own (encode_array idx_bytes [5, 7, 9]), sv_element_size = 4, sv_dimension = 3\<rparr>"
  have n: "num_vectors ?v = 2" by (simp add: num_vectors_def buf_empty_def buf_size_def)
  have len: "length (encode_array idx_bytes [5, 7, 9]) = 12" by (simp add: idx_codec.length_encode)
  have wf: "sv_content_wf ?v" by (simp add: sv_content_wf_def csr_wf_def len)
  have dis: "rows_distinct ?v"
    by (simp add: rows_distinct_def sv_rows_def csr_rows_def slice_def)
  have es: "sv_element_size ?v = 4" by simp
  have small: "num_vectors ?v < 2147483648" "length (buf_elems (sv_indices ?v)) * 4 \<le> SIZE_MAX" "0 < num_vectors ?v"
    unfolding n by (simp_all add: SIZE_MAX_def)
  have terms: "\<forall>t \<in> set (buf_elems (sv_indices ?v)). t < 3" by simp
  show ?thesis
    using build_inverted_lists_correct [OF wf es dis small, of 3 int_of_bytes] terms by auto
qed

text \<open>
  All posting lists written with \<open>serialize\<close> are read back by \<open>read\<close>, and by \<open>map\<close> from a
  mapping aligned to 8 bytes: the same number of terms, ids and value bytes, with both readers
  stopping exactly at the end; a file that declares another value width is refused.
\<close>

theorem inverted_lists_round_trip:
  assumes "ail_wire es a" and "8 dvd base"
  shows "round_trips mk_reader (ail_serialize a) (\<lambda>r. ail_read (Some r) es) (same_lists a) \<and>
    round_trips (mk_cursor base) (ail_serialize a) (\<lambda>c. ail_map (Some c) es) (same_lists a) \<and>
    (\<forall>es' w w'. es' \<noteq> es \<and> es' \<le> SIZE_MAX \<and> ail_serialize a [] = Inr w \<longrightarrow>
       ail_read (Some (reader_new w)) es' =
         Inl (Runtime_error ''stored posting element width is not the one this index reads''))"
proof -
  have es: "es < 256 ^ 8" "ail_n_term a < 256 ^ 8" "ail_element_size a = es"
    using assms(1) by (auto simp: ail_wire_def SIZE_MAX_def)
  have "ail_read (Some (reader_new w)) es' =
      Inl (Runtime_error ''stored posting element width is not the one this index reads'')"
    if ne: "es' \<noteq> es" and ser: "ail_serialize a [] = Inr w" for es' w
  proof -
    obtain tl where w: "write_all il_serialize (ail_lists a) (le_bytes 8 (ail_n_term a) @ le_bytes 8 es) = Inr w"
      using ser by (simp add: ail_serialize_def write_nat_def buffered_write_def es(3))
    then obtain rest where "w = (le_bytes 8 (ail_n_term a) @ le_bytes 8 es) @ rest"
      using write_all_appends by blast
    then show ?thesis
      using es ne
      by (simp add: ail_read_def throw_if_null_def read_nat_def buffered_read_def reader_new_def
          throw_if_foreign_element_size_def)
  qed
  then show ?thesis using ail_round_trip [OF assms(1)] ail_map_round_trip [OF assms] by blast
qed

theorem inverted_lists_round_trip_witness:
  "round_trips (mk_cursor 8) (ail_serialize (ail_new 2 1)) (\<lambda>c. ail_map (Some c) 1) (same_lists (ail_new 2 1))"
proof -
  have "ail_wire 1 (ail_new 2 1)"
    by (auto simp: ail_wire_def ail_new_def il_wire_def il_new_def vector_max_size_def SIZE_MAX_def)
  moreover have "(8 :: nat) dvd 8" by simp
  ultimately show ?thesis using inverted_lists_round_trip by blast
qed

text \<open>
  C24: \<open>prune_and_keep_doc_ids\<close> keeps every document when the limit is zero or not below the list's
  length, and otherwise exactly \<open>lambda\<close> of the list's (value, document) pairs, none of which has a
  smaller value than a dropped one.
\<close>

theorem prune_keeps_heaviest:
  fixes dec :: "byte list \<Rightarrow> 'w :: linorder"
  shows "if lambda = 0 \<or> il_size l \<le> lambda
    then prune_and_keep_doc_ids dec conv l lambda = buf_elems (il_doc_ids l)
    else \<exists>ws. length ws = lambda \<and> length (prune_and_keep_doc_ids dec conv l lambda) = lambda \<and>
      is_topk lambda fst (mset (create_value_doc_id_pair dec conv l (il_size l)))
        (mset (zip ws (prune_and_keep_doc_ids dec conv l lambda)))"
proof (cases "lambda = 0 \<or> il_size l \<le> lambda")
  case True
  then show ?thesis by (auto simp: prune_and_keep_doc_ids_def il_size_def buf_size_def)
next
  case False
  define ps where "ps = create_value_doc_id_pair dec conv l (il_size l)"
  define srt where "srt = sort_by (\<lambda>a b. fst b < fst a) ps"
  have kept: "prune_and_keep_doc_ids dec conv l lambda = map snd (take lambda srt)"
    using False by (auto simp: prune_and_keep_doc_ids_def Let_def srt_def ps_def)
  have len: "length srt = il_size l" by (simp add: srt_def ps_def create_value_doc_id_pair_def)
  have "sorted_wrt (\<lambda>a b. fst b \<le> fst a) srt"
    unfolding srt_def by (rule sorted_sort_by_desc) simp
  then have "is_topk lambda fst (mset srt) (mset (take lambda srt))" by (rule is_topk_take)
  moreover have "zip (map fst (take lambda srt)) (map snd (take lambda srt)) = take lambda srt"
    by (rule zip_map_fst_snd)
  moreover have "mset srt = mset ps" by (simp add: srt_def)
  moreover have "length (map fst (take lambda srt)) = lambda" "length (map snd (take lambda srt)) = lambda"
    using False len by simp_all
  ultimately have "\<exists>ws. length ws = lambda \<and> length (map snd (take lambda srt)) = lambda \<and>
      is_topk lambda fst (mset ps) (mset (zip ws (map snd (take lambda srt))))" by metis
  then show ?thesis using False by (simp add: kept ps_def)
qed

end
