(* ===== verification/Bitmap.thy ===== *)
theory Bitmap
  imports Prelude
begin

unbundle bit_operations_syntax

text \<open>
  The 4096-bit window bitmap of \<^verbatim>\<open>inverted_index.cpp\<close>: 64 words of 64 bits, a bit set with
  \<^verbatim>\<open>bitmap[slot >> 6] |= 1ULL << (slot & 63)\<close>, and the set bits walked with
  \<^verbatim>\<open>__builtin_ctzll\<close> and \<^verbatim>\<open>word &= word - 1\<close>.
\<close>

type_synonym word64 = "64 word"

fun ctz_from :: "nat \<Rightarrow> nat \<Rightarrow> word64 \<Rightarrow> nat" where
  "ctz_from 0 n w = n"
| "ctz_from (Suc fuel) n w = (if bit w n then n else ctz_from fuel (Suc n) w)"

definition ctzll :: "word64 \<Rightarrow> nat" where
  "ctzll w = ctz_from 64 0 w"

lemma ctz_from_spec:
  assumes "bit w i" and "n \<le> i" and "i < n + fuel"
  shows "n \<le> ctz_from fuel n w \<and> bit w (ctz_from fuel n w) \<and>
    (\<forall>j. n \<le> j \<and> j < ctz_from fuel n w \<longrightarrow> \<not> bit w j)"
  using assms(2,3)
proof (induction fuel arbitrary: n)
  case (Suc fuel)
  show ?case
  proof (cases "bit w n")
    case False
    then have "n \<noteq> i" using assms(1) by auto
    then have
      "Suc n \<le> ctz_from fuel (Suc n) w \<and> bit w (ctz_from fuel (Suc n) w) \<and>
       (\<forall>j. Suc n \<le> j \<and> j < ctz_from fuel (Suc n) w \<longrightarrow> \<not> bit w j)"
      using Suc.IH [of "Suc n"] Suc.prems by simp
    moreover have "n = j \<or> Suc n \<le> j" if "n \<le> j" for j using that by auto
    ultimately show ?thesis using False by auto
  qed auto
qed simp

lemma bit_word64_less: "bit (w :: word64) n \<Longrightarrow> n < 64"
  using bit_imp_le_length [of w n] by simp

lemma ctzll_spec:
  assumes "w \<noteq> 0"
  shows "bit w (ctzll w)" "\<And>j. j < ctzll w \<Longrightarrow> \<not> bit w j"
proof -
  obtain i where "bit w i" using assms by (auto simp: bit_eq_iff)
  then show "bit w (ctzll w)" "\<And>j. j < ctzll w \<Longrightarrow> \<not> bit w j"
    using ctz_from_spec [of w i 0 64] bit_word64_less [of w i] by (auto simp: ctzll_def)
qed

text \<open>\<^verbatim>\<open>word & (word - 1)\<close> clears the lowest set bit and nothing else.\<close>

lemma clear_lowest_bit:
  fixes w :: word64
  assumes "w \<noteq> 0"
  shows "bit (w AND (w - 1)) n \<longleftrightarrow> bit w n \<and> n \<noteq> ctzll w"
proof -
  define k where "k = ctzll w"
  define h where "h = push_bit (Suc k) (drop_bit (Suc k) w)"
  note c = ctzll_spec [OF assms, folded k_def]
  have k: "k < 64" using bit_word64_less [OF c(1)] .
  have hb: "bit h n \<longleftrightarrow> k < n \<and> bit w n" for n
    unfolding h_def using bit_word64_less [of w n]
    by (auto simp: bit_push_bit_iff bit_drop_bit_eq Suc_le_eq simp del: push_bit_Suc drop_bit_Suc)
  have eb: "bit (2 ^ k :: word64) n \<longleftrightarrow> n = k" for n using k by (auto simp: bit_exp_iff)
  have mb: "bit (mask k :: word64) n \<longleftrightarrow> n < k" for n using k by (auto simp: bit_mask_iff)
  have "w = h OR 2 ^ k"
    by (rule bit_word_eqI) (use c in \<open>auto simp: bit_or_iff hb eb dest: not_less_iff_gr_or_eq [THEN iffD1]\<close>)
  also have "\<dots> = h + 2 ^ k"
    by (rule disjunctive_add [symmetric]) (auto simp: hb eb)
  finally have "w - 1 = h + (2 ^ k - 1)" by (simp add: algebra_simps)
  also have "\<dots> = h + mask k" by (simp add: mask_eq_exp_minus_1)
  also have "\<dots> = h OR mask k"
    by (rule disjunctive_add) (auto simp: hb mb)
  finally show ?thesis
    using c by (cases n k rule: linorder_cases) (auto simp: bit_and_iff bit_or_iff hb mb k_def [symmetric])
qed

lemma clear_lowest_less:
  fixes w :: word64
  assumes "w \<noteq> 0"
  shows "unat (w AND (w - 1)) < unat w"
proof -
  have "w AND (w - 1) \<le> w" by (simp add: word_and_le2)
  moreover have "w AND (w - 1) \<noteq> w"
    using clear_lowest_bit [OF assms, of "ctzll w"] ctzll_spec(1) [OF assms] by auto
  ultimately have "w AND (w - 1) < w" by (rule order_le_neq_trans)
  then show ?thesis by (simp only: word_less_nat_alt)
qed

function drain_word :: "word64 \<Rightarrow> nat list" where
  "drain_word word =
     (if word = 0 then [] else ctzll word # drain_word (word AND (word - 1)))"
  by pat_completeness auto
termination
  by (relation "measure unat") (auto intro: clear_lowest_less)

declare drain_word.simps [simp del]

lemma filter_first:
  assumes "P k" and "\<And>j. j < k \<Longrightarrow> \<not> P j" and "k < n"
  shows "filter P [0..<n] = k # filter (\<lambda>j. P j \<and> j \<noteq> k) [0..<n]"
proof -
  have split: "[0..<n] = [0..<k] @ k # [Suc k..<n]"
    using assms(3) upt_add_eq_append [of 0 k "n - k"] by (simp add: upt_conv_Cons)
  have "filter P [0..<k] = []" "filter (\<lambda>j. P j \<and> j \<noteq> k) [0..<k] = []"
    using assms(2) by (auto simp: filter_empty_conv)
  moreover have "filter (\<lambda>j. P j \<and> j \<noteq> k) [Suc k..<n] = filter P [Suc k..<n]"
    by (rule filter_cong) auto
  ultimately show ?thesis using assms(1) unfolding split by simp
qed

lemma drain_word_bits: "drain_word w = filter (bit w) [0..<64]"
proof (induction w rule: drain_word.induct)
  case (1 w)
  show ?case
  proof (cases "w = 0")
    case False
    have "filter (bit w) [0..<64] = ctzll w # filter (\<lambda>j. bit w j \<and> j \<noteq> ctzll w) [0..<64]"
      by (rule filter_first)
        (use ctzll_spec [OF False] bit_word64_less in \<open>auto\<close>)
    also have "filter (\<lambda>j. bit w j \<and> j \<noteq> ctzll w) [0..<64] = drain_word (w AND (w - 1))"
      using "1.IH" [OF False] clear_lowest_bit [OF False] by simp
    finally show ?thesis using False by (subst drain_word.simps) simp
  qed (simp add: drain_word.simps)
qed

section \<open>The whole bitmap\<close>

definition bitmap_words :: nat where
  "bitmap_words = 64"

definition bitmap_zero :: "word64 list" where
  "bitmap_zero = replicate bitmap_words 0"

definition bitmap_set :: "word64 list \<Rightarrow> nat \<Rightarrow> word64 list" where
  "bitmap_set bitmap slot =
     (let word = drop_bit 6 slot
      in bitmap[word := bitmap ! word OR push_bit (slot AND 63) 1])"

definition bitmap_test :: "word64 list \<Rightarrow> nat \<Rightarrow> bool" where
  "bitmap_test bitmap slot \<longleftrightarrow> bit (bitmap ! (slot div 64)) (slot mod 64)"

text \<open>The slots in the order the evaluation visits them.\<close>

definition bitmap_slots :: "word64 list \<Rightarrow> nat list" where
  "bitmap_slots bitmap =
     concat (map (\<lambda>word_idx. map (\<lambda>b. push_bit 6 word_idx OR b) (drain_word (bitmap ! word_idx)))
       [0..<bitmap_words])"

lemma length_bitmap_set [simp]: "length (bitmap_set bitmap slot) = length bitmap"
  by (simp add: bitmap_set_def Let_def)

lemma nat_and_63: "(n :: nat) AND 63 = n mod 64"
proof -
  have "n AND mask 6 = take_bit 6 n" by (simp add: take_bit_eq_mask)
  then show ?thesis by (simp add: take_bit_eq_mod mask_eq_exp_minus_1)
qed

lemma bitmap_test_zero: "slot < 4096 \<Longrightarrow> \<not> bitmap_test bitmap_zero slot"
  by (auto simp: bitmap_test_def bitmap_zero_def bitmap_words_def)

lemma bitmap_test_set:
  assumes "length bitmap = bitmap_words" and "slot < 4096"
  shows "bitmap_test (bitmap_set bitmap slot) s \<longleftrightarrow>
    bitmap_test bitmap s \<or> s = slot"
proof -
  have w: "slot div 64 < length bitmap" using assms by (simp add: bitmap_words_def)
  have "s div 64 = slot div 64 \<and> s mod 64 = slot mod 64 \<longleftrightarrow> s = slot"
    by (metis div_mult_mod_eq)
  then show ?thesis
    using w by (cases "s div 64 = slot div 64")
      (auto simp: bitmap_test_def bitmap_set_def Let_def nat_and_63 drop_bit_eq_div
        nth_list_update bit_or_iff bit_push_bit_iff bit_exp_iff)
qed

lemma or_slot: "b < 64 \<Longrightarrow> push_bit 6 (w :: nat) OR b = 64 * w + b"
proof -
  assume b: "b < 64"
  then have "take_bit 6 b = b" by (simp add: take_bit_eq_mod)
  then have low: "bit b n \<Longrightarrow> n < 6" for n by (metis bit_take_bit_iff)
  have "push_bit 6 w OR b = push_bit 6 w + b"
    by (intro disjunctive_add [symmetric]) (auto simp: bit_push_bit_iff dest!: low)
  then show ?thesis by (simp add: push_bit_eq_mult)
qed

lemma upt_blocks: "[0..<64 * n] = concat (map (\<lambda>w. map (\<lambda>b. 64 * w + b) [0..<64]) [0..<n])"
proof (induction n)
  case (Suc n)
  have "[0..<64 * Suc n] = [0..<64 * n] @ [64 * n..<64 * n + 64]"
    by (metis add.commute mult_Suc_right upt_add_eq_append zero_le)
  also have "[64 * n..<64 * n + 64] = map (\<lambda>b. 64 * n + b) [0..<64]"
    by (simp add: map_add_upt [symmetric] add.commute)
  finally show ?case using Suc by simp
qed simp

text \<open>Exactly the set slots, in ascending order.\<close>

lemma bitmap_slots_eq:
  "bitmap_slots bitmap = filter (bitmap_test bitmap) [0..<4096]"
proof -
  have "bitmap_slots bitmap =
      concat (map (\<lambda>w. filter (bitmap_test bitmap) (map (\<lambda>b. 64 * w + b) [0..<64])) [0..<64])"
    unfolding bitmap_slots_def bitmap_words_def
    by (intro arg_cong [where f = concat] map_cong refl)
      (auto simp: drain_word_bits filter_map o_def bitmap_test_def or_slot intro!: map_cong filter_cong)
  also have "\<dots> = filter (bitmap_test bitmap) [0..<64 * 64]"
    unfolding upt_blocks filter_concat by (simp add: o_def)
  finally show ?thesis by simp
qed

end
