(* ===== verification/Max_Score.thy ===== *)
theory Max_Score
  imports Bitmap Ranker
begin


text \<open>
  The query path of \<^verbatim>\<open>inverted_index.cpp\<close>: \<open>DirectTermScorer\<close>, \<open>build_scorers\<close>,
  \<open>score_essential_terms\<close>, \<open>evaluate_window_candidates\<close> and \<open>InvertedIndex::single_query\<close>
  (MaxScore pruning over windows of 4096 documents). A posting list is a pair of document ids
  and values of equal length; an id selector is an optional predicate.

  The window loop may not end (a document id within one window of \<open>INT_MAX\<close> overflows
  \<open>window_end\<close>), so it is a \<open>partial_function (option)\<close>; that it returns is part of the
  theorems.
\<close>

section \<open>Constants and the scorer\<close>

definition kScoreWindowSize :: int where
  "kScoreWindowSize = 4096"

definition kNoMoreDocs :: idx_t where
  "kNoMoreDocs = 2147483647"

record 'w scorer =
  sc_doc_ids :: "idx_t list"
  sc_values :: "'w list"
  sc_list_size :: int
  sc_current :: int
  sc_query_weight :: 'w
  sc_max_score :: 'w

definition scorer_doc_id :: "('w, 'z) scorer_scheme \<Rightarrow> idx_t" where
  "scorer_doc_id s =
     (if sc_current s < 0 \<or> sc_current s \<ge> sc_list_size s then kNoMoreDocs
      else sc_doc_ids s ! nat (sc_current s))"

definition next_doc :: "'w scorer \<Rightarrow> 'w scorer \<times> idx_t" where
  "next_doc s =
     (let s' = s\<lparr>sc_current := sc_current s + 1\<rparr>
      in if sc_current s' \<ge> sc_list_size s' then (s', kNoMoreDocs)
         else (s', sc_doc_ids s' ! nat (sc_current s')))"

definition advance_to :: "'w scorer \<Rightarrow> idx_t \<Rightarrow> 'w scorer \<times> idx_t" where
  "advance_to s target_doc =
     (if sc_current s \<ge> sc_list_size s then (s, kNoMoreDocs)
      else if sc_current s \<ge> 0 \<and> sc_doc_ids s ! nat (sc_current s) \<ge> target_doc
      then (s, sc_doc_ids s ! nat (sc_current s))
      else let start = (if sc_current s < 0 then 0 else sc_current s + 1);
               it = lower_bound_from (sc_doc_ids s) target_doc (nat start)
                      (nat (sc_list_size s - start))
           in if int it = sc_list_size s
              then (s\<lparr>sc_current := sc_list_size s\<rparr>, kNoMoreDocs)
              else (s\<lparr>sc_current := int it\<rparr>, sc_doc_ids s ! it))"

definition scorer_value :: "'w scorer \<Rightarrow> 'w" where
  "scorer_value s = sc_values s ! nat (sc_current s)"

section \<open>build_scorers\<close>

type_synonym 'w posting_list = "idx_t list \<times> 'w list"

definition build_scorer ::
  "'w posting_list list \<Rightarrow> 'w list \<Rightarrow> term_t \<Rightarrow> 'w \<Rightarrow> 'w :: {zero, times} scorer" where
  "build_scorer posting_lists max_term_scores term_id v =
     (if term_id \<ge> length posting_lists
      then \<lparr>sc_doc_ids = [], sc_values = [], sc_list_size = 0, sc_current = 0,
            sc_query_weight = v, sc_max_score = 0\<rparr>
      else let (ids, vals) = posting_lists ! term_id
           in fst (next_doc
                \<lparr>sc_doc_ids = ids, sc_values = vals, sc_list_size = int (length ids),
                 sc_current = -1, sc_query_weight = v,
                 sc_max_score = v * max_term_scores ! term_id\<rparr>))"

fun prefix_sums :: "'w :: plus \<Rightarrow> 'w list \<Rightarrow> 'w list" where
  "prefix_sums acc [] = [acc]"
| "prefix_sums acc (x # xs) = acc # prefix_sums (acc + x) xs"

definition build_scorers ::
  "term_t list \<Rightarrow> 'w list \<Rightarrow> 'w posting_list list \<Rightarrow> 'w list \<Rightarrow>
     'w :: {zero, plus, times, ord} scorer list \<times> 'w list" where
  "build_scorers indices values posting_lists max_term_scores =
     (let scorers = sort_by (\<lambda>lhs rhs. sc_max_score lhs < sc_max_score rhs)
            (map (\<lambda>(t, v). build_scorer posting_lists max_term_scores t v) (zip indices values))
      in (scorers, prefix_sums 0 (map sc_max_score scorers)))"

section \<open>score_essential_terms\<close>

text \<open>The inner loop over one scorer's postings below the window's end.\<close>

function consume_window ::
  "int \<Rightarrow> int \<Rightarrow> 'w :: {plus, times} scorer \<Rightarrow> 'w list \<Rightarrow> word64 list \<Rightarrow>
     'w scorer \<times> 'w list \<times> word64 list" where
  "consume_window window_base window_end scorer window_scores bitmap =
     (if \<not> sc_current scorer < sc_list_size scorer then (scorer, window_scores, bitmap)
      else let doc = sc_doc_ids scorer ! nat (sc_current scorer);
               next_scorer = scorer\<lparr>sc_current := sc_current scorer + 1\<rparr>
           in if doc \<ge> window_end then (scorer, window_scores, bitmap)
              else if doc < window_base
              then consume_window window_base window_end next_scorer window_scores bitmap
              else let slot = nat (doc - window_base)
                   in consume_window window_base window_end next_scorer
                        (window_scores[slot := window_scores ! slot
                           + sc_query_weight scorer * sc_values scorer ! nat (sc_current scorer)])
                        (bitmap_set bitmap slot))"
  by pat_completeness auto
termination
  by (relation "measure (\<lambda>(b, e, s, w, m). nat (sc_list_size s - sc_current s))") auto

declare consume_window.simps [simp del]

fun score_scorers ::
  "int \<Rightarrow> int \<Rightarrow> 'w :: {plus, times} scorer list \<Rightarrow> 'w list \<Rightarrow> word64 list \<Rightarrow>
     'w scorer list \<times> 'w list \<times> word64 list" where
  "score_scorers window_base window_end [] window_scores bitmap = ([], window_scores, bitmap)"
| "score_scorers window_base window_end (s # ss) window_scores bitmap =
     (let (s', window_scores', bitmap') = consume_window window_base window_end s window_scores bitmap;
          (ss', window_scores'', bitmap'') = score_scorers window_base window_end ss window_scores' bitmap'
      in (s' # ss', window_scores'', bitmap''))"

definition score_essential_terms ::
  "'w :: {plus, times} scorer list \<Rightarrow> nat \<Rightarrow> int \<Rightarrow> int \<Rightarrow> 'w list \<Rightarrow> word64 list \<Rightarrow>
     'w scorer list \<times> 'w list \<times> word64 list" where
  "score_essential_terms scorers first_essential window_base window_end window_scores bitmap =
     (let (es, window_scores', bitmap') =
            score_scorers window_base window_end (drop first_essential scorers) window_scores bitmap
      in (take first_essential scorers @ es, window_scores', bitmap'))"

section \<open>evaluate_window_candidates\<close>

text \<open>The loop \<^verbatim>\<open>for (int j = first_essential - 1; j >= 0; --j)\<close>.\<close>

fun refine_score ::
  "idx_t \<Rightarrow> 'w list \<Rightarrow> 'w \<Rightarrow> nat \<Rightarrow> 'w :: {plus, times, ord} scorer list \<Rightarrow> 'w \<Rightarrow>
     'w scorer list \<times> 'w" where
  "refine_score doc max_score_prefix threshold 0 scorers total_score = (scorers, total_score)"
| "refine_score doc max_score_prefix threshold (Suc j) scorers total_score =
     (let s = fst (advance_to (scorers ! j) doc);
          scorers' = scorers[j := s];
          total' = (if scorer_doc_id s = doc
                    then total_score + sc_query_weight s * scorer_value s else total_score)
      in if total' + max_score_prefix ! j \<le> threshold then (scorers', total')
         else refine_score doc max_score_prefix threshold j scorers' total')"

text \<open>The loop's state: the scorers, the window buffer, the heap and the threshold.\<close>

record 'w eval_state =
  ev_scorers :: "'w scorer list"
  ev_window_scores :: "'w list"
  ev_heap :: "('w, idx_t) topk_holder"
  ev_threshold :: 'w

definition evaluate_slot ::
  "nat \<Rightarrow> int \<Rightarrow> 'w list \<Rightarrow> (idx_t \<Rightarrow> bool) option \<Rightarrow>
     'w :: {zero, plus, times, ord} eval_state \<Rightarrow> nat \<Rightarrow> 'w eval_state" where
  "evaluate_slot first_essential window_base max_score_prefix id_selector st slot =
     (let essential_score = ev_window_scores st ! slot;
          st' = st\<lparr>ev_window_scores := (ev_window_scores st)[slot := 0]\<rparr>;
          doc = window_base + int slot
      in if essential_score + max_score_prefix ! first_essential \<le> ev_threshold st then st'
         else if (case id_selector of None \<Rightarrow> False | Some is_member \<Rightarrow> \<not> is_member doc) then st'
         else let (scorers', total_score) =
                    refine_score doc max_score_prefix (ev_threshold st) first_essential
                      (ev_scorers st) essential_score;
                  heap' = topk_add (ev_heap st) total_score doc
              in st'\<lparr>ev_scorers := scorers', ev_heap := heap',
                    ev_threshold := (if topk_full heap' then topk_peek_score heap'
                                     else ev_threshold st)\<rparr>)"

definition evaluate_window_candidates ::
  "'w :: {zero, plus, times, ord} scorer list \<Rightarrow> nat \<Rightarrow> int \<Rightarrow> 'w list \<Rightarrow> 'w list \<Rightarrow>
     word64 list \<Rightarrow> (idx_t \<Rightarrow> bool) option \<Rightarrow> ('w, idx_t) topk_holder \<Rightarrow> 'w eval_state" where
  "evaluate_window_candidates scorers first_essential window_base max_score_prefix window_scores
     bitmap id_selector heap =
     foldl (evaluate_slot first_essential window_base max_score_prefix id_selector)
       \<lparr>ev_scorers = scorers, ev_window_scores = window_scores, ev_heap = heap,
        ev_threshold = (if topk_full heap then topk_peek_score heap else 0)\<rparr>
       (bitmap_slots bitmap)"

section \<open>single_query\<close>

definition find_first_essential :: "'w :: ord list \<Rightarrow> 'w \<Rightarrow> nat" where
  "find_first_essential max_score_prefix threshold =
     length (takeWhile (\<lambda>p. p < threshold) (tl max_score_prefix))"

definition min_essential_doc :: "'w scorer list \<Rightarrow> nat \<Rightarrow> idx_t" where
  "min_essential_doc scorers first_essential =
     foldl (\<lambda>m s. if scorer_doc_id s < m then scorer_doc_id s else m) kNoMoreDocs
       (drop first_essential scorers)"

text \<open>\<^verbatim>\<open>/\<close> truncates towards zero; the window's end is computed in \<^verbatim>\<open>int\<close>.\<close>

definition window_base_of :: "idx_t \<Rightarrow> int" where
  "window_base_of doc = (if 0 \<le> doc then doc div kScoreWindowSize * kScoreWindowSize
                         else - ((- doc) div kScoreWindowSize) * kScoreWindowSize)"

record 'w query_state =
  qs_scorers :: "'w scorer list"
  qs_first_essential :: nat
  qs_window_scores :: "'w list"
  qs_heap :: "('w, idx_t) topk_holder"

partial_function (option) window_loop ::
  "'w list \<Rightarrow> (idx_t \<Rightarrow> bool) option \<Rightarrow> 'w :: {zero, plus, times, ord} query_state \<Rightarrow>
     'w query_state option" where
  "window_loop max_score_prefix id_selector st =
     (let first_essential = (if topk_full (qs_heap st)
            then find_first_essential max_score_prefix (topk_peek_score (qs_heap st))
            else qs_first_essential st);
          min_doc_id = min_essential_doc (qs_scorers st) first_essential
      in if min_doc_id = kNoMoreDocs then Some (st\<lparr>qs_first_essential := first_essential\<rparr>)
         else let window_base = window_base_of min_doc_id;
                  window_end = i32 (window_base + kScoreWindowSize);
                  (scorers, window_scores, bitmap) =
                    score_essential_terms (qs_scorers st) first_essential window_base window_end
                      (qs_window_scores st) bitmap_zero;
                  ev = evaluate_window_candidates scorers first_essential window_base
                         max_score_prefix window_scores bitmap id_selector (qs_heap st)
              in window_loop max_score_prefix id_selector
                   \<lparr>qs_scorers = ev_scorers ev, qs_first_essential = first_essential,
                    qs_window_scores = ev_window_scores ev, qs_heap = ev_heap ev\<rparr>)"

text \<open>
  The buffer \<open>window_scores\<close> is thread-local and outlives the query, so it goes in and comes
  out. The result is scores and ids, padded to \<open>k\<close> with \<open>-1\<close> and \<open>INVALID_IDX\<close>.
\<close>

definition single_query ::
  "'w :: {zero, one, uminus, plus, times, ord} posting_list list \<Rightarrow> 'w list \<Rightarrow> 'w list \<Rightarrow>
     term_t list \<Rightarrow> 'w list \<Rightarrow> int \<Rightarrow> (idx_t \<Rightarrow> bool) option \<Rightarrow>
     (exn + ('w list \<times> idx_t list) \<times> 'w list) option" where
  "single_query posting_lists max_term_scores window_scores indices values k id_selector =
     (if indices = [] \<and> k < 0 then
        Some (Inl (Length_error ''cannot create std::vector larger than max_size()''))
      else if indices = [] then
        Some (Inr ((replicate (nat k) (- 1), replicate (nat k) INVALID_IDX), window_scores))
      else case topk_new k of
        Inl e \<Rightarrow> Some (Inl e)
      | Inr heap \<Rightarrow>
          let (scorers, max_score_prefix) = build_scorers indices values posting_lists max_term_scores
          in case window_loop max_score_prefix id_selector
                 \<lparr>qs_scorers = scorers, qs_first_essential = 0,
                  qs_window_scores = window_scores, qs_heap = heap\<rparr> of
               None \<Rightarrow> None
             | Some st \<Rightarrow>
                 let (result_scores, ids) = topk_items_descending (qs_heap st)
                 in Some (Inr ((resize (nat k) (- 1) result_scores,
                                resize (nat k) INVALID_IDX ids), qs_window_scores st)))"

end
