(* ===== verification/Max_Score_Correct.thy ===== *)
theory Max_Score_Correct
  imports Max_Score
begin

text \<open>
  MaxScore is exact: the window loop of \<^verbatim>\<open>InvertedIndex::single_query\<close> returns, and what it
  returns is a selection of the \<open>k\<close> best of all selected documents of positive score, although
  it skips documents and stops summing by upper bounds. The weights are taken from a linearly
  ordered commutative ring, where sums do not round.
\<close>

section \<open>What a scorer contributes\<close>

definition scorer_at_start :: "'w scorer \<Rightarrow> 'w scorer" where
  "scorer_at_start s = s\<lparr>sc_current := 0\<rparr>"

lemma scorer_at_start_sel [simp]:
  "sc_doc_ids (scorer_at_start s) = sc_doc_ids s" "sc_values (scorer_at_start s) = sc_values s"
  "sc_list_size (scorer_at_start s) = sc_list_size s"
  "sc_query_weight (scorer_at_start s) = sc_query_weight s"
  "sc_max_score (scorer_at_start s) = sc_max_score s" "sc_current (scorer_at_start s) = 0"
  "scorer_at_start (s\<lparr>sc_current := c\<rparr>) = scorer_at_start s"
  by (simp_all add: scorer_at_start_def)

lemma scorer_at_start_eqD:
  assumes "scorer_at_start s = scorer_at_start t"
  shows "sc_doc_ids s = sc_doc_ids t" "sc_values s = sc_values t"
    "sc_list_size s = sc_list_size t" "sc_query_weight s = sc_query_weight t"
    "sc_max_score s = sc_max_score t"
  using arg_cong [OF assms, of sc_doc_ids] arg_cong [OF assms, of sc_values]
    arg_cong [OF assms, of sc_list_size] arg_cong [OF assms, of sc_query_weight]
    arg_cong [OF assms, of sc_max_score] by simp_all

definition contrib :: "'w :: {zero, times} scorer \<Rightarrow> idx_t \<Rightarrow> 'w" where
  "contrib s d = (case map_of (zip (sc_doc_ids s) (sc_values s)) d of
     None \<Rightarrow> 0 | Some v \<Rightarrow> sc_query_weight s * v)"

definition scorer_wf :: "'w :: {ord, zero, times} scorer \<Rightarrow> bool" where
  "scorer_wf s \<longleftrightarrow> sorted_wrt (<) (sc_doc_ids s) \<and> length (sc_values s) = length (sc_doc_ids s) \<and>
     sc_list_size s = int (length (sc_doc_ids s)) \<and>
     (\<forall>d \<in> set (sc_doc_ids s). 0 \<le> d \<and> d < 2147479552) \<and>
     0 \<le> sc_max_score s \<and> (\<forall>d. contrib s d \<le> sc_max_score s)"

lemma contrib_start [simp]: "contrib (scorer_at_start s) d = contrib s d"
  by (simp add: contrib_def split: option.split)

lemma scorer_wf_start [simp]: "scorer_wf (scorer_at_start s) = scorer_wf s"
  by (simp add: scorer_wf_def)

lemma contrib_eqI: "scorer_at_start s = scorer_at_start t \<Longrightarrow> contrib s = contrib t"
  by (intro ext) (metis contrib_start)

lemma scorer_wf_eqI: "scorer_at_start s = scorer_at_start t \<Longrightarrow> scorer_wf s = scorer_wf t"
  by (metis scorer_wf_start)

lemma contrib_nth:
  "scorer_wf s \<Longrightarrow> i < length (sc_doc_ids s) \<Longrightarrow>
     contrib s (sc_doc_ids s ! i) = sc_query_weight s * sc_values s ! i"
  by (simp add: contrib_def scorer_wf_def strict_sorted_iff map_of_zip_nth)

lemma contrib_out: "scorer_wf s \<Longrightarrow> d \<notin> set (sc_doc_ids s) \<Longrightarrow> contrib s d = 0"
proof -
  assume wf: "scorer_wf s" and out: "d \<notin> set (sc_doc_ids s)"
  then have "map_of (zip (sc_doc_ids s) (sc_values s)) d = None"
    by (simp add: map_of_zip_is_None scorer_wf_def)
  then show ?thesis by (simp add: contrib_def)
qed

section \<open>Cursor positions\<close>

text \<open>The cursor stands at the first posting not below the frontier, or somewhere before it.\<close>

definition cursor_at :: "idx_t \<Rightarrow> 'w scorer \<Rightarrow> bool" where
  "cursor_at f s \<longleftrightarrow> 0 \<le> sc_current s \<and> sc_current s \<le> sc_list_size s \<and>
     (\<forall>i < nat (sc_current s). sc_doc_ids s ! i < f) \<and>
     (\<forall>d \<in> set (drop (nat (sc_current s)) (sc_doc_ids s)). f \<le> d)"

definition cursor_before :: "idx_t \<Rightarrow> 'w scorer \<Rightarrow> bool" where
  "cursor_before f s \<longleftrightarrow> 0 \<le> sc_current s \<and> sc_current s \<le> sc_list_size s \<and>
     (\<forall>i < nat (sc_current s). sc_doc_ids s ! i < f)"

lemma cursor_at_before: "cursor_at f s \<Longrightarrow> cursor_before f s"
  by (simp add: cursor_at_def cursor_before_def)

lemma cursor_before_mono: "cursor_before f s \<Longrightarrow> f \<le> g \<Longrightarrow> cursor_before g s"
  by (force simp: cursor_before_def)

lemma in_drop_cursor:
  assumes "scorer_wf s" and "cursor_before d s"
  shows "d \<in> set (drop (nat (sc_current s)) (sc_doc_ids s)) \<longleftrightarrow> d \<in> set (sc_doc_ids s)"
proof
  assume "d \<in> set (sc_doc_ids s)"
  then obtain i where i: "i < length (sc_doc_ids s)" "sc_doc_ids s ! i = d"
    by (auto simp: in_set_conv_nth)
  then have "nat (sc_current s) \<le> i"
    using assms(2) by (intro leI notI) (auto simp: cursor_before_def)
  then show "d \<in> set (drop (nat (sc_current s)) (sc_doc_ids s))"
    using i by (force simp: in_set_conv_nth intro!: exI [of _ "i - nat (sc_current s)"])
qed (auto dest: in_set_dropD)

lemma cursor_at_doc_id:
  assumes "scorer_wf s" and "cursor_at d s" and "d < kNoMoreDocs"
  shows "scorer_doc_id s = d \<longleftrightarrow> d \<in> set (sc_doc_ids s)"
    "scorer_doc_id s = d \<Longrightarrow> sc_query_weight s * scorer_value s = contrib s d"
proof -
  let ?c = "nat (sc_current s)"
  have c: "0 \<le> sc_current s" "?c \<le> length (sc_doc_ids s)"
    using assms(1,2) by (auto simp: cursor_at_def scorer_wf_def)
  have ls: "sc_list_size s = int (length (sc_doc_ids s))" using assms(1) by (simp add: scorer_wf_def)
  have mem: "d \<in> set (drop ?c (sc_doc_ids s)) \<longleftrightarrow> d \<in> set (sc_doc_ids s)"
    by (rule in_drop_cursor [OF assms(1) cursor_at_before [OF assms(2)]])
  have "sorted (sc_doc_ids s)" using assms(1) by (simp add: scorer_wf_def strict_sorted_iff)
  then have srt: "sorted (drop ?c (sc_doc_ids s))" by (rule sorted_wrt_drop)
  have ge: "\<And>x. x \<in> set (drop ?c (sc_doc_ids s)) \<Longrightarrow> d \<le> x"
    using assms(2) by (simp add: cursor_at_def)
  have hd: "scorer_doc_id s = (if ?c < length (sc_doc_ids s) then sc_doc_ids s ! ?c else kNoMoreDocs)"
    using c ls by (auto simp: scorer_doc_id_def)
  show "scorer_doc_id s = d \<longleftrightarrow> d \<in> set (sc_doc_ids s)"
  proof (cases "?c < length (sc_doc_ids s)")
    case True
    then have dr: "drop ?c (sc_doc_ids s) = sc_doc_ids s ! ?c # drop (Suc ?c) (sc_doc_ids s)"
      by (rule Cons_nth_drop_Suc [symmetric])
    show ?thesis using True hd mem ge srt unfolding dr by force
  next
    case False
    then show ?thesis using hd mem assms(3) by simp
  qed
  assume "scorer_doc_id s = d"
  then have "?c < length (sc_doc_ids s)" "sc_doc_ids s ! ?c = d"
    using hd assms(3) by (auto split: if_splits)
  then show "sc_query_weight s * scorer_value s = contrib s d"
    using contrib_nth [OF assms(1), of ?c] by (simp add: scorer_value_def)
qed

lemma cursor_at_next:
  assumes "scorer_wf s" and "cursor_at f s"
  shows "d \<in> set (sc_doc_ids s) \<Longrightarrow> f \<le> d \<Longrightarrow> scorer_doc_id s \<le> d" "scorer_doc_id s \<noteq> kNoMoreDocs \<Longrightarrow> f \<le> scorer_doc_id s"
    "scorer_doc_id s \<noteq> kNoMoreDocs \<Longrightarrow> scorer_doc_id s \<in> set (sc_doc_ids s)"
proof -
  let ?c = "nat (sc_current s)"
  have c: "0 \<le> sc_current s" "?c \<le> length (sc_doc_ids s)"
    and ls: "sc_list_size s = int (length (sc_doc_ids s))"
    using assms(1,2) by (auto simp: cursor_at_def scorer_wf_def)
  have hd: "scorer_doc_id s = (if ?c < length (sc_doc_ids s) then sc_doc_ids s ! ?c else kNoMoreDocs)"
    using c ls by (auto simp: scorer_doc_id_def)
  have srt: "sorted (sc_doc_ids s)" using assms(1) by (simp add: scorer_wf_def strict_sorted_iff)
  show "scorer_doc_id s \<le> d" if d: "d \<in> set (sc_doc_ids s)" "f \<le> d"
  proof -
    obtain i where i: "i < length (sc_doc_ids s)" "sc_doc_ids s ! i = d"
      using d(1) by (auto simp: in_set_conv_nth)
    then have "?c \<le> i" using assms(2) d(2) by (intro leI notI) (auto simp: cursor_at_def)
    then show ?thesis using i hd sorted_nth_mono [OF srt, of ?c i] by auto
  qed
  show "f \<le> scorer_doc_id s" if "scorer_doc_id s \<noteq> kNoMoreDocs"
  proof (cases "?c < length (sc_doc_ids s)")
    case True
    then have "sc_doc_ids s ! ?c \<in> set (drop ?c (sc_doc_ids s))"
      by (metis Cons_nth_drop_Suc list.set_intros(1))
    then show ?thesis using assms(2) True hd by (simp add: cursor_at_def)
  qed (use hd that in auto)
  show "scorer_doc_id s \<noteq> kNoMoreDocs \<Longrightarrow> scorer_doc_id s \<in> set (sc_doc_ids s)"
    using hd by (auto split: if_splits)
qed

section \<open>advance_to\<close>

lemma cursor_atI:
  assumes "scorer_wf s" and "0 \<le> c" and "nat c \<le> length (sc_doc_ids s)"
    and "\<And>i. i < nat c \<Longrightarrow> sc_doc_ids s ! i < d"
    and "\<And>i. nat c \<le> i \<Longrightarrow> i < length (sc_doc_ids s) \<Longrightarrow> d \<le> sc_doc_ids s ! i"
  shows "cursor_at d (s\<lparr>sc_current := c\<rparr>)"
proof -
  have "d \<le> x" if "x \<in> set (drop (nat c) (sc_doc_ids s))" for x
    using that assms(5) by (auto simp: in_set_conv_nth)
  then show ?thesis using assms(1-4) by (auto simp: cursor_at_def scorer_wf_def)
qed

lemma advance_to_cursor_at:
  assumes wf: "scorer_wf s" and before: "cursor_before d s"
  shows "scorer_at_start (fst (advance_to s d)) = scorer_at_start s"
    "cursor_at d (fst (advance_to s d))"
proof -
  let ?ids = "sc_doc_ids s" and ?c = "sc_current s"
  have c: "0 \<le> ?c" "?c \<le> sc_list_size s" "sc_list_size s = int (length ?ids)"
    and lt: "\<And>i. i < nat ?c \<Longrightarrow> ?ids ! i < d"
    using wf before by (auto simp: scorer_wf_def cursor_before_def)
  have srt: "sorted ?ids" using wf by (simp add: scorer_wf_def strict_sorted_iff)
  have goal: "scorer_at_start (fst (advance_to s d)) = scorer_at_start s \<and>
    cursor_at d (fst (advance_to s d))"
  proof (cases "?c \<ge> sc_list_size s")
    case True
    then have "cursor_at d (s\<lparr>sc_current := ?c\<rparr>)"
      by (intro cursor_atI [OF wf]) (use c lt in auto)
    then show ?thesis using True by (simp add: advance_to_def)
  next
    case room: False
    show ?thesis
    proof (cases "?ids ! nat ?c \<ge> d")
      case True
      then have "cursor_at d (s\<lparr>sc_current := ?c\<rparr>)"
        by (intro cursor_atI [OF wf])
          (use c lt in \<open>auto intro: order_trans sorted_nth_mono [OF srt]\<close>)
      then show ?thesis using room True c by (simp add: advance_to_def)
    next
      case False
      define it where "it = lower_bound_from ?ids d (nat (?c + 1)) (nat (sc_list_size s - (?c + 1)))"
      have "?ids ! j < d" if "j < nat (?c + 1)" for j
        using that lt [of j] False c by (cases "j = nat ?c") auto
      moreover have "nat (?c + 1) + nat (sc_list_size s - (?c + 1)) = length ?ids"
        using room c by simp
      ultimately have spec: "it \<le> length ?ids" "\<forall>j < it. ?ids ! j < d"
        "\<forall>j. it \<le> j \<and> j < length ?ids \<longrightarrow> d \<le> ?ids ! j"
        using lower_bound_from_spec [OF srt, of "nat (?c + 1)" "nat (sc_list_size s - (?c + 1))" d]
        unfolding it_def [symmetric] by (metis order_refl not_le)+
      have "cursor_at d (s\<lparr>sc_current := int it\<rparr>)"
        by (rule cursor_atI [OF wf]) (use spec in auto)
      moreover have "fst (advance_to s d) = s\<lparr>sc_current := int it\<rparr>"
        using room False c by (auto simp: advance_to_def it_def Let_def)
      ultimately show ?thesis by simp
    qed
  qed
  then show "scorer_at_start (fst (advance_to s d)) = scorer_at_start s"
    "cursor_at d (fst (advance_to s d))" by simp_all
qed

section \<open>score_essential_terms\<close>

text \<open>
  What scoring a window adds: \<open>win\<close> relates the buffer and bitmap before and after, for the
  postings \<open>p\<close> that were consumed and what each slot gains.
\<close>

definition window_gain ::
  "(nat \<Rightarrow> 'w :: plus) \<Rightarrow> (nat \<Rightarrow> bool) \<Rightarrow> 'w list \<Rightarrow> word64 list \<Rightarrow> 'w list \<Rightarrow> word64 list \<Rightarrow> bool" where
  "window_gain g p ws bm ws' bm' \<longleftrightarrow> length ws' = 4096 \<and> length bm' = bitmap_words \<and>
     (\<forall>slot < 4096. ws' ! slot = ws ! slot + g slot \<and>
        (bitmap_test bm' slot \<longleftrightarrow> bitmap_test bm slot \<or> p slot))"

lemma consume_window_spec:
  fixes s :: "'w :: linordered_idom scorer"
  assumes "scorer_wf s" and "0 \<le> sc_current s" and "sc_current s \<le> sc_list_size s"
    and "\<And>d. d \<in> set (drop (nat (sc_current s)) (sc_doc_ids s)) \<Longrightarrow> b \<le> d"
    and "\<And>i. i < nat (sc_current s) \<Longrightarrow> sc_doc_ids s ! i < b + 4096"
    and "length ws = 4096" and "length bm = bitmap_words"
    and "consume_window b (b + 4096) s ws bm = (s', ws', bm')"
  shows "scorer_at_start s' = scorer_at_start s \<and> cursor_at (b + 4096) s' \<and>
    window_gain (\<lambda>slot. if b + int slot \<in> set (drop (nat (sc_current s)) (sc_doc_ids s))
        then contrib s (b + int slot) else 0)
      (\<lambda>slot. b + int slot \<in> set (drop (nat (sc_current s)) (sc_doc_ids s))) ws bm ws' bm'"
  using assms
proof (induction b "b + 4096" s ws bm rule: consume_window.induct)
  case (1 b s ws bm)
  let ?c = "sc_current s" and ?ids = "sc_doc_ids s"
  note wf = "1.prems"(1)
  have ls: "sc_list_size s = int (length ?ids)" and srt: "sorted ?ids" and dis: "distinct ?ids"
    using wf by (auto simp: scorer_wf_def strict_sorted_iff)
  show ?case
  proof (cases "?c < sc_list_size s")
    case False
    then have e: "s' = s" "ws' = ws" "bm' = bm"
      using "1.prems"(8) by (simp_all add: consume_window.simps [of _ _ s])
    have "drop (nat ?c) ?ids = []" using False ls by simp
    then show ?thesis using "1.prems" by (simp add: e cursor_at_def window_gain_def)
  next
    case more: True
    let ?d = "?ids ! nat ?c" and ?n = "s\<lparr>sc_current := ?c + 1\<rparr>"
    have nc: "nat ?c < length ?ids" using more ls "1.prems"(2) by simp
    then have dr: "drop (nat ?c) ?ids = ?d # drop (Suc (nat ?c)) ?ids"
      by (rule Cons_nth_drop_Suc [symmetric])
    have Sc: "nat (?c + 1) = Suc (nat ?c)" using "1.prems"(2) by simp
    have db: "b \<le> ?d" using "1.prems"(4) dr by simp
    show ?thesis
    proof (cases "?d \<ge> b + 4096")
      case True
      then have e: "s' = s" "ws' = ws" "bm' = bm"
        using "1.prems"(8) more by (simp_all add: consume_window.simps [of _ _ s] Let_def)
      have "b + 4096 \<le> x" if "x \<in> set (drop (nat ?c) ?ids)" for x
        using that True sorted_nth_mono [OF srt, of "nat ?c"] unfolding in_set_conv_nth
        by (metis add_leD1 le_add1 length_drop less_diff_conv nth_drop order_trans add.commute nc less_imp_le_nat)
      then show ?thesis
        using "1.prems"(1-7) by (force simp: e cursor_at_def window_gain_def)
    next
      case False
      define slot where "slot = nat (?d - b)"
      have slot: "slot < 4096" "b + int slot = ?d" using False db by (auto simp: slot_def)
      let ?ws = "ws[slot := ws ! slot + sc_query_weight s * sc_values s ! nat ?c]"
      have run: "consume_window b (b + 4096) ?n ?ws (bitmap_set bm slot) = (s', ws', bm')"
        using "1.prems"(8) more False db
        by (simp add: consume_window.simps [of _ _ s] Let_def slot_def)
      have wfn: "scorer_wf ?n" using wf by (metis scorer_wf_eqI scorer_at_start_sel(7))
      have con: "contrib ?n = contrib s" by (rule contrib_eqI) simp
      have below: "sc_doc_ids ?n ! i < b + 4096" if "i < nat (sc_current ?n)" for i
        using that False "1.prems"(5) by (cases "i = nat ?c") (auto simp: Sc less_Suc_eq)
      have IH: "scorer_at_start s' = scorer_at_start ?n \<and> cursor_at (b + 4096) s' \<and>
        window_gain (\<lambda>slot. if b + int slot \<in> set (drop (Suc (nat ?c)) ?ids)
            then contrib s (b + int slot) else 0)
          (\<lambda>slot. b + int slot \<in> set (drop (Suc (nat ?c)) ?ids)) ?ws (bitmap_set bm slot) ws' bm'"
        using "1.hyps"(2) [OF _ refl refl _ _ slot_def wfn _ _ _ below _ _ run]
          more False db "1.prems"(2,3,4,6,7) dr
        by (simp add: Sc con cong: if_cong)
      have "?d \<notin> set (drop (Suc (nat ?c)) ?ids)"
        using dis dr by (metis distinct.simps(2) distinct_drop)
      moreover have "sc_query_weight s * sc_values s ! nat ?c = contrib s ?d"
        using contrib_nth [OF wf nc] by simp
      ultimately show ?thesis
        using IH slot "1.prems"(6,7)
        by (auto simp: window_gain_def dr bitmap_test_set nth_list_update)
    qed
  qed
qed

lemma cursor_at_drop:
  assumes "scorer_wf s" and "cursor_at b s" and "b \<le> d"
  shows "d \<in> set (drop (nat (sc_current s)) (sc_doc_ids s)) \<longleftrightarrow> d \<in> set (sc_doc_ids s)"
  using assms by (intro in_drop_cursor) (auto intro: cursor_before_mono cursor_at_before)

lemma consume_window_at:
  fixes s :: "'w :: linordered_idom scorer"
  assumes "scorer_wf s" and "cursor_at b s" and "length ws = 4096" and "length bm = bitmap_words"
    and "consume_window b (b + 4096) s ws bm = (s', ws', bm')"
  shows "scorer_at_start s' = scorer_at_start s \<and> cursor_at (b + 4096) s' \<and>
    window_gain (\<lambda>slot. contrib s (b + int slot)) (\<lambda>slot. b + int slot \<in> set (sc_doc_ids s))
      ws bm ws' bm'"
proof -
  have "sc_doc_ids s ! i < b + 4096" if "i < nat (sc_current s)" for i
    using assms(2) that by (force simp: cursor_at_def)
  note spec = consume_window_spec [OF assms(1) _ _ _ this assms(3-5)]
  have "scorer_at_start s' = scorer_at_start s \<and> cursor_at (b + 4096) s' \<and>
    window_gain (\<lambda>slot. if b + int slot \<in> set (drop (nat (sc_current s)) (sc_doc_ids s))
        then contrib s (b + int slot) else 0)
      (\<lambda>slot. b + int slot \<in> set (drop (nat (sc_current s)) (sc_doc_ids s))) ws bm ws' bm'"
    by (rule spec) (use assms(2) in \<open>simp_all add: cursor_at_def\<close>)
  moreover have "b + int slot \<in> set (drop (nat (sc_current s)) (sc_doc_ids s)) \<longleftrightarrow>
    b + int slot \<in> set (sc_doc_ids s)" for slot
    by (rule cursor_at_drop [OF assms(1,2)]) simp
  moreover have "(if b + int slot \<in> set (sc_doc_ids s) then contrib s (b + int slot) else 0) =
    contrib s (b + int slot)" for slot
    using contrib_out [OF assms(1)] by simp
  ultimately show ?thesis by (simp only: simp_thms)
qed

lemma score_scorers_spec:
  fixes ss :: "'w :: linordered_idom scorer list"
  assumes "\<And>s. s \<in> set ss \<Longrightarrow> scorer_wf s \<and> cursor_at b s"
    and "length ws = 4096" and "length bm = bitmap_words"
    and "score_scorers b (b + 4096) ss ws bm = (ss', ws', bm')"
  shows "map scorer_at_start ss' = map scorer_at_start ss \<and>
    (\<forall>s \<in> set ss'. cursor_at (b + 4096) s) \<and>
    window_gain (\<lambda>slot. \<Sum>s\<leftarrow>ss. contrib s (b + int slot))
      (\<lambda>slot. \<exists>s \<in> set ss. b + int slot \<in> set (sc_doc_ids s)) ws bm ws' bm'"
  using assms
proof (induction ss arbitrary: ws bm ss' ws' bm')
  case Nil
  then show ?case by (simp add: window_gain_def)
next
  case (Cons s ss)
  obtain s1 ws1 bm1 where one: "consume_window b (b + 4096) s ws bm = (s1, ws1, bm1)"
    by (cases "consume_window b (b + 4096) s ws bm")
  obtain ss2 ws2 bm2 where rest: "score_scorers b (b + 4096) ss ws1 bm1 = (ss2, ws2, bm2)"
    by (cases "score_scorers b (b + 4096) ss ws1 bm1")
  have e: "ss' = s1 # ss2" "ws' = ws2" "bm' = bm2" using Cons.prems(4) one rest by auto
  have "scorer_wf s" "cursor_at b s" using Cons.prems(1) by simp_all
  note 1 = consume_window_at [OF this Cons.prems(2,3) one]
  then have "length ws1 = 4096" "length bm1 = bitmap_words" by (simp_all add: window_gain_def)
  note 2 = Cons.IH [OF Cons.prems(1) this rest]
  have "map scorer_at_start ss' = map scorer_at_start (s # ss)" using 1 2 by (simp add: e)
  moreover have "\<forall>s \<in> set ss'. cursor_at (b + 4096) s" using 1 2 by (simp add: e)
  moreover have "window_gain (\<lambda>slot. \<Sum>s\<leftarrow>s # ss. contrib s (b + int slot))
      (\<lambda>slot. \<exists>s \<in> set (s # ss). b + int slot \<in> set (sc_doc_ids s)) ws bm ws' bm'"
    using 1 2 by (auto simp: e window_gain_def)
  ultimately show ?case by simp
qed

section \<open>Upper bounds\<close>

definition max_sum :: "'w :: linordered_idom scorer list \<Rightarrow> nat \<Rightarrow> 'w" where
  "max_sum ss j = (\<Sum>s\<leftarrow>take j ss. sc_max_score s)"

definition contrib_sum :: "'w :: linordered_idom scorer list \<Rightarrow> idx_t \<Rightarrow> 'w" where
  "contrib_sum ss d = (\<Sum>s\<leftarrow>ss. contrib s d)"

lemma length_prefix_sums [simp]: "length (prefix_sums a xs) = Suc (length xs)"
  by (induction xs arbitrary: a) auto

lemma prefix_sums_nth:
  "j \<le> length xs \<Longrightarrow> prefix_sums a xs ! j = (a :: 'w :: linordered_idom) + sum_list (take j xs)"
proof (induction xs arbitrary: a j)
  case (Cons x xs)
  then show ?case by (cases j) auto
qed simp

lemma prefix_sums_max:
  "j \<le> length ss \<Longrightarrow> prefix_sums 0 (map sc_max_score ss) ! j = max_sum ss j"
  by (simp add: prefix_sums_nth max_sum_def take_map)

lemma max_sum_0 [simp]: "max_sum ss 0 = 0"
  by (simp add: max_sum_def)

lemma max_sum_Suc: "j < length ss \<Longrightarrow> max_sum ss (Suc j) = max_sum ss j + sc_max_score (ss ! j)"
  by (simp add: max_sum_def take_Suc_conv_app_nth)

lemma max_sum_nonneg: "(\<And>s. s \<in> set ss \<Longrightarrow> scorer_wf s) \<Longrightarrow> 0 \<le> max_sum ss j"
  unfolding max_sum_def by (rule sum_list_nonneg) (auto simp: scorer_wf_def dest: in_set_takeD)

lemma max_sum_mono:
  assumes "\<And>s. s \<in> set ss \<Longrightarrow> scorer_wf s" and "i \<le> j"
  shows "max_sum ss i \<le> max_sum ss j"
proof -
  have "take j ss = take i ss @ drop i (take j ss)" using assms(2) by (metis append_take_drop_id min.absorb1 take_take)
  then have "max_sum ss j = max_sum ss i + (\<Sum>s\<leftarrow>drop i (take j ss). sc_max_score s)"
    by (metis max_sum_def map_append sum_list_append)
  moreover have "0 \<le> (\<Sum>s\<leftarrow>drop i (take j ss). sc_max_score s)"
    by (rule sum_list_nonneg) (use assms(1) in \<open>auto simp: scorer_wf_def dest!: in_set_dropD in_set_takeD\<close>)
  ultimately show ?thesis by simp
qed

lemma contrib_sum_take_le:
  assumes "\<And>s. s \<in> set ss \<Longrightarrow> scorer_wf s"
  shows "contrib_sum (take j ss) d \<le> max_sum ss j"
  unfolding contrib_sum_def max_sum_def
  by (rule sum_list_mono) (use assms in \<open>auto simp: scorer_wf_def dest: in_set_takeD\<close>)

lemma contrib_sum_split: "contrib_sum ss d = contrib_sum (take j ss) d + contrib_sum (drop j ss) d"
  by (metis append_take_drop_id contrib_sum_def map_append sum_list_append)

lemma contrib_sum_eqI:
  "map scorer_at_start ss = map scorer_at_start ts \<Longrightarrow> contrib_sum ss d = contrib_sum ts d"
proof -
  assume "map scorer_at_start ss = map scorer_at_start ts"
  then have "map (\<lambda>s. contrib s d) (map scorer_at_start ss) = map (\<lambda>s. contrib s d) (map scorer_at_start ts)"
    by simp
  then show ?thesis by (simp add: contrib_sum_def o_def)
qed

lemma max_sum_eqI:
  "map scorer_at_start ss = map scorer_at_start ts \<Longrightarrow> max_sum ss = max_sum ts"
proof
  fix j
  assume "map scorer_at_start ss = map scorer_at_start ts"
  then have "map sc_max_score (map scorer_at_start (take j ss)) = map sc_max_score (map scorer_at_start (take j ts))"
    by (metis take_map)
  then show "max_sum ss j = max_sum ts j" by (simp add: max_sum_def o_def)
qed

lemma scorers_wf_eqI:
  "map scorer_at_start ss = map scorer_at_start ts \<Longrightarrow>
     (\<forall>s \<in> set ss. scorer_wf s) = (\<forall>s \<in> set ts. scorer_wf s)"
proof -
  assume "map scorer_at_start ss = map scorer_at_start ts"
  then have "scorer_at_start ` set ss = scorer_at_start ` set ts" by (metis set_map)
  then have "(\<forall>s \<in> scorer_at_start ` set ss. scorer_wf s) = (\<forall>s \<in> scorer_at_start ` set ts. scorer_wf s)"
    by simp
  then show ?thesis by simp
qed

section \<open>refine_score\<close>

lemma refine_score_spec:
  fixes ss :: "'w :: linordered_idom scorer list"
  assumes "j \<le> length ss" and "\<And>s. s \<in> set ss \<Longrightarrow> scorer_wf s"
    and "\<And>i. i < j \<Longrightarrow> cursor_before d (ss ! i)" and "d < kNoMoreDocs"
    and "\<And>i. i \<le> j \<Longrightarrow> pfx ! i = max_sum ss i"
    and "refine_score d pfx thr j ss acc = (ss', acc')"
  shows "map scorer_at_start ss' = map scorer_at_start ss \<and> (\<forall>i \<ge> j. ss' ! i = ss ! i) \<and>
    (\<forall>i < j. cursor_before (d + 1) (ss' ! i)) \<and>
    (acc' = acc + contrib_sum (take j ss) d \<or>
     acc' \<le> thr \<and> acc + contrib_sum (take j ss) d \<le> thr \<and> 0 < j)"
  using assms
proof (induction j arbitrary: ss acc)
  case 0
  then show ?case by (simp add: contrib_sum_def)
next
  case (Suc j)
  let ?s = "fst (advance_to (ss ! j) d)"
  have j: "j < length ss" "ss ! j \<in> set ss" using Suc.prems(1) by simp_all
  have wfj: "scorer_wf (ss ! j)" using Suc.prems(2) j by blast
  note adv = advance_to_cursor_at [OF wfj Suc.prems(3) [OF lessI]]
  have wfs: "scorer_wf ?s" using wfj scorer_wf_eqI [OF adv(1)] by simp
  have con: "contrib ?s = contrib (ss ! j)" by (rule contrib_eqI [OF adv(1)])
  note doc = cursor_at_doc_id [OF wfs adv(2) Suc.prems(4)]
  let ?ss = "ss[j := ?s]"
  define t1 where "t1 = (if scorer_doc_id ?s = d then acc + sc_query_weight ?s * scorer_value ?s else acc)"
  have t1: "t1 = acc + contrib (ss ! j) d"
    using doc contrib_out [OF wfs, of d] by (auto simp: t1_def con)
  have st: "map scorer_at_start ?ss = map scorer_at_start ss"
    using j adv(1) by (simp add: map_update list_update_same_conv)
  have eq: "t1 + contrib_sum (take j ss) d = acc + contrib_sum (take (Suc j) ss) d"
    using j by (simp add: t1 contrib_sum_def take_Suc_conv_app_nth)
  have pre: "0 \<le> pfx ! j" "contrib_sum (take j ss) d \<le> pfx ! j"
    using Suc.prems(2) Suc.prems(5) [of j] by (simp_all add: max_sum_nonneg contrib_sum_take_le)
  have before: "cursor_before (d + 1) (?ss ! i)" if "i < Suc j" for i
    using that j adv(2) cursor_before_mono [OF Suc.prems(3) [OF that], of "d + 1"]
    by (cases "i = j") (auto intro: cursor_before_mono cursor_at_before)
  show ?case
  proof (cases "t1 + pfx ! j \<le> thr")
    case True
    then have e: "ss' = ?ss" "acc' = t1"
      using Suc.prems(6) by (simp_all add: Let_def t1_def [symmetric])
    have "acc' \<le> thr" "acc + contrib_sum (take (Suc j) ss) d \<le> thr"
      using True pre eq by (simp_all add: e)
    then show ?thesis using st before by (auto simp: e)
  next
    case False
    then have run: "refine_score d pfx thr j ?ss t1 = (ss', acc')"
      using Suc.prems(6) by (simp add: Let_def t1_def [symmetric])
    have wf': "scorer_wf s" if "s \<in> set ?ss" for s
      using that scorers_wf_eqI [OF st] Suc.prems(2) by blast
    have "cursor_before d (?ss ! i)" if "i < j" for i
      using that Suc.prems(3) [of i] by simp
    note IH = Suc.IH [OF _ wf' this Suc.prems(4) _ run]
    have "map scorer_at_start ss' = map scorer_at_start ?ss \<and> (\<forall>i \<ge> j. ss' ! i = ?ss ! i) \<and>
      (\<forall>i < j. cursor_before (d + 1) (ss' ! i)) \<and>
      (acc' = t1 + contrib_sum (take j ?ss) d \<or>
       acc' \<le> thr \<and> t1 + contrib_sum (take j ?ss) d \<le> thr \<and> 0 < j)"
      by (rule IH) (use j Suc.prems(5) max_sum_eqI [OF st] in auto)
    moreover have "take j ?ss = take j ss" by simp
    moreover have "cursor_before (d + 1) (ss' ! i)" if "i < Suc j" for i
      using calculation(1) before [of i] that by (cases "i = j") auto
    ultimately show ?thesis using st eq by (auto simp: nth_list_update)
  qed
qed

section \<open>The heap as documents are passed\<close>

lemma topk_full_iff: "topk_inv k M h \<Longrightarrow> topk_full h \<longleftrightarrow> length (tk_pq h) = k"
  by (simp add: topk_full_def topk_inv_def)

lemma topk_peek_least:
  assumes "topk_inv k M h" and "x \<in># mset (tk_pq h)"
  shows "topk_peek_score h \<le> score x"
  using assms heap.top_least [of score "tk_pq h" x] by (simp add: topk_inv_def topk_peek_score_def)

lemma topk_peek_in:
  assumes "topk_inv k M h" and "topk_full h"
  shows "pq_top (tk_pq h) \<in># mset (tk_pq h)" "mset (tk_pq h) \<subseteq># M"
proof -
  have "tk_pq h \<noteq> []" using assms by (auto simp: topk_full_def topk_inv_def)
  then show "pq_top (tk_pq h) \<in># mset (tk_pq h)"
    using assms(1) pq_top_in by (auto simp: topk_inv_def)
  show "mset (tk_pq h) \<subseteq># M" using assms(1) by (simp add: topk_inv_def is_topk_def)
qed

lemma topk_inv_reject:
  assumes inv: "topk_inv k M h" and full: "topk_full h" and "score x \<le> topk_peek_score h"
  shows "topk_inv k (add_mset x M) h"
proof -
  have "is_topk k score (add_mset x M) (mset (tk_pq h))"
  proof (rule is_topk_reject)
    show "is_topk k score M (mset (tk_pq h))" using inv by (simp add: topk_inv_def)
    show "size (mset (tk_pq h)) = k" using full topk_full_iff [OF inv] by simp
    show "score x \<le> score y" if "y \<in># mset (tk_pq h)" for y
      using topk_peek_least [OF inv that] assms(3) by simp
  qed
  then show ?thesis using inv by (simp add: topk_inv_def)
qed

lemma topk_add_reject:
  assumes inv: "topk_inv k M h" and full: "topk_full h" and "s \<le> topk_peek_score h"
  shows "topk_add h s i = h"
  using assms topk_full_iff [OF inv]
  by (simp add: topk_add_def topk_inv_def within_threshold_def topk_peek_score_def)

text \<open>The least kept score never falls as more is added.\<close>

lemma topk_peek_mono:
  assumes inv: "topk_inv k M h" and inv': "topk_inv k M' h'" and sub: "M \<subseteq># M'"
    and full: "topk_full h"
  shows "topk_full h' \<and> topk_peek_score h \<le> topk_peek_score h'"
proof -
  let ?S = "mset (tk_pq h)" and ?S' = "mset (tk_pq h')"
  have sz: "size ?S = k" using full topk_full_iff [OF inv] by simp
  have "k \<le> size M" using topk_inv_size [OF inv] sz by simp
  then have sz': "size ?S' = k" using topk_inv_size [OF inv'] size_mset_mono [OF sub] by simp
  then have full': "topk_full h'" using topk_full_iff [OF inv'] by simp
  note top' = topk_peek_in [OF inv' full']
  have "topk_peek_score h \<le> topk_peek_score h'"
  proof (rule ccontr)
    assume "\<not> ?thesis"
    then have lt: "score (pq_top (tk_pq h')) < topk_peek_score h" by (simp add: topk_peek_score_def)
    have "count ?S x \<le> count ?S' x" for x
    proof (cases "x \<in># ?S")
      case True
      have "score (pq_top (tk_pq h')) < score x"
        using lt topk_peek_least [OF inv True] by simp
      then have "x \<notin># M' - ?S'"
        using inv' top'(1) unfolding topk_inv_def is_topk_def by (metis leD)
      then have "count M' x \<le> count ?S' x" by (simp add: in_diff_count)
      moreover have "?S \<subseteq># M'"
        using sub topk_peek_in(2) [OF inv full] by (rule subset_mset.order_trans [rotated])
      ultimately show ?thesis by (meson le_trans mset_subset_eq_count)
    next
      case False
      then have "count ?S x = 0" by (rule not_in_iff [THEN iffD1])
      show ?thesis unfolding \<open>count ?S x = 0\<close> by simp
    qed
    then have "?S \<subseteq># ?S'" by (simp add: subseteq_mset_def)
    then have "?S = ?S'" using sz sz' by (metis mset_subset_size nat_less_le subset_mset.le_less)
    then show False using topk_peek_least [OF inv, of "pq_top (tk_pq h')"] top'(1) lt by simp
  qed
  with full' show ?thesis by simp
qed

definition selected :: "(idx_t \<Rightarrow> bool) option \<Rightarrow> idx_t \<Rightarrow> bool" where
  "selected id_selector d \<longleftrightarrow> (case id_selector of None \<Rightarrow> True | Some is_member \<Rightarrow> is_member d)"

text \<open>The candidates below a frontier: selected documents of positive score.\<close>

definition candidate_ids :: "(idx_t \<Rightarrow> 'w :: {ord, zero}) \<Rightarrow> (idx_t \<Rightarrow> bool) option \<Rightarrow> idx_t \<Rightarrow> idx_t set" where
  "candidate_ids sc id_selector f = {d \<in> {0..<f}. selected id_selector d \<and> 0 < sc d}"

definition candidates ::
  "(idx_t \<Rightarrow> 'w :: {ord, zero}) \<Rightarrow> (idx_t \<Rightarrow> bool) option \<Rightarrow> idx_t \<Rightarrow> ('w, idx_t) topk_item multiset" where
  "candidates sc id_selector f =
     image_mset (\<lambda>d. TopKItem (sc d) d) (mset_set (candidate_ids sc id_selector f))"

lemma finite_candidate_ids [simp]: "finite (candidate_ids sc sel f)"
  by (rule finite_subset [of _ "{0..<f}"]) (auto simp: candidate_ids_def)

lemma candidates_step:
  assumes "0 \<le> d"
  shows "candidates sc sel (d + 1) =
    (if selected sel d \<and> 0 < sc d then add_mset (TopKItem (sc d) d) (candidates sc sel d)
     else candidates sc sel d)"
proof -
  have "candidate_ids sc sel (d + 1) =
    (if selected sel d \<and> 0 < sc d then insert d (candidate_ids sc sel d)
     else candidate_ids sc sel d)"
    using assms by (auto simp: less_le candidate_ids_def)
  moreover have "d \<notin> candidate_ids sc sel d" by (simp add: candidate_ids_def)
  ultimately show ?thesis by (simp add: candidates_def)
qed

lemma candidates_mono: "f \<le> g \<Longrightarrow> candidates sc sel f \<subseteq># candidates sc sel g"
  unfolding candidates_def
  by (intro image_mset_subseteq_mono subset_imp_msubset_mset_set finite_candidate_ids)
    (auto simp: candidate_ids_def)

lemma candidates_0 [simp]: "candidates sc sel 0 = {#}"
  by (simp add: candidates_def candidate_ids_def)

lemma candidates_pos: "x \<in># candidates sc sel f \<Longrightarrow> 0 < score x"
  by (auto simp: candidates_def) (simp add: candidate_ids_def)

lemma candidates_peek_pos:
  fixes sc :: "idx_t \<Rightarrow> 'w :: linordered_idom"
  assumes "topk_inv k (candidates sc sel f) h" and "topk_full h"
  shows "0 < topk_peek_score h"
  using topk_peek_in [OF assms] by (auto simp: topk_peek_score_def intro: candidates_pos dest: mset_subset_eqD)

text \<open>Passing documents that cannot enter leaves the heap right for the larger frontier.\<close>

lemma heap_skip:
  fixes sc :: "idx_t \<Rightarrow> 'w :: linordered_idom"
  assumes "topk_inv k (candidates sc sel f) h" and "0 \<le> f" and "f \<le> g"
    and "\<And>d. f \<le> d \<Longrightarrow> d < g \<Longrightarrow> \<not> selected sel d \<or> sc d \<le> 0 \<or> topk_full h \<and> sc d \<le> topk_peek_score h"
  shows "topk_inv k (candidates sc sel g) h"
  using assms(3,4)
proof (induction g rule: int_ge_induct)
  case (step d)
  have inv: "topk_inv k (candidates sc sel d) h" by (rule step.IH) (use step.prems in simp)
  have "\<not> selected sel d \<or> sc d \<le> 0 \<or> topk_full h \<and> sc d \<le> topk_peek_score h"
    using step.prems [of d] step.hyps by simp
  then show ?case
    using inv step.hyps assms(2) by (auto simp: candidates_step intro: topk_inv_reject)
qed (use assms(1) in simp)

lemma heap_pass:
  fixes sc :: "idx_t \<Rightarrow> 'w :: linordered_idom"
  assumes "topk_inv k (candidates sc sel d) h" and "0 \<le> d"
    and "\<not> selected sel d \<or> sc d \<le> 0 \<or> topk_full h \<and> sc d \<le> topk_peek_score h"
  shows "topk_inv k (candidates sc sel (d + 1)) h"
proof (rule heap_skip [OF assms(1,2)])
  fix x assume "d \<le> x" "x < d + 1"
  then have "x = d" by simp
  then show "\<not> selected sel x \<or> sc x \<le> 0 \<or> topk_full h \<and> sc x \<le> topk_peek_score h"
    using assms(3) by simp
qed simp

lemma heap_take:
  fixes sc :: "idx_t \<Rightarrow> 'w :: linordered_idom"
  assumes inv: "topk_inv k (candidates sc sel d) h" and "0 \<le> d" and "selected sel d"
    and "v = sc d \<and> 0 < sc d \<or> topk_full h \<and> v \<le> topk_peek_score h \<and> sc d \<le> topk_peek_score h"
  shows "topk_inv k (candidates sc sel (d + 1)) (topk_add h v d)"
  using assms(4)
proof
  assume "v = sc d \<and> 0 < sc d"
  then show ?thesis using topk_inv_add [OF inv] assms(2,3) by (simp add: candidates_step)
next
  assume a: "topk_full h \<and> v \<le> topk_peek_score h \<and> sc d \<le> topk_peek_score h"
  then have "topk_add h v d = h" using topk_add_reject [OF inv] by simp
  then show ?thesis using heap_pass [OF inv assms(2)] a by simp
qed

section \<open>evaluate_window_candidates\<close>

text \<open>The state after the slots below \<open>t\<close> of the window at \<open>b\<close> have been evaluated.\<close>

definition eval_inv ::
  "nat \<Rightarrow> (idx_t \<Rightarrow> bool) option \<Rightarrow> 'w :: linordered_idom scorer list \<Rightarrow> nat \<Rightarrow> idx_t \<Rightarrow> nat \<Rightarrow>
     'w eval_state \<Rightarrow> bool" where
  "eval_inv k sel ss fe b t ev \<longleftrightarrow>
     map scorer_at_start (ev_scorers ev) = map scorer_at_start ss \<and>
     length (ev_window_scores ev) = 4096 \<and>
     (\<forall>slot < 4096. ev_window_scores ev ! slot =
        (if slot < t then 0 else contrib_sum (drop fe ss) (b + int slot))) \<and>
     (\<forall>i < length ss. if i < fe then cursor_before (b + int t) (ev_scorers ev ! i)
        else cursor_at (b + 4096) (ev_scorers ev ! i)) \<and>
     topk_inv k (candidates (contrib_sum ss) sel (b + int t)) (ev_heap ev) \<and>
     ev_threshold ev = (if topk_full (ev_heap ev) then topk_peek_score (ev_heap ev) else 0) \<and>
     (0 < fe \<longrightarrow> topk_full (ev_heap ev) \<and> max_sum ss fe \<le> topk_peek_score (ev_heap ev))"

lemma sum_list_zero: "(\<And>x. x \<in> set xs \<Longrightarrow> f x = 0) \<Longrightarrow> (\<Sum>x\<leftarrow>xs. f x :: 'w :: linordered_idom) = 0"
  by (induction xs) auto

lemma eval_inv_unset:
  fixes ss :: "'w :: linordered_idom scorer list"
  assumes inv: "eval_inv k sel ss fe b t ev" and wf: "\<And>s. s \<in> set ss \<Longrightarrow> scorer_wf s"
    and "t < 4096" and "0 \<le> b"
    and out: "\<And>s. s \<in> set (drop fe ss) \<Longrightarrow> b + int t \<notin> set (sc_doc_ids s)"
  shows "eval_inv k sel ss fe b (Suc t) ev"
proof -
  let ?d = "b + int t"
  have none: "contrib_sum (drop fe ss) ?d = 0"
    unfolding contrib_sum_def
    by (rule sum_list_zero) (use out wf in \<open>auto intro: contrib_out dest: in_set_dropD\<close>)
  have le: "contrib_sum ss ?d \<le> max_sum ss fe"
    using contrib_sum_split [of ss, where j = fe and d = ?d] none contrib_sum_take_le [of ss fe ?d] wf by simp
  have "topk_inv k (candidates (contrib_sum ss) sel (?d + 1)) (ev_heap ev)"
  proof (rule heap_pass)
    show "topk_inv k (candidates (contrib_sum ss) sel ?d) (ev_heap ev)" "0 \<le> ?d"
      using inv assms(4) by (simp_all add: eval_inv_def)
    show "\<not> selected sel ?d \<or> contrib_sum ss ?d \<le> 0 \<or>
        topk_full (ev_heap ev) \<and> contrib_sum ss ?d \<le> topk_peek_score (ev_heap ev)"
      using le inv by (cases "fe = 0") (auto simp: eval_inv_def)
  qed
  moreover have "cursor_before (b + int (Suc t)) (ev_scorers ev ! i)" if "i < fe" "i < length ss" for i
    by (rule cursor_before_mono [of "b + int t"]) (use that inv in \<open>auto simp: eval_inv_def\<close>)
  ultimately show ?thesis
    using inv none by (auto simp: eval_inv_def less_Suc_eq algebra_simps)
qed

lemma eval_inv_set:
  fixes ss :: "'w :: linordered_idom scorer list"
  assumes inv: "eval_inv k sel ss fe b t ev" and wf: "\<And>s. s \<in> set ss \<Longrightarrow> scorer_wf s"
    and t: "t < 4096" and b: "0 \<le> b" "b + int t < kNoMoreDocs" and fe: "fe \<le> length ss"
    and pfx: "\<And>i. i \<le> length ss \<Longrightarrow> pfx ! i = max_sum ss i"
  shows "eval_inv k sel ss fe b (Suc t) (evaluate_slot fe b pfx sel ev t)"
proof -
  let ?d = "b + int t" and ?h = "ev_heap ev" and ?ws = "(ev_window_scores ev)[t := 0]"
  let ?ess = "ev_window_scores ev ! t" and ?thr = "ev_threshold ev"
  have st: "map scorer_at_start (ev_scorers ev) = map scorer_at_start ss"
    and heap: "topk_inv k (candidates (contrib_sum ss) sel ?d) ?h"
    and thr: "?thr = (if topk_full ?h then topk_peek_score ?h else 0)"
    and fe0: "0 < fe \<Longrightarrow> topk_full ?h"
    and ess: "?ess = contrib_sum (drop fe ss) ?d"
    using inv t by (auto simp: eval_inv_def)
  have thr0: "0 \<le> ?thr" using candidates_peek_pos [OF heap] by (simp add: thr less_imp_le)
  have len: "length (ev_scorers ev) = length ss" by (rule map_eq_imp_length_eq [OF st])
  have eq: "contrib_sum ss ?d = ?ess + contrib_sum (take fe ss) ?d"
    using contrib_sum_split [of ss, where j = fe and d = ?d] by (simp add: ess)
  have d0: "0 \<le> ?d" using b by simp
  have Sd: "b + int (Suc t) = ?d + 1" by simp
  have ws: "?ws ! slot = (if slot < Suc t then 0 else contrib_sum (drop fe ss) (b + int slot))"
    if "slot < 4096" for slot
    using that inv t by (cases "slot = t") (simp_all add: eval_inv_def less_Suc_eq)
  have before: "cursor_before (b + int (Suc t)) (ev_scorers ev ! i)" if "i < fe" "i < length ss" for i
    by (rule cursor_before_mono [of "b + int t"]) (use that inv in \<open>auto simp: eval_inv_def\<close>)
  have skip: "eval_inv k sel ss fe b (Suc t) (ev\<lparr>ev_window_scores := ?ws\<rparr>)"
    if "\<not> selected sel ?d \<or> contrib_sum ss ?d \<le> ?thr"
  proof -
    have "\<not> selected sel ?d \<or> contrib_sum ss ?d \<le> 0 \<or>
        topk_full ?h \<and> contrib_sum ss ?d \<le> topk_peek_score ?h"
      using that by (auto simp: thr split: if_splits)
    from heap_pass [OF heap d0 this] show ?thesis
      using inv before ws by (auto simp: eval_inv_def algebra_simps)
  qed
  show ?thesis
  proof (cases "?ess + pfx ! fe \<le> ?thr")
    case True
    have "contrib_sum ss ?d \<le> ?thr"
      using eq True contrib_sum_take_le [of ss fe ?d] wf pfx [OF fe] by simp
    with skip show ?thesis using True by (simp add: evaluate_slot_def Let_def)
  next
    case bound: False
    show ?thesis
    proof (cases "selected sel ?d")
      case False
      with skip show ?thesis using bound
        by (auto simp: evaluate_slot_def Let_def selected_def split: option.splits)
    next
      case sel: True
      obtain ss' v where run: "refine_score ?d pfx ?thr fe (ev_scorers ev) ?ess = (ss', v)"
        by (cases "refine_score ?d pfx ?thr fe (ev_scorers ev) ?ess")
      have "scorer_wf s" if "s \<in> set (ev_scorers ev)" for s
        using that wf scorers_wf_eqI [OF st] by blast
      moreover have "cursor_before ?d (ev_scorers ev ! i)" if "i < fe" for i
        using that fe inv by (simp add: eval_inv_def)
      moreover have "pfx ! i = max_sum (ev_scorers ev) i" if "i \<le> fe" for i
        using that fe pfx max_sum_eqI [OF st] by simp
      ultimately have spec: "map scorer_at_start ss' = map scorer_at_start (ev_scorers ev)"
        "\<forall>i \<ge> fe. ss' ! i = ev_scorers ev ! i" "\<forall>i < fe. cursor_before (?d + 1) (ss' ! i)"
        "v = ?ess + contrib_sum (take fe (ev_scorers ev)) ?d \<or>
         v \<le> ?thr \<and> ?ess + contrib_sum (take fe (ev_scorers ev)) ?d \<le> ?thr \<and> 0 < fe"
        using refine_score_spec [OF _ _ _ b(2) _ run] fe len by auto
      have "contrib_sum (take fe (ev_scorers ev)) ?d = contrib_sum (take fe ss) ?d"
        by (rule contrib_sum_eqI) (metis st take_map)
      then have v: "v = contrib_sum ss ?d \<or> v \<le> ?thr \<and> contrib_sum ss ?d \<le> ?thr \<and> 0 < fe"
        using spec(4) eq by simp
      define h' where "h' = topk_add ?h v ?d"
      have pos: "0 < ?ess" if "fe = 0" using bound pfx [of 0] that thr0 by simp
      have "v = contrib_sum ss ?d \<and> 0 < contrib_sum ss ?d \<or>
          topk_full ?h \<and> v \<le> topk_peek_score ?h \<and> contrib_sum ss ?d \<le> topk_peek_score ?h"
      proof (cases "topk_full ?h")
        case True
        then show ?thesis using v candidates_peek_pos [OF heap True] by (auto simp: thr)
      next
        case False
        then have "fe = 0" using fe0 by auto
        then show ?thesis using v eq pos by (simp add: contrib_sum_def)
      qed
      from heap_take [OF heap d0 sel this]
      have heap': "topk_inv k (candidates (contrib_sum ss) sel (?d + 1)) h'"
        by (simp add: h'_def)
      have mono: "topk_full h' \<and> topk_peek_score ?h \<le> topk_peek_score h'" if "topk_full ?h"
        by (rule topk_peek_mono [OF heap heap' candidates_mono that]) simp
      have res: "evaluate_slot fe b pfx sel ev t =
          ev\<lparr>ev_window_scores := ?ws, ev_scorers := ss', ev_heap := h',
             ev_threshold := (if topk_full h' then topk_peek_score h' else ?thr)\<rparr>"
        using bound sel run
        by (auto simp: evaluate_slot_def Let_def selected_def h'_def split: option.splits)
      have "0 < fe \<longrightarrow> topk_full h' \<and> max_sum ss fe \<le> topk_peek_score h'"
        using mono fe0 inv by (fastforce simp: eval_inv_def)
      moreover have "(if topk_full h' then topk_peek_score h' else ?thr) =
          (if topk_full h' then topk_peek_score h' else 0)"
        using mono by (auto simp: thr)
      moreover have "if i < fe then cursor_before (b + int (Suc t)) (ss' ! i)
          else cursor_at (b + 4096) (ss' ! i)" if "i < length ss" for i
        using that spec(2,3) inv by (auto simp: eval_inv_def algebra_simps)
      ultimately show ?thesis
        using inv spec(1,3) heap' ws by (simp add: eval_inv_def res Sd del: of_nat_Suc)
    qed
  qed
qed

lemma evaluate_slots:
  fixes ss :: "'w :: linordered_idom scorer list"
  assumes "eval_inv k sel ss fe b 0 ev" and "\<And>s. s \<in> set ss \<Longrightarrow> scorer_wf s"
    and "0 \<le> b" "b + 4096 \<le> kNoMoreDocs" and "fe \<le> length ss"
    and "\<And>i. i \<le> length ss \<Longrightarrow> pfx ! i = max_sum ss i"
    and "\<And>t. t < 4096 \<Longrightarrow> bitmap_test bm t \<longleftrightarrow> (\<exists>s \<in> set (drop fe ss). b + int t \<in> set (sc_doc_ids s))"
    and "n \<le> 4096"
  shows "eval_inv k sel ss fe b n
    (foldl (evaluate_slot fe b pfx sel) ev (filter (bitmap_test bm) [0..<n]))"
  using assms(8)
proof (induction n)
  case (Suc n)
  then have IH: "eval_inv k sel ss fe b n
    (foldl (evaluate_slot fe b pfx sel) ev (filter (bitmap_test bm) [0..<n]))" by simp
  have n: "n < 4096" "b + int n < kNoMoreDocs" using Suc.prems assms(4) by simp_all
  show ?case
  proof (cases "bitmap_test bm n")
    case True
    then show ?thesis
      using eval_inv_set [OF IH assms(2) n(1) assms(3) n(2) assms(5,6)] by simp
  next
    case False
    then have "b + int n \<notin> set (sc_doc_ids s)" if "s \<in> set (drop fe ss)" for s
      using assms(7) [OF n(1)] that by blast
    then show ?thesis
      using eval_inv_unset [OF IH assms(2) n(1) assms(3)] False by simp
  qed
qed (use assms(1) in simp)

section \<open>The window loop\<close>

lemma find_first_essential_less:
  assumes "i < find_first_essential pfx thr"
  shows "Suc i < length pfx" "pfx ! Suc i < thr"
proof -
  have i: "i < length (takeWhile (\<lambda>p. p < thr) (tl pfx))"
    using assms by (simp add: find_first_essential_def)
  also have "\<dots> \<le> length (tl pfx)" by (rule length_takeWhile_le)
  finally show len: "Suc i < length pfx" by simp
  have "takeWhile (\<lambda>p. p < thr) (tl pfx) ! i = tl pfx ! i" by (rule takeWhile_nth [OF i])
  then have "tl pfx ! i < thr" using nth_mem [OF i] by (auto dest: set_takeWhileD)
  then show "pfx ! Suc i < thr" using len by (simp add: nth_tl)
qed

lemma find_first_essential_ge:
  assumes "n < length pfx" and "\<And>i. i < n \<Longrightarrow> pfx ! Suc i < thr"
  shows "n \<le> find_first_essential pfx thr"
proof (rule ccontr)
  let ?w = "takeWhile (\<lambda>p. p < thr) (tl pfx)"
  assume "\<not> ?thesis"
  then have l: "length ?w < n" by (simp add: find_first_essential_def)
  then have "length ?w < length (tl pfx)" using assms(1) by simp
  from nth_length_takeWhile [OF this] have "\<not> tl pfx ! length ?w < thr" .
  moreover have "tl pfx ! length ?w = pfx ! Suc (length ?w)" using l assms(1) by (simp add: nth_tl)
  ultimately show False using assms(2) [OF l] by simp
qed

lemma foldl_min_doc:
  "(foldl (\<lambda>m s. if scorer_doc_id s < m then scorer_doc_id s else m) a ss \<le> a) \<and>
   (\<forall>s \<in> set ss. foldl (\<lambda>m s. if scorer_doc_id s < m then scorer_doc_id s else m) a ss \<le> scorer_doc_id s) \<and>
   (foldl (\<lambda>m s. if scorer_doc_id s < m then scorer_doc_id s else m) a ss = a \<or>
    (\<exists>s \<in> set ss. foldl (\<lambda>m s. if scorer_doc_id s < m then scorer_doc_id s else m) a ss = scorer_doc_id s))"
proof (induction ss arbitrary: a)
  case (Cons s ss)
  from Cons [of "if scorer_doc_id s < a then scorer_doc_id s else a"] show ?case
    by (auto split: if_splits intro: order_trans)
qed simp

lemma min_essential_doc_spec:
  "s \<in> set (drop fe ss) \<Longrightarrow> min_essential_doc ss fe \<le> scorer_doc_id s"
  "min_essential_doc ss fe = kNoMoreDocs \<or> (\<exists>s \<in> set (drop fe ss). min_essential_doc ss fe = scorer_doc_id s)"
  using foldl_min_doc [of kNoMoreDocs "drop fe ss"] by (auto simp: min_essential_doc_def)

lemma window_base_of_bounds:
  assumes "0 \<le> d"
  shows "0 \<le> window_base_of d" "window_base_of d \<le> d" "d < window_base_of d + 4096"
    "4096 dvd f \<Longrightarrow> f \<le> d \<Longrightarrow> f \<le> window_base_of d" "4096 dvd window_base_of d"
proof -
  have e: "window_base_of d = d div 4096 * 4096" using assms by (simp add: window_base_of_def kScoreWindowSize_def)
  show "0 \<le> window_base_of d" "window_base_of d \<le> d" "d < window_base_of d + 4096"
    "4096 dvd window_base_of d"
    using assms by (simp_all add: e)
  assume "4096 dvd f" "f \<le> d"
  then obtain c where c: "f = 4096 * c" by auto
  then have "c \<le> d div 4096" using \<open>f \<le> d\<close> by simp
  then show "f \<le> window_base_of d" by (simp add: e c)
qed

definition loop_inv ::
  "nat \<Rightarrow> (idx_t \<Rightarrow> bool) option \<Rightarrow> 'w :: linordered_idom scorer list \<Rightarrow> idx_t \<Rightarrow> 'w query_state \<Rightarrow> bool" where
  "loop_inv k sel ss f st \<longleftrightarrow>
     map scorer_at_start (qs_scorers st) = map scorer_at_start ss \<and>
     (\<forall>i < length ss. if i < qs_first_essential st then cursor_before f (qs_scorers st ! i)
        else cursor_at f (qs_scorers st ! i)) \<and>
     qs_window_scores st = replicate 4096 0 \<and>
     topk_inv k (candidates (contrib_sum ss) sel f) (qs_heap st) \<and>
     (\<not> topk_full (qs_heap st) \<longrightarrow> qs_first_essential st = 0) \<and>
     (topk_full (qs_heap st) \<longrightarrow>
        (\<forall>i < qs_first_essential st. max_sum ss (Suc i) < topk_peek_score (qs_heap st))) \<and>
     qs_first_essential st \<le> length ss \<and> 4096 dvd f \<and> 0 \<le> f"

text \<open>Re-partitioning keeps the invariant and never turns an essential list non-essential back.\<close>

definition repartition :: "'w :: ord list \<Rightarrow> 'w query_state \<Rightarrow> nat" where
  "repartition pfx st = (if topk_full (qs_heap st)
     then find_first_essential pfx (topk_peek_score (qs_heap st)) else qs_first_essential st)"

lemma loop_inv_repartition:
  assumes inv: "loop_inv k sel ss f st" and len: "length pfx = Suc (length ss)"
    and pfx: "\<And>i. i \<le> length ss \<Longrightarrow> pfx ! i = max_sum ss i"
  shows "loop_inv k sel ss f (st\<lparr>qs_first_essential := repartition pfx st\<rparr>)"
proof (cases "topk_full (qs_heap st)")
  case True
  let ?t = "topk_peek_score (qs_heap st)"
  have fe: "qs_first_essential st \<le> find_first_essential pfx ?t"
    by (rule find_first_essential_ge) (use inv True len pfx in \<open>auto simp: loop_inv_def\<close>)
  have less: "Suc i \<le> length ss \<and> max_sum ss (Suc i) < ?t" if "i < find_first_essential pfx ?t" for i
    using find_first_essential_less [OF that] len pfx [of "Suc i"] by simp
  have le: "find_first_essential pfx ?t \<le> length ss"
    using less [of "length ss"] by (metis Suc_n_not_le_n not_le)
  have "if i < find_first_essential pfx ?t then cursor_before f (qs_scorers st ! i)
      else cursor_at f (qs_scorers st ! i)" if "i < length ss" for i
    using inv that fe by (auto simp: loop_inv_def intro: cursor_at_before split: if_splits)
  then show ?thesis
    using inv less le True by (simp add: loop_inv_def repartition_def)
next
  case False
  then show ?thesis using inv by (simp add: loop_inv_def repartition_def)
qed

lemma loop_inv_scorers:
  assumes "loop_inv k sel ss f st" and "\<forall>s \<in> set ss. scorer_wf s"
  shows "length (qs_scorers st) = length ss" "\<And>s. s \<in> set (qs_scorers st) \<Longrightarrow> scorer_wf s"
    "\<And>s. s \<in> set (drop (qs_first_essential st) (qs_scorers st)) \<Longrightarrow> cursor_at f s"
    "map sc_doc_ids (drop n (qs_scorers st)) = map sc_doc_ids (drop n ss)"
    "contrib_sum (drop n (qs_scorers st)) d = contrib_sum (drop n ss) d"
proof -
  have e: "map scorer_at_start (qs_scorers st) = map scorer_at_start ss"
    using assms(1) by (simp add: loop_inv_def)
  show len: "length (qs_scorers st) = length ss" by (rule map_eq_imp_length_eq [OF e])
  show "scorer_wf s" if "s \<in> set (qs_scorers st)" for s
    using scorers_wf_eqI [OF e] assms(2) that by blast
  show "cursor_at f s" if mem: "s \<in> set (drop (qs_first_essential st) (qs_scorers st))" for s
  proof -
    let ?fe = "qs_first_essential st"
    have fe: "?fe \<le> length (qs_scorers st)" using assms(1) len by (simp add: loop_inv_def)
    obtain i where i: "i < length (drop ?fe (qs_scorers st))" "drop ?fe (qs_scorers st) ! i = s"
      using mem unfolding in_set_conv_nth by blast
    have "\<not> ?fe + i < ?fe" "?fe + i < length ss" using i(1) len by simp_all
    then have "cursor_at f (qs_scorers st ! (?fe + i))"
      using assms(1) unfolding loop_inv_def by presburger
    then show ?thesis using i(2) fe by (simp add: nth_drop)
  qed
  have d: "map scorer_at_start (drop n (qs_scorers st)) = map scorer_at_start (drop n ss)"
    using e by (metis drop_map)
  then show "contrib_sum (drop n (qs_scorers st)) d = contrib_sum (drop n ss) d"
    by (rule contrib_sum_eqI)
  from arg_cong [OF d, of "map sc_doc_ids"]
  show "map sc_doc_ids (drop n (qs_scorers st)) = map sc_doc_ids (drop n ss)"
    by (simp add: o_def)
qed

text \<open>Documents no essential list holds cannot enter the heap.\<close>

lemma loop_skip:
  fixes ss :: "'w :: linordered_idom scorer list"
  assumes inv: "loop_inv k sel ss f st" and wf: "\<forall>s \<in> set ss. scorer_wf s"
    and "f \<le> g"
    and out: "\<And>s d. s \<in> set (drop (qs_first_essential st) ss) \<Longrightarrow> f \<le> d \<Longrightarrow> d < g \<Longrightarrow> d \<notin> set (sc_doc_ids s)"
  shows "topk_inv k (candidates (contrib_sum ss) sel g) (qs_heap st)"
proof (rule heap_skip [OF _ _ assms(3)])
  let ?fe = "qs_first_essential st"
  show "topk_inv k (candidates (contrib_sum ss) sel f) (qs_heap st)" "0 \<le> f"
    using inv by (simp_all add: loop_inv_def)
  fix d assume d: "f \<le> d" "d < g"
  have "contrib s d = 0" if "s \<in> set (drop ?fe ss)" for s
    by (rule contrib_out) (use out [OF that d] wf that in \<open>auto dest: in_set_dropD\<close>)
  then have "contrib_sum (drop ?fe ss) d = 0"
    unfolding contrib_sum_def by (rule sum_list_zero)
  then have le: "contrib_sum ss d \<le> max_sum ss ?fe"
    using contrib_sum_split [of ss, where j = ?fe and d = d] contrib_sum_take_le [of ss ?fe d] wf by simp
  show "\<not> selected sel d \<or> contrib_sum ss d \<le> 0 \<or>
      topk_full (qs_heap st) \<and> contrib_sum ss d \<le> topk_peek_score (qs_heap st)"
  proof (cases ?fe)
    case 0
    then show ?thesis using le by simp
  next
    case (Suc i)
    then have "topk_full (qs_heap st)" "max_sum ss ?fe < topk_peek_score (qs_heap st)"
      using inv by (auto simp: loop_inv_def)
    then show ?thesis using le by simp
  qed
qed

lemma window_step:
  fixes ss :: "'w :: linordered_idom scorer list"
  assumes inv: "loop_inv k sel ss f st" and wf: "\<forall>s \<in> set ss. scorer_wf s"
    and pfx: "\<And>i. i \<le> length ss \<Longrightarrow> pfx ! i = max_sum ss i"
    and m: "m = min_essential_doc (qs_scorers st) (qs_first_essential st)" "m \<noteq> kNoMoreDocs"
    and b: "b = window_base_of m"
    and se: "score_essential_terms (qs_scorers st) (qs_first_essential st) b (b + 4096)
      (qs_window_scores st) bitmap_zero = (scorers, ws, bm)"
    and ev: "ev = evaluate_window_candidates scorers (qs_first_essential st) b pfx ws bm sel (qs_heap st)"
  shows "f \<le> b" "f \<le> m" "b + 4096 \<le> 2147479552" "0 \<le> b"
    "loop_inv k sel ss (b + 4096) \<lparr>qs_scorers = ev_scorers ev,
       qs_first_essential = qs_first_essential st, qs_window_scores = ev_window_scores ev,
       qs_heap = ev_heap ev\<rparr>"
proof -
  let ?fe = "qs_first_essential st" and ?cs = "qs_scorers st"
  note sc = loop_inv_scorers [OF inv wf]
  have f: "4096 dvd f" "0 \<le> f" "?fe \<le> length ss" using inv by (simp_all add: loop_inv_def)
  obtain s0 where s0: "s0 \<in> set (drop ?fe ?cs)" "m = scorer_doc_id s0"
    using min_essential_doc_spec(2) [of ?cs ?fe] m by auto
  have wf0: "scorer_wf s0" using s0 sc(2) by (auto dest: in_set_dropD)
  have at0: "cursor_at f s0" by (rule sc(3) [OF s0(1)])
  have "m \<in> set (sc_doc_ids s0)" using cursor_at_next(3) [OF wf0 at0] s0(2) m(2) by simp
  then have mb: "0 \<le> m" "m < 2147479552" using wf0 by (auto simp: scorer_wf_def)
  show fm: "f \<le> m"
    using cursor_at_next(2) [OF wf0 at0] s0(2) m(2) by simp
  note wb = window_base_of_bounds [OF mb(1), folded b]
  show fb: "f \<le> b" by (rule wb(4) [OF f(1) fm])
  show b0: "0 \<le> b" by (rule wb(1))
  obtain c where c: "b = 4096 * c" using wb(5) by (rule dvdE)
  have "b < 2147479552" using wb(2) mb by simp
  then have "c < 524287" by (simp add: c)
  then show top: "b + 4096 \<le> 2147479552" by (simp add: c)
  have ge_m: "m \<le> d" if s: "s \<in> set (drop ?fe ?cs)" "d \<in> set (sc_doc_ids s)" "f \<le> d" for s d
  proof -
    have "scorer_wf s" using s(1) sc(2) by (auto dest: in_set_dropD)
    from cursor_at_next(1) [OF this sc(3) [OF s(1)] s(2,3)] show ?thesis
      using min_essential_doc_spec(1) [OF s(1)] m(1) by simp
  qed
  have ids: "(\<exists>s \<in> set (drop ?fe ss). d \<in> set (sc_doc_ids s)) \<longleftrightarrow>
      (\<exists>s \<in> set (drop ?fe ?cs). d \<in> set (sc_doc_ids s))" for d
  proof -
    have "sc_doc_ids ` set (drop ?fe ss) = sc_doc_ids ` set (drop ?fe ?cs)"
      using sc(4) [of ?fe] by (metis set_map)
    then show ?thesis by (metis (no_types, lifting) imageE image_eqI)
  qed
  have at_b: "cursor_at b s" if s: "s \<in> set (drop ?fe ?cs)" for s
  proof -
    have "b \<le> d" if "d \<in> set (drop (nat (sc_current s)) (sc_doc_ids s))" for d
    proof -
      have "f \<le> d" using sc(3) [OF s] that by (simp add: cursor_at_def)
      then show ?thesis using ge_m [OF s in_set_dropD [OF that]] wb(2) by simp
    qed
    moreover have "sc_doc_ids s ! i < b" if "i < nat (sc_current s)" for i
      using sc(3) [OF s] that fb by (force simp: cursor_at_def)
    ultimately show ?thesis using sc(3) [OF s] by (simp add: cursor_at_def)
  qed
  obtain es where es: "score_scorers b (b + 4096) (drop ?fe ?cs) (qs_window_scores st) bitmap_zero = (es, ws, bm)"
    "scorers = take ?fe ?cs @ es"
    using se by (auto simp: score_essential_terms_def split: prod.splits)
  have ws0: "qs_window_scores st = replicate 4096 0" using inv by (simp add: loop_inv_def)
  have "scorer_wf s \<and> cursor_at b s" if "s \<in> set (drop ?fe ?cs)" for s
    using that at_b sc(2) by (auto dest: in_set_dropD)
  from score_scorers_spec [OF this _ _ es(1)]
  have gain: "map scorer_at_start es = map scorer_at_start (drop ?fe ?cs)"
    "\<And>s. s \<in> set es \<Longrightarrow> cursor_at (b + 4096) s"
    "window_gain (\<lambda>slot. contrib_sum (drop ?fe ss) (b + int slot))
       (\<lambda>slot. \<exists>s \<in> set (drop ?fe ?cs). b + int slot \<in> set (sc_doc_ids s))
       (replicate 4096 0) bitmap_zero ws bm"
    using sc(5) [of ?fe] by (simp_all add: ws0 bitmap_zero_def contrib_sum_def)
  define ev0 where "ev0 = \<lparr>ev_scorers = scorers, ev_window_scores = ws, ev_heap = qs_heap st,
    ev_threshold = (if topk_full (qs_heap st) then topk_peek_score (qs_heap st) else 0)\<rparr>"
  have lenes: "length es = length ss - ?fe"
    using map_eq_imp_length_eq [OF gain(1)] sc(1) by simp
  have "topk_inv k (candidates (contrib_sum ss) sel b) (qs_heap st)"
    by (rule loop_skip [OF inv wf fb]) (use ids ge_m wb(2) in force)
  moreover have "map scorer_at_start scorers = map scorer_at_start ss"
    using inv unfolding es(2) map_append gain(1)
    by (metis append_take_drop_id loop_inv_def map_append)
  moreover have "if i < ?fe then cursor_before b (scorers ! i) else cursor_at (b + 4096) (scorers ! i)"
    if "i < length ss" for i
  proof (cases "i < ?fe")
    case True
    then have "cursor_before f (?cs ! i)" using inv that by (auto simp: loop_inv_def)
    then show ?thesis using True sc(1) that fb by (simp add: es(2) nth_append cursor_before_mono)
  next
    case False
    then have "scorers ! i = es ! (i - ?fe)" "i - ?fe < length es"
      using sc(1) f(3) that lenes by (simp_all add: es(2) nth_append)
    then show ?thesis using False gain(2) by simp
  qed
  moreover have "0 < ?fe \<longrightarrow> topk_full (qs_heap st) \<and> max_sum ss ?fe \<le> topk_peek_score (qs_heap st)"
    using inv by (cases ?fe) (auto simp: loop_inv_def less_imp_le)
  ultimately have "eval_inv k sel ss ?fe b 0 ev0"
    using gain(3) by (simp add: eval_inv_def ev0_def window_gain_def)
  moreover have "bitmap_test bm t \<longleftrightarrow> (\<exists>s \<in> set (drop ?fe ss). b + int t \<in> set (sc_doc_ids s))"
    if "t < 4096" for t
    using gain(3) that bitmap_test_zero ids by (simp add: window_gain_def)
  ultimately have final: "eval_inv k sel ss ?fe b 4096
    (foldl (evaluate_slot ?fe b pfx sel) ev0 (filter (bitmap_test bm) [0..<4096]))"
    by (intro evaluate_slots) (use wf b0 top f(3) pfx in \<open>auto simp: kNoMoreDocs_def\<close>)
  have "ev = foldl (evaluate_slot ?fe b pfx sel) ev0 (filter (bitmap_test bm) [0..<4096])"
    by (simp add: ev evaluate_window_candidates_def ev0_def bitmap_slots_eq)
  with final have E: "eval_inv k sel ss ?fe b 4096 ev" by simp
  have "ev_window_scores ev = replicate 4096 0"
    by (rule nth_equalityI) (use E in \<open>auto simp: eval_inv_def\<close>)
  moreover have "\<not> topk_full (ev_heap ev) \<longrightarrow> ?fe = 0" using E by (auto simp: eval_inv_def)
  moreover have "max_sum ss (Suc i) < topk_peek_score (ev_heap ev)"
    if "topk_full (ev_heap ev)" "i < ?fe" for i
  proof -
    have full: "topk_full (qs_heap st)" "max_sum ss (Suc i) < topk_peek_score (qs_heap st)"
      using inv that(2) by (auto simp: loop_inv_def)
    have "topk_inv k (candidates (contrib_sum ss) sel f) (qs_heap st)"
      "topk_inv k (candidates (contrib_sum ss) sel (b + int 4096)) (ev_heap ev)"
      using inv E unfolding loop_inv_def eval_inv_def by blast+
    from topk_peek_mono [OF this candidates_mono full(1)] full(2) fb show ?thesis by simp
  qed
  ultimately show "loop_inv k sel ss (b + 4096) \<lparr>qs_scorers = ev_scorers ev,
       qs_first_essential = ?fe, qs_window_scores = ev_window_scores ev, qs_heap = ev_heap ev\<rparr>"
    using E [unfolded eval_inv_def of_nat_numeral] wb(5) b0 f(3) unfolding loop_inv_def by simp
qed

text \<open>
  The loop returns: each window lies above the last, and document ids end below the last window
  of \<open>int\<close>. What the heap then holds is right for every document.
\<close>

lemma window_loop_returns:
  fixes ss :: "'w :: linordered_idom scorer list"
  assumes "loop_inv k sel ss f st" and "\<forall>s \<in> set ss. scorer_wf s"
    and "length pfx = Suc (length ss)" and "\<And>i. i \<le> length ss \<Longrightarrow> pfx ! i = max_sum ss i"
    and "f \<le> 2147479552"
  shows "\<exists>st'. window_loop pfx sel st = Some st' \<and> qs_window_scores st' = replicate 4096 0 \<and>
    topk_inv k (candidates (contrib_sum ss) sel kNoMoreDocs) (qs_heap st')"
  using assms(1,5)
proof (induction "nat (2147479552 - f)" arbitrary: f st rule: less_induct)
  case less
  let ?st = "st\<lparr>qs_first_essential := repartition pfx st\<rparr>"
  let ?m = "min_essential_doc (qs_scorers st) (repartition pfx st)"
  have inv: "loop_inv k sel ss f ?st"
    by (rule loop_inv_repartition [OF less.prems(1) assms(3,4)])
  show ?case
  proof (cases "?m = kNoMoreDocs")
    case True
    have none: "d \<notin> set (sc_doc_ids s)"
      if s: "s \<in> set (drop (repartition pfx st) ss)" and d: "f \<le> d" for s d
    proof
      assume mem: "d \<in> set (sc_doc_ids s)"
      have "map sc_doc_ids (drop (repartition pfx st) (qs_scorers st)) =
          map sc_doc_ids (drop (repartition pfx st) ss)"
        using loop_inv_scorers(4) [OF inv assms(2)] by simp
      then obtain s' where s': "s' \<in> set (drop (repartition pfx st) (qs_scorers st))"
        "sc_doc_ids s' = sc_doc_ids s"
        using s by (metis (no_types, lifting) image_iff set_map)
      have "scorer_wf s'" "cursor_at f s'"
        using loop_inv_scorers(2,3) [OF inv assms(2)] s'(1) by (auto dest: in_set_dropD)
      from cursor_at_next(1) [OF this, of d] have "scorer_doc_id s' \<le> d" using mem s'(2) d by simp
      moreover have "kNoMoreDocs \<le> scorer_doc_id s'"
        using min_essential_doc_spec(1) [OF s'(1)] True by simp
      moreover have "d < 2147479552" using \<open>scorer_wf s'\<close> mem s'(2) by (auto simp: scorer_wf_def)
      ultimately show False by (simp add: kNoMoreDocs_def)
    qed
    have "f \<le> kNoMoreDocs" using less.prems(2) by (simp add: kNoMoreDocs_def)
    then have "topk_inv k (candidates (contrib_sum ss) sel kNoMoreDocs) (qs_heap ?st)"
      by (rule loop_skip [OF inv assms(2)]) (use none in simp)
    then show ?thesis using True inv
      by (subst window_loop.simps) (simp add: Let_def repartition_def loop_inv_def)
  next
    case False
    let ?b = "window_base_of ?m"
    obtain scorers ws bm where se: "score_essential_terms (qs_scorers ?st) (qs_first_essential ?st)
        ?b (?b + 4096) (qs_window_scores ?st) bitmap_zero = (scorers, ws, bm)"
      by (metis prod_cases3)
    define ev where "ev = evaluate_window_candidates scorers (qs_first_essential ?st) ?b pfx ws bm sel
      (qs_heap ?st)"
    have m: "?m = min_essential_doc (qs_scorers ?st) (qs_first_essential ?st)" by simp
    note step = window_step [OF inv assms(2,4) m False refl se ev_def]
    have "is_i32 (?b + kScoreWindowSize)"
      using step(3,4) by (simp add: is_i32_def kScoreWindowSize_def)
    then have wend: "i32 (?b + kScoreWindowSize) = ?b + 4096" by (simp add: kScoreWindowSize_def)
    have "window_loop pfx sel st = window_loop pfx sel \<lparr>qs_scorers = ev_scorers ev,
        qs_first_essential = repartition pfx st, qs_window_scores = ev_window_scores ev,
        qs_heap = ev_heap ev\<rparr>"
      using False se ev_def
      by (subst window_loop.simps) (simp add: Let_def wend flip: repartition_def)
    moreover have "nat (2147479552 - (?b + 4096)) < nat (2147479552 - f)"
      using step(1,3) by simp
    moreover have "loop_inv k sel ss (?b + 4096) \<lparr>qs_scorers = ev_scorers ev,
        qs_first_essential = repartition pfx st, qs_window_scores = ev_window_scores ev,
        qs_heap = ev_heap ev\<rparr>"
      using step(5) by simp
    ultimately show ?thesis using less.hyps step(3) by presburger
  qed
qed

section \<open>single_query\<close>

text \<open>What an index promises of its posting lists and of the bounds it keeps for them.\<close>

definition posting_list_wf :: "'w posting_list \<Rightarrow> bool" where
  "posting_list_wf l \<longleftrightarrow> sorted_wrt (<) (fst l) \<and> length (snd l) = length (fst l) \<and>
     (\<forall>d \<in> set (fst l). 0 \<le> d \<and> d < 2147479552)"

definition bounds_wf :: "'w :: {zero, ord} posting_list list \<Rightarrow> 'w list \<Rightarrow> bool" where
  "bounds_wf posting_lists max_term_scores \<longleftrightarrow> length max_term_scores = length posting_lists \<and>
     (\<forall>t < length posting_lists. 0 \<le> max_term_scores ! t \<and>
        (\<forall>v \<in> set (snd (posting_lists ! t)). v \<le> max_term_scores ! t))"

definition posting_weight :: "'w :: zero posting_list list \<Rightarrow> term_t \<Rightarrow> idx_t \<Rightarrow> 'w" where
  "posting_weight posting_lists t d =
     (if t < length posting_lists
      then case map_of (zip (fst (posting_lists ! t)) (snd (posting_lists ! t))) d of
             None \<Rightarrow> 0 | Some v \<Rightarrow> v
      else 0)"

definition query_score ::
  "'w :: {zero, plus, times, monoid_add} posting_list list \<Rightarrow> term_t list \<Rightarrow> 'w list \<Rightarrow> idx_t \<Rightarrow> 'w" where
  "query_score posting_lists indices values d =
     (\<Sum>(t, v) \<leftarrow> zip indices values. v * posting_weight posting_lists t d)"

lemma build_scorer_spec:
  fixes posting_lists :: "'w :: linordered_idom posting_list list"
  assumes "\<forall>l \<in> set posting_lists. posting_list_wf l"
    and "bounds_wf posting_lists max_term_scores" and "0 \<le> v"
  shows "contrib (build_scorer posting_lists max_term_scores t v) d = v * posting_weight posting_lists t d"
    "scorer_wf (build_scorer posting_lists max_term_scores t v)"
    "cursor_at 0 (build_scorer posting_lists max_term_scores t v)"
proof -
  let ?s = "build_scorer posting_lists max_term_scores t v"
  show con: "contrib ?s d = v * posting_weight posting_lists t d" for d
    by (auto simp: contrib_def build_scorer_def next_doc_def posting_weight_def Let_def
        split: prod.splits option.splits)
  show "scorer_wf ?s"
  proof (cases "t < length posting_lists")
    case True
    obtain ids vals where l: "posting_lists ! t = (ids, vals)" by (cases "posting_lists ! t")
    have s: "sc_doc_ids ?s = ids" "sc_values ?s = vals" "sc_list_size ?s = int (length ids)"
      "sc_max_score ?s = v * max_term_scores ! t"
      using True l by (simp_all add: build_scorer_def next_doc_def Let_def)
    have wf: "posting_list_wf (ids, vals)" using assms(1) True l by (metis nth_mem)
    have m: "0 \<le> max_term_scores ! t" "\<forall>v \<in> set vals. v \<le> max_term_scores ! t"
      using assms(2) True l by (auto simp: bounds_wf_def)
    have "posting_weight posting_lists t d \<le> max_term_scores ! t" for d
      using m True l
      by (auto simp: posting_weight_def split: option.splits dest!: map_of_SomeD set_zip_rightD)
    then have "contrib ?s d \<le> v * max_term_scores ! t" for d
      unfolding con by (rule mult_left_mono [OF _ assms(3)])
    then show ?thesis using wf m assms(3) by (simp add: scorer_wf_def s posting_list_wf_def)
  next
    case False
    then show ?thesis by (simp add: scorer_wf_def con posting_weight_def) (simp add: build_scorer_def)
  qed
  have "0 \<le> x" if "t < length posting_lists" "x \<in> set (fst (posting_lists ! t))" for x
    using assms(1) that by (auto simp: posting_list_wf_def dest!: nth_mem)
  then show "cursor_at 0 ?s"
    by (auto simp: cursor_at_def build_scorer_def next_doc_def Let_def split: prod.splits)
qed

lemma single_query_topk:
  fixes posting_lists :: "'w :: linordered_idom posting_list list"
  assumes wf: "\<forall>l \<in> set posting_lists. posting_list_wf l"
    and bounds: "bounds_wf posting_lists max_term_scores"
    and len: "length values = length indices" and nonneg: "\<forall>v \<in> set values. 0 \<le> v"
    and ne: "indices \<noteq> []" and k: "0 < k"
  shows "\<exists>result_scores ids.
    single_query posting_lists max_term_scores (replicate 4096 0) indices values k sel =
      Some (Inr ((resize (nat k) (- 1) result_scores, resize (nat k) INVALID_IDX ids),
                 replicate 4096 0)) \<and>
    length ids = length result_scores \<and> sorted_wrt (\<lambda>a b. b \<le> a) result_scores \<and>
    is_topk (nat k) score (candidates (query_score posting_lists indices values) sel kNoMoreDocs)
      (mset (map2 TopKItem result_scores ids))"
proof -
  let ?q = "map (\<lambda>(t, v). build_scorer posting_lists max_term_scores t v) (zip indices values)"
  define ss where "ss = sort_by (\<lambda>lhs rhs. sc_max_score lhs < sc_max_score rhs) ?q"
  define pfx where "pfx = prefix_sums 0 (map sc_max_score ss)"
  have bs: "build_scorers indices values posting_lists max_term_scores = (ss, pfx)"
    by (simp add: build_scorers_def ss_def pfx_def Let_def)
  have each: "scorer_wf s \<and> cursor_at 0 s" if "s \<in> set ss" for s
    using that build_scorer_spec(2,3) [OF wf bounds] nonneg
    by (auto simp: ss_def dest: set_zip_rightD)
  have "contrib_sum ss d = query_score posting_lists indices values d" for d
  proof -
    have "contrib_sum ss d = sum_mset (image_mset (\<lambda>s. contrib s d) (mset ss))"
      by (simp add: contrib_sum_def sum_mset_sum_list flip: mset_map)
    also have "mset ss = mset ?q" by (simp add: ss_def)
    also have "sum_mset (image_mset (\<lambda>s. contrib s d) (mset ?q)) =
        (\<Sum>(t, v) \<leftarrow> zip indices values. contrib (build_scorer posting_lists max_term_scores t v) d)"
      unfolding mset_map [symmetric] sum_mset_sum_list map_map o_def case_prod_beta ..
    also have "\<dots> = query_score posting_lists indices values d"
      unfolding query_score_def
      by (intro arg_cong [where f = sum_list] map_cong)
        (use build_scorer_spec(1) [OF wf bounds] nonneg in \<open>auto dest: set_zip_rightD\<close>)
    finally show ?thesis .
  qed
  then have cs: "contrib_sum ss = query_score posting_lists indices values" by blast
  obtain h where h: "topk_new k = Inr (h :: ('w, idx_t) topk_holder)"
    using k by (simp add: topk_new_def throw_if_not_positive_def)
  have inv0: "topk_inv (nat k) {#} h" and "h = \<lparr>tk_k = k, tk_pq = [], tk_threshold = None\<rparr>"
    using topk_inv_new [OF h] h by (auto simp: topk_new_def err_simps)
  then have "\<not> topk_full h" using k by (simp add: topk_full_def)
  then have "loop_inv (nat k) sel ss 0 \<lparr>qs_scorers = ss, qs_first_essential = 0,
      qs_window_scores = replicate 4096 0, qs_heap = h\<rparr>"
    using inv0 each by (simp add: loop_inv_def)
  moreover have "\<forall>s \<in> set ss. scorer_wf s" using each by simp
  moreover have "length pfx = Suc (length ss)" by (simp add: pfx_def)
  moreover have "pfx ! i = max_sum ss i" if "i \<le> length ss" for i
    using that by (simp add: pfx_def prefix_sums_max)
  moreover have "(0 :: int) \<le> 2147479552" by simp
  ultimately have "\<exists>st'. window_loop pfx sel \<lparr>qs_scorers = ss, qs_first_essential = 0,
      qs_window_scores = replicate 4096 0, qs_heap = h\<rparr> = Some st' \<and>
      qs_window_scores st' = replicate 4096 0 \<and>
      topk_inv (nat k) (candidates (contrib_sum ss) sel kNoMoreDocs) (qs_heap st')"
    by (rule window_loop_returns)
  then obtain st where st: "window_loop pfx sel \<lparr>qs_scorers = ss, qs_first_essential = 0,
      qs_window_scores = replicate 4096 0, qs_heap = h\<rparr> = Some st"
    "qs_window_scores st = replicate 4096 0"
    "topk_inv (nat k) (candidates (contrib_sum ss) sel kNoMoreDocs) (qs_heap st)"
    by blast
  obtain rs ids where r: "topk_items_descending (qs_heap st) = (rs, ids)"
    by (cases "topk_items_descending (qs_heap st)")
  have "single_query posting_lists max_term_scores (replicate 4096 0) indices values k sel =
      Some (Inr ((resize (nat k) (- 1) rs, resize (nat k) INVALID_IDX ids), replicate 4096 0))"
    using ne by (simp add: single_query_def h bs st(1,2) r)
  then show ?thesis using topk_items_descending_spec(2-4) [OF st(3) r] unfolding cs by blast
qed

end
