(* ===== verification/Inverted_Index.thy ===== *)
theory Inverted_Index
  imports Inverted_Lists Max_Score_Correct
begin

text \<open>
  \<^verbatim>\<open>inverted_index.cpp\<close>: the state of an \<open>InvertedIndex\<close> and its operations \<open>add\<close>, \<open>build\<close>,
  \<open>search\<close>, \<open>write_index\<close>, \<open>read_index\<close> and \<open>mmap_index\<close>, over the query path of \<open>Max_Score\<close>.
  Weights are 4-byte values of any type with an encoder \<open>enc\<close> and a decoder \<open>dec\<close>; the code's are
  \<open>f32_bytes\<close> and \<open>f32_of_bytes\<close>. The main theorem follows a corpus from its batches through
  \<open>add\<close>, \<open>build\<close> and \<open>search\<close> to the best dot products.
\<close>

section \<open>State and operations\<close>

definition kElementSize :: size_t where
  "kElementSize = U32"

record 'w inverted_index =
  ii_dimension :: int
  ii_num_vectors :: size_t
  ii_vectors :: "sparse_vectors option"
  ii_lists :: "array_inverted_lists option"
  ii_max_term_scores :: "'w buf"

definition ii_new :: "int \<Rightarrow> 'w inverted_index" where
  "ii_new d = \<lparr>ii_dimension = d, ii_num_vectors = 0, ii_vectors = None, ii_lists = None,
     ii_max_term_scores = buf_default\<rparr>"

text \<open>The arrays behind the pointers of a batch: \<open>n + 1\<close> offsets, then \<open>indptr[n]\<close> terms and values.\<close>

definition take_batch ::
  "('w \<Rightarrow> byte list) \<Rightarrow> idx_t \<Rightarrow> offset_t list \<Rightarrow> term_t list \<Rightarrow> 'w list \<Rightarrow>
     exn + offset_t list \<times> term_t list \<times> byte list" where
  "take_batch enc n indptr indices values =
     bindE (take_elems (size_of_int (i32 (n + 1))) indptr) (\<lambda>ip.
     let nnz = size_of_int (last ip)
     in bindE (take_elems nnz indices) (\<lambda>ix.
        bindE (take_elems nnz values) (\<lambda>vs. Inr (ip, ix, encode_array enc vs))))"

definition ii_add ::
  "('w \<Rightarrow> byte list) \<Rightarrow> 'w inverted_index \<Rightarrow> idx_t \<Rightarrow> offset_t list option \<Rightarrow>
     term_t list option \<Rightarrow> 'w list option \<Rightarrow> exn + 'w inverted_index" where
  "ii_add enc st n indptr indices values =
     bindE (throw_if_not_positive n) (\<lambda>_.
     bindE (throw_if_null indptr ''unexpected nullptr'') (\<lambda>indptr.
     bindE (throw_if_null indices ''unexpected nullptr'') (\<lambda>indices.
     bindE (throw_if_null values ''unexpected nullptr'') (\<lambda>values.
     bindE (take_batch enc n indptr indices values) (\<lambda>(ip, ix, ws).
     bindE (case ii_vectors st of
              None \<Rightarrow> sv_new kElementSize (size_of_int (ii_dimension st))
            | Some v \<Rightarrow> Inr v) (\<lambda>v.
     bindE (add_vectors v ip ix ws) (\<lambda>v'.
     Inr (st\<lparr>ii_vectors := Some v', ii_num_vectors := u64 (ii_num_vectors st + nat n)\<rparr>))))))))"

definition ii_build ::
  "(byte list \<Rightarrow> 'w) \<Rightarrow> (nat \<Rightarrow> 'w) \<Rightarrow> 'w :: {zero, ord} inverted_index \<Rightarrow> exn + 'w inverted_index" where
  "ii_build dec conv st = (case ii_vectors st of
       None \<Rightarrow> Inr st
     | Some v \<Rightarrow>
         bindE (build_inverted_lists (size_of_int (ii_dimension st)) kElementSize (Some v)) (\<lambda>ls.
         Inr (st\<lparr>ii_num_vectors := num_vectors v, ii_vectors := None, ii_lists := Some ls,
                ii_max_term_scores := buf_own (map (il_max_value dec conv) (ail_lists ls))\<rparr>)))"

subsection \<open>search\<close>

text \<open>
  The queries of a batch run in parallel, each in the thread-local window buffer of the thread
  that takes it: \<open>thread\<close> is the schedule, \<open>bufs\<close> the buffers. An exception leaving the parallel
  region is passed on as the result.
\<close>

fun run_queries ::
  "('w list \<Rightarrow> term_t list \<times> 'w list \<Rightarrow> (exn + ('w list \<times> idx_t list) \<times> 'w list) option) \<Rightarrow>
     (nat \<Rightarrow> nat) \<Rightarrow> (nat \<Rightarrow> 'w list) \<Rightarrow> nat \<Rightarrow> (term_t list \<times> 'w list) list \<Rightarrow>
     (exn + ('w list \<times> idx_t list) list \<times> (nat \<Rightarrow> 'w list)) option" where
  "run_queries query thread bufs query_idx [] = Some (Inr ([], bufs))"
| "run_queries query thread bufs query_idx (q # qs) =
     (case query (bufs (thread query_idx)) q of
        None \<Rightarrow> None
      | Some (Inl e) \<Rightarrow> Some (Inl e)
      | Some (Inr (r, w)) \<Rightarrow>
          (case run_queries query thread (bufs(thread query_idx := w)) (Suc query_idx) qs of
             None \<Rightarrow> None
           | Some (Inl e) \<Rightarrow> Some (Inl e)
           | Some (Inr (rs, bufs')) \<Rightarrow> Some (Inr (r # rs, bufs'))))"

text \<open>Row \<open>i\<close> of the query matrix: the slices the pointers \<open>start\<close> and \<open>len\<close> describe.\<close>

definition query_row :: "(byte list \<Rightarrow> 'w) \<Rightarrow> sparse_vectors \<Rightarrow> nat \<Rightarrow> term_t list \<times> 'w list" where
  "query_row dec v i =
     (let start = nat (buf_elems (sv_indptr v) ! i);
          stop = nat (buf_elems (sv_indptr v) ! (i + 1))
      in (slice start stop (buf_elems (sv_indices v)),
          decode_array dec 4 (stop - start) (slice (start * 4) (stop * 4) (buf_elems (sv_values v)))))"

definition ii_search ::
  "('w \<Rightarrow> byte list) \<Rightarrow> (byte list \<Rightarrow> 'w) \<Rightarrow> (nat \<Rightarrow> nat) \<Rightarrow> (nat \<Rightarrow> 'w list) \<Rightarrow>
     'w :: {zero, one, uminus, plus, times, ord} inverted_index \<Rightarrow> idx_t \<Rightarrow> offset_t list \<Rightarrow>
     term_t list \<Rightarrow> 'w list \<Rightarrow> int \<Rightarrow> (idx_t \<Rightarrow> bool) option \<Rightarrow>
     (exn + ('w list \<times> idx_t list) list \<times> (nat \<Rightarrow> 'w list)) option" where
  "ii_search enc dec thread bufs st n indptr indices values k id_selector = (case ii_lists st of
       None \<Rightarrow> Some (Inr (replicate (nat n) ([], []), bufs))
     | Some ls \<Rightarrow>
         if n = 0 then Some (Inr ([], bufs))
         else case bindE (take_batch enc n indptr indices values) (\<lambda>(ip, ix, ws).
                bindE (sv_new kElementSize (size_of_int (ii_dimension st))) (\<lambda>v.
                add_vectors v ip ix ws)) of
           Inl e \<Rightarrow> Some (Inl e)
         | Inr v \<Rightarrow>
             run_queries (\<lambda>w (ts, vs). single_query (map (il_postings dec) (ail_lists ls))
                            (buf_elems (ii_max_term_scores st)) w ts vs k id_selector)
               thread bufs 0 (map (query_row dec v) [0..<nat n]))"

subsection \<open>The file\<close>

definition throw_if_scores_are_incomplete :: "array_inverted_lists \<Rightarrow> size_t \<Rightarrow> exn + unit" where
  "throw_if_scores_are_incomplete ls scores_size = throw_if (scores_size \<noteq> ail_size ls)
     (Runtime_error ''inverted index file's per-term score count does not match its term count'')"

definition ii_write_index :: "('w \<Rightarrow> byte list) \<Rightarrow> 'w inverted_index \<Rightarrow> writer \<Rightarrow> exn + writer" where
  "ii_write_index enc st w =
     bindE (write_size_t (ii_num_vectors st) w) (\<lambda>w1.
     bindE (ail_serialize (case ii_lists st of None \<Rightarrow> ail_new 0 kElementSize | Some ls \<Rightarrow> ls) w1) (\<lambda>w2.
     bindE (write_size_t (buf_size (ii_max_term_scores st)) w2) (\<lambda>w3.
     write_padded enc 4 (buf_elems (ii_max_term_scores st)) w3)))"

definition ii_read_index ::
  "(byte list \<Rightarrow> 'w) \<Rightarrow> 'w inverted_index \<Rightarrow> reader \<Rightarrow> exn + 'w inverted_index \<times> reader" where
  "ii_read_index dec st r =
     bindE (read_size_t r) (\<lambda>(n, r1).
     bindE (ail_read (Some r1) kElementSize) (\<lambda>(ls, r2).
     bindE (read_size_t r2) (\<lambda>(scores_size, r3).
     bindE (read_padded dec 4 4 scores_size r3) (\<lambda>(scores, r4).
     bindE (throw_if_scores_are_incomplete ls scores_size) (\<lambda>_.
     Inr (st\<lparr>ii_num_vectors := n, ii_max_term_scores := scores,
            ii_lists := (if ail_size ls > 0 then Some ls else ii_lists st)\<rparr>, r4))))))"

text \<open>A file is the address it is mapped at and its bytes; \<open>pos\<close> is where the payload starts.\<close>

definition ii_map_payload ::
  "(byte list \<Rightarrow> 'w) \<Rightarrow> 'w inverted_index \<Rightarrow> cursor \<Rightarrow> exn + 'w inverted_index \<times> cursor" where
  "ii_map_payload dec st c =
     bindE (map_size_t c) (\<lambda>(n, c1).
     bindE (ail_map (Some c1) kElementSize) (\<lambda>(ls, c2).
     bindE (map_size_t c2) (\<lambda>(scores_size, c3).
     bindE (borrow_padded dec 4 4 4 scores_size c3) (\<lambda>(scores, c4).
     bindE (throw_if_scores_are_incomplete ls scores_size) (\<lambda>_.
     Inr (st\<lparr>ii_num_vectors := n, ii_max_term_scores := scores,
            ii_lists := (if ail_size ls > 0 then Some ls else ii_lists st)\<rparr>, c4))))))"

definition ii_mmap_index ::
  "(byte list \<Rightarrow> 'w) \<Rightarrow> int \<Rightarrow> (nat \<times> byte list) option \<Rightarrow> size_t \<Rightarrow> exn + 'w inverted_index" where
  "ii_mmap_index dec d index_file pos =
     bindE (throw_if_null index_file ''index_file must not be null'') (\<lambda>(base, data).
     bindE (cursor_skip pos \<lparr>mc_base = base, mc_data = data, mc_pos = 0\<rparr>) (\<lambda>c.
     bindE (ii_map_payload dec (ii_new d) c) (\<lambda>(st, _). Inr st)))"

section \<open>Typed batches\<close>

text \<open>A value that survives its 4-byte encoding.\<close>

definition codes_exactly :: "('w \<Rightarrow> byte list) \<Rightarrow> (byte list \<Rightarrow> 'w) \<Rightarrow> 'w list \<Rightarrow> bool" where
  "codes_exactly enc dec vs \<longleftrightarrow> (\<forall>x \<in> set vs. length (enc x) = 4 \<and> dec (enc x) = x)"

lemma length_encode4: "codes_exactly enc dec vs \<Longrightarrow> length (encode_array enc vs) = length vs * 4"
  by (induction vs) (auto simp: encode_array_def codes_exactly_def)

lemma encode_slice:
  assumes "codes_exactly enc dec vs" and "e \<le> length vs"
  shows "slice (s * 4) (e * 4) (encode_array enc vs) = encode_array enc (slice s e vs)"
proof -
  have d: "drop (s * 4) (encode_array enc vs) = encode_array enc (drop s vs)" for s
    using assms(1)
  proof (induction vs arbitrary: s)
    case (Cons x xs)
    then show ?case by (cases s) (auto simp: encode_array_def codes_exactly_def)
  qed (simp add: encode_array_def)
  have t: "take (n * 4) (encode_array enc xs) = encode_array enc (take n xs)"
    if "codes_exactly enc dec xs" for n xs
    using that
  proof (induction xs arbitrary: n)
    case (Cons x xs)
    then show ?case by (cases n) (auto simp: encode_array_def codes_exactly_def)
  qed (simp add: encode_array_def)
  have "codes_exactly enc dec (drop s vs)"
    using assms(1) by (auto simp: codes_exactly_def dest: in_set_dropD)
  from t [OF this, of "e - s"] show ?thesis by (simp add: slice_def d diff_mult_distrib)
qed

lemma decode_encode4:
  "codes_exactly enc dec vs \<Longrightarrow> decode_array dec 4 (length vs) (encode_array enc vs) = vs"
  by (induction vs) (auto simp: encode_array_def codes_exactly_def)

lemma typed_rows_encode:
  assumes "csr_wf 1 ip ix vs" and "codes_exactly enc dec vs"
  shows "csr_wf 4 ip ix (encode_array enc vs)"
    "map (typed_row dec) (csr_rows 4 ip ix (encode_array enc vs)) =
       map (\<lambda>(ts, ws). zip ts ws) (csr_rows 1 ip ix vs)"
proof -
  have len: "length vs = length ix" using assms(1) by (simp add: csr_wf_def)
  show "csr_wf 4 ip ix (encode_array enc vs)"
    using assms by (simp add: csr_wf_def length_encode4)
  have "typed_row dec (slice (nat s) (nat e) ix, slice (nat s * 4) (nat e * 4) (encode_array enc vs)) =
      zip (slice (nat s) (nat e) ix) (slice (nat s) (nat e) vs)"
    if "(s, e) \<in> set (zip ip (tl ip))" for s e
  proof -
    have e: "nat e \<le> length ix" using csr_wf_bounds [OF assms(1)] in_zip_tl [OF that] by fastforce
    have "codes_exactly enc dec (slice (nat s) (nat e) vs)"
      using assms(2) by (auto simp: codes_exactly_def slice_def dest: in_set_takeD in_set_dropD)
    from decode_encode4 [OF this] show ?thesis
      using e len by (simp add: typed_row_def encode_slice [OF assms(2)])
  qed
  then show "map (typed_row dec) (csr_rows 4 ip ix (encode_array enc vs)) =
      map (\<lambda>(ts, ws). zip ts ws) (csr_rows 1 ip ix vs)"
    by (auto simp: csr_rows_def)
qed

section \<open>The corpus an index holds\<close>

lemma csr_rows_concat:
  assumes "csr_wf es ip ix vs"
  shows "concat (map fst (csr_rows es ip ix vs)) = ix"
proof -
  have pre: "concat (map fst (take n (csr_rows es ip ix vs))) = take (nat (ip ! n)) ix" if "n < length ip" for n
    using that
  proof (induction n)
    case 0
    then show ?case using assms by (simp add: csr_wf_def hd_conv_nth)
  next
    case (Suc n)
    note b = csr_row_bounds [OF assms, of n]
    have n: "n < length (csr_rows es ip ix vs)" using Suc.prems by simp
    have "fst (csr_rows es ip ix vs ! n) = slice (nat (ip ! n)) (nat (ip ! (n + 1))) ix"
      using b(4) Suc.prems by simp
    moreover have "take a ix @ slice a b ix = take b ix" if "a \<le> b" for a b
      using that by (simp add: slice_def take_add [symmetric])
    ultimately show ?case using Suc b(2) n by (simp add: take_Suc_conv_app_nth)
  qed
  have ne: "ip \<noteq> []" using assms by (simp add: csr_wf_def)
  then have e: "nat (ip ! (length ip - 1)) = length ix"
    using assms last_conv_nth [of ip] by (simp add: csr_wf_def)
  have "length ip - 1 < length ip" using ne by simp
  from pre [OF this, unfolded e] show ?thesis by simp
qed

type_synonym 'w doc = "(term_t \<times> 'w) list"

definition dot :: "'w doc \<Rightarrow> 'w doc \<Rightarrow> 'w :: {zero, plus, times, monoid_add}" where
  "dot q row = (\<Sum>(t, v) \<leftarrow> q. v * (case map_of row t of None \<Rightarrow> 0 | Some w \<Rightarrow> w))"

text \<open>The documents a query may return: selected, and of positive score.\<close>

definition matching ::
  "'w :: {zero, plus, times, monoid_add, ord} doc list \<Rightarrow> 'w doc \<Rightarrow> (idx_t \<Rightarrow> bool) option \<Rightarrow>
     ('w, idx_t) topk_item multiset" where
  "matching docs q sel = mset (map (\<lambda>i. TopKItem (dot q (docs ! i)) (int i))
     (filter (\<lambda>i. selected sel (int i) \<and> 0 < dot q (docs ! i)) [0..<length docs]))"

lemma candidates_matching:
  fixes docs :: "'w :: linordered_idom doc list"
  assumes "\<And>d. 0 \<le> d \<Longrightarrow> d < kNoMoreDocs \<Longrightarrow>
      sc d = (if d < int (length docs) then dot q (docs ! nat d) else 0)"
    and "int (length docs) \<le> kNoMoreDocs"
  shows "candidates sc sel kNoMoreDocs = matching docs q sel"
proof -
  let ?P = "\<lambda>i. selected sel (int i) \<and> 0 < dot q (docs ! i)"
  define A where "A = {i \<in> {0..<length docs}. ?P i}"
  have ids: "candidate_ids sc sel kNoMoreDocs = int ` A"
  proof (intro set_eqI iffI)
    fix d assume d: "d \<in> candidate_ids sc sel kNoMoreDocs"
    then have "0 \<le> d" "d < kNoMoreDocs" "0 < sc d" "selected sel d" by (auto simp: candidate_ids_def)
    with assms(1) [of d] have "d = int (nat d)" "nat d \<in> A" by (auto simp: A_def split: if_splits)
    then show "d \<in> int ` A" by blast
  next
    fix d assume "d \<in> int ` A"
    then obtain i where i: "d = int i" "i < length docs" "?P i" by (auto simp: A_def)
    have lt: "d < kNoMoreDocs" using i(1,2) assms(2) by linarith
    with i assms(1) [of d] have "0 < sc d" by simp
    then show "d \<in> candidate_ids sc sel kNoMoreDocs" using i lt by (simp add: candidate_ids_def)
  qed
  have "mset_set (int ` A) = image_mset int (mset_set A)"
    by (rule image_mset_mset_set [symmetric]) (simp add: inj_on_def)
  then have "candidates sc sel kNoMoreDocs = image_mset (\<lambda>i. TopKItem (sc (int i)) (int i)) (mset_set A)"
    by (simp add: candidates_def ids image_mset.compositionality o_def)
  also have "\<dots> = image_mset (\<lambda>i. TopKItem (dot q (docs ! i)) (int i)) (mset_set A)"
  proof (rule image_mset_cong)
    fix i assume "i \<in># mset_set A"
    then have i: "i < length docs" by (cases "finite A") (auto simp: A_def)
    then have "int i < kNoMoreDocs" using assms(2) by linarith
    with i assms(1) [of "int i"] show "TopKItem (sc (int i)) (int i) = TopKItem (dot q (docs ! i)) (int i)"
      by simp
  qed
  also have "mset_set A = mset (filter ?P [0..<length docs])"
    by (simp add: A_def mset_set_set [symmetric] flip: set_upt set_filter)
  finally show ?thesis by (simp add: matching_def)
qed

text \<open>The state of an index that holds \<open>docs\<close> and has not been built.\<close>

definition ii_holds :: "(byte list \<Rightarrow> 'w) \<Rightarrow> int \<Rightarrow> 'w doc list \<Rightarrow> 'w inverted_index \<Rightarrow> bool" where
  "ii_holds dec n_terms docs st \<longleftrightarrow> ii_dimension st = n_terms \<and> ii_lists st = None \<and>
     ii_num_vectors st = length docs \<and>
     (case ii_vectors st of
        None \<Rightarrow> docs = []
      | Some v \<Rightarrow> sv_content_wf v \<and> sv_growable v \<and> sv_element_size v = 4 \<and>
          map (typed_row dec) (sv_rows v) = docs)"

text \<open>A batch: offsets, terms and values; its documents; what \<open>add\<close> needs of it.\<close>

type_synonym 'w batch = "offset_t list \<times> term_t list \<times> 'w list"

definition batch_docs :: "'w batch \<Rightarrow> 'w doc list" where
  "batch_docs = (\<lambda>(ip, ix, vs). map (\<lambda>(ts, ws). zip ts ws) (csr_rows 1 ip ix vs))"

definition batch_ok :: "('w \<Rightarrow> byte list) \<Rightarrow> (byte list \<Rightarrow> 'w) \<Rightarrow> 'w batch \<Rightarrow> bool" where
  "batch_ok enc dec = (\<lambda>(ip, ix, vs). csr_wf 1 ip ix vs \<and> 2 \<le> length ip \<and> length ip < 2147483648 \<and>
     length ix * 4 \<le> SIZE_MAX \<and> codes_exactly enc dec vs)"

definition add_batch :: "('w \<Rightarrow> byte list) \<Rightarrow> 'w inverted_index \<Rightarrow> 'w batch \<Rightarrow> exn + 'w inverted_index" where
  "add_batch enc st = (\<lambda>(ip, ix, vs). ii_add enc st (int (length ip) - 1) (Some ip) (Some ix) (Some vs))"

lemma take_batch_ok:
  assumes "batch_ok enc dec (ip, ix, vs)"
  shows "take_batch enc (int (length ip) - 1) ip ix vs = Inr (ip, ix, encode_array enc vs)"
proof -
  have b: "csr_wf 1 ip ix vs" "length ip < 2147483648" "length ix * 4 \<le> SIZE_MAX"
    using assms by (auto simp: batch_ok_def)
  then have "size_of_int (i32 (int (length ip) - 1 + 1)) = length ip"
    by (simp add: is_i32_def is_i64_def)
  moreover have "size_of_int (last ip) = length ix"
    using b(1,3) by (simp add: csr_wf_def is_i64_def SIZE_MAX_def)
  moreover have "length vs = length ix" using b(1) by (simp add: csr_wf_def)
  ultimately show ?thesis by (simp add: take_batch_def take_elems_def)
qed

text \<open>The matrix a batch is added to, or the empty one: it grows by the batch's rows.\<close>

lemma add_encoded_batch:
  assumes "batch_ok enc dec (ip, ix, vs)"
    and "sv_content_wf v" and "sv_growable v" and "sv_element_size v = 4"
  shows "\<exists>v'. add_vectors v ip ix (encode_array enc vs) = Inr v' \<and> sv_content_wf v' \<and> sv_growable v' \<and>
    sv_element_size v' = 4 \<and>
    map (typed_row dec) (sv_rows v') = map (typed_row dec) (sv_rows v) @ batch_docs (ip, ix, vs)"
proof -
  have b: "csr_wf 1 ip ix vs" "codes_exactly enc dec vs" "length ix * 4 \<le> SIZE_MAX"
    using assms(1) by (auto simp: batch_ok_def)
  note t = typed_rows_encode [OF b(1,2)]
  obtain v' where "add_vectors v ip ix (encode_array enc vs) = Inr v'" "sv_content_wf v'" "sv_growable v'"
    "sv_element_size v' = sv_element_size v"
    "sv_rows v' = sv_rows v @ csr_rows (sv_element_size v) ip ix (encode_array enc vs)"
    using add_vectors_content [OF assms(2,3), of ip ix "encode_array enc vs"] t(1) b(3) assms(4) by auto
  then show ?thesis using t(2) assms(4) by (simp add: batch_docs_def)
qed

lemma sv_new_ok:
  assumes "0 < n_terms" and "is_i32 n_terms"
  shows "sv_new kElementSize (size_of_int n_terms) =
    Inr (sv_default\<lparr>sv_element_size := 4, sv_dimension := nat n_terms\<rparr>)"
  using assms by (simp add: sv_new_def throw_if_not_positive_def kElementSize_def U32_def is_i32_def is_i64_def)

lemma sv_default_empty:
  "sv_content_wf (sv_default\<lparr>sv_element_size := 4, sv_dimension := d\<rparr>)"
  "sv_growable (sv_default\<lparr>sv_element_size := 4, sv_dimension := d\<rparr>)"
  "sv_rows (sv_default\<lparr>sv_element_size := 4, sv_dimension := d\<rparr>) = []"
  by (simp_all add: sv_content_wf_def sv_growable_def sv_default_def sv_rows_def csr_rows_def)

lemma add_batch_holds:
  assumes "ii_holds dec n_terms docs st" and b: "batch_ok enc dec b" and "0 < n_terms" and "is_i32 n_terms"
    and "length docs + length (batch_docs b) \<le> SIZE_MAX"
  shows "\<exists>st'. add_batch enc st b = Inr st' \<and> ii_holds dec n_terms (docs @ batch_docs b) st' \<and>
    ii_vectors st' \<noteq> None"
proof -
  obtain ip ix vs where p: "b = (ip, ix, vs)" by (cases b) auto
  have len: "2 \<le> length ip" using b by (simp add: p batch_ok_def)
  define v where "v = (case ii_vectors st of
    None \<Rightarrow> sv_default\<lparr>sv_element_size := 4, sv_dimension := nat n_terms\<rparr> | Some v \<Rightarrow> v)"
  have v: "sv_content_wf v" "sv_growable v" "sv_element_size v = 4" "map (typed_row dec) (sv_rows v) = docs"
    using assms(1) by (auto simp: ii_holds_def v_def sv_default_empty split: option.splits)
  have get: "(case ii_vectors st of None \<Rightarrow> sv_new kElementSize (size_of_int (ii_dimension st)) | Some v \<Rightarrow> Inr v) = Inr v"
    using assms(1) sv_new_ok [OF assms(3,4)] by (auto simp: ii_holds_def v_def split: option.splits)
  obtain v' where v': "add_vectors v ip ix (encode_array enc vs) = Inr v'" "sv_content_wf v'" "sv_growable v'"
    "sv_element_size v' = 4" "map (typed_row dec) (sv_rows v') = docs @ batch_docs b"
    using add_encoded_batch [OF b [unfolded p] v(1-3)] v(4) p by auto
  have n: "length (batch_docs b) = nat (int (length ip) - 1)" by (simp add: p batch_docs_def nat_diff_distrib)
  have "ii_num_vectors st = length docs" using assms(1) by (simp add: ii_holds_def)
  then have "u64 (ii_num_vectors st + nat (int (length ip) - 1)) = length (docs @ batch_docs b)"
    using assms(5) by (simp add: SIZE_MAX_def n [symmetric])
  moreover have "throw_if_not_positive (int (length ip) - 1) = Inr (int (length ip) - 1)"
    using len by (simp add: throw_if_not_positive_def)
  ultimately have "add_batch enc st b = Inr (st\<lparr>ii_vectors := Some v', ii_num_vectors := length (docs @ batch_docs b)\<rparr>)"
    by (simp add: add_batch_def p ii_add_def take_batch_ok [OF b [unfolded p]] throw_if_null_def get v'(1))
  then show ?thesis using assms(1) v'(2-5) by (simp add: ii_holds_def)
qed

lemma add_batches_hold:
  assumes "ii_holds dec n_terms docs st" and "\<forall>b \<in> set bs. batch_ok enc dec b" and "0 < n_terms" and "is_i32 n_terms"
    and "length docs + length (concat (map batch_docs bs)) \<le> SIZE_MAX"
  shows "\<exists>st'. foldE (add_batch enc) st bs = Inr st' \<and>
    ii_holds dec n_terms (docs @ concat (map batch_docs bs)) st' \<and> (bs \<noteq> [] \<longrightarrow> ii_vectors st' \<noteq> None)"
  using assms(1,2,5)
proof (induction bs arbitrary: docs st)
  case (Cons b bs)
  obtain st1 where st1: "add_batch enc st b = Inr st1" "ii_holds dec n_terms (docs @ batch_docs b) st1"
    "ii_vectors st1 \<noteq> None"
    using add_batch_holds [OF Cons.prems(1) _ assms(3,4), of enc b] Cons.prems(2,3) by auto
  obtain st2 where "foldE (add_batch enc) st1 bs = Inr st2"
    "ii_holds dec n_terms ((docs @ batch_docs b) @ concat (map batch_docs bs)) st2"
    "bs \<noteq> [] \<longrightarrow> ii_vectors st2 \<noteq> None"
    using Cons.IH [OF st1(2)] Cons.prems(2,3) by auto
  then show ?case using st1 by (cases "bs = []") auto
qed simp

section \<open>What build makes of the corpus\<close>

lemma decode_array_nth: "i < n \<Longrightarrow> decode_array dec k n bs ! i = dec (code_at k bs i)"
proof (induction n arbitrary: bs i)
  case (Suc n)
  then show ?case by (cases i) (auto simp: code_at_def add.commute)
qed simp

lemma foldl_max_bounds:
  fixes f :: "'a \<Rightarrow> 'w :: linorder"
  shows "a \<le> foldl (\<lambda>m i. let v = f i in if m < v then v else m) a xs \<and>
    (\<forall>x \<in> set xs. f x \<le> foldl (\<lambda>m i. let v = f i in if m < v then v else m) a xs)"
proof (induction xs arbitrary: a)
  case (Cons x xs)
  show ?case using Cons.IH [of "if a < f x then f x else a"] by (auto simp: Let_def split: if_splits)
qed simp

lemma il_max_value_bounds:
  fixes dec :: "byte list \<Rightarrow> 'w :: linordered_idom"
  assumes "il_element_size l = 4"
  shows "0 \<le> il_max_value dec conv l" "x \<in> set (snd (il_postings dec l)) \<Longrightarrow> x \<le> il_max_value dec conv l"
proof -
  note b = foldl_max_bounds [of 0 "il_get_value dec conv l" "[0..<il_size l]"]
  show "0 \<le> il_max_value dec conv l" using b by (simp add: il_max_value_def)
  assume "x \<in> set (snd (il_postings dec l))"
  then obtain i where "i < il_size l" "x = il_get_value dec conv l i"
    using assms
    by (auto simp: il_postings_def in_set_conv_nth decode_array_nth il_get_value_def value_at_def U32_def code_at_def)
  then show "x \<le> il_max_value dec conv l" using b by (simp add: il_max_value_def)
qed

definition docs_wf :: "nat \<Rightarrow> 'w doc list \<Rightarrow> bool" where
  "docs_wf n_terms docs \<longleftrightarrow> (\<forall>row \<in> set docs. distinct (map fst row) \<and> (\<forall>t \<in> set (map fst row). t < n_terms))"

lemma map_fst_typed_row: "map fst (typed_row dec r) = fst r"
  by (simp add: typed_row_def)

lemma sv_terms_concat:
  assumes "sv_content_wf v"
  shows "concat (map fst (sv_rows v)) = buf_elems (sv_indices v)"
  using assms csr_rows_concat by (auto simp: sv_content_wf_def sv_rows_def csr_rows_def)

lemma corpus_matrix:
  assumes "sv_content_wf v" and "map (typed_row dec) (sv_rows v) = docs" and "docs_wf n_terms docs"
  shows "rows_distinct v" "\<forall>t \<in> set (buf_elems (sv_indices v)). t < n_terms"
    "length (buf_elems (sv_indices v)) = sum_list (map length docs)" "num_vectors v = length docs"
proof -
  have f: "map fst (typed_row dec r) = fst r" for r by (rule map_fst_typed_row)
  have each: "distinct (fst r) \<and> (\<forall>t \<in> set (fst r). t < n_terms)" if "r \<in> set (sv_rows v)" for r
  proof -
    have "typed_row dec r \<in> set docs" using that assms(2) by auto
    then show ?thesis using assms(3) f [of r] unfolding docs_wf_def by metis
  qed
  then show "rows_distinct v" by (simp add: rows_distinct_def)
  show "\<forall>t \<in> set (buf_elems (sv_indices v)). t < n_terms"
    using each unfolding sv_terms_concat [OF assms(1), symmetric] by auto
  have "length (typed_row dec r) = length (fst r)" for r using f [of r] by (metis length_map)
  then show "length (buf_elems (sv_indices v)) = sum_list (map length docs)"
    unfolding sv_terms_concat [OF assms(1), symmetric] assms(2) [symmetric]
    by (simp add: length_concat o_def)
  show "num_vectors v = length docs" using assms(2) by (metis length_map num_vectors_rows)
qed

definition postings_of :: "(byte list \<Rightarrow> 'w) \<Rightarrow> nat \<Rightarrow> sparse_vectors \<Rightarrow> 'w posting_list list" where
  "postings_of dec n_terms v = map (\<lambda>t. il_postings dec (built_list 4 v t)) [0..<n_terms]"

lemma il_element_size_built [simp]: "il_element_size (built_list es v t) = es"
  by (simp add: built_list_def il_new_def)

lemma built_postings:
  fixes dec :: "byte list \<Rightarrow> 'w :: linordered_idom"
  assumes wf: "sv_content_wf v" and es: "sv_element_size v = 4"
    and rows: "map (typed_row dec) (sv_rows v) = docs" and docs: "docs_wf n_terms docs"
    and n: "length docs < 2147479552"
  shows "\<forall>l \<in> set (postings_of dec n_terms v). posting_list_wf l"
    "bounds_wf (postings_of dec n_terms v) (map (\<lambda>t. il_max_value dec conv (built_list 4 v t)) [0..<n_terms])"
    "0 \<le> d \<Longrightarrow> posting_weight (postings_of dec n_terms v) t d =
       (if d < int (length docs) then case map_of (docs ! nat d) t of None \<Rightarrow> 0 | Some w \<Rightarrow> w else 0)"
proof -
  note m = corpus_matrix [OF wf rows docs]
  have n': "num_vectors v < 2147483648" using n m(4) by simp
  note b = built_list_postings [OF wf es m(1) n' refl, of dec]
  show "\<forall>l \<in> set (postings_of dec n_terms v). posting_list_wf l"
  proof
    fix l assume "l \<in> set (postings_of dec n_terms v)"
    then obtain t where l: "l = il_postings dec (built_list 4 v t)" by (auto simp: postings_of_def)
    show "posting_list_wf l" using b(1-3) [where t = t] m(4) n by (auto simp: posting_list_wf_def l)
  qed
  show "bounds_wf (postings_of dec n_terms v) (map (\<lambda>t. il_max_value dec conv (built_list 4 v t)) [0..<n_terms])"
    by (auto simp: bounds_wf_def postings_of_def intro!: il_max_value_bounds)
  assume d: "0 \<le> d"
  have row: "sv_rows v ! i \<in> set (sv_rows v)" "typed_row dec (sv_rows v ! i) = docs ! i" if "i < length docs" for i
    using that rows by (metis nth_mem length_map, metis nth_map length_map)
  have rw: "row_weight dec v t (nat d) =
      (if d < int (length docs) then case map_of (docs ! nat d) t of None \<Rightarrow> 0 | Some w \<Rightarrow> w else 0)"
    using row(2) [of "nat d"] m(4) d by (auto simp: row_weight_def)
  show "posting_weight (postings_of dec n_terms v) t d =
       (if d < int (length docs) then case map_of (docs ! nat d) t of None \<Rightarrow> 0 | Some w \<Rightarrow> w else 0)"
  proof (cases "t < n_terms")
    case True
    then show ?thesis using b(4) [of t d] d rw by (simp add: posting_weight_def postings_of_def)
  next
    case False
    have "map_of (docs ! nat d) t = None" if "d < int (length docs)"
    proof -
      have "docs ! nat d \<in> set docs" using that d by simp
      then have "t \<notin> set (map fst (docs ! nat d))" using docs False by (auto simp: docs_wf_def)
      then show ?thesis by (simp add: map_of_eq_None_iff)
    qed
    then show ?thesis using False by (simp add: posting_weight_def postings_of_def)
  qed
qed

section \<open>Search\<close>

text \<open>What a query's answer is: the selection of the best matches, in order, padded to \<open>k\<close>.\<close>

definition best_answer ::
  "int \<Rightarrow> 'w :: linordered_idom doc list \<Rightarrow> 'w doc \<Rightarrow> (idx_t \<Rightarrow> bool) option \<Rightarrow> 'w list \<times> idx_t list \<Rightarrow> bool" where
  "best_answer k docs q sel r \<longleftrightarrow> (\<exists>scores ids.
     r = (resize (nat k) (- 1) scores, resize (nat k) INVALID_IDX ids) \<and>
     length ids = length scores \<and> sorted_wrt (\<lambda>a b. b \<le> a) scores \<and>
     is_topk (nat k) score (matching docs q sel) (mset (map2 TopKItem scores ids)))"

lemma matching_no_terms: "matching docs ([] :: 'w :: linordered_idom doc) sel = {#}"
  by (simp add: matching_def dot_def)

lemma single_query_best:
  fixes dec :: "byte list \<Rightarrow> 'w :: linordered_idom"
  assumes wf: "sv_content_wf v" and es: "sv_element_size v = 4"
    and rows: "map (typed_row dec) (sv_rows v) = docs" and docs: "docs_wf n_terms docs"
    and n: "length docs < 2147479552" and k: "0 < k"
    and q: "length ws = length ts" "\<forall>w \<in> set ws. 0 \<le> w"
  shows "\<exists>r. single_query (postings_of dec n_terms v)
      (map (\<lambda>t. il_max_value dec conv (built_list 4 v t)) [0..<n_terms]) (replicate 4096 0) ts ws k sel =
        Some (Inr (r, replicate 4096 0)) \<and> best_answer k docs (zip ts ws) sel r"
proof (cases "ts = []")
  case True
  then have "best_answer k docs (zip ts ws) sel (replicate (nat k) (- 1), replicate (nat k) INVALID_IDX)"
    unfolding best_answer_def
    by (intro exI [of _ "[]"]) (simp add: matching_no_terms resize_def)
  then show ?thesis using True k by (simp add: single_query_def)
next
  case False
  note b = built_postings [OF wf es rows docs n]
  let ?P = "postings_of dec n_terms v"
  obtain scores ids where r: "single_query ?P
      (map (\<lambda>t. il_max_value dec conv (built_list 4 v t)) [0..<n_terms]) (replicate 4096 0) ts ws k sel =
      Some (Inr ((resize (nat k) (- 1) scores, resize (nat k) INVALID_IDX ids), replicate 4096 0))"
    "length ids = length scores" "sorted_wrt (\<lambda>a b. b \<le> a) scores"
    "is_topk (nat k) score (candidates (query_score ?P ts ws) sel kNoMoreDocs) (mset (map2 TopKItem scores ids))"
    using single_query_topk [OF b(1,2) q False k, of conv sel] by blast
  have "candidates (query_score ?P ts ws) sel kNoMoreDocs = matching docs (zip ts ws) sel"
  proof (rule candidates_matching)
    fix d :: idx_t assume d: "0 \<le> d"
    show "query_score ?P ts ws d = (if d < int (length docs) then dot (zip ts ws) (docs ! nat d) else 0)"
      unfolding query_score_def b(3) [OF d] by (simp add: dot_def case_prod_beta sum_list_zero)
  qed (use n in \<open>simp add: kNoMoreDocs_def\<close>)
  then show ?thesis using r unfolding best_answer_def by auto
qed

lemma run_queries_all:
  assumes "\<And>q. q \<in> set qs \<Longrightarrow> \<exists>r. query w0 q = Some (Inr (r, w0)) \<and> P q r"
  shows "\<exists>rs. run_queries query thread (\<lambda>_. w0) i qs = Some (Inr (rs, \<lambda>_. w0)) \<and> list_all2 P qs rs"
  using assms
proof (induction qs arbitrary: i)
  case (Cons q qs)
  obtain r where r: "query w0 q = Some (Inr (r, w0))" "P q r" using Cons.prems by (meson list.set_intros(1))
  obtain rs where "run_queries query thread (\<lambda>_. w0) (Suc i) qs = Some (Inr (rs, \<lambda>_. w0))" "list_all2 P qs rs"
    using Cons.IH Cons.prems by (meson list.set_intros(2))
  moreover have "(\<lambda>_. w0)(thread i := w0) = (\<lambda>_. w0)" by (rule ext) simp
  ultimately show ?case using r by simp
qed simp

lemma query_row_eq:
  assumes wf: "sv_content_wf v" and es: "sv_element_size v = 4" and i: "i < num_vectors v"
  shows "zip (fst (query_row dec v i)) (snd (query_row dec v i)) = typed_row dec (sv_rows v ! i)"
    "length (snd (query_row dec v i)) = length (fst (query_row dec v i))"
proof -
  have n: "0 < num_vectors v" using i by simp
  note w = sv_rows_wf [OF wf n]
  have i1: "i + 1 < length (buf_elems (sv_indptr v))" using w(2) i by simp
  note b = csr_row_bounds [OF w(1) i1]
  show "zip (fst (query_row dec v i)) (snd (query_row dec v i)) = typed_row dec (sv_rows v ! i)"
    "length (snd (query_row dec v i)) = length (fst (query_row dec v i))"
    using b(3,4) by (simp_all add: query_row_def typed_row_def sv_rows_def es Let_def)
qed

section \<open>The index returns the best documents\<close>

lemma build_holds:
  assumes "ii_holds dec n_terms docs st" and "ii_vectors st = Some v"
    and "docs_wf (nat n_terms) docs" and "0 < n_terms" and "is_i32 n_terms"
    and "sum_list (map length docs) * 4 \<le> SIZE_MAX"
  shows "ii_build dec conv st = Inr (st\<lparr>ii_num_vectors := length docs, ii_vectors := None,
      ii_lists := Some (ail_new (nat n_terms) 4\<lparr>ail_lists := map (built_list 4 v) [0..<nat n_terms]\<rparr>),
      ii_max_term_scores := buf_own (map (\<lambda>t. il_max_value dec conv (built_list 4 v t)) [0..<nat n_terms])\<rparr>)"
proof -
  have v: "sv_content_wf v" "sv_element_size v = 4" "map (typed_row dec) (sv_rows v) = docs" "ii_dimension st = n_terms"
    using assms(1,2) by (auto simp: ii_holds_def)
  note m = corpus_matrix [OF v(1,3) assms(3)]
  have "size_of_int n_terms = nat n_terms" using assms(4,5) by (simp add: is_i32_def is_i64_def)
  moreover have "build_inverted_lists (nat n_terms) 4 (Some v) =
      Inr (ail_new (nat n_terms) 4\<lparr>ail_lists := map (built_list 4 v) [0..<nat n_terms]\<rparr>)"
    by (rule build_inverted_lists_eq [OF v(1,2) m(2)]) (use m(3) assms(6) in simp)
  ultimately show ?thesis
    using assms(2) v(4) m(4) by (simp add: ii_build_def kElementSize_def U32_def o_def)
qed

lemma ii_search_exact:
  fixes dec :: "byte list \<Rightarrow> 'w :: linordered_idom"
  assumes "\<forall>b \<in> set batches. batch_ok enc dec b" and "batches \<noteq> []"
    and "docs = concat (map batch_docs batches)" and "docs_wf (nat n_terms) docs"
    and "0 < n_terms" and "is_i32 n_terms"
    and "length docs < 2147479552" and "sum_list (map length docs) * 4 \<le> SIZE_MAX"
    and "batch_ok enc dec (ip, ix, vs)" and "\<forall>w \<in> set vs. 0 \<le> w" and "0 < k"
  shows "\<exists>st st' results. foldE (add_batch enc) (ii_new n_terms) batches = Inr st \<and> ii_build dec conv st = Inr st' \<and>
    ii_search enc dec thread (\<lambda>_. replicate 4096 0) st' (int (length ip) - 1) ip ix vs k sel =
      Some (Inr (results, \<lambda>_. replicate 4096 0)) \<and>
    list_all2 (\<lambda>q r. best_answer k docs q sel r) (batch_docs (ip, ix, vs)) results"
proof -
  have "ii_holds dec n_terms [] (ii_new n_terms)" by (simp add: ii_holds_def ii_new_def)
  moreover have "length ([] :: 'w doc list) + length (concat (map batch_docs batches)) \<le> SIZE_MAX"
    using assms(3,7) by (simp add: SIZE_MAX_def)
  ultimately obtain st v where st: "foldE (add_batch enc) (ii_new n_terms) batches = Inr st"
    "ii_holds dec n_terms docs st" "ii_vectors st = Some v"
    using add_batches_hold [of dec n_terms "[]" "ii_new n_terms" batches enc] assms(1-3,5,6) by auto
  have v: "sv_content_wf v" "sv_element_size v = 4" "map (typed_row dec) (sv_rows v) = docs" "ii_dimension st = n_terms"
    using st(2,3) by (auto simp: ii_holds_def)
  let ?ls = "ail_new (nat n_terms) 4\<lparr>ail_lists := map (built_list 4 v) [0..<nat n_terms]\<rparr>"
  let ?max = "map (\<lambda>t. il_max_value dec conv (built_list 4 v t)) [0..<nat n_terms]"
  define st' where "st' = st\<lparr>ii_num_vectors := length docs, ii_vectors := None,
      ii_lists := Some ?ls, ii_max_term_scores := buf_own ?max\<rparr>"
  have build: "ii_build dec conv st = Inr st'"
    unfolding st'_def by (rule build_holds [OF st(2,3) assms(4-6,8)])
  obtain q where q: "add_vectors (sv_default\<lparr>sv_element_size := 4, sv_dimension := nat n_terms\<rparr>) ip ix
      (encode_array enc vs) = Inr q" "sv_content_wf q" "sv_element_size q = 4"
    "map (typed_row dec) (sv_rows q) = batch_docs (ip, ix, vs)"
    using add_encoded_batch [OF assms(9) sv_default_empty(1,2), of "nat n_terms"] sv_default_empty(3) by auto
  have nq: "num_vectors q = length (batch_docs (ip, ix, vs))" using q(4) by (metis length_map num_vectors_rows)
  have len: "length (batch_docs (ip, ix, vs)) = nat (int (length ip) - 1)" "2 \<le> length ip"
    using assms(9) by (auto simp: batch_docs_def nat_diff_distrib batch_ok_def)
  let ?single = "\<lambda>w (ts, ws). single_query (postings_of dec (nat n_terms) v) ?max w ts ws k sel"
  let ?qs = "map (query_row dec q) [0..<nat (int (length ip) - 1)]"
  have nonneg: "\<forall>w \<in> set (snd (query_row dec q i)). 0 \<le> w" if i: "i < num_vectors q" for i
  proof -
    have "zip (fst (query_row dec q i)) (snd (query_row dec q i)) = batch_docs (ip, ix, vs) ! i"
      using query_row_eq(1) [OF q(2,3) i, of dec] q(4) i by (metis nth_map num_vectors_rows)
    then have "set (snd (query_row dec q i)) = snd ` set (batch_docs (ip, ix, vs) ! i)"
      using query_row_eq(2) [OF q(2,3) i, of dec] by (metis map_snd_zip set_map)
    moreover have "snd ` set (batch_docs (ip, ix, vs) ! i) \<subseteq> set vs"
      using i nq by (auto simp: batch_docs_def csr_rows_def slice_def case_prod_beta
          dest!: set_zip_rightD in_set_takeD in_set_dropD)
    ultimately show ?thesis using assms(10) by auto
  qed
  have "\<exists>results. run_queries ?single thread (\<lambda>_. replicate 4096 0) 0 ?qs =
      Some (Inr (results, \<lambda>_. replicate 4096 0)) \<and>
      list_all2 (\<lambda>x r. best_answer k docs (zip (fst x) (snd x)) sel r) ?qs results"
  proof (rule run_queries_all)
    fix x assume "x \<in> set ?qs"
    then obtain i where i: "x = query_row dec q i" "i < num_vectors q" using nq len(1) by auto
    show "\<exists>r. ?single (replicate 4096 0) x = Some (Inr (r, replicate 4096 0)) \<and>
        best_answer k docs (zip (fst x) (snd x)) sel r"
      using single_query_best [OF v(1-3) assms(4,7,11) query_row_eq(2) [OF q(2,3) i(2)] nonneg [OF i(2)], of conv sel]
      unfolding i(1) case_prod_beta .
  qed
  then obtain results where r: "run_queries ?single thread (\<lambda>_. replicate 4096 0) 0 ?qs =
      Some (Inr (results, \<lambda>_. replicate 4096 0))"
    "list_all2 (\<lambda>x r. best_answer k docs (zip (fst x) (snd x)) sel r) ?qs results" by blast
  have "batch_docs (ip, ix, vs) = map (\<lambda>x. zip (fst x) (snd x)) ?qs"
    by (rule nth_equalityI)
      (use query_row_eq(1) [OF q(2,3), of _ dec] q(4) nq len(1) in \<open>simp_all, metis nth_map num_vectors_rows\<close>)
  then have "list_all2 (\<lambda>q r. best_answer k docs q sel r) (batch_docs (ip, ix, vs)) results"
    using r(2) by (simp add: list_all2_map1)
  moreover have "ii_search enc dec thread (\<lambda>_. replicate 4096 0) st' (int (length ip) - 1) ip ix vs k sel =
      Some (Inr (results, \<lambda>_. replicate 4096 0))"
  proof -
    have "map (il_postings dec) (ail_lists ?ls) = postings_of dec (nat n_terms) v" by (simp add: postings_of_def)
    then show ?thesis
      using r(1) len(2) take_batch_ok [OF assms(9)] sv_new_ok [OF assms(5,6)] q(1) v(4)
      by (simp add: ii_search_def st'_def)
  qed
  ultimately show ?thesis using st(1) build by blast
qed

text \<open>
  C1: \<open>InvertedIndex\<close> answers queries exactly. Whatever batches of documents were added before
  \<open>build\<close>, \<open>search\<close> succeeds, terminates, and gives for every query of the batch the \<open>k\<close> selected
  documents of largest positive dot product, best first, padded with \<open>-1\<close>; and it leaves every
  thread's window buffer zeroed for the next query, whatever the schedule. The arithmetic is that
  of an ordered ring, query weights are not negative, documents do not repeat a term, terms stay
  below the index's dimension and document ids below the last window of \<open>INT_MAX\<close>.
\<close>

theorem inverted_index_search_exact:
  fixes dec :: "byte list \<Rightarrow> 'w :: linordered_idom"
  assumes "\<forall>b \<in> set batches. batch_ok enc dec b" and "batches \<noteq> []"
    and "docs = concat (map batch_docs batches)" and "docs_wf (nat n_terms) docs"
    and "0 < n_terms" and "is_i32 n_terms"
    and "length docs < 2147479552" and "sum_list (map length docs) * 4 \<le> SIZE_MAX"
    and "batch_ok enc dec (ip, ix, vs)" and "\<forall>w \<in> set vs. 0 \<le> w" and "0 < k"
  shows "\<exists>st st' results. foldE (add_batch enc) (ii_new n_terms) batches = Inr st \<and> ii_build dec conv st = Inr st' \<and>
    ii_search enc dec thread (\<lambda>_. replicate 4096 0) st' (int (length ip) - 1) ip ix vs k sel =
      Some (Inr (results, \<lambda>_. replicate 4096 0)) \<and>
    list_all2 (\<lambda>q r. best_answer k docs q sel r) (batch_docs (ip, ix, vs)) results"
  by (rule ii_search_exact [OF assms])

theorem inverted_index_search_exact_witness:
  "\<exists>st st' results.
    foldE (add_batch idx_bytes) (ii_new 2) [([0, 2, 3], [0, 1, 1], [3, 5, 2])] = Inr st \<and>
    ii_build int_of_bytes int st = Inr st' \<and>
    ii_search idx_bytes int_of_bytes id (\<lambda>_. replicate 4096 0) st' 1 [0, 1] [1] [4] 1 None =
      Some (Inr (results, \<lambda>_. replicate 4096 0)) \<and>
    list_all2 (\<lambda>q r. best_answer 1 [[(0, 3), (1, 5)], [(1, 2)]] q None r) [[(1, 4)]] results"
proof -
  let ?b = "([0, 2, 3], [0, 1, 1], [3, 5, 2]) :: int batch" and ?q = "([0, 1], [1], [4]) :: int batch"
  have codes: "codes_exactly idx_bytes int_of_bytes vs" if "\<forall>x \<in> set vs. 0 \<le> x \<and> x < 100" for vs
    using that by (auto simp: codes_exactly_def intro!: idx_codec.dec_enc simp: is_i32_def)
  have b: "\<forall>b \<in> set [?b]. batch_ok idx_bytes int_of_bytes b" "batch_ok idx_bytes int_of_bytes ?q"
    by (simp_all add: batch_ok_def csr_wf_def codes SIZE_MAX_def)
  have d: "batch_docs ?b = [[(0, 3), (1, 5)], [(1, 2)]]" "batch_docs ?q = [[(1, 4)]]"
    by (simp_all add: batch_docs_def csr_rows_def slice_def)
  then have docs: "[[(0, 3), (1, 5)], [(1, 2)]] = concat (map batch_docs [?b])" by simp
  have wf: "docs_wf (nat 2) ([[(0, 3), (1, 5)], [(1, 2)]] :: int doc list)"
    by (simp add: docs_wf_def)
  have e: "[?b] \<noteq> []" "(0 :: int) < 2" "is_i32 2"
    "length ([[(0, 3), (1, 5)], [(1, 2)]] :: int doc list) < 2147479552"
    "sum_list (map length ([[(0, 3), (1, 5)], [(1, 2)]] :: int doc list)) * 4 \<le> SIZE_MAX"
    by (simp_all add: is_i32_def SIZE_MAX_def)
  have v: "\<forall>w \<in> set [4 :: int]. 0 \<le> w" "(0 :: int) < 1" by simp_all
  show ?thesis
    using inverted_index_search_exact [OF b(1) e(1) docs wf e(2-5) b(2) v, of int id None] d(2) by simp
qed

section \<open>The index file\<close>

definition ii_wire :: "f32 inverted_index \<Rightarrow> bool" where
  "ii_wire st \<longleftrightarrow> ii_num_vectors st \<le> SIZE_MAX \<and>
     length (buf_elems (ii_max_term_scores st)) \<le> vector_max_size 4 \<and>
     (case ii_lists st of
        None \<Rightarrow> buf_elems (ii_max_term_scores st) = []
      | Some ls \<Rightarrow> ail_wire 4 ls \<and> 0 < ail_size ls \<and> length (buf_elems (ii_max_term_scores st)) = ail_size ls)"

definition same_index :: "'w inverted_index \<Rightarrow> 'w inverted_index \<Rightarrow> bool" where
  "same_index st st' \<longleftrightarrow> ii_dimension st' = ii_dimension st \<and> ii_num_vectors st' = ii_num_vectors st \<and>
     buf_elems (ii_max_term_scores st') = buf_elems (ii_max_term_scores st) \<and>
     rel_option same_lists (ii_lists st) (ii_lists st')"

text \<open>The lists as they are written, and the indexes that show them.\<close>

definition written_lists :: "'w inverted_index \<Rightarrow> array_inverted_lists" where
  "written_lists st = (case ii_lists st of None \<Rightarrow> ail_new 0 kElementSize | Some ls \<Rightarrow> ls)"

lemma same_index_read:
  assumes "ii_wire st" and "same_lists (written_lists st) ls" and "buf_elems b = buf_elems (ii_max_term_scores st)"
  shows "throw_if_scores_are_incomplete ls (buf_size (ii_max_term_scores st)) = Inr ()"
    "same_index st (ii_new (ii_dimension st)\<lparr>ii_num_vectors := ii_num_vectors st, ii_max_term_scores := b,
        ii_lists := (if ail_size ls > 0 then Some ls else None)\<rparr>)"
proof -
  have len: "ail_size ls = ail_size (written_lists st)"
    using assms(2) by (auto simp: same_lists_def ail_size_def dest: list_all2_lengthD)
  show "throw_if_scores_are_incomplete ls (buf_size (ii_max_term_scores st)) = Inr ()"
    using assms(1) len
    by (auto simp: throw_if_scores_are_incomplete_def ii_wire_def written_lists_def buf_size_def ail_new_def
        ail_size_def split: option.splits)
  show "same_index st (ii_new (ii_dimension st)\<lparr>ii_num_vectors := ii_num_vectors st, ii_max_term_scores := b,
        ii_lists := (if ail_size ls > 0 then Some ls else None)\<rparr>)"
    using assms len
    by (auto simp: same_index_def ii_wire_def written_lists_def ii_new_def ail_size_def ail_new_def
        split: option.splits)
qed

lemma written_lists_wire: "ii_wire st \<Longrightarrow> ail_wire 4 (written_lists st)"
  by (auto simp: ii_wire_def written_lists_def ail_wire_def ail_new_def kElementSize_def U32_def split: option.splits)

lemma ii_write_index_eq: "ii_write_index enc st = (\<lambda>w. bindE (write_size_t (ii_num_vectors st) w) (\<lambda>w.
    bindE (ail_serialize (written_lists st) w) (\<lambda>w.
    bindE (write_size_t (buf_size (ii_max_term_scores st)) w) (write_padded enc 4 (buf_elems (ii_max_term_scores st))))))"
  by (intro ext) (simp add: ii_write_index_def written_lists_def)

lemma ii_sizes:
  assumes "ii_wire st"
  shows "ii_num_vectors st < 256 ^ 8" "buf_size (ii_max_term_scores st) < 256 ^ 8"
    "buf_size (ii_max_term_scores st) = length (buf_elems (ii_max_term_scores st))"
  using assms by (auto simp: ii_wire_def SIZE_MAX_def buf_size_def vector_max_size_def)

lemma ii_lists_new: "ii_lists (ii_new d) = None"
  by (simp add: ii_new_def)

lemma ii_read_round_trip:
  assumes "ii_wire st"
  shows "round_trips mk_reader (ii_write_index f32_bytes st)
    (ii_read_index f32_of_bytes (ii_new (ii_dimension st))) (same_index st)"
proof -
  note z = ii_sizes [OF assms]
  let ?xs = "buf_elems (ii_max_term_scores st)"
  have scores: "round_trips mk_reader (write_padded f32_bytes 4 ?xs)
      (\<lambda>r3. bindE (read_padded f32_of_bytes 4 4 (length ?xs) r3) (\<lambda>(b, r4).
        bindE (throw_if_scores_are_incomplete ls (length ?xs)) (\<lambda>_.
        Inr (ii_new (ii_dimension st)\<lparr>ii_num_vectors := ii_num_vectors st, ii_max_term_scores := b,
          ii_lists := (if ail_size ls > 0 then Some ls else ii_lists (ii_new (ii_dimension st) :: f32 inverted_index))\<rparr>, r4))))
      (same_index st)" if ls: "same_lists (written_lists st) ls" for ls
  proof -
    have "round_trips mk_reader (write_padded f32_bytes 4 ?xs)
        (\<lambda>r3. bindE (read_padded f32_of_bytes 4 4 (length ?xs) r3) (\<lambda>(b, r4).
          Inr (ii_new (ii_dimension st)\<lparr>ii_num_vectors := ii_num_vectors st, ii_max_term_scores := b,
          ii_lists := (if ail_size ls > 0 then Some ls else None)\<rparr>, r4))) (same_index st)"
      by (rule round_trips_map [OF float_codec.round_trips_read])
        (use assms same_index_read(2) [OF assms ls] in \<open>auto simp: kMaxAlignment_def ii_wire_def\<close>)
    moreover have "throw_if_scores_are_incomplete ls (length ?xs) = Inr ()"
      using same_index_read(1) [OF assms ls refl] z(3) by simp
    ultimately show ?thesis by (simp only: ii_lists_new bindE.simps)
  qed
  show ?thesis
    unfolding ii_write_index_eq ii_read_index_def z(3) kElementSize_def U32_def
    by (intro round_trips_bind [OF round_trips_read_nat] round_trips_bind [OF ail_round_trip])
      (use z written_lists_wire [OF assms] scores in auto)
qed

lemma ii_map_round_trip:
  assumes "ii_wire st" and "8 dvd base"
  shows "round_trips (mk_cursor base) (ii_write_index f32_bytes st)
    (ii_map_payload f32_of_bytes (ii_new (ii_dimension st))) (same_index st)"
proof -
  note z = ii_sizes [OF assms(1)]
  let ?xs = "buf_elems (ii_max_term_scores st)"
  have four: "(4 :: nat) dvd base" using assms(2) by (rule dvd_trans [rotated]) simp
  have scores: "round_trips (mk_cursor base) (write_padded f32_bytes 4 ?xs)
      (\<lambda>c3. bindE (borrow_padded f32_of_bytes 4 4 4 (length ?xs) c3) (\<lambda>(b, c4).
        bindE (throw_if_scores_are_incomplete ls (length ?xs)) (\<lambda>_.
        Inr (ii_new (ii_dimension st)\<lparr>ii_num_vectors := ii_num_vectors st, ii_max_term_scores := b,
          ii_lists := (if ail_size ls > 0 then Some ls else ii_lists (ii_new (ii_dimension st) :: f32 inverted_index))\<rparr>, c4))))
      (same_index st)" if ls: "same_lists (written_lists st) ls" for ls
  proof -
    have "round_trips (mk_cursor base) (write_padded f32_bytes 4 ?xs)
        (\<lambda>c3. bindE (borrow_padded f32_of_bytes 4 4 4 (length ?xs) c3) (\<lambda>(b, c4).
          Inr (ii_new (ii_dimension st)\<lparr>ii_num_vectors := ii_num_vectors st, ii_max_term_scores := b,
          ii_lists := (if ail_size ls > 0 then Some ls else None)\<rparr>, c4))) (same_index st)"
      by (rule round_trips_map [OF float_codec.round_trips_borrow])
        (use same_index_read(2) [OF assms(1) ls] four in \<open>auto simp: kMaxAlignment_def\<close>)
    moreover have "throw_if_scores_are_incomplete ls (length ?xs) = Inr ()"
      using same_index_read(1) [OF assms(1) ls refl] z(3) by simp
    ultimately show ?thesis by (simp only: ii_lists_new bindE.simps)
  qed
  show ?thesis
    unfolding ii_write_index_eq ii_map_payload_def z(3) kElementSize_def U32_def
    by (intro round_trips_bind [OF round_trips_map_nat] round_trips_bind [OF ail_map_round_trip])
      (use z written_lists_wire [OF assms(1)] scores assms(2) in auto)
qed

text \<open>What a search reads of an index.\<close>

lemma same_lists_postings:
  "same_lists a b \<Longrightarrow> map (il_postings dec) (ail_lists b) = map (il_postings dec) (ail_lists a)"
proof -
  assume "same_lists a b"
  then have "list_all2 same_list (ail_lists a) (ail_lists b)" by (simp add: same_lists_def)
  then show ?thesis
    by induction (auto simp: same_list_def il_postings_def il_size_def buf_size_def)
qed

lemma ii_search_same:
  "same_index st st' \<Longrightarrow> ii_search enc dec thread bufs st' n ip ix vs k sel =
     ii_search enc dec thread bufs st n ip ix vs k sel"
proof -
  assume same: "same_index st st'"
  then have eqs: "ii_dimension st' = ii_dimension st" "buf_elems (ii_max_term_scores st') = buf_elems (ii_max_term_scores st)"
    by (simp_all add: same_index_def)
  show ?thesis
  proof (cases "ii_lists st")
    case None
    then show ?thesis using same by (simp add: same_index_def ii_search_def)
  next
    case (Some a)
    then obtain b where b: "ii_lists st' = Some b" "same_lists a b"
      using same by (auto simp: same_index_def option_rel_Some1)
    show ?thesis
      unfolding ii_search_def Some b(1) option.case eqs same_lists_postings [OF b(2)] ..
  qed
qed

text \<open>
  C5: an \<open>InvertedIndex\<close> written with \<open>write_index\<close> and read back, by \<open>read_index\<close> or mapped in
  place, is the same index: the same document count, posting lists and bounds, so that every
  search on it gives bit for bit what it gave before; and a file that carries fewer or more
  bounds than terms is refused.
\<close>

theorem inverted_index_file_round_trip:
  assumes "ii_wire st" and "8 dvd base"
  shows "round_trips mk_reader (ii_write_index f32_bytes st)
      (ii_read_index f32_of_bytes (ii_new (ii_dimension st))) (same_index st) \<and>
    round_trips (mk_cursor base) (ii_write_index f32_bytes st)
      (ii_map_payload f32_of_bytes (ii_new (ii_dimension st))) (same_index st) \<and>
    (\<forall>st' thread bufs n ip ix vs k sel. same_index st st' \<longrightarrow>
      ii_search f32_bytes f32_of_bytes thread bufs st' n ip ix vs k sel =
      ii_search f32_bytes f32_of_bytes thread bufs st n ip ix vs k sel) \<and>
    (\<forall>r st' r'. ii_read_index f32_of_bytes st r = Inr (st', r') \<and> ii_lists st' \<noteq> ii_lists st \<longrightarrow>
      (\<exists>ls. ii_lists st' = Some ls \<and> buf_size (ii_max_term_scores st') = ail_size ls))"
proof -
  have "\<exists>ls. ii_lists st' = Some ls \<and> buf_size (ii_max_term_scores st') = ail_size ls"
    if r: "ii_read_index f32_of_bytes st r = Inr (st', r')" "ii_lists st' \<noteq> ii_lists st" for r st' r'
  proof -
    obtain ls cnt scores r3 r4 where ls: "read_padded f32_of_bytes 4 4 cnt r3 = Inr (scores, r4)"
      "throw_if_scores_are_incomplete ls cnt = Inr ()" "ii_max_term_scores st' = scores"
      "ii_lists st' = (if ail_size ls > 0 then Some ls else ii_lists st)"
      using r(1) by (auto simp: ii_read_index_def err_simps)
    have "buf_size scores = cnt"
      using ls(1) by (auto simp: read_padded_def read_owned_def err_simps buf_size_def Let_def
          buf_own_def buf_default_def split: if_splits prod.splits)
    moreover have "cnt = ail_size ls"
      using ls(2) by (auto simp: throw_if_scores_are_incomplete_def err_simps)
    ultimately show ?thesis using ls(3,4) r(2) by (auto split: if_splits)
  qed
  then show ?thesis
    using ii_read_round_trip [OF assms(1)] ii_map_round_trip [OF assms] ii_search_same by blast
qed

theorem inverted_index_file_round_trip_witness:
  "round_trips (mk_cursor 4096) (ii_write_index f32_bytes (ii_new 7))
     (ii_map_payload f32_of_bytes (ii_new 7)) (same_index (ii_new 7))"
proof -
  have "ii_wire (ii_new 7)" by (simp add: ii_wire_def ii_new_def)
  moreover have "(8 :: nat) dvd 4096" by simp
  ultimately show ?thesis
    using inverted_index_file_round_trip [of "ii_new 7" 4096] by (simp add: ii_new_def)
qed

end
