(* ===== verification/Distance.thy ===== *)
theory Distance
  imports Sparse_Vectors
begin

text \<open>
  \<^verbatim>\<open>utils/distance.h\<close>, \<^verbatim>\<open>utils/dense_vector_matrix.h\<close> and \<open>compute_similarity\<close>,
  \<open>calculate_summary_scores\<close> and \<open>reorder_clusters\<close> of \<^verbatim>\<open>seismic_common.h\<close>: the scalar kernels that
  score a sparse row against a dense query. A dense array is a list; reading it past its end is
  undefined behaviour, and so is the overflow of an integer accumulator.
\<close>

section \<open>Typed arrays\<close>

text \<open>\<^verbatim>\<open>reinterpret_cast<const T*>\<close> of a byte array: the whole elements it holds.\<close>

definition typed_array :: "nat \<Rightarrow> (byte list \<Rightarrow> 'v) \<Rightarrow> byte list \<Rightarrow> 'v list" where
  "typed_array sizeof dec bytes = decode_array dec sizeof (length bytes div sizeof) bytes"

definition read_at :: "'a list \<Rightarrow> nat \<Rightarrow> exn + 'a" where
  "read_at xs i = (if i < length xs then Inr (xs ! i)
     else Inl (Undefined_behaviour ''read past the end''))"

text \<open>
  A row's first entry and length. A negative offset, or a length below zero that wraps to one above
  \<open>2 ^ 63\<close>, is a pointer past every array.
\<close>

definition row_span :: "offset_t list \<Rightarrow> nat \<Rightarrow> exn + nat \<times> size_t" where
  "row_span indptr i =
     bindE (read_at indptr i) (\<lambda>start. bindE (read_at indptr (i + 1)) (\<lambda>stop.
     if start < 0 \<or> stop < start then Inl (Undefined_behaviour ''read past the end'')
     else Inr (nat start, nat (stop - start))))"

text \<open>An integer accumulator of \<open>bits\<close> bits: a sum out of range is signed overflow.\<close>

definition int_add :: "nat \<Rightarrow> int \<Rightarrow> int \<Rightarrow> exn + int" where
  "int_add bits a b =
     (if - (2 ^ (bits - 1)) \<le> a + b \<and> a + b < 2 ^ (bits - 1) then Inr (a + b)
      else Inl (Undefined_behaviour ''signed integer overflow''))"

section \<open>Dot products of a sparse row with a dense vector\<close>

text \<open>\<open>indices\<close> and \<open>weights\<close> are the \<open>len\<close> elements at the pointers.\<close>

definition dot_product_float_dense ::
  "term_t list \<Rightarrow> 'w list \<Rightarrow> 'w list \<Rightarrow> exn + 'w :: {zero, plus, times}" where
  "dot_product_float_dense indices weights dense =
     foldE (\<lambda>result (t, w). bindE (read_at dense t) (\<lambda>d. Inr (result + w * d))) 0 (zip indices weights)"

definition dot_product_uint8_dense ::
  "(int \<Rightarrow> 'w) \<Rightarrow> term_t list \<Rightarrow> nat list \<Rightarrow> nat list \<Rightarrow> exn + 'w" where
  "dot_product_uint8_dense of_i indices weights dense =
     bindE (foldE (\<lambda>result (t, w). bindE (read_at dense t) (\<lambda>d. int_add 32 result (int (w * d))))
              0 (zip indices weights)) (\<lambda>result. Inr (of_i result))"

definition dot_product_uint16_dense ::
  "(int \<Rightarrow> 'w) \<Rightarrow> term_t list \<Rightarrow> nat list \<Rightarrow> nat list \<Rightarrow> exn + 'w" where
  "dot_product_uint16_dense of_i indices weights dense =
     bindE (foldE (\<lambda>result (t, w). bindE (read_at dense t) (\<lambda>d. int_add 64 result (int (w * d))))
              0 (zip indices weights)) (\<lambda>result. Inr (of_i result))"

text \<open>All rows of a matrix against one dense vector; zero entries of it are skipped; \<open>d \<le> 0 \<and> 0 \<le> d\<close> is \<^verbatim>\<open>==\<close>, which holds for both zeros of a float.\<close>

definition dot_product_vectors_dense ::
  "nat \<Rightarrow> (byte list \<Rightarrow> 'v) \<Rightarrow> ('v \<Rightarrow> 'w) \<Rightarrow> sparse_vectors \<Rightarrow> 'v :: {zero, ord} list \<Rightarrow>
     exn + 'w :: {zero, plus, times} list" where
  "dot_product_vectors_dense sizeof dec to_float vectors dense =
     mapE (\<lambda>i. bindE (row_span (buf_elems (sv_indptr vectors)) i) (\<lambda>(start, len).
             let idx_ptr = drop start (buf_elems (sv_indices vectors));
                 val_ptr = typed_array sizeof dec (drop (start * sizeof) (buf_elems (sv_values vectors)))
             in foldE (\<lambda>result j. bindE (read_at idx_ptr j) (\<lambda>t. bindE (read_at dense t) (\<lambda>d.
                  if d \<le> 0 \<and> 0 \<le> d then Inr result
                  else bindE (read_at val_ptr j) (\<lambda>v. Inr (result + to_float v * to_float d))))) 0 [0..<len]))
       [0..<num_vectors vectors]"

definition calculate_summary_scores ::
  "(byte list \<Rightarrow> 'w) \<Rightarrow> (nat \<Rightarrow> 'w) \<Rightarrow> size_t \<Rightarrow> sparse_vectors \<Rightarrow> byte list \<Rightarrow>
     exn + 'w :: {zero, plus, times, ord} list" where
  "calculate_summary_scores dec conv element_size summaries dense =
     (if element_size = U32 then dot_product_vectors_dense 4 dec id summaries (typed_array 4 dec dense)
      else if element_size = U16
      then dot_product_vectors_dense 2 le_nat conv summaries (typed_array 2 le_nat dense)
      else dot_product_vectors_dense 1 le_nat conv summaries (typed_array 1 le_nat dense))"

text \<open>
  The score of one document at the stored width: \<open>dec\<close> reads a float, \<open>of_i\<close> converts an integer
  accumulator.
\<close>

definition compute_similarity ::
  "(byte list \<Rightarrow> 'w) \<Rightarrow> (int \<Rightarrow> 'w) \<Rightarrow> nat \<Rightarrow> offset_t list \<Rightarrow> term_t list \<Rightarrow> byte list \<Rightarrow>
     byte list \<Rightarrow> size_t \<Rightarrow> exn + 'w :: {zero, plus, times}" where
  "compute_similarity dec of_i doc_id indptr indices values dense element_size =
     bindE (row_span indptr doc_id) (\<lambda>(start, len).
     bindE (take_elems len (drop start indices)) (\<lambda>idx.
     let vals = \<lambda>sizeof. take_elems (len * sizeof) (drop (start * sizeof) values)
     in if element_size = U32
        then bindE (vals 4) (\<lambda>bs. dot_product_float_dense idx (decode_array dec 4 len bs) (typed_array 4 dec dense))
        else if element_size = U16
        then bindE (vals 2) (\<lambda>bs. dot_product_uint16_dense of_i idx (decode_array le_nat 2 len bs) (typed_array 2 le_nat dense))
        else bindE (vals 1) (\<lambda>bs. dot_product_uint8_dense of_i idx (decode_array le_nat 1 len bs) (typed_array 1 le_nat dense))))"

definition reorder_clusters :: "'w :: ord list \<Rightarrow> bool \<Rightarrow> nat list" where
  "reorder_clusters summary_scores first_list =
     (let cluster_order = [0..<length summary_scores]
      in if first_list then sort_by (\<lambda>a b. summary_scores ! b < summary_scores ! a) cluster_order
         else cluster_order)"

section \<open>DenseVectorMatrix\<close>

record 'v dense_vector_matrix =
  dm_data :: "'v list"
  dm_rows :: size_t
  dm_dimension :: size_t

text \<open>The memory is not initialised: \<open>garbage\<close> is what it holds.\<close>

definition dm_new :: "(nat \<Rightarrow> 'v) \<Rightarrow> size_t \<Rightarrow> size_t \<Rightarrow> 'v dense_vector_matrix" where
  "dm_new garbage row dimension =
     \<lparr>dm_data = map garbage [0..<row * dimension], dm_rows = row, dm_dimension = dimension\<rparr>"

definition dm_get :: "'v dense_vector_matrix \<Rightarrow> nat \<Rightarrow> nat \<Rightarrow> exn + 'v" where
  "dm_get m row col = read_at (dm_data m) (row * dm_dimension m + col)"

definition dm_set :: "'v dense_vector_matrix \<Rightarrow> nat \<Rightarrow> nat \<Rightarrow> 'v \<Rightarrow> exn + 'v dense_vector_matrix" where
  "dm_set m row col value = bindE (store (row * dm_dimension m + col) value (dm_data m))
     (\<lambda>data. Inr (m\<lparr>dm_data := data\<rparr>))"

lemma dm_index_inj:
  assumes "c < n" and "c' < (n :: nat)"
  shows "r * n + c = r' * n + c' \<longleftrightarrow> r = r' \<and> c = c'"
proof
  assume e: "r * n + c = r' * n + c'"
  have "(r * n + c) div n = (r' * n + c') div n" "(r * n + c) mod n = (r' * n + c') mod n"
    using e by simp_all
  then show "r = r' \<and> c = c'" using assms by simp
qed simp

lemma dm_get_set:
  assumes "r < dm_rows m" and "c < dm_dimension m" and "r' < dm_rows m" and "c' < dm_dimension m"
    and "length (dm_data m) = dm_rows m * dm_dimension m"
  shows "\<exists>m'. dm_set m r c v = Inr m' \<and>
    dm_get m' r' c' = (if r' = r \<and> c' = c then Inr v else dm_get m r' c')"
proof -
  have b: "r * dm_dimension m + c < length (dm_data m)" if "r < dm_rows m" "c < dm_dimension m" for r c
  proof -
    have "r * dm_dimension m + c < Suc r * dm_dimension m" using that by simp
    also have "\<dots> \<le> dm_rows m * dm_dimension m" using that by (intro mult_le_mono1) simp
    finally show ?thesis using assms(5) by simp
  qed
  show ?thesis
    using b [OF assms(1,2)] b [OF assms(3,4)] dm_index_inj [OF assms(2,4), of r r']
    by (auto simp: dm_set_def store_def dm_get_def read_at_def nth_list_update)
qed

section \<open>What the kernels compute\<close>

lemma read_at_in [simp]: "i < length xs \<Longrightarrow> read_at xs i = Inr (xs ! i)"
  by (simp add: read_at_def)

lemma row_span_Inr:
  "i + 1 < length indptr \<Longrightarrow> 0 \<le> indptr ! i \<Longrightarrow> indptr ! i \<le> indptr ! (i + 1) \<Longrightarrow>
   row_span indptr i = Inr (nat (indptr ! i), nat (indptr ! (i + 1)) - nat (indptr ! i))"
  by (simp add: row_span_def nat_diff_distrib)

lemma decode_array_take: "decode_array dec k n (take (n * k) xs) = decode_array dec k n xs"
proof (induction n arbitrary: xs)
  case (Suc n)
  have "take (n * k) (drop k xs) = drop k (take (Suc n * k) xs)" by (simp add: drop_take)
  moreover have "take k (take (Suc n * k) xs) = take k xs" by simp
  ultimately show ?case using Suc [of "drop k xs"] by (simp only: decode_array.simps)
qed simp

text \<open>The scored slices of a well-formed matrix are inside its arrays.\<close>

lemma compute_similarity_wf:
  assumes "csr_wf es ip ix vs" and "i + 1 < length ip" and "es \<in> {1, 2, 4}"
  shows "compute_similarity dec of_i i ip ix vs dense es =
    (let s = nat (ip ! i); len = nat (ip ! (i + 1)) - s; idx = take len (drop s ix); vals = drop (s * es) vs
     in if es = U32 then dot_product_float_dense idx (decode_array dec 4 len vals) (typed_array 4 dec dense)
        else if es = U16 then dot_product_uint16_dense of_i idx (decode_array le_nat 2 len vals) (typed_array 2 le_nat dense)
        else dot_product_uint8_dense of_i idx (decode_array le_nat 1 len vals) (typed_array 1 le_nat dense))"
proof -
  define s where "s = nat (ip ! i)"
  define e where "e = nat (ip ! (i + 1))"
  note b = csr_row_bounds [OF assms(1,2), folded s_def e_def]
  have vs: "length vs = length ix * es" using assms(1) by (simp add: csr_wf_def)
  have "(e - s) * es \<le> (length ix - s) * es" using b(3) by (intro mult_le_mono1) simp
  then have v: "take_elems ((e - s) * es) (drop (s * es) vs) = Inr (take ((e - s) * es) (drop (s * es) vs))"
    by (simp add: take_elems_def vs diff_mult_distrib)
  have t: "take_elems (e - s) (drop s ix) = Inr (take (e - s) (drop s ix))" using b(3) by (simp add: take_elems_def)
  have e': "nat (ip ! Suc i) = e" by (simp add: e_def)
  show ?thesis
    using assms(3) v t row_span_Inr [OF assms(2) b(1,2), folded s_def e_def]
    by (auto simp: compute_similarity_def Let_def s_def [symmetric] e' U32_def U16_def
        decode_array_take [of _ 4, simplified] decode_array_take [of _ 2, simplified] decode_array_take [of _ 1, simplified])
qed

lemma compute_similarity_slice:
  assumes "length vs = length ix * es" and "0 < es"
  shows "compute_similarity dec of_i 0 [0, int (length ix)] ix vs dense es =
    (if es = U32 then dot_product_float_dense ix (decode_array dec 4 (length ix) vs) (typed_array 4 dec dense)
     else if es = U16 then dot_product_uint16_dense of_i ix (decode_array le_nat 2 (length ix) vs) (typed_array 2 le_nat dense)
     else dot_product_uint8_dense of_i ix (decode_array le_nat 1 (length ix) vs) (typed_array 1 le_nat dense))"
proof -
  have span: "row_span [0, int (length ix)] 0 = Inr (0, length ix)" by (simp add: row_span_def read_at_def)
  have "length ix \<le> length ix * es" using assms(2) by simp
  then have vs: "take_elems (length ix * w) vs = Inr (take (length ix * w) vs)" if "w = es \<or> w = 1" for w
    using assms(1) that by (auto simp: take_elems_def)
  have ix: "take_elems (length ix) ix = Inr ix" by (simp add: take_elems_def)
  show ?thesis
    using vs [of 4] vs [of 2] vs [of 1]
    by (auto simp: compute_similarity_def span ix Let_def U32_def U16_def
        decode_array_take [of _ 4, simplified] decode_array_take [of _ 2, simplified] decode_array_take [of _ 1, simplified])
qed

lemma foldl_add_sum:
  "foldl (\<lambda>r x. r + f x) a xs = a + (\<Sum>x \<leftarrow> xs. f x :: 'w :: monoid_add)"
  by (induction xs arbitrary: a) (simp_all add: add.assoc)

definition sparse_dense :: "'w list \<Rightarrow> (term_t \<times> 'w) list \<Rightarrow> 'w :: {monoid_add, times}" where
  "sparse_dense dense row = (\<Sum>(t, w) \<leftarrow> row. w * dense ! t)"

lemma dot_product_float_dense_eq:
  fixes dense :: "'w :: {monoid_add, times} list"
  assumes "\<forall>t \<in> set indices. t < length dense"
  shows "dot_product_float_dense indices weights dense = Inr (sparse_dense dense (zip indices weights))"
proof -
  have "dot_product_float_dense indices weights dense =
      Inr (foldl (\<lambda>result (t, w). result + w * dense ! t) 0 (zip indices weights))"
    unfolding dot_product_float_dense_def
    by (rule foldE_Inr_foldl) (use assms in \<open>auto dest: set_zip_leftD\<close>)
  also have "foldl (\<lambda>result (t, w). result + w * dense ! t) 0 (zip indices weights) =
      sparse_dense dense (zip indices weights)"
    using foldl_add_sum [of "\<lambda>x. snd x * dense ! fst x" 0 "zip indices weights"]
    by (simp add: sparse_dense_def case_prod_unfold)
  finally show ?thesis .
qed

lemma foldE_int_add:
  assumes "\<forall>(t, w) \<in> set ps. t < length dense \<and> w * dense ! t \<le> m"
    and "0 \<le> a" and "a + int (length ps) * int m < 2 ^ (bits - 1)"
  shows "foldE (\<lambda>result (t, w). bindE (read_at dense t) (\<lambda>d. int_add bits result (int (w * d)))) a ps =
    Inr (a + (\<Sum>(t, w) \<leftarrow> ps. int (w * dense ! t)))"
  using assms
proof (induction ps arbitrary: a)
  case (Cons p ps)
  obtain t w where p: "p = (t, w)" by (cases p)
  have tw: "t < length dense" "w * dense ! t \<le> m" using Cons.prems(1) by (auto simp: p)
  have le: "int (w * dense ! t) \<le> int m" using tw(2) by (simp only: of_nat_le_iff)
  have nn: "0 \<le> int (length ps) * int m" by simp
  have sum: "a + int (w * dense ! t) + int (length ps) * int m < 2 ^ (bits - 1)"
    using Cons.prems(3) le by (simp add: distrib_right)
  then have "a + int (w * dense ! t) < 2 ^ (bits - 1)" using nn by linarith
  moreover have "- (2 ^ (bits - 1)) \<le> a + int (w * dense ! t)"
  proof -
    have "(0 :: int) \<le> 2 ^ (bits - 1)" by simp
    then show ?thesis using Cons.prems(2) by linarith
  qed
  ultimately have "int_add bits a (int (w * dense ! t)) = Inr (a + int (w * dense ! t))"
    by (simp add: int_add_def)
  moreover have "foldE (\<lambda>result (t, w). bindE (read_at dense t) (\<lambda>d. int_add bits result (int (w * d))))
      (a + int (w * dense ! t)) ps =
    Inr (a + int (w * dense ! t) + (\<Sum>(t, w) \<leftarrow> ps. int (w * dense ! t)))"
    by (rule Cons.IH) (use Cons.prems sum in auto)
  ultimately show ?case using tw(1) by (simp add: p add.assoc)
qed simp

text \<open>
  C25: \<open>dot_product_uint8_dense\<close> is exact for rows of up to 33025 entries, whatever the bytes; its
  \<^verbatim>\<open>int\<close> accumulator overflows on a row of 33026 entries. \<open>dot_product_uint16_dense\<close>, which
  accumulates in 64 bits, is exact for every row of fewer than \<open>2 ^ 31\<close> entries.
\<close>

theorem quantized_dot_products_exact:
  assumes "\<forall>t \<in> set indices. t < length dense" and "\<forall>w \<in> set weights. w < 2 ^ bits"
    and "\<forall>d \<in> set dense. d < 2 ^ bits" and "bits = 8 \<or> bits = 16" and "length weights = length indices"
  shows "(bits = 8 \<and> length indices \<le> 33025 \<longrightarrow> dot_product_uint8_dense of_i indices weights dense =
      Inr (of_i (\<Sum>(t, w) \<leftarrow> zip indices weights. int (w * dense ! t)))) \<and>
    (length indices < 2 ^ 31 \<longrightarrow> dot_product_uint16_dense of_i indices weights dense =
      Inr (of_i (\<Sum>(t, w) \<leftarrow> zip indices weights. int (w * dense ! t)))) \<and>
    dot_product_uint8_dense of_i (replicate 33026 0) (replicate 33026 255) [255] =
      Inl (Undefined_behaviour ''signed integer overflow'')"
proof -
  have le: "w * dense ! t \<le> (2 ^ bits - 1) * (2 ^ bits - 1)" if "(t, w) \<in> set (zip indices weights)" for t w
  proof (rule mult_le_mono)
    show "w \<le> 2 ^ bits - 1" using set_zip_rightD [OF that] assms(2) by fastforce
    have "t < length dense" using set_zip_leftD [OF that] assms(1) by blast
    then have "dense ! t < 2 ^ bits" using assms(3) nth_mem by blast
    then show "dense ! t \<le> 2 ^ bits - 1" by simp
  qed
  have in_range: "\<forall>(t, w) \<in> set (zip indices weights). t < length dense \<and>
      w * dense ! t \<le> (2 ^ bits - 1) * (2 ^ bits - 1)"
    using le set_zip_leftD [of _ _ indices weights] assms(1) by blast
  have u8: "dot_product_uint8_dense of_i indices weights dense =
      Inr (of_i (\<Sum>(t, w) \<leftarrow> zip indices weights. int (w * dense ! t)))"
    if "bits = 8" "length indices \<le> 33025"
  proof -
    have "int (length (zip indices weights)) * int ((2 ^ bits - 1) * (2 ^ bits - 1)) < 2 ^ (32 - 1)"
      using that assms(5) by simp
    then show ?thesis
      unfolding dot_product_uint8_dense_def by (subst foldE_int_add [OF in_range]) simp_all
  qed
  have u16: "dot_product_uint16_dense of_i indices weights dense =
      Inr (of_i (\<Sum>(t, w) \<leftarrow> zip indices weights. int (w * dense ! t)))"
    if "length indices < 2 ^ 31"
  proof -
    define m :: nat where "m = (2 ^ bits - 1) * (2 ^ bits - 1)"
    have "m \<le> 4294836225" using assms(4) by (auto simp: m_def)
    then have "int m \<le> 4294836225" by simp
    then have "int (length (zip indices weights)) * int m \<le> 2147483648 * 4294836225"
      using that assms(5) by (intro mult_mono) simp_all
    then have "int (length (zip indices weights)) * int ((2 ^ bits - 1) * (2 ^ bits - 1)) \<le> 2147483648 * 4294836225"
      by (simp only: m_def)
    then have "0 + int (length (zip indices weights)) * int ((2 ^ bits - 1) * (2 ^ bits - 1)) < 2 ^ (64 - 1)" by simp
    then show ?thesis
      unfolding dot_product_uint16_dense_def by (subst foldE_int_add [OF in_range]) simp_all
  qed
  have over: "dot_product_uint8_dense of_i (replicate 33026 0) (replicate 33026 255) [255] =
      Inl (Undefined_behaviour ''signed integer overflow'')"
  proof -
    have z: "zip (replicate 33026 (0 :: nat)) (replicate 33026 (255 :: nat)) = replicate 33025 (0, 255) @ [(0, 255)]"
      by (simp add: zip_replicate replicate_append_same flip: replicate_Suc)
    have sum: "(\<Sum>(t, w) \<leftarrow> replicate 33025 (0, 255). int (w * [255 :: nat] ! t)) = 2147450625"
      by (simp add: sum_list_replicate)
    have "foldE (\<lambda>result (t, w). bindE (read_at [255 :: nat] t) (\<lambda>d. int_add 32 result (int (w * d)))) 0
        (replicate 33025 (0, 255)) = Inr (0 + (\<Sum>(t, w) \<leftarrow> replicate 33025 (0, 255). int (w * [255 :: nat] ! t)))"
      by (rule foldE_int_add [where m = 65025]) auto
    then show ?thesis
      unfolding dot_product_uint8_dense_def z foldE_append sum by (simp add: int_add_def)
  qed
  show ?thesis using u8 u16 over by blast
qed

theorem quantized_dot_products_exact_witness:
  "dot_product_uint8_dense id [1, 0] [200, 255] [255, 100] = Inr 85025"
  using quantized_dot_products_exact [of "[1, 0]" "[255, 100]" "[200, 255]" 8 id] by simp

end
