(* ===== verification/Brutal_Index.thy ===== *)
theory Brutal_Index
  imports Inverted_Index Distance
begin

text \<open>
  \<^verbatim>\<open>brutal_index.cpp\<close>, \<open>BrutalIndex\<close>: every document is scored against every query. Also the
  public \<open>search\<close> of \<^verbatim>\<open>index.cpp\<close>, which copies rows of results into the caller's arrays. The main
  theorems: the answer is the selection of the \<open>k\<close> best documents, and where enough documents
  score above zero it has the scores of \<open>InvertedIndex\<close>.
\<close>

section \<open>Appending a batch to the index's vectors\<close>

text \<open>The body the unquantized indexes share: the vectors are made on the first \<open>add\<close>.\<close>

definition vectors_add ::
  "('w \<Rightarrow> byte list) \<Rightarrow> int \<Rightarrow> sparse_vectors option \<Rightarrow> idx_t \<Rightarrow> offset_t list option \<Rightarrow>
     term_t list option \<Rightarrow> 'w list option \<Rightarrow> exn + sparse_vectors" where
  "vectors_add enc dimension vectors n indptr indices values =
     bindE (throw_if_not_positive n) (\<lambda>_.
     bindE (throw_if_null indptr ''unexpected nullptr'') (\<lambda>indptr.
     bindE (throw_if_null indices ''unexpected nullptr'') (\<lambda>indices.
     bindE (throw_if_null values ''unexpected nullptr'') (\<lambda>values.
     bindE (take_batch enc n indptr indices values) (\<lambda>(ip, ix, ws).
     bindE (case vectors of None \<Rightarrow> sv_new U32 (size_of_int dimension) | Some v \<Rightarrow> Inr v) (\<lambda>v.
     add_vectors v ip ix ws))))))"

definition query_matrix ::
  "('w \<Rightarrow> byte list) \<Rightarrow> int \<Rightarrow> idx_t \<Rightarrow> offset_t list \<Rightarrow> term_t list \<Rightarrow> 'w list \<Rightarrow> exn + sparse_vectors" where
  "query_matrix enc dimension n indptr indices values =
     bindE (take_batch enc n indptr indices values) (\<lambda>(ip, ix, ws).
     bindE (sv_new U32 (size_of_int dimension)) (\<lambda>v. add_vectors v ip ix ws))"

section \<open>BrutalIndex\<close>

record brutal_index =
  bi_dimension :: int
  bi_vectors :: "sparse_vectors option"

definition bi_new :: "int \<Rightarrow> brutal_index" where
  "bi_new d = \<lparr>bi_dimension = d, bi_vectors = None\<rparr>"

definition bi_add ::
  "('w \<Rightarrow> byte list) \<Rightarrow> brutal_index \<Rightarrow> idx_t \<Rightarrow> offset_t list option \<Rightarrow> term_t list option \<Rightarrow>
     'w list option \<Rightarrow> exn + brutal_index" where
  "bi_add enc st n indptr indices values =
     bindE (vectors_add enc (bi_dimension st) (bi_vectors st) n indptr indices values)
       (\<lambda>v. Inr (st\<lparr>bi_vectors := Some v\<rparr>))"

definition bi_single_query ::
  "(byte list \<Rightarrow> 'w) \<Rightarrow> sparse_vectors \<Rightarrow> 'w list \<Rightarrow> int \<Rightarrow>
     exn + 'w :: {zero, one, uminus, plus, times, ord} list \<times> idx_t list" where
  "bi_single_query dec vectors dense k =
     (if num_vectors vectors = 0 then Inr ([], [])
      else if k < 0 then Inl (Length_error ''vector::reserve'')
      else if k = 0 then Inl (Undefined_behaviour ''top of an empty queue'')
      else bindE (foldE (\<lambda>holder i.
               let row = query_row dec vectors i
               in bindE (dot_product_float_dense (fst row) (snd row) dense)
                    (\<lambda>score. Inr (dedupe_add_id id holder score (i32 (int i)))))
             (dedupe_new k) [0..<num_vectors vectors]) (\<lambda>holder.
           let (labels, scores) = dedupe_with_scores_and_padding holder INVALID_IDX (- 1)
           in Inr (scores, labels)))"

definition bi_search ::
  "('w \<Rightarrow> byte list) \<Rightarrow> (byte list \<Rightarrow> 'w) \<Rightarrow> (nat \<Rightarrow> 'w) \<Rightarrow> brutal_index \<Rightarrow> idx_t \<Rightarrow> offset_t list \<Rightarrow>
     term_t list \<Rightarrow> 'w list \<Rightarrow> int \<Rightarrow>
     exn + ('w :: {zero, one, uminus, plus, times, ord} list \<times> idx_t list) list" where
  "bi_search enc dec conv st n indptr indices values k = (case bi_vectors st of
       None \<Rightarrow> Inr (replicate (nat n) ([], []))
     | Some vectors \<Rightarrow>
         if n = 0 then Inr []
         else bindE (query_matrix enc (bi_dimension st) n indptr indices values) (\<lambda>query_vectors.
              mapE (\<lambda>query_idx.
                bindE (get_dense_vector_typed dec conv query_vectors (int query_idx)) (\<lambda>dense.
                bi_single_query dec vectors dense k)) [0..<nat n]))"

section \<open>The public search\<close>

text \<open>Rows copied one after the other into \<open>distances\<close> and \<open>labels\<close>, arrays of the caller.\<close>

definition copy_into :: "'a list \<Rightarrow> 'a list \<Rightarrow> exn + 'a list" where
  "copy_into dest src = (if length src \<le> length dest then Inr (src @ drop (length src) dest)
     else Inl (Undefined_behaviour ''write past the end''))"

definition index_search_into ::
  "(exn + ('w list \<times> idx_t list) list) \<Rightarrow> idx_t \<Rightarrow> int \<Rightarrow> offset_t list option \<Rightarrow> term_t list option \<Rightarrow>
     'w list option \<Rightarrow> 'w list option \<Rightarrow> idx_t list option \<Rightarrow> exn + 'w list \<times> idx_t list" where
  "index_search_into result n k indptr indices values distances labels =
     bindE (throw_if_not_positive n) (\<lambda>_.
     bindE (throw_if_not_positive k) (\<lambda>_.
     bindE (throw_if_null indptr ''unexpected nullptr'') (\<lambda>_.
     bindE (throw_if_null indices ''unexpected nullptr'') (\<lambda>_.
     bindE (throw_if_null values ''unexpected nullptr'') (\<lambda>_.
     bindE (throw_if_null labels ''unexpected nullptr'') (\<lambda>labels.
     bindE (throw_if_null distances ''unexpected nullptr'') (\<lambda>distances.
     bindE result (\<lambda>rows.
     bindE (copy_into distances (concat (map fst rows))) (\<lambda>d.
     bindE (copy_into labels (concat (map snd rows))) (\<lambda>l. Inr (d, l)))))))))))"

section \<open>Vectors that hold a corpus\<close>

definition holds_docs :: "(byte list \<Rightarrow> 'w) \<Rightarrow> 'w doc list \<Rightarrow> sparse_vectors \<Rightarrow> bool" where
  "holds_docs dec docs v \<longleftrightarrow> sv_content_wf v \<and> sv_growable v \<and> sv_element_size v = 4 \<and>
     map (typed_row dec) (sv_rows v) = docs"

lemma vectors_add_holds:
  assumes "case vectors of None \<Rightarrow> docs = [] | Some v \<Rightarrow> holds_docs dec docs v"
    and b: "batch_ok enc dec (ip, ix, vs)" and "0 < n_terms" and "is_i32 n_terms"
  shows "\<exists>v. vectors_add enc n_terms vectors (int (length ip) - 1) (Some ip) (Some ix) (Some vs) = Inr v \<and>
    holds_docs dec (docs @ batch_docs (ip, ix, vs)) v"
proof -
  have len: "2 \<le> length ip" using b by (simp add: batch_ok_def)
  define v where "v = (case vectors of
    None \<Rightarrow> sv_default\<lparr>sv_element_size := 4, sv_dimension := nat n_terms\<rparr> | Some v \<Rightarrow> v)"
  have v: "sv_content_wf v" "sv_growable v" "sv_element_size v = 4" "map (typed_row dec) (sv_rows v) = docs"
    using assms(1) by (auto simp: holds_docs_def v_def sv_default_empty split: option.splits)
  have get: "(case vectors of None \<Rightarrow> sv_new U32 (size_of_int n_terms) | Some v \<Rightarrow> Inr v) = Inr v"
    using sv_new_ok [OF assms(3,4)] by (simp add: v_def kElementSize_def split: option.split)
  obtain v' where v': "add_vectors v ip ix (encode_array enc vs) = Inr v'" "sv_content_wf v'" "sv_growable v'"
    "sv_element_size v' = 4" "map (typed_row dec) (sv_rows v') = docs @ batch_docs (ip, ix, vs)"
    using add_encoded_batch [OF b v(1-3)] v(4) by auto
  have "throw_if_not_positive (int (length ip) - 1) = Inr (int (length ip) - 1)"
    using len by (simp add: throw_if_not_positive_def)
  then show ?thesis
    using v' by (simp add: vectors_add_def take_batch_ok [OF b] throw_if_null_def get holds_docs_def)
qed

lemma query_matrix_ok:
  assumes b: "batch_ok enc dec (ip, ix, vs)" and "0 < n_terms" and "is_i32 n_terms"
  shows "\<exists>q. query_matrix enc n_terms (int (length ip) - 1) ip ix vs = Inr q \<and>
    holds_docs dec (batch_docs (ip, ix, vs)) q \<and> sv_dimension q = nat n_terms"
proof -
  obtain q where "add_vectors (sv_default\<lparr>sv_element_size := 4, sv_dimension := nat n_terms\<rparr>) ip ix
      (encode_array enc vs) = Inr q" "sv_content_wf q" "sv_growable q" "sv_element_size q = 4"
    "map (typed_row dec) (sv_rows q) = batch_docs (ip, ix, vs)"
    using add_encoded_batch [OF b sv_default_empty(1,2), of "nat n_terms"] sv_default_empty(3) by auto
  moreover from this(1) have "sv_dimension q = nat n_terms"
    by (auto simp: add_vectors_def err_simps Let_def split: if_splits)
  ultimately show ?thesis
    using sv_new_ok [OF assms(2,3)]
    by (simp add: query_matrix_def take_batch_ok [OF b] kElementSize_def holds_docs_def)
qed

lemma holds_docs_row:
  assumes "holds_docs dec docs v" and "i < length docs"
  shows "i < num_vectors v" "typed_row dec (sv_rows v ! i) = docs ! i"
    "zip (fst (query_row dec v i)) (snd (query_row dec v i)) = docs ! i"
    "fst (query_row dec v i) = map fst (docs ! i)"
proof -
  have r: "map (typed_row dec) (sv_rows v) = docs" and w: "sv_content_wf v" "sv_element_size v = 4"
    using assms(1) by (auto simp: holds_docs_def)
  have len: "length (sv_rows v) = length docs" using r by (metis length_map)
  then show i: "i < num_vectors v" using assms(2) by (simp add: num_vectors_rows)
  show t: "typed_row dec (sv_rows v ! i) = docs ! i" using r assms(2) len by (metis nth_map)
  show z: "zip (fst (query_row dec v i)) (snd (query_row dec v i)) = docs ! i"
    using query_row_eq(1) [OF w i, of dec] t by simp
  show "fst (query_row dec v i) = map fst (docs ! i)"
    unfolding z [symmetric] using query_row_eq(2) [OF w i, of dec] by simp
qed

lemma holds_docs_wf:
  assumes "holds_docs dec docs v" and "i < length docs"
  shows "csr_wf 4 (buf_elems (sv_indptr v)) (buf_elems (sv_indices v)) (buf_elems (sv_values v))"
    "i + 1 < length (buf_elems (sv_indptr v))"
proof -
  have n: "i < num_vectors v" by (rule holds_docs_row(1) [OF assms])
  then show "i + 1 < length (buf_elems (sv_indptr v))" by (simp add: num_vectors_def buf_empty_def buf_size_def split: if_splits)
  then show "csr_wf 4 (buf_elems (sv_indptr v)) (buf_elems (sv_indices v)) (buf_elems (sv_values v))"
    using assms(1) by (auto simp: holds_docs_def sv_content_wf_def)
qed

section \<open>Scoring through the dense query is the dot product\<close>

lemma sum_list_swap:
  "(\<Sum>x \<leftarrow> xs. \<Sum>y \<leftarrow> ys. f x y) = (\<Sum>y \<leftarrow> ys. \<Sum>x \<leftarrow> xs. f x y :: 'w :: comm_monoid_add)"
  by (induction xs) (simp_all add: sum_list_addf)

lemma lookup_as_sum:
  fixes row :: "'w :: linordered_idom doc"
  assumes "distinct (map fst row)"
  shows "(case map_of row t of None \<Rightarrow> 0 | Some w \<Rightarrow> w) = (\<Sum>(t', w) \<leftarrow> row. if t' = t then w else 0)"
  using assms
proof (induction row)
  case (Cons p row)
  obtain t' w where p: "p = (t', w)" by (cases p)
  have "(\<Sum>(t', w) \<leftarrow> row. if t' = t then w else 0) = 0" if "t \<notin> fst ` set row"
    using that by (intro sum_list_zero) force
  then show ?case using Cons by (auto simp: p)
qed simp

text \<open>The weight of a term is looked up in either of the two rows.\<close>

lemma dot_commute:
  fixes q :: "'w :: linordered_idom doc"
  assumes "distinct (map fst q)" and "distinct (map fst row)"
  shows "dot q row = (\<Sum>(t, w) \<leftarrow> row. w * (case map_of q t of None \<Rightarrow> 0 | Some v \<Rightarrow> v))"
proof -
  let ?e = "\<lambda>x y. if fst x = fst y then snd x * snd y else (0 :: 'w)"
  have "dot q row = (\<Sum>x \<leftarrow> q. \<Sum>y \<leftarrow> row. ?e x y)"
    unfolding dot_def lookup_as_sum [OF assms(2)]
    by (intro arg_cong [where f = sum_list] map_cong refl)
      (auto simp: case_prod_unfold sum_list_const_mult [symmetric] intro!: arg_cong [where f = sum_list] map_cong)
  also have "\<dots> = (\<Sum>y \<leftarrow> row. \<Sum>x \<leftarrow> q. ?e x y)" by (rule sum_list_swap)
  also have "\<dots> = (\<Sum>(t, w) \<leftarrow> row. w * (case map_of q t of None \<Rightarrow> 0 | Some v \<Rightarrow> v))"
    unfolding lookup_as_sum [OF assms(1)]
    by (intro arg_cong [where f = sum_list] map_cong refl)
      (auto simp: case_prod_unfold sum_list_const_mult [symmetric] mult.commute
        intro!: arg_cong [where f = sum_list] map_cong)
  finally show ?thesis .
qed

lemma map_of_rev_distinct: "distinct (map fst q) \<Longrightarrow> map_of (rev q) = map_of q"
  by (rule map_of_inject_set [THEN iffD2]) (simp_all add: rev_map [symmetric])

lemma sparse_dense_densify:
  fixes q :: "'w :: linordered_idom doc"
  assumes "distinct (map fst q)" and "distinct (map fst row)" and "\<forall>t \<in> set (map fst row). t < n"
  shows "sparse_dense (densify n (map fst q) (map snd q)) row = dot q row"
proof -
  have "densify n (map fst q) (map snd q) ! t = (case map_of q t of None \<Rightarrow> 0 | Some v \<Rightarrow> v)"
    if "t < n" for t
    using that densify_nth [of t n "map fst q" "map snd q"]
    by (simp add: zip_map_fst_snd map_of_rev_distinct [OF assms(1)])
  then have "sparse_dense (densify n (map fst q) (map snd q)) row =
      (\<Sum>(t, w) \<leftarrow> row. w * (case map_of q t of None \<Rightarrow> 0 | Some v \<Rightarrow> v))"
    unfolding sparse_dense_def
    by (intro arg_cong [where f = sum_list] map_cong) (use assms(3) in auto)
  then show ?thesis by (simp add: dot_commute [OF assms(1,2)])
qed

lemma row_floats_encoded:
  assumes "holds_docs dec docs v" and "i < length docs"
  shows "row_floats dec conv 4 (snd (sv_rows v ! i)) = map snd (docs ! i)"
proof -
  have r: "map (typed_row dec) (sv_rows v) = docs" and w: "sv_content_wf v" "sv_element_size v = 4"
    using assms(1) by (auto simp: holds_docs_def)
  note i = holds_docs_row(1) [OF assms]
  have n: "0 < num_vectors v" using i by simp
  note sw = sv_rows_wf [OF w(1) n]
  have i1: "i + 1 < length (buf_elems (sv_indptr v))" using sw(2) i by simp
  note b = csr_row_bounds [OF sw(1) i1]
  let ?r = "sv_rows v ! i"
  have len: "length (snd ?r) = length (fst ?r) * 4"
    using b(3,4) sw(1) by (auto simp: sv_rows_def w(2) csr_wf_def simp flip: diff_mult_distrib)
  have "row_floats dec conv 4 (snd ?r) = decode_array dec 4 (length (fst ?r)) (snd ?r)"
    by (rule nth_equalityI)
      (auto simp: row_floats_def len decode_array_nth sv_float_at_def U32_def code_at_def)
  then have "zip (fst ?r) (row_floats dec conv 4 (snd ?r)) = docs ! i"
    using holds_docs_row(2) [OF assms] by (simp add: typed_row_def)
  moreover have "length (row_floats dec conv 4 (snd ?r)) = length (fst ?r)" by (simp add: row_floats_def len)
  ultimately show ?thesis by (metis map_snd_zip)
qed

lemma dense_query:
  fixes dec :: "byte list \<Rightarrow> 'w :: linordered_idom"
  assumes "holds_docs dec qs q" and "sv_dimension q = n" and "0 < n" and "docs_wf n qs"
    and "i < length qs" and "length qs < 2147483647"
  shows "get_dense_vector_typed dec conv q (int i) = Inr (densify n (map fst (qs ! i)) (map snd (qs ! i)))"
proof -
  have w: "sv_content_wf q" "sv_element_size q = 4" and r: "map (typed_row dec) (sv_rows q) = qs"
    using assms(1) by (auto simp: holds_docs_def)
  note m = corpus_matrix [OF w(1) r assms(4)]
  have f: "fst (sv_rows q ! i) = map fst (qs ! i)"
    using holds_docs_row(2) [OF assms(1,5)] by (metis map_fst_typed_row)
  have "get_dense_vector_typed dec conv q (int i) = Inr (densify (sv_dimension q) (fst (sv_rows q ! i))
      (row_floats dec conv (sv_element_size q) (snd (sv_rows q ! i))))"
    by (rule get_dense_vector_typed_row) (use w m assms in auto)
  then show ?thesis using f row_floats_encoded [OF assms(1,5)] assms(2) w(2) by simp
qed

section \<open>The answer\<close>

text \<open>Every document with its score; and a query's answer as the selection of the best of them.\<close>

definition scored_docs :: "'w :: linordered_idom doc list \<Rightarrow> 'w doc \<Rightarrow> ('w \<times> idx_t) list" where
  "scored_docs docs q = map (\<lambda>i. (dot q (docs ! i), int i)) [0..<length docs]"

definition best_of :: "int \<Rightarrow> ('w :: linordered_idom \<times> idx_t) list \<Rightarrow> 'w list \<times> idx_t list \<Rightarrow> bool" where
  "best_of k scored r \<longleftrightarrow> (\<exists>best.
     r = (resize (nat k) (- 1) (map fst best), resize (nat k) INVALID_IDX (map snd best)) \<and>
     sorted_wrt (\<lambda>a b. b \<le> a) (map fst best) \<and> is_topk (nat k) fst (mset scored) (mset best))"

lemma dedupe_drain_best:
  assumes inv: "dedupe_inv k ((\<lambda>(s, d). DedupeItem s d d) ` set scored) h" and "distinct scored"
  shows "best_of (int k) scored
    (resize k (- 1) (rev (map dd_score (dedupe_drain h))), resize k INVALID_IDX (rev (map dd_item (dedupe_drain h))))"
proof -
  let ?f = "\<lambda>(s, d). DedupeItem s d d" and ?g = "\<lambda>x. (dd_score x, dd_item x)"
  let ?b = "rev (map ?g (dedupe_drain h))"
  note d = dedupe_drain_props [OF inv]
  have tk: "is_topk k dd_score (mset_set (?f ` set scored)) (mset (dk_pq h))"
    using inv by (simp add: dedupe_inv_def)
  have gf: "image_mset ?g (mset_set (?f ` set scored)) = mset scored"
  proof -
    have "inj_on ?f (set scored)" by (auto simp: inj_on_def)
    then have "mset_set (?f ` set scored) = image_mset ?f (mset_set (set scored))"
      by (simp add: image_mset_mset_set)
    then show ?thesis using assms(2) by (simp add: multiset.map_comp o_def case_prod_unfold mset_set_set)
  qed
  have "is_topk k fst (mset scored) (mset ?b)"
  proof -
    have sub: "mset (dk_pq h) \<subseteq># mset_set (?f ` set scored)" and sz: "size (mset (dk_pq h)) = min k (size (mset_set (?f ` set scored)))"
      and best: "\<forall>x \<in># mset (dk_pq h). \<forall>y \<in># mset_set (?f ` set scored) - mset (dk_pq h). dd_score y \<le> dd_score x"
      using tk by (auto simp: is_topk_def)
    have b: "mset ?b = image_mset ?g (mset (dk_pq h))" using d(1) by simp
    have diff: "mset scored - mset ?b = image_mset ?g (mset_set (?f ` set scored) - mset (dk_pq h))"
      unfolding b gf [symmetric] by (rule image_mset_Diff [OF sub, symmetric])
    have "size (mset scored) = size (mset_set (?f ` set scored))" by (simp only: gf [symmetric] size_image_mset)
    then have "size (mset ?b) = min k (size (mset scored))" using sz unfolding b size_image_mset by simp
    moreover have "mset ?b \<subseteq># mset scored"
      using image_mset_subseteq_mono [OF sub, of ?g] unfolding b gf .
    moreover have "\<forall>x \<in># mset ?b. \<forall>y \<in># mset scored - mset ?b. fst y \<le> fst x"
      unfolding diff unfolding b using best by simp
    ultimately show ?thesis unfolding is_topk_def by blast
  qed
  moreover have "sorted_wrt (\<lambda>a b. b \<le> a) (map fst ?b)"
  proof -
    have "map fst ?b = rev (map dd_score (dedupe_drain h))" by (simp add: rev_map o_def)
    then show ?thesis using d(2) by (simp add: sorted_wrt_rev)
  qed
  ultimately show ?thesis
    unfolding best_of_def by (intro exI [of _ ?b]) (simp add: rev_map o_def)
qed

lemma bi_single_query_best:
  fixes dec :: "byte list \<Rightarrow> 'w :: linordered_idom"
  assumes v: "holds_docs dec docs v" and docs: "docs_wf n docs" and q: "distinct (map fst q)"
    and len: "0 < length docs" "length docs < 2147483648" and k: "0 < k" "k < 2147483648"
  shows "\<exists>r. bi_single_query dec v (densify n (map fst q) (map snd q)) k = Inr r \<and>
    best_of k (scored_docs docs q) r"
proof -
  let ?dense = "densify n (map fst q) (map snd q)"
  have nv: "num_vectors v = length docs"
    using v by (metis holds_docs_def length_map num_vectors_rows)
  have score: "dot_product_float_dense (fst (query_row dec v i)) (snd (query_row dec v i)) ?dense = Inr (dot q (docs ! i))"
    if i: "i < length docs" for i
  proof -
    have row: "distinct (map fst (docs ! i))" "\<forall>t \<in> set (map fst (docs ! i)). t < n"
      using docs i by (auto simp: docs_wf_def)
    show ?thesis
      using dot_product_float_dense_eq [of "fst (query_row dec v i)" ?dense "snd (query_row dec v i)"]
        holds_docs_row(3,4) [OF v i] row sparse_dense_densify [OF q row] by simp
  qed
  let ?xs = "map (\<lambda>i. (dot q (docs ! i), int i, int i)) [0..<length docs]"
  have "foldE (\<lambda>holder i. let row = query_row dec v i
      in bindE (dot_product_float_dense (fst row) (snd row) ?dense)
           (\<lambda>score. Inr (dedupe_add_id id holder score (i32 (int i))))) (dedupe_new k) [0..<num_vectors v] =
    Inr (foldl (\<lambda>h i. dedupe_add h (dot q (docs ! i)) (int i) (int i)) (dedupe_new k) [0..<num_vectors v])"
    by (rule foldE_Inr_foldl) (use score len nv in \<open>auto simp: Let_def dedupe_add_id_def is_i32_int\<close>)
  also have "foldl (\<lambda>h i. dedupe_add h (dot q (docs ! i)) (int i) (int i)) (dedupe_new k) [0..<num_vectors v] =
      dedupe_add_all (dedupe_new k) ?xs"
    by (simp add: dedupe_add_all_def foldl_map nv)
  finally have run: "foldE (\<lambda>holder i. let row = query_row dec v i
      in bindE (dot_product_float_dense (fst row) (snd row) ?dense)
           (\<lambda>score. Inr (dedupe_add_id id holder score (i32 (int i))))) (dedupe_new k) [0..<num_vectors v] =
    Inr (dedupe_add_all (dedupe_new k) ?xs)" .
  let ?h = "dedupe_add_all (dedupe_new k) ?xs"
  have items: "triple_item ` set ?xs = (\<lambda>(s, d). DedupeItem s d d) ` set (scored_docs docs q)"
    by (auto simp: scored_docs_def triple_item_def image_image)
  have "one_per_id (triple_item ` set ?xs)" by (auto simp: one_per_id_def inj_on_def triple_item_def)
  then have "dedupe_inv (nat k) (triple_item ` set ?xs) (dedupe_add_all (dedupe_new (int (nat k))) ?xs)"
    using dedupe_inv_add_all [of "nat k" "{}" "dedupe_new (int (nat k))" ?xs, OF dedupe_inv_new] k by simp
  then have inv: "dedupe_inv (nat k) ((\<lambda>(s, d). DedupeItem s d d) ` set (scored_docs docs q)) ?h"
    using k items by simp
  have "distinct (scored_docs docs q)" by (auto simp: scored_docs_def distinct_map inj_on_def)
  note best = dedupe_drain_best [OF inv this]
  show ?thesis
    using best run nv len k dedupe_with_scores_eq [OF inv, of INVALID_IDX "- 1"]
    by (simp add: bi_single_query_def)
qed

section \<open>Properties\<close>

lemma bi_adds_hold:
  assumes "\<forall>b \<in> set bs. batch_ok enc dec b" and "0 < n_terms" and "is_i32 n_terms"
    and "bi_dimension st = n_terms"
    and "case bi_vectors st of None \<Rightarrow> docs = [] | Some v \<Rightarrow> holds_docs dec docs v"
  shows "\<exists>st'. foldE (\<lambda>st (ip, ix, vs). bi_add enc st (int (length ip) - 1) (Some ip) (Some ix) (Some vs)) st bs = Inr st' \<and>
    bi_dimension st' = n_terms \<and>
    (case bi_vectors st' of None \<Rightarrow> docs @ concat (map batch_docs bs) = []
     | Some v \<Rightarrow> holds_docs dec (docs @ concat (map batch_docs bs)) v) \<and> (bs \<noteq> [] \<longrightarrow> bi_vectors st' \<noteq> None)"
  using assms(1,4,5)
proof (induction bs arbitrary: st docs)
  case (Cons b bs)
  obtain ip ix vs where b: "b = (ip, ix, vs)" by (cases b) auto
  have ok: "batch_ok enc dec (ip, ix, vs)" using Cons.prems(1) b by simp
  obtain v where v: "vectors_add enc n_terms (bi_vectors st) (int (length ip) - 1) (Some ip) (Some ix) (Some vs) = Inr v"
    "holds_docs dec (docs @ batch_docs b) v"
    using vectors_add_holds [OF Cons.prems(3) ok assms(2,3)] b by blast
  let ?st = "st\<lparr>bi_vectors := Some v\<rparr>"
  have "\<exists>st'. foldE (\<lambda>st (ip, ix, vs). bi_add enc st (int (length ip) - 1) (Some ip) (Some ix) (Some vs)) ?st bs = Inr st' \<and>
    bi_dimension st' = n_terms \<and>
    (case bi_vectors st' of None \<Rightarrow> (docs @ batch_docs b) @ concat (map batch_docs bs) = []
     | Some v \<Rightarrow> holds_docs dec ((docs @ batch_docs b) @ concat (map batch_docs bs)) v) \<and> (bs \<noteq> [] \<longrightarrow> bi_vectors st' \<noteq> None)"
    by (rule Cons.IH) (use Cons.prems v(2) in auto)
  then show ?case using v(1) Cons.prems(2) by (cases "bs = []") (auto simp: b bi_add_def)
qed (auto split: option.splits)

lemma bi_search_exact:
  fixes dec :: "byte list \<Rightarrow> 'w :: linordered_idom"
  assumes "\<forall>b \<in> set batches. batch_ok enc dec b" and "batches \<noteq> []"
    and "docs = concat (map batch_docs batches)" and "docs_wf (nat n_terms) docs"
    and "0 < n_terms" and "is_i32 n_terms" and "0 < length docs" and "length docs < 2147483648"
    and "batch_ok enc dec (ip, ix, vs)" and "docs_wf (nat n_terms) (batch_docs (ip, ix, vs))"
    and "0 < k" and "k < 2147483648"
  shows "\<exists>st results. foldE (\<lambda>st (ip, ix, vs). bi_add enc st (int (length ip) - 1) (Some ip) (Some ix) (Some vs))
      (bi_new n_terms) batches = Inr st \<and>
    bi_search enc dec conv st (int (length ip) - 1) ip ix vs k = Inr results \<and>
    list_all2 (\<lambda>q r. best_of k (scored_docs docs q) r) (batch_docs (ip, ix, vs)) results"
proof -
  let ?qs = "batch_docs (ip, ix, vs)"
  obtain st v where st: "foldE (\<lambda>st (ip, ix, vs). bi_add enc st (int (length ip) - 1) (Some ip) (Some ix) (Some vs))
      (bi_new n_terms) batches = Inr st" "bi_dimension st = n_terms" "bi_vectors st = Some v" "holds_docs dec docs v"
    using bi_adds_hold [OF assms(1,5,6), of "bi_new n_terms" "[]"] assms(2,3) by (auto simp: bi_new_def)
  obtain q where q: "query_matrix enc n_terms (int (length ip) - 1) ip ix vs = Inr q"
    "holds_docs dec ?qs q" "sv_dimension q = nat n_terms"
    using query_matrix_ok [OF assms(9,5,6)] by blast
  have len: "length ?qs = nat (int (length ip) - 1)" "2 \<le> length ip" "length ip < 2147483648"
    using assms(9) by (auto simp: batch_docs_def nat_diff_distrib batch_ok_def)
  have each: "\<exists>r. bindE (get_dense_vector_typed dec conv q (int i)) (\<lambda>dense. bi_single_query dec v dense k) = Inr r \<and>
      best_of k (scored_docs docs (?qs ! i)) r" if i: "i < length ?qs" for i
  proof -
    have "get_dense_vector_typed dec conv q (int i) =
        Inr (densify (nat n_terms) (map fst (?qs ! i)) (map snd (?qs ! i)))"
      by (rule dense_query [OF q(2,3) _ assms(10) i]) (use assms(5) len in auto)
    moreover have "distinct (map fst (?qs ! i))" using assms(10) i by (simp add: docs_wf_def)
    ultimately show ?thesis
      using bi_single_query_best [OF st(4) assms(4) _ assms(7,8,11,12)] by simp
  qed
  then obtain r where r: "\<And>i. i < length ?qs \<Longrightarrow>
      bindE (get_dense_vector_typed dec conv q (int i)) (\<lambda>dense. bi_single_query dec v dense k) = Inr (r i) \<and>
      best_of k (scored_docs docs (?qs ! i)) (r i)" by metis
  have "mapE (\<lambda>i. bindE (get_dense_vector_typed dec conv q (int i)) (\<lambda>dense. bi_single_query dec v dense k))
      [0..<nat (int (length ip) - 1)] = Inr (map r [0..<nat (int (length ip) - 1)])"
    by (rule mapE_Inr_all) (use r len(1) in simp)
  then have "bi_search enc dec conv st (int (length ip) - 1) ip ix vs k = Inr (map r [0..<length ?qs])"
    using st(2,3) q(1) len by (simp add: bi_search_def)
  moreover have "list_all2 (\<lambda>q r. best_of k (scored_docs docs q) r) ?qs (map r [0..<length ?qs])"
    using r by (simp add: list_all2_conv_all_nth)
  ultimately show ?thesis using st(1) by blast
qed

text \<open>
  C3: \<open>BrutalIndex\<close> answers queries exactly. Whatever batches were added, \<open>search\<close> succeeds and
  gives for every query of the batch the \<open>k\<close> documents of largest dot product, of either sign,
  best first, each once, padded with \<open>-1\<close> and \<open>INVALID_IDX\<close>. The arithmetic is that of an
  ordered ring; documents and queries do not repeat a term and stay below the dimension.
\<close>

theorem brutal_search_exact:
  fixes dec :: "byte list \<Rightarrow> 'w :: linordered_idom"
  assumes "\<forall>b \<in> set batches. batch_ok enc dec b" and "batches \<noteq> []"
    and "docs = concat (map batch_docs batches)" and "docs_wf (nat n_terms) docs"
    and "0 < n_terms" and "is_i32 n_terms" and "0 < length docs" and "length docs < 2147483648"
    and "batch_ok enc dec (ip, ix, vs)" and "docs_wf (nat n_terms) (batch_docs (ip, ix, vs))"
    and "0 < k" and "k < 2147483648"
  shows "\<exists>st results. foldE (\<lambda>st (ip, ix, vs). bi_add enc st (int (length ip) - 1) (Some ip) (Some ix) (Some vs))
      (bi_new n_terms) batches = Inr st \<and>
    bi_search enc dec conv st (int (length ip) - 1) ip ix vs k = Inr results \<and>
    list_all2 (\<lambda>q r. best_of k (scored_docs docs q) r) (batch_docs (ip, ix, vs)) results"
  by (rule bi_search_exact [OF assms])

theorem brutal_search_exact_witness:
  "\<exists>st results. foldE (\<lambda>st (ip, ix, vs). bi_add idx_bytes st (int (length ip) - 1) (Some ip) (Some ix) (Some vs))
      (bi_new 2) [([0, 2, 3], [0, 1, 1], [3, 5, 2])] = Inr st \<and>
    bi_search idx_bytes int_of_bytes int st 1 [0, 1] [1] [4] 1 = Inr results \<and>
    list_all2 (\<lambda>q r. best_of 1 (scored_docs [[(0, 3), (1, 5)], [(1, 2)]] q) r) [[(1, 4)]] results"
proof -
  let ?b = "([0, 2, 3], [0, 1, 1], [3, 5, 2]) :: int batch" and ?q = "([0, 1], [1], [4]) :: int batch"
  have codes: "codes_exactly idx_bytes int_of_bytes vs" if "\<forall>x \<in> set vs. 0 \<le> x \<and> x < 100" for vs
    using that by (auto simp: codes_exactly_def intro!: idx_codec.dec_enc simp: is_i32_def)
  have b: "\<forall>b \<in> set [?b]. batch_ok idx_bytes int_of_bytes b" "batch_ok idx_bytes int_of_bytes ?q"
    by (simp_all add: batch_ok_def csr_wf_def codes SIZE_MAX_def)
  have d: "batch_docs ?b = [[(0, 3), (1, 5)], [(1, 2)]]" "batch_docs ?q = [[(1, 4)]]"
    by (simp_all add: batch_docs_def csr_rows_def slice_def)
  then have docs: "[[(0, 3), (1, 5)], [(1, 2)]] = concat (map batch_docs [?b])" by simp
  have wf: "docs_wf (nat 2) ([[(0, 3), (1, 5)], [(1, 2)]] :: int doc list)" "docs_wf (nat 2) (batch_docs ?q)"
    unfolding d by (simp_all add: docs_wf_def)
  have e: "[?b] \<noteq> []" "(0 :: int) < 2" "is_i32 2" "0 < length ([[(0, 3), (1, 5)], [(1, 2)]] :: int doc list)"
    "length ([[(0, 3), (1, 5)], [(1, 2)]] :: int doc list) < 2147483648" "(0 :: int) < 1" "(1 :: int) < 2147483648"
    by (simp_all add: is_i32_def)
  show ?thesis
    using brutal_search_exact [OF b(1) e(1) docs wf(1) e(2-5) b(2) wf(2) e(6,7), of int] d(2) by simp
qed

text \<open>What the two specifications have in common: the positive scores.\<close>

lemma best_positive_scores:
  fixes docs :: "'w :: linordered_idom doc list"
  assumes "best_answer k docs q None (scores, ids)" and "best_of k (scored_docs docs q) (scores', ids')"
  shows "scores = resize (nat k) (- 1) (filter (\<lambda>s. 0 < s) scores')"
proof -
  let ?all = "map fst (scored_docs docs q)" and ?pos = "filter (\<lambda>s. 0 < s) (map fst (scored_docs docs q))"
  obtain sc idl where a: "scores = resize (nat k) (- 1) sc" "length idl = length sc" "sorted_wrt (\<lambda>a b. b \<le> a) sc"
    "is_topk (nat k) score (matching docs q None) (mset (map2 TopKItem sc idl))"
    using assms(1) by (auto simp: best_answer_def)
  obtain best where b: "scores' = resize (nat k) (- 1) (map fst best)" "sorted_wrt (\<lambda>a b. b \<le> a) (map fst best)"
    "is_topk (nat k) fst (mset (scored_docs docs q)) (mset best)"
    using assms(2) by (auto simp: best_of_def)
  have "image_mset score (matching docs q None) = mset ?pos"
    by (simp add: matching_def scored_docs_def selected_def filter_map o_def multiset.map_comp)
  moreover have "mset sc = image_mset score (mset (map2 TopKItem sc idl))"
  proof -
    have "map score (map2 TopKItem sc idl) = sc"
      using a(2) by (simp add: o_def case_prod_unfold)
    then show ?thesis by (metis mset_map)
  qed
  ultimately have sc: "sc = take (nat k) (rev (sort ?pos))"
    using is_topk_scores [OF a(4) _ _ a(3), of ?pos] by simp
  have best: "map fst best = take (nat k) (rev (sort ?all))"
    using is_topk_scores [OF b(3) _ _ b(2), of ?all] by simp
  have "sorted ys \<Longrightarrow> ys = filter (\<lambda>s. \<not> 0 < s) ys @ filter (\<lambda>s. 0 < s) ys" for ys :: "'w list"
  proof (induction ys)
    case (Cons y ys)
    have "filter (\<lambda>s. \<not> 0 < s) ys = []" if "0 < y" using Cons.prems that by (auto simp: filter_empty_conv)
    then show ?case using Cons by auto
  qed simp
  from this [of "sort ?all"] have e: "sort ?all = filter (\<lambda>s. \<not> 0 < s) (sort ?all) @ sort ?pos" by (simp add: filter_sort)
  define low where "low = rev (filter (\<lambda>s. \<not> 0 < s) (sort ?all))"
  have "rev (sort ?all) = rev (sort ?pos) @ low" unfolding low_def by (subst e) simp
  then have "map fst best = sc @ take (nat k - length ?pos) low" by (simp add: best sc)
  moreover have "filter (\<lambda>s. 0 < s) (take n low) = []" for n
    by (auto simp: low_def filter_empty_conv dest: in_set_takeD)
  moreover have "filter (\<lambda>s. 0 < s) sc = sc" by (auto simp: sc filter_id_conv dest: in_set_takeD)
  moreover have "length (map fst best) \<le> nat k" by (simp add: best)
  ultimately have "filter (\<lambda>s. 0 < s) scores' = sc" by (simp add: b(1) resize_def)
  then show ?thesis by (simp add: a(1))
qed

text \<open>
  C15: the two exact indexes agree on the positive scores. Given the same batches and the same
  queries, \<open>search\<close> of \<open>InvertedIndex\<close>, built and pruning by MaxScore, without a selector, returns the
  scores \<open>search\<close> of \<open>BrutalIndex\<close> returns, without those that are not positive, padded with \<open>-1\<close>.
  The arithmetic, the documents and the queries are those the exactness of both indexes asks for.
\<close>

theorem inverted_agrees_with_brutal:
  fixes dec :: "byte list \<Rightarrow> 'w :: linordered_idom"
  assumes "\<forall>b \<in> set batches. batch_ok enc dec b" and "batches \<noteq> []"
    and "docs_wf (nat n_terms) (concat (map batch_docs batches))"
    and "0 < n_terms" and "is_i32 n_terms"
    and "0 < length (concat (map batch_docs batches))" and "length (concat (map batch_docs batches)) < 2147479552"
    and "sum_list (map length (concat (map batch_docs batches))) * 4 \<le> SIZE_MAX"
    and "batch_ok enc dec (ip, ix, vs)" and "docs_wf (nat n_terms) (batch_docs (ip, ix, vs))" and "\<forall>w \<in> set vs. 0 \<le> w"
    and "0 < k" and "k < 2147483648"
  shows "\<exists>brutal exact filled inverted pruned.
    foldE (\<lambda>st (ip, ix, vs). bi_add enc st (int (length ip) - 1) (Some ip) (Some ix) (Some vs)) (bi_new n_terms) batches = Inr brutal \<and>
    bi_search enc dec conv brutal (int (length ip) - 1) ip ix vs k = Inr exact \<and>
    foldE (add_batch enc) (ii_new n_terms) batches = Inr filled \<and> ii_build dec conv filled = Inr inverted \<and>
    ii_search enc dec thread (\<lambda>_. replicate 4096 0) inverted (int (length ip) - 1) ip ix vs k None =
      Some (Inr (pruned, \<lambda>_. replicate 4096 0)) \<and>
    list_all2 (\<lambda>(scores, _) (scores', _). scores = resize (nat k) (- 1) (filter (\<lambda>s. 0 < s) scores')) pruned exact"
proof -
  let ?docs = "concat (map batch_docs batches)"
  have "length ?docs < 2147483648" using assms(7) by simp
  from bi_search_exact [OF assms(1,2) refl assms(3-6) this assms(9,10,12,13), of conv] obtain brutal exact where
    b: "foldE (\<lambda>st (ip, ix, vs). bi_add enc st (int (length ip) - 1) (Some ip) (Some ix) (Some vs)) (bi_new n_terms) batches = Inr brutal"
      "bi_search enc dec conv brutal (int (length ip) - 1) ip ix vs k = Inr exact"
      "list_all2 (\<lambda>q r. best_of k (scored_docs ?docs q) r) (batch_docs (ip, ix, vs)) exact" by blast
  from ii_search_exact [OF assms(1,2) refl assms(3-5,7-9,11,12), of conv thread None] obtain filled inverted pruned where
    i: "foldE (add_batch enc) (ii_new n_terms) batches = Inr filled" "ii_build dec conv filled = Inr inverted"
      "ii_search enc dec thread (\<lambda>_. replicate 4096 0) inverted (int (length ip) - 1) ip ix vs k None =
        Some (Inr (pruned, \<lambda>_. replicate 4096 0))"
      "list_all2 (\<lambda>q r. best_answer k ?docs q None r) (batch_docs (ip, ix, vs)) pruned" by blast
  have "list_all2 (\<lambda>(scores, _) (scores', _). scores = resize (nat k) (- 1) (filter (\<lambda>s. 0 < s) scores')) pruned exact"
    unfolding list_all2_conv_all_nth
  proof (intro conjI allI impI)
    show "length pruned = length exact" using list_all2_lengthD [OF b(3)] list_all2_lengthD [OF i(4)] by simp
    fix j assume j: "j < length pruned"
    have "best_of k (scored_docs ?docs (batch_docs (ip, ix, vs) ! j)) (fst (exact ! j), snd (exact ! j))"
      "best_answer k ?docs (batch_docs (ip, ix, vs) ! j) None (fst (pruned ! j), snd (pruned ! j))"
      using list_all2_nthD2 [OF b(3)] list_all2_nthD2 [OF i(4) j] j list_all2_lengthD [OF b(3)] list_all2_lengthD [OF i(4)] by simp_all
    from best_positive_scores [OF this(2,1)]
    show "(case pruned ! j of (scores, _) \<Rightarrow> (\<lambda>(scores', _). scores = resize (nat k) (- 1) (filter (\<lambda>s. 0 < s) scores')))
        (exact ! j)" by (simp add: case_prod_beta)
  qed
  with b(1,2) i(1-3) show ?thesis by blast
qed

theorem inverted_agrees_with_brutal_witness:
  "\<exists>brutal exact filled inverted pruned.
    foldE (\<lambda>st (ip, ix, vs). bi_add idx_bytes st (int (length ip) - 1) (Some ip) (Some ix) (Some vs))
      (bi_new 2) [([0, 2, 3], [0, 1, 1], [3, 5, - 2])] = Inr brutal \<and>
    bi_search idx_bytes int_of_bytes int brutal 1 [0, 1] [1] [4] 2 = Inr exact \<and>
    foldE (add_batch idx_bytes) (ii_new 2) [([0, 2, 3], [0, 1, 1], [3, 5, - 2])] = Inr filled \<and>
    ii_build int_of_bytes int filled = Inr inverted \<and>
    ii_search idx_bytes int_of_bytes id (\<lambda>_. replicate 4096 0) inverted 1 [0, 1] [1] [4] 2 None =
      Some (Inr (pruned, \<lambda>_. replicate 4096 0)) \<and>
    list_all2 (\<lambda>(scores, _) (scores', _). scores = resize 2 (- 1) (filter (\<lambda>s. 0 < s) scores')) pruned exact"
proof -
  let ?b = "([0, 2, 3], [0, 1, 1], [3, 5, - 2]) :: int batch" and ?q = "([0, 1], [1], [4]) :: int batch"
  have codes: "codes_exactly idx_bytes int_of_bytes vs" if "\<forall>x \<in> set vs. - 100 \<le> x \<and> x < 100" for vs
    using that by (auto simp: codes_exactly_def intro!: idx_codec.dec_enc simp: is_i32_def)
  have b: "\<forall>b \<in> set [?b]. batch_ok idx_bytes int_of_bytes b" "batch_ok idx_bytes int_of_bytes ?q"
    by (simp_all add: batch_ok_def csr_wf_def codes SIZE_MAX_def)
  have d: "concat (map batch_docs [?b]) = [[(0, 3), (1, 5)], [(1, - 2)]]" "batch_docs ?q = [[(1, 4)]]"
    by (simp_all add: batch_docs_def csr_rows_def slice_def)
  have wf: "docs_wf (nat 2) (concat (map batch_docs [?b]))" "docs_wf (nat 2) (batch_docs ?q)"
    unfolding d by (simp_all add: docs_wf_def)
  have len: "0 < length (concat (map batch_docs [?b]))" "length (concat (map batch_docs [?b])) < 2147479552"
    "sum_list (map length (concat (map batch_docs [?b]))) * 4 \<le> SIZE_MAX"
    unfolding d by (simp_all add: SIZE_MAX_def)
  have e: "[?b] \<noteq> []" "(0 :: int) < 2" "is_i32 2" "\<forall>w \<in> set [4 :: int]. 0 \<le> w" "(2 :: int) < 2147483648"
    by (simp_all add: is_i32_def)
  show ?thesis
    using inverted_agrees_with_brutal [OF b(1) e(1) wf(1) e(2,3) len b(2) wf(2) e(4,2,5), of int id] by simp
qed

end
