(* ===== verification/Exact_Matcher.thy ===== *)
theory Exact_Matcher
  imports Brutal_Index
begin

text \<open>
  \<^verbatim>\<open>id_selector.h\<close>, the selectors a search can be restricted with, and \<^verbatim>\<open>exact_matcher.h\<close>, the
  scan of a small selector's documents that replaces the approximate search, together with the
  dense byte rows it reads (\<open>get_dense_vector\<close>).
\<close>

section \<open>Id selectors\<close>

text \<open>
  A hash set is the list of its distinct elements in the order it iterates them. \<open>Mapped_Selector\<close>
  asks another selector about the outer ids of an id map (\<^verbatim>\<open>id_map_index.h\<close>), whose two directions it
  holds; a document the map has no entry for, which the code must not ask about, is no member.
  \<open>Other_Selector\<close> is any other implementation of the interface.
\<close>

datatype id_selector =
    Set_Selector "idx_t list"
  | Array_Selector "idx_t list"
  | Not_Selector id_selector
  | Mapped_Selector id_selector "idx_t list" "idx_t \<Rightarrow> idx_t option"
  | Other_Selector "idx_t \<Rightarrow> bool"

definition set_id_selector :: "idx_t list \<Rightarrow> id_selector" where
  "set_id_selector indices = Set_Selector (remdups indices)"

definition array_id_selector :: "idx_t list \<Rightarrow> id_selector" where
  "array_id_selector indices = Array_Selector indices"

fun is_member :: "id_selector \<Rightarrow> idx_t \<Rightarrow> bool" where
  "is_member (Set_Selector ids) i \<longleftrightarrow> i \<in> set ids"
| "is_member (Array_Selector ids) i \<longleftrightarrow> i \<in> set ids"
| "is_member (Not_Selector delegate) i \<longleftrightarrow> \<not> is_member delegate i"
| "is_member (Mapped_Selector delegate outer inner) i \<longleftrightarrow> 0 \<le> i \<and> nat i < length outer \<and> is_member delegate (outer ! nat i)"
| "is_member (Other_Selector f) i \<longleftrightarrow> f i"

text \<open>\<^verbatim>\<open>dynamic_cast<const IDSelectorEnumerable*>\<close>: the ids, when the selector can list them.\<close>

fun enumerable :: "id_selector \<Rightarrow> idx_t list option" where
  "enumerable (Set_Selector ids) = Some ids"
| "enumerable (Array_Selector ids) = Some ids"
| "enumerable (Not_Selector _) = None"
| "enumerable (Mapped_Selector delegate outer inner) = map_option (List.map_filter inner) (enumerable delegate)"
| "enumerable (Other_Selector _) = None"

text \<open>\<open>size()\<close> of a selector that lists its ids; a mapped one answers with the size of what it asks.\<close>

fun selector_size :: "id_selector \<Rightarrow> size_t" where
  "selector_size (Set_Selector ids) = length ids"
| "selector_size (Array_Selector ids) = length ids"
| "selector_size (Mapped_Selector delegate _ _) = selector_size delegate"
| "selector_size _ = 0"

definition ordered_ids :: "idx_t list \<Rightarrow> idx_t list" where
  "ordered_ids ids = sort_by (<) ids"

text \<open>\<open>size() <= k\<close> compares as \<open>size_t\<close>, so a negative \<open>k\<close> is a huge bound.\<close>

definition should_run_exact_match :: "id_selector option \<Rightarrow> int \<Rightarrow> bool" where
  "should_run_exact_match id_selector k = (case id_selector of
       None \<Rightarrow> False
     | Some s \<Rightarrow> (case enumerable s of None \<Rightarrow> False | Some _ \<Rightarrow> selector_size s \<le> size_of_int k))"

section \<open>ExactMatcher\<close>

definition exact_single_query ::
  "(byte list \<Rightarrow> 'w) \<Rightarrow> (int \<Rightarrow> 'w) \<Rightarrow> sparse_vectors \<Rightarrow> idx_t list \<Rightarrow> byte list \<Rightarrow> size_t \<Rightarrow> int \<Rightarrow>
     exn + 'w :: {zero, one, uminus, plus, times, ord} list \<times> idx_t list" where
  "exact_single_query dec of_i vectors ids dense element_size k =
     bindE (topk_new k) (\<lambda>holder.
     bindE (foldE (\<lambda>holder doc_id.
              if doc_id < 0 \<or> size_of_int doc_id \<ge> num_vectors vectors then Inr holder
              else bindE (compute_similarity dec of_i (nat doc_id) (buf_elems (sv_indptr vectors))
                            (buf_elems (sv_indices vectors)) (buf_elems (sv_values vectors)) dense element_size)
                     (\<lambda>score. Inr (topk_add holder score doc_id)))
            holder (ordered_ids ids)) (\<lambda>holder.
     let (scores, labels) = topk_items_descending holder
     in Inr (resize (nat k) (- 1) scores, resize (nat k) INVALID_IDX labels)))"

definition exact_search ::
  "(byte list \<Rightarrow> 'w) \<Rightarrow> (int \<Rightarrow> 'w) \<Rightarrow> sparse_vectors \<Rightarrow> idx_t list \<Rightarrow> sparse_vectors \<Rightarrow> size_t \<Rightarrow> int \<Rightarrow>
     exn + ('w :: {zero, one, uminus, plus, times, ord} list \<times> idx_t list) list" where
  "exact_search dec of_i vectors ids queries element_size k =
     mapE (\<lambda>query_idx. bindE (get_dense_vector queries (int query_idx)) (\<lambda>dense.
             exact_single_query dec of_i vectors ids dense element_size k))
       [0..<num_vectors queries]"

section \<open>Dense byte rows\<close>

lemma foldE_store_run:
  assumes "\<And>j. j < n \<Longrightarrow> g j = Inr (bs ! j)" and "length bs = n" and "a + n \<le> length xs"
  shows "foldE (\<lambda>dense j. bindE (g j) (\<lambda>b. store (a + j) b dense)) xs [0..<n] =
    Inr (take a xs @ bs @ drop (a + n) xs)"
proof -
  have "foldE (\<lambda>dense j. bindE (g j) (\<lambda>b. store (a + j) b dense)) xs [0..<m] =
      Inr (take a xs @ take m bs @ drop (a + m) xs)" if "m \<le> n" for m
    using that
  proof (induction m)
    case (Suc m)
    have "(take a xs @ take m bs @ drop (a + m) xs)[a + m := bs ! m] =
        take a xs @ take (Suc m) bs @ drop (a + Suc m) xs"
    proof -
      have "drop (a + m) xs = xs ! (a + m) # drop (a + Suc m) xs"
        using Suc.prems assms(3) by (simp add: Cons_nth_drop_Suc)
      then show ?thesis
        using Suc.prems assms(2,3)
        by (simp add: list_update_append min_absorb1 min_absorb2 take_Suc_conv_app_nth)
    qed
    then show ?case
      using Suc assms by (simp add: foldE_append store_def min_absorb1 min_absorb2)
  qed simp
  from this [of n] show ?thesis using assms(2) by simp
qed

text \<open>The bytes of a list of equally long chunks, and one chunk of it replaced.\<close>

lemma concat_chunk_take:
  "(\<And>c. c \<in> set cs \<Longrightarrow> length c = k) \<Longrightarrow> take (n * k) (concat cs) = concat (take n cs)"
proof (induction cs arbitrary: n)
  case (Cons c cs)
  then show ?case by (cases n) auto
qed simp

lemma concat_chunk_drop:
  "(\<And>c. c \<in> set cs \<Longrightarrow> length c = k) \<Longrightarrow> drop (n * k) (concat cs) = concat (drop n cs)"
proof (induction cs arbitrary: n)
  case (Cons c cs)
  then show ?case by (cases n) auto
qed simp

lemma length_concat_chunks: "(\<And>c. c \<in> set cs \<Longrightarrow> length c = k) \<Longrightarrow> length (concat cs) = length cs * k"
  by (induction cs) auto

lemma concat_chunk_update:
  assumes "\<And>c. c \<in> set cs \<Longrightarrow> length c = k" and "t < length cs"
  shows "take (t * k) (concat cs) @ b @ drop (t * k + k) (concat cs) = concat (cs[t := b])"
proof -
  have "drop (t * k + k) (concat cs) = concat (drop (Suc t) cs)"
    using concat_chunk_drop [of cs k "Suc t"] assms(1) by (simp add: add.commute)
  moreover have "take (t * k) (concat cs) = concat (take t cs)"
    using concat_chunk_take [of cs k t] assms(1) by simp
  ultimately show ?thesis
    unfolding upd_conv_take_nth_drop [OF assms(2)] by simp
qed

definition chunk_row :: "nat \<Rightarrow> nat \<Rightarrow> term_t list \<Rightarrow> byte list list \<Rightarrow> byte list list" where
  "chunk_row es n terms bs = foldl (\<lambda>cs (t, b). cs[t := b]) (replicate n (replicate es 0)) (zip terms bs)"

text \<open>A row's entries as (term, bytes) pairs; the dense row holds the bytes of each term.\<close>

lemma foldE_chunks:
  assumes "\<And>i. i \<in> set is' \<Longrightarrow> gt i = Inr (t i)"
    and "\<And>i j. i \<in> set is' \<Longrightarrow> j < es \<Longrightarrow> gb i j = Inr (b i ! j)"
    and "\<And>i. i \<in> set is' \<Longrightarrow> t i < length cs \<and> length (b i) = es"
    and "\<And>c. c \<in> set cs \<Longrightarrow> length c = es"
  shows "foldE (\<lambda>dense i. foldE (\<lambda>dense j. bindE (gt i) (\<lambda>t. bindE (gb i j) (\<lambda>b. store (t * es + j) b dense)))
      dense [0..<es]) (concat cs) is' =
    Inr (concat (foldl (\<lambda>cs (t, b). cs[t := b]) cs (map (\<lambda>i. (t i, b i)) is')))"
  using assms
proof (induction is' arbitrary: cs)
  case (Cons i is')
  have t: "gt i = Inr (t i)" "t i < length cs" "length (b i) = es"
    and gb: "\<And>j. j < es \<Longrightarrow> gb i j = Inr (b i ! j)"
    using Cons.prems by auto
  have len: "t i * es + es \<le> length (concat cs)"
  proof -
    have "length (concat cs) = length cs * es" by (rule length_concat_chunks [OF Cons.prems(4)])
    moreover have "Suc (t i) * es \<le> length cs * es" using t(2) by (intro mult_le_mono1) simp
    ultimately show ?thesis by simp
  qed
  have "foldE (\<lambda>dense j. bindE (gb i j) (\<lambda>b. store (t i * es + j) b dense)) (concat cs) [0..<es] =
      Inr (take (t i * es) (concat cs) @ b i @ drop (t i * es + es) (concat cs))"
    by (rule foldE_store_run [OF gb t(3) len])
  also have "take (t i * es) (concat cs) @ b i @ drop (t i * es + es) (concat cs) = concat (cs[t i := b i])"
    by (rule concat_chunk_update [OF Cons.prems(4) t(2)])
  finally have step: "foldE (\<lambda>dense j. bindE (gb i j) (\<lambda>b. store (t i * es + j) b dense)) (concat cs) [0..<es] =
      Inr (concat (cs[t i := b i]))" .
  have "foldE (\<lambda>dense i. foldE (\<lambda>dense j. bindE (gt i) (\<lambda>t. bindE (gb i j) (\<lambda>b. store (t * es + j) b dense)))
      dense [0..<es]) (concat (cs[t i := b i])) is' =
    Inr (concat (foldl (\<lambda>cs (t, b). cs[t := b]) (cs[t i := b i]) (map (\<lambda>i. (t i, b i)) is')))"
  proof (rule Cons.IH)
    fix c assume "c \<in> set (cs[t i := b i])"
    then show "length c = es" using Cons.prems(4) t(3) by (auto dest!: set_update_subset_insert [THEN subsetD])
  qed (use Cons.prems in auto)
  then show ?case using step t(1) by simp
qed simp

lemma concat_replicate_zero: "concat (replicate n (replicate es x)) = replicate (n * es) x"
  by (induction n) (simp_all add: replicate_add)

definition row_chunks :: "size_t \<Rightarrow> byte list \<Rightarrow> byte list list" where
  "row_chunks es bytes = map (code_at es bytes) [0..<length bytes div es]"

lemma get_dense_vector_row:
  assumes "sv_content_wf v" and "sv_element_size v = es" and "0 < es" and "sv_dimension v * es \<le> SIZE_MAX"
    and "\<forall>t \<in> set (buf_elems (sv_indices v)). t < sv_dimension v"
    and "i < num_vectors v" and "num_vectors v < 2147483647"
  shows "get_dense_vector v (int i) =
    Inr (concat (chunk_row es (sv_dimension v) (fst (sv_rows v ! i)) (row_chunks es (snd (sv_rows v ! i)))))"
proof -
  let ?ip = "buf_elems (sv_indptr v)" and ?ix = "buf_elems (sv_indices v)" and ?vs = "buf_elems (sv_values v)"
  have n: "0 < num_vectors v" using assms(6) by simp
  note w = sv_rows_wf [OF assms(1) n]
  have len: "length ?ip = Suc (num_vectors v)"
    using n by (auto simp: num_vectors_def buf_empty_def buf_size_def split: if_splits)
  have i: "i + 1 < length ?ip" using assms(6) len by simp
  define s where "s = nat (?ip ! i)"
  define e where "e = nat (?ip ! (i + 1))"
  note b = csr_row_bounds [OF w(1) i, folded s_def e_def]
  have lv: "length ?vs = length ?ix * es" using w(1) by (simp add: csr_wf_def assms(2))
  have ok: "vector_idx_ok v (int i)"
    using assms(6,7) len by (simp add: vector_idx_ok_def buf_size_def is_i32_def)
  have j: "j < length ?ix" if "j \<in> set [s..<e]" for j using that b(3) by simp
  have codes: "buf_get (sv_values v) (j * es + m) = Inr (code_at es ?vs j ! m)" if "j \<in> set [s..<e]" "m < es" for j m
  proof -
    have "j * es + es \<le> length ?vs" using mult_le_mono1 [of "Suc j" "length ?ix" es] j [OF that(1)] lv by simp
    then show ?thesis using that(2) by (simp add: buf_get_def code_at_def)
  qed
  have "get_dense_vector v (int i) = foldE (\<lambda>dense i. foldE (\<lambda>dense j. bindE (buf_get (sv_indices v) i) (\<lambda>t.
      bindE (buf_get (sv_values v) (i * es + j)) (\<lambda>b. store (t * es + j) b dense))) dense [0..<es])
      (concat (replicate (sv_dimension v) (replicate es 0))) [s..<e]"
    using ok i assms(4) by (simp add: get_dense_vector_def buf_get_def [of "sv_indptr v"] s_def e_def assms(2)
        concat_replicate_zero SIZE_MAX_def)
  also have "\<dots> = Inr (concat (foldl (\<lambda>cs (t, b). cs[t := b]) (replicate (sv_dimension v) (replicate es 0))
      (map (\<lambda>j. (?ix ! j, code_at es ?vs j)) [s..<e])))"
  proof (rule foldE_chunks)
    fix k assume k: "k \<in> set [s..<e]"
    show "buf_get (sv_indices v) k = Inr (?ix ! k)" using j [OF k] by (simp add: buf_get_def)
    show "?ix ! k < length (replicate (sv_dimension v) (replicate es (0 :: byte))) \<and> length (code_at es ?vs k) = es"
      using j [OF k] assms(5) length_code_at [OF j [OF k] lv] by simp
  qed (use codes in auto)
  also have "map (\<lambda>j. (?ix ! j, code_at es ?vs j)) [s..<e] =
      zip (fst (sv_rows v ! i)) (row_chunks es (snd (sv_rows v ! i)))"
  proof (rule nth_equalityI)
    have le: "e * es \<le> length ?vs" using b(3) lv by simp
    then have l: "length (slice (s * es) (e * es) ?vs) div es = e - s"
      using assms(3) by (simp flip: diff_mult_distrib)
    show "length (map (\<lambda>j. (?ix ! j, code_at es ?vs j)) [s..<e]) =
        length (zip (fst (sv_rows v ! i)) (row_chunks es (snd (sv_rows v ! i))))"
      using b(3) l by (simp add: sv_rows_def assms(2) b(4) [unfolded assms(2)] row_chunks_def)
    fix k assume "k < length (map (\<lambda>j. (?ix ! j, code_at es ?vs j)) [s..<e])"
    then have k: "s + k < e" by simp
    have "code_at es (slice (s * es) (e * es) ?vs) k = code_at es ?vs (s + k)"
      by (rule code_at_slice [OF k le])
    then show "map (\<lambda>j. (?ix ! j, code_at es ?vs j)) [s..<e] ! k =
        zip (fst (sv_rows v ! i)) (row_chunks es (snd (sv_rows v ! i))) ! k"
      using k b(3) l nth_upt [OF k] by (simp add: sv_rows_def assms(2) b(4) [unfolded assms(2)] row_chunks_def slice_nth)
  qed
  finally show ?thesis by (simp add: chunk_row_def)
qed

lemma map_chunk_updates:
  "map f (foldl (\<lambda>cs (t, b). cs[t := b]) cs ps) =
     foldl (\<lambda>d (t, w). d[t := w]) (map f cs) (map (\<lambda>(t, b). (t, f b)) ps)"
  by (induction ps arbitrary: cs) (auto simp: map_update)

lemma chunk_row_lengths:
  "\<forall>b \<in> set bs. length b = es \<Longrightarrow> c \<in> set (chunk_row es n terms bs) \<Longrightarrow> length c = es"
proof -
  assume bs: "\<forall>b \<in> set bs. length b = es" and c: "c \<in> set (chunk_row es n terms bs)"
  have "\<forall>p \<in> set ps. length (snd p) = es \<Longrightarrow> \<forall>c \<in> set cs. length c = es \<Longrightarrow>
      \<forall>c \<in> set (foldl (\<lambda>cs (t, b). cs[t := b]) cs ps). length c = es" for ps and cs :: "byte list list"
  proof (induction ps arbitrary: cs)
    case (Cons p ps)
    have "\<forall>c \<in> set (cs[fst p := snd p]). length c = es"
      using Cons.prems set_update_subset_insert [of cs "fst p" "snd p"] by auto
    with Cons.IH [of "cs[fst p := snd p]"] Cons.prems(1) show ?case by (simp add: case_prod_beta)
  qed simp
  note all = this [of "zip terms bs" "replicate n (replicate es 0)"]
  have "\<forall>p \<in> set (zip terms bs). length (snd p) = es" using bs by (auto dest: set_zip_rightD)
  moreover have "\<forall>c \<in> set (replicate n (replicate es (0 :: byte))). length c = es" by simp
  ultimately show ?thesis using all c unfolding chunk_row_def by blast
qed

lemma typed_chunk_row:
  fixes dec :: "byte list \<Rightarrow> 'w :: zero"
  assumes "\<forall>b \<in> set bs. length b = es" and "0 < es" and "dec (replicate es 0) = 0"
  shows "typed_array es dec (concat (chunk_row es n terms bs)) = densify n terms (map dec bs)"
proof -
  let ?cs = "chunk_row es n terms bs"
  have each: "length c = es" if "c \<in> set ?cs" for c using chunk_row_lengths [OF assms(1) that] .
  have "length (concat ?cs) div es = length ?cs"
    using length_concat_chunks [of ?cs es] each assms(2) by simp
  then have "typed_array es dec (concat ?cs) = map dec ?cs"
    unfolding typed_array_def using decode_concat [of ?cs es dec] each by simp
  also have "\<dots> = densify n terms (map dec bs)"
    unfolding chunk_row_def map_chunk_updates densify_def
    by (simp add: assms(3) zip_map2)
  finally show ?thesis .
qed

section \<open>The scan selects the best of the listed documents\<close>

lemma compute_similarity_dot:
  fixes dec :: "byte list \<Rightarrow> 'w :: linordered_idom"
  assumes v: "holds_docs dec docs v" and docs: "docs_wf n docs" and i: "i < length docs"
    and q: "distinct (map fst q)" and dense: "typed_array 4 dec dense = densify n (map fst q) (map snd q)"
  shows "compute_similarity dec of_i i (buf_elems (sv_indptr v)) (buf_elems (sv_indices v))
    (buf_elems (sv_values v)) dense 4 = Inr (dot q (docs ! i))"
proof -
  define s where "s = nat (buf_elems (sv_indptr v) ! i)"
  define e where "e = nat (buf_elems (sv_indptr v) ! (i + 1))"
  have row: "distinct (map fst (docs ! i))" "\<forall>t \<in> set (map fst (docs ! i)). t < n"
    using docs i by (auto simp: docs_wf_def)
  have "slice (s * 4) (e * 4) vs = take ((e - s) * 4) (drop (s * 4) vs)" for vs :: "byte list"
    by (simp add: slice_def diff_mult_distrib)
  then have "query_row dec v i = (take (e - s) (drop s (buf_elems (sv_indices v))),
      decode_array dec 4 (e - s) (drop (s * 4) (buf_elems (sv_values v))))"
    using decode_array_take [of dec 4 "e - s" "drop (s * 4) (buf_elems (sv_values v))"]
    by (simp add: query_row_def Let_def s_def e_def slice_def)
  moreover have "csr_wf 4 (buf_elems (sv_indptr v)) (buf_elems (sv_indices v)) (buf_elems (sv_values v))"
    "i + 1 < length (buf_elems (sv_indptr v))"
    using holds_docs_wf [OF v i] by simp_all
  note compute_similarity_wf [OF this, of dec of_i dense]
  ultimately have "compute_similarity dec of_i i (buf_elems (sv_indptr v)) (buf_elems (sv_indices v))
      (buf_elems (sv_values v)) dense 4 =
    dot_product_float_dense (fst (query_row dec v i)) (snd (query_row dec v i)) (densify n (map fst q) (map snd q))"
    by (simp add: U32_def s_def e_def dense Let_def)
  also have "\<dots> = Inr (dot q (docs ! i))"
    using dot_product_float_dense_eq [of "fst (query_row dec v i)" "densify n (map fst q) (map snd q)" "snd (query_row dec v i)"]
      holds_docs_row(3,4) [OF v i] row sparse_dense_densify [OF q row] by simp
  finally show ?thesis .
qed

definition in_corpus :: "'w doc list \<Rightarrow> idx_t \<Rightarrow> bool" where
  "in_corpus docs d \<longleftrightarrow> 0 \<le> d \<and> d < int (length docs)"

lemma foldE_filter:
  "(\<And>x. x \<in> set xs \<Longrightarrow> P x \<Longrightarrow> f x = Inr (g x)) \<Longrightarrow>
     foldE (\<lambda>h x. if P x then bindE (f x) (\<lambda>s. Inr (add h s x)) else Inr h) h xs =
       Inr (foldl (\<lambda>h x. add h (g x) x) h (filter P xs))"
  by (induction xs arbitrary: h) auto

lemma topk_new_best:
  fixes xs :: "('w :: linordered_idom \<times> idx_t) list"
  assumes "topk_new k = Inr h" and "topk_items_descending (topk_add_all h xs) = (scores, ids)"
  shows "best_of k xs (resize (nat k) (- 1) scores, resize (nat k) INVALID_IDX ids)"
proof -
  note p = topk_items_pairs [OF topk_new_add_all [OF assms(1)] assms(2)]
  have "map fst (zip scores ids) = scores" "map snd (zip scores ids) = ids" using p(1) by simp_all
  moreover have "sorted_wrt (\<lambda>a b. b \<le> a) scores"
    unfolding p(3) by (intro sorted_wrt_take) (simp add: sorted_wrt_rev)
  ultimately show ?thesis
    unfolding best_of_def using p(4) by (intro exI [of _ "zip scores ids"]) simp
qed

lemma exact_single_query_best:
  fixes dec :: "byte list \<Rightarrow> 'w :: linordered_idom"
  assumes v: "holds_docs dec docs v" and docs: "docs_wf n docs"
    and q: "distinct (map fst q)" and dense: "typed_array 4 dec dense = densify n (map fst q) (map snd q)"
    and ids: "\<forall>d \<in> set ids. is_i32 d" and k: "0 < k"
  shows "\<exists>r. exact_single_query dec of_i v ids dense 4 k = Inr r \<and>
    best_of k (map (\<lambda>d. (dot q (docs ! nat d), d)) (filter (in_corpus docs) (ordered_ids ids))) r"
proof -
  obtain h where h: "topk_new k = Inr (h :: ('w, idx_t) topk_holder)"
    using k by (simp add: topk_new_def throw_if_not_positive_def)
  have nv: "num_vectors v = length docs" using v by (metis holds_docs_def length_map num_vectors_rows)
  have mem: "(doc_id < 0 \<or> size_of_int doc_id \<ge> num_vectors v) = (\<not> in_corpus docs doc_id)"
    if "doc_id \<in> set (ordered_ids ids)" for doc_id
  proof -
    have "is_i32 doc_id" using that ids by (simp add: ordered_ids_def)
    then show ?thesis by (auto simp: in_corpus_def nv is_i32_def is_i64_def size_of_int_def)
  qed
  let ?sim = "\<lambda>d. compute_similarity dec of_i (nat d) (buf_elems (sv_indptr v)) (buf_elems (sv_indices v))
    (buf_elems (sv_values v)) dense 4"
  let ?xs = "map (\<lambda>d. (dot q (docs ! nat d), d)) (filter (in_corpus docs) (ordered_ids ids))"
  have "foldE (\<lambda>holder doc_id. if doc_id < 0 \<or> size_of_int doc_id \<ge> num_vectors v then Inr holder
        else bindE (?sim doc_id) (\<lambda>score. Inr (topk_add holder score doc_id))) h (ordered_ids ids) =
      foldE (\<lambda>holder doc_id. if in_corpus docs doc_id
        then bindE (?sim doc_id) (\<lambda>score. Inr (topk_add holder score doc_id)) else Inr holder) h (ordered_ids ids)"
    using mem by (intro foldE_cong) auto
  also have "\<dots> = Inr (foldl (\<lambda>h d. topk_add h (dot q (docs ! nat d)) d) h (filter (in_corpus docs) (ordered_ids ids)))"
    by (rule foldE_filter)
      (auto simp: in_corpus_def intro!: compute_similarity_dot [OF v docs _ q dense])
  also have "foldl (\<lambda>h d. topk_add h (dot q (docs ! nat d)) d) h (filter (in_corpus docs) (ordered_ids ids)) =
      topk_add_all h ?xs"
    by (simp add: topk_add_all_def foldl_map)
  finally have run: "foldE (\<lambda>holder doc_id. if doc_id < 0 \<or> size_of_int doc_id \<ge> num_vectors v then Inr holder
        else bindE (?sim doc_id) (\<lambda>score. Inr (topk_add holder score doc_id))) h (ordered_ids ids) =
      Inr (topk_add_all h ?xs)" .
  obtain scores labels where r: "topk_items_descending (topk_add_all h ?xs) = (scores, labels)"
    by (cases "topk_items_descending (topk_add_all h ?xs)")
  show ?thesis
    using topk_new_best [OF h r] r by (simp add: exact_single_query_def h run)
qed

text \<open>
  C10: exact matching. When a selector lists no more than \<open>k\<close> ids, the search scans those documents
  only, and for every query returns the \<open>k\<close> of them of largest dot product, best first, with ids
  outside the corpus skipped. The ids are scanned as the selector lists them: an id that a selector
  lists twice is answered twice.
\<close>

theorem exact_match_best:
  fixes dec :: "byte list \<Rightarrow> 'w :: linordered_idom"
  assumes "holds_docs dec docs v" and "docs_wf n docs" and "holds_docs dec qs queries" and "docs_wf n qs"
    and "sv_dimension queries = n" and "0 < n" and "n * 4 \<le> SIZE_MAX" and "dec (replicate 4 0) = 0"
    and "length qs < 2147483647" and "\<forall>d \<in> set ids. is_i32 d" and "0 < k"
  shows "\<exists>results. exact_search dec of_i v ids queries 4 k = Inr results \<and>
    list_all2 (\<lambda>q r. best_of k (map (\<lambda>d. (dot q (docs ! nat d), d)) (filter (in_corpus docs) (ordered_ids ids))) r)
      qs results"
proof -
  have q: "sv_content_wf queries" "sv_element_size queries = 4" and r: "map (typed_row dec) (sv_rows queries) = qs"
    using assms(3) by (auto simp: holds_docs_def)
  note m = corpus_matrix [OF q(1) r assms(4)]
  let ?run = "\<lambda>i. bindE (get_dense_vector queries (int i)) (\<lambda>dense. exact_single_query dec of_i v ids dense 4 k)"
  let ?best = "\<lambda>q r. best_of k (map (\<lambda>d. (dot q (docs ! nat d), d)) (filter (in_corpus docs) (ordered_ids ids))) r"
  have each: "\<exists>r. ?run i = Inr r \<and> ?best (qs ! i) r" if i: "i < length qs" for i
  proof -
    let ?row = "sv_rows queries ! i"
    have dense: "get_dense_vector queries (int i) = Inr (concat (chunk_row 4 n (fst ?row) (row_chunks 4 (snd ?row))))"
      using get_dense_vector_row [OF q(1,2)] m(2,4) i assms(5,7,9) by simp
    have f: "fst ?row = map fst (qs ! i)"
      using holds_docs_row(2) [OF assms(3) i] by (metis map_fst_typed_row)
    have vals: "map dec (row_chunks 4 (snd ?row)) = map snd (qs ! i)"
    proof -
      have "sv_float_at dec (\<lambda>_. 0) 4 bs = dec \<circ> code_at 4 bs" for bs
        by (intro ext) (simp add: sv_float_at_def U32_def code_at_def)
      then show ?thesis
        using row_floats_encoded [OF assms(3) i, of "\<lambda>_. 0"] by (simp add: row_floats_def row_chunks_def)
    qed
    have "\<forall>b \<in> set (row_chunks 4 (snd ?row)). length b = 4"
      by (auto simp: row_chunks_def code_at_def)
    from typed_chunk_row [OF this, of dec n "fst ?row"] assms(8)
    have typed: "typed_array 4 dec (concat (chunk_row 4 n (fst ?row) (row_chunks 4 (snd ?row)))) =
        densify n (map fst (qs ! i)) (map snd (qs ! i))"
      by (simp add: vals f)
    have "distinct (map fst (qs ! i))" using assms(4) i by (simp add: docs_wf_def)
    from exact_single_query_best [OF assms(1,2) this typed assms(10,11)] dense show ?thesis by simp
  qed
  from mapE_list_all2 [of qs ?run ?best, OF each] show ?thesis by (simp add: exact_search_def m(4))
qed

theorem exact_match_best_witness:
  "\<exists>docs queries v q results. map (typed_row int_of_bytes) (sv_rows v) = docs \<and> docs = [[(0, 3), (1, 5)], [(1, 2)]] \<and>
    exact_search int_of_bytes id v [1, 0, 7] q 4 3 = Inr results \<and> queries = [[(1, 4)]] \<and>
    list_all2 (\<lambda>q r. best_of 3 (map (\<lambda>d. (dot q (docs ! nat d), d)) [0, 1]) r) queries results"
proof -
  let ?b = "([0, 2, 3], [0, 1, 1], [3, 5, 2]) :: int batch" and ?q = "([0, 1], [1], [4]) :: int batch"
  have codes: "codes_exactly idx_bytes int_of_bytes vs" if "\<forall>x \<in> set vs. 0 \<le> x \<and> x < 100" for vs
    using that by (auto simp: codes_exactly_def intro!: idx_codec.dec_enc simp: is_i32_def)
  have b: "batch_ok idx_bytes int_of_bytes ?b" "batch_ok idx_bytes int_of_bytes ?q"
    by (simp_all add: batch_ok_def csr_wf_def codes SIZE_MAX_def)
  have d: "batch_docs ?b = [[(0, 3), (1, 5)], [(1, 2)]]" "batch_docs ?q = [[(1, 4)]]"
    by (simp_all add: batch_docs_def csr_rows_def slice_def)
  have two: "(0 :: int) < 2" "is_i32 2" by (simp_all add: is_i32_def)
  obtain v q where v: "holds_docs int_of_bytes (batch_docs ?b) v" and q: "holds_docs int_of_bytes (batch_docs ?q) q"
    "sv_dimension q = nat 2"
    using query_matrix_ok [OF b(1) two] query_matrix_ok [OF b(2) two] by (elim exE conjE) (rule that)
  have wf: "docs_wf (nat 2) (batch_docs ?b)" "docs_wf (nat 2) (batch_docs ?q)"
    unfolding d by (simp_all add: docs_wf_def)
  have z: "int_of_bytes (replicate 4 0) = 0" by (simp add: int_of_bytes_def)
  have e: "0 < nat 2" "nat 2 * 4 \<le> SIZE_MAX" "length (batch_docs ?q) < 2147483647"
    "\<forall>d \<in> set [1, 0, 7]. is_i32 d" "(0 :: int) < 3"
    unfolding d by (simp_all add: SIZE_MAX_def is_i32_def)
  have o: "ordered_ids [1, 0, 7] = [0, 1, 7]" by (simp add: ordered_ids_def sort_by_def)
  have f: "filter (in_corpus (batch_docs ?b)) [0, 1, 7] = [0, 1]" unfolding d by (simp add: in_corpus_def)
  have rows: "map (typed_row int_of_bytes) (sv_rows v) = batch_docs ?b" using v by (simp add: holds_docs_def)
  obtain results where "exact_search int_of_bytes id v [1, 0, 7] q 4 3 = Inr results"
    "list_all2 (\<lambda>q r. best_of 3 (map (\<lambda>d. (dot q (batch_docs ?b ! nat d), d)) [0, 1]) r) (batch_docs ?q) results"
    using exact_match_best [OF v wf(1) q(1) wf(2) q(2) e(1,2) z e(3-5), of id] unfolding o f by (elim exE conjE)
  with rows show ?thesis unfolding d
    by (intro exI [of _ "[[(0, 3), (1, 5)], [(1, 2)]]"] exI [of _ "[[(1, 4)]]"] exI [of _ v] exI [of _ q] exI [of _ results]) simp
qed

end
