(* ===== verification/Counting_Sort.thy ===== *)
theory Counting_Sort
  imports Prelude
begin

text \<open>
  The counting sort two components inline: \<open>build_transpose\<close> of
  \<^verbatim>\<open>cluster/inverted_list_clusters.cpp\<close> and \<open>build_centroid_index\<close> of \<^verbatim>\<open>cluster/kmeans_utils.cpp\<close>.
  Entries are counted per column, the counts are prefix-summed into offsets, and a second pass
  places each entry at its column's cursor. The lemma all users need: a column's slice of the
  result is the column's entries, in order.
\<close>

section \<open>The three loops\<close>

definition count_columns :: "nat \<Rightarrow> nat list \<Rightarrow> nat list" where
  "count_columns n cols = foldl (\<lambda>ptr c. ptr[c + 1 := ptr ! (c + 1) + 1]) (replicate (n + 1) 0) cols"

definition accumulate :: "nat \<Rightarrow> nat list \<Rightarrow> nat list" where
  "accumulate n ptr = foldl (\<lambda>p t. p[t + 1 := p ! (t + 1) + p ! t]) ptr [0..<n]"

definition column_offsets :: "nat \<Rightarrow> nat list \<Rightarrow> nat list" where
  "column_offsets n cols = accumulate n (count_columns n cols)"

definition scatter :: "nat list \<Rightarrow> 'a list \<Rightarrow> (nat \<times> 'a) list \<Rightarrow> nat list \<times> 'a list" where
  "scatter cursor out entries =
     foldl (\<lambda>(cursor, out) (c, x). (cursor[c := cursor ! c + 1], out[cursor ! c := x])) (cursor, out) entries"

section \<open>Offsets\<close>

lemma length_foldl_list_update: "length (foldl (\<lambda>p t. p[f t := g p t]) p ts) = length p"
  by (induction ts arbitrary: p) auto

lemma length_count_columns [simp]: "length (count_columns n cols) = n + 1"
  by (simp add: count_columns_def length_foldl_list_update)

lemma length_column_offsets [simp]: "length (column_offsets n cols) = n + 1"
  by (simp add: column_offsets_def accumulate_def length_foldl_list_update)

lemma count_columns_nth:
  assumes "\<forall>c \<in> set cols. c < n" and "k \<le> n"
  shows "count_columns n cols ! k = (if k = 0 then 0 else count_list cols (k - 1))"
  using assms(1)
proof (induction cols rule: rev_induct)
  case Nil
  then show ?case using assms(2) by (simp add: count_columns_def nth_append nth_Cons')
next
  case (snoc c cols)
  have step: "count_columns n (cols @ [c]) = (count_columns n cols)[c + 1 := count_columns n cols ! (c + 1) + 1]"
    by (simp add: count_columns_def)
  show ?case
  proof (cases "k = c + 1")
    case True
    then show ?thesis using snoc assms(2) unfolding step by simp
  next
    case False
    then show ?thesis using snoc unfolding step by (cases k) auto
  qed
qed

lemma accumulate_nth:
  fixes ptr :: "nat list"
  assumes "m \<le> n" and "length ptr = n + 1" and "k \<le> n"
  shows "foldl (\<lambda>p t. p[t + 1 := p ! (t + 1) + p ! t]) ptr [0..<m] ! k =
    (if k \<le> m then \<Sum>i \<leftarrow> [0..<k + 1]. ptr ! i else ptr ! k)"
  using assms(1,3)
proof (induction m arbitrary: k)
  case 0
  then show ?case by simp
next
  case (Suc m)
  let ?p = "foldl (\<lambda>p t. p[t + 1 := p ! (t + 1) + p ! t]) ptr [0..<m]"
  have len: "length ?p = n + 1" by (simp add: length_foldl_list_update assms(2))
  have IH: "?p ! k = (if k \<le> m then \<Sum>i \<leftarrow> [0..<k + 1]. ptr ! i else ptr ! k)" if "k \<le> n" for k
    using Suc.IH [of k] Suc.prems that by simp
  have step: "foldl (\<lambda>p t. p[t + 1 := p ! (t + 1) + p ! t]) ptr [0..<Suc m] = ?p[m + 1 := ?p ! (m + 1) + ?p ! m]"
    by simp
  show ?case
  proof (cases "k = m + 1")
    case True
    then show ?thesis unfolding step using Suc.prems len IH [of "m + 1"] IH [of m] by (simp add: add_ac)
  next
    case False
    then show ?thesis unfolding step using Suc.prems IH [of k] by simp
  qed
qed

lemma column_offsets_nth:
  assumes "\<forall>c \<in> set cols. c < n" and "k \<le> n"
  shows "column_offsets n cols ! k = length (filter (\<lambda>c. c < k) cols)"
proof -
  have "column_offsets n cols ! k = (\<Sum>i \<leftarrow> [0..<k + 1]. count_columns n cols ! i)"
    unfolding column_offsets_def accumulate_def by (subst accumulate_nth) (use assms(2) in simp_all)
  also have "\<dots> = (\<Sum>i \<leftarrow> [0..<k]. count_list cols i)"
  proof -
    have e: "[0..<k + 1] = 0 # map Suc [0..<k]" by (simp add: upt_conv_Cons map_Suc_upt del: upt_Suc)
    have "map (\<lambda>i. count_columns n cols ! Suc i) [0..<k] = map (count_list cols) [0..<k]"
      using assms by (intro map_cong) (auto simp: count_columns_nth)
    then have "(\<Sum>i \<leftarrow> [0..<k]. count_columns n cols ! Suc i) = (\<Sum>i \<leftarrow> [0..<k]. count_list cols i)"
      by (rule arg_cong)
    then show ?thesis unfolding e using assms by (simp add: o_def count_columns_nth [of cols n 0])
  qed
  also have "\<dots> = length (filter (\<lambda>c. c < k) cols)"
  proof (induction k)
    case (Suc k)
    have "length (filter (\<lambda>c. c < Suc k) cols) = length (filter (\<lambda>c. c < k) cols) + count_list cols k"
      by (induction cols) (auto simp: less_Suc_eq)
    then show ?case using Suc by simp
  qed simp
  finally show ?thesis .
qed

lemma column_offsets_Suc:
  assumes "\<forall>c \<in> set cols. c < n" and "k < n"
  shows "column_offsets n cols ! (k + 1) = column_offsets n cols ! k + count_list cols k"
proof -
  have "length (filter (\<lambda>c. c < Suc k) cols) = length (filter (\<lambda>c. c < k) cols) + count_list cols k"
    by (induction cols) (auto simp: less_Suc_eq)
  then show ?thesis using assms by (simp add: column_offsets_nth)
qed

lemma column_offsets_mono:
  assumes "\<forall>c \<in> set cols. c < n" and "i \<le> k" and "k \<le> n"
  shows "column_offsets n cols ! i \<le> column_offsets n cols ! k"
proof -
  have "length (filter (\<lambda>c. c < i) cols) \<le> length (filter (\<lambda>c. c < k) cols)"
    using assms(2) by (induction cols) auto
  then show ?thesis using assms by (simp add: column_offsets_nth)
qed

lemma column_offsets_last: "\<forall>c \<in> set cols. c < n \<Longrightarrow> column_offsets n cols ! n = length cols"
  using column_offsets_nth [of cols n n] by (simp add: filter_id_conv)

section \<open>Scattering\<close>

definition column :: "nat \<Rightarrow> (nat \<times> 'a) list \<Rightarrow> 'a list" where
  "column k entries = map snd (filter (\<lambda>p. fst p = k) entries)"

lemma column_append: "column k (xs @ ys) = column k xs @ column k ys"
  by (simp add: column_def)

lemma length_column: "length (column k xs) = count_list (map fst xs) k"
  by (induction xs) (auto simp: column_def)

lemma scatter_inv:
  assumes "\<forall>p \<in> set (done_part @ rest). fst p < n"
    and "length out = length (done_part @ rest)"
    and "ptr = column_offsets n (map fst (done_part @ rest))"
    and "scatter (take n ptr) out done_part = (cursor, out')"
  shows "length cursor = n \<and> length out' = length out \<and>
    (\<forall>k < n. cursor ! k = ptr ! k + length (column k done_part)) \<and>
    (\<forall>k < n. \<forall>i < length (column k done_part). out' ! (ptr ! k + i) = column k done_part ! i)"
  using assms
proof (induction done_part arbitrary: rest cursor out' rule: rev_induct)
  case Nil
  then show ?case by (auto simp: scatter_def column_def)
next
  case (snoc p ps)
  obtain c x where p: "p = (c, x)" by (cases p)
  obtain cur o1 where s: "scatter (take n ptr) out ps = (cur, o1)" by (cases "scatter (take n ptr) out ps")
  have IH: "length cur = n \<and> length o1 = length out \<and>
    (\<forall>k < n. cur ! k = ptr ! k + length (column k ps)) \<and>
    (\<forall>k < n. \<forall>i < length (column k ps). o1 ! (ptr ! k + i) = column k ps ! i)"
    by (rule snoc.IH [of "p # rest"]) (use snoc.prems s in auto)
  have c: "c < n" using snoc.prems(1) by (simp add: p)
  have cols: "\<forall>k \<in> set (map fst ((ps @ [p]) @ rest)). k < n" using snoc.prems(1) by auto
  have new: "cursor = cur[c := cur ! c + 1]" "out' = o1[cur ! c := x]"
    using snoc.prems(4) s by (auto simp: scatter_def p)
  let ?L = "\<lambda>k. length (column k (ps @ [p]))"
  have inside: "ptr ! k + ?L k \<le> ptr ! (k + 1)" if "k < n" for k
  proof -
    have "?L k \<le> count_list (map fst ((ps @ [p]) @ rest)) k" by (simp add: length_column)
    then show ?thesis using column_offsets_Suc [OF cols that] snoc.prems(3) by simp
  qed
  have total: "ptr ! (k + 1) \<le> length out" if "k < n" for k
  proof -
    have "ptr ! (k + 1) \<le> ptr ! n"
      unfolding snoc.prems(3) by (rule column_offsets_mono [OF cols]) (use that in auto)
    then show ?thesis using column_offsets_last [OF cols] snoc.prems(2,3) by simp
  qed
  have at: "cur ! c = ptr ! c + length (column c ps)" using IH c by simp
  have col: "column k (ps @ [p]) = (if k = c then column c ps @ [x] else column k ps)" for k
    by (simp add: p column_def)
  have lt: "cur ! c < length o1"
    using at inside [OF c] total [OF c] IH by (simp add: col)
  have disj: "ptr ! k + i \<noteq> cur ! c" if h: "k < n" "k \<noteq> c" "i < length (column k ps)" for k i
  proof -
    have k: "ptr ! k + i < ptr ! (k + 1)" using inside [OF h(1)] h by (simp add: col)
    have cc: "cur ! c < ptr ! (c + 1)" "ptr ! c \<le> cur ! c" using at inside [OF c] by (simp_all add: col)
    consider "k < c" | "c < k" using h(2) by linarith
    then show ?thesis
    proof cases
      case 1
      then have "ptr ! (k + 1) \<le> ptr ! c"
        unfolding snoc.prems(3) by (intro column_offsets_mono [OF cols]) (use c 1 in auto)
      then show ?thesis using k cc by linarith
    next
      case 2
      then have "ptr ! (c + 1) \<le> ptr ! k"
        unfolding snoc.prems(3) by (intro column_offsets_mono [OF cols]) (use h 2 in auto)
      then show ?thesis using cc by linarith
    qed
  qed
  have "out' ! (ptr ! k + i) = column k (ps @ [p]) ! i" if k: "k < n" and i: "i < ?L k" for k i
  proof (cases "k = c")
    case True
    show ?thesis
    proof (cases "i = length (column c ps)")
      case True
      then show ?thesis using \<open>k = c\<close> at lt by (simp add: new col)
    next
      case False
      then have "i < length (column c ps)" using i \<open>k = c\<close> by (simp add: col)
      then show ?thesis using \<open>k = c\<close> IH c at by (simp add: new col nth_append)
    qed
  next
    case False
    then have ik: "i < length (column k ps)" using i by (simp add: col)
    have "o1[cur ! c := x] ! (ptr ! k + i) = o1 ! (ptr ! k + i)"
      using disj [OF k False ik] by (intro nth_list_update_neq) simp
    then show ?thesis using ik IH k False by (simp add: new col)
  qed
  moreover have "cursor ! k = ptr ! k + ?L k" if "k < n" for k
    using that IH c at by (simp add: new col nth_list_update)
  ultimately show ?case using IH by (simp add: new)
qed

text \<open>A column's slice of the result holds the column's entries, in their order.\<close>

lemma scatter_column:
  assumes "\<forall>p \<in> set entries. fst p < n" and "length out = length entries"
    and "ptr = column_offsets n (map fst entries)" and "k < n"
  shows "map ((!) (snd (scatter (take n ptr) out entries))) [ptr ! k..<ptr ! (k + 1)] = column k entries"
    "length (snd (scatter (take n ptr) out entries)) = length entries"
    "ptr ! (k + 1) \<le> length entries" "ptr ! k \<le> ptr ! (k + 1)"
proof -
  obtain cur o1 where s: "scatter (take n ptr) out entries = (cur, o1)"
    by (cases "scatter (take n ptr) out entries")
  have cols: "\<forall>c \<in> set (map fst entries). c < n" using assms(1) by auto
  note inv = scatter_inv [of entries "[]" n out ptr cur o1] assms(1-3) s
  have i: "length o1 = length out" "\<forall>i < length (column k entries). o1 ! (ptr ! k + i) = column k entries ! i"
    using inv assms(4) by auto
  have len: "ptr ! (k + 1) - ptr ! k = length (column k entries)"
    using column_offsets_Suc [OF cols assms(4)] by (simp add: assms(3) length_column)
  show "map ((!) (snd (scatter (take n ptr) out entries))) [ptr ! k..<ptr ! (k + 1)] = column k entries"
    by (rule nth_equalityI) (use i len s in auto)
  show "length (snd (scatter (take n ptr) out entries)) = length entries" using i s assms(2) by simp
  show "ptr ! (k + 1) \<le> length entries"
    using column_offsets_mono [OF cols, of "k + 1" n] column_offsets_last [OF cols] assms(3,4) by simp
  show "ptr ! k \<le> ptr ! (k + 1)"
    using column_offsets_mono [OF cols, of k "k + 1"] assms(3,4) by simp
qed

end
