(* ===== verification/Clusters.thy ===== *)
theory Clusters
  imports Inverted_Lists Distance Counting_Sort
begin

text \<open>
  \<^verbatim>\<open>cluster/inverted_list_clusters.cpp\<close>: one posting list split into clusters of documents, with a
  summary per cluster (the max-pooled terms of its documents, cut at a mass of \<open>alpha\<close>), kept
  transposed by term. Terms and cluster counts are natural numbers; the transpose's offsets, of
  type \<open>idx_t\<close>, are taken not to overflow. The GPU path is not modelled.
\<close>

section \<open>State\<close>

record clusters =
  cl_n_clusters :: size_t
  cl_element_size :: size_t
  cl_docs :: "idx_t buf"
  cl_offsets :: "idx_t buf"
  cl_term_ids :: "term_t buf"
  cl_term_ptr :: "idx_t buf"
  cl_csc_cluster :: "nat buf"
  cl_csc_value :: "byte buf"

definition cl_default :: clusters where
  "cl_default = \<lparr>cl_n_clusters = 0, cl_element_size = U32, cl_docs = buf_default, cl_offsets = buf_default,
     cl_term_ids = buf_default, cl_term_ptr = buf_default, cl_csc_cluster = buf_default,
     cl_csc_value = buf_default\<rparr>"

definition cl_new :: "idx_t list list \<Rightarrow> clusters" where
  "cl_new docs =
     (if docs = [] then cl_default
      else let (flat_docs, offsets) =
             foldl (\<lambda>(flat, offs) doc_ids. (flat @ doc_ids, offs @ [i32 (int (length (flat @ doc_ids)))]))
               ([], [0]) docs
           in cl_default\<lparr>cl_docs := buf_own flat_docs, cl_offsets := buf_own offsets\<rparr>)"

text \<open>A span of \<open>docs\<close> between two offsets; reading outside the array is undefined.\<close>

definition doc_span :: "idx_t list \<Rightarrow> idx_t \<Rightarrow> idx_t \<Rightarrow> exn + idx_t list" where
  "doc_span docs start stop =
     (if start < 0 \<or> stop < start then Inl (Undefined_behaviour ''read past the end'')
      else take_elems (nat (stop - start)) (drop (nat start) docs))"

definition get_docs :: "clusters \<Rightarrow> nat \<Rightarrow> exn + idx_t list" where
  "get_docs cl idx =
     (if buf_size (cl_offsets cl) < idx + 2 then Inr []
      else doc_span (buf_elems (cl_docs cl)) (buf_elems (cl_offsets cl) ! idx)
             (buf_elems (cl_offsets cl) ! (idx + 1)))"

section \<open>Summaries\<close>

text \<open>
  Values of the stored type \<open>'v\<close>; \<open>to_float\<close> and \<open>diff\<close> give a value and a difference of two as a
  \<open>float\<close>. The pairs are cut once their mass reaches \<open>alpha\<close>, then put in term order.
\<close>

fun keep_mass ::
  "('v \<Rightarrow> 'w) \<Rightarrow> 'w \<Rightarrow> 'w \<Rightarrow> 'w :: {plus, inverse, ord} \<Rightarrow> (term_t \<times> 'v) list \<Rightarrow> (term_t \<times> 'v) list" where
  "keep_mass to_float mass alpha addup [] = []"
| "keep_mass to_float mass alpha addup (p # ps) =
     (let addup' = addup + to_float (snd p)
      in if alpha \<le> addup' / mass then [p] else p # keep_mass to_float mass alpha addup' ps)"

definition summarize_emit_cluster ::
  "('v :: ord \<Rightarrow> byte list) \<Rightarrow> ('v \<Rightarrow> 'w) \<Rightarrow> (term_t \<times> 'v) list \<Rightarrow> 'w \<Rightarrow>
     'w :: {zero, plus, inverse, ord} \<Rightarrow> sparse_vectors \<Rightarrow> exn + sparse_vectors" where
  "summarize_emit_cluster enc to_float pairs mass alpha out =
     (let kept = keep_mass to_float mass alpha 0
            (sort_by (\<lambda>a b. snd b < snd a) pairs);
          final = sort_by (\<lambda>a b. fst a < fst b) kept
      in add_vector out (map fst final) (encode_array enc (map snd final)))"

text \<open>A row of the matrix, entry by entry, at the width of \<open>'v\<close>.\<close>

definition row_entries :: "(byte list \<Rightarrow> 'v) \<Rightarrow> sparse_vectors \<Rightarrow> idx_t \<Rightarrow> exn + (term_t \<times> 'v) list" where
  "row_entries dec vectors doc_id =
     (if doc_id < 0 then Inl (Undefined_behaviour ''read past the end'')
      else bindE (read_at (buf_elems (sv_indptr vectors)) (nat doc_id)) (\<lambda>start.
           bindE (read_at (buf_elems (sv_indptr vectors)) (nat doc_id + 1)) (\<lambda>stop.
           mapE (\<lambda>j. bindE (read_at (buf_elems (sv_indices vectors)) j) (\<lambda>t.
                     bindE (take_elems (sv_element_size vectors)
                              (drop (j * sv_element_size vectors) (buf_elems (sv_values vectors)))) (\<lambda>v.
                     Inr (t, dec v)))) [nat start..<nat stop])))"

record ('v, 'w) pool =
  po_acc :: "'v list"
  po_epoch :: "nat list"
  po_touched :: "term_t list"
  po_sum :: 'w

definition pool_entry ::
  "('v \<Rightarrow> 'w) \<Rightarrow> ('v \<Rightarrow> 'v \<Rightarrow> 'w) \<Rightarrow> nat \<Rightarrow> ('v :: {zero, ord}, 'w :: plus) pool \<Rightarrow> term_t \<times> 'v \<Rightarrow>
     exn + ('v, 'w) pool" where
  "pool_entry to_float diff cur_epoch p = (\<lambda>(trm, v).
     bindE (read_at (po_epoch p) trm) (\<lambda>e.
     if e \<noteq> cur_epoch then
       let val = (if 0 < v then v else 0)
       in bindE (store trm cur_epoch (po_epoch p)) (\<lambda>epoch.
          bindE (store trm val (po_acc p)) (\<lambda>acc.
          Inr (p\<lparr>po_acc := acc, po_epoch := epoch, po_touched := po_touched p @ [trm],
                 po_sum := po_sum p + to_float val\<rparr>)))
     else bindE (read_at (po_acc p) trm) (\<lambda>a.
          if a < v then bindE (store trm v (po_acc p)) (\<lambda>acc.
            Inr (p\<lparr>po_acc := acc, po_sum := po_sum p + diff v a\<rparr>))
          else Inr p)))"

text \<open>One cluster: pool its documents' entries, then emit its summary. The epoch is 32 bits wide.\<close>

definition summarize_cluster ::
  "(byte list \<Rightarrow> 'v) \<Rightarrow> ('v \<Rightarrow> byte list) \<Rightarrow> ('v \<Rightarrow> 'w) \<Rightarrow> ('v \<Rightarrow> 'v \<Rightarrow> 'w) \<Rightarrow> sparse_vectors \<Rightarrow>
     idx_t list \<Rightarrow> idx_t list \<Rightarrow> 'w :: {zero, plus, inverse, ord} \<Rightarrow>
     'v list \<times> nat list \<times> sparse_vectors \<Rightarrow> nat \<Rightarrow> exn + 'v :: {zero, ord} list \<times> nat list \<times> sparse_vectors" where
  "summarize_cluster dec enc to_float diff vectors docs offsets alpha st i = (case st of (acc, epoch, out) \<Rightarrow>
     bindE (doc_span docs (offsets ! i) (offsets ! (i + 1))) (\<lambda>doc_ids.
     bindE (mapE (row_entries dec vectors) doc_ids) (\<lambda>rows.
     bindE (foldE (pool_entry to_float diff ((i + 1) mod 4294967296))
              \<lparr>po_acc = acc, po_epoch = epoch, po_touched = [],
               po_sum = 0\<rparr> (concat rows)) (\<lambda>p.
     bindE (summarize_emit_cluster enc to_float (map (\<lambda>t. (t, po_acc p ! t)) (po_touched p)) (po_sum p) alpha out)
       (\<lambda>out'. Inr (po_acc p, po_epoch p, out'))))))"

definition summarize_with_cpu ::
  "(byte list \<Rightarrow> 'v :: {zero, ord}) \<Rightarrow> ('v \<Rightarrow> byte list) \<Rightarrow> ('v \<Rightarrow> 'w) \<Rightarrow> ('v \<Rightarrow> 'v \<Rightarrow> 'w) \<Rightarrow>
     sparse_vectors \<Rightarrow> idx_t list \<Rightarrow> idx_t list \<Rightarrow> 'w :: {zero, plus, inverse, ord} \<Rightarrow> exn + sparse_vectors" where
  "summarize_with_cpu dec enc to_float diff vectors docs offsets alpha =
     bindE (sv_new (sv_element_size vectors) (sv_dimension vectors)) (\<lambda>out.
     bindE (foldE (summarize_cluster dec enc to_float diff vectors docs offsets alpha)
              (replicate (sv_dimension vectors) 0, replicate (sv_dimension vectors) 0, out)
              [0..<length offsets - 1])
       (\<lambda>(_, _, out'). Inr out'))"

definition summarize_typed ::
  "(byte list \<Rightarrow> 'v :: {zero, ord}) \<Rightarrow> ('v \<Rightarrow> byte list) \<Rightarrow> ('v \<Rightarrow> 'w) \<Rightarrow> ('v \<Rightarrow> 'v \<Rightarrow> 'w) \<Rightarrow>
     sparse_vectors \<Rightarrow> idx_t list \<Rightarrow> idx_t list \<Rightarrow> 'w :: {zero, plus, inverse, ord} \<Rightarrow> exn + sparse_vectors" where
  "summarize_typed dec enc to_float diff vectors docs offsets alpha =
     (if length offsets \<le> 1 then sv_new (sv_element_size vectors) (sv_dimension vectors)
      else summarize_with_cpu dec enc to_float diff vectors docs offsets alpha)"

section \<open>The transpose\<close>

definition build_transpose :: "clusters \<Rightarrow> sparse_vectors \<Rightarrow> clusters" where
  "build_transpose cl summaries =
     (let n = num_vectors summaries;
          esz = sv_element_size summaries;
          cl' = cl\<lparr>cl_n_clusters := n, cl_element_size := esz, cl_term_ids := buf_default,
            cl_term_ptr := buf_default, cl_csc_cluster := buf_default, cl_csc_value := buf_default\<rparr>
      in if n = 0 then cl'
         else let indptr = buf_elems (sv_indptr summaries);
                  nnz = nat (indptr ! n);
                  indices = take nnz (buf_elems (sv_indices summaries));
                  term_ids = remdups_adj (sort_by (<) indices);
                  term_column = lower_bound term_ids;
                  term_ptr = column_offsets (length term_ids) (map term_column indices);
                  csc = snd (scatter (take (length term_ids) term_ptr)
                          (replicate nnz (0, replicate esz 0))
                          (map (\<lambda>(c, j). (term_column (indices ! j),
                             (u16 c, code_at esz (buf_elems (sv_values summaries)) j)))
                            (csr_entries indptr n)))
              in cl'\<lparr>cl_term_ids := buf_own term_ids, cl_term_ptr := buf_own (map int term_ptr),
                     cl_csc_cluster := buf_own (map fst csc), cl_csc_value := buf_own (concat (map snd csc))\<rparr>)"

definition summarize ::
  "(byte list \<Rightarrow> 'w) \<Rightarrow> ('w \<Rightarrow> byte list) \<Rightarrow> (nat \<Rightarrow> 'w) \<Rightarrow> clusters \<Rightarrow> sparse_vectors \<Rightarrow>
     'w :: {zero, plus, minus, inverse, ord} \<Rightarrow> exn + clusters" where
  "summarize dec enc conv cl vectors alpha =
     (let es = sv_element_size vectors; docs = buf_elems (cl_docs cl); offsets = buf_elems (cl_offsets cl)
      in bindE (if es = U32 then summarize_typed dec enc id (\<lambda>a b. a - b) vectors docs offsets alpha
                else if es = U16
                then summarize_typed le_nat (le_bytes 2) conv (\<lambda>a b. conv (a - b)) vectors docs offsets alpha
                else summarize_typed le_nat (le_bytes 1) conv (\<lambda>a b. conv (a - b)) vectors docs offsets alpha)
           (\<lambda>summaries. Inr (build_transpose cl summaries)))"

section \<open>Scoring the summaries\<close>

text \<open>\<open>q_val\<close> holds the query's values at the width of the summaries'.\<close>

definition score_term ::
  "(byte list \<Rightarrow> 'w) \<Rightarrow> (nat \<Rightarrow> 'w) \<Rightarrow> clusters \<Rightarrow> term_t \<Rightarrow> 'w \<Rightarrow> 'w list \<Rightarrow>
     exn + 'w :: {plus, times} list" where
  "score_term dec conv cl trm qv out =
     (let term_ids = buf_elems (cl_term_ids cl); it = lower_bound term_ids trm
      in if it = length term_ids \<or> term_ids ! it \<noteq> trm then Inr out
         else bindE (buf_get (cl_term_ptr cl) it) (\<lambda>start.
              bindE (buf_get (cl_term_ptr cl) (it + 1)) (\<lambda>stop.
              foldE (\<lambda>out j. bindE (buf_get (cl_csc_cluster cl) j) (\<lambda>c.
                  bindE (read_at out c) (\<lambda>o1.
                  store c (o1 + qv * value_at dec conv (cl_element_size cl) (buf_elems (cl_csc_value cl)) j) out)))
                out [nat start..<nat stop])))"

definition score_summaries_typed ::
  "(byte list \<Rightarrow> 'w) \<Rightarrow> (nat \<Rightarrow> 'w) \<Rightarrow> clusters \<Rightarrow> term_t list \<Rightarrow> byte list \<Rightarrow> 'w list \<Rightarrow>
     exn + 'w :: {plus, times} list" where
  "score_summaries_typed dec conv cl q_idx q_val out =
     foldE (\<lambda>out i. score_term dec conv cl (q_idx ! i) (value_at dec conv (cl_element_size cl) q_val i) out)
       out [0..<length q_idx]"

definition score_summaries_transposed ::
  "(byte list \<Rightarrow> 'w) \<Rightarrow> (nat \<Rightarrow> 'w) \<Rightarrow> clusters \<Rightarrow> term_t list \<Rightarrow> byte list \<Rightarrow>
     exn + 'w :: {zero, plus, times} list" where
  "score_summaries_transposed dec conv cl q_idx q_val_bytes =
     (let out = replicate (cl_n_clusters cl) 0
      in if cl_n_clusters cl = 0 \<or> buf_empty (cl_term_ids cl) then Inr out
         else score_summaries_typed dec conv cl q_idx q_val_bytes out)"

section \<open>The wire format\<close>

definition cl_serialize_store :: "clusters \<Rightarrow> writer \<Rightarrow> exn + writer" where
  "cl_serialize_store cl w =
     bindE (write_size_t (cl_n_clusters cl) w) (\<lambda>w.
     bindE (write_size_t (cl_element_size cl) w) (\<lambda>w.
     bindE (write_size_t (buf_size (cl_term_ids cl)) w) (\<lambda>w.
     bindE (if buf_size (cl_term_ids cl) > 0
            then bindE (write_padded term_bytes 2 (buf_elems (cl_term_ids cl)) w) (\<lambda>w.
                 bindE (take_elems (buf_size (cl_term_ids cl) + 1) (buf_elems (cl_term_ptr cl))) (\<lambda>ptr.
                 write_padded idx_bytes 4 ptr w))
            else Inr w) (\<lambda>w.
     bindE (write_size_t (buf_size (cl_csc_cluster cl)) w) (\<lambda>w.
     bindE (write_padded term_bytes 2 (buf_elems (cl_csc_cluster cl)) w) (\<lambda>w.
     write_padded u8_bytes (cl_element_size cl) (buf_elems (cl_csc_value cl)) w))))))"

definition cl_serialize :: "clusters \<Rightarrow> writer \<Rightarrow> exn + writer" where
  "cl_serialize cl w =
     bindE (write_size_t (buf_size (cl_docs cl)) w) (\<lambda>w.
     bindE (write_padded idx_bytes 4 (buf_elems (cl_docs cl)) w) (\<lambda>w.
     bindE (write_size_t (buf_size (cl_offsets cl)) w) (\<lambda>w.
     bindE (write_padded idx_bytes 4 (buf_elems (cl_offsets cl)) w) (\<lambda>w.
     cl_serialize_store cl w))))"

definition cl_serialize_summaries_only :: "clusters \<Rightarrow> writer \<Rightarrow> exn + writer" where
  "cl_serialize_summaries_only cl w =
     bindE (write_size_t 0 w) (\<lambda>w.
     bindE (write_padded idx_bytes 4 [] w) (\<lambda>w.
     bindE (write_size_t 0 w) (\<lambda>w.
     bindE (write_padded idx_bytes 4 [] w) (\<lambda>w.
     cl_serialize_store cl w))))"

definition cl_deserialize :: "reader \<Rightarrow> exn + clusters \<times> reader" where
  "cl_deserialize r =
     bindE (read_size_t r) (\<lambda>(n_docs, r).
     bindE (read_padded int_of_bytes 4 4 n_docs r) (\<lambda>(docs, r).
     bindE (read_size_t r) (\<lambda>(n_offsets, r).
     bindE (read_padded int_of_bytes 4 4 n_offsets r) (\<lambda>(offsets, r).
     bindE (read_size_t r) (\<lambda>(n_clusters, r).
     bindE (read_size_t r) (\<lambda>(element_size, r).
     bindE (read_size_t r) (\<lambda>(n_terms, r).
     bindE (if n_terms > 0
            then bindE (read_padded le_nat 2 2 n_terms r) (\<lambda>(term_ids, r).
                 bindE (read_padded int_of_bytes 4 4 (u64 (n_terms + 1)) r) (\<lambda>(term_ptr, r).
                 Inr ((term_ids, term_ptr), r)))
            else Inr ((buf_default, buf_default), r)) (\<lambda>((term_ids, term_ptr), r).
     bindE (read_size_t r) (\<lambda>(nnz, r).
     bindE (read_padded le_nat 2 2 nnz r) (\<lambda>(csc_cluster, r).
     bindE (checked_mul nnz element_size) (\<lambda>value_size.
     bindE (read_padded u8_of_bytes 1 element_size value_size r) (\<lambda>(csc_value, r).
     Inr (\<lparr>cl_n_clusters = n_clusters, cl_element_size = element_size, cl_docs = docs,
           cl_offsets = offsets, cl_term_ids = term_ids, cl_term_ptr = term_ptr,
           cl_csc_cluster = csc_cluster, cl_csc_value = csc_value\<rparr>, r)))))))))))))"

definition cl_mmap_deserialize :: "cursor option \<Rightarrow> exn + clusters \<times> cursor" where
  "cl_mmap_deserialize cur =
     bindE (throw_if_null cur ''cursor must not be null'') (\<lambda>c.
     bindE (map_size_t c) (\<lambda>(n_docs, c).
     bindE (borrow_padded int_of_bytes 4 4 4 n_docs c) (\<lambda>(docs, c).
     bindE (map_size_t c) (\<lambda>(n_offsets, c).
     bindE (borrow_padded int_of_bytes 4 4 4 n_offsets c) (\<lambda>(offsets, c).
     bindE (map_size_t c) (\<lambda>(n_clusters, c).
     bindE (map_size_t c) (\<lambda>(element_size, c).
     bindE (map_size_t c) (\<lambda>(n_terms, c).
     bindE (if n_terms > 0
            then bindE (borrow_padded le_nat 2 2 2 n_terms c) (\<lambda>(term_ids, c).
                 bindE (borrow_padded int_of_bytes 4 4 4 (u64 (n_terms + 1)) c) (\<lambda>(term_ptr, c).
                 Inr ((term_ids, term_ptr), c)))
            else Inr ((buf_default, buf_default), c)) (\<lambda>((term_ids, term_ptr), c).
     bindE (map_size_t c) (\<lambda>(nnz, c).
     bindE (borrow_padded le_nat 2 2 2 nnz c) (\<lambda>(csc_cluster, c).
     bindE (checked_mul nnz element_size) (\<lambda>value_size.
     bindE (map_padded u8_of_bytes 1 1 element_size value_size c) (\<lambda>((csc_value, addr), c).
     bindE (throw_if (nnz > 0 \<and> addr mod element_size \<noteq> 0)
              (Runtime_error ''mmap: cluster summary values are misaligned for the element size'')) (\<lambda>_.
     Inr (\<lparr>cl_n_clusters = n_clusters, cl_element_size = element_size, cl_docs = docs,
           cl_offsets = offsets, cl_term_ids = term_ids, cl_term_ptr = term_ptr,
           cl_csc_cluster = csc_cluster, cl_csc_value = buf_borrow csc_value\<rparr>, c)))))))))))))))"

section \<open>The transpose holds each term's entries\<close>

lemma csr_entries_positions:
  assumes "csr_wf es ip ix vs" and "n < length ip"
  shows "map snd (csr_entries ip n) = [0..<nat (ip ! n)]"
  using assms(2)
proof (induction n)
  case 0
  then show ?case using assms(1) by (simp add: csr_entries_def csr_wf_def hd_conv_nth)
next
  case (Suc n)
  have le: "nat (ip ! n) \<le> nat (ip ! (n + 1))" using csr_row_bounds(2) [OF assms(1), of n] Suc.prems by simp
  have "map snd (csr_entries ip (Suc n)) = [0..<nat (ip ! n)] @ [nat (ip ! n)..<nat (ip ! (n + 1))]"
    using Suc by (simp add: csr_entries_Suc o_def)
  also have "\<dots> = [0..<nat (ip ! (n + 1))]" using le by (metis le0 upt_add_eq_append le_add_diff_inverse)
  finally show ?case by simp
qed

lemma code_at_concat:
  "(\<And>c. c \<in> set cs \<Longrightarrow> length c = k) \<Longrightarrow> j < length cs \<Longrightarrow> code_at k (concat cs) j = cs ! j"
proof (induction cs arbitrary: j)
  case (Cons c cs)
  have c: "length c = k" using Cons.prems(1) by simp
  show ?case
  proof (cases j)
    case 0
    then show ?thesis using c by (simp add: code_at_def)
  next
    case (Suc j')
    have "code_at k (concat (c # cs)) (Suc j') = code_at k (concat cs) j'" using c by (simp add: code_at_def)
    then show ?thesis using Cons.IH [of j'] Cons.prems Suc by simp
  qed
qed simp

lemma value_at_code: "es \<in> {1, 2, 4} \<Longrightarrow> value_at dec conv es bytes j = value_at dec conv es (code_at es bytes j) 0"
  by (auto simp: value_at_def code_at_def U32_def U16_def Let_def)

text \<open>A matrix of summaries: its widths, its rows without repeated terms, no more clusters than 2 ^ 16.\<close>

definition summaries_wf :: "sparse_vectors \<Rightarrow> bool" where
  "summaries_wf v \<longleftrightarrow> sv_content_wf v \<and> sv_element_size v \<in> {1, 2, 4} \<and> rows_distinct v \<and> num_vectors v \<le> 65536"

text \<open>The entries of a term: (cluster, position) pairs, ascending.\<close>

abbreviation term_entries :: "sparse_vectors \<Rightarrow> term_t \<Rightarrow> (nat \<times> nat) list" where
  "term_entries v t \<equiv> posting_entries v t"

lemma distinct_remdups_adj_sorted: "sorted xs \<Longrightarrow> distinct (remdups_adj xs)"
  for xs :: "'a :: linorder list"
proof (induction xs rule: remdups_adj.induct)
  case (3 x y xs)
  then show ?case by (cases "x = y") (auto simp: less_le)
qed simp_all

lemma built_transpose:
  fixes cl :: clusters and v :: sparse_vectors
  assumes wf: "summaries_wf v" and n: "0 < num_vectors v"
  defines "cl' \<equiv> build_transpose cl v" and "es \<equiv> sv_element_size v"
    and "ids \<equiv> remdups_adj (sort_by (<) (buf_elems (sv_indices v)))"
  shows "cl_n_clusters cl' = num_vectors v" "cl_element_size cl' = es" "buf_elems (cl_term_ids cl') = ids"
    "sorted ids" "distinct ids" "set ids = set (buf_elems (sv_indices v))"
    "it < length ids \<Longrightarrow> t = ids ! it \<Longrightarrow> \<exists>start stop.
       buf_get (cl_term_ptr cl') it = Inr (int start) \<and> buf_get (cl_term_ptr cl') (it + 1) = Inr (int stop) \<and>
       map (\<lambda>j. (buf_get (cl_csc_cluster cl') j, code_at es (buf_elems (cl_csc_value cl')) j)) [start..<stop] =
       map (\<lambda>(c, j). (Inr c, code_at es (buf_elems (sv_values v)) j)) (term_entries v t)"
proof -
  let ?ip = "buf_elems (sv_indptr v)" and ?ix = "buf_elems (sv_indices v)" and ?vs = "buf_elems (sv_values v)"
  have c: "sv_content_wf v" "num_vectors v \<le> 65536" using wf by (auto simp: summaries_wf_def)
  note w = sv_rows_wf [OF c(1) n]
  define E where "E = csr_entries ?ip (num_vectors v)"
  have nv: "num_vectors v = length ?ip - 1" using n by (auto simp: num_vectors_def buf_size_def split: if_splits)
  have ne: "?ip \<noteq> []" using w(1) by (simp add: csr_wf_def)
  have nnz: "nat (?ip ! num_vectors v) = length ?ix"
    using w(1) last_conv_nth [OF ne] by (simp add: nv csr_wf_def)
  have pos: "map snd E = [0..<length ?ix]"
    unfolding E_def using csr_entries_positions [OF w] nnz by simp
  have lenE: "length E = length ?ix" using pos by (metis diff_zero length_map length_upt)
  define entries where "entries = map (\<lambda>(c, j). (lower_bound ids (?ix ! j), (u16 c, code_at es ?vs j))) E"
  define ptr where "ptr = column_offsets (length ids) (map (lower_bound ids) ?ix)"
  define csc where "csc = snd (scatter (take (length ids) ptr) (replicate (length ?ix) (0, replicate es 0)) entries)"
  have cl': "cl_n_clusters cl' = num_vectors v" "cl_element_size cl' = es" "buf_elems (cl_term_ids cl') = ids"
    "buf_elems (cl_term_ptr cl') = map int ptr" "buf_elems (cl_csc_cluster cl') = map fst csc"
    "buf_elems (cl_csc_value cl') = concat (map snd csc)"
    using n by (simp_all add: cl'_def build_transpose_def Let_def nnz ids_def es_def ptr_def csc_def entries_def E_def)
  then show "cl_n_clusters cl' = num_vectors v" "cl_element_size cl' = es" "buf_elems (cl_term_ids cl') = ids" by auto
  have srt: "sorted (sort_by (<) ?ix)" using sorted_sort_by [of "(<)" "\<lambda>x. x" ?ix] by simp
  show s: "sorted ids" unfolding ids_def using srt by (rule sorted_remdups_adj)
  show d: "distinct ids" unfolding ids_def using srt by (simp add: distinct_remdups_adj_sorted)
  show i: "set ids = set ?ix" by (simp add: ids_def)
  have lb: "lower_bound ids t < length ids \<and> ids ! lower_bound ids t = t" if "t \<in> set ?ix" for t
    using that lower_bound_nth [OF s d] i by (metis in_set_conv_nth)
  have keys: "map fst entries = map (lower_bound ids) ?ix"
  proof -
    have "map fst entries = map (lower_bound ids) (map ((!) ?ix) (map snd E))"
      by (simp add: entries_def case_prod_unfold o_def)
    then show ?thesis by (simp only: pos map_nth)
  qed
  have fst_lt: "\<forall>p \<in> set entries. fst p < length ids"
  proof
    fix p assume "p \<in> set entries"
    then have "fst p \<in> set (map (lower_bound ids) ?ix)" unfolding keys [symmetric] by simp
    then show "fst p < length ids" using lb by auto
  qed
  have len_out: "length (replicate (length ?ix) (0 :: nat, replicate es (0 :: byte))) = length entries"
    using lenE by (simp add: entries_def)
  have ptr: "ptr = column_offsets (length ids) (map fst entries)" by (simp add: ptr_def keys)
  assume it: "it < length ids" and t: "t = ids ! it"
  note col = scatter_column [OF fst_lt len_out ptr it, folded csc_def]
  have "column it entries = map (\<lambda>(c, j). (c, code_at es ?vs j)) (term_entries v t)"
  proof -
    have same: "(lower_bound ids (?ix ! j) = it) = (?ix ! j = t)" if "(a, j) \<in> set E" for a j
    proof -
      have "j \<in> set (map snd E)" using that by force
      then have "?ix ! j \<in> set ?ix" unfolding pos by simp
      then show ?thesis using lb [of "?ix ! j"] lower_bound_nth [OF s d it] t by auto
    qed
    have small: "u16 a = a" if "(a, j) \<in> set E" for a j
      using entries_in_range [OF c(1), of a j] that c(2) by (simp add: E_def)
    have "column it entries = map (\<lambda>(c, j). (u16 c, code_at es ?vs j)) (filter (\<lambda>(c, j). lower_bound ids (?ix ! j) = it) E)"
      by (simp add: column_def entries_def filter_map o_def case_prod_unfold)
    also have "filter (\<lambda>(c, j). lower_bound ids (?ix ! j) = it) E = filter (\<lambda>(c, j). ?ix ! j = t) E"
      using same by (intro filter_cong) auto
    also have "\<dots> = term_entries v t" by (simp add: posting_entries_def entries_of_def E_def)
    also have "map (\<lambda>(c, j). (u16 c, code_at es ?vs j)) (term_entries v t) = map (\<lambda>(c, j). (c, code_at es ?vs j)) (term_entries v t)"
      using small by (intro map_cong) (auto simp: posting_entries_def entries_of_def E_def)
    finally show ?thesis .
  qed
  then have slice: "map ((!) csc) [ptr ! it..<ptr ! (it + 1)] = map (\<lambda>(c, j). (c, code_at es ?vs j)) (term_entries v t)"
    using col(1) by simp
  have lencsc: "length csc = length ?ix" using col(2) len_out by simp
  have in_csc: "j < length csc" if "j \<in> set [ptr ! it..<ptr ! (it + 1)]" for j
    using that col(3) lencsc len_out by simp
  have code_len: "length x = es" if "x \<in> set (map snd csc)" for x
  proof -
    have all: "length x = es" if "x \<in> set (map snd (snd (scatter cur out ps)))"
      "\<forall>y \<in> set (map snd out). length y = es" "\<forall>p \<in> set ps. length (snd (snd p)) = es"
      for cur out and ps :: "(nat \<times> nat \<times> byte list) list"
      using that
    proof (induction ps arbitrary: cur out)
      case (Cons p ps)
      obtain a b y where p: "p = (a, (b, y))" by (cases p) auto
      have y: "length y = es" using Cons.prems(3) by (simp add: p)
      have "\<forall>z \<in> set (map snd (out[cur ! a := (b, y)])). length z = es"
        using Cons.prems(2) y set_update_subset_insert [of "map snd out" "cur ! a" y]
        by (auto simp: map_update)
      then show ?case using Cons.IH [of "cur[a := cur ! a + 1]" "out[cur ! a := (b, y)]"] Cons.prems(1,3)
        by (simp add: scatter_def p)
    qed (auto simp: scatter_def)
    have "length (snd (snd p)) = es" if pe: "p \<in> set entries" for p
    proof -
      obtain a j where aj: "(a, j) \<in> set E" "p = (lower_bound ids (?ix ! j), (u16 a, code_at es ?vs j))"
        using pe by (auto simp: entries_def)
      have "j < length ?ix" using entries_in_range [OF c(1), of a j] aj(1) by (simp add: E_def)
      then show ?thesis using length_code_at [of j "length ?ix" ?vs es] w(1) by (simp add: aj(2) csr_wf_def es_def)
    qed
    then show ?thesis using all [of "take (length ids) ptr" "replicate (length ?ix) (0, replicate es 0)" entries] that
      by (simp add: csc_def)
  qed
  have lptr: "length ptr = length ids + 1" by (simp add: ptr_def)
  have "map (\<lambda>j. (buf_get (cl_csc_cluster cl') j, code_at es (buf_elems (cl_csc_value cl')) j)) [ptr ! it..<ptr ! (it + 1)] =
      map (\<lambda>x. (Inr (fst x), snd x)) (map ((!) csc) [ptr ! it..<ptr ! (it + 1)])"
    unfolding map_map
  proof (rule map_cong [OF refl])
    fix j assume "j \<in> set [ptr ! it..<ptr ! (it + 1)]"
    note j = in_csc [OF this]
    have "code_at es (concat (map snd csc)) j = map snd csc ! j"
      using code_at_concat [of "map snd csc" es j] code_len j by simp
    then show "(buf_get (cl_csc_cluster cl') j, code_at es (buf_elems (cl_csc_value cl')) j) =
        ((\<lambda>x. (Inr (fst x), snd x)) \<circ> (!) csc) j"
      using j by (simp add: cl'(5,6) buf_get_def)
  qed
  also have "\<dots> = map (\<lambda>(c, j). (Inr c, code_at es ?vs j)) (term_entries v t)"
    unfolding slice by (simp add: o_def case_prod_unfold)
  finally show "\<exists>start stop.
       buf_get (cl_term_ptr cl') it = Inr (int start) \<and> buf_get (cl_term_ptr cl') (it + 1) = Inr (int stop) \<and>
       map (\<lambda>j. (buf_get (cl_csc_cluster cl') j, code_at es (buf_elems (cl_csc_value cl')) j)) [start..<stop] =
       map (\<lambda>(c, j). (Inr c, code_at es ?vs j)) (term_entries v t)"
    using it lptr by (intro exI [of _ "ptr ! it"] exI [of _ "ptr ! (it + 1)"]) (simp add: buf_get_def cl'(4))
qed

section \<open>Scoring through the transpose\<close>

text \<open>
  A summary's score, in the order of the query's terms: the terms it does not hold add nothing.
  No law of arithmetic is used, so the equality below holds for floats as they round.
\<close>

definition summary_row :: "(byte list \<Rightarrow> 'w) \<Rightarrow> (nat \<Rightarrow> 'w) \<Rightarrow> sparse_vectors \<Rightarrow> nat \<Rightarrow> (term_t \<times> 'w) list" where
  "summary_row dec conv v c =
     map (\<lambda>j. (buf_elems (sv_indices v) ! j, value_at dec conv (sv_element_size v) (buf_elems (sv_values v)) j))
       [nat (buf_elems (sv_indptr v) ! c)..<nat (buf_elems (sv_indptr v) ! (c + 1))]"

definition summary_score ::
  "('w :: {zero, plus, times}) list \<Rightarrow> term_t list \<Rightarrow> (term_t \<times> 'w) list \<Rightarrow> nat \<Rightarrow> 'w" where
  "summary_score qvs q_idx row m = foldl (\<lambda>r i. case map_of row (q_idx ! i) of
       None \<Rightarrow> r | Some w \<Rightarrow> r + qvs ! i * w) 0 [0..<m]"

lemma foldl_add_at:
  fixes out :: "'w :: {plus, times} list"
  assumes "distinct (map fst E)" and "c < length out"
  shows "foldl (\<lambda>out (c, x). out[c := out ! c + q * x]) out E ! c =
    (case map_of E c of None \<Rightarrow> out ! c | Some x \<Rightarrow> out ! c + q * x)"
  using assms
proof (induction E arbitrary: out)
  case (Cons p E)
  obtain d x where p: "p = (d, x)" by (cases p)
  show ?case
  proof (cases "d = c")
    case True
    then have "map_of E c = None" using Cons.prems(1) by (auto simp: p map_of_eq_None_iff)
    then show ?thesis using Cons True by (simp add: p)
  next
    case False
    then show ?thesis using Cons by (auto simp: p split: option.split)
  qed
qed simp

lemma length_foldl_add_at [simp]: "length (foldl (\<lambda>out (c, x). out[c := out ! c + q * x]) out E) = length out"
  by (induction E arbitrary: out) auto

lemma foldE_add_at:
  fixes out :: "'w :: {plus, times} list"
  assumes "map (\<lambda>j. (g j, x j)) js = map (\<lambda>(c, y). (Inr c, y)) E" and "\<forall>(c, y) \<in> set E. c < length out"
  shows "foldE (\<lambda>out j. bindE (g j) (\<lambda>c. bindE (read_at out c) (\<lambda>o1. store c (o1 + q * x j) out))) out js =
    Inr (foldl (\<lambda>out (c, y). out[c := out ! c + q * y]) out E)"
  using assms
proof (induction js arbitrary: out E)
  case (Cons j js)
  then obtain c y E' where E: "E = (c, y) # E'" by (cases E) auto
  have j: "g j = Inr c" "x j = y" and js: "map (\<lambda>j. (g j, x j)) js = map (\<lambda>(c, y). (Inr c, y)) E'"
    using Cons.prems(1) by (auto simp: E)
  have c: "c < length out" using Cons.prems(2) by (auto simp: E)
  have "foldE (\<lambda>out j. bindE (g j) (\<lambda>c. bindE (read_at out c) (\<lambda>o1. store c (o1 + q * x j) out)))
      (out[c := out ! c + q * y]) js = Inr (foldl (\<lambda>out (c, y). out[c := out ! c + q * y]) (out[c := out ! c + q * y]) E')"
    by (rule Cons.IH [OF js]) (use Cons.prems(2) in \<open>auto simp: E\<close>)
  then show ?case using j c by (simp add: E store_def)
qed auto

text \<open>The entries of a term, looked up by cluster, are the rows looked up by term.\<close>

lemma term_entries_lookup:
  assumes wf: "summaries_wf v"
  shows "distinct (map fst (term_entries v t))"
    "(c, j) \<in> set (term_entries v t) \<Longrightarrow> c < num_vectors v"
    "c < num_vectors v \<Longrightarrow> map_of (map (\<lambda>(c, j). (c, g j)) (term_entries v t)) c =
       map_of (map (\<lambda>j. (buf_elems (sv_indices v) ! j, g j))
         [nat (buf_elems (sv_indptr v) ! c)..<nat (buf_elems (sv_indptr v) ! (c + 1))]) t"
proof -
  let ?ip = "buf_elems (sv_indptr v)" and ?ix = "buf_elems (sv_indices v)"
  have c: "sv_content_wf v" "rows_distinct v" using wf by (auto simp: summaries_wf_def)
  have row: "distinct (map (\<lambda>j. ?ix ! j) [nat (?ip ! i)..<nat (?ip ! (i + 1))])" if i: "i < num_vectors v" for i
  proof -
    have n: "0 < num_vectors v" using i by simp
    note w = sv_rows_wf [OF c(1) n]
    have i1: "i + 1 < length ?ip" using w(2) i by simp
    note b = csr_row_bounds [OF w(1) i1]
    have "sv_rows v ! i \<in> set (sv_rows v)" using i num_vectors_rows [of v] by simp
    then have "distinct (fst (sv_rows v ! i))" using c(2) by (simp add: rows_distinct_def)
    moreover have "fst (sv_rows v ! i) = map (\<lambda>j. ?ix ! j) [nat (?ip ! i)..<nat (?ip ! (i + 1))]"
      by (rule nth_equalityI) (use b in \<open>auto simp: sv_rows_def slice_nth\<close>)
    ultimately show ?thesis by simp
  qed
  note scan = posting_scan [of "num_vectors v" ?ix ?ip t, OF row, folded posting_entries_def]
  show "distinct (map fst (term_entries v t))"
    using scan by (metis strict_sorted_iff)
  show "(c, j) \<in> set (term_entries v t) \<Longrightarrow> c < num_vectors v" using scan by force
  have "map_of (map (\<lambda>(c, j). (c, g j)) E) c = map_option g (map_of E c)" for E :: "(nat \<times> nat) list"
    by (induction E) auto
  moreover have "map_of (map (\<lambda>j. (?ix ! j, g j)) js) t = map_option g (map_of (map (\<lambda>j. (?ix ! j, j)) js) t)" for js
    by (rule map_of_map_key)
  ultimately show "c < num_vectors v \<Longrightarrow> map_of (map (\<lambda>(c, j). (c, g j)) (term_entries v t)) c =
       map_of (map (\<lambda>j. (?ix ! j, g j)) [nat (?ip ! c)..<nat (?ip ! (c + 1))]) t"
    using scan by simp
qed

lemma term_entries_absent:
  assumes "sv_content_wf v" and "t \<notin> set (buf_elems (sv_indices v))"
  shows "term_entries v t = []"
  using assms entries_in_range [OF assms(1)]
  by (auto simp: posting_entries_def entries_of_def filter_empty_conv)

lemma score_term_rows:
  fixes out :: "'w :: {zero, plus, times} list"
  assumes wf: "summaries_wf v" and n: "0 < num_vectors v" and len: "length out = num_vectors v"
  shows "score_term dec conv (build_transpose cl v) t q out =
    Inr (map (\<lambda>c. case map_of (summary_row dec conv v c) t of None \<Rightarrow> out ! c | Some w \<Rightarrow> out ! c + q * w)
      [0..<num_vectors v])"
proof -
  let ?cl = "build_transpose cl v" and ?es = "sv_element_size v" and ?vs = "buf_elems (sv_values v)"
  define ids where "ids = remdups_adj (sort_by (<) (buf_elems (sv_indices v)))"
  note b = built_transpose [OF wf n, folded ids_def]
  have c: "sv_content_wf v" "?es \<in> {1, 2, 4}" using wf by (auto simp: summaries_wf_def)
  let ?g = "\<lambda>j. value_at dec conv ?es ?vs j"
  let ?E = "map (\<lambda>(c, j). (c, ?g j)) (term_entries v t)"
  have lookup: "(case map_of (summary_row dec conv v k) t of None \<Rightarrow> out ! k | Some w \<Rightarrow> out ! k + q * w) =
      foldl (\<lambda>out (c, x). out[c := out ! c + q * x]) out ?E ! k" if "k < num_vectors v" for k
  proof -
    have "distinct (map fst ?E)" using term_entries_lookup(1) [OF wf, of t] by (simp add: o_def case_prod_unfold)
    then show ?thesis
      unfolding summary_row_def term_entries_lookup(3) [OF wf that, symmetric]
      by (subst foldl_add_at) (use that len in simp_all)
  qed
  have result: "map (\<lambda>c. case map_of (summary_row dec conv v c) t of None \<Rightarrow> out ! c | Some w \<Rightarrow> out ! c + q * w)
      [0..<num_vectors v] = foldl (\<lambda>out (c, x). out[c := out ! c + q * x]) out ?E"
    by (rule nth_equalityI) (use lookup len in \<open>simp_all cong: option.case_cong\<close>)
  show ?thesis
  proof (cases "t \<in> set ids")
    case False
    then have "\<not> (lower_bound ids t \<noteq> length ids \<and> ids ! lower_bound ids t = t)"
      using lower_bound_le [OF b(4), of t] by (metis nat_less_le nth_mem)
    moreover have "term_entries v t = []" using term_entries_absent [OF c(1)] False b(6) by simp
    ultimately show ?thesis unfolding result by (auto simp: score_term_def b(3) Let_def)
  next
    case True
    then obtain it where it: "it < length ids" "t = ids ! it" by (metis in_set_conv_nth)
    have lb: "lower_bound ids t = it" unfolding it(2) by (rule lower_bound_nth [OF b(4,5) it(1)])
    obtain start stop where s: "buf_get (cl_term_ptr ?cl) it = Inr (int start)"
      "buf_get (cl_term_ptr ?cl) (it + 1) = Inr (int stop)"
      "map (\<lambda>j. (buf_get (cl_csc_cluster ?cl) j, code_at ?es (buf_elems (cl_csc_value ?cl)) j)) [start..<stop] =
       map (\<lambda>(c, j). (Inr c, code_at ?es ?vs j)) (term_entries v t)"
      using b(7) [OF it, of cl] by blast
    have "map (\<lambda>x. (fst x, value_at dec conv ?es (snd x) 0))
        (map (\<lambda>j. (buf_get (cl_csc_cluster ?cl) j, code_at ?es (buf_elems (cl_csc_value ?cl)) j)) [start..<stop]) =
      map (\<lambda>x. (fst x, value_at dec conv ?es (snd x) 0)) (map (\<lambda>(c, j). (Inr c, code_at ?es ?vs j)) (term_entries v t))"
      by (simp only: s(3))
    then have typed: "map (\<lambda>j. (buf_get (cl_csc_cluster ?cl) j, value_at dec conv ?es (buf_elems (cl_csc_value ?cl)) j)) [start..<stop] =
        map (\<lambda>(c, y). (Inr c, y)) ?E"
      by (simp add: o_def case_prod_unfold value_at_code [OF c(2), symmetric])
    have "foldE (\<lambda>out j. bindE (buf_get (cl_csc_cluster ?cl) j) (\<lambda>c. bindE (read_at out c) (\<lambda>o1.
        store c (o1 + q * value_at dec conv ?es (buf_elems (cl_csc_value ?cl)) j) out))) out [start..<stop] =
      Inr (foldl (\<lambda>out (c, y). out[c := out ! c + q * y]) out ?E)"
      by (rule foldE_add_at [OF typed]) (use term_entries_lookup(2) [OF wf] len in auto)
    then show ?thesis
      unfolding result using it lb s(1,2) by (simp add: score_term_def b(2,3) Let_def)
  qed
qed

lemma score_summaries_fold:
  fixes dec :: "byte list \<Rightarrow> 'w :: {zero, plus, times}"
  assumes wf: "summaries_wf v" and n: "0 < num_vectors v" and m: "m \<le> length q_idx"
    and qvs: "qvs = map (value_at dec conv (sv_element_size v) q_val) [0..<length q_idx]"
  shows "foldE (\<lambda>out i. score_term dec conv (build_transpose cl v) (q_idx ! i)
       (value_at dec conv (cl_element_size (build_transpose cl v)) q_val i) out)
     (replicate (num_vectors v) 0) [0..<m] =
    Inr (map (\<lambda>c. summary_score qvs q_idx (summary_row dec conv v c) m) [0..<num_vectors v])"
  using m
proof (induction m)
  case 0
  then show ?case by (simp add: summary_score_def map_replicate_const)
next
  case (Suc m)
  let ?f = "\<lambda>out i. score_term dec conv (build_transpose cl v) (q_idx ! i)
       (value_at dec conv (cl_element_size (build_transpose cl v)) q_val i) out"
  let ?s = "\<lambda>m. map (\<lambda>c. summary_score qvs q_idx (summary_row dec conv v c) m) [0..<num_vectors v]"
  have q: "value_at dec conv (cl_element_size (build_transpose cl v)) q_val m = qvs ! m"
    using Suc.prems by (simp add: qvs built_transpose(2) [OF wf n])
  have "foldE ?f (replicate (num_vectors v) 0) [0..<Suc m] = ?f (?s m) m"
    using Suc.IH Suc.prems by (simp add: foldE_append bindE_return)
  also have "\<dots> = Inr (?s (Suc m))"
    unfolding q by (subst score_term_rows [OF wf n]) (simp_all add: summary_score_def cong: option.case_cong)
  finally show ?case .
qed

text \<open>
  C26: scoring through the transpose is scoring the summaries. After \<open>summarize\<close> has transposed a
  matrix of summaries, \<open>score_summaries_transposed\<close> gives each cluster the score its own summary
  row gets, entry by entry in the order of the query's terms, at every stored width; and no access
  leaves an array. The equality is one of the operations performed, so it holds for floats.
\<close>

theorem transposed_scores_are_row_scores:
  fixes dec :: "byte list \<Rightarrow> 'w :: {zero, plus, times}"
  assumes "summaries_wf v"
  shows "score_summaries_transposed dec conv (build_transpose cl v) q_idx q_val =
    Inr (map (\<lambda>c. summary_score (map (value_at dec conv (sv_element_size v) q_val) [0..<length q_idx]) q_idx
      (summary_row dec conv v c) (length q_idx)) [0..<num_vectors v])"
proof (cases "num_vectors v = 0")
  case True
  then show ?thesis by (simp add: score_summaries_transposed_def build_transpose_def Let_def)
next
  case False
  then have n: "0 < num_vectors v" by simp
  note b = built_transpose [OF assms n]
  have c: "sv_content_wf v" using assms by (simp add: summaries_wf_def)
  show ?thesis
  proof (cases "buf_elems (sv_indices v) = []")
    case True
    note w = sv_rows_wf [OF c n]
    have empty: "summary_row dec conv v i = []" if "i < num_vectors v" for i
    proof -
      have "i + 1 < length (buf_elems (sv_indptr v))" using that w(2) by simp
      from csr_row_bounds(3) [OF w(1) this] True show ?thesis by (simp add: summary_row_def)
    qed
    have zero: "summary_score qvs q_idx [] m = (0 :: 'w)" for qvs m
      by (induction m) (simp_all add: summary_score_def)
    have "buf_elems (cl_term_ids (build_transpose cl v)) = []" using b(3) [of cl] True by (simp add: sort_by_def)
    then have "buf_empty (cl_term_ids (build_transpose cl v))" by (simp add: buf_empty_def buf_size_def)
    moreover have "map (\<lambda>c. summary_score (map (value_at dec conv (sv_element_size v) q_val) [0..<length q_idx]) q_idx
        (summary_row dec conv v c) (length q_idx)) [0..<num_vectors v] = map (\<lambda>_. 0) [0..<num_vectors v]"
      by (intro map_cong) (simp_all add: empty zero)
    ultimately show ?thesis
      using b(1) [of cl] n by (simp add: score_summaries_transposed_def map_replicate_const)
  next
    case False
    then have "buf_elems (cl_term_ids (build_transpose cl v)) \<noteq> []" using b(3) [of cl] b(6) by (metis empty_set set_empty)
    then have "\<not> buf_empty (cl_term_ids (build_transpose cl v))" by (simp add: buf_empty_def buf_size_def)
    then show ?thesis
      using score_summaries_fold [OF assms n le_refl refl, of dec conv cl q_idx q_val] n b(1) [of cl]
      by (simp add: score_summaries_transposed_def score_summaries_typed_def)
  qed
qed

theorem transposed_scores_are_row_scores_witness:
  "score_summaries_transposed (\<lambda>_. 0) int (build_transpose cl_default \<lparr>sv_indptr = buf_own [0, 2],
      sv_indices = buf_own [5, 9], sv_values = buf_own [2, 3], sv_element_size = 1, sv_dimension = 10\<rparr>)
    [9] [7] = Inr [21]"
proof -
  let ?v = "\<lparr>sv_indptr = buf_own [0, 2], sv_indices = buf_own [5, 9], sv_values = buf_own [2, 3],
    sv_element_size = 1, sv_dimension = 10\<rparr>"
  have n: "num_vectors ?v = Suc 0" by (simp add: num_vectors_def buf_empty_def buf_size_def)
  note n' = n [simplified]
  have "summaries_wf ?v"
    unfolding summaries_wf_def n
    by (simp add: sv_content_wf_def csr_wf_def rows_distinct_def sv_rows_def csr_rows_def slice_def)
  from transposed_scores_are_row_scores [OF this, of "\<lambda>_. 0" int cl_default "[9]" "[7]"] show ?thesis
    by (simp add: n' summary_row_def summary_score_def value_at_def U32_def U16_def Let_def upt_rec [of 0 "Suc 0"] upt_rec [of "Suc 0" "Suc 0"] upt_rec [of 0 2] upt_rec [of "Suc 0" 2] upt_rec [of 2 2])
qed

end
