(* ===== verification/Cluster_Walk.thy ===== *)
theory Cluster_Walk
  imports Exact_Matcher Clusters
begin

text \<open>
  What the clustered searches share: the search parameters of \<^verbatim>\<open>index.h\<close> and the index headers, and the
  walk over the clusters of a list, skipping those whose summary scores too low against the current
  \<open>k\<close>-th best. When summaries bound their documents the walk is exact: the heap holds the best of
  every document of every cluster, visited or skipped, whatever the order and the skips.
\<close>

section \<open>Search parameters\<close>

text \<open>
  The class hierarchy of \<open>SearchParameters\<close>: plain, Seismic (cut, heap factor), its quantized
  form (range, cut, heap factor), the disk form (cut, block budget) and the quantized disk form.
  Each carries an optional selector.
\<close>

datatype 'w search_params =
    Plain_Parameters "id_selector option"
  | Seismic_Parameters int 'w "id_selector option"
  | Seismic_SQ_Parameters 'w 'w int 'w "id_selector option"
  | Disk_Seismic_Parameters int int "id_selector option"
  | Disk_Seismic_SQ_Parameters 'w 'w int int "id_selector option"

fun get_id_selector :: "'w search_params \<Rightarrow> id_selector option" where
  "get_id_selector (Plain_Parameters s) = s"
| "get_id_selector (Seismic_Parameters _ _ s) = s"
| "get_id_selector (Seismic_SQ_Parameters _ _ _ _ s) = s"
| "get_id_selector (Disk_Seismic_Parameters _ _ s) = s"
| "get_id_selector (Disk_Seismic_SQ_Parameters _ _ _ _ s) = s"

fun put_id_selector :: "id_selector option \<Rightarrow> 'w search_params \<Rightarrow> 'w search_params" where
  "put_id_selector s (Plain_Parameters _) = Plain_Parameters s"
| "put_id_selector s (Seismic_Parameters c hf _) = Seismic_Parameters c hf s"
| "put_id_selector s (Seismic_SQ_Parameters lo hi c hf _) = Seismic_SQ_Parameters lo hi c hf s"
| "put_id_selector s (Disk_Seismic_Parameters c budget _) = Disk_Seismic_Parameters c budget s"
| "put_id_selector s (Disk_Seismic_SQ_Parameters lo hi c budget _) = Disk_Seismic_SQ_Parameters lo hi c budget s"

definition params_selector :: "'w search_params option \<Rightarrow> id_selector option" where
  "params_selector p = (case p of None \<Rightarrow> None | Some p \<Rightarrow> get_id_selector p)"

text \<open>\<^verbatim>\<open>dynamic_cast<const SeismicSearchParameters*>\<close>, with the defaults where it fails.\<close>

definition seismic_cut_and_factor :: "'w :: one search_params option \<Rightarrow> int \<times> 'w" where
  "seismic_cut_and_factor p = (case p of
       Some (Seismic_Parameters q_cut heap_factor _) \<Rightarrow> (q_cut, heap_factor)
     | Some (Seismic_SQ_Parameters _ _ q_cut heap_factor _) \<Rightarrow> (q_cut, heap_factor)
     | Some (Disk_Seismic_Parameters q_cut _ _) \<Rightarrow> (q_cut, 1)
     | Some (Disk_Seismic_SQ_Parameters _ _ q_cut _ _) \<Rightarrow> (q_cut, 1)
     | _ \<Rightarrow> (10, 1))"

section \<open>Walking the clusters of a list\<close>

text \<open>One document: skipped when already visited or not selected, else scored and offered.\<close>

definition visit_doc ::
  "(idx_t \<Rightarrow> exn + 'w) \<Rightarrow> id_selector option \<Rightarrow> ('w :: ord, idx_t) topk_holder \<times> idx_t list \<Rightarrow> idx_t \<Rightarrow>
     exn + ('w, idx_t) topk_holder \<times> idx_t list" where
  "visit_doc score_of sel = (\<lambda>(heap, visited) doc_id.
     if doc_id \<in> set visited then Inr (heap, visited)
     else if (case sel of None \<Rightarrow> False | Some s \<Rightarrow> \<not> is_member s doc_id) then Inr (heap, doc_id # visited)
     else bindE (score_of doc_id) (\<lambda>s. Inr (topk_add heap s doc_id, doc_id # visited)))"

text \<open>The clusters in order; too low a summary ends the first list and skips within the others.\<close>

fun walk_clusters ::
  "(idx_t \<Rightarrow> exn + 'w) \<Rightarrow> id_selector option \<Rightarrow> 'w :: {times, ord} \<Rightarrow> bool \<Rightarrow> 'w list \<Rightarrow> (nat \<Rightarrow> exn + idx_t list) \<Rightarrow>
     ('w, idx_t) topk_holder \<times> idx_t list \<Rightarrow> nat list \<Rightarrow> exn + ('w, idx_t) topk_holder \<times> idx_t list" where
  "walk_clusters score_of sel heap_factor first_list summary_scores docs_of st [] = Inr st"
| "walk_clusters score_of sel heap_factor first_list summary_scores docs_of st (c # cs) =
     (if topk_full (fst st) \<and> summary_scores ! c * heap_factor < topk_peek_score (fst st)
      then if first_list then Inr st
           else walk_clusters score_of sel heap_factor first_list summary_scores docs_of st cs
      else bindE (docs_of c) (\<lambda>docs.
           bindE (foldE (visit_doc score_of sel) st docs) (\<lambda>st.
           walk_clusters score_of sel heap_factor first_list summary_scores docs_of st cs)))"


section \<open>The walk is exact when summaries bound their documents\<close>

lemma mset_topk_add_full:
  fixes h :: "('s :: linorder, 'i) topk_holder"
  assumes inv: "topk_inv k M h" and full: "topk_full h"
  shows "topk_full (topk_add h s i)" "topk_peek_score h \<le> topk_peek_score (topk_add h s i)"
    "s \<le> topk_peek_score h \<Longrightarrow> topk_add h s i = h"
proof -
  have k: "0 < k" "tk_k h = int k" and heap: "is_heap score (tk_pq h)"
    and th: "length (tk_pq h) = k \<Longrightarrow> tk_threshold h = Some (score (pq_top (tk_pq h)))"
    using inv by (auto simp: topk_inv_def)
  have len: "length (tk_pq h) = k" using full k by (simp add: topk_full_def)
  note inv' = topk_inv_add [OF inv, of s i]
  have k': "tk_k (topk_add h s i) = int k" and heap': "is_heap score (tk_pq (topk_add h s i))"
    using inv' by (simp_all add: topk_inv_def)
  have "size M \<ge> k" using topk_inv_size [OF inv] len by simp
  then have len': "length (tk_pq (topk_add h s i)) = k" using topk_inv_size [OF inv'] by simp
  show "topk_full (topk_add h s i)" using k' len' by (simp add: topk_full_def)
  show same: "s \<le> topk_peek_score h \<Longrightarrow> topk_add h s i = h"
    using len k th by (simp add: topk_add_def within_threshold_def topk_peek_score_def Let_def)
  have ne: "tk_pq h \<noteq> []" "tk_pq (topk_add h s i) \<noteq> []" using len len' k by auto
  have least: "topk_peek_score h \<le> score y" if "y \<in># mset (tk_pq h)" for y
    using heap.top_least [OF heap that] by (simp add: topk_peek_score_def)
  show "topk_peek_score h \<le> topk_peek_score (topk_add h s i)"
  proof (cases "s \<le> topk_peek_score h")
    case True
    then show ?thesis using same by simp
  next
    case False
    then have "tk_pq (topk_add h s i) = pq_push compare_item (pq_pop compare_item (tk_pq h)) (TopKItem s i)"
      using len k th by (simp add: topk_add_def within_threshold_def topk_peek_score_def Let_def)
    then have m: "mset (tk_pq (topk_add h s i)) = add_mset (TopKItem s i) (mset (tk_pq h) - {#pq_top (tk_pq h)#})"
      using heap.elems_pop [OF heap] ne by (simp add: compare_item_fun)
    have "pq_top (tk_pq (topk_add h s i)) \<in># mset (tk_pq (topk_add h s i))" by (rule pq_top_in [OF heap' ne(2)])
    then consider "pq_top (tk_pq (topk_add h s i)) = TopKItem s i" | "pq_top (tk_pq (topk_add h s i)) \<in># mset (tk_pq h)"
      unfolding m by (auto dest: in_diffD)
    then show ?thesis using least False by cases (auto simp: topk_peek_score_def)
  qed
qed

definition doc_items :: "(idx_t \<Rightarrow> 'w) \<Rightarrow> (idx_t \<Rightarrow> bool) \<Rightarrow> idx_t set \<Rightarrow> ('w, idx_t) topk_item multiset" where
  "doc_items s P seen = image_mset (\<lambda>d. TopKItem (s d) d) (mset_set {d \<in> seen. P d})"

text \<open>
  The documents accounted for: visited, or skipped with a score below the \<open>k\<close>-th best of a full heap.
\<close>

definition walk_inv ::
  "nat \<Rightarrow> (idx_t \<Rightarrow> 'w :: linorder) \<Rightarrow> (idx_t \<Rightarrow> bool) \<Rightarrow> idx_t set \<Rightarrow> ('w, idx_t) topk_holder \<times> idx_t list \<Rightarrow> bool" where
  "walk_inv k s P seen st \<longleftrightarrow> finite seen \<and> set (snd st) \<subseteq> seen \<and> topk_inv k (doc_items s P seen) (fst st) \<and>
     (\<forall>d \<in> seen - set (snd st). P d \<longrightarrow> topk_full (fst st) \<and> s d \<le> topk_peek_score (fst st))"

lemma doc_items_insert:
  "finite seen \<Longrightarrow> d \<notin> seen \<Longrightarrow> doc_items s P (insert d seen) =
     (if P d then add_mset (TopKItem (s d) d) (doc_items s P seen) else doc_items s P seen)"
proof -
  assume a: "finite seen" "d \<notin> seen"
  have "{x \<in> insert d seen. P x} = (if P d then insert d {x \<in> seen. P x} else {x \<in> seen. P x})" by auto
  then show ?thesis using a by (simp add: doc_items_def)
qed

definition selected_by :: "id_selector option \<Rightarrow> idx_t \<Rightarrow> bool" where
  "selected_by sel d \<longleftrightarrow> (case sel of None \<Rightarrow> True | Some s \<Rightarrow> is_member s d)"

lemma visit_doc_inv:
  fixes s :: "idx_t \<Rightarrow> 'w :: linorder"
  assumes inv: "walk_inv k s (selected_by sel) seen st" and score: "selected_by sel d \<Longrightarrow> score_of d = Inr (s d)"
  shows "\<exists>st'. visit_doc score_of sel st d = Inr st' \<and> walk_inv k s (selected_by sel) (insert d seen) st'"
proof -
  obtain h visited where st: "st = (h, visited)" by (cases st)
  let ?P = "selected_by sel"
  have w: "finite seen" "set visited \<subseteq> seen" "topk_inv k (doc_items s ?P seen) h"
    and below: "\<And>d. d \<in> seen \<Longrightarrow> d \<notin> set visited \<Longrightarrow> ?P d \<Longrightarrow> topk_full h \<and> s d \<le> topk_peek_score h"
    using inv by (auto simp: walk_inv_def st)
  consider "d \<in> set visited" | "d \<notin> set visited" "\<not> ?P d" | "d \<notin> set visited" "?P d" by blast
  then show ?thesis
  proof cases
    case 1
    then show ?thesis using inv w(2) by (auto simp: st visit_doc_def insert_absorb)
  next
    case 2
    then have "visit_doc score_of sel st d = Inr (h, d # visited)"
      by (auto simp: st visit_doc_def selected_by_def split: option.splits)
    moreover have "doc_items s ?P (insert d seen) = doc_items s ?P seen"
      using doc_items_insert [OF w(1), of d s ?P] 2 by (cases "d \<in> seen") (simp_all add: insert_absorb)
    ultimately show ?thesis using w below 2 by (auto simp: walk_inv_def)
  next
    case 3
    let ?h = "topk_add h (s d) d"
    have "visit_doc score_of sel st d = Inr (?h, d # visited)"
      using 3 score by (auto simp: st visit_doc_def selected_by_def split: option.splits)
    moreover have "topk_inv k (doc_items s ?P (insert d seen)) ?h"
    proof (cases "d \<in> seen")
      case True
      then have "topk_add h (s d) d = h" using mset_topk_add_full(3) [OF w(3)] below 3 by blast
      then show ?thesis using True w(3) by (simp add: insert_absorb)
    next
      case False
      then show ?thesis using topk_inv_add [OF w(3), of "s d" d] 3 doc_items_insert [OF w(1) False, of s ?P] by simp
    qed
    moreover have "topk_full ?h \<and> s e \<le> topk_peek_score ?h" if "e \<in> seen" "e \<notin> set visited" "?P e" for e
      using below [OF that] mset_topk_add_full(1,2) [OF w(3), of "s d" d] by (auto intro: order_trans)
    ultimately show ?thesis using w 3 by (auto simp: walk_inv_def)
  qed
qed

lemma visit_docs_inv:
  fixes s :: "idx_t \<Rightarrow> 'w :: linorder"
  assumes "walk_inv k s (selected_by sel) seen st" and "\<And>d. d \<in> set ds \<Longrightarrow> selected_by sel d \<Longrightarrow> score_of d = Inr (s d)"
  shows "\<exists>st'. foldE (visit_doc score_of sel) st ds = Inr st' \<and> walk_inv k s (selected_by sel) (set ds \<union> seen) st'"
  using assms
proof (induction ds arbitrary: seen st)
  case (Cons d ds)
  obtain st1 where st1: "visit_doc score_of sel st d = Inr st1" "walk_inv k s (selected_by sel) (insert d seen) st1"
    using visit_doc_inv [OF Cons.prems(1), of d score_of] Cons.prems(2) by auto
  then show ?case using Cons.IH [OF st1(2)] Cons.prems(2) by auto
qed auto

lemma skip_docs_inv:
  fixes s :: "idx_t \<Rightarrow> 'w :: linorder"
  assumes "walk_inv k s P seen st" and "topk_full (fst st)" and "finite D"
    and "\<And>d. d \<in> D \<Longrightarrow> P d \<Longrightarrow> s d \<le> topk_peek_score (fst st)"
  shows "walk_inv k s P (D \<union> seen) st"
  using assms(3,4)
proof (induction D rule: finite_induct)
  case empty
  then show ?case using assms(1) by simp
next
  case (insert d D)
  have IH: "walk_inv k s P (D \<union> seen) st" using insert by simp
  show ?case
  proof (cases "d \<in> D \<union> seen")
    case True
    then show ?thesis using IH by (simp add: insert_absorb)
  next
    case False
    let ?h = "fst st"
    have inv: "topk_inv k (doc_items s P (D \<union> seen)) ?h" and fin: "finite (D \<union> seen)"
      using IH by (simp_all add: walk_inv_def)
    have "topk_inv k (doc_items s P (insert d (D \<union> seen))) ?h"
    proof (cases "P d")
      case True
      have "topk_add ?h (s d) d = ?h"
        using mset_topk_add_full(3) [OF inv assms(2)] insert.prems True by simp
      then show ?thesis using topk_inv_add [OF inv, of "s d" d] doc_items_insert [OF fin False, of s P] True by simp
    qed (use inv doc_items_insert [OF fin False, of s P] in simp)
    then show ?thesis using IH insert.prems assms(2) by (auto simp: walk_inv_def)
  qed
qed

text \<open>Every selected document of the clusters is scored, and no higher than its summary allows.\<close>

definition summaries_bound ::
  "(idx_t \<Rightarrow> exn + 'w) \<Rightarrow> (idx_t \<Rightarrow> 'w :: {times, linorder}) \<Rightarrow> (idx_t \<Rightarrow> bool) \<Rightarrow> 'w \<Rightarrow> 'w list \<Rightarrow>
     (nat \<Rightarrow> exn + idx_t list) \<Rightarrow> (nat \<Rightarrow> idx_t list) \<Rightarrow> bool" where
  "summaries_bound score_of s P heap_factor summary_scores docs_of docs \<longleftrightarrow>
     (\<forall>c < length summary_scores. docs_of c = Inr (docs c) \<and>
        (\<forall>d \<in> set (docs c). P d \<longrightarrow> score_of d = Inr (s d) \<and> s d \<le> summary_scores ! c * heap_factor))"

lemma walk_clusters_inv:
  fixes s :: "idx_t \<Rightarrow> 'w :: linordered_idom"
  assumes "walk_inv k s (selected_by sel) seen st" and "set cs \<subseteq> {0..<length scores}"
    and "summaries_bound score_of s (selected_by sel) heap_factor scores docs_of docs"
    and "first_list \<longrightarrow> 0 \<le> heap_factor \<and> sorted_wrt (\<lambda>a b. scores ! b \<le> scores ! a) cs"
  shows "\<exists>st'. walk_clusters score_of sel heap_factor first_list scores docs_of st cs = Inr st' \<and>
    walk_inv k s (selected_by sel) ((\<Union>c \<in> set cs. set (docs c)) \<union> seen) st'"
  using assms
proof (induction cs arbitrary: seen st)
  case (Cons c cs)
  let ?P = "selected_by sel"
  have c: "c < length scores" using Cons.prems(2) by simp
  have docs: "docs_of i = Inr (docs i)" if "i < length scores" for i
    using Cons.prems(3) that by (simp add: summaries_bound_def)
  have sc: "score_of d = Inr (s d)" "s d \<le> scores ! i * heap_factor"
    if "i < length scores" "d \<in> set (docs i)" "?P d" for i d
    using Cons.prems(3) that by (simp_all add: summaries_bound_def)
  have rest: "set cs \<subseteq> {0..<length scores}"
    "first_list \<longrightarrow> 0 \<le> heap_factor \<and> sorted_wrt (\<lambda>a b. scores ! b \<le> scores ! a) cs"
    using Cons.prems(2,4) by auto
  show ?case
  proof (cases "topk_full (fst st) \<and> scores ! c * heap_factor < topk_peek_score (fst st)")
    case False
    obtain st1 where st1: "foldE (visit_doc score_of sel) st (docs c) = Inr st1"
      "walk_inv k s ?P (set (docs c) \<union> seen) st1"
      using visit_docs_inv [OF Cons.prems(1), of "docs c" score_of] sc(1) [OF c] by blast
    show ?thesis
      using Cons.IH [OF st1(2) rest(1) Cons.prems(3) rest(2)] st1(1) docs [OF c] False
      by (auto simp: Un_ac)
  next
    case True
    have low: "s d \<le> topk_peek_score (fst st)"
      if "i < length scores" "scores ! i * heap_factor \<le> scores ! c * heap_factor" "d \<in> set (docs i)" "?P d" for i d
      using sc(2) [OF that(1,3,4)] that(2) True by linarith
    show ?thesis
    proof (cases first_list)
      case True': True
      have le: "scores ! i * heap_factor \<le> scores ! c * heap_factor" if "i \<in> set (c # cs)" for i
        using that Cons.prems(4) True' by (auto intro: mult_right_mono)
      have "walk_inv k s ?P ((\<Union>c \<in> set (c # cs). set (docs c)) \<union> seen) st"
      proof (intro skip_docs_inv [OF Cons.prems(1)])
        fix d assume "d \<in> (\<Union>c \<in> set (c # cs). set (docs c))" and P: "?P d"
        then obtain i where i: "i \<in> set (c # cs)" "d \<in> set (docs i)" by blast
        then have "i < length scores" using Cons.prems(2) by auto
        then show "s d \<le> topk_peek_score (fst st)" by (rule low [OF _ le [OF i(1)] i(2) P])
      qed (use True in simp_all)
      then show ?thesis using True True' by simp
    next
      case False
      have "walk_inv k s ?P (set (docs c) \<union> seen) st"
        using True by (intro skip_docs_inv [OF Cons.prems(1)]) (auto intro!: low [OF c])
      from Cons.IH [OF this rest(1) Cons.prems(3) rest(2)] True False show ?thesis by (auto simp: Un_ac)
    qed
  qed
qed auto

section \<open>The order of the clusters\<close>

lemma set_reorder_clusters: "set (reorder_clusters scores first_list) = {0..<length scores}"
  by (simp add: reorder_clusters_def Let_def)

lemma sorted_reorder_clusters:
  "sorted_wrt (\<lambda>a b. scores ! b \<le> (scores ! a :: 'w :: linorder)) (reorder_clusters scores True)"
  unfolding reorder_clusters_def Let_def by simp (rule sorted_sort_by_desc, simp)

lemma walk_list_inv:
  fixes s :: "idx_t \<Rightarrow> 'w :: linordered_idom"
  assumes "walk_inv k s (selected_by sel) seen st" and "0 \<le> heap_factor"
    and "summaries_bound score_of s (selected_by sel) heap_factor scores docs_of docs"
  shows "\<exists>st'. walk_clusters score_of sel heap_factor first_list scores docs_of st
      (reorder_clusters scores first_list) = Inr st' \<and>
    walk_inv k s (selected_by sel) ((\<Union>c < length scores. set (docs c)) \<union> seen) st'"
proof -
  have "first_list \<longrightarrow> 0 \<le> heap_factor \<and>
      sorted_wrt (\<lambda>a b. scores ! b \<le> scores ! a) (reorder_clusters scores first_list)"
    using assms(2) sorted_reorder_clusters [of scores] by (cases first_list) simp_all
  from walk_clusters_inv [OF assms(1) _ assms(3) this] show ?thesis
    by (simp add: set_reorder_clusters lessThan_atLeast0)
qed

text \<open>What the heap answers at the end.\<close>

lemma walk_best:
  fixes s :: "idx_t \<Rightarrow> 'w :: linordered_idom"
  assumes inv: "walk_inv (nat k) s P (set ds) (h, visited)" and ds: "distinct ds"
    and items: "topk_items_descending h = (scores, ids)"
  shows "best_of k (map (\<lambda>d. (s d, d)) (filter P ds)) (resize (nat k) (- 1) scores, resize (nat k) INVALID_IDX ids)"
proof -
  let ?xs = "map (\<lambda>d. (s d, d)) (filter P ds)"
  have "mset_set {d \<in> set ds. P d} = mset (filter P ds)"
    using mset_set_set [of "filter P ds"] ds by simp
  then have "doc_items s P (set ds) = image_mset pair_item (mset ?xs)"
    by (simp add: doc_items_def multiset.map_comp o_def pair_item_def)
  then have inv: "topk_inv (nat k) (image_mset pair_item (mset ?xs)) h"
    using inv by (simp add: walk_inv_def)
  note p = topk_items_pairs [OF inv items]
  have "map fst (zip scores ids) = scores" "map snd (zip scores ids) = ids" using p(1) by simp_all
  moreover have "sorted_wrt (\<lambda>a b. b \<le> a) scores"
    unfolding p(3) by (intro sorted_wrt_take) (simp add: sorted_wrt_rev)
  ultimately show ?thesis
    unfolding best_of_def using p(4) by (intro exI [of _ "zip scores ids"]) simp
qed

lemma walk_inv_new: "topk_new k = Inr h \<Longrightarrow> walk_inv (nat k) s P {} (h, [])"
  using topk_inv_new [of k h] by (simp add: walk_inv_def doc_items_def)

section \<open>The lists of a query\<close>

text \<open>The documents of a list and of the lists a query visits, each once.\<close>

definition list_docs :: "clusters \<Rightarrow> idx_t list" where
  "list_docs cl = concat (map (\<lambda>c. case get_docs cl c of Inl _ \<Rightarrow> [] | Inr ds \<Rightarrow> ds) [0..<cl_n_clusters cl])"

definition visited_docs :: "clusters list \<Rightarrow> term_t list \<Rightarrow> idx_t list" where
  "visited_docs cls cuts = remdups (concat (map (\<lambda>t. if t < length cls then list_docs (cls ! t) else []) cuts))"

lemma walk_lists_inv:
  fixes n :: nat
  assumes "walk_inv k s P seen st"
    and "\<And>t first st seen. t < n \<Longrightarrow> walk_inv k s P seen st \<Longrightarrow>
      \<exists>st'. query t first st = Inr st' \<and> walk_inv k s P (D t \<union> seen) st'"
  shows "\<exists>st' first'. foldE (\<lambda>(st, first) t. if t \<ge> n then Inr (st, first)
      else bindE (query t first st) (\<lambda>st. Inr (st, False))) (st, first) cuts = Inr (st', first') \<and>
    walk_inv k s P ((\<Union>t \<in> set cuts \<inter> {..<n}. D t) \<union> seen) st'"
  using assms(1)
proof (induction cuts arbitrary: seen st first)
  case (Cons t cuts)
  show ?case
  proof (cases "t < n")
    case True
    obtain st1 where st1: "query t first st = Inr st1" "walk_inv k s P (D t \<union> seen) st1"
      using assms(2) [OF True Cons.prems] by blast
    obtain st' first' where "foldE (\<lambda>(st, first) t. if t \<ge> n then Inr (st, first)
        else bindE (query t first st) (\<lambda>st. Inr (st, False))) (st1, False) cuts = Inr (st', first')"
      "walk_inv k s P ((\<Union>t \<in> set cuts \<inter> {..<n}. D t) \<union> (D t \<union> seen)) st'"
      using Cons.IH [OF st1(2), of False] by blast
    moreover have "\<not> n \<le> t" using True by simp
    ultimately show ?thesis
      using st1(1) True by (intro exI [of _ st'] exI [of _ first']) (simp add: Un_ac Int_insert_left)
  next
    case False
    then show ?thesis using Cons.IH [OF Cons.prems, of first] by (simp add: lessThan_def)
  qed
qed auto

lemma set_visited_docs: "set (visited_docs cls cuts) = (\<Union>t \<in> set cuts \<inter> {..<length cls}. set (list_docs (cls ! t)))"
  by (auto simp: visited_docs_def split: if_splits)

text \<open>Each cluster's documents are in the corpus, scoring no more than the summary times the heap factor.\<close>

definition list_bounded ::
  "clusters \<Rightarrow> 'w :: {times, linorder} list \<Rightarrow> (idx_t \<Rightarrow> 'w) \<Rightarrow> 'w \<Rightarrow> (idx_t \<Rightarrow> bool) \<Rightarrow> bool" where
  "list_bounded cl scores s heap_factor valid \<longleftrightarrow> length scores = cl_n_clusters cl \<and>
     (\<forall>c < cl_n_clusters cl. \<exists>ds. get_docs cl c = Inr ds \<and>
        (\<forall>d \<in> set ds. valid d \<and> s d \<le> scores ! c * heap_factor))"

lemma walk_bounded_list:
  fixes s :: "idx_t \<Rightarrow> 'w :: linordered_idom"
  assumes "walk_inv k s (selected_by sel) seen st" and "0 \<le> heap_factor"
    and "list_bounded cl scores s heap_factor valid" and "\<And>d. valid d \<Longrightarrow> score_of d = Inr (s d)"
  shows "\<exists>st'. walk_clusters score_of sel heap_factor first_list scores (get_docs cl) st
      (reorder_clusters scores first_list) = Inr st' \<and>
    walk_inv k s (selected_by sel) (set (list_docs cl) \<union> seen) st'"
proof -
  let ?docs = "\<lambda>c. case get_docs cl c of Inl _ \<Rightarrow> [] | Inr ds \<Rightarrow> ds"
  have n: "length scores = cl_n_clusters cl" using assms(3) by (simp add: list_bounded_def)
  have "summaries_bound score_of s (selected_by sel) heap_factor scores (get_docs cl) ?docs"
    using assms(3,4) by (fastforce simp: summaries_bound_def list_bounded_def)
  from walk_list_inv [OF assms(1,2) this, of first_list]
  show ?thesis by (simp add: list_docs_def n lessThan_atLeast0)
qed

end
