(* ===== verification/KMeans.thy ===== *)
theory KMeans
  imports Clusters
begin

text \<open>
  \<^verbatim>\<open>cluster/random_kmeans.cpp\<close> and \<^verbatim>\<open>cluster/kmeans_utils.cpp\<close> (CPU path): the draw of the initial
  centroids, the inverted index over the centroids, and the assignment of every other document to
  its nearest centroid. The draws of \<^verbatim>\<open>std::mt19937\<close> through \<^verbatim>\<open>std::uniform_int_distribution\<close>, which
  the standard leaves to the implementation, are a parameter: \<open>draw seed i b\<close> is the number in
  \<open>[0, b]\<close> the \<open>i\<close>-th call gives. The accumulator's type \<open>'a\<close> is \<open>float\<close> or a 64-bit integer, taken
  not to overflow.
\<close>

section \<open>The initial centroids\<close>

definition random_select_initial_centroids ::
  "(nat \<Rightarrow> nat \<Rightarrow> nat \<Rightarrow> nat) \<Rightarrow> idx_t list \<Rightarrow> size_t \<Rightarrow> nat \<Rightarrow> idx_t list list" where
  "random_select_initial_centroids draw docs n_clusters seed =
     (let n_docs = length docs
      in if n_clusters > n_docs then []
         else if n_clusters \<le> 0 then []
         else snd (foldl (\<lambda>(docs, clusters) i.
                let r = draw seed i (n_docs - i - 1); doc_id = docs ! r
                in (docs[r := docs ! (n_docs - 1 - i), n_docs - 1 - i := doc_id], clusters @ [[doc_id]]))
              (docs, []) [0..<n_clusters]))"

text \<open>The integer part of \<^verbatim>\<open>std::sqrt\<close>, exact below \<open>2 ^ 52\<close>.\<close>

definition int_sqrt :: "nat \<Rightarrow> nat" where
  "int_sqrt n = length (takeWhile (\<lambda>r. r * r \<le> n) [1..<n + 1])"

definition boundary_check_n_clusters :: "size_t \<Rightarrow> size_t \<Rightarrow> size_t" where
  "boundary_check_n_clusters n_docs n_clusters =
     (let n = (if n_clusters \<le> 0 then int_sqrt n_docs else n_clusters);
          n = (if n > n_docs then n_docs else n)
      in max 1 n)"

section \<open>The centroid index\<close>

record 'a centroid_index =
  ci_term_ptr :: "nat list"
  ci_cluster :: "nat list"
  ci_weight :: "'a list"
  ci_n_cols :: nat

text \<open>\<open>cluster.at(0)\<close>, which throws for an empty cluster.\<close>

definition centroid_of :: "idx_t list \<Rightarrow> exn + idx_t" where
  "centroid_of cluster = (case cluster of [] \<Rightarrow> Inl (Out_of_range ''vector::at'') | c # _ \<Rightarrow> Inr c)"

definition centroid_entries :: "(term_t \<times> 'a) list list \<Rightarrow> (term_t \<times> nat \<times> 'a) list" where
  "centroid_entries rows = concat (map (\<lambda>(c, row). map (\<lambda>(t, w). (t, c, w)) row) (enumerate 0 rows))"

definition index_rows :: "(term_t \<times> 'a :: zero) list list \<Rightarrow> 'a centroid_index" where
  "index_rows rows =
     (let entries = centroid_entries rows;
          cols = map fst entries;
          nnz = length entries;
          n_cols = (if nnz = 0 then 0 else foldl max 0 cols + 1);
          term_ptr = column_offsets n_cols cols;
          csc = snd (scatter (take n_cols term_ptr) (replicate nnz (0, 0)) entries)
      in \<lparr>ci_term_ptr = term_ptr, ci_cluster = map fst csc, ci_weight = map snd csc, ci_n_cols = n_cols\<rparr>)"

definition build_centroid_index ::
  "(byte list \<Rightarrow> 'a :: zero) \<Rightarrow> sparse_vectors \<Rightarrow> idx_t list list \<Rightarrow> exn + 'a centroid_index" where
  "build_centroid_index dec vectors clusters =
     bindE (mapE centroid_of clusters) (\<lambda>centroids.
     bindE (mapE (row_entries dec vectors) centroids) (\<lambda>rows. Inr (index_rows rows)))"

section \<open>Assignment\<close>

definition binary_search :: "'k :: linorder list \<Rightarrow> 'k \<Rightarrow> bool" where
  "binary_search xs x = (let it = lower_bound xs x in it < length xs \<and> xs ! it = x)"

definition accumulate_term ::
  "'a centroid_index \<Rightarrow> 'a list \<Rightarrow> term_t \<times> 'a \<Rightarrow> 'a :: {plus, times} list" where
  "accumulate_term index similarities = (\<lambda>(t, doc_value).
     if ci_n_cols index \<le> t then similarities
     else foldl (\<lambda>s p. s[ci_cluster index ! p := s ! (ci_cluster index ! p) + doc_value * ci_weight index ! p])
            similarities [ci_term_ptr index ! t..<ci_term_ptr index ! (t + 1)])"

definition best_cluster :: "'a :: ord list \<Rightarrow> nat" where
  "best_cluster similarities =
     fst (foldl (\<lambda>(best_cluster, best) c. if best < similarities ! c then (c, similarities ! c)
                                           else (best_cluster, best))
           (0, similarities ! 0) [1..<length similarities])"

definition assign_doc ::
  "(byte list \<Rightarrow> 'a :: {zero, plus, times, ord}) \<Rightarrow> sparse_vectors \<Rightarrow> 'a centroid_index \<Rightarrow> idx_t list \<Rightarrow>
     idx_t list list \<Rightarrow> idx_t \<Rightarrow> exn + idx_t list list" where
  "assign_doc dec vectors index centroid_ids clusters doc_id =
     (if binary_search centroid_ids doc_id then Inr clusters
      else bindE (row_entries dec vectors doc_id) (\<lambda>row.
           let best = best_cluster (foldl (accumulate_term index) (replicate (length clusters) 0) row)
           in Inr (clusters[best := clusters ! best @ [doc_id]])))"

definition map_docs_to_clusters_typed ::
  "(byte list \<Rightarrow> 'a :: {zero, plus, times, ord}) \<Rightarrow> sparse_vectors \<Rightarrow> idx_t list \<Rightarrow> idx_t list list \<Rightarrow>
     exn + idx_t list list" where
  "map_docs_to_clusters_typed dec vectors docs clusters =
     bindE (build_centroid_index dec vectors clusters) (\<lambda>index.
     bindE (mapE centroid_of clusters) (\<lambda>centroid_ids.
     foldE (assign_doc dec vectors index (sort_by (<) centroid_ids)) clusters docs))"

text \<open>\<open>dec\<close> reads a stored \<open>float\<close>; the quantized widths accumulate in 64-bit integers.\<close>

definition map_docs_to_clusters ::
  "(byte list \<Rightarrow> 'w :: {zero, plus, times, ord}) \<Rightarrow> sparse_vectors option \<Rightarrow> idx_t list \<Rightarrow> idx_t list list \<Rightarrow>
     exn + idx_t list list" where
  "map_docs_to_clusters dec vectors docs clusters = (case vectors of
       None \<Rightarrow> Inl (Runtime_error ''vectors is nullptr'')
     | Some v \<Rightarrow>
         if clusters = [] \<or> docs = [] then Inr clusters
         else if sv_element_size v = U32 then map_docs_to_clusters_typed dec v docs clusters
         else map_docs_to_clusters_typed (\<lambda>bs. int (le_nat bs)) v docs clusters)"

definition train ::
  "(byte list \<Rightarrow> 'w :: {zero, plus, times, ord}) \<Rightarrow> (nat \<Rightarrow> nat \<Rightarrow> nat \<Rightarrow> nat) \<Rightarrow> sparse_vectors option \<Rightarrow>
     idx_t list \<Rightarrow> size_t \<Rightarrow> nat \<Rightarrow> exn + idx_t list list" where
  "train dec draw vectors doc_ids n_clusters seed =
     bindE (throw_if_null vectors ''Null pointer argument'') (\<lambda>_.
     if length doc_ids = 0 then Inr []
     else map_docs_to_clusters dec vectors doc_ids
            (random_select_initial_centroids draw doc_ids
               (boundary_check_n_clusters (length doc_ids) n_clusters) seed))"

section \<open>The draw\<close>

text \<open>The documented range of a uniform integer distribution.\<close>

definition draws_in_range :: "(nat \<Rightarrow> nat \<Rightarrow> nat \<Rightarrow> nat) \<Rightarrow> bool" where
  "draws_in_range draw \<longleftrightarrow> (\<forall>seed i b. draw seed i b \<le> b)"

lemma mset_swap_last:
  assumes "r \<le> m" and "m < length xs"
  shows "take m (xs[r := xs ! m, m := y]) = (take m xs)[r := xs ! m]" 
    "mset (take (Suc m) xs) = add_mset (xs ! r) (mset ((take m xs)[r := xs ! m]))"
proof -
  show "take m (xs[r := xs ! m, m := y]) = (take m xs)[r := xs ! m]"
    by (metis take_update_cancel take_update_swap le_refl)
  have t: "take (Suc m) xs = take m xs @ [xs ! m]" using assms by (simp add: take_Suc_conv_app_nth)
  show "mset (take (Suc m) xs) = add_mset (xs ! r) (mset ((take m xs)[r := xs ! m]))"
  proof (cases "r = m")
    case True
    then show ?thesis using assms unfolding t by (simp add: list_update_beyond)
  next
    case False
    then have r: "r < length (take m xs)" using assms by simp
    then have "xs ! r \<in># mset (take m xs)" by (simp add: in_set_conv_nth) (metis nth_take assms(2) min.absorb2 less_imp_le)
    then show ?thesis using r unfolding t by (simp add: mset_update)
  qed
qed

lemma select_centroids:
  assumes "draws_in_range draw" and "0 < n" and "n \<le> length docs"
  shows "\<exists>cs. random_select_initial_centroids draw docs n seed = map (\<lambda>c. [c]) cs \<and> length cs = n \<and> mset cs \<subseteq># mset docs"
proof -
  let ?N = "length docs"
  define step :: "idx_t list \<times> idx_t list list \<Rightarrow> nat \<Rightarrow> idx_t list \<times> idx_t list list" where "step = (\<lambda>(docs, clusters) i.
                let r = draw seed i (?N - i - 1); doc_id = docs ! r
                in (docs[r := docs ! (?N - 1 - i), ?N - 1 - i := doc_id], clusters @ [[doc_id]]))"
  have "\<exists>ds cs. foldl step (docs, []) [0..<m] = (ds, map (\<lambda>c. [c]) cs) \<and> length ds = ?N \<and> length cs = m \<and>
      mset cs + mset (take (?N - m) ds) = mset docs" if "m \<le> ?N" for m
    using that
  proof (induction m)
    case (Suc m)
    then obtain ds cs where IH: "foldl step (docs, []) [0..<m] = (ds, map (\<lambda>c. [c]) cs)" "length ds = ?N"
      "length cs = m" "mset cs + mset (take (?N - m) ds) = mset docs" by auto
    define r where "r = draw seed m (?N - m - 1)"
    define l where "l = ?N - Suc m"
    have l: "Suc l = ?N - m" "l < length ds" using Suc.prems IH(2) by (auto simp: l_def)
    have rl: "r \<le> l" using assms(1) by (simp add: r_def l_def draws_in_range_def)
    have step: "foldl step (docs, []) [0..<Suc m] = (ds[r := ds ! l, l := ds ! r], map (\<lambda>c. [c]) (cs @ [ds ! r]))"
      by (simp add: IH(1)) (simp add: step_def r_def l_def Let_def)
    have "mset (cs @ [ds ! r]) + mset (take l (ds[r := ds ! l, l := ds ! r])) = mset docs"
      using mset_swap_last [OF rl l(2)] IH(4) l(1) by simp
    then have "length (ds[r := ds ! l, l := ds ! r]) = ?N \<and> length (cs @ [ds ! r]) = Suc m \<and>
        mset (cs @ [ds ! r]) + mset (take (?N - Suc m) (ds[r := ds ! l, l := ds ! r])) = mset docs"
      using IH(2,3) by (simp add: l_def)
    then show ?case unfolding step by blast
  qed simp
  from this [OF assms(3)] obtain ds cs where s: "foldl step (docs, []) [0..<n] = (ds, map (\<lambda>c. [c]) cs)"
    "length cs = n" "mset cs + mset (take (?N - n) ds) = mset docs" by blast
  have "random_select_initial_centroids draw docs n seed = map (\<lambda>c. [c]) cs"
    using s(1) assms(2,3) by (simp add: random_select_initial_centroids_def step_def)
  then show ?thesis using s by (metis mset_subset_eq_add_left)
qed

section \<open>Rows and the centroid index\<close>

definition row_of :: "(byte list \<Rightarrow> 'a) \<Rightarrow> sparse_vectors \<Rightarrow> idx_t \<Rightarrow> (term_t \<times> 'a) list" where
  "row_of dec v d = map (\<lambda>j. (buf_elems (sv_indices v) ! j, dec (code_at (sv_element_size v) (buf_elems (sv_values v)) j)))
     [nat (buf_elems (sv_indptr v) ! nat d)..<nat (buf_elems (sv_indptr v) ! (nat d + 1))]"

definition valid_doc :: "sparse_vectors \<Rightarrow> idx_t \<Rightarrow> bool" where
  "valid_doc v d \<longleftrightarrow> 0 \<le> d \<and> nat d < num_vectors v"

lemma row_entries_ok:
  assumes "sv_content_wf v" and "valid_doc v d"
  shows "row_entries dec v d = Inr (row_of dec v d)"
proof -
  let ?ip = "buf_elems (sv_indptr v)" and ?ix = "buf_elems (sv_indices v)" and ?es = "sv_element_size v"
  have d: "0 \<le> d" "nat d < num_vectors v" using assms(2) by (auto simp: valid_doc_def)
  then have n: "0 < num_vectors v" by simp
  note w = sv_rows_wf [OF assms(1) n]
  have i: "nat d + 1 < length ?ip" using w(2) d(2) by simp
  note b = csr_row_bounds [OF w(1) i]
  have vs: "length (buf_elems (sv_values v)) = length ?ix * ?es" using w(1) by (simp add: csr_wf_def)
  have fit: "j * ?es + ?es \<le> length ?ix * ?es" if "j < length ?ix" for j
    using mult_le_mono1 [of "Suc j" "length ?ix" ?es] that by simp
  have "mapE (\<lambda>j. bindE (read_at ?ix j) (\<lambda>t.
        bindE (take_elems ?es (drop (j * ?es) (buf_elems (sv_values v)))) (\<lambda>v. Inr (t, dec v))))
      [nat (?ip ! nat d)..<nat (?ip ! (nat d + 1))] = Inr (row_of dec v d)"
    unfolding row_of_def
  proof (rule mapE_Inr_all)
    fix j assume "j \<in> set [nat (?ip ! nat d)..<nat (?ip ! (nat d + 1))]"
    then have j: "j < length ?ix" using b(3) by simp
    then show "bindE (read_at ?ix j) (\<lambda>t.
        bindE (take_elems ?es (drop (j * ?es) (buf_elems (sv_values v)))) (\<lambda>v. Inr (t, dec v))) =
      Inr (?ix ! j, dec (code_at ?es (buf_elems (sv_values v)) j))"
      using fit [OF j] vs by (simp add: read_at_def take_elems_def code_at_def)
  qed
  then show ?thesis using d i by (simp add: row_entries_def read_at_def)
qed

definition similarity :: "(term_t \<times> 'a) list \<Rightarrow> (term_t \<times> 'a) list \<Rightarrow> 'a :: {zero, plus, times}" where
  "similarity row centroid = foldl (\<lambda>s (t, v). foldl (\<lambda>s w. s + v * w) s (map snd (filter (\<lambda>p. fst p = t) centroid))) 0 row"

lemma foldl_max_start: "a \<le> foldl max a (xs :: nat list)"
  by (induction xs arbitrary: a) (auto intro: order_trans [OF max.cobounded1])

lemma foldl_max_ge: "x \<in> set xs \<Longrightarrow> x \<le> foldl max a (xs :: nat list)"
proof (induction xs arbitrary: a)
  case (Cons y xs)
  then show ?case using foldl_max_start [of "max a y" xs] by auto
qed simp

lemma centroid_column:
  "map snd (filter (\<lambda>p. fst p = c) (column t (centroid_entries rows))) =
     (if c < length rows then map snd (filter (\<lambda>p. fst p = t) (rows ! c)) else [])"
proof -
  have "map snd (filter (\<lambda>p. fst p = c) (column t (concat (map (\<lambda>(c, row). map (\<lambda>(t, w). (t, c, w)) row) (enumerate m rows))))) =
     (if m \<le> c \<and> c < m + length rows then map snd (filter (\<lambda>p. fst p = t) (rows ! (c - m))) else [])" for m
  proof (induction rows arbitrary: m)
    case (Cons r rows)
    have "filter (\<lambda>p. fst p = c) (column t (map (\<lambda>(t, w). (t, m, w)) r)) =
        (if c = m then map (\<lambda>(t, w). (m, w)) (filter (\<lambda>p. fst p = t) r) else [])"
      by (induction r) (auto simp: column_def)
    then show ?case
      using Cons [of "Suc m"] by (auto simp: column_append o_def case_prod_unfold nth_Cons' Suc_diff_Suc)
  qed (auto simp: column_def)
  from this [of 0] show ?thesis by (simp add: centroid_entries_def)
qed

lemma accumulate_add_at:
  fixes s :: "'a :: {plus, times} list"
  assumes "c < length s"
  shows "foldl (\<lambda>s (k, w). s[k := s ! k + v * w]) s E ! c =
    foldl (\<lambda>x w. x + v * w) (s ! c) (map snd (filter (\<lambda>p. fst p = c) E))"
  using assms by (induction E arbitrary: s) auto

lemma accumulate_term_index:
  fixes rows :: "(term_t \<times> 'a :: {zero, plus, times}) list list"
  assumes "length s = length rows"
  shows "accumulate_term (index_rows rows) s (t, v) =
    map (\<lambda>c. foldl (\<lambda>x w. x + v * w) (s ! c) (map snd (filter (\<lambda>p. fst p = t) (rows ! c)))) [0..<length rows]"
proof -
  let ?e = "centroid_entries rows"
  define n where "n = (if length ?e = 0 then 0 else foldl max 0 (map fst ?e) + 1)"
  define ptr where "ptr = column_offsets n (map fst ?e)"
  define csc where "csc = snd (scatter (take n ptr) (replicate (length ?e) (0, 0)) ?e)"
  have ix: "index_rows rows = \<lparr>ci_term_ptr = ptr, ci_cluster = map fst csc, ci_weight = map snd csc, ci_n_cols = n\<rparr>"
    by (simp add: index_rows_def Let_def n_def ptr_def csc_def)
  have cols: "\<forall>p \<in> set ?e. fst p < n"
    unfolding n_def using foldl_max_ge [of _ "map fst ?e" 0] by (fastforce simp: less_Suc_eq_le)
  have len: "length (foldl (\<lambda>s (k, w). s[k := s ! k + v * w]) s E) = length s" for E :: "(nat \<times> 'a) list"
    by (induction E arbitrary: s) auto
  have whole: "accumulate_term (index_rows rows) s (t, v) = foldl (\<lambda>s (k, w). s[k := s ! k + v * w]) s (column t ?e)"
  proof (cases "t < n")
    case False
    then have "column t ?e = []" using cols by (force simp: column_def filter_empty_conv)
    then show ?thesis using False by (simp add: accumulate_term_def ix)
  next
    case True
    note col = scatter_column [OF cols _ ptr_def True, of "replicate (length ?e) (0, 0)", folded csc_def, simplified]
    have "foldl (\<lambda>s (k, w). s[k := s ! k + v * w]) s (map ((!) csc) [ptr ! t..<ptr ! (t + 1)]) =
        foldl (\<lambda>s p. s[map fst csc ! p := s ! (map fst csc ! p) + v * map snd csc ! p]) s [ptr ! t..<ptr ! (t + 1)]"
    proof -
      have "foldl (\<lambda>s (k, w). s[k := s ! k + v * w]) s (map ((!) csc) js) =
          foldl (\<lambda>s p. s[map fst csc ! p := s ! (map fst csc ! p) + v * map snd csc ! p]) s js"
        if "\<forall>j \<in> set js. j < length csc" for js
        using that by (induction js arbitrary: s) (auto simp: case_prod_unfold)
      moreover have "\<forall>j \<in> set [ptr ! t..<ptr ! (t + 1)]. j < length csc" using col by auto
      ultimately show ?thesis by blast
    qed
    then show ?thesis using True col(1) by (simp add: accumulate_term_def ix)
  qed
  show ?thesis
    by (rule nth_equalityI) (simp_all add: whole len assms accumulate_add_at centroid_column)
qed

lemma accumulate_row:
  fixes rows :: "(term_t \<times> 'a :: {zero, plus, times}) list list"
  shows "foldl (accumulate_term (index_rows rows)) (replicate (length rows) 0) row =
    map (\<lambda>c. similarity row (rows ! c)) [0..<length rows]"
proof (induction row rule: rev_induct)
  case Nil
  then show ?case by (simp add: similarity_def map_replicate_const)
next
  case (snoc p row)
  obtain t v where p: "p = (t, v)" by (cases p)
  have "accumulate_term (index_rows rows) (map (\<lambda>c. similarity row (rows ! c)) [0..<length rows]) (t, v) =
      map (\<lambda>c. similarity (row @ [(t, v)]) (rows ! c)) [0..<length rows]"
    by (subst accumulate_term_index) (simp_all add: similarity_def)
  then show ?case using snoc by (simp add: p)
qed

section \<open>Nearest centroids\<close>

text \<open>The first index of the largest entry.\<close>

definition nearest :: "'a :: linorder list \<Rightarrow> nat \<Rightarrow> bool" where
  "nearest sims b \<longleftrightarrow> b < length sims \<and> (\<forall>c < length sims. sims ! c \<le> sims ! b) \<and> (\<forall>c < b. sims ! c < sims ! b)"

lemma nearest_unique: "nearest sims a \<Longrightarrow> nearest sims b \<Longrightarrow> a = b"
  unfolding nearest_def by (metis linorder_neqE_nat leD order.strict_trans2)

lemma best_cluster_nearest:
  assumes "sims \<noteq> []"
  shows "nearest sims (best_cluster sims)"
proof -
  have "\<exists>b. foldl (\<lambda>(b, best) c. if best < sims ! c then (c, sims ! c) else (b, best)) (0, sims ! 0) [1..<m] = (b, sims ! b) \<and>
      b < m \<and> (\<forall>c < m. sims ! c \<le> sims ! b) \<and> (\<forall>c < b. sims ! c < sims ! b)" if "0 < m" for m
    using that
  proof (induction m)
    case (Suc m)
    show ?case
    proof (cases "m = 0")
      case False
      then obtain b where b: "foldl (\<lambda>(b, best) c. if best < sims ! c then (c, sims ! c) else (b, best)) (0, sims ! 0) [1..<m] = (b, sims ! b)"
        "b < m" "\<forall>c < m. sims ! c \<le> sims ! b" "\<forall>c < b. sims ! c < sims ! b" using Suc.IH by blast
      show ?thesis
      proof (cases "sims ! b < sims ! m")
        case True
        then show ?thesis using b False by (intro exI [of _ m]) (auto simp: less_Suc_eq intro: order.strict_trans1 less_imp_le)
      next
        case no: False
        then show ?thesis using b False by (intro exI [of _ b]) (auto simp: less_Suc_eq not_less)
      qed
    qed auto
  qed simp
  from this [of "length sims"] show ?thesis using assms by (auto simp: best_cluster_def nearest_def)
qed

lemma binary_search_sorted:
  fixes xs :: "idx_t list"
  shows "binary_search (sort_by (<) xs) x \<longleftrightarrow> x \<in> set xs"
proof -
  have s: "sorted (sort_by (<) xs)" using sorted_sort_by [of "(<)" id xs] by simp
  note lb = lower_bound_le [OF s, of x]
  show ?thesis
  proof
    assume "x \<in> set xs"
    then obtain i where i: "i < length (sort_by (<) xs)" "sort_by (<) xs ! i = x" by (metis in_set_conv_nth set_sort_by)
    let ?l = "lower_bound (sort_by (<) xs) x"
    have le: "?l \<le> i" using lower_bound_less [OF s, of i x] i(2) by (meson not_le_imp_less order_less_irrefl)
    then have lt: "?l < length (sort_by (<) xs)" using i(1) by simp
    have "sort_by (<) xs ! ?l \<le> x" using sorted_nth_mono [OF s le i(1)] i(2) by simp
    moreover have "x \<le> sort_by (<) xs ! ?l" using lower_bound_ge [OF s le_refl lt] .
    ultimately show "binary_search (sort_by (<) xs) x" using lt by (simp add: binary_search_def Let_def)
  next
    assume "binary_search (sort_by (<) xs) x"
    then show "x \<in> set xs" unfolding binary_search_def Let_def by (metis nth_mem set_sort_by)
  qed
qed

text \<open>The similarities of a document with the centroids, at the accumulator's type.\<close>

definition similarities :: "(byte list \<Rightarrow> 'a) \<Rightarrow> sparse_vectors \<Rightarrow> idx_t list \<Rightarrow> idx_t \<Rightarrow> 'a :: {zero, plus, times} list" where
  "similarities dec v centroids d = map (\<lambda>c. similarity (row_of dec v d) (row_of dec v c)) centroids"

definition nearest_centroid ::
  "(byte list \<Rightarrow> 'w :: {zero, plus, times, linorder}) \<Rightarrow> sparse_vectors \<Rightarrow> idx_t list \<Rightarrow> idx_t \<Rightarrow> nat \<Rightarrow> bool" where
  "nearest_centroid dec v centroids d c =
     (if sv_element_size v = U32 then nearest (similarities dec v centroids d) c
      else nearest (similarities (\<lambda>bs. int (le_nat bs)) v centroids d) c)"

lemma map_docs_typed:
  fixes dec :: "byte list \<Rightarrow> 'a :: {zero, plus, times, linorder}"
  assumes wf: "sv_content_wf v" and docs: "\<forall>d \<in> set docs. valid_doc v d"
    and cs: "\<forall>d \<in> set cs. valid_doc v d" "cs \<noteq> []"
  shows "map_docs_to_clusters_typed dec v docs (map (\<lambda>c. [c]) cs) =
    Inr (map (\<lambda>c. cs ! c # filter (\<lambda>d. d \<notin> set cs \<and> nearest (similarities dec v cs d) c) docs) [0..<length cs])"
proof -
  let ?rows = "map (row_of dec v) cs" and ?n = "length cs"
  have centroids: "mapE centroid_of (map (\<lambda>c. [c]) cs) = Inr cs"
    by (induction cs) (auto simp: centroid_of_def)
  have rows: "mapE (row_entries dec v) cs = Inr ?rows"
    by (rule mapE_Inr_all) (use cs(1) row_entries_ok [OF wf] in auto)
  have sims: "foldl (accumulate_term (index_rows ?rows)) (replicate ?n 0) row = map (\<lambda>c. similarity row (row_of dec v c)) cs" for row
  proof -
    have "foldl (accumulate_term (index_rows ?rows)) (replicate ?n 0) row = map (\<lambda>c. similarity row (?rows ! c)) [0..<?n]"
      using accumulate_row [of ?rows row] by simp
    also have "\<dots> = map (\<lambda>c. similarity row (row_of dec v c)) cs" by (rule nth_equalityI) simp_all
    finally show ?thesis .
  qed
  let ?S = "\<lambda>ds c. cs ! c # filter (\<lambda>d. d \<notin> set cs \<and> nearest (similarities dec v cs d) c) ds"
  have "foldE (assign_doc dec v (index_rows ?rows) (sort_by (<) cs)) (map (\<lambda>c. [c]) cs) ds = Inr (map (?S ds) [0..<?n])"
    if "\<forall>d \<in> set ds. valid_doc v d" for ds
    using that
  proof (induction ds rule: rev_induct)
    case Nil
    have "map (?S []) [0..<?n] = map (\<lambda>c. [c]) cs" by (rule nth_equalityI) simp_all
    then show ?case by simp
  next
    case (snoc d ds)
    have step: "assign_doc dec v (index_rows ?rows) (sort_by (<) cs) (map (?S ds) [0..<?n]) d = Inr (map (?S (ds @ [d])) [0..<?n])"
    proof (cases "d \<in> set cs")
      case True
      then show ?thesis by (simp add: assign_doc_def binary_search_sorted)
    next
      case False
      define b where "b = best_cluster (similarities dec v cs d)"
      have b: "nearest (similarities dec v cs d) b"
        unfolding b_def by (rule best_cluster_nearest) (use cs(2) in \<open>simp add: similarities_def\<close>)
      then have lt: "b < ?n" by (simp add: nearest_def similarities_def)
      have only: "nearest (similarities dec v cs d) c \<longleftrightarrow> c = b" for c using b nearest_unique by blast
      have "(map (?S ds) [0..<?n])[b := ?S ds b @ [d]] = map (?S (ds @ [d])) [0..<?n]"
        by (rule nth_equalityI) (use False lt in \<open>auto simp: only nth_list_update\<close>)
      then show ?thesis
        using False row_entries_ok [OF wf, of d dec] snoc.prems lt
        by (simp add: assign_doc_def binary_search_sorted Let_def sims b_def [unfolded similarities_def, symmetric])
    qed
    show ?case using snoc step by (simp add: foldE_append bindE_return)
  qed
  from this [OF docs] show ?thesis
    by (simp add: map_docs_to_clusters_typed_def build_centroid_index_def centroids rows)
qed

lemma boundary_check_range:
  "0 < m \<Longrightarrow> 1 \<le> boundary_check_n_clusters m n \<and> boundary_check_n_clusters m n \<le> m"
  by (auto simp: boundary_check_n_clusters_def Let_def)

text \<open>Splitting documents by a function of the document keeps them all.\<close>

lemma mset_split_by:
  assumes "\<forall>d \<in> set xs. \<exists>!c. c < n \<and> P d c"
  shows "mset (concat (map (\<lambda>c. filter (\<lambda>d. P d c) xs) [0..<n])) = mset xs"
  using assms
proof (induction xs)
  case Nil
  then show ?case by (induction n) auto
next
  case (Cons d xs)
  then obtain b where b: "b < n" "P d b" "\<forall>c < n. P d c \<longrightarrow> c = b" by auto
  have "mset (concat (map (\<lambda>c. filter (\<lambda>d. P d c) (d # xs)) [0..<m])) =
     (if b < m then {#d#} else {#}) + mset (concat (map (\<lambda>c. filter (\<lambda>d. P d c) xs) [0..<m]))" if "m \<le> n" for m
    using that
  proof (induction m)
    case (Suc m)
    have "P d m \<longleftrightarrow> m = b" by (metis Suc.prems Suc_le_lessD b(2,3))
    then show ?case using Suc by auto
  qed simp
  from this [OF le_refl] show ?case using Cons b(1) by simp
qed

lemma mset_interleave:
  "mset (concat (map (\<lambda>c. f c # g c) ks)) = mset (map f ks) + mset (concat (map g ks))"
  by (induction ks) auto

lemma nearest_similarities_unique:
  assumes "cs \<noteq> []"
  shows "\<exists>!c. c < length cs \<and> nearest (similarities dec v cs d) c"
proof
  have b: "nearest (similarities dec v cs d) (best_cluster (similarities dec v cs d))"
    by (rule best_cluster_nearest) (use assms in \<open>simp add: similarities_def\<close>)
  then show "best_cluster (similarities dec v cs d) < length cs \<and>
      nearest (similarities dec v cs d) (best_cluster (similarities dec v cs d))"
    by (simp add: nearest_def [of "similarities dec v cs d"]) (simp add: similarities_def)
  show "c = best_cluster (similarities dec v cs d)"
    if "c < length cs \<and> nearest (similarities dec v cs d) c" for c
    using that b nearest_unique by blast
qed

lemma nearest_centroid_unique:
  assumes "cs \<noteq> []"
  shows "\<exists>!c. c < length cs \<and> nearest_centroid dec v cs d c"
  using nearest_similarities_unique [OF assms, of dec v d]
    nearest_similarities_unique [OF assms, of "\<lambda>bs. int (le_nat bs)" v d]
  by (cases "sv_element_size v = U32") (simp_all add: nearest_centroid_def)

text \<open>
  C9: the clustering of a posting list. For distinct documents of the matrix, \<open>train\<close> returns the
  wished number of clusters (bounded by the number of documents and at least one). Each starts with
  its own centroid, drawn from the documents, followed, in their order, by exactly the documents
  that are no centroid and have this centroid as nearest, the lowest of equals. No document is lost
  or duplicated.
\<close>

theorem kmeans_partitions_by_nearest_centroid:
  fixes dec :: "byte list \<Rightarrow> 'w :: {zero, plus, times, linorder}"
  assumes "draws_in_range draw" and "sv_content_wf v" and "distinct docs" and "docs \<noteq> []"
    and "\<forall>d \<in> set docs. valid_doc v d"
  shows "\<exists>centroids clusters. train dec draw (Some v) docs n_clusters seed = Inr clusters \<and>
    length centroids = boundary_check_n_clusters (length docs) n_clusters \<and> distinct centroids \<and>
    set centroids \<subseteq> set docs \<and>
    clusters = map (\<lambda>c. centroids ! c #
      filter (\<lambda>d. d \<notin> set centroids \<and> nearest_centroid dec v centroids d c) docs) [0..<length centroids] \<and>
    mset (concat clusters) = mset docs"
proof -
  let ?n = "boundary_check_n_clusters (length docs) n_clusters"
  have n: "0 < ?n" "?n \<le> length docs" using boundary_check_range [of "length docs" n_clusters] assms(4) by auto
  obtain cs where cs: "random_select_initial_centroids draw docs ?n seed = map (\<lambda>c. [c]) cs" "length cs = ?n"
    "mset cs \<subseteq># mset docs" using select_centroids [OF assms(1) n, of seed] by blast
  have sub: "set cs \<subseteq> set docs" using set_mset_mono [OF cs(3)] by simp
  have dis: "distinct cs"
  proof -
    obtain ys where "mset docs = mset (cs @ ys)" using cs(3) by (metis ex_mset mset_append subset_mset.add_diff_inverse)
    then show ?thesis using assms(3) by (metis distinct_append mset_eq_imp_distinct_iff)
  qed
  have ne: "cs \<noteq> []" using cs(2) n(1) by auto
  let ?P = "\<lambda>d c. nearest_centroid dec v cs d c"
  let ?cl = "map (\<lambda>c. cs ! c # filter (\<lambda>d. d \<notin> set cs \<and> ?P d c) docs) [0..<length cs]"
  have "map_docs_to_clusters dec (Some v) docs (map (\<lambda>c. [c]) cs) = Inr ?cl"
    using ne assms(4) map_docs_typed [OF assms(2,5), of cs dec]
      map_docs_typed [OF assms(2,5), of cs "\<lambda>bs. int (le_nat bs)"] sub assms(5)
    by (auto simp: map_docs_to_clusters_def nearest_centroid_def subset_iff)
  then have run: "train dec draw (Some v) docs n_clusters seed = Inr ?cl"
    using assms(4) by (simp add: train_def throw_if_null_def cs(1))
  let ?rest = "filter (\<lambda>d. d \<notin> set cs) docs"
  have "mset (concat ?cl) = mset (map ((!) cs) [0..<length cs]) +
      mset (concat (map (\<lambda>c. filter (\<lambda>d. ?P d c) ?rest) [0..<length cs]))"
    by (simp add: mset_interleave conj_commute)
  also have "\<dots> = mset cs + mset ?rest"
  proof -
    have "mset (concat (map (\<lambda>c. filter (\<lambda>d. ?P d c) ?rest) [0..<length cs])) = mset ?rest"
      by (rule mset_split_by) (use nearest_centroid_unique [OF ne] in blast)
    then show ?thesis by (simp add: map_nth)
  qed
  also have "\<dots> = mset docs"
  proof -
    have "mset (filter (\<lambda>d. d \<in> set cs) docs) = mset cs"
      by (rule set_eq_iff_mset_eq_distinct [THEN iffD1]) (use assms(3) dis sub in auto)
    moreover have "mset (filter (\<lambda>d. d \<in> set cs) docs) + mset ?rest = mset docs"
      by (simp add: multiset_partition [symmetric])
    ultimately show ?thesis by simp
  qed
  finally show ?thesis using run cs(2) dis sub by blast
qed

theorem kmeans_partitions_by_nearest_centroid_witness:
  "\<exists>(centroids :: idx_t list) clusters. train (\<lambda>_. 0 :: int) (\<lambda>_ _ b. b) (Some \<lparr>sv_indptr = buf_own [0, 1, 2], sv_indices = buf_own [5, 5],
      sv_values = buf_own [2, 3], sv_element_size = 1, sv_dimension = 10\<rparr>) [1, 0] 7 9 = Inr clusters \<and>
    length centroids = 2 \<and> set centroids \<subseteq> {0, 1} \<and> mset (concat clusters) = {#0, 1#}"
proof -
  let ?v = "\<lparr>sv_indptr = buf_own [0, 1, 2], sv_indices = buf_own [5, 5], sv_values = buf_own [2, 3],
    sv_element_size = 1, sv_dimension = 10\<rparr>"
  have h: "sv_content_wf ?v" "draws_in_range (\<lambda>_ _ b. b)" "\<forall>d \<in> set [1, 0]. valid_doc ?v d"
    "distinct [1, 0 :: idx_t]" "[1, 0 :: idx_t] \<noteq> []"
    by (auto simp: sv_content_wf_def csr_wf_def draws_in_range_def valid_doc_def num_vectors_def buf_empty_def buf_size_def)
  have n: "boundary_check_n_clusters (length [1, 0 :: idx_t]) 7 = 2" by (simp add: boundary_check_n_clusters_def)
  obtain centroids clusters where r: "train (\<lambda>_. 0 :: int) (\<lambda>_ _ b. b) (Some ?v) [1, 0] 7 9 = Inr clusters"
    "length centroids = 2" "set centroids \<subseteq> set [1, 0 :: idx_t]" "mset (concat clusters) = mset [1, 0]"
    using kmeans_partitions_by_nearest_centroid [OF h(2,1,4,5,3), of "\<lambda>_. 0 :: int" 7 9] unfolding n
    by (elim exE conjE) (rule that)
  have "set centroids \<subseteq> {0, 1}" "mset (concat clusters) = {#0, 1#}" using r(3,4) by auto
  then show ?thesis using r(1,2) by blast
qed

end
