(* ===== verification/Clusters_IO.thy ===== *)
theory Clusters_IO
  imports Clusters
begin

text \<open>
  The wire format of a clustered posting list (\<^verbatim>\<open>InvertedListClusters\<close>) and of all the lists of an
  index (\<^verbatim>\<open>io/seismic_invlists_writer.h\<close>): what \<open>serialize\<close> writes, both readers read back.
\<close>

section \<open>One list\<close>

definition cl_wire :: "clusters \<Rightarrow> bool" where
  "cl_wire cl \<longleftrightarrow> cl_element_size cl \<in> {1, 2, 4, 8} \<and> cl_n_clusters cl \<le> SIZE_MAX \<and>
     (\<forall>d \<in> set (buf_elems (cl_docs cl)). is_i32 d) \<and> length (buf_elems (cl_docs cl)) \<le> vector_max_size 4 \<and>
     (\<forall>d \<in> set (buf_elems (cl_offsets cl)). is_i32 d) \<and> length (buf_elems (cl_offsets cl)) \<le> vector_max_size 4 \<and>
     (\<forall>t \<in> set (buf_elems (cl_term_ids cl)). t < 65536) \<and>
     length (buf_elems (cl_term_ids cl)) < vector_max_size 4 \<and>
     (buf_elems (cl_term_ids cl) \<noteq> [] \<longrightarrow> length (buf_elems (cl_term_ptr cl)) = length (buf_elems (cl_term_ids cl)) + 1) \<and>
     (\<forall>d \<in> set (buf_elems (cl_term_ptr cl)). is_i32 d) \<and>
     (\<forall>t \<in> set (buf_elems (cl_csc_cluster cl)). t < 65536) \<and>
     length (buf_elems (cl_csc_cluster cl)) \<le> vector_max_size 2 \<and>
     length (buf_elems (cl_csc_value cl)) = length (buf_elems (cl_csc_cluster cl)) * cl_element_size cl \<and>
     length (buf_elems (cl_csc_value cl)) \<le> vector_max_size 1"

text \<open>Equal contents; without terms the offsets are not stored, and nothing reads them.\<close>

definition same_clusters :: "clusters \<Rightarrow> clusters \<Rightarrow> bool" where
  "same_clusters cl cl' \<longleftrightarrow> cl_n_clusters cl' = cl_n_clusters cl \<and> cl_element_size cl' = cl_element_size cl \<and>
     buf_elems (cl_docs cl') = buf_elems (cl_docs cl) \<and> buf_elems (cl_offsets cl') = buf_elems (cl_offsets cl) \<and>
     buf_elems (cl_term_ids cl') = buf_elems (cl_term_ids cl) \<and>
     (buf_elems (cl_term_ids cl) \<noteq> [] \<longrightarrow> buf_elems (cl_term_ptr cl') = buf_elems (cl_term_ptr cl)) \<and>
     buf_elems (cl_csc_cluster cl') = buf_elems (cl_csc_cluster cl) \<and>
     buf_elems (cl_csc_value cl') = buf_elems (cl_csc_value cl)"

lemma same_clusters_refl [simp]: "same_clusters cl cl"
  by (simp add: same_clusters_def)

text \<open>Equal contents answer every query equally.\<close>

lemma buf_get_elems: "buf_elems b' = buf_elems b \<Longrightarrow> buf_get b' i = buf_get b i"
  by (simp add: buf_get_def)

lemma same_clusters_docs: "same_clusters cl cl' \<Longrightarrow> get_docs cl' i = get_docs cl i"
  by (simp add: same_clusters_def get_docs_def buf_size_def)

lemma same_clusters_scores:
  assumes "same_clusters cl cl'"
  shows "score_summaries_transposed dec conv cl' q_idx q_val = score_summaries_transposed dec conv cl q_idx q_val"
proof (cases "buf_elems (cl_term_ids cl) = []")
  case True
  then show ?thesis
    using assms by (simp add: same_clusters_def score_summaries_transposed_def buf_empty_def buf_size_def)
next
  case False
  then have e: "buf_elems (cl_term_ptr cl') = buf_elems (cl_term_ptr cl)" using assms by (simp add: same_clusters_def)
  have "score_term dec conv cl' = score_term dec conv cl"
    using assms buf_get_elems [OF e] buf_get_elems [of "cl_csc_cluster cl'" "cl_csc_cluster cl"]
    by (intro ext) (simp add: score_term_def same_clusters_def Let_def)
  then have "score_summaries_typed dec conv cl' = score_summaries_typed dec conv cl"
    using assms by (intro ext) (simp add: same_clusters_def score_summaries_typed_def)
  then show ?thesis
    using assms by (simp add: same_clusters_def score_summaries_transposed_def buf_empty_def buf_size_def Let_def cong: if_cong)
qed

section \<open>Round trips\<close>

lemma cl_serialize_store_eq: "cl_serialize_store cl = (\<lambda>w.
     bindE (write_size_t (cl_n_clusters cl) w) (\<lambda>w.
     bindE (write_size_t (cl_element_size cl) w) (\<lambda>w.
     bindE (write_size_t (buf_size (cl_term_ids cl)) w) (\<lambda>w.
     bindE (if buf_size (cl_term_ids cl) > 0
            then bindE (write_padded term_bytes 2 (buf_elems (cl_term_ids cl)) w) (\<lambda>w.
                 bindE (take_elems (buf_size (cl_term_ids cl) + 1) (buf_elems (cl_term_ptr cl))) (\<lambda>ptr.
                 write_padded idx_bytes 4 ptr w))
            else Inr w) (\<lambda>w.
     bindE (write_size_t (buf_size (cl_csc_cluster cl)) w) (\<lambda>w.
     bindE (write_padded term_bytes 2 (buf_elems (cl_csc_cluster cl)) w) (
     write_padded u8_bytes (cl_element_size cl) (buf_elems (cl_csc_value cl)))))))))"
  by (intro ext) (simp add: cl_serialize_store_def)

lemma cl_serialize_eq: "cl_serialize cl = (\<lambda>w.
     bindE (write_size_t (buf_size (cl_docs cl)) w) (\<lambda>w.
     bindE (write_padded idx_bytes 4 (buf_elems (cl_docs cl)) w) (\<lambda>w.
     bindE (write_size_t (buf_size (cl_offsets cl)) w) (\<lambda>w.
     bindE (write_padded idx_bytes 4 (buf_elems (cl_offsets cl)) w)
     (cl_serialize_store cl)))))"
  by (intro ext) (simp add: cl_serialize_def)

lemma cl_wireD:
  assumes "cl_wire cl"
  shows "0 < cl_element_size cl" "cl_element_size cl \<le> kMaxAlignment" "cl_element_size cl dvd 8"
    "cl_element_size cl < 256 ^ 8" "cl_n_clusters cl < 256 ^ 8" "buf_size (cl_docs cl) < 256 ^ 8"
    "buf_size (cl_offsets cl) < 256 ^ 8" "buf_size (cl_term_ids cl) < 256 ^ 8" "buf_size (cl_csc_cluster cl) < 256 ^ 8"
    "checked_mul (buf_size (cl_csc_cluster cl)) (cl_element_size cl) = Inr (length (buf_elems (cl_csc_value cl)))"
    "u64 (buf_size (cl_term_ids cl) + 1) = buf_size (cl_term_ids cl) + 1"
    "length (buf_elems (cl_docs cl)) = buf_size (cl_docs cl)"
    "length (buf_elems (cl_offsets cl)) = buf_size (cl_offsets cl)"
    "length (buf_elems (cl_term_ids cl)) = buf_size (cl_term_ids cl)"
    "length (buf_elems (cl_csc_cluster cl)) = buf_size (cl_csc_cluster cl)"
proof -
  show "0 < cl_element_size cl" "cl_element_size cl \<le> kMaxAlignment" "cl_element_size cl dvd 8"
    "cl_element_size cl < 256 ^ 8" "cl_n_clusters cl < 256 ^ 8"
    using assms by (auto simp: cl_wire_def kMaxAlignment_def SIZE_MAX_def)
  show "length (buf_elems (cl_docs cl)) = buf_size (cl_docs cl)"
    "length (buf_elems (cl_offsets cl)) = buf_size (cl_offsets cl)"
    "length (buf_elems (cl_term_ids cl)) = buf_size (cl_term_ids cl)"
    "length (buf_elems (cl_csc_cluster cl)) = buf_size (cl_csc_cluster cl)" by (simp_all add: buf_size_def)
  show "buf_size (cl_docs cl) < 256 ^ 8" "buf_size (cl_offsets cl) < 256 ^ 8" "buf_size (cl_term_ids cl) < 256 ^ 8"
    "buf_size (cl_csc_cluster cl) < 256 ^ 8" "u64 (buf_size (cl_term_ids cl) + 1) = buf_size (cl_term_ids cl) + 1"
    using assms by (auto simp: cl_wire_def vector_max_size_def buf_size_def)
  show "checked_mul (buf_size (cl_csc_cluster cl)) (cl_element_size cl) = Inr (length (buf_elems (cl_csc_value cl)))"
    using assms by (auto simp: cl_wire_def checked_mul_exact SIZE_MAX_def buf_size_def vector_max_size_def)
qed

text \<open>The optional pair of term arrays, read by any pair of array readers.\<close>

lemma terms_round_trip:
  assumes "round_trips mk (write_padded term_bytes 2 ids) d1 (\<lambda>b. buf_elems b = ids \<and> A b)"
    and "ids \<noteq> [] \<Longrightarrow> length ptr = length ids + 1"
    and "ids \<noteq> [] \<Longrightarrow> round_trips mk (write_padded idx_bytes 4 ptr) d2 (\<lambda>b. buf_elems b = ptr \<and> B b)"
    and n: "n = length ids"
  shows "round_trips mk
    (\<lambda>w. if n > 0 then bindE (write_padded term_bytes 2 ids w) (\<lambda>w.
            bindE (take_elems (n + 1) ptr) (\<lambda>ptr. write_padded idx_bytes 4 ptr w)) else Inr w)
    (\<lambda>r. if n > 0 then bindE (d1 r) (\<lambda>(term_ids, r). bindE (d2 r) (\<lambda>(term_ptr, r). Inr ((term_ids, term_ptr), r)))
         else Inr ((buf_default, buf_default), r))
    (\<lambda>(a, b). buf_elems a = ids \<and> (ids \<noteq> [] \<longrightarrow> buf_elems b = ptr))"
proof (cases "ids = []")
  case True
  then show ?thesis by (simp add: n) (rule round_trips_return, simp)
next
  case False
  have t: "take_elems (n + 1) ptr = Inr ptr" using assms(2) False by (simp add: take_elems_def n)
  have inner: "round_trips mk (write_padded idx_bytes 4 ptr)
      (\<lambda>r. bindE (d2 r) (\<lambda>(term_ptr, r). Inr ((a, term_ptr), r)))
      (\<lambda>(a, b). buf_elems a = ids \<and> (ids \<noteq> [] \<longrightarrow> buf_elems b = ptr))" if "buf_elems a = ids \<and> A a" for a
    by (rule round_trips_map [OF assms(3) [OF False]]) (use that in auto)
  have pos: "n > 0" using False by (simp add: n)
  show ?thesis unfolding t bindE.simps if_P [OF pos]
    by (rule round_trips_bind [OF assms(1) inner])
qed

lemma cl_round_trip:
  assumes "cl_wire cl"
  shows "round_trips mk_reader (cl_serialize cl) cl_deserialize (same_clusters cl)"
proof -
  let ?es = "cl_element_size cl"
  note d = cl_wireD [OF assms]
  have w: "\<forall>d \<in> set (buf_elems (cl_docs cl)). is_i32 d" "buf_size (cl_docs cl) \<le> vector_max_size 4"
    "\<forall>d \<in> set (buf_elems (cl_offsets cl)). is_i32 d" "buf_size (cl_offsets cl) \<le> vector_max_size 4"
    "\<forall>t \<in> set (buf_elems (cl_term_ids cl)). t < 65536" "buf_size (cl_term_ids cl) < vector_max_size 4"
    "\<forall>d \<in> set (buf_elems (cl_term_ptr cl)). is_i32 d"
    "\<forall>t \<in> set (buf_elems (cl_csc_cluster cl)). t < 65536" "buf_size (cl_csc_cluster cl) \<le> vector_max_size 2"
    "length (buf_elems (cl_csc_value cl)) \<le> vector_max_size 1"
    using assms by (auto simp: cl_wire_def buf_size_def)
  have ptr: "buf_elems (cl_term_ids cl) \<noteq> [] \<Longrightarrow> length (buf_elems (cl_term_ptr cl)) = length (buf_elems (cl_term_ids cl)) + 1"
    using assms by (simp add: cl_wire_def)
  note docs = idx_codec.round_trips_read [OF _ _ w(1), of 4, unfolded d(12)]
  note offs = idx_codec.round_trips_read [OF _ _ w(3), of 4, unfolded d(13)]
  note csc = term_codec.round_trips_read [OF _ _ w(8), of 2, unfolded d(15)]
  have terms: "round_trips mk_reader
    (\<lambda>w. if buf_size (cl_term_ids cl) > 0 then bindE (write_padded term_bytes 2 (buf_elems (cl_term_ids cl)) w) (\<lambda>w.
            bindE (take_elems (buf_size (cl_term_ids cl) + 1) (buf_elems (cl_term_ptr cl))) (\<lambda>ptr. write_padded idx_bytes 4 ptr w)) else Inr w)
    (\<lambda>r. if buf_size (cl_term_ids cl) > 0 then bindE (read_padded le_nat 2 2 (buf_size (cl_term_ids cl)) r) (\<lambda>(term_ids, r).
         bindE (read_padded int_of_bytes 4 4 (u64 (buf_size (cl_term_ids cl) + 1)) r) (\<lambda>(term_ptr, r). Inr ((term_ids, term_ptr), r)))
         else Inr ((buf_default, buf_default), r))
    (\<lambda>(a, b). buf_elems a = buf_elems (cl_term_ids cl) \<and> (buf_elems (cl_term_ids cl) \<noteq> [] \<longrightarrow> buf_elems b = buf_elems (cl_term_ptr cl)))"
  proof (rule terms_round_trip [where A = growable and B = growable])
    show "round_trips mk_reader (write_padded term_bytes 2 (buf_elems (cl_term_ids cl)))
       (read_padded le_nat 2 2 (buf_size (cl_term_ids cl))) (\<lambda>b. buf_elems b = buf_elems (cl_term_ids cl) \<and> growable b)"
      by (rule term_codec.round_trips_read [OF _ _ w(5), of 2, unfolded d(14)])
        (use w(6) in \<open>simp_all add: kMaxAlignment_def vector_max_size_def\<close>)
    show "round_trips mk_reader (write_padded idx_bytes 4 (buf_elems (cl_term_ptr cl)))
       (read_padded int_of_bytes 4 4 (u64 (buf_size (cl_term_ids cl) + 1))) (\<lambda>b. buf_elems b = buf_elems (cl_term_ptr cl) \<and> growable b)"
      if "buf_elems (cl_term_ids cl) \<noteq> []"
    proof -
      have e: "u64 (buf_size (cl_term_ids cl) + 1) = length (buf_elems (cl_term_ptr cl))"
        using d(11,14) ptr [OF that] by simp
      show ?thesis unfolding e
        by (rule idx_codec.round_trips_read [OF _ _ w(7)])
          (use ptr [OF that] w(6) d(14) in \<open>simp_all add: kMaxAlignment_def\<close>)
    qed
  qed (use ptr d(14) in simp_all)
  have vals: "round_trips mk_reader (write_padded u8_bytes ?es (buf_elems (cl_csc_value cl)))
      (\<lambda>r. bindE (read_padded u8_of_bytes 1 ?es (length (buf_elems (cl_csc_value cl))) r) (\<lambda>(csc_value, r).
        Inr (\<lparr>cl_n_clusters = cl_n_clusters cl, cl_element_size = ?es, cl_docs = b1,
           cl_offsets = b2, cl_term_ids = b3, cl_term_ptr = b4,
           cl_csc_cluster = b5, cl_csc_value = csc_value\<rparr>, r))) (same_clusters cl)"
    if "buf_elems b1 = buf_elems (cl_docs cl)" "buf_elems b2 = buf_elems (cl_offsets cl)"
      "buf_elems b3 = buf_elems (cl_term_ids cl)"
      "buf_elems (cl_term_ids cl) \<noteq> [] \<longrightarrow> buf_elems b4 = buf_elems (cl_term_ptr cl)"
      "buf_elems b5 = buf_elems (cl_csc_cluster cl)" for b1 b2 b3 b4 b5
    by (rule round_trips_map [OF u8_codec.round_trips_read [OF d(1,2) _ w(10)]])
      (use that in \<open>auto simp: same_clusters_def\<close>)
  show ?thesis
    unfolding cl_serialize_eq cl_serialize_store_eq cl_deserialize_def
    apply (rule round_trips_bind [OF round_trips_read_nat [OF d(6)]], simp, simp, hypsubst)
    apply (rule round_trips_bind [OF docs], simp, simp add: kMaxAlignment_def, simp add: w(2))
    apply (rule round_trips_bind [OF round_trips_read_nat [OF d(7)]], simp, simp, hypsubst)
    apply (rule round_trips_bind [OF offs], simp, simp add: kMaxAlignment_def, simp add: w(4))
    apply (rule round_trips_bind [OF round_trips_read_nat [OF d(5)]], simp, simp, hypsubst)
    apply (rule round_trips_bind [OF round_trips_read_nat [OF d(4)]], simp, simp, hypsubst)
    apply (rule round_trips_bind [OF round_trips_read_nat [OF d(8)]], simp, simp, hypsubst)
    apply (rule round_trips_bind [OF terms], clarify)
    apply (rule round_trips_bind [OF round_trips_read_nat [OF d(9)]], simp, simp, hypsubst)
    apply (rule round_trips_bind [OF csc], simp, simp add: kMaxAlignment_def, simp add: w(9))
    unfolding d(10) bindE.simps
    apply (rule vals)
    apply simp_all
    done
qed

lemma cl_map_round_trip:
  assumes "cl_wire cl" and "8 dvd base"
  shows "round_trips (mk_cursor base) (cl_serialize cl) (\<lambda>c. cl_mmap_deserialize (Some c)) (same_clusters cl)"
proof -
  let ?es = "cl_element_size cl"
  note d = cl_wireD [OF assms(1)]
  have bases: "?es dvd base" "4 dvd base" "2 dvd base" using d(3) assms(2) by (auto intro: dvd_trans)
  have w: "\<forall>d \<in> set (buf_elems (cl_docs cl)). is_i32 d"
    "\<forall>d \<in> set (buf_elems (cl_offsets cl)). is_i32 d"
    "\<forall>t \<in> set (buf_elems (cl_term_ids cl)). t < 65536"
    "\<forall>d \<in> set (buf_elems (cl_term_ptr cl)). is_i32 d"
    "\<forall>t \<in> set (buf_elems (cl_csc_cluster cl)). t < 65536"
    using assms(1) by (auto simp: cl_wire_def)
  have ptr: "buf_elems (cl_term_ids cl) \<noteq> [] \<Longrightarrow> length (buf_elems (cl_term_ptr cl)) = length (buf_elems (cl_term_ids cl)) + 1"
    using assms(1) by (simp add: cl_wire_def)
  note docs = idx_codec.round_trips_borrow [OF _ _ w(1) _ bases(2), of 4, unfolded d(12)]
  note offs = idx_codec.round_trips_borrow [OF _ _ w(2) _ bases(2), of 4, unfolded d(13)]
  note csc = term_codec.round_trips_borrow [OF _ _ w(5) _ bases(3), of 2, unfolded d(15)]
  have terms: "round_trips (mk_cursor base)
    (\<lambda>w. if buf_size (cl_term_ids cl) > 0 then bindE (write_padded term_bytes 2 (buf_elems (cl_term_ids cl)) w) (\<lambda>w.
            bindE (take_elems (buf_size (cl_term_ids cl) + 1) (buf_elems (cl_term_ptr cl))) (\<lambda>ptr. write_padded idx_bytes 4 ptr w)) else Inr w)
    (\<lambda>r. if buf_size (cl_term_ids cl) > 0 then bindE (borrow_padded le_nat 2 2 2 (buf_size (cl_term_ids cl)) r) (\<lambda>(term_ids, r).
         bindE (borrow_padded int_of_bytes 4 4 4 (u64 (buf_size (cl_term_ids cl) + 1)) r) (\<lambda>(term_ptr, r). Inr ((term_ids, term_ptr), r)))
         else Inr ((buf_default, buf_default), r))
    (\<lambda>(a, b). buf_elems a = buf_elems (cl_term_ids cl) \<and> (buf_elems (cl_term_ids cl) \<noteq> [] \<longrightarrow> buf_elems b = buf_elems (cl_term_ptr cl)))"
  proof (rule terms_round_trip [where A = "\<lambda>b. buf_elems (cl_term_ids cl) \<noteq> [] \<longrightarrow> \<not> growable b"
        and B = "\<lambda>b. buf_elems (cl_term_ptr cl) \<noteq> [] \<longrightarrow> \<not> growable b"])
    show "round_trips (mk_cursor base) (write_padded term_bytes 2 (buf_elems (cl_term_ids cl)))
       (borrow_padded le_nat 2 2 2 (buf_size (cl_term_ids cl)))
       (\<lambda>b. buf_elems b = buf_elems (cl_term_ids cl) \<and> (buf_elems (cl_term_ids cl) \<noteq> [] \<longrightarrow> \<not> growable b))"
      by (rule term_codec.round_trips_borrow [OF _ _ w(3) _ bases(3), of 2, unfolded d(14)])
        (simp_all add: kMaxAlignment_def)
    show "round_trips (mk_cursor base) (write_padded idx_bytes 4 (buf_elems (cl_term_ptr cl)))
       (borrow_padded int_of_bytes 4 4 4 (u64 (buf_size (cl_term_ids cl) + 1)))
       (\<lambda>b. buf_elems b = buf_elems (cl_term_ptr cl) \<and> (buf_elems (cl_term_ptr cl) \<noteq> [] \<longrightarrow> \<not> growable b))"
      if "buf_elems (cl_term_ids cl) \<noteq> []"
    proof -
      have e: "u64 (buf_size (cl_term_ids cl) + 1) = length (buf_elems (cl_term_ptr cl))"
        using d(11,14) ptr [OF that] by simp
      show ?thesis unfolding e
        by (rule idx_codec.round_trips_borrow [OF _ _ w(4) _ bases(2)]) (simp_all add: kMaxAlignment_def)
    qed
  qed (use ptr d(14) in simp_all)
  have vals: "round_trips (mk_cursor base) (write_padded u8_bytes ?es (buf_elems (cl_csc_value cl)))
      (\<lambda>c. bindE (map_padded u8_of_bytes 1 1 ?es (length (buf_elems (cl_csc_value cl))) c) (\<lambda>((csc_value, addr), c).
        bindE (throw_if (buf_size (cl_csc_cluster cl) > 0 \<and> addr mod ?es \<noteq> 0)
              (Runtime_error ''mmap: cluster summary values are misaligned for the element size'')) (\<lambda>_.
        Inr (\<lparr>cl_n_clusters = cl_n_clusters cl, cl_element_size = ?es, cl_docs = b1,
           cl_offsets = b2, cl_term_ids = b3, cl_term_ptr = b4,
           cl_csc_cluster = b5, cl_csc_value = buf_borrow csc_value\<rparr>, c)))) (same_clusters cl)"
    if "buf_elems b1 = buf_elems (cl_docs cl)" "buf_elems b2 = buf_elems (cl_offsets cl)"
      "buf_elems b3 = buf_elems (cl_term_ids cl)"
      "buf_elems (cl_term_ids cl) \<noteq> [] \<longrightarrow> buf_elems b4 = buf_elems (cl_term_ptr cl)"
      "buf_elems b5 = buf_elems (cl_csc_cluster cl)" for b1 b2 b3 b4 b5
    by (rule round_trips_map_codes [OF d(1,2) bases(1)]) (use that in \<open>simp add: same_clusters_def\<close>)
  show ?thesis
    unfolding cl_serialize_eq cl_serialize_store_eq cl_mmap_deserialize_def throw_if_null_def option.case bindE.simps
    apply (rule round_trips_bind [OF round_trips_map_nat [OF d(6)]], hypsubst)
    apply (rule round_trips_bind [OF docs], simp, simp add: kMaxAlignment_def, simp)
    apply (rule round_trips_bind [OF round_trips_map_nat [OF d(7)]], hypsubst)
    apply (rule round_trips_bind [OF offs], simp, simp add: kMaxAlignment_def, simp)
    apply (rule round_trips_bind [OF round_trips_map_nat [OF d(5)]], hypsubst)
    apply (rule round_trips_bind [OF round_trips_map_nat [OF d(4)]], hypsubst)
    apply (rule round_trips_bind [OF round_trips_map_nat [OF d(8)]], hypsubst)
    apply (rule round_trips_bind [OF terms], clarify)
    apply (rule round_trips_bind [OF round_trips_map_nat [OF d(9)]], hypsubst)
    apply (rule round_trips_bind [OF csc], simp, simp add: kMaxAlignment_def, simp)
    unfolding d(10) bindE.simps
    apply (rule vals)
    apply simp_all
    done
qed

section \<open>All the lists of an index\<close>

definition slw_serialize :: "bool \<Rightarrow> clusters list \<Rightarrow> writer \<Rightarrow> exn + writer" where
  "slw_serialize summaries_only cls w =
     bindE (write_size_t (length cls) w)
       (write_all (\<lambda>cl. if summaries_only then cl_serialize_summaries_only cl else cl_serialize cl) cls)"

definition slw_deserialize :: "reader \<Rightarrow> exn + clusters list \<times> reader" where
  "slw_deserialize r = bindE (read_size_t r) (\<lambda>(n, r). read_n cl_deserialize n r)"

definition slw_mmap_deserialize :: "cursor \<Rightarrow> exn + clusters list \<times> cursor" where
  "slw_mmap_deserialize c = bindE (map_size_t c) (\<lambda>(n, c). read_n (\<lambda>c. cl_mmap_deserialize (Some c)) n c)"

text \<open>Writing only the summaries is writing the list with its membership emptied.\<close>

definition without_docs :: "clusters \<Rightarrow> clusters" where
  "without_docs cl = cl\<lparr>cl_docs := buf_default, cl_offsets := buf_default\<rparr>"

lemma serialize_summaries_only: "cl_serialize_summaries_only cl = cl_serialize (without_docs cl)"
  by (intro ext) (simp add: cl_serialize_summaries_only_def cl_serialize_def without_docs_def buf_size_def
      cl_serialize_store_def cong: if_cong)

lemma cl_wire_without_docs: "cl_wire cl \<Longrightarrow> cl_wire (without_docs cl)"
  by (simp add: cl_wire_def without_docs_def)

lemma slw_serialize_eq: "slw_serialize b cls =
    (\<lambda>w. bindE (write_size_t (length cls) w) (write_all cl_serialize (map (if b then without_docs else id) cls)))"
proof -
  have "write_all (\<lambda>cl. if b then cl_serialize_summaries_only cl else cl_serialize cl) ls =
      write_all cl_serialize (map (if b then without_docs else id) ls)" for ls
  proof
    fix w show "write_all (\<lambda>cl. if b then cl_serialize_summaries_only cl else cl_serialize cl) ls w =
      write_all cl_serialize (map (if b then without_docs else id) ls) w"
      by (induction ls arbitrary: w) (auto simp: serialize_summaries_only intro!: bindE_cong)
  qed
  then show ?thesis by (intro ext) (simp add: slw_serialize_def)
qed

lemma slw_round_trip:
  assumes "\<forall>cl \<in> set cls. cl_wire cl" and "length cls \<le> SIZE_MAX"
  shows "round_trips mk_reader (slw_serialize b cls) slw_deserialize
      (list_all2 same_clusters (map (if b then without_docs else id) cls))"
proof -
  have n: "length cls < 256 ^ 8" using assms(2) by (simp add: SIZE_MAX_def)
  let ?ls = "map (if b then without_docs else id) cls"
  have wire: "cl_wire cl" if "cl \<in> set ?ls" for cl
    using assms(1) that by (auto intro: cl_wire_without_docs split: if_splits)
  have all: "round_trips mk_reader (write_all cl_serialize ?ls) (read_n cl_deserialize (length cls)) (list_all2 same_clusters ?ls)"
    using round_trips_all [of ?ls mk_reader cl_serialize cl_deserialize same_clusters] cl_round_trip [OF wire] by simp
  show ?thesis
    unfolding slw_serialize_eq slw_deserialize_def
    apply (rule round_trips_bind [OF round_trips_read_nat [OF n]], simp, simp, hypsubst)
    apply (rule all)
    done
qed

lemma slw_map_round_trip:
  assumes "\<forall>cl \<in> set cls. cl_wire cl" and "length cls \<le> SIZE_MAX" and "8 dvd base"
  shows "round_trips (mk_cursor base) (slw_serialize b cls) slw_mmap_deserialize
      (list_all2 same_clusters (map (if b then without_docs else id) cls))"
proof -
  have n: "length cls < 256 ^ 8" using assms(2) by (simp add: SIZE_MAX_def)
  let ?ls = "map (if b then without_docs else id) cls"
  have wire: "cl_wire cl" if "cl \<in> set ?ls" for cl
    using assms(1) that by (auto intro: cl_wire_without_docs split: if_splits)
  have all: "round_trips (mk_cursor base) (write_all cl_serialize ?ls)
      (read_n (\<lambda>c. cl_mmap_deserialize (Some c)) (length cls)) (list_all2 same_clusters ?ls)"
    using round_trips_all [of ?ls "mk_cursor base" cl_serialize "\<lambda>c. cl_mmap_deserialize (Some c)" same_clusters]
      cl_map_round_trip [OF wire assms(3)] by simp
  show ?thesis
    unfolding slw_serialize_eq slw_mmap_deserialize_def
    apply (rule round_trips_bind [OF round_trips_map_nat [OF n]], hypsubst)
    apply (rule all)
    done
qed

text \<open>
  The clustered lists survive the file. What \<open>serialize\<close> writes for the lists of an index, the
  copying reader and the mapping reader read back, list by list, leaving the stream just after it;
  the summaries-only form reads back as the same lists without their documents. A list read back
  gives the same documents and the same summary scores.
\<close>

theorem clustered_lists_round_trip:
  assumes "\<forall>cl \<in> set cls. cl_wire cl" and "length cls \<le> SIZE_MAX" and "8 dvd base"
  shows "round_trips mk_reader (slw_serialize False cls) slw_deserialize (list_all2 same_clusters cls) \<and>
    round_trips (mk_cursor base) (slw_serialize False cls) slw_mmap_deserialize (list_all2 same_clusters cls) \<and>
    round_trips mk_reader (slw_serialize True cls) slw_deserialize
      (list_all2 same_clusters (map without_docs cls)) \<and>
    round_trips (mk_cursor base) (slw_serialize True cls) slw_mmap_deserialize
      (list_all2 same_clusters (map without_docs cls)) \<and>
    (\<forall>cl cl' i q_idx q_val. same_clusters cl cl' \<longrightarrow> get_docs cl' i = get_docs cl i \<and>
       score_summaries_transposed dec conv cl' q_idx q_val = score_summaries_transposed dec conv cl q_idx q_val)"
  using slw_round_trip [OF assms(1,2), of False] slw_round_trip [OF assms(1,2), of True]
    slw_map_round_trip [OF assms, of False] slw_map_round_trip [OF assms, of True]
  by (simp add: same_clusters_docs same_clusters_scores)

theorem clustered_lists_round_trip_witness:
  "round_trips (mk_cursor 8) (slw_serialize False [cl_new [[4, 2], [7]]]) slw_mmap_deserialize
     (list_all2 same_clusters [cl_new [[4, 2], [7]]])"
proof -
  have "cl_wire (cl_new [[4, 2], [7]])"
    by (simp add: cl_wire_def cl_new_def cl_default_def U32_def SIZE_MAX_def vector_max_size_def is_i32_def i32_def)
  then have h: "\<forall>cl \<in> set [cl_new [[4, 2], [7]]]. cl_wire cl" "length [cl_new [[4, 2], [7]]] \<le> SIZE_MAX" "(8 :: nat) dvd 8"
    by (simp_all add: SIZE_MAX_def)
  show ?thesis using clustered_lists_round_trip [OF h, of "\<lambda>_. 0 :: int" int] by blast
qed

section \<open>Membership\<close>

lemma cl_new_spans:
  assumes "length (concat docs) < 2147483648"
  shows "foldl (\<lambda>(flat, offs) doc_ids. (flat @ doc_ids, offs @ [i32 (int (length (flat @ doc_ids)))])) ([], [0]) docs =
    (concat docs, map (\<lambda>i. int (length (concat (take i docs)))) [0..<length docs + 1])"
  using assms
proof (induction docs rule: rev_induct)
  case (snoc ds docs)
  have "is_i32 (int (length (concat docs @ ds)))" using snoc.prems by (intro is_i32_int) simp
  then show ?case using snoc by simp
qed simp

text \<open>
  A list of clusters keeps its documents. Built from fewer than \<open>2 ^ 31\<close> documents, cluster \<open>i\<close>
  of the flattened form is the \<open>i\<close>-th group it was built from, and an index past the last cluster,
  or any index of a list read without its membership, gives no documents rather than an error.
\<close>

theorem get_docs_of_new:
  assumes "length (concat docs) < 2147483648"
  shows "(i < length docs \<longrightarrow> get_docs (cl_new docs) i = Inr (docs ! i)) \<and>
    (length docs \<le> i \<longrightarrow> get_docs (cl_new docs) i = Inr []) \<and>
    get_docs (without_docs (cl_new docs)) i = Inr []"
proof -
  let ?offs = "map (\<lambda>i. int (length (concat (take i docs)))) [0..<length docs + 1]"
  have new: "cl_new docs = (if docs = [] then cl_default else cl_default\<lparr>cl_docs := buf_own (concat docs), cl_offsets := buf_own ?offs\<rparr>)"
    unfolding cl_new_def cl_new_spans [OF assms] by simp
  have none: "length docs \<le> i \<longrightarrow> get_docs (cl_new docs) i = Inr []"
    by (auto simp: new get_docs_def buf_size_def cl_default_def)
  have one: "get_docs (cl_new docs) i = Inr (docs ! i)" if i: "i < length docs"
  proof -
    have "concat docs = concat (take i docs) @ docs ! i @ concat (drop (Suc i) docs)"
      by (metis i concat_append id_take_nth_drop concat.simps(2))
    then have d: "drop (length (concat (take i docs))) (concat docs) = docs ! i @ concat (drop (Suc i) docs)"
      by (metis append_eq_conv_conj)
    have le: "length (docs ! i) \<le> length (concat docs) - length (concat (take i docs))"
      using arg_cong [OF d, of length] by simp
    have l: "length (concat (take (Suc i) docs)) = length (concat (take i docs)) + length (docs ! i)"
      using i by (simp add: take_Suc_conv_app_nth)
    show ?thesis
      using i by (auto simp: new get_docs_def doc_span_def buf_size_def nth_append l d le take_elems_def simp del: upt_Suc)
  qed
  show ?thesis using none one by (simp add: get_docs_def without_docs_def buf_size_def)
qed

theorem get_docs_of_new_witness:
  "get_docs (cl_new [[4, 2], [7]]) 0 = Inr [4, 2] \<and> get_docs (without_docs (cl_new [[4, 2], [7]])) 0 = Inr []"
  using get_docs_of_new [of "[[4, 2], [7]]" 0] by simp

end
