(* ===== verification/Seismic_Build.thy ===== *)
theory Seismic_Build
  imports KMeans Clusters_IO
begin

text \<open>
  \<^verbatim>\<open>seismic_common.h\<close> and \<^verbatim>\<open>seismic_common.cpp\<close>: the build the seismic indexes share. The term space
  is cut into windows of near-equal load; for each window the posting lists are filled from the
  corpus, pruned, clustered and summarized, and handed to a sink. The sink is a function on its own
  state. Lists of a window are clustered by several threads, each writing its own slot, so the
  order among them does not matter and the model takes the ascending one. The entropy drawn when no
  seed is fixed is a parameter.
\<close>

section \<open>Parameters\<close>

record batch_option =
  bo_batch_size :: size_t
  bo_path :: string

definition effective_batch_size :: "batch_option \<Rightarrow> size_t" where
  "effective_batch_size o1 = (if bo_path o1 = [] then 1 else max 1 (bo_batch_size o1))"

definition kRandomSeed :: int where
  "kRandomSeed = -1"

record 'w cluster_params =
  cp_lambda :: int
  cp_beta :: int
  cp_alpha :: 'w
  cp_batch :: batch_option
  cp_seed :: int

definition kDefaultLambda :: int where "kDefaultLambda = -1"
definition kDefaultPostingPruneRatio :: f32 where "kDefaultPostingPruneRatio = F32 0x3A03126F"
definition kDefaultPostingMinimumLength :: int where "kDefaultPostingMinimumLength = 160"
definition kDefaultBetaRatio :: f32 where "kDefaultBetaRatio = F32 0x3DCCCCCD"
definition kDefaultBeta :: int where "kDefaultBeta = -1"
definition kDefaultAlpha :: f32 where "kDefaultAlpha = F32 0x3ECCCCCD"

definition kDefaultSeismicClusterParams :: "'w \<Rightarrow> 'w cluster_params" where
  "kDefaultSeismicClusterParams alpha = \<lparr>cp_lambda = kDefaultLambda, cp_beta = kDefaultBeta, cp_alpha = alpha,
     cp_batch = \<lparr>bo_batch_size = 1, bo_path = []\<rparr>, cp_seed = kRandomSeed\<rparr>"

text \<open>\<^verbatim>\<open>static_cast<int>\<close> of a finite float: truncation toward zero.\<close>

definition f32_to_int :: "f32 \<Rightarrow> int" where
  "f32_to_int x =
     (let m = f32_sig x; e = f32_scale x
      in if 0 \<le> e then m * 2 ^ nat e else sgn m * (\<bar>m\<bar> div 2 ^ nat (- e)))"

definition calculate_lambda :: "int \<Rightarrow> size_t \<Rightarrow> int" where
  "calculate_lambda lambda n_vectors =
     (if lambda = kDefaultLambda
      then max (f32_to_int (kDefaultPostingPruneRatio * f32_of_nat n_vectors)) kDefaultPostingMinimumLength
      else lambda)"

definition calculate_beta :: "int \<Rightarrow> int \<Rightarrow> int" where
  "calculate_beta beta lambda =
     (if beta = kDefaultBeta then f32_to_int (f32_of_int lambda * kDefaultBetaRatio) else beta)"

record 'w resolved_params =
  rp_lambda :: int
  rp_beta :: int
  rp_alpha :: 'w
  rp_base_seed :: nat

section \<open>Windows\<close>

record term_window =
  tw_begin :: size_t
  tw_end :: size_t

definition tw_size :: "term_window \<Rightarrow> size_t" where
  "tw_size w = tw_end w - tw_begin w"

definition kClusterCostRatio :: nat where
  "kClusterCostRatio = 16"

definition load_of :: "size_t \<Rightarrow> size_t \<Rightarrow> size_t" where
  "load_of lambda n = n + kClusterCostRatio * min n lambda"

function window_end :: "nat list \<Rightarrow> size_t \<Rightarrow> size_t \<Rightarrow> size_t \<Rightarrow> size_t \<Rightarrow> size_t \<Rightarrow> size_t \<Rightarrow> size_t \<times> size_t" where
  "window_end term_counts lambda max_end target first stop load =
     (if stop < max_end \<and> (stop = first \<or> load < target)
      then window_end term_counts lambda max_end target first (stop + 1) (load + load_of lambda (term_counts ! stop))
      else (stop, load))"
  by pat_completeness auto
termination
  by (relation "measure (\<lambda>(_, _, max_end, _, _, stop, _). max_end - stop)") auto

declare window_end.simps [simp del]

function windows_from :: "nat list \<Rightarrow> size_t \<Rightarrow> size_t \<Rightarrow> nat \<Rightarrow> size_t \<Rightarrow> size_t \<Rightarrow> term_window list" where
  "windows_from term_counts lambda batches n_windows first remaining_load =
     (if first < length term_counts
      then let windows_left = batches - n_windows
           in if windows_left \<le> 1 then [\<lparr>tw_begin = first, tw_end = length term_counts\<rparr>]
              else let target = (remaining_load + windows_left - 1) div windows_left;
                       max_end = length term_counts - (windows_left - 1);
                       (stop, load) = window_end term_counts lambda max_end target first first 0
                   in \<lparr>tw_begin = first, tw_end = stop\<rparr> #
                      windows_from term_counts lambda batches (n_windows + 1) stop (remaining_load - load)
      else [])"
  by pat_completeness auto
termination
  by (relation "measure (\<lambda>(_, _, batches, n, _, _). batches - n)") auto

declare windows_from.simps [simp del]

definition make_windows :: "nat list \<Rightarrow> size_t \<Rightarrow> size_t \<Rightarrow> term_window list" where
  "make_windows term_counts lambda batches =
     windows_from term_counts lambda batches 0 0 (sum_list (map (load_of lambda) term_counts))"

section \<open>Filling a window\<close>

text \<open>The message's numbers are left out.\<close>

definition count_postings_per_term :: "sparse_vectors \<Rightarrow> size_t \<Rightarrow> exn + nat list" where
  "count_postings_per_term vectors d =
     bindE (buf_get (sv_indptr vectors) (num_vectors vectors)) (\<lambda>nnz.
     foldE (\<lambda>counts j. bindE (read_at (buf_elems (sv_indices vectors)) j) (\<lambda>t.
              if t \<ge> d then Inl (Invalid_argument ''for_each_clustered_window: corpus has term outside dimension'')
              else Inr (counts[t := counts ! t + 1])))
       (replicate d 0) [0..<nat nnz])"

record window_lists =
  wl_element_size :: size_t
  wl_lists :: array_inverted_lists
  wl_ids :: "idx_t list list"
  wl_codes :: "byte list list"
  wl_fill :: "nat list"

definition wl_new :: "nat list \<Rightarrow> term_window \<Rightarrow> size_t \<Rightarrow> window_lists" where
  "wl_new term_counts window element_size =
     \<lparr>wl_element_size = element_size, wl_lists = ail_new (tw_size window) element_size,
      wl_ids = map (\<lambda>loc. replicate (term_counts ! (tw_begin window + loc)) 0) [0..<tw_size window],
      wl_codes = map (\<lambda>loc. replicate (term_counts ! (tw_begin window + loc) * element_size) 0) [0..<tw_size window],
      wl_fill = replicate (tw_size window) 0\<rparr>"

definition wl_add :: "window_lists \<Rightarrow> nat \<Rightarrow> idx_t \<Rightarrow> byte list \<Rightarrow> exn + window_lists" where
  "wl_add wl local_term doc_id code =
     (let slot = wl_fill wl ! local_term; es = wl_element_size wl;
          wl' = wl\<lparr>wl_fill := (wl_fill wl)[local_term := slot + 1]\<rparr>
      in if slot \<ge> length (wl_ids wl ! local_term)
         then Inl (Runtime_error ''for_each_clustered_window: corpus changed during the build'')
         else Inr (wl'\<lparr>wl_ids := (wl_ids wl)[local_term := (wl_ids wl ! local_term)[slot := doc_id]],
                wl_codes := (wl_codes wl)[local_term := take (slot * es) (wl_codes wl ! local_term) @ code @
                              drop (slot * es + es) (wl_codes wl ! local_term)]\<rparr>))"

definition wl_seal :: "window_lists \<Rightarrow> exn + array_inverted_lists" where
  "wl_seal wl =
     bindE (mapE (\<lambda>loc. il_set_entries (ail_lists (wl_lists wl) ! loc) (wl_ids wl ! loc) (wl_codes wl ! loc))
              [0..<length (wl_ids wl)])
       (\<lambda>ls. Inr ((wl_lists wl)\<lparr>ail_lists := ls\<rparr>))"

definition fill_from_corpus ::
  "sparse_vectors \<Rightarrow> term_window \<Rightarrow> size_t \<Rightarrow> window_lists \<Rightarrow> exn + window_lists" where
  "fill_from_corpus vectors window element_size wl =
     foldE (\<lambda>wl (doc, j). bindE (read_at (buf_elems (sv_indices vectors)) j) (\<lambda>t.
              if t < tw_begin window \<or> t \<ge> tw_end window then Inr wl
              else bindE (take_elems element_size (drop (j * element_size) (buf_elems (sv_values vectors)))) (\<lambda>code.
                   wl_add wl (t - tw_begin window) (int doc) code)))
       wl (csr_entries (buf_elems (sv_indptr vectors)) (num_vectors vectors))"

section \<open>Clustering a window\<close>

definition cluster_list ::
  "(byte list \<Rightarrow> 'w :: {zero, plus, minus, times, inverse, ord}) \<Rightarrow> ('w \<Rightarrow> byte list) \<Rightarrow> (nat \<Rightarrow> 'w) \<Rightarrow>
     (nat \<Rightarrow> nat \<Rightarrow> nat \<Rightarrow> nat) \<Rightarrow> sparse_vectors \<Rightarrow> 'w resolved_params \<Rightarrow> inverted_list \<Rightarrow> term_t \<Rightarrow> exn + clusters" where
  "cluster_list dec enc conv draw vectors params invlist t =
     (let doc_ids = prune_and_keep_doc_ids dec conv invlist (size_of_int (rp_lambda params));
          seed = (rp_base_seed params + t mod 4294967296) mod 4294967296
      in bindE (train dec draw (Some vectors) doc_ids (size_of_int (rp_beta params)) seed) (\<lambda>docs.
         summarize dec enc conv (cl_new docs) vectors (rp_alpha params)))"

text \<open>The clusters, and the lists emptied behind them.\<close>

definition cluster_window ::
  "(byte list \<Rightarrow> 'w :: {zero, plus, minus, times, inverse, ord}) \<Rightarrow> ('w \<Rightarrow> byte list) \<Rightarrow> (nat \<Rightarrow> 'w) \<Rightarrow>
     (nat \<Rightarrow> nat \<Rightarrow> nat \<Rightarrow> nat) \<Rightarrow> sparse_vectors \<Rightarrow> array_inverted_lists \<Rightarrow> term_window \<Rightarrow> 'w resolved_params \<Rightarrow>
     exn + clusters list \<times> array_inverted_lists" where
  "cluster_window dec enc conv draw vectors invlists window params =
     bindE (mapE (\<lambda>loc. cluster_list dec enc conv draw vectors params (ail_lists invlists ! loc)
                          (tw_begin window + loc)) [0..<tw_size window])
       (\<lambda>clustered. Inr (clustered, invlists\<lparr>ail_lists := map il_clear (ail_lists invlists)\<rparr>))"

definition resolve_params :: "nat \<Rightarrow> size_t \<Rightarrow> 'w cluster_params \<Rightarrow> 'w resolved_params" where
  "resolve_params entropy n_vectors params =
     (let lambda = calculate_lambda (cp_lambda params) n_vectors
      in \<lparr>rp_lambda = lambda, rp_beta = calculate_beta (cp_beta params) lambda, rp_alpha = cp_alpha params,
          rp_base_seed = (if cp_seed params = kRandomSeed then entropy
                          else nat (cp_seed params mod 4294967296))\<rparr>)"

definition for_each_clustered_window ::
  "(byte list \<Rightarrow> 'w :: {zero, plus, minus, times, inverse, ord}) \<Rightarrow> ('w \<Rightarrow> byte list) \<Rightarrow> (nat \<Rightarrow> 'w) \<Rightarrow>
     (nat \<Rightarrow> nat \<Rightarrow> nat \<Rightarrow> nat) \<Rightarrow> nat \<Rightarrow> sparse_vectors option \<Rightarrow> size_t \<Rightarrow> 'w cluster_params \<Rightarrow>
     ('s \<Rightarrow> size_t \<Rightarrow> clusters list \<Rightarrow> exn + 's) \<Rightarrow> 's \<Rightarrow> exn + 's" where
  "for_each_clustered_window dec enc conv draw entropy vectors dimension params sink s = (case vectors of
       None \<Rightarrow> Inr s
     | Some v \<Rightarrow>
       if num_vectors v = 0 then Inr s
       else let batches = min (effective_batch_size (cp_batch params)) dimension;
                resolved = resolve_params entropy (num_vectors v) params
            in bindE (count_postings_per_term v dimension) (\<lambda>term_counts.
               foldE (\<lambda>s window.
                   bindE (fill_from_corpus v window (sv_element_size v)
                            (wl_new term_counts window (sv_element_size v))) (\<lambda>wl.
                   bindE (wl_seal wl) (\<lambda>invlists.
                   bindE (cluster_window dec enc conv draw v invlists window resolved) (\<lambda>(clustered, _).
                   sink s (tw_begin window) clustered))))
                 s (make_windows term_counts (size_of_int (rp_lambda resolved)) batches)))"

text \<open>The sink that moves a window's lists into place.\<close>

definition place_window :: "clusters list \<Rightarrow> size_t \<Rightarrow> clusters list \<Rightarrow> exn + clusters list" where
  "place_window clustered term_begin window =
     (if length clustered < term_begin + length window then Inl (Undefined_behaviour ''write past the end'')
      else Inr (take term_begin clustered @ window @ drop (term_begin + length window) clustered))"

definition build_inverted_lists_clusters ::
  "(byte list \<Rightarrow> 'w :: {zero, plus, minus, times, inverse, ord}) \<Rightarrow> ('w \<Rightarrow> byte list) \<Rightarrow> (nat \<Rightarrow> 'w) \<Rightarrow>
     (nat \<Rightarrow> nat \<Rightarrow> nat \<Rightarrow> nat) \<Rightarrow> nat \<Rightarrow> sparse_vectors option \<Rightarrow> size_t \<Rightarrow> 'w cluster_params \<Rightarrow>
     exn + clusters list" where
  "build_inverted_lists_clusters dec enc conv draw entropy vectors dimension params =
     for_each_clustered_window dec enc conv draw entropy vectors dimension params place_window
       (replicate dimension cl_default)"

section \<open>The windows cover the term space\<close>

fun covers :: "nat \<Rightarrow> nat \<Rightarrow> term_window list \<Rightarrow> bool" where
  "covers b n [] \<longleftrightarrow> b = n"
| "covers b n (w # ws) \<longleftrightarrow> tw_begin w = b \<and> b < tw_end w \<and> tw_end w \<le> n \<and> covers (tw_end w) n ws"

lemma window_end_bounds:
  assumes "stop \<le> max_end" and "first \<le> stop" and "first < max_end"
  shows "fst (window_end counts lambda max_end target first stop load) \<le> max_end \<and>
    first < fst (window_end counts lambda max_end target first stop load)"
  using assms
proof (induction counts lambda max_end target first stop load rule: window_end.induct)
  case (1 counts lambda max_end target first stop load)
  show ?case
  proof (cases "stop < max_end \<and> (stop = first \<or> load < target)")
    case True
    then show ?thesis
      using "1.IH" [OF True] "1.prems" by (subst (1 2) window_end.simps) simp
  next
    case False
    then show ?thesis using "1.prems" by (subst (1 2) window_end.simps) auto
  qed
qed

lemma windows_from_covers:
  assumes "first < length counts" and "n < batches" and "first + (batches - n) \<le> length counts"
  shows "covers first (length counts) (windows_from counts lambda batches n first load) \<and>
    length (windows_from counts lambda batches n first load) = batches - n"
  using assms
proof (induction counts lambda batches n first load rule: windows_from.induct)
  case (1 counts lambda batches n first load)
  show ?case
  proof (cases "batches - n \<le> 1")
    case True
    then show ?thesis using "1.prems" by (subst (1 2) windows_from.simps) auto
  next
    case False
    define target where "target = (load + (batches - n) - 1) div (batches - n)"
    define max_end where "max_end = length counts - (batches - n - 1)"
    obtain stop l where e: "window_end counts lambda max_end target first first 0 = (stop, l)"
      by (cases "window_end counts lambda max_end target first first 0")
    have m: "first < max_end" using "1.prems" False by (auto simp: max_end_def)
    have b: "stop \<le> max_end" "first < stop"
      using window_end_bounds [of first max_end first counts lambda target 0] m e by auto
    have IH: "covers stop (length counts) (windows_from counts lambda batches (n + 1) stop (load - l)) \<and>
        length (windows_from counts lambda batches (n + 1) stop (load - l)) = batches - (n + 1)"
      using "1.IH" [OF "1.prems"(1) refl False target_def max_end_def e [symmetric] refl] b False
      by (auto simp: max_end_def)
    have "windows_from counts lambda batches n first load =
        \<lparr>tw_begin = first, tw_end = stop\<rparr> # windows_from counts lambda batches (n + 1) stop (load - l)"
      using "1.prems"(1) False e [unfolded target_def max_end_def]
      by (subst windows_from.simps) (simp add: Let_def)
    then show ?thesis using IH b False by (auto simp: max_end_def)
  qed
qed

lemma make_windows_covers:
  assumes "1 \<le> batches" and "batches \<le> length counts"
  shows "covers 0 (length counts) (make_windows counts lambda batches)"
    "length (make_windows counts lambda batches) = batches"
proof -
  have "0 < length counts" using assms by linarith
  from windows_from_covers [OF this, of 0 batches lambda] assms
  show "covers 0 (length counts) (make_windows counts lambda batches)"
    "length (make_windows counts lambda batches) = batches" by (auto simp: make_windows_def)
qed

lemma covers_le: "covers b n ws \<Longrightarrow> b \<le> n"
  by (induction ws arbitrary: b) auto

lemma covers_upt: "covers b n ws \<Longrightarrow> concat (map (\<lambda>w. [tw_begin w..<tw_end w]) ws) = [b..<n]"
proof (induction ws arbitrary: b)
  case (Cons w ws)
  then show ?case using upt_split [of b "tw_end w" n] by simp
qed simp

lemma covers_bounds: "covers b n ws \<Longrightarrow> w \<in> set ws \<Longrightarrow> b \<le> tw_begin w \<and> tw_begin w < tw_end w \<and> tw_end w \<le> n"
  by (induction ws arbitrary: b) fastforce+

section \<open>Counting and filling\<close>

lemma count_positions:
  assumes "\<forall>j \<in> set js. j < length ix \<and> ix ! j < d"
  shows "foldE (\<lambda>counts j. bindE (read_at ix j) (\<lambda>t.
              if t \<ge> d then Inl e else Inr (counts[t := counts ! t + 1]))) (replicate d 0) js =
    Inr (map (\<lambda>t. length (filter (\<lambda>j. ix ! j = t) js)) [0..<d])"
  using assms
proof (induction js rule: rev_induct)
  case Nil
  then show ?case by (simp add: map_replicate_const)
next
  case (snoc j js)
  have j: "j < length ix" "ix ! j < d" using snoc.prems by auto
  have "(map (\<lambda>t. length (filter (\<lambda>j. ix ! j = t) js)) [0..<d])[ix ! j := length (filter (\<lambda>j'. ix ! j' = ix ! j) js) + 1] =
      map (\<lambda>t. length (filter (\<lambda>j. ix ! j = t) (js @ [j]))) [0..<d]"
    by (rule nth_equalityI) (use j in \<open>auto simp: nth_list_update\<close>)
  then show ?case using snoc j by (simp add: foldE_append read_at_def)
qed

lemma count_positions_rejects:
  assumes "j \<in> set js" and "d \<le> ix ! j" and "\<forall>j \<in> set js. j < length ix"
  shows "foldE (\<lambda>counts j. bindE (read_at ix j) (\<lambda>t.
              if t \<ge> d then Inl e else Inr (counts[t := counts ! t + 1]))) cs js = Inl e"
  using assms by (induction js arbitrary: cs) (auto simp: read_at_def)

lemma csr_total:
  assumes "sv_content_wf v" and "0 < num_vectors v"
  shows "buf_get (sv_indptr v) (num_vectors v) = Inr (int (length (buf_elems (sv_indices v))))"
    "map snd (csr_entries (buf_elems (sv_indptr v)) (num_vectors v)) = [0..<length (buf_elems (sv_indices v))]"
proof -
  note w = sv_rows_wf [OF assms]
  have n: "num_vectors v = length (buf_elems (sv_indptr v)) - 1"
    using assms(2) by (simp add: num_vectors_def buf_empty_def buf_size_def split: if_splits)
  have "buf_elems (sv_indptr v) ! num_vectors v = int (length (buf_elems (sv_indices v)))"
    using w(1) unfolding n csr_wf_def by (metis last_conv_nth)
  then show "buf_get (sv_indptr v) (num_vectors v) = Inr (int (length (buf_elems (sv_indices v))))"
    "map snd (csr_entries (buf_elems (sv_indptr v)) (num_vectors v)) = [0..<length (buf_elems (sv_indices v))]"
    using w csr_entries_positions [OF w] by (simp_all add: buf_get_def)
qed

lemma length_posting_positions:
  assumes "sv_content_wf v" and "0 < num_vectors v"
  shows "length (posting_entries v t) =
    length (filter (\<lambda>j. buf_elems (sv_indices v) ! j = t) [0..<length (buf_elems (sv_indices v))])"
proof -
  have "filter (\<lambda>j. buf_elems (sv_indices v) ! j = t) (map snd es) = map snd (entries_of (buf_elems (sv_indices v)) t es)" for es
    by (induction es) (auto simp: entries_of_def)
  then show ?thesis unfolding csr_total(2) [OF assms, symmetric] by (simp add: posting_entries_def)
qed

lemma count_postings_eq:
  assumes "sv_content_wf v" and "0 < num_vectors v"
  shows "count_postings_per_term v d =
    (if \<forall>t \<in> set (buf_elems (sv_indices v)). t < d then Inr (map (\<lambda>t. length (posting_entries v t)) [0..<d])
     else Inl (Invalid_argument ''for_each_clustered_window: corpus has term outside dimension''))"
proof (cases "\<forall>t \<in> set (buf_elems (sv_indices v)). t < d")
  case True
  then have "\<forall>j \<in> set [0..<length (buf_elems (sv_indices v))]. j < length (buf_elems (sv_indices v)) \<and> buf_elems (sv_indices v) ! j < d" by simp
  then show ?thesis
    using True by (simp add: count_postings_per_term_def csr_total(1) [OF assms] count_positions length_posting_positions [OF assms])
next
  case False
  then obtain t where t: "t \<in> set (buf_elems (sv_indices v))" "d \<le> t" by (meson not_le)
  then obtain j where j: "j < length (buf_elems (sv_indices v))" "d \<le> buf_elems (sv_indices v) ! j" by (metis in_set_conv_nth)
  show ?thesis
    unfolding if_not_P [OF False]
    using j count_positions_rejects [of j "[0..<length (buf_elems (sv_indices v))]" d "buf_elems (sv_indices v)"]
    by (simp add: count_postings_per_term_def csr_total(1) [OF assms])
qed

lemma map_upt_update:
  assumes "l < n" and "g l = x" and "\<And>i. i < n \<Longrightarrow> i \<noteq> l \<Longrightarrow> g i = f i"
  shows "map g [0..<n] = (map f [0..<n])[l := x]"
  by (rule nth_equalityI) (use assms in \<open>auto simp: nth_list_update\<close>)

text \<open>A partly filled window: each list holds the postings seen so far, then zeros.\<close>

definition filled :: "sparse_vectors \<Rightarrow> term_window \<Rightarrow> (nat \<times> nat) list \<Rightarrow> window_lists" where
  "filled v w es =
     (let ix = buf_elems (sv_indices v); k = sv_element_size v; e = (\<lambda>loc. entries_of ix (tw_begin w + loc) es);
          n = (\<lambda>loc. length (posting_entries v (tw_begin w + loc)))
      in \<lparr>wl_element_size = k, wl_lists = ail_new (tw_size w) k,
      wl_ids = map (\<lambda>loc. map (\<lambda>(i, j). int i) (e loc) @ replicate (n loc - length (e loc)) 0) [0..<tw_size w],
      wl_codes = map (\<lambda>loc. concat (map (\<lambda>(i, j). code_at k (buf_elems (sv_values v)) j) (e loc)) @
                     replicate ((n loc - length (e loc)) * k) 0) [0..<tw_size w],
      wl_fill = map (\<lambda>loc. length (e loc)) [0..<tw_size w]\<rparr>)"

lemma wl_new_filled:
  assumes "tw_end w \<le> d"
  shows "wl_new (map (\<lambda>t. length (posting_entries v t)) [0..<d]) w (sv_element_size v) = filled v w []"
  using assms by (auto simp: wl_new_def filled_def entries_of_def Let_def tw_size_def map_replicate_const)

lemma fill_step_filled:
  assumes es: "csr_entries (buf_elems (sv_indptr v)) (num_vectors v) = es @ (i, j) # rest"
    and wf: "sv_content_wf v" and t: "t = buf_elems (sv_indices v) ! j" "tw_begin w \<le> t" "t < tw_end w"
  shows "wl_add (filled v w es) (t - tw_begin w) (int i) (code_at (sv_element_size v) (buf_elems (sv_values v)) j) =
    Inr (filled v w (es @ [(i, j)]))"
proof -
  let ?ix = "buf_elems (sv_indices v)" and ?k = "sv_element_size v" and ?vs = "buf_elems (sv_values v)"
  define l where "l = t - tw_begin w"
  define E where "E = (\<lambda>loc. entries_of ?ix (tw_begin w + loc) es)"
  have l: "l < tw_size w" "tw_begin w + l = t" using t by (auto simp: l_def tw_size_def)
  have post: "posting_entries v t = E l @ (i, j) # entries_of ?ix t rest"
    by (simp add: posting_entries_def es E_def l entries_of_def t(1))
  have E': "entries_of ?ix (tw_begin w + loc) (es @ [(i, j)]) = (if loc = l then E l @ [(i, j)] else E loc)" for loc
    using l t(1) by (auto simp: E_def entries_of_def)
  obtain m where m: "length (posting_entries v t) - length (E l) = Suc m" "length (posting_entries v t) - Suc (length (E l)) = m"
    unfolding post by simp
  have inr: "\<forall>(i, j) \<in> set (es @ (i, j) # rest). j < length ?ix"
    using entries_in_range [OF wf] unfolding es [symmetric] by auto
  have vs: "length ?vs = length ?ix * ?k"
    using wf inr by (auto simp: sv_content_wf_def csr_wf_def)
  have lc: "length (code_at ?k ?vs j') = ?k" if "(i', j') \<in> set (es @ (i, j) # rest)" for i' j'
    using inr that by (intro length_code_at [OF _ vs]) auto
  have lcs: "length (concat (map (\<lambda>(i, j). code_at ?k ?vs j) (E l))) = length (E l) * ?k"
    by (rule length_concat_codes) (use lc in \<open>auto simp: E_def entries_of_def\<close>)
  have jl: "length (code_at ?k ?vs j) = ?k" by (rule lc [of i]) simp
  have ids: "wl_ids (filled v w es) ! l = map (\<lambda>(i, j). int i) (E l) @ 0 # replicate m 0"
    "wl_codes (filled v w es) ! l = concat (map (\<lambda>(i, j). code_at ?k ?vs j) (E l)) @ replicate (Suc m * ?k) 0"
    "wl_fill (filled v w es) ! l = length (E l)" "wl_element_size (filled v w es) = ?k"
    using l(1) m by (simp_all add: filled_def Let_def E_def l(2))
  have new_ids: "(wl_ids (filled v w es) ! l)[length (E l) := int i] = map (\<lambda>(i, j). int i) (E l @ [(i, j)]) @ replicate m 0"
    unfolding ids by (simp add: list_update_append)
  have new_codes: "take (length (E l) * ?k) (wl_codes (filled v w es) ! l) @ code_at ?k ?vs j @
      drop (length (E l) * ?k + ?k) (wl_codes (filled v w es) ! l) =
    concat (map (\<lambda>(i, j). code_at ?k ?vs j) (E l @ [(i, j)])) @ replicate (m * ?k) 0"
    unfolding ids using lcs by simp
  have "filled v w (es @ [(i, j)]) = (filled v w es)\<lparr>wl_fill := (wl_fill (filled v w es))[l := length (E l) + 1],
      wl_ids := (wl_ids (filled v w es))[l := map (\<lambda>(i, j). int i) (E l @ [(i, j)]) @ replicate m 0],
      wl_codes := (wl_codes (filled v w es))[l := concat (map (\<lambda>(i, j). code_at ?k ?vs j) (E l @ [(i, j)])) @ replicate (m * ?k) 0]\<rparr>"
  proof -
    have Eq: "entries_of ?ix (tw_begin w + loc) es = E loc" for loc by (simp add: E_def)
    have m': "length (posting_entries v (tw_begin w + l)) - Suc (length (E l)) = m" using m(2) l(2) by simp
    show ?thesis
      unfolding filled_def Let_def E' Eq
      by (simp, intro conjI) (rule map_upt_update [OF l(1)]; simp add: m')+
  qed
  moreover have "length (E l) < length (wl_ids (filled v w es) ! l)" by (simp add: ids(1))
  ultimately show ?thesis
    unfolding wl_add_def Let_def l_def [symmetric] ids(3,4) new_ids new_codes by simp
qed

lemma fill_from_corpus_eq:
  assumes wf: "sv_content_wf v"
  shows "fill_from_corpus v w (sv_element_size v) (filled v w []) =
    Inr (filled v w (csr_entries (buf_elems (sv_indptr v)) (num_vectors v)))"
proof -
  let ?ix = "buf_elems (sv_indices v)" and ?k = "sv_element_size v" and ?vs = "buf_elems (sv_values v)"
  let ?en = "csr_entries (buf_elems (sv_indptr v)) (num_vectors v)"
  let ?f = "\<lambda>wl (doc, j). bindE (read_at ?ix j) (\<lambda>t.
              if t < tw_begin w \<or> t \<ge> tw_end w then Inr wl
              else bindE (take_elems ?k (drop (j * ?k) ?vs)) (\<lambda>code.
                   wl_add wl (t - tw_begin w) (int doc) code))"
  have "foldE ?f (filled v w []) es = Inr (filled v w es)" if "?en = es @ rest" for es rest
    using that
  proof (induction es arbitrary: rest rule: rev_induct)
    case (snoc p es)
    obtain i j where p: "p = (i, j)" by (cases p)
    have en: "?en = es @ (i, j) # rest" using snoc.prems by (simp add: p)
    have ij: "(i, j) \<in> set ?en" unfolding en by simp
    have j: "j < length ?ix" using entries_in_range [OF wf ij] by simp
    have "length ?vs = length ?ix * ?k" using wf j by (auto simp: sv_content_wf_def csr_wf_def)
    then have tk: "take_elems ?k (drop (j * ?k) ?vs) = Inr (code_at ?k ?vs j)"
      using mult_le_mono1 [of "Suc j" "length ?ix" ?k] j by (simp add: take_elems_def code_at_def)
    have "?f (filled v w es) (i, j) = Inr (filled v w (es @ [(i, j)]))"
    proof (cases "?ix ! j < tw_begin w \<or> ?ix ! j \<ge> tw_end w")
      case True
      have "entries_of ?ix (tw_begin w + loc) (es @ [(i, j)]) = entries_of ?ix (tw_begin w + loc) es" if "loc < tw_size w" for loc
        using True that by (auto simp: entries_of_def tw_size_def)
      then have "filled v w (es @ [(i, j)]) = filled v w es" by (simp add: filled_def Let_def)
      then show ?thesis using True j by (simp add: read_at_def)
    next
      case False
      then show ?thesis using fill_step_filled [OF en wf refl, of w] j by (simp add: read_at_def tk)
    qed
    then show ?case using snoc.IH [of "p # rest"] en by (simp add: p foldE_append bindE_return)
  qed simp
  from this [of ?en "[]"] show ?thesis by (simp add: fill_from_corpus_def)
qed

text \<open>The sealed list of a term, with the contents of the list a whole-corpus build makes.\<close>

definition same_postings :: "inverted_list \<Rightarrow> inverted_list \<Rightarrow> bool" where
  "same_postings l l' \<longleftrightarrow> il_element_size l = il_element_size l' \<and>
     buf_elems (il_doc_ids l) = buf_elems (il_doc_ids l') \<and> buf_elems (il_codes l) = buf_elems (il_codes l')"

lemma wl_seal_filled:
  assumes wf: "sv_content_wf v" and n: "num_vectors v < 2147483648"
    and fits: "length (buf_elems (sv_indices v)) * sv_element_size v \<le> SIZE_MAX"
  shows "\<exists>a. wl_seal (filled v w (csr_entries (buf_elems (sv_indptr v)) (num_vectors v))) = Inr a \<and>
    length (ail_lists a) = tw_size w \<and>
    (\<forall>loc < tw_size w. same_postings (ail_lists a ! loc) (built_list (sv_element_size v) v (tw_begin w + loc)))"
proof -
  let ?k = "sv_element_size v" and ?vs = "buf_elems (sv_values v)"
  let ?P = "\<lambda>loc. posting_entries v (tw_begin w + loc)"
  let ?L = "\<lambda>loc. \<lparr>il_element_size = ?k, il_doc_ids = buf_own (map (\<lambda>(i, j). int i) (?P loc)),
      il_codes = buf_own (concat (map (\<lambda>(i, j). code_at ?k ?vs j) (?P loc)))\<rparr>"
  let ?F = "filled v w (csr_entries (buf_elems (sv_indptr v)) (num_vectors v))"
  have F: "wl_ids ?F = map (\<lambda>loc. map (\<lambda>(i, j). int i) (?P loc)) [0..<tw_size w]"
    "wl_codes ?F = map (\<lambda>loc. concat (map (\<lambda>(i, j). code_at ?k ?vs j) (?P loc))) [0..<tw_size w]"
    "wl_lists ?F = ail_new (tw_size w) ?k"
    by (simp_all add: filled_def Let_def posting_entries_def)
  have each: "il_set_entries (ail_lists (wl_lists ?F) ! loc) (wl_ids ?F ! loc) (wl_codes ?F ! loc) = Inr (?L loc)"
    if "loc \<in> set [0..<tw_size w]" for loc
  proof -
    have "length (?P loc) * ?k \<le> SIZE_MAX"
      using length_posting_entries [OF wf] fits by (meson le_trans mult_le_mono1)
    then have "u64 (length (?P loc) * ?k) = length (?P loc) * ?k" by (simp add: SIZE_MAX_def)
    then show ?thesis
      using that posting_codes_length [OF wf refl, of "tw_begin w + loc"]
      by (simp add: F il_set_entries_def ail_new_def il_new_def)
  qed
  have len: "length (wl_ids ?F) = tw_size w" by (simp add: F(1))
  have "mapE (\<lambda>loc. il_set_entries (ail_lists (wl_lists ?F) ! loc) (wl_ids ?F ! loc) (wl_codes ?F ! loc)) [0..<length (wl_ids ?F)] =
      Inr (map ?L [0..<tw_size w])"
    unfolding len by (rule mapE_Inr_all, rule each)
  moreover have "same_postings (?L loc) (built_list ?k v (tw_begin w + loc))" for loc
  proof -
    have "i32 (int i) = int i" if "(i, j) \<in> set (?P loc)" for i j
    proof -
      have "(i, j) \<in> set (csr_entries (buf_elems (sv_indptr v)) (num_vectors v))"
        using that by (simp add: posting_entries_def entries_of_def)
      then have "i < num_vectors v" using entries_in_range [OF wf] by blast
      then show ?thesis using n by (simp add: is_i32_int)
    qed
    then have "map (\<lambda>(i, j). i32 (int i)) (?P loc) = map (\<lambda>(i, j). int i) (?P loc)"
      by (intro map_cong) auto
    then show ?thesis by (simp add: same_postings_def built_list_def il_new_def)
  qed
  ultimately show ?thesis by (simp add: wl_seal_def)
qed

lemma cluster_list_same:
  assumes "same_postings l l'"
  shows "cluster_list dec enc conv draw v params l t = cluster_list dec enc conv draw v params l' t"
proof -
  have "il_size l = il_size l'" using assms by (simp add: same_postings_def il_size_def buf_size_def)
  then have "prune_and_keep_doc_ids dec conv l n = prune_and_keep_doc_ids dec conv l' n" for n
    using assms by (simp add: same_postings_def prune_and_keep_doc_ids_def create_value_doc_id_pair_def Let_def)
  then show ?thesis by (simp add: cluster_list_def)
qed

section \<open>The build, list by list\<close>

text \<open>What each list of the index is, independently of the windows.\<close>

definition term_clusters ::
  "(byte list \<Rightarrow> 'w :: {zero, plus, minus, times, inverse, ord}) \<Rightarrow> ('w \<Rightarrow> byte list) \<Rightarrow> (nat \<Rightarrow> 'w) \<Rightarrow>
     (nat \<Rightarrow> nat \<Rightarrow> nat \<Rightarrow> nat) \<Rightarrow> nat \<Rightarrow> sparse_vectors \<Rightarrow> 'w cluster_params \<Rightarrow> term_t \<Rightarrow> exn + clusters" where
  "term_clusters dec enc conv draw entropy v params t =
     cluster_list dec enc conv draw v (resolve_params entropy (num_vectors v) params)
       (built_list (sv_element_size v) v t) t"

lemma window_clusters:
  fixes dec :: "byte list \<Rightarrow> 'w :: {zero, plus, minus, times, inverse, ord}"
  assumes wf: "sv_content_wf v" and n: "num_vectors v < 2147483648"
    and fits: "length (buf_elems (sv_indices v)) * sv_element_size v \<le> SIZE_MAX"
    and w: "tw_begin w \<le> tw_end w" "tw_end w \<le> d"
  shows "bindE (fill_from_corpus v w (sv_element_size v)
        (wl_new (map (\<lambda>t. length (posting_entries v t)) [0..<d]) w (sv_element_size v))) (\<lambda>wl.
      bindE (wl_seal wl) (\<lambda>invlists.
      bindE (cluster_window dec enc conv draw v invlists w (resolve_params entropy (num_vectors v) params)) (\<lambda>(clustered, _).
      sink (tw_begin w) clustered))) =
    bindE (mapE (term_clusters dec enc conv draw entropy v params) [tw_begin w..<tw_end w]) (sink (tw_begin w))"
proof -
  obtain a where a: "wl_seal (filled v w (csr_entries (buf_elems (sv_indptr v)) (num_vectors v))) = Inr a"
    "\<forall>loc < tw_size w. same_postings (ail_lists a ! loc) (built_list (sv_element_size v) v (tw_begin w + loc))"
    using wl_seal_filled [OF wf n fits] by blast
  let ?c = "cluster_list dec enc conv draw v (resolve_params entropy (num_vectors v) params)"
  have "mapE (\<lambda>loc. ?c (ail_lists a ! loc) (tw_begin w + loc)) [0..<tw_size w] =
      mapE (\<lambda>loc. term_clusters dec enc conv draw entropy v params (tw_begin w + loc)) [0..<tw_size w]"
    unfolding term_clusters_def by (rule mapE_cong [OF refl], rule cluster_list_same) (use a(2) in simp)
  also have "\<dots> = mapE (term_clusters dec enc conv draw entropy v params) [tw_begin w..<tw_end w]"
    unfolding mapE_upt_shift using w(1) by (simp add: tw_size_def)
  finally have m: "mapE (\<lambda>loc. ?c (ail_lists a ! loc) (tw_begin w + loc)) [0..<tw_size w] =
      mapE (term_clusters dec enc conv draw entropy v params) [tw_begin w..<tw_end w]" .
  show ?thesis
    unfolding wl_new_filled [OF w(2)] fill_from_corpus_eq [OF wf] bindE.simps a(1) cluster_window_def m
    by (cases "mapE (term_clusters dec enc conv draw entropy v params) [tw_begin w..<tw_end w]") simp_all
qed

text \<open>Placing the windows one after the other is building the lists one after the other.\<close>

lemma place_windows:
  assumes "covers b n ws" and "length clustered = n"
  shows "foldE (\<lambda>s w. bindE (mapE f [tw_begin w..<tw_end w]) (place_window s (tw_begin w))) clustered ws =
    bindE (mapE f [b..<n]) (\<lambda>cls. Inr (take b clustered @ cls))"
  using assms
proof (induction ws arbitrary: b clustered)
  case Nil
  then show ?case by simp
next
  case (Cons w ws)
  have c: "tw_begin w = b" "b < tw_end w" "tw_end w \<le> n" "covers (tw_end w) n ws" using Cons.prems by auto
  show ?case
  proof (cases "mapE f [b..<tw_end w]")
    case (Inl e)
    then show ?thesis using c upt_split [of b "tw_end w" n] by (simp add: mapE_append)
  next
    case (Inr cls)
    have l: "length cls = tw_end w - b" using mapE_Inr_length [OF Inr] by simp
    let ?cl = "take b clustered @ cls @ drop (b + length cls) clustered"
    have p: "place_window clustered b cls = Inr ?cl" using l c Cons.prems(2) by (simp add: place_window_def)
    have t: "take (tw_end w) ?cl = take b clustered @ cls" "length ?cl = n" using l c Cons.prems(2) by simp_all
    have "foldE (\<lambda>s w. bindE (mapE f [tw_begin w..<tw_end w]) (place_window s (tw_begin w))) ?cl ws =
        bindE (mapE f [tw_end w..<n]) (\<lambda>cls'. Inr ((take b clustered @ cls) @ cls'))"
      using Cons.IH [OF c(4) t(2)] unfolding t(1) .
    then show ?thesis
      using c upt_split [of b "tw_end w" n] by (simp add: Inr p mapE_append bindE_assoc)
  qed
qed

lemma for_each_window_eq:
  fixes dec :: "byte list \<Rightarrow> 'w :: {zero, plus, minus, times, inverse, ord}"
  assumes wf: "sv_content_wf v" and n: "0 < num_vectors v" "num_vectors v < 2147483648"
    and fits: "length (buf_elems (sv_indices v)) * sv_element_size v \<le> SIZE_MAX"
    and terms: "\<forall>t \<in> set (buf_elems (sv_indices v)). t < d"
  shows "\<exists>ws. covers 0 d ws \<and> length ws = min (effective_batch_size (cp_batch params)) d \<and>
    for_each_clustered_window dec enc conv draw entropy (Some v) d params sink s =
    foldE (\<lambda>s w. bindE (mapE (term_clusters dec enc conv draw entropy v params) [tw_begin w..<tw_end w])
      (sink s (tw_begin w))) s ws"
proof -
  let ?counts = "map (\<lambda>t. length (posting_entries v t)) [0..<d]"
  let ?r = "resolve_params entropy (num_vectors v) params"
  let ?b = "min (effective_batch_size (cp_batch params)) d"
  let ?ws = "make_windows ?counts (size_of_int (rp_lambda ?r)) ?b"
  have ws: "covers 0 d ?ws" "length ?ws = ?b"
  proof -
    have "covers 0 d ?ws \<and> length ?ws = ?b"
    proof (cases "d = 0")
      case True
      then show ?thesis by (simp add: make_windows_def windows_from.simps)
    next
      case False
      have "1 \<le> effective_batch_size (cp_batch params)" by (simp add: effective_batch_size_def)
      then show ?thesis using make_windows_covers [of ?b ?counts] False by simp
    qed
    then show "covers 0 d ?ws" "length ?ws = ?b" by simp_all
  qed
  have count: "count_postings_per_term v d = Inr ?counts"
    using count_postings_eq [OF wf n(1), of d] terms by simp
  have "for_each_clustered_window dec enc conv draw entropy (Some v) d params sink s =
      foldE (\<lambda>s window. bindE (fill_from_corpus v window (sv_element_size v)
                            (wl_new ?counts window (sv_element_size v))) (\<lambda>wl.
                   bindE (wl_seal wl) (\<lambda>invlists.
                   bindE (cluster_window dec enc conv draw v invlists window ?r) (\<lambda>(clustered, _).
                   sink s (tw_begin window) clustered)))) s ?ws"
    using n(1) by (simp add: for_each_clustered_window_def count Let_def)
  also have "\<dots> = foldE (\<lambda>s w. bindE (mapE (term_clusters dec enc conv draw entropy v params) [tw_begin w..<tw_end w])
      (sink s (tw_begin w))) s ?ws"
  proof (rule foldE_cong [OF refl refl])
    fix s w assume "w \<in> set ?ws"
    then have "tw_begin w \<le> tw_end w" "tw_end w \<le> d" using covers_bounds [OF ws(1)] by force+
    then show "bindE (fill_from_corpus v w (sv_element_size v)
                            (wl_new ?counts w (sv_element_size v))) (\<lambda>wl.
                   bindE (wl_seal wl) (\<lambda>invlists.
                   bindE (cluster_window dec enc conv draw v invlists w ?r) (\<lambda>(clustered, _).
                   sink s (tw_begin w) clustered))) =
       bindE (mapE (term_clusters dec enc conv draw entropy v params) [tw_begin w..<tw_end w]) (sink s (tw_begin w))"
      by (rule window_clusters [OF wf n(2) fits])
  qed
  finally show ?thesis using ws by blast
qed

lemma term_clusters_batch:
  "term_clusters dec enc conv draw entropy v (params\<lparr>cp_batch := batch'\<rparr>) = term_clusters dec enc conv draw entropy v params"
  by (intro ext) (simp add: term_clusters_def resolve_params_def Let_def)

lemma build_eq:
  fixes dec :: "byte list \<Rightarrow> 'w :: {zero, plus, minus, times, inverse, ord}"
  assumes "sv_content_wf v" and "0 < num_vectors v" and "num_vectors v < 2147483648"
    and "length (buf_elems (sv_indices v)) * sv_element_size v \<le> SIZE_MAX"
  shows "build_inverted_lists_clusters dec enc conv draw entropy (Some v) d params =
      (if \<forall>t \<in> set (buf_elems (sv_indices v)). t < d
       then mapE (term_clusters dec enc conv draw entropy v params) [0..<d]
       else Inl (Invalid_argument ''for_each_clustered_window: corpus has term outside dimension''))"
proof (cases "\<forall>t \<in> set (buf_elems (sv_indices v)). t < d")
  case True
  obtain ws where ws: "covers 0 d ws" "for_each_clustered_window dec enc conv draw entropy (Some v) d params place_window (replicate d cl_default) =
    foldE (\<lambda>s w. bindE (mapE (term_clusters dec enc conv draw entropy v params) [tw_begin w..<tw_end w])
    (place_window s (tw_begin w))) (replicate d cl_default) ws"
    using for_each_window_eq [OF assms True, where sink = place_window and s = "replicate d cl_default"
        and params = params and dec = dec and enc = enc and conv = conv and draw = draw and entropy = entropy]
    by (elim exE conjE) (rule that)
  show ?thesis
    unfolding build_inverted_lists_clusters_def ws(2) if_P [OF True]
    using place_windows [OF ws(1), of "replicate d cl_default"] by (simp add: bindE_return)
next
  case False
  have "count_postings_per_term v d = Inl (Invalid_argument ''for_each_clustered_window: corpus has term outside dimension'')"
    unfolding count_postings_eq [OF assms(1,2)] if_not_P [OF False] ..
  then show ?thesis
    unfolding if_not_P [OF False] using assms(2)
    by (simp add: build_inverted_lists_clusters_def for_each_clustered_window_def Let_def)
qed

text \<open>
  C27: the windows of a batched build. For any counts and any number of batches between one and the
  number of terms, the windows are contiguous, ascending and none is empty, they cover the term
  space exactly, and there are as many as asked for.
\<close>

theorem windows_partition_terms:
  assumes "1 \<le> batches" and "batches \<le> length counts"
  shows "concat (map (\<lambda>w. [tw_begin w..<tw_end w]) (make_windows counts lambda batches)) = [0..<length counts] \<and>
    length (make_windows counts lambda batches) = batches \<and>
    (\<forall>w \<in> set (make_windows counts lambda batches). tw_begin w < tw_end w)"
  using make_windows_covers [OF assms, of lambda] covers_upt covers_bounds by blast

theorem windows_partition_terms_witness:
  "length (make_windows [7, 0, 2] 5 2) = 2 \<and>
   concat (map (\<lambda>w. [tw_begin w..<tw_end w]) (make_windows [7, 0, 2] 5 2)) = [0..<3]"
  using windows_partition_terms [of 2 "[7, 0, 2]" 5] by (simp add: numeral_3_eq_3)

text \<open>
  C4: the build does not depend on the batching. Over a non-empty corpus, at any number of windows,
  \<open>build_inverted_lists_clusters\<close> builds, list by list in term order, each term's list from its
  postings in document order, with the seed of its global term id; the first list that fails decides
  the exception. Two builds that differ in their batch option give the same result. A term outside
  the dimension is refused whatever the windows.
\<close>

theorem build_independent_of_windows:
  fixes dec :: "byte list \<Rightarrow> 'w :: {zero, plus, minus, times, inverse, ord}"
  assumes "sv_content_wf v" and "0 < num_vectors v" and "num_vectors v < 2147483648"
    and "length (buf_elems (sv_indices v)) * sv_element_size v \<le> SIZE_MAX"
  shows "build_inverted_lists_clusters dec enc conv draw entropy (Some v) d params =
      (if \<forall>t \<in> set (buf_elems (sv_indices v)). t < d
       then mapE (term_clusters dec enc conv draw entropy v params) [0..<d]
       else Inl (Invalid_argument ''for_each_clustered_window: corpus has term outside dimension'')) \<and>
    build_inverted_lists_clusters dec enc conv draw entropy (Some v) d (params\<lparr>cp_batch := batch'\<rparr>) =
      build_inverted_lists_clusters dec enc conv draw entropy (Some v) d params"
  unfolding build_eq [OF assms] term_clusters_batch by (intro conjI refl)

theorem build_independent_of_windows_witness:
  "build_inverted_lists_clusters (\<lambda>_. 0 :: rat) (\<lambda>_. [0, 0, 0, 0]) of_nat (\<lambda>_ _ b. b) 7
     (Some \<lparr>sv_indptr = buf_own [0, 1, 2], sv_indices = buf_own [1, 5], sv_values = buf_own [2, 3],
       sv_element_size = 1, sv_dimension = 6\<rparr>) 4 (kDefaultSeismicClusterParams (2 / 5)) =
     Inl (Invalid_argument ''for_each_clustered_window: corpus has term outside dimension'')"
proof -
  let ?v = "\<lparr>sv_indptr = buf_own [0, 1, 2], sv_indices = buf_own [1, 5], sv_values = buf_own [2, 3],
    sv_element_size = 1, sv_dimension = 6\<rparr>"
  have h: "sv_content_wf ?v" "0 < num_vectors ?v" "num_vectors ?v < 2147483648"
    "length (buf_elems (sv_indices ?v)) * sv_element_size ?v \<le> SIZE_MAX"
    by (auto simp: sv_content_wf_def csr_wf_def num_vectors_def buf_empty_def buf_size_def SIZE_MAX_def)
  have no: "\<not> (\<forall>t \<in> set (buf_elems (sv_indices ?v)). t < 4)" by simp
  show ?thesis
    using build_independent_of_windows [OF h, of "\<lambda>_. 0 :: rat" "\<lambda>_. [0, 0, 0, 0]" of_nat "\<lambda>_ _ b. b" 7 4
        "kDefaultSeismicClusterParams (2 / 5)"]
    unfolding if_not_P [OF no] by (rule conjunct1)
qed

end
