(* ===== verification/Seismic_Spill.thy ===== *)
theory Seismic_Spill
  imports Seismic_Build
begin

text \<open>
  \<^verbatim>\<open>seismic_batched_build.cpp\<close>: the build that writes each window's lists to a temporary file and
  maps the file back. The file system is a map from paths to contents; what the operating system may
  refuse (writing, mapping, removing a mapped file), the random file token and the address of the
  mapping are parameters.
\<close>

section \<open>Names\<close>

fun show_nat :: "nat \<Rightarrow> string" where
  "show_nat n = (if n < 10 then [char_of (48 + n)] else show_nat (n div 10) @ [char_of (48 + n mod 10)])"

declare show_nat.simps [simp del]

definition kSpillPrefix :: string where "kSpillPrefix = ''nsparse-clustered-lists-''"
definition kSpillSuffix :: string where "kSpillSuffix = ''.tmp''"

text \<open>\<^verbatim>\<open>std::filesystem::path\<close>: joining with a separator, and the last component.\<close>

definition join_path :: "string \<Rightarrow> string \<Rightarrow> string" where
  "join_path dir name = (if dir = [] \<or> last dir = CHR ''/'' then dir @ name else dir @ CHR ''/'' # name)"

definition filename :: "string \<Rightarrow> string" where
  "filename path = rev (takeWhile (\<lambda>c. c \<noteq> CHR ''/'') (rev path))"

definition spill_path :: "string \<Rightarrow> nat \<Rightarrow> string" where
  "spill_path dir token = join_path dir (kSpillPrefix @ show_nat token @ kSpillSuffix)"

definition is_spill_path :: "string \<Rightarrow> bool" where
  "is_spill_path path =
     (let name = filename path
      in take (length kSpillPrefix) name = kSpillPrefix \<and>
         drop (length name - length kSpillSuffix) name = kSpillSuffix)"

section \<open>The spill file\<close>

type_synonym files = "string \<Rightarrow> byte list option"

record platform =
  pf_is_directory :: "string \<Rightarrow> bool"
  pf_can_write :: "string \<Rightarrow> byte list \<Rightarrow> bool"
  pf_can_map :: "string \<Rightarrow> bool"
  pf_can_remove :: "string \<Rightarrow> bool"
  pf_address :: nat

record spill =
  sp_path :: string
  sp_mapping :: "byte list option"

definition sp_new :: spill where
  "sp_new = \<lparr>sp_path = [], sp_mapping = None\<rparr>"

definition release :: "spill \<times> files \<Rightarrow> spill \<times> files" where
  "release = (\<lambda>(sp, fs).
     if sp_path sp = [] then (sp, fs)
     else (\<lparr>sp_path = [], sp_mapping = None\<rparr>, if is_spill_path (sp_path sp) then fs(sp_path sp := None) else fs))"

text \<open>A failed write leaves a partial file, whose content does not matter since it is removed.\<close>

definition write_and_map ::
  "platform \<Rightarrow> nat \<Rightarrow> string \<Rightarrow> (writer \<Rightarrow> exn + writer) \<Rightarrow> spill \<times> files \<Rightarrow> (exn + unit) \<times> spill \<times> files" where
  "write_and_map pf token dir write_section st =
     (let (sp0, fs0) = release st; path = spill_path dir token; sp1 = sp0\<lparr>sp_path := path\<rparr>
      in case write_section [] of
           Inl e \<Rightarrow> (Inl e, release (sp1, fs0(path \<mapsto> [])))
         | Inr bytes \<Rightarrow>
             if \<not> pf_can_write pf path bytes
             then (Inl (Runtime_error ''Failed to write to file''), release (sp1, fs0(path \<mapsto> [])))
             else if \<not> pf_can_map pf path
             then (Inl (Runtime_error ''mmap: failed to open''), release (sp1, fs0(path \<mapsto> bytes)))
             else let sp2 = sp1\<lparr>sp_mapping := Some bytes\<rparr>
                  in if pf_can_remove pf path then (Inr (), sp2\<lparr>sp_path := []\<rparr>, fs0(path := None))
                     else (Inr (), sp2, fs0(path \<mapsto> bytes)))"

text \<open>The posting-list section, streamed window by window.\<close>

definition stream_clustered_lists ::
  "(byte list \<Rightarrow> 'w :: {zero, plus, minus, times, inverse, ord}) \<Rightarrow> ('w \<Rightarrow> byte list) \<Rightarrow> (nat \<Rightarrow> 'w) \<Rightarrow>
     (nat \<Rightarrow> nat \<Rightarrow> nat \<Rightarrow> nat) \<Rightarrow> nat \<Rightarrow> sparse_vectors option \<Rightarrow> size_t \<Rightarrow> 'w cluster_params \<Rightarrow>
     writer \<Rightarrow> exn + writer" where
  "stream_clustered_lists dec enc conv draw entropy vectors dimension params w =
     bindE (write_size_t dimension w) (\<lambda>w.
     bindE (for_each_clustered_window dec enc conv draw entropy vectors dimension params
              (\<lambda>(w, next_term) term_begin clustered.
                 if term_begin \<noteq> next_term
                 then Inl (Runtime_error ''spill_clustered_lists: windows arrived out of order'')
                 else bindE (write_all cl_serialize clustered w) (\<lambda>w. Inr (w, term_begin + length clustered)))
              (w, 0)) (\<lambda>(w, next_term).
     if next_term \<noteq> dimension then Inl (Runtime_error ''spill_clustered_lists: not every posting list was spilled'')
     else Inr w))"

definition spill_clustered_lists ::
  "(byte list \<Rightarrow> 'w :: {zero, plus, minus, times, inverse, ord}) \<Rightarrow> ('w \<Rightarrow> byte list) \<Rightarrow> (nat \<Rightarrow> 'w) \<Rightarrow>
     (nat \<Rightarrow> nat \<Rightarrow> nat \<Rightarrow> nat) \<Rightarrow> nat \<Rightarrow> platform \<Rightarrow> nat \<Rightarrow> sparse_vectors option \<Rightarrow> size_t \<Rightarrow> 'w cluster_params \<Rightarrow>
     string \<Rightarrow> spill \<times> files \<Rightarrow> (exn + clusters list) \<times> spill \<times> files" where
  "spill_clustered_lists dec enc conv draw entropy pf token vectors dimension params scratch_dir st =
     (if \<not> pf_is_directory pf scratch_dir
      then (Inl (Invalid_argument ''spill_clustered_lists: batch_file_output_path must be an existing directory''), st)
      else if (case vectors of None \<Rightarrow> True | Some v \<Rightarrow> num_vectors v = 0)
      then (Inl (Invalid_argument ''spill_clustered_lists: corpus is empty; there is nothing to spill''), st)
      else case write_and_map pf token scratch_dir
                  (stream_clustered_lists dec enc conv draw entropy vectors dimension params) st of
             (Inl e, st') \<Rightarrow> (Inl e, st')
           | (Inr _, (sp, fs)) \<Rightarrow>
               (bindE (slw_mmap_deserialize \<lparr>mc_base = pf_address pf,
                         mc_data = (case sp_mapping sp of None \<Rightarrow> [] | Some bytes \<Rightarrow> bytes), mc_pos = 0\<rparr>)
                  (\<lambda>(cls, _). Inr cls), sp, fs))"

definition build_clustered_lists ::
  "(byte list \<Rightarrow> 'w :: {zero, plus, minus, times, inverse, ord}) \<Rightarrow> ('w \<Rightarrow> byte list) \<Rightarrow> (nat \<Rightarrow> 'w) \<Rightarrow>
     (nat \<Rightarrow> nat \<Rightarrow> nat \<Rightarrow> nat) \<Rightarrow> nat \<Rightarrow> platform \<Rightarrow> nat \<Rightarrow> sparse_vectors option \<Rightarrow> size_t \<Rightarrow> 'w cluster_params \<Rightarrow>
     spill \<times> files \<Rightarrow> (exn + clusters list) \<times> spill \<times> files" where
  "build_clustered_lists dec enc conv draw entropy pf token vectors dimension params st =
     (if effective_batch_size (cp_batch params) \<le> 1
      then (build_inverted_lists_clusters dec enc conv draw entropy vectors dimension params, st)
      else spill_clustered_lists dec enc conv draw entropy pf token vectors dimension params
             (bo_path (cp_batch params)) st)"

section \<open>A spill only removes a file it wrote\<close>

lemma show_nat_no_slash: "CHR ''/'' \<notin> set (show_nat n)"
proof (induction n rule: show_nat.induct)
  case (1 n)
  have digit: "char_of (48 + d) \<noteq> CHR ''/''" if "d < 10" for d :: nat
  proof
    assume "char_of (48 + d) = CHR ''/''"
    then have "of_char (char_of (48 + d) :: char) = (47 :: nat)" by simp
    then show False using that by simp
  qed
  show ?case
  proof (cases "n < 10")
    case True
    then show ?thesis using digit [of n] by (subst show_nat.simps) auto
  next
    case False
    then show ?thesis using "1.IH" digit [of "n mod 10"] by (subst show_nat.simps) auto
  qed
qed

lemma filename_join: "CHR ''/'' \<notin> set name \<Longrightarrow> filename (join_path dir name) = name"
proof -
  assume n: "CHR ''/'' \<notin> set name"
  have tw: "takeWhile (\<lambda>c. c \<noteq> CHR ''/'') (rev name @ rest) = rev name @ takeWhile (\<lambda>c. c \<noteq> CHR ''/'') rest" for rest
    by (rule takeWhile_append2) (use n in auto)
  have whole: "takeWhile (\<lambda>c. c \<noteq> CHR ''/'') (rev name) = rev name" using tw [of "[]"] by simp
  show ?thesis
    by (cases dir rule: rev_cases) (auto simp: filename_def join_path_def tw whole)
qed

lemma is_spill_path_spill: "is_spill_path (spill_path dir token)"
proof -
  have "CHR ''/'' \<notin> set (kSpillPrefix @ show_nat token @ kSpillSuffix)"
    using show_nat_no_slash [of token] by (simp add: kSpillPrefix_def kSpillSuffix_def)
  from filename_join [OF this] show ?thesis by (simp add: is_spill_path_def spill_path_def)
qed

lemma spill_path_nonempty: "spill_path dir token \<noteq> []"
  by (simp add: spill_path_def join_path_def kSpillPrefix_def)

section \<open>The spilled build\<close>

lemma write_all_append: "write_all ser (xs @ ys) w = bindE (write_all ser xs w) (write_all ser ys)"
proof (induction xs arbitrary: w)
  case (Cons x xs)
  show ?case by (cases "ser x w") (simp_all add: Cons.IH)
qed simp

lemma stream_windows:
  assumes "covers b n ws" and "mapE f [b..<n] = Inr cls" and "write_all cl_serialize cls w = Inr w'"
  shows "foldE (\<lambda>(w, next_term) win. bindE (mapE f [tw_begin win..<tw_end win])
      (\<lambda>clustered. if tw_begin win \<noteq> next_term then Inl e
         else bindE (write_all cl_serialize clustered w) (\<lambda>w. Inr (w, tw_begin win + length clustered)))) (w, b) ws =
    Inr (w', n)"
  using assms
proof (induction ws arbitrary: b cls w)
  case (Cons win ws)
  have c: "tw_begin win = b" "b < tw_end win" "tw_end win \<le> n" "covers (tw_end win) n ws" using Cons.prems by auto
  have "[b..<n] = [b..<tw_end win] @ [tw_end win..<n]" using c by (intro upt_split) simp_all
  then obtain c1 c2 where cs: "mapE f [b..<tw_end win] = Inr c1" "mapE f [tw_end win..<n] = Inr c2" "cls = c1 @ c2"
    using Cons.prems(2) by (auto simp: mapE_append err_simps)
  obtain w1 where w1: "write_all cl_serialize c1 w = Inr w1" "write_all cl_serialize c2 w1 = Inr w'"
    using Cons.prems(3) by (auto simp: cs(3) write_all_append err_simps)
  have l: "b + length c1 = tw_end win" using mapE_Inr_length [OF cs(1)] c by simp
  show ?case using Cons.IH [OF c(4) cs(2) w1(2)] by (simp add: c(1) cs(1) w1(1) l)
qed simp

lemma stream_clustered_lists_eq:
  fixes dec :: "byte list \<Rightarrow> 'w :: {zero, plus, minus, times, inverse, ord}"
  assumes "sv_content_wf v" and "0 < num_vectors v" and "num_vectors v < 2147483648"
    and "length (buf_elems (sv_indices v)) * sv_element_size v \<le> SIZE_MAX"
    and "\<forall>t \<in> set (buf_elems (sv_indices v)). t < d"
    and "mapE (term_clusters dec enc conv draw entropy v params) [0..<d] = Inr cls"
    and "slw_serialize False cls w = Inr w'"
  shows "stream_clustered_lists dec enc conv draw entropy (Some v) d params w = Inr w'"
proof -
  have d: "length cls = d" using mapE_Inr_length [OF assms(6)] by simp
  obtain w1 where w1: "write_size_t d w = Inr w1" "write_all cl_serialize cls w1 = Inr w'"
    using assms(7) by (auto simp: slw_serialize_def d err_simps)
  let ?e = "Runtime_error ''spill_clustered_lists: windows arrived out of order''"
  let ?sink = "\<lambda>(w, next_term) term_begin clustered. if term_begin \<noteq> next_term then Inl ?e
      else bindE (write_all cl_serialize clustered w) (\<lambda>w. Inr (w, term_begin + length clustered))"
  obtain ws where ws: "covers 0 d ws"
    "for_each_clustered_window dec enc conv draw entropy (Some v) d params ?sink (w1, 0) =
      foldE (\<lambda>s w. bindE (mapE (term_clusters dec enc conv draw entropy v params) [tw_begin w..<tw_end w])
      (?sink s (tw_begin w))) (w1, 0) ws"
    using for_each_window_eq [OF assms(1-5), where sink = ?sink and s = "(w1, 0)"
          and params = params and dec = dec and enc = enc and conv = conv and draw = draw and entropy = entropy]
    by (elim exE conjE) (rule that)
  have "foldE (\<lambda>s w. bindE (mapE (term_clusters dec enc conv draw entropy v params) [tw_begin w..<tw_end w])
      (?sink s (tw_begin w))) (w1, 0) ws = Inr (w', d)"
    using stream_windows [OF ws(1) assms(6) w1(2), of ?e]
    by (simp add: case_prod_unfold)
  then show ?thesis unfolding stream_clustered_lists_def using w1(1) ws(2) by simp
qed

text \<open>Three ways a spill ends: refused, unlinked while mapped, or mapped with its removal owed.\<close>

lemma write_and_map_leaves:
  fixes dir token
  defines "new \<equiv> spill_path dir token"
  assumes "write_and_map pf token dir write_section (sp, fs) = (r, sp', fs')"
  shows "(\<exists>e. r = Inl e \<and> sp_path sp' = [] \<and> fs' = (snd (release (sp, fs)))(new := None)) \<or>
    r = Inr () \<and> pf_can_remove pf new \<and> sp_path sp' = [] \<and> fs' = (snd (release (sp, fs)))(new := None) \<or>
    (\<exists>bytes. r = Inr () \<and> \<not> pf_can_remove pf new \<and> sp_path sp' = new \<and> sp_mapping sp' = Some bytes \<and>
      fs' = (snd (release (sp, fs)))(new \<mapsto> bytes))"
proof -
  obtain sp0 fs0 where r: "release (sp, fs) = (sp0, fs0)" by (cases "release (sp, fs)")
  have drop: "release (sp0\<lparr>sp_path := new\<rparr>, fs0(new \<mapsto> bytes)) = (\<lparr>sp_path = [], sp_mapping = None\<rparr>, fs0(new := None))" for bytes
    using spill_path_nonempty [of dir token] is_spill_path_spill [of dir token] by (simp add: release_def new_def)
  show ?thesis
  proof (cases "write_section []")
    case (Inl e)
    then show ?thesis using assms(2) unfolding write_and_map_def r new_def [symmetric] by (auto simp: Let_def drop)
  next
    case (Inr bytes)
    then show ?thesis
      using assms(2) unfolding write_and_map_def r new_def [symmetric]
      by (auto simp: Let_def drop split: if_splits)
  qed
qed

text \<open>
  C29: the spill file. Whatever the section writes and whatever the system refuses, \<open>write_and_map\<close>
  removes the file its owner still owed the removal of, if that carries a spill's name, and touches no
  other file but the new spill: not the files of other builds, which carry such names too. When it
  fails, or when the system lets a mapped file be removed, the new spill is gone and no removal is
  owed; otherwise the file that was mapped is there, its removal is owed, and \<open>release\<close> removes it
  and nothing else.
\<close>

theorem spill_leaves_no_file:
  assumes "write_and_map pf token dir write_section (sp, fs) = (r, sp', fs')"
  shows "(\<forall>p. p \<noteq> spill_path dir token \<longrightarrow> fs' p = (if p = sp_path sp \<and> p \<noteq> [] \<and> is_spill_path p then None else fs p)) \<and>
    (r \<noteq> Inr () \<or> pf_can_remove pf (spill_path dir token) \<longrightarrow>
       sp_path sp' = [] \<and> fs' (spill_path dir token) = None) \<and>
    (r = Inr () \<and> \<not> pf_can_remove pf (spill_path dir token) \<longrightarrow>
       sp_path sp' = spill_path dir token \<and> sp_mapping sp' \<noteq> None \<and> fs' (spill_path dir token) = sp_mapping sp') \<and>
    sp_path (fst (release (sp', fs'))) = [] \<and> snd (release (sp', fs')) = fs'(spill_path dir token := None)"
proof -
  let ?new = "spill_path dir token"
  have new: "?new \<noteq> []" "is_spill_path ?new" by (rule spill_path_nonempty, rule is_spill_path_spill)
  have old: "snd (release (sp, fs)) p = (if p = sp_path sp \<and> p \<noteq> [] \<and> is_spill_path p then None else fs p)" for p
    by (auto simp: release_def)
  from write_and_map_leaves [OF assms] show ?thesis
  proof (elim disjE exE conjE)
    fix bytes assume c: "r = Inr ()" "\<not> pf_can_remove pf ?new" "sp_path sp' = ?new" "sp_mapping sp' = Some bytes"
      "fs' = (snd (release (sp, fs)))(?new \<mapsto> bytes)"
    then show ?thesis using new old by (simp add: release_def)
  qed (use new old in \<open>simp_all add: release_def\<close>)
qed

theorem spill_leaves_no_file_witness:
  "\<exists>sp' fs'. write_and_map \<lparr>pf_is_directory = \<lambda>_. True, pf_can_write = \<lambda>_ _. True, pf_can_map = \<lambda>_. True,
      pf_can_remove = \<lambda>_. False, pf_address = 0\<rparr> 7 ''tmp'' (\<lambda>w. Inr (w @ [1]))
      (sp_new, [spill_path ''tmp'' 8 \<mapsto> [2]]) = (Inr (), sp', fs') \<and>
    fs' (spill_path ''tmp'' 7) = Some [1] \<and> snd (release (sp', fs')) (spill_path ''tmp'' 7) = None \<and>
    snd (release (sp', fs')) (spill_path ''tmp'' 8) = Some [2]"
proof -
  let ?pf = "\<lparr>pf_is_directory = \<lambda>_. True, pf_can_write = \<lambda>_ _. True, pf_can_map = \<lambda>_. True,
      pf_can_remove = \<lambda>_. False, pf_address = 0\<rparr>"
  let ?run = "write_and_map ?pf 7 ''tmp'' (\<lambda>w. Inr (w @ [1])) (sp_new, [spill_path ''tmp'' 8 \<mapsto> [2]])"
  have paths: "spill_path ''tmp'' 8 \<noteq> spill_path ''tmp'' 7"
    by (simp add: spill_path_def join_path_def show_nat.simps)
  obtain sp' fs' where e: "?run = (Inr (), sp', fs')" "sp_mapping sp' = Some [1]"
    by (simp add: write_and_map_def release_def sp_new_def Let_def)
  note w = spill_leaves_no_file [OF e(1)]
  have "fs' (spill_path ''tmp'' 7) = Some [1]" using w e(2) by simp
  moreover have "fs' (spill_path ''tmp'' 8) = Some [2]" using w paths by (simp add: sp_new_def)
  moreover have "snd (release (sp', fs')) = fs'(spill_path ''tmp'' 7 := None)" using w by blast
  ultimately show ?thesis using e(1) paths by (intro exI [of _ sp'] exI [of _ fs'] conjI) simp_all
qed

text \<open>
  C7: building through the spill is building in memory. When the whole-corpus build succeeds with
  lists that fit the wire format, and the system writes and maps the file, \<open>build_clustered_lists\<close>
  with batching returns lists with the same contents, at any number of windows.
\<close>

theorem spilled_build_agrees:
  fixes dec :: "byte list \<Rightarrow> 'w :: {zero, plus, minus, times, inverse, ord}"
  assumes "sv_content_wf v" and "0 < num_vectors v" and "num_vectors v < 2147483648"
    and "length (buf_elems (sv_indices v)) * sv_element_size v \<le> SIZE_MAX"
    and "build_inverted_lists_clusters dec enc conv draw entropy (Some v) d params = Inr cls"
    and "\<forall>cl \<in> set cls. cl_wire cl" and "d \<le> SIZE_MAX" and "8 dvd pf_address pf"
    and "pf_is_directory pf dir" and "\<forall>p bytes. pf_can_write pf p bytes \<and> pf_can_map pf p" and "dir \<noteq> []"
  shows "\<exists>cls' st'. build_clustered_lists dec enc conv draw entropy pf token (Some v) d
      (params\<lparr>cp_batch := \<lparr>bo_batch_size = n, bo_path = dir\<rparr>\<rparr>) st = (Inr cls', st') \<and>
    list_all2 same_clusters cls cls'"
proof -
  let ?params = "params\<lparr>cp_batch := \<lparr>bo_batch_size = n, bo_path = dir\<rparr>\<rparr>"
  note eq = build_eq [OF assms(1-4), of dec enc conv draw entropy d]
  have terms: "\<forall>t \<in> set (buf_elems (sv_indices v)). t < d" using assms(5) unfolding eq by (auto split: if_splits)
  have same: "term_clusters dec enc conv draw entropy v ?params = term_clusters dec enc conv draw entropy v params"
    by (rule term_clusters_batch)
  have m: "mapE (term_clusters dec enc conv draw entropy v ?params) [0..<d] = Inr cls"
    using assms(5) unfolding eq if_P [OF terms] same .
  have len: "length cls = d" using mapE_Inr_length [OF m] by simp
  have whole: "build_inverted_lists_clusters dec enc conv draw entropy (Some v) d ?params = Inr cls"
    unfolding eq if_P [OF terms] by (rule m)
  show ?thesis
  proof (cases "effective_batch_size (cp_batch ?params) \<le> 1")
    case True
    have "list_all2 same_clusters cls cls" by (simp add: list_all2_same)
    then show ?thesis using True whole by (auto simp: build_clustered_lists_def)
  next
    case False
    obtain out cls' where rt: "slw_serialize False cls [] = Inr out" "list_all2 same_clusters cls cls'"
      "slw_mmap_deserialize (mk_cursor (pf_address pf) out 0) = Inr (cls', mk_cursor (pf_address pf) out (length out))"
      using slw_map_round_trip [OF assms(6) _ assms(8), of False, unfolded round_trips_def, rule_format, of "[]" "[]"] len assms(7)
      by auto
    have stream: "stream_clustered_lists dec enc conv draw entropy (Some v) d ?params [] = Inr out"
      by (rule stream_clustered_lists_eq [OF assms(1-4) terms m rt(1)])
    obtain sp0 fs0 where rel: "release st = (sp0, fs0)" by (cases "release st")
    obtain sp fs where "write_and_map pf token dir (stream_clustered_lists dec enc conv draw entropy (Some v) d ?params) st =
        (Inr (), sp, fs)" "sp_mapping sp = Some out"
      using assms(10) by (cases "pf_can_remove pf (spill_path dir token)") (simp_all add: write_and_map_def stream Let_def rel)
    then show ?thesis
      using False assms(2,9) rt(2,3)
      by (simp add: build_clustered_lists_def spill_clustered_lists_def mk_cursor_def)
  qed
qed

theorem spilled_build_agrees_witness:
  "\<exists>cls' st'. build_clustered_lists (\<lambda>_. 0 :: rat) (\<lambda>_. [0, 0, 0, 0]) of_nat (\<lambda>_ _ b. b) 7
      \<lparr>pf_is_directory = \<lambda>_. True, pf_can_write = \<lambda>_ _. True, pf_can_map = \<lambda>_. True, pf_can_remove = \<lambda>_. False,
        pf_address = 8\<rparr> 5
      (Some \<lparr>sv_indptr = buf_own [0, 0], sv_indices = buf_own [], sv_values = buf_own [], sv_element_size = 1,
        sv_dimension = 2\<rparr>) 2
      \<lparr>cp_lambda = 4, cp_beta = 1, cp_alpha = 1, cp_batch = \<lparr>bo_batch_size = 2, bo_path = ''tmp''\<rparr>, cp_seed = 3\<rparr>
      (sp_new, Map.empty) = (Inr cls', st') \<and> length cls' = 2"
proof -
  let ?v = "\<lparr>sv_indptr = buf_own [0, 0], sv_indices = buf_own [], sv_values = buf_own [], sv_element_size = 1,
    sv_dimension = 2\<rparr>"
  let ?p = "\<lparr>cp_lambda = 4, cp_beta = 1, cp_alpha = 1 :: rat, cp_batch = \<lparr>bo_batch_size = 1, bo_path = []\<rparr>, cp_seed = 3\<rparr>"
  let ?pf = "\<lparr>pf_is_directory = \<lambda>_. True, pf_can_write = \<lambda>_ _. True, pf_can_map = \<lambda>_. True, pf_can_remove = \<lambda>_. False,
    pf_address = 8\<rparr>"
  let ?dec = "\<lambda>_. 0 :: rat" and ?enc = "\<lambda>_. [0, 0, 0, 0] :: byte list" and ?draw = "\<lambda>_ _ b. b :: nat"
  let ?cl = "cl_default\<lparr>cl_element_size := 1\<rparr>"
  have h: "sv_content_wf ?v" "0 < num_vectors ?v" "num_vectors ?v < 2147483648"
    "length (buf_elems (sv_indices ?v)) * sv_element_size ?v \<le> SIZE_MAX"
    by (auto simp: sv_content_wf_def csr_wf_def num_vectors_def buf_empty_def buf_size_def SIZE_MAX_def)
  have terms: "\<forall>t \<in> set (buf_elems (sv_indices ?v)). t < 2" by simp
  have none: "posting_entries ?v t = []" for t
    by (simp add: posting_entries_def entries_of_def csr_entries_def num_vectors_def buf_empty_def buf_size_def)
  have "term_clusters ?dec ?enc of_nat ?draw 7 ?v ?p t = Inr ?cl" for t
    by (simp add: term_clusters_def cluster_list_def built_list_def none [simplified] il_new_def prune_and_keep_doc_ids_def il_size_def buf_size_def
        train_def throw_if_null_def cl_new_def summarize_def summarize_typed_def cl_default_def sv_new_def U32_def U16_def
        throw_if_not_positive_def build_transpose_def num_vectors_def buf_empty_def sv_default_def Let_def)
  then have "mapE (term_clusters ?dec ?enc of_nat ?draw 7 ?v ?p) [0..<2] = Inr [?cl, ?cl]"
    by (simp add: numeral_2_eq_2)
  then have b: "build_inverted_lists_clusters ?dec ?enc of_nat ?draw 7 (Some ?v) 2 ?p = Inr [?cl, ?cl]"
    unfolding build_eq [OF h] if_P [OF terms] .
  have "cl_wire ?cl"
    by (simp add: cl_wire_def cl_default_def SIZE_MAX_def vector_max_size_def)
  then have w: "\<forall>cl \<in> set [?cl, ?cl]. cl_wire cl" by simp
  have e: "(2 :: nat) \<le> SIZE_MAX" "8 dvd pf_address ?pf" "pf_is_directory ?pf ''tmp''"
    "\<forall>p bytes. pf_can_write ?pf p bytes \<and> pf_can_map ?pf p" "''tmp'' \<noteq> []" by (simp_all add: SIZE_MAX_def)
  obtain cls' st' where r: "build_clustered_lists ?dec ?enc of_nat ?draw 7 ?pf 5 (Some ?v) 2
      (?p\<lparr>cp_batch := \<lparr>bo_batch_size = 2, bo_path = ''tmp''\<rparr>\<rparr>) (sp_new, Map.empty) = (Inr cls', st')"
    "list_all2 same_clusters [?cl, ?cl] cls'"
    using spilled_build_agrees [OF h b w e, of 5 2 "(sp_new, Map.empty)"] by (elim exE conjE) (rule that)
  have "length cls' = 2" using list_all2_lengthD [OF r(2)] by simp
  then show ?thesis using r(1) by (intro exI conjI) (simp_all)
qed

end
