(* ===== verification/Seismic_Index.thy ===== *)
theory Seismic_Index
  imports Cluster_Walk Seismic_Spill
begin

text \<open>
  \<^verbatim>\<open>seismic_index.cpp\<close>: \<open>SeismicIndex\<close>, the approximate index over clustered posting lists. A query
  visits the lists of its heaviest terms; within a list, clusters whose summary scores too low
  against the current \<open>k\<close>-th best are skipped. The main theorems: with summaries that bound their
  documents the answer is the exact best of the documents in the visited lists, whatever the order
  and the skips; and the per-thread scratch buffers do not leak between queries.
\<close>

section \<open>Querying one list\<close>

text \<open>The score of a document, at the float width, against the dense query.\<close>

definition float_score_of ::
  "(byte list \<Rightarrow> 'w) \<Rightarrow> sparse_vectors \<Rightarrow> 'w list \<Rightarrow> idx_t \<Rightarrow> exn + 'w :: {zero, plus, times}" where
  "float_score_of dec vectors dense doc_id =
     bindE (row_entries dec vectors doc_id) (\<lambda>row.
     dot_product_float_dense (map fst row) (map snd row) dense)"

definition query_single_inverted_list ::
  "('w \<Rightarrow> byte list) \<Rightarrow> (byte list \<Rightarrow> 'w) \<Rightarrow> (nat \<Rightarrow> 'w) \<Rightarrow> sparse_vectors \<Rightarrow> clusters \<Rightarrow> 'w list \<Rightarrow> term_t list \<Rightarrow>
     'w list \<Rightarrow> 'w \<Rightarrow> bool \<Rightarrow> id_selector option \<Rightarrow> ('w, idx_t) topk_holder \<times> idx_t list \<Rightarrow>
     exn + ('w :: {zero, plus, times, ord}, idx_t) topk_holder \<times> idx_t list" where
  "query_single_inverted_list enc dec conv vectors cl dense q_idx q_val heap_factor first_list sel st =
     (if cl_n_clusters cl = 0 then Inr st
      else bindE (score_summaries_transposed dec conv cl q_idx (encode_array enc q_val)) (\<lambda>summary_scores.
           walk_clusters (float_score_of dec vectors dense) sel heap_factor first_list summary_scores (get_docs cl) st
             (reorder_clusters summary_scores first_list)))"

section \<open>SeismicIndex\<close>

record 'w seismic_index =
  se_dimension :: int
  se_vectors :: "sparse_vectors option"
  se_lists :: "clusters list"
  se_params :: "'w cluster_params"
  se_spill :: spill

definition se_new :: "int \<Rightarrow> 'w cluster_params \<Rightarrow> 'w seismic_index" where
  "se_new d params = \<lparr>se_dimension = d, se_vectors = None, se_lists = [], se_params = params,
     se_spill = sp_new\<rparr>"

definition se_add ::
  "('w \<Rightarrow> byte list) \<Rightarrow> 'w seismic_index \<Rightarrow> idx_t \<Rightarrow> offset_t list option \<Rightarrow> term_t list option \<Rightarrow>
     'w list option \<Rightarrow> exn + 'w seismic_index" where
  "se_add enc st n indptr indices values =
     bindE (vectors_add enc (se_dimension st) (se_vectors st) n indptr indices values)
       (\<lambda>v. Inr (st\<lparr>se_vectors := Some v\<rparr>))"

definition se_build ::
  "(byte list \<Rightarrow> 'w :: {zero, plus, minus, times, inverse, ord}) \<Rightarrow> ('w \<Rightarrow> byte list) \<Rightarrow> (nat \<Rightarrow> 'w) \<Rightarrow>
     (nat \<Rightarrow> nat \<Rightarrow> nat \<Rightarrow> nat) \<Rightarrow> nat \<Rightarrow> platform \<Rightarrow> nat \<Rightarrow> 'w seismic_index \<times> files \<Rightarrow>
     (exn + unit) \<times> 'w seismic_index \<times> files" where
  "se_build dec enc conv draw entropy pf token = (\<lambda>(st, fs).
     case build_clustered_lists dec enc conv draw entropy pf token (se_vectors st) (size_of_int (se_dimension st))
            (se_params st) (se_spill st, fs) of
       (Inl e, sp, fs) \<Rightarrow> (Inl e, st\<lparr>se_spill := sp\<rparr>, fs)
     | (Inr cls, sp, fs) \<Rightarrow> (Inr (), st\<lparr>se_lists := cls, se_spill := sp\<rparr>, fs))"

text \<open>The query of a batch: the terms and values at its pointers.\<close>

definition batch_row :: "offset_t list \<Rightarrow> term_t list \<Rightarrow> 'v list \<Rightarrow> nat \<Rightarrow> exn + term_t list \<times> 'v list" where
  "batch_row indptr indices values i =
     bindE (read_at indptr i) (\<lambda>start. bindE (read_at indptr (i + 1)) (\<lambda>stop.
     let len = nat (stop - start)
     in bindE (take_elems len (drop (nat start) indices)) (\<lambda>ts.
        bindE (take_elems len (drop (nat start) values)) (\<lambda>ws. Inr (ts, ws)))))"

definition se_single_query ::
  "('w \<Rightarrow> byte list) \<Rightarrow> (byte list \<Rightarrow> 'w) \<Rightarrow> (nat \<Rightarrow> 'w) \<Rightarrow> sparse_vectors \<Rightarrow> clusters list \<Rightarrow> term_t list \<Rightarrow> 'w list \<Rightarrow>
     term_t list \<Rightarrow> int \<Rightarrow> 'w \<Rightarrow> id_selector option \<Rightarrow> 'w list \<Rightarrow>
     exn + ('w list \<times> idx_t list) \<times> 'w :: {zero, one, uminus, plus, times, ord} list" where
  "se_single_query enc dec conv vectors cls q_idx q_val cuts k heap_factor sel dense =
     (if num_vectors vectors = 0 then Inr (([], []), dense)
      else bindE (foldE (\<lambda>d (t, w). store t w d) dense (zip q_idx q_val)) (\<lambda>dense.
           bindE (topk_new k) (\<lambda>holder.
           bindE (foldE (\<lambda>(st, first_list) t.
                    if t \<ge> length cls then Inr (st, first_list)
                    else bindE (query_single_inverted_list enc dec conv vectors (cls ! t) dense q_idx q_val
                                  heap_factor first_list sel st) (\<lambda>st. Inr (st, False)))
                  ((holder, []), True) cuts) (\<lambda>((holder, _), _).
           bindE (foldE (\<lambda>d t. store t 0 d) dense q_idx) (\<lambda>dense.
           let (scores, ids) = topk_items_descending holder
           in Inr ((resize (nat k) (- 1) scores, resize (nat k) INVALID_IDX ids), dense))))))"

text \<open>
  The queries of a batch, each in the scratch of the thread that takes it. An exception leaving the
  parallel region, on which the program stops, is the result of the run.
\<close>

definition run_batch ::
  "('d \<Rightarrow> nat \<Rightarrow> exn + 'r \<times> 'd) \<Rightarrow> (nat \<Rightarrow> nat) \<Rightarrow> (nat \<Rightarrow> 'd) \<Rightarrow> nat \<Rightarrow> exn + 'r list \<times> (nat \<Rightarrow> 'd)" where
  "run_batch query thread bufs n =
     foldE (\<lambda>(rs, bufs) i. bindE (query (bufs (thread i)) i) (\<lambda>(r, d). Inr (rs @ [r], bufs(thread i := d))))
       ([], bufs) [0..<n]"

definition se_search ::
  "('w \<Rightarrow> byte list) \<Rightarrow> (byte list \<Rightarrow> 'w) \<Rightarrow> (nat \<Rightarrow> 'w) \<Rightarrow> (int \<Rightarrow> 'w) \<Rightarrow> (nat \<Rightarrow> nat) \<Rightarrow> 'w seismic_index \<Rightarrow> idx_t \<Rightarrow>
     offset_t list \<Rightarrow> term_t list \<Rightarrow> 'w list \<Rightarrow> int \<Rightarrow> 'w search_params option \<Rightarrow>
     exn + ('w :: {zero, one, uminus, plus, times, ord} list \<times> idx_t list) list" where
  "se_search enc dec conv of_i thread st n indptr indices values k params = (case se_vectors st of
       None \<Rightarrow> Inr (replicate (nat n) ([], []))
     | Some vectors \<Rightarrow>
         if n = 0 then Inr []
         else let (q_cut, heap_factor) = seismic_cut_and_factor params; sel = params_selector params
              in if should_run_exact_match sel k
                 then bindE (query_matrix enc (se_dimension st) n indptr indices values) (\<lambda>query_vectors.
                      exact_search dec of_i vectors (case Option.bind sel enumerable of None \<Rightarrow> [] | Some ids \<Rightarrow> ids)
                        query_vectors U32 k)
                 else bindE (run_batch (\<lambda>dense i.
                          bindE (batch_row indptr indices values i) (\<lambda>(q_idx, q_val).
                          bindE (top_k_tokens q_idx q_val q_cut) (\<lambda>cuts.
                          se_single_query enc dec conv vectors (se_lists st) q_idx q_val cuts k heap_factor sel dense)))
                        thread (\<lambda>_. replicate (nat (se_dimension st)) 0) (nat n)) (\<lambda>(rs, _). Inr rs))"

subsection \<open>The file\<close>

definition throw_if_element_size_mismatch :: "size_t \<Rightarrow> string \<Rightarrow> sparse_vectors \<Rightarrow> exn + unit" where
  "throw_if_element_size_mismatch expected msg vectors =
     throw_if (num_vectors vectors > 0 \<and> sv_element_size vectors \<noteq> expected) (Runtime_error msg)"

definition se_write_index :: "'w seismic_index \<Rightarrow> writer \<Rightarrow> exn + writer" where
  "se_write_index st w =
     bindE (sv_serialize (case se_vectors st of None \<Rightarrow> sv_default | Some v \<Rightarrow> v) w)
       (slw_serialize False (se_lists st))"

definition se_read_index :: "'w seismic_index \<Rightarrow> reader \<Rightarrow> exn + 'w seismic_index \<times> reader" where
  "se_read_index st r =
     bindE (sv_deserialize sv_default r) (\<lambda>(tmp_vectors, r).
     bindE (throw_if_element_size_mismatch U32 ''index file's element size is not the seismic index's'' tmp_vectors) (\<lambda>_.
     let st' = (if num_vectors tmp_vectors > 0 then st\<lparr>se_vectors := Some tmp_vectors\<rparr> else st)
     in bindE (slw_deserialize r) (\<lambda>(cls, r). Inr (st'\<lparr>se_lists := cls\<rparr>, r))))"

definition se_map_payload :: "'w seismic_index \<Rightarrow> cursor \<Rightarrow> exn + 'w seismic_index \<times> cursor" where
  "se_map_payload st c =
     bindE (sv_mmap_deserialize (Some c)) (\<lambda>(vectors, c).
     bindE (throw_if_element_size_mismatch U32 ''index file's element size is not the seismic index's'' vectors) (\<lambda>_.
     bindE (slw_mmap_deserialize c) (\<lambda>(cls, c).
     let st' = st\<lparr>se_lists := cls\<rparr>
     in Inr (if num_vectors vectors > 0 then st'\<lparr>se_vectors := Some vectors\<rparr> else st', c))))"

definition se_mmap_index ::
  "'w cluster_params \<Rightarrow> int \<Rightarrow> (nat \<times> byte list) option \<Rightarrow> size_t \<Rightarrow> exn + 'w seismic_index" where
  "se_mmap_index params d index_file pos =
     bindE (throw_if_null index_file ''index_file must not be null'') (\<lambda>(base, data).
     bindE (cursor_skip pos \<lparr>mc_base = base, mc_data = data, mc_pos = 0\<rparr>) (\<lambda>c.
     bindE (se_map_payload (se_new d params) c) (\<lambda>(st, _). Inr st)))"

section \<open>The scratch buffer\<close>

lemma store_ok: "store t w d = Inr d' \<Longrightarrow> t < length d \<and> d' = d[t := w]"
  by (auto simp: store_def split: if_splits)

lemma foldE_stores:
  "foldE (\<lambda>d (t, w). store t w d) d ps = Inr d' \<Longrightarrow>
     (\<forall>t \<in> fst ` set ps. t < length d) \<and> d' = foldl (\<lambda>d (t, w). d[t := w]) d ps"
proof (induction ps arbitrary: d)
  case (Cons p ps)
  obtain d1 where "store (fst p) (snd p) d = Inr d1" "foldE (\<lambda>d (t, w). store t w d) d1 ps = Inr d'"
    using Cons.prems by (auto simp: case_prod_unfold err_simps)
  with Cons.IH [of d1] store_ok [of "fst p" "snd p" d d1] show ?case by (auto simp: case_prod_unfold)
qed simp

lemma foldE_stores_ok:
  "\<forall>t \<in> fst ` set ps. t < length d \<Longrightarrow>
     foldE (\<lambda>d (t, w). store t w d) d ps = Inr (foldl (\<lambda>d (t, w). d[t := w]) d ps)"
  by (induction ps arbitrary: d) (auto simp: store_def)

text \<open>Clearing the stored positions gives the zero buffer back.\<close>

lemma clear_stores:
  assumes "foldE (\<lambda>d (t, w). store t w d) (replicate n 0) (zip ts ws) = Inr d" and "length ws = length ts"
  shows "foldE (\<lambda>d t. store t 0 d) d ts = Inr (replicate n (0 :: 'w :: zero))"
proof -
  let ?up = "\<lambda>d ps. foldl (\<lambda>d (t, w). d[t := w]) d ps"
  have d: "\<forall>t \<in> set ts. t < n" "d = ?up (replicate n 0) (zip ts ws)"
    using foldE_stores [OF assms(1)] set_map [of fst "zip ts ws"] assms(2) by auto
  have other: "t \<notin> fst ` set ps \<Longrightarrow> ?up d ps ! t = d ! t" for t ps and d :: "'w list"
    by (induction ps arbitrary: d) (auto simp: case_prod_unfold)
  have zero: "t \<in> set ts \<Longrightarrow> t < length d \<Longrightarrow> ?up d (map (\<lambda>t. (t, 0)) ts) ! t = 0" for t and d :: "'w list"
  proof (induction ts arbitrary: d)
    case (Cons a ts)
    show ?case
    proof (cases "t \<in> set ts")
      case True
      then show ?thesis using Cons by simp
    next
      case False
      then have "t \<notin> fst ` set (map (\<lambda>t. (t, 0 :: 'w)) ts)" by force
      then show ?thesis using other [of t "map (\<lambda>t. (t, 0)) ts" "d[a := 0]"] False Cons.prems by simp
    qed
  qed simp
  have "foldE (\<lambda>d t. store t 0 d) d ts = foldE (\<lambda>d (t, w). store t w d) d (map (\<lambda>t. (t, 0)) ts)"
    by (induction ts arbitrary: d) simp_all
  also have "\<dots> = Inr (?up d (map (\<lambda>t. (t, 0)) ts))"
    by (rule foldE_stores_ok) (use d in auto)
  also have "?up d (map (\<lambda>t. (t, 0)) ts) = replicate n 0"
  proof (rule nth_equalityI)
    fix t assume "t < length (?up d (map (\<lambda>t. (t, 0)) ts))"
    then have t: "t < n" using d(2) by simp
    show "?up d (map (\<lambda>t. (t, 0)) ts) ! t = replicate n 0 ! t"
    proof (cases "t \<in> set ts")
      case True
      then show ?thesis using zero [of t d] t d(2) by simp
    next
      case False
      then have "t \<notin> fst ` set (map (\<lambda>t. (t, 0 :: 'w)) ts)" "t \<notin> fst ` set (zip ts ws)"
        by (auto dest: set_zip_leftD)
      then show ?thesis using other t d(2) by simp
    qed
  qed (use d(2) in simp)
  finally show ?thesis .
qed

text \<open>A batch whose queries hand the scratch back as they found it.\<close>

lemma run_batch_scratch:
  assumes "\<And>i r d. i < n \<Longrightarrow> query z i = Inr (r, d) \<Longrightarrow> d = z"
  shows "bindE (run_batch query thread (\<lambda>_. z) n) (\<lambda>(rs, _). Inr rs) =
    mapE (\<lambda>i. bindE (query z i) (\<lambda>(r, _). Inr r)) [0..<n]"
proof -
  let ?f = "\<lambda>(rs, bufs) i. bindE (query (bufs (thread i)) i) (\<lambda>(r, d). Inr (rs @ [r], bufs(thread i := d)))"
  have "foldE ?f (rs, \<lambda>_. z) is1 = bindE (mapE (\<lambda>i. bindE (query z i) (\<lambda>(r, _). Inr r)) is1) (\<lambda>rs'. Inr (rs @ rs', \<lambda>_. z))"
    if "\<forall>i \<in> set is1. i < n" for rs is1
    using that
  proof (induction is1 arbitrary: rs)
    case (Cons i is1)
    show ?case
    proof (cases "query z i")
      case (Inr p)
      then have "snd p = z" using assms [of i "fst p" "snd p"] Cons.prems by simp
      then have p: "query z i = Inr (fst p, z)" using Inr by (metis prod.collapse)
      have "(\<lambda>_. z)(thread i := z) = (\<lambda>_. z)" by auto
      then show ?thesis
        using Cons p by (simp add: bindE_assoc)
    qed simp
  qed simp
  from this [of "[0..<n]" "[]"] show ?thesis
    by (cases "mapE (\<lambda>i. bindE (query z i) (\<lambda>(r, _). Inr r)) [0..<n]") (simp_all add: run_batch_def)
qed

lemma batch_row_lengths: "batch_row indptr indices values i = Inr (ts, ws) \<Longrightarrow> length ws = length ts"
  by (auto simp: batch_row_def Let_def take_elems_def err_simps split: if_splits)

lemma se_single_query_scratch:
  assumes "se_single_query enc dec conv v cls ts ws cuts k hf sel (replicate n 0) = Inr (r, d)" and "length ws = length ts"
  shows "d = replicate n 0"
proof (cases "num_vectors v = 0")
  case False
  then obtain dense where dense: "foldE (\<lambda>d (t, w). store t w d) (replicate n 0) (zip ts ws) = Inr dense"
    "foldE (\<lambda>d t. store t 0 d) dense ts = Inr d"
    using assms(1) by (auto simp: se_single_query_def err_simps Let_def split: prod.splits) (metis surj_pair)
  then show ?thesis using clear_stores [OF dense(1) assms(2)] by simp
qed (use assms(1) in \<open>simp add: se_single_query_def\<close>)

text \<open>
  C28: the per-thread scratch does not leak. The dense buffer a thread keeps between its queries is
  zero again after each of them, so which thread takes which query changes neither the results of a
  batch nor whether it fails.
\<close>

theorem seismic_search_thread_independent:
  "se_search enc dec conv of_i thread st n indptr indices values k params =
   se_search enc dec conv of_i thread' st n indptr indices values k params"
proof -
  let ?z = "replicate (nat (se_dimension st)) 0"
  let ?q = "\<lambda>v q_cut hf sel dense i. bindE (batch_row indptr indices values i) (\<lambda>(q_idx, q_val).
      bindE (top_k_tokens q_idx q_val q_cut) (\<lambda>cuts.
      se_single_query enc dec conv v (se_lists st) q_idx q_val cuts k hf sel dense))"
  have "d = ?z" if q: "?q v q_cut hf sel ?z i = Inr (r, d)" for v q_cut hf sel i r d
  proof -
    obtain ts ws cuts where "batch_row indptr indices values i = Inr (ts, ws)"
      "se_single_query enc dec conv v (se_lists st) ts ws cuts k hf sel ?z = Inr (r, d)"
      using q by (auto simp: err_simps)
    then show ?thesis using se_single_query_scratch batch_row_lengths by blast
  qed
  then have eq: "bindE (run_batch (?q v q_cut hf sel) thread (\<lambda>_. ?z) (nat n)) (\<lambda>(rs, _). Inr rs) =
      bindE (run_batch (?q v q_cut hf sel) thread' (\<lambda>_. ?z) (nat n)) (\<lambda>(rs, _). Inr rs)" for v q_cut hf sel
    using run_batch_scratch [of "nat n" "?q v q_cut hf sel" ?z] by (metis (lifting))
  show ?thesis
  proof (cases "se_vectors st")
    case (Some v)
    obtain q_cut hf where p: "seismic_cut_and_factor params = (q_cut, hf)" by (cases "seismic_cut_and_factor params")
    show ?thesis
      unfolding se_search_def Some option.case p Let_def prod.case
      by (simp only: eq)
  qed (simp add: se_search_def)
qed

section \<open>The search is exact when summaries bound their documents\<close>

lemma row_entries_holds:
  assumes v: "holds_docs dec docs v" and d: "in_corpus docs d"
  shows "row_entries dec v d = Inr (docs ! nat d)"
proof -
  let ?ip = "buf_elems (sv_indptr v)" and ?ix = "buf_elems (sv_indices v)" and ?vs = "buf_elems (sv_values v)"
  have wf: "sv_content_wf v" and es: "sv_element_size v = 4" using v by (auto simp: holds_docs_def)
  have i: "nat d < length docs" using d by (simp add: in_corpus_def nat_less_iff)
  note r = holds_docs_row [OF v i]
  have n: "0 < num_vectors v" using r(1) by simp
  note w = sv_rows_wf [OF wf n]
  have i1: "nat d + 1 < length ?ip" using w(2) r(1) by simp
  note b = csr_row_bounds [OF w(1) i1]
  define s where "s = nat (?ip ! nat d)"
  define e where "e = nat (?ip ! (nat d + 1))"
  have e: "s \<le> e" "e \<le> length ?ix" using b(2,3) by (simp_all add: s_def e_def)
  have vs: "length ?vs = length ?ix * 4" using w(1) es by (simp add: csr_wf_def)
  have le: "e * 4 \<le> length ?vs" using vs e by simp
  have "decode_array dec 4 (e - s) (slice (s * 4) (e * 4) ?vs) =
      map (\<lambda>j. dec (code_at 4 (slice (s * 4) (e * 4) ?vs) j)) [0..<e - s]"
    by (rule decode_array_code_at) (use le e in \<open>simp add: slice_def diff_mult_distrib\<close>)
  also have "\<dots> = map (\<lambda>j. dec (code_at 4 ?vs (s + j))) [0..<e - s]"
    by (rule map_cong) (use code_at_slice [of s _ e 4 ?vs] le in auto)
  finally have dec: "decode_array dec 4 (e - s) (slice (s * 4) (e * 4) ?vs) =
      map (\<lambda>j. dec (code_at 4 ?vs (s + j))) [0..<e - s]" .
  have "docs ! nat d = zip (slice s e ?ix) (map (\<lambda>j. dec (code_at 4 ?vs (s + j))) [0..<e - s])"
    unfolding r(3) [symmetric] by (simp only: query_row_def Let_def s_def [symmetric] e_def [symmetric] dec fst_conv snd_conv)
  also have "\<dots> = map (\<lambda>j. (?ix ! j, dec (code_at 4 ?vs j))) [s..<e]"
    by (rule nth_equalityI) (use e in \<open>auto simp: slice_nth slice_def\<close>)
  also have "\<dots> = row_of dec v d" by (simp add: row_of_def es s_def e_def)
  finally have "docs ! nat d = row_of dec v d" .
  moreover have "valid_doc v d" using d r(1) by (simp add: valid_doc_def in_corpus_def)
  ultimately show ?thesis using row_entries_ok [OF wf] by simp
qed

lemma float_score_of_dot:
  fixes docs :: "'w :: linordered_idom doc list"
  assumes v: "holds_docs dec docs v" and docs: "docs_wf n docs" and d: "in_corpus docs d"
    and q: "distinct (map fst q)"
  shows "float_score_of dec v (densify n (map fst q) (map snd q)) d = Inr (dot q (docs ! nat d))"
proof -
  have i: "nat d < length docs" using d by (simp add: in_corpus_def nat_less_iff)
  have row: "distinct (map fst (docs ! nat d))" "\<forall>t \<in> set (map fst (docs ! nat d)). t < n"
    using docs i by (auto simp: docs_wf_def)
  show ?thesis
    using dot_product_float_dense_eq [of "map fst (docs ! nat d)" "densify n (map fst q) (map snd q)" "map snd (docs ! nat d)"]
      row sparse_dense_densify [OF q row]
    by (simp add: float_score_of_def row_entries_holds [OF v d] zip_map_fst_snd)
qed

text \<open>The summaries of a list bound its documents for a query.\<close>

definition bounds_query ::
  "('w \<Rightarrow> byte list) \<Rightarrow> (byte list \<Rightarrow> 'w) \<Rightarrow> (nat \<Rightarrow> 'w) \<Rightarrow> 'w :: linordered_idom doc list \<Rightarrow> 'w \<Rightarrow> 'w doc \<Rightarrow>
     clusters \<Rightarrow> bool" where
  "bounds_query enc dec conv docs heap_factor q cl \<longleftrightarrow>
     (\<exists>scores. score_summaries_transposed dec conv cl (map fst q) (encode_array enc (map snd q)) = Inr scores \<and>
        list_bounded cl scores (\<lambda>d. dot q (docs ! nat d)) heap_factor (in_corpus docs))"

lemma query_list_inv:
  fixes docs :: "'w :: linordered_idom doc list"
  assumes v: "holds_docs dec docs v" and docs: "docs_wf n docs" and q: "distinct (map fst q)"
    and b: "bounds_query enc dec conv docs hf q cl" and hf: "0 \<le> hf"
    and inv: "walk_inv k (\<lambda>d. dot q (docs ! nat d)) (selected_by sel) seen st"
  shows "\<exists>st'. query_single_inverted_list enc dec conv v cl (densify n (map fst q) (map snd q)) (map fst q) (map snd q)
      hf first sel st = Inr st' \<and>
    walk_inv k (\<lambda>d. dot q (docs ! nat d)) (selected_by sel) (set (list_docs cl) \<union> seen) st'"
proof (cases "cl_n_clusters cl = 0")
  case True
  then show ?thesis using inv by (simp add: query_single_inverted_list_def list_docs_def)
next
  case False
  obtain scores where sc: "score_summaries_transposed dec conv cl (map fst q) (encode_array enc (map snd q)) = Inr scores"
    "list_bounded cl scores (\<lambda>d. dot q (docs ! nat d)) hf (in_corpus docs)"
    using b by (auto simp: bounds_query_def)
  show ?thesis
    using walk_bounded_list [OF inv hf sc(2) float_score_of_dot [OF v docs _ q], of first] False sc(1)
    by (simp add: query_single_inverted_list_def)
qed

lemma se_single_query_best:
  fixes docs :: "'w :: linordered_idom doc list"
  assumes v: "holds_docs dec docs v" and docs: "docs_wf n docs" and n: "0 < length docs"
    and q: "distinct (map fst q)" "\<forall>t \<in> set (map fst q). t < n" and k: "0 < k" and hf: "0 \<le> hf"
    and b: "\<forall>cl \<in> set cls. bounds_query enc dec conv docs hf q cl"
  shows "\<exists>r. se_single_query enc dec conv v cls (map fst q) (map snd q) cuts k hf sel (replicate n 0) =
      Inr (r, replicate n 0) \<and>
    best_of k (map (\<lambda>d. (dot q (docs ! nat d), d)) (filter (selected_by sel) (visited_docs cls cuts))) r"
proof -
  let ?s = "\<lambda>d. dot q (docs ! nat d)" and ?d = "densify n (map fst q) (map snd q)"
  have dense: "foldE (\<lambda>d (t, w). store t w d) (replicate n 0) (zip (map fst q) (map snd q)) = Inr ?d"
    unfolding densify_def by (rule foldE_stores_ok) (use q(2) in \<open>auto simp: zip_map_fst_snd\<close>)
  obtain h where h: "topk_new k = Inr (h :: ('w, idx_t) topk_holder)"
    using k by (simp add: topk_new_def throw_if_not_positive_def)
  have nv: "num_vectors v \<noteq> 0" using holds_docs_row(1) [OF v n] by simp
  have step: "\<exists>st'. query_single_inverted_list enc dec conv v (cls ! t) ?d (map fst q) (map snd q) hf first sel st = Inr st' \<and>
      walk_inv (nat k) ?s (selected_by sel) (set (list_docs (cls ! t)) \<union> seen) st'"
    if "t < length cls" "walk_inv (nat k) ?s (selected_by sel) seen st" for t first st seen
    by (rule query_list_inv [OF v docs q(1) _ hf that(2)]) (use b that(1) in simp)
  have "\<exists>st first. foldE (\<lambda>(st, first) t. if t \<ge> length cls then Inr (st, first)
      else bindE (query_single_inverted_list enc dec conv v (cls ! t) ?d (map fst q) (map snd q) hf first sel st)
             (\<lambda>st. Inr (st, False))) ((h, []), True) cuts = Inr (st, first) \<and>
    walk_inv (nat k) ?s (selected_by sel) ((\<Union>t \<in> set cuts \<inter> {..<length cls}. set (list_docs (cls ! t))) \<union> {}) st"
    by (rule walk_lists_inv [OF walk_inv_new [OF h]], rule step)
  then obtain st first where st: "foldE (\<lambda>(st, first) t. if t \<ge> length cls then Inr (st, first)
      else bindE (query_single_inverted_list enc dec conv v (cls ! t) ?d (map fst q) (map snd q) hf first sel st)
             (\<lambda>st. Inr (st, False))) ((h, []), True) cuts = Inr (st, first)"
    "walk_inv (nat k) ?s (selected_by sel) ((\<Union>t \<in> set cuts \<inter> {..<length cls}. set (list_docs (cls ! t))) \<union> {}) st"
    by (elim exE conjE) (rule that)
  obtain holder visited where s: "st = (holder, visited)" by (cases st)
  have inv: "walk_inv (nat k) ?s (selected_by sel) (set (visited_docs cls cuts)) (holder, visited)"
    using st(2) by (simp add: s set_visited_docs)
  obtain scores ids where items: "topk_items_descending holder = (scores, ids)"
    by (cases "topk_items_descending holder")
  have "distinct (visited_docs cls cuts)" by (simp add: visited_docs_def)
  from walk_best [OF inv this items] show ?thesis
    using nv clear_stores [OF dense] by (simp add: se_single_query_def dense h st(1) s items)
qed

lemma batch_row_docs:
  assumes b: "batch_ok enc dec (ip, ix, vs)" and i: "i < length (batch_docs (ip, ix, vs))"
  shows "batch_row ip ix vs i = Inr (map fst (batch_docs (ip, ix, vs) ! i), map snd (batch_docs (ip, ix, vs) ! i))"
proof -
  have wf: "csr_wf 1 ip ix vs" using b by (simp add: batch_ok_def)
  have i1: "i + 1 < length ip" using i by (simp add: batch_docs_def csr_rows_def)
  define s where "s = nat (ip ! i)"
  define e where "e = nat (ip ! (i + 1))"
  note r = csr_row_bounds [OF wf i1, folded s_def e_def]
  have len: "length vs = length ix" using wf by (simp add: csr_wf_def)
  have q: "batch_docs (ip, ix, vs) ! i = zip (slice s e ix) (slice s e vs)"
    using i1 by (simp add: batch_docs_def csr_rows_def nth_tl s_def e_def)
  have n: "nat (ip ! (i + 1) - ip ! i) = e - s" using r by (simp add: s_def e_def nat_diff_distrib')
  have l: "length (slice s e ix) = length (slice s e vs)" by (simp add: slice_def len)
  have fit: "e - s \<le> length (drop s ix)" "e - s \<le> length (drop s vs)" using r len by simp_all
  show ?thesis
    unfolding q using i1 n fit l
    by (simp add: batch_row_def read_at_def Let_def take_elems_def slice_def s_def [symmetric])
qed

lemma top_k_tokens_ok: "0 < q_cut \<Longrightarrow> \<exists>cuts. top_k_tokens ts (ws :: 'w :: linorder list) q_cut = Inr cuts"
  by (cases "q_cut \<ge> int (length ts)") (simp_all add: top_k_tokens_def topk_new_def throw_if_not_positive_def)

text \<open>
  C2: exact answers. Let the corpus be at most the documents of \<open>docs\<close>, and let the summaries bound
  the documents of their clusters for every query of the batch: no document of a cluster scores more
  than the cluster's summary times the heap factor. Then whatever clusters are skipped or cut short,
  each query is answered with the \<open>k\<close> best dot products of the selected documents of the lists its
  heaviest terms name, each document once, padded with -1 and the invalid id.
\<close>

theorem seismic_search_exact:
  fixes docs :: "'w :: linordered_idom doc list"
  assumes "se_vectors st = Some v" and "holds_docs dec docs v" and "docs_wf (nat (se_dimension st)) docs" and "docs \<noteq> []"
    and "batch_ok enc dec (ip, ix, vs)" and "docs_wf (nat (se_dimension st)) (batch_docs (ip, ix, vs))" and "0 < k"
    and "seismic_cut_and_factor params = (q_cut, hf)" and "0 < q_cut" and "0 \<le> hf"
    and "\<not> should_run_exact_match (params_selector params) k"
    and "\<forall>q \<in> set (batch_docs (ip, ix, vs)). \<forall>cl \<in> set (se_lists st). bounds_query enc dec conv docs hf q cl"
  shows "\<exists>results. se_search enc dec conv of_i thread st (int (length ip) - 1) ip ix vs k params = Inr results \<and>
    list_all2 (\<lambda>q r. \<exists>cuts. top_k_tokens (map fst q) (map snd q) q_cut = Inr cuts \<and>
      best_of k (map (\<lambda>d. (dot q (docs ! nat d), d))
        (filter (selected_by (params_selector params)) (visited_docs (se_lists st) cuts))) r)
      (batch_docs (ip, ix, vs)) results"
proof -
  let ?qs = "batch_docs (ip, ix, vs)" and ?z = "replicate (nat (se_dimension st)) 0"
  let ?sel = "params_selector params"
  let ?best = "\<lambda>q r. \<exists>cuts. top_k_tokens (map fst q) (map snd q) q_cut = Inr cuts \<and>
      best_of k (map (\<lambda>d. (dot q (docs ! nat d), d)) (filter (selected_by ?sel) (visited_docs (se_lists st) cuts))) r"
  let ?q = "\<lambda>dense i. bindE (batch_row ip ix vs i) (\<lambda>(q_idx, q_val). bindE (top_k_tokens q_idx q_val q_cut) (\<lambda>cuts.
      se_single_query enc dec conv v (se_lists st) q_idx q_val cuts k hf ?sel dense))"
  have len: "length ?qs = nat (int (length ip) - 1)" "int (length ip) - 1 \<noteq> 0"
    using assms(5) by (auto simp: batch_docs_def csr_rows_def batch_ok_def)
  have each: "\<exists>r. ?q ?z i = Inr (r, ?z) \<and> ?best (?qs ! i) r" if i: "i < length ?qs" for i
  proof -
    let ?d = "?qs ! i"
    obtain cuts where cuts: "top_k_tokens (map fst ?d) (map snd ?d) q_cut = Inr cuts"
      using top_k_tokens_ok [OF assms(9)] by blast
    have "distinct (map fst ?d)" "\<forall>t \<in> set (map fst ?d). t < nat (se_dimension st)"
      using assms(6) i by (auto simp: docs_wf_def)
    from se_single_query_best [OF assms(2,3) _ this assms(7,10)] assms(4,12) i show ?thesis
      using batch_row_docs [OF assms(5) i] cuts by force
  qed
  then have scratch: "d = ?z" if "i < nat (int (length ip) - 1)" "?q ?z i = Inr (r, d)" for i r d
    using that len(1) by fastforce
  have run: "\<exists>r. bindE (?q ?z i) (\<lambda>(r, _). Inr r) = Inr r \<and> ?best (?qs ! i) r" if "i < length ?qs" for i
    using each [OF that] by force
  obtain results where "mapE (\<lambda>i. bindE (?q ?z i) (\<lambda>(r, _). Inr r)) [0..<nat (int (length ip) - 1)] = Inr results"
    "list_all2 ?best ?qs results"
    using mapE_list_all2 [of ?qs "\<lambda>i. bindE (?q ?z i) (\<lambda>(r, _). Inr r)" ?best, OF run] len(1) by auto
  then have "bindE (run_batch ?q thread (\<lambda>_. ?z) (nat (int (length ip) - 1))) (\<lambda>(rs, _). Inr rs) = Inr results"
    using run_batch_scratch [of "nat (int (length ip) - 1)" ?q ?z thread, OF scratch] by simp
  then have "se_search enc dec conv of_i thread st (int (length ip) - 1) ip ix vs k params = Inr results"
    unfolding se_search_def assms(1,8) option.case Let_def prod.case if_not_P [OF len(2)] if_not_P [OF assms(11)] .
  then show ?thesis using \<open>list_all2 ?best ?qs results\<close> by blast
qed

theorem seismic_search_exact_witness:
  "\<exists>(v :: sparse_vectors) cl results. list_docs cl = [0, 1] \<and>
    se_search idx_bytes int_of_bytes int id (\<lambda>_. 0)
      \<lparr>se_dimension = 2, se_vectors = Some v, se_lists = [cl_default, cl],
        se_params = kDefaultSeismicClusterParams 1, se_spill = sp_new\<rparr> 1 [0, 1] [1] [4] 1 None = Inr results \<and>
    list_all2 (\<lambda>q r. best_of 1 [(20, 0), (8, 1)] r) [[(1 :: nat, 4 :: int)]] results"
proof -
  let ?b = "([0, 2, 3], [0, 1, 1], [3, 5, 2]) :: int batch" and ?q = "([0, 1], [1], [4]) :: int batch"
  let ?cl = "\<lparr>cl_n_clusters = 1, cl_element_size = 4, cl_docs = buf_own [0, 1], cl_offsets = buf_own [0, 2],
    cl_term_ids = buf_own [1], cl_term_ptr = buf_own [0, 1], cl_csc_cluster = buf_own [0],
    cl_csc_value = buf_own (idx_bytes 5)\<rparr>"
  have codes: "codes_exactly idx_bytes int_of_bytes vs" if "\<forall>x \<in> set vs. 0 \<le> x \<and> x < 100" for vs
    using that by (auto simp: codes_exactly_def intro!: idx_codec.dec_enc simp: is_i32_def)
  have b: "batch_ok idx_bytes int_of_bytes ?b" "batch_ok idx_bytes int_of_bytes ?q"
    by (simp_all add: batch_ok_def csr_wf_def codes SIZE_MAX_def)
  have d: "batch_docs ?b = [[(0, 3), (1, 5)], [(1, 2)]]" "batch_docs ?q = [[(1, 4)]]"
    by (simp_all add: batch_docs_def csr_rows_def slice_def)
  have two: "(0 :: int) < 2" "is_i32 2" by (simp_all add: is_i32_def)
  obtain v where v: "holds_docs int_of_bytes (batch_docs ?b) v"
    using query_matrix_ok [OF b(1) two] by (elim exE conjE) (rule that)
  let ?st = "\<lparr>se_dimension = 2, se_vectors = Some v, se_lists = [cl_default, ?cl],
        se_params = kDefaultSeismicClusterParams (1 :: int), se_spill = sp_new\<rparr>"
  have wf: "docs_wf (nat (se_dimension ?st)) (batch_docs ?b)" "docs_wf (nat (se_dimension ?st)) (batch_docs ?q)"
    unfolding d by (simp_all add: docs_wf_def)
  have ne: "batch_docs ?b \<noteq> []" unfolding d by simp
  have len: "length (idx_bytes x) = 4" for x by (rule idx_codec.length_enc)
  have five: "int_of_bytes (idx_bytes 5) = 5" "int_of_bytes (idx_bytes 4) = 4"
    by (rule idx_codec.dec_enc, simp add: is_i32_def)+
  have four: "encode_array idx_bytes [4] = idx_bytes 4" by (simp add: encode_array_def)
  have lb: "lower_bound [1] (1 :: nat) = 0" by (simp add: lower_bound_def lower_bound_from.simps)
  have score: "score_summaries_transposed int_of_bytes int ?cl (map fst [(1, 4)]) (encode_array idx_bytes (map snd [(1, 4 :: int)])) = Inr [20]"
    by (simp add: score_summaries_transposed_def score_summaries_typed_def score_term_def buf_empty_def buf_size_def
        lb [simplified] value_at_def U32_def buf_get_def read_at_def store_def len five four Let_def)
  have docs: "get_docs ?cl 0 = Inr [0, 1]"
    by (simp add: get_docs_def doc_span_def buf_size_def take_elems_def)
  have bound: "bounds_query idx_bytes int_of_bytes int (batch_docs ?b) 1 [(1, 4)] cl" if "cl \<in> set [cl_default, ?cl]" for cl
  proof (cases "cl = cl_default")
    case True
    then show ?thesis
      by (simp add: bounds_query_def list_bounded_def score_summaries_transposed_def cl_default_def)
  next
    case False
    then have "cl = ?cl" using that by simp
    then show ?thesis using docs unfolding bounds_query_def d
      by (intro exI [of _ "[20]"]) (simp add: score [simplified] list_bounded_def in_corpus_def dot_def)
  qed
  have h: "\<forall>q \<in> set (batch_docs ?q). \<forall>cl \<in> set (se_lists ?st). bounds_query idx_bytes int_of_bytes int (batch_docs ?b) 1 q cl"
    using bound unfolding d by simp
  have p: "seismic_cut_and_factor (None :: int search_params option) = (10, 1)" "\<not> should_run_exact_match (params_selector (None :: int search_params option)) 1"
    by (simp_all add: seismic_cut_and_factor_def should_run_exact_match_def params_selector_def)
  have e: "(0 :: int) < 1" "(0 :: int) < 10" "(0 :: int) \<le> 1" "se_vectors ?st = Some v" by simp_all
  have l: "list_docs ?cl = [0, 1]" using docs by (simp add: list_docs_def)
  have vis: "visited_docs (se_lists ?st) [1] = [0, 1]" using l by (simp add: visited_docs_def)
  obtain results where r: "se_search idx_bytes int_of_bytes int id (\<lambda>_. 0) ?st (int (length [0, 1 :: int]) - 1) [0, 1] [1] [4] 1 None = Inr results"
    "list_all2 (\<lambda>q r. \<exists>cuts. top_k_tokens (map fst q) (map snd q) 10 = Inr cuts \<and>
      best_of 1 (map (\<lambda>d. (dot q (batch_docs ?b ! nat d), d))
        (filter (selected_by (params_selector (None :: int search_params option))) (visited_docs (se_lists ?st) cuts))) r) (batch_docs ?q) results"
    using seismic_search_exact [OF e(4) v wf(1) ne b(2) wf(2) e(1) p(1) e(2,3) p(2) h, of id "\<lambda>_. 0"]
    by (elim exE conjE) (rule that)
  have "list_all2 (\<lambda>q r. best_of 1 [(20, 0), (8, 1)] r) [[(1 :: nat, 4 :: int)]] results"
    using r(2) vis unfolding d by (auto simp: list_all2_Cons1 top_k_tokens_def selected_by_def params_selector_def dot_def)
  then show ?thesis using r(1) l by (intro exI [of _ v] exI [of _ ?cl] exI [of _ results]) simp
qed

section \<open>The file\<close>

definition same_seismic :: "'w seismic_index \<Rightarrow> 'w seismic_index \<Rightarrow> bool" where
  "same_seismic st st' \<longleftrightarrow> se_dimension st' = se_dimension st \<and>
     rel_option same_content (se_vectors st) (se_vectors st') \<and> list_all2 same_clusters (se_lists st) (se_lists st')"

definition se_wire :: "'w seismic_index \<Rightarrow> bool" where
  "se_wire st \<longleftrightarrow> (\<exists>v. se_vectors st = Some v \<and> sv_wire v \<and> 0 < num_vectors v \<and> sv_element_size v = U32) \<and>
     (\<forall>cl \<in> set (se_lists st). cl_wire cl) \<and> length (se_lists st) \<le> SIZE_MAX"

lemma same_content_num: "same_content v v' \<Longrightarrow> num_vectors v' = num_vectors v"
  by (simp add: same_content_def num_vectors_def buf_empty_def buf_size_def)

lemma same_content_size_ok:
  assumes "same_content v v'" and "sv_element_size v = n" and "0 < num_vectors v"
  shows "throw_if_element_size_mismatch n msg v' = Inr ()"
  using assms by (simp add: throw_if_element_size_mismatch_def same_content_def throw_if_def)

lemma se_read_round_trip:
  assumes "se_wire st"
  shows "round_trips mk_reader (se_write_index st) (se_read_index (se_new (se_dimension st) params)) (same_seismic st)"
proof -
  obtain v where v: "se_vectors st = Some v" "sv_wire v" "0 < num_vectors v" "sv_element_size v = U32"
    and cls: "\<forall>cl \<in> set (se_lists st). cl_wire cl" "length (se_lists st) \<le> SIZE_MAX"
    using assms by (auto simp: se_wire_def)
  let ?msg = "''index file's element size is not the seismic index's''" and ?st = "se_new (se_dimension st) params"
  let ?d2 = "\<lambda>v' r. bindE (throw_if_element_size_mismatch U32 ?msg v') (\<lambda>_.
     let st' = (if num_vectors v' > 0 then ?st\<lparr>se_vectors := Some v'\<rparr> else ?st)
     in bindE (slw_deserialize r) (\<lambda>(cls, r). Inr (st'\<lparr>se_lists := cls\<rparr>, r)))"
  have "round_trips mk_reader (slw_serialize False (se_lists st)) (?d2 v') (same_seismic st)"
    if "same_content v v' \<and> sv_growable v'" for v'
  proof -
    have c: "same_content v v'" using that by simp
    have "round_trips mk_reader (slw_serialize False (se_lists st))
        (\<lambda>r. bindE (slw_deserialize r) (\<lambda>(cls, r). Inr (?st\<lparr>se_vectors := Some v', se_lists := cls\<rparr>, r))) (same_seismic st)"
      by (rule round_trips_map [OF slw_round_trip [OF cls, of False]]) (simp add: same_seismic_def se_new_def v(1) c)
    then show ?thesis
      using v(3) by (simp add: same_content_size_ok [OF c v(4,3)] same_content_num [OF c])
  qed
  from round_trips_bind [where ?d2.0 = ?d2, OF sv_round_trip [OF v(2,3), of sv_default] this]
  moreover have "se_write_index st = (\<lambda>w. bindE (sv_serialize v w) (slw_serialize False (se_lists st)))"
    "se_read_index ?st = (\<lambda>r. bindE (sv_deserialize sv_default r) (\<lambda>(v', r'). ?d2 v' r'))"
    by (intro ext, simp add: se_write_index_def se_read_index_def v(1))+
  ultimately show ?thesis by simp
qed

lemma se_map_round_trip:
  assumes "se_wire st" and "8 dvd base"
  shows "round_trips (mk_cursor base) (se_write_index st) (se_map_payload (se_new (se_dimension st) params)) (same_seismic st)"
proof -
  obtain v where v: "se_vectors st = Some v" "sv_wire v" "0 < num_vectors v" "sv_element_size v = U32"
    and cls: "\<forall>cl \<in> set (se_lists st). cl_wire cl" "length (se_lists st) \<le> SIZE_MAX"
    using assms by (auto simp: se_wire_def)
  let ?msg = "''index file's element size is not the seismic index's''" and ?st = "se_new (se_dimension st) params"
  let ?d2 = "\<lambda>v' c. bindE (throw_if_element_size_mismatch U32 ?msg v') (\<lambda>_.
     bindE (slw_mmap_deserialize c) (\<lambda>(cls, c).
     let st' = ?st\<lparr>se_lists := cls\<rparr>
     in Inr (if num_vectors v' > 0 then st'\<lparr>se_vectors := Some v'\<rparr> else st', c)))"
  have "round_trips (mk_cursor base) (slw_serialize False (se_lists st)) (?d2 v') (same_seismic st)"
    if c: "same_content v v'" for v'
  proof -
    have "round_trips (mk_cursor base) (slw_serialize False (se_lists st))
        (\<lambda>c. bindE (slw_mmap_deserialize c) (\<lambda>(cls, c). Inr (?st\<lparr>se_lists := cls, se_vectors := Some v'\<rparr>, c))) (same_seismic st)"
      by (rule round_trips_map [OF slw_map_round_trip [OF cls assms(2), of False]]) (simp add: same_seismic_def se_new_def v(1) c)
    then show ?thesis
      using v(3) by (simp add: same_content_size_ok [OF c v(4,3)] same_content_num [OF c])
  qed
  from round_trips_bind [where ?d2.0 = ?d2, OF sv_map_round_trip [OF v(2,3) assms(2)] this]
  moreover have "se_write_index st = (\<lambda>w. bindE (sv_serialize v w) (slw_serialize False (se_lists st)))"
    "se_map_payload ?st = (\<lambda>c. bindE (sv_mmap_deserialize (Some c)) (\<lambda>(v', c'). ?d2 v' c'))"
    by (intro ext, simp add: se_write_index_def se_map_payload_def v(1))+
  ultimately show ?thesis by simp
qed

text \<open>A search reads only what the file keeps.\<close>

lemma same_content_rows:
  "same_content v v' \<Longrightarrow> 0 < num_vectors v \<Longrightarrow> row_entries dec v' d = row_entries dec v d"
  by (simp add: row_entries_def same_content_def)

lemma se_single_query_same:
  assumes "same_content v v'" and "list_all2 same_clusters cls cls'"
  shows "se_single_query enc dec conv v' cls' ts ws cuts k hf sel dense = se_single_query enc dec conv v cls ts ws cuts k hf sel dense"
proof (cases "num_vectors v = 0")
  case False
  have len: "length cls' = length cls" using list_all2_lengthD [OF assms(2)] by simp
  have score: "float_score_of dec v' d = float_score_of dec v d" for d
    using False by (intro ext) (simp add: float_score_of_def same_content_rows [OF assms(1)])
  have "query_single_inverted_list enc dec conv v' (cls' ! t) d ts ws hf first sel st =
      query_single_inverted_list enc dec conv v (cls ! t) d ts ws hf first sel st" if "t < length cls" for t d first st
  proof -
    have c: "same_clusters (cls ! t) (cls' ! t)" using assms(2) that by (rule list_all2_nthD)
    then show ?thesis
      by (simp add: query_single_inverted_list_def same_clusters_scores [OF c] ext [where f = "get_docs (cls' ! t)", OF same_clusters_docs [OF c]] score)
        (simp add: same_clusters_def)
  qed
  then have "(\<lambda>(st, first_list) t. if t \<ge> length cls' then Inr (st, first_list)
      else bindE (query_single_inverted_list enc dec conv v' (cls' ! t) d ts ws hf first_list sel st) (\<lambda>st. Inr (st, False))) =
    (\<lambda>(st, first_list) t. if t \<ge> length cls then Inr (st, first_list)
      else bindE (query_single_inverted_list enc dec conv v (cls ! t) d ts ws hf first_list sel st) (\<lambda>st. Inr (st, False)))" for d
    by (intro ext) (auto simp: len)
  then show ?thesis
    unfolding se_single_query_def same_content_num [OF assms(1)] by presburger
qed (simp add: se_single_query_def same_content_num [OF assms(1)])

lemma exact_search_same:
  assumes "same_content v v'"
  shows "exact_search dec of_i v' ids qs es k = exact_search dec of_i v ids qs es k"
  using assms same_content_num [OF assms]
  by (simp add: exact_search_def exact_single_query_def same_content_def cong: if_cong)

lemma se_search_same:
  assumes s: "same_seismic st st'" and "se_vectors st \<noteq> None"
  shows "se_search enc dec conv of_i thread st' n ip ix vs k p = se_search enc dec conv of_i thread st n ip ix vs k p"
proof -
  obtain v v' where v: "se_vectors st = Some v" "se_vectors st' = Some v'" "same_content v v'"
    using s assms(2) by (auto simp: same_seismic_def option_rel_Some1)
  have l: "list_all2 same_clusters (se_lists st) (se_lists st')" "se_dimension st' = se_dimension st"
    using s by (simp_all add: same_seismic_def)
  have single: "se_single_query enc dec conv v' (se_lists st') = se_single_query enc dec conv v (se_lists st)"
    by (intro ext) (rule se_single_query_same [OF v(3) l(1)])
  show ?thesis
    unfolding se_search_def v(1,2) option.case l(2) single exact_search_same [OF v(3)] ..
qed

text \<open>
  C6: a \<open>SeismicIndex\<close> written with \<open>write_index\<close> is the same index when it is read back, into
  owned buffers by \<open>read_index\<close> or mapped in place by \<open>mmap_index\<close>: the same corpus and the same
  clusters. Every search of the same index gives the same results, bit for bit, floats included.
\<close>

theorem seismic_index_file_round_trip:
  assumes "se_wire st" and "8 dvd base"
  shows "round_trips mk_reader (se_write_index st) (se_read_index (se_new (se_dimension st) params)) (same_seismic st) \<and>
    round_trips (mk_cursor base) (se_write_index st) (se_map_payload (se_new (se_dimension st) params)) (same_seismic st) \<and>
    (\<forall>st' enc dec conv of_i thread n ip ix (vs :: 'w :: {zero, one, uminus, plus, times, ord} list) k p. same_seismic st st' \<longrightarrow>
      se_search enc dec conv of_i thread st' n ip ix vs k p = se_search enc dec conv of_i thread st n ip ix vs k p)"
proof -
  have "se_vectors st \<noteq> None" using assms(1) by (auto simp: se_wire_def)
  then show ?thesis using se_read_round_trip [OF assms(1)] se_map_round_trip [OF assms] se_search_same by blast
qed

theorem seismic_index_file_round_trip_witness:
  "round_trips (mk_cursor 4096)
     (se_write_index \<lparr>se_dimension = 9, se_vectors = Some \<lparr>sv_indptr = buf_own [0, 1], sv_indices = buf_own [4],
        sv_values = buf_own [1, 2, 3, 4], sv_element_size = 4, sv_dimension = 9\<rparr>, se_lists = [cl_new [[4, 2], [7]]],
        se_params = kDefaultSeismicClusterParams (1 :: int), se_spill = sp_new\<rparr>)
     (se_map_payload (se_new 9 (kDefaultSeismicClusterParams (1 :: int))))
     (\<lambda>st. list_all2 same_clusters [cl_new [[4, 2], [7]]] (se_lists st))"
proof -
  let ?st = "\<lparr>se_dimension = 9, se_vectors = Some \<lparr>sv_indptr = buf_own [0, 1], sv_indices = buf_own [4],
        sv_values = buf_own [1, 2, 3, 4], sv_element_size = 4, sv_dimension = 9\<rparr>, se_lists = [cl_new [[4, 2], [7]]],
        se_params = kDefaultSeismicClusterParams (1 :: int), se_spill = sp_new\<rparr>"
  have "cl_wire (cl_new [[4, 2], [7]])"
    by (simp add: cl_wire_def cl_new_def cl_default_def U32_def SIZE_MAX_def vector_max_size_def is_i32_def i32_def)
  then have w: "se_wire ?st" "(8 :: nat) dvd 4096"
    by (simp_all add: se_wire_def sv_wire_def sv_content_wf_def csr_wf_def num_vectors_def buf_empty_def buf_size_def
        U8_def U16_def U32_def U64_def SIZE_MAX_def vector_max_size_def)
  have "round_trips (mk_cursor 4096) (se_write_index ?st) (se_map_payload (se_new 9 (kDefaultSeismicClusterParams 1))) (same_seismic ?st)"
    using seismic_index_file_round_trip [OF w, of "kDefaultSeismicClusterParams 1"] by simp
  then show ?thesis by (rule round_trips_mono) (simp add: same_seismic_def)
qed

end
