(* ===== verification/Scalar_Quantizer.thy ===== *)
theory Scalar_Quantizer
  imports Float32 Stream_IO
begin

text \<open>
  \<^verbatim>\<open>utils/scalar_quantizer.h\<close>: min-max quantization of values to 8 or 16 bits. The values are of any
  type with the arithmetic the code uses; \<open>of_i\<close> converts an integer, \<open>lround\<close> is \<^verbatim>\<open>std::lround\<close> and
  \<open>fin\<close> is \<^verbatim>\<open>std::isfinite\<close>. The code's are \<open>f32_of_int\<close>, \<open>f32_lround\<close> and \<open>f32_finite\<close>; the error bounds are
  those of exact arithmetic, over an ordered field with a floor.
\<close>

section \<open>The quantizer\<close>

datatype quantizer_type = QT_8bit | QT_16bit

record 'w quantizer =
  sq_type :: quantizer_type
  sq_vmin :: 'w
  sq_vmax :: 'w

definition sq_default :: "'w :: {zero, one} quantizer" where
  "sq_default = \<lparr>sq_type = QT_8bit, sq_vmin = 0, sq_vmax = 1\<rparr>"

definition sq_new :: "('w \<Rightarrow> bool) \<Rightarrow> quantizer_type \<Rightarrow> 'w \<Rightarrow> 'w :: ord \<Rightarrow> exn + 'w quantizer" where
  "sq_new fin t lo hi =
     (if \<not> fin lo \<or> \<not> fin hi then Inl (Invalid_argument ''vmin and vmax must be finite'')
      else if hi \<le> lo then Inl (Invalid_argument ''vmax must be greater than vmin'')
      else Inr \<lparr>sq_type = t, sq_vmin = lo, sq_vmax = hi\<rparr>)"

definition bytes_per_value :: "'w quantizer \<Rightarrow> size_t" where
  "bytes_per_value sq = (if sq_type sq = QT_8bit then 1 else 2)"

definition kMax8bit :: int where "kMax8bit = 255"
definition kMax16bit :: int where "kMax16bit = 65535"

text \<open>\<^verbatim>\<open>std::lround\<close> on a float: to the nearest integer, halves away from zero.\<close>

definition f32_lround :: "f32 \<Rightarrow> int" where
  "f32_lround x =
     (let m = f32_sig x; e = f32_scale x
      in if 0 \<le> e then m * 2 ^ nat e
         else sgn m * ((2 * \<bar>m\<bar> + 2 ^ nat (- e)) div (2 * 2 ^ nat (- e))))"

text \<open>
  \<^verbatim>\<open>std::max(0.0F, std::min(kMax, scaled))\<close>, with the argument each returns on a tie or a NaN, then the
  cast to the code's width.
\<close>

definition clamp_code :: "'w \<Rightarrow> 'w :: {zero, ord} \<Rightarrow> 'w" where
  "clamp_code kmax scaled = (let m = (if scaled < kmax then scaled else kmax) in if 0 < m then m else 0)"

definition encode_8bit ::
  "(int \<Rightarrow> 'w) \<Rightarrow> ('w \<Rightarrow> int) \<Rightarrow> 'w quantizer \<Rightarrow> 'w :: {zero, minus, times, inverse, ord} \<Rightarrow> nat" where
  "encode_8bit of_i lround sq val =
     nat (lround (clamp_code (of_i kMax8bit)
       ((val - sq_vmin sq) * (of_i kMax8bit / (sq_vmax sq - sq_vmin sq)))) mod 256)"

definition encode_16bit ::
  "(int \<Rightarrow> 'w) \<Rightarrow> ('w \<Rightarrow> int) \<Rightarrow> 'w quantizer \<Rightarrow> 'w :: {zero, minus, times, inverse, ord} \<Rightarrow> nat" where
  "encode_16bit of_i lround sq val =
     nat (lround (clamp_code (of_i kMax16bit)
       ((val - sq_vmin sq) * (of_i kMax16bit / (sq_vmax sq - sq_vmin sq)))) mod 65536)"

definition decode_8bit :: "(int \<Rightarrow> 'w) \<Rightarrow> 'w quantizer \<Rightarrow> nat \<Rightarrow> 'w :: {plus, minus, times, inverse}" where
  "decode_8bit of_i sq code = sq_vmin sq + of_i (int code) * (sq_vmax sq - sq_vmin sq) / of_i kMax8bit"

definition decode_16bit :: "(int \<Rightarrow> 'w) \<Rightarrow> 'w quantizer \<Rightarrow> nat \<Rightarrow> 'w :: {plus, minus, times, inverse}" where
  "decode_16bit of_i sq code = sq_vmin sq + of_i (int code) * (sq_vmax sq - sq_vmin sq) / of_i kMax16bit"

definition sq_code ::
  "(int \<Rightarrow> 'w) \<Rightarrow> ('w \<Rightarrow> int) \<Rightarrow> 'w quantizer \<Rightarrow> 'w :: {zero, minus, times, inverse, ord} \<Rightarrow> nat" where
  "sq_code of_i lround sq val =
     (if sq_type sq = QT_8bit then encode_8bit of_i lround sq val else encode_16bit of_i lround sq val)"

definition sq_value :: "(int \<Rightarrow> 'w) \<Rightarrow> 'w quantizer \<Rightarrow> nat \<Rightarrow> 'w :: {plus, minus, times, inverse}" where
  "sq_value of_i sq code = (if sq_type sq = QT_8bit then decode_8bit of_i sq code else decode_16bit of_i sq code)"

definition sq_code_bytes ::
  "(int \<Rightarrow> 'w) \<Rightarrow> ('w \<Rightarrow> int) \<Rightarrow> 'w quantizer \<Rightarrow> 'w :: {zero, minus, times, inverse, ord} \<Rightarrow> byte list" where
  "sq_code_bytes of_i lround sq val = le_bytes (bytes_per_value sq) (sq_code of_i lround sq val)"

definition sq_encode ::
  "(int \<Rightarrow> 'w) \<Rightarrow> ('w \<Rightarrow> int) \<Rightarrow> 'w quantizer \<Rightarrow> 'w :: {zero, minus, times, inverse, ord} list \<Rightarrow> byte list" where
  "sq_encode of_i lround sq vals = encode_array (sq_code_bytes of_i lround sq) vals"

definition sq_decode :: "(int \<Rightarrow> 'w) \<Rightarrow> 'w quantizer \<Rightarrow> byte list \<Rightarrow> nat \<Rightarrow> 'w :: {plus, minus, times, inverse} list" where
  "sq_decode of_i sq codes n =
     decode_array (\<lambda>bs. sq_value of_i sq (le_nat bs)) (bytes_per_value sq) n codes"

definition decode_dot_product ::
  "(int \<Rightarrow> 'w) \<Rightarrow> 'w quantizer \<Rightarrow> 'w \<Rightarrow> 'w quantizer \<Rightarrow> 'w :: {minus, times, inverse}" where
  "decode_dot_product of_i sq quantized_score query_sq =
     (let ingest_range = sq_vmax sq - sq_vmin sq;
          query_range = sq_vmax query_sq - sq_vmin query_sq;
          max_q = (if sq_type sq = QT_8bit then of_i kMax8bit else of_i kMax16bit);
          scale = (ingest_range * query_range) / (max_q * max_q)
      in quantized_score * scale)"

section \<open>Exact arithmetic\<close>

text \<open>Rounding half up agrees with \<^verbatim>\<open>std::lround\<close> on what is encoded, which is not negative.\<close>

definition round_half :: "'w :: floor_ceiling \<Rightarrow> int" where
  "round_half x = (if 0 \<le> x then \<lfloor>x + 1 / 2\<rfloor> else - \<lfloor>1 / 2 - x\<rfloor>)"

definition sq_max :: "'w quantizer \<Rightarrow> int" where
  "sq_max sq = (if sq_type sq = QT_8bit then kMax8bit else kMax16bit)"

abbreviation sq_ok :: "'w :: linordered_field quantizer \<Rightarrow> bool" where
  "sq_ok sq \<equiv> sq_vmin sq < sq_vmax sq"

lemma sq_max_bounds: "0 < sq_max sq" "sq_max sq < 256 ^ bytes_per_value sq"
  by (simp_all add: sq_max_def kMax8bit_def kMax16bit_def bytes_per_value_def)

lemma round_half_clamped:
  fixes x :: "'w :: floor_ceiling"
  assumes "0 < n"
  shows "0 \<le> round_half (clamp_code (of_int n) x)" "round_half (clamp_code (of_int n) x) \<le> n"
proof -
  have c: "0 \<le> clamp_code (of_int n) x" "clamp_code (of_int n) x \<le> of_int n"
    using assms by (auto simp: clamp_code_def Let_def)
  then show "0 \<le> round_half (clamp_code (of_int n) x)" by (simp add: round_half_def le_floor_iff)
  have "\<lfloor>clamp_code (of_int n) x + 1 / 2\<rfloor> \<le> n" using c by (simp add: floor_le_iff)
  then show "round_half (clamp_code (of_int n) x) \<le> n" using c by (simp add: round_half_def)
qed

lemma sq_code_exact:
  fixes sq :: "'w :: floor_ceiling quantizer"
  shows "int (sq_code of_int round_half sq x) =
    round_half (clamp_code (of_int (sq_max sq)) ((x - sq_vmin sq) * (of_int (sq_max sq) / (sq_vmax sq - sq_vmin sq))))"
  using round_half_clamped [of kMax8bit "(x - sq_vmin sq) * (of_int kMax8bit / (sq_vmax sq - sq_vmin sq))"]
    round_half_clamped [of kMax16bit "(x - sq_vmin sq) * (of_int kMax16bit / (sq_vmax sq - sq_vmin sq))"]
  by (simp add: sq_code_def encode_8bit_def encode_16bit_def sq_max_def kMax8bit_def kMax16bit_def)

lemma sq_value_exact:
  fixes sq :: "'w :: floor_ceiling quantizer"
  shows "sq_value of_int sq c = sq_vmin sq + of_nat c * (sq_vmax sq - sq_vmin sq) / of_int (sq_max sq)"
  by (simp add: sq_value_def decode_8bit_def decode_16bit_def sq_max_def)

lemma sq_code_le: "int (sq_code of_int round_half sq (x :: 'w :: floor_ceiling)) \<le> sq_max sq"
  unfolding sq_code_exact by (rule round_half_clamped(2)) (rule sq_max_bounds)

lemma round_half_mono:
  fixes x y :: "'w :: floor_ceiling"
  assumes "0 \<le> x" and "x \<le> y"
  shows "round_half x \<le> round_half y"
proof -
  have "\<lfloor>x + 1 / 2\<rfloor> \<le> \<lfloor>y + 1 / 2\<rfloor>" using assms by (intro floor_mono) simp
  then show ?thesis using assms by (simp add: round_half_def)
qed

lemma round_half_near: "0 \<le> (x :: 'w :: floor_ceiling) \<Longrightarrow> \<bar>of_int (round_half x) - x\<bar> \<le> 1 / 2"
proof -
  assume x: "0 \<le> x"
  define f where "f = (of_int \<lfloor>x + 1 / 2\<rfloor> :: 'w)"
  have "f \<le> x + 1 / 2" "x + 1 / 2 < f + 1" unfolding f_def by linarith+
  then have "\<bar>f - x\<bar> \<le> 1 / 2" unfolding abs_le_iff by linarith
  then show ?thesis using x by (simp add: round_half_def f_def)
qed

lemma clamp_code_cases:
  fixes m :: "'w :: linordered_field"
  assumes "0 < m"
  shows "x \<le> 0 \<Longrightarrow> clamp_code m x = 0" "m \<le> x \<Longrightarrow> clamp_code m x = m" "0 \<le> x \<Longrightarrow> x \<le> m \<Longrightarrow> clamp_code m x = x"
  using assms by (auto simp: clamp_code_def Let_def)

lemma clamp_code_mono:
  fixes m :: "'w :: linordered_field"
  assumes "0 < m"
  shows "x \<le> y \<Longrightarrow> clamp_code m x \<le> clamp_code m y" "0 \<le> clamp_code m x"
  using assms by (auto simp: clamp_code_def Let_def)

text \<open>
  C30: the quantization error, in exact arithmetic. A value inside the range comes back from its code
  within half a step, and one outside as the nearer end of the range; codes fit their width and
  respect the order of the values; and every code decodes to a value that encodes to it again.
\<close>

theorem quantization_error_bound:
  fixes sq :: "'w :: floor_ceiling quantizer"
  assumes "sq_ok sq"
  shows "(sq_vmin sq \<le> x \<and> x \<le> sq_vmax sq \<longrightarrow>
      \<bar>sq_value of_int sq (sq_code of_int round_half sq x) - x\<bar> \<le> (sq_vmax sq - sq_vmin sq) / of_int (2 * sq_max sq)) \<and>
    (x \<le> sq_vmin sq \<longrightarrow> sq_value of_int sq (sq_code of_int round_half sq x) = sq_vmin sq) \<and>
    (sq_vmax sq \<le> x \<longrightarrow> sq_value of_int sq (sq_code of_int round_half sq x) = sq_vmax sq) \<and>
    sq_code of_int round_half sq x < 256 ^ bytes_per_value sq \<and>
    (x \<le> y \<longrightarrow> sq_code of_int round_half sq x \<le> sq_code of_int round_half sq y) \<and>
    (int c \<le> sq_max sq \<longrightarrow> sq_code of_int round_half sq (sq_value of_int sq c) = c)"
proof -
  let ?r = "sq_vmax sq - sq_vmin sq" and ?m = "of_int (sq_max sq) :: 'w"
  let ?s = "\<lambda>x. (x - sq_vmin sq) * (?m / ?r)"
  let ?code = "sq_code of_int round_half sq"
  have r: "0 < ?r" using assms by simp
  have m: "0 < ?m" using sq_max_bounds(1) [of sq] by simp
  have scale: "?s x = (x - sq_vmin sq) / ?r * ?m" for x by simp
  have low: "clamp_code ?m (?s x) = 0" if "x \<le> sq_vmin sq" for x
  proof -
    have "?s x \<le> 0" using that r m by (intro mult_nonpos_nonneg) simp_all
    then show ?thesis by (rule clamp_code_cases(1) [OF m])
  qed
  have high: "clamp_code ?m (?s x) = ?m" if "sq_vmax sq \<le> x" for x
  proof -
    have "1 \<le> (x - sq_vmin sq) / ?r" using that r by simp
    then have "?m \<le> ?s x" unfolding scale using m by (intro mult_le_cancel_right1 [THEN iffD2]) simp
    then show ?thesis by (rule clamp_code_cases(2) [OF m])
  qed
  have inside: "clamp_code ?m (?s x) = ?s x" "0 \<le> ?s x" if "sq_vmin sq \<le> x" "x \<le> sq_vmax sq" for x
  proof -
    show p: "0 \<le> ?s x" using that r m by simp
    have "(x - sq_vmin sq) / ?r \<le> 1" using that r by simp
    then have "?s x \<le> ?m" unfolding scale using m that r by (intro mult_left_le_one_le) simp_all
    then show "clamp_code ?m (?s x) = ?s x" by (rule clamp_code_cases(3) [OF m p])
  qed
  have half: "\<lfloor>1 / 2 :: 'w\<rfloor> = 0" by (rule floor_unique) simp_all
  have zero: "round_half (0 :: 'w) = 0" by (simp add: round_half_def half)
  have top: "round_half ?m = sq_max sq"
    using m by (simp add: round_half_def half)
  have value_of: "sq_value of_int sq (?code x) = sq_vmin sq + of_int (round_half (clamp_code ?m (?s x))) * ?r / ?m" for x
    unfolding sq_value_exact sq_code_exact [symmetric] of_int_of_nat_eq ..
  have err: "\<bar>sq_value of_int sq (?code x) - x\<bar> \<le> ?r / of_int (2 * sq_max sq)"
    if x: "sq_vmin sq \<le> x" "x \<le> sq_vmax sq"
  proof -
    have "sq_value of_int sq (?code x) - x = (of_int (round_half (?s x)) - ?s x) * (?r / ?m)"
      unfolding value_of inside(1) [OF x] using r m by (simp add: field_simps)
    then have "\<bar>sq_value of_int sq (?code x) - x\<bar> = \<bar>of_int (round_half (?s x)) - ?s x\<bar> * (?r / ?m)"
      using r m by (simp add: abs_mult)
    also have "\<dots> \<le> 1 / 2 * (?r / ?m)"
      by (intro mult_right_mono round_half_near inside(2) [OF x]) (use r m in simp)
    finally show ?thesis by simp
  qed
  have mono: "clamp_code ?m (?s x) \<le> clamp_code ?m (?s y)" "0 \<le> clamp_code ?m (?s x)" if "x \<le> y" for x y
  proof -
    have "?s x \<le> ?s y" using that r m by (intro mult_right_mono) simp_all
    then show "clamp_code ?m (?s x) \<le> clamp_code ?m (?s y)" by (rule clamp_code_mono(1) [OF m])
    show "0 \<le> clamp_code ?m (?s x)" by (rule clamp_code_mono(2) [OF m])
  qed
  have ordered: "?code x \<le> ?code y" if "x \<le> y"
    using round_half_mono [OF mono(2) [OF that] mono(1) [OF that]] sq_code_exact [of sq x] sq_code_exact [of sq y] by simp
  have again: "?code (sq_value of_int sq c) = c" if c: "int c \<le> sq_max sq"
  proof -
    have cm: "(of_nat c :: 'w) \<le> ?m" using c by (metis of_int_le_iff of_int_of_nat_eq)
    let ?v = "sq_value of_int sq c"
    have s: "?s ?v = of_nat c" unfolding sq_value_exact using r m by (simp add: field_simps)
    have "clamp_code ?m (?s ?v) = of_nat c" unfolding s by (rule clamp_code_cases(3) [OF m _ cm]) simp
    then have "int (?code ?v) = round_half (of_nat c :: 'w)" using sq_code_exact [of sq ?v] by simp
    also have "\<dots> = int c" using floor_add_int [of "1 / 2 :: 'w" "int c"] by (simp add: round_half_def half add.commute)
    finally show ?thesis by simp
  qed
  have fits: "?code x < 256 ^ bytes_per_value sq"
    using sq_code_le [of sq x] sq_max_bounds(2) [of sq] by (metis of_nat_less_iff of_nat_numeral of_nat_power order_le_less_trans)
  show ?thesis
    using err ordered again fits low [of x] high [of x] value_of [of x] zero top r m by auto
qed

theorem quantization_error_bound_witness:
  "\<bar>sq_value of_int \<lparr>sq_type = QT_8bit, sq_vmin = 0, sq_vmax = 3 :: rat\<rparr>
      (sq_code of_int round_half \<lparr>sq_type = QT_8bit, sq_vmin = 0, sq_vmax = 3\<rparr> (1 :: rat)) - 1\<bar> \<le> 3 / 510"
proof -
  have "sq_ok \<lparr>sq_type = QT_8bit, sq_vmin = 0, sq_vmax = (3 :: rat)\<rparr>" by simp
  from quantization_error_bound [OF this, of 1 1 0] show ?thesis
    by (simp add: sq_max_def kMax8bit_def)
qed

text \<open>
  C31: with both ranges starting at zero, decoding the integer dot product of two lists of codes is
  the dot product of the decoded values, in exact arithmetic, and decoding never reorders scores.
\<close>

theorem decoded_dot_product_exact:
  fixes sq :: "'w :: floor_ceiling quantizer"
  assumes "sq_vmin sq = 0" and "sq_vmin query_sq = 0" and "sq_type query_sq = sq_type sq"
    and "sq_ok sq" and "sq_ok query_sq"
  shows "decode_dot_product of_int sq (of_nat (\<Sum>(a, b) \<leftarrow> ps. a * b)) query_sq =
      (\<Sum>(a, b) \<leftarrow> ps. sq_value of_int sq a * sq_value of_int query_sq b) \<and>
    (decode_dot_product of_int sq x query_sq \<le> decode_dot_product of_int sq y query_sq \<longleftrightarrow> x \<le> y)"
proof -
  let ?m = "of_int (sq_max sq) :: 'w" and ?k = "sq_vmax sq * sq_vmax query_sq / (of_int (sq_max sq) * of_int (sq_max sq))"
  have m: "0 < ?m" using sq_max_bounds(1) [of sq] by simp
  have d: "decode_dot_product of_int sq z query_sq = z * ?k" for z
    using assms by (simp add: decode_dot_product_def Let_def sq_max_def)
  have k: "0 < ?k" using assms m by simp
  have "(of_nat (\<Sum>(a, b) \<leftarrow> ps. a * b) :: 'w) * ?k = (\<Sum>(a, b) \<leftarrow> ps. sq_value of_int sq a * sq_value of_int query_sq b)"
  proof (induction ps)
    case (Cons p ps)
    have same: "sq_max query_sq = sq_max sq" using assms(3) by (simp add: sq_max_def)
    have "(of_nat (fst p * snd p) :: 'w) * ?k = sq_value of_int sq (fst p) * sq_value of_int query_sq (snd p)"
      unfolding sq_value_exact same using assms(1,2) by simp
    then show ?case using Cons by (simp add: case_prod_unfold distrib_right add_divide_distrib)
  qed simp
  moreover have "x * ?k \<le> y * ?k \<longleftrightarrow> x \<le> y" using k by (rule mult_le_cancel_right_pos)
  ultimately show ?thesis unfolding d by blast
qed

theorem decoded_dot_product_exact_witness:
  "decode_dot_product of_int \<lparr>sq_type = QT_8bit, sq_vmin = 0, sq_vmax = (3 :: rat)\<rparr> (of_nat (2 * 7 + 5 * 1))
      \<lparr>sq_type = QT_8bit, sq_vmin = 0, sq_vmax = 1\<rparr> =
    6 / 255 * (7 / 255) + 15 / 255 * (1 / 255)"
proof -
  have h: "sq_ok \<lparr>sq_type = QT_8bit, sq_vmin = 0, sq_vmax = (3 :: rat)\<rparr>" "sq_ok \<lparr>sq_type = QT_8bit, sq_vmin = 0, sq_vmax = (1 :: rat)\<rparr>"
    by simp_all
  show ?thesis
    using decoded_dot_product_exact [OF _ _ _ h, of "[(2, 7), (5, 1)]" 0 0]
    by (simp add: sq_value_def decode_8bit_def kMax8bit_def)
qed

end
