(* ===== verification/Seismic_SQ_Index.thy ===== *)
theory Seismic_SQ_Index
  imports Seismic_Index Scalar_Quantizer
begin

text \<open>
  \<^verbatim>\<open>seismic_scalar_quantized_index.cpp\<close>: \<open>SeismicScalarQuantizedIndex\<close>, the Seismic index over 8 or 16
  bit codes. Documents are quantized on \<open>add\<close>, queries on \<open>search\<close>; scores are integer dot products of
  codes, scaled back at the end. The main theorems: with summaries that bound their documents the
  answer is the exact best by the decoded integer score; and the index survives its file.
\<close>

section \<open>SeismicScalarQuantizedIndex\<close>

record 'w seismic_sq_index =
  sx_dimension :: int
  sx_vectors :: "sparse_vectors option"
  sx_lists :: "clusters list"
  sx_params :: "'w cluster_params"
  sx_spill :: spill
  sx_sq :: "'w quantizer"

definition sx_new :: "int \<Rightarrow> 'w cluster_params \<Rightarrow> 'w :: {zero, one} seismic_sq_index" where
  "sx_new d params = \<lparr>sx_dimension = d, sx_vectors = None, sx_lists = [], sx_params = params,
     sx_spill = sp_new, sx_sq = sq_default\<rparr>"

definition sx_new_with ::
  "('w \<Rightarrow> bool) \<Rightarrow> quantizer_type \<Rightarrow> 'w \<Rightarrow> 'w \<Rightarrow> 'w cluster_params \<Rightarrow> int \<Rightarrow> exn + 'w :: {zero, one, ord} seismic_sq_index" where
  "sx_new_with fin t lo hi params d =
     bindE (sq_new fin t lo hi) (\<lambda>sq. Inr ((sx_new d params)\<lparr>sx_sq := sq\<rparr>))"

definition sx_add ::
  "(int \<Rightarrow> 'w) \<Rightarrow> ('w \<Rightarrow> int) \<Rightarrow> 'w seismic_sq_index \<Rightarrow> idx_t \<Rightarrow> offset_t list option \<Rightarrow> term_t list option \<Rightarrow>
     'w list option \<Rightarrow> exn + 'w :: {zero, minus, times, inverse, ord} seismic_sq_index" where
  "sx_add of_i lround st n indptr indices values =
     bindE (throw_if_not_positive n) (\<lambda>_.
     bindE (throw_if_null indptr ''unexpected nullptr'') (\<lambda>indptr.
     bindE (throw_if_null indices ''unexpected nullptr'') (\<lambda>indices.
     bindE (throw_if_null values ''unexpected nullptr'') (\<lambda>values.
     bindE (take_batch (sq_code_bytes of_i lround (sx_sq st)) n indptr indices values) (\<lambda>(ip, ix, codes).
     bindE (case sx_vectors st of
              None \<Rightarrow> sv_new (bytes_per_value (sx_sq st)) (size_of_int (sx_dimension st))
            | Some v \<Rightarrow> Inr v) (\<lambda>v.
     bindE (add_vectors v ip ix codes) (\<lambda>v. Inr (st\<lparr>sx_vectors := Some v\<rparr>))))))))"

definition query_quantizer ::
  "('w \<Rightarrow> bool) \<Rightarrow> 'w quantizer \<Rightarrow> 'w :: ord search_params option \<Rightarrow> exn + 'w quantizer" where
  "query_quantizer fin sq params = (case params of
       Some (Seismic_SQ_Parameters lo hi _ _ _) \<Rightarrow> sq_new fin (sq_type sq) lo hi
     | _ \<Rightarrow> Inr sq)"

definition sx_build ::
  "(byte list \<Rightarrow> 'w :: {zero, plus, minus, times, inverse, ord}) \<Rightarrow> ('w \<Rightarrow> byte list) \<Rightarrow> (nat \<Rightarrow> 'w) \<Rightarrow>
     (nat \<Rightarrow> nat \<Rightarrow> nat \<Rightarrow> nat) \<Rightarrow> nat \<Rightarrow> platform \<Rightarrow> nat \<Rightarrow> 'w seismic_sq_index \<times> files \<Rightarrow>
     (exn + unit) \<times> 'w seismic_sq_index \<times> files" where
  "sx_build dec enc conv draw entropy pf token = (\<lambda>(st, fs).
     case build_clustered_lists dec enc conv draw entropy pf token (sx_vectors st) (size_of_int (sx_dimension st))
            (sx_params st) (sx_spill st, fs) of
       (Inl e, sp, fs) \<Rightarrow> (Inl e, st\<lparr>sx_spill := sp\<rparr>, fs)
     | (Inr cls, sp, fs) \<Rightarrow> (Inr (), st\<lparr>sx_lists := cls, sx_spill := sp\<rparr>, fs))"

subsection \<open>Searching\<close>

text \<open>A document's score at the stored width; an id outside the corpus is a read past the offsets.\<close>

definition code_score_of ::
  "(byte list \<Rightarrow> 'w) \<Rightarrow> (int \<Rightarrow> 'w) \<Rightarrow> sparse_vectors \<Rightarrow> byte list \<Rightarrow> idx_t \<Rightarrow> exn + 'w :: {zero, plus, times}" where
  "code_score_of dec of_i vectors dense doc_id =
     (if doc_id < 0 \<or> nat doc_id + 1 \<ge> length (buf_elems (sv_indptr vectors))
      then Inl (Undefined_behaviour ''read past the end'')
      else compute_similarity dec of_i (nat doc_id) (buf_elems (sv_indptr vectors)) (buf_elems (sv_indices vectors))
             (buf_elems (sv_values vectors)) dense (sv_element_size vectors))"

definition sx_query_single_inverted_list ::
  "(byte list \<Rightarrow> 'w) \<Rightarrow> (nat \<Rightarrow> 'w) \<Rightarrow> (int \<Rightarrow> 'w) \<Rightarrow> sparse_vectors \<Rightarrow> clusters \<Rightarrow> byte list \<Rightarrow> term_t list \<Rightarrow>
     byte list \<Rightarrow> 'w \<Rightarrow> bool \<Rightarrow> id_selector option \<Rightarrow> ('w, idx_t) topk_holder \<times> idx_t list \<Rightarrow>
     exn + ('w :: {zero, plus, times, ord}, idx_t) topk_holder \<times> idx_t list" where
  "sx_query_single_inverted_list dec conv of_i vectors cl dense q_idx q_val_bytes heap_factor first_list sel st =
     (if cl_n_clusters cl = 0 then Inr st
      else bindE (score_summaries_transposed dec conv cl q_idx q_val_bytes) (\<lambda>summary_scores.
           walk_clusters (code_score_of dec of_i vectors dense) sel heap_factor first_list summary_scores (get_docs cl) st
             (reorder_clusters summary_scores first_list)))"

text \<open>\<^verbatim>\<open>std::copy_n\<close> and \<^verbatim>\<open>std::fill_n\<close> of one element of the dense buffer.\<close>

definition store_bytes :: "nat \<Rightarrow> byte list \<Rightarrow> byte list \<Rightarrow> exn + byte list" where
  "store_bytes off bs dense =
     (if off + length bs \<le> length dense then Inr (take off dense @ bs @ drop (off + length bs) dense)
      else Inl (Undefined_behaviour ''write past the end''))"

definition scatter_codes :: "size_t \<Rightarrow> term_t list \<Rightarrow> byte list \<Rightarrow> byte list \<Rightarrow> exn + byte list" where
  "scatter_codes element_size q_idx q_val_bytes dense =
     foldE (\<lambda>d i. store_bytes (q_idx ! i * element_size) (code_at element_size q_val_bytes i) d) dense [0..<length q_idx]"

definition clear_codes :: "size_t \<Rightarrow> term_t list \<Rightarrow> byte list \<Rightarrow> exn + byte list" where
  "clear_codes element_size q_idx dense =
     foldE (\<lambda>d t. store_bytes (t * element_size) (replicate element_size 0) d) dense q_idx"

definition sx_single_query ::
  "(byte list \<Rightarrow> 'w :: {zero, one, uminus, plus, minus, times, inverse, ord}) \<Rightarrow> (nat \<Rightarrow> 'w) \<Rightarrow> (int \<Rightarrow> 'w) \<Rightarrow> 'w quantizer \<Rightarrow> sparse_vectors \<Rightarrow> clusters list \<Rightarrow>
     term_t list \<Rightarrow> byte list \<Rightarrow> size_t \<Rightarrow> term_t list \<Rightarrow> int \<Rightarrow> 'w \<Rightarrow> 'w quantizer \<Rightarrow> id_selector option \<Rightarrow> byte list \<Rightarrow>
     exn + ('w list \<times> idx_t list) \<times> byte list" where
  "sx_single_query dec conv of_i sq vectors cls q_idx q_val_bytes element_size cuts k heap_factor query_sq sel dense =
     (if num_vectors vectors = 0 then Inr (([], []), dense)
      else bindE (scatter_codes element_size q_idx q_val_bytes dense) (\<lambda>dense.
           bindE (topk_new k) (\<lambda>holder.
           bindE (foldE (\<lambda>(st, first_list) t.
                    if t \<ge> length cls then Inr (st, first_list)
                    else bindE (sx_query_single_inverted_list dec conv of_i vectors (cls ! t) dense q_idx q_val_bytes
                                  heap_factor first_list sel st) (\<lambda>st. Inr (st, False)))
                  ((holder, []), True) cuts) (\<lambda>((holder, _), _).
           bindE (clear_codes element_size q_idx dense) (\<lambda>dense.
           let (scores, ids) = topk_items_descending holder;
               scores = map (\<lambda>dist. decode_dot_product of_i sq dist query_sq) scores
           in Inr ((resize (nat k) (- 1) scores,
                    resize (nat k) INVALID_IDX ids), dense))))))"

text \<open>The whole batch's codes, and the terms and codes of one query of it.\<close>

definition encode_queries ::
  "(int \<Rightarrow> 'w) \<Rightarrow> ('w \<Rightarrow> int) \<Rightarrow> 'w quantizer \<Rightarrow> idx_t \<Rightarrow> offset_t list \<Rightarrow>
     'w :: {zero, minus, times, inverse, ord} list \<Rightarrow> exn + byte list" where
  "encode_queries of_i lround query_sq n indptr values =
     bindE (read_at indptr (nat n)) (\<lambda>nnz.
     bindE (take_elems (size_of_int nnz) values) (\<lambda>vs. Inr (sq_encode of_i lround query_sq vs)))"

definition code_row :: "size_t \<Rightarrow> offset_t list \<Rightarrow> term_t list \<Rightarrow> byte list \<Rightarrow> nat \<Rightarrow> exn + term_t list \<times> byte list" where
  "code_row element_size indptr indices codes i =
     bindE (row_span indptr i) (\<lambda>(start, len).
     bindE (take_elems len (drop start indices)) (\<lambda>ts.
     bindE (take_elems (len * element_size) (drop (start * element_size) codes)) (\<lambda>bs. Inr (ts, bs))))"

definition code_cuts :: "size_t \<Rightarrow> term_t list \<Rightarrow> byte list \<Rightarrow> int \<Rightarrow> exn + term_t list" where
  "code_cuts element_size q_idx q_val_bytes q_cut =
     (if element_size = U16 then top_k_tokens q_idx (decode_array le_nat 2 (length q_idx) q_val_bytes) q_cut
      else top_k_tokens q_idx (decode_array le_nat 1 (length q_idx) q_val_bytes) q_cut)"

text \<open>The exact path's scores, decoded where the label is not padding.\<close>

definition decode_matches ::
  "(int \<Rightarrow> 'w) \<Rightarrow> 'w quantizer \<Rightarrow> 'w quantizer \<Rightarrow> 'w list \<times> idx_t list \<Rightarrow> 'w :: {minus, times, inverse} list \<times> idx_t list" where
  "decode_matches of_i sq query_sq = (\<lambda>(scores, ids).
     (map (\<lambda>(s, d). if d \<noteq> INVALID_IDX then decode_dot_product of_i sq s query_sq else s) (zip scores ids), ids))"

definition sx_search ::
  "(byte list \<Rightarrow> 'w) \<Rightarrow> (nat \<Rightarrow> 'w) \<Rightarrow> (int \<Rightarrow> 'w) \<Rightarrow> ('w \<Rightarrow> int) \<Rightarrow> ('w \<Rightarrow> bool) \<Rightarrow> (nat \<Rightarrow> nat) \<Rightarrow> 'w seismic_sq_index \<Rightarrow>
     idx_t \<Rightarrow> offset_t list \<Rightarrow> term_t list \<Rightarrow> 'w list \<Rightarrow> int \<Rightarrow> 'w search_params option \<Rightarrow>
     exn + ('w :: {zero, one, uminus, plus, minus, times, inverse, ord} list \<times> idx_t list) list" where
  "sx_search dec conv of_i lround fin thread st n indptr indices values k params = (case sx_vectors st of
       None \<Rightarrow> Inr (replicate (nat n) ([], []))
     | Some vectors \<Rightarrow>
         if n = 0 then Inr []
         else bindE (query_quantizer fin (sx_sq st) params) (\<lambda>query_sq.
              bindE (encode_queries of_i lround query_sq n indptr values) (\<lambda>codes.
              let element_size = bytes_per_value (sx_sq st); sel = params_selector params;
                  (q_cut, heap_factor) = seismic_cut_and_factor params
              in if should_run_exact_match sel k
                 then bindE (take_batch (sq_code_bytes of_i lround query_sq) n indptr indices values) (\<lambda>(ip, ix, codes).
                      bindE (sv_new element_size (size_of_int (sx_dimension st))) (\<lambda>v.
                      bindE (add_vectors v ip ix codes) (\<lambda>query_vectors.
                      bindE (exact_search dec of_i vectors (case Option.bind sel enumerable of None \<Rightarrow> [] | Some ids \<Rightarrow> ids)
                        query_vectors element_size k) (\<lambda>rs. Inr (map (decode_matches of_i (sx_sq st) query_sq) rs)))))
                 else bindE (run_batch (\<lambda>dense i.
                          bindE (code_row element_size indptr indices codes i) (\<lambda>(q_idx, q_val_bytes).
                          bindE (code_cuts element_size q_idx q_val_bytes q_cut) (\<lambda>cuts.
                          sx_single_query dec conv of_i (sx_sq st) vectors (sx_lists st) q_idx q_val_bytes element_size cuts
                            k heap_factor query_sq sel dense)))
                        thread (\<lambda>_. replicate (nat (sx_dimension st) * element_size) 0) (nat n)) (\<lambda>(rs, _). Inr rs))))"

subsection \<open>The file\<close>

text \<open>The byte of a quantizer type; any other byte is not one.\<close>

definition type_byte :: "quantizer_type \<Rightarrow> nat" where
  "type_byte t = (case t of QT_8bit \<Rightarrow> 0 | QT_16bit \<Rightarrow> 1)"

definition quantizer_from_file :: "('w \<Rightarrow> bool) \<Rightarrow> nat \<Rightarrow> 'w \<Rightarrow> 'w :: ord \<Rightarrow> exn + 'w quantizer" where
  "quantizer_from_file fin t lo hi =
     (if t \<noteq> type_byte QT_8bit \<and> t \<noteq> type_byte QT_16bit
      then Inl (Runtime_error ''index file declares an unknown quantizer type'')
      else sq_new fin (if t = type_byte QT_8bit then QT_8bit else QT_16bit) lo hi)"

definition write_value :: "('w \<Rightarrow> byte list) \<Rightarrow> 'w \<Rightarrow> writer \<Rightarrow> exn + writer" where
  "write_value enc x w = Inr (buffered_write (enc x) w)"

definition write_quantization_header :: "('w \<Rightarrow> byte list) \<Rightarrow> 'w quantizer \<Rightarrow> writer \<Rightarrow> exn + writer" where
  "write_quantization_header enc sq w =
     bindE (write_nat 1 (type_byte (sq_type sq)) w) (\<lambda>w.
     bindE (write_value enc (sq_vmin sq) w) (write_value enc (sq_vmax sq)))"

text \<open>A float read over its default: the bytes a short read does not deliver keep the default's.\<close>

definition read_value ::
  "('w \<Rightarrow> byte list) \<Rightarrow> (byte list \<Rightarrow> 'w) \<Rightarrow> 'w \<Rightarrow> reader \<Rightarrow> exn + 'w \<times> reader" where
  "read_value enc dec initial r = (case buffered_read 4 1 r of (bs, _, r') \<Rightarrow>
     Inr (dec (bs @ drop (length bs) (enc initial)), r'))"

definition read_quantization_header ::
  "('w \<Rightarrow> byte list) \<Rightarrow> (byte list \<Rightarrow> 'w) \<Rightarrow> ('w \<Rightarrow> bool) \<Rightarrow> reader \<Rightarrow> exn + 'w :: {zero, one, ord} quantizer \<times> reader" where
  "read_quantization_header enc dec fin r =
     bindE (read_nat 1 r) (\<lambda>(t, r).
     bindE (read_value enc dec 0 r) (\<lambda>(lo, r).
     bindE (read_value enc dec 1 r) (\<lambda>(hi, r).
     bindE (quantizer_from_file fin t lo hi) (\<lambda>sq. Inr (sq, r)))))"

definition map_value :: "(byte list \<Rightarrow> 'w) \<Rightarrow> cursor \<Rightarrow> exn + 'w \<times> cursor" where
  "map_value dec c = bindE (cursor_ensure 4 c)
     (\<lambda>_. Inr (dec (take 4 (drop (mc_pos c) (mc_data c))), c\<lparr>mc_pos := mc_pos c + 4\<rparr>))"

definition map_quantization_header ::
  "(byte list \<Rightarrow> 'w) \<Rightarrow> ('w \<Rightarrow> bool) \<Rightarrow> cursor \<Rightarrow> exn + 'w :: ord quantizer \<times> cursor" where
  "map_quantization_header dec fin c =
     bindE (map_nat 1 c) (\<lambda>(t, c).
     bindE (map_value dec c) (\<lambda>(lo, c).
     bindE (map_value dec c) (\<lambda>(hi, c).
     bindE (quantizer_from_file fin t lo hi) (\<lambda>sq. Inr (sq, c)))))"

definition sx_write_index :: "('w \<Rightarrow> byte list) \<Rightarrow> 'w seismic_sq_index \<Rightarrow> writer \<Rightarrow> exn + writer" where
  "sx_write_index enc st w =
     bindE (write_quantization_header enc (sx_sq st) w) (\<lambda>w.
     bindE (sv_serialize (case sx_vectors st of None \<Rightarrow> sv_default | Some v \<Rightarrow> v) w)
       (slw_serialize False (sx_lists st)))"

definition sx_read_index ::
  "('w \<Rightarrow> byte list) \<Rightarrow> (byte list \<Rightarrow> 'w) \<Rightarrow> ('w \<Rightarrow> bool) \<Rightarrow> 'w :: {zero, one, ord} seismic_sq_index \<Rightarrow> reader \<Rightarrow>
     exn + 'w seismic_sq_index \<times> reader" where
  "sx_read_index enc dec fin st r =
     bindE (read_quantization_header enc dec fin r) (\<lambda>(sq, r).
     bindE (sv_deserialize sv_default r) (\<lambda>(tmp_vectors, r).
     bindE (throw_if_element_size_mismatch (bytes_per_value sq)
              ''index file's element size disagrees with its quantizer type'' tmp_vectors) (\<lambda>_.
     let st' = (if num_vectors tmp_vectors > 0 then st\<lparr>sx_sq := sq, sx_vectors := Some tmp_vectors\<rparr> else st\<lparr>sx_sq := sq\<rparr>)
     in bindE (slw_deserialize r) (\<lambda>(cls, r). Inr (st'\<lparr>sx_lists := cls\<rparr>, r)))))"

definition sx_map_payload ::
  "(byte list \<Rightarrow> 'w) \<Rightarrow> ('w \<Rightarrow> bool) \<Rightarrow> 'w :: ord seismic_sq_index \<Rightarrow> cursor \<Rightarrow> exn + 'w seismic_sq_index \<times> cursor" where
  "sx_map_payload dec fin st c =
     bindE (map_quantization_header dec fin c) (\<lambda>(sq, c).
     bindE (sv_mmap_deserialize (Some c)) (\<lambda>(vectors, c).
     bindE (throw_if_element_size_mismatch (bytes_per_value sq)
              ''index file's element size disagrees with its quantizer type'' vectors) (\<lambda>_.
     bindE (slw_mmap_deserialize c) (\<lambda>(cls, c).
     let st' = st\<lparr>sx_sq := sq, sx_lists := cls\<rparr>
     in Inr (if num_vectors vectors > 0 then st'\<lparr>sx_vectors := Some vectors\<rparr> else st', c)))))"

definition sx_mmap_index ::
  "(byte list \<Rightarrow> 'w) \<Rightarrow> ('w \<Rightarrow> bool) \<Rightarrow> 'w cluster_params \<Rightarrow> int \<Rightarrow> (nat \<times> byte list) option \<Rightarrow> size_t \<Rightarrow>
     exn + 'w :: {zero, one, ord} seismic_sq_index" where
  "sx_mmap_index dec fin params d index_file pos =
     bindE (throw_if_null index_file ''index_file must not be null'') (\<lambda>(base, data).
     bindE (cursor_skip pos \<lparr>mc_base = base, mc_data = data, mc_pos = 0\<rparr>) (\<lambda>c.
     bindE (sx_map_payload dec fin (sx_new d params) c) (\<lambda>(st, _). Inr st)))"


section \<open>The scratch buffer of codes\<close>

text \<open>The dense buffer is the concatenation of one chunk of \<open>element_size\<close> bytes per dimension.\<close>

lemma store_chunk:
  assumes "\<forall>c \<in> set cs. length c = es" and "t < length cs" and "length b = es"
  shows "store_bytes (t * es) b (concat cs) = Inr (concat (cs[t := b])) \<and> (\<forall>c \<in> set (cs[t := b]). length c = es)"
proof -
  have "Suc t * es \<le> length cs * es" using assms(2) by (intro mult_le_mono1) simp
  then have "t * es + es \<le> length (concat cs)" using length_concat_chunks [of cs es] assms(1) by simp
  moreover have "\<forall>c \<in> set (cs[t := b]). length c = es"
    using assms(1,3) set_update_subset_insert [of cs t b] by auto
  ultimately show ?thesis
    using concat_chunk_update [of cs es t b] assms by (simp add: store_bytes_def)
qed

lemma store_chunks:
  assumes "\<forall>c \<in> set cs. length c = es" and "\<forall>i \<in> set is1. t i < length cs \<and> length (b i) = es"
  shows "foldE (\<lambda>d i. store_bytes (t i * es) (b i) d) (concat cs) is1 =
      Inr (concat (foldl (\<lambda>cs (t, b). cs[t := b]) cs (map (\<lambda>i. (t i, b i)) is1)))"
  using assms
proof (induction is1 arbitrary: cs)
  case (Cons i is1)
  have i: "t i < length cs" "length (b i) = es" using Cons.prems(2) by simp_all
  note s = store_chunk [OF Cons.prems(1) i]
  then show ?case using Cons.IH [of "cs[t i := b i]"] Cons.prems by simp
qed simp

lemma clear_updates:
  "\<forall>i < length cs. i \<notin> set ts \<longrightarrow> cs ! i = z \<Longrightarrow>
     foldl (\<lambda>cs (t, b). cs[t := b]) cs (map (\<lambda>t. (t, z)) ts) = replicate (length cs) z"
proof (induction ts arbitrary: cs)
  case Nil
  then show ?case by (simp add: list_eq_iff_nth_eq)
next
  case (Cons t ts)
  have "\<forall>i < length (cs[t := z]). i \<notin> set ts \<longrightarrow> cs[t := z] ! i = z"
    using Cons.prems by (metis length_list_update nth_list_update_eq nth_list_update_neq set_ConsD)
  from Cons.IH [OF this] show ?case by simp
qed

lemma other_updates: "t \<notin> fst ` set ps \<Longrightarrow> foldl (\<lambda>cs (t, b). cs[t := b]) cs ps ! t = cs ! t"
  by (induction ps arbitrary: cs) (auto simp: case_prod_unfold)

lemma length_updates: "length (foldl (\<lambda>cs (t, b). cs[t := b]) cs ps) = length cs"
  by (induction ps arbitrary: cs) auto

lemma scatter_codes_ok:
  assumes "\<forall>t \<in> set ts. t < n" and "length bytes = length ts * es"
  shows "scatter_codes es ts bytes (replicate (n * es) 0) =
    Inr (concat (chunk_row es n ts (map (code_at es bytes) [0..<length ts])))"
    "clear_codes es ts (concat (chunk_row es n ts (map (code_at es bytes) [0..<length ts]))) = Inr (replicate (n * es) 0)"
proof -
  let ?z = "replicate n (replicate es (0 :: byte))" and ?bs = "map (code_at es bytes) [0..<length ts]"
  have z: "\<forall>c \<in> set ?z. length c = es" by simp
  have chunks: "length (code_at es bytes i) = es" if "i < length ts" for i
    by (rule length_code_at [OF that assms(2)])
  have pairs: "map (\<lambda>i. (ts ! i, code_at es bytes i)) [0..<length ts] = zip ts ?bs"
    by (rule nth_equalityI) simp_all
  have "scatter_codes es ts bytes (concat ?z) = Inr (concat (chunk_row es n ts ?bs))"
    using store_chunks [OF z, of "[0..<length ts]" "\<lambda>i. ts ! i" "code_at es bytes"] assms(1) chunks
    by (simp add: scatter_codes_def chunk_row_def pairs)
  then show "scatter_codes es ts bytes (replicate (n * es) 0) = Inr (concat (chunk_row es n ts ?bs))"
    by (simp add: concat_replicate_zero)
  let ?cs = "chunk_row es n ts ?bs"
  have cs: "\<forall>c \<in> set ?cs. length c = es" using chunk_row_lengths [of ?bs es] chunks by simp
  have len: "length ?cs = n" by (simp add: chunk_row_def length_updates)
  have "foldE (\<lambda>d t. store_bytes (t * es) (replicate es 0) d) (concat ?cs) ts =
      Inr (concat (foldl (\<lambda>cs (t, b). cs[t := b]) ?cs (map (\<lambda>t. (t, replicate es 0)) ts)))"
    by (rule store_chunks [OF cs]) (use assms(1) len in simp)
  also have "foldl (\<lambda>cs (t, b). cs[t := b]) ?cs (map (\<lambda>t. (t, replicate es 0)) ts) = replicate n (replicate es 0)"
  proof -
    have "?cs ! i = replicate es 0" if "i < n" "i \<notin> set ts" for i
    proof -
      have "i \<notin> fst ` set (zip ts ?bs)" using that(2) by (auto dest: set_zip_leftD)
      then show ?thesis using that(1) other_updates [of i "zip ts ?bs" ?z] by (simp add: chunk_row_def)
    qed
    then show ?thesis using clear_updates [of ?cs ts "replicate es 0"] len by simp
  qed
  finally show "clear_codes es ts (concat ?cs) = Inr (replicate (n * es) 0)"
    by (simp add: clear_codes_def concat_replicate_zero)
qed

section \<open>Integer scores\<close>

definition int_code :: "byte list \<Rightarrow> int" where
  "int_code bs = int (le_nat bs)"

lemma map_densify: "map f (densify n ts (ws :: 'a :: zero list)) = foldl (\<lambda>d (t, w). d[t := w]) (replicate n (f 0)) (zip ts (map f ws))"
  unfolding densify_def map_chunk_updates by (simp add: zip_map2)

text \<open>Rows short enough for the accumulators of the two kernels.\<close>

definition accumulates :: "size_t \<Rightarrow> nat \<Rightarrow> bool" where
  "accumulates es len \<longleftrightarrow> (es = U8 \<and> len \<le> 33025) \<or> (es = U16 \<and> len < 2147483648)"

lemma code_dot_ok:
  assumes "accumulates es (length row)" and "distinct (map fst row)" and "\<forall>t \<in> set (map fst row). t < n"
    and "distinct ts" and "length cs = length ts"
    and "\<forall>w \<in> set (map snd row). w < 256 ^ es" and "\<forall>w \<in> set cs. w < 256 ^ es"
  shows "(if es = U16 then dot_product_uint16_dense of_i (map fst row) (map snd row) (densify n ts cs)
      else dot_product_uint8_dense of_i (map fst row) (map snd row) (densify n ts cs)) =
    Inr (of_i (dot (zip ts (map int cs)) (map (\<lambda>(t, w). (t, int w)) row)))"
proof -
  let ?d = "densify n ts cs" and ?m = "(256 ^ es - 1) * (256 ^ es - 1) :: nat"
  have len: "length ?d = n" by (simp add: densify_def length_updates)
  have dense: "x < 256 ^ es" if "x \<in> set ?d" for x
  proof -
    have "set (foldl (\<lambda>d (t, w). d[t := w]) d ps) \<subseteq> set d \<union> snd ` set ps" for d and ps :: "(nat \<times> nat) list"
      by (induction ps arbitrary: d) (use set_update_subset_insert in \<open>fastforce simp: case_prod_unfold\<close>)+
    from this [of "replicate n 0" "zip ts cs"] that have "x \<in> set (replicate n 0) \<union> snd ` set (zip ts cs)"
      unfolding densify_def by blast
    then have "x = 0 \<or> x \<in> set cs" by (auto split: if_splits dest: set_zip_rightD)
    then show ?thesis using assms(7) by auto
  qed
  have m: "\<forall>(t, w) \<in> set row. t < length ?d \<and> w * ?d ! t \<le> ?m"
  proof (intro ballI, clarify)
    fix t w assume tw: "(t, w) \<in> set row"
    have t: "t < length ?d" using assms(3) tw len by force
    have "w < 256 ^ es" using assms(6) tw by force
    moreover have "?d ! t < 256 ^ es" using t by (intro dense) simp
    ultimately show "t < length ?d \<and> w * ?d ! t \<le> ?m" using t by (intro conjI mult_le_mono) linarith+
  qed
  let ?sum = "\<Sum>(t, w) \<leftarrow> row. int (w * ?d ! t)"
  have "?sum = dot (zip ts (map int cs)) (map (\<lambda>(t, w). (t, int w)) row)"
  proof -
    let ?q = "zip ts (map int cs)" and ?r = "map (\<lambda>(t, w). (t, int w)) row"
    have q: "map fst ?q = ts" "map snd ?q = map int cs" using assms(5) by simp_all
    have r: "map fst ?r = map fst row" by (induction row) auto
    have "sparse_dense (densify n (map fst ?q) (map snd ?q)) ?r = dot ?q ?r"
      by (rule sparse_dense_densify) (use assms(2-4) in \<open>simp_all only: q r\<close>)
    moreover have "densify n ts (map int cs) = map int ?d"
      unfolding map_densify by (simp add: densify_def)
    ultimately have "dot ?q ?r = (\<Sum>(t, w) \<leftarrow> ?r. w * map int ?d ! t)"
      unfolding q by (simp add: sparse_dense_def)
    also have "\<dots> = ?sum"
      unfolding map_map by (intro arg_cong [where f = sum_list] map_cong) (use assms(3) len in auto)
    finally show ?thesis by simp
  qed
  moreover have "foldE (\<lambda>result (t, w). bindE (read_at ?d t) (\<lambda>d. int_add bits result (int (w * d)))) 0 row = Inr (0 + ?sum)"
    if "int (length row) * int ?m < 2 ^ (bits - 1)" for bits
    by (rule foldE_int_add [OF m]) (use that in simp_all)
  moreover have "int (length row) * int ?m < 2 ^ (64 - 1)" if "es = U16"
  proof -
    have "int (length row) * int ?m \<le> 2147483647 * 4294836225"
      using assms(1) that by (intro mult_mono) (auto simp: accumulates_def U16_def U8_def)
    then show ?thesis by simp
  qed
  moreover have "int (length row) * int ?m < 2 ^ (32 - 1)" if "es = U8"
  proof -
    have "int (length row) * int ?m \<le> 33025 * 65025"
      using assms(1) that by (intro mult_mono) (auto simp: accumulates_def U16_def U8_def)
    then show ?thesis by simp
  qed
  ultimately show ?thesis
    using assms(1) by (auto simp: dot_product_uint16_dense_def dot_product_uint8_dense_def zip_map_fst_snd accumulates_def U8_def U16_def)
qed


text \<open>A row as its pointers give it.\<close>

lemma row_of_pointers:
  assumes "sv_content_wf v" and "valid_doc v d"
  shows "take (nat (buf_elems (sv_indptr v) ! (nat d + 1)) - nat (buf_elems (sv_indptr v) ! nat d))
      (drop (nat (buf_elems (sv_indptr v) ! nat d)) (buf_elems (sv_indices v))) = map fst (row_of dec v d)"
    "decode_array dec (sv_element_size v) (nat (buf_elems (sv_indptr v) ! (nat d + 1)) - nat (buf_elems (sv_indptr v) ! nat d))
      (drop (nat (buf_elems (sv_indptr v) ! nat d) * sv_element_size v) (buf_elems (sv_values v))) = map snd (row_of dec v d)"
    "nat d + 1 < length (buf_elems (sv_indptr v))"
    "\<forall>j < length (row_of dec v d). length (code_at (sv_element_size v) (buf_elems (sv_values v))
       (nat (buf_elems (sv_indptr v) ! nat d) + j)) = sv_element_size v"
proof -
  let ?ip = "buf_elems (sv_indptr v)" and ?ix = "buf_elems (sv_indices v)" and ?vs = "buf_elems (sv_values v)"
  let ?es = "sv_element_size v"
  have d: "0 \<le> d" "nat d < num_vectors v" using assms(2) by (auto simp: valid_doc_def)
  note w = sv_rows_wf [OF assms(1) le_less_trans [OF le0 d(2)]]
  show i1: "nat d + 1 < length ?ip" using w(2) d(2) by simp
  define s where "s = nat (?ip ! nat d)"
  define e where "e = nat (?ip ! (nat d + 1))"
  note b = csr_row_bounds [OF w(1) i1]
  have se: "s \<le> e" "e \<le> length ?ix" using b(2,3) by (simp_all add: s_def e_def)
  have vs: "length ?vs = length ?ix * ?es" using w(1) by (simp add: csr_wf_def)
  have row: "row_of dec v d = map (\<lambda>j. (?ix ! j, dec (code_at ?es ?vs j))) [s..<e]"
    by (simp add: row_of_def s_def e_def)
  show "take (nat (?ip ! (nat d + 1)) - nat (?ip ! nat d)) (drop (nat (?ip ! nat d)) ?ix) = map fst (row_of dec v d)"
    unfolding row s_def [symmetric] e_def [symmetric] by (rule nth_equalityI) (use se in simp_all)
  have le: "e * ?es \<le> length ?vs" using vs se by simp
  have "decode_array dec ?es (e - s) (drop (s * ?es) ?vs) = map (\<lambda>j. dec (code_at ?es (drop (s * ?es) ?vs) j)) [0..<e - s]"
    by (rule decode_array_code_at) (use le in \<open>simp add: diff_mult_distrib\<close>)
  also have "\<dots> = map (\<lambda>j. dec (code_at ?es ?vs (s + j))) [0..<e - s]"
    by (simp add: code_at_def distrib_right add.commute)
  also have "\<dots> = map snd (row_of dec v d)"
    unfolding row by (rule nth_equalityI) simp_all
  finally show "decode_array dec ?es (nat (?ip ! (nat d + 1)) - nat (?ip ! nat d)) (drop (nat (?ip ! nat d) * ?es) ?vs) =
      map snd (row_of dec v d)" by (simp add: s_def e_def)
  show "\<forall>j < length (row_of dec v d). length (code_at ?es ?vs (nat (?ip ! nat d) + j)) = ?es"
    unfolding row s_def [symmetric] using length_code_at [OF _ vs] se by simp
qed

text \<open>Vectors that hold codes of the quantizer's width, in rows of distinct terms below \<open>n\<close>.\<close>

definition holds_codes :: "size_t \<Rightarrow> nat \<Rightarrow> sparse_vectors \<Rightarrow> bool" where
  "holds_codes es n v \<longleftrightarrow> sv_content_wf v \<and> sv_element_size v = es \<and>
     (\<forall>d. valid_doc v d \<longrightarrow> accumulates es (length (row_of int_code v d)) \<and>
        distinct (map fst (row_of int_code v d)) \<and> (\<forall>t \<in> set (map fst (row_of int_code v d)). t < n))"

text \<open>A query as the terms and the codes of its weights.\<close>

definition code_query :: "size_t \<Rightarrow> term_t list \<Rightarrow> byte list \<Rightarrow> (term_t \<times> int) list" where
  "code_query es ts bytes = zip ts (map (\<lambda>i. int_code (code_at es bytes i)) [0..<length ts])"

lemma code_score_of_dot:
  assumes v: "holds_codes es n v" and d: "valid_doc v d"
    and q: "distinct ts" "length bytes = length ts * es"
  shows "code_score_of dec of_i v (concat (chunk_row es n ts (map (code_at es bytes) [0..<length ts]))) d =
    Inr (of_i (dot (code_query es ts bytes) (row_of int_code v d)))"
proof -
  have wf: "sv_content_wf v" and es: "sv_element_size v = es"
    and row: "accumulates es (length (row_of int_code v d))" "distinct (map fst (row_of int_code v d))"
      "\<forall>t \<in> set (map fst (row_of int_code v d)). t < n"
    using v d by (auto simp: holds_codes_def)
  let ?r = "row_of le_nat v d" and ?cs = "map (\<lambda>i. le_nat (code_at es bytes i)) [0..<length ts]"
  have int_row: "row_of int_code v d = map (\<lambda>(t, w). (t, int w)) ?r"
    by (simp add: row_of_def int_code_def comp_def)
  have fsts: "map fst (row_of int_code v d) = map fst ?r" unfolding int_row by (induction ?r) auto
  have lens: "length (row_of int_code v d) = length ?r" unfolding int_row by simp
  have es': "es = 1 \<or> es = 2" using row(1) by (auto simp: accumulates_def U8_def U16_def)
  note p = row_of_pointers(1,2,4) [OF wf d, where dec = le_nat, unfolded es]
  have w: "\<forall>w \<in> set (map snd ?r). w < 256 ^ es"
  proof
    fix w assume "w \<in> set (map snd ?r)"
    then obtain j where j: "j < length ?r" "w = snd (?r ! j)" by (metis in_set_conv_nth length_map nth_map)
    then have "w = le_nat (code_at es (buf_elems (sv_values v)) (nat (buf_elems (sv_indptr v) ! nat d) + j))"
      by (simp add: row_of_def es)
    then show "w < 256 ^ es" using le_nat_less [of "code_at es (buf_elems (sv_values v)) (nat (buf_elems (sv_indptr v) ! nat d) + j)"]
      p(3) j(1) by simp
  qed
  have "le_nat (code_at es bytes i) < 256 ^ es" if "i < length ts" for i
    using le_nat_less [of "code_at es bytes i"] length_code_at [OF that q(2)] by simp
  then have c: "\<forall>w \<in> set ?cs. w < 256 ^ es" by simp
  have dense: "typed_array es le_nat (concat (chunk_row es n ts (map (code_at es bytes) [0..<length ts]))) = densify n ts ?cs"
    using typed_chunk_row [of "map (code_at es bytes) [0..<length ts]" es le_nat n ts] length_code_at [OF _ q(2)] es'
    by (auto simp: comp_def)
  have query: "zip ts (map int ?cs) = code_query es ts bytes" by (simp add: code_query_def int_code_def comp_def)
  have "(if es = U16 then dot_product_uint16_dense of_i (map fst ?r) (map snd ?r) (densify n ts ?cs)
      else dot_product_uint8_dense of_i (map fst ?r) (map snd ?r) (densify n ts ?cs)) =
    Inr (of_i (dot (code_query es ts bytes) (row_of int_code v d)))"
    unfolding query [symmetric] int_row
    by (rule code_dot_ok) (use row q(1) w c in \<open>simp_all only: lens fsts length_map length_upt diff_zero\<close>)
  moreover have "\<not> d < 0" using d by (simp add: valid_doc_def)
  moreover have "csr_wf es (buf_elems (sv_indptr v)) (buf_elems (sv_indices v)) (buf_elems (sv_values v))"
    using sv_rows_wf(1) [OF wf] d es by (simp add: valid_doc_def)
  note compute_similarity_wf [OF this row_of_pointers(3) [OF wf d], of dec of_i]
  ultimately show ?thesis
    using p(1,2) row_of_pointers(3) [OF wf d] es' dense
    by (auto simp: code_score_of_def Let_def es U32_def U16_def)
qed

section \<open>The search is exact when summaries bound their documents\<close>

definition bounds_codes ::
  "(byte list \<Rightarrow> 'w) \<Rightarrow> (nat \<Rightarrow> 'w) \<Rightarrow> sparse_vectors \<Rightarrow> 'w :: linordered_idom \<Rightarrow> term_t list \<Rightarrow> byte list \<Rightarrow> clusters \<Rightarrow> bool" where
  "bounds_codes dec conv v heap_factor ts bytes cl \<longleftrightarrow>
     (\<exists>scores. score_summaries_transposed dec conv cl ts bytes = Inr scores \<and>
        list_bounded cl scores (\<lambda>d. of_int (dot (code_query (sv_element_size v) ts bytes) (row_of int_code v d)))
          heap_factor (valid_doc v))"

lemma sx_query_list_inv:
  fixes hf :: "'w :: linordered_idom"
  assumes v: "holds_codes es n v" and q: "distinct ts" "length bytes = length ts * es"
    and b: "bounds_codes dec conv v hf ts bytes cl" and hf: "0 \<le> hf"
    and inv: "walk_inv k (\<lambda>d. of_int (dot (code_query es ts bytes) (row_of int_code v d))) (selected_by sel) seen st"
  shows "\<exists>st'. sx_query_single_inverted_list dec conv of_int v cl
      (concat (chunk_row es n ts (map (code_at es bytes) [0..<length ts]))) ts bytes hf first sel st = Inr st' \<and>
    walk_inv k (\<lambda>d. of_int (dot (code_query es ts bytes) (row_of int_code v d))) (selected_by sel)
      (set (list_docs cl) \<union> seen) st'"
proof (cases "cl_n_clusters cl = 0")
  case True
  then show ?thesis using inv by (simp add: sx_query_single_inverted_list_def list_docs_def)
next
  case False
  have es: "sv_element_size v = es" using v by (simp add: holds_codes_def)
  obtain scores where sc: "score_summaries_transposed dec conv cl ts bytes = Inr scores"
    "list_bounded cl scores (\<lambda>d. of_int (dot (code_query es ts bytes) (row_of int_code v d))) hf (valid_doc v)"
    using b by (auto simp: bounds_codes_def es)
  show ?thesis
    using walk_bounded_list [OF inv hf sc(2) code_score_of_dot [where dec = dec and of_i = of_int, OF v _ q], of first] False sc(1)
    by (simp add: sx_query_single_inverted_list_def)
qed


lemma decode_scale:
  fixes sq :: "'w :: floor_ceiling quantizer"
  assumes "sq_ok sq" and "sq_ok query_sq"
  shows "\<exists>c > 0. \<forall>x. decode_dot_product of_int sq x query_sq = x * c"
proof -
  let ?m = "of_int (sq_max sq) :: 'w"
  let ?c = "(sq_vmax sq - sq_vmin sq) * (sq_vmax query_sq - sq_vmin query_sq) / (?m * ?m)"
  have "0 < ?m" using sq_max_bounds(1) [of sq] by simp
  then have "0 < ?c" using assms by simp
  moreover have "decode_dot_product of_int sq x query_sq = x * ?c" for x
    by (simp add: decode_dot_product_def Let_def sq_max_def)
  ultimately show ?thesis by blast
qed

text \<open>Scaling by a positive factor keeps the best.\<close>

lemma is_topk_map:
  assumes "is_topk k fst (mset xs) (mset best)" and "0 < (c :: 'w :: linordered_idom)"
  shows "is_topk k fst (mset (map (\<lambda>(s, d). (s * c, d)) xs)) (mset (map (\<lambda>(s, d). (s * c, d)) best))"
proof -
  let ?f = "\<lambda>(s, d). (s * c, d)"
  have sub: "mset best \<subseteq># mset xs" and le: "\<And>a b. a \<in># mset xs - mset best \<Longrightarrow> b \<in># mset best \<Longrightarrow> fst a \<le> fst b"
    and sz: "size (mset best) = min k (size (mset xs))"
    using assms(1) by (auto simp: is_topk_def)
  have diff: "mset (map ?f xs) - mset (map ?f best) = image_mset ?f (mset xs - mset best)"
    using sub by (simp add: image_mset_Diff)
  have "fst a \<le> fst b" if ab: "a \<in># image_mset ?f (mset xs - mset best)" "b \<in># mset (map ?f best)" for a b
  proof -
    obtain a' b' where "a' \<in># mset xs - mset best" "a = ?f a'" "b' \<in># mset best" "b = ?f b'"
      using ab by auto
    then show ?thesis using le [of a' b'] assms(2) by (auto simp: case_prod_unfold)
  qed
  then show ?thesis unfolding is_topk_def diff using sub sz by (auto simp: image_mset_subseteq_mono)
qed

lemma walk_best_scaled:
  fixes s :: "idx_t \<Rightarrow> 'w :: linordered_idom"
  assumes inv: "walk_inv (nat k) s P (set ds) (h, visited)" and ds: "distinct ds"
    and items: "topk_items_descending h = (scores, ids)" and c: "0 < c"
  shows "best_of k (map (\<lambda>d. (s d * c, d)) (filter P ds))
    (resize (nat k) (- 1) (map (\<lambda>x. x * c) scores), resize (nat k) INVALID_IDX ids)"
proof -
  let ?xs = "map (\<lambda>d. (s d, d)) (filter P ds)"
  have "mset_set {d \<in> set ds. P d} = mset (filter P ds)"
    using mset_set_set [of "filter P ds"] ds by simp
  then have "doc_items s P (set ds) = image_mset pair_item (mset ?xs)"
    by (simp add: doc_items_def multiset.map_comp o_def pair_item_def)
  then have "topk_inv (nat k) (image_mset pair_item (mset ?xs)) h" using inv by (simp add: walk_inv_def)
  note p = topk_items_pairs [OF this items]
  let ?best = "map (\<lambda>(s, d). (s * c, d)) (zip scores ids)"
  have "sorted_wrt (\<lambda>a b. b \<le> a) scores"
    unfolding p(3) by (intro sorted_wrt_take) (simp add: sorted_wrt_rev)
  then have "sorted_wrt (\<lambda>a b. b \<le> a) (map (\<lambda>x. x * c) scores)"
    using c by (simp add: sorted_wrt_map)
  moreover have "map fst ?best = map (\<lambda>x. x * c) scores" "map snd ?best = ids"
    using p(1) by (auto intro: nth_equalityI)
  moreover have "map (\<lambda>d. (s d * c, d)) (filter P ds) = map (\<lambda>(s, d). (s * c, d)) ?xs" by simp
  ultimately show ?thesis
    unfolding best_of_def using is_topk_map [OF p(4) c] by (intro exI [of _ ?best]) (simp add: o_def)
qed


text \<open>The decoded score of a document for a query, and the codes of a query's weights.\<close>

definition sq_score ::
  "'w quantizer \<Rightarrow> 'w quantizer \<Rightarrow> sparse_vectors \<Rightarrow> term_t list \<Rightarrow> byte list \<Rightarrow> idx_t \<Rightarrow> 'w :: floor_ceiling" where
  "sq_score sq query_sq v ts bytes d =
     decode_dot_product of_int sq (of_int (dot (code_query (bytes_per_value sq) ts bytes) (row_of int_code v d))) query_sq"

lemma sx_single_query_best:
  fixes sq :: "'w :: floor_ceiling quantizer"
  assumes v: "holds_codes (bytes_per_value sq) n v" and nv: "0 < num_vectors v"
    and q: "distinct ts" "\<forall>t \<in> set ts. t < n" "length bytes = length ts * bytes_per_value sq"
    and k: "0 < k" and hf: "0 \<le> hf" and ok: "sq_ok sq" "sq_ok query_sq"
    and b: "\<forall>cl \<in> set cls. bounds_codes dec conv v hf ts bytes cl"
  shows "\<exists>r. sx_single_query dec conv of_int sq v cls ts bytes (bytes_per_value sq) cuts k hf query_sq sel
      (replicate (n * bytes_per_value sq) 0) = Inr (r, replicate (n * bytes_per_value sq) 0) \<and>
    best_of k (map (\<lambda>d. (sq_score sq query_sq v ts bytes d, d)) (filter (selected_by sel) (visited_docs cls cuts))) r"
proof -
  let ?es = "bytes_per_value sq"
  let ?s = "\<lambda>d. of_int (dot (code_query ?es ts bytes) (row_of int_code v d)) :: 'w"
  let ?d = "concat (chunk_row ?es n ts (map (code_at ?es bytes) [0..<length ts]))"
  note dense = scatter_codes_ok [OF q(2,3)]
  obtain h where h: "topk_new k = Inr (h :: ('w, idx_t) topk_holder)"
    using k by (simp add: topk_new_def throw_if_not_positive_def)
  have step: "\<exists>st'. sx_query_single_inverted_list dec conv of_int v (cls ! t) ?d ts bytes hf first sel st = Inr st' \<and>
      walk_inv (nat k) ?s (selected_by sel) (set (list_docs (cls ! t)) \<union> seen) st'"
    if "t < length cls" "walk_inv (nat k) ?s (selected_by sel) seen st" for t first st seen
    by (rule sx_query_list_inv [OF v q(1,3) _ hf that(2)]) (use b that(1) in simp)
  have "\<exists>st first. foldE (\<lambda>(st, first) t. if t \<ge> length cls then Inr (st, first)
      else bindE (sx_query_single_inverted_list dec conv of_int v (cls ! t) ?d ts bytes hf first sel st)
             (\<lambda>st. Inr (st, False))) ((h, []), True) cuts = Inr (st, first) \<and>
    walk_inv (nat k) ?s (selected_by sel) ((\<Union>t \<in> set cuts \<inter> {..<length cls}. set (list_docs (cls ! t))) \<union> {}) st"
    by (rule walk_lists_inv [OF walk_inv_new [OF h]], rule step)
  then obtain st first where st: "foldE (\<lambda>(st, first) t. if t \<ge> length cls then Inr (st, first)
      else bindE (sx_query_single_inverted_list dec conv of_int v (cls ! t) ?d ts bytes hf first sel st)
             (\<lambda>st. Inr (st, False))) ((h, []), True) cuts = Inr (st, first)"
    "walk_inv (nat k) ?s (selected_by sel) ((\<Union>t \<in> set cuts \<inter> {..<length cls}. set (list_docs (cls ! t))) \<union> {}) st"
    by (elim exE conjE) (rule that)
  obtain holder visited where s: "st = (holder, visited)" by (cases st)
  have inv: "walk_inv (nat k) ?s (selected_by sel) (set (visited_docs cls cuts)) (holder, visited)"
    using st(2) by (simp add: s set_visited_docs)
  obtain scores ids where items: "topk_items_descending holder = (scores, ids)"
    by (cases "topk_items_descending holder")
  have "distinct (visited_docs cls cuts)" by (simp add: visited_docs_def)
  obtain c where c: "0 < c" "\<And>x. decode_dot_product of_int sq x query_sq = x * c"
    using decode_scale [OF ok] by blast
  from walk_best_scaled [OF inv \<open>distinct (visited_docs cls cuts)\<close> items c(1)] show ?thesis
    using nv by (simp add: sx_single_query_def dense h st(1) s items c(2) sq_score_def)
qed

text \<open>Batches of queries, and the row of one query with its codes.\<close>

definition queries_ok :: "'w batch \<Rightarrow> bool" where
  "queries_ok = (\<lambda>(ip, ix, vs). csr_wf 1 ip ix vs \<and> 2 \<le> length ip \<and> length ix * 4 \<le> SIZE_MAX)"

lemma length_sq_code_bytes: "length (sq_code_bytes of_i lround sq x) = bytes_per_value sq"
  by (simp add: sq_code_bytes_def)

lemma length_sq_encode: "length (sq_encode of_i lround sq xs) = length xs * bytes_per_value sq"
  by (induction xs) (simp_all add: sq_encode_def encode_array_def length_sq_code_bytes)

lemma encode_queries_ok:
  assumes "queries_ok (ip, ix, vs)"
  shows "encode_queries of_i lround sq (int (length ip) - 1) ip vs = Inr (sq_encode of_i lround sq vs)"
proof -
  have ip: "ip \<noteq> []" "last ip = int (length ix)" "length vs = length ix" and sz: "length ix * 4 \<le> SIZE_MAX"
    using assms by (auto simp: queries_ok_def csr_wf_def)
  have "nat (int (length ip) - 1) = length ip - 1" by simp
  moreover have "size_of_int (int (length ix)) = length ix" using sz by (simp add: is_i64_def SIZE_MAX_def)
  ultimately show ?thesis
    using ip by (simp add: encode_queries_def read_at_def take_elems_def last_conv_nth)
qed

lemma code_row_docs:
  assumes b: "queries_ok (ip, ix, vs)" and i: "i < length (batch_docs (ip, ix, vs))"
  shows "code_row (bytes_per_value sq) ip ix (sq_encode of_i lround sq vs) i =
    Inr (map fst (batch_docs (ip, ix, vs) ! i), sq_encode of_i lround sq (map snd (batch_docs (ip, ix, vs) ! i)))"
proof -
  have wf: "csr_wf 1 ip ix vs" using b by (simp add: queries_ok_def)
  have i1: "i + 1 < length ip" using i by (simp add: batch_docs_def csr_rows_def)
  define s where "s = nat (ip ! i)"
  define e where "e = nat (ip ! (i + 1))"
  let ?es = "bytes_per_value sq" and ?cs = "map (sq_code_bytes of_i lround sq) vs"
  note r = csr_row_bounds [OF wf i1, folded s_def e_def]
  have len: "length vs = length ix" using wf by (simp add: csr_wf_def)
  have q: "batch_docs (ip, ix, vs) ! i = zip (slice s e ix) (slice s e vs)"
    using i1 by (simp add: batch_docs_def csr_rows_def nth_tl s_def e_def)
  have se: "s \<le> e" using r by (simp add: s_def e_def)
  have n: "nat (ip ! (i + 1) - ip ! i) = e - s" using r by (simp add: s_def e_def nat_diff_distrib')
  have l: "length (slice s e ix) = length (slice s e vs)" by (simp add: slice_def len)
  have chunk: "length c = ?es" if "c \<in> set ?cs" for c using that by (auto simp: length_sq_code_bytes)
  have "drop (s * ?es) (concat ?cs) = concat (drop s ?cs)" by (rule concat_chunk_drop [OF chunk])
  moreover have "take ((e - s) * ?es) (concat (drop s ?cs)) = concat (take (e - s) (drop s ?cs))"
    by (rule concat_chunk_take) (use chunk in \<open>auto dest: in_set_dropD\<close>)
  moreover have "length (concat (drop s ?cs)) = (length vs - s) * ?es"
    by (subst length_concat_chunks [where k = ?es]) (use chunk in \<open>auto dest: in_set_dropD\<close>)
  moreover have "(e - s) * ?es \<le> (length vs - s) * ?es" using r(3) len by (intro mult_le_mono1) simp
  ultimately have "take_elems ((e - s) * ?es) (drop (s * ?es) (sq_encode of_i lround sq vs)) =
      Inr (sq_encode of_i lround sq (slice s e vs))"
    by (simp add: take_elems_def sq_encode_def encode_array_def slice_def take_map drop_map)
  moreover have "take_elems (e - s) (drop s ix) = Inr (slice s e ix)"
    using r(3) by (simp add: take_elems_def slice_def)
  ultimately show ?thesis
    unfolding q using row_span_Inr [OF i1 r(1,2), folded s_def e_def] l by (simp add: code_row_def)
qed


lemma code_cuts_ok: "0 < q_cut \<Longrightarrow> \<exists>cuts. code_cuts es ts bytes q_cut = Inr cuts"
  unfolding code_cuts_def by (auto intro: top_k_tokens_ok)

lemma query_quantizer_width:
  "query_quantizer fin sq params = Inr query_sq \<Longrightarrow> bytes_per_value query_sq = bytes_per_value sq"
  by (auto simp: query_quantizer_def sq_new_def bytes_per_value_def split: option.splits search_params.splits if_splits)

text \<open>
  C32: exact answers of the quantized index. Let the stored rows be short enough for the integer
  accumulators, and let the summaries bound the documents of their clusters for every query of the
  batch, encoded with the range of the index or of the search parameters. Then whatever clusters are
  skipped, each query is answered with the \<open>k\<close> best decoded scores of the selected documents of the
  lists its heaviest codes name, padded with -1 and the invalid id; and the schedule of the threads
  does not matter.
\<close>

theorem sq_search_exact:
  fixes st :: "'w :: floor_ceiling seismic_sq_index"
  assumes "sx_vectors st = Some v" and "holds_codes (bytes_per_value (sx_sq st)) (nat (sx_dimension st)) v"
    and "0 < num_vectors v" and "queries_ok (ip, ix, vs)" and "docs_wf (nat (sx_dimension st)) (batch_docs (ip, ix, vs))"
    and "0 < k" and "seismic_cut_and_factor params = (q_cut, hf)" and "0 < q_cut" and "0 \<le> hf"
    and "\<not> should_run_exact_match (params_selector params) k"
    and "query_quantizer fin (sx_sq st) params = Inr query_sq" and "sq_ok (sx_sq st)" and "sq_ok query_sq"
    and "\<forall>q \<in> set (batch_docs (ip, ix, vs)). \<forall>cl \<in> set (sx_lists st).
      bounds_codes dec conv v hf (map fst q) (sq_encode of_int round_half query_sq (map snd q)) cl"
  shows "\<exists>results. sx_search dec conv of_int round_half fin thread st (int (length ip) - 1) ip ix vs k params = Inr results \<and>
    list_all2 (\<lambda>q r. let codes = sq_encode of_int round_half query_sq (map snd q) in
      \<exists>cuts. code_cuts (bytes_per_value (sx_sq st)) (map fst q) codes q_cut = Inr cuts \<and>
      best_of k (map (\<lambda>d. (sq_score (sx_sq st) query_sq v (map fst q) codes d, d))
        (filter (selected_by (params_selector params)) (visited_docs (sx_lists st) cuts))) r)
      (batch_docs (ip, ix, vs)) results"
proof -
  let ?qs = "batch_docs (ip, ix, vs)" and ?es = "bytes_per_value (sx_sq st)" and ?sel = "params_selector params"
  let ?z = "replicate (nat (sx_dimension st) * ?es) 0"
  let ?codes = "\<lambda>q. sq_encode of_int round_half query_sq (map snd q)"
  let ?best = "\<lambda>q r. let codes = ?codes q in \<exists>cuts. code_cuts ?es (map fst q) codes q_cut = Inr cuts \<and>
      best_of k (map (\<lambda>d. (sq_score (sx_sq st) query_sq v (map fst q) codes d, d)) (filter (selected_by ?sel) (visited_docs (sx_lists st) cuts))) r"
  let ?q = "\<lambda>dense i. bindE (code_row ?es ip ix (sq_encode of_int round_half query_sq vs) i) (\<lambda>(q_idx, bytes).
      bindE (code_cuts ?es q_idx bytes q_cut) (\<lambda>cuts.
      sx_single_query dec conv of_int (sx_sq st) v (sx_lists st) q_idx bytes ?es cuts k hf query_sq ?sel dense))"
  note es = query_quantizer_width [OF assms(11)]
  have len: "length ?qs = nat (int (length ip) - 1)" "int (length ip) - 1 \<noteq> 0"
    using assms(4) by (auto simp: batch_docs_def csr_rows_def queries_ok_def)
  have each: "\<exists>r. ?q ?z i = Inr (r, ?z) \<and> ?best (?qs ! i) r" if i: "i < length ?qs" for i
  proof -
    let ?d = "?qs ! i"
    obtain cuts where cuts: "code_cuts ?es (map fst ?d) (?codes ?d) q_cut = Inr cuts"
      using code_cuts_ok [OF assms(8)] by blast
    have d: "distinct (map fst ?d)" "\<forall>t \<in> set (map fst ?d). t < nat (sx_dimension st)"
      using assms(5) i by (auto simp: docs_wf_def)
    have l: "length (?codes ?d) = length (map fst ?d) * ?es" by (simp add: length_sq_encode es)
    have b: "\<forall>cl \<in> set (sx_lists st). bounds_codes dec conv v hf (map fst ?d) (?codes ?d) cl"
      using assms(14) i by simp
    show ?thesis
      using sx_single_query_best [OF assms(2,3) d l assms(6,9,12,13) b, of cuts ?sel]
        code_row_docs [OF assms(4) i, of query_sq of_int round_half] cuts
      by (auto simp: es Let_def)
  qed
  then have scratch: "d = ?z" if "i < nat (int (length ip) - 1)" "?q ?z i = Inr (r, d)" for i r d
    using that len(1) by fastforce
  have run: "\<exists>r. bindE (?q ?z i) (\<lambda>(r, _). Inr r) = Inr r \<and> ?best (?qs ! i) r" if "i < length ?qs" for i
    using each [OF that] by force
  obtain results where "mapE (\<lambda>i. bindE (?q ?z i) (\<lambda>(r, _). Inr r)) [0..<nat (int (length ip) - 1)] = Inr results"
    "list_all2 ?best ?qs results"
    using mapE_list_all2 [of ?qs "\<lambda>i. bindE (?q ?z i) (\<lambda>(r, _). Inr r)" ?best, OF run] len(1) by auto
  then have "bindE (run_batch ?q thread (\<lambda>_. ?z) (nat (int (length ip) - 1))) (\<lambda>(rs, _). Inr rs) = Inr results"
    using run_batch_scratch [of "nat (int (length ip) - 1)" ?q ?z thread, OF scratch] by simp
  then have "sx_search dec conv of_int round_half fin thread st (int (length ip) - 1) ip ix vs k params = Inr results"
    unfolding sx_search_def assms(1,7,11) option.case Let_def prod.case if_not_P [OF len(2)] if_not_P [OF assms(10)]
      encode_queries_ok [OF assms(4)] bindE.simps .
  then show ?thesis using \<open>list_all2 ?best ?qs results\<close> by blast
qed


theorem sq_search_exact_witness:
  "\<exists>cl results. list_docs cl = [0, 1] \<and>
    sx_search (\<lambda>_. 0) of_nat of_int round_half (\<lambda>_. True) (\<lambda>_. 0)
      \<lparr>sx_dimension = 2, sx_vectors = Some \<lparr>sv_indptr = buf_own [0, 2, 3], sv_indices = buf_own [0, 1, 1],
         sv_values = buf_own [3, 5, 2], sv_element_size = 1, sv_dimension = 2\<rparr>, sx_lists = [cl_default, cl],
        sx_params = kDefaultSeismicClusterParams (1 :: rat), sx_spill = sp_new,
        sx_sq = \<lparr>sq_type = QT_8bit, sq_vmin = 0, sq_vmax = 255\<rparr>\<rparr> 1 [0, 1] [1] [4] 1 None = Inr results \<and>
    list_all2 (\<lambda>q r. best_of 1 [(20, 0), (8, 1)] r) [[(1 :: nat, 4 :: rat)]] results"
proof -
  obtain v where w: "v = \<lparr>sv_indptr = buf_own [0, 2, 3], sv_indices = buf_own [0, 1, 1],
         sv_values = buf_own [3, 5, 2], sv_element_size = 1, sv_dimension = 2\<rparr>" by blast
  let ?cl = "\<lparr>cl_n_clusters = 1, cl_element_size = 1, cl_docs = buf_own [0, 1], cl_offsets = buf_own [0, 2],
    cl_term_ids = buf_own [1], cl_term_ptr = buf_own [0, 1], cl_csc_cluster = buf_own [0], cl_csc_value = buf_own [5]\<rparr>"
  let ?sq = "\<lparr>sq_type = QT_8bit, sq_vmin = 0, sq_vmax = 255 :: rat\<rparr>"
  let ?st = "\<lparr>sx_dimension = 2, sx_vectors = Some v, sx_lists = [cl_default, ?cl],
        sx_params = kDefaultSeismicClusterParams (1 :: rat), sx_spill = sp_new, sx_sq = ?sq\<rparr>"
  have row: "row_of int_code v 0 = [(0, 3), (1, 5)]" "row_of int_code v 1 = [(1, 2)]"
    by (simp_all add: w row_of_def code_at_def int_code_def upt_rec)
  have docs: "valid_doc v d \<longleftrightarrow> d = 0 \<or> d = 1" for d
    by (auto simp: w valid_doc_def num_vectors_def buf_empty_def buf_size_def)
  have es_v: "sv_element_size v = 1" by (simp add: w)
  have es: "bytes_per_value ?sq = 1" by (simp add: bytes_per_value_def)
  have v: "sx_vectors ?st = Some v" "holds_codes (bytes_per_value (sx_sq ?st)) (nat (sx_dimension ?st)) v" "0 < num_vectors v"
    by (auto simp: holds_codes_def docs row [simplified] es accumulates_def U8_def)
      (simp_all add: w sv_content_wf_def csr_wf_def num_vectors_def buf_empty_def buf_size_def)
  have q: "batch_docs ([0, 1], [1], [4 :: rat]) = [[(1, 4)]]" by (simp add: batch_docs_def csr_rows_def slice_def)
  have b: "queries_ok ([0, 1], [1], [4 :: rat])" "docs_wf (nat (sx_dimension ?st)) (batch_docs ([0, 1], [1], [4 :: rat]))"
    unfolding q by (simp_all add: queries_ok_def csr_wf_def SIZE_MAX_def docs_wf_def)
  have p: "seismic_cut_and_factor (None :: rat search_params option) = (10, 1)"
    "\<not> should_run_exact_match (params_selector (None :: rat search_params option)) 1"
    "query_quantizer (\<lambda>_. True) (sx_sq ?st) None = Inr ?sq" "sq_ok (sx_sq ?st)" "sq_ok ?sq"
    by (simp_all add: seismic_cut_and_factor_def should_run_exact_match_def params_selector_def query_quantizer_def)
  have "\<lfloor>4 + 1 / 2 :: rat\<rfloor> = 4" by (rule floor_unique) simp_all
  then have "sq_code of_int round_half ?sq 4 = 4"
    by (simp add: sq_code_def encode_8bit_def clamp_code_def round_half_def kMax8bit_def Let_def)
  then have codes: "sq_encode of_int round_half ?sq [4] = [4]"
    by (simp add: sq_encode_def encode_array_def sq_code_bytes_def es)
  have lb: "lower_bound [1] (1 :: nat) = 0" by (simp add: lower_bound_def lower_bound_from.simps)
  have score: "score_summaries_transposed (\<lambda>_. 0) of_nat ?cl [1] [4] = Inr [20 :: rat]"
    by (simp add: score_summaries_transposed_def score_summaries_typed_def score_term_def buf_empty_def buf_size_def
        lb [simplified] value_at_def U32_def U16_def buf_get_def read_at_def store_def Let_def)
  have dl: "get_docs ?cl 0 = Inr [0, 1]" by (simp add: get_docs_def doc_span_def buf_size_def take_elems_def)
  have cq: "code_query 1 [1] [4] = [(1, 4)]" by (simp add: code_query_def code_at_def int_code_def)
  have "bounds_codes (\<lambda>_. 0) of_nat v (1 :: rat) [1] [4] ?cl"
    using dl docs row es_v unfolding bounds_codes_def
    by (intro exI [of _ "[20]"]) (simp add: score [simplified] list_bounded_def cq [simplified] dot_def)
  moreover have "bounds_codes (\<lambda>_. 0) of_nat v (1 :: rat) [1] [4] cl_default"
    by (simp add: bounds_codes_def list_bounded_def score_summaries_transposed_def cl_default_def)
  ultimately have h: "\<forall>q \<in> set (batch_docs ([0, 1], [1], [4])). \<forall>cl \<in> set (sx_lists ?st).
      bounds_codes (\<lambda>_. 0) of_nat v (1 :: rat) (map fst q) (sq_encode of_int round_half ?sq (map snd q)) cl"
    unfolding q by (simp add: codes)
  have e: "(0 :: int) < 1" "(0 :: int) < 10" "(0 :: rat) \<le> 1" by simp_all
  have l: "list_docs ?cl = [0, 1]" using dl by (simp add: list_docs_def)
  have vis: "visited_docs [cl_default, ?cl] [1] = [0, 1]" using l by (simp add: visited_docs_def)
  have s: "sq_score ?sq ?sq v [1] [4] 0 = 20" "sq_score ?sq ?sq v [1] [4] 1 = 8"
    by (simp_all add: sq_score_def es cq [simplified] row [simplified] dot_def decode_dot_product_def kMax8bit_def Let_def)
  have cuts: "code_cuts 1 [1] [4] 10 = Inr [1]" by (simp add: code_cuts_def top_k_tokens_def U16_def)
  obtain results where r: "sx_search (\<lambda>_. 0) of_nat of_int round_half (\<lambda>_. True) (\<lambda>_. 0) ?st (int (length [0, 1 :: int]) - 1) [0, 1] [1] [4] 1 None = Inr results"
    "list_all2 (\<lambda>q r. let codes = sq_encode of_int round_half ?sq (map snd q) in
      \<exists>cuts. code_cuts (bytes_per_value (sx_sq ?st)) (map fst q) codes 10 = Inr cuts \<and>
      best_of 1 (map (\<lambda>d. (sq_score (sx_sq ?st) ?sq v (map fst q) codes d, d))
        (filter (selected_by (params_selector (None :: rat search_params option))) (visited_docs (sx_lists ?st) cuts))) r)
      (batch_docs ([0, 1], [1], [4])) results"
    using sq_search_exact [OF v b e(1) p(1) e(2,3) p(2,3,4,5) h, of "\<lambda>_. 0"]
    by (elim exE conjE) (rule that)
  have "list_all2 (\<lambda>q r. best_of 1 [(20, 0), (8, 1)] r) [[(1 :: nat, 4 :: rat)]] results"
    using r(2) unfolding q by (auto simp: list_all2_Cons1 codes es cuts [simplified] vis [simplified] s [simplified] selected_by_def params_selector_def Let_def)
  then show ?thesis using r(1) l unfolding w by (intro exI [of _ ?cl] exI [of _ results]) simp
qed

section \<open>The file\<close>

lemma round_trips_read_value:
  assumes "length (enc x) = 4" and "dec (enc x) = x" and "length (enc initial) = 4"
  shows "round_trips mk_reader (write_value enc x) (read_value enc dec initial) ((=) x)"
proof (rule round_tripsI)
  fix w rest :: "byte list"
  show "\<exists>out y. write_value enc x w = Inr (w @ out) \<and> x = y \<and>
    read_value enc dec initial (mk_reader (w @ out @ rest) (length w)) = Inr (y, mk_reader (w @ out @ rest) (length w + length out))"
    using assms buffered_read_mk [of "enc x" 4 1 w rest]
    by (intro exI [of _ "enc x"] exI [of _ x]) (simp add: write_value_def buffered_write_def read_value_def)
qed

lemma round_trips_map_value:
  assumes "length (enc x) = 4" and "dec (enc x) = x"
  shows "round_trips (mk_cursor base) (write_value enc x) (map_value dec) ((=) x)"
proof (rule round_tripsI)
  fix w rest :: "byte list"
  show "\<exists>out y. write_value enc x w = Inr (w @ out) \<and> x = y \<and>
    map_value dec (mk_cursor base (w @ out @ rest) (length w)) = Inr (y, mk_cursor base (w @ out @ rest) (length w + length out))"
    using assms
    by (intro exI [of _ "enc x"] exI [of _ x])
      (simp add: write_value_def buffered_write_def map_value_def cursor_ensure_def mk_cursor_def)
qed

lemma quantization_header_round_trip:
  assumes "round_trips mk (write_nat 1 (type_byte (sq_type sq))) rn ((=) (type_byte (sq_type sq)))"
    and "round_trips mk (write_value enc (sq_vmin sq)) rl ((=) (sq_vmin sq))"
    and "round_trips mk (write_value enc (sq_vmax sq)) rh ((=) (sq_vmax sq))"
    and "sq_new fin (sq_type sq) (sq_vmin sq) (sq_vmax sq) = Inr sq"
  shows "round_trips mk (write_quantization_header enc sq)
    (\<lambda>r. bindE (rn r) (\<lambda>(t, r). bindE (rl r) (\<lambda>(lo, r). bindE (rh r) (\<lambda>(hi, r).
       bindE (quantizer_from_file fin t lo hi) (\<lambda>sq. Inr (sq, r)))))) ((=) sq)"
proof -
  have q: "quantizer_from_file fin (type_byte (sq_type sq)) (sq_vmin sq) (sq_vmax sq) = Inr sq"
    using assms(4) by (cases "sq_type sq") (simp_all add: quantizer_from_file_def type_byte_def)
  have "round_trips mk (write_value enc (sq_vmax sq))
      (\<lambda>r. bindE (rh r) (\<lambda>(hi, r). bindE (quantizer_from_file fin (type_byte (sq_type sq)) (sq_vmin sq) hi) (\<lambda>sq. Inr (sq, r)))) ((=) sq)"
  proof (rule round_tripsI)
    fix w rest
    show "\<exists>out y. write_value enc (sq_vmax sq) w = Inr (w @ out) \<and> sq = y \<and>
        bindE (rh (mk (w @ out @ rest) (length w))) (\<lambda>(hi, r). bindE (quantizer_from_file fin (type_byte (sq_type sq)) (sq_vmin sq) hi) (\<lambda>sq. Inr (sq, r))) =
        Inr (y, mk (w @ out @ rest) (length w + length out))"
      using assms(3) [unfolded round_trips_def, rule_format, of w rest] q by auto
  qed
  then have "round_trips mk (\<lambda>w. bindE (write_value enc (sq_vmin sq) w) (write_value enc (sq_vmax sq)))
      (\<lambda>r. bindE (rl r) (\<lambda>(lo, r). bindE (rh r) (\<lambda>(hi, r). bindE (quantizer_from_file fin (type_byte (sq_type sq)) lo hi) (\<lambda>sq. Inr (sq, r))))) ((=) sq)"
    by (intro round_trips_bind [OF assms(2)]) simp
  then show ?thesis
    unfolding write_quantization_header_def [abs_def] by (intro round_trips_bind [OF assms(1)]) simp
qed


definition same_sq_index :: "'w seismic_sq_index \<Rightarrow> 'w seismic_sq_index \<Rightarrow> bool" where
  "same_sq_index st st' \<longleftrightarrow> sx_dimension st' = sx_dimension st \<and> sx_sq st' = sx_sq st \<and>
     rel_option same_content (sx_vectors st) (sx_vectors st') \<and> list_all2 same_clusters (sx_lists st) (sx_lists st')"

definition sx_wire :: "('w \<Rightarrow> bool) \<Rightarrow> 'w :: ord seismic_sq_index \<Rightarrow> bool" where
  "sx_wire fin st \<longleftrightarrow> (\<exists>v. sx_vectors st = Some v \<and> sv_wire v \<and> 0 < num_vectors v \<and>
       sv_element_size v = bytes_per_value (sx_sq st)) \<and>
     sq_new fin (sq_type (sx_sq st)) (sq_vmin (sx_sq st)) (sq_vmax (sx_sq st)) = Inr (sx_sq st) \<and>
     (\<forall>cl \<in> set (sx_lists st). cl_wire cl) \<and> length (sx_lists st) \<le> SIZE_MAX"

lemma type_byte_less: "type_byte t < 256 ^ 1"
  by (cases t) (simp_all add: type_byte_def)

lemma sx_read_round_trip:
  assumes "sx_wire fin st" and "\<And>x. length (enc x) = 4" and "\<And>x. dec (enc x) = x"
  shows "round_trips mk_reader (sx_write_index enc st) (sx_read_index enc dec fin (sx_new (sx_dimension st) params)) (same_sq_index st)"
proof -
  obtain v where v: "sx_vectors st = Some v" "sv_wire v" "0 < num_vectors v" "sv_element_size v = bytes_per_value (sx_sq st)"
    and sq: "sq_new fin (sq_type (sx_sq st)) (sq_vmin (sx_sq st)) (sq_vmax (sx_sq st)) = Inr (sx_sq st)"
    and cls: "\<forall>cl \<in> set (sx_lists st). cl_wire cl" "length (sx_lists st) \<le> SIZE_MAX"
    using assms(1) by (auto simp: sx_wire_def)
  let ?msg = "''index file's element size disagrees with its quantizer type''" and ?st = "sx_new (sx_dimension st) params"
  let ?d3 = "\<lambda>sq v' r. bindE (throw_if_element_size_mismatch (bytes_per_value sq) ?msg v') (\<lambda>_.
     let st' = (if num_vectors v' > 0 then ?st\<lparr>sx_sq := sq, sx_vectors := Some v'\<rparr> else ?st\<lparr>sx_sq := sq\<rparr>)
     in bindE (slw_deserialize r) (\<lambda>(cls, r). Inr (st'\<lparr>sx_lists := cls\<rparr>, r)))"
  have "round_trips mk_reader (slw_serialize False (sx_lists st)) (?d3 (sx_sq st) v') (same_sq_index st)"
    if "same_content v v' \<and> sv_growable v'" for v'
  proof -
    have c: "same_content v v'" using that by simp
    have "round_trips mk_reader (slw_serialize False (sx_lists st))
        (\<lambda>r. bindE (slw_deserialize r) (\<lambda>(cls, r). Inr (?st\<lparr>sx_sq := sx_sq st, sx_vectors := Some v', sx_lists := cls\<rparr>, r))) (same_sq_index st)"
      by (rule round_trips_map [OF slw_round_trip [OF cls, of False]]) (simp add: same_sq_index_def sx_new_def v(1) c)
    then show ?thesis
      using v(3) by (simp add: same_content_size_ok [OF c v(4,3)] same_content_num [OF c])
  qed
  note payload = round_trips_bind [where ?d2.0 = "?d3 (sx_sq st)", OF sv_round_trip [OF v(2,3), of sv_default] this]
  have "round_trips mk_reader (write_quantization_header enc (sx_sq st)) (read_quantization_header enc dec fin) ((=) (sx_sq st))"
    unfolding read_quantization_header_def [abs_def]
    by (rule quantization_header_round_trip [OF round_trips_read_nat round_trips_read_value round_trips_read_value sq])
      (simp_all add: assms(2,3) type_byte_less [simplified])
  from round_trips_bind [where ?d2.0 = "\<lambda>sq r. bindE (sv_deserialize sv_default r) (\<lambda>(v', r'). ?d3 sq v' r')", OF this] payload
  have "round_trips mk_reader (\<lambda>w. bindE (write_quantization_header enc (sx_sq st) w) (\<lambda>w. bindE (sv_serialize v w) (slw_serialize False (sx_lists st))))
     (\<lambda>r. bindE (read_quantization_header enc dec fin r) (\<lambda>(sq, r). bindE (sv_deserialize sv_default r) (\<lambda>(v', r'). ?d3 sq v' r'))) (same_sq_index st)"
    by simp
  moreover have "sx_write_index enc st = (\<lambda>w. bindE (write_quantization_header enc (sx_sq st) w) (\<lambda>w. bindE (sv_serialize v w) (slw_serialize False (sx_lists st))))"
    "sx_read_index enc dec fin ?st = (\<lambda>r. bindE (read_quantization_header enc dec fin r) (\<lambda>(sq, r). bindE (sv_deserialize sv_default r) (\<lambda>(v', r'). ?d3 sq v' r')))"
    by (intro ext, simp add: sx_write_index_def sx_read_index_def v(1))+
  ultimately show ?thesis by simp
qed

lemma sx_map_round_trip:
  assumes "sx_wire fin st" and "\<And>x. length (enc x) = 4" and "\<And>x. dec (enc x) = x" and "8 dvd base"
  shows "round_trips (mk_cursor base) (sx_write_index enc st) (sx_map_payload dec fin (sx_new (sx_dimension st) params)) (same_sq_index st)"
proof -
  obtain v where v: "sx_vectors st = Some v" "sv_wire v" "0 < num_vectors v" "sv_element_size v = bytes_per_value (sx_sq st)"
    and sq: "sq_new fin (sq_type (sx_sq st)) (sq_vmin (sx_sq st)) (sq_vmax (sx_sq st)) = Inr (sx_sq st)"
    and cls: "\<forall>cl \<in> set (sx_lists st). cl_wire cl" "length (sx_lists st) \<le> SIZE_MAX"
    using assms(1) by (auto simp: sx_wire_def)
  let ?msg = "''index file's element size disagrees with its quantizer type''" and ?st = "sx_new (sx_dimension st) params"
  let ?d3 = "\<lambda>sq v' c. bindE (throw_if_element_size_mismatch (bytes_per_value sq) ?msg v') (\<lambda>_.
     bindE (slw_mmap_deserialize c) (\<lambda>(cls, c).
     let st' = ?st\<lparr>sx_sq := sq, sx_lists := cls\<rparr>
     in Inr (if num_vectors v' > 0 then st'\<lparr>sx_vectors := Some v'\<rparr> else st', c)))"
  have "round_trips (mk_cursor base) (slw_serialize False (sx_lists st)) (?d3 (sx_sq st) v') (same_sq_index st)"
    if c: "same_content v v'" for v'
  proof -
    have "round_trips (mk_cursor base) (slw_serialize False (sx_lists st))
        (\<lambda>c. bindE (slw_mmap_deserialize c) (\<lambda>(cls, c). Inr (?st\<lparr>sx_sq := sx_sq st, sx_lists := cls, sx_vectors := Some v'\<rparr>, c))) (same_sq_index st)"
      by (rule round_trips_map [OF slw_map_round_trip [OF cls assms(4), of False]]) (simp add: same_sq_index_def sx_new_def v(1) c)
    then show ?thesis
      using v(3) by (simp add: same_content_size_ok [OF c v(4,3)] same_content_num [OF c])
  qed
  note payload = round_trips_bind [where ?d2.0 = "?d3 (sx_sq st)", OF sv_map_round_trip [OF v(2,3) assms(4)] this]
  have "round_trips (mk_cursor base) (write_quantization_header enc (sx_sq st)) (map_quantization_header dec fin) ((=) (sx_sq st))"
    unfolding map_quantization_header_def [abs_def]
    by (rule quantization_header_round_trip [OF round_trips_map_nat round_trips_map_value round_trips_map_value sq])
      (simp_all add: assms(2,3) type_byte_less [simplified])
  from round_trips_bind [where ?d2.0 = "\<lambda>sq c. bindE (sv_mmap_deserialize (Some c)) (\<lambda>(v', c'). ?d3 sq v' c')", OF this] payload
  have "round_trips (mk_cursor base) (\<lambda>w. bindE (write_quantization_header enc (sx_sq st) w) (\<lambda>w. bindE (sv_serialize v w) (slw_serialize False (sx_lists st))))
     (\<lambda>c. bindE (map_quantization_header dec fin c) (\<lambda>(sq, c). bindE (sv_mmap_deserialize (Some c)) (\<lambda>(v', c'). ?d3 sq v' c'))) (same_sq_index st)"
    by simp
  moreover have "sx_write_index enc st = (\<lambda>w. bindE (write_quantization_header enc (sx_sq st) w) (\<lambda>w. bindE (sv_serialize v w) (slw_serialize False (sx_lists st))))"
    "sx_map_payload dec fin ?st = (\<lambda>c. bindE (map_quantization_header dec fin c) (\<lambda>(sq, c). bindE (sv_mmap_deserialize (Some c)) (\<lambda>(v', c'). ?d3 sq v' c')))"
    by (intro ext, simp add: sx_write_index_def sx_map_payload_def v(1))+
  ultimately show ?thesis by simp
qed

lemma sx_single_query_same:
  assumes "same_content v v'" and "list_all2 same_clusters cls cls'"
  shows "sx_single_query dec conv of_i sq v' cls' ts bs es cuts k hf qsq sel dense =
    sx_single_query dec conv of_i sq v cls ts bs es cuts k hf qsq sel dense"
proof (cases "num_vectors v = 0")
  case False
  have len: "length cls' = length cls" using list_all2_lengthD [OF assms(2)] by simp
  have score: "code_score_of dec of_i v' d = code_score_of dec of_i v d" for d
    using False assms(1) by (intro ext) (simp add: code_score_of_def same_content_def)
  have "sx_query_single_inverted_list dec conv of_i v' (cls' ! t) d ts bs hf first sel st =
      sx_query_single_inverted_list dec conv of_i v (cls ! t) d ts bs hf first sel st" if "t < length cls" for t d first st
  proof -
    have c: "same_clusters (cls ! t) (cls' ! t)" using assms(2) that by (rule list_all2_nthD)
    then show ?thesis
      by (simp add: sx_query_single_inverted_list_def same_clusters_scores [OF c] ext [where f = "get_docs (cls' ! t)", OF same_clusters_docs [OF c]] score)
        (simp add: same_clusters_def)
  qed
  then have "(\<lambda>(st, first_list) t. if t \<ge> length cls' then Inr (st, first_list)
      else bindE (sx_query_single_inverted_list dec conv of_i v' (cls' ! t) d ts bs hf first_list sel st) (\<lambda>st. Inr (st, False))) =
    (\<lambda>(st, first_list) t. if t \<ge> length cls then Inr (st, first_list)
      else bindE (sx_query_single_inverted_list dec conv of_i v (cls ! t) d ts bs hf first_list sel st) (\<lambda>st. Inr (st, False)))" for d
    by (intro ext) (auto simp: len)
  then show ?thesis
    unfolding sx_single_query_def same_content_num [OF assms(1)] by presburger
qed (simp add: sx_single_query_def same_content_num [OF assms(1)])

lemma sx_search_same:
  assumes s: "same_sq_index st st'" and "sx_vectors st \<noteq> None"
  shows "sx_search dec conv of_i lround fin thread st' n ip ix vs k p = sx_search dec conv of_i lround fin thread st n ip ix vs k p"
proof -
  obtain v v' where v: "sx_vectors st = Some v" "sx_vectors st' = Some v'" "same_content v v'"
    using s assms(2) by (auto simp: same_sq_index_def option_rel_Some1)
  have l: "list_all2 same_clusters (sx_lists st) (sx_lists st')" "sx_dimension st' = sx_dimension st" "sx_sq st' = sx_sq st"
    using s by (simp_all add: same_sq_index_def)
  have single: "sx_single_query dec conv of_i (sx_sq st) v' (sx_lists st') = sx_single_query dec conv of_i (sx_sq st) v (sx_lists st)"
    by (intro ext) (rule sx_single_query_same [OF v(3) l(1)])
  show ?thesis
    unfolding sx_search_def v(1,2) option.case l(2,3) single exact_search_same [OF v(3)] ..
qed

text \<open>
  C33: a quantized index written with \<open>write_index\<close> is the same index when it is read back or
  mapped in place: the same quantizer, codes and clusters, so that every search of the copy gives
  the same results. The quantizer's range is one its constructor accepts.
\<close>

theorem sq_index_file_round_trip:
  assumes "sx_wire fin st" and "\<And>x. length (enc x) = 4" and "\<And>x. dec (enc x) = x" and "8 dvd base"
  shows "round_trips mk_reader (sx_write_index enc st) (sx_read_index enc dec fin (sx_new (sx_dimension st) params)) (same_sq_index st) \<and>
    round_trips (mk_cursor base) (sx_write_index enc st) (sx_map_payload dec fin (sx_new (sx_dimension st) params)) (same_sq_index st) \<and>
    (\<forall>st' dec conv of_i lround fin thread n ip ix (vs :: 'w :: {zero, one, uminus, plus, minus, times, inverse, ord} list) k p. same_sq_index st st' \<longrightarrow>
      sx_search dec conv of_i lround fin thread st' n ip ix vs k p = sx_search dec conv of_i lround fin thread st n ip ix vs k p)"
proof -
  have "sx_vectors st \<noteq> None" using assms(1) by (auto simp: sx_wire_def)
  then show ?thesis using sx_read_round_trip [OF assms(1-3)] sx_map_round_trip [OF assms] sx_search_same by blast
qed

theorem sq_index_file_round_trip_witness:
  "round_trips (mk_cursor 4096)
     (sx_write_index f32_bytes \<lparr>sx_dimension = 9, sx_vectors = Some \<lparr>sv_indptr = buf_own [0, 1], sv_indices = buf_own [4],
        sv_values = buf_own [200], sv_element_size = 1, sv_dimension = 9\<rparr>, sx_lists = [cl_new [[4, 2], [7]]],
        sx_params = kDefaultSeismicClusterParams 1, sx_spill = sp_new,
        sx_sq = \<lparr>sq_type = QT_8bit, sq_vmin = 0, sq_vmax = 1\<rparr>\<rparr>)
     (sx_map_payload f32_of_bytes f32_finite (sx_new 9 (kDefaultSeismicClusterParams 1)))
     (\<lambda>st. sx_sq st = \<lparr>sq_type = QT_8bit, sq_vmin = 0, sq_vmax = 1\<rparr>)"
proof -
  let ?st = "\<lparr>sx_dimension = 9, sx_vectors = Some \<lparr>sv_indptr = buf_own [0, 1], sv_indices = buf_own [4],
        sv_values = buf_own [200], sv_element_size = 1, sv_dimension = 9\<rparr>, sx_lists = [cl_new [[4, 2], [7]]],
        sx_params = kDefaultSeismicClusterParams (1 :: f32), sx_spill = sp_new,
        sx_sq = \<lparr>sq_type = QT_8bit, sq_vmin = 0, sq_vmax = 1\<rparr>\<rparr>"
  have "cl_wire (cl_new [[4, 2], [7]])"
    by (simp add: cl_wire_def cl_new_def cl_default_def U32_def SIZE_MAX_def vector_max_size_def is_i32_def i32_def)
  moreover have "f32_finite (0 :: f32)" "f32_finite (1 :: f32)" "\<not> (1 :: f32) \<le> 0"
    by code_simp+
  ultimately have w: "sx_wire f32_finite ?st" "(8 :: nat) dvd 4096"
    by (simp_all add: sx_wire_def sv_wire_def sv_content_wf_def csr_wf_def num_vectors_def buf_empty_def buf_size_def
        U8_def U16_def U32_def U64_def SIZE_MAX_def vector_max_size_def bytes_per_value_def sq_new_def)
  have "round_trips (mk_cursor 4096) (sx_write_index f32_bytes ?st)
      (sx_map_payload f32_of_bytes f32_finite (sx_new 9 (kDefaultSeismicClusterParams 1))) (same_sq_index ?st)"
    using sq_index_file_round_trip [OF w(1) length_f32_bytes f32_of_bytes_f32_bytes w(2), of "kDefaultSeismicClusterParams 1"] by simp
  then show ?thesis by (rule round_trips_mono) (simp add: same_sq_index_def)
qed

end
