(* ===== verification/Inline_Forward.thy ===== *)
theory Inline_Forward
  imports KMeans
begin

text \<open>
  \<^verbatim>\<open>inline_forward_index.h\<close> and \<^verbatim>\<open>io/inline_forward_index_io.cpp\<close>: the forward index of the disk-resident
  Seismic indexes. Each block (cluster) holds copies of its documents' vectors, contiguous in the file;
  a directory locates the blocks. It is written from the clusters and the vectors and read in place
  from a mapping. The main theorems: what is read back is what the clusters and vectors hold, block by
  block; and whatever bytes are mapped, no read leaves the section.

  Offsets and lengths are natural numbers: sections are taken to be shorter than \<open>2 ^ 64\<close> bytes.
\<close>

section \<open>The format\<close>

datatype inline_layout = PageAligned | Packed

definition kMinBlockAlign :: nat where "kMinBlockAlign = 8"
definition kInlineCompWidth :: nat where "kInlineCompWidth = 2"
definition kInlineBlockPrefixSize :: nat where "kInlineBlockPrefixSize = 4"
definition kHeaderSize :: nat where "kHeaderSize = 24"
definition kEntrySize :: nat where "kEntrySize = 32"
definition kTrailerSize :: nat where "kTrailerSize = 24"
definition kDefaultPageSize :: nat where "kDefaultPageSize = 4096"
definition INT32_MAX :: nat where "INT32_MAX = 2147483647"
definition UINT32_MAX :: nat where "UINT32_MAX = 4294967295"

definition u32 :: "nat \<Rightarrow> nat" where "u32 n = n mod 4294967296"

record inline_header =
  ih_element_size :: nat
  ih_n_blocks :: nat
  ih_page_size :: nat

record dir_entry =
  de_pl :: nat
  de_block :: nat
  de_byte_off :: nat
  de_len :: nat
  de_n_docs :: nat
  de_reserved :: nat

record inline_trailer =
  it_dir_offset :: nat
  it_n_entries :: nat
  it_n_lists :: nat

text \<open>The structures as the compiler lays them out; the header has four bytes of padding.\<close>

definition header_bytes :: "inline_header \<Rightarrow> byte list" where
  "header_bytes h = le_bytes 4 (ih_element_size h) @ replicate 4 0 @ le_bytes 8 (ih_n_blocks h) @ le_bytes 8 (ih_page_size h)"

definition header_of_bytes :: "byte list \<Rightarrow> inline_header" where
  "header_of_bytes bs = \<lparr>ih_element_size = le_nat (take 4 bs), ih_n_blocks = le_nat (take 8 (drop 8 bs)),
     ih_page_size = le_nat (take 8 (drop 16 bs))\<rparr>"

definition entry_bytes :: "dir_entry \<Rightarrow> byte list" where
  "entry_bytes e = le_bytes 4 (de_pl e) @ le_bytes 4 (de_block e) @ le_bytes 8 (de_byte_off e) @ le_bytes 8 (de_len e) @
     le_bytes 4 (de_n_docs e) @ le_bytes 4 (de_reserved e)"

definition entry_of_bytes :: "byte list \<Rightarrow> dir_entry" where
  "entry_of_bytes bs = \<lparr>de_pl = le_nat (take 4 bs), de_block = le_nat (take 4 (drop 4 bs)),
     de_byte_off = le_nat (take 8 (drop 8 bs)), de_len = le_nat (take 8 (drop 16 bs)),
     de_n_docs = le_nat (take 4 (drop 24 bs)), de_reserved = le_nat (take 4 (drop 28 bs))\<rparr>"

definition trailer_bytes :: "inline_trailer \<Rightarrow> byte list" where
  "trailer_bytes t = le_bytes 8 (it_dir_offset t) @ le_bytes 8 (it_n_entries t) @ le_bytes 8 (it_n_lists t)"

definition trailer_of_bytes :: "byte list \<Rightarrow> inline_trailer" where
  "trailer_of_bytes bs = \<lparr>it_dir_offset = le_nat (take 8 bs), it_n_entries = le_nat (take 8 (drop 8 bs)),
     it_n_lists = le_nat (take 8 (drop 16 bs))\<rparr>"

definition inline_align_up :: "nat \<Rightarrow> nat \<Rightarrow> nat" where
  "inline_align_up offset alignment = ((offset + alignment - 1) div alignment) * alignment"

record block_offsets =
  bo_doc_ids :: nat
  bo_off :: nat
  bo_comps :: nat
  bo_vals :: nat
  bo_end :: nat

definition inline_block_offsets :: "nat \<Rightarrow> nat \<Rightarrow> nat \<Rightarrow> block_offsets" where
  "inline_block_offsets n_docs total_nnz element_size =
     (let doc_ids = kInlineBlockPrefixSize;
          off = doc_ids + n_docs * 4;
          comps = off + (n_docs + 1) * 4;
          comps_end = comps + total_nnz * kInlineCompWidth;
          vals = inline_align_up comps_end element_size
      in \<lparr>bo_doc_ids = doc_ids, bo_off = off, bo_comps = comps, bo_vals = vals,
          bo_end = vals + total_nnz * element_size\<rparr>)"

section \<open>InlineForwardIndex\<close>

text \<open>
  In write mode the sources, in read mode the section: its bytes stand for the pointer
  \<open>block_base_\<close>.
\<close>

record inline_forward =
  if_source :: "(clusters list \<times> sparse_vectors) option"
  if_write_page_size :: nat
  if_write_layout :: inline_layout
  if_block_base :: "byte list"
  if_element_size :: size_t
  if_page_size :: nat
  if_entries :: "dir_entry list"
  if_list_offset :: "nat list"

definition if_default :: inline_forward where
  "if_default = \<lparr>if_source = None, if_write_page_size = kDefaultPageSize, if_write_layout = PageAligned,
     if_block_base = [], if_element_size = 0, if_page_size = 0, if_entries = [], if_list_offset = []\<rparr>"

text \<open>\<open>page_size & (page_size - 1)\<close> is zero.\<close>

definition power_of_two :: "nat \<Rightarrow> bool" where
  "power_of_two n \<longleftrightarrow> n \<noteq> 0 \<and> and n (n - 1) = 0"

definition if_new :: "clusters list \<Rightarrow> sparse_vectors \<Rightarrow> nat \<Rightarrow> inline_layout \<Rightarrow> exn + inline_forward" where
  "if_new cls vectors page_size layout =
     bindE (throw_if (layout = PageAligned \<and> (\<not> power_of_two page_size \<or> page_size < kHeaderSize))
       (Invalid_argument ''InlineForwardIndex: page_size must be a power of two and at least sizeof(InlineForwardIndexHeader)''))
     (\<lambda>_. Inr (if_default\<lparr>if_source := Some (cls, vectors), if_write_page_size := page_size, if_write_layout := layout\<rparr>))"

text \<open>A move: what is built and what is left behind.\<close>

definition if_move :: "inline_forward \<Rightarrow> inline_forward \<times> inline_forward" where
  "if_move other = (other, other\<lparr>if_source := None, if_block_base := [], if_element_size := 0, if_page_size := 0,
     if_entries := [], if_list_offset := []\<rparr>)"

definition num_blocks :: "inline_forward \<Rightarrow> nat" where
  "num_blocks fwd = length (if_entries fwd)"

definition num_lists :: "inline_forward \<Rightarrow> nat" where
  "num_lists fwd = (if if_list_offset fwd = [] then 0 else length (if_list_offset fwd) - 1)"

definition write_alignment :: "inline_forward \<Rightarrow> nat" where
  "write_alignment fwd = (case if_write_layout fwd of PageAligned \<Rightarrow> if_write_page_size fwd | Packed \<Rightarrow> kMinBlockAlign)"

subsection \<open>Writing\<close>

definition row_nnz :: "offset_t list \<Rightarrow> idx_t \<Rightarrow> nat" where
  "row_nnz indptr doc_id = size_of_int (i64 (indptr ! (nat doc_id + 1) - indptr ! nat doc_id))"

definition count_block :: "idx_t list \<Rightarrow> offset_t list \<Rightarrow> size_t \<Rightarrow> exn + nat \<times> nat" where
  "count_block docs indptr n_vectors =
     (if length docs > UINT32_MAX then Inl (Length_error ''InlineForwardIndex: block has more than 2^32 docs'')
      else bindE (foldE (\<lambda>total_nnz doc_id.
               if doc_id < 0 \<or> nat doc_id \<ge> n_vectors
               then Inl (Out_of_range ''InlineForwardIndex: block references doc id'')
               else let total_nnz = total_nnz + row_nnz indptr doc_id
                    in if total_nnz > INT32_MAX
                       then Inl (Length_error ''InlineForwardIndex: block total nnz exceeds INT32_MAX'')
                       else Inr total_nnz)
             0 docs) (\<lambda>total_nnz. Inr (length docs, total_nnz)))"

definition check_element_size :: "size_t \<Rightarrow> exn + unit" where
  "check_element_size element_size = throw_if (element_size \<noteq> 1 \<and> element_size \<noteq> 2 \<and> element_size \<noteq> 4)
     (Invalid_argument ''InlineForwardIndex: element_size must be 1, 2, or 4'')"

definition total_blocks :: "clusters list \<Rightarrow> nat" where
  "total_blocks cls = sum_list (map cl_n_clusters cls)"

text \<open>The blocks of all lists, in the order both passes visit them.\<close>

definition block_addresses :: "clusters list \<Rightarrow> (nat \<times> nat) list" where
  "block_addresses cls = concat (map (\<lambda>pl. map (Pair pl) [0..<cl_n_clusters (cls ! pl)]) [0..<length cls])"

definition section_length :: "inline_forward \<Rightarrow> clusters list \<Rightarrow> sparse_vectors \<Rightarrow> exn + nat" where
  "section_length fwd cls vectors =
     (let element_size = sv_element_size vectors; align = write_alignment fwd
      in bindE (check_element_size element_size) (\<lambda>_.
         bindE (foldE (\<lambda>cur_off (pl, block).
             bindE (get_docs (cls ! pl) block) (\<lambda>docs.
             bindE (count_block docs (buf_elems (sv_indptr vectors)) (num_vectors vectors)) (\<lambda>(n_docs, total_nnz).
             Inr (inline_align_up (cur_off + bo_end (inline_block_offsets n_docs total_nnz element_size)) align))))
           (inline_align_up kHeaderSize align) (block_addresses cls)) (\<lambda>dir_offset.
         Inr (dir_offset + total_blocks cls * kEntrySize + kTrailerSize))))"

text \<open>A document's components and its value bytes.\<close>

definition doc_slice :: "sparse_vectors \<Rightarrow> idx_t \<Rightarrow> exn + term_t list \<times> byte list" where
  "doc_slice vectors doc_id =
     (let indptr = buf_elems (sv_indptr vectors); start = nat (indptr ! nat doc_id); nnz = row_nnz indptr doc_id;
          element_size = sv_element_size vectors
      in bindE (take_elems nnz (drop start (buf_elems (sv_indices vectors)))) (\<lambda>comps.
         bindE (take_elems (nnz * element_size) (drop (start * element_size) (buf_elems (sv_values vectors)))) (\<lambda>vals.
         Inr (comps, vals))))"

fun running_offsets :: "nat \<Rightarrow> nat list \<Rightarrow> nat list" where
  "running_offsets running [] = [u32 running]"
| "running_offsets running (n # ns) = u32 running # running_offsets (running + n) ns"

definition write_block :: "sparse_vectors \<Rightarrow> idx_t list \<Rightarrow> nat \<Rightarrow> writer \<Rightarrow> exn + writer" where
  "write_block vectors docs total_nnz w =
     (let element_size = sv_element_size vectors; n_docs = length docs;
          indptr = buf_elems (sv_indptr vectors);
          offsets = running_offsets 0 (map (row_nnz indptr) docs);
          layout = inline_block_offsets n_docs total_nnz element_size;
          w = buffered_write (le_bytes 4 n_docs) w;
          w = buffered_write (encode_array (\<lambda>d. le_bytes 4 (nat (d mod 4294967296))) docs) w;
          w = buffered_write (encode_array (le_bytes 4) offsets) w
      in bindE (mapE (doc_slice vectors) docs) (\<lambda>slices.
         let w = buffered_write (concat (map (\<lambda>(comps, _). encode_array term_bytes comps) slices)) w;
             comps_end = bo_comps layout + total_nnz * 2;
             w = buffered_write (replicate (bo_vals layout - comps_end) 0) w
         in Inr (buffered_write (concat (map snd slices)) w)))"

definition write_body :: "inline_forward \<Rightarrow> clusters list \<Rightarrow> sparse_vectors \<Rightarrow> writer \<Rightarrow> exn + writer" where
  "write_body fwd cls vectors w =
     (let element_size = sv_element_size vectors; align = write_alignment fwd;
          first_block_off = inline_align_up kHeaderSize align
      in bindE (check_element_size element_size) (\<lambda>_.
         let w = buffered_write (header_bytes \<lparr>ih_element_size = element_size, ih_n_blocks = total_blocks cls, ih_page_size = align\<rparr>) w;
             w = buffered_write (replicate (first_block_off - kHeaderSize) 0) w
         in bindE (foldE (\<lambda>(w, cur_off, entries) (pl, block).
               bindE (get_docs (cls ! pl) block) (\<lambda>docs.
               bindE (count_block docs (buf_elems (sv_indptr vectors)) (num_vectors vectors)) (\<lambda>(n_docs, total_nnz).
               bindE (write_block vectors docs total_nnz w) (\<lambda>w.
               let block_len = bo_end (inline_block_offsets n_docs total_nnz element_size);
                   padded = inline_align_up (cur_off + block_len) align;
                   w = buffered_write (replicate (padded - (cur_off + block_len)) 0) w
               in Inr (w, padded, entries @ [\<lparr>de_pl = u32 pl, de_block = u32 block, de_byte_off = cur_off,
                    de_len = block_len, de_n_docs = n_docs, de_reserved = 0\<rparr>])))))
             (w, first_block_off, []) (block_addresses cls)) (\<lambda>(w, dir_offset, entries).
            let w = buffered_write (encode_array entry_bytes entries) w
            in Inr (buffered_write (trailer_bytes \<lparr>it_dir_offset = dir_offset, it_n_entries = length entries,
                 it_n_lists = length cls\<rparr>) w))))"

definition if_serialize :: "inline_forward \<Rightarrow> writer option \<Rightarrow> exn + writer" where
  "if_serialize fwd writer =
     bindE (throw_if_null writer ''writer cannot be null'') (\<lambda>w.
     case if_source fwd of
       None \<Rightarrow> Inl (Logic_error ''InlineForwardIndex::serialize called on a read-mode index'')
     | Some (cls, vectors) \<Rightarrow>
         bindE (pad_to kMinBlockAlign w) (\<lambda>w.
         bindE (section_length fwd cls vectors) (\<lambda>section_len.
         bindE (write_size_t section_len w) (\<lambda>w.
         let body_start = writer_pos w
         in bindE (write_body fwd cls vectors w) (\<lambda>w.
            if writer_pos w - body_start \<noteq> section_len
            then Inl (Logic_error ''InlineForwardIndex: serialized body length disagrees with the computed section length'')
            else Inr w)))))"

definition if_deserialize :: "inline_forward \<Rightarrow> reader \<Rightarrow> exn + inline_forward \<times> reader" where
  "if_deserialize fwd r = Inl (Runtime_error ''InlineForwardIndex: deserialize unsupported; use mmap_deserialize'')"

subsection \<open>Reading\<close>

text \<open>One directory entry: its range, then its place in the order, then its list's cnt.\<close>

definition check_entry ::
  "nat \<Rightarrow> nat \<Rightarrow> (nat \<times> nat) option \<times> nat list \<Rightarrow> dir_entry \<Rightarrow> exn + (nat \<times> nat) option \<times> nat list" where
  "check_entry n_lists dir_offset = (\<lambda>(prev, list_offset) entry.
     if de_pl entry \<ge> n_lists \<or> de_len entry < kInlineBlockPrefixSize \<or> de_byte_off entry mod kMinBlockAlign \<noteq> 0 \<or>
        de_byte_off entry < kHeaderSize \<or> de_byte_off entry > dir_offset \<or> dir_offset - de_byte_off entry < de_len entry
     then Inl (Runtime_error ''InlineForwardIndex: corrupt directory entry'')
     else if (case prev of None \<Rightarrow> False | Some (prev_pl, _) \<Rightarrow> de_pl entry < prev_pl)
     then Inl (Runtime_error ''InlineForwardIndex: directory not ordered by (pl, block)'')
     else let expected_block = (case prev of None \<Rightarrow> 0
                | Some (prev_pl, prev_block) \<Rightarrow> if de_pl entry \<noteq> prev_pl then 0 else u32 (prev_block + 1))
          in if de_block entry \<noteq> expected_block
             then Inl (Runtime_error ''InlineForwardIndex: directory not ordered by (pl, block)'')
             else Inr (Some (de_pl entry, de_block entry),
                    list_offset[de_pl entry + 1 := list_offset ! (de_pl entry + 1) + 1]))"

fun list_starts :: "nat \<Rightarrow> nat list \<Rightarrow> nat list" where
  "list_starts acc [] = []"
| "list_starts acc (x # xs) = (acc + x) # list_starts (acc + x) xs"

definition load_directory :: "inline_forward \<Rightarrow> nat \<Rightarrow> byte list \<Rightarrow> exn + inline_forward" where
  "load_directory fwd base_addr sec =
     (let section_len = length sec
      in if section_len < kHeaderSize + kTrailerSize then Inl (Runtime_error ''InlineForwardIndex: section too small'')
         else if base_addr mod kMinBlockAlign \<noteq> 0 then Inl (Runtime_error ''InlineForwardIndex: section is under-aligned'')
         else let header = header_of_bytes (take kHeaderSize sec);
                  element_size = ih_element_size header; page_size = ih_page_size header
         in if element_size \<noteq> 1 \<and> element_size \<noteq> 2 \<and> element_size \<noteq> 4
            then Inl (Runtime_error ''InlineForwardIndex: bad element_size'')
            else if page_size < kMinBlockAlign \<or> and page_size (page_size - 1) \<noteq> 0
            then Inl (Runtime_error ''InlineForwardIndex: bad page_size'')
            else let trailer = trailer_of_bytes (take kTrailerSize (drop (section_len - kTrailerSize) sec));
                     n_lists = it_n_lists trailer; dir_end = section_len - kTrailerSize
            in if it_n_entries trailer \<noteq> ih_n_blocks header \<or> it_dir_offset trailer < kHeaderSize \<or> it_dir_offset trailer > dir_end
               then Inl (Runtime_error ''InlineForwardIndex: corrupt directory'')
               else let dir_bytes = dir_end - it_dir_offset trailer
               in if dir_bytes mod kEntrySize \<noteq> 0 \<or> dir_bytes div kEntrySize \<noteq> it_n_entries trailer
                  then Inl (Runtime_error ''InlineForwardIndex: corrupt directory'')
                  else let entries = decode_array entry_of_bytes kEntrySize (it_n_entries trailer)
                         (take dir_bytes (drop (it_dir_offset trailer) sec))
                  in if n_lists > 65536 then Inl (Runtime_error ''InlineForwardIndex: implausible n_lists'')
                     else bindE (foldE (check_entry n_lists (it_dir_offset trailer)) (None, replicate (n_lists + 1) 0) entries)
                       (\<lambda>(_, counts). Inr (fwd\<lparr>if_element_size := element_size, if_page_size := page_size,
                          if_entries := entries, if_list_offset := list_starts 0 counts\<rparr>)))"

definition if_mmap_deserialize :: "inline_forward \<Rightarrow> cursor option \<Rightarrow> exn + inline_forward \<times> cursor" where
  "if_mmap_deserialize fwd cur =
     bindE (throw_if_null cur ''cursor must not be null'') (\<lambda>c.
     bindE (cursor_skip_padding kMinBlockAlign c) (\<lambda>c.
     bindE (map_size_t c) (\<lambda>(section_len, c).
     if section_len > cursor_remaining c
     then Inl (Runtime_error ''InlineForwardIndex: section length overruns the mapping'')
     else let sec = take section_len (drop (mc_pos c) (mc_data c))
          in bindE (load_directory fwd (mc_base c + mc_pos c) sec) (\<lambda>fwd.
             bindE (cursor_skip section_len c) (\<lambda>c. Inr (fwd\<lparr>if_block_base := sec\<rparr>, c))))))"

text \<open>A block in place. An absent block has no document ids.\<close>

record block_view =
  bv_n_docs :: nat
  bv_doc_ids :: "nat list option"
  bv_offsets :: "nat list"
  bv_comps :: "term_t list"
  bv_vals :: "byte list"

definition bv_absent_view :: block_view where
  "bv_absent_view = \<lparr>bv_n_docs = 0, bv_doc_ids = None, bv_offsets = [], bv_comps = [], bv_vals = []\<rparr>"

definition bv_absent :: "block_view \<Rightarrow> bool" where
  "bv_absent bv \<longleftrightarrow> bv_doc_ids bv = None"

definition bv_nnz :: "block_view \<Rightarrow> nat \<Rightarrow> exn + nat" where
  "bv_nnz bv i = bindE (read_at (bv_offsets bv) i) (\<lambda>a. bindE (read_at (bv_offsets bv) (i + 1)) (\<lambda>b. Inr (b - a)))"

definition bv_doc_comps :: "block_view \<Rightarrow> nat \<Rightarrow> exn + term_t list" where
  "bv_doc_comps bv i = bindE (read_at (bv_offsets bv) i) (\<lambda>a. bindE (bv_nnz bv i) (\<lambda>n. take_elems n (drop a (bv_comps bv))))"

definition bv_doc_vals :: "size_t \<Rightarrow> block_view \<Rightarrow> nat \<Rightarrow> exn + byte list" where
  "bv_doc_vals element_size bv i = bindE (read_at (bv_offsets bv) i) (\<lambda>a. bindE (bv_nnz bv i) (\<lambda>n.
     take_elems (n * element_size) (drop (a * element_size) (bv_vals bv))))"

text \<open>\<open>n\<close> elements at an offset of the section; past its end is undefined.\<close>

definition section_array :: "byte list \<Rightarrow> nat \<Rightarrow> nat \<Rightarrow> nat \<Rightarrow> exn + nat list" where
  "section_array sec off sizeof n = bindE (take_elems (n * sizeof) (drop off sec)) (\<lambda>bs. Inr (decode_array le_nat sizeof n bs))"

definition view_block :: "inline_forward \<Rightarrow> dir_entry \<Rightarrow> exn + block_view" where
  "view_block fwd entry =
     (let sec = if_block_base fwd; base = de_byte_off entry; len = de_len entry; element_size = if_element_size fwd
      in bindE (section_array sec base 4 1) (\<lambda>prefix_words. let n_docs = hd prefix_words
      in if n_docs \<noteq> de_n_docs entry then Inl (Runtime_error ''InlineForwardIndex: block n_docs mismatch'')
         else let hdr = inline_block_offsets n_docs 0 element_size
         in if bo_comps hdr > len then Inl (Runtime_error ''InlineForwardIndex: block header overruns block'')
            else bindE (section_array sec (base + bo_doc_ids hdr) 4 n_docs) (\<lambda>doc_ids.
              bindE (section_array sec (base + bo_off hdr) 4 (n_docs + 1)) (\<lambda>offsets.
              if offsets ! 0 \<noteq> 0 then Inl (Runtime_error ''InlineForwardIndex: block offsets must start 0'')
              else if \<exists>i < n_docs. offsets ! (i + 1) < offsets ! i
              then Inl (Runtime_error ''InlineForwardIndex: block offsets not monotonic'')
              else let total_nnz = offsets ! n_docs; layout = inline_block_offsets n_docs total_nnz element_size
              in if bo_end layout \<noteq> len then Inl (Runtime_error ''InlineForwardIndex: block length mismatch'')
                 else bindE (section_array sec (base + bo_comps layout) 2 total_nnz) (\<lambda>comps.
                   bindE (take_elems (total_nnz * element_size) (drop (base + bo_vals layout) sec)) (\<lambda>vals.
                   Inr \<lparr>bv_n_docs = n_docs, bv_doc_ids = Some doc_ids, bv_offsets = offsets, bv_comps = comps, bv_vals = vals\<rparr>))))))"

definition num_blocks_in_list :: "inline_forward \<Rightarrow> nat \<Rightarrow> nat" where
  "num_blocks_in_list fwd pl =
     (if pl + 1 \<ge> length (if_list_offset fwd) then 0 else if_list_offset fwd ! (pl + 1) - if_list_offset fwd ! pl)"

definition block_at :: "inline_forward \<Rightarrow> nat \<Rightarrow> nat \<Rightarrow> exn + block_view" where
  "block_at fwd pl block =
     (if block \<ge> num_blocks_in_list fwd pl then Inr bv_absent_view
      else bindE (read_at (if_entries fwd) (if_list_offset fwd ! pl + block)) (\<lambda>entry.
           if de_pl entry \<noteq> pl \<or> de_block entry \<noteq> block then Inr bv_absent_view else view_block fwd entry))"


section \<open>Sizes and codecs\<close>

lemma length_header_bytes [simp]: "length (header_bytes h) = kHeaderSize"
  by (simp add: header_bytes_def kHeaderSize_def)

lemma length_entry_bytes [simp]: "length (entry_bytes e) = kEntrySize"
  by (simp add: entry_bytes_def kEntrySize_def)

lemma length_trailer_bytes [simp]: "length (trailer_bytes t) = kTrailerSize"
  by (simp add: trailer_bytes_def kTrailerSize_def)

lemma header_round_trip:
  assumes "ih_element_size h < 2 ^ 32" and "ih_n_blocks h < 2 ^ 64" and "ih_page_size h < 2 ^ 64"
  shows "header_of_bytes (header_bytes h) = h"
  using assms by (simp add: header_of_bytes_def header_bytes_def)

lemma entry_round_trip:
  assumes "de_pl e < 2 ^ 32" and "de_block e < 2 ^ 32" and "de_byte_off e < 2 ^ 64" and "de_len e < 2 ^ 64"
    and "de_n_docs e < 2 ^ 32" and "de_reserved e < 2 ^ 32"
  shows "entry_of_bytes (entry_bytes e) = e"
  using assms by (simp add: entry_of_bytes_def entry_bytes_def)

lemma trailer_round_trip:
  assumes "it_dir_offset t < 2 ^ 64" and "it_n_entries t < 2 ^ 64" and "it_n_lists t < 2 ^ 64"
  shows "trailer_of_bytes (trailer_bytes t) = t"
  using assms by (simp add: trailer_of_bytes_def trailer_bytes_def)

lemma align_up_ge: "0 < a \<Longrightarrow> n \<le> inline_align_up n a"
proof -
  assume a: "0 < a"
  have "n + a - 1 < (n + a - 1) div a * a + a"
    using a by (metis add.commute dividend_less_div_times)
  then show ?thesis using a by (simp add: inline_align_up_def)
qed

lemma align_up_dvd [simp]: "a dvd inline_align_up n a"
  by (simp add: inline_align_up_def)

lemma align_up_add:
  assumes "a dvd c" and "0 < a"
  shows "inline_align_up (c + n) a = c + inline_align_up n a"
proof -
  obtain k where k: "c = a * k" using assms(1) by (rule dvdE)
  have "c + n + a - 1 = a * k + (n + a - 1)" using assms(2) k by simp
  then have "(c + n + a - 1) div a = (a * k + (n + a - 1)) div a" by (simp only:)
  also have "\<dots> = k + (n + a - 1) div a" using assms(2) by (intro div_mult_self4) simp
  finally have "(c + n + a - 1) div a = k + (n + a - 1) div a" .
  then show ?thesis using k by (simp add: inline_align_up_def distrib_right)
qed

lemma align_up_less: "0 < a \<Longrightarrow> inline_align_up n a < n + a"
proof -
  assume a: "0 < a"
  have "(n + a - 1) div a * a \<le> n + a - 1" by simp
  then show ?thesis using a unfolding inline_align_up_def by linarith
qed

lemma inline_block_offsets_sel [simp]:
  "bo_doc_ids (inline_block_offsets n m es) = 4" "bo_off (inline_block_offsets n m es) = 4 + n * 4"
  "bo_comps (inline_block_offsets n m es) = 8 + n * 8"
  "bo_vals (inline_block_offsets n m es) = inline_align_up (8 + n * 8 + m * 2) es"
  "bo_end (inline_block_offsets n m es) = inline_align_up (8 + n * 8 + m * 2) es + m * es"
  by (simp_all add: inline_block_offsets_def Let_def kInlineBlockPrefixSize_def kInlineCompWidth_def ac_simps)

section \<open>No read leaves the section\<close>

lemma length_list_starts [simp]: "length (list_starts acc xs) = length xs"
  by (induction xs arbitrary: acc) simp_all

lemma list_starts_nth: "i < length xs \<Longrightarrow> list_starts acc xs ! i = acc + sum_list (take (Suc i) xs)"
proof (induction xs arbitrary: acc i)
  case (Cons x xs)
  then show ?case by (cases i) simp_all
qed simp

text \<open>A directory entry inside the blocks of a section.\<close>

definition entry_ok :: "nat \<Rightarrow> dir_entry \<Rightarrow> bool" where
  "entry_ok dir_offset e \<longleftrightarrow> 4 \<le> de_len e \<and> de_byte_off e + de_len e \<le> dir_offset"

lemma check_entry_ok:
  "check_entry n_lists dir_offset (prev, cnt) e = Inr (prev', cnt') \<Longrightarrow> length cnt = n_lists + 1 \<Longrightarrow>
     entry_ok dir_offset e \<and> length cnt' = n_lists + 1 \<and> sum_list cnt' = Suc (sum_list cnt)"
proof -
  assume c: "check_entry n_lists dir_offset (prev, cnt) e = Inr (prev', cnt')" and l: "length cnt = n_lists + 1"
  then have e: "\<not> de_pl e \<ge> n_lists" "\<not> de_len e < 4" "\<not> de_byte_off e > dir_offset" "\<not> dir_offset - de_byte_off e < de_len e"
    "cnt' = cnt[de_pl e + 1 := cnt ! (de_pl e + 1) + 1]"
    by (auto simp: check_entry_def Let_def kInlineBlockPrefixSize_def split: if_splits)
  have i: "de_pl e + 1 < length cnt" using e(1) l by simp
  have "cnt ! (de_pl e + 1) \<le> sum_list cnt" using i by (intro elem_le_sum_list) simp
  then have "sum_list cnt' = Suc (sum_list cnt)"
    unfolding e(5) using i by (simp add: sum_list_update)
  then show ?thesis using e l by (auto simp: entry_ok_def)
qed

lemma check_entries_ok:
  "foldE (check_entry n_lists dir_offset) (prev, cnt) es = Inr (prev', cnt') \<Longrightarrow> length cnt = n_lists + 1 \<Longrightarrow>
     (\<forall>e \<in> set es. entry_ok dir_offset e) \<and> length cnt' = n_lists + 1 \<and> sum_list cnt' = sum_list cnt + length es"
proof (induction es arbitrary: prev cnt)
  case (Cons e es)
  obtain prev1 cnt1 where s: "check_entry n_lists dir_offset (prev, cnt) e = Inr (prev1, cnt1)"
    "foldE (check_entry n_lists dir_offset) (prev1, cnt1) es = Inr (prev', cnt')"
    using Cons.prems(1) by (auto simp: err_simps)
  note e = check_entry_ok [OF s(1) Cons.prems(2)]
  with Cons.IH [OF s(2)] show ?case by auto
qed simp

text \<open>What a loaded directory guarantees.\<close>

definition fwd_ok :: "inline_forward \<Rightarrow> bool" where
  "fwd_ok fwd \<longleftrightarrow> if_element_size fwd \<in> {1, 2, 4} \<and>
     (\<forall>e \<in> set (if_entries fwd). entry_ok (length (if_block_base fwd)) e) \<and>
     (\<forall>pl. pl + 1 < length (if_list_offset fwd) \<longrightarrow> if_list_offset fwd ! (pl + 1) \<le> length (if_entries fwd))"

lemma load_directory_ok:
  assumes "load_directory fwd addr sec = Inr fwd'"
  shows "fwd_ok (fwd'\<lparr>if_block_base := sec\<rparr>)"
proof -
  define h where "h = header_of_bytes (take kHeaderSize sec)"
  define t where "t = trailer_of_bytes (take kTrailerSize (drop (length sec - kTrailerSize) sec))"
  define es where "es = decode_array entry_of_bytes kEntrySize (it_n_entries t)
    (take (length sec - kTrailerSize - it_dir_offset t) (drop (it_dir_offset t) sec))"
  obtain prev cnt where f: "foldE (check_entry (it_n_lists t) (it_dir_offset t)) (None, replicate (it_n_lists t + 1) 0) es = Inr (prev, cnt)"
    and fwd': "if_entries fwd' = es" "if_list_offset fwd' = list_starts 0 cnt" "if_element_size fwd' = ih_element_size h"
    and h: "ih_element_size h \<in> {1, 2, 4}" and d: "it_dir_offset t \<le> length sec - kTrailerSize"
    using assms unfolding load_directory_def Let_def h_def [symmetric] t_def [symmetric] es_def [symmetric]
    by (auto simp: err_simps split: if_splits)
  have "length es = it_n_entries t" by (simp add: es_def)
  have ok: "(\<forall>e \<in> set es. entry_ok (it_dir_offset t) e) \<and> length cnt = it_n_lists t + 1 \<and> sum_list cnt = length es"
    using check_entries_ok [OF f] by simp
  have "list_starts 0 cnt ! i \<le> length es" if "i < length cnt" for i
  proof -
    have "sum_list cnt = sum_list (take (Suc i) cnt) + sum_list (drop (Suc i) cnt)"
      by (metis append_take_drop_id sum_list_append)
    then show ?thesis using list_starts_nth [OF that, of 0] ok by linarith
  qed
  then show ?thesis using ok h d by (auto simp: fwd_ok_def fwd' entry_ok_def)
qed

definition not_ub :: "exn + 'a \<Rightarrow> bool" where
  "not_ub r \<longleftrightarrow> (case r of Inl (Undefined_behaviour _) \<Rightarrow> False | _ \<Rightarrow> True)"

lemma not_ub_simps [simp]: "not_ub (Inr x)" "not_ub (Inl (Runtime_error m))"
  by (simp_all add: not_ub_def)

lemma section_array_ok:
  "off + n * sizeof \<le> length sec \<Longrightarrow>
     section_array sec off sizeof n = Inr (decode_array le_nat sizeof n (take (n * sizeof) (drop off sec)))"
  by (simp add: section_array_def take_elems_def)


text \<open>A view whose arrays have the lengths its offsets say.\<close>

definition bv_ok :: "size_t \<Rightarrow> block_view \<Rightarrow> bool" where
  "bv_ok element_size bv \<longleftrightarrow> bv_absent bv \<or>
     (\<exists>ids. bv_doc_ids bv = Some ids \<and> length ids = bv_n_docs bv \<and> length (bv_offsets bv) = bv_n_docs bv + 1 \<and>
        sorted (bv_offsets bv) \<and> length (bv_comps bv) = last (bv_offsets bv) \<and>
        length (bv_vals bv) = last (bv_offsets bv) * element_size)"

lemma sorted_steps: "(\<forall>i. Suc i < length xs \<longrightarrow> xs ! i \<le> xs ! Suc i) \<Longrightarrow> sorted (xs :: nat list)"
  by (simp add: sorted_iff_nth_Suc)

lemma view_block_ok:
  assumes ok: "fwd_ok fwd" and e: "e \<in> set (if_entries fwd)"
  shows "not_ub (view_block fwd e) \<and> (\<forall>bv. view_block fwd e = Inr bv \<longrightarrow> bv_ok (if_element_size fwd) bv)"
proof -
  let ?sec = "if_block_base fwd" and ?b = "de_byte_off e" and ?es = "if_element_size fwd"
  have len: "4 \<le> de_len e" "?b + de_len e \<le> length ?sec" and es: "0 < ?es"
    using ok e by (auto simp: fwd_ok_def entry_ok_def)
  obtain n where n: "section_array ?sec ?b 4 1 = Inr [n]"
    using section_array_ok [of ?b 1 4 ?sec] len by simp
  show ?thesis
  proof (cases "n = de_n_docs e \<and> 8 + n * 8 \<le> de_len e")
    case False
    then show ?thesis using n [simplified] by (auto simp: view_block_def Let_def)
  next
    case True
    define ids where "ids = decode_array le_nat 4 n (take (n * 4) (drop (?b + 4) ?sec))"
    define offs where "offs = decode_array le_nat 4 (n + 1) (take ((n + 1) * 4) (drop (?b + (4 + n * 4)) ?sec))"
    have a: "section_array ?sec (?b + 4) 4 n = Inr ids" "section_array ?sec (?b + (4 + n * 4)) 4 (n + 1) = Inr offs"
      unfolding ids_def offs_def by (rule section_array_ok, use len True in simp)+
    have lens: "length ids = n" "length offs = n + 1" by (simp_all add: ids_def offs_def)
    show ?thesis
    proof (cases "offs ! 0 = 0 \<and> (\<forall>i < n. \<not> offs ! (i + 1) < offs ! i) \<and>
        bo_end (inline_block_offsets n (offs ! n) ?es) = de_len e")
      case False
      then show ?thesis using n [simplified] a [simplified] True by (auto simp: view_block_def Let_def)
    next
      case ok': True
      define nnz where "nnz = offs ! n"
      have e: "inline_align_up (8 + n * 8 + nnz * 2) ?es + nnz * ?es = de_len e" using ok' by (simp add: nnz_def)
      have up: "8 + n * 8 + nnz * 2 \<le> inline_align_up (8 + n * 8 + nnz * 2) ?es" by (rule align_up_ge [OF es])
      have c: "section_array ?sec (?b + (8 + n * 8)) 2 nnz = Inr (decode_array le_nat 2 nnz (take (nnz * 2) (drop (?b + (8 + n * 8)) ?sec)))"
        by (rule section_array_ok) (use len up e in linarith)
      have v: "take_elems (nnz * ?es) (drop (?b + inline_align_up (8 + n * 8 + nnz * 2) ?es) ?sec) =
          Inr (take (nnz * ?es) (drop (?b + inline_align_up (8 + n * 8 + nnz * 2) ?es) ?sec))"
        using len e by (simp add: take_elems_def)
      have "sorted offs" by (rule sorted_steps) (use ok' lens in auto)
      moreover have "last offs = nnz"
      proof -
        have "offs \<noteq> []" using lens by auto
        then show ?thesis using lens by (simp add: last_conv_nth nnz_def)
      qed
      moreover have "view_block fwd e = Inr \<lparr>bv_n_docs = n, bv_doc_ids = Some ids, bv_offsets = offs,
          bv_comps = decode_array le_nat 2 nnz (take (nnz * 2) (drop (?b + (8 + n * 8)) ?sec)),
          bv_vals = take (nnz * ?es) (drop (?b + inline_align_up (8 + n * 8 + nnz * 2) ?es) ?sec)\<rparr>"
        using n [simplified] a [simplified] c v True ok' nnz_def by (auto simp: view_block_def Let_def)
      ultimately show ?thesis using lens len e by (simp add: bv_ok_def)
    qed
  qed
qed

lemma block_at_ok:
  assumes "fwd_ok fwd"
  shows "not_ub (block_at fwd pl block) \<and> (\<forall>bv. block_at fwd pl block = Inr bv \<longrightarrow> bv_ok (if_element_size fwd) bv)"
proof (cases "block \<ge> num_blocks_in_list fwd pl")
  case True
  then show ?thesis by (simp add: block_at_def bv_ok_def bv_absent_def bv_absent_view_def)
next
  case False
  then have b: "pl + 1 < length (if_list_offset fwd)" "if_list_offset fwd ! pl + block < if_list_offset fwd ! (pl + 1)"
    by (auto simp: num_blocks_in_list_def split: if_splits)
  then have i: "if_list_offset fwd ! pl + block < length (if_entries fwd)"
    using assms by (fastforce simp: fwd_ok_def)
  then have "if_entries fwd ! (if_list_offset fwd ! pl + block) \<in> set (if_entries fwd)" by simp
  from view_block_ok [OF assms this] show ?thesis
    using False i by (simp add: block_at_def bv_ok_def bv_absent_def bv_absent_view_def)
qed

lemma bv_slices_ok:
  assumes "bv_ok es bv" and "\<not> bv_absent bv" and "i < bv_n_docs bv"
  shows "\<exists>n comps vals. bv_nnz bv i = Inr n \<and> bv_doc_comps bv i = Inr comps \<and> bv_doc_vals es bv i = Inr vals \<and>
    length comps = n \<and> length vals = n * es"
proof -
  let ?o = "bv_offsets bv"
  have o: "length ?o = bv_n_docs bv + 1" "sorted ?o" "length (bv_comps bv) = last ?o" "length (bv_vals bv) = last ?o * es"
    using assms by (auto simp: bv_ok_def)
  have i: "i < length ?o" "i + 1 < length ?o" using o(1) assms(3) by simp_all
  have le: "?o ! i \<le> ?o ! (i + 1)" using o(2) i by (simp add: sorted_iff_nth_mono)
  have "?o \<noteq> []" using i by auto
  then have "?o ! (i + 1) \<le> last ?o" using o(2) i by (simp add: sorted_iff_nth_mono last_conv_nth)
  then have fit: "?o ! i + (?o ! (i + 1) - ?o ! i) \<le> last ?o" using le by simp
  have comps: "?o ! (i + 1) - ?o ! i \<le> length (drop (?o ! i) (bv_comps bv))" using fit o(3) by simp
  have "(?o ! i + (?o ! (i + 1) - ?o ! i)) * es \<le> last ?o * es" by (rule mult_le_mono1 [OF fit])
  then have vals: "(?o ! (i + 1) - ?o ! i) * es \<le> length (drop (?o ! i * es) (bv_vals bv))"
    unfolding length_drop o(4) by (intro add_le_imp_le_diff) (simp add: distrib_right add.commute)
  have "take_elems n xs = Inr (take n xs)" if "n \<le> length xs" for n and xs :: "'a list"
    using that by (simp add: take_elems_def)
  then show ?thesis
    using i comps vals o(3,4) by (simp add: bv_nnz_def bv_doc_comps_def bv_doc_vals_def read_at_def take_elems_def)
qed

text \<open>
  C35: a mapped forward index fails closed. Whatever bytes follow the cursor, once the section is
  accepted no lookup of a block, present or not, reads outside it: the lookup answers a view or
  reports a corrupt block, and the components and the value bytes of every document of a present
  block are inside the view.
\<close>

theorem mapped_forward_fails_closed:
  assumes "if_mmap_deserialize if_default (Some c) = Inr (fwd, c')"
  shows "not_ub (block_at fwd pl block) \<and>
    (\<forall>bv i. block_at fwd pl block = Inr bv \<and> \<not> bv_absent bv \<and> i < bv_n_docs bv \<longrightarrow>
      (\<exists>n comps vals. bv_nnz bv i = Inr n \<and> bv_doc_comps bv i = Inr comps \<and>
         bv_doc_vals (if_element_size fwd) bv i = Inr vals \<and> length comps = n \<and> length vals = n * if_element_size fwd))"
proof -
  obtain sec addr fwd1 where "load_directory if_default addr sec = Inr fwd1" "fwd = fwd1\<lparr>if_block_base := sec\<rparr>"
    using assms by (auto simp: if_mmap_deserialize_def throw_if_null_def err_simps Let_def split: if_splits)
  then have "fwd_ok fwd" using load_directory_ok by simp
  then show ?thesis using block_at_ok bv_slices_ok by blast
qed


section \<open>Writing a block\<close>

interpretation u32_codec: elem_codec "le_bytes 4" le_nat 4 "\<lambda>n. n < 4294967296"
  by unfold_locales simp_all

definition doc_row :: "sparse_vectors \<Rightarrow> idx_t \<Rightarrow> term_t list \<times> byte list" where
  "doc_row v d = sv_rows v ! nat d"

definition nnz_of :: "sparse_vectors \<Rightarrow> idx_t list \<Rightarrow> nat" where
  "nnz_of v docs = sum_list (map (\<lambda>d. length (fst (doc_row v d))) docs)"

text \<open>The documents of a block that can be written.\<close>

definition docs_fit :: "sparse_vectors \<Rightarrow> idx_t list \<Rightarrow> bool" where
  "docs_fit v docs \<longleftrightarrow> (\<forall>d \<in> set docs. valid_doc v d \<and> is_i32 d) \<and> nnz_of v docs \<le> INT32_MAX \<and> length docs \<le> UINT32_MAX"

lemma doc_slice_row:
  assumes "sv_wire v" and "valid_doc v d"
  shows "row_nnz (buf_elems (sv_indptr v)) d = length (fst (doc_row v d))" "doc_slice v d = Inr (doc_row v d)"
    "length (snd (doc_row v d)) = length (fst (doc_row v d)) * sv_element_size v"
    "\<forall>t \<in> set (fst (doc_row v d)). t < 65536"
proof -
  let ?ip = "buf_elems (sv_indptr v)" and ?ix = "buf_elems (sv_indices v)" and ?vs = "buf_elems (sv_values v)"
  let ?es = "sv_element_size v"
  have d: "nat d < num_vectors v" using assms(2) by (simp add: valid_doc_def)
  then have "num_vectors v > 0" by simp
  note w = sv_wire_rows [OF assms(1) this]
  have i: "nat d + 1 < length ?ip" using w(2) d by simp
  define s where "s = nat (?ip ! nat d)"
  define e where "e = nat (?ip ! (nat d + 1))"
  note b = csr_row_bounds [OF w(1) i, folded s_def e_def]
  have se: "s \<le> e" using b by (simp add: s_def e_def)
  have "?ip ! (nat d + 1) - ?ip ! nat d = int (e - s)" using b se by (simp add: s_def e_def of_nat_diff)
  moreover have "e - s < 9223372036854775808" using b(3) w(6) by simp
  ultimately have n: "row_nnz ?ip d = e - s" by (simp add: row_nnz_def is_i64_def)
  have r: "doc_row v d = (slice s e ?ix, slice (s * ?es) (e * ?es) ?vs)"
    unfolding doc_row_def sv_rows_def by (rule b(4))
  have le: "e * ?es \<le> length ?vs" using b(3) w(4) by simp
  show "row_nnz ?ip d = length (fst (doc_row v d))" using n b(3) by (simp add: r)
  show "length (snd (doc_row v d)) = length (fst (doc_row v d)) * ?es"
    using b(3) le by (simp add: r diff_mult_distrib)
  have "take_elems (e - s) (drop s ?ix) = Inr (slice s e ?ix)" using b(3) by (simp add: take_elems_def slice_def)
  moreover have "take_elems ((e - s) * ?es) (drop (s * ?es) ?vs) = Inr (slice (s * ?es) (e * ?es) ?vs)"
    using le by (simp add: take_elems_def slice_def diff_mult_distrib)
  ultimately show "doc_slice v d = Inr (doc_row v d)" by (simp add: doc_slice_def Let_def n r s_def [symmetric])
  show "\<forall>t \<in> set (fst (doc_row v d)). t < 65536"
    using assms(1) by (auto simp: r sv_wire_def slice_def dest: in_set_takeD in_set_dropD)
qed

lemma count_block_ok:
  assumes "sv_wire v" and "docs_fit v docs"
  shows "count_block docs (buf_elems (sv_indptr v)) (num_vectors v) = Inr (length docs, nnz_of v docs)"
proof -
  have "foldE (\<lambda>total_nnz doc_id. if doc_id < 0 \<or> nat doc_id \<ge> num_vectors v
        then Inl (Out_of_range ''InlineForwardIndex: block references doc id'')
        else let total_nnz = total_nnz + row_nnz (buf_elems (sv_indptr v)) doc_id
             in if total_nnz > INT32_MAX then Inl (Length_error ''InlineForwardIndex: block total nnz exceeds INT32_MAX'')
                else Inr total_nnz) acc docs = Inr (acc + nnz_of v docs)"
    if "\<forall>d \<in> set docs. valid_doc v d" "acc + nnz_of v docs \<le> INT32_MAX" for acc
    using that
  proof (induction docs arbitrary: acc)
    case (Cons d docs)
    have "valid_doc v d" using Cons.prems(1) by simp
    note n = doc_slice_row(1) [OF assms(1) this]
    have "nnz_of v (d # docs) = length (fst (doc_row v d)) + nnz_of v docs" by (simp add: nnz_of_def)
    then show ?case
      using Cons.IH [of "acc + length (fst (doc_row v d))"] Cons.prems n by (auto simp: Let_def valid_doc_def)
  qed (simp add: nnz_of_def)
  from this [of 0] show ?thesis using assms(2) by (simp add: count_block_def docs_fit_def)
qed

definition offsets_of :: "sparse_vectors \<Rightarrow> idx_t list \<Rightarrow> nat list" where
  "offsets_of v docs = map (\<lambda>i. nnz_of v (take i docs)) [0..<Suc (length docs)]"

definition block_comps :: "sparse_vectors \<Rightarrow> idx_t list \<Rightarrow> term_t list" where
  "block_comps v docs = concat (map (\<lambda>d. fst (doc_row v d)) docs)"

definition block_vals :: "sparse_vectors \<Rightarrow> idx_t list \<Rightarrow> byte list" where
  "block_vals v docs = concat (map (\<lambda>d. snd (doc_row v d)) docs)"

definition block_bytes :: "sparse_vectors \<Rightarrow> idx_t list \<Rightarrow> byte list" where
  "block_bytes v docs = le_bytes 4 (length docs) @ encode_array (le_bytes 4) (map nat docs) @
     encode_array (le_bytes 4) (offsets_of v docs) @ encode_array term_bytes (block_comps v docs) @
     replicate (inline_align_up (8 + length docs * 8 + nnz_of v docs * 2) (sv_element_size v) -
                (8 + length docs * 8 + nnz_of v docs * 2)) 0 @
     block_vals v docs"

lemma running_offsets_eq:
  "running_offsets r ns = map (\<lambda>i. u32 (r + sum_list (take i ns))) [0..<Suc (length ns)]"
proof (induction ns arbitrary: r)
  case (Cons n ns)
  have "[0..<Suc (length (n # ns))] = 0 # map Suc [0..<Suc (length ns)]"
    by (simp add: upt_conv_Cons map_Suc_upt del: upt_Suc)
  then show ?case by (simp add: Cons add.assoc comp_def del: upt_Suc)
qed simp

lemma nnz_of_take_le: "nnz_of v (take i docs) \<le> nnz_of v docs"
  by (metis append_take_drop_id le_add1 map_append nnz_of_def sum_list_append)

lemma length_block_comps: "length (block_comps v docs) = nnz_of v docs"
  by (simp add: block_comps_def nnz_of_def length_concat comp_def)

lemma length_block_vals:
  assumes "sv_wire v" and "\<forall>d \<in> set docs. valid_doc v d"
  shows "length (block_vals v docs) = nnz_of v docs * sv_element_size v"
  using assms(2)
proof (induction docs)
  case (Cons d docs)
  have "valid_doc v d" using Cons.prems by simp
  from doc_slice_row(3) [OF assms(1) this] show ?case
    using Cons by (simp add: block_vals_def nnz_of_def distrib_right)
qed (simp add: block_vals_def nnz_of_def)

lemma encode_concat: "encode_array enc (concat xss) = concat (map (encode_array enc) xss)"
  by (induction xss) (simp_all add: encode_array_def)

lemma write_block_eq:
  assumes v: "sv_wire v" and d: "docs_fit v docs"
  shows "write_block v docs (nnz_of v docs) w = Inr (w @ block_bytes v docs)"
proof -
  have ok: "valid_doc v d" "is_i32 d" if "d \<in> set docs" for d using that assms(2) by (auto simp: docs_fit_def)
  have "d mod 4294967296 = d" if "d \<in> set docs" for d
    using ok [OF that] by (simp add: valid_doc_def is_i32_def)
  then have ids: "encode_array (\<lambda>d. le_bytes 4 (nat (d mod 4294967296))) docs = encode_array (le_bytes 4) (map nat docs)"
    unfolding encode_array_def map_map
    by (intro arg_cong [where f = concat] map_cong) simp_all
  have nnz: "map (row_nnz (buf_elems (sv_indptr v))) docs = map (\<lambda>d. length (fst (doc_row v d))) docs"
    by (intro map_cong refl doc_slice_row(1) [OF v ok(1)])
  have u: "u32 (nnz_of v (take i docs)) = nnz_of v (take i docs)" for i
    using nnz_of_take_le [of v i docs] d by (simp add: docs_fit_def u32_def INT32_MAX_def)
  have "running_offsets 0 (map (row_nnz (buf_elems (sv_indptr v))) docs) = offsets_of v docs"
    unfolding nnz running_offsets_eq offsets_of_def
    using u by (simp add: nnz_of_def take_map del: upt_Suc)
  moreover have "mapE (doc_slice v) docs = Inr (map (doc_row v) docs)"
    by (rule mapE_Inr_all) (rule doc_slice_row(2) [OF v ok(1)])
  ultimately show ?thesis
    by (simp add: write_block_def Let_def ids buffered_write_def block_bytes_def block_comps_def block_vals_def
        encode_concat case_prod_unfold comp_def ac_simps)
qed

lemma length_block_bytes:
  assumes "sv_wire v" and "docs_fit v docs"
  shows "length (block_bytes v docs) = bo_end (inline_block_offsets (length docs) (nnz_of v docs) (sv_element_size v))"
proof -
  have "sv_element_size v > 0" using assms(1) by (auto simp: sv_wire_def U8_def U16_def U32_def U64_def)
  from align_up_ge [OF this, of "8 + length docs * 8 + nnz_of v docs * 2"] show ?thesis
    using length_block_vals [OF assms(1), of docs] assms(2)
    by (simp add: block_bytes_def u32_codec.length_encode length_block_comps offsets_of_def docs_fit_def)
qed


section \<open>Reading a block back\<close>

definition view_of :: "sparse_vectors \<Rightarrow> idx_t list \<Rightarrow> block_view" where
  "view_of v docs = \<lparr>bv_n_docs = length docs, bv_doc_ids = Some (map nat docs), bv_offsets = offsets_of v docs,
     bv_comps = block_comps v docs, bv_vals = block_vals v docs\<rparr>"

lemma take_elems_mid:
  assumes "sec = pre @ x @ post" and "off = length pre" and "length x = n"
  shows "take_elems n (drop off sec) = Inr x"
  using assms by (simp add: take_elems_def)

lemma section_array_mid:
  assumes "sec = pre @ x @ post" and "off = length pre" and "length x = n * sizeof"
  shows "section_array sec off sizeof n = Inr (decode_array le_nat sizeof n x)"
  using take_elems_mid [OF assms] by (simp add: section_array_def)

lemma view_block_eq:
  assumes v: "sv_wire v" and d: "docs_fit v docs" and es: "if_element_size fwd = sv_element_size v"
    and sec: "if_block_base fwd = pre @ block_bytes v docs @ post"
    and e: "de_byte_off e = length pre" "de_len e = length (block_bytes v docs)" "de_n_docs e = length docs"
  shows "view_block fwd e = Inr (view_of v docs)"
proof -
  let ?n = "length docs" and ?m = "nnz_of v docs" and ?es = "sv_element_size v"
  let ?A = "le_bytes 4 ?n" and ?D = "encode_array (le_bytes 4) (map nat docs)"
  let ?O = "encode_array (le_bytes 4) (offsets_of v docs)" and ?C = "encode_array term_bytes (block_comps v docs)"
  let ?P = "replicate (inline_align_up (8 + ?n * 8 + ?m * 2) ?es - (8 + ?n * 8 + ?m * 2)) (0 :: byte)" and ?V = "block_vals v docs"
  have sec': "if_block_base fwd = pre @ (?A @ ?D @ ?O @ ?C @ ?P @ ?V) @ post" unfolding sec block_bytes_def ..
  have ok: "valid_doc v x" "is_i32 x" if "x \<in> set docs" for x using that d by (auto simp: docs_fit_def)
  have m: "?m \<le> INT32_MAX" and n: "?n \<le> UINT32_MAX" using d by (auto simp: docs_fit_def)
  have es_pos: "0 < ?es" using v by (auto simp: sv_wire_def U8_def U16_def U32_def U64_def)
  have lo: "length (offsets_of v docs) = ?n + 1" by (simp add: offsets_of_def)
  have lens: "length ?D = 4 * ?n" "length ?O = 4 * (?n + 1)" "length ?C = 2 * ?m" "length ?V = ?m * ?es"
    using length_block_vals [OF v, of docs] ok lo by (simp_all add: u32_codec.length_encode length_block_comps)
  have up: "8 + ?n * 8 + ?m * 2 \<le> inline_align_up (8 + ?n * 8 + ?m * 2) ?es" by (rule align_up_ge [OF es_pos])
  have a: "section_array (if_block_base fwd) (de_byte_off e) 4 1 = Inr [?n]"
    using section_array_mid [of "if_block_base fwd" pre ?A "?D @ ?O @ ?C @ ?P @ ?V @ post" "de_byte_off e" 1 4] sec' e(1) n
    by (simp add: UINT32_MAX_def)
  have "nat x < 4294967296" if "x \<in> set docs" for x
    using ok [OF that] by (simp add: valid_doc_def is_i32_def nat_less_iff)
  then have "\<forall>x \<in> set (map nat docs). x < 4294967296" by simp
  from u32_codec.decode_encode [OF this, of "[]"]
  have D: "section_array (if_block_base fwd) (de_byte_off e + 4) 4 ?n = Inr (map nat docs)"
    using section_array_mid [of "if_block_base fwd" "pre @ ?A" ?D "?O @ ?C @ ?P @ ?V @ post" "de_byte_off e + 4" ?n 4] sec' e(1) lens
    by simp
  have "\<forall>x \<in> set (offsets_of v docs). x < 4294967296"
  proof
    fix x assume "x \<in> set (offsets_of v docs)"
    then obtain i where "x = nnz_of v (take i docs)" unfolding offsets_of_def by (auto simp del: upt_Suc)
    then show "x < 4294967296" using nnz_of_take_le [of v i docs] m by (simp add: INT32_MAX_def)
  qed
  from u32_codec.decode_encode [OF this, of "[]"]
  have O: "section_array (if_block_base fwd) (de_byte_off e + (4 + ?n * 4)) 4 (?n + 1) = Inr (offsets_of v docs)"
    using section_array_mid [of "if_block_base fwd" "pre @ ?A @ ?D" ?O "?C @ ?P @ ?V @ post" "de_byte_off e + (4 + ?n * 4)" "?n + 1" 4]
      sec' e(1) lens lo by simp
  have "\<forall>t \<in> set (block_comps v docs). t < 65536"
    using doc_slice_row(4) [OF v ok(1)] by (auto simp: block_comps_def)
  from term_codec.decode_encode [OF this, of "[]"]
  have C: "section_array (if_block_base fwd) (de_byte_off e + (8 + ?n * 8)) 2 ?m = Inr (block_comps v docs)"
    using section_array_mid [of "if_block_base fwd" "pre @ ?A @ ?D @ ?O" ?C "?P @ ?V @ post" "de_byte_off e + (8 + ?n * 8)" ?m 2]
      sec' e(1) lens by (simp add: length_block_comps)
  have V: "take_elems (?m * ?es) (drop (de_byte_off e + inline_align_up (8 + ?n * 8 + ?m * 2) ?es) (if_block_base fwd)) = Inr ?V"
  proof (rule take_elems_mid)
    show "if_block_base fwd = (pre @ ?A @ ?D @ ?O @ ?C @ ?P) @ ?V @ post" using sec' by simp
    show "de_byte_off e + inline_align_up (8 + ?n * 8 + ?m * 2) ?es = length (pre @ ?A @ ?D @ ?O @ ?C @ ?P)"
      using e(1) lens up by simp
  qed (rule lens(4))
  have o_nth: "offsets_of v docs ! i = nnz_of v (take i docs)" if "i \<le> ?n" for i
    using that unfolding offsets_of_def by (simp del: upt_Suc)
  have "nnz_of v (take i docs) \<le> nnz_of v (take (Suc i) docs)" for i
    using nnz_of_take_le [of v i "take (Suc i) docs"] by (simp add: min_def)
  then have "\<not> offsets_of v docs ! (i + 1) < offsets_of v docs ! i" if "i < ?n" for i
    using o_nth [of i] o_nth [of "i + 1"] that by (simp add: not_less)
  then have mono: "\<not> (\<exists>i < ?n. offsets_of v docs ! (i + 1) < offsets_of v docs ! i)" by blast
  have z: "offsets_of v docs ! 0 = 0" "offsets_of v docs ! ?n = ?m" using o_nth [of 0] o_nth [of ?n] by (simp_all add: nnz_of_def)
  have end_: "de_len e = inline_align_up (8 + ?n * 8 + ?m * 2) ?es + ?m * ?es" using e(2) length_block_bytes [OF v d] by simp
  then have "8 + ?n * 8 \<le> de_len e" using up by simp
  then show ?thesis
    using a [simplified] D O [simplified] C V mono z end_ e(3)
    by (simp add: view_block_def Let_def es view_of_def)
qed


section \<open>The body of the section\<close>

definition docs_at :: "clusters list \<Rightarrow> nat \<times> nat \<Rightarrow> idx_t list" where
  "docs_at cls = (\<lambda>(pl, block). case get_docs (cls ! pl) block of Inl _ \<Rightarrow> [] | Inr ds \<Rightarrow> ds)"

definition blocks_ok :: "sparse_vectors \<Rightarrow> clusters list \<Rightarrow> bool" where
  "blocks_ok v cls \<longleftrightarrow> (\<forall>(pl, block) \<in> set (block_addresses cls). \<exists>ds. get_docs (cls ! pl) block = Inr ds \<and> docs_fit v ds)"

definition padded_len :: "sparse_vectors \<Rightarrow> clusters list \<Rightarrow> nat \<Rightarrow> nat \<times> nat \<Rightarrow> nat" where
  "padded_len v cls align a = inline_align_up (length (block_bytes v (docs_at cls a))) align"

definition padded_block :: "sparse_vectors \<Rightarrow> clusters list \<Rightarrow> nat \<Rightarrow> nat \<times> nat \<Rightarrow> byte list" where
  "padded_block v cls align a = (let bs = block_bytes v (docs_at cls a)
     in bs @ replicate (padded_len v cls align a - length bs) 0)"

fun entries_from :: "sparse_vectors \<Rightarrow> clusters list \<Rightarrow> nat \<Rightarrow> nat \<Rightarrow> (nat \<times> nat) list \<Rightarrow> dir_entry list" where
  "entries_from v cls align off [] = []"
| "entries_from v cls align off (a # as) =
     \<lparr>de_pl = u32 (fst a), de_block = u32 (snd a), de_byte_off = off, de_len = length (block_bytes v (docs_at cls a)),
      de_n_docs = length (docs_at cls a), de_reserved = 0\<rparr> # entries_from v cls align (off + padded_len v cls align a) as"

lemma length_padded_block: "0 < align \<Longrightarrow> length (padded_block v cls align a) = padded_len v cls align a"
  using align_up_ge [of align "length (block_bytes v (docs_at cls a))"] by (simp add: padded_block_def padded_len_def Let_def)

lemma length_entries_from [simp]: "length (entries_from v cls align off as) = length as"
  by (induction as arbitrary: off) simp_all

lemma entries_from_nth:
  "i < length as \<Longrightarrow> entries_from v cls align off as ! i =
     \<lparr>de_pl = u32 (fst (as ! i)), de_block = u32 (snd (as ! i)),
      de_byte_off = off + sum_list (map (padded_len v cls align) (take i as)),
      de_len = length (block_bytes v (docs_at cls (as ! i))), de_n_docs = length (docs_at cls (as ! i)), de_reserved = 0\<rparr>"
proof (induction as arbitrary: off i)
  case (Cons a as)
  then show ?case by (cases i) simp_all
qed simp

lemma blocks_okD:
  assumes "blocks_ok v cls" and "a \<in> set (block_addresses cls)"
  shows "get_docs (cls ! fst a) (snd a) = Inr (docs_at cls a)" "docs_fit v (docs_at cls a)"
  using assms by (fastforce simp: blocks_ok_def docs_at_def case_prod_unfold)+

lemma length_block_addresses: "length (block_addresses cls) = total_blocks cls"
proof -
  have "map (\<lambda>pl. cl_n_clusters (cls ! pl)) [0..<length cls] = map cl_n_clusters cls"
    by (rule nth_equalityI) simp_all
  then show ?thesis by (simp add: block_addresses_def total_blocks_def length_concat comp_def)
qed

text \<open>The two passes: the sizing pass and the emitting pass walk the same offsets.\<close>

lemma sizing_pass:
  assumes v: "sv_wire v" and ok: "blocks_ok v cls" and align: "0 < align" and "set as \<subseteq> set (block_addresses cls)" and "align dvd off"
  shows "foldE (\<lambda>cur_off (pl, block). bindE (get_docs (cls ! pl) block) (\<lambda>docs.
      bindE (count_block docs (buf_elems (sv_indptr v)) (num_vectors v)) (\<lambda>(n_docs, total_nnz).
      Inr (inline_align_up (cur_off + bo_end (inline_block_offsets n_docs total_nnz (sv_element_size v))) align)))) off as =
    Inr (off + sum_list (map (padded_len v cls align) as))"
  using assms(4,5)
proof (induction as arbitrary: off)
  case (Cons a as)
  obtain pl b where a: "a = (pl, b)" by (cases a)
  note d = blocks_okD [OF ok, of a, unfolded a fst_conv snd_conv]
  have mem: "(pl, b) \<in> set (block_addresses cls)" using Cons.prems(1) a by simp
  let ?off = "off + padded_len v cls align a"
  have "inline_align_up (off + length (block_bytes v (docs_at cls a))) align = ?off"
    unfolding align_up_add [OF Cons.prems(2) align] padded_len_def ..
  moreover have "align dvd ?off" using Cons.prems(2) by (simp add: padded_len_def)
  ultimately show ?case
    using Cons.IH [of ?off] Cons.prems(1) d [OF mem] count_block_ok [OF v d(2) [OF mem]] length_block_bytes [OF v d(2) [OF mem]]
    by (simp add: a add.assoc)
qed simp

lemma emitting_pass:
  assumes v: "sv_wire v" and ok: "blocks_ok v cls" and align: "0 < align" and "set as \<subseteq> set (block_addresses cls)" and "align dvd off"
  shows "foldE (\<lambda>(w, cur_off, entries) (pl, block). bindE (get_docs (cls ! pl) block) (\<lambda>docs.
      bindE (count_block docs (buf_elems (sv_indptr v)) (num_vectors v)) (\<lambda>(n_docs, total_nnz).
      bindE (write_block v docs total_nnz w) (\<lambda>w.
      let block_len = bo_end (inline_block_offsets n_docs total_nnz (sv_element_size v));
          padded = inline_align_up (cur_off + block_len) align;
          w = buffered_write (replicate (padded - (cur_off + block_len)) 0) w
      in Inr (w, padded, entries @ [\<lparr>de_pl = u32 pl, de_block = u32 block, de_byte_off = cur_off,
           de_len = block_len, de_n_docs = n_docs, de_reserved = 0\<rparr>]))))) (w, off, es) as =
    Inr (w @ concat (map (padded_block v cls align) as), off + sum_list (map (padded_len v cls align) as),
         es @ entries_from v cls align off as)"
  using assms(4,5)
proof (induction as arbitrary: w off es)
  case (Cons a as)
  obtain pl b where a: "a = (pl, b)" by (cases a)
  note d = blocks_okD [OF ok, of a, unfolded a fst_conv snd_conv]
  have mem: "(pl, b) \<in> set (block_addresses cls)" using Cons.prems(1) a by simp
  let ?off = "off + padded_len v cls align a" and ?bs = "block_bytes v (docs_at cls a)"
  have "inline_align_up (off + length ?bs) align = ?off"
    unfolding align_up_add [OF Cons.prems(2) align] padded_len_def ..
  moreover have "w @ ?bs @ replicate (?off - (off + length ?bs)) 0 = w @ padded_block v cls align a"
    by (simp add: padded_block_def Let_def)
  moreover have "align dvd ?off" using Cons.prems(2) by (simp add: padded_len_def)
  ultimately show ?case
    using Cons.IH [of ?off "w @ padded_block v cls align a"] Cons.prems(1) d [OF mem]
      count_block_ok [OF v d(2) [OF mem]] length_block_bytes [OF v d(2) [OF mem]] write_block_eq [OF v d(2) [OF mem]]
    by (simp add: a Let_def buffered_write_def add.assoc)
qed simp

definition section_bytes :: "sparse_vectors \<Rightarrow> clusters list \<Rightarrow> nat \<Rightarrow> byte list" where
  "section_bytes v cls align =
     (let first = inline_align_up kHeaderSize align; as = block_addresses cls;
          dir_offset = first + sum_list (map (padded_len v cls align) as)
      in header_bytes \<lparr>ih_element_size = sv_element_size v, ih_n_blocks = total_blocks cls, ih_page_size = align\<rparr> @
         replicate (first - kHeaderSize) 0 @ concat (map (padded_block v cls align) as) @
         encode_array entry_bytes (entries_from v cls align first as) @
         trailer_bytes \<lparr>it_dir_offset = dir_offset, it_n_entries = total_blocks cls, it_n_lists = length cls\<rparr>)"

lemma length_section_bytes:
  assumes "0 < align"
  shows "length (section_bytes v cls align) = inline_align_up kHeaderSize align +
    sum_list (map (padded_len v cls align) (block_addresses cls)) + total_blocks cls * kEntrySize + kTrailerSize"
proof -
  have "length (encode_array entry_bytes es) = length es * kEntrySize" for es
    by (induction es) (simp_all add: encode_array_def)
  moreover have "length (concat (map (padded_block v cls align) as)) = sum_list (map (padded_len v cls align) as)" for as
    by (induction as) (simp_all add: length_padded_block [OF assms])
  ultimately show ?thesis
    using align_up_ge [OF assms, of kHeaderSize] by (simp add: section_bytes_def Let_def length_block_addresses)
qed

lemma write_body_eq:
  assumes "sv_wire v" and "blocks_ok v cls" and "sv_element_size v \<in> {1, 2, 4}" and "0 < write_alignment fwd"
  shows "write_body fwd cls v w = Inr (w @ section_bytes v cls (write_alignment fwd))"
    "section_length fwd cls v = Inr (length (section_bytes v cls (write_alignment fwd)))"
proof -
  let ?a = "write_alignment fwd"
  have es: "check_element_size (sv_element_size v) = Inr ()"
    using assms(3) by (auto simp: check_element_size_def throw_if_def)
  note e = emitting_pass [OF assms(1,2,4), of "block_addresses cls" "inline_align_up kHeaderSize ?a"]
  show "write_body fwd cls v w = Inr (w @ section_bytes v cls ?a)"
    using e by (simp add: write_body_def Let_def es section_bytes_def buffered_write_def length_block_addresses)
  show "section_length fwd cls v = Inr (length (section_bytes v cls ?a))"
    unfolding length_section_bytes [OF assms(4)]
    using sizing_pass [OF assms(1,2,4), of "block_addresses cls" "inline_align_up kHeaderSize ?a"]
    by (simp add: section_length_def Let_def es)
qed


section \<open>Reading the section back\<close>

text \<open>Alignments that are powers of two.\<close>

lemma power_of_two_exp: "0 < n \<Longrightarrow> and n (n - 1) = (0 :: nat) \<Longrightarrow> \<exists>k. n = 2 ^ k"
proof (induction n rule: less_induct)
  case (less n)
  show ?case
  proof (cases "even n")
    case True
    then obtain m where m: "n = 2 * m" by blast
    then have "and m (m - 1) = 0"
    proof -
      have "n - 1 = 2 * (m - 1) + 1" using less.prems(1) m by simp
      then have "and n (n - 1) = 2 * and m (m - 1)" unfolding m by (subst and_nat_rec) simp
      then show ?thesis using less.prems(2) by simp
    qed
    then obtain k where "m = 2 ^ k" using less.IH [of m] less.prems(1) m by auto
    then show ?thesis using m by (intro exI [of _ "Suc k"]) simp
  next
    case False
    then obtain m where m: "n = 2 * m + 1" using oddE by blast
    then have "and n (n - 1) = 2 * and m m" by (subst and_nat_rec) simp
    then have "m = 0" using less.prems(2) by simp
    then show ?thesis using m by (intro exI [of _ 0]) simp
  qed
qed

lemma alignment_ok:
  assumes "and n (n - 1) = (0 :: nat)" and "8 \<le> n"
  shows "8 dvd n"
proof -
  obtain k where k: "n = 2 ^ k" using power_of_two_exp [OF _ assms(1)] assms(2) by auto
  have "\<not> k < 3"
  proof
    assume "k < 3"
    then have "k = 0 \<or> k = 1 \<or> k = 2" by auto
    then show False using k assms(2) by auto
  qed
  then have "(2 :: nat) ^ 3 dvd 2 ^ k" by (intro le_imp_power_dvd) simp
  then show ?thesis using k by simp
qed

text \<open>The directory check on entries in the order they are written.\<close>

definition entry_range_ok :: "nat \<Rightarrow> nat \<Rightarrow> dir_entry \<Rightarrow> bool" where
  "entry_range_ok n_lists dir_offset e \<longleftrightarrow> de_pl e < n_lists \<and> 4 \<le> de_len e \<and> de_byte_off e mod 8 = 0 \<and>
     kHeaderSize \<le> de_byte_off e \<and> de_byte_off e + de_len e \<le> dir_offset \<and> de_block e < 4294967296"

abbreviation address :: "dir_entry \<Rightarrow> nat \<times> nat" where
  "address e \<equiv> (de_pl e, de_block e)"

definition starts_list :: "(nat \<times> nat) option \<Rightarrow> nat \<Rightarrow> nat \<Rightarrow> bool" where
  "starts_list prev pl b \<longleftrightarrow> (if b = 0 then (\<forall>q c. prev = Some (q, c) \<longrightarrow> q < pl) else prev = Some (pl, b - 1))"

lemma check_list:
  assumes "map address es = map (Pair pl) [b..<n]" and "\<forall>e \<in> set es. entry_range_ok n_lists dir_offset e"
    and "starts_list prev pl b" and "b \<le> n" and "pl + 1 < length cnt"
  shows "foldE (check_entry n_lists dir_offset) (prev, cnt) es =
    Inr (if b < n then Some (pl, n - 1) else prev, cnt[pl + 1 := cnt ! (pl + 1) + (n - b)])"
  using assms
proof (induction es arbitrary: prev cnt b)
  case Nil
  then have "b = n" by auto
  then show ?case by simp
next
  case (Cons e es)
  have bn: "b < n" using Cons.prems(1) by (cases "b < n") simp_all
  then have "[b..<n] = b # [Suc b..<n]" by (simp add: upt_conv_Cons)
  then have e: "de_pl e = pl" "de_block e = b" and rest: "map address es = map (Pair pl) [Suc b..<n]"
    using Cons.prems(1) by simp_all
  have r: "entry_range_ok n_lists dir_offset e" using Cons.prems(2) by simp
  define c1 where "c1 = cnt[pl + 1 := cnt ! (pl + 1) + 1]"
  have "cnt ! (pl + 1) + 1 + (n - Suc b) = cnt ! (pl + 1) + (n - b)" using bn by arith
  then have c1: "c1[pl + 1 := c1 ! (pl + 1) + (n - Suc b)] = cnt[pl + 1 := cnt ! (pl + 1) + (n - b)]"
    unfolding c1_def using Cons.prems(5) by (simp only: list_update_overwrite nth_list_update_eq)
  have "check_entry n_lists dir_offset (prev, cnt) e = Inr (Some (pl, b), c1)"
    using r Cons.prems(3) e unfolding c1_def
    by (cases prev) (auto simp: check_entry_def entry_range_ok_def starts_list_def Let_def kInlineBlockPrefixSize_def
        kMinBlockAlign_def u32_def split: if_splits)
  moreover have "foldE (check_entry n_lists dir_offset) (Some (pl, b), c1) es =
      Inr (if Suc b < n then Some (pl, n - 1) else Some (pl, b), cnt[pl + 1 := cnt ! (pl + 1) + (n - b)])"
    unfolding c1 [symmetric]
    by (rule Cons.IH [OF rest]) (use Cons.prems bn in \<open>auto simp: starts_list_def c1_def\<close>)
  moreover have "\<not> Suc b < n \<Longrightarrow> b = n - 1" using bn by simp
  ultimately show ?case using bn by auto
qed

lemma check_lists:
  assumes "map address es = concat (map (\<lambda>pl. map (Pair pl) [0..<ns ! pl]) [0..<N])" and "N \<le> length ns"
    and "\<forall>e \<in> set es. entry_range_ok (length ns) dir_offset e"
  shows "\<exists>prev. foldE (check_entry (length ns) dir_offset) (None, replicate (length ns + 1) 0) es =
      Inr (prev, 0 # take N ns @ replicate (length ns - N) 0) \<and> (\<forall>q c. prev = Some (q, c) \<longrightarrow> q < N)"
  using assms
proof (induction N arbitrary: es)
  case (Suc N)
  have "map address es = concat (map (\<lambda>pl. map (Pair pl) [0..<ns ! pl]) [0..<N]) @ map (Pair N) [0..<ns ! N]"
    using Suc.prems(1) by simp
  then obtain es1 es2 where es: "es = es1 @ es2" "map address es1 = concat (map (\<lambda>pl. map (Pair pl) [0..<ns ! pl]) [0..<N])"
    "map address es2 = map (Pair N) [0..<ns ! N]"
    by (auto simp: map_eq_append_conv)
  obtain prev where p: "foldE (check_entry (length ns) dir_offset) (None, replicate (length ns + 1) 0) es1 =
      Inr (prev, 0 # take N ns @ replicate (length ns - N) 0)" "\<forall>q c. prev = Some (q, c) \<longrightarrow> q < N"
    using Suc.IH [OF es(2)] Suc.prems(2,3) es(1) by auto
  let ?cnt = "0 # take N ns @ replicate (length ns - N) 0"
  have "foldE (check_entry (length ns) dir_offset) (prev, ?cnt) es2 =
      Inr (if 0 < ns ! N then Some (N, ns ! N - 1) else prev, ?cnt[N + 1 := ?cnt ! (N + 1) + (ns ! N - 0)])"
    by (rule check_list [OF es(3)]) (use Suc.prems(2,3) es(1) p(2) in \<open>auto simp: starts_list_def\<close>)
  moreover have "?cnt[N + 1 := ?cnt ! (N + 1) + (ns ! N - 0)] = 0 # take (Suc N) ns @ replicate (length ns - Suc N) 0"
  proof -
    have "length ns - N = Suc (length ns - Suc N)" using Suc.prems(2) by simp
    then have "replicate (length ns - N) (0 :: nat) = 0 # replicate (length ns - Suc N) 0" by (simp only: replicate_Suc)
    moreover have "length (take N ns) = N" using Suc.prems(2) by simp
    ultimately show ?thesis using Suc.prems(2) by (simp add: nth_append list_update_append take_Suc_conv_app_nth)
  qed
  ultimately show ?case using p es(1) by (auto simp: foldE_append less_Suc_eq)
qed (simp add: replicate_append_same [symmetric])


text \<open>A source that can be written: its sizes fit the fields of the format.\<close>

definition source_ok :: "sparse_vectors \<Rightarrow> clusters list \<Rightarrow> nat \<Rightarrow> bool" where
  "source_ok v cls align \<longleftrightarrow> sv_wire v \<and> blocks_ok v cls \<and> sv_element_size v \<in> {1, 2, 4} \<and>
     and align (align - 1) = 0 \<and> 8 \<le> align \<and> align < 2 ^ 64 \<and> length cls \<le> 65536 \<and>
     (\<forall>cl \<in> set cls. cl_n_clusters cl < 2 ^ 32) \<and> length (section_bytes v cls align) < 2 ^ 64"

lemma address_mem: "a \<in> set (block_addresses cls) \<longleftrightarrow> fst a < length cls \<and> snd a < cl_n_clusters (cls ! fst a)"
  by (cases a) (force simp: block_addresses_def image_iff)

lemma sum_list_take_le: "i < length xs \<Longrightarrow> sum_list (take i xs) + xs ! i \<le> sum_list (xs :: nat list)"
proof -
  assume i: "i < length xs"
  have "sum_list xs = sum_list (take (Suc i) xs) + sum_list (drop (Suc i) xs)"
    by (metis append_take_drop_id sum_list_append)
  then show ?thesis using i by (simp add: take_Suc_conv_app_nth)
qed

lemma written_entries:
  assumes "source_ok v cls align"
  defines "first \<equiv> inline_align_up kHeaderSize align"
  defines "es \<equiv> entries_from v cls align first (block_addresses cls)"
  defines "dir_offset \<equiv> first + sum_list (map (padded_len v cls align) (block_addresses cls))"
  shows "map address es = block_addresses cls" "\<forall>e \<in> set es. entry_range_ok (length cls) dir_offset e"
    "\<forall>e \<in> set es. entry_of_bytes (entry_bytes e) = e"
proof -
  let ?as = "block_addresses cls" and ?L = "padded_len v cls align"
  have s: "sv_wire v" "blocks_ok v cls" "and align (align - 1) = 0" "8 \<le> align" "length cls \<le> 65536"
    "\<forall>cl \<in> set cls. cl_n_clusters cl < 2 ^ 32" "length (section_bytes v cls align) < 2 ^ 64"
    using assms(1) by (auto simp: source_ok_def)
  have align: "8 dvd align" "0 < align" using alignment_ok [OF s(3,4)] s(4) by auto
  have fits: "dir_offset < 2 ^ 64" using s(7) unfolding length_section_bytes [OF align(2)] by (simp add: dir_offset_def first_def)
  have addr: "u32 (fst (?as ! i)) = fst (?as ! i)" "u32 (snd (?as ! i)) = snd (?as ! i)" "fst (?as ! i) < length cls"
    "snd (?as ! i) < 4294967296" if "i < length ?as" for i
  proof -
    have m: "fst (?as ! i) < length cls" "snd (?as ! i) < cl_n_clusters (cls ! fst (?as ! i))"
      using nth_mem [OF that] by (simp_all add: address_mem)
    then have b: "cl_n_clusters (cls ! fst (?as ! i)) < 2 ^ 32" using s(6) by simp
    show "u32 (fst (?as ! i)) = fst (?as ! i)" "u32 (snd (?as ! i)) = snd (?as ! i)" "fst (?as ! i) < length cls"
      "snd (?as ! i) < 4294967296"
      using m b s(5) by (simp_all add: u32_def)
  qed
  show "map address es = ?as"
    by (rule nth_equalityI) (use addr in \<open>simp_all add: es_def entries_from_nth prod_eq_iff\<close>)
  have off: "8 dvd first + sum_list (map ?L (take i ?as))" for i
  proof -
    have "align dvd ?L a" for a by (simp add: padded_len_def)
    then have "8 dvd ?L a" for a using align(1) dvd_trans by blast
    then have "8 dvd sum_list (map ?L as)" for as by (induction as) simp_all
    moreover have "8 dvd first" unfolding first_def using align(1) align_up_dvd dvd_trans by blast
    ultimately show ?thesis by simp
  qed
  have range: "entry_range_ok (length cls) dir_offset (es ! i) \<and> de_n_docs (es ! i) < 2 ^ 32 \<and> de_reserved (es ! i) = 0" if i: "i < length ?as" for i
  proof -
    have d: "docs_fit v (docs_at cls (?as ! i))" by (rule blocks_okD(2) [OF s(2)]) (use i in simp)
    let ?len = "length (block_bytes v (docs_at cls (?as ! i)))"
    have len: "8 \<le> ?len" by (simp add: block_bytes_def offsets_of_def encode_array_def)
    have "?len \<le> ?L (?as ! i)" unfolding padded_len_def by (rule align_up_ge [OF align(2)])
    moreover have "sum_list (take i (map ?L ?as)) + map ?L ?as ! i \<le> sum_list (map ?L ?as)"
      by (rule sum_list_take_le) (use i in simp)
    ultimately have "first + sum_list (map ?L (take i ?as)) + ?len \<le> dir_offset"
      using i by (simp add: dir_offset_def take_map)
    moreover have "kHeaderSize \<le> first" unfolding first_def by (rule align_up_ge [OF align(2)])
    ultimately show ?thesis
      using i len addr [OF i] off [of i] d by (simp add: es_def entries_from_nth entry_range_ok_def docs_fit_def UINT32_MAX_def dvd_eq_mod_eq_0)
  qed
  have len: "length es = length ?as" by (simp add: es_def)
  show r: "\<forall>e \<in> set es. entry_range_ok (length cls) dir_offset e"
    using range len by (metis in_set_conv_nth)
  show "\<forall>e \<in> set es. entry_of_bytes (entry_bytes e) = e"
  proof
    fix e assume e: "e \<in> set es"
    then have "de_n_docs e < 2 ^ 32 \<and> de_reserved e = 0" using range len by (metis in_set_conv_nth)
    moreover have "entry_range_ok (length cls) dir_offset e" using r e by blast
    ultimately show "entry_of_bytes (entry_bytes e) = e"
      using fits s(5) by (intro entry_round_trip) (auto simp: entry_range_ok_def)
  qed
qed


lemma block_addresses_counts:
  "block_addresses cls = concat (map (\<lambda>pl. map (Pair pl) [0..<map cl_n_clusters cls ! pl]) [0..<length cls])"
  unfolding block_addresses_def by (intro arg_cong [where f = concat] map_cong) simp_all

lemma block_addresses_nth:
  assumes "pl < length cls" and "b < cl_n_clusters (cls ! pl)"
  shows "block_addresses cls ! (sum_list (take pl (map cl_n_clusters cls)) + b) = (pl, b)"
    "sum_list (take pl (map cl_n_clusters cls)) + b < length (block_addresses cls)"
proof -
  let ?f = "\<lambda>pl. map (Pair pl) [0..<cl_n_clusters (cls ! pl)]"
  have "[0..<length cls] = [0..<pl] @ [pl..<length cls]" by (rule upt_split) (use assms(1) in simp_all)
  also have "[pl..<length cls] = pl # [Suc pl..<length cls]" using assms(1) by (rule upt_conv_Cons)
  finally have split: "block_addresses cls = concat (map ?f [0..<pl]) @ ?f pl @ concat (map ?f [Suc pl..<length cls])"
    by (simp add: block_addresses_def)
  have "map (\<lambda>pl. cl_n_clusters (cls ! pl)) [0..<pl] = take pl (map cl_n_clusters cls)"
    by (rule nth_equalityI) (use assms(1) in simp_all)
  then have len: "length (concat (map ?f [0..<pl])) = sum_list (take pl (map cl_n_clusters cls))"
    by (simp add: length_concat comp_def)
  show "block_addresses cls ! (sum_list (take pl (map cl_n_clusters cls)) + b) = (pl, b)"
    unfolding split len [symmetric] using assms(2) by (simp add: nth_append)
  show "sum_list (take pl (map cl_n_clusters cls)) + b < length (block_addresses cls)"
    unfolding split len [symmetric] using assms(2) by simp
qed

lemma load_section:
  assumes ok: "source_ok v cls align" and addr: "addr mod 8 = 0"
  defines "first \<equiv> inline_align_up kHeaderSize align"
  shows "load_directory if_default addr (section_bytes v cls align) =
    Inr (if_default\<lparr>if_element_size := sv_element_size v, if_page_size := align,
      if_entries := entries_from v cls align first (block_addresses cls),
      if_list_offset := list_starts 0 (0 # map cl_n_clusters cls)\<rparr>)"
proof -
  have s: "sv_element_size v \<in> {1, 2, 4}" "and align (align - 1) = 0" "8 \<le> align" "align < 2 ^ 64" "length cls \<le> 65536"
    "length (section_bytes v cls align) < 2 ^ 64"
    using ok by (auto simp: source_ok_def)
  have align: "0 < align" using s(3) by simp
  let ?as = "block_addresses cls" and ?sec = "section_bytes v cls align"
  define es where "es = entries_from v cls align first ?as"
  define d where "d = first + sum_list (map (padded_len v cls align) ?as)"
  note w = written_entries [OF ok, folded first_def, folded es_def d_def]
  define h where "h = \<lparr>ih_element_size = sv_element_size v, ih_n_blocks = total_blocks cls, ih_page_size = align\<rparr>"
  define t where "t = \<lparr>it_dir_offset = d, it_n_entries = total_blocks cls, it_n_lists = length cls\<rparr>"
  let ?B = "replicate (first - kHeaderSize) 0 @ concat (map (padded_block v cls align) ?as)"
  let ?E = "encode_array entry_bytes es"
  have sec: "?sec = header_bytes h @ ?B @ ?E @ trailer_bytes t"
    by (simp add: section_bytes_def Let_def first_def es_def d_def h_def t_def)
  have first: "kHeaderSize \<le> first" unfolding first_def by (rule align_up_ge [OF align])
  have lB: "kHeaderSize + length ?B = d"
    using first by (simp add: d_def length_concat comp_def length_padded_block [OF align])
  have n: "length es = total_blocks cls" by (simp add: es_def length_block_addresses)
  have lE: "length ?E = total_blocks cls * kEntrySize"
  proof -
    have "length (encode_array entry_bytes xs) = length xs * kEntrySize" for xs by (induction xs) (simp_all add: encode_array_def)
    then show ?thesis by (simp add: n)
  qed
  have len: "length ?sec = d + total_blocks cls * kEntrySize + kTrailerSize"
    unfolding length_section_bytes [OF align] d_def first_def ..
  have small: "d < 2 ^ 64" "total_blocks cls < 2 ^ 64" using s(6) len by (simp_all add: kEntrySize_def)
  have h: "header_of_bytes (take kHeaderSize ?sec) = h"
    unfolding sec using header_round_trip [of h] s(1,4) small(2) by (auto simp: h_def)
  have "drop (length ?sec - kTrailerSize) ?sec = trailer_bytes t"
  proof -
    have "length ?sec - kTrailerSize = length (header_bytes h @ ?B @ ?E)" using len lB lE by simp
    then show ?thesis using sec by (metis append.assoc append_eq_conv_conj)
  qed
  then have t: "trailer_of_bytes (take kTrailerSize (drop (length ?sec - kTrailerSize) ?sec)) = t"
    using trailer_round_trip [of t] small s(5) by (simp add: t_def)
  have dE: "drop d ?sec = ?E @ trailer_bytes t"
  proof -
    have "d = length (header_bytes h @ ?B)" using lB by simp
    then show ?thesis using sec by (metis append.assoc append_eq_conv_conj)
  qed
  have dir: "length ?sec - kTrailerSize - d = total_blocks cls * kEntrySize" using len by simp
  have E: "decode_array entry_of_bytes kEntrySize (total_blocks cls) (take (total_blocks cls * kEntrySize) (drop d ?sec)) = es"
  proof -
    have "decode_array entry_of_bytes kEntrySize (length (map entry_bytes es)) (concat (map entry_bytes es)) =
        map entry_of_bytes (map entry_bytes es)"
      by (rule decode_concat) auto
    also have "\<dots> = es" using w(3) by (simp add: map_idI)
    finally show ?thesis using lE by (simp add: dE n encode_array_def)
  qed
  have "map address es = concat (map (\<lambda>pl. map (Pair pl) [0..<map cl_n_clusters cls ! pl]) [0..<length cls])"
    unfolding w(1) by (rule block_addresses_counts)
  from check_lists [OF this, of d] w(2) obtain prev where
    c: "foldE (check_entry (length cls) d) (None, replicate (length cls + 1) 0) es = Inr (prev, 0 # map cl_n_clusters cls)"
    by auto
  have "kEntrySize > 0" by (simp add: kEntrySize_def)
  have size: "\<not> length ?sec < kHeaderSize + kTrailerSize" using len lB by simp
  have d: "\<not> d < kHeaderSize" using lB by simp
  have al: "\<not> align < kMinBlockAlign" "addr mod kMinBlockAlign = 0" using s(3) addr by (simp_all add: kMinBlockAlign_def)
  show ?thesis
    unfolding load_directory_def Let_def h t
    using s(1,2,5) size d al E c \<open>kEntrySize > 0\<close> dir len
    by (auto simp: h_def t_def es_def)
qed

lemma loaded_blocks:
  assumes ok: "source_ok v cls align"
  defines "fwd \<equiv> if_default\<lparr>if_element_size := sv_element_size v, if_page_size := align,
      if_entries := entries_from v cls align (inline_align_up kHeaderSize align) (block_addresses cls),
      if_list_offset := list_starts 0 (0 # map cl_n_clusters cls), if_block_base := section_bytes v cls align\<rparr>"
  shows "pl < length cls \<Longrightarrow> num_blocks_in_list fwd pl = cl_n_clusters (cls ! pl)"
    "length cls \<le> pl \<Longrightarrow> num_blocks_in_list fwd pl = 0"
    "pl < length cls \<Longrightarrow> b < cl_n_clusters (cls ! pl) \<Longrightarrow> block_at fwd pl b = Inr (view_of v (docs_at cls (pl, b)))"
proof -
  let ?ns = "map cl_n_clusters cls" and ?first = "inline_align_up kHeaderSize align" and ?as = "block_addresses cls"
  have s: "sv_wire v" "blocks_ok v cls" "8 \<le> align" using ok by (auto simp: source_ok_def)
  have align: "0 < align" using s(3) by simp
  have off: "if_list_offset fwd ! pl = sum_list (take pl ?ns)" if "pl \<le> length cls" for pl
    using list_starts_nth [of pl "0 # ?ns" 0] that by (simp add: fwd_def)
  have len: "length (if_list_offset fwd) = length cls + 1" by (simp add: fwd_def)
  show nb: "num_blocks_in_list fwd pl = cl_n_clusters (cls ! pl)" if "pl < length cls" for pl
    using that off [of pl] off [of "pl + 1"] len by (simp add: num_blocks_in_list_def take_Suc_conv_app_nth)
  show "num_blocks_in_list fwd pl = 0" if "length cls \<le> pl" for pl using that len by (simp add: num_blocks_in_list_def)
  show "block_at fwd pl b = Inr (view_of v (docs_at cls (pl, b)))" if pl: "pl < length cls" and b: "b < cl_n_clusters (cls ! pl)" for pl b
  proof -
    define i where "i = sum_list (take pl ?ns) + b"
    note a = block_addresses_nth [OF pl b, folded i_def]
    define e where "e = if_entries fwd ! i"
    have e: "e = \<lparr>de_pl = u32 pl, de_block = u32 b, de_byte_off = ?first + sum_list (map (padded_len v cls align) (take i ?as)),
        de_len = length (block_bytes v (docs_at cls (pl, b))), de_n_docs = length (docs_at cls (pl, b)), de_reserved = 0\<rparr>"
      using entries_from_nth [OF a(2)] a(1) by (simp add: e_def fwd_def)
    have "address e = (pl, b)"
    proof -
      have "map address (if_entries fwd) ! i = (pl, b)" using written_entries(1) [OF ok] a(1) by (simp add: fwd_def)
      then show ?thesis using a(2) by (simp add: e_def fwd_def)
    qed
    then have at: "block_at fwd pl b = view_block fwd e"
      using nb [OF pl] off [of pl] pl b a(2) by (simp add: block_at_def i_def e_def fwd_def)
    have "?as = take i ?as @ (pl, b) # drop (Suc i) ?as" using a by (metis id_take_nth_drop)
    then have "concat (map (padded_block v cls align) ?as) = concat (map (padded_block v cls align) (take i ?as)) @
        padded_block v cls align (pl, b) @ concat (map (padded_block v cls align) (drop (Suc i) ?as))"
      by (metis concat.simps(2) concat_append list.simps(9) map_append)
    then obtain H P post where base: "if_block_base fwd = (H @ P @ concat (map (padded_block v cls align) (take i ?as))) @
        block_bytes v (docs_at cls (pl, b)) @ post" and HP: "length H = kHeaderSize" "length P = ?first - kHeaderSize"
      by (auto simp: fwd_def section_bytes_def Let_def padded_block_def intro!: that)
    have "kHeaderSize \<le> ?first" by (rule align_up_ge [OF align])
    then have "de_byte_off e = length (H @ P @ concat (map (padded_block v cls align) (take i ?as)))"
      using HP by (simp add: e length_concat comp_def length_padded_block [OF align])
    moreover have "docs_fit v (docs_at cls (pl, b))"
      by (rule blocks_okD(2) [OF s(2)]) (use pl b in \<open>simp add: address_mem\<close>)
    ultimately show ?thesis
      unfolding at using view_block_eq [OF s(1) _ _ base, of e] by (simp add: e fwd_def)
  qed
qed


text \<open>The rows of a view are the rows of the vectors.\<close>

lemma view_rows:
  assumes v: "sv_wire v" and ok: "\<forall>d \<in> set docs. valid_doc v d" and i: "i < length docs"
  shows "bv_nnz (view_of v docs) i = Inr (length (fst (doc_row v (docs ! i))))"
    "bv_doc_comps (view_of v docs) i = Inr (fst (doc_row v (docs ! i)))"
    "bv_doc_vals (sv_element_size v) (view_of v docs) i = Inr (snd (doc_row v (docs ! i)))"
proof -
  let ?pre = "take i docs" and ?d = "docs ! i" and ?post = "drop (Suc i) docs" and ?es = "sv_element_size v"
  have split: "docs = ?pre @ ?d # ?post" using i by (rule id_take_nth_drop)
  have o: "offsets_of v docs ! j = nnz_of v (take j docs)" if "j \<le> length docs" for j
    using that unfolding offsets_of_def by (simp del: upt_Suc)
  have step: "nnz_of v (take (Suc i) docs) = nnz_of v ?pre + length (fst (doc_row v ?d))"
    using i by (simp add: nnz_of_def take_Suc_conv_app_nth)
  have lo: "length (offsets_of v docs) = Suc (length docs)" by (simp add: offsets_of_def)
  have at: "read_at (bv_offsets (view_of v docs)) i = Inr (nnz_of v ?pre)"
    "read_at (bv_offsets (view_of v docs)) (i + 1) = Inr (nnz_of v ?pre + length (fst (doc_row v ?d)))"
    using i lo o [of i] o [of "i + 1"] step by (simp_all add: view_of_def read_at_def)
  then show n: "bv_nnz (view_of v docs) i = Inr (length (fst (doc_row v ?d)))" by (simp add: bv_nnz_def)
  have "block_comps v docs = block_comps v ?pre @ fst (doc_row v ?d) @ block_comps v ?post"
    by (subst split) (simp add: block_comps_def)
  from take_elems_mid [OF this, of "nnz_of v ?pre"] show "bv_doc_comps (view_of v docs) i = Inr (fst (doc_row v ?d))"
    using at n by (simp add: bv_doc_comps_def length_block_comps) (simp add: view_of_def)
  have "valid_doc v ?d" using ok i by simp
  note l = doc_slice_row(3) [OF v this]
  have "\<forall>d \<in> set ?pre. valid_doc v d" using ok by (auto dest: in_set_takeD)
  note lp = length_block_vals [OF v this]
  have "block_vals v docs = block_vals v ?pre @ snd (doc_row v ?d) @ block_vals v ?post"
    by (subst split) (simp add: block_vals_def)
  from take_elems_mid [OF this, of "nnz_of v ?pre * ?es" "length (fst (doc_row v ?d)) * ?es"]
  show "bv_doc_vals ?es (view_of v docs) i = Inr (snd (doc_row v ?d))"
    using at n l lp by (simp add: bv_doc_vals_def) (simp add: view_of_def)
qed

text \<open>What a loaded forward index shows of its source.\<close>

definition shows_source :: "sparse_vectors \<Rightarrow> clusters list \<Rightarrow> inline_forward \<Rightarrow> bool" where
  "shows_source v cls fwd \<longleftrightarrow> if_element_size fwd = sv_element_size v \<and> num_blocks fwd = total_blocks cls \<and>
     num_lists fwd = length cls \<and>
     (\<forall>pl b. block_at fwd pl b = Inr (if pl < length cls \<and> b < cl_n_clusters (cls ! pl)
        then view_of v (docs_at cls (pl, b)) else bv_absent_view))"

lemma forward_round_trips:
  assumes "if_new cls v page_size layout = Inr fwd" and ok: "source_ok v cls (write_alignment fwd)" and "8 dvd base"
  shows "round_trips (mk_cursor base) (\<lambda>w. if_serialize fwd (Some w)) (\<lambda>c. if_mmap_deserialize if_default (Some c)) (shows_source v cls)"
proof (rule round_tripsI)
  fix w rest :: "byte list"
  let ?a = "write_alignment fwd"
  let ?sec = "section_bytes v cls ?a"
  have src: "if_source fwd = Some (cls, v)" using assms(1) by (auto simp: if_new_def err_simps)
  have s: "sv_wire v" "blocks_ok v cls" "sv_element_size v \<in> {1, 2, 4}" "8 \<le> ?a" "length ?sec < 2 ^ 64"
    using ok by (auto simp: source_ok_def)
  then have a: "0 < ?a" by simp
  note body = write_body_eq [OF s(1-3) a]
  obtain n where n: "padding_for (length w) 8 = Inr n" "n < 8" "(length w + n) mod 8 = 0"
    using padding_for_total [of 8 "length w"] by auto
  let ?out = "replicate n 0 @ le_bytes 8 (length ?sec) @ ?sec"
  let ?fwd = "if_default\<lparr>if_element_size := sv_element_size v, if_page_size := ?a,
      if_entries := entries_from v cls ?a (inline_align_up kHeaderSize ?a) (block_addresses cls),
      if_list_offset := list_starts 0 (0 # map cl_n_clusters cls), if_block_base := ?sec\<rparr>"
  have pad: "pad_to kMinBlockAlign w = Inr (w @ replicate n 0)"
    using n by (auto simp: pad_to_def kMinBlockAlign_def kMaxAlignment_def writer_pos_def buffered_write_def)
  have ser: "if_serialize fwd (Some w) = Inr (w @ ?out)"
    using pad body by (simp add: if_serialize_def throw_if_null_def src write_nat_def buffered_write_def writer_pos_def)
  have "8 dvd length w + n" using n(3) by (rule mod_0_imp_dvd)
  then have "8 dvd base + (length w + n + 8)" using dvd_add [OF assms(3) dvd_add [of 8 "length w + n" 8]] by simp
  then have "(base + (length w + n + 8)) mod 8 = 0" by (rule dvd_imp_mod_0)
  note load = load_section [OF ok this]
  have "if_mmap_deserialize if_default (Some (mk_cursor base (w @ ?out @ rest) (length w))) =
      Inr (?fwd, mk_cursor base (w @ ?out @ rest) (length w + length ?out))"
    using n(1) s(5) load
    by (simp add: if_mmap_deserialize_def throw_if_null_def cursor_skip_padding_def kMinBlockAlign_def cursor_skip_def
        cursor_ensure_def map_nat_def mk_cursor_def cursor_remaining_def Let_def ac_simps)
  moreover have "shows_source v cls ?fwd"
  proof -
    have "block_at ?fwd pl b = Inr bv_absent_view" if "\<not> (pl < length cls \<and> b < cl_n_clusters (cls ! pl))" for pl b
      using that loaded_blocks(1,2) [OF ok, of pl] by (cases "pl < length cls") (simp_all add: block_at_def not_less)
    then show ?thesis
      using loaded_blocks(3) [OF ok] by (simp add: shows_source_def num_blocks_def num_lists_def length_block_addresses)
  qed
  ultimately show "\<exists>out y. if_serialize fwd (Some w) = Inr (w @ out) \<and> shows_source v cls y \<and>
      if_mmap_deserialize if_default (Some (mk_cursor base (w @ out @ rest) (length w))) =
        Inr (y, mk_cursor base (w @ out @ rest) (length w + length out))"
    using ser by blast
qed

text \<open>
  C34: the inline forward index is read back from its mapping as it was written, in either layout and
  wherever the section lands in the file: the block of each cluster holds the cluster's documents in
  order, each with the components and the value bytes of its row of the vectors, and no other block
  is present. The length written ahead of the section is the length of the section.
\<close>

theorem forward_index_round_trip:
  assumes "if_new cls v page_size layout = Inr fwd" and "source_ok v cls (write_alignment fwd)" and "8 dvd base"
  shows "round_trips (mk_cursor base) (\<lambda>w. if_serialize fwd (Some w)) (\<lambda>c. if_mmap_deserialize if_default (Some c))
    (\<lambda>fwd'. if_element_size fwd' = sv_element_size v \<and> num_lists fwd' = length cls \<and>
      (\<forall>pl b. if pl < length cls \<and> b < cl_n_clusters (cls ! pl)
        then \<exists>docs bv. get_docs (cls ! pl) b = Inr docs \<and> block_at fwd' pl b = Inr bv \<and> bv_doc_ids bv = Some (map nat docs) \<and>
          (\<forall>i < length docs. bv_doc_comps bv i = Inr (fst (sv_rows v ! nat (docs ! i))) \<and>
             bv_doc_vals (sv_element_size v) bv i = Inr (snd (sv_rows v ! nat (docs ! i))))
        else block_at fwd' pl b = Inr bv_absent_view))"
proof (rule round_trips_mono [OF forward_round_trips [OF assms]])
  fix fwd' assume f: "shows_source v cls fwd'"
  have s: "sv_wire v" "blocks_ok v cls" using assms(2) by (auto simp: source_ok_def)
  have "\<exists>docs bv. get_docs (cls ! pl) b = Inr docs \<and> block_at fwd' pl b = Inr bv \<and> bv_doc_ids bv = Some (map nat docs) \<and>
      (\<forall>i < length docs. bv_doc_comps bv i = Inr (fst (sv_rows v ! nat (docs ! i))) \<and>
         bv_doc_vals (sv_element_size v) bv i = Inr (snd (sv_rows v ! nat (docs ! i))))"
    if "pl < length cls" "b < cl_n_clusters (cls ! pl)" for pl b
  proof -
    let ?docs = "docs_at cls (pl, b)"
    have "(pl, b) \<in> set (block_addresses cls)" using that by (simp add: address_mem)
    note d = blocks_okD [OF s(2) this]
    have "\<forall>d \<in> set ?docs. valid_doc v d" using d(2) by (auto simp: docs_fit_def)
    note r = view_rows(2,3) [OF s(1) this]
    have "block_at fwd' pl b = Inr (view_of v ?docs)" using f that by (simp add: shows_source_def)
    then show ?thesis
      using d(1) r by (intro exI [of _ ?docs] exI [of _ "view_of v ?docs"]) (simp add: doc_row_def, simp add: view_of_def)
  qed
  then show "if_element_size fwd' = sv_element_size v \<and> num_lists fwd' = length cls \<and>
      (\<forall>pl b. if pl < length cls \<and> b < cl_n_clusters (cls ! pl)
        then \<exists>docs bv. get_docs (cls ! pl) b = Inr docs \<and> block_at fwd' pl b = Inr bv \<and> bv_doc_ids bv = Some (map nat docs) \<and>
          (\<forall>i < length docs. bv_doc_comps bv i = Inr (fst (sv_rows v ! nat (docs ! i))) \<and>
             bv_doc_vals (sv_element_size v) bv i = Inr (snd (sv_rows v ! nat (docs ! i))))
        else block_at fwd' pl b = Inr bv_absent_view)"
    using f by (simp add: shows_source_def)
qed


text \<open>A matrix of two rows, and a list of two clusters of one document each.\<close>

definition example_vectors :: sparse_vectors where
  "example_vectors = \<lparr>sv_indptr = buf_own [0, 1, 2], sv_indices = buf_own [4, 7], sv_values = buf_own [200, 9],
     sv_element_size = 1, sv_dimension = 9\<rparr>"

definition example_clusters :: clusters where
  "example_clusters = cl_default\<lparr>cl_n_clusters := 2, cl_element_size := 1, cl_docs := buf_own [1, 0], cl_offsets := buf_own [0, 1, 2]\<rparr>"

lemma example_source_ok: "source_ok example_vectors [example_clusters] 8"
proof -
  have v: "sv_wire example_vectors"
    by (simp add: example_vectors_def sv_wire_def sv_content_wf_def csr_wf_def U8_def U16_def U32_def U64_def SIZE_MAX_def
        vector_max_size_def)
  have as: "block_addresses [example_clusters] = [(0, 0), (0, 1)]"
    by (simp add: block_addresses_def example_clusters_def upt_rec)
  have docs: "get_docs example_clusters 0 = Inr [1]" "get_docs example_clusters 1 = Inr [0]"
    by (simp_all add: get_docs_def example_clusters_def doc_span_def buf_size_def take_elems_def)
  have rows: "doc_row example_vectors 0 = ([4], [200])" "doc_row example_vectors 1 = ([7], [9])"
    by (simp_all add: doc_row_def sv_rows_def csr_rows_def example_vectors_def slice_def)
  have fit: "docs_fit example_vectors [0]" "docs_fit example_vectors [1]"
    using rows by (simp_all add: docs_fit_def valid_doc_def num_vectors_def buf_empty_def buf_size_def is_i32_def nnz_of_def
        INT32_MAX_def UINT32_MAX_def) (simp_all add: example_vectors_def)
  have blocks: "blocks_ok example_vectors [example_clusters]"
    using docs fit by (simp add: blocks_ok_def as)
  have at: "docs_at [example_clusters] (0, 0) = [1]" "docs_at [example_clusters] (0, 1) = [0]"
    using docs by (simp_all add: docs_at_def)
  have es: "sv_element_size example_vectors = 1" by (simp add: example_vectors_def)
  have "length (block_bytes example_vectors [0]) = 19" "length (block_bytes example_vectors [1]) = 19"
    using length_block_bytes [OF v fit(1)] length_block_bytes [OF v fit(2)] rows
    by (simp_all add: nnz_of_def es inline_align_up_def)
  then have "length (section_bytes example_vectors [example_clusters] 8) = 24 + 48 + 64 + 24"
    by (subst length_section_bytes) (simp_all add: as padded_len_def at [simplified] total_blocks_def kHeaderSize_def kEntrySize_def kTrailerSize_def
        inline_align_up_def, simp add: example_clusters_def)
  moreover have "and (8 :: nat) (8 - 1) = 0" by simp
  ultimately show ?thesis
    using v blocks es by (simp add: source_ok_def) (simp add: example_clusters_def)
qed


lemma example_new:
  "if_new cls v page_size Packed = Inr (if_default\<lparr>if_source := Some (cls, v), if_write_page_size := page_size, if_write_layout := Packed\<rparr>)"
  by (simp add: if_new_def)

theorem forward_index_round_trip_witness:
  "\<exists>fwd. if_new [example_clusters] example_vectors 4096 Packed = Inr fwd \<and>
    round_trips (mk_cursor 4096) (\<lambda>w. if_serialize fwd (Some w)) (\<lambda>c. if_mmap_deserialize if_default (Some c))
      (\<lambda>fwd'. \<exists>bv. block_at fwd' 0 1 = Inr bv \<and> bv_doc_ids bv = Some [0] \<and> bv_doc_comps bv 0 = Inr [4] \<and>
         bv_doc_vals 1 bv 0 = Inr [200] \<and> block_at fwd' 0 2 = Inr bv_absent_view)"
proof -
  obtain fwd where fwd: "if_new [example_clusters] example_vectors 4096 Packed = Inr fwd" "write_alignment fwd = 8"
    by (simp add: example_new write_alignment_def kMinBlockAlign_def)
  have ok: "source_ok example_vectors [example_clusters] (write_alignment fwd)" unfolding fwd(2) by (rule example_source_ok)
  have d: "(8 :: nat) dvd 4096" by simp
  have docs: "get_docs example_clusters 1 = Inr [0]" "cl_n_clusters example_clusters = 2"
    by (simp_all add: get_docs_def example_clusters_def doc_span_def buf_size_def take_elems_def)
  have es: "sv_element_size example_vectors = 1" "sv_rows example_vectors ! 0 = ([4], [200])"
    by (simp_all add: example_vectors_def sv_rows_def csr_rows_def slice_def)
  have "round_trips (mk_cursor 4096) (\<lambda>w. if_serialize fwd (Some w)) (\<lambda>c. if_mmap_deserialize if_default (Some c))
      (\<lambda>fwd'. \<exists>bv. block_at fwd' 0 1 = Inr bv \<and> bv_doc_ids bv = Some [0] \<and> bv_doc_comps bv 0 = Inr [4] \<and>
         bv_doc_vals 1 bv 0 = Inr [200] \<and> block_at fwd' 0 2 = Inr bv_absent_view)"
  proof (rule round_trips_mono [OF forward_index_round_trip [OF fwd(1) ok d]], elim conjE)
    fix fwd'
    assume all: "\<forall>pl b. if pl < length [example_clusters] \<and> b < cl_n_clusters ([example_clusters] ! pl)
        then \<exists>docs bv. get_docs ([example_clusters] ! pl) b = Inr docs \<and> block_at fwd' pl b = Inr bv \<and> bv_doc_ids bv = Some (map nat docs) \<and>
          (\<forall>i < length docs. bv_doc_comps bv i = Inr (fst (sv_rows example_vectors ! nat (docs ! i))) \<and>
             bv_doc_vals (sv_element_size example_vectors) bv i = Inr (snd (sv_rows example_vectors ! nat (docs ! i))))
        else block_at fwd' pl b = Inr bv_absent_view"
    from all [rule_format, of 0 1] all [rule_format, of 0 2] docs es
    show "\<exists>bv. block_at fwd' 0 1 = Inr bv \<and> bv_doc_ids bv = Some [0] \<and> bv_doc_comps bv 0 = Inr [4] \<and>
         bv_doc_vals 1 bv 0 = Inr [200] \<and> block_at fwd' 0 2 = Inr bv_absent_view" by auto
  qed
  with fwd(1) show ?thesis by blast
qed

theorem mapped_forward_fails_closed_witness:
  "\<exists>c fwd c'. if_mmap_deserialize if_default (Some c) = Inr (fwd, c') \<and> num_blocks fwd = 2 \<and> not_ub (block_at fwd 0 1)"
proof -
  obtain fwd where fwd: "if_new [example_clusters] example_vectors 4096 Packed = Inr fwd" "write_alignment fwd = 8"
    by (simp add: example_new write_alignment_def kMinBlockAlign_def)
  have ok: "source_ok example_vectors [example_clusters] (write_alignment fwd)" unfolding fwd(2) by (rule example_source_ok)
  have d: "(8 :: nat) dvd 4096" by simp
  obtain out fwd' c' where s: "shows_source example_vectors [example_clusters] fwd'"
    and m: "if_mmap_deserialize if_default (Some (mk_cursor 4096 ([] @ out @ []) (length ([] :: byte list)))) = Inr (fwd', c')"
    using forward_round_trips [OF fwd(1) ok d, unfolded round_trips_def, rule_format, of "[]" "[]"] by blast
  have "total_blocks [example_clusters] = 2" by (simp add: total_blocks_def example_clusters_def)
  then have "num_blocks fwd' = 2" using s by (simp add: shows_source_def)
  then show ?thesis
    using m mapped_forward_fails_closed [OF m, of 0 1] by (intro exI conjI) (assumption, assumption, erule conjunct1)
qed

end
