(* ===== verification/Disk_Search.thy ===== *)
theory Disk_Search
  imports Seismic_SQ_Index Inline_Forward
begin

text \<open>
  \<^verbatim>\<open>disk_seismic_search.cpp\<close>: the block-budget search the two disk-resident Seismic indexes share. A
  query scores the summaries of every block of its heaviest terms' lists, keeps the best \<open>k_prime\<close>
  blocks and scores their documents, from the mapped forward index or from the vectors in memory.
  The main theorems: the answer is the best of the documents of the selected blocks, and the two
  sources give the same answer, bit for bit.
\<close>

section \<open>Parameters\<close>

definition kDefaultBlockBudget :: int where "kDefaultBlockBudget = 50"

definition resolve_cut_and_budget :: "'w search_params option \<Rightarrow> int \<times> int" where
  "resolve_cut_and_budget p = (case p of
       Some (Disk_Seismic_Parameters q_cut k_prime _) \<Rightarrow> (q_cut, k_prime)
     | Some (Disk_Seismic_SQ_Parameters _ _ q_cut k_prime _) \<Rightarrow> (q_cut, k_prime)
     | Some (Seismic_Parameters q_cut _ _) \<Rightarrow> (q_cut, kDefaultBlockBudget)
     | Some (Seismic_SQ_Parameters _ _ q_cut _ _) \<Rightarrow> (q_cut, kDefaultBlockBudget)
     | _ \<Rightarrow> (10, kDefaultBlockBudget))"

definition top_cut_tokens :: "(byte list \<Rightarrow> 'w :: ord) \<Rightarrow> term_t list \<Rightarrow> byte list \<Rightarrow> int \<Rightarrow> size_t \<Rightarrow> exn + term_t list" where
  "top_cut_tokens dec indices codes q_cut element_size =
     (if element_size = U32 then top_k_tokens indices (decode_array dec 4 (length indices) codes) q_cut
      else if element_size = U16 then top_k_tokens indices (decode_array le_nat 2 (length indices) codes) q_cut
      else top_k_tokens indices (decode_array le_nat 1 (length indices) codes) q_cut)"

text \<open>A negative length is a huge \<open>size_t\<close>, which \<^verbatim>\<open>std::vector\<close> refuses.\<close>

definition initialize_padded_results :: "idx_t \<Rightarrow> int \<Rightarrow> exn + ('w :: {one, uminus} list \<times> idx_t list) list" where
  "initialize_padded_results n k =
     bindE (throw_if (k < 0 \<or> n < 0) (Length_error ''cannot create std::vector larger than max_size()''))
       (\<lambda>_. Inr (replicate (nat n) (replicate (nat k) (- 1), replicate (nat k) INVALID_IDX)))"

section \<open>Scoring blocks\<close>

text \<open>The kernel of the stored width on a row's components and value bytes.\<close>

definition score_slice ::
  "(byte list \<Rightarrow> 'w) \<Rightarrow> (int \<Rightarrow> 'w) \<Rightarrow> size_t \<Rightarrow> byte list \<Rightarrow> term_t list \<times> byte list \<Rightarrow> exn + 'w :: {zero, plus, times}" where
  "score_slice dec of_i element_size dense = (\<lambda>(comps, vals).
     if element_size = U32
     then dot_product_float_dense comps (decode_array dec 4 (length comps) vals) (typed_array 4 dec dense)
     else if element_size = U16
     then dot_product_uint16_dense of_i comps (decode_array le_nat 2 (length comps) vals) (typed_array 2 le_nat dense)
     else dot_product_uint8_dense of_i comps (decode_array le_nat 1 (length comps) vals) (typed_array 1 le_nat dense))"

text \<open>The row is read only if the document is not skipped.\<close>

definition score_doc ::
  "(byte list \<Rightarrow> 'w) \<Rightarrow> (int \<Rightarrow> 'w) \<Rightarrow> size_t \<Rightarrow> byte list \<Rightarrow> id_selector option \<Rightarrow> ('w, idx_t) topk_holder \<times> idx_t list \<Rightarrow>
     idx_t \<Rightarrow> (exn + term_t list \<times> byte list) \<Rightarrow> exn + ('w :: {zero, plus, times, ord}, idx_t) topk_holder \<times> idx_t list" where
  "score_doc dec of_i element_size dense sel st doc_id row =
     visit_doc (\<lambda>_. bindE row (score_slice dec of_i element_size dense)) sel st doc_id"

definition score_block ::
  "(byte list \<Rightarrow> 'w) \<Rightarrow> (int \<Rightarrow> 'w) \<Rightarrow> inline_forward option \<Rightarrow> sparse_vectors option \<Rightarrow> clusters list \<Rightarrow> nat \<Rightarrow> nat \<Rightarrow>
     byte list \<Rightarrow> size_t \<Rightarrow> id_selector option \<Rightarrow> ('w, idx_t) topk_holder \<times> idx_t list \<Rightarrow>
     exn + ('w :: {zero, plus, times, ord}, idx_t) topk_holder \<times> idx_t list" where
  "score_block dec of_i fwd vectors cls pl cid dense element_size sel st = (case fwd of
       Some fwd \<Rightarrow> bindE (block_at fwd pl cid) (\<lambda>bv.
         case bv_doc_ids bv of None \<Rightarrow> Inr st
         | Some ids \<Rightarrow> foldE (\<lambda>st i. bindE (read_at ids i) (\<lambda>doc_id.
             score_doc dec of_i element_size dense sel st (i32 (int doc_id))
               (bindE (bv_doc_comps bv i) (\<lambda>comps. bindE (bv_doc_vals element_size bv i) (\<lambda>vals. Inr (comps, vals))))))
             st [0..<bv_n_docs bv])
     | None \<Rightarrow> (case vectors of
         Some v \<Rightarrow> bindE (get_docs (cls ! pl) cid) (\<lambda>docs.
           foldE (\<lambda>st doc_id.
             if doc_id < 0 \<or> nat doc_id + 1 \<ge> length (buf_elems (sv_indptr v))
             then Inl (Undefined_behaviour ''read past the end'')
             else score_doc dec of_i element_size dense sel st doc_id
                    (doc_slice (v\<lparr>sv_element_size := element_size\<rparr>) doc_id)) st docs)
       | None \<Rightarrow> Inr st))"

section \<open>The query\<close>

text \<open>A candidate block: its summary score, its list and its cluster.\<close>

type_synonym 'w block_candidate = "'w \<times> nat \<times> nat"

definition collect_candidates ::
  "(byte list \<Rightarrow> 'w) \<Rightarrow> (nat \<Rightarrow> 'w) \<Rightarrow> clusters list \<Rightarrow> term_t list \<Rightarrow> byte list \<Rightarrow> term_t list \<Rightarrow>
     exn + 'w :: {zero, plus, times} block_candidate list" where
  "collect_candidates dec conv cls query_indices query_values cuts =
     foldE (\<lambda>cands t.
       if t \<ge> length cls then Inr cands
       else if cl_n_clusters (cls ! t) = 0 then Inr cands
       else bindE (score_summaries_transposed dec conv (cls ! t) query_indices query_values) (\<lambda>scores.
            Inr (cands @ map (\<lambda>cid. (scores ! cid, t, cid)) [0..<cl_n_clusters (cls ! t)]))) [] cuts"

text \<open>
  \<^verbatim>\<open>std::nth_element\<close> by decreasing score, then the first \<open>budget\<close>: of what the standard allows, the
  candidates in order.
\<close>

definition select_blocks :: "int \<Rightarrow> 'w :: ord block_candidate list \<Rightarrow> 'w block_candidate list" where
  "select_blocks k_prime cands =
     (let budget = min (size_of_int k_prime) (length cands)
      in if budget < length cands then take budget (sort_by (\<lambda>a b. fst b < fst a) cands) else cands)"

definition block_budget_query ::
  "(byte list \<Rightarrow> 'w) \<Rightarrow> (nat \<Rightarrow> 'w) \<Rightarrow> (int \<Rightarrow> 'w) \<Rightarrow> size_t \<Rightarrow> term_t list \<Rightarrow> byte list \<Rightarrow> term_t list \<Rightarrow> int \<Rightarrow> int \<Rightarrow>
     clusters list \<Rightarrow> inline_forward option \<Rightarrow> sparse_vectors option \<Rightarrow> id_selector option \<Rightarrow> byte list \<Rightarrow>
     exn + ('w :: {zero, plus, times, ord} list \<times> idx_t list) \<times> byte list" where
  "block_budget_query dec conv of_i element_size query_indices query_values cuts k k_prime cls fwd vectors sel dense =
     bindE (scatter_codes element_size query_indices query_values dense) (\<lambda>dense.
     bindE (collect_candidates dec conv cls query_indices query_values cuts) (\<lambda>cands.
     bindE (topk_new k) (\<lambda>holder.
     bindE (foldE (\<lambda>st (_, pl, cid). score_block dec of_i fwd vectors cls pl cid dense element_size sel st)
              (holder, []) (select_blocks k_prime cands)) (\<lambda>(holder, _).
     bindE (clear_codes element_size query_indices dense) (\<lambda>dense.
     Inr (topk_items_descending holder, dense))))))"


section \<open>The two sources of a block's documents agree\<close>

lemma foldE_map: "foldE f s (map g xs) = foldE (\<lambda>s x. f s (g x)) s xs"
  by (induction xs arbitrary: s) simp_all

lemma foldE_upt: "foldE f s xs = foldE (\<lambda>s i. f s (xs ! i)) s [0..<length xs]"
  using foldE_map [of f s "\<lambda>i. xs ! i" "[0..<length xs]"] by (simp add: map_nth)

lemma visit_doc_at: "visit_doc (\<lambda>_. f d) sel st d = visit_doc f sel st d"
  by (cases st) (simp add: visit_doc_def)

text \<open>The score of a document of the corpus against the dense query.\<close>

definition row_score ::
  "(byte list \<Rightarrow> 'w) \<Rightarrow> (int \<Rightarrow> 'w) \<Rightarrow> sparse_vectors \<Rightarrow> byte list \<Rightarrow> idx_t \<Rightarrow> exn + 'w :: {zero, plus, times}" where
  "row_score dec of_i v dense d = score_slice dec of_i (sv_element_size v) dense (doc_row v d)"

lemma score_doc_row:
  "score_doc dec of_i (sv_element_size v) dense sel st d (Inr (doc_row v d)) = visit_doc (row_score dec of_i v dense) sel st d"
  using visit_doc_at [of "row_score dec of_i v dense" d sel st] by (simp add: score_doc_def row_score_def)

lemma score_block_vectors:
  assumes "sv_wire v" and "get_docs (cls ! pl) cid = Inr docs" and "\<forall>d \<in> set docs. valid_doc v d"
  shows "score_block dec of_i None (Some v) cls pl cid dense (sv_element_size v) sel st =
    foldE (visit_doc (row_score dec of_i v dense) sel) st docs"
proof -
  have "v\<lparr>sv_element_size := sv_element_size v\<rparr> = v" by simp
  moreover have "\<not> (d < 0 \<or> nat d + 1 \<ge> length (buf_elems (sv_indptr v)))" if "d \<in> set docs" for d
    using assms(3) that by (auto simp: valid_doc_def num_vectors_def buf_empty_def buf_size_def split: if_splits)
  ultimately show ?thesis
    using assms(2,3) doc_slice_row(2) [OF assms(1)]
    by (auto simp: score_block_def score_doc_row intro!: foldE_cong)
qed

lemma score_block_forward:
  assumes "sv_wire v" and "get_docs (cls ! pl) cid = Inr docs" and ok: "\<forall>d \<in> set docs. valid_doc v d \<and> is_i32 d"
    and fwd: "shows_source v cls fwd" and "pl < length cls" and "cid < cl_n_clusters (cls ! pl)"
  shows "score_block dec of_i (Some fwd) vs cls' pl cid dense (sv_element_size v) sel st =
    foldE (visit_doc (row_score dec of_i v dense) sel) st docs"
proof -
  let ?bv = "view_of v docs"
  have bv: "block_at fwd pl cid = Inr ?bv"
    using fwd assms(2,5,6) by (simp add: shows_source_def docs_at_def)
  have ids: "bv_doc_ids ?bv = Some (map nat docs)" "bv_n_docs ?bv = length docs" by (simp_all add: view_of_def)
  have v: "\<forall>d \<in> set docs. valid_doc v d" using ok by simp
  have "i32 (int (nat d)) = d" if "d \<in> set docs" for d
    using ok that by (auto simp: valid_doc_def)
  then have "score_block dec of_i (Some fwd) vs cls' pl cid dense (sv_element_size v) sel st =
      foldE (\<lambda>st i. visit_doc (row_score dec of_i v dense) sel st (docs ! i)) st [0..<length docs]"
    using view_rows [OF assms(1) v]
    by (simp add: score_block_def bv ids read_at_def)
      (intro foldE_cong; simp add: score_doc_row)
  then show ?thesis using foldE_upt [of "visit_doc (row_score dec of_i v dense) sel" st docs] by simp
qed


section \<open>Candidates\<close>

lemma collect_candidates_same:
  assumes "list_all2 same_clusters (map without_docs cls) cls'"
  shows "collect_candidates dec conv cls' ts bytes cuts = collect_candidates dec conv cls ts bytes cuts"
proof -
  have len: "length cls' = length cls" using list_all2_lengthD [OF assms] by simp
  have "score_summaries_transposed dec conv (cls' ! t) ts bytes = score_summaries_transposed dec conv (cls ! t) ts bytes \<and>
      cl_n_clusters (cls' ! t) = cl_n_clusters (cls ! t)" if "t < length cls" for t
  proof -
    have c: "same_clusters (without_docs (cls ! t)) (cls' ! t)"
      using list_all2_nthD [OF assms] that by simp
    have f: "score_term dec conv (without_docs (cls ! t)) = score_term dec conv (cls ! t)"
      by (intro ext) (simp add: score_term_def without_docs_def Let_def cong: if_cong)
    have "score_summaries_typed dec conv (without_docs (cls ! t)) = score_summaries_typed dec conv (cls ! t)"
      unfolding score_summaries_typed_def f by (intro ext) (simp add: without_docs_def)
    then have "score_summaries_transposed dec conv (without_docs (cls ! t)) ts bytes =
        score_summaries_transposed dec conv (cls ! t) ts bytes"
      by (simp add: score_summaries_transposed_def without_docs_def Let_def)
    then show ?thesis using same_clusters_scores [OF c, of dec conv ts bytes] c by (simp add: same_clusters_def without_docs_def)
  qed
  then have "(if t \<ge> length cls' then Inr cands else if cl_n_clusters (cls' ! t) = 0 then Inr cands
      else bindE (score_summaries_transposed dec conv (cls' ! t) ts bytes) (\<lambda>scores.
           Inr (cands @ map (\<lambda>cid. (scores ! cid, t, cid)) [0..<cl_n_clusters (cls' ! t)]))) =
    (if t \<ge> length cls then Inr cands else if cl_n_clusters (cls ! t) = 0 then Inr cands
      else bindE (score_summaries_transposed dec conv (cls ! t) ts bytes) (\<lambda>scores.
           Inr (cands @ map (\<lambda>cid. (scores ! cid, t, cid)) [0..<cl_n_clusters (cls ! t)])))" for t cands
    by (simp add: len)
  then show ?thesis unfolding collect_candidates_def by presburger
qed

text \<open>The candidates name every cluster of every list of the cuts, and nothing else.\<close>

lemma collect_candidates_names:
  assumes "collect_candidates dec conv cls ts bytes cuts = Inr cands"
  shows "map snd cands = concat (map (\<lambda>t. if t < length cls then map (Pair t) [0..<cl_n_clusters (cls ! t)] else []) cuts)"
proof -
  let ?names = "\<lambda>cuts. concat (map (\<lambda>t. if t < length cls then map (Pair t) [0..<cl_n_clusters (cls ! t)] else []) cuts)"
  have "map snd cands = map snd acc @ ?names cuts"
    if "foldE (\<lambda>cands t.
       if t \<ge> length cls then Inr cands
       else if cl_n_clusters (cls ! t) = 0 then Inr cands
       else bindE (score_summaries_transposed dec conv (cls ! t) ts bytes) (\<lambda>scores.
            Inr (cands @ map (\<lambda>cid. (scores ! cid, t, cid)) [0..<cl_n_clusters (cls ! t)]))) acc cuts = Inr cands" for acc
    using that by (induction cuts arbitrary: acc) (auto simp: bindE_Inr_iff comp_def split: if_splits)
  then show ?thesis using assms unfolding collect_candidates_def by force
qed

lemma collect_candidates_total:
  assumes "\<forall>cl \<in> set cls. \<exists>scores. score_summaries_transposed dec conv cl ts bytes = Inr scores"
  shows "\<exists>cands. collect_candidates dec conv cls ts bytes cuts = Inr cands"
proof -
  have "\<exists>cands. foldE (\<lambda>cands t.
       if t \<ge> length cls then Inr cands
       else if cl_n_clusters (cls ! t) = 0 then Inr cands
       else bindE (score_summaries_transposed dec conv (cls ! t) ts bytes) (\<lambda>scores.
            Inr (cands @ map (\<lambda>cid. (scores ! cid, t, cid)) [0..<cl_n_clusters (cls ! t)]))) acc cuts = Inr cands" for acc
  proof (induction cuts arbitrary: acc)
    case (Cons t cuts)
    show ?case
    proof (cases "t < length cls")
      case True
      then obtain scores where "score_summaries_transposed dec conv (cls ! t) ts bytes = Inr scores" using assms by force
      then show ?thesis using Cons True by simp
    next
      case False
      then show ?thesis using Cons by simp
    qed
  qed simp
  then show ?thesis by (simp add: collect_candidates_def)
qed

lemma set_select_blocks: "set (select_blocks k_prime cands) \<subseteq> set cands"
  by (auto simp: select_blocks_def Let_def dest: in_set_takeD)

lemma select_blocks_best:
  fixes cands :: "'w :: linorder block_candidate list"
  shows "is_topk (size_of_int k_prime) fst (mset cands) (mset (select_blocks k_prime cands))"
proof (cases "size_of_int k_prime < length cands")
  case True
  have "sorted_wrt (\<lambda>a b. fst b \<le> fst a) (sort_by (\<lambda>a b. fst b < fst a) cands)"
    by (rule sorted_sort_by_desc) simp
  from is_topk_take [OF this, of "size_of_int k_prime"] show ?thesis
    using True by (simp add: select_blocks_def min_def)
qed (simp add: select_blocks_def is_topk_all)


section \<open>The search\<close>

text \<open>The documents of blocks, each once.\<close>

definition block_docs :: "clusters list \<Rightarrow> (nat \<times> nat) list \<Rightarrow> idx_t list" where
  "block_docs cls blocks = remdups (concat (map (docs_at cls) blocks))"

lemma block_docs_all:
  assumes "collect_candidates dec conv cls ts bytes cuts = Inr cands"
  shows "set (block_docs cls (map snd cands)) = set (visited_docs cls cuts)"
  unfolding collect_candidates_names [OF assms]
  by (auto simp: block_docs_def set_visited_docs list_docs_def docs_at_def split: if_splits)

text \<open>What the disk indexes hold: in memory the vectors and the clusters, mapped the forward index and the summaries.\<close>

definition same_source :: "sparse_vectors \<Rightarrow> clusters list \<Rightarrow> clusters list \<Rightarrow> inline_forward \<Rightarrow> bool" where
  "same_source v cls cls' fwd \<longleftrightarrow> list_all2 same_clusters (map without_docs cls) cls' \<and> shows_source v cls fwd"

lemma selected_blocks_ok:
  assumes "blocks_ok v cls" and "collect_candidates dec conv cls ts bytes cuts = Inr cands"
    and "(s, pl, cid) \<in> set (select_blocks k_prime cands)"
  shows "pl < length cls" "cid < cl_n_clusters (cls ! pl)" "get_docs (cls ! pl) cid = Inr (docs_at cls (pl, cid))"
    "\<forall>d \<in> set (docs_at cls (pl, cid)). valid_doc v d \<and> is_i32 d"
proof -
  have "(pl, cid) \<in> set (map snd cands)" using set_select_blocks assms(3) by force
  then show r: "pl < length cls" "cid < cl_n_clusters (cls ! pl)"
    unfolding collect_candidates_names [OF assms(2)] by (auto split: if_splits)
  then have "(pl, cid) \<in> set (block_addresses cls)" by (simp add: address_mem)
  then obtain ds where "get_docs (cls ! pl) cid = Inr ds" "docs_fit v ds"
    using assms(1) by (auto simp: blocks_ok_def)
  then show "get_docs (cls ! pl) cid = Inr (docs_at cls (pl, cid))"
    "\<forall>d \<in> set (docs_at cls (pl, cid)). valid_doc v d \<and> is_i32 d"
    by (simp_all add: docs_at_def docs_fit_def)
qed

lemma block_budget_query_same:
  assumes "sv_wire v" and "blocks_ok v cls" and "same_source v cls cls' fwd"
  shows "block_budget_query dec conv of_i (sv_element_size v) ts bytes cuts k k_prime cls' (Some fwd) vs sel dense =
    block_budget_query dec conv of_i (sv_element_size v) ts bytes cuts k k_prime cls None (Some v) sel dense"
proof -
  have cands: "collect_candidates dec conv cls' ts bytes cuts = collect_candidates dec conv cls ts bytes cuts"
    using collect_candidates_same assms(3) by (auto simp: same_source_def)
  have fwd: "shows_source v cls fwd" using assms(3) by (simp add: same_source_def)
  have "foldE (\<lambda>st (_, pl, cid). score_block dec of_i (Some fwd) vs cls' pl cid d (sv_element_size v) sel st) st (select_blocks k_prime cands) =
    foldE (\<lambda>st (_, pl, cid). score_block dec of_i None (Some v) cls pl cid d (sv_element_size v) sel st) st (select_blocks k_prime cands)"
    if c: "collect_candidates dec conv cls ts bytes cuts = Inr cands" for cands d st
  proof (rule foldE_cong [OF refl refl], clarify)
    fix st s pl cid assume m: "(s, pl, cid) \<in> set (select_blocks k_prime cands)"
    note ok = selected_blocks_ok [OF assms(2) c m]
    have v: "\<forall>d \<in> set (docs_at cls (pl, cid)). valid_doc v d" using ok(4) by simp
    show "score_block dec of_i (Some fwd) vs cls' pl cid d (sv_element_size v) sel st =
        score_block dec of_i None (Some v) cls pl cid d (sv_element_size v) sel st"
      using score_block_forward [OF assms(1) ok(3,4) fwd ok(1,2), of dec of_i vs cls' d sel st]
        score_block_vectors [OF assms(1) ok(3) v, of dec of_i d sel st] by simp
  qed
  then show ?thesis
    unfolding block_budget_query_def cands by (intro bindE_cong refl) auto
qed


lemma score_blocks_inv:
  fixes s :: "idx_t \<Rightarrow> 'w :: linordered_idom"
  assumes "sv_wire v" and sc: "\<And>d. valid_doc v d \<Longrightarrow> row_score dec of_i v dense d = Inr (s d)"
    and "\<forall>(x, pl, cid) \<in> set blocks. get_docs (cls ! pl) cid = Inr (docs_at cls (pl, cid)) \<and>
      (\<forall>d \<in> set (docs_at cls (pl, cid)). valid_doc v d)"
    and "walk_inv k s (selected_by sel) seen st"
  shows "\<exists>st'. foldE (\<lambda>st (_, pl, cid). score_block dec of_i None (Some v) cls pl cid dense (sv_element_size v) sel st) st blocks = Inr st' \<and>
    walk_inv k s (selected_by sel) (set (block_docs cls (map snd blocks)) \<union> seen) st'"
  using assms(3,4)
proof (induction blocks arbitrary: seen st)
  case Nil
  then show ?case by (simp add: block_docs_def)
next
  case (Cons b blocks)
  obtain x pl cid where b: "b = (x, pl, cid)" by (cases b)
  have docs: "get_docs (cls ! pl) cid = Inr (docs_at cls (pl, cid))" "\<forall>d \<in> set (docs_at cls (pl, cid)). valid_doc v d"
    using Cons.prems(1) by (auto simp: b)
  obtain st1 where st1: "score_block dec of_i None (Some v) cls pl cid dense (sv_element_size v) sel st = Inr st1"
    "walk_inv k s (selected_by sel) (set (docs_at cls (pl, cid)) \<union> seen) st1"
    unfolding score_block_vectors [OF assms(1) docs]
    using visit_docs_inv [OF Cons.prems(2), of "docs_at cls (pl, cid)" "row_score dec of_i v dense"] docs(2) sc by blast
  have "set (block_docs cls (map snd (b # blocks))) \<union> seen =
      set (block_docs cls (map snd blocks)) \<union> (set (docs_at cls (pl, cid)) \<union> seen)"
    by (auto simp: block_docs_def b)
  then show ?case using Cons.IH [OF _ st1(2)] Cons.prems(1) st1(1) by (simp add: b)
qed

lemma block_budget_best:
  fixes s :: "idx_t \<Rightarrow> 'w :: linordered_idom"
  assumes v: "sv_wire v" "blocks_ok v cls" "sv_element_size v = es"
    and q: "\<forall>t \<in> set ts. t < n" "length bytes = length ts * es"
    and sc: "\<And>d. valid_doc v d \<Longrightarrow>
      row_score dec of_i v (concat (chunk_row es n ts (map (code_at es bytes) [0..<length ts]))) d = Inr (s d)"
    and cands: "collect_candidates dec conv cls ts bytes cuts = Inr cands" and k: "0 < k"
  shows "\<exists>scores ids. block_budget_query dec conv of_i es ts bytes cuts k k_prime cls None (Some v) sel (replicate (n * es) 0) =
      Inr ((scores, ids), replicate (n * es) 0) \<and>
    (\<forall>c > 0. best_of k (map (\<lambda>d. (s d * c, d)) (filter (selected_by sel) (block_docs cls (map snd (select_blocks k_prime cands)))))
      (resize (nat k) (- 1) (map (\<lambda>x. x * c) scores), resize (nat k) INVALID_IDX ids))"
proof -
  let ?blocks = "select_blocks k_prime cands"
  let ?d = "concat (chunk_row es n ts (map (code_at es bytes) [0..<length ts]))"
  obtain h where h: "topk_new k = Inr (h :: ('w, idx_t) topk_holder)"
    using k by (simp add: topk_new_def throw_if_not_positive_def)
  have ok: "\<forall>(x, pl, cid) \<in> set ?blocks. get_docs (cls ! pl) cid = Inr (docs_at cls (pl, cid)) \<and>
      (\<forall>d \<in> set (docs_at cls (pl, cid)). valid_doc v d)"
    using selected_blocks_ok [OF v(2) cands] by blast
  obtain holder visited where st: "foldE (\<lambda>st (_, pl, cid). score_block dec of_i None (Some v) cls pl cid ?d es sel st) (h, []) ?blocks = Inr (holder, visited)"
    "walk_inv (nat k) s (selected_by sel) (set (block_docs cls (map snd ?blocks))) (holder, visited)"
    using score_blocks_inv [OF v(1) sc ok walk_inv_new [OF h], of sel] by (auto simp: v(3))
  obtain scores ids where items: "topk_items_descending holder = (scores, ids)"
    by (cases "topk_items_descending holder")
  have "distinct (block_docs cls (map snd ?blocks))" by (simp add: block_docs_def)
  from walk_best_scaled [OF st(2) this items] show ?thesis
    using scatter_codes_ok [OF q] by (simp add: block_budget_query_def cands h st(1) items)
qed

text \<open>The score of a row through the pointers of the matrix.\<close>

lemma row_score_similarity:
  assumes "sv_wire v" and "valid_doc v d" and "sv_element_size v \<noteq> 8"
  shows "row_score dec of_i v dense d = compute_similarity dec of_i (nat d) (buf_elems (sv_indptr v)) (buf_elems (sv_indices v))
    (buf_elems (sv_values v)) dense (sv_element_size v)"
proof -
  let ?ip = "buf_elems (sv_indptr v)" and ?ix = "buf_elems (sv_indices v)" and ?vs = "buf_elems (sv_values v)"
  let ?es = "sv_element_size v"
  have d: "nat d < num_vectors v" using assms(2) by (simp add: valid_doc_def)
  then have "num_vectors v > 0" by simp
  note w = sv_wire_rows [OF assms(1) this]
  have i: "nat d + 1 < length ?ip" using w(2) d by simp
  define s where "s = nat (?ip ! nat d)"
  define e where "e = nat (?ip ! (nat d + 1))"
  note b = csr_row_bounds [OF w(1) i, folded s_def e_def]
  have r: "doc_row v d = (take (e - s) (drop s ?ix), take ((e - s) * ?es) (drop (s * ?es) ?vs))"
    unfolding doc_row_def sv_rows_def b(4) by (simp add: slice_def diff_mult_distrib)
  have len: "length (take (e - s) (drop s ?ix)) = e - s" using b(3) by simp
  have es: "?es \<in> {1, 2, 4}" using w(8) assms(3) by simp
  then show ?thesis
    unfolding row_score_def r score_slice_def prod.case len compute_similarity_wf [OF w(1) i es] Let_def s_def [symmetric] e_def [symmetric]
    by (auto simp: U32_def U16_def decode_array_take [of _ 4, simplified] decode_array_take [of _ 2, simplified] decode_array_take [of _ 1, simplified])
qed

end
