(* ===== verification/Disk_Index.thy ===== *)
theory Disk_Index
  imports Disk_Search
begin

text \<open>
  \<^verbatim>\<open>disk_seismic_index_base.cpp\<close>, \<^verbatim>\<open>disk_seismic_index.cpp\<close>, \<^verbatim>\<open>disk_seismic_scalar_quantized_index.cpp\<close>:
  the disk-resident Seismic indexes. One record serves both: \<open>dk_sq\<close> is the quantizer of the quantized
  index, \<open>None\<close> for the float one, and the virtual hooks branch on it. A built index searches the vectors
  in memory; a mapped one the forward index of the file, and for an exact match the locator of each
  document. The main theorems: a mapped index answers every search as the index that wrote the file.
\<close>

section \<open>The index\<close>

text \<open>A locator: the list, block and slot of a document's copy, or a row of the remainder.\<close>

type_synonym doc_locator = "nat \<times> nat \<times> nat"

definition kRemainder :: nat where "kRemainder = UINT32_MAX"

definition locator_bytes :: "doc_locator \<Rightarrow> byte list" where
  "locator_bytes = (\<lambda>(pl, block, slot). le_bytes 4 pl @ le_bytes 4 block @ le_bytes 4 slot)"

definition locator_of_bytes :: "byte list \<Rightarrow> doc_locator" where
  "locator_of_bytes bs = (le_nat (take 4 bs), le_nat (take 4 (drop 4 bs)), le_nat (take 4 (drop 8 bs)))"

record 'w disk_index =
  dk_dimension :: int
  dk_vectors :: "sparse_vectors option"
  dk_spill :: spill
  dk_lists :: "clusters list"
  dk_fwd :: inline_forward
  dk_params :: "'w cluster_params"
  dk_num_vectors :: size_t
  dk_locators :: "doc_locator list option"
  dk_remainder :: sparse_vectors
  dk_sq :: "'w quantizer option"

definition dk_new :: "int \<Rightarrow> 'w cluster_params \<Rightarrow> 'w quantizer option \<Rightarrow> 'w disk_index" where
  "dk_new d params sq = \<lparr>dk_dimension = d, dk_vectors = None, dk_spill = sp_new, dk_lists = [], dk_fwd = if_default,
     dk_params = params, dk_num_vectors = 0, dk_locators = None, dk_remainder = sv_default, dk_sq = sq\<rparr>"

definition dk_new_quantized ::
  "('w \<Rightarrow> bool) \<Rightarrow> quantizer_type \<Rightarrow> 'w \<Rightarrow> 'w \<Rightarrow> 'w cluster_params \<Rightarrow> int \<Rightarrow> exn + 'w :: ord disk_index" where
  "dk_new_quantized fin t lo hi params d = bindE (sq_new fin t lo hi) (\<lambda>sq. Inr (dk_new d params (Some sq)))"

subsection \<open>The hooks\<close>

definition code_element_size :: "'w quantizer option \<Rightarrow> size_t" where
  "code_element_size sq = (case sq of None \<Rightarrow> U32 | Some sq \<Rightarrow> bytes_per_value sq)"

text \<open>The bytes of one value at the stored width.\<close>

definition encode_value ::
  "('w \<Rightarrow> byte list) \<Rightarrow> (int \<Rightarrow> 'w) \<Rightarrow> ('w \<Rightarrow> int) \<Rightarrow> 'w quantizer option \<Rightarrow> 'w :: {zero, minus, times, inverse, ord} \<Rightarrow> byte list" where
  "encode_value enc of_i lround sq = (case sq of None \<Rightarrow> enc | Some sq \<Rightarrow> sq_code_bytes of_i lround sq)"

definition dk_query_quantizer ::
  "('w \<Rightarrow> bool) \<Rightarrow> 'w quantizer option \<Rightarrow> 'w :: ord search_params option \<Rightarrow> exn + 'w quantizer option" where
  "dk_query_quantizer fin sq params = (case sq of
       None \<Rightarrow> Inr None
     | Some sq \<Rightarrow> (case params of
           Some (Disk_Seismic_SQ_Parameters lo hi _ _ _) \<Rightarrow> bindE (sq_new fin (sq_type sq) lo hi) (\<lambda>q. Inr (Some q))
         | _ \<Rightarrow> Inr (Some sq)))"

definition decode_scores ::
  "(int \<Rightarrow> 'w) \<Rightarrow> 'w quantizer option \<Rightarrow> 'w quantizer option \<Rightarrow> 'w :: {minus, times, inverse} list \<Rightarrow> 'w list" where
  "decode_scores of_i sq query_sq scores = (case (sq, query_sq) of
       (Some sq, Some query_sq) \<Rightarrow> map (\<lambda>s. decode_dot_product of_i sq s query_sq) scores
     | _ \<Rightarrow> scores)"

definition throw_if_forward_width_mismatch :: "inline_forward \<Rightarrow> 'w quantizer \<Rightarrow> exn + unit" where
  "throw_if_forward_width_mismatch fwd sq =
     throw_if (num_blocks fwd > 0 \<and> if_element_size fwd \<noteq> bytes_per_value sq)
       (Runtime_error ''index file's forward element size disagrees with its quantizer type'')"

definition throw_if_summary_width_mismatch :: "clusters list \<Rightarrow> 'w quantizer \<Rightarrow> exn + unit" where
  "throw_if_summary_width_mismatch cls sq =
     throw_if (\<exists>cl \<in> set cls. cl_n_clusters cl > 0 \<and> cl_element_size cl \<noteq> bytes_per_value sq)
       (Runtime_error ''index file's summary element size disagrees with its quantizer type'')"

definition validate_mapped_payload :: "'w disk_index \<Rightarrow> exn + unit" where
  "validate_mapped_payload st = (case dk_sq st of None \<Rightarrow> Inr ()
     | Some sq \<Rightarrow> bindE (throw_if_forward_width_mismatch (dk_fwd st) sq)
         (\<lambda>_. throw_if_summary_width_mismatch (dk_lists st) sq))"

subsection \<open>Adding and building\<close>

text \<open>An index without vectors starts counting at zero: a mapped index has a count and no vectors.\<close>

definition dk_add ::
  "('w \<Rightarrow> byte list) \<Rightarrow> (int \<Rightarrow> 'w) \<Rightarrow> ('w \<Rightarrow> int) \<Rightarrow> 'w disk_index \<Rightarrow> idx_t \<Rightarrow> offset_t list option \<Rightarrow> term_t list option \<Rightarrow>
     'w list option \<Rightarrow> exn + 'w :: {zero, minus, times, inverse, ord} disk_index" where
  "dk_add enc of_i lround st n indptr indices values =
     bindE (throw_if_not_positive n) (\<lambda>_.
     bindE (throw_if_null indptr ''unexpected nullptr'') (\<lambda>indptr.
     bindE (throw_if_null indices ''unexpected nullptr'') (\<lambda>indices.
     bindE (throw_if_null values ''unexpected nullptr'') (\<lambda>values.
     bindE (take_batch (encode_value enc of_i lround (dk_sq st)) n indptr indices values) (\<lambda>(ip, ix, codes).
     bindE (case dk_vectors st of
              None \<Rightarrow> bindE (sv_new (code_element_size (dk_sq st)) (size_of_int (dk_dimension st)))
                (\<lambda>v. Inr (v, st\<lparr>dk_num_vectors := 0\<rparr>))
            | Some v \<Rightarrow> Inr (v, st)) (\<lambda>(v, st).
     bindE (add_vectors v ip ix codes) (\<lambda>v.
     Inr (st\<lparr>dk_vectors := Some v, dk_num_vectors := u64 (dk_num_vectors st + nat n)\<rparr>))))))))"

definition dk_build ::
  "(byte list \<Rightarrow> 'w :: {zero, plus, minus, times, inverse, ord}) \<Rightarrow> ('w \<Rightarrow> byte list) \<Rightarrow> (nat \<Rightarrow> 'w) \<Rightarrow>
     (nat \<Rightarrow> nat \<Rightarrow> nat \<Rightarrow> nat) \<Rightarrow> nat \<Rightarrow> platform \<Rightarrow> nat \<Rightarrow> 'w disk_index \<times> files \<Rightarrow>
     (exn + unit) \<times> 'w disk_index \<times> files" where
  "dk_build dec enc conv draw entropy pf token = (\<lambda>(st, fs).
     case build_clustered_lists dec enc conv draw entropy pf token (dk_vectors st) (size_of_int (dk_dimension st))
            (dk_params st) (dk_spill st, fs) of
       (Inl e, sp, fs) \<Rightarrow> (Inl e, st\<lparr>dk_spill := sp\<rparr>, fs)
     | (Inr cls, sp, fs) \<Rightarrow> (Inr (), st\<lparr>dk_lists := cls, dk_spill := sp\<rparr>, fs))"


section \<open>Searching\<close>

text \<open>A batch at the stored width: its codes alone, or as a matrix of queries.\<close>

definition encode_batch ::
  "('w \<Rightarrow> byte list) \<Rightarrow> idx_t \<Rightarrow> offset_t list \<Rightarrow> 'w list \<Rightarrow> exn + byte list" where
  "encode_batch e n indptr values =
     (if n < 0 then Inl (Undefined_behaviour ''read past the end'')
      else bindE (read_at indptr (nat n)) (\<lambda>nnz.
           bindE (take_elems (size_of_int nnz) values) (\<lambda>vs. Inr (encode_array e vs))))"

definition query_codes ::
  "('w \<Rightarrow> byte list) \<Rightarrow> size_t \<Rightarrow> int \<Rightarrow> idx_t \<Rightarrow> offset_t list \<Rightarrow> term_t list \<Rightarrow> 'w list \<Rightarrow> exn + sparse_vectors" where
  "query_codes e element_size d n indptr indices values =
     bindE (encode_batch e n indptr values) (\<lambda>codes.
     bindE (take_elems (nat n + 1) indptr) (\<lambda>ip.
     bindE (take_elems (size_of_int (last ip)) indices) (\<lambda>ix.
     bindE (sv_new element_size (size_of_int d)) (\<lambda>v. add_vectors v ip ix codes))))"

text \<open>The scores before the first padding label, decoded.\<close>

definition decode_prefix ::
  "(int \<Rightarrow> 'w) \<Rightarrow> 'w quantizer option \<Rightarrow> 'w quantizer option \<Rightarrow> 'w :: {minus, times, inverse} list \<times> idx_t list \<Rightarrow> 'w list \<times> idx_t list" where
  "decode_prefix of_i sq query_sq = (\<lambda>(scores, labels).
     let filled = length (takeWhile (\<lambda>l. l \<noteq> INVALID_IDX) labels)
     in (decode_scores of_i sq query_sq (take filled scores) @ drop filled scores, labels))"

definition exact_match_vectors ::
  "('w \<Rightarrow> byte list) \<Rightarrow> (byte list \<Rightarrow> 'w) \<Rightarrow> (int \<Rightarrow> 'w) \<Rightarrow> ('w \<Rightarrow> int) \<Rightarrow> ('w \<Rightarrow> bool) \<Rightarrow> 'w disk_index \<Rightarrow> sparse_vectors \<Rightarrow>
     idx_t list \<Rightarrow> idx_t \<Rightarrow> offset_t list \<Rightarrow> term_t list \<Rightarrow> 'w list \<Rightarrow> int \<Rightarrow> 'w search_params option \<Rightarrow>
     exn + ('w :: {zero, one, uminus, plus, minus, times, inverse, ord} list \<times> idx_t list) list" where
  "exact_match_vectors enc dec of_i lround fin st vectors ids n indptr indices values k params =
     (let element_size = code_element_size (dk_sq st)
      in bindE (dk_query_quantizer fin (dk_sq st) params) (\<lambda>query_sq.
         bindE (query_codes (encode_value enc of_i lround query_sq) element_size (dk_dimension st) n indptr indices values) (\<lambda>queries.
         bindE (exact_search dec of_i vectors ids queries element_size k) (\<lambda>rs.
         Inr (map (decode_prefix of_i (dk_sq st) query_sq) rs)))))"

text \<open>A document through its locator. The slice of a remainder row is cut at the index's own width.\<close>

definition get_doc :: "inline_forward \<Rightarrow> sparse_vectors \<Rightarrow> doc_locator list \<Rightarrow> idx_t \<Rightarrow> size_t \<Rightarrow> exn + term_t list \<times> byte list" where
  "get_doc fwd remainder locators doc_id element_size =
     bindE (read_at locators (nat doc_id)) (\<lambda>(pl, block, slot).
     if pl = kRemainder
     then if block \<ge> num_vectors remainder
          then Inl (Runtime_error ''DiskSeismic exact match: remainder locator out of range'')
          else doc_slice (remainder\<lparr>sv_element_size := element_size\<rparr>) (int block)
     else bindE (block_at fwd pl block) (\<lambda>bv. case bv_doc_ids bv of
            None \<Rightarrow> Inl (Runtime_error ''DiskSeismic exact match: doc locator does not resolve to its doc'')
          | Some doc_ids \<Rightarrow>
              if slot \<ge> bv_n_docs bv
              then Inl (Runtime_error ''DiskSeismic exact match: doc locator does not resolve to its doc'')
              else bindE (read_at doc_ids slot) (\<lambda>d.
                if int d \<noteq> doc_id mod 4294967296
                then Inl (Runtime_error ''DiskSeismic exact match: doc locator does not resolve to its doc'')
                else bindE (bv_doc_comps bv slot) (\<lambda>comps.
                     bindE (bv_doc_vals element_size bv slot) (\<lambda>vals. Inr (comps, vals))))))"

text \<open>One query against the selected documents, each found by its locator.\<close>

definition directory_query ::
  "(byte list \<Rightarrow> 'w) \<Rightarrow> (int \<Rightarrow> 'w) \<Rightarrow> inline_forward \<Rightarrow> sparse_vectors \<Rightarrow> doc_locator list \<Rightarrow> idx_t list \<Rightarrow> term_t list \<Rightarrow>
     byte list \<Rightarrow> size_t \<Rightarrow> int \<Rightarrow> byte list \<Rightarrow>
     exn + ('w :: {zero, plus, times, ord} list \<times> idx_t list) \<times> byte list" where
  "directory_query dec of_i fwd remainder locators ids q_indices q_codes element_size k dense =
     bindE (scatter_codes element_size q_indices q_codes dense) (\<lambda>dense.
     bindE (topk_new k) (\<lambda>holder.
     bindE (foldE (\<lambda>holder doc_id.
              if doc_id < 0 \<or> nat doc_id \<ge> length locators then Inr holder
              else bindE (get_doc fwd remainder locators doc_id element_size) (\<lambda>(comps, vals).
                   bindE (compute_similarity dec of_i 0 [0, int (length comps)] comps vals dense element_size) (\<lambda>score.
                   Inr (topk_add holder score doc_id))))
            holder (ordered_ids ids)) (\<lambda>holder.
     bindE (clear_codes element_size q_indices dense) (\<lambda>dense.
     Inr (topk_items_descending holder, dense)))))"

text \<open>Decoding comes before the padding. Both batched searches share this frame.\<close>

definition decode_and_pad ::
  "(int \<Rightarrow> 'w) \<Rightarrow> 'w quantizer option \<Rightarrow> 'w quantizer option \<Rightarrow> int \<Rightarrow> 'w :: {one, uminus, minus, times, inverse} list \<times> idx_t list \<Rightarrow>
     'w list \<times> idx_t list" where
  "decode_and_pad of_i sq query_sq k = (\<lambda>(scores, ids).
     (resize (nat k) (- 1) (decode_scores of_i sq query_sq scores), resize (nat k) INVALID_IDX ids))"

definition exact_match_directory ::
  "('w \<Rightarrow> byte list) \<Rightarrow> (byte list \<Rightarrow> 'w) \<Rightarrow> (int \<Rightarrow> 'w) \<Rightarrow> ('w \<Rightarrow> int) \<Rightarrow> ('w \<Rightarrow> bool) \<Rightarrow> (nat \<Rightarrow> nat) \<Rightarrow> 'w disk_index \<Rightarrow> doc_locator list \<Rightarrow>
     idx_t list \<Rightarrow> idx_t \<Rightarrow> offset_t list \<Rightarrow> term_t list \<Rightarrow> 'w list \<Rightarrow> int \<Rightarrow> 'w search_params option \<Rightarrow>
     exn + ('w :: {zero, one, uminus, plus, minus, times, inverse, ord} list \<times> idx_t list) list" where
  "exact_match_directory enc dec of_i lround fin thread st locators ids n indptr indices values k params =
     (let element_size = code_element_size (dk_sq st)
      in bindE (dk_query_quantizer fin (dk_sq st) params) (\<lambda>query_sq.
         bindE (encode_batch (encode_value enc of_i lround query_sq) n indptr values) (\<lambda>codes.
         bindE (run_batch (\<lambda>dense i.
             bindE (code_row element_size indptr indices codes i) (\<lambda>(q_indices, q_codes).
             bindE (directory_query dec of_i (dk_fwd st) (dk_remainder st) locators ids q_indices q_codes element_size k dense) (\<lambda>(r, dense).
             Inr (decode_and_pad of_i (dk_sq st) query_sq k r, dense))))
           thread (\<lambda>_. replicate (nat (dk_dimension st) * element_size) 0) (nat n)) (\<lambda>(rs, _). Inr rs))))"

definition block_budget_search ::
  "('w \<Rightarrow> byte list) \<Rightarrow> (byte list \<Rightarrow> 'w) \<Rightarrow> (nat \<Rightarrow> 'w) \<Rightarrow> (int \<Rightarrow> 'w) \<Rightarrow> ('w \<Rightarrow> int) \<Rightarrow> ('w \<Rightarrow> bool) \<Rightarrow> (nat \<Rightarrow> nat) \<Rightarrow> 'w disk_index \<Rightarrow>
     idx_t \<Rightarrow> offset_t list \<Rightarrow> term_t list \<Rightarrow> 'w list \<Rightarrow> int \<Rightarrow> 'w search_params option \<Rightarrow>
     exn + ('w :: {zero, one, uminus, plus, minus, times, inverse, ord} list \<times> idx_t list) list" where
  "block_budget_search enc dec conv of_i lround fin thread st n indptr indices values k params =
     (let (q_cut, k_prime) = resolve_cut_and_budget params; element_size = code_element_size (dk_sq st);
          fwd = (if num_blocks (dk_fwd st) > 0 then Some (dk_fwd st) else None);
          vectors = (case fwd of None \<Rightarrow> dk_vectors st | Some _ \<Rightarrow> None)
      in if k_prime \<le> 0 then Inl (Invalid_argument ''DiskSeismic index: k_prime (block budget) must be positive'')
         else bindE (dk_query_quantizer fin (dk_sq st) params) (\<lambda>query_sq.
         bindE (encode_batch (encode_value enc of_i lround query_sq) n indptr values) (\<lambda>codes.
         bindE (run_batch (\<lambda>dense i.
             bindE (code_row element_size indptr indices codes i) (\<lambda>(q_indices, q_codes).
             bindE (top_cut_tokens dec q_indices q_codes q_cut element_size) (\<lambda>cuts.
             bindE (block_budget_query dec conv of_i element_size q_indices q_codes cuts k k_prime (dk_lists st) fwd vectors
                      (params_selector params) dense) (\<lambda>(r, dense).
             Inr (decode_and_pad of_i (dk_sq st) query_sq k r, dense)))))
           thread (\<lambda>_. replicate (nat (dk_dimension st) * element_size) 0) (nat n)) (\<lambda>(rs, _). Inr rs))))"

text \<open>An exact match needs vectors or locators; without either the blocks are searched.\<close>

definition dk_search ::
  "('w \<Rightarrow> byte list) \<Rightarrow> (byte list \<Rightarrow> 'w) \<Rightarrow> (nat \<Rightarrow> 'w) \<Rightarrow> (int \<Rightarrow> 'w) \<Rightarrow> ('w \<Rightarrow> int) \<Rightarrow> ('w \<Rightarrow> bool) \<Rightarrow> (nat \<Rightarrow> nat) \<Rightarrow> 'w disk_index \<Rightarrow>
     idx_t \<Rightarrow> offset_t list \<Rightarrow> term_t list \<Rightarrow> 'w list \<Rightarrow> int \<Rightarrow> 'w search_params option \<Rightarrow>
     exn + ('w :: {zero, one, uminus, plus, minus, times, inverse, ord} list \<times> idx_t list) list" where
  "dk_search enc dec conv of_i lround fin thread st n indptr indices values k params =
     (if dk_num_vectors st = 0 \<or> n = 0 \<or> (num_blocks (dk_fwd st) = 0 \<and> dk_vectors st = None)
      then initialize_padded_results n k
      else let sel = params_selector params; ids = (case Option.bind sel enumerable of None \<Rightarrow> [] | Some ids \<Rightarrow> ids)
      in case (should_run_exact_match sel k, dk_vectors st, dk_locators st) of
           (True, Some vectors, _) \<Rightarrow> exact_match_vectors enc dec of_i lround fin st vectors ids n indptr indices values k params
         | (True, None, Some locators) \<Rightarrow>
             exact_match_directory enc dec of_i lround fin thread st locators ids n indptr indices values k params
         | _ \<Rightarrow> block_budget_search enc dec conv of_i lround fin thread st n indptr indices values k params)"

section \<open>The file\<close>

text \<open>The first place a document is found wins.\<close>

definition cover_block ::
  "nat \<Rightarrow> nat \<Rightarrow> nat \<Rightarrow> idx_t list \<Rightarrow> doc_locator list \<times> bool list \<Rightarrow> doc_locator list \<times> bool list" where
  "cover_block num_docs pl block docs st = foldl (\<lambda>(locators, covered) (slot, doc_id).
       if doc_id < 0 \<or> nat doc_id \<ge> num_docs \<or> covered ! nat doc_id then (locators, covered)
       else (locators[nat doc_id := (u32 pl, u32 block, u32 slot)], covered[nat doc_id := True]))
     st (zip [0..<length docs] docs)"

definition cover_blocks :: "clusters list \<Rightarrow> nat \<Rightarrow> exn + doc_locator list \<times> bool list" where
  "cover_blocks cls num_docs =
     foldE (\<lambda>st (pl, block). bindE (get_docs (cls ! pl) block) (\<lambda>docs. Inr (cover_block num_docs pl block docs st)))
       (replicate num_docs (kRemainder, 0, 0), replicate num_docs False) (block_addresses cls)"

definition keep_remainder ::
  "sparse_vectors \<Rightarrow> bool list \<Rightarrow> sparse_vectors \<Rightarrow> doc_locator list \<Rightarrow> exn + sparse_vectors \<times> doc_locator list \<times> nat" where
  "keep_remainder vectors covered remainder locators =
     foldE (\<lambda>(remainder, locators, row) doc_id.
       if covered ! doc_id then Inr (remainder, locators, row)
       else bindE (doc_slice vectors (int doc_id)) (\<lambda>(comps, vals).
            bindE (add_vectors remainder [0, int (length comps)] comps vals) (\<lambda>remainder.
            Inr (remainder, locators[doc_id := (kRemainder, row, 0)], u32 (row + 1)))))
     (remainder, locators, 0) [0..<num_vectors vectors]"

definition write_doc_directory :: "clusters list \<Rightarrow> int \<Rightarrow> sparse_vectors \<Rightarrow> writer \<Rightarrow> exn + writer" where
  "write_doc_directory cls d vectors w =
     (let num_docs = num_vectors vectors
      in bindE (cover_blocks cls num_docs) (\<lambda>(locators, covered).
         bindE (sv_new (sv_element_size vectors) (size_of_int d)) (\<lambda>remainder.
         bindE (keep_remainder vectors covered remainder locators) (\<lambda>(remainder, locators, _).
         bindE (pad_to kMinBlockAlign w) (\<lambda>w.
         bindE (write_size_t num_docs w) (\<lambda>w.
         bindE (write_padded locator_bytes 4 locators w) (sv_serialize remainder)))))))"

definition dk_write_index :: "('w \<Rightarrow> byte list) \<Rightarrow> 'w disk_index \<Rightarrow> writer \<Rightarrow> exn + writer" where
  "dk_write_index enc st w =
     bindE (case dk_sq st of None \<Rightarrow> Inr w | Some sq \<Rightarrow> write_quantization_header enc sq w) (\<lambda>w.
     bindE (write_size_t (dk_num_vectors st) w) (\<lambda>w.
     bindE (slw_serialize True (dk_lists st) w) (\<lambda>w.
     bindE (sv_new (code_element_size (dk_sq st)) (size_of_int (dk_dimension st))) (\<lambda>empty_vectors.
     let v = (case dk_vectors st of None \<Rightarrow> empty_vectors | Some v \<Rightarrow> v)
     in bindE (if_new (dk_lists st) v kDefaultPageSize PageAligned) (\<lambda>forward.
        bindE (if_serialize forward (Some w)) (write_doc_directory (dk_lists st) (dk_dimension st) v))))))"

definition dk_read_index :: "'w disk_index \<Rightarrow> reader \<Rightarrow> exn + 'w disk_index \<times> reader" where
  "dk_read_index st r = Inl (Runtime_error
     ''DiskSeismic index is mmap-only; load with read_index(file, IndexIoFlag::kUseMmap)'')"

text \<open>The directory and the remainder at the end of the payload.\<close>

definition map_doc_directory :: "size_t \<Rightarrow> cursor \<Rightarrow> exn + (doc_locator list option \<times> sparse_vectors) \<times> cursor" where
  "map_doc_directory nv c =
     bindE (cursor_skip_padding kMinBlockAlign c) (\<lambda>c.
     bindE (map_size_t c) (\<lambda>(num_locators, c).
     if num_locators \<noteq> nv
     then Inl (Runtime_error ''DiskSeismic index: doc-locator count disagrees with vector count'')
     else bindE (map_padded locator_of_bytes 12 4 4 num_locators c) (\<lambda>((locators, _), c).
          bindE (sv_mmap_deserialize (Some c)) (\<lambda>(remainder, c). Inr ((locators, remainder), c)))))"

definition load_mapped_payload :: "'w disk_index \<Rightarrow> cursor \<Rightarrow> exn + 'w disk_index \<times> cursor" where
  "load_mapped_payload st c =
     bindE (map_size_t c) (\<lambda>(nv, c).
     bindE (slw_mmap_deserialize c) (\<lambda>(cls, c).
     bindE (if_mmap_deserialize if_default (Some c)) (\<lambda>(forward, c).
     bindE (map_doc_directory nv c) (\<lambda>((locators, remainder), c).
     let st = st\<lparr>dk_num_vectors := nv, dk_lists := cls, dk_fwd := forward, dk_locators := locators, dk_remainder := remainder\<rparr>
     in bindE (validate_mapped_payload st) (\<lambda>_. Inr (st, c))))))"

definition dk_map_index ::
  "(byte list \<Rightarrow> 'w) \<Rightarrow> ('w \<Rightarrow> bool) \<Rightarrow> 'w :: ord disk_index \<Rightarrow> cursor \<Rightarrow> exn + 'w disk_index \<times> cursor" where
  "dk_map_index dec fin st c = (case dk_sq st of
       None \<Rightarrow> load_mapped_payload st c
     | Some _ \<Rightarrow> bindE (map_quantization_header dec fin c) (\<lambda>(sq, c). load_mapped_payload (st\<lparr>dk_sq := Some sq\<rparr>) c))"

text \<open>The index mapped is of the class asked for: \<open>quantized\<close> or not.\<close>

definition dk_mmap_index ::
  "(byte list \<Rightarrow> 'w) \<Rightarrow> ('w \<Rightarrow> bool) \<Rightarrow> 'w cluster_params \<Rightarrow> bool \<Rightarrow> int \<Rightarrow> (nat \<times> byte list) option \<Rightarrow> size_t \<Rightarrow>
     exn + 'w :: {zero, one, ord} disk_index" where
  "dk_mmap_index dec fin params quantized d index_file pos =
     bindE (throw_if_null index_file ''index_file must not be null'') (\<lambda>(base, data).
     bindE (cursor_skip pos \<lparr>mc_base = base, mc_data = data, mc_pos = 0\<rparr>) (\<lambda>c.
     bindE (dk_map_index dec fin (dk_new d params (if quantized then Some sq_default else None)) c) (\<lambda>(st, _). Inr st)))"


section \<open>The directory\<close>

lemma foldl_keeps:
  "P s \<Longrightarrow> (\<And>s x. x \<in> set xs \<Longrightarrow> P s \<Longrightarrow> P (f s x)) \<Longrightarrow> P (foldl f s xs)"
  by (induction xs arbitrary: s) simp_all

lemma foldE_keeps:
  "P s \<Longrightarrow> (\<And>s x. x \<in> set xs \<Longrightarrow> P s \<Longrightarrow> \<exists>s'. f s x = Inr s' \<and> P s') \<Longrightarrow> \<exists>s'. foldE f s xs = Inr s' \<and> P s'"
proof (induction xs arbitrary: s)
  case (Cons x xs)
  obtain s' where "f s x = Inr s'" "P s'" using Cons.prems by force
  then show ?case using Cons.IH [of s'] Cons.prems(2) by simp
qed simp

text \<open>A locator that names a place of a document in the blocks.\<close>

definition placed :: "clusters list \<Rightarrow> nat \<Rightarrow> doc_locator \<Rightarrow> bool" where
  "placed cls d = (\<lambda>(pl, block, slot). (pl, block) \<in> set (block_addresses cls) \<and>
     slot < length (docs_at cls (pl, block)) \<and> docs_at cls (pl, block) ! slot = int d)"

definition covering :: "clusters list \<Rightarrow> nat \<Rightarrow> doc_locator list \<times> bool list \<Rightarrow> bool" where
  "covering cls n = (\<lambda>(locators, covered). length locators = n \<and> length covered = n \<and>
     (\<forall>d < n. covered ! d \<longrightarrow> placed cls d (locators ! d)))"

lemma cover_block_covering:
  assumes "covering cls n st" and "(pl, block) \<in> set (block_addresses cls)" and "pl < 2 ^ 32" and "block < 2 ^ 32"
    and "length (docs_at cls (pl, block)) < 2 ^ 32"
  shows "covering cls n (cover_block n pl block (docs_at cls (pl, block)) st)"
  unfolding cover_block_def
proof (rule foldl_keeps [where P = "covering cls n"], rule assms(1))
  fix st :: "doc_locator list \<times> bool list" and x
  assume x: "x \<in> set (zip [0..<length (docs_at cls (pl, block))] (docs_at cls (pl, block)))" and st: "covering cls n st"
  obtain slot d where sd: "x = (slot, d)" by (cases x)
  have s: "slot < length (docs_at cls (pl, block))" "docs_at cls (pl, block) ! slot = d"
    using x by (auto simp: sd set_zip)
  have u: "u32 pl = pl" "u32 block = block" "u32 slot = slot" using assms(3-5) s(1) by (simp_all add: u32_def)
  obtain locators covered where lc: "st = (locators, covered)" by (cases st)
  show "covering cls n ((\<lambda>(locators, covered) (slot, doc_id).
      if doc_id < 0 \<or> nat doc_id \<ge> n \<or> covered ! nat doc_id then (locators, covered)
      else (locators[nat doc_id := (u32 pl, u32 block, u32 slot)], covered[nat doc_id := True])) st x)"
  proof (cases "d < 0 \<or> nat d \<ge> n \<or> covered ! nat d")
    case False
    then have "placed cls (nat d) (pl, block, slot)" using assms(2) s by (simp add: placed_def)
    then show ?thesis using st False by (auto simp: lc sd covering_def u nth_list_update)
  qed (use st in \<open>simp add: lc sd\<close>)
qed

definition addresses_small :: "clusters list \<Rightarrow> bool" where
  "addresses_small cls \<longleftrightarrow> length cls \<le> 65536 \<and> (\<forall>cl \<in> set cls. cl_n_clusters cl < 2 ^ 32)"

lemma cover_blocks_ok:
  assumes "blocks_ok v cls" and "addresses_small cls"
  shows "\<exists>locators covered. cover_blocks cls n = Inr (locators, covered) \<and> covering cls n (locators, covered)"
proof -
  have "\<exists>st. cover_blocks cls n = Inr st \<and> covering cls n st"
    unfolding cover_blocks_def
  proof (rule foldE_keeps)
    fix st a assume a: "a \<in> set (block_addresses cls)" and st: "covering cls n st"
    obtain pl block where pb: "a = (pl, block)" by (cases a)
    obtain ds where ds: "get_docs (cls ! pl) block = Inr ds" "docs_fit v ds"
      using assms(1) a by (auto simp: blocks_ok_def pb)
    then have eq: "ds = docs_at cls (pl, block)" by (simp add: docs_at_def)
    have p: "pl < length cls" "block < cl_n_clusters (cls ! pl)" using a by (auto simp: address_mem pb)
    have "cl_n_clusters (cls ! pl) < 2 ^ 32" using assms(2) nth_mem [OF p(1)] unfolding addresses_small_def by blast
    then have "block < 2 ^ 32" using p(2) by linarith
    moreover have "pl < 2 ^ 32" using assms(2) p(1) by (simp add: addresses_small_def)
    moreover have "length ds < 2 ^ 32" using ds(2) by (simp add: docs_fit_def UINT32_MAX_def)
    ultimately show "\<exists>s'. (case a of (pl, block) \<Rightarrow> bindE (get_docs (cls ! pl) block) (\<lambda>docs. Inr (cover_block n pl block docs st))) = Inr s' \<and> covering cls n s'"
      using cover_block_covering [OF st a [unfolded pb]] ds(1) by (simp add: pb eq)
  qed (simp add: covering_def)
  then show ?thesis by auto
qed

text \<open>The rows of the documents in no block, in order.\<close>

definition left_rows :: "sparse_vectors \<Rightarrow> bool list \<Rightarrow> nat \<Rightarrow> (term_t list \<times> byte list) list" where
  "left_rows v covered m = map (\<lambda>d. doc_row v (int d)) (filter (\<lambda>d. \<not> covered ! d) [0..<m])"

definition remaining ::
  "sparse_vectors \<Rightarrow> bool list \<Rightarrow> doc_locator list \<Rightarrow> nat \<Rightarrow> sparse_vectors \<Rightarrow> sparse_vectors \<times> doc_locator list \<times> nat \<Rightarrow> bool" where
  "remaining v covered locators0 m r0 = (\<lambda>(remainder, locators, row). sv_content_wf remainder \<and> sv_growable remainder \<and>
     sv_element_size remainder = sv_element_size v \<and> sv_dimension remainder = sv_dimension r0 \<and>
     sv_rows remainder = left_rows v covered m \<and> row = length (left_rows v covered m) \<and> length locators = length locators0 \<and>
     (\<forall>d < length locators0. if d < m \<and> \<not> covered ! d
        then \<exists>r < row. locators ! d = (kRemainder, r, 0) \<and> left_rows v covered m ! r = doc_row v (int d)
        else locators ! d = locators0 ! d))"

lemma length_left_rows: "length (left_rows v covered m) \<le> m"
  by (simp add: left_rows_def) (metis length_filter_le length_upt minus_nat.diff_0)

lemma left_rows_Suc: "left_rows v covered (Suc m) = left_rows v covered m @ (if covered ! m then [] else [doc_row v (int m)])"
  by (simp add: left_rows_def)


lemma length_doc_row_values:
  assumes "valid_doc v d"
  shows "length (snd (doc_row v d)) \<le> length (buf_elems (sv_values v))"
proof -
  have "nat d < length (sv_rows v)" using assms by (simp add: valid_doc_def num_vectors_rows)
  moreover have "length (slice a b xs) \<le> length xs" for a b and xs :: "byte list" by (simp add: slice_def min_le_iff_disj)
  ultimately show ?thesis by (simp add: doc_row_def sv_rows_def csr_rows_def case_prod_unfold)
qed

lemma keep_remainder_step:
  assumes v: "sv_wire v" and m: "m < num_vectors v" "num_vectors v < 2 ^ 32" "length locators0 = num_vectors v"
    and st: "remaining v covered locators0 m r0 st"
  shows "\<exists>st'. (case st of (remainder, locators, row) \<Rightarrow>
       if covered ! m then Inr (remainder, locators, row)
       else bindE (doc_slice v (int m)) (\<lambda>(comps, vals).
            bindE (add_vectors remainder [0, int (length comps)] comps vals) (\<lambda>remainder.
            Inr (remainder, locators[m := (kRemainder, row, 0)], u32 (row + 1))))) = Inr st' \<and>
    remaining v covered locators0 (Suc m) r0 st'"
proof -
  obtain remainder locators row where s: "st = (remainder, locators, row)" by (cases st)
  show ?thesis
  proof (cases "covered ! m")
    case True
    then show ?thesis using st by (auto simp: s remaining_def left_rows_Suc less_Suc_eq)
  next
    case False
    have d: "valid_doc v (int m)" using m(1) by (simp add: valid_doc_def)
    obtain comps vals where r: "doc_row v (int m) = (comps, vals)" by (cases "doc_row v (int m)")
    have slice: "doc_slice v (int m) = Inr (comps, vals)" "length vals = length comps * sv_element_size v"
      using doc_slice_row(2,3) [OF v d] by (simp_all add: r)
    have inv: "sv_content_wf remainder" "sv_growable remainder" "sv_element_size remainder = sv_element_size v"
      "sv_dimension remainder = sv_dimension r0" "sv_rows remainder = left_rows v covered m"
      "row = length (left_rows v covered m)" "length locators = length locators0"
      and locs: "\<And>d. d < length locators0 \<Longrightarrow> if d < m \<and> \<not> covered ! d
        then \<exists>r < row. locators ! d = (kRemainder, r, 0) \<and> left_rows v covered m ! r = doc_row v (int d)
        else locators ! d = locators0 ! d"
      using st unfolding s remaining_def prod.case by blast+
    have "length vals \<le> SIZE_MAX"
      using length_doc_row_values [OF d] v by (simp add: r sv_wire_def vector_max_size_def SIZE_MAX_def)
    then obtain remainder' where add: "add_vectors remainder [0, int (length comps)] comps vals = Inr remainder'"
      "sv_content_wf remainder'" "sv_growable remainder'" "sv_element_size remainder' = sv_element_size v"
      "sv_dimension remainder' = sv_dimension r0" "sv_rows remainder' = left_rows v covered m @ [(comps, vals)]"
      using add_vectors_content [OF inv(1,2) csr_wf_single, of vals comps] slice(2) inv(3-5)
        csr_rows_single [of vals comps "sv_element_size v"] by auto
    have "row \<le> m" using inv(6) length_left_rows [of v covered m] by simp
    then have row: "u32 (row + 1) = Suc row" using m(1,2) by (simp add: u32_def)
    let ?st' = "(remainder', locators[m := (kRemainder, row, 0)], Suc row)"
    have rows: "left_rows v covered (Suc m) = left_rows v covered m @ [(comps, vals)]"
      using False r by (simp add: left_rows_Suc)
    have locs': "if d < Suc m \<and> \<not> covered ! d
        then \<exists>r < Suc row. locators[m := (kRemainder, row, 0)] ! d = (kRemainder, r, 0) \<and>
          (left_rows v covered m @ [(comps, vals)]) ! r = doc_row v (int d)
        else locators[m := (kRemainder, row, 0)] ! d = locators0 ! d" if d: "d < length locators0" for d
    proof (cases "d = m")
      case True
      then show ?thesis using False d inv(6,7) r by (auto simp: nth_append)
    next
      case neq: False
      show ?thesis
      proof (cases "d < m \<and> \<not> covered ! d")
        case True
        then obtain q where "q < row" "locators ! d = (kRemainder, q, 0)" "left_rows v covered m ! q = doc_row v (int d)"
          using locs [OF d] by auto
        then show ?thesis using True neq inv(6) by (auto simp: nth_append intro!: exI [of _ q])
      next
        case False
        then show ?thesis using locs [OF d] neq by auto
      qed
    qed
    have "remaining v covered locators0 (Suc m) r0 ?st'"
      unfolding remaining_def prod.case rows
      by (intro conjI, (simp add: add inv; fail)+, use locs' in blast)
    then show ?thesis using add(1) slice(1) row False by (intro exI [of _ ?st']) (simp add: s)
  qed
qed

lemma keep_remainder_ok:
  assumes v: "sv_wire v" and n: "num_vectors v < 2 ^ 32" "length locators0 = num_vectors v"
    and r0: "r0 = sv_default\<lparr>sv_element_size := sv_element_size v, sv_dimension := d\<rparr>"
  shows "\<exists>st. keep_remainder v covered r0 locators0 = Inr st \<and> remaining v covered locators0 (num_vectors v) r0 st"
proof -
  let ?f = "\<lambda>(remainder, locators, row) doc_id.
       if covered ! doc_id then Inr (remainder, locators, row)
       else bindE (doc_slice v (int doc_id)) (\<lambda>(comps, vals).
            bindE (add_vectors remainder [0, int (length comps)] comps vals) (\<lambda>remainder.
            Inr (remainder, locators[doc_id := (kRemainder, row, 0)], u32 (row + 1))))"
  have "\<exists>st. foldE ?f (r0, locators0, 0) [0..<m] = Inr st \<and> remaining v covered locators0 m r0 st" if "m \<le> num_vectors v" for m
    using that
  proof (induction m)
    case 0
    then show ?case
      by (simp add: remaining_def left_rows_def r0 sv_content_wf_def sv_growable_def sv_default_def sv_rows_def csr_rows_def)
  next
    case (Suc m)
    obtain st where st: "foldE ?f (r0, locators0, 0) [0..<m] = Inr st" "remaining v covered locators0 m r0 st"
      using Suc.IH Suc.prems by auto
    obtain st' where "?f st m = Inr st'" "remaining v covered locators0 (Suc m) r0 st'"
      using keep_remainder_step [OF v _ n st(2)] Suc.prems by (auto simp: case_prod_unfold)
    then show ?case using st(1) by (simp add: foldE_append)
  qed
  from this [OF order.refl] show ?thesis by (simp add: keep_remainder_def)
qed


lemma left_rows_nth:
  assumes "r < length (left_rows v covered (num_vectors v))"
  shows "\<exists>d < num_vectors v. left_rows v covered (num_vectors v) ! r = sv_rows v ! d"
proof -
  have "left_rows v covered (num_vectors v) ! r \<in> set (left_rows v covered (num_vectors v))" using assms by (rule nth_mem)
  then show ?thesis by (auto simp: left_rows_def doc_row_def)
qed

lemma left_rows_length:
  assumes "sv_content_wf v"
  shows "length (concat (map fst (left_rows v covered (num_vectors v)))) \<le> length (buf_elems (sv_indices v))"
proof -
  let ?len = "\<lambda>d. length (fst (sv_rows v ! d))" and ?n = "num_vectors v"
  have rows: "sv_rows v = map (\<lambda>d. sv_rows v ! d) [0..<?n]" by (simp add: num_vectors_rows map_nth)
  have "length (concat (map fst (left_rows v covered ?n))) = sum_list (map ?len (filter (\<lambda>d. \<not> covered ! d) [0..<?n]))"
    by (simp add: left_rows_def doc_row_def length_concat comp_def)
  also have "\<dots> \<le> sum_list (map ?len [0..<?n])" by (rule sum_list_filter_le_nat)
  also have "\<dots> = length (concat (map fst (sv_rows v)))"
    by (subst (2) rows) (simp add: length_concat comp_def)
  finally show ?thesis by (simp add: sv_terms_concat [OF assms])
qed

lemma remainder_wire:
  assumes v: "sv_wire v" and rem: "remaining v covered locators0 (num_vectors v) r0 (remainder, locators, row)"
    and d: "0 < sv_dimension r0" "sv_dimension r0 \<le> SIZE_MAX" and ne: "0 < num_vectors remainder"
  shows "sv_wire remainder"
proof -
  let ?left = "left_rows v covered (num_vectors v)"
  have r: "sv_content_wf remainder" "sv_element_size remainder = sv_element_size v" "sv_dimension remainder = sv_dimension r0"
    "sv_rows remainder = ?left"
    using rem unfolding remaining_def prod.case by blast+
  have wf: "sv_content_wf v" using v by (simp add: sv_wire_def)
  have n: "num_vectors remainder \<le> num_vectors v"
    using length_left_rows [of v covered "num_vectors v"] by (simp add: num_vectors_rows r(4))
  then have nv: "0 < num_vectors v" using ne by simp
  note w = sv_wire_rows [OF v nv]
  have ip: "length (buf_elems (sv_indptr remainder)) = Suc (num_vectors remainder)"
    using ne by (auto simp: num_vectors_def buf_empty_def buf_size_def split: if_splits)
  have ix: "buf_elems (sv_indices remainder) = concat (map fst ?left)"
    using sv_terms_concat [OF r(1)] by (simp add: r(4))
  have le: "length (buf_elems (sv_indices remainder)) \<le> length (buf_elems (sv_indices v))"
    unfolding ix by (rule left_rows_length [OF wf])
  have "length (buf_elems (sv_values remainder)) = length (buf_elems (sv_indices remainder)) * sv_element_size v"
    using sv_rows_wf(1) [OF r(1) ne] by (simp add: csr_wf_def r(2))
  also have "\<dots> \<le> length (buf_elems (sv_values v))" unfolding w(4) by (rule mult_le_mono1 [OF le])
  finally have vs: "length (buf_elems (sv_values remainder)) \<le> length (buf_elems (sv_values v))" .
  have terms: "t < 65536" if t: "t \<in> set (concat (map fst ?left))" for t
  proof -
    obtain row where row: "row \<in> set ?left" "t \<in> set (fst row)"
      using t unfolding set_concat set_map by blast
    then obtain q where "q < num_vectors v" "row = doc_row v (int q)" by (auto simp: left_rows_def)
    then show ?thesis using doc_slice_row(4) [OF v, of "int q"] row(2) by (auto simp: valid_doc_def)
  qed
  have "length (buf_elems (sv_indptr remainder)) \<le> vector_max_size 8"
    using ip n w(2,5) by (simp add: vector_max_size_def)
  then show ?thesis
    using v r(1-3) d le vs terms by (auto simp: sv_wire_def ix)
qed

definition locator_fits :: "doc_locator \<Rightarrow> bool" where
  "locator_fits = (\<lambda>(pl, block, slot). pl < 2 ^ 32 \<and> block < 2 ^ 32 \<and> slot < 2 ^ 32)"

interpretation locator_codec: elem_codec locator_bytes locator_of_bytes 12 locator_fits
  by unfold_locales (auto simp: locator_bytes_def locator_of_bytes_def locator_fits_def)

text \<open>Each document has a locator, to its place in a block or to its row of the remainder.\<close>

definition directory_ok :: "sparse_vectors \<Rightarrow> clusters list \<Rightarrow> sparse_vectors \<Rightarrow> doc_locator list \<Rightarrow> bool" where
  "directory_ok v cls remainder locators \<longleftrightarrow> length locators = num_vectors v \<and>
     (0 < num_vectors remainder \<longrightarrow> sv_wire remainder \<and> sv_element_size remainder = sv_element_size v) \<and>
     (\<forall>d < num_vectors v. placed cls d (locators ! d) \<or>
        (\<exists>r < num_vectors remainder. locators ! d = (kRemainder, r, 0) \<and> sv_rows remainder ! r = doc_row v (int d)))"

lemma placed_fits:
  assumes "placed cls d loc" and "blocks_ok v cls" and "addresses_small cls"
  shows "locator_fits loc" "fst loc < 65536"
proof -
  obtain pl block slot where loc: "loc = (pl, block, slot)" by (cases loc)
  have a: "(pl, block) \<in> set (block_addresses cls)" "slot < length (docs_at cls (pl, block))"
    using assms(1) by (auto simp: placed_def loc)
  then have p: "pl < length cls" "block < cl_n_clusters (cls ! pl)" by (auto simp: address_mem)
  obtain ds where "get_docs (cls ! pl) block = Inr ds" "docs_fit v ds" using assms(2) a by (auto simp: blocks_ok_def)
  then have s: "slot < 2 ^ 32" using a(2) by (simp add: docs_at_def docs_fit_def UINT32_MAX_def)
  have "cl_n_clusters (cls ! pl) < 2 ^ 32" using assms(3) nth_mem [OF p(1)] unfolding addresses_small_def by blast
  then have b: "block < 2 ^ 32" using p(2) by linarith
  show pl: "fst loc < 65536" using p(1) assms(3) by (simp add: loc addresses_small_def)
  show "locator_fits loc" using pl b s by (simp add: locator_fits_def loc)
qed

lemma directory_built:
  assumes v: "sv_wire v" and cls: "blocks_ok v cls" "addresses_small cls" and n: "num_vectors v < 2 ^ 32"
    and d: "0 < size_of_int d"
  shows "\<exists>locators0 covered r0 remainder locators row. cover_blocks cls (num_vectors v) = Inr (locators0, covered) \<and>
    sv_new (sv_element_size v) (size_of_int d) = Inr r0 \<and> keep_remainder v covered r0 locators0 = Inr (remainder, locators, row) \<and>
    directory_ok v cls remainder locators \<and>
    (\<forall>l \<in> set locators. locator_fits l)"
proof -
  let ?n = "num_vectors v"
  obtain locators0 covered where c: "cover_blocks cls ?n = Inr (locators0, covered)" "covering cls ?n (locators0, covered)"
    using cover_blocks_ok [OF cls] by blast
  let ?r0 = "sv_default\<lparr>sv_element_size := sv_element_size v, sv_dimension := size_of_int d\<rparr>"
  have new: "sv_new (sv_element_size v) (size_of_int d) = Inr ?r0"
    using d by (simp add: sv_new_def throw_if_not_positive_def)
  have len: "length locators0 = ?n" using c(2) by (simp add: covering_def)
  obtain remainder locators row where k: "keep_remainder v covered ?r0 locators0 = Inr (remainder, locators, row)"
    "remaining v covered locators0 ?n ?r0 (remainder, locators, row)"
    using keep_remainder_ok [OF v n len refl, of covered "size_of_int d"] by auto
  have r: "sv_rows remainder = left_rows v covered ?n" "row = length (left_rows v covered ?n)" "length locators = ?n"
    "sv_element_size remainder = sv_element_size v"
    and locs: "\<And>d. d < ?n \<Longrightarrow> if d < ?n \<and> \<not> covered ! d
        then \<exists>r < row. locators ! d = (kRemainder, r, 0) \<and> left_rows v covered ?n ! r = doc_row v (int d)
        else locators ! d = locators0 ! d"
    using k(2) len unfolding remaining_def prod.case by auto
  have row: "row = num_vectors remainder" using r(1,2) by (simp add: num_vectors_rows)
  have each: "placed cls q (locators ! q) \<or>
      (\<exists>r < num_vectors remainder. locators ! q = (kRemainder, r, 0) \<and> sv_rows remainder ! r = doc_row v (int q))" if q: "q < ?n" for q
  proof (cases "covered ! q")
    case True
    then show ?thesis using locs [OF q] q c(2) by (simp add: covering_def)
  next
    case False
    then show ?thesis using locs [OF q] q r(1) row by auto
  qed
  have "size_of_int d \<le> SIZE_MAX" by (simp add: size_of_int_def SIZE_MAX_def nat_le_iff)
  then have "sv_wire remainder" if "0 < num_vectors remainder"
    using remainder_wire [OF v k(2) _ _ that] d by simp
  then have "directory_ok v cls remainder locators" using each r(3,4) by (simp add: directory_ok_def)
  moreover have "locator_fits l" if "l \<in> set locators" for l
  proof -
    obtain q where q: "q < ?n" "l = locators ! q" using \<open>l \<in> set locators\<close> r(3) by (metis in_set_conv_nth)
    have "num_vectors remainder \<le> ?n" using length_left_rows [of v covered ?n] r(2) row by simp
    then show ?thesis using each [OF q(1)] placed_fits(1) [OF _ cls] n q(2)
      by (auto simp: locator_fits_def kRemainder_def UINT32_MAX_def)
  qed
  ultimately show ?thesis using c(1) new k(1) by blast
qed


section \<open>The file is read back\<close>

lemma round_trips_cursor_padding:
  assumes "0 < a" and "a \<le> kMaxAlignment"
  shows "round_trips (mk_cursor base) (pad_to a) (\<lambda>c. bindE (cursor_skip_padding a c) (\<lambda>c. Inr ((), c))) (\<lambda>_. True)"
proof (rule round_tripsI)
  fix w rest :: "byte list"
  obtain n where n: "padding_for (length w) a = Inr n" "n < a" using padding_for_total [OF assms(1), of "length w"] by auto
  have "pad_to a w = Inr (w @ replicate n 0)"
    using n assms by (auto simp: pad_to_def writer_pos_def buffered_write_def)
  then show "\<exists>out y. pad_to a w = Inr (w @ out) \<and> True \<and>
      bindE (cursor_skip_padding a (mk_cursor base (w @ out @ rest) (length w))) (\<lambda>c. Inr ((), c)) =
        Inr (y, mk_cursor base (w @ out @ rest) (length w + length out))"
    using n by (intro exI [of _ "replicate n 0"] exI [of _ "()"])
      (simp add: cursor_skip_padding_def cursor_skip_def cursor_ensure_def cursor_remaining_def mk_cursor_def)
qed

text \<open>A matrix with or without rows.\<close>

definition same_rows :: "sparse_vectors \<Rightarrow> sparse_vectors \<Rightarrow> bool" where
  "same_rows v v' \<longleftrightarrow> num_vectors v' = num_vectors v \<and> (0 < num_vectors v \<longrightarrow> same_content v v')"

lemma sv_map_rows_round_trip:
  assumes "0 < num_vectors v \<longrightarrow> sv_wire v" and "8 dvd base"
  shows "round_trips (mk_cursor base) (sv_serialize v) (\<lambda>c. sv_mmap_deserialize (Some c)) (same_rows v)"
proof (cases "0 < num_vectors v")
  case True
  then show ?thesis
    using round_trips_mono [OF sv_map_round_trip [of v base], of "same_rows v"] assms
    by (auto simp: same_rows_def same_content_num)
next
  case False
  have n: "num_vectors sv_default = 0" by (simp add: num_vectors_def sv_default_def buf_empty_def buf_size_def)
  have "(0 :: nat) < 256 ^ 8" by simp
  from round_trips_map_nat [OF this, of base]
  have "round_trips (mk_cursor base) (write_size_t 0) (\<lambda>c. bindE (map_size_t c) (\<lambda>(n, c). Inr (sv_default, c))) (same_rows v)"
    by (rule round_trips_map) (use False n in \<open>simp add: same_rows_def\<close>)
  moreover have "round_trips (mk_cursor base) (write_size_t 0) f P"
    if "round_trips (mk_cursor base) (write_size_t 0) (\<lambda>c. bindE (map_size_t c) (\<lambda>(n, c). Inr (sv_default, c))) P"
      and f: "f = (\<lambda>c. sv_mmap_deserialize (Some c))" for f P
  proof (rule round_tripsI)
    fix w rest :: "byte list"
    obtain out where out: "write_size_t 0 w = Inr (w @ out)"
      "map_size_t (mk_cursor base (w @ out @ rest) (length w)) = Inr (0, mk_cursor base (w @ out @ rest) (length w + length out))"
      using round_trips_map_nat [of 0 8 base, unfolded round_trips_def, rule_format, of w rest] by auto
    have "P sv_default" using that(1) [unfolded round_trips_def, rule_format, of w rest] out by auto
    then show "\<exists>out y. write_size_t 0 w = Inr (w @ out) \<and> P y \<and>
        f (mk_cursor base (w @ out @ rest) (length w)) = Inr (y, mk_cursor base (w @ out @ rest) (length w + length out))"
      using out by (intro exI [of _ out] exI [of _ sv_default]) (simp add: f sv_mmap_deserialize_def throw_if_null_def)
  qed
  moreover have "sv_serialize v = write_size_t 0"
    using False by (intro ext) (simp add: sv_serialize_def bindE_return)
  ultimately show ?thesis by simp
qed

lemma directory_ok_same:
  assumes "directory_ok v cls remainder locators" and "same_rows remainder remainder'"
  shows "directory_ok v cls remainder' locators"
proof (cases "0 < num_vectors remainder")
  case True
  then have c: "same_content remainder remainder'" and n: "num_vectors remainder' = num_vectors remainder"
    using assms(2) by (simp_all add: same_rows_def)
  then have "sv_rows remainder' = sv_rows remainder" "sv_wire remainder \<Longrightarrow> sv_wire remainder'"
    using True by (simp_all add: sv_rows_def same_content_def sv_wire_def sv_content_wf_def)
  then show ?thesis using assms(1) n c True by (simp add: directory_ok_def same_content_def)
next
  case False
  then show ?thesis using assms by (auto simp: directory_ok_def same_rows_def)
qed

lemma map_doc_directory_round_trip:
  assumes v: "sv_wire v" "blocks_ok v cls" "addresses_small cls" "num_vectors v < 2 ^ 32" "0 < size_of_int d" "0 < num_vectors v"
    and base: "8 dvd base"
  shows "round_trips (mk_cursor base) (write_doc_directory cls d v) (map_doc_directory (num_vectors v))
    (\<lambda>(p, remainder). \<exists>locators. p = Some locators \<and> directory_ok v cls remainder locators)"
proof -
  obtain locators0 covered r0 remainder locators row where b: "cover_blocks cls (num_vectors v) = Inr (locators0, covered)"
    "sv_new (sv_element_size v) (size_of_int d) = Inr r0" "keep_remainder v covered r0 locators0 = Inr (remainder, locators, row)"
    "directory_ok v cls remainder locators" "\<forall>l \<in> set locators. locator_fits l"
    using directory_built [OF v(1-5)] by blast
  let ?P = "\<lambda>(p, remainder). \<exists>locators. p = Some locators \<and> directory_ok v cls remainder locators"
  have n: "length locators = num_vectors v" "0 < num_vectors remainder \<longrightarrow> sv_wire remainder"
    using b(4) by (simp_all add: directory_ok_def)
  then have ne: "locators \<noteq> []" using v(6) by auto
  have base4: "4 dvd base" using base by (rule dvd_trans [rotated]) simp
  have rem: "round_trips (mk_cursor base) (sv_serialize remainder)
      (\<lambda>c. bindE (sv_mmap_deserialize (Some c)) (\<lambda>(remainder, c). Inr ((Some locators, remainder), c))) ?P"
    by (rule round_trips_map [OF sv_map_rows_round_trip [OF n(2) base]]) (use directory_ok_same [OF b(4)] in simp)
  have tail: "round_trips (mk_cursor base) (sv_serialize remainder)
      ((\<lambda>(p, a) c. bindE (sv_mmap_deserialize (Some c)) (\<lambda>(remainder, c). Inr ((p, remainder), c))) y) ?P"
    if "case y of (p, addr) \<Rightarrow> p = (if locators = [] then None else Some locators) \<and> addr mod 4 = (0 :: nat)" for y
    using that ne rem by (auto split: prod.splits)
  have locs: "round_trips (mk_cursor base) (write_padded locator_bytes 4 locators) (map_padded locator_of_bytes 12 4 4 (length locators))
      (\<lambda>(p, addr). p = (if locators = [] then None else Some locators) \<and> addr mod 4 = 0)"
    by (rule locator_codec.round_trips_mapped) (use b(5) base4 in \<open>simp_all add: kMaxAlignment_def\<close>)
  note two = round_trips_bind [OF locs tail]
  let ?two = "\<lambda>w. bindE (write_padded locator_bytes 4 locators w) (sv_serialize remainder)"
  let ?rest = "\<lambda>n c. if n \<noteq> num_vectors v
      then Inl (Runtime_error ''DiskSeismic index: doc-locator count disagrees with vector count'')
      else bindE (map_padded locator_of_bytes 12 4 4 n c) (\<lambda>((p, _), c).
          bindE (sv_mmap_deserialize (Some c)) (\<lambda>(remainder, c). Inr ((p, remainder), c)))"
  have "round_trips (mk_cursor base) ?two (?rest n) ?P" if "num_vectors v = n" for n
    using two that by (simp add: n(1) case_prod_unfold)
  moreover have "num_vectors v < 256 ^ 8" using v(4) by simp
  ultimately have three: "round_trips (mk_cursor base) (\<lambda>w. bindE (write_size_t (num_vectors v) w) ?two)
      (\<lambda>c. bindE (map_size_t c) (\<lambda>(n, c). ?rest n c)) ?P"
    using round_trips_bind [OF round_trips_map_nat, where ?d2.0 = ?rest] by blast
  have "kMinBlockAlign \<le> kMaxAlignment" "0 < kMinBlockAlign" by (simp_all add: kMaxAlignment_def kMinBlockAlign_def)
  from round_trips_bind [OF round_trips_cursor_padding [OF this(2,1)], where ?d2.0 = "\<lambda>_ c. bindE (map_size_t c) (\<lambda>(n, c). ?rest n c)", OF three]
  show ?thesis
    by (simp add: write_doc_directory_def [abs_def] map_doc_directory_def [abs_def] b(1-3) bindE_assoc Let_def case_prod_unfold)
qed


text \<open>A built index that can be written.\<close>

definition dk_wire :: "('w \<Rightarrow> bool) \<Rightarrow> 'w :: ord disk_index \<Rightarrow> sparse_vectors \<Rightarrow> bool" where
  "dk_wire fin st v \<longleftrightarrow> dk_vectors st = Some v \<and> 0 < num_vectors v \<and> num_vectors v < 2 ^ 31 \<and> dk_num_vectors st = num_vectors v \<and>
     sv_element_size v = code_element_size (dk_sq st) \<and> source_ok v (dk_lists st) kDefaultPageSize \<and>
     0 < dk_dimension st \<and> is_i32 (dk_dimension st) \<and> num_blocks (dk_fwd st) = 0 \<and> (\<forall>cl \<in> set (dk_lists st). cl_wire cl) \<and>
     (\<forall>sq. dk_sq st = Some sq \<longrightarrow> sq_new fin (sq_type sq) (sq_vmin sq) (sq_vmax sq) = Inr sq \<and>
        (\<forall>cl \<in> set (dk_lists st). cl_n_clusters cl > 0 \<longrightarrow> cl_element_size cl = bytes_per_value sq))"

text \<open>What the mapped index holds of it.\<close>

definition maps_disk :: "'w disk_index \<Rightarrow> sparse_vectors \<Rightarrow> 'w disk_index \<Rightarrow> bool" where
  "maps_disk st v st' \<longleftrightarrow> dk_dimension st' = dk_dimension st \<and> dk_sq st' = dk_sq st \<and> dk_num_vectors st' = dk_num_vectors st \<and>
     dk_vectors st' = None \<and> same_source v (dk_lists st) (dk_lists st') (dk_fwd st') \<and>
     (\<exists>locators. dk_locators st' = Some locators \<and> directory_ok v (dk_lists st) (dk_remainder st') locators)"

lemma default_forward:
  "\<exists>fwd. if_new cls v kDefaultPageSize PageAligned = Inr fwd \<and> write_alignment fwd = kDefaultPageSize"
proof -
  have "and (4096 :: nat) 4095 = 0" by simp
  then show ?thesis by (simp add: if_new_def power_of_two_def kDefaultPageSize_def kHeaderSize_def write_alignment_def)
qed

lemma load_payload_round_trip:
  assumes w: "dk_wire fin st v" and base: "8 dvd base"
    and st0: "dk_dimension st0 = dk_dimension st" "dk_sq st0 = dk_sq st" "dk_vectors st0 = None"
  shows "round_trips (mk_cursor base) (\<lambda>w.
     bindE (write_size_t (dk_num_vectors st) w) (\<lambda>w.
     bindE (slw_serialize True (dk_lists st) w) (\<lambda>w.
     bindE (sv_new (code_element_size (dk_sq st)) (size_of_int (dk_dimension st))) (\<lambda>empty_vectors.
     let v = (case dk_vectors st of None \<Rightarrow> empty_vectors | Some v \<Rightarrow> v)
     in bindE (if_new (dk_lists st) v kDefaultPageSize PageAligned) (\<lambda>forward.
        bindE (if_serialize forward (Some w)) (write_doc_directory (dk_lists st) (dk_dimension st) v))))))
    (load_mapped_payload st0) (maps_disk st v)"
proof -
  have v: "dk_vectors st = Some v" "0 < num_vectors v" "num_vectors v < 2 ^ 32" "dk_num_vectors st = num_vectors v"
    "sv_element_size v = code_element_size (dk_sq st)" "0 < size_of_int (dk_dimension st)"
    and src: "source_ok v (dk_lists st) kDefaultPageSize"
    and cls: "\<forall>cl \<in> set (dk_lists st). cl_wire cl"
    and sq: "\<And>sq. dk_sq st = Some sq \<Longrightarrow> \<forall>cl \<in> set (dk_lists st). cl_n_clusters cl > 0 \<longrightarrow> cl_element_size cl = bytes_per_value sq"
    using w by (auto simp: dk_wire_def is_i32_def is_i64_def)
  have s: "sv_wire v" "blocks_ok v (dk_lists st)" "addresses_small (dk_lists st)" "length (dk_lists st) \<le> SIZE_MAX"
    using src by (auto simp: source_ok_def addresses_small_def SIZE_MAX_def)
  obtain fwd where fwd: "if_new (dk_lists st) v kDefaultPageSize PageAligned = Inr fwd" "write_alignment fwd = kDefaultPageSize"
    using default_forward by blast
  have new: "sv_new (code_element_size (dk_sq st)) (size_of_int (dk_dimension st)) =
      Inr (sv_default\<lparr>sv_element_size := code_element_size (dk_sq st), sv_dimension := size_of_int (dk_dimension st)\<rparr>)"
    using v(6) by (simp add: sv_new_def throw_if_not_positive_def)
  let ?d4 = "\<lambda>nv cls forward c. bindE (map_doc_directory nv c) (\<lambda>((locators, remainder), c).
     let st = st0\<lparr>dk_num_vectors := nv, dk_lists := cls, dk_fwd := forward, dk_locators := locators, dk_remainder := remainder\<rparr>
     in bindE (validate_mapped_payload st) (\<lambda>_. Inr (st, c)))"
  have valid: "validate_mapped_payload (st0\<lparr>dk_num_vectors := nv, dk_lists := cls', dk_fwd := forward, dk_locators := p, dk_remainder := r\<rparr>) = Inr ()"
    if l: "list_all2 same_clusters (map without_docs (dk_lists st)) cls'" and f: "shows_source v (dk_lists st) forward" for nv cls' forward p r
  proof (cases "dk_sq st")
    case (Some q)
    have "cl_n_clusters cl > 0 \<longrightarrow> cl_element_size cl = bytes_per_value q" if "cl \<in> set cls'" for cl
    proof -
      obtain i where i: "i < length cls'" "cl = cls' ! i" using \<open>cl \<in> set cls'\<close> by (metis in_set_conv_nth)
      then have "same_clusters (without_docs (dk_lists st ! i)) cl" "i < length (dk_lists st)"
        using list_all2_nthD2 [OF l i(1)] list_all2_lengthD [OF l] by simp_all
      then show ?thesis using sq [OF Some] by (auto simp: same_clusters_def without_docs_def)
    qed
    moreover have "if_element_size forward = bytes_per_value q"
      using f v(5) Some by (simp add: shows_source_def code_element_size_def)
    ultimately show ?thesis
      by (auto simp: validate_mapped_payload_def st0(2) Some throw_if_forward_width_mismatch_def throw_if_summary_width_mismatch_def err_simps)
  qed (simp add: validate_mapped_payload_def st0(2))
  have four: "round_trips (mk_cursor base) (write_doc_directory (dk_lists st) (dk_dimension st) v) (?d4 (num_vectors v) cls' forward) (maps_disk st v)"
    if l: "list_all2 same_clusters (map without_docs (dk_lists st)) cls'" and f: "shows_source v (dk_lists st) forward" for cls' forward
  proof -
    let ?f = "\<lambda>(p, r). st0\<lparr>dk_num_vectors := num_vectors v, dk_lists := cls', dk_fwd := forward, dk_locators := p, dk_remainder := r\<rparr>"
    have "round_trips (mk_cursor base) (write_doc_directory (dk_lists st) (dk_dimension st) v)
        (\<lambda>c. bindE (map_doc_directory (num_vectors v) c) (\<lambda>(x, c). Inr (?f x, c))) (maps_disk st v)"
      by (rule round_trips_map [OF map_doc_directory_round_trip [OF s(1-3) v(3,6,2) base]])
        (use l f st0 v(4) in \<open>auto simp: maps_disk_def same_source_def\<close>)
    then show ?thesis using valid [OF l f] by (simp add: case_prod_unfold Let_def)
  qed
  have three: "round_trips (mk_cursor base) (\<lambda>w. bindE (if_serialize fwd (Some w)) (write_doc_directory (dk_lists st) (dk_dimension st) v))
      (\<lambda>c. bindE (if_mmap_deserialize if_default (Some c)) (\<lambda>(forward, c). ?d4 (num_vectors v) cls' forward c)) (maps_disk st v)"
    if l: "list_all2 same_clusters (map without_docs (dk_lists st)) cls'" for cls'
    by (rule round_trips_bind [OF forward_round_trips [OF fwd(1) _ base] four [OF l]]) (use src fwd(2) in simp_all)
  have two: "round_trips (mk_cursor base) (\<lambda>w. bindE (slw_serialize True (dk_lists st) w)
        (\<lambda>w. bindE (if_serialize fwd (Some w)) (write_doc_directory (dk_lists st) (dk_dimension st) v)))
      (\<lambda>c. bindE (slw_mmap_deserialize c) (\<lambda>(cls', c). bindE (if_mmap_deserialize if_default (Some c))
         (\<lambda>(forward, c). ?d4 (num_vectors v) cls' forward c))) (maps_disk st v)"
    by (rule round_trips_bind [OF slw_map_round_trip [OF cls s(4) base, of True] three]) simp
  have n: "num_vectors v < 256 ^ 8" using v(3) by simp
  have "round_trips (mk_cursor base) (\<lambda>w. bindE (write_size_t (num_vectors v) w) (\<lambda>w. bindE (slw_serialize True (dk_lists st) w)
        (\<lambda>w. bindE (if_serialize fwd (Some w)) (write_doc_directory (dk_lists st) (dk_dimension st) v))))
      (\<lambda>c. bindE (map_size_t c) (\<lambda>(nv, c). bindE (slw_mmap_deserialize c) (\<lambda>(cls', c). bindE (if_mmap_deserialize if_default (Some c))
         (\<lambda>(forward, c). ?d4 nv cls' forward c)))) (maps_disk st v)"
    by (rule round_trips_bind [OF round_trips_map_nat [OF n]]) (use two in simp)
  then show ?thesis
    unfolding load_mapped_payload_def [abs_def] by (simp add: v(1,4) new fwd(1))
qed


lemma dk_map_round_trip:
  assumes w: "dk_wire fin st v" and enc: "\<And>x. length (enc x) = 4" "\<And>x. dec (enc x) = x" and base: "8 dvd base"
  shows "round_trips (mk_cursor base) (dk_write_index enc st)
    (dk_map_index dec fin (dk_new (dk_dimension st) params (map_option (\<lambda>_. sq_default) (dk_sq st)))) (maps_disk st v)"
proof (cases "dk_sq st")
  case None
  have "dk_write_index enc st = (\<lambda>w.
     bindE (write_size_t (dk_num_vectors st) w) (\<lambda>w.
     bindE (slw_serialize True (dk_lists st) w) (\<lambda>w.
     bindE (sv_new (code_element_size (dk_sq st)) (size_of_int (dk_dimension st))) (\<lambda>empty_vectors.
     let v = (case dk_vectors st of None \<Rightarrow> empty_vectors | Some v \<Rightarrow> v)
     in bindE (if_new (dk_lists st) v kDefaultPageSize PageAligned) (\<lambda>forward.
        bindE (if_serialize forward (Some w)) (write_doc_directory (dk_lists st) (dk_dimension st) v))))))"
    by (intro ext) (simp add: dk_write_index_def None)
  moreover have "dk_map_index dec fin (dk_new (dk_dimension st) params None) = load_mapped_payload (dk_new (dk_dimension st) params None)"
    by (intro ext) (simp add: dk_map_index_def dk_new_def)
  ultimately show ?thesis
    using load_payload_round_trip [OF w base, of "dk_new (dk_dimension st) params None"] by (simp add: None dk_new_def)
next
  case (Some sq)
  have sq: "sq_new fin (sq_type sq) (sq_vmin sq) (sq_vmax sq) = Inr sq" using w Some by (simp add: dk_wire_def)
  have "round_trips (mk_cursor base) (write_quantization_header enc sq) (map_quantization_header dec fin) ((=) sq)"
    unfolding map_quantization_header_def [abs_def]
    by (rule quantization_header_round_trip [OF round_trips_map_nat round_trips_map_value round_trips_map_value sq])
      (simp_all add: enc type_byte_less [simplified])
  note header = this
  let ?st0 = "\<lambda>sq. (dk_new (dk_dimension st) params (Some sq_default))\<lparr>dk_sq := Some sq\<rparr>"
  have "round_trips (mk_cursor base) (\<lambda>w.
     bindE (write_size_t (dk_num_vectors st) w) (\<lambda>w.
     bindE (slw_serialize True (dk_lists st) w) (\<lambda>w.
     bindE (sv_new (code_element_size (dk_sq st)) (size_of_int (dk_dimension st))) (\<lambda>empty_vectors.
     let v = (case dk_vectors st of None \<Rightarrow> empty_vectors | Some v \<Rightarrow> v)
     in bindE (if_new (dk_lists st) v kDefaultPageSize PageAligned) (\<lambda>forward.
        bindE (if_serialize forward (Some w)) (write_doc_directory (dk_lists st) (dk_dimension st) v))))))
     (load_mapped_payload (?st0 sq)) (maps_disk st v)"
    by (rule load_payload_round_trip [OF w base]) (simp_all add: dk_new_def Some)
  note payload = this
  have "dk_write_index enc st = (\<lambda>w. bindE (write_quantization_header enc sq w) (\<lambda>w.
     bindE (write_size_t (dk_num_vectors st) w) (\<lambda>w.
     bindE (slw_serialize True (dk_lists st) w) (\<lambda>w.
     bindE (sv_new (code_element_size (dk_sq st)) (size_of_int (dk_dimension st))) (\<lambda>empty_vectors.
     let v = (case dk_vectors st of None \<Rightarrow> empty_vectors | Some v \<Rightarrow> v)
     in bindE (if_new (dk_lists st) v kDefaultPageSize PageAligned) (\<lambda>forward.
        bindE (if_serialize forward (Some w)) (write_doc_directory (dk_lists st) (dk_dimension st) v)))))))"
    by (intro ext) (simp add: dk_write_index_def Some)
  moreover have "dk_map_index dec fin (dk_new (dk_dimension st) params (Some sq_default)) =
      (\<lambda>c. bindE (map_quantization_header dec fin c) (\<lambda>(sq, c). load_mapped_payload (?st0 sq) c))"
    by (intro ext) (simp add: dk_map_index_def dk_new_def)
  ultimately show ?thesis
    using round_trips_bind [OF header, where ?d2.0 = "\<lambda>sq. load_mapped_payload (?st0 sq)"] payload by (simp add: Some)
qed

section \<open>A mapped index answers as the one that wrote the file\<close>

lemma block_budget_search_mapped:
  assumes "dk_wire fin st v" and "maps_disk st v st'" and "0 < total_blocks (dk_lists st)"
  shows "block_budget_search enc dec conv of_i lround fin' thread st' n ip ix vs k p =
    block_budget_search enc dec conv of_i lround fin' thread st n ip ix vs k p"
proof -
  have v: "dk_vectors st = Some v" "num_blocks (dk_fwd st) = 0" "sv_element_size v = code_element_size (dk_sq st)"
    "sv_wire v" "blocks_ok v (dk_lists st)"
    using assms(1) by (auto simp: dk_wire_def source_ok_def)
  have m: "dk_dimension st' = dk_dimension st" "dk_sq st' = dk_sq st" "dk_vectors st' = None"
    "same_source v (dk_lists st) (dk_lists st') (dk_fwd st')"
    using assms(2) by (auto simp: maps_disk_def)
  then have b: "0 < num_blocks (dk_fwd st')" using assms(3) by (simp add: same_source_def shows_source_def)
  note same = block_budget_query_same [OF v(4,5) m(4), unfolded v(3)]
  show ?thesis
    using b by (cases "resolve_cut_and_budget p") (simp add: block_budget_search_def v(1,2) m(1-3) same Let_def cong: if_cong)
qed


subsection \<open>The holder, whatever the scores\<close>

text \<open>With floats the scores are not linearly ordered, so this says only how many items there are, and which.\<close>

definition holds_at_most :: "nat \<Rightarrow> ('i \<Rightarrow> bool) \<Rightarrow> ('s, 'i) topk_holder \<Rightarrow> bool" where
  "holds_at_most k P h \<longleftrightarrow> tk_k h = int k \<and> length (tk_pq h) \<le> k \<and> (\<forall>x \<in> set (tk_pq h). P (item_id x))"

lemma pq_pop_subset:
  assumes "q \<noteq> []"
  shows "set (pq_pop lt q) \<subseteq> set q" "length (pq_pop lt q) = length q - 1"
proof -
  have m: "mset (pq_pop lt q) = mset q - {#pq_top q#}" by (rule mset_pq_pop [OF assms])
  show "set (pq_pop lt q) \<subseteq> set q"
    using arg_cong [OF m, of set_mset] by (auto dest: in_diffD)
  have "pq_top q \<in># mset q" using assms by (simp add: pq_top_def)
  then show "length (pq_pop lt q) = length q - 1"
    using arg_cong [OF m, of size] by (simp add: size_Diff_singleton)
qed

lemma holds_at_most_add:
  assumes "holds_at_most k P h" and "P i" and "0 < k"
  shows "holds_at_most k P (topk_add h s i)"
proof -
  have h: "tk_k h = int k" "length (tk_pq h) \<le> k" "\<And>x. x \<in> set (tk_pq h) \<Longrightarrow> P (item_id x)"
    using assms(1) by (auto simp: holds_at_most_def)
  have push: "set (pq_push compare_item q x) = insert x (set q)" for q and x :: "('s :: ord, 'j) topk_item"
    by (metis mset_pq_push set_mset_add_mset_insert set_mset_mset)
  show ?thesis
  proof (cases "length (tk_pq h) < k")
    case True
    then show ?thesis using h assms(2) by (auto simp: holds_at_most_def topk_add_def Let_def push)
  next
    case False
    then have ne: "tk_pq h \<noteq> []" "0 < length (tk_pq h)" using assms(3) by auto
    show ?thesis
      using False ne(2) h assms(2) pq_pop_subset [OF ne(1), of compare_item]
      by (auto simp: holds_at_most_def topk_add_def Let_def push)
  qed
qed

lemma set_drain_pq: "n \<le> length q \<Longrightarrow> set (drain pq_top (pq_pop lt) n q) \<subseteq> set q"
proof (induction n arbitrary: q)
  case (Suc n)
  then have ne: "q \<noteq> []" by auto
  then have "pq_top q \<in> set q" by (simp add: pq_top_def)
  moreover have "set (drain pq_top (pq_pop lt) n (pq_pop lt q)) \<subseteq> set (pq_pop lt q)"
    by (rule Suc.IH) (use Suc.prems pq_pop_subset(2) [OF ne, of lt] in simp)
  ultimately show ?case using pq_pop_subset(1) [OF ne, of lt] by auto
qed simp

lemma holder_items:
  assumes "holds_at_most k P h" and "topk_items_descending h = (scores, ids)"
  shows "length scores = length ids" "length ids \<le> k" "\<forall>d \<in> set ids. P d"
proof -
  have "set (topk_drain h) \<subseteq> set (tk_pq h)" unfolding topk_drain_def by (rule set_drain_pq) simp
  then have "P (item_id x)" if "x \<in> set (topk_drain h)" for x using that assms(1) by (auto simp: holds_at_most_def)
  then show "length scores = length ids" "length ids \<le> k" "\<forall>d \<in> set ids. P d"
    using assms by (auto simp: topk_items_descending_def holds_at_most_def split: if_splits)
qed

text \<open>Decoding what precedes the padding is padding what was decoded.\<close>

lemma decode_prefix_pad:
  assumes "length scores = length ids" and "length ids \<le> nat k" and "\<forall>d \<in> set ids. d \<noteq> INVALID_IDX"
  shows "decode_prefix of_i sq query_sq (resize (nat k) (- 1) scores, resize (nat k) INVALID_IDX ids) =
    decode_and_pad of_i sq query_sq k (scores, ids)"
proof -
  have tw: "takeWhile (\<lambda>l. l \<noteq> INVALID_IDX) ids = ids" using assms(3) by (simp add: takeWhile_eq_all_conv)
  have "length (takeWhile (\<lambda>l. l \<noteq> INVALID_IDX) (ids @ replicate m INVALID_IDX)) = length ids" for m
    using assms(3) by (cases m) (simp_all add: takeWhile_append tw)
  moreover have "length (decode_scores of_i sq query_sq scores) = length scores"
    by (simp add: decode_scores_def split: option.split)
  ultimately show ?thesis using assms(1,2) by (simp add: decode_prefix_def decode_and_pad_def resize_def Let_def)
qed

subsection \<open>A document through its locator\<close>

lemma get_doc_row:
  assumes v: "sv_wire v" "blocks_ok v cls" "addresses_small cls" "num_vectors v < 2 ^ 31"
    and fwd: "shows_source v cls fwd" and dir: "directory_ok v cls remainder locators" and d: "valid_doc v d"
  shows "get_doc fwd remainder locators d (sv_element_size v) = Inr (doc_row v d)"
proof -
  have n: "nat d < num_vectors v" "int (nat d) = d" using d by (auto simp: valid_doc_def)
  have at: "read_at locators (nat d) = Inr (locators ! nat d)" using dir n by (simp add: directory_ok_def read_at_def)
  consider "placed cls (nat d) (locators ! nat d)"
    | r where "r < num_vectors remainder" "locators ! nat d = (kRemainder, r, 0)" "sv_rows remainder ! r = doc_row v d"
    using dir n by (auto simp: directory_ok_def)
  then show ?thesis
  proof cases
    case 1
    obtain pl block slot where loc: "locators ! nat d = (pl, block, slot)" by (cases "locators ! nat d")
    let ?docs = "docs_at cls (pl, block)"
    have p: "(pl, block) \<in> set (block_addresses cls)" "slot < length ?docs" "?docs ! slot = d"
      using 1 n(2) by (auto simp: placed_def loc)
    have "pl < 65536" using placed_fits(2) [OF 1 v(2,3)] by (simp add: loc)
    then have pl: "pl \<noteq> kRemainder" by (simp add: kRemainder_def UINT32_MAX_def)
    obtain ds where "get_docs (cls ! pl) block = Inr ds" "docs_fit v ds" using v(2) p(1) by (auto simp: blocks_ok_def)
    then have ok: "\<forall>d \<in> set ?docs. valid_doc v d" by (simp add: docs_at_def docs_fit_def)
    have bv: "block_at fwd pl block = Inr (view_of v ?docs)"
      using fwd p(1) by (auto simp: shows_source_def address_mem)
    have ids: "bv_doc_ids (view_of v ?docs) = Some (map nat ?docs)" "bv_n_docs (view_of v ?docs) = length ?docs"
      by (simp_all add: view_of_def)
    have "d mod 4294967296 = d" using d v(4) by (auto simp: valid_doc_def)
    then show ?thesis
      using view_rows [OF v(1) ok p(2)] p(2,3) n(2) bv pl ids
      by (simp add: get_doc_def at loc read_at_in)
  next
    case 2
    have r: "sv_wire remainder" "sv_element_size remainder = sv_element_size v" using dir 2(1) by (auto simp: directory_ok_def)
    have "remainder\<lparr>sv_element_size := sv_element_size v\<rparr> = remainder" using r(2) [symmetric] by simp
    moreover have "doc_slice remainder (int r) = Inr (doc_row remainder (int r))"
      by (rule doc_slice_row(2) [OF r(1)]) (use 2(1) in \<open>simp add: valid_doc_def\<close>)
    ultimately show ?thesis using 2 by (simp add: get_doc_def at doc_row_def)
  qed
qed

text \<open>The scan of the selected documents, through the vectors or through the locators.\<close>

definition scan_selected ::
  "(byte list \<Rightarrow> 'w) \<Rightarrow> (int \<Rightarrow> 'w) \<Rightarrow> sparse_vectors \<Rightarrow> idx_t list \<Rightarrow> byte list \<Rightarrow> int \<Rightarrow>
     exn + ('w :: {zero, plus, times, ord}, idx_t) topk_holder" where
  "scan_selected dec of_i v ids dense k = bindE (topk_new k) (\<lambda>holder.
     foldE (\<lambda>holder d. if valid_doc v d then bindE (row_score dec of_i v dense d) (\<lambda>s. Inr (topk_add holder s d)) else Inr holder)
       holder (ordered_ids ids))"

lemma set_ordered_ids [simp]: "set (ordered_ids ids) = set ids"
  by (simp add: ordered_ids_def)

lemma scan_selected_items:
  assumes "scan_selected dec of_i v ids dense k = Inr holder" and "topk_items_descending holder = (scores, ids')"
  shows "length scores = length ids'" "length ids' \<le> nat k" "\<forall>d \<in> set ids'. d \<noteq> INVALID_IDX"
proof -
  obtain h where k: "0 < k" and h: "h = \<lparr>tk_k = k, tk_pq = [], tk_threshold = None\<rparr>"
    and run: "foldE (\<lambda>holder d. if valid_doc v d then bindE (row_score dec of_i v dense d) (\<lambda>s. Inr (topk_add holder s d)) else Inr holder)
       h (ordered_ids ids) = Inr holder"
    using assms(1) by (auto simp: scan_selected_def topk_new_def throw_if_not_positive_def err_simps split: if_splits)
  have "holds_at_most (nat k) (\<lambda>d. 0 \<le> d) holder"
    if "foldE (\<lambda>holder d. if valid_doc v d then bindE (row_score dec of_i v dense d) (\<lambda>s. Inr (topk_add holder s d)) else Inr holder)
       h ds = Inr holder" and "holds_at_most (nat k) (\<lambda>d. 0 \<le> d) h" for ds h
    using that
  proof (induction ds arbitrary: h)
    case (Cons d ds)
    show ?case
    proof (cases "valid_doc v d")
      case True
      then obtain s where "row_score dec of_i v dense d = Inr s" using Cons.prems(1) by (auto simp: err_simps)
      then show ?thesis
        using Cons.IH [of "topk_add h s d"] Cons.prems True k holds_at_most_add [of "nat k" "\<lambda>d. 0 \<le> d" h d s]
        by (simp add: valid_doc_def)
    qed (use Cons in simp)
  qed simp
  from this [OF run] have "holds_at_most (nat k) (\<lambda>d. 0 \<le> d) holder" using k by (simp add: h holds_at_most_def)
  from holder_items [OF this assms(2)]
  show "length scores = length ids'" "length ids' \<le> nat k" "\<forall>d \<in> set ids'. d \<noteq> INVALID_IDX"
    by (auto simp: INVALID_IDX_def)
qed


lemma get_doc_score:
  assumes "sv_wire v" and "blocks_ok v cls" and "addresses_small cls" and "num_vectors v < 2 ^ 31"
    and "shows_source v cls fwd" and "directory_ok v cls remainder locators" and "is_i32 d"
  shows "(if d < 0 \<or> nat d \<ge> length locators then Inr holder
      else bindE (get_doc fwd remainder locators d (sv_element_size v)) (\<lambda>(comps, vals).
           bindE (compute_similarity dec of_i 0 [0, int (length comps)] comps vals dense (sv_element_size v)) (\<lambda>score.
           Inr (topk_add holder score d)))) =
    (if valid_doc v d then bindE (row_score dec of_i v dense d) (\<lambda>s. Inr (topk_add holder s d)) else Inr holder)"
proof (cases "valid_doc v d")
  case True
  then have "\<not> d < 0" "\<not> nat d \<ge> length locators" using assms(6) by (auto simp: valid_doc_def directory_ok_def)
  moreover obtain comps vals where r: "doc_row v d = (comps, vals)" by (cases "doc_row v d")
  moreover have "0 < sv_element_size v"
    using sv_wire_rows(8) [OF assms(1)] True by (auto simp: valid_doc_def)
  then have "compute_similarity dec of_i 0 [0, int (length comps)] comps vals dense (sv_element_size v) =
      score_slice dec of_i (sv_element_size v) dense (comps, vals)"
    unfolding score_slice_def prod.case
    by (intro compute_similarity_slice) (use doc_slice_row(3) [OF assms(1) True] r in simp_all)
  ultimately show ?thesis
    using get_doc_row [OF assms(1-6) True] True by (simp add: row_score_def)
next
  case False
  then have "d < 0 \<or> nat d \<ge> length locators" using assms(6) by (auto simp: valid_doc_def directory_ok_def)
  then show ?thesis using False by simp
qed

lemma directory_query_scan:
  assumes "sv_wire v" and "blocks_ok v cls" and "addresses_small cls" and "num_vectors v < 2 ^ 31"
    and "shows_source v cls fwd" and "directory_ok v cls remainder locators" and ids: "\<forall>d \<in> set ids. is_i32 d"
    and q: "\<forall>t \<in> set ts. t < n" "length bytes = length ts * sv_element_size v"
  shows "directory_query dec of_i fwd remainder locators ids ts bytes (sv_element_size v) k (replicate (n * sv_element_size v) 0) =
    bindE (scan_selected dec of_i v ids (concat (chunk_row (sv_element_size v) n ts (map (code_at (sv_element_size v) bytes) [0..<length ts]))) k)
      (\<lambda>holder. Inr (topk_items_descending holder, replicate (n * sv_element_size v) 0))"
proof -
  have "foldE (\<lambda>holder d. if d < 0 \<or> nat d \<ge> length locators then Inr holder
      else bindE (get_doc fwd remainder locators d (sv_element_size v)) (\<lambda>(comps, vals).
           bindE (compute_similarity dec of_i 0 [0, int (length comps)] comps vals dense (sv_element_size v)) (\<lambda>score.
           Inr (topk_add holder score d)))) holder (ordered_ids ids) =
    foldE (\<lambda>holder d. if valid_doc v d then bindE (row_score dec of_i v dense d) (\<lambda>s. Inr (topk_add holder s d)) else Inr holder)
       holder (ordered_ids ids)" for holder dense
    by (rule foldE_cong [OF refl refl], rule get_doc_score [OF assms(1-6)]) (use ids in simp)
  then show ?thesis
    by (simp add: directory_query_def scatter_codes_ok [OF q] scan_selected_def bindE_assoc)
qed

lemma exact_single_query_scan:
  assumes "sv_wire v" and "sv_element_size v \<noteq> 8" and ids: "\<forall>d \<in> set ids. is_i32 d"
  shows "exact_single_query dec of_i v ids dense (sv_element_size v) k =
    bindE (scan_selected dec of_i v ids dense k) (\<lambda>holder. let (scores, labels) = topk_items_descending holder
      in Inr (resize (nat k) (- 1) scores, resize (nat k) INVALID_IDX labels))"
proof -
  have "(if d < 0 \<or> size_of_int d \<ge> num_vectors v then Inr holder
      else bindE (compute_similarity dec of_i (nat d) (buf_elems (sv_indptr v)) (buf_elems (sv_indices v))
                    (buf_elems (sv_values v)) dense (sv_element_size v)) (\<lambda>score. Inr (topk_add holder score d))) =
    (if valid_doc v d then bindE (row_score dec of_i v dense d) (\<lambda>s. Inr (topk_add holder s d)) else Inr holder)"
    if "d \<in> set ids" for d holder
  proof (cases "d < 0")
    case False
    have "is_i32 d" using that ids by simp
    then have "size_of_int d = nat d" using False by (simp add: is_i32_def is_i64_def)
    then show ?thesis using row_score_similarity [OF assms(1) _ assms(2), where d = d and dec = dec and of_i = of_i and dense = dense] False by (auto simp: valid_doc_def)
  qed (simp add: valid_doc_def)
  then have "foldE (\<lambda>holder d. if d < 0 \<or> size_of_int d \<ge> num_vectors v then Inr holder
      else bindE (compute_similarity dec of_i (nat d) (buf_elems (sv_indptr v)) (buf_elems (sv_indices v))
                    (buf_elems (sv_values v)) dense (sv_element_size v)) (\<lambda>score. Inr (topk_add holder score d))) holder (ordered_ids ids) =
    foldE (\<lambda>holder d. if valid_doc v d then bindE (row_score dec of_i v dense d) (\<lambda>s. Inr (topk_add holder s d)) else Inr holder)
       holder (ordered_ids ids)" for holder
    by (intro foldE_cong [OF refl refl]) simp
  then show ?thesis by (simp add: exact_single_query_def scan_selected_def bindE_assoc)
qed

subsection \<open>The batch\<close>

text \<open>A batch in order: pointers, terms below the dimension, and sizes that fit.\<close>

definition batch_fits :: "int \<Rightarrow> idx_t \<Rightarrow> offset_t list \<Rightarrow> term_t list \<Rightarrow> 'w list \<Rightarrow> bool" where
  "batch_fits d n ip ix vs \<longleftrightarrow> csr_wf 1 ip ix vs \<and> n = int (length ip) - 1 \<and> 0 < n \<and> n < 2147483647 \<and>
     length ix * 4 \<le> SIZE_MAX \<and> (\<forall>t \<in> set ix. t < nat d)"

lemma encode_batch_ok:
  assumes "batch_fits d n ip ix vs"
  shows "encode_batch e n ip vs = Inr (encode_array e vs)" "take_elems (nat n + 1) ip = Inr ip"
    "take_elems (size_of_int (last ip)) ix = Inr ix"
proof -
  have ip: "ip \<noteq> []" "last ip = int (length ix)" "length vs = length ix" "nat n + 1 = length ip" "nat n = length ip - 1" "0 < n"
    and sz: "length ix * 4 \<le> SIZE_MAX"
    using assms by (auto simp: batch_fits_def csr_wf_def)
  have "size_of_int (int (length ix)) = length ix" using sz by (simp add: is_i64_def SIZE_MAX_def)
  then show "encode_batch e n ip vs = Inr (encode_array e vs)" "take_elems (size_of_int (last ip)) ix = Inr ix"
    using ip by (simp_all add: encode_batch_def take_elems_def last_conv_nth)
  show "take_elems (nat n + 1) ip = Inr ip" using ip(4) by (simp add: take_elems_def)
qed

lemma query_codes_ok:
  assumes b: "batch_fits d n ip ix vs" and e: "\<And>x. length (e x) = es" and es: "0 < es" "es \<le> 4" and d: "0 < d" "is_i32 d"
  shows "\<exists>q. query_codes e es d n ip ix vs = Inr q \<and> sv_content_wf q \<and> sv_element_size q = es \<and> sv_dimension q = nat d \<and>
    sv_rows q = csr_rows es ip ix (encode_array e vs) \<and> num_vectors q = nat n \<and> (\<forall>t \<in> set (buf_elems (sv_indices q)). t < sv_dimension q)"
proof -
  have wf: "csr_wf 1 ip ix vs" and ix: "\<forall>t \<in> set ix. t < nat d" and n: "nat n = length ip - 1" and sz: "length ix * 4 \<le> SIZE_MAX"
    using b by (auto simp: batch_fits_def)
  have "length (encode_array e vs) = length vs * es" by (induction vs) (simp_all add: encode_array_def e)
  then have wf': "csr_wf es ip ix (encode_array e vs)" using wf by (simp add: csr_wf_def)
  let ?v = "sv_default\<lparr>sv_element_size := es, sv_dimension := nat d\<rparr>"
  have new: "sv_new es (size_of_int d) = Inr ?v" using d by (simp add: sv_new_def throw_if_not_positive_def is_i32_def is_i64_def)
  have v: "sv_content_wf ?v" "sv_growable ?v" "sv_rows ?v = []" "sv_element_size ?v = es" "sv_dimension ?v = nat d"
    by (simp_all add: sv_content_wf_def sv_growable_def sv_default_def sv_rows_def csr_rows_def)
  have "length ix * es \<le> SIZE_MAX" using sz es(2) mult_le_mono2 [of es 4 "length ix"] by linarith
  then obtain q where q: "add_vectors ?v ip ix (encode_array e vs) = Inr q" "sv_content_wf q" "sv_element_size q = es"
    "sv_dimension q = nat d" "sv_rows q = csr_rows es ip ix (encode_array e vs)"
    using add_vectors_content [OF v(1,2), unfolded v(4), OF wf'] v(3,5) by auto
  have "buf_elems (sv_indices q) = ix"
    using sv_terms_concat [OF q(2)] csr_rows_concat [OF wf'] by (simp add: q(5))
  moreover have "num_vectors q = nat n" using n by (simp add: num_vectors_rows q(5))
  ultimately show ?thesis
    using q new ix by (simp add: query_codes_def encode_batch_ok [OF b] encode_batch_ok(2) [OF b, simplified])
qed

lemma code_row_csr:
  assumes wf: "csr_wf es ip ix codes" and i: "i + 1 < length ip"
  shows "code_row es ip ix codes i = Inr (csr_rows es ip ix codes ! i)"
    "length (snd (csr_rows es ip ix codes ! i)) = length (fst (csr_rows es ip ix codes ! i)) * es"
    "set (fst (csr_rows es ip ix codes ! i)) \<subseteq> set ix"
proof -
  define s where "s = nat (ip ! i)"
  define e where "e = nat (ip ! (i + 1))"
  note r = csr_row_bounds [OF wf i, folded s_def e_def]
  have len: "length codes = length ix * es" using wf by (simp add: csr_wf_def)
  have se: "s \<le> e" using r(1,2) by (simp add: s_def e_def)
  have n: "nat (ip ! (i + 1) - ip ! i) = e - s" using r(1,2) by (simp add: s_def e_def nat_diff_distrib')
  have le: "e * es \<le> length codes" using r(3) len by simp
  have "take_elems (e - s) (drop s ix) = Inr (slice s e ix)" using r(3) by (simp add: take_elems_def slice_def)
  moreover have "take_elems ((e - s) * es) (drop (s * es) codes) = Inr (slice (s * es) (e * es) codes)"
    using le by (simp add: take_elems_def slice_def diff_mult_distrib)
  ultimately show "code_row es ip ix codes i = Inr (csr_rows es ip ix codes ! i)"
    using row_span_Inr [OF i r(1,2), folded s_def e_def] by (simp add: code_row_def r(4))
  show "length (snd (csr_rows es ip ix codes ! i)) = length (fst (csr_rows es ip ix codes ! i)) * es"
    using r(3) le by (simp add: r(4) slice_def diff_mult_distrib)
  show "set (fst (csr_rows es ip ix codes ! i)) \<subseteq> set ix"
    by (auto simp: r(4) slice_def dest: in_set_takeD in_set_dropD)
qed


lemma mapE_post: "bindE (mapE g xs) (\<lambda>rs. Inr (map h rs)) = mapE (\<lambda>x. bindE (g x) (\<lambda>r. Inr (h r))) xs"
proof (induction xs)
  case (Cons x xs)
  show ?case
  proof (cases "g x")
    case (Inr r)
    then show ?thesis using Cons [symmetric] by (cases "mapE g xs") simp_all
  qed simp
qed simp

lemma query_quantizer_bytes:
  assumes "dk_query_quantizer fin sq p = Inr query_sq" and "\<And>x. length (enc x) = 4"
  shows "length (encode_value enc of_i lround query_sq x) = code_element_size sq"
proof (cases sq)
  case None
  then show ?thesis using assms by (simp add: dk_query_quantizer_def encode_value_def code_element_size_def U32_def)
next
  case (Some q)
  then obtain q' where "query_sq = Some q'" "bytes_per_value q' = bytes_per_value q"
    using assms(1) by (auto simp: dk_query_quantizer_def sq_new_def bytes_per_value_def err_simps split: option.splits search_params.splits if_splits)
  then show ?thesis by (simp add: Some encode_value_def code_element_size_def length_sq_code_bytes)
qed

lemma exact_match_mapped:
  assumes w: "dk_wire fin st v" and m: "maps_disk st v st'" and enc: "\<And>x. length (enc x) = 4"
    and b: "batch_fits (dk_dimension st) n ip ix vs" and ids: "\<forall>d \<in> set ids. is_i32 d"
    and locators: "dk_locators st' = Some locators"
  shows "exact_match_directory enc dec of_i lround fin' thread st' locators ids n ip ix vs k p =
    exact_match_vectors enc dec of_i lround fin' st v ids n ip ix vs k p"
proof (cases "dk_query_quantizer fin' (dk_sq st) p")
  case (Inl e)
  then show ?thesis using m by (simp add: exact_match_directory_def exact_match_vectors_def maps_disk_def Let_def)
next
  case (Inr query_sq)
  let ?d = "dk_dimension st" and ?es = "sv_element_size v" and ?e = "encode_value enc of_i lround query_sq"
  let ?codes = "encode_array ?e vs"
  have s: "sv_wire v" "blocks_ok v (dk_lists st)" "addresses_small (dk_lists st)" "num_vectors v < 2 ^ 31"
    "?es = code_element_size (dk_sq st)" "?es \<in> {1, 2, 4}" "0 < ?d" "is_i32 ?d"
    using w by (auto simp: dk_wire_def source_ok_def addresses_small_def)
  have es: "0 < ?es" "?es \<le> 4" "?es \<noteq> 8" using s(6) by auto
  have f: "dk_dimension st' = ?d" "dk_sq st' = dk_sq st" "shows_source v (dk_lists st) (dk_fwd st')"
    "directory_ok v (dk_lists st) (dk_remainder st') locators"
    using m locators by (auto simp: maps_disk_def same_source_def)
  have e: "length (?e x) = ?es" for x unfolding s(5) by (rule query_quantizer_bytes [OF Inr enc])
  obtain q where q: "query_codes ?e ?es ?d n ip ix vs = Inr q" "sv_content_wf q" "sv_element_size q = ?es" "sv_dimension q = nat ?d"
    "sv_rows q = csr_rows ?es ip ix ?codes" "num_vectors q = nat n" "\<forall>t \<in> set (buf_elems (sv_indices q)). t < sv_dimension q"
    using query_codes_ok [where e = ?e, OF b e es(1,2) s(7,8)] by blast
  have wf: "csr_wf ?es ip ix ?codes" and nip: "nat n = length ip - 1" "nat n < 2147483647" and ix: "\<forall>t \<in> set ix. t < nat ?d"
  proof -
    have "length ?codes = length vs * ?es" by (induction vs) (simp_all add: encode_array_def e)
    then show "csr_wf ?es ip ix ?codes" using b by (simp add: batch_fits_def csr_wf_def)
  qed (use b in \<open>auto simp: batch_fits_def\<close>)
  let ?row = "\<lambda>i. csr_rows ?es ip ix ?codes ! i"
  let ?dense = "\<lambda>i. concat (chunk_row ?es (nat ?d) (fst (?row i)) (map (code_at ?es (snd (?row i))) [0..<length (fst (?row i))]))"
  let ?scan = "\<lambda>i. bindE (scan_selected dec of_i v ids (?dense i) k)
      (\<lambda>holder. Inr (decode_and_pad of_i (dk_sq st) query_sq k (topk_items_descending holder)))"
  let ?z = "replicate (nat ?d * ?es) 0"
  let ?q = "\<lambda>dense i. bindE (code_row ?es ip ix ?codes i) (\<lambda>(q_indices, q_codes).
             bindE (directory_query dec of_i (dk_fwd st') (dk_remainder st') locators ids q_indices q_codes ?es k dense) (\<lambda>(r, dense).
             Inr (decode_and_pad of_i (dk_sq st) query_sq k r, dense)))"
  have one: "?q ?z i = bindE (?scan i) (\<lambda>r. Inr (r, ?z))" if i: "i < nat n" for i
  proof -
    have i1: "i + 1 < length ip" using i nip(1) by simp
    note row = code_row_csr [OF wf i1]
    have t: "\<forall>t \<in> set (fst (?row i)). t < nat ?d" using row(3) ix by blast
    note scan = directory_query_scan [OF s(1-4) f(3,4) ids t row(2), where dec = dec and of_i = of_i and k = k]
    show ?thesis
      using row(1) scan by (cases "?row i") (simp add: bindE_assoc)
  qed
  have "d = ?z" if "i < nat n" "?q ?z i = Inr (r, d)" for i r d
    using that one [of i] by (cases "?scan i") simp_all
  from run_batch_scratch [of "nat n" ?q ?z thread, OF this]
  have "bindE (run_batch ?q thread (\<lambda>_. ?z) (nat n)) (\<lambda>(rs, _). Inr rs) = mapE (\<lambda>i. bindE (?q ?z i) (\<lambda>(r, _). Inr r)) [0..<nat n]" .
  also have "\<dots> = mapE ?scan [0..<nat n]"
    by (rule mapE_cong) (simp_all add: one bindE_assoc bindE_return)
  finally have left: "exact_match_directory enc dec of_i lround fin' thread st' locators ids n ip ix vs k p = mapE ?scan [0..<nat n]"
    by (simp add: exact_match_directory_def f(1,2) Inr encode_batch_ok [OF b] s(5) [symmetric] Let_def)
  let ?exact = "\<lambda>i. bindE (get_dense_vector q (int i)) (\<lambda>dense. exact_single_query dec of_i v ids dense ?es k)"
  have "bindE (?exact i) (\<lambda>r. Inr (decode_prefix of_i (dk_sq st) query_sq r)) = ?scan i" if i: "i < nat n" for i
  proof -
    have i1: "i + 1 < length ip" using i nip(1) by simp
    have "nat ?d \<le> 2147483647" using s(8) by (simp add: is_i32_def nat_le_iff)
    then have "nat ?d * ?es \<le> 2147483647 * 4" using es(2) by (rule mult_le_mono)
    then have "sv_dimension q * ?es \<le> SIZE_MAX" by (simp add: q(4) SIZE_MAX_def)
    from get_dense_vector_row [OF q(2,3) es(1) this q(7), of i] i nip(2)
    have "get_dense_vector q (int i) = Inr (?dense i)"
      using code_row_csr(2) [OF wf i1] es(1) by (simp add: q(4-6) row_chunks_def)
    then show ?thesis
      using scan_selected_items [of dec of_i v ids "?dense i" k] decode_prefix_pad [of _ _ k of_i "dk_sq st" query_sq]
      by (cases "scan_selected dec of_i v ids (?dense i) k")
        (auto simp: exact_single_query_scan [OF s(1) es(3) ids] split: prod.splits)
  qed
  then have "mapE (\<lambda>i. bindE (?exact i) (\<lambda>r. Inr (decode_prefix of_i (dk_sq st) query_sq r))) [0..<nat n] = mapE ?scan [0..<nat n]"
    by (intro mapE_cong) simp_all
  then show ?thesis
    unfolding left by (simp add: exact_match_vectors_def Inr s(5) [symmetric] q(1,6) exact_search_def mapE_post Let_def)
qed


section \<open>What a search with a block budget answers\<close>

lemma csr_rows_encode:
  assumes wf: "csr_wf 1 ip ix vs" and e: "\<And>x. length (e x) = es" and i: "i + 1 < length ip"
  shows "csr_rows es ip ix (encode_array e vs) ! i =
    (map fst (batch_docs (ip, ix, vs) ! i), encode_array e (map snd (batch_docs (ip, ix, vs) ! i)))"
proof -
  have lv: "length vs = length ix" using wf by (simp add: csr_wf_def)
  have "length (encode_array e vs) = length vs * es" by (induction vs) (simp_all add: encode_array_def e)
  then have wf': "csr_wf es ip ix (encode_array e vs)" using wf by (simp add: csr_wf_def)
  define a where "a = nat (ip ! i)"
  define b where "b = nat (ip ! (i + 1))"
  note r = csr_row_bounds [OF wf' i, folded a_def b_def]
  have q: "batch_docs (ip, ix, vs) ! i = zip (slice a b ix) (slice a b vs)"
    using i by (simp add: batch_docs_def csr_rows_def nth_tl a_def b_def)
  have l: "length (slice a b ix) = length (slice a b vs)" by (simp add: slice_def lv)
  have chunk: "length c = es" if "c \<in> set (map e vs)" for c using that e by auto
  have "drop (a * es) (concat (map e vs)) = concat (drop a (map e vs))" by (rule concat_chunk_drop [OF chunk])
  moreover have "take ((b - a) * es) (concat (drop a (map e vs))) = concat (take (b - a) (drop a (map e vs)))"
    by (rule concat_chunk_take) (use chunk in \<open>auto dest: in_set_dropD\<close>)
  ultimately have "slice (a * es) (b * es) (encode_array e vs) = encode_array e (slice a b vs)"
    by (simp add: slice_def encode_array_def take_map drop_map diff_mult_distrib)
  then show ?thesis unfolding q r(4) using l by simp
qed

text \<open>
  The candidates are the clusters of the lists the cuts name, each with its summary score; the blocks
  are the \<open>k_prime\<close> best of them; the answer is the best of the documents of the blocks.
\<close>

definition budget_answer ::
  "(byte list \<Rightarrow> 'w) \<Rightarrow> (nat \<Rightarrow> 'w) \<Rightarrow> clusters list \<Rightarrow> id_selector option \<Rightarrow> int \<Rightarrow> int \<Rightarrow> term_t list \<Rightarrow> byte list \<Rightarrow>
     term_t list \<Rightarrow> (idx_t \<Rightarrow> 'w :: linordered_idom) \<Rightarrow> 'w list \<times> idx_t list \<Rightarrow> bool" where
  "budget_answer dec conv cls sel k_prime k ts bytes cuts doc_score r \<longleftrightarrow> (\<exists>cands blocks.
     map snd cands = concat (map (\<lambda>t. if t < length cls then map (Pair t) [0..<cl_n_clusters (cls ! t)] else []) cuts) \<and>
     (\<forall>(x, t, c) \<in> set cands. \<exists>scores. score_summaries_transposed dec conv (cls ! t) ts bytes = Inr scores \<and> x = scores ! c) \<and>
     is_topk (nat k_prime) fst (mset cands) (mset blocks) \<and>
     best_of k (map (\<lambda>d. (doc_score d, d)) (filter (selected_by sel) (block_docs cls (map snd blocks)))) r \<and>
     (int (length cands) \<le> k_prime \<longrightarrow>
        best_of k (map (\<lambda>d. (doc_score d, d)) (filter (selected_by sel) (visited_docs cls cuts))) r))"

lemma collect_candidates_scores:
  assumes "collect_candidates dec conv cls ts bytes cuts = Inr cands" and "(x, t, c) \<in> set cands"
  shows "\<exists>scores. score_summaries_transposed dec conv (cls ! t) ts bytes = Inr scores \<and> x = scores ! c"
proof -
  have "\<exists>scores. score_summaries_transposed dec conv (cls ! t) ts bytes = Inr scores \<and> x = scores ! c"
    if "foldE (\<lambda>cands t.
       if t \<ge> length cls then Inr cands
       else if cl_n_clusters (cls ! t) = 0 then Inr cands
       else bindE (score_summaries_transposed dec conv (cls ! t) ts bytes) (\<lambda>scores.
            Inr (cands @ map (\<lambda>cid. (scores ! cid, t, cid)) [0..<cl_n_clusters (cls ! t)]))) acc cuts = Inr cands"
      and "\<forall>(x, t, c) \<in> set acc. \<exists>scores. score_summaries_transposed dec conv (cls ! t) ts bytes = Inr scores \<and> x = scores ! c" for acc
    using that assms(2) by (induction cuts arbitrary: acc) (fastforce simp: bindE_Inr_iff split: if_splits)+
  then show ?thesis using assms(1) by (simp add: collect_candidates_def)
qed

lemma best_of_mset: "mset xs = mset ys \<Longrightarrow> best_of k xs r = best_of k ys r"
  by (simp add: best_of_def)

lemma budget_answer_selected:
  assumes cands: "collect_candidates dec conv cls ts bytes cuts = Inr cands" and k_prime: "0 < k_prime" "is_i32 k_prime"
    and best: "best_of k (map (\<lambda>d. (doc_score d, d)) (filter (selected_by sel) (block_docs cls (map snd (select_blocks k_prime cands))))) r"
  shows "budget_answer dec conv cls sel k_prime k ts bytes cuts doc_score r"
proof -
  have n: "size_of_int k_prime = nat k_prime" using k_prime by (simp add: is_i32_def is_i64_def)
  have "best_of k (map (\<lambda>d. (doc_score d, d)) (filter (selected_by sel) (visited_docs cls cuts))) r"
    if "int (length cands) \<le> k_prime"
  proof -
    have "min (nat k_prime) (length cands) = length cands" using that by linarith
    then have all: "select_blocks k_prime cands = cands" by (simp add: select_blocks_def n)
    have "mset (block_docs cls (map snd cands)) = mset (visited_docs cls cuts)"
      using block_docs_all [OF cands] by (simp add: set_eq_iff_mset_eq_distinct [symmetric] block_docs_def visited_docs_def)
    then have "mset (map (\<lambda>d. (doc_score d, d)) (filter (selected_by sel) (block_docs cls (map snd cands)))) =
        mset (map (\<lambda>d. (doc_score d, d)) (filter (selected_by sel) (visited_docs cls cuts)))" by simp
    from best_of_mset [OF this] show ?thesis using best by (simp add: all)
  qed
  then show ?thesis
    unfolding budget_answer_def using select_blocks_best [of k_prime cands] best
      collect_candidates_names [OF cands] collect_candidates_scores [OF cands]
    by (intro exI [of _ cands] exI [of _ "select_blocks k_prime cands"]) (auto simp: n)
qed


lemma top_cut_tokens_ok: "0 < q_cut \<Longrightarrow> \<exists>cuts. top_cut_tokens (dec :: byte list \<Rightarrow> 'w :: linorder) ts bytes q_cut es = Inr cuts"
  unfolding top_cut_tokens_def by (auto intro: top_k_tokens_ok)

lemma block_budget_search_best:
  fixes doc_score :: "'w doc \<Rightarrow> idx_t \<Rightarrow> 'w :: linordered_field"
  assumes w: "dk_wire fin0 st v" and enc: "\<And>x. length (enc x) = 4"
    and b: "batch_fits (dk_dimension st) n ip ix vs"
    and params: "dk_query_quantizer fin (dk_sq st) p = Inr query_sq" "resolve_cut_and_budget p = (q_cut, k_prime)"
      "0 < q_cut" "0 < k_prime" "is_i32 k_prime" "0 < k" "\<not> should_run_exact_match (params_selector p) k"
    and score: "\<And>q d. q \<in> set (batch_docs (ip, ix, vs)) \<Longrightarrow> valid_doc v d \<Longrightarrow>
      row_score dec of_i v (concat (chunk_row (sv_element_size v) (nat (dk_dimension st)) (map fst q)
        (map (code_at (sv_element_size v) (encode_array (encode_value enc of_i lround query_sq) (map snd q))) [0..<length q]))) d =
      Inr (doc_score q d)"
    and scale: "0 < c" "\<And>xs. decode_scores of_i (dk_sq st) query_sq xs = map (\<lambda>x. x * c) xs"
    and sums: "\<And>q cl. q \<in> set (batch_docs (ip, ix, vs)) \<Longrightarrow> cl \<in> set (dk_lists st) \<Longrightarrow> \<exists>scores.
      score_summaries_transposed dec conv cl (map fst q) (encode_array (encode_value enc of_i lround query_sq) (map snd q)) = Inr scores"
  shows "\<exists>results. dk_search enc dec conv of_i lround fin thread st n ip ix vs k p = Inr results \<and>
    list_all2 (\<lambda>q r. let bytes = encode_array (encode_value enc of_i lround query_sq) (map snd q)
      in \<exists>cuts. top_cut_tokens dec (map fst q) bytes q_cut (sv_element_size v) = Inr cuts \<and>
         budget_answer dec conv (dk_lists st) (params_selector p) k_prime k (map fst q) bytes cuts (\<lambda>d. doc_score q d * c) r)
      (batch_docs (ip, ix, vs)) results"
proof -
  let ?qs = "batch_docs (ip, ix, vs)" and ?es = "sv_element_size v" and ?e = "encode_value enc of_i lround query_sq"
  let ?sel = "params_selector p" and ?z = "replicate (nat (dk_dimension st) * ?es) 0" and ?cls = "dk_lists st"
  let ?best = "\<lambda>q r. let bytes = encode_array ?e (map snd q) in \<exists>cuts. top_cut_tokens dec (map fst q) bytes q_cut ?es = Inr cuts \<and>
      budget_answer dec conv ?cls ?sel k_prime k (map fst q) bytes cuts (\<lambda>d. doc_score q d * c) r"
  have v: "dk_vectors st = Some v" "0 < dk_num_vectors st" "sv_wire v" "blocks_ok v ?cls" "?es = code_element_size (dk_sq st)"
    "num_blocks (dk_fwd st) = 0"
    using w by (auto simp: dk_wire_def source_ok_def)
  have e: "length (?e x) = ?es" for x unfolding v(5) by (rule query_quantizer_bytes [OF params(1) enc])
  have wf: "csr_wf 1 ip ix vs" "n \<noteq> 0" "nat n = length ip - 1" "\<forall>t \<in> set ix. t < nat (dk_dimension st)"
    using b by (auto simp: batch_fits_def)
  have len: "length ?qs = nat n" using wf(3) by (simp add: batch_docs_def csr_rows_def)
  have lc: "length (encode_array ?e xs) = length xs * ?es" for xs by (induction xs) (simp_all add: encode_array_def e)
  have wf': "csr_wf ?es ip ix (encode_array ?e vs)" using wf(1) by (simp add: csr_wf_def lc)
  let ?q = "\<lambda>dense i. bindE (code_row ?es ip ix (encode_array ?e vs) i) (\<lambda>(q_indices, q_codes).
     bindE (top_cut_tokens dec q_indices q_codes q_cut ?es) (\<lambda>cuts.
     bindE (block_budget_query dec conv of_i ?es q_indices q_codes cuts k k_prime ?cls None (Some v) ?sel dense) (\<lambda>(r, dense).
     Inr (decode_and_pad of_i (dk_sq st) query_sq k r, dense))))"
  have each: "\<exists>r. ?q ?z i = Inr (r, ?z) \<and> ?best (?qs ! i) r" if i: "i < length ?qs" for i
  proof -
    have i1: "i + 1 < length ip" using i len wf(3) by simp
    let ?d = "?qs ! i" and ?bytes = "encode_array ?e (map snd (?qs ! i))"
    have d: "?d \<in> set ?qs" using i by simp
    note row = csr_rows_encode [where e = ?e, OF wf(1) e i1]
    have ts: "\<forall>t \<in> set (map fst ?d). t < nat (dk_dimension st)"
      using code_row_csr(3) [OF wf' i1] wf(4) by (auto simp: row)
    obtain cuts where cuts: "top_cut_tokens dec (map fst ?d) ?bytes q_cut ?es = Inr cuts"
      using top_cut_tokens_ok [OF params(3)] by blast
    obtain cands where cands: "collect_candidates dec conv ?cls (map fst ?d) ?bytes cuts = Inr cands"
      using collect_candidates_total [of ?cls dec conv "map fst ?d" ?bytes cuts] sums [OF d] by blast
    have "length ?bytes = length (map fst ?d) * ?es" by (simp add: lc)
    from block_budget_best [OF v(3,4) refl ts this score [OF d, folded length_map [of fst ?d]] cands params(6), of k_prime ?sel]
    obtain scores ids where r: "block_budget_query dec conv of_i ?es (map fst ?d) ?bytes cuts k k_prime ?cls None (Some v) ?sel ?z = Inr ((scores, ids), ?z)"
      "\<forall>c > 0. best_of k (map (\<lambda>q. (doc_score ?d q * c, q)) (filter (selected_by ?sel) (block_docs ?cls (map snd (select_blocks k_prime cands)))))
        (resize (nat k) (- 1) (map (\<lambda>x. x * c) scores), resize (nat k) INVALID_IDX ids)"
      by auto
    have "budget_answer dec conv ?cls ?sel k_prime k (map fst ?d) ?bytes cuts (\<lambda>q. doc_score ?d q * c)
        (decode_and_pad of_i (dk_sq st) query_sq k (scores, ids))"
      using budget_answer_selected [OF cands params(4,5)] r(2) scale by (simp add: decode_and_pad_def)
    then show ?thesis using r(1) cuts code_row_csr(1) [OF wf' i1] by (simp add: row)
  qed
  then have scratch: "d = ?z" if "i < nat n" "?q ?z i = Inr (r, d)" for i r d
    using that len by fastforce
  have run: "\<exists>r. bindE (?q ?z i) (\<lambda>(r, _). Inr r) = Inr r \<and> ?best (?qs ! i) r" if "i < length ?qs" for i
    using each [OF that] by force
  obtain results where "mapE (\<lambda>i. bindE (?q ?z i) (\<lambda>(r, _). Inr r)) [0..<nat n] = Inr results" "list_all2 ?best ?qs results"
    using mapE_list_all2 [of ?qs "\<lambda>i. bindE (?q ?z i) (\<lambda>(r, _). Inr r)" ?best, OF run] len by auto
  then have run: "bindE (run_batch ?q thread (\<lambda>_. ?z) (nat n)) (\<lambda>(rs, _). Inr rs) = Inr results"
    using run_batch_scratch [of "nat n" ?q ?z thread, OF scratch] by simp
  have "dk_search enc dec conv of_i lround fin thread st n ip ix vs k p =
      block_budget_search enc dec conv of_i lround fin thread st n ip ix vs k p"
    using v(1,2) wf(2) params(7) by (simp add: dk_search_def Let_def)
  also have "\<dots> = Inr results"
    using params(4) run
    by (simp add: block_budget_search_def params(1,2) v(1,6) v(5) [symmetric] encode_batch_ok [OF b] Let_def)
  finally show ?thesis using \<open>list_all2 ?best ?qs results\<close> by blast
qed


text \<open>The dense query of the float index, and of the quantized one.\<close>

lemma float_row_score:
  fixes dec :: "byte list \<Rightarrow> 'w :: linordered_idom"
  assumes v: "sv_wire v" "holds_docs dec docs v" "docs_wf m docs" and d: "valid_doc v d"
    and q: "distinct (map fst q)" and codes: "codes_exactly enc dec (map snd q)" "dec (replicate 4 0) = 0"
  shows "row_score dec of_i v (concat (chunk_row 4 m (map fst q) (map (code_at 4 (encode_array enc (map snd q))) [0..<length q]))) d =
    Inr (dot q (docs ! nat d))"
proof -
  let ?bs = "map (code_at 4 (encode_array enc (map snd q))) [0..<length q]"
  have es: "sv_element_size v = 4" using v(2) by (simp add: holds_docs_def)
  have c: "length (enc (snd (q ! j))) = 4" "dec (enc (snd (q ! j))) = snd (q ! j)" if "j < length q" for j
    using codes(1) nth_mem [OF that] by (auto simp: codes_exactly_def)
  have "code_at 4 (encode_array enc (map snd q)) j = enc (snd (q ! j))" if "j < length q" for j
    unfolding encode_array_def
    by (subst code_at_concat) (use that codes(1) in \<open>auto simp: codes_exactly_def\<close>)
  then have bs: "?bs = map (\<lambda>j. enc (snd (q ! j))) [0..<length q]" by simp
  have "map dec ?bs = map snd q" unfolding bs by (rule nth_equalityI) (simp_all add: c)
  moreover have "\<forall>b \<in> set ?bs. length b = 4" unfolding bs using c by simp
  ultimately have dense: "typed_array 4 dec (concat (chunk_row 4 m (map fst q) ?bs)) = densify m (map fst q) (map snd q)"
    using typed_chunk_row [of ?bs 4 dec m "map fst q"] codes(2) by simp
  have "length (sv_rows v) = length docs" using v(2) by (auto simp: holds_docs_def)
  then have i: "nat d < length docs" using d by (simp add: valid_doc_def num_vectors_rows)
  show ?thesis
    using row_score_similarity [OF v(1) d, where dec = dec and of_i = of_i] compute_similarity_dot [OF v(2,3) i q dense, of of_i]
    by (simp add: es)
qed

lemma code_row_score:
  assumes v: "sv_wire v" "holds_codes es m v" and d: "valid_doc v d"
    and q: "distinct ts" "length bytes = length ts * es"
  shows "row_score dec of_i v (concat (chunk_row es m ts (map (code_at es bytes) [0..<length ts]))) d =
    Inr (of_i (dot (code_query es ts bytes) (row_of int_code v d)))"
proof -
  have es: "sv_element_size v = es" using v(2) by (simp add: holds_codes_def)
  have "accumulates es (length (row_of int_code v d))" using v(2) d by (simp add: holds_codes_def)
  then have "sv_element_size v \<noteq> 8" by (auto simp: es accumulates_def U8_def U16_def)
  then show ?thesis
    using row_score_similarity [OF v(1) d, where dec = dec and of_i = of_i] code_score_of_dot [OF v(2) d q, where dec = dec and of_i = of_i]
    by (simp add: code_score_of_def es split: if_splits)
qed

text \<open>
  C36: what the float disk index answers. For a built index over the documents, the search of a batch
  succeeds, and each query is answered from its \<open>k_prime\<close> best clusters by summary score among all
  clusters of the lists its heaviest terms name: the \<open>k\<close> best dot products of the selected documents
  of those clusters, each document once, padded. A budget of all the clusters gives the best of all
  documents of those lists.
\<close>

theorem disk_search_exact:
  fixes docs :: "'w :: linordered_field doc list"
  assumes "dk_wire fin0 st v" and "dk_sq st = None" and "holds_docs dec docs v" and "docs_wf (nat (dk_dimension st)) docs"
    and "batch_fits (dk_dimension st) n ip ix vs" and "docs_wf (nat (dk_dimension st)) (batch_docs (ip, ix, vs))"
    and "\<And>x. length (enc x) = 4" and "codes_exactly enc dec vs" and "dec (replicate 4 0) = 0"
    and "resolve_cut_and_budget p = (q_cut, k_prime)" and "0 < q_cut" and "0 < k_prime" and "is_i32 k_prime" and "0 < k"
    and "\<not> should_run_exact_match (params_selector p) k"
    and "\<And>q cl. q \<in> set (batch_docs (ip, ix, vs)) \<Longrightarrow> cl \<in> set (dk_lists st) \<Longrightarrow>
      \<exists>scores. score_summaries_transposed dec conv cl (map fst q) (encode_array enc (map snd q)) = Inr scores"
  shows "\<exists>results. dk_search enc dec conv of_i lround fin thread st n ip ix vs k p = Inr results \<and>
    list_all2 (\<lambda>q r. \<exists>cuts. top_k_tokens (map fst q) (map snd q) q_cut = Inr cuts \<and>
      budget_answer dec conv (dk_lists st) (params_selector p) k_prime k (map fst q) (encode_array enc (map snd q)) cuts
        (\<lambda>d. dot q (docs ! nat d)) r)
      (batch_docs (ip, ix, vs)) results"
proof -
  let ?qs = "batch_docs (ip, ix, vs)"
  have es: "sv_element_size v = 4" and wire: "sv_wire v"
    using assms(1,3) by (auto simp: holds_docs_def dk_wire_def source_ok_def)
  have e: "encode_value enc of_i lround None = enc" by (simp add: encode_value_def)
  have codes: "codes_exactly enc dec (map snd q)" "distinct (map fst q)" if q: "q \<in> set ?qs" for q
  proof -
    show "distinct (map fst q)" using assms(6) q by (simp add: docs_wf_def)
    have "set (map snd q) \<subseteq> set vs"
      using q by (auto simp: batch_docs_def csr_rows_def slice_def dest!: set_zip_rightD in_set_takeD in_set_dropD)
    then show "codes_exactly enc dec (map snd q)" using assms(8) by (auto simp: codes_exactly_def)
  qed
  have cuts: "top_cut_tokens dec (map fst q) (encode_array enc (map snd q)) q_cut (sv_element_size v) = top_k_tokens (map fst q) (map snd q) q_cut"
    if "q \<in> set ?qs" for q
    using decode_encode4 [OF codes(1) [OF that]] by (simp add: top_cut_tokens_def es U32_def)
  have "\<exists>results. dk_search enc dec conv of_i lround fin thread st n ip ix vs k p = Inr results \<and>
    list_all2 (\<lambda>q r. let bytes = encode_array (encode_value enc of_i lround None) (map snd q)
      in \<exists>cuts. top_cut_tokens dec (map fst q) bytes q_cut (sv_element_size v) = Inr cuts \<and>
         budget_answer dec conv (dk_lists st) (params_selector p) k_prime k (map fst q) bytes cuts (\<lambda>d. dot q (docs ! nat d) * 1) r)
      ?qs results"
  proof (rule block_budget_search_best [OF assms(1,7,5)])
    fix q d assume q: "q \<in> set ?qs" and d: "valid_doc v d"
    from float_row_score [OF wire assms(3,4) d codes(2,1) [OF q] assms(9)]
    show "row_score dec of_i v (concat (chunk_row (sv_element_size v) (nat (dk_dimension st)) (map fst q)
        (map (code_at (sv_element_size v) (encode_array (encode_value enc of_i lround None) (map snd q))) [0..<length q]))) d =
      Inr (dot q (docs ! nat d))"
      by (simp add: e es)
  qed (use assms in \<open>simp_all add: dk_query_quantizer_def decode_scores_def e\<close>)
  then obtain results where r: "dk_search enc dec conv of_i lround fin thread st n ip ix vs k p = Inr results"
    "list_all2 (\<lambda>q r. \<exists>cuts. top_cut_tokens dec (map fst q) (encode_array enc (map snd q)) q_cut (sv_element_size v) = Inr cuts \<and>
         budget_answer dec conv (dk_lists st) (params_selector p) k_prime k (map fst q) (encode_array enc (map snd q)) cuts
           (\<lambda>d. dot q (docs ! nat d)) r) ?qs results"
    by (auto simp: e Let_def)
  from r(2) have "list_all2 (\<lambda>q r. \<exists>cuts. top_k_tokens (map fst q) (map snd q) q_cut = Inr cuts \<and>
         budget_answer dec conv (dk_lists st) (params_selector p) k_prime k (map fst q) (encode_array enc (map snd q)) cuts
           (\<lambda>d. dot q (docs ! nat d)) r) ?qs results"
    by (rule list.rel_mono_strong) (simp add: cuts)
  with r(1) show ?thesis by blast
qed


text \<open>
  C37: the quantized disk index answers likewise, by the decoded score of the codes: the clusters by
  the score of the query's codes against their summaries, the documents by the integer dot product of
  the codes scaled back with the ranges of the index and of the query.
\<close>

theorem disk_sq_search_exact:
  fixes st :: "'w :: floor_ceiling disk_index"
  assumes "dk_wire fin0 st v" and "dk_sq st = Some sq" and "holds_codes (bytes_per_value sq) (nat (dk_dimension st)) v"
    and "batch_fits (dk_dimension st) n ip ix vs" and "docs_wf (nat (dk_dimension st)) (batch_docs (ip, ix, vs))"
    and "\<And>x. length (enc x) = 4" and "dk_query_quantizer fin (Some sq) p = Inr (Some query_sq)" and "sq_ok sq" and "sq_ok query_sq"
    and "resolve_cut_and_budget p = (q_cut, k_prime)" and "0 < q_cut" and "0 < k_prime" and "is_i32 k_prime" and "0 < k"
    and "\<not> should_run_exact_match (params_selector p) k"
    and "\<And>q cl. q \<in> set (batch_docs (ip, ix, vs)) \<Longrightarrow> cl \<in> set (dk_lists st) \<Longrightarrow>
      \<exists>scores. score_summaries_transposed dec conv cl (map fst q) (sq_encode of_int round_half query_sq (map snd q)) = Inr scores"
  shows "\<exists>results. dk_search enc dec conv of_int round_half fin thread st n ip ix vs k p = Inr results \<and>
    list_all2 (\<lambda>q r. let codes = sq_encode of_int round_half query_sq (map snd q)
      in \<exists>cuts. code_cuts (bytes_per_value sq) (map fst q) codes q_cut = Inr cuts \<and>
         budget_answer dec conv (dk_lists st) (params_selector p) k_prime k (map fst q) codes cuts
           (sq_score sq query_sq v (map fst q) codes) r)
      (batch_docs (ip, ix, vs)) results"
proof -
  let ?qs = "batch_docs (ip, ix, vs)" and ?es = "bytes_per_value sq"
  let ?codes = "\<lambda>q. sq_encode of_int round_half query_sq (map snd q)"
  have es: "sv_element_size v = ?es" and wire: "sv_wire v"
    using assms(1-3) by (auto simp: holds_codes_def dk_wire_def source_ok_def)
  have width: "bytes_per_value query_sq = ?es"
    using query_quantizer_bytes [OF assms(7,6), where of_i = of_int and lround = round_half and x = 0]
    by (simp add: encode_value_def code_element_size_def length_sq_code_bytes)
  have e: "encode_array (encode_value enc of_int round_half (Some query_sq)) ws = sq_encode of_int round_half query_sq ws" for ws
    by (simp add: encode_value_def sq_encode_def)
  obtain c where c: "0 < c" "\<And>x. decode_dot_product of_int sq x query_sq = x * c"
    using decode_scale [OF assms(8,9)] by blast
  let ?dot = "\<lambda>q d. of_int (dot (code_query ?es (map fst q) (?codes q)) (row_of int_code v d)) :: 'w"
  have score: "(\<lambda>d. ?dot q d * c) = sq_score sq query_sq v (map fst q) (?codes q)" for q
    by (intro ext) (simp add: sq_score_def c(2))
  have cuts: "top_cut_tokens dec ts bytes q_cut ?es = code_cuts ?es ts bytes q_cut" for ts bytes
    by (cases "sq_type sq") (simp_all add: top_cut_tokens_def code_cuts_def bytes_per_value_def U8_def U16_def U32_def)
  have "\<exists>results. dk_search enc dec conv of_int round_half fin thread st n ip ix vs k p = Inr results \<and>
    list_all2 (\<lambda>q r. let bytes = encode_array (encode_value enc of_int round_half (Some query_sq)) (map snd q)
      in \<exists>cuts. top_cut_tokens dec (map fst q) bytes q_cut (sv_element_size v) = Inr cuts \<and>
         budget_answer dec conv (dk_lists st) (params_selector p) k_prime k (map fst q) bytes cuts (\<lambda>d. ?dot q d * c) r)
      ?qs results"
  proof (rule block_budget_search_best [OF assms(1,6,4)])
    fix q d assume q: "q \<in> set ?qs" and d: "valid_doc v d"
    have "distinct (map fst q)" using assms(5) q by (simp add: docs_wf_def)
    moreover have "length (?codes q) = length (map fst q) * ?es" by (simp add: length_sq_encode width)
    ultimately show "row_score dec of_int v (concat (chunk_row (sv_element_size v) (nat (dk_dimension st)) (map fst q)
        (map (code_at (sv_element_size v) (encode_array (encode_value enc of_int round_half (Some query_sq)) (map snd q))) [0..<length q]))) d =
      Inr (?dot q d)"
      using code_row_score [OF wire assms(3) d, where dec = dec and of_i = of_int and ts = "map fst q" and bytes = "?codes q"] by (simp add: e es)
  qed (use assms c in \<open>simp_all add: e decode_scores_def\<close>)
  then show ?thesis by (simp add: e score es cuts Let_def)
qed

text \<open>The searches whose answers a mapped index repeats.\<close>

definition repeats_search :: "'w disk_index \<Rightarrow> idx_t \<Rightarrow> offset_t list \<Rightarrow> term_t list \<Rightarrow> 'w list \<Rightarrow> int \<Rightarrow> 'w search_params option \<Rightarrow> bool" where
  "repeats_search st n ip ix vs k p \<longleftrightarrow> (n \<noteq> 0 \<and> should_run_exact_match (params_selector p) k \<longrightarrow> batch_fits (dk_dimension st) n ip ix vs \<and>
     (\<forall>ids. Option.bind (params_selector p) enumerable = Some ids \<longrightarrow> (\<forall>d \<in> set ids. is_i32 d)))"

lemma dk_search_same:
  fixes vs :: "'w :: {zero, one, uminus, plus, minus, times, inverse, ord} list"
  assumes w: "dk_wire fin st v" and m: "maps_disk st v st'" and blocks: "0 < total_blocks (dk_lists st)"
    and enc: "\<And>x. length (enc x) = 4" and ok: "repeats_search st n ip ix vs k p"
  shows "dk_search enc dec conv of_i lround fin' thread st' n ip ix vs k p = dk_search enc dec conv of_i lround fin' thread st n ip ix vs k p"
proof -
  let ?ids = "case Option.bind (params_selector p) enumerable of None \<Rightarrow> [] | Some ids \<Rightarrow> ids"
  have v: "dk_vectors st = Some v" "0 < dk_num_vectors st" using w by (auto simp: dk_wire_def)
  obtain locators where s: "dk_vectors st' = None" "dk_num_vectors st' = dk_num_vectors st" "0 < num_blocks (dk_fwd st')"
    "dk_locators st' = Some locators"
    using m blocks by (auto simp: maps_disk_def same_source_def shows_source_def)
  show ?thesis
  proof (cases "n \<noteq> 0 \<and> should_run_exact_match (params_selector p) k")
    case True
    then have b: "batch_fits (dk_dimension st) n ip ix vs"
      and fit: "\<forall>ids. Option.bind (params_selector p) enumerable = Some ids \<longrightarrow> (\<forall>d \<in> set ids. is_i32 d)"
      using ok by (auto simp: repeats_search_def)
    have ids: "\<forall>d \<in> set ?ids. is_i32 d"
      using fit by (cases "Option.bind (params_selector p) enumerable") auto
    show ?thesis
      using True v s exact_match_mapped [OF w m enc b ids s(4)] by (simp add: dk_search_def Let_def)
  next
    case False
    then show ?thesis
      using v s block_budget_search_mapped [OF w m blocks] by (auto simp: dk_search_def Let_def)
  qed
qed

text \<open>
  C11: a disk index answers from its file as it did in memory. An index with vectors and at least one
  cluster, written by \<open>write_index\<close> and mapped again, gives the same results, bit for bit, to every
  search: from the blocks of the mapped forward index where the built one reads its vectors, and for
  an exact match of a batch in order through the locators, whether a document is in a block or was
  pruned from all of them.
\<close>

theorem disk_index_file_round_trip:
  assumes "dk_wire fin st v" and "0 < total_blocks (dk_lists st)"
    and "\<And>x. length (enc x) = 4" and "\<And>x. dec (enc x) = x" and "8 dvd base"
  shows "round_trips (mk_cursor base) (dk_write_index enc st)
    (dk_map_index dec fin (dk_new (dk_dimension st) params (map_option (\<lambda>_. sq_default) (dk_sq st))))
    (\<lambda>st'. \<forall>conv of_i lround fin thread n ip ix (vs :: 'w :: {zero, one, uminus, plus, minus, times, inverse, ord} list) k p.
      (n \<noteq> 0 \<and> should_run_exact_match (params_selector p) k \<longrightarrow> batch_fits (dk_dimension st) n ip ix vs \<and>
        (\<forall>ids. Option.bind (params_selector p) enumerable = Some ids \<longrightarrow> (\<forall>d \<in> set ids. is_i32 d))) \<longrightarrow>
      dk_search enc dec conv of_i lround fin thread st' n ip ix vs k p = dk_search enc dec conv of_i lround fin thread st n ip ix vs k p)"
  by (rule round_trips_mono [OF dk_map_round_trip [OF assms(1,3,4,5)]])
    (use dk_search_same [OF assms(1) _ assms(2,3)] in \<open>auto simp: repeats_search_def\<close>)

section \<open>An index of two documents\<close>

text \<open>A source whose only block fits a page.\<close>

lemma one_block_source_ok:
  assumes "sv_wire v" and "sv_element_size v \<in> {1, 2, 4}" and "block_addresses cls = [a]"
    and "get_docs (cls ! fst a) (snd a) = Inr ds" and "docs_fit v ds" and "length ds \<le> 2" and "nnz_of v ds \<le> 100"
    and "length cls \<le> 65536" and "\<forall>cl \<in> set cls. cl_n_clusters cl < 2 ^ 32"
  shows "source_ok v cls kDefaultPageSize"
proof -
  have at: "docs_at cls a = ds" using assms(4) by (cases a) (simp add: docs_at_def)
  have ok: "blocks_ok v cls" using assms(3-5) by (cases a) (auto simp: blocks_ok_def)
  have blocks: "total_blocks cls = 1" using assms(3) length_block_addresses [of cls] by simp
  have "length (block_bytes v ds) \<le> 4096"
    using length_block_bytes [OF assms(1,5)] assms(2,6,7) by (auto simp: inline_align_up_def)
  then have "inline_align_up (length (block_bytes v ds)) 4096 \<le> 8192"
    by (simp add: inline_align_up_def)
  moreover have "inline_align_up kHeaderSize 4096 = 4096" by (simp add: inline_align_up_def kHeaderSize_def)
  ultimately have "length (section_bytes v cls 4096) \<le> 4096 + 8192 + 48 + 24"
    by (subst length_section_bytes) (simp_all add: assms(3) padded_len_def at kEntrySize_def kTrailerSize_def blocks)
  moreover have "and (4096 :: nat) 4095 = 0" by simp
  ultimately show ?thesis using assms ok by (simp add: source_ok_def kDefaultPageSize_def)
qed

text \<open>Two documents of three entries, and a list of one cluster of both.\<close>

definition example_matrix :: "byte list \<Rightarrow> sparse_vectors" where
  "example_matrix codes = \<lparr>sv_indptr = buf_own [0, 2, 3], sv_indices = buf_own [0, 1, 1], sv_values = buf_own codes,
     sv_element_size = length codes div 3, sv_dimension = 2\<rparr>"

definition example_list :: "idx_t list \<Rightarrow> byte list \<Rightarrow> clusters" where
  "example_list ds code = \<lparr>cl_n_clusters = 1, cl_element_size = length code, cl_docs = buf_own ds, cl_offsets = buf_own [0, int (length ds)],
     cl_term_ids = buf_own [1], cl_term_ptr = buf_own [0, 1], cl_csc_cluster = buf_own [0], cl_csc_value = buf_own code\<rparr>"

definition example_disk :: "idx_t list \<Rightarrow> 'w cluster_params \<Rightarrow> 'w quantizer option \<Rightarrow> byte list \<Rightarrow> byte list \<Rightarrow> 'w disk_index" where
  "example_disk ds params sq codes code = (dk_new 2 params sq)\<lparr>dk_vectors := Some (example_matrix codes),
     dk_lists := [cl_default, example_list ds code], dk_num_vectors := 2\<rparr>"

lemma example_disk_simps [simp]:
  "dk_dimension (example_disk ds params sq codes code) = 2" "dk_sq (example_disk ds params sq codes code) = sq"
  "dk_lists (example_disk ds params sq codes code) = [cl_default, example_list ds code]"
  by (simp_all add: example_disk_def dk_new_def)

lemma example_docs: "get_docs (example_list ds code) 0 = Inr ds" "cl_n_clusters (example_list ds code) = 1"
  "list_docs (example_list ds code) = ds" "cl_element_size (example_list ds code) = length code"
  by (simp_all add: list_docs_def example_list_def get_docs_def doc_span_def buf_size_def take_elems_def)

lemma example_disk_wire:
  assumes "length codes = 3 * es" and "length code = es" and "es \<in> {1, 2, 4}" and "es = code_element_size sq"
    and "\<And>q. sq = Some q \<Longrightarrow> sq_new fin (sq_type q) (sq_vmin q) (sq_vmax q) = Inr q"
    and "ds = [0] \<or> ds = [0, 1]"
  shows "dk_wire fin (example_disk ds params sq codes code) (example_matrix codes)"
proof -
  have es: "sv_element_size (example_matrix codes) = es" using assms(1) by (simp add: example_matrix_def)
  have v: "sv_wire (example_matrix codes)"
    using assms(1,3) es by (auto simp: example_matrix_def sv_wire_def sv_content_wf_def csr_wf_def U8_def U16_def U32_def U64_def SIZE_MAX_def
        vector_max_size_def)
  have n: "num_vectors (example_matrix codes) = 2"
    by (simp add: example_matrix_def num_vectors_def buf_empty_def buf_size_def)
  have "doc_row (example_matrix codes) 0 = ([0, 1], take (2 * es) codes)"
    "doc_row (example_matrix codes) 1 = ([1], drop (2 * es) codes)"
    using assms(1) by (simp_all add: doc_row_def sv_rows_def csr_rows_def example_matrix_def slice_def)
  then have nnz: "nnz_of (example_matrix codes) ds \<le> 3" using assms(6) by (auto simp: nnz_of_def)
  then have fit: "docs_fit (example_matrix codes) ds"
    using assms(6) by (auto simp add: docs_fit_def valid_doc_def n is_i32_def INT32_MAX_def UINT32_MAX_def)
  have "source_ok (example_matrix codes) [cl_default, example_list ds code] kDefaultPageSize"
    by (rule one_block_source_ok [OF v _ _ _ fit, of _ "(1, 0)"])
      (use assms(3,6) es nnz in \<open>auto simp: block_addresses_def example_docs upt_rec cl_default_def\<close>)
  moreover have "cl_wire (example_list ds code)" "cl_wire cl_default"
    using assms(2,3,6) by (auto simp: cl_wire_def example_list_def cl_default_def U32_def SIZE_MAX_def vector_max_size_def is_i32_def)
  ultimately show ?thesis
    using n es assms(2,4,5)
    by (auto simp: dk_wire_def example_docs is_i32_def code_element_size_def)
      (simp_all add: example_disk_def dk_new_def if_default_def num_blocks_def cl_default_def)
qed

lemma example_blocks:
  fixes dec :: "byte list \<Rightarrow> 'w :: linordered_idom"
  assumes "kDefaultBlockBudget = kb" and "budget_answer dec conv [cl_default, example_list [0, 1] code] sel kb k ts bytes [1] doc_score r"
    and "sel = None"
  shows "best_of k [(doc_score 0, 0), (doc_score 1, 1)] r"
proof -
  have v: "visited_docs [cl_default, example_list [0, 1] code] [1] = [0, 1]"
    using example_docs(3) by (simp add: visited_docs_def)
  obtain cands :: "('w \<times> nat \<times> nat) list" where c: "map snd cands = concat (map (\<lambda>t. if t < length [cl_default, example_list [0, 1] code]
        then map (Pair t) [0..<cl_n_clusters ([cl_default, example_list [0, 1] code] ! t)] else []) [1])"
    "int (length cands) \<le> kb \<longrightarrow> best_of k (map (\<lambda>d. (doc_score d, d)) (filter (selected_by sel) (visited_docs [cl_default, example_list [0, 1] code] [1]))) r"
    using assms(2) unfolding budget_answer_def by blast
  have "length cands = 1" using arg_cong [OF c(1), of length] by (simp add: example_docs)
  then have "best_of k (map (\<lambda>d. (doc_score d, d)) (filter (selected_by sel) [0, 1])) r"
    using c(2) assms(1) by (simp add: v [simplified] kDefaultBlockBudget_def)
  then show ?thesis using assms(3) by (simp add: selected_by_def)
qed

lemma lower_bound_1: "lower_bound [Suc 0] (Suc 0) = 0"
  by (simp add: lower_bound_def lower_bound_from.simps)

theorem disk_search_exact_witness:
  "\<exists>enc :: rat \<Rightarrow> byte list. \<exists>dec results. let st = example_disk [0, 1] (kDefaultSeismicClusterParams 1) None
        [3, 0, 0, 0, 5, 0, 0, 0, 2, 0, 0, 0] [5, 0, 0, 0]
     in dk_search enc dec of_nat of_int round_half (\<lambda>_. True) (\<lambda>_. 0) st 1 [0, 1] [1] [4] 1 None = Inr results \<and>
        list_all2 (\<lambda>q r. best_of 1 [(20, 0), (8, 1)] r) [[(1 :: nat, 4 :: rat)]] results"
proof -
  let ?enc = "\<lambda>x :: rat. le_bytes 4 (nat \<lfloor>x\<rfloor>)" and ?dec = "\<lambda>bs. of_nat (le_nat bs) :: rat"
  let ?codes = "[3, 0, 0, 0, 5, 0, 0, 0, 2, 0, 0, 0] :: byte list" and ?code = "[5, 0, 0, 0] :: byte list"
  let ?docs = "[[(0, 3), (1, 5)], [(1, 2)]] :: rat doc list"
  obtain st where st: "st = example_disk [0, 1] (kDefaultSeismicClusterParams (1 :: rat)) None ?codes ?code" by blast
  have w: "dk_wire (\<lambda>_. True) st (example_matrix ?codes)"
    unfolding st by (rule example_disk_wire [where es = 4]) (simp_all add: code_element_size_def U32_def)
  have sq: "dk_sq st = None" and lists: "dk_lists st = [cl_default, example_list [0, 1] ?code]" and d: "dk_dimension st = 2"
    by (simp_all add: st)
  have rows: "sv_rows (example_matrix ?codes) = [([0, 1], [3, 0, 0, 0, 5, 0, 0, 0]), ([1], [2, 0, 0, 0])]"
    by (simp add: sv_rows_def csr_rows_def slice_def example_matrix_def)
  have typed: "typed_row ?dec ([0, 1], [3, 0, 0, 0, 5, 0, 0, 0]) = [(0, 3), (1, 5)]" "typed_row ?dec ([1], [2, 0, 0, 0]) = [(1, 2)]"
    by (simp_all add: typed_row_def decode_array_code_at code_at_def upt_rec)
  have "sv_content_wf (example_matrix ?codes)" "sv_growable (example_matrix ?codes)" "sv_element_size (example_matrix ?codes) = 4"
    by (simp_all add: example_matrix_def sv_content_wf_def csr_wf_def sv_growable_def)
  then have docs: "holds_docs ?dec ?docs (example_matrix ?codes)"
    by (simp only: holds_docs_def rows list.map typed)
  have dw: "docs_wf (nat (dk_dimension st)) ?docs" by (simp add: d docs_wf_def)
  have q: "batch_docs ([0, 1], [1], [4 :: rat]) = [[(1, 4)]]" by (simp add: batch_docs_def csr_rows_def slice_def)
  have b: "batch_fits (dk_dimension st) 1 [0, 1] [1] [4 :: rat]" "docs_wf (nat (dk_dimension st)) (batch_docs ([0, 1], [1], [4 :: rat]))"
    unfolding q by (simp_all add: d batch_fits_def csr_wf_def SIZE_MAX_def docs_wf_def)
  have len: "length (?enc x) = 4" for x by simp
  have codes: "codes_exactly ?enc ?dec [4]" "?dec (replicate 4 0) = 0"
    by (simp_all add: codes_exactly_def le_nat_le_bytes)
  have p: "resolve_cut_and_budget (None :: rat search_params option) = (10, kDefaultBlockBudget)"
    "\<not> should_run_exact_match (params_selector (None :: rat search_params option)) 1"
    by (simp_all add: resolve_cut_and_budget_def should_run_exact_match_def params_selector_def)
  have e: "(0 :: int) < 10" "0 < kDefaultBlockBudget" "is_i32 kDefaultBlockBudget" "(0 :: int) < 1"
    by (simp_all add: kDefaultBlockBudget_def is_i32_def)
  have "le_bytes 4 4 = [4, 0, 0, 0]" by code_simp
  then have bytes: "encode_array ?enc [4] = [4, 0, 0, 0]" by (simp add: encode_array_def)
  have "\<exists>scores. score_summaries_transposed ?dec of_nat (example_list [0, 1] ?code) [1] [4, 0, 0, 0] = Inr scores"
    by (simp add: score_summaries_transposed_def example_list_def score_summaries_typed_def score_term_def buf_empty_def buf_size_def
        lower_bound_1 value_at_def U32_def U16_def buf_get_def read_at_def store_def Let_def)
  moreover have "\<exists>scores. score_summaries_transposed ?dec of_nat cl_default [1] [4, 0, 0, 0] = Inr scores"
    by (simp add: score_summaries_transposed_def cl_default_def)
  ultimately have s: "\<exists>scores. score_summaries_transposed ?dec of_nat cl (map fst q) (encode_array ?enc (map snd q)) = Inr scores"
    if "q \<in> set (batch_docs ([0, 1], [1], [4 :: rat]))" "cl \<in> set (dk_lists st)" for q cl
    using that unfolding q lists by (auto simp: bytes)
  have "\<exists>results. dk_search ?enc ?dec of_nat of_int round_half (\<lambda>_. True) (\<lambda>_. 0) st 1 [0, 1] [1] [4] 1 None = Inr results \<and>
    list_all2 (\<lambda>q r. \<exists>cuts. top_k_tokens (map fst q) (map snd q) 10 = Inr cuts \<and>
      budget_answer ?dec of_nat (dk_lists st) (params_selector (None :: rat search_params option)) kDefaultBlockBudget 1
        (map fst q) (encode_array ?enc (map snd q)) cuts (\<lambda>d. dot q (?docs ! nat d)) r) (batch_docs ([0, 1], [1], [4 :: rat])) results"
    by (rule disk_search_exact [OF w sq docs dw b len codes p(1) e p(2)]) (rule s)
  then obtain results where r: "dk_search ?enc ?dec of_nat of_int round_half (\<lambda>_. True) (\<lambda>_. 0) st 1 [0, 1] [1] [4] 1 None = Inr results"
    "list_all2 (\<lambda>q r. \<exists>cuts. top_k_tokens (map fst q) (map snd q) 10 = Inr cuts \<and>
      budget_answer ?dec of_nat (dk_lists st) (params_selector (None :: rat search_params option)) kDefaultBlockBudget 1
        (map fst q) (encode_array ?enc (map snd q)) cuts (\<lambda>d. dot q (?docs ! nat d)) r) (batch_docs ([0, 1], [1], [4 :: rat])) results"
    by (elim exE conjE) (rule that)
  have cuts: "top_k_tokens [1] [4 :: rat] 10 = Inr [1]" by (simp add: top_k_tokens_def)
  have none: "params_selector (None :: rat search_params option) = None" by (simp add: params_selector_def)
  have best: "best_of 1 [(20, 0), (8, 1)] x"
    if "budget_answer ?dec of_nat [cl_default, example_list [0, 1] ?code] None kDefaultBlockBudget 1 [1] [4, 0, 0, 0] [1]
        (\<lambda>d. dot [(1, 4)] (?docs ! nat d)) x" for x
    using example_blocks [OF refl that refl] by (simp add: dot_def)
  have "list_all2 (\<lambda>q r. best_of 1 [(20, 0), (8, 1)] r) [[(1 :: nat, 4 :: rat)]] results"
    using r(2) best unfolding q lists none by (auto simp: list_all2_Cons1 bytes cuts [simplified])
  then show ?thesis using r(1) unfolding st by (simp only: Let_def) blast
qed

theorem disk_sq_search_exact_witness:
  "\<exists>enc :: rat \<Rightarrow> byte list. \<exists>results. let st = example_disk [0, 1] (kDefaultSeismicClusterParams 1)
        (Some \<lparr>sq_type = QT_8bit, sq_vmin = 0, sq_vmax = 255\<rparr>) [3, 5, 2] [5]
     in dk_search enc (\<lambda>_. 0) of_nat of_int round_half (\<lambda>_. True) (\<lambda>_. 0) st 1 [0, 1] [1] [4] 1 None = Inr results \<and>
        list_all2 (\<lambda>q r. best_of 1 [(20, 0), (8, 1)] r) [[(1 :: nat, 4 :: rat)]] results"
proof -
  let ?enc = "\<lambda>x :: rat. le_bytes 4 0" and ?dec = "\<lambda>bs :: byte list. 0 :: rat"
  let ?sq = "\<lparr>sq_type = QT_8bit, sq_vmin = 0, sq_vmax = 255 :: rat\<rparr>"
  let ?v = "example_matrix [3, 5, 2]" and ?cl = "example_list [0, 1] [5]"
  obtain st where st: "st = example_disk [0, 1] (kDefaultSeismicClusterParams (1 :: rat)) (Some ?sq) [3, 5, 2] [5]" by blast
  have es: "bytes_per_value ?sq = 1" by (simp add: bytes_per_value_def)
  have w: "dk_wire (\<lambda>_. True) st ?v"
    unfolding st by (rule example_disk_wire [where es = 1]) (simp_all add: code_element_size_def es sq_new_def)
  have sq: "dk_sq st = Some ?sq" and lists: "dk_lists st = [cl_default, ?cl]" and d: "dk_dimension st = 2"
    by (simp_all add: st)
  have row: "row_of int_code ?v 0 = [(0, 3), (1, 5)]" "row_of int_code ?v 1 = [(1, 2)]"
    by (simp_all add: example_matrix_def row_of_def code_at_def int_code_def upt_rec)
  have docs: "valid_doc ?v d \<longleftrightarrow> d = 0 \<or> d = 1" for d
    by (auto simp: example_matrix_def valid_doc_def num_vectors_def buf_empty_def buf_size_def)
  have codes: "holds_codes (bytes_per_value ?sq) (nat (dk_dimension st)) ?v"
    by (auto simp: holds_codes_def docs row [simplified] d es accumulates_def U8_def)
      (simp_all add: example_matrix_def sv_content_wf_def csr_wf_def num_vectors_def buf_empty_def buf_size_def)
  have q: "batch_docs ([0, 1], [1], [4 :: rat]) = [[(1, 4)]]" by (simp add: batch_docs_def csr_rows_def slice_def)
  have b: "batch_fits (dk_dimension st) 1 [0, 1] [1] [4 :: rat]" "docs_wf (nat (dk_dimension st)) (batch_docs ([0, 1], [1], [4 :: rat]))"
    unfolding q by (simp_all add: d batch_fits_def csr_wf_def SIZE_MAX_def docs_wf_def)
  have len: "length (?enc x) = 4" for x by simp
  have ok: "dk_query_quantizer (\<lambda>_. True) (Some ?sq) None = Inr (Some ?sq)" "sq_ok ?sq" "sq_ok ?sq"
    by (simp_all add: dk_query_quantizer_def)
  have p: "resolve_cut_and_budget (None :: rat search_params option) = (10, kDefaultBlockBudget)"
    "\<not> should_run_exact_match (params_selector (None :: rat search_params option)) 1"
    by (simp_all add: resolve_cut_and_budget_def should_run_exact_match_def params_selector_def)
  have e: "(0 :: int) < 10" "0 < kDefaultBlockBudget" "is_i32 kDefaultBlockBudget" "(0 :: int) < 1"
    by (simp_all add: kDefaultBlockBudget_def is_i32_def)
  have "\<lfloor>4 + 1 / 2 :: rat\<rfloor> = 4" by (rule floor_unique) simp_all
  then have "sq_code of_int round_half ?sq 4 = 4"
    by (simp add: sq_code_def encode_8bit_def clamp_code_def round_half_def kMax8bit_def Let_def)
  then have qcodes: "sq_encode of_int round_half ?sq [4] = [4]"
    by (simp add: sq_encode_def encode_array_def sq_code_bytes_def es)
  have "\<exists>scores. score_summaries_transposed ?dec of_nat ?cl [1] [4] = Inr scores"
    by (simp add: score_summaries_transposed_def example_list_def score_summaries_typed_def score_term_def buf_empty_def buf_size_def
        lower_bound_1 value_at_def U32_def U16_def buf_get_def read_at_def store_def Let_def)
  moreover have "\<exists>scores. score_summaries_transposed ?dec of_nat cl_default [1] [4] = Inr scores"
    by (simp add: score_summaries_transposed_def cl_default_def)
  ultimately have s: "\<exists>scores. score_summaries_transposed ?dec of_nat cl (map fst q) (sq_encode of_int round_half ?sq (map snd q)) = Inr scores"
    if "q \<in> set (batch_docs ([0, 1], [1], [4 :: rat]))" "cl \<in> set (dk_lists st)" for q cl
    using that unfolding q lists by (auto simp: qcodes)
  have "\<exists>results. dk_search ?enc ?dec of_nat of_int round_half (\<lambda>_. True) (\<lambda>_. 0) st 1 [0, 1] [1] [4] 1 None = Inr results \<and>
    list_all2 (\<lambda>q r. let codes = sq_encode of_int round_half ?sq (map snd q)
      in \<exists>cuts. code_cuts (bytes_per_value ?sq) (map fst q) codes 10 = Inr cuts \<and>
         budget_answer ?dec of_nat (dk_lists st) (params_selector (None :: rat search_params option)) kDefaultBlockBudget 1 (map fst q) codes cuts
           (sq_score ?sq ?sq ?v (map fst q) codes) r) (batch_docs ([0, 1], [1], [4 :: rat])) results"
    by (rule disk_sq_search_exact [OF w sq codes b len ok p(1) e p(2)]) (rule s)
  then obtain results where r: "dk_search ?enc ?dec of_nat of_int round_half (\<lambda>_. True) (\<lambda>_. 0) st 1 [0, 1] [1] [4] 1 None = Inr results"
    "list_all2 (\<lambda>q r. let codes = sq_encode of_int round_half ?sq (map snd q)
      in \<exists>cuts. code_cuts (bytes_per_value ?sq) (map fst q) codes 10 = Inr cuts \<and>
         budget_answer ?dec of_nat (dk_lists st) (params_selector (None :: rat search_params option)) kDefaultBlockBudget 1 (map fst q) codes cuts
           (sq_score ?sq ?sq ?v (map fst q) codes) r) (batch_docs ([0, 1], [1], [4 :: rat])) results"
    by (elim exE conjE) (rule that)
  have cuts: "code_cuts 1 [1] [4] 10 = Inr [1]" by (simp add: code_cuts_def top_k_tokens_def U16_def)
  have cq: "code_query 1 [1] [4] = [(1, 4)]" by (simp add: code_query_def code_at_def int_code_def)
  have sc: "sq_score ?sq ?sq ?v [1] [4] 0 = 20" "sq_score ?sq ?sq ?v [1] [4] 1 = 8"
    by (simp_all add: sq_score_def es cq [simplified] row [simplified] dot_def decode_dot_product_def kMax8bit_def Let_def)
  have none: "params_selector (None :: rat search_params option) = None" by (simp add: params_selector_def)
  have best: "best_of 1 [(20, 0), (8, 1)] x"
    if "budget_answer ?dec of_nat [cl_default, ?cl] None kDefaultBlockBudget 1 [1] [4] [1] (sq_score ?sq ?sq ?v [1] [4]) x" for x
    using example_blocks [OF refl that refl] by (simp add: sc [simplified])
  have "list_all2 (\<lambda>q r. best_of 1 [(20, 0), (8, 1)] r) [[(1 :: nat, 4 :: rat)]] results"
    using r(2) best unfolding q lists none by (auto simp: list_all2_Cons1 qcodes es cuts [simplified] Let_def)
  then show ?thesis using r(1) unfolding st by (simp only: Let_def) blast
qed

theorem disk_index_file_round_trip_witness:
  "let st = example_disk [0] (kDefaultSeismicClusterParams 1) (Some \<lparr>sq_type = QT_8bit, sq_vmin = 0, sq_vmax = 1\<rparr>) [3, 5, 2] [5]
   in round_trips (mk_cursor 4096) (dk_write_index f32_bytes st)
     (dk_map_index f32_of_bytes f32_finite (dk_new 2 (kDefaultSeismicClusterParams 1) (Some sq_default)))
     (\<lambda>st'. let answer = (\<lambda>st. dk_search f32_bytes f32_of_bytes (\<lambda>_. 0) (\<lambda>_. 0) (\<lambda>_. 0) f32_finite (\<lambda>_. 0) st 1 [0, 1] [1] [1] 2
          (Some (Disk_Seismic_Parameters 3 1 (Some (Array_Selector [1, 0]))))) in answer st' = answer st)"
proof -
  let ?sq = "\<lparr>sq_type = QT_8bit, sq_vmin = 0, sq_vmax = 1 :: f32\<rparr>"
  obtain st where st: "st = example_disk [0] (kDefaultSeismicClusterParams 1) (Some ?sq) [3, 5, 2] [5]" by blast
  have "f32_finite (0 :: f32)" "f32_finite (1 :: f32)" "\<not> (1 :: f32) \<le> 0" by code_simp+
  then have w: "dk_wire f32_finite st (example_matrix [3, 5, 2])"
    unfolding st by (intro example_disk_wire [where es = 1]) (auto simp: code_element_size_def bytes_per_value_def sq_new_def)
  have blocks: "0 < total_blocks (dk_lists st)"
    by (simp add: st total_blocks_def example_docs cl_default_def)
  have d: "(8 :: nat) dvd 4096" and sq: "dk_sq st = Some ?sq" "dk_dimension st = 2" by (simp_all add: st)
  have b: "batch_fits 2 1 [0, 1] [1] [1 :: f32]" by (simp add: batch_fits_def csr_wf_def SIZE_MAX_def)
  have "round_trips (mk_cursor 4096) (dk_write_index f32_bytes st)
     (dk_map_index f32_of_bytes f32_finite (dk_new 2 (kDefaultSeismicClusterParams 1) (Some sq_default)))
     (\<lambda>st'. let answer = (\<lambda>st. dk_search f32_bytes f32_of_bytes (\<lambda>_. 0) (\<lambda>_. 0) (\<lambda>_. 0) f32_finite (\<lambda>_. 0) st 1 [0, 1] [1] [1] 2
          (Some (Disk_Seismic_Parameters 3 1 (Some (Array_Selector [1, 0]))))) in answer st' = answer st)"
    by (rule round_trips_mono [OF disk_index_file_round_trip [OF w blocks length_f32_bytes f32_of_bytes_f32_bytes d, of "kDefaultSeismicClusterParams 1",
          unfolded sq option.map]])
      (use b in \<open>simp add: params_selector_def is_i32_def Let_def\<close>)
  then show ?thesis unfolding st Let_def .
qed

end
