(* ===== verification/Csr_File.thy ===== *)
theory Csr_File
  imports Disk_Index
begin

text \<open>
  Corpora read from files: \<^verbatim>\<open>Index::read_csr\<close> (\<^verbatim>\<open>index.cpp\<close>) copies an interchange file into the
  index, \<^verbatim>\<open>MmapIndex::read_mcsr\<close> (\<^verbatim>\<open>mmap_index.h\<close>) borrows a native one from its mapping, and
  \<^verbatim>\<open>csr_layout::convert\<close> rewrites the first as the second. A file is what is found at its path. The
  main theorems: an accepted file gives rows within the index, an interchange file is read as the
  batch it stores, and its conversion, mapped, gives the vectors that adding the batch gives.
\<close>

section \<open>Files\<close>

datatype found = Missing | Unreadable | Contents "byte list"

text \<open>\<^verbatim>\<open>std::ifstream::read\<close>, all or nothing.\<close>

definition read_or_throw :: "nat \<Rightarrow> reader \<Rightarrow> exn + byte list \<times> reader" where
  "read_or_throw bytes r =
     (if bytes > reader_remaining r then Inl (Runtime_error ''Truncated CSR file'')
      else Inr (take bytes (drop (rd_pos r) (rd_data r)), r\<lparr>rd_pos := rd_pos r + bytes\<rparr>))"

text \<open>\<^verbatim>\<open>std::vector<T> v(cnt)\<close>, then its elements.\<close>

definition read_vector :: "(byte list \<Rightarrow> 'a) \<Rightarrow> nat \<Rightarrow> size_t \<Rightarrow> reader \<Rightarrow> exn + 'a list \<times> reader" where
  "read_vector dec sizeof cnt r =
     bindE (throw_if (cnt > vector_max_size sizeof) (Length_error ''cannot create std::vector larger than max_size()'')) (\<lambda>_.
     bindE (read_or_throw (cnt * sizeof) r) (\<lambda>(bs, r). Inr (decode_array dec sizeof cnt bs, r)))"

definition out_write :: "(nat \<Rightarrow> bool) \<Rightarrow> byte list \<Rightarrow> byte list \<Rightarrow> exn + byte list" where
  "out_write room data out =
     (if room (length out + length data) then Inr (out @ data) else Inl (Runtime_error ''Failed writing CSR file''))"

section \<open>The two layouts\<close>

definition kHeaderBytes :: nat where "kHeaderBytes = 3 * 8"

definition padding4 :: "size_t \<Rightarrow> size_t" where "padding4 pos = (4 - pos mod 4) mod 4"

definition interchange_file_size :: "size_t \<Rightarrow> size_t \<Rightarrow> size_t" where
  "interchange_file_size indptr_size nnz = u64 (kHeaderBytes + indptr_size * 8 + nnz * 4 + nnz * 4)"

definition native_values_offset :: "size_t \<Rightarrow> size_t \<Rightarrow> size_t" where
  "native_values_offset indptr_size nnz =
     (let unaligned = u64 (kHeaderBytes + indptr_size * 8 + nnz * 2) in u64 (unaligned + padding4 unaligned))"

definition native_file_size :: "size_t \<Rightarrow> size_t \<Rightarrow> size_t \<Rightarrow> size_t" where
  "native_file_size indptr_size nnz element_size = u64 (native_values_offset indptr_size nnz + nnz * element_size)"

section \<open>Reading a copy\<close>

text \<open>
  Everything of \<^verbatim>\<open>Index::read_csr\<close> before the batch is added. The arrays of a file without entries
  are empty vectors, whose \<open>data()\<close> is null.
\<close>

definition read_csr_batch ::
  "(byte list \<Rightarrow> 'w) \<Rightarrow> int \<Rightarrow> found option \<Rightarrow> exn + idx_t \<times> offset_t list \<times> term_t list \<times> 'w list" where
  "read_csr_batch dec dimension file_path =
     bindE (throw_if_null file_path ''file_path must not be null'') (\<lambda>found. case found of
       Missing \<Rightarrow> Inl (Invalid_argument ''CSR file does not exist'')
     | Unreadable \<Rightarrow> Inl (Runtime_error ''Cannot open CSR file'')
     | Contents data \<Rightarrow>
         bindE (read_vector int_of_bytes 8 3 (reader_new data)) (\<lambda>(header, r).
         let num_rows = header ! 0; num_cols = header ! 1; nnz = header ! 2;
             indptr_size = nat num_rows + 1; nnz_size = nat nnz
         in if num_rows \<le> 0 \<or> num_cols \<le> 0 \<or> nnz < 0 then Inl (Invalid_argument ''Invalid CSR header'')
            else if num_rows > 2147483647 then Inl (Invalid_argument ''CSR row count exceeds 32-bit doc-id range'')
            else if num_cols > dimension then Inl (Invalid_argument ''CSR column count exceeds index dimension'')
            else if length data \<noteq> interchange_file_size indptr_size nnz_size
            then Inl (Invalid_argument ''CSR file is not in the interchange layout'')
            else bindE (read_vector int_of_bytes 8 indptr_size r) (\<lambda>(file_indptr, r).
              if hd file_indptr \<noteq> 0 \<or> last file_indptr \<noteq> nnz then Inl (Invalid_argument ''Inconsistent CSR indptr'')
              else bindE (read_vector int_of_bytes 4 nnz_size r) (\<lambda>(file_indices, r).
                if \<exists>t \<in> set file_indices. t < 0 \<or> t \<ge> num_cols \<or> t > 65535
                then Inl (Invalid_argument ''CSR term out of range'')
                else bindE (read_vector dec 4 nnz_size r) (\<lambda>(values, _).
                  Inr (num_rows, file_indptr, map nat file_indices, values))))))"

definition vector_data :: "'a list \<Rightarrow> 'a list option" where
  "vector_data xs = (if xs = [] then None else Some xs)"

definition index_read_csr ::
  "(idx_t \<Rightarrow> offset_t list option \<Rightarrow> term_t list option \<Rightarrow> 'w list option \<Rightarrow> exn + 's) \<Rightarrow>
     (byte list \<Rightarrow> 'w) \<Rightarrow> int \<Rightarrow> found option \<Rightarrow> exn + 's" where
  "index_read_csr add dec dimension file_path = bindE (read_csr_batch dec dimension file_path)
     (\<lambda>(n, indptr, indices, values). add n (vector_data indptr) (vector_data indices) (vector_data values))"

section \<open>Mapping\<close>

text \<open>\<^verbatim>\<open>read_scalar<int64_t>\<close>.\<close>

definition map_i64 :: "cursor \<Rightarrow> exn + int \<times> cursor" where
  "map_i64 c = bindE (cursor_ensure 8 c)
     (\<lambda>_. Inr (int_of_bytes (take 8 (drop (mc_pos c) (mc_data c))), c\<lparr>mc_pos := mc_pos c + 8\<rparr>))"

definition read_mcsr ::
  "size_t \<Rightarrow> int \<Rightarrow> nat \<Rightarrow> sparse_vectors option \<Rightarrow> found option \<Rightarrow> exn + sparse_vectors" where
  "read_mcsr element_size dimension base vectors file_path =
     bindE (throw_if_null file_path ''file_path must not be null'') (\<lambda>found.
     bindE (throw_if (vectors \<noteq> None) (Runtime_error ''mmap index already has vectors'')) (\<lambda>_. case found of
       Missing \<Rightarrow> Inl (Invalid_argument ''CSR file does not exist'')
     | Unreadable \<Rightarrow> Inl (Runtime_error ''mmap: failed to open'')
     | Contents data \<Rightarrow>
         bindE (map_i64 (mk_cursor base data 0)) (\<lambda>(num_rows, c).
         bindE (map_i64 c) (\<lambda>(num_cols, c).
         bindE (map_i64 c) (\<lambda>(nnz, c).
         let indptr_size = nat num_rows + 1; nnz_size = nat nnz; values_size = u64 (nnz_size * element_size)
         in if num_rows \<le> 0 \<or> num_cols \<le> 0 \<or> nnz < 0 then Inl (Invalid_argument ''Invalid CSR header'')
            else if num_rows > 2147483647 then Inl (Invalid_argument ''CSR row count exceeds 32-bit doc-id range'')
            else if num_cols > dimension then Inl (Invalid_argument ''CSR column count exceeds index dimension'')
            else if length data \<noteq> native_file_size indptr_size nnz_size element_size
            then Inl (Invalid_argument ''CSR file is not in the native layout (convert it with csr_layout::convert)'')
            else bindE (map_array int_of_bytes 8 8 indptr_size c) (\<lambda>(indptr, c).
                 bindE (map_array le_nat 2 2 nnz_size c) (\<lambda>(indices, c).
                 bindE (cursor_skip (u64 (native_values_offset indptr_size nnz_size + 18446744073709551616 - mc_pos c)) c) (\<lambda>c.
                 bindE (map_array u8_of_bytes 1 1 values_size c) (\<lambda>(values, _).
                 map_vectors element_size (size_of_int dimension) indptr indptr_size indices nnz_size values values_size
                   (case values of None \<Rightarrow> 0 | Some _ \<Rightarrow> base + mc_pos c))))))))))"

section \<open>Either residency\<close>

text \<open>The enumeration has two members; a cast can make another.\<close>

datatype residency = In_Memory | Mapped | Other_Residency

definition mmap_index_read_csr ::
  "(idx_t \<Rightarrow> offset_t list option \<Rightarrow> term_t list option \<Rightarrow> 'w list option \<Rightarrow> exn + 's) \<Rightarrow> (sparse_vectors \<Rightarrow> 's) \<Rightarrow>
     (byte list \<Rightarrow> 'w) \<Rightarrow> size_t \<Rightarrow> int \<Rightarrow> nat \<Rightarrow> sparse_vectors option \<Rightarrow> found option \<Rightarrow> residency \<Rightarrow> exn + 's" where
  "mmap_index_read_csr add set_vectors dec element_size dimension base vectors file_path res = (case res of
       In_Memory \<Rightarrow> index_read_csr add dec dimension file_path
     | Mapped \<Rightarrow> bindE (read_mcsr element_size dimension base vectors file_path) (\<lambda>v. Inr (set_vectors v))
     | Other_Residency \<Rightarrow> Inl (Invalid_argument ''invalid residency''))"

definition bi_read_csr ::
  "('w \<Rightarrow> byte list) \<Rightarrow> (byte list \<Rightarrow> 'w) \<Rightarrow> brutal_index \<Rightarrow> found option \<Rightarrow> residency \<Rightarrow> exn + brutal_index" where
  "bi_read_csr enc dec st file_path _ = index_read_csr (bi_add enc st) dec (bi_dimension st) file_path"

text \<open>Two kinds of index count their documents apart: the count follows what was read or mapped.\<close>

definition ii_read_csr ::
  "('w \<Rightarrow> byte list) \<Rightarrow> (byte list \<Rightarrow> 'w) \<Rightarrow> nat \<Rightarrow> 'w inverted_index \<Rightarrow> found option \<Rightarrow> residency \<Rightarrow> exn + 'w inverted_index" where
  "ii_read_csr enc dec base st file_path res =
     bindE (mmap_index_read_csr (ii_add enc st) (\<lambda>v. st\<lparr>ii_vectors := Some v\<rparr>) dec U32 (ii_dimension st)
              base (ii_vectors st) file_path res) (\<lambda>st.
     Inr (case ii_vectors st of None \<Rightarrow> st | Some v \<Rightarrow> st\<lparr>ii_num_vectors := num_vectors v\<rparr>))"

definition se_read_csr ::
  "('w \<Rightarrow> byte list) \<Rightarrow> (byte list \<Rightarrow> 'w) \<Rightarrow> nat \<Rightarrow> 'w seismic_index \<Rightarrow> found option \<Rightarrow> residency \<Rightarrow> exn + 'w seismic_index" where
  "se_read_csr enc dec base st = mmap_index_read_csr (se_add enc st) (\<lambda>v. st\<lparr>se_vectors := Some v\<rparr>) dec U32 (se_dimension st)
     base (se_vectors st)"

definition sx_read_csr ::
  "(int \<Rightarrow> 'w) \<Rightarrow> ('w \<Rightarrow> int) \<Rightarrow> (byte list \<Rightarrow> 'w) \<Rightarrow> nat \<Rightarrow> 'w :: {zero, minus, times, inverse, ord} seismic_sq_index \<Rightarrow>
     found option \<Rightarrow> residency \<Rightarrow> exn + 'w seismic_sq_index" where
  "sx_read_csr of_i lround dec base st = mmap_index_read_csr (sx_add of_i lround st) (\<lambda>v. st\<lparr>sx_vectors := Some v\<rparr>) dec
     (bytes_per_value (sx_sq st)) (sx_dimension st) base (sx_vectors st)"

definition dk_read_csr ::
  "('w \<Rightarrow> byte list) \<Rightarrow> (int \<Rightarrow> 'w) \<Rightarrow> ('w \<Rightarrow> int) \<Rightarrow> (byte list \<Rightarrow> 'w) \<Rightarrow> nat \<Rightarrow>
     'w :: {zero, minus, times, inverse, ord} disk_index \<Rightarrow> found option \<Rightarrow> residency \<Rightarrow> exn + 'w disk_index" where
  "dk_read_csr enc of_i lround dec base st file_path res =
     bindE (mmap_index_read_csr (dk_add enc of_i lround st) (\<lambda>v. st\<lparr>dk_vectors := Some v\<rparr>) dec
              (code_element_size (dk_sq st)) (dk_dimension st) base (dk_vectors st) file_path res) (\<lambda>st.
     Inr (case dk_vectors st of None \<Rightarrow> st | Some v \<Rightarrow> st\<lparr>dk_num_vectors := num_vectors v\<rparr>))"

section \<open>Conversion\<close>

definition kChunkElements :: nat where "kChunkElements = 65536"

definition narrow :: "nat \<Rightarrow> string \<Rightarrow> int list \<Rightarrow> exn + nat list" where
  "narrow limit what source =
     (if \<exists>x \<in> set source. x < 0 \<or> size_of_int x > limit
      then Inl (Invalid_argument (what @ '' does not fit the native CSR width''))
      else Inr (map nat source))"

text \<open>The two streamed loops: \<open>todo\<close> elements are left to copy.\<close>

function convert_terms ::
  "(nat \<Rightarrow> bool) \<Rightarrow> int \<Rightarrow> nat \<Rightarrow> reader \<Rightarrow> byte list \<Rightarrow> exn + byte list \<times> reader" where
  "convert_terms room num_cols todo r out =
     (if todo = 0 then Inr (out, r)
      else let cnt = min kChunkElements todo
           in bindE (read_vector int_of_bytes 4 cnt r) (\<lambda>(wide, r).
              if \<exists>t \<in> set wide. t \<ge> num_cols then Inl (Invalid_argument ''CSR term out of range'')
              else bindE (narrow 65535 ''term'' wide) (\<lambda>narrowed.
                   bindE (out_write room (encode_array term_bytes narrowed) out) (\<lambda>out.
                   convert_terms room num_cols (todo - cnt) r out))))"
  by pat_completeness auto
termination by (relation "measure (\<lambda>(_, _, todo, _, _). todo)") (auto simp: kChunkElements_def)

function convert_values :: "(nat \<Rightarrow> bool) \<Rightarrow> nat \<Rightarrow> reader \<Rightarrow> byte list \<Rightarrow> exn + byte list \<times> reader" where
  "convert_values room todo r out =
     (if todo = 0 then Inr (out, r)
      else let cnt = min kChunkElements todo
           in bindE (read_or_throw (cnt * 4) r) (\<lambda>(values, r).
              bindE (out_write room values out) (\<lambda>out. convert_values room (todo - cnt) r out)))"
  by pat_completeness auto
termination by (relation "measure (\<lambda>(_, todo, _, _). todo)") (auto simp: kChunkElements_def)

declare convert_terms.simps [simp del] convert_values.simps [simp del]

text \<open>The native file; what a failed conversion leaves of it is not modelled.\<close>

definition convert_csr :: "bool \<Rightarrow> (nat \<Rightarrow> bool) \<Rightarrow> found \<Rightarrow> exn + byte list" where
  "convert_csr can_open room interchange = (case interchange of
       Missing \<Rightarrow> Inl (Invalid_argument ''CSR file does not exist'')
     | Unreadable \<Rightarrow> Inl (Runtime_error ''Cannot open CSR file'')
     | Contents data \<Rightarrow>
         bindE (read_vector int_of_bytes 8 3 (reader_new data)) (\<lambda>(header, r).
         let num_rows = header ! 0; num_cols = header ! 1; nnz = header ! 2;
             indptr_size = nat num_rows + 1; nnz_size = nat nnz
         in if num_rows \<le> 0 \<or> num_cols \<le> 0 \<or> nnz < 0 then Inl (Invalid_argument ''Invalid CSR header'')
            else if length data \<noteq> interchange_file_size indptr_size nnz_size
            then Inl (Invalid_argument ''CSR file is not in the interchange layout'')
            else if \<not> can_open then Inl (Runtime_error ''Cannot open CSR file for writing'')
            else bindE (out_write room (encode_array offset_bytes header) []) (\<lambda>out.
                 bindE (read_vector int_of_bytes 8 indptr_size r) (\<lambda>(wide_indptr, r).
                 if hd wide_indptr \<noteq> 0 \<or> last wide_indptr \<noteq> nnz then Inl (Invalid_argument ''Inconsistent CSR indptr'')
                 else if \<exists>off \<in> set wide_indptr. off < 0 then Inl (Invalid_argument ''CSR indptr has a negative offset'')
                 else bindE (out_write room (encode_array offset_bytes wide_indptr) out) (\<lambda>out.
                      bindE (convert_terms room num_cols nnz_size r out) (\<lambda>(out, r).
                      let pad_bytes = padding4 (u64 (kHeaderBytes + indptr_size * 8 + nnz_size * 2))
                      in bindE (if pad_bytes > 0 then out_write room (replicate pad_bytes 0) out else Inr out) (\<lambda>out.
                         bindE (convert_values room nnz_size r out) (\<lambda>(out, _). Inr out))))))))"


section \<open>What the files hold\<close>

definition interchange_bytes :: "int \<Rightarrow> offset_t list \<Rightarrow> term_t list \<Rightarrow> byte list \<Rightarrow> byte list" where
  "interchange_bytes cols ip ix bytes =
     encode_array offset_bytes [int (length ip) - 1, cols, int (length ix)] @ encode_array offset_bytes ip @
     encode_array idx_bytes (map int ix) @ bytes"

definition native_bytes :: "int \<Rightarrow> offset_t list \<Rightarrow> term_t list \<Rightarrow> byte list \<Rightarrow> byte list" where
  "native_bytes cols ip ix bytes =
     encode_array offset_bytes [int (length ip) - 1, cols, int (length ix)] @ encode_array offset_bytes ip @
     encode_array term_bytes ix @ replicate (padding4 (24 + length ip * 8 + length ix * 2)) 0 @ bytes"

text \<open>
  What the interchange layout can hold and its reader accepts, what the native layout can, and a matrix
  both can, of an index of dimension \<open>d\<close>.
\<close>

definition csr_interchange :: "int \<Rightarrow> int \<Rightarrow> offset_t list \<Rightarrow> term_t list \<Rightarrow> byte list \<Rightarrow> bool" where
  "csr_interchange d cols ip ix bytes \<longleftrightarrow> ip \<noteq> [] \<and> hd ip = 0 \<and> last ip = int (length ix) \<and> length bytes = length ix * 4 \<and>
     (\<forall>p \<in> set ip. is_i64 p) \<and> 2 \<le> length ip \<and> length ip \<le> 2147483647 \<and> 0 < cols \<and> cols \<le> d \<and>
     is_i32 d \<and> (\<forall>t \<in> set ix. int t < cols \<and> t < 65536) \<and> length ix < 2 ^ 48"

definition csr_native :: "int \<Rightarrow> int \<Rightarrow> size_t \<Rightarrow> offset_t list \<Rightarrow> term_t list \<Rightarrow> byte list \<Rightarrow> bool" where
  "csr_native d cols es ip ix bytes \<longleftrightarrow> csr_wf es ip ix bytes \<and> 2 \<le> length ip \<and> length ip \<le> 2147483647 \<and> 0 < cols \<and> cols \<le> d \<and>
     is_i32 d \<and> (\<forall>t \<in> set ix. t < 65536) \<and> length ix < 2 ^ 48"

definition csr_fits :: "int \<Rightarrow> int \<Rightarrow> size_t \<Rightarrow> offset_t list \<Rightarrow> term_t list \<Rightarrow> byte list \<Rightarrow> bool" where
  "csr_fits d cols es ip ix bytes \<longleftrightarrow> csr_wf es ip ix bytes \<and> 2 \<le> length ip \<and> length ip \<le> 2147483647 \<and> 0 < cols \<and> cols \<le> d \<and>
     is_i32 d \<and> (\<forall>t \<in> set ix. int t < cols \<and> t < 65536) \<and> length ix < 2 ^ 48"

lemma csr_native_wf:
  assumes "csr_native d cols es ip ix bytes"
  shows "hd ip = 0" "last ip = int (length ix)" "length bytes = length ix * es" "ip \<noteq> []" "sorted ip" "\<forall>p \<in> set ip. 0 \<le> p \<and> is_i64 p"
    "is_i64 cols" "is_i64 (int (length ip) - 1)" "is_i64 (int (length ix))"
proof -
  show w: "hd ip = 0" "last ip = int (length ix)" "length bytes = length ix * es" "ip \<noteq> []" "sorted ip"
    using assms by (auto simp: csr_native_def csr_wf_def)
  have "hd ip \<le> p \<and> p \<le> last ip" if "p \<in> set ip" for p
  proof -
    obtain i where "i < length ip" "p = ip ! i" using \<open>p \<in> set ip\<close> by (metis in_set_conv_nth)
    then show ?thesis using w(4,5) by (auto simp: hd_conv_nth last_conv_nth intro!: sorted_nth_mono)
  qed
  then show "\<forall>p \<in> set ip. 0 \<le> p \<and> is_i64 p" using w(1,2) assms by (fastforce simp: csr_native_def is_i64_def)
qed (use assms in \<open>auto simp: csr_native_def is_i64_def is_i32_def\<close>)

lemma csr_fits_native: "csr_fits d cols es ip ix bytes \<Longrightarrow> csr_native d cols es ip ix bytes"
  by (simp add: csr_fits_def csr_native_def)

lemmas csr_fits_wf = csr_native_wf [OF csr_fits_native]

lemma csr_fits_interchange: "csr_fits d cols 4 ip ix bytes \<Longrightarrow> csr_interchange d cols ip ix bytes"
  using csr_fits_wf [of d cols 4 ip ix bytes] by (simp add: csr_fits_def csr_interchange_def)

lemma csr_interchange_wf:
  assumes "csr_interchange d cols ip ix bytes"
  shows "hd ip = 0" "last ip = int (length ix)" "length bytes = length ix * 4" "ip \<noteq> []" "\<forall>p \<in> set ip. is_i64 p"
    "is_i64 cols" "is_i64 (int (length ip) - 1)" "is_i64 (int (length ix))"
  using assms by (auto simp: csr_interchange_def is_i64_def is_i32_def)

section \<open>Reading what was written\<close>

context elem_codec
begin

lemma read_vector_encoded:
  assumes "\<forall>x \<in> set xs. valid x" and "length xs \<le> vector_max_size sizeof"
  shows "read_vector dec sizeof (length xs) \<lparr>rd_data = w @ encode_array enc xs @ rest, rd_pos = length w\<rparr> =
    Inr (xs, \<lparr>rd_data = w @ encode_array enc xs @ rest, rd_pos = length w + sizeof * length xs\<rparr>)"
  using assms(2) decode_encode [OF assms(1), of "[]"]
  by (simp add: read_vector_def read_or_throw_def reader_remaining_def length_encode mult.commute)

lemma map_array_encoded:
  assumes "\<forall>x \<in> set xs. valid x" and "xs \<noteq> []" and "(base + length w) mod al = 0"
  shows "map_array dec sizeof al (length xs) (mk_cursor base (w @ encode_array enc xs @ rest) (length w)) =
    Inr (Some xs, mk_cursor base (w @ encode_array enc xs @ rest) (length w + sizeof * length xs))"
proof -
  have "length xs \<le> (sizeof * length xs + length rest) div sizeof"
    using sizeof_pos by (simp add: less_eq_div_iff_mult_less_eq mult.commute)
  then show ?thesis
    using assms(2,3) decode_encode [OF assms(1), of "[]"]
    by (simp add: map_array_def cursor_read_array_def cursor_remaining_def mk_cursor_def length_encode mult.commute)
qed

end

lemma interchange_sections:
  assumes ok: "csr_interchange d cols ip ix bytes"
  defines "data \<equiv> interchange_bytes cols ip ix bytes"
  shows "length data = interchange_file_size (length ip) (length ix)"
    "read_vector int_of_bytes 8 3 (reader_new data) = Inr ([int (length ip) - 1, cols, int (length ix)], \<lparr>rd_data = data, rd_pos = 24\<rparr>)"
    "read_vector int_of_bytes 8 (length ip) \<lparr>rd_data = data, rd_pos = 24\<rparr> = Inr (ip, \<lparr>rd_data = data, rd_pos = 24 + 8 * length ip\<rparr>)"
    "read_vector int_of_bytes 4 (length ix) \<lparr>rd_data = data, rd_pos = 24 + 8 * length ip\<rparr> =
       Inr (map int ix, \<lparr>rd_data = data, rd_pos = 24 + 8 * length ip + 4 * length ix\<rparr>)"
proof -
  note w = csr_interchange_wf [OF ok]
  let ?h = "[int (length ip) - 1, cols, int (length ix)]"
  have n: "2 \<le> length ip" "length ip \<le> 2147483647" "0 < cols" "cols \<le> d" "length ix < 2 ^ 48" "\<forall>t \<in> set ix. int t < cols \<and> t < 65536"
    using ok by (simp_all add: csr_interchange_def)
  have lens: "length (encode_array offset_bytes ?h) = 24" "length (encode_array offset_bytes ip) = 8 * length ip"
    "length (encode_array idx_bytes (map int ix)) = 4 * length ix"
    by (simp_all add: offset_codec.length_encode idx_codec.length_encode)
  show "length data = interchange_file_size (length ip) (length ix)"
    using n w(3) lens by (simp add: data_def interchange_bytes_def interchange_file_size_def kHeaderBytes_def u64_def)
  have "read_vector int_of_bytes 8 (length ?h) \<lparr>rd_data = [] @ encode_array offset_bytes ?h @ (encode_array offset_bytes ip @
      encode_array idx_bytes (map int ix) @ bytes), rd_pos = length ([] :: byte list)\<rparr> = Inr (?h, \<lparr>rd_data = data, rd_pos = 24\<rparr>)"
    by (subst offset_codec.read_vector_encoded) (use w in \<open>simp_all add: vector_max_size_def data_def interchange_bytes_def\<close>)
  then show "read_vector int_of_bytes 8 3 (reader_new data) = Inr (?h, \<lparr>rd_data = data, rd_pos = 24\<rparr>)"
    by (simp add: reader_new_def data_def interchange_bytes_def eval_nat_numeral)
  have "read_vector int_of_bytes 8 (length ip) \<lparr>rd_data = encode_array offset_bytes ?h @ encode_array offset_bytes ip @
      (encode_array idx_bytes (map int ix) @ bytes), rd_pos = length (encode_array offset_bytes ?h)\<rparr> =
      Inr (ip, \<lparr>rd_data = data, rd_pos = 24 + 8 * length ip\<rparr>)"
    by (subst offset_codec.read_vector_encoded) (use w n lens in \<open>simp_all add: vector_max_size_def data_def interchange_bytes_def\<close>)
  then show "read_vector int_of_bytes 8 (length ip) \<lparr>rd_data = data, rd_pos = 24\<rparr> =
      Inr (ip, \<lparr>rd_data = data, rd_pos = 24 + 8 * length ip\<rparr>)"
    by (simp only: data_def interchange_bytes_def lens)
  have "read_vector int_of_bytes 4 (length (map int ix)) \<lparr>rd_data = (encode_array offset_bytes ?h @ encode_array offset_bytes ip) @
      encode_array idx_bytes (map int ix) @ bytes, rd_pos = length (encode_array offset_bytes ?h @ encode_array offset_bytes ip)\<rparr> =
      Inr (map int ix, \<lparr>rd_data = data, rd_pos = 24 + 8 * length ip + 4 * length ix\<rparr>)"
    by (subst idx_codec.read_vector_encoded)
      (use n lens in \<open>auto simp: vector_max_size_def data_def interchange_bytes_def is_i32_def\<close>)
  then show "read_vector int_of_bytes 4 (length ix) \<lparr>rd_data = data, rd_pos = 24 + 8 * length ip\<rparr> =
      Inr (map int ix, \<lparr>rd_data = data, rd_pos = 24 + 8 * length ip + 4 * length ix\<rparr>)"
    by (simp add: data_def interchange_bytes_def lens)
qed

lemma read_csr_batch_encoded:
  assumes ok: "csr_interchange d cols ip ix (encode_array enc vs)" and codes: "codes_exactly enc dec vs" and "length vs = length ix"
  shows "read_csr_batch dec d (Some (Contents (interchange_bytes cols ip ix (encode_array enc vs)))) =
    Inr (int (length ip) - 1, ip, ix, vs)"
proof -
  note w = csr_interchange_wf [OF ok] and r = interchange_sections [OF ok]
  have n: "2 \<le> length ip" "length ip \<le> 2147483647" "0 < cols" "cols \<le> d" "length ix < 2 ^ 48" "\<forall>t \<in> set ix. int t < cols \<and> t < 65536"
    using ok by (simp_all add: csr_interchange_def)
  let ?data = "interchange_bytes cols ip ix (encode_array enc vs)"
  have "read_vector dec 4 (length vs) \<lparr>rd_data = ?data, rd_pos = 24 + 8 * length ip + 4 * length ix\<rparr> =
      Inr (vs, \<lparr>rd_data = ?data, rd_pos = 24 + 8 * length ip + 8 * length ix\<rparr>)"
    using n(5) w(3) assms(3) decode_encode4 [OF codes]
    by (simp add: read_vector_def read_or_throw_def reader_remaining_def interchange_bytes_def vector_max_size_def
        offset_codec.length_encode idx_codec.length_encode)
  then have v: "read_vector dec 4 (length ix) \<lparr>rd_data = ?data, rd_pos = 24 + 8 * length ip + 4 * length ix\<rparr> =
      Inr (vs, \<lparr>rd_data = ?data, rd_pos = 24 + 8 * length ip + 8 * length ix\<rparr>)"
    by (simp only: assms(3))
  have "nat (int (length ip) - 1) + 1 = length ip" using n(1) by simp
  moreover have "\<not> (\<exists>t \<in> set (map int ix). t < 0 \<or> t \<ge> cols \<or> t > 65535)" using n(6) by fastforce
  ultimately show ?thesis
    using n w(1,2) by (simp add: read_csr_batch_def throw_if_null_def r v Let_def comp_def del: set_map)
qed

lemma map_i64_encoded:
  assumes "is_i64 x"
  shows "map_i64 (mk_cursor base (w @ offset_bytes x @ rest) (length w)) =
    Inr (x, mk_cursor base (w @ offset_bytes x @ rest) (length w + 8))"
  using offset_codec.dec_enc [OF assms] by (simp add: map_i64_def cursor_ensure_def throw_if_def mk_cursor_def)

lemma padding4_less: "padding4 n < 4" "(n + padding4 n) mod 4 = 0"
proof -
  show "padding4 n < 4" by (simp add: padding4_def)
  have "n mod 4 < 4" by simp
  then consider "n mod 4 = 0" | "n mod 4 = 1" | "n mod 4 = 2" | "n mod 4 = 3" by linarith
  then show "(n + padding4 n) mod 4 = 0" by cases (simp_all add: padding4_def, presburger+)
qed

lemma length_native_bytes:
  assumes "csr_native d cols es ip ix bytes" and "es \<in> {1, 2, 4}"
  shows "length (native_bytes cols ip ix bytes) = native_file_size (length ip) (length ix) es"
    "native_values_offset (length ip) (length ix) = 24 + length ip * 8 + length ix * 2 + padding4 (24 + length ip * 8 + length ix * 2)"
proof -
  have n: "length ip \<le> 2147483647" "length ix < 2 ^ 48" "length bytes = length ix * es"
    using assms(1) csr_native_wf(3) [OF assms(1)] by (simp_all add: csr_native_def)
  have "24 + length ip * 8 + length ix * 2 < 2 ^ 60" using n by simp
  then have small: "u64 (24 + length ip * 8 + length ix * 2) = 24 + length ip * 8 + length ix * 2" by (simp add: u64_def)
  moreover have "24 + length ip * 8 + length ix * 2 + padding4 (24 + length ip * 8 + length ix * 2) < 2 ^ 61"
    using n padding4_less(1) [of "24 + length ip * 8 + length ix * 2"] by simp
  ultimately show off: "native_values_offset (length ip) (length ix) =
      24 + length ip * 8 + length ix * 2 + padding4 (24 + length ip * 8 + length ix * 2)"
    by (simp add: native_values_offset_def kHeaderBytes_def Let_def u64_def)
  have "length ix * es \<le> length ix * 4" "length ix < 281474976710656" using assms(2) n(2) by auto
  then have "24 + length ip * 8 + length ix * 2 + padding4 (24 + length ip * 8 + length ix * 2) + length ix * es < 4611686018427387904"
    using n(1) padding4_less(1) [of "24 + length ip * 8 + length ix * 2"] by linarith
  then have "native_values_offset (length ip) (length ix) + length ix * es < 2 ^ 62" unfolding off by simp
  then show "length (native_bytes cols ip ix bytes) = native_file_size (length ip) (length ix) es"
    using n(3) unfolding native_file_size_def
    by (simp add: off u64_def native_bytes_def offset_codec.length_encode add.assoc add.commute add.left_commute mult.commute)
qed

lemma read_mcsr_native:
  assumes ok: "csr_native d cols es ip ix bytes" and es: "es \<in> {1, 2, 4}" and base: "8 dvd base"
  shows "\<exists>v. read_mcsr es d base None (Some (Contents (native_bytes cols ip ix bytes))) = Inr v \<and>
    buf_elems (sv_indptr v) = ip \<and> buf_elems (sv_indices v) = ix \<and> buf_elems (sv_values v) = bytes \<and>
    sv_element_size v = es \<and> sv_dimension v = nat d"
proof -
  note w = csr_native_wf [OF ok]
  let ?rows = "int (length ip) - 1" and ?nnz = "int (length ix)"
  let ?h = "encode_array offset_bytes [?rows, cols, ?nnz]" and ?e = "encode_array offset_bytes ip"
  let ?t = "encode_array term_bytes ix" and ?pos = "24 + length ip * 8 + length ix * 2"
  let ?pad = "replicate (padding4 ?pos) 0 :: byte list"
  let ?data = "native_bytes cols ip ix bytes" and ?off = "native_values_offset (length ip) (length ix)"
  have n: "2 \<le> length ip" "length ip \<le> 2147483647" "0 < cols" "cols \<le> d" "length ix < 2 ^ 48" "\<forall>t \<in> set ix. t < 65536"
      "is_i32 d" "csr_wf es ip ix bytes"
    using ok by (simp_all add: csr_native_def)
  have d: "0 < d" "is_i64 d" using n(3,4,7) by (auto simp: is_i32_def is_i64_def)
  have data: "?data = offset_bytes ?rows @ offset_bytes cols @ offset_bytes ?nnz @ ?e @ ?t @ ?pad @ bytes"
    by (simp add: native_bytes_def encode_array_def)
  have lens: "length ?e = 8 * length ip" "length ?t = 2 * length ix" by (simp_all add: offset_codec.length_encode)
  note off = length_native_bytes [OF ok es]
  have h: "map_i64 (mk_cursor base ?data 0) = Inr (?rows, mk_cursor base ?data 8)"
    "map_i64 (mk_cursor base ?data 8) = Inr (cols, mk_cursor base ?data 16)"
    "map_i64 (mk_cursor base ?data 16) = Inr (?nnz, mk_cursor base ?data 24)"
    unfolding data
    using map_i64_encoded [OF w(8), of base "[]"] map_i64_encoded [OF w(7), of base "offset_bytes ?rows"]
      map_i64_encoded [OF w(9), of base "offset_bytes ?rows @ offset_bytes cols"] by simp_all
  have base2: "(base + 24) mod 8 = 0" "(base + (24 + 8 * length ip)) mod 2 = 0"
    using base by presburger+
  have ip: "map_array int_of_bytes 8 8 (length ip) (mk_cursor base ?data 24) = Inr (Some ip, mk_cursor base ?data (24 + 8 * length ip))"
    using offset_codec.map_array_encoded [of ip base "offset_bytes ?rows @ offset_bytes cols @ offset_bytes ?nnz" 8 "?t @ ?pad @ bytes"]
      w(4,6) base2(1) by (simp add: data)
  have ix: "map_array le_nat 2 2 (length ix) (mk_cursor base ?data (24 + 8 * length ip)) =
      Inr (if ix = [] then None else Some ix, mk_cursor base ?data (24 + 8 * length ip + 2 * length ix))"
    using term_codec.map_array_encoded [of ix base "offset_bytes ?rows @ offset_bytes cols @ offset_bytes ?nnz @ ?e" 2 "?pad @ bytes"]
      n(6) base2(2) lens by (auto simp: data map_array_def cursor_read_array_def)
  have values_size: "u64 (length ix * es) = length bytes"
  proof -
    have "length ix * es < 2 ^ 64" using n(5) es by auto
    then show ?thesis using w(3) by (simp add: u64_def)
  qed
  have skip: "cursor_skip (u64 (?off + 18446744073709551616 - (24 + 8 * length ip + 2 * length ix)))
      (mk_cursor base ?data (24 + 8 * length ip + 2 * length ix)) = Inr (mk_cursor base ?data ?off)"
    using padding4_less(1) [of ?pos] lens
    by (simp add: off(2) u64_def cursor_skip_def cursor_ensure_def throw_if_def mk_cursor_def data mult.commute)
  let ?vs = "if bytes = [] then None else Some bytes"
  have vs: "\<exists>c. map_array u8_of_bytes 1 1 (length bytes) (mk_cursor base ?data ?off) = Inr (?vs, c)"
  proof (cases "bytes = []")
    case True
    then show ?thesis by (simp add: map_array_def cursor_read_array_def)
  next
    case False
    then show ?thesis
      using u8_codec.map_array_encoded [of bytes base "offset_bytes ?rows @ offset_bytes cols @ offset_bytes ?nnz @ ?e @ ?t @ ?pad" 1 "[]"] lens
      by (simp add: data off(2) mult.commute add.assoc)
  qed
  have aligned: "(base + ?off) mod es = 0"
  proof -
    have "?off mod 4 = 0" using padding4_less(2) [of ?pos] by (simp add: off(2))
    moreover have "base mod 4 = 0" using base by presburger
    ultimately have "(base + ?off) mod 4 = 0" by presburger
    then show ?thesis using es by auto
  qed
  have map: "map_vectors es (nat d) (Some ip) (length ip) (if ix = [] then None else Some ix) (length ix) ?vs (length bytes)
      (case ?vs of None \<Rightarrow> 0 | Some _ \<Rightarrow> base + ?off) =
    Inr (sv_default\<lparr>sv_element_size := es, sv_dimension := nat d, sv_indptr := buf_borrow (Some ip),
      sv_indices := buf_borrow (if ix = [] then None else Some ix), sv_values := buf_borrow ?vs\<rparr>)"
    by (rule map_vectors_accepts [OF n(8)])
      (use es d n(5) aligned in \<open>auto simp: U8_def U16_def U32_def U64_def SIZE_MAX_def\<close>)
  obtain c where c: "map_array u8_of_bytes 1 1 (length bytes) (mk_cursor base ?data ?off) = Inr (?vs, c)" using vs by blast
  have rows: "nat ?rows + 1 = length ip" "Suc (length ip - Suc 0) = length ip" "Suc (nat ?rows) = length ip" using n(1) by auto
  have sel: "mc_pos (mk_cursor base ?data p) = p" for p by (simp add: mk_cursor_def)
  obtain q e i x where qp: "q = 24 + 8 * length ip" "e = q + 2 * length ix" "i = (if ix = [] then None else Some ix)" "x = ?vs" by blast
  have "read_mcsr es d base None (Some (Contents ?data)) =
    Inr (sv_default\<lparr>sv_element_size := es, sv_dimension := nat d, sv_indptr := buf_borrow (Some ip),
      sv_indices := buf_borrow i, sv_values := buf_borrow x\<rparr>)"
    using n(1-4) d map [folded qp]
    by (simp add: read_mcsr_def throw_if_null_def throw_if_def h rows ip [folded qp] ix [folded qp] values_size off(1) c [folded qp, unfolded One_nat_def] Let_def sel
        skip [folded qp] cong: option.case_cong)
  then show ?thesis using qp(3,4) by simp
qed

section \<open>Conversion\<close>

lemma encode_array_append: "encode_array enc (xs @ ys) = encode_array enc xs @ encode_array enc ys"
  by (simp add: encode_array_def)

lemma convert_terms_encoded:
  assumes "\<And>n. room n" and "\<forall>t \<in> set ix. int t < cols \<and> t < 65536"
  shows "convert_terms room cols (length ix) \<lparr>rd_data = w @ encode_array idx_bytes (map int ix) @ rest, rd_pos = length w\<rparr> out =
    Inr (out @ encode_array term_bytes ix, \<lparr>rd_data = w @ encode_array idx_bytes (map int ix) @ rest, rd_pos = length w + 4 * length ix\<rparr>)"
  using assms(2)
proof (induction "length ix" arbitrary: ix w out rule: less_induct)
  case less
  show ?case
  proof (cases "ix = []")
    case True
    then show ?thesis by (simp add: convert_terms.simps encode_array_def)
  next
    case False
    obtain n where m: "n = min kChunkElements (length ix)" by blast
    define a b where "a = take n ix" and "b = drop n ix"
    have ix: "ix = a @ b" "length a = n" "length b = length ix - n" by (simp_all add: a_def b_def m)
    have n: "0 < n" "n \<le> vector_max_size 4" using False by (simp_all add: m kChunkElements_def vector_max_size_def)
    have a: "\<forall>t \<in> set a. int t < cols \<and> t < 65536" and b: "\<forall>t \<in> set b. int t < cols \<and> t < 65536"
      using less.prems ix(1) by auto
    let ?r = "\<lparr>rd_data = w @ encode_array idx_bytes (map int ix) @ rest, rd_pos = length w + 4 * n\<rparr>"
    have valid: "\<forall>x \<in> set (map int a). is_i32 x" using a by (auto simp: is_i32_def)
    have "read_vector int_of_bytes 4 (length (map int a)) \<lparr>rd_data = w @ encode_array idx_bytes (map int a) @
        (encode_array idx_bytes (map int b) @ rest), rd_pos = length w\<rparr> = Inr (map int a, ?r)"
      using idx_codec.read_vector_encoded [OF valid, of w "encode_array idx_bytes (map int b) @ rest"] n(2) ix(2)
      by (simp add: ix(1) encode_array_append)
    then have read: "read_vector int_of_bytes 4 n \<lparr>rd_data = w @ encode_array idx_bytes (map int ix) @ rest, rd_pos = length w\<rparr> =
        Inr (map int a, ?r)"
      using ix(2) by (simp add: ix(1) encode_array_append)
    have "\<not> (\<exists>x \<in> set (map int a). x < 0 \<or> size_of_int x > 65535)" using a by (auto simp: is_i64_def)
    then have narrow: "narrow 65535 ''term'' (map int a) = Inr a"
      by (simp add: narrow_def comp_def del: set_map)
    have "convert_terms room cols (length b) \<lparr>rd_data = (w @ encode_array idx_bytes (map int a)) @ encode_array idx_bytes (map int b) @ rest,
        rd_pos = length (w @ encode_array idx_bytes (map int a))\<rparr> (out @ encode_array term_bytes a) =
      Inr ((out @ encode_array term_bytes a) @ encode_array term_bytes b,
        \<lparr>rd_data = (w @ encode_array idx_bytes (map int a)) @ encode_array idx_bytes (map int b) @ rest,
         rd_pos = length (w @ encode_array idx_bytes (map int a)) + 4 * length b\<rparr>)"
      by (rule less.hyps) (use b n ix(3) False in auto)
    then have rest: "convert_terms room cols (length ix - n) ?r (out @ encode_array term_bytes a) =
      Inr (out @ encode_array term_bytes ix, \<lparr>rd_data = w @ encode_array idx_bytes (map int ix) @ rest, rd_pos = length w + 4 * length ix\<rparr>)"
      using ix(2) by (simp add: ix(3) [symmetric]) (simp add: ix(1) encode_array_append idx_codec.length_encode)
    have "\<not> (\<exists>t \<in> set (map int a). t \<ge> cols)" using a by auto
    then show ?thesis
      using False n(1) rest
      by (subst convert_terms.simps) (simp add: m [symmetric] read narrow out_write_def assms(1) Let_def del: set_map)
  qed
qed

lemma convert_values_copies:
  assumes "\<And>n. room n" and "length bytes = todo * 4"
  shows "convert_values room todo \<lparr>rd_data = w @ bytes @ rest, rd_pos = length w\<rparr> out =
    Inr (out @ bytes, \<lparr>rd_data = w @ bytes @ rest, rd_pos = length w + length bytes\<rparr>)"
  using assms(2)
proof (induction todo arbitrary: bytes w out rule: less_induct)
  case (less todo)
  show ?case
  proof (cases "todo = 0")
    case True
    then show ?thesis using less.prems by (simp add: convert_values.simps)
  next
    case False
    let ?n = "min kChunkElements todo"
    define a b where "a = take (?n * 4) bytes" and "b = drop (?n * 4) bytes"
    have ab: "bytes = a @ b" "length a = ?n * 4" "length b = (todo - ?n) * 4"
      using less.prems by (simp_all add: a_def b_def diff_mult_distrib)
    have n: "0 < ?n" using False by (simp add: kChunkElements_def)
    have "convert_values room (todo - ?n) \<lparr>rd_data = (w @ a) @ b @ rest, rd_pos = length (w @ a)\<rparr> (out @ a) =
        Inr ((out @ a) @ b, \<lparr>rd_data = (w @ a) @ b @ rest, rd_pos = length (w @ a) + length b\<rparr>)"
      by (rule less.IH) (use n ab(3) False in auto)
    then have rest: "convert_values room (todo - ?n) \<lparr>rd_data = w @ bytes @ rest, rd_pos = length w + ?n * 4\<rparr> (out @ a) =
        Inr (out @ bytes, \<lparr>rd_data = w @ bytes @ rest, rd_pos = length w + length bytes\<rparr>)"
      using ab by (simp add: add.assoc)
    have "read_or_throw (?n * 4) \<lparr>rd_data = w @ bytes @ rest, rd_pos = length w\<rparr> =
        Inr (a, \<lparr>rd_data = w @ bytes @ rest, rd_pos = length w + ?n * 4\<rparr>)"
      using ab by (simp add: read_or_throw_def reader_remaining_def)
    then show ?thesis
      using False rest by (subst convert_values.simps) (simp add: out_write_def assms(1) Let_def)
  qed
qed


lemma convert_csr_encoded:
  assumes ok: "csr_fits d cols 4 ip ix bytes" and room: "\<And>n. room n"
  shows "convert_csr True room (Contents (interchange_bytes cols ip ix bytes)) = Inr (native_bytes cols ip ix bytes)"
proof -
  note w = csr_fits_wf [OF ok] and r = interchange_sections [OF csr_fits_interchange [OF ok]]
  have n: "2 \<le> length ip" "0 < cols" "\<forall>t \<in> set ix. int t < cols \<and> t < 65536" using ok by (simp_all add: csr_fits_def)
  let ?h = "encode_array offset_bytes [int (length ip) - 1, cols, int (length ix)]" and ?e = "encode_array offset_bytes ip"
  let ?i = "encode_array idx_bytes (map int ix)" and ?data = "interchange_bytes cols ip ix bytes"
  have lens: "length ?h = 24" "length ?e = 8 * length ip" "length ?i = 4 * length ix"
    by (simp_all add: offset_codec.length_encode idx_codec.length_encode)
  have terms: "convert_terms room cols (length ix) \<lparr>rd_data = ?data, rd_pos = 24 + 8 * length ip\<rparr> out =
      Inr (out @ encode_array term_bytes ix, \<lparr>rd_data = ?data, rd_pos = 24 + 8 * length ip + 4 * length ix\<rparr>)" for out
    using convert_terms_encoded [where w = "?h @ ?e" and rest = bytes and room = room, OF room n(3)]
    by (simp add: interchange_bytes_def lens)
  have vals: "convert_values room (length ix) \<lparr>rd_data = ?data, rd_pos = 24 + 8 * length ip + 4 * length ix\<rparr> out =
      Inr (out @ bytes, \<lparr>rd_data = ?data, rd_pos = 24 + 8 * length ip + 8 * length ix\<rparr>)" for out
    using convert_values_copies [where w = "?h @ ?e @ ?i" and rest = "[]" and room = room, OF room w(3)] w(3)
    by (simp add: interchange_bytes_def lens add.assoc add.commute [of "8 * length ix"])
  have "length ip \<le> 2147483647" "length ix < 281474976710656" using ok by (simp_all add: csr_fits_def)
  then have pad: "u64 (kHeaderBytes + length ip * 8 + length ix * 2) = 24 + length ip * 8 + length ix * 2"
    by (simp add: u64_def kHeaderBytes_def)
  have "nat (int (length ip) - 1) + 1 = length ip" using n(1) by simp
  moreover have "\<not> (\<exists>p \<in> set ip. p < 0)" using w(6) by fastforce
  ultimately show ?thesis
    using n w(1,2) by (simp add: convert_csr_def r terms vals out_write_def room pad Let_def native_bytes_def)
qed


section \<open>What is accepted\<close>

lemma read_vector_length: "read_vector dec k n r = Inr (xs, r') \<Longrightarrow> length xs = n"
  by (auto simp: read_vector_def err_simps)

lemma guard_Inr: "(if c then Inl e else m) = Inr y \<longleftrightarrow> \<not> c \<and> m = Inr y"
  by simp

lemma read_csr_batch_accepted:
  assumes "read_csr_batch dec d path = Inr (n, ip, ix, vs)"
  shows "0 < n \<and> is_i32 n \<and> length ip = nat n + 1 \<and> hd ip = 0 \<and> last ip = int (length ix) \<and> length vs = length ix \<and>
    (\<forall>t \<in> set ix. int t < d \<and> t < 65536)"
proof -
  obtain data where path: "path = Some (Contents data)"
    using assms by (cases path; cases "the path") (simp_all add: read_csr_batch_def err_simps)
  from assms obtain cols nnz ts where c: "0 < n" "n \<le> 2147483647" "0 \<le> nnz" "cols \<le> d" "hd ip = 0" "last ip = nnz" "ix = map nat ts"
      "\<forall>t \<in> set ts. 0 \<le> t \<and> t < cols \<and> t \<le> 65535"
    and l: "length ip = nat n + 1" "length ts = nat nnz" "length vs = nat nnz"
    unfolding read_csr_batch_def path
    by (auto simp: err_simps Let_def guard_Inr not_less not_le throw_if_null_def dest!: read_vector_length simp del: if_split_asm)
  then show ?thesis by (auto simp: is_i32_def)
qed

lemma decode_array_pieces:
  "n * k \<le> length bs \<Longrightarrow> x \<in> set (decode_array dec k n bs) \<Longrightarrow> \<exists>c. length c = k \<and> x = dec c"
proof (induction n arbitrary: bs)
  case (Suc n)
  then have k: "length (take k bs) = k" "n * k \<le> length (drop k bs)" by simp_all
  from Suc.prems(2) consider "x = dec (take k bs)" | "x \<in> set (decode_array dec k n (drop k bs))" by auto
  then show ?case by cases (use k Suc.IH in blast)+
qed simp

lemma int_of_bytes_i64: "length bs = 8 \<Longrightarrow> is_i64 (int_of_bytes bs)"
  using le_nat_less [of bs] by (auto simp: int_of_bytes_def is_i64_def Let_def)

lemma map_array_Inr:
  assumes "map_array dec k al n c = Inr (p, c')" and "0 < k"
  shows "if n = 0 then p = None else \<exists>xs. p = Some xs \<and> length xs = n \<and> n * k \<le> length (mc_data c) \<and>
    (\<forall>x \<in> set xs. \<exists>b. length b = k \<and> x = dec b)"
proof (cases "n = 0")
  case False
  then obtain n: "n \<le> cursor_remaining c div k"
    and p: "p = Some (decode_array dec k n (take (n * k) (drop (mc_pos c) (mc_data c))))"
    using assms(1) by (auto simp: map_array_def cursor_read_array_def err_simps split: if_splits)
  have "n * k \<le> length (mc_data c) - mc_pos c"
    using n assms(2) by (simp add: cursor_remaining_def less_eq_div_iff_mult_less_eq)
  then show ?thesis using False p decode_array_pieces [of n k "take (n * k) (drop (mc_pos c) (mc_data c))" _ dec]
    by (auto simp: length_decode_array)
qed (use assms in \<open>auto simp: map_array_def cursor_read_array_def err_simps\<close>)

lemma map_vectors_empty:
  assumes "map_vectors es dimn (Some ip) (length ip) None 0 None 0 addr = Inr v" and "ip \<noteq> []" and "\<forall>p \<in> set ip. is_i64 p"
  shows "csr_wf es ip (buf_elems (sv_indices v)) (buf_elems (sv_values v)) \<and>
    buf_elems (sv_indptr v) = ip \<and> sv_element_size v = es \<and> sv_dimension v = dimn \<and> 0 < dimn"
proof -
  have c: "0 < dimn" "ip ! 0 = 0" "monotonic ip" "size_of_int (ip ! (length ip - 1)) = 0"
    and v: "v = sv_default\<lparr>sv_element_size := es, sv_dimension := dimn, sv_indptr := buf_borrow (Some ip),
      sv_indices := buf_borrow None, sv_values := buf_borrow None\<rparr>"
    using assms(1,2) by (auto simp: map_vectors_def err_simps Let_def)
  have srt: "sorted ip" using c(3) by (simp add: monotonic_sorted)
  have "ip ! 0 \<le> ip ! (length ip - 1)" using srt assms(2) by (intro sorted_nth_mono) auto
  then have "last ip = 0" using c(2,4) assms(2,3) by (auto simp: last_conv_nth)
  then show ?thesis using c srt assms(2) by (simp add: csr_wf_def v hd_conv_nth)
qed

lemma read_mcsr_accepted:
  assumes "read_mcsr es d base vectors path = Inr v" and "is_i64 d" and "es \<in> {1, 2, 4}"
    and "\<And>data. path = Some (Contents data) \<Longrightarrow> length data < 2 ^ 63"
  shows "vectors = None \<and> sv_content_wf v \<and> num_vectors v > 0 \<and> sv_element_size v = es \<and> int (sv_dimension v) = d"
proof -
  obtain data where path: "path = Some (Contents data)" "vectors = None"
    using assms(1) by (cases path; cases "the path") (simp_all add: read_mcsr_def err_simps)
  from assms(1) obtain rows cols nnz c1 c2 c3 c4 c5 c6 c7 indptr indices vals sk where
      scalars: "map_i64 (mk_cursor base data 0) = Inr (rows, c1)" "map_i64 c1 = Inr (cols, c2)" "map_i64 c2 = Inr (nnz, c3)"
    and hdr: "0 < rows" "0 < cols" "0 \<le> nnz" "cols \<le> d"
    and ip: "map_array int_of_bytes 8 8 (nat rows + 1) c3 = Inr (indptr, c4)"
    and ix: "map_array le_nat 2 2 (nat nnz) c4 = Inr (indices, c5)"
    and vs: "map_array u8_of_bytes 1 1 (u64 (nat nnz * es)) c6 = Inr (vals, c7)"
    and v: "map_vectors es (size_of_int d) indptr (nat rows + 1) indices (nat nnz) vals (u64 (nat nnz * es))
      (case vals of None \<Rightarrow> 0 | Some _ \<Rightarrow> base + mc_pos c6) = Inr v"
    and skip: "cursor_skip sk c5 = Inr c6"
    unfolding read_mcsr_def path
    by (auto simp: err_simps Let_def guard_Inr not_less not_le throw_if_null_def simp del: if_split_asm)
  have data: "mc_data c4 = data"
    using scalars ip by (auto simp: map_i64_def map_array_def cursor_read_array_def mk_cursor_def err_simps split: if_splits)
  obtain p where p: "indptr = Some p" "length p = nat rows + 1" "\<forall>x \<in> set p. is_i64 x"
    using map_array_Inr [OF ip] int_of_bytes_i64 by (simp, metis)
  have pne: "p \<noteq> []" "2 \<le> length p" using p(2) hdr(1) by auto
  have es: "0 < es" using assms(3) by auto
  have "csr_wf es p (buf_elems (sv_indices v)) (buf_elems (sv_values v)) \<and>
    buf_elems (sv_indptr v) = p \<and> sv_element_size v = es \<and> sv_dimension v = size_of_int d \<and> 0 < size_of_int d"
  proof (cases "nat nnz = 0")
    case True
    then have "indices = None" "vals = None" using map_array_Inr [OF ix] map_array_Inr [OF vs] by (simp_all add: u64_def)
    then show ?thesis using v True p by (intro map_vectors_empty [OF _ pne(1)]) (simp_all add: u64_def)
  next
    case False
    then have n: "nat nnz * 2 < 2 ^ 63" using map_array_Inr [OF ix] assms(4) [OF path(1)] data by auto
    have "nat nnz * es \<le> nat nnz * 4" using assms(3) by auto
    moreover have "nat nnz < 4611686018427387904" using n by simp
    ultimately have size: "nat nnz * es \<le> SIZE_MAX" unfolding SIZE_MAX_def by linarith
    show ?thesis
      by (rule map_vectors_wf [OF v [unfolded p(1) p(2) [symmetric]] pne(1)])
        (use map_array_Inr [OF ix] map_array_Inr [OF vs] False n size p(3) in \<open>auto split: if_splits\<close>)
  qed
  moreover have "int (size_of_int d) = d" using hdr assms(2) by simp
  moreover have "num_vectors v = length p - 1" if "buf_elems (sv_indptr v) = p"
    using that pne by (simp add: num_vectors_def buf_empty_def buf_size_def)
  ultimately show ?thesis using path(2) pne(2) by (auto simp: sv_content_wf_def)
qed

section \<open>The theorems\<close>

text \<open>
  C39: what the readers of a corpus guarantee, whatever is found at the path. A batch that
  \<^verbatim>\<open>Index::read_csr\<close> adds has a row for each offset but the last, begins at zero and ends at its entry
  count, and holds a value for each term and only terms below the dimension; but its offsets need not
  rise, and one whose offsets fall in between is accepted. Vectors that \<^verbatim>\<open>read_mcsr\<close> borrows are a
  well-formed matrix, with rising offsets, at the index's width; but its terms are not looked at, and
  one that is not below the dimension is accepted.
\<close>

theorem csr_reader_guarantees:
  assumes "is_i64 d" and "es \<in> {1, 2, 4}" and "\<And>data. path = Some (Contents data) \<Longrightarrow> length data < 2 ^ 63"
  shows "(case read_csr_batch dec d path of Inl _ \<Rightarrow> True
     | Inr (n, ip, ix, vs) \<Rightarrow> 0 < n \<and> is_i32 n \<and> length ip = nat n + 1 \<and> hd ip = 0 \<and> last ip = int (length ix) \<and>
         length vs = length ix \<and> (\<forall>t \<in> set ix. int t < d \<and> t < 65536)) \<and>
    (case read_mcsr es d base vectors path of Inl _ \<Rightarrow> True
     | Inr v \<Rightarrow> vectors = None \<and> sv_content_wf v \<and> num_vectors v > 0 \<and> sv_element_size v = es \<and> int (sv_dimension v) = d) \<and>
    (0 < d \<and> is_i32 d \<longrightarrow> (\<exists>data n ip ix vs. read_csr_batch dec d (Some (Contents data)) = Inr (n, ip, ix, vs) \<and> \<not> sorted ip)) \<and>
    (0 < d \<and> d < 65536 \<and> 8 dvd base \<longrightarrow> (\<exists>data v. read_mcsr es d base None (Some (Contents data)) = Inr v \<and>
       (\<exists>t \<in> set (buf_elems (sv_indices v)). int t \<ge> d)))"
proof (intro conjI impI)
  show "case read_csr_batch dec d path of Inl _ \<Rightarrow> True
     | Inr (n, ip, ix, vs) \<Rightarrow> 0 < n \<and> is_i32 n \<and> length ip = nat n + 1 \<and> hd ip = 0 \<and> last ip = int (length ix) \<and>
         length vs = length ix \<and> (\<forall>t \<in> set ix. int t < d \<and> t < 65536)"
    using read_csr_batch_accepted [of dec d path] by (auto split: sum.split)
  show "case read_mcsr es d base vectors path of Inl _ \<Rightarrow> True
     | Inr v \<Rightarrow> vectors = None \<and> sv_content_wf v \<and> num_vectors v > 0 \<and> sv_element_size v = es \<and> int (sv_dimension v) = d"
    using read_mcsr_accepted [OF _ assms, of base vectors] by (auto split: sum.split)
next
  assume "0 < d \<and> is_i32 d"
  then have "csr_interchange d 1 [0, 1, 0] [] (encode_array (\<lambda>_. [0, 0, 0, 0]) ([] :: 'w list))"
    by (simp add: csr_interchange_def is_i64_def encode_array_def)
  from read_csr_batch_encoded [OF this, of dec] have
    "read_csr_batch dec d (Some (Contents (interchange_bytes 1 [0, 1, 0] [] []))) = Inr (2, [0, 1, 0], [], [])"
    by (simp add: codes_exactly_def encode_array_def)
  then show "\<exists>data n ip ix vs. read_csr_batch dec d (Some (Contents data)) = Inr (n, ip, ix, vs) \<and> \<not> sorted ip" by fastforce
next
  assume h: "0 < d \<and> d < 65536 \<and> 8 dvd base"
  moreover from this have "nat d < 65536" by linarith
  ultimately have "csr_native d 1 es [0, 1] [nat d] (replicate es 0)"
    by (simp add: csr_native_def csr_wf_def is_i32_def)
  from read_mcsr_native [OF this assms(2)] h obtain v where
    "read_mcsr es d base None (Some (Contents (native_bytes 1 [0, 1] [nat d] (replicate es 0)))) = Inr v" "buf_elems (sv_indices v) = [nat d]"
    by auto
  moreover have "int (nat d) \<ge> d" by simp
  ultimately show "\<exists>data v. read_mcsr es d base None (Some (Contents data)) = Inr v \<and> (\<exists>t \<in> set (buf_elems (sv_indices v)). int t \<ge> d)"
    by fastforce
qed

theorem csr_reader_guarantees_witness:
  "(\<exists>v. read_mcsr 4 9 4096 None (Some (Contents (native_bytes 9 [0, 1] [4] [1, 2, 3, 4]))) = Inr v \<and> sv_content_wf v \<and> num_vectors v > 0) \<and>
   (\<exists>data n ip ix vs. read_csr_batch le_nat 9 (Some (Contents data)) = Inr (n, ip, ix, vs) \<and> \<not> sorted ip)"
proof -
  have ok: "csr_fits 9 9 4 [0, 1] [4] [1, 2, 3, 4]" by (simp add: csr_fits_def csr_wf_def is_i32_def)
  obtain v where v: "read_mcsr 4 9 4096 None (Some (Contents (native_bytes 9 [0, 1] [4] [1, 2, 3, 4]))) = Inr v"
    using read_mcsr_native [OF csr_fits_native [OF ok], of 4096] by auto
  have h: "is_i64 9" "(4 :: nat) \<in> {1, 2, 4}"
    "length data < 2 ^ 63" if "Some (Contents (native_bytes 9 [0, 1] [4] [1, 2, 3, 4])) = Some (Contents data)" for data
    using that by (auto simp: is_i64_def native_bytes_def offset_codec.length_encode padding4_def)
  show ?thesis
    using v csr_reader_guarantees [where d = 9 and es = 4 and path = "Some (Contents (native_bytes 9 [0, 1] [4] [1, 2, 3, 4]))"
        and dec = le_nat and base = 4096 and vectors = None, OF h]
    by (simp add: is_i32_def)
qed

text \<open>
  C38: a corpus read by copy is the corpus of its file. An interchange file of a matrix that fits the
  index is read as exactly its offsets, terms and values, so each index adds that batch; one byte
  less is refused, and so is a dimension below the file's columns.
\<close>

theorem read_csr_exact:
  assumes "csr_fits d cols 4 ip ix (encode_array enc vs)" and "codes_exactly enc dec vs" and "length vs = length ix"
  shows "index_read_csr add dec d (Some (Contents (interchange_bytes cols ip ix (encode_array enc vs)))) =
      add (int (length ip) - 1) (vector_data ip) (vector_data ix) (vector_data vs) \<and>
    (\<exists>e. index_read_csr add dec d (Some (Contents (butlast (interchange_bytes cols ip ix (encode_array enc vs))))) = Inl e) \<and>
    (\<exists>e. index_read_csr add dec (cols - 1) (Some (Contents (interchange_bytes cols ip ix (encode_array enc vs)))) = Inl e)"
proof (intro conjI)
  let ?data = "interchange_bytes cols ip ix (encode_array enc vs)"
  show "index_read_csr add dec d (Some (Contents ?data)) = add (int (length ip) - 1) (vector_data ip) (vector_data ix) (vector_data vs)"
    by (simp add: index_read_csr_def read_csr_batch_encoded [OF csr_fits_interchange [OF assms(1)] assms(2,3)])
  note r = interchange_sections [OF csr_fits_interchange [OF assms(1)]]
  have n: "2 \<le> length ip" "0 < cols" using assms(1) by (simp_all add: csr_fits_def)
  then have rows: "Suc (nat (int (length ip) - 1)) = length ip" "Suc (length ip - Suc 0) = length ip" by simp_all
  show "\<exists>e. index_read_csr add dec (cols - 1) (Some (Contents ?data)) = Inl e"
    using n assms(1) by (simp add: index_read_csr_def read_csr_batch_def throw_if_null_def r Let_def csr_fits_def)
  let ?h = "[int (length ip) - 1, cols, int (length ix)]"
  obtain bs where bs: "butlast ?data = encode_array offset_bytes ?h @ bs"
  proof -
    have "encode_array offset_bytes ip \<noteq> []" using n(1) by (metis offset_codec.length_encode length_0_conv mult_is_0 not_numeral_le_zero zero_neq_numeral)
    then show thesis by (intro that) (simp add: interchange_bytes_def butlast_append)
  qed
  have "read_vector int_of_bytes 8 (length ?h) \<lparr>rd_data = [] @ encode_array offset_bytes ?h @ bs, rd_pos = length ([] :: byte list)\<rparr> =
      Inr (?h, \<lparr>rd_data = [] @ encode_array offset_bytes ?h @ bs, rd_pos = length ([] :: byte list) + 8 * length ?h\<rparr>)"
    by (rule offset_codec.read_vector_encoded) (use csr_fits_wf [OF assms(1)] in \<open>auto simp: vector_max_size_def\<close>)
  then have h: "read_vector int_of_bytes 8 3 (reader_new (butlast ?data)) = Inr (?h, \<lparr>rd_data = butlast ?data, rd_pos = 24\<rparr>)"
    by (simp add: bs reader_new_def eval_nat_numeral)
  have "length (butlast ?data) \<noteq> interchange_file_size (length ip) (length ix)"
    using r(1) by (simp add: interchange_bytes_def offset_codec.length_encode)
  then show "\<exists>e. index_read_csr add dec d (Some (Contents (butlast ?data))) = Inl e"
    using n assms(1) by (simp add: index_read_csr_def read_csr_batch_def throw_if_null_def h rows Let_def csr_fits_def)
qed

text \<open>
  C12: the two residencies hold the same vectors. A Seismic index that reads an interchange file of a
  matrix with entries, and one that maps the file \<open>convert\<close> makes of it, get vectors with the same
  content: what the copy adds is what the conversion lays out in place.
\<close>

theorem mapped_csr_agrees:
  assumes "csr_fits (se_dimension st) cols 4 ip ix (encode_array enc vs)" and "codes_exactly enc dec vs" and "length vs = length ix"
    and "ix \<noteq> []" and "se_vectors st = None" and "8 dvd base" and "\<And>n. room n"
  shows "\<exists>native v v'. convert_csr True room (Contents (interchange_bytes cols ip ix (encode_array enc vs))) = Inr native \<and>
    se_read_csr enc dec base st (Some (Contents (interchange_bytes cols ip ix (encode_array enc vs)))) In_Memory =
      Inr (st\<lparr>se_vectors := Some v\<rparr>) \<and>
    se_read_csr enc dec base st (Some (Contents native)) Mapped = Inr (st\<lparr>se_vectors := Some v'\<rparr>) \<and> same_content v v'"
proof -
  let ?bytes = "encode_array enc vs" and ?d = "se_dimension st"
  have ok: "csr_wf 4 ip ix ?bytes" "2 \<le> length ip" "0 < ?d" "is_i32 ?d" "length ix < 2 ^ 48"
    using assms(1) by (auto simp: csr_fits_def)
  note w = csr_fits_wf [OF assms(1)]
  have "vs \<noteq> []" using assms(3,4) by auto
  then have data: "vector_data ip = Some ip" "vector_data ix = Some ix" "vector_data vs = Some vs"
    using assms(4) w(4) by (simp_all add: vector_data_def)
  obtain v' where v': "read_mcsr 4 ?d base None (Some (Contents (native_bytes cols ip ix ?bytes))) = Inr v'"
    "buf_elems (sv_indptr v') = ip" "buf_elems (sv_indices v') = ix" "buf_elems (sv_values v') = ?bytes"
    "sv_element_size v' = 4" "sv_dimension v' = nat ?d"
    using read_mcsr_native [OF csr_fits_native [OF assms(1)] _ assms(6)] by auto
  have take: "take_batch enc (int (length ip) - 1) ip ix vs = Inr (ip, ix, ?bytes)"
    using ok w assms(1,3) by (simp add: csr_fits_def take_batch_def take_elems_def i32_def is_i64_def)
  have "hd ip # map (\<lambda>p. p) (tl ip) = ip" using w(4) by simp
  then have ip: "0 # tl ip = ip" using w(1) by simp
  have new: "sv_new U32 (size_of_int ?d) = Inr (sv_default\<lparr>sv_element_size := 4, sv_dimension := nat ?d\<rparr>)"
    using ok(3,4) by (simp add: sv_new_def U8_def U16_def U32_def U64_def throw_if_not_positive_def is_i64_def is_i32_def throw_if_def)
  obtain v where v: "se_add enc st (int (length ip) - 1) (Some ip) (Some ix) (Some vs) = Inr (st\<lparr>se_vectors := Some v\<rparr>)"
    "buf_elems (sv_indptr v) = ip" "buf_elems (sv_indices v) = ix" "buf_elems (sv_values v) = ?bytes"
    "sv_element_size v = 4" "sv_dimension v = nat ?d"
    using ok w(3) assms(5) by (simp add: se_add_def vectors_add_def throw_if_null_def throw_if_not_positive_def take new add_vectors_def
        sv_default_def take_vector_def buf_default_def buf_owns_def Let_def ip u64_def)
  have "se_read_csr enc dec base st (Some (Contents (interchange_bytes cols ip ix ?bytes))) In_Memory = Inr (st\<lparr>se_vectors := Some v\<rparr>)"
    using v(1) by (simp add: se_read_csr_def mmap_index_read_csr_def index_read_csr_def read_csr_batch_encoded [OF csr_fits_interchange [OF assms(1)] assms(2,3)] data)
  moreover have "se_read_csr enc dec base st (Some (Contents (native_bytes cols ip ix ?bytes))) Mapped = Inr (st\<lparr>se_vectors := Some v'\<rparr>)"
    using v'(1) assms(5) by (simp add: se_read_csr_def mmap_index_read_csr_def U32_def)
  moreover have "same_content v v'" using v v' by (simp add: same_content_def)
  moreover have "convert_csr True room (Contents (interchange_bytes cols ip ix ?bytes)) = Inr (native_bytes cols ip ix ?bytes)"
    by (rule convert_csr_encoded [OF assms(1,7)])
  ultimately show ?thesis by blast
qed

theorem read_csr_exact_witness:
  "index_read_csr (bi_add f32_bytes (bi_new 9)) f32_of_bytes 9
      (Some (Contents (interchange_bytes 9 [0, 1] [4] (encode_array f32_bytes [1])))) =
    bi_add f32_bytes (bi_new 9) 1 (Some [0, 1]) (Some [4]) (Some [1])"
proof -
  have ok: "csr_fits 9 9 4 [0, 1] [4] (encode_array f32_bytes [1])"
    by (simp add: csr_fits_def csr_wf_def is_i32_def float_codec.length_encode)
  have codes: "codes_exactly f32_bytes f32_of_bytes [1 :: f32]" by (simp add: codes_exactly_def)
  show ?thesis using read_csr_exact [OF ok codes, of "bi_add f32_bytes (bi_new 9)"] by (simp add: vector_data_def)
qed

theorem mapped_csr_agrees_witness:
  "\<exists>native v v'. convert_csr True (\<lambda>_. True) (Contents (interchange_bytes 9 [0, 1] [4] (encode_array f32_bytes [1]))) = Inr native \<and>
    se_read_csr f32_bytes f32_of_bytes 4096 (se_new 9 (kDefaultSeismicClusterParams 1))
      (Some (Contents (interchange_bytes 9 [0, 1] [4] (encode_array f32_bytes [1])))) In_Memory =
      Inr ((se_new 9 (kDefaultSeismicClusterParams 1))\<lparr>se_vectors := Some v\<rparr>) \<and>
    se_read_csr f32_bytes f32_of_bytes 4096 (se_new 9 (kDefaultSeismicClusterParams 1)) (Some (Contents native)) Mapped =
      Inr ((se_new 9 (kDefaultSeismicClusterParams 1))\<lparr>se_vectors := Some v'\<rparr>) \<and> same_content v v'"
proof -
  let ?st = "se_new 9 (kDefaultSeismicClusterParams (1 :: f32))"
  have st: "se_dimension ?st = 9" "se_vectors ?st = None" by (simp_all add: se_new_def)
  have ok: "csr_fits (se_dimension ?st) 9 4 [0, 1] [4] (encode_array f32_bytes [1])"
    by (simp add: st csr_fits_def csr_wf_def is_i32_def float_codec.length_encode)
  have codes: "codes_exactly f32_bytes f32_of_bytes [1 :: f32]" by (simp add: codes_exactly_def)
  show ?thesis
    by (rule mapped_csr_agrees [OF ok codes _ _ st(2)]) simp_all
qed

end
