(* ===== verification/Id_Map_Index.thy ===== *)
theory Id_Map_Index
  imports Csr_File
begin

text \<open>
  The index types behind one interface, and \<^verbatim>\<open>IDMapIndex\<close> (\<^verbatim>\<open>id_map_index.cpp\<close>), which gives the
  documents of the index it wraps ids of the caller's. Virtual calls are a dispatch on the datatype of
  the index types. The main theorem: as long as every batch comes with ids, the map has an entry for
  each document, and the reverse map finds the last document of an id.
\<close>

section \<open>The index types\<close>

text \<open>What the indexes take as given: the bytes of a value, its arithmetic with integers, finiteness.\<close>

record 'w numerics =
  nm_enc :: "'w \<Rightarrow> byte list"
  nm_dec :: "byte list \<Rightarrow> 'w"
  nm_conv :: "nat \<Rightarrow> 'w"
  nm_of_int :: "int \<Rightarrow> 'w"
  nm_lround :: "'w \<Rightarrow> int"
  nm_finite :: "'w \<Rightarrow> bool"

text \<open>An id map may have no delegate: a default-constructed one is filled by \<open>read_index\<close>.\<close>

datatype 'w any_index =
    Brutal brutal_index
  | Inverted "'w inverted_index"
  | Seismic "'w seismic_index"
  | Seismic_SQ "'w seismic_sq_index"
  | Disk "'w disk_index"
  | Id_Map "'w any_index option" "idx_t list" "idx_t \<Rightarrow> idx_t option"

definition id_map_new :: "'w any_index option \<Rightarrow> 'w any_index" where
  "id_map_new delegate = Id_Map delegate [] (\<lambda>_. None)"

definition null_delegate :: exn where
  "null_delegate = Undefined_behaviour ''null pointer''"

fun index_num_vectors :: "'w any_index \<Rightarrow> size_t" where
  "index_num_vectors (Brutal st) = (case bi_vectors st of None \<Rightarrow> 0 | Some v \<Rightarrow> num_vectors v)"
| "index_num_vectors (Inverted st) = ii_num_vectors st"
| "index_num_vectors (Seismic st) = (case se_vectors st of None \<Rightarrow> 0 | Some v \<Rightarrow> num_vectors v)"
| "index_num_vectors (Seismic_SQ st) = (case sx_vectors st of None \<Rightarrow> 0 | Some v \<Rightarrow> num_vectors v)"
| "index_num_vectors (Disk st) = dk_num_vectors st"
| "index_num_vectors (Id_Map None _ _) = 0"
| "index_num_vectors (Id_Map (Some delegate) _ _) = index_num_vectors delegate"

fun index_add ::
  "'w numerics \<Rightarrow> 'w :: {zero, minus, times, inverse, ord} any_index \<Rightarrow> idx_t \<Rightarrow> offset_t list option \<Rightarrow> term_t list option \<Rightarrow>
     'w list option \<Rightarrow> exn + 'w any_index" where
  "index_add nm (Brutal st) n indptr indices values = bindE (bi_add (nm_enc nm) st n indptr indices values) (\<lambda>st. Inr (Brutal st))"
| "index_add nm (Inverted st) n indptr indices values = bindE (ii_add (nm_enc nm) st n indptr indices values) (\<lambda>st. Inr (Inverted st))"
| "index_add nm (Seismic st) n indptr indices values = bindE (se_add (nm_enc nm) st n indptr indices values) (\<lambda>st. Inr (Seismic st))"
| "index_add nm (Seismic_SQ st) n indptr indices values =
     bindE (sx_add (nm_of_int nm) (nm_lround nm) st n indptr indices values) (\<lambda>st. Inr (Seismic_SQ st))"
| "index_add nm (Disk st) n indptr indices values =
     bindE (dk_add (nm_enc nm) (nm_of_int nm) (nm_lround nm) st n indptr indices values) (\<lambda>st. Inr (Disk st))"
| "index_add nm (Id_Map None im em) n indptr indices values = Inl null_delegate"
| "index_add nm (Id_Map (Some delegate) im em) n indptr indices values =
     bindE (index_add nm delegate n indptr indices values) (\<lambda>delegate. Inr (Id_Map (Some delegate) im em))"

text \<open>A build of a Seismic index draws random numbers and may go through a file, as in its own theory.\<close>

fun index_build ::
  "'w numerics \<Rightarrow> (nat \<Rightarrow> nat \<Rightarrow> nat \<Rightarrow> nat) \<Rightarrow> nat \<Rightarrow> platform \<Rightarrow> nat \<Rightarrow>
     'w :: {zero, plus, minus, times, inverse, ord} any_index \<Rightarrow> files \<Rightarrow> (exn + unit) \<times> 'w any_index \<times> files" where
  "index_build nm draw entropy pf token (Brutal st) fs = (Inl (Runtime_error ''not implemented''), Brutal st, fs)"
| "index_build nm draw entropy pf token (Inverted st) fs = (case ii_build (nm_dec nm) (nm_conv nm) st of
       Inl e \<Rightarrow> (Inl e, Inverted st, fs)
     | Inr st \<Rightarrow> (Inr (), Inverted st, fs))"
| "index_build nm draw entropy pf token (Seismic st) fs =
     (case se_build (nm_dec nm) (nm_enc nm) (nm_conv nm) draw entropy pf token (st, fs) of (r, st, fs) \<Rightarrow> (r, Seismic st, fs))"
| "index_build nm draw entropy pf token (Seismic_SQ st) fs =
     (case sx_build (nm_dec nm) (nm_enc nm) (nm_conv nm) draw entropy pf token (st, fs) of (r, st, fs) \<Rightarrow> (r, Seismic_SQ st, fs))"
| "index_build nm draw entropy pf token (Disk st) fs =
     (case dk_build (nm_dec nm) (nm_enc nm) (nm_conv nm) draw entropy pf token (st, fs) of (r, st, fs) \<Rightarrow> (r, Disk st, fs))"
| "index_build nm draw entropy pf token (Id_Map None im em) fs = (Inl null_delegate, Id_Map None im em, fs)"
| "index_build nm draw entropy pf token (Id_Map (Some delegate) im em) fs =
     (case index_build nm draw entropy pf token delegate fs of (r, delegate, fs) \<Rightarrow> (r, Id_Map (Some delegate) im em, fs))"

text \<open>The base class reads a corpus into whatever \<open>add\<close> is overridden with.\<close>

fun index_read_csr_file ::
  "'w numerics \<Rightarrow> nat \<Rightarrow> 'w :: {zero, minus, times, inverse, ord} any_index \<Rightarrow> found option \<Rightarrow> residency \<Rightarrow> exn + 'w any_index" where
  "index_read_csr_file nm base (Brutal st) path res = bindE (bi_read_csr (nm_enc nm) (nm_dec nm) st path res) (\<lambda>st. Inr (Brutal st))"
| "index_read_csr_file nm base (Inverted st) path res =
     bindE (ii_read_csr (nm_enc nm) (nm_dec nm) base st path res) (\<lambda>st. Inr (Inverted st))"
| "index_read_csr_file nm base (Seismic st) path res =
     bindE (se_read_csr (nm_enc nm) (nm_dec nm) base st path res) (\<lambda>st. Inr (Seismic st))"
| "index_read_csr_file nm base (Seismic_SQ st) path res =
     bindE (sx_read_csr (nm_of_int nm) (nm_lround nm) (nm_dec nm) base st path res) (\<lambda>st. Inr (Seismic_SQ st))"
| "index_read_csr_file nm base (Disk st) path res =
     bindE (dk_read_csr (nm_enc nm) (nm_of_int nm) (nm_lround nm) (nm_dec nm) base st path res) (\<lambda>st. Inr (Disk st))"
| "index_read_csr_file nm base (Id_Map delegate im em) path res =
     index_read_csr (index_add nm (Id_Map delegate im em)) (nm_dec nm) 0 path"

section \<open>Ids of the caller's\<close>

text \<open>The documents of a batch take the map's next places; an id given twice is found last.\<close>

definition add_ids :: "size_t \<Rightarrow> idx_t list \<Rightarrow> idx_t list \<times> (idx_t \<Rightarrow> idx_t option) \<Rightarrow> idx_t list \<times> (idx_t \<Rightarrow> idx_t option)" where
  "add_ids old_size ids = (\<lambda>(im, em). foldl (\<lambda>(im, em) (i, e). (im[old_size + i := e], em(e \<mapsto> i32 (int (old_size + i)))))
     (take (old_size + length ids) im @ replicate (old_size + length ids - length im) 0, em) (zip [0..<length ids] ids))"

definition set_id_map :: "idx_t list \<Rightarrow> idx_t list \<times> (idx_t \<Rightarrow> idx_t option)" where
  "set_id_map im = (im, foldl (\<lambda>em (i, e). em(e \<mapsto> i32 (int i))) (\<lambda>_. None) (zip [0..<length im] im))"

text \<open>The ids are read after the delegate has added the batch; only an id map takes them.\<close>

fun index_add_with_ids ::
  "'w numerics \<Rightarrow> 'w :: {zero, minus, times, inverse, ord} any_index \<Rightarrow> idx_t \<Rightarrow> offset_t list option \<Rightarrow> term_t list option \<Rightarrow>
     'w list option \<Rightarrow> idx_t list option \<Rightarrow> exn + 'w any_index" where
  "index_add_with_ids nm (Id_Map None im em) n indptr indices values ids = Inl null_delegate"
| "index_add_with_ids nm (Id_Map (Some delegate) im em) n indptr indices values ids =
     (let old_size = index_num_vectors delegate
      in bindE (index_add nm delegate n indptr indices values) (\<lambda>delegate.
         case ids of None \<Rightarrow> Inl null_delegate
         | Some ids \<Rightarrow> bindE (take_elems (nat n) ids) (\<lambda>ids.
             case add_ids old_size ids (im, em) of (im, em) \<Rightarrow> Inr (Id_Map (Some delegate) im em))))"
| "index_add_with_ids nm idx n indptr indices values ids = Inl (Runtime_error ''add_with_ids not implemented in Index'')"

section \<open>Ids from a file\<close>

definition read_id_file :: "found option \<Rightarrow> exn + idx_t list" where
  "read_id_file id_path = bindE (throw_if_null id_path ''file path must not be null'') (\<lambda>found. case found of
       Missing \<Rightarrow> Inl (Invalid_argument ''id map file does not exist'')
     | Unreadable \<Rightarrow> Inl (Runtime_error ''cannot open id map file'')
     | Contents data \<Rightarrow>
         if length data < 8 then Inl (Runtime_error ''truncated id map file'')
         else let cnt = int_of_bytes (take 8 data); map_size = nat cnt
         in if cnt < 0 then Inl (Invalid_argument ''negative id map count'')
            else if map_size > (18446744073709551615 - 8) div 4 then Inl (Invalid_argument ''id map count is too large'')
            else if length data \<noteq> 8 + map_size * 4 then Inl (Invalid_argument ''id map file size does not match its count'')
            else if map_size > vector_max_size 4 then Inl (Length_error ''cannot create std::vector larger than max_size()'')
            else Inr (decode_array int_of_bytes 4 map_size (drop 8 data)))"

definition id_map_read_csr_and_ids ::
  "'w numerics \<Rightarrow> nat \<Rightarrow> 'w :: {zero, minus, times, inverse, ord} any_index option \<Rightarrow> found option \<Rightarrow> found option \<Rightarrow> residency \<Rightarrow>
     exn + 'w any_index" where
  "id_map_read_csr_and_ids nm base delegate csr_path id_path res = (case delegate of
       None \<Rightarrow> Inl (Logic_error ''IDMapIndex has no delegate index'')
     | Some delegate \<Rightarrow>
         bindE (throw_if_null csr_path ''file path must not be null'') (\<lambda>csr.
         bindE (throw_if (csr = Missing) (Invalid_argument ''csr file does not exist'')) (\<lambda>_.
         bindE (read_id_file id_path) (\<lambda>im.
         bindE (index_read_csr_file nm base delegate csr_path res) (\<lambda>delegate.
         if length im \<noteq> index_num_vectors delegate
         then Inl (Invalid_argument ''id map count does not match the CSR vector count'')
         else case set_id_map im of (im, em) \<Rightarrow> Inr (Id_Map (Some delegate) im em))))))"


section \<open>Searching\<close>

definition search_rows ::
  "'w numerics \<Rightarrow> (nat \<Rightarrow> nat) \<Rightarrow> (nat \<Rightarrow> 'w list) \<Rightarrow> 'w any_index \<Rightarrow> idx_t \<Rightarrow> offset_t list \<Rightarrow> term_t list \<Rightarrow> 'w list \<Rightarrow> int \<Rightarrow>
     'w search_params option \<Rightarrow> (exn + ('w :: {zero, one, uminus, plus, minus, times, inverse, ord} list \<times> idx_t list) list) option" where
  "search_rows nm thread bufs idx n indptr indices values k params = (case idx of
       Brutal st \<Rightarrow> Some (bi_search (nm_enc nm) (nm_dec nm) (nm_conv nm) st n indptr indices values k)
     | Inverted st \<Rightarrow> map_option (\<lambda>r. bindE r (\<lambda>(rows, _). Inr rows))
         (ii_search (nm_enc nm) (nm_dec nm) thread bufs st n indptr indices values k (map_option is_member (params_selector params)))
     | Seismic st \<Rightarrow> Some (se_search (nm_enc nm) (nm_dec nm) (nm_conv nm) (nm_of_int nm) thread st n indptr indices values k params)
     | Seismic_SQ st \<Rightarrow> Some (sx_search (nm_dec nm) (nm_conv nm) (nm_of_int nm) (nm_lround nm) (nm_finite nm) thread st n indptr indices values k params)
     | Disk st \<Rightarrow> Some (dk_search (nm_enc nm) (nm_dec nm) (nm_conv nm) (nm_of_int nm) (nm_lround nm) (nm_finite nm) thread st n indptr indices values k params)
     | Id_Map _ _ _ \<Rightarrow> Some (Inl (Runtime_error ''search not implementted in Index'')))"

text \<open>The arrays are looked at only once all of them are known to be there.\<close>

definition base_search ::
  "(offset_t list \<Rightarrow> term_t list \<Rightarrow> 'w list \<Rightarrow> (exn + ('w list \<times> idx_t list) list) option) \<Rightarrow> idx_t \<Rightarrow> offset_t list option \<Rightarrow>
     term_t list option \<Rightarrow> 'w list option \<Rightarrow> int \<Rightarrow> 'w list option \<Rightarrow> idx_t list option \<Rightarrow> (exn + 'w list \<times> idx_t list) option" where
  "base_search rows n indptr indices values k distances labels = (case (indptr, indices, values, distances, labels) of
       (Some ip, Some ix, Some vs, Some _, Some _) \<Rightarrow>
         if 0 < n \<and> 0 < k then map_option (\<lambda>r. index_search_into r n k indptr indices values distances labels) (rows ip ix vs)
         else Some (index_search_into (Inr []) n k indptr indices values distances labels)
     | _ \<Rightarrow> Some (index_search_into (Inr []) n k indptr indices values distances labels))"

text \<open>\<^verbatim>\<open>labels[i * k + j]\<close> is computed in \<^verbatim>\<open>int\<close>.\<close>

definition external_label :: "idx_t list \<Rightarrow> idx_t \<Rightarrow> exn + idx_t" where
  "external_label im result_id = (if result_id < 0 then Inr result_id else read_at im (nat result_id))"

definition external_labels :: "idx_t list \<Rightarrow> idx_t \<Rightarrow> int \<Rightarrow> idx_t list \<Rightarrow> exn + idx_t list" where
  "external_labels im n k labels =
     (let slots = nat n * nat k
      in if slots > 2147483648 then Inl (Undefined_behaviour ''signed overflow'')
         else bindE (take_elems slots labels) (\<lambda>ls. bindE (mapE (external_label im) ls) (\<lambda>ls. Inr (ls @ drop slots labels))))"

text \<open>
  The parameters keep the wrapped selector, which the call frees when it returns: the second result
  is what they hold. A selector is wrapped as one that lists its ids when it can list them.
\<close>

fun index_search ::
  "'w numerics \<Rightarrow> (nat \<Rightarrow> nat) \<Rightarrow> (nat \<Rightarrow> 'w list) \<Rightarrow> 'w any_index \<Rightarrow> idx_t \<Rightarrow> offset_t list option \<Rightarrow> term_t list option \<Rightarrow>
     'w list option \<Rightarrow> int \<Rightarrow> 'w list option \<Rightarrow> idx_t list option \<Rightarrow> 'w search_params option \<Rightarrow>
     (exn + 'w :: {zero, one, uminus, plus, minus, times, inverse, ord} list \<times> idx_t list) option \<times> 'w search_params option" where
  "index_search nm thread bufs (Id_Map delegate im em) n indptr indices values k distances labels params =
     (let params = (case params of None \<Rightarrow> None
        | Some p \<Rightarrow> Some (case get_id_selector p of None \<Rightarrow> p | Some s \<Rightarrow> put_id_selector (Some (Mapped_Selector s im em)) p))
      in case delegate of None \<Rightarrow> (Some (Inl null_delegate), params)
         | Some delegate \<Rightarrow>
             (case index_search nm thread bufs delegate n indptr indices values k distances labels params of
                (r, params) \<Rightarrow> (map_option (\<lambda>r. bindE r (\<lambda>(d, l). bindE (external_labels im n k l) (\<lambda>l. Inr (d, l)))) r, params)))"
| "index_search nm thread bufs idx n indptr indices values k distances labels params =
     (base_search (\<lambda>ip ix vs. search_rows nm thread bufs idx n ip ix vs k params) n indptr indices values k distances labels, params)"

section \<open>Counting documents\<close>

text \<open>What a batch adds to the count, in each index; \<open>sound_offsets\<close> excludes an array at a null pointer.\<close>

definition sound_offsets :: "sparse_vectors \<Rightarrow> bool" where
  "sound_offsets v \<longleftrightarrow> (\<not> buf_owns (sv_indptr v) \<and> buf_null (sv_indptr v) \<longrightarrow> buf_elems (sv_indptr v) = [])"

named_theorems count_simps

lemma sv_new_count [count_simps]: "sv_new es d = Inr v \<Longrightarrow> num_vectors v = 0 \<and> sound_offsets v"
  by (auto simp: sv_new_def err_simps num_vectors_def buf_empty_def buf_size_def sv_default_def buf_default_def sound_offsets_def)

lemma add_vectors_count:
  assumes "add_vectors v ip ix ws = Inr v'" and "2 \<le> length ip" and "sound_offsets v"
  shows "num_vectors v' = num_vectors v + (length ip - 1) \<and> sound_offsets v'"
proof -
  obtain taken where t: "fst taken = buf_elems (sv_indptr v)" and
    v': "sv_indptr v' = buf_own ((if fst taken = [] then [0] else fst taken) @ map (\<lambda>p. p + last (if fst taken = [] then [0] else fst taken)) (tl ip))"
    using assms by (fastforce simp: add_vectors_def err_simps take_vector_def sound_offsets_def Let_def owned_vector_def
      split: if_splits option.splits)
  show ?thesis
    using assms(2) t
    by (cases "buf_elems (sv_indptr v)") (auto simp: v' num_vectors_def sound_offsets_def buf_empty_def buf_size_def buf_own_def buf_owns_def)
qed

lemma take_batch_count:
  assumes "take_batch enc n ip ix vs = Inr (ip', ix', ws)" and "0 < n" and "n < 2147483647"
  shows "length ip' = nat n + 1"
proof -
  have "i32 (n + 1) = n + 1" using assms(2,3) by (simp add: i32_def)
  moreover have "size_of_int (n + 1) = nat (n + 1)" using assms(2,3) by (simp add: size_of_int_def)
  ultimately show ?thesis using assms by (auto simp: take_batch_def err_simps take_elems_def Let_def split: if_splits)
qed

lemma added_count:
  assumes "take_batch enc n ip ix vs = Inr (ip', ix', ws)" and "add_vectors v ip' ix' ws = Inr v'"
    and "0 < n" and "n < 2147483647" and "sound_offsets v"
  shows "num_vectors v' = num_vectors v + nat n \<and> sound_offsets v'"
  using add_vectors_count [OF assms(2) _ assms(5)] take_batch_count [OF assms(1,3,4)] assms(3) by simp


fun counted :: "'w any_index \<Rightarrow> bool" where
  "counted (Brutal st) \<longleftrightarrow> pred_option sound_offsets (bi_vectors st)"
| "counted (Inverted st) \<longleftrightarrow> pred_option (\<lambda>v. sound_offsets v \<and> ii_num_vectors st = num_vectors v) (ii_vectors st)"
| "counted (Seismic st) \<longleftrightarrow> pred_option sound_offsets (se_vectors st)"
| "counted (Seismic_SQ st) \<longleftrightarrow> pred_option sound_offsets (sx_vectors st)"
| "counted (Disk st) \<longleftrightarrow> pred_option (\<lambda>v. sound_offsets v \<and> dk_num_vectors st = num_vectors v) (dk_vectors st)"
| "counted (Id_Map delegate _ _) \<longleftrightarrow> pred_option counted delegate"

text \<open>Without vectors the index is empty: neither built nor mapped.\<close>

fun collecting :: "'w any_index \<Rightarrow> bool" where
  "collecting (Inverted st) \<longleftrightarrow> ii_vectors st = None \<longrightarrow> ii_num_vectors st = 0"
| "collecting (Disk st) \<longleftrightarrow> dk_vectors st = None \<longrightarrow> dk_num_vectors st = 0"
| "collecting (Id_Map delegate _ _) \<longleftrightarrow> pred_option collecting delegate"
| "collecting _ \<longleftrightarrow> True"

lemma vectors_add_count:
  assumes "vectors_add enc d vs n ip ix ws = Inr v" and "pred_option sound_offsets vs" and "n < 2147483647"
  shows "num_vectors v = (case vs of None \<Rightarrow> 0 | Some v \<Rightarrow> num_vectors v) + nat n \<and> sound_offsets v"
  using assms by (auto simp: vectors_add_def err_simps throw_if_not_positive_def throw_if_def
      dest!: added_count sv_new_count split: if_splits option.splits)

lemma small_sum: "a \<le> 2147483647 \<Longrightarrow> n < 2147483647 \<Longrightarrow> u64 (a + nat n) = a + nat n"
  by (simp add: u64_def nat_less_iff)

lemma index_add_count:
  "index_add nm idx n ip ix vs = Inr idx' \<Longrightarrow> counted idx \<Longrightarrow> collecting idx \<Longrightarrow> n < 2147483647 \<Longrightarrow>
     index_num_vectors idx \<le> 2147483647 \<Longrightarrow>
     index_num_vectors idx' = index_num_vectors idx + nat n \<and> counted idx' \<and> collecting idx'"
proof (induction nm idx n ip ix vs arbitrary: idx' rule: index_add.induct)
  case 1
  then show ?case by (auto simp: bi_add_def err_simps dest!: vectors_add_count)
next
  case (2 nm st)
  then show ?case
    by (cases "ii_vectors st") (auto simp: ii_add_def err_simps small_sum dest!: added_count sv_new_count)
next
  case 3
  then show ?case by (auto simp: se_add_def err_simps dest!: vectors_add_count)
next
  case (4 nm st)
  then show ?case
    by (cases "sx_vectors st") (auto simp: sx_add_def err_simps dest!: added_count sv_new_count)
next
  case (5 nm st)
  then show ?case
    by (cases "dk_vectors st") (auto simp: dk_add_def err_simps small_sum dest!: added_count sv_new_count)
next
  case 7
  then show ?case by (auto simp: err_simps)
qed simp

text \<open>A read corpus counts like an added batch; a mapped one is counted when it is mapped.\<close>

lemma max_rows_refused:
  "take_batch enc 2147483647 xs ix vs = Inr b \<Longrightarrow> vector_data ip = Some xs \<Longrightarrow> length ip = 2147483648 \<Longrightarrow> False"
  by (simp add: take_batch_def take_elems_def i32_def size_of_int_def vector_data_def split: if_splits)

lemma index_add_rows:
  "index_add nm idx n (vector_data ip) ix vs = Inr idx' \<Longrightarrow> length ip = nat n + 1 \<Longrightarrow> n \<le> 2147483647 \<Longrightarrow> n \<noteq> 2147483647"
proof (induction nm idx n "vector_data ip" ix vs arbitrary: idx' rule: index_add.induct)
  case 1
  then show ?case by (auto simp: bi_add_def vectors_add_def err_simps dest: max_rows_refused)
next
  case 2
  then show ?case by (auto simp: ii_add_def err_simps dest: max_rows_refused)
next
  case 3
  then show ?case by (auto simp: se_add_def vectors_add_def err_simps dest: max_rows_refused)
next
  case 4
  then show ?case by (auto simp: sx_add_def err_simps dest: max_rows_refused)
next
  case 5
  then show ?case by (auto simp: dk_add_def err_simps dest: max_rows_refused)
next
  case 7
  then show ?case by (auto simp: err_simps)
qed simp

lemma read_rows_count:
  assumes "index_read_csr (index_add nm idx) dec d path = Inr idx'" and "counted idx" and "collecting idx"
    and "index_num_vectors idx \<le> 2147483647"
  shows "counted idx' \<and> collecting idx'"
proof -
  obtain n ip ix vs where b: "read_csr_batch dec d path = Inr (n, ip, ix, vs)"
    and a: "index_add nm idx n (vector_data ip) (vector_data ix) (vector_data vs) = Inr idx'"
    using assms(1) by (auto simp: index_read_csr_def err_simps)
  have "length ip = nat n + 1" "n \<le> 2147483647" using read_csr_batch_accepted [OF b] by (simp_all add: is_i32_def)
  with index_add_rows [OF a] have "n < 2147483647" by simp
  with index_add_count [OF a assms(2,3) _ assms(4)] show ?thesis by simp
qed

lemma index_read_csr_wrap:
  "bindE (index_read_csr add dec d path) (\<lambda>st. Inr (C st)) =
     index_read_csr (\<lambda>n ip ix vs. bindE (add n ip ix vs) (\<lambda>st. Inr (C st))) dec d path"
  by (cases "read_csr_batch dec d path") (auto simp: index_read_csr_def)

lemma mapped_sound: "read_mcsr es d base vectors path = Inr v \<Longrightarrow> vectors = None \<and> sound_offsets v"
proof -
  assume a: "read_mcsr es d base vectors path = Inr v"
  have "sound_offsets v" if "map_vectors es dimn ip a ix b vs c addr = Inr v" for es dimn ip a ix b vs c addr
    using that by (auto simp: map_vectors_def err_simps Let_def sound_offsets_def sv_default_def buf_default_def buf_borrow_def split: if_splits)
  moreover obtain data where "path = Some (Contents data)"
    using a by (cases path; cases "the path") (simp_all add: read_mcsr_def err_simps)
  ultimately show ?thesis using a
    by (auto simp: read_mcsr_def err_simps Let_def guard_Inr simp del: if_split_asm)
qed

text \<open>What either residency leaves in an index of one of the types that can map.\<close>

lemma read_or_mapped_count:
  assumes "mmap_index_read_csr add set_vectors dec es d base vectors path res = Inr st"
    and "\<And>n ip ix vs. index_add nm idx n ip ix vs = bindE (add n ip ix vs) (\<lambda>st. Inr (C st))"
    and "counted idx" and "collecting idx" and "index_num_vectors idx \<le> 2147483647"
  shows "counted (C st) \<and> collecting (C st) \<or> (\<exists>v. st = set_vectors v \<and> sound_offsets v)"
proof (cases res)
  case In_Memory
  have "index_add nm idx = (\<lambda>n ip ix vs. bindE (add n ip ix vs) (\<lambda>st. Inr (C st)))"
    by (intro ext) (rule assms(2))
  then have "index_read_csr (index_add nm idx) dec d path = Inr (C st)"
    using assms(1) In_Memory index_read_csr_wrap [of add dec d path C] by (simp add: mmap_index_read_csr_def)
  from read_rows_count [OF this assms(3-5)] show ?thesis ..
qed (use assms(1) mapped_sound in \<open>auto simp: mmap_index_read_csr_def err_simps\<close>)

lemma index_read_csr_file_count:
  assumes "index_read_csr_file nm base idx path res = Inr idx'" and c: "counted idx" "collecting idx"
    "index_num_vectors idx \<le> 2147483647"
  shows "counted idx' \<and> collecting idx'"
proof (cases idx)
  case (Brutal st)
  obtain st1 where r: "index_read_csr (bi_add (nm_enc nm) st) (nm_dec nm) (bi_dimension st) path = Inr st1"
    and idx': "idx' = Brutal st1"
    using assms(1) unfolding Brutal by (auto simp: bi_read_csr_def err_simps)
  have f: "index_add nm idx = (\<lambda>n ip ix vs. bindE (bi_add (nm_enc nm) st n ip ix vs) (\<lambda>st. Inr (Brutal st)))"
    unfolding Brutal by (intro ext) simp
  show ?thesis
    using read_rows_count [OF _ c, of nm "nm_dec nm" "bi_dimension st" path idx']
      index_read_csr_wrap [of "bi_add (nm_enc nm) st" "nm_dec nm" "bi_dimension st" path Brutal, symmetric] r
    unfolding f idx' by simp
next
  case (Inverted st)
  obtain st1 where r: "mmap_index_read_csr (ii_add (nm_enc nm) st) (\<lambda>v. st\<lparr>ii_vectors := Some v\<rparr>) (nm_dec nm) U32 (ii_dimension st)
      base (ii_vectors st) path res = Inr st1" and
    idx': "idx' = Inverted (case ii_vectors st1 of None \<Rightarrow> st1 | Some v \<Rightarrow> st1\<lparr>ii_num_vectors := num_vectors v\<rparr>)"
    using assms(1) unfolding Inverted by (auto simp: ii_read_csr_def err_simps)
  have "counted (Inverted st1) \<and> collecting (Inverted st1) \<or> (\<exists>v. st1 = st\<lparr>ii_vectors := Some v\<rparr> \<and> sound_offsets v)"
    by (rule read_or_mapped_count [OF r _ c, of nm]) (simp add: Inverted)
  then show ?thesis by (auto simp: idx' split: option.splits)
next
  case (Seismic st)
  obtain st1 where r: "mmap_index_read_csr (se_add (nm_enc nm) st) (\<lambda>v. st\<lparr>se_vectors := Some v\<rparr>) (nm_dec nm) U32 (se_dimension st)
      base (se_vectors st) path res = Inr st1" and idx': "idx' = Seismic st1"
    using assms(1) unfolding Seismic by (auto simp: se_read_csr_def err_simps)
  show ?thesis using read_or_mapped_count [OF r _ c, of nm Seismic] unfolding idx' Seismic by fastforce
next
  case (Seismic_SQ st)
  obtain st1 where r: "mmap_index_read_csr (sx_add (nm_of_int nm) (nm_lround nm) st) (\<lambda>v. st\<lparr>sx_vectors := Some v\<rparr>) (nm_dec nm)
      (bytes_per_value (sx_sq st)) (sx_dimension st) base (sx_vectors st) path res = Inr st1" and idx': "idx' = Seismic_SQ st1"
    using assms(1) unfolding Seismic_SQ by (auto simp: sx_read_csr_def err_simps)
  show ?thesis using read_or_mapped_count [OF r _ c, of nm Seismic_SQ] unfolding idx' Seismic_SQ by fastforce
next
  case (Disk st)
  obtain st1 where r: "mmap_index_read_csr (dk_add (nm_enc nm) (nm_of_int nm) (nm_lround nm) st) (\<lambda>v. st\<lparr>dk_vectors := Some v\<rparr>)
      (nm_dec nm) (code_element_size (dk_sq st)) (dk_dimension st) base (dk_vectors st) path res = Inr st1" and
    idx': "idx' = Disk (case dk_vectors st1 of None \<Rightarrow> st1 | Some v \<Rightarrow> st1\<lparr>dk_num_vectors := num_vectors v\<rparr>)"
    using assms(1) unfolding Disk by (auto simp: dk_read_csr_def err_simps)
  have "counted (Disk st1) \<and> collecting (Disk st1) \<or> (\<exists>v. st1 = st\<lparr>dk_vectors := Some v\<rparr> \<and> sound_offsets v)"
    by (rule read_or_mapped_count [OF r _ c, of nm]) (simp add: Disk)
  then show ?thesis by (auto simp: idx' split: option.splits)
next
  case (Id_Map delegate im em)
  show ?thesis using assms(1) read_rows_count [OF _ c] unfolding Id_Map by simp
qed

text \<open>Building keeps the count.\<close>

lemma index_build_count:
  "index_build nm draw entropy pf token idx fs = (r, idx', fs') \<Longrightarrow> counted idx \<Longrightarrow>
     index_num_vectors idx' = index_num_vectors idx \<and> counted idx'"
proof (induction nm draw entropy pf token idx fs arbitrary: r idx' fs' rule: index_build.induct)
  case 2
  then show ?case by (auto simp: ii_build_def err_simps split: sum.splits option.splits)
next
  case 3
  then show ?case by (auto simp: se_build_def split: prod.splits sum.splits)
next
  case 4
  then show ?case by (auto simp: sx_build_def split: prod.splits sum.splits)
next
  case 5
  then show ?case by (auto simp: dk_build_def split: prod.splits sum.splits)
next
  case 7
  then show ?case by (auto split: prod.splits)
qed auto

section \<open>The map is in step with the index\<close>

text \<open>For each id the last document it was given to.\<close>

definition last_of :: "idx_t list \<Rightarrow> idx_t \<Rightarrow> idx_t option" where
  "last_of im = map_of (rev (zip im (map int [0..<length im])))"

lemma last_of_Nil [simp]: "last_of [] = (\<lambda>_. None)"
  by (simp add: last_of_def)

lemma last_of_snoc: "last_of (im @ [e]) = (last_of im)(e \<mapsto> int (length im))"
  by (intro ext) (simp add: last_of_def)

lemma last_of_iff:
  "last_of im e = Some i \<longleftrightarrow> 0 \<le> i \<and> nat i < length im \<and> im ! nat i = e \<and> (\<forall>j. nat i < j \<and> j < length im \<longrightarrow> im ! j \<noteq> e)"
proof (induction im arbitrary: i rule: rev_induct)
  case (snoc x im)
  show ?case
  proof (cases "x = e")
    case True
    then show ?thesis by (auto simp: last_of_snoc nth_append le_nat_iff)
  next
    case False
    then show ?thesis using snoc.IH [of i]
      by (auto simp: last_of_snoc nth_append less_Suc_eq_le le_less dest: spec)
  qed
qed simp

lemma zip_index_snoc: "zip [0..<length (xs @ [x])] (xs @ [x]) = zip [0..<length xs] xs @ [(length xs, x)]"
  by simp

lemma fold_last_of:
  "length im + length ids \<le> 2147483648 \<Longrightarrow>
     foldl (\<lambda>em (i, e). em(e \<mapsto> i32 (int (length im + i)))) (last_of im) (zip [0..<length ids] ids) = last_of (im @ ids)"
proof (induction ids rule: rev_induct)
  case (snoc x ids)
  have "i32 (int (length im + length ids)) = int (length (im @ ids))" using snoc.prems by (simp add: i32_def)
  then show ?case
    using snoc unfolding zip_index_snoc append_assoc [symmetric] last_of_snoc by (simp cong: if_cong)
qed simp

lemma fold_places:
  "length ids + m = n \<Longrightarrow>
     foldl (\<lambda>im (i, e). im[length im0 + i := e]) (im0 @ replicate n 0) (zip [0..<length ids] ids) = im0 @ ids @ replicate m 0"
proof (induction ids arbitrary: m rule: rev_induct)
  case (snoc x ids)
  then show ?case unfolding zip_index_snoc using snoc.IH [of "Suc m"] by (simp add: list_update_append)
qed simp

lemma foldl_both:
  "foldl (\<lambda>(a, b) x. (f a x, g b x)) (a, b) xs = (foldl f a xs, foldl g b xs)"
  by (induction xs arbitrary: a b) simp_all

lemma add_ids_last_of:
  assumes "length im + length ids \<le> 2147483648"
  shows "add_ids (length im) ids (im, last_of im) = (im @ ids, last_of (im @ ids))"
proof -
  have "foldl (\<lambda>(im', em) (i, e). (im'[length im + i := e], em(e \<mapsto> i32 (int (length im + i)))))
      (im @ replicate (length ids) 0, last_of im) (zip [0..<length ids] ids) = (im @ ids, last_of (im @ ids))"
    using foldl_both [of "\<lambda>im' (i, e :: idx_t). im'[length im + i := e]" "\<lambda>em (i, e). em(e \<mapsto> i32 (int (length im + i)))"]
      fold_places [of ids 0 "length ids" im] fold_last_of [OF assms] by (simp add: case_prod_unfold)
  then show ?thesis by (simp add: add_ids_def)
qed

lemma set_id_map_last_of: "length im \<le> 2147483648 \<Longrightarrow> set_id_map im = (im, last_of im)"
  using fold_last_of [of "[]" im] by (simp add: set_id_map_def)

text \<open>
  What happens to an id map over the index \<open>d0\<close>: batches with ids and without, corpora with an id file,
  and builds, whatever they answer. A search changes nothing. The flag says that no batch has come
  without ids since the ids were last read from a file. Documents go only to an index that still
  holds its vectors: an inverted index has given them away once it is built. An id map of more than
  \<open>2^31 - 1\<close> documents is out of the range of ids.
\<close>

inductive id_map_run :: "'w numerics \<Rightarrow> 'w :: {zero, plus, minus, times, inverse, ord} any_index \<Rightarrow> bool \<Rightarrow> 'w any_index \<Rightarrow> bool"
  for nm d0 where
  fresh: "id_map_run nm d0 True (id_map_new (Some d0))"
| loaded: "id_map_run nm d0 named (Id_Map (Some d) im em) \<Longrightarrow> collecting d \<Longrightarrow>
    id_map_read_csr_and_ids nm base (Some d) csr_path id_path res = Inr idx' \<Longrightarrow> index_num_vectors idx' \<le> 2147483647 \<Longrightarrow>
    id_map_run nm d0 True idx'"
| added: "id_map_run nm d0 named idx \<Longrightarrow> collecting idx \<Longrightarrow> index_add_with_ids nm idx n indptr indices values ids = Inr idx' \<Longrightarrow>
    n < 2147483647 \<Longrightarrow> index_num_vectors idx' \<le> 2147483647 \<Longrightarrow> id_map_run nm d0 named idx'"
| unnamed: "id_map_run nm d0 named idx \<Longrightarrow> collecting idx \<Longrightarrow> index_add nm idx n indptr indices values = Inr idx' \<Longrightarrow>
    n < 2147483647 \<Longrightarrow> index_num_vectors idx' \<le> 2147483647 \<Longrightarrow> id_map_run nm d0 False idx'"
| built: "id_map_run nm d0 named idx \<Longrightarrow> index_build nm draw entropy pf token idx fs = (r, idx', fs') \<Longrightarrow>
    id_map_run nm d0 named idx'"

text \<open>What the reverse map finds carries the id.\<close>

definition finds_owners :: "idx_t list \<Rightarrow> (idx_t \<Rightarrow> idx_t option) \<Rightarrow> bool" where
  "finds_owners im em \<longleftrightarrow> (\<forall>e i. em e = Some i \<longrightarrow> 0 \<le> i \<and> nat i < length im \<and> im ! nat i = e)"

definition in_step :: "bool \<Rightarrow> 'w any_index \<Rightarrow> bool" where
  "in_step named idx \<longleftrightarrow> (\<exists>d im em. idx = Id_Map (Some d) im em \<and> length im \<le> index_num_vectors d \<and> index_num_vectors d \<le> 2147483647 \<and>
     counted d \<and> finds_owners im em \<and> (named \<longrightarrow> em = last_of im \<and> length im = index_num_vectors d))"

lemma last_of_finds_owners: "finds_owners im (last_of im)"
  by (simp add: finds_owners_def last_of_iff)

lemma add_ids_places:
  assumes "length im \<le> m" and "m + length ids \<le> 2147483648" and "finds_owners im em"
  shows "\<exists>em'. add_ids m ids (im, em) = (im @ replicate (m - length im) 0 @ ids, em') \<and>
    finds_owners (im @ replicate (m - length im) 0 @ ids) em'"
proof -
  let ?em = "\<lambda>ids. foldl (\<lambda>em (i, e). em(e \<mapsto> i32 (int (m + i)))) em (zip [0..<length ids] ids)"
  let ?im0 = "im @ replicate (m - length im) 0"
  have m: "length ?im0 = m" using assms(1) by simp
  have own: "em e = Some i \<or> (\<exists>j < length ids. i = int (m + j) \<and> ids ! j = e)"
    if "?em ids e = Some i" "m + length ids \<le> 2147483648" for e i ids
    using that
  proof (induction ids rule: rev_induct)
    case (snoc x ids)
    have "i32 (int (m + length ids)) = int (m + length ids)" using snoc.prems(2) by (simp add: i32_def)
    then have x: "?em (ids @ [x]) = (?em ids)(x \<mapsto> int (m + length ids))"
      by (simp only: zip_index_snoc foldl_append foldl.simps prod.case)
    show ?case
    proof (cases "e = x")
      case True
      then have "i = int (m + length ids)" using snoc.prems(1) True by (simp only: x fun_upd_same option.inject)
      then show ?thesis using True by (intro disjI2 exI [of _ "length ids"]) simp
    next
      case False
      then have "?em ids e = Some i" using snoc.prems(1) by (simp only: x fun_upd_other [OF False] not_False_eq_True)
      from snoc.IH [OF this] snoc.prems(2) have "em e = Some i \<or> (\<exists>j < length ids. i = int (m + j) \<and> ids ! j = e)" by simp
      then show ?thesis
      proof
        assume "\<exists>j < length ids. i = int (m + j) \<and> ids ! j = e"
        then obtain j where "j < length ids" "i = int (m + j)" "ids ! j = e" by blast
        then show ?thesis by (intro disjI2 exI [of _ j]) (simp add: nth_append)
      qed simp
    qed
  qed simp
  have "replicate (m + length ids - length im) (0 :: idx_t) = replicate (m - length im) 0 @ replicate (length ids) 0"
    using assms(1) by (simp add: replicate_add [symmetric])
  then have start: "take (m + length ids) im @ replicate (m + length ids - length im) 0 = ?im0 @ replicate (length ids) 0"
    using assms(1) by simp
  have "add_ids m ids (im, em) = (?im0 @ ids, ?em ids)"
    using foldl_both [of "\<lambda>im' (i, e :: idx_t). im'[m + i := e]" "\<lambda>em (i, e). em(e \<mapsto> i32 (int (m + i)))"]
      fold_places [of ids 0 "length ids" ?im0] unfolding add_ids_def prod.case start m by (simp add: case_prod_unfold)
  moreover have "finds_owners (?im0 @ ids) (?em ids)"
    unfolding finds_owners_def
  proof (intro allI impI)
    fix e i assume "?em ids e = Some i"
    from own [OF this assms(2)] show "0 \<le> i \<and> nat i < length (?im0 @ ids) \<and> (?im0 @ ids) ! nat i = e"
    proof
      assume "em e = Some i"
      then have "0 \<le> i" "nat i < length im" "im ! nat i = e" using assms(3) by (auto simp: finds_owners_def)
      then show ?thesis by (simp add: nth_append)
    next
      assume "\<exists>j < length ids. i = int (m + j) \<and> ids ! j = e"
      then obtain j where j: "j < length ids" "i = int (m + j)" "ids ! j = e" by blast
      have "nat i = length ?im0 + j" unfolding j(2) nat_int m ..
      then have "(?im0 @ ids) ! nat i = ids ! j" by (simp only: nth_append_length_plus)
      then show ?thesis using j m by simp
    qed
  qed
  ultimately show ?thesis by simp
qed

lemma in_step_read:
  assumes "in_step named (Id_Map (Some d) im em)" and "collecting d"
    and "id_map_read_csr_and_ids nm base (Some d) csr_path id_path res = Inr idx" and "index_num_vectors idx \<le> 2147483647"
  shows "in_step True idx"
proof -
  have c: "counted d" "index_num_vectors d \<le> 2147483647" using assms(1) by (auto simp: in_step_def)
  obtain im d' where r: "index_read_csr_file nm base d csr_path res = Inr d'" and
    l: "length im = index_num_vectors d'" and idx: "idx = Id_Map (Some d') (fst (set_id_map im)) (snd (set_id_map im))"
    using assms(3) by (auto simp: id_map_read_csr_and_ids_def err_simps case_prod_beta split: if_splits)
  have small: "length im \<le> 2147483647" using assms(4) l unfolding idx by (simp add: set_id_map_def)
  then have "idx = Id_Map (Some d') im (last_of im)" using idx set_id_map_last_of [of im] by simp
  with index_read_csr_file_count [OF r c(1) assms(2) c(2)] l small last_of_finds_owners show ?thesis by (auto simp: in_step_def)
qed

lemma in_step_add:
  assumes "in_step named idx" and "collecting idx" and "index_add_with_ids nm idx n indptr indices values ids = Inr idx'"
    and n: "n < 2147483647" and "index_num_vectors idx' \<le> 2147483647"
  shows "in_step named idx'"
proof -
  obtain d im em where idx: "idx = Id_Map (Some d) im em" and l: "length im \<le> index_num_vectors d" "index_num_vectors d \<le> 2147483647"
    and c: "counted d" and own: "finds_owners im em" and named: "named \<longrightarrow> em = last_of im \<and> length im = index_num_vectors d"
    using assms(1) by (auto simp: in_step_def)
  have col: "collecting d" using assms(2) idx by simp
  obtain d' xs where a: "index_add nm d n indptr indices values = Inr d'" and xs: "nat n \<le> length xs" and
    add: "idx' = Id_Map (Some d') (fst (add_ids (index_num_vectors d) (take (nat n) xs) (im, em)))
      (snd (add_ids (index_num_vectors d) (take (nat n) xs) (im, em)))"
    using assms(3) unfolding idx by (cases ids) (auto simp: Let_def err_simps take_elems_def case_prod_beta split: if_splits)
  obtain ids' where ids': "length ids' = nat n" and
    idx': "idx' = Id_Map (Some d') (fst (add_ids (index_num_vectors d) ids' (im, em))) (snd (add_ids (index_num_vectors d) ids' (im, em)))"
    using add xs by (intro that [of "take (nat n) xs"]) simp_all
  note d' = index_add_count [OF a c col n l(2)]
  have len: "index_num_vectors d + length ids' \<le> 2147483647" using d' ids' assms(5) unfolding idx' by simp
  then have fit: "index_num_vectors d + length ids' \<le> 2147483648" by simp
  from add_ids_places [OF l(1) fit own] obtain em' where
    e: "add_ids (index_num_vectors d) ids' (im, em) = (im @ replicate (index_num_vectors d - length im) 0 @ ids', em')"
    "finds_owners (im @ replicate (index_num_vectors d - length im) 0 @ ids') em'" by blast
  have "em' = last_of (im @ ids') \<and> length (im @ ids') = index_num_vectors d'" if named
    using that named add_ids_last_of [of im ids'] e(1) fit d' ids' by simp
  then show ?thesis using named d' ids' e len l(1) unfolding idx' in_step_def by auto
qed

lemma in_step_unnamed:
  assumes "in_step named idx" and "collecting idx" and "index_add nm idx n indptr indices values = Inr idx'"
    and n: "n < 2147483647" and "index_num_vectors idx' \<le> 2147483647"
  shows "in_step False idx'"
proof -
  obtain d im em where idx: "idx = Id_Map (Some d) im em" and l: "length im \<le> index_num_vectors d" "index_num_vectors d \<le> 2147483647"
    and c: "counted d" "finds_owners im em"
    using assms(1) by (auto simp: in_step_def)
  have col: "collecting d" using assms(2) idx by simp
  obtain d' where a: "index_add nm d n indptr indices values = Inr d'" and idx': "idx' = Id_Map (Some d') im em"
    using assms(3) unfolding idx by (auto simp: err_simps)
  from index_add_count [OF a c(1) col n l(2)] l c assms(5) show ?thesis unfolding idx' in_step_def by auto
qed

lemma in_step_build:
  assumes "in_step named idx" and "index_build nm draw entropy pf token idx fs = (r, idx', fs')"
  shows "in_step named idx'"
proof -
  obtain d im em where idx: "idx = Id_Map (Some d) im em" and c: "counted d"
    and l: "length im \<le> index_num_vectors d" "index_num_vectors d \<le> 2147483647"
      "finds_owners im em" "named \<longrightarrow> em = last_of im \<and> length im = index_num_vectors d"
    using assms(1) by (auto simp: in_step_def)
  obtain d' where b: "index_build nm draw entropy pf token d fs = (r, d', fs')" and idx': "idx' = Id_Map (Some d') im em"
    using assms(2) unfolding idx by (auto split: prod.splits)
  show ?thesis using index_build_count [OF b c] l unfolding idx' in_step_def by auto
qed

lemma in_step_run:
  assumes "id_map_run nm d0 named idx" and "counted d0" and "index_num_vectors d0 = 0"
  shows "in_step named idx"
  using assms
proof (induction rule: id_map_run.induct)
  case fresh
  then show ?case by (auto simp: in_step_def id_map_new_def finds_owners_def)
qed (blast intro: in_step_read in_step_add in_step_unnamed in_step_build)+

lemma external_labels_mapped:
  assumes "\<forall>l \<in> set labels. l < int (length im)" and "length labels = nat n * nat k" and "length labels \<le> 2147483648"
  shows "external_labels im n k labels = Inr (map (\<lambda>l. if l < 0 then l else im ! nat l) labels)"
proof -
  have "mapE (external_label im) ls = Inr (map (\<lambda>l. if l < 0 then l else im ! nat l) ls)" if "set ls \<subseteq> set labels" for ls
    using that assms(1) by (induction ls) (auto simp: external_label_def read_at_def)
  then show ?thesis using assms(2,3) by (simp add: external_labels_def take_elems_def Let_def)
qed

lemma mapped_selector_ids:
  assumes "enumerable s = Some outer"
  shows "\<exists>inner. enumerable (Mapped_Selector s im (last_of im)) = Some inner \<and>
    (\<forall>i \<in> set inner. 0 \<le> i \<and> i < int (length im) \<and> im ! nat i \<in> set outer) \<and> (\<forall>e \<in> set outer \<inter> set im. \<exists>i \<in> set inner. im ! nat i = e)"
proof -
  have found: "\<exists>i. last_of im e = Some i" if "e \<in> set im" for e
    using that by (induction im rule: rev_induct) (auto simp: last_of_snoc)
  have "im ! nat i \<in> set outer \<and> 0 \<le> i \<and> i < int (length im)" if "e \<in> set outer" "last_of im e = Some i" for e i
    using that by (auto simp: last_of_iff)
  moreover have "\<exists>i \<in> set (List.map_filter (last_of im) outer). im ! nat i = e" if e: "e \<in> set outer" "e \<in> set im" for e
  proof -
    obtain i where i: "last_of im e = Some i" using found e(2) by blast
    then have "i \<in> set (List.map_filter (last_of im) outer)" using e(1) by (auto simp: List.map_filter_def intro!: image_eqI [of i _ e])
    with i show ?thesis by (auto simp: last_of_iff)
  qed
  ultimately show ?thesis using assms by (auto simp: List.map_filter_def)
qed

text \<open>
  C13: an id map over an empty index, after any loads of a corpus with an id file, batches with and
  without ids and builds, documents being given only to an index that still holds its vectors. The
  map has at most one entry for each document of the index, and an id that is looked up is found at a
  document that carries it. As long as every batch since the last load came with ids, the map has
  exactly one entry for each document; looking up an id finds the last document it was given to, and
  no other; the answers of the index become ids of the caller's without reading past the map, empty
  places staying empty; and a selector that lists its ids is asked for documents of the index that
  carry one of them, and each of them that is in use is found.
\<close>

theorem id_map_in_step:
  assumes "id_map_run nm d0 named idx" and "counted d0" and "index_num_vectors d0 = 0"
  shows "\<exists>d im em. idx = Id_Map (Some d) im em \<and> length im \<le> index_num_vectors d \<and>
    (\<forall>e i. em e = Some i \<longrightarrow> 0 \<le> i \<and> nat i < length im \<and> im ! nat i = e) \<and>
    (named \<longrightarrow> length im = index_num_vectors d \<and>
      (\<forall>e i. em e = Some i \<longleftrightarrow> 0 \<le> i \<and> nat i < length im \<and> im ! nat i = e \<and> (\<forall>j. nat i < j \<and> j < length im \<longrightarrow> im ! j \<noteq> e)) \<and>
      (\<forall>n k ls. (\<forall>l \<in> set ls. l < int (index_num_vectors d)) \<and> length ls = nat n * nat k \<and> length ls \<le> 2147483648 \<longrightarrow>
         external_labels im n k ls = Inr (map (\<lambda>l. if l < 0 then l else im ! nat l) ls)) \<and>
      (\<forall>s outer. enumerable s = Some outer \<longrightarrow> (\<exists>inner. enumerable (Mapped_Selector s im em) = Some inner \<and>
         (\<forall>i \<in> set inner. 0 \<le> i \<and> i < int (index_num_vectors d) \<and> im ! nat i \<in> set outer) \<and>
         (\<forall>e \<in> set outer \<inter> set im. \<exists>i \<in> set inner. im ! nat i = e))))"
proof -
  obtain d im em where idx: "idx = Id_Map (Some d) im em" and l: "length im \<le> index_num_vectors d" and own: "finds_owners im em"
    and named: "named \<longrightarrow> em = last_of im \<and> length im = index_num_vectors d"
    using in_step_run [OF assms] by (auto simp: in_step_def)
  show ?thesis
  proof (intro exI conjI impI)
    show "idx = Id_Map (Some d) im em" by (rule idx)
    show "length im \<le> index_num_vectors d" by (rule l)
    show "\<forall>e i. em e = Some i \<longrightarrow> 0 \<le> i \<and> nat i < length im \<and> im ! nat i = e" using own by (simp add: finds_owners_def)
  next
    assume named
    then have e: "em = last_of im" and c: "index_num_vectors d = length im" using named by simp_all
    show "length im = index_num_vectors d" by (simp add: c)
    show "\<forall>e i. em e = Some i \<longleftrightarrow> 0 \<le> i \<and> nat i < length im \<and> im ! nat i = e \<and> (\<forall>j. nat i < j \<and> j < length im \<longrightarrow> im ! j \<noteq> e)"
      unfolding e by (simp add: last_of_iff)
    show "\<forall>n k ls. (\<forall>l \<in> set ls. l < int (index_num_vectors d)) \<and> length ls = nat n * nat k \<and> length ls \<le> 2147483648 \<longrightarrow>
         external_labels im n k ls = Inr (map (\<lambda>l. if l < 0 then l else im ! nat l) ls)"
      unfolding c by (simp add: external_labels_mapped)
    show "\<forall>s outer. enumerable s = Some outer \<longrightarrow> (\<exists>inner. enumerable (Mapped_Selector s im em) = Some inner \<and>
         (\<forall>i \<in> set inner. 0 \<le> i \<and> i < int (index_num_vectors d) \<and> im ! nat i \<in> set outer) \<and>
         (\<forall>e \<in> set outer \<inter> set im. \<exists>i \<in> set inner. im ! nat i = e))"
      unfolding c e using mapped_selector_ids by blast
  qed
qed

theorem id_map_in_step_witness:
  "\<exists>idx d em. id_map_run \<lparr>nm_enc = \<lambda>_. [0, 0, 0, 0], nm_dec = \<lambda>_. 0, nm_conv = of_nat, nm_of_int = rat_of_int, nm_lround = \<lambda>_. 0, nm_finite = \<lambda>_. True\<rparr>
       (Brutal (bi_new 4)) True idx \<and> idx = Id_Map (Some d) [42, 42] em \<and> index_num_vectors d = 2 \<and> em 42 = Some 1 \<and>
     external_labels [42, 42] 1 2 [1, -1] = Inr [42, -1]"
proof -
  let ?nm = "\<lparr>nm_enc = \<lambda>_. [0, 0, 0, 0], nm_dec = \<lambda>_. 0, nm_conv = of_nat, nm_of_int = rat_of_int, nm_lround = \<lambda>_. 0, nm_finite = \<lambda>_. True\<rparr>"
    and ?d0 = "Brutal (bi_new 4) :: rat any_index"
  let ?v = "\<lparr>sv_indptr = buf_own [0, 1, 2], sv_indices = buf_own [2, 1], sv_values = buf_own [0, 0, 0, 0, 0, 0, 0, 0],
    sv_element_size = 4, sv_dimension = 4\<rparr>"
  have a: "index_add_with_ids ?nm (id_map_new (Some ?d0)) 2 (Some [0, 1, 2]) (Some [2, 1]) (Some [3, 5]) (Some [42, 42]) =
      Inr (Id_Map (Some (Brutal ((bi_new 4)\<lparr>bi_vectors := Some ?v\<rparr>))) [42, 42] ((\<lambda>_. None)(42 \<mapsto> 1)))"
    by (simp add: id_map_new_def bi_new_def bi_add_def vectors_add_def take_batch_def take_elems_def add_vectors_def sv_new_def sv_default_def
        take_vector_def buf_owns_def buf_default_def buf_own_def owned_vector_def encode_array_def size_of_int_def i32_def u64_def U32_def
        num_vectors_def buf_empty_def buf_size_def add_ids_def throw_if_not_positive_def throw_if_null_def upt_rec numeral_2_eq_2)
  have c: "counted ?d0" "index_num_vectors ?d0 = 0" by (simp_all add: bi_new_def)
  have "id_map_run ?nm ?d0 True (Id_Map (Some (Brutal ((bi_new 4)\<lparr>bi_vectors := Some ?v\<rparr>))) [42, 42] ((\<lambda>_. None)(42 \<mapsto> 1)))"
    by (rule id_map_run.added [OF id_map_run.fresh _ a]) (simp_all add: id_map_new_def num_vectors_def buf_empty_def buf_size_def buf_own_def)
  with id_map_in_step [OF this c] show ?thesis by (intro exI conjI) (assumption | simp | force)+
qed

end
