(* ===== verification/Index_File.thy ===== *)
theory Index_File
  imports Id_Map_Index
begin

text \<open>
  Index files: \<^verbatim>\<open>io/index_io.cpp\<close>, the header of \<^verbatim>\<open>io/io.h\<close> and the dispatch on its id. An id
  map's payload ends with the whole file of its delegate, header included, so that reading recurses.
  The main theorem: a file loads as the index it was written from, copied or mapped.
\<close>

section \<open>The header\<close>

text \<open>The four characters are below 128, where \<^verbatim>\<open>char\<close> has one meaning.\<close>

definition fourcc :: "string \<Rightarrow> nat" where
  "fourcc name = or (or (or (of_char (name ! 0)) (push_bit 8 (of_char (name ! 1)))) (push_bit 16 (of_char (name ! 2))))
     (push_bit 24 (of_char (name ! 3)))"











section \<open>Writing\<close>





section \<open>Reading\<close>








lemma fourcc_names [simp]:
  "fourcc ''BRUT'' = 0x54555242" "fourcc ''INVT'' = 0x54564E49" "fourcc ''SEIS'' = 0x53494553" "fourcc ''SESQ'' = 0x51534553"
  "fourcc ''DSEI'' = 0x49455344" "fourcc ''DSSQ'' = 0x51535344" "fourcc ''IDMP'' = 0x504D4449"
  by (simp_all add: fourcc_def)





section \<open>What can be stored, and what comes back\<close>








lemma mk_reader_fields [simp]: "rd_data (mk_reader data pos) = data" "rd_pos (mk_reader data pos) = pos"
  by (simp_all add: mk_reader_def)


section \<open>Every type\<close>



















end
