(* ===== verification/Index_Factory.thy ===== *)
theory Index_Factory
  imports Index_File
begin

text \<open>
  \<^verbatim>\<open>index_factory.cpp\<close>: an index from its description, with the number parsers of the standard
  library it calls. The main theorem: what a description spells out is what is constructed.
\<close>

section \<open>Strings\<close>

text \<open>\<open>str.find(delimiter)\<close> is the length of the part before it.\<close>

function split_str :: "string \<Rightarrow> char \<Rightarrow> string list" where
  "split_str str delimiter =
     (let e = length (takeWhile (\<lambda>c. c \<noteq> delimiter) str)
      in if e < length str then take e str # split_str (drop (e + 1) str) delimiter else [str])"
  by pat_completeness auto
termination
  by (relation "measure (\<lambda>(str, _). length str)") auto

declare split_str.simps [simp del]

definition is_blank :: "char \<Rightarrow> bool" where
  "is_blank c \<longleftrightarrow> c \<in> set [CHR '' '', CHR 0x09, CHR 0x0A, CHR 0x0D]"

text \<open>Without what \<open>find_first_not_of\<close> skips at the front and \<open>find_last_not_of\<close> at the end.\<close>

definition trim :: "string \<Rightarrow> string" where
  "trim str = rev (dropWhile is_blank (rev (dropWhile is_blank str)))"

fun join_segments :: "string list \<Rightarrow> string" where
  "join_segments [] = ''''"
| "join_segments [s] = s"
| "join_segments (s # segs) = s @ '','' @ join_segments segs"

section \<open>Numbers\<close>

definition is_space :: "char \<Rightarrow> bool" where
  "is_space c \<longleftrightarrow> c \<in> set [CHR '' '', CHR 0x09, CHR 0x0A, CHR 0x0B, CHR 0x0C, CHR 0x0D]"

definition is_digit :: "char \<Rightarrow> bool" where
  "is_digit c \<longleftrightarrow> (48 :: nat) \<le> of_char c \<and> of_char c \<le> (57 :: nat)"

definition to_lower :: "char \<Rightarrow> char" where
  "to_lower c = (if (65 :: nat) \<le> of_char c \<and> of_char c \<le> (90 :: nat) then char_of ((of_char c :: nat) + 32) else c)"

definition is_hex :: "char \<Rightarrow> bool" where
  "is_hex c \<longleftrightarrow> is_digit c \<or> to_lower c \<in> set ''abcdef''"

definition digit_value :: "char \<Rightarrow> nat" where
  "digit_value c = (if is_digit c then of_char c - 48 else of_char (to_lower c) - 87)"

definition number :: "nat \<Rightarrow> string \<Rightarrow> nat" where
  "number base ds = foldl (\<lambda>n c. base * n + digit_value c) 0 ds"

text \<open>Whether there was a minus sign, and what follows the sign.\<close>

fun take_sign :: "string \<Rightarrow> bool \<times> string" where
  "take_sign (c # s) = (if c = CHR ''-'' then (True, s) else if c = CHR ''+'' then (False, s) else (False, c # s))"
| "take_sign [] = (False, [])"

text \<open>\<^verbatim>\<open>strtol\<close> in base 10: nothing when there is no number; what follows the number is ignored.\<close>

definition strtol :: "string \<Rightarrow> (bool \<times> nat) option" where
  "strtol str = (case take_sign (dropWhile is_space str) of (neg, s) \<Rightarrow>
     let ds = takeWhile is_digit s in if ds = [] then None else Some (neg, number 10 ds))"

definition stoi :: "string \<Rightarrow> exn + int" where
  "stoi str = (case strtol str of
       None \<Rightarrow> Inl (Invalid_argument ''stoi'')
     | Some (neg, n) \<Rightarrow> (let v = (if neg then - int n else int n) in if is_i32 v then Inr v else Inl (Out_of_range ''stoi'')))"

text \<open>\<^verbatim>\<open>strtoul\<close> negates in the unsigned type.\<close>

definition stoul :: "string \<Rightarrow> exn + size_t" where
  "stoul str = (case strtol str of
       None \<Rightarrow> Inl (Invalid_argument ''stoul'')
     | Some (neg, n) \<Rightarrow>
         if n > SIZE_MAX then Inl (Out_of_range ''stoul'')
         else Inr (if neg then nat (- int n mod 18446744073709551616) else n))"

fun digits_of :: "nat \<Rightarrow> string" where
  "digits_of n = (if n < 10 then [char_of (48 + n)] else digits_of (n div 10) @ [char_of (48 + n mod 10)])"

declare digits_of.simps [simp del]

text \<open>\<^verbatim>\<open>std::to_string\<close>.\<close>

definition to_string :: "int \<Rightarrow> string" where
  "to_string i = (if i < 0 then ''-'' @ digits_of (nat (- i)) else digits_of (nat i))"

subsection \<open>Floats\<close>

text \<open>The digits before and after a point together, the number of those after it, and the rest.\<close>

definition mantissa :: "(char \<Rightarrow> bool) \<Rightarrow> string \<Rightarrow> string \<times> nat \<times> string" where
  "mantissa digit s =
     (let whole = takeWhile digit s; rest = dropWhile digit s
      in case rest of
           c # t \<Rightarrow> if c = CHR ''.'' then (whole @ takeWhile digit t, length (takeWhile digit t), dropWhile digit t)
             else (whole, 0, rest)
         | [] \<Rightarrow> (whole, 0, []))"

definition exponent :: "char \<Rightarrow> string \<Rightarrow> int" where
  "exponent mark s = (case s of
       [] \<Rightarrow> 0
     | c # t \<Rightarrow> if to_lower c \<noteq> mark then 0
         else case take_sign t of (neg, u) \<Rightarrow> let n = int (number 10 (takeWhile is_digit u)) in if neg then - n else n)"

text \<open>\<open>n / d\<close> rounded: a quotient of at least 64 bits, with a sticky last bit.\<close>

definition f32_of_ratio :: "bool \<Rightarrow> nat \<Rightarrow> nat \<Rightarrow> f32" where
  "f32_of_ratio neg n d =
     (let k = 64 + bit_length (int d); a = int n * 2 ^ nat k
      in f32_round neg (2 * (a div int d) + (if a mod int d = 0 then 0 else 1)) (- k - 1))"

text \<open>
  \<^verbatim>\<open>strtof\<close>: the value and whether it is out of range, too large or rounded where floats are
  denormal. Decimal and hexadecimal numbers, infinities and NaNs.
\<close>

definition scaled :: "bool \<Rightarrow> nat \<Rightarrow> nat \<Rightarrow> int \<Rightarrow> f32 \<times> bool" where
  "scaled neg n base x =
     (let num = n * base ^ nat x; den = base ^ nat (- x); r = f32_of_ratio neg num den
      in (r, n \<noteq> 0 \<and> (is_inf r \<or> f32_exp r = 0 \<and> \<bar>f32_val r\<bar> \<noteq> of_nat num / of_nat den)))"

definition strtof :: "string \<Rightarrow> (f32 \<times> bool) option" where
  "strtof str = (case take_sign (dropWhile is_space str) of (neg, s) \<Rightarrow>
       if map to_lower (take 3 s) = ''inf'' then Some (f32_inf neg, False)
       else if map to_lower (take 3 s) = ''nan'' then Some (f32_pack neg 0x7FC00000, False)
       else case mantissa is_hex (drop 2 s) of (ds, fraction, rest) \<Rightarrow>
         if map to_lower (take 2 s) = ''0x'' \<and> ds \<noteq> []
         then Some (scaled neg (number 16 ds) 2 (exponent CHR ''p'' rest - 4 * int fraction))
         else case mantissa is_digit s of (ds, fraction, rest) \<Rightarrow>
           if ds = [] then None
           else Some (scaled neg (number 10 ds) 10 (exponent CHR ''e'' rest - int fraction)))"

definition stof :: "string \<Rightarrow> exn + f32" where
  "stof str = (case strtof str of
       None \<Rightarrow> Inl (Invalid_argument ''stof'')
     | Some (x, out_of_range) \<Rightarrow> if out_of_range then Inl (Out_of_range ''stof'') else Inr x)"

section \<open>The factory\<close>

definition get_param :: "(string \<times> string) list \<Rightarrow> string \<Rightarrow> string \<Rightarrow> string" where
  "get_param params key default_val = (case map_of params key of None \<Rightarrow> default_val | Some v \<Rightarrow> v)"

definition parse_params :: "string list \<Rightarrow> (string \<times> string) list" where
  "parse_params segments =
     (if length segments > 1
      then List.map_filter (\<lambda>token. case split_str token CHR ''='' of [key, val] \<Rightarrow> Some (trim key, trim val) | _ \<Rightarrow> None)
        (split_str (segments ! 1) CHR ''|'')
      else [])"

definition parse_cluster_params :: "(string \<times> string) list \<Rightarrow> exn + f32 cluster_params" where
  "parse_cluster_params params =
     bindE (stoi (get_param params ''lambda'' ''10'')) (\<lambda>lambda.
     bindE (stoi (get_param params ''beta'' ''5'')) (\<lambda>beta.
     bindE (stof (get_param params ''alpha'' ''0.5'')) (\<lambda>alpha.
     bindE (stoul (get_param params ''inverted_list_batch_size'' ''1'')) (\<lambda>batch_size.
     bindE (stoi (get_param params ''seed'' (to_string kRandomSeed))) (\<lambda>seed.
     Inr \<lparr>cp_lambda = lambda, cp_beta = beta, cp_alpha = alpha,
       cp_batch = \<lparr>bo_batch_size = batch_size, bo_path = get_param params ''batch_file_output_path'' []\<rparr>, cp_seed = seed\<rparr>)))))"

record quantizer_config =
  qc_type :: quantizer_type
  qc_vmin :: f32
  qc_vmax :: f32

definition parse_quantizer_config :: "(string \<times> string) list \<Rightarrow> exn + quantizer_config" where
  "parse_quantizer_config params =
     (let quantizer_str = get_param params ''quantizer'' ''8bit''
      in bindE (if quantizer_str = ''8bit'' then Inr QT_8bit
                else if quantizer_str = ''16bit'' then Inr QT_16bit
                else Inl (Invalid_argument (''unknown quantizer '' @ quantizer_str))) (\<lambda>t.
         bindE (stof (get_param params ''vmin'' ''0.0'')) (\<lambda>vmin.
         bindE (stof (get_param params ''vmax'' ''1.0'')) (\<lambda>vmax.
         Inr \<lparr>qc_type = t, qc_vmin = vmin, qc_vmax = vmax\<rparr>))))"

text \<open>The delegate's description is shorter: the segments but the first, joined again.\<close>

lemma split_str_join: "join_segments (split_str s CHR '','') = s"
proof (induction s "CHR '',''" rule: split_str.induct)
  case (1 s)
  show ?case
  proof (cases "length (takeWhile (\<lambda>c. c \<noteq> CHR '','') s) < length s")
    case True
    let ?e = "length (takeWhile (\<lambda>c. c \<noteq> CHR '','') s)"
    have s: "s = take ?e s @ CHR '','' # drop (?e + 1) s"
      using nth_length_takeWhile [OF True] id_take_nth_drop [OF True] by simp
    have "split_str (drop (?e + 1) s) CHR '','' \<noteq> []" by (subst split_str.simps) (simp add: Let_def)
    then have "join_segments (take ?e s # split_str (drop (?e + 1) s) CHR '','') =
        take ?e s @ '','' @ join_segments (split_str (drop (?e + 1) s) CHR '','')"
      by (cases "split_str (drop (?e + 1) s) CHR '',''") simp_all
    then show ?thesis using 1 [OF refl True] s True by (subst split_str.simps) (simp add: Let_def)
  qed (subst split_str.simps, simp add: Let_def)
qed

lemma join_segments_tl: "length segs > 1 \<Longrightarrow> length (join_segments (tl segs)) < length (join_segments segs)"
  by (cases segs rule: join_segments.cases) auto

function index_factory :: "int \<Rightarrow> string option \<Rightarrow> exn + f32 any_index" where
  "index_factory dimension description = (case description of
       None \<Rightarrow> Inl (Invalid_argument ''Description cannot be null or empty'')
     | Some desc \<Rightarrow>
       if desc = [] then Inl (Invalid_argument ''Description cannot be null or empty'')
       else
         let segments = split_str desc CHR '',''; index_type = trim (hd segments); params = parse_params segments
         in if index_type = ''brutal'' then Inr (Brutal (bi_new dimension))
            else if index_type = ''inverted'' then Inr (Inverted (ii_new dimension))
            else if index_type = ''seismic''
            then bindE (parse_cluster_params params) (\<lambda>cp. Inr (Seismic (se_new dimension cp)))
            else if index_type = ''disk_seismic''
            then bindE (parse_cluster_params params) (\<lambda>cp. Inr (Disk (dk_new dimension cp None)))
            else if index_type = ''disk_seismic_sq''
            then bindE (parse_quantizer_config params) (\<lambda>q. bindE (parse_cluster_params params) (\<lambda>cp.
                 bindE (dk_new_quantized f32_finite (qc_type q) (qc_vmin q) (qc_vmax q) cp dimension) (\<lambda>st. Inr (Disk st))))
            else if index_type = ''seismic_sq''
            then bindE (parse_quantizer_config params) (\<lambda>q. bindE (parse_cluster_params params) (\<lambda>cp.
                 bindE (sx_new_with f32_finite (qc_type q) (qc_vmin q) (qc_vmax q) cp dimension) (\<lambda>st. Inr (Seismic_SQ st))))
            else if index_type = ''idmap''
            then if length segments < 2 then Inl (Invalid_argument ''idmap requires a delegate index type'')
                 else bindE (index_factory dimension (Some (join_segments (tl segments)))) (\<lambda>delegate. Inr (id_map_new (Some delegate)))
            else Inl (Invalid_argument (''Unknown index type: '' @ index_type)))"
  by pat_completeness auto

termination
proof (relation "measure (\<lambda>(_, description). case description of None \<Rightarrow> 0 | Some s \<Rightarrow> length s)", goal_cases)
  case (2 d description desc segs)
  then show ?case using join_segments_tl [of segs] split_str_join [of desc] by auto
qed simp

declare index_factory.simps [simp del]

section \<open>Numbers printed and parsed\<close>

lemma char_digit: "n < 10 \<Longrightarrow> is_digit (char_of (48 + n)) \<and> digit_value (char_of (48 + n)) = n"
  by (auto simp: is_digit_def digit_value_def)

lemma digits_of_all: "d \<in> set (digits_of n) \<Longrightarrow> is_digit d"
  by (induction n rule: digits_of.induct) (subst (asm) digits_of.simps, auto simp: char_digit split: if_splits)

lemma number_digits_of: "number 10 (digits_of n) = n"
proof (induction n rule: digits_of.induct)
  case (1 n)
  then show ?case by (subst digits_of.simps) (auto simp: number_def char_digit)
qed

lemma strtol_to_string: "strtol (to_string i) = Some (i < 0, nat \<bar>i\<bar>)"
proof -
  have d: "takeWhile is_digit (digits_of n) = digits_of n" for n
    using digits_of_all by (simp add: takeWhile_eq_all_conv)
  have ne: "digits_of n \<noteq> []" for n by (subst digits_of.simps) simp
  have hd: "is_digit (hd (digits_of n))" for n by (rule digits_of_all [OF hd_in_set [OF ne]])
  have nospace: "dropWhile is_space (digits_of n) = digits_of n" and nosign: "take_sign (digits_of n) = (False, digits_of n)" for n
    using hd [of n] ne [of n] by (cases "digits_of n"; auto simp: is_digit_def is_space_def)+
  have "dropWhile is_space (CHR ''-'' # s) = CHR ''-'' # s" for s by (simp add: is_space_def)
  then show ?thesis by (auto simp: strtol_def to_string_def nospace nosign d ne number_digits_of)
qed

lemma stoi_to_string: "is_i32 i \<Longrightarrow> stoi (to_string i) = Inr i"
  by (auto simp: stoi_def strtol_to_string)

lemma stoul_to_string: "n \<le> SIZE_MAX \<Longrightarrow> stoul (to_string (int n)) = Inr n"
  by (simp add: stoul_def strtol_to_string)

section \<open>Descriptions\<close>

text \<open>
  Text without separators, text without blanks at its ends, text with blanks around it, and a list of
  parameters spelled out.
\<close>

definition plain :: "string \<Rightarrow> bool" where
  "plain s \<longleftrightarrow> set s \<inter> {CHR '','', CHR ''|'', CHR ''=''} = {}"

definition blanks :: "char set" where
  "blanks = {CHR '' '', CHR 0x09, CHR 0x0A, CHR 0x0D}"

definition clean :: "string \<Rightarrow> bool" where
  "clean s \<longleftrightarrow> plain s \<and> (s \<noteq> [] \<longrightarrow> hd s \<notin> blanks \<and> last s \<notin> blanks)"

definition spaced :: "string \<Rightarrow> string \<Rightarrow> bool" where
  "spaced t s \<longleftrightarrow> (\<exists>before after. set before \<subseteq> blanks \<and> set after \<subseteq> blanks \<and> t = before @ s @ after)"

definition spaced_params :: "(string \<times> string) list \<Rightarrow> (string \<times> string) list \<Rightarrow> bool" where
  "spaced_params = list_all2 (\<lambda>(k', v') (k, v). spaced k' k \<and> spaced v' v)"

fun spelled :: "(string \<times> string) list \<Rightarrow> string" where
  "spelled [] = []"
| "spelled [(key, val)] = key @ ''='' @ val"
| "spelled ((key, val) # kvs) = key @ ''='' @ val @ ''|'' @ spelled kvs"

definition cluster_text :: "'w cluster_params \<Rightarrow> string \<Rightarrow> (string \<times> string) list" where
  "cluster_text p alpha_text =
     [(''lambda'', to_string (cp_lambda p)), (''beta'', to_string (cp_beta p)), (''alpha'', alpha_text),
      (''inverted_list_batch_size'', to_string (int (bo_batch_size (cp_batch p)))),
      (''batch_file_output_path'', bo_path (cp_batch p)), (''seed'', to_string (cp_seed p))]"

lemma split_str_last: "c \<notin> set s \<Longrightarrow> split_str s c = [s]"
proof -
  assume "c \<notin> set s"
  then have "takeWhile (\<lambda>x. x \<noteq> c) s = s" by (auto simp: takeWhile_eq_all_conv)
  then show ?thesis by (subst split_str.simps) (simp only: Let_def less_irrefl if_False)
qed

lemma split_str_cons: "c \<notin> set s \<Longrightarrow> split_str (s @ c # t) c = s # split_str t c"
proof -
  assume "c \<notin> set s"
  then have "takeWhile (\<lambda>x. x \<noteq> c) (s @ c # t) = s" by (subst takeWhile_append2) auto
  then show ?thesis by (subst split_str.simps) simp
qed

lemma is_blank_blanks: "is_blank c \<longleftrightarrow> c \<in> blanks"
  by (simp add: is_blank_def blanks_def)

lemma trim_spaced: "spaced t s \<Longrightarrow> clean s \<Longrightarrow> trim t = s"
proof -
  assume "spaced t s" and c: "clean s"
  then obtain a b where t: "t = a @ s @ b" and ab: "\<forall>c \<in> set a. is_blank c" "\<forall>c \<in> set b. is_blank c"
    by (auto simp: spaced_def is_blank_blanks)
  show "trim t = s"
  proof (cases "s = []")
    case True
    then have "\<forall>c \<in> set t. is_blank c" using t ab by auto
    then have "dropWhile is_blank t = []" by (simp add: dropWhile_eq_Nil_conv)
    then show ?thesis using True by (simp only: trim_def rev.simps dropWhile.simps)
  next
    case False
    then have "\<not> is_blank (hd s)" "\<not> is_blank (hd (rev s))" using c by (simp_all add: clean_def hd_rev is_blank_blanks)
    moreover have stop: "dropWhile is_blank (x @ y @ z) = y @ z" if "\<not> is_blank (hd y)" "y \<noteq> []" "\<forall>c \<in> set x. is_blank c" for x y z
      using that by (cases y) (simp_all add: dropWhile_append2)
    ultimately show ?thesis using False ab stop [of s a b] stop [of "rev s" "rev b" "[]"] by (simp add: trim_def t)
  qed
qed

lemma spaced_refl: "spaced s s"
  unfolding spaced_def by (intro exI [of _ "[]"]) simp

lemmas trim_clean = trim_spaced [OF spaced_refl]

lemma spaced_plain: "spaced t s \<Longrightarrow> plain s \<Longrightarrow> plain t"
  by (auto simp: spaced_def plain_def blanks_def)

lemma clean_to_string: "clean (to_string i)"
proof -
  have all: "is_digit c \<or> c = CHR ''-''" if "c \<in> set (to_string i)" for c
    using that digits_of_all by (auto simp: to_string_def split: if_splits)
  have plain: "c \<notin> blanks \<and> c \<noteq> CHR '','' \<and> c \<noteq> CHR ''|'' \<and> c \<noteq> CHR ''=''" if "is_digit c \<or> c = CHR ''-''" for c
    using that by (auto simp: is_digit_def blanks_def)
  have "set (to_string i) \<inter> {CHR '','', CHR ''|'', CHR ''=''} = {}" using all plain by blast
  moreover have "hd (to_string i) \<notin> blanks \<and> last (to_string i) \<notin> blanks" if "to_string i \<noteq> []"
    using that all plain by simp
  ultimately show ?thesis by (simp add: clean_def plain_def)
qed

lemma spelled_tokens:
  "kvs \<noteq> [] \<Longrightarrow> \<forall>(k, v) \<in> set kvs. plain k \<and> plain v \<Longrightarrow>
     split_str (spelled kvs) CHR ''|'' = map (\<lambda>(k, v). k @ ''='' @ v) kvs \<and> CHR '','' \<notin> set (spelled kvs)"
proof (induction kvs rule: spelled.induct)
  case (2 k v)
  then show ?case by (auto simp: plain_def intro!: split_str_last)
next
  case (3 k v kv kvs)
  have "split_str ((k @ ''='' @ v) @ CHR ''|'' # spelled (kv # kvs)) CHR ''|'' = (k @ ''='' @ v) # split_str (spelled (kv # kvs)) CHR ''|''"
    by (rule split_str_cons) (use 3 in \<open>auto simp: plain_def\<close>)
  with 3 show ?case by (auto simp: plain_def)
qed simp

lemma parse_params_plain:
  assumes "kvs \<noteq> []" and "\<forall>(k, v) \<in> set kvs. plain k \<and> plain v"
  shows "parse_params [t, spelled kvs] = map (\<lambda>(k, v). (trim k, trim v)) kvs"
proof -
  have tok: "(case split_str (k @ ''='' @ v) CHR ''='' of [key, val] \<Rightarrow> Some (trim key, trim val) | _ \<Rightarrow> None) = Some (trim k, trim v)"
    if "plain k" "plain v" for k v
    using that split_str_cons [of "CHR ''=''" k v] split_str_last [of "CHR ''=''" v] by (simp add: plain_def)
  have "List.map_filter (\<lambda>token. case split_str token CHR ''='' of [key, val] \<Rightarrow> Some (trim key, trim val) | _ \<Rightarrow> None)
      (map (\<lambda>(k, v). k @ ''='' @ v) kvs) = map (\<lambda>(k, v). (trim k, trim v)) kvs"
    using assms(2) by (induction kvs) (auto simp: List.map_filter_def tok simp del: append.simps)
  then show ?thesis using spelled_tokens [OF assms] by (simp add: parse_params_def)
qed

lemma spaced_params_plain:
  "spaced_params kvs' kvs \<Longrightarrow> \<forall>(k, v) \<in> set kvs. clean k \<and> clean v \<Longrightarrow>
     (\<forall>(k, v) \<in> set kvs'. plain k \<and> plain v) \<and> map (\<lambda>(k, v). (trim k, trim v)) kvs' = kvs"
  unfolding spaced_params_def
  by (induction kvs' kvs rule: list_all2_induct) (auto simp: clean_def dest: spaced_plain intro!: trim_spaced)

lemma parse_params_spaced:
  assumes "kvs \<noteq> []" and "\<forall>(k, v) \<in> set kvs. clean k \<and> clean v" and "spaced_params kvs' kvs"
  shows "parse_params [t, spelled kvs'] = kvs" "CHR '','' \<notin> set (spelled kvs')" "kvs' \<noteq> []"
proof -
  show ne: "kvs' \<noteq> []" using assms(1,3) by (auto simp: spaced_params_def)
  note p = spaced_params_plain [OF assms(3,2)]
  show "parse_params [t, spelled kvs'] = kvs" using parse_params_plain [OF ne conjunct1 [OF p]] conjunct2 [OF p] by simp
  show "CHR '','' \<notin> set (spelled kvs')" using spelled_tokens [OF ne conjunct1 [OF p]] by simp
qed

lemma spaced_params_refl: "spaced_params kvs kvs"
  by (auto simp: spaced_params_def spaced_refl list_all2_same)

lemmas parse_params_spelled = parse_params_spaced [OF _ _ spaced_params_refl]

lemma parse_cluster_text:
  assumes "is_i32 (cp_lambda p)" and "is_i32 (cp_beta p)" and "is_i32 (cp_seed p)" and "bo_batch_size (cp_batch p) \<le> SIZE_MAX"
    and "stof a = Inr (cp_alpha p)" and "map_of kvs ` {''lambda'', ''beta'', ''alpha'', ''inverted_list_batch_size'', ''batch_file_output_path'', ''seed''} \<subseteq> {None}"
  shows "parse_cluster_params (kvs @ cluster_text p a) = Inr p"
  using assms by (simp add: parse_cluster_params_def get_param_def cluster_text_def map_add_def stoi_to_string stoul_to_string)

lemma stof_half: "stof ''0.5'' = Inr (F32 0x3F000000)"
proof -
  have b: "bit_length 10 = 4" by (simp add: bit_length.simps)
  have r: "f32_of_ratio False 5 10 = F32 0x3F000000"
    by (simp add: f32_of_ratio_def b f32_round_def bit_length.simps div_half_even_def f32_pack_def)
  have "mantissa is_hex (drop 2 ''0.5'') = (''5'', 0, [])" by (simp add: mantissa_def is_hex_def is_digit_def)
  moreover have "mantissa is_digit ''0.5'' = (''05'', 1, [])" by (simp add: mantissa_def is_digit_def)
  moreover have "number 10 ''05'' = 5" by (simp add: number_def digit_value_def is_digit_def)
  moreover have "f32_exp (F32 0x3F000000) = 126" by (simp add: f32_exp_def)
  ultimately show ?thesis
    using r by (simp add: stof_def strtof_def is_space_def to_lower_def exponent_def scaled_def is_inf_def)
qed

lemma stof_zero: "stof ''0.0'' = Inr (F32 0)"
proof -
  have b: "bit_length 10 = 4" by (simp add: bit_length.simps)
  have r: "f32_of_ratio False 0 10 = F32 0"
    by (simp add: f32_of_ratio_def b f32_round_def bit_length.simps div_half_even_def f32_pack_def)
  have "mantissa is_hex (drop 2 ''0.0'') = (''0'', 0, [])" by (simp add: mantissa_def is_hex_def is_digit_def)
  moreover have "mantissa is_digit ''0.0'' = (''00'', 1, [])" by (simp add: mantissa_def is_digit_def)
  moreover have "number 10 ''00'' = 0" by (simp add: number_def digit_value_def is_digit_def)
  ultimately show ?thesis
    using r by (simp add: stof_def strtof_def is_space_def to_lower_def exponent_def scaled_def)
qed

lemma stof_one: "stof ''1.0'' = Inr (F32 0x3F800000)"
proof -
  have b: "bit_length 10 = 4" by (simp add: bit_length.simps)
  have r: "f32_of_ratio False 10 10 = F32 0x3F800000" by code_simp
  have "mantissa is_hex (drop 2 ''1.0'') = (''0'', 0, [])" by (simp add: mantissa_def is_hex_def is_digit_def)
  moreover have "mantissa is_digit ''1.0'' = (''10'', 1, [])" by (simp add: mantissa_def is_digit_def)
  moreover have "number 10 ''10'' = 10" by (simp add: number_def digit_value_def is_digit_def)
  moreover have "f32_exp (F32 0x3F800000) = 127" by (simp add: f32_exp_def)
  ultimately show ?thesis
    using r by (simp add: stof_def strtof_def is_space_def to_lower_def exponent_def scaled_def is_inf_def)
qed

lemma default_numbers:
  "stoi ''10'' = Inr 10" "stoi ''5'' = Inr 5" "stoi (to_string kRandomSeed) = Inr kRandomSeed" "stoul ''1'' = Inr 1"
proof -
  have "is_i32 kRandomSeed" by (simp add: kRandomSeed_def is_i32_def)
  then show "stoi (to_string kRandomSeed) = Inr kRandomSeed" by (rule stoi_to_string)
qed (simp_all add: stoi_def stoul_def strtol_def number_def digit_value_def is_digit_def is_space_def is_i32_def SIZE_MAX_def)

lemma factory_idmap:
  "index_factory d (Some (''idmap,'' @ desc)) = bindE (index_factory d (Some desc)) (\<lambda>delegate. Inr (id_map_new (Some delegate)))"
proof -
  have s: "split_str (''idmap,'' @ desc) CHR '','' = ''idmap'' # split_str desc CHR '',''"
    using split_str_cons [of "CHR '',''" "''idmap''" desc] by simp
  have ne: "split_str desc CHR '','' \<noteq> []" by (subst split_str.simps) (simp add: Let_def)
  moreover have "trim ''idmap'' = ''idmap''" by (rule trim_clean) (simp add: clean_def plain_def blanks_def)
  ultimately show ?thesis
    using s split_str_join [of desc] by (subst index_factory.simps) (simp add: Let_def)
qed

lemma factory_split:
  assumes "clean t" and "kvs \<noteq> []" and "\<forall>(k, v) \<in> set kvs. clean k \<and> clean v"
  shows "split_str (t @ CHR '','' # spelled kvs) CHR '','' = [t, spelled kvs]" "trim t = t" "parse_params [t, spelled kvs] = kvs"
  using assms split_str_cons [of "CHR '',''" t "spelled kvs"] split_str_last parse_params_spelled [OF assms(2,3)]
  by (simp_all add: trim_clean clean_def plain_def)

definition described :: "f32 cluster_params \<Rightarrow> string \<Rightarrow> bool" where
  "described p a \<longleftrightarrow> is_i32 (cp_lambda p) \<and> is_i32 (cp_beta p) \<and> is_i32 (cp_seed p) \<and> bo_batch_size (cp_batch p) \<le> SIZE_MAX \<and>
     clean (bo_path (cp_batch p)) \<and> clean a \<and> stof a = Inr (cp_alpha p)"

lemma clean_names:
  "clean ''seismic''" "clean ''disk_seismic''" "clean ''seismic_sq''" "clean ''disk_seismic_sq''" "clean ''lambda''" "clean ''beta''"
  "clean ''alpha''" "clean ''inverted_list_batch_size''" "clean ''batch_file_output_path''" "clean ''seed''" "clean ''quantizer''"
  "clean ''vmin''" "clean ''vmax''" "clean ''8bit''" "clean ''16bit''"
  by (simp_all add: clean_def plain_def blanks_def)

lemma cluster_text_clean: "described p a \<Longrightarrow> \<forall>(k, v) \<in> set (cluster_text p a). clean k \<and> clean v"
  by (simp add: cluster_text_def described_def clean_names clean_to_string)

definition width_name :: "quantizer_type \<Rightarrow> string" where
  "width_name t = (case t of QT_8bit \<Rightarrow> ''8bit'' | QT_16bit \<Rightarrow> ''16bit'')"

definition quantizer_text :: "quantizer_type \<Rightarrow> string \<Rightarrow> string \<Rightarrow> (string \<times> string) list" where
  "quantizer_text t lo_text hi_text = [(''quantizer'', width_name t), (''vmin'', lo_text), (''vmax'', hi_text)]"

lemma parse_quantizer_text:
  assumes "stof lo_text = Inr lo" and "stof hi_text = Inr hi"
  shows "parse_quantizer_config (quantizer_text t lo_text hi_text @ kvs) = Inr \<lparr>qc_type = t, qc_vmin = lo, qc_vmax = hi\<rparr>"
  using assms by (cases t) (simp_all add: parse_quantizer_config_def get_param_def quantizer_text_def width_name_def)

lemma factory_clustered:
  assumes "described p a"
  shows "index_factory d (Some (''seismic,'' @ spelled (cluster_text p a))) = Inr (Seismic (se_new d p))"
    "index_factory d (Some (''disk_seismic,'' @ spelled (cluster_text p a))) = Inr (Disk (dk_new d p None))"
proof -
  have ne: "cluster_text p a \<noteq> []" by (simp add: cluster_text_def)
  note f = factory_split [OF _ ne cluster_text_clean [OF assms]]
  have p: "parse_cluster_params (cluster_text p a) = Inr p"
    using parse_cluster_text [of p a "[]"] assms by (simp add: described_def)
  show "index_factory d (Some (''seismic,'' @ spelled (cluster_text p a))) = Inr (Seismic (se_new d p))"
    using f [OF clean_names(1)] p by (subst index_factory.simps) (simp add: Let_def)
  show "index_factory d (Some (''disk_seismic,'' @ spelled (cluster_text p a))) = Inr (Disk (dk_new d p None))"
    using f [OF clean_names(2)] p by (subst index_factory.simps) (simp add: Let_def)
qed

lemma factory_quantized:
  assumes "described p a" and "clean lo_text" "clean hi_text" and "stof lo_text = Inr lo" "stof hi_text = Inr hi"
  shows "index_factory d (Some (''seismic_sq,'' @ spelled (quantizer_text t lo_text hi_text @ cluster_text p a))) =
      bindE (sx_new_with f32_finite t lo hi p d) (\<lambda>st. Inr (Seismic_SQ st))"
    "index_factory d (Some (''disk_seismic_sq,'' @ spelled (quantizer_text t lo_text hi_text @ cluster_text p a))) =
      bindE (dk_new_quantized f32_finite t lo hi p d) (\<lambda>st. Inr (Disk st))"
proof -
  let ?kvs = "quantizer_text t lo_text hi_text @ cluster_text p a"
  have ne: "?kvs \<noteq> []" by (simp add: cluster_text_def)
  have "clean (width_name t)" by (cases t) (simp_all add: width_name_def clean_names)
  then have "\<forall>(k, v) \<in> set ?kvs. clean k \<and> clean v"
    using cluster_text_clean [OF assms(1)] assms(2,3) by (auto simp: quantizer_text_def clean_names)
  note f = factory_split [OF _ ne this]
  have p: "parse_cluster_params ?kvs = Inr p"
    using parse_cluster_text [of p a "quantizer_text t lo_text hi_text"] assms(1) by (simp add: described_def quantizer_text_def)
  note q = parse_quantizer_text [OF assms(4,5), of t "cluster_text p a"]
  show "index_factory d (Some (''seismic_sq,'' @ spelled ?kvs)) = bindE (sx_new_with f32_finite t lo hi p d) (\<lambda>st. Inr (Seismic_SQ st))"
    using f [OF clean_names(3)] p q by (subst index_factory.simps) (simp add: Let_def)
  show "index_factory d (Some (''disk_seismic_sq,'' @ spelled ?kvs)) = bindE (dk_new_quantized f32_finite t lo hi p d) (\<lambda>st. Inr (Disk st))"
    using f [OF clean_names(4)] p q by (subst index_factory.simps) (simp add: Let_def)
qed

lemma factory_nested:
  "index_factory d (Some desc) = Inr idx \<Longrightarrow>
     index_factory d (Some (concat (replicate n ''idmap,'') @ desc)) = Inr (((\<lambda>i. id_map_new (Some i)) ^^ n) idx)"
proof (induction n)
  case (Suc n)
  have s: "concat (replicate (Suc n) ''idmap,'') @ desc = ''idmap,'' @ (concat (replicate n ''idmap,'') @ desc)" by simp
  show ?case unfolding s factory_idmap using Suc by simp
qed simp

text \<open>What a description that gives a type alone leaves to the factory.\<close>

definition default_params :: "f32 cluster_params" where
  "default_params = \<lparr>cp_lambda = 10, cp_beta = 5, cp_alpha = F32 0x3F000000, cp_batch = \<lparr>bo_batch_size = 1, bo_path = []\<rparr>, cp_seed = kRandomSeed\<rparr>"

lemma type_alone:
  assumes "clean t"
  shows "split_str t CHR '','' = [t]" "trim t = t" "parse_params [t] = []"
  using assms by (auto simp: clean_def plain_def parse_params_def intro: split_str_last trim_clean)

lemma no_params:
  "parse_cluster_params [] = Inr default_params"
  "parse_quantizer_config [] = Inr \<lparr>qc_type = QT_8bit, qc_vmin = F32 0, qc_vmax = F32 0x3F800000\<rparr>"
  by (simp_all add: parse_cluster_params_def parse_quantizer_config_def get_param_def default_numbers stof_half stof_zero stof_one default_params_def)

lemma plain_types: "clean ''brutal''" "clean ''inverted''" "clean ''idmap''"
  by (simp_all add: clean_def plain_def blanks_def)

lemma factory_default:
  "index_factory d (Some ''brutal'') = Inr (Brutal (bi_new d))"
  "index_factory d (Some ''inverted'') = Inr (Inverted (ii_new d))"
  "index_factory d (Some ''seismic'') = Inr (Seismic (se_new d default_params))"
  "index_factory d (Some ''disk_seismic'') = Inr (Disk (dk_new d default_params None))"
  "index_factory d (Some ''seismic_sq'') =
     bindE (sx_new_with f32_finite QT_8bit (F32 0) (F32 0x3F800000) default_params d) (\<lambda>st. Inr (Seismic_SQ st))"
  "index_factory d (Some ''disk_seismic_sq'') =
     bindE (dk_new_quantized f32_finite QT_8bit (F32 0) (F32 0x3F800000) default_params d) (\<lambda>st. Inr (Disk st))"
  "index_factory d (Some ''idmap'') = Inl (Invalid_argument ''idmap requires a delegate index type'')"
  by (subst index_factory.simps, simp add: Let_def type_alone plain_types clean_names no_params)+

lemma factory_refused:
  "index_factory d None = Inl (Invalid_argument ''Description cannot be null or empty'')"
  "index_factory d (Some []) = Inl (Invalid_argument ''Description cannot be null or empty'')"
  by (simp_all add: index_factory.simps)

lemma factory_unknown:
  assumes "clean t" and "t \<noteq> []" and "t \<notin> {''brutal'', ''inverted'', ''seismic'', ''disk_seismic'', ''disk_seismic_sq'', ''seismic_sq'', ''idmap''}"
  shows "index_factory d (Some t) = Inl (Invalid_argument (''Unknown index type: '' @ t))"
  using assms by (subst index_factory.simps) (simp add: Let_def type_alone)

lemma factory_unknown_quantizer:
  assumes "clean q" and "q \<noteq> ''8bit''" and "q \<noteq> ''16bit''"
  shows "index_factory d (Some (''seismic_sq,quantizer='' @ q)) = Inl (Invalid_argument (''unknown quantizer '' @ q))"
    "index_factory d (Some (''disk_seismic_sq,quantizer='' @ q)) = Inl (Invalid_argument (''unknown quantizer '' @ q))"
proof -
  have c: "\<forall>(k, v) \<in> set [(''quantizer'', q)]. clean k \<and> clean v" using assms(1) by (simp add: clean_names)
  note f = factory_split [OF _ _ c]
  have p: "parse_quantizer_config [(''quantizer'', q)] = Inl (Invalid_argument (''unknown quantizer '' @ q))"
    using assms(2,3) by (simp add: parse_quantizer_config_def get_param_def)
  show "index_factory d (Some (''seismic_sq,quantizer='' @ q)) = Inl (Invalid_argument (''unknown quantizer '' @ q))"
    using f [OF clean_names(3)] p by (subst index_factory.simps) (simp add: Let_def)
  show "index_factory d (Some (''disk_seismic_sq,quantizer='' @ q)) = Inl (Invalid_argument (''unknown quantizer '' @ q))"
    using f [OF clean_names(4)] p by (subst index_factory.simps) (simp add: Let_def)
qed

text \<open>Blanks around the type, and around the keys and values of parameters, make no difference.\<close>

lemma factory_spaced_type:
  assumes "spaced t' t" and "clean t"
  shows "index_factory d (Some (t' @ '','' @ rest)) = index_factory d (Some (t @ '','' @ rest))"
    "t \<noteq> [] \<Longrightarrow> index_factory d (Some t') = index_factory d (Some t)"
proof -
  have p: "CHR '','' \<notin> set t'" "CHR '','' \<notin> set t" using spaced_plain [OF assms(1)] assms(2) by (auto simp: clean_def plain_def)
  have params: "parse_params (t' # segs) = parse_params (t # segs)" for segs by (simp add: parse_params_def)
  note f = split_str_cons [OF p(1), of rest] split_str_cons [OF p(2), of rest] split_str_last [OF p(1)] split_str_last [OF p(2)]
    trim_spaced [OF assms] trim_clean [OF assms(2)]
  show "index_factory d (Some (t' @ '','' @ rest)) = index_factory d (Some (t @ '','' @ rest))"
    by (subst (1 2) index_factory.simps) (simp add: f params Let_def)
  show "index_factory d (Some t') = index_factory d (Some t)" if "t \<noteq> []"
  proof -
    have "t' \<noteq> []" using assms(1) that by (auto simp: spaced_def)
    then show ?thesis using that by (subst (1 2) index_factory.simps) (simp add: f params Let_def)
  qed
qed

lemma factory_spaced_params:
  assumes "spaced_params kvs' kvs" and "\<forall>(k, v) \<in> set kvs. clean k \<and> clean v" and "kvs \<noteq> []" and "clean t" and "t \<noteq> ''idmap''"
  shows "index_factory d (Some (t @ '','' @ spelled kvs')) = index_factory d (Some (t @ '','' @ spelled kvs))"
proof -
  have p: "CHR '','' \<notin> set t" using assms(4) by (simp add: clean_def plain_def)
  have s: "split_str (t @ CHR '','' # spelled kvs') CHR '','' = [t, spelled kvs']" "split_str (t @ CHR '','' # spelled kvs) CHR '','' = [t, spelled kvs]"
    using split_str_cons [OF p, of "spelled kvs'"] split_str_last [OF parse_params_spaced(2) [OF assms(3,2,1)]]
      split_str_cons [OF p, of "spelled kvs"] split_str_last [OF parse_params_spaced(2) [OF assms(3,2) spaced_params_refl]] by simp_all
  show ?thesis
    using assms(5) by (subst (1 2) index_factory.simps)
      (simp add: s trim_clean [OF assms(4)] parse_params_spaced(1) [OF assms(3,2,1)] parse_params_spelled(1) [OF assms(3,2)] Let_def)
qed

text \<open>
  C40: the factory builds what the description spells out. For any parameters, printed as decimal
  numbers and with any text that reads as \<open>alpha\<close>, a clustered index is constructed with exactly these,
  a quantized one with the width and range given as well, and each \<open>idmap\<close> in front wraps one id map
  around it. A type alone builds the index of that type with lambda 10, beta 5, alpha 0.5, one
  window, no spill file and a random seed, and with eight bits from 0 to 1 where it is quantized.
  Blanks (spaces, tabs, line feeds and carriage returns) around a type, a key or a value make no
  difference. No description, an empty one, a type that is not one of the seven, an \<open>idmap\<close> of nothing
  and a quantizer that is not one of the two are refused.
\<close>

theorem factory_builds_described:
  assumes "described p a" and "clean lo_text" "clean hi_text" and "stof lo_text = Inr lo" "stof hi_text = Inr hi"
  shows "index_factory d (Some (''disk_seismic,'' @ spelled (cluster_text p a))) = Inr (Disk (dk_new d p None)) \<and>
    index_factory d (Some (''seismic_sq,'' @ spelled (quantizer_text t lo_text hi_text @ cluster_text p a))) =
      bindE (sx_new_with f32_finite t lo hi p d) (\<lambda>st. Inr (Seismic_SQ st)) \<and>
    index_factory d (Some (''disk_seismic_sq,'' @ spelled (quantizer_text t lo_text hi_text @ cluster_text p a))) =
      bindE (dk_new_quantized f32_finite t lo hi p d) (\<lambda>st. Inr (Disk st)) \<and>
    (\<forall>n. index_factory d (Some (concat (replicate n ''idmap,'') @ ''seismic,'' @ spelled (cluster_text p a))) =
      Inr (((\<lambda>i. id_map_new (Some i)) ^^ n) (Seismic (se_new d p)))) \<and>
    index_factory d (Some ''brutal'') = Inr (Brutal (bi_new d)) \<and>
    index_factory d (Some ''inverted'') = Inr (Inverted (ii_new d)) \<and>
    index_factory d (Some ''seismic'') = Inr (Seismic (se_new d default_params)) \<and>
    index_factory d (Some ''disk_seismic'') = Inr (Disk (dk_new d default_params None)) \<and>
    index_factory d (Some ''seismic_sq'') =
      bindE (sx_new_with f32_finite QT_8bit (F32 0) (F32 0x3F800000) default_params d) (\<lambda>st. Inr (Seismic_SQ st)) \<and>
    index_factory d (Some ''disk_seismic_sq'') =
      bindE (dk_new_quantized f32_finite QT_8bit (F32 0) (F32 0x3F800000) default_params d) (\<lambda>st. Inr (Disk st)) \<and>
    (\<forall>u' u rest. spaced u' u \<and> clean u \<longrightarrow>
      index_factory d (Some (u' @ '','' @ rest)) = index_factory d (Some (u @ '','' @ rest)) \<and>
      (u \<noteq> [] \<longrightarrow> index_factory d (Some u') = index_factory d (Some u))) \<and>
    (\<forall>u kvs' kvs. spaced_params kvs' kvs \<and> (\<forall>(k, v) \<in> set kvs. clean k \<and> clean v) \<and> kvs \<noteq> [] \<and> clean u \<and> u \<noteq> ''idmap'' \<longrightarrow>
      index_factory d (Some (u @ '','' @ spelled kvs')) = index_factory d (Some (u @ '','' @ spelled kvs))) \<and>
    index_factory d None = Inl (Invalid_argument ''Description cannot be null or empty'') \<and>
    index_factory d (Some []) = Inl (Invalid_argument ''Description cannot be null or empty'') \<and>
    index_factory d (Some ''idmap'') = Inl (Invalid_argument ''idmap requires a delegate index type'') \<and>
    (\<forall>u. clean u \<and> u \<noteq> [] \<and>
       u \<notin> {''brutal'', ''inverted'', ''seismic'', ''disk_seismic'', ''disk_seismic_sq'', ''seismic_sq'', ''idmap''} \<longrightarrow>
       index_factory d (Some u) = Inl (Invalid_argument (''Unknown index type: '' @ u))) \<and>
    (\<forall>q. clean q \<and> q \<noteq> ''8bit'' \<and> q \<noteq> ''16bit'' \<longrightarrow>
       index_factory d (Some (''seismic_sq,quantizer='' @ q)) = Inl (Invalid_argument (''unknown quantizer '' @ q)) \<and>
       index_factory d (Some (''disk_seismic_sq,quantizer='' @ q)) = Inl (Invalid_argument (''unknown quantizer '' @ q)))"
  by (intro conjI allI impI; (elim conjE)?)
    (rule factory_clustered(2) [OF assms(1)], rule factory_quantized [OF assms], rule factory_quantized [OF assms],
     rule factory_nested [OF factory_clustered(1) [OF assms(1)]], (rule factory_default)+,
     (rule factory_spaced_type, assumption+)+, rule factory_spaced_params, assumption+,
     rule factory_refused, rule factory_refused, rule factory_default, rule factory_unknown, assumption+,
     (rule factory_unknown_quantizer, assumption+)+)

theorem factory_builds_described_witness:
  "index_factory 100 (Some ''idmap,idmap,seismic,lambda=20|beta=-3|alpha=0.5|inverted_list_batch_size=4|batch_file_output_path=/tmp/x|seed=42'') =
     Inr (id_map_new (Some (id_map_new (Some (Seismic (se_new 100
       \<lparr>cp_lambda = 20, cp_beta = -3, cp_alpha = F32 0x3F000000, cp_batch = \<lparr>bo_batch_size = 4, bo_path = ''/tmp/x''\<rparr>, cp_seed = 42\<rparr>))))))"
proof -
  let ?p = "\<lparr>cp_lambda = 20, cp_beta = -3, cp_alpha = F32 0x3F000000, cp_batch = \<lparr>bo_batch_size = 4, bo_path = ''/tmp/x''\<rparr>, cp_seed = 42\<rparr>"
  have c: "clean ''0.5''" "clean ''/tmp/x''" by (simp_all add: clean_def plain_def blanks_def)
  then have "described ?p ''0.5''" by (simp add: described_def stof_half is_i32_def SIZE_MAX_def)
  from factory_builds_described [OF this c(1,1) stof_half stof_half, of 100]
  have "index_factory 100 (Some (concat (replicate 2 ''idmap,'') @ ''seismic,'' @ spelled (cluster_text ?p ''0.5''))) =
      Inr (((\<lambda>i. id_map_new (Some i)) ^^ 2) (Seismic (se_new 100 ?p)))" by blast
  moreover have two: "replicate 2 x = [x, x]" for x :: string by (simp add: numeral_2_eq_2)
  moreover have "concat (replicate 2 ''idmap,'') @ ''seismic,'' @ spelled (cluster_text ?p ''0.5'') =
      ''idmap,idmap,seismic,lambda=20|beta=-3|alpha=0.5|inverted_list_batch_size=4|batch_file_output_path=/tmp/x|seed=42''"
    by (simp add: cluster_text_def to_string_def digits_of.simps char_of_def bit_0 two)
  ultimately show ?thesis by (simp add: numeral_2_eq_2)
qed

end
