(* ===== verification/Distance_SIMD.thy ===== *)
theory Distance_SIMD
  imports Csr_File
begin

text \<open>
  The vector kernels that replace \<^verbatim>\<open>utils/distance.h\<close> where the target has them:
  \<^verbatim>\<open>distance_avx2.h\<close>, \<^verbatim>\<open>distance_avx512.h\<close>, \<^verbatim>\<open>distance_neon.h\<close>, \<^verbatim>\<open>distance_sve.h\<close>. A register is the list
  of its lanes. An array argument is the rest of its buffer from the pointer on, with the length of the
  row apart: a load past the row stays defined while it stays in the buffer. In exact arithmetic the
  kernels compute the scalar dot product; some of them read past the end of the arrays to do so.
\<close>

section \<open>Registers\<close>

definition load :: "nat \<Rightarrow> 'a list \<Rightarrow> nat \<Rightarrow> exn + 'a list" where
  "load n xs i = take_elems n (drop i xs)"

definition gather :: "'a list \<Rightarrow> nat list \<Rightarrow> exn + 'a list" where
  "gather dense idx = mapE (read_at dense) idx"

text \<open>A gather of 32-bit lanes at byte offsets.\<close>

definition gather32 :: "byte list \<Rightarrow> nat list \<Rightarrow> exn + nat list" where
  "gather32 bytes offsets = mapE (\<lambda>off. bindE (load 4 bytes off) (\<lambda>b. Inr (le_nat b))) offsets"

text \<open>Lane by lane, with the machine's fused multiply-add.\<close>

definition fmadd :: "('w \<Rightarrow> 'w \<Rightarrow> 'w \<Rightarrow> 'w) \<Rightarrow> 'w list \<Rightarrow> 'w list \<Rightarrow> 'w list \<Rightarrow> 'w list" where
  "fmadd fma a b c = map (\<lambda>(x, y, z). fma x y z) (zip a (zip b c))"

definition lanes_add :: "'w :: plus list \<Rightarrow> 'w list \<Rightarrow> 'w list" where
  "lanes_add a b = map (\<lambda>(x, y). x + y) (zip a b)"

text \<open>The sums of adjacent lanes, of the first register and then of the second.\<close>

fun pairs :: "'w :: plus list \<Rightarrow> 'w list" where
  "pairs (x # y # zs) = (x + y) # pairs zs"
| "pairs xs = xs"

definition hadd :: "'w :: plus list \<Rightarrow> 'w list \<Rightarrow> 'w list" where
  "hadd a b = pairs a @ pairs b"

definition avx2_sum :: "'w :: plus list \<Rightarrow> 'w" where
  "avx2_sum s = (let sum128 = lanes_add (take 4 s) (drop 4 s); sum128 = hadd sum128 sum128; sum128 = hadd sum128 sum128
     in sum128 ! 0)"

text \<open>\<^verbatim>\<open>_mm512_reduce_add_ps\<close> is a sequence of additions of halves.\<close>

definition reduce_add :: "'w :: plus list \<Rightarrow> 'w" where
  "reduce_add s = foldl (\<lambda>s h. lanes_add (take h s) (drop h s)) s [8, 4, 2, 1] ! 0"

definition neon_sum :: "'w :: plus list \<Rightarrow> 'w" where
  "neon_sum s = (let sum2 = lanes_add (take 2 s) (drop 2 s); sum2 = hadd sum2 sum2 in sum2 ! 0)"

text \<open>\<^verbatim>\<open>svaddv_f32\<close>: adjacent pairs until one lane is left.\<close>

function sve_sum :: "'w :: {zero, plus} list \<Rightarrow> 'w" where
  "sve_sum s = (if length s < 2 then (case s of [] \<Rightarrow> 0 | x # _ \<Rightarrow> x) else sve_sum (pairs s))"
  by pat_completeness auto

lemma length_pairs: "length (pairs xs) = (length xs + 1) div 2"
  by (induction xs rule: pairs.induct) auto

termination sve_sum
  by (relation "measure length") (auto simp: length_pairs)

declare sve_sum.simps [simp del]

section \<open>The shape of the kernels\<close>

text \<open>
  Whole registers first, then the rest one by one. \<open>block i\<close> and \<open>rest i\<close> are the values and the
  entries of the dense vector they meet, from \<open>i\<close> on and at \<open>i\<close>.
\<close>

definition simd_dot ::
  "nat \<Rightarrow> ('w list \<Rightarrow> 'w) \<Rightarrow> ('w \<Rightarrow> 'w \<Rightarrow> 'w \<Rightarrow> 'w) \<Rightarrow> (nat \<Rightarrow> exn + 'w list \<times> 'w list) \<Rightarrow> (nat \<Rightarrow> exn + 'w \<times> 'w) \<Rightarrow> size_t \<Rightarrow>
     exn + 'w :: {zero, plus, times}" where
  "simd_dot lanes horizontal fma block rest len =
     bindE (foldE (\<lambda>sum b. bindE (block (b * lanes)) (\<lambda>(w, d). Inr (fmadd fma w d sum))) (replicate lanes 0) [0..<len div lanes]) (\<lambda>sum.
     foldE (\<lambda>result i. bindE (rest i) (\<lambda>(w, d). Inr (result + w * d))) (horizontal sum) [len div lanes * lanes..<len])"

definition rest_of :: "('v \<Rightarrow> 'w) \<Rightarrow> term_t list \<Rightarrow> 'v list \<Rightarrow> 'v list \<Rightarrow> nat \<Rightarrow> exn + 'w \<times> 'w" where
  "rest_of conv indices values dense i =
     bindE (read_at indices i) (\<lambda>t. bindE (read_at values i) (\<lambda>v. bindE (read_at dense t) (\<lambda>d. Inr (conv v, conv d))))"

section \<open>AVX2\<close>

definition avx2_dot_product_float_dense ::
  "('w \<Rightarrow> 'w \<Rightarrow> 'w \<Rightarrow> 'w) \<Rightarrow> term_t list \<Rightarrow> 'w list \<Rightarrow> size_t \<Rightarrow> 'w list \<Rightarrow> exn + 'w :: {zero, plus, times}" where
  "avx2_dot_product_float_dense fma indices weights len dense = simd_dot 8 avx2_sum fma
     (\<lambda>i. bindE (load 8 indices i) (\<lambda>idx. bindE (gather dense idx) (\<lambda>gathered.
          bindE (load 8 weights i) (\<lambda>weight_vals. Inr (weight_vals, gathered)))))
     (rest_of id indices weights dense) len"

definition avx2_dot_product_uint16_dense ::
  "(nat \<Rightarrow> 'w) \<Rightarrow> ('w \<Rightarrow> 'w \<Rightarrow> 'w \<Rightarrow> 'w) \<Rightarrow> term_t list \<Rightarrow> nat list \<Rightarrow> size_t \<Rightarrow> nat list \<Rightarrow> exn + 'w :: {zero, plus, times}" where
  "avx2_dot_product_uint16_dense conv fma indices values len dense = simd_dot 8 avx2_sum fma
     (\<lambda>i. bindE (load 8 indices i) (\<lambda>idx. bindE (gather dense idx) (\<lambda>gathered.
          bindE (load 8 values i) (\<lambda>vals_16. Inr (map conv vals_16, map conv gathered)))))
     (rest_of conv indices values dense) len"

text \<open>Eight bytes are loaded and extended.\<close>

definition avx2_dot_product_uint8_dense ::
  "(nat \<Rightarrow> 'w) \<Rightarrow> ('w \<Rightarrow> 'w \<Rightarrow> 'w \<Rightarrow> 'w) \<Rightarrow> term_t list \<Rightarrow> byte list \<Rightarrow> size_t \<Rightarrow> byte list \<Rightarrow> exn + 'w :: {zero, plus, times}" where
  "avx2_dot_product_uint8_dense conv fma indices values len dense = simd_dot 8 avx2_sum fma
     (\<lambda>i. bindE (load 8 indices i) (\<lambda>idx. bindE (gather dense idx) (\<lambda>gathered.
          bindE (load 8 values i) (\<lambda>vals_8. Inr (map (conv \<circ> unat) vals_8, map (conv \<circ> unat) gathered)))))
     (rest_of (conv \<circ> unat) indices values dense) len"

section \<open>AVX-512\<close>

definition avx512_dot_product_float_dense ::
  "('w \<Rightarrow> 'w \<Rightarrow> 'w \<Rightarrow> 'w) \<Rightarrow> term_t list \<Rightarrow> 'w list \<Rightarrow> size_t \<Rightarrow> 'w list \<Rightarrow> exn + 'w :: {zero, plus, times}" where
  "avx512_dot_product_float_dense fma indices weights len dense = simd_dot 16 reduce_add fma
     (\<lambda>i. bindE (load 16 indices i) (\<lambda>idx. bindE (gather dense idx) (\<lambda>dense_vals.
          bindE (load 16 weights i) (\<lambda>weight_vals. Inr (weight_vals, dense_vals)))))
     (rest_of id indices weights dense) len"

text \<open>The dense vector of codes is gathered in 32-bit pieces, of which the low part is kept: \<open>dense\<close> are its bytes.\<close>

definition avx512_dot_product_uint16_dense ::
  "(nat \<Rightarrow> 'w) \<Rightarrow> ('w \<Rightarrow> 'w \<Rightarrow> 'w \<Rightarrow> 'w) \<Rightarrow> term_t list \<Rightarrow> nat list \<Rightarrow> size_t \<Rightarrow> byte list \<Rightarrow> exn + 'w :: {zero, plus, times}" where
  "avx512_dot_product_uint16_dense conv fma indices values len dense = simd_dot 16 reduce_add fma
     (\<lambda>i. bindE (load 16 indices i) (\<lambda>idx.
          bindE (gather32 dense (map (\<lambda>t. t * 2) idx)) (\<lambda>dense_i32.
          bindE (load 16 values i) (\<lambda>vals_16. Inr (map conv vals_16, map (\<lambda>x. conv (and x 0xFFFF)) dense_i32)))))
     (rest_of conv indices values (typed_array 2 le_nat dense)) len"

definition avx512_dot_product_uint8_dense ::
  "(nat \<Rightarrow> 'w) \<Rightarrow> ('w \<Rightarrow> 'w \<Rightarrow> 'w \<Rightarrow> 'w) \<Rightarrow> term_t list \<Rightarrow> byte list \<Rightarrow> size_t \<Rightarrow> byte list \<Rightarrow> exn + 'w :: {zero, plus, times}" where
  "avx512_dot_product_uint8_dense conv fma indices values len dense = simd_dot 16 reduce_add fma
     (\<lambda>i. bindE (load 16 indices i) (\<lambda>idx.
          bindE (gather32 dense idx) (\<lambda>dense_i32.
          bindE (load 16 values i) (\<lambda>vals_8. Inr (map (conv \<circ> unat) vals_8, map (\<lambda>x. conv (and x 0xFF)) dense_i32)))))
     (rest_of (conv \<circ> unat) indices values dense) len"

section \<open>NEON\<close>

definition neon_dot_product_float_dense ::
  "('w \<Rightarrow> 'w \<Rightarrow> 'w \<Rightarrow> 'w) \<Rightarrow> term_t list \<Rightarrow> 'w list \<Rightarrow> size_t \<Rightarrow> 'w list \<Rightarrow> exn + 'w :: {zero, plus, times}" where
  "neon_dot_product_float_dense fma indices weights len dense = simd_dot 4 neon_sum fma
     (\<lambda>i. bindE (load 4 indices i) (\<lambda>idx. bindE (gather dense idx) (\<lambda>gathered.
          bindE (load 4 weights i) (\<lambda>weight_vals. Inr (weight_vals, gathered)))))
     (rest_of id indices weights dense) len"

text \<open>Eight bytes are loaded for the four that are used.\<close>

definition neon_dot_product_uint8_dense ::
  "(nat \<Rightarrow> 'w) \<Rightarrow> ('w \<Rightarrow> 'w \<Rightarrow> 'w \<Rightarrow> 'w) \<Rightarrow> term_t list \<Rightarrow> byte list \<Rightarrow> size_t \<Rightarrow> byte list \<Rightarrow> exn + 'w :: {zero, plus, times}" where
  "neon_dot_product_uint8_dense conv fma indices values len dense = simd_dot 4 neon_sum fma
     (\<lambda>i. bindE (load 4 indices i) (\<lambda>idx. bindE (gather dense idx) (\<lambda>gathered.
          bindE (load 8 values i) (\<lambda>vals_8. Inr (map (conv \<circ> unat) (take 4 vals_8), map (conv \<circ> unat) gathered)))))
     (rest_of (conv \<circ> unat) indices values dense) len"

text \<open>Integers: products of 32 bits added to sums of 64, in two registers of two lanes.\<close>

definition vaddw :: "nat list \<Rightarrow> nat list \<Rightarrow> nat list" where
  "vaddw a b = map (\<lambda>(x, y). u64 (x + y)) (zip a b)"

definition neon_dot_product_uint16_dense ::
  "(nat \<Rightarrow> 'w) \<Rightarrow> term_t list \<Rightarrow> nat list \<Rightarrow> size_t \<Rightarrow> nat list \<Rightarrow> exn + 'w" where
  "neon_dot_product_uint16_dense conv indices values len dense =
     bindE (foldE (\<lambda>(sum_lo, sum_hi) b.
         bindE (load 8 indices (b * 8)) (\<lambda>idx. bindE (gather dense idx) (\<lambda>gathered. bindE (load 8 values (b * 8)) (\<lambda>vals.
         let prod = map (\<lambda>(v, d). u32 (v * d)) (zip vals gathered); prod_lo = take 4 prod; prod_hi = drop 4 prod
         in Inr (vaddw (vaddw sum_lo (take 2 prod_lo)) (drop 2 prod_lo), vaddw (vaddw sum_hi (take 2 prod_hi)) (drop 2 prod_hi))))))
       ([0, 0], [0, 0]) [0..<len div 8]) (\<lambda>(sum_lo, sum_hi).
     let total_lanes = vaddw sum_lo sum_hi; result_int = u64 (total_lanes ! 0 + total_lanes ! 1)
     in bindE (foldE (\<lambda>result_int i. bindE (rest_of id indices values dense i) (\<lambda>(v, d). Inr (u64 (result_int + u64 (v * d)))))
          result_int [len div 8 * 8..<len]) (\<lambda>result_int. Inr (conv result_int)))"

section \<open>SVE\<close>

text \<open>
  \<open>vl\<close> 32-bit lanes, a number only the machine knows. The loads of 16-bit and of 8-bit elements fill
  a whole register, two and four times what is unpacked from its low end.
\<close>

definition sve_dot_product_float_dense ::
  "nat \<Rightarrow> ('w \<Rightarrow> 'w \<Rightarrow> 'w \<Rightarrow> 'w) \<Rightarrow> term_t list \<Rightarrow> 'w list \<Rightarrow> size_t \<Rightarrow> 'w list \<Rightarrow> exn + 'w :: {zero, plus, times}" where
  "sve_dot_product_float_dense vl fma indices weights len dense = simd_dot vl sve_sum fma
     (\<lambda>i. bindE (load (2 * vl) indices i) (\<lambda>idx16. bindE (gather dense (take vl idx16)) (\<lambda>dense_vals.
          bindE (load vl weights i) (\<lambda>weight_vals. Inr (weight_vals, dense_vals)))))
     (rest_of id indices weights dense) len"

definition sve_dot_product_uint16_dense ::
  "nat \<Rightarrow> (nat \<Rightarrow> 'w) \<Rightarrow> ('w \<Rightarrow> 'w \<Rightarrow> 'w \<Rightarrow> 'w) \<Rightarrow> term_t list \<Rightarrow> nat list \<Rightarrow> size_t \<Rightarrow> byte list \<Rightarrow> exn + 'w :: {zero, plus, times}" where
  "sve_dot_product_uint16_dense vl conv fma indices values len dense = simd_dot vl sve_sum fma
     (\<lambda>i. bindE (load (2 * vl) indices i) (\<lambda>idx16.
          bindE (gather32 dense (map (push_bit 1) (take vl idx16))) (\<lambda>dense_u32.
          bindE (load (2 * vl) values i) (\<lambda>vals_16. Inr (map conv (take vl vals_16), map (\<lambda>x. conv (and x 0xFFFF)) dense_u32)))))
     (rest_of conv indices values (typed_array 2 le_nat dense)) len"

definition sve_dot_product_uint8_dense ::
  "nat \<Rightarrow> (nat \<Rightarrow> 'w) \<Rightarrow> ('w \<Rightarrow> 'w \<Rightarrow> 'w \<Rightarrow> 'w) \<Rightarrow> term_t list \<Rightarrow> byte list \<Rightarrow> size_t \<Rightarrow> byte list \<Rightarrow> exn + 'w :: {zero, plus, times}" where
  "sve_dot_product_uint8_dense vl conv fma indices values len dense = simd_dot vl sve_sum fma
     (\<lambda>i. bindE (load (2 * vl) indices i) (\<lambda>idx16.
          bindE (gather32 dense (take vl idx16)) (\<lambda>dense_u32.
          bindE (load (4 * vl) values i) (\<lambda>vals_8. Inr (map (conv \<circ> unat) (take vl vals_8), map (\<lambda>x. conv (and x 0xFF)) dense_u32)))))
     (rest_of (conv \<circ> unat) indices values dense) len"

section \<open>All rows of a matrix\<close>

text \<open>
  The loop over the rows is the same in the four headers: a row is the rest of both arrays from its
  offset on and a length. The prefetch of the next row has no effect.
\<close>

definition simd_vectors_dense ::
  "nat \<Rightarrow> (byte list \<Rightarrow> 'v) \<Rightarrow> (term_t list \<Rightarrow> 'v list \<Rightarrow> size_t \<Rightarrow> exn + 'w) \<Rightarrow> sparse_vectors \<Rightarrow> exn + 'w list" where
  "simd_vectors_dense sizeof dec row_kernel vectors =
     mapE (\<lambda>i. bindE (row_span (buf_elems (sv_indptr vectors)) i) (\<lambda>(start, len).
                 row_kernel (drop start (buf_elems (sv_indices vectors)))
                        (typed_array sizeof dec (drop (start * sizeof) (buf_elems (sv_values vectors)))) len))
       [0..<num_vectors vectors]"

definition avx2_dot_product_float_vectors_dense ::
  "(byte list \<Rightarrow> 'w) \<Rightarrow> ('w \<Rightarrow> 'w \<Rightarrow> 'w \<Rightarrow> 'w) \<Rightarrow> sparse_vectors \<Rightarrow> 'w list \<Rightarrow> exn + 'w :: {zero, plus, times} list" where
  "avx2_dot_product_float_vectors_dense dec fma vectors dense =
     simd_vectors_dense 4 dec (\<lambda>indices values len. avx2_dot_product_float_dense fma indices values len dense) vectors"

definition avx2_dot_product_uint16_vectors_dense ::
  "(nat \<Rightarrow> 'w) \<Rightarrow> ('w \<Rightarrow> 'w \<Rightarrow> 'w \<Rightarrow> 'w) \<Rightarrow> sparse_vectors \<Rightarrow> nat list \<Rightarrow> exn + 'w :: {zero, plus, times} list" where
  "avx2_dot_product_uint16_vectors_dense conv fma vectors dense =
     simd_vectors_dense 2 le_nat (\<lambda>indices values len. avx2_dot_product_uint16_dense conv fma indices values len dense) vectors"

definition avx2_dot_product_uint8_vectors_dense ::
  "(nat \<Rightarrow> 'w) \<Rightarrow> ('w \<Rightarrow> 'w \<Rightarrow> 'w \<Rightarrow> 'w) \<Rightarrow> sparse_vectors \<Rightarrow> byte list \<Rightarrow> exn + 'w :: {zero, plus, times} list" where
  "avx2_dot_product_uint8_vectors_dense conv fma vectors dense =
     simd_vectors_dense 1 hd (\<lambda>indices values len. avx2_dot_product_uint8_dense conv fma indices values len dense) vectors"

definition avx512_dot_product_float_vectors_dense ::
  "(byte list \<Rightarrow> 'w) \<Rightarrow> ('w \<Rightarrow> 'w \<Rightarrow> 'w \<Rightarrow> 'w) \<Rightarrow> sparse_vectors \<Rightarrow> 'w list \<Rightarrow> exn + 'w :: {zero, plus, times} list" where
  "avx512_dot_product_float_vectors_dense dec fma vectors dense =
     simd_vectors_dense 4 dec (\<lambda>indices values len. avx512_dot_product_float_dense fma indices values len dense) vectors"

definition avx512_dot_product_uint16_vectors_dense ::
  "(nat \<Rightarrow> 'w) \<Rightarrow> ('w \<Rightarrow> 'w \<Rightarrow> 'w \<Rightarrow> 'w) \<Rightarrow> sparse_vectors \<Rightarrow> byte list \<Rightarrow> exn + 'w :: {zero, plus, times} list" where
  "avx512_dot_product_uint16_vectors_dense conv fma vectors dense =
     simd_vectors_dense 2 le_nat (\<lambda>indices values len. avx512_dot_product_uint16_dense conv fma indices values len dense) vectors"

definition avx512_dot_product_uint8_vectors_dense ::
  "(nat \<Rightarrow> 'w) \<Rightarrow> ('w \<Rightarrow> 'w \<Rightarrow> 'w \<Rightarrow> 'w) \<Rightarrow> sparse_vectors \<Rightarrow> byte list \<Rightarrow> exn + 'w :: {zero, plus, times} list" where
  "avx512_dot_product_uint8_vectors_dense conv fma vectors dense =
     simd_vectors_dense 1 hd (\<lambda>indices values len. avx512_dot_product_uint8_dense conv fma indices values len dense) vectors"

definition neon_dot_product_float_vectors_dense ::
  "(byte list \<Rightarrow> 'w) \<Rightarrow> ('w \<Rightarrow> 'w \<Rightarrow> 'w \<Rightarrow> 'w) \<Rightarrow> sparse_vectors \<Rightarrow> 'w list \<Rightarrow> exn + 'w :: {zero, plus, times} list" where
  "neon_dot_product_float_vectors_dense dec fma vectors dense =
     simd_vectors_dense 4 dec (\<lambda>indices values len. neon_dot_product_float_dense fma indices values len dense) vectors"

definition neon_dot_product_uint16_vectors_dense ::
  "(nat \<Rightarrow> 'w) \<Rightarrow> sparse_vectors \<Rightarrow> nat list \<Rightarrow> exn + 'w list" where
  "neon_dot_product_uint16_vectors_dense conv vectors dense =
     simd_vectors_dense 2 le_nat (\<lambda>indices values len. neon_dot_product_uint16_dense conv indices values len dense) vectors"

definition neon_dot_product_uint8_vectors_dense ::
  "(nat \<Rightarrow> 'w) \<Rightarrow> ('w \<Rightarrow> 'w \<Rightarrow> 'w \<Rightarrow> 'w) \<Rightarrow> sparse_vectors \<Rightarrow> byte list \<Rightarrow> exn + 'w :: {zero, plus, times} list" where
  "neon_dot_product_uint8_vectors_dense conv fma vectors dense =
     simd_vectors_dense 1 hd (\<lambda>indices values len. neon_dot_product_uint8_dense conv fma indices values len dense) vectors"

definition sve_dot_product_float_vectors_dense ::
  "nat \<Rightarrow> (byte list \<Rightarrow> 'w) \<Rightarrow> ('w \<Rightarrow> 'w \<Rightarrow> 'w \<Rightarrow> 'w) \<Rightarrow> sparse_vectors \<Rightarrow> 'w list \<Rightarrow> exn + 'w :: {zero, plus, times} list" where
  "sve_dot_product_float_vectors_dense vl dec fma vectors dense =
     simd_vectors_dense 4 dec (\<lambda>indices values len. sve_dot_product_float_dense vl fma indices values len dense) vectors"

definition sve_dot_product_uint16_vectors_dense ::
  "nat \<Rightarrow> (nat \<Rightarrow> 'w) \<Rightarrow> ('w \<Rightarrow> 'w \<Rightarrow> 'w \<Rightarrow> 'w) \<Rightarrow> sparse_vectors \<Rightarrow> byte list \<Rightarrow> exn + 'w :: {zero, plus, times} list" where
  "sve_dot_product_uint16_vectors_dense vl conv fma vectors dense =
     simd_vectors_dense 2 le_nat (\<lambda>indices values len. sve_dot_product_uint16_dense vl conv fma indices values len dense) vectors"

definition sve_dot_product_uint8_vectors_dense ::
  "nat \<Rightarrow> (nat \<Rightarrow> 'w) \<Rightarrow> ('w \<Rightarrow> 'w \<Rightarrow> 'w \<Rightarrow> 'w) \<Rightarrow> sparse_vectors \<Rightarrow> byte list \<Rightarrow> exn + 'w :: {zero, plus, times} list" where
  "sve_dot_product_uint8_vectors_dense vl conv fma vectors dense =
     simd_vectors_dense 1 hd (\<lambda>indices values len. sve_dot_product_uint8_dense vl conv fma indices values len dense) vectors"

section \<open>Horizontal sums\<close>

lemma length_lanes_add [simp]: "length (lanes_add a b) = min (length a) (length b)"
  by (simp add: lanes_add_def)

lemma sum_lanes_add: "length a = length b \<Longrightarrow> sum_list (lanes_add a b) = sum_list a + (sum_list b :: 'w :: comm_monoid_add)"
  by (induction a b rule: list_induct2) (simp_all add: lanes_add_def add_ac)

lemma sum_halves:
  fixes s :: "'w :: comm_monoid_add list"
  assumes "length s = 2 * h"
  shows "sum_list (lanes_add (take h s) (drop h s)) = sum_list s" "length (lanes_add (take h s) (drop h s)) = h"
proof -
  have "sum_list (take h s) + sum_list (drop h s) = sum_list (take h s @ drop h s)" by (simp only: sum_list_append)
  then show "sum_list (lanes_add (take h s) (drop h s)) = sum_list s"
    using assms by (simp add: sum_lanes_add)
  show "length (lanes_add (take h s) (drop h s)) = h" using assms by simp
qed

lemma sum_pairs: "sum_list (pairs xs) = sum_list (xs :: 'w :: monoid_add list)"
  by (induction xs rule: pairs.induct) (simp_all add: add.assoc)

lemma single_sum: "length s = 1 \<Longrightarrow> s ! 0 = sum_list (s :: 'w :: monoid_add list)"
  by (cases s) auto

lemma four_lanes: "length xs = 4 \<Longrightarrow> \<exists>a b c d. xs = [a, b, c, d]"
  by (auto simp: length_Suc_conv numeral_eq_Suc)

lemma two_lanes: "length xs = 2 \<Longrightarrow> \<exists>a b. xs = [a, b]"
  by (auto simp: length_Suc_conv numeral_eq_Suc)

lemma avx2_sum: "length s = 8 \<Longrightarrow> avx2_sum s = sum_list (s :: 'w :: comm_monoid_add list)"
proof -
  assume "length s = 8"
  then have s: "length s = 2 * 4" by simp
  obtain a b c d where q: "lanes_add (take 4 s) (drop 4 s) = [a, b, c, d]"
    using four_lanes [OF sum_halves(2) [OF s]] by blast
  then have "avx2_sum s = sum_list [a, b, c, d]" by (simp add: avx2_sum_def hadd_def add.assoc)
  then show ?thesis using sum_halves(1) [OF s] q by simp
qed

lemma neon_sum: "length s = 4 \<Longrightarrow> neon_sum s = sum_list (s :: 'w :: comm_monoid_add list)"
proof -
  assume "length s = 4"
  then have s: "length s = 2 * 2" by simp
  obtain a b where q: "lanes_add (take 2 s) (drop 2 s) = [a, b]"
    using two_lanes [OF sum_halves(2) [OF s]] by blast
  then have "neon_sum s = sum_list [a, b]" by (simp add: neon_sum_def hadd_def)
  then show ?thesis using sum_halves(1) [OF s] q by simp
qed

lemma reduce_add: "length s = 16 \<Longrightarrow> reduce_add s = sum_list (s :: 'w :: comm_monoid_add list)"
proof -
  assume s: "length s = 16"
  define s1 where "s1 = lanes_add (take 8 s) (drop 8 s)"
  define s2 where "s2 = lanes_add (take 4 s1) (drop 4 s1)"
  define s3 where "s3 = lanes_add (take 2 s2) (drop 2 s2)"
  define s4 where "s4 = lanes_add (take 1 s3) (drop 1 s3)"
  have "length s = 2 * 8" using s by simp
  note 1 = sum_halves [OF this, folded s1_def]
  have "length s1 = 2 * 4" using 1 by simp
  note 2 = sum_halves [OF this, folded s2_def]
  have "length s2 = 2 * 2" using 2 by simp
  note 3 = sum_halves [OF this, folded s3_def]
  have "length s3 = 2 * 1" using 3 by simp
  note 4 = sum_halves [OF this, folded s4_def]
  have "reduce_add s = s4 ! 0" by (simp only: reduce_add_def foldl.simps s1_def [symmetric] s2_def [symmetric] s3_def [symmetric] s4_def [symmetric])
  then show ?thesis using single_sum [OF 4(2)] 1(1) 2(1) 3(1) 4(1) by simp
qed

lemma sve_sum: "sve_sum s = sum_list (s :: 'w :: monoid_add list)"
proof (induction s rule: sve_sum.induct)
  case (1 s)
  show ?case
  proof (cases "length s < 2")
    case True
    then consider "s = []" | x where "s = [x]" by (cases s; cases "tl s") auto
    then show ?thesis by cases (subst sve_sum.simps, simp)+
  next
    case False
    then have "sve_sum s = sve_sum (pairs s)" by (subst sve_sum.simps) simp
    then show ?thesis using 1 False by (simp add: sum_pairs)
  qed
qed

section \<open>A kernel computes the dot product\<close>

lemma length_fmadd [simp]: "length (fmadd fma a b c) = min (length a) (min (length b) (length c))"
  by (simp add: fmadd_def)

lemma sum_fmadd:
  fixes a b c :: "'w :: comm_semiring_1 list"
  assumes "length a = n" "length b = n" "length c = n"
  shows "sum_list (fmadd (\<lambda>x y z. x * y + z) a b c) = (\<Sum>i<n. a ! i * b ! i) + sum_list c"
proof -
  have "sum_list (fmadd (\<lambda>x y z. x * y + z) a b c) = (\<Sum>i<n. a ! i * b ! i + c ! i)"
    using assms by (simp add: fmadd_def sum_list_sum_nth atLeast0LessThan)
  also have "\<dots> = (\<Sum>i<n. a ! i * b ! i) + sum_list c"
    using assms by (simp add: sum.distrib sum_list_sum_nth atLeast0LessThan)
  finally show ?thesis .
qed

lemma sum_lessThan_add: "(\<Sum>i<(a :: nat) + b. f i) = (\<Sum>i<a. f i) + (\<Sum>i<b. f (a + i) :: 'w :: comm_monoid_add)"
  by (induction b) (simp_all add: add.assoc)

lemma simd_dot_exact:
  fixes ws ds :: "'w :: comm_semiring_1 list"
  assumes block: "\<And>i. i + lanes \<le> len \<Longrightarrow> i + lanes \<le> len div lanes * lanes \<Longrightarrow> block i = Inr (take lanes (drop i ws), take lanes (drop i ds))"
    and rest: "\<And>i. i < len \<Longrightarrow> rest i = Inr (ws ! i, ds ! i)"
    and hsum: "\<And>s. length s = lanes \<Longrightarrow> horizontal s = sum_list s"
    and lanes: "0 < lanes" and len: "len \<le> length ws" "len \<le> length ds"
  shows "simd_dot lanes horizontal (\<lambda>x y z. x * y + z) block rest len = Inr (\<Sum>i<len. ws ! i * ds ! i)"
proof -
  let ?step = "\<lambda>sum b. bindE (block (b * lanes)) (\<lambda>(w, d). Inr (fmadd (\<lambda>x y z. x * y + z) w d sum))"
  have blocks: "\<exists>s. foldE ?step (replicate lanes 0) [0..<n] = Inr s \<and> length s = lanes \<and> sum_list s = (\<Sum>i<n * lanes. ws ! i * ds ! i)"
    if "n \<le> len div lanes" for n
    using that
  proof (induction n)
    case (Suc n)
    have "Suc n * lanes \<le> len div lanes * lanes" using Suc.prems by (rule mult_le_mono1)
    then have n: "n * lanes + lanes \<le> len div lanes * lanes" by (simp add: add.commute)
    then have n': "n * lanes + lanes \<le> len" using div_times_less_eq_dividend [of len lanes] by (rule le_trans)
    from Suc obtain s where s: "foldE ?step (replicate lanes 0) [0..<n] = Inr s" "length s = lanes"
      "sum_list s = (\<Sum>i<n * lanes. ws ! i * ds ! i)" by auto
    let ?w = "take lanes (drop (n * lanes) ws)" and ?d = "take lanes (drop (n * lanes) ds)"
    have l: "length ?w = lanes" "length ?d = lanes" using n' len by simp_all
    have "sum_list (fmadd (\<lambda>x y z. x * y + z) ?w ?d s) = (\<Sum>i<lanes. ws ! (n * lanes + i) * ds ! (n * lanes + i)) + (\<Sum>i<n * lanes. ws ! i * ds ! i)"
      using n' len by (simp add: sum_fmadd [OF l s(2)] s(3))
    also have "\<dots> = (\<Sum>i<Suc n * lanes. ws ! i * ds ! i)"
      using sum_lessThan_add [of "\<lambda>i. ws ! i * ds ! i" "n * lanes" lanes] by (simp add: add.commute)
    finally show ?case using s l block [OF n' n] by (simp add: foldE_append add.commute)
  qed (simp add: sum_list_replicate)
  obtain s where s: "foldE ?step (replicate lanes 0) [0..<len div lanes] = Inr s" "length s = lanes"
    "sum_list s = (\<Sum>i<len div lanes * lanes. ws ! i * ds ! i)"
    using blocks [of "len div lanes"] by auto
  have "foldE (\<lambda>result i. bindE (rest i) (\<lambda>(w, d). Inr (result + w * d))) a [k..<n] = Inr (a + (\<Sum>i = k..<n. ws ! i * ds ! i))"
    if "n \<le> len" for a k n
    using that by (induction n) (auto simp: foldE_append rest add.assoc)
  note tail = this
  have "(\<Sum>i<len div lanes * lanes. ws ! i * ds ! i) + (\<Sum>i = len div lanes * lanes..<len. ws ! i * ds ! i) = (\<Sum>i<len. ws ! i * ds ! i)"
    using sum.atLeastLessThan_concat [of 0 "len div lanes * lanes" len "\<lambda>i. ws ! i * ds ! i"] by (simp add: atLeast0LessThan)
  then show ?thesis by (simp add: simd_dot_def s(1) tail hsum [OF s(2)] s(3))
qed


section \<open>Every kernel on its arrays\<close>

definition sparse_dot :: "('v \<Rightarrow> 'w) \<Rightarrow> term_t list \<Rightarrow> 'v list \<Rightarrow> size_t \<Rightarrow> 'v list \<Rightarrow> 'w :: {comm_monoid_add, times}" where
  "sparse_dot conv indices values len dense = (\<Sum>i<len. conv (values ! i) * conv (dense ! (indices ! i)))"

text \<open>A row lies in its arrays and its terms in the dense vector.\<close>

definition row_in :: "term_t list \<Rightarrow> 'v list \<Rightarrow> size_t \<Rightarrow> nat \<Rightarrow> bool" where
  "row_in indices values len dimension \<longleftrightarrow>
     len \<le> length indices \<and> len \<le> length values \<and> (\<forall>i < len. indices ! i < dimension)"

lemma load_in: "i + n \<le> length xs \<Longrightarrow> load n xs i = Inr (take n (drop i xs))"
  by (simp add: load_def take_elems_def)

lemma gather_in: "\<forall>t \<in> set idx. t < length dense \<Longrightarrow> gather dense idx = Inr (map ((!) dense) idx)"
  unfolding gather_def by (rule mapE_Inr_all) simp

lemma gather32_in:
  "\<forall>off \<in> set offs. off + 4 \<le> length bytes \<Longrightarrow>
   gather32 bytes offs = Inr (map (\<lambda>off. le_nat (take 4 (drop off bytes))) offs)"
  unfolding gather32_def by (rule mapE_Inr_all) (simp add: load_in)

text \<open>Steps that can only fail in one way.\<close>

lemma mapE_fails:
  "\<forall>x \<in> set xs. f x = Inl e \<or> (\<exists>y. f x = Inr y) \<Longrightarrow> \<exists>x \<in> set xs. f x = Inl e \<Longrightarrow> mapE f xs = Inl e"
proof (induction xs)
  case (Cons x xs)
  show ?case
  proof (cases "f x")
    case (Inr y)
    then have "mapE f xs = Inl e" using Cons by auto
    then show ?thesis using Inr by simp
  qed (use Cons.prems in auto)
qed simp

lemma foldE_fails:
  "\<forall>x \<in> set xs. \<forall>s. f s x = Inl e \<or> (\<exists>s'. f s x = Inr s') \<Longrightarrow> \<exists>x \<in> set xs. \<forall>s. f s x = Inl e \<Longrightarrow> foldE f s xs = Inl e"
proof (induction xs arbitrary: s)
  case (Cons x xs)
  show ?case
  proof (cases "f s x")
    case (Inr s')
    then have "foldE f s' xs = Inl e" using Cons by auto
    then show ?thesis using Inr by simp
  next
    case (Inl a)
    have "f s x = Inl e \<or> (\<exists>s'. f s x = Inr s')" using Cons.prems(1) by simp
    then show ?thesis using Inl by simp
  qed
qed simp

lemma load_out: "length xs < i + n \<Longrightarrow> 0 < n \<Longrightarrow> load n xs i = Inl (Undefined_behaviour ''read past the end'')"
  by (auto simp: load_def take_elems_def)

lemma load_cases: "load n xs i = Inl (Undefined_behaviour ''read past the end'') \<or> (\<exists>ys. load n xs i = Inr ys)"
  by (simp add: load_def take_elems_def)

lemma gather32_out:
  assumes "\<exists>off \<in> set offs. length bytes < off + 4"
  shows "gather32 bytes offs = Inl (Undefined_behaviour ''read past the end'')"
  unfolding gather32_def
proof (rule mapE_fails)
  show "\<forall>off \<in> set offs. bindE (load 4 bytes off) (\<lambda>b. Inr (le_nat b)) = Inl (Undefined_behaviour ''read past the end'') \<or>
      (\<exists>y. bindE (load 4 bytes off) (\<lambda>b. Inr (le_nat b)) = Inr y)"
  proof
    fix off
    show "bindE (load 4 bytes off) (\<lambda>b. Inr (le_nat b)) = Inl (Undefined_behaviour ''read past the end'') \<or>
        (\<exists>y. bindE (load 4 bytes off) (\<lambda>b. Inr (le_nat b)) = Inr y)"
      using load_cases [of 4 bytes off] by auto
  qed
  show "\<exists>off \<in> set offs. bindE (load 4 bytes off) (\<lambda>b. Inr (le_nat b)) = Inl (Undefined_behaviour ''read past the end'')"
    using assms by (force simp: load_out)
qed

lemma rest_of_in:
  "row_in indices values len (length dense) \<Longrightarrow> i < len \<Longrightarrow>
   rest_of conv indices values dense i = Inr (conv (values ! i), conv (dense ! (indices ! i)))"
  by (simp add: rest_of_def row_in_def)

lemma row_terms_in: "row_in indices values len n \<Longrightarrow> i + k \<le> len \<Longrightarrow> \<forall>t \<in> set (take k (drop i indices)). t < n"
  by (auto simp: row_in_def in_set_conv_nth)

lemma row_load_indices: "row_in indices values len n \<Longrightarrow> i + k \<le> len \<Longrightarrow> load k indices i = Inr (take k (drop i indices))"
  by (simp add: row_in_def load_in)

lemma row_load_values: "row_in indices values len n \<Longrightarrow> i + k \<le> len \<Longrightarrow> load k values i = Inr (take k (drop i values))"
  by (simp add: row_in_def load_in)

lemmas row_loads = row_load_indices row_load_values row_terms_in gather_in rest_of_in

text \<open>The kernels that load no more than they use.\<close>

lemma simd_dot_row:
  fixes conv :: "'v \<Rightarrow> 'w :: comm_semiring_1"
  assumes row: "row_in indices values len (length dense)"
    and block: "\<And>i. i + lanes \<le> len \<Longrightarrow> i + lanes \<le> len div lanes * lanes \<Longrightarrow> block i = Inr (map conv (take lanes (drop i values)), map (\<lambda>t. conv (dense ! t)) (take lanes (drop i indices)))"
    and hsum: "\<And>s. length s = lanes \<Longrightarrow> horizontal s = sum_list s" and lanes: "0 < lanes"
  shows "simd_dot lanes horizontal (\<lambda>x y z. x * y + z) block (rest_of conv indices values dense) len =
    Inr (sparse_dot conv indices values len dense)"
proof -
  have "simd_dot lanes horizontal (\<lambda>x y z. x * y + z) block (rest_of conv indices values dense) len =
      Inr (\<Sum>i<len. map conv values ! i * map (\<lambda>t. conv (dense ! t)) indices ! i)"
    using row
    by (intro simd_dot_exact) (auto simp: block rest_of_in hsum lanes row_in_def take_map drop_map)
  then show ?thesis using row by (simp add: sparse_dot_def row_in_def)
qed

lemma avx2_dot_product_exact:
  fixes ws :: "'w :: comm_semiring_1 list" and conv :: "nat \<Rightarrow> 'w"
  shows "row_in indices ws len (length dense) \<Longrightarrow>
      avx2_dot_product_float_dense (\<lambda>x y z. x * y + z) indices ws len dense = Inr (sparse_dot id indices ws len dense)"
    and "row_in indices vs len (length ds) \<Longrightarrow>
      avx2_dot_product_uint16_dense conv (\<lambda>x y z. x * y + z) indices vs len ds = Inr (sparse_dot conv indices vs len ds)"
    and "row_in indices bs len (length cs) \<Longrightarrow>
      avx2_dot_product_uint8_dense conv (\<lambda>x y z. x * y + z) indices bs len cs = Inr (sparse_dot (conv \<circ> unat) indices bs len cs)"
  unfolding avx2_dot_product_float_dense_def avx2_dot_product_uint16_dense_def avx2_dot_product_uint8_dense_def
  by (rule simd_dot_row; simp add: row_loads avx2_sum comp_def)+

lemma neon_dot_product_exact:
  fixes ws :: "'w :: comm_semiring_1 list" and conv :: "nat \<Rightarrow> 'w"
  shows "row_in indices ws len (length dense) \<Longrightarrow>
      neon_dot_product_float_dense (\<lambda>x y z. x * y + z) indices ws len dense = Inr (sparse_dot id indices ws len dense)"
    and "row_in indices bs len (length cs) \<Longrightarrow> len div 4 * 4 + 4 \<le> length bs \<Longrightarrow>
      neon_dot_product_uint8_dense conv (\<lambda>x y z. x * y + z) indices bs len cs = Inr (sparse_dot (conv \<circ> unat) indices bs len cs)"
  unfolding neon_dot_product_float_dense_def neon_dot_product_uint8_dense_def
  by (rule simd_dot_row; simp add: row_loads load_in neon_sum comp_def)+

lemma avx512_dot_product_float_exact:
  fixes ws :: "'w :: comm_semiring_1 list"
  shows "row_in indices ws len (length dense) \<Longrightarrow>
    avx512_dot_product_float_dense (\<lambda>x y z. x * y + z) indices ws len dense = Inr (sparse_dot id indices ws len dense)"
  unfolding avx512_dot_product_float_dense_def by (rule simd_dot_row; simp add: row_loads reduce_add)

lemma sve_dot_product_float_exact:
  fixes ws :: "'w :: comm_semiring_1 list"
  shows "row_in indices ws len (length dense) \<Longrightarrow> 0 < vl \<Longrightarrow> len div vl * vl + vl \<le> length indices \<Longrightarrow>
    sve_dot_product_float_dense vl (\<lambda>x y z. x * y + z) indices ws len dense = Inr (sparse_dot id indices ws len dense)"
  unfolding sve_dot_product_float_dense_def
  by (rule simd_dot_row; simp add: row_loads load_in sve_sum min_absorb1)

section \<open>Codes gathered in 32-bit pieces\<close>

lemma le_nat_split: "le_nat (as @ bs) = le_nat as + 256 ^ length as * le_nat bs"
  by (induction as) (simp_all add: algebra_simps)

text \<open>A mask of low bytes cuts the piece to the element at its offset.\<close>

lemma le_nat_mask:
  assumes "k \<le> n" "k \<le> length bs"
  shows "and (le_nat (take n bs)) (256 ^ k - 1) = le_nat (take k bs)"
proof -
  have "take n bs = take k bs @ take (n - k) (drop k bs)"
    using assms(1) by (metis le_add_diff_inverse take_add)
  then have split: "le_nat (take n bs) = le_nat (take k bs) + 256 ^ k * le_nat (take (n - k) (drop k bs))"
    using assms(2) by (simp add: le_nat_split)
  have p: "(256 :: nat) ^ k = 2 ^ (8 * k)" by (simp add: power_mult)
  have "and x (256 ^ k - 1) = x mod 256 ^ k" for x :: nat
    by (simp only: p mask_eq_exp_minus_1 [symmetric] take_bit_eq_mask [symmetric] take_bit_eq_mod)
  moreover have "le_nat (take k bs) < 256 ^ k" using le_nat_less [of "take k bs"] assms(2) by (simp add: min_absorb2)
  ultimately show ?thesis by (simp only: split) simp
qed

lemma mask_code:
  shows "t * 2 + 4 \<le> length bytes \<Longrightarrow> and (le_nat (take 4 (drop (t * 2) bytes))) 0xFFFF = typed_array 2 le_nat bytes ! t"
    and "t + 4 \<le> length bytes \<Longrightarrow> and (le_nat (take 4 (drop t bytes))) 0xFF = unat (bytes ! t)"
proof -
  assume t: "t * 2 + 4 \<le> length bytes"
  have "and (le_nat (take 4 (drop (t * 2) bytes))) 0xFFFF = le_nat (take 2 (drop (t * 2) bytes))"
    using le_nat_mask [of 2 4 "drop (t * 2) bytes"] t by simp
  moreover have "typed_array 2 le_nat bytes ! t = le_nat (take 2 (drop (t * 2) bytes))"
    using t by (simp add: typed_array_def decode_array_nth code_at_def mult.commute)
  ultimately show "and (le_nat (take 4 (drop (t * 2) bytes))) 0xFFFF = typed_array 2 le_nat bytes ! t" by simp
next
  assume t: "t + 4 \<le> length bytes"
  have "and (le_nat (take 4 (drop t bytes))) 0xFF = le_nat (take 1 (drop t bytes))"
    using le_nat_mask [of 1 4 "drop t bytes"] t by simp
  also have "\<dots> = unat (bytes ! t)" using t by (simp add: take_Suc hd_drop_conv_nth)
  finally show "and (le_nat (take 4 (drop t bytes))) 0xFF = unat (bytes ! t)" .
qed

text \<open>Every piece of the whole registers lies in the dense vector, \<open>scale\<close> bytes to an element.\<close>

definition pieces_in :: "nat \<Rightarrow> nat \<Rightarrow> term_t list \<Rightarrow> size_t \<Rightarrow> byte list \<Rightarrow> bool" where
  "pieces_in lanes scale indices len dense \<longleftrightarrow>
     (\<forall>i < len div lanes * lanes. indices ! i * scale + 4 \<le> length dense)"

lemma row_pieces_in:
  "pieces_in lanes scale indices len dense \<Longrightarrow> i + lanes \<le> len div lanes * lanes \<Longrightarrow>
   \<forall>t \<in> set (take lanes (drop i indices)). t * scale + 4 \<le> length dense"
  by (auto simp: pieces_in_def in_set_conv_nth)

lemma length_typed_array [simp]: "length (typed_array k dec bytes) = length bytes div k"
  by (simp add: typed_array_def)

lemma gather_codes:
  assumes "\<forall>t \<in> set idx. t * 2 + 4 \<le> length bytes"
  shows "gather32 bytes (map (\<lambda>t. t * 2) idx) = Inr (map (\<lambda>t. le_nat (take 4 (drop (t * 2) bytes))) idx)"
    and "map (\<lambda>x. conv (and x 0xFFFF)) (map (\<lambda>t. le_nat (take 4 (drop (t * 2) bytes))) idx) =
      map (\<lambda>t. conv (typed_array 2 le_nat bytes ! t)) idx"
  using assms by (auto simp: gather32_in mask_code)

lemma gather_bytes:
  assumes "\<forall>t \<in> set idx. t + 4 \<le> length bytes"
  shows "gather32 bytes idx = Inr (map (\<lambda>t. le_nat (take 4 (drop t bytes))) idx)"
    and "map (\<lambda>x. conv (and x 0xFF)) (map (\<lambda>t. le_nat (take 4 (drop t bytes))) idx) = map (\<lambda>t. conv (unat (bytes ! t))) idx"
  using assms by (auto simp: gather32_in mask_code)

lemma avx512_uint16_exact:
  fixes conv :: "nat \<Rightarrow> 'w :: comm_semiring_1"
  assumes row: "row_in indices vs len (length bytes div 2)" and pieces: "pieces_in 16 2 indices len bytes"
  shows "avx512_dot_product_uint16_dense conv (\<lambda>x y z. x * y + z) indices vs len bytes =
    Inr (sparse_dot conv indices vs len (typed_array 2 le_nat bytes))"
  unfolding avx512_dot_product_uint16_dense_def
proof (rule simd_dot_row)
  fix i assume i: "i + 16 \<le> len" "i + 16 \<le> len div 16 * 16"
  note g = gather_codes [OF row_pieces_in [OF pieces i(2)]]
  show "bindE (load 16 indices i) (\<lambda>idx. bindE (gather32 bytes (map (\<lambda>t. t * 2) idx)) (\<lambda>dense_i32.
      bindE (load 16 vs i) (\<lambda>vals_16. Inr (map conv vals_16, map (\<lambda>x. conv (and x 0xFFFF)) dense_i32)))) =
    Inr (map conv (take 16 (drop i vs)), map (\<lambda>t. conv (typed_array 2 le_nat bytes ! t)) (take 16 (drop i indices)))"
    using row_loads(1) [OF row i(1)] row_loads(2) [OF row i(1)] by (simp only: g bindE.simps)
qed (use row in \<open>simp_all add: reduce_add\<close>)

lemma avx512_uint8_exact:
  fixes conv :: "nat \<Rightarrow> 'w :: comm_semiring_1"
  assumes row: "row_in indices bs len (length bytes)" and pieces: "pieces_in 16 1 indices len bytes"
  shows "avx512_dot_product_uint8_dense conv (\<lambda>x y z. x * y + z) indices bs len bytes =
    Inr (sparse_dot (conv \<circ> unat) indices bs len bytes)"
  unfolding avx512_dot_product_uint8_dense_def
proof (rule simd_dot_row)
  fix i assume i: "i + 16 \<le> len" "i + 16 \<le> len div 16 * 16"
  have "\<forall>t \<in> set (take 16 (drop i indices)). t + 4 \<le> length bytes"
    using row_pieces_in [OF pieces i(2)] by simp
  note g = gather_bytes [OF this]
  show "bindE (load 16 indices i) (\<lambda>idx. bindE (gather32 bytes idx) (\<lambda>dense_i32.
      bindE (load 16 bs i) (\<lambda>vals_8. Inr (map (conv \<circ> unat) vals_8, map (\<lambda>x. conv (and x 0xFF)) dense_i32)))) =
    Inr (map (conv \<circ> unat) (take 16 (drop i bs)), map (\<lambda>t. (conv \<circ> unat) (bytes ! t)) (take 16 (drop i indices)))"
    using row_loads(1) [OF row i(1)] row_loads(2) [OF row i(1)] by (simp only: g bindE.simps comp_apply)
qed (use row in \<open>simp_all add: reduce_add\<close>)

text \<open>A piece past the end of the dense vector is read all the same.\<close>

abbreviation over_read :: "exn + 'a" where
  "over_read \<equiv> Inl (Undefined_behaviour ''read past the end'')"

definition reads_only :: "(exn + 'a) \<Rightarrow> bool" where
  "reads_only m \<longleftrightarrow> m = over_read \<or> (\<exists>x. m = Inr x)"

lemma reads_only_bind: "reads_only m \<Longrightarrow> (\<And>x. reads_only (f x)) \<Longrightarrow> reads_only (bindE m f)"
  by (cases m) (simp_all add: reads_only_def)

lemma reads_only_Inr: "reads_only (Inr x)"
  by (simp add: reads_only_def)

lemma reads_only_load: "reads_only (load n xs i)"
  by (simp add: reads_only_def load_def take_elems_def)

lemma reads_only_mapE: "(\<And>x. reads_only (f x)) \<Longrightarrow> reads_only (mapE f xs)"
proof (induction xs)
  case (Cons x xs)
  have "reads_only (mapE f xs)" using Cons.IH Cons.prems by blast
  then have "reads_only (bindE (mapE f xs) (\<lambda>ys. Inr (y # ys)))" for y by (intro reads_only_bind reads_only_Inr)
  moreover have "reads_only (f x)" by (rule Cons.prems)
  ultimately show ?case by (cases "f x") (simp_all add: reads_only_def)
qed (simp add: reads_only_Inr)

lemma reads_only_gather: "reads_only (gather dense idx)" "reads_only (gather32 bytes offs)"
proof -
  have "reads_only (read_at dense t)" for t by (simp add: reads_only_def read_at_def)
  then show "reads_only (gather dense idx)" unfolding gather_def by (rule reads_only_mapE)
  show "reads_only (gather32 bytes offs)"
    unfolding gather32_def by (intro reads_only_mapE reads_only_bind reads_only_load reads_only_Inr)
qed

lemmas reads_only = reads_only_bind reads_only_load reads_only_gather reads_only_Inr

lemma bind_over_read: "reads_only m \<Longrightarrow> (\<And>x. m = Inr x \<Longrightarrow> f x = over_read) \<Longrightarrow> bindE m f = over_read"
  by (auto simp: reads_only_def)

lemma simd_dot_over_reads:
  assumes "\<And>i. reads_only (block i)" and "b < len div lanes" "block (b * lanes) = over_read"
  shows "simd_dot lanes horizontal fma block rest len = over_read"
proof -
  let ?step = "\<lambda>sum b. bindE (block (b * lanes)) (\<lambda>(w, d). Inr (fmadd fma w d sum))"
  have "foldE ?step (replicate lanes 0) [0..<len div lanes] = over_read"
  proof (rule foldE_fails)
    show "\<forall>b \<in> set [0..<len div lanes]. \<forall>s. ?step s b = over_read \<or> (\<exists>s'. ?step s b = Inr s')"
    proof (intro ballI allI)
      fix b s
      show "?step s b = over_read \<or> (\<exists>s'. ?step s b = Inr s')"
        using assms(1) [of "b * lanes"] by (auto simp: reads_only_def split: prod.split)
    qed
    show "\<exists>b \<in> set [0..<len div lanes]. \<forall>s. ?step s b = over_read" using assms(2,3) by (intro bexI [of _ b]) simp_all
  qed
  then show ?thesis by (simp add: simd_dot_def)
qed

text \<open>The last whole register is the one whose loads go furthest.\<close>

lemma last_block:
  assumes "0 < len div (lanes :: nat)"
  shows "len div lanes - 1 < len div lanes" "(len div lanes - 1) * lanes + lanes = len div lanes * lanes"
proof -
  obtain n where n: "len div lanes = Suc n" using assms gr0_implies_Suc by blast
  show "len div lanes - 1 < len div lanes" "(len div lanes - 1) * lanes + lanes = len div lanes * lanes"
    unfolding n by simp_all
qed

lemma block_fits:
  assumes "b < n div lanes"
  shows "b * lanes + lanes \<le> (n :: nat)"
proof -
  have "Suc b * lanes \<le> n div lanes * lanes" using assms by (intro mult_le_mono1) simp
  then have "b * lanes + lanes \<le> n div lanes * lanes" by (simp add: add.commute)
  then show ?thesis using div_times_less_eq_dividend [of n lanes] by (rule le_trans)
qed

lemma pieces_block:
  assumes "\<not> pieces_in lanes scale indices len bytes" "len \<le> length indices" "0 < lanes"
  shows "\<exists>b < len div lanes. \<exists>t \<in> set (take lanes (drop (b * lanes) indices)). length bytes < t * scale + 4"
proof -
  obtain i where i: "i < len div lanes * lanes" "length bytes < indices ! i * scale + 4"
    using assms(1) by (auto simp: pieces_in_def)
  have b: "i div lanes < len div lanes" using i(1) assms(3) by (simp add: div_less_iff_less_mult)
  note e = block_fits [OF b]
  have "indices ! i = take lanes (drop (i div lanes * lanes) indices) ! (i mod lanes)"
    using e assms(2,3) by simp
  also have "\<dots> \<in> set (take lanes (drop (i div lanes * lanes) indices))"
    using e assms(2,3) by (intro nth_mem) simp
  finally show ?thesis using b i(2) by blast
qed

lemma avx512_over_reads:
  assumes "len \<le> length indices"
  shows "\<not> pieces_in 16 2 indices len bytes \<Longrightarrow> avx512_dot_product_uint16_dense conv fma indices vs len bytes = over_read"
    and "\<not> pieces_in 16 1 indices len bytes \<Longrightarrow> avx512_dot_product_uint8_dense conv fma indices bs len bytes = over_read"
proof -
  assume "\<not> pieces_in 16 2 indices len bytes"
  then obtain b t where b: "b < len div 16" "t \<in> set (take 16 (drop (b * 16) indices))" "length bytes < t * 2 + 4"
    using pieces_block [of 16 2 indices len bytes] assms by auto
  have "gather32 bytes (map (\<lambda>t. t * 2) (take 16 (drop (b * 16) indices))) = over_read"
    by (rule gather32_out) (use b(2,3) in auto)
  moreover have "load 16 indices (b * 16) = Inr (take 16 (drop (b * 16) indices))"
    by (rule load_in) (use block_fits [OF b(1)] assms in linarith)
  ultimately show "avx512_dot_product_uint16_dense conv fma indices vs len bytes = over_read"
    unfolding avx512_dot_product_uint16_dense_def
    by (intro simd_dot_over_reads [OF _ b(1)] reads_only) simp
next
  assume "\<not> pieces_in 16 1 indices len bytes"
  then obtain b t where b: "b < len div 16" "t \<in> set (take 16 (drop (b * 16) indices))" "length bytes < t + 4"
    using pieces_block [of 16 1 indices len bytes] assms by auto
  have "gather32 bytes (take 16 (drop (b * 16) indices)) = over_read"
    by (rule gather32_out) (use b(2,3) in auto)
  moreover have "load 16 indices (b * 16) = Inr (take 16 (drop (b * 16) indices))"
    by (rule load_in) (use block_fits [OF b(1)] assms in linarith)
  ultimately show "avx512_dot_product_uint8_dense conv fma indices bs len bytes = over_read"
    unfolding avx512_dot_product_uint8_dense_def
    by (intro simd_dot_over_reads [OF _ b(1)] reads_only) simp
qed

lemma neon_uint8_over_reads:
  assumes row: "row_in indices bs len (length cs)" and "4 \<le> len" "length bs < len div 4 * 4 + 4"
  shows "neon_dot_product_uint8_dense conv fma indices bs len cs = over_read"
proof -
  have "0 < len div 4" using assms(2) by (simp add: div_greater_zero_iff)
  note l = last_block [OF this]
  have "load 8 bs ((len div 4 - 1) * 4) = over_read" by (rule load_out) (use l assms(3) in simp_all)
  then show ?thesis
    unfolding neon_dot_product_uint8_dense_def
    by (intro simd_dot_over_reads [OF _ l(1)] reads_only)
      (simp add: row_load_indices [OF row block_fits [OF l(1)], simplified] gather_in [OF row_terms_in [OF row block_fits [OF l(1)]], simplified])
qed

lemma sve_indices_over_read:
  assumes "0 < vl" "vl \<le> len" "length indices < len div vl * vl + vl"
  shows "len div vl - 1 < len div vl" "load (2 * vl) indices ((len div vl - 1) * vl) = over_read"
proof -
  have "0 < len div vl" using assms by (simp add: div_greater_zero_iff)
  note l = last_block [OF this]
  show "len div vl - 1 < len div vl" by (rule l(1))
  show "load (2 * vl) indices ((len div vl - 1) * vl) = over_read" by (rule load_out) (use l assms in linarith)+
qed

lemma sve_pieces_over_read:
  assumes "\<not> pieces_in vl scale indices len bytes" "0 < vl" "len \<le> length indices" "len div vl * vl + vl \<le> length indices"
  shows "\<exists>b < len div vl. load (2 * vl) indices (b * vl) = Inr (take (2 * vl) (drop (b * vl) indices)) \<and>
    gather32 bytes (map (\<lambda>t. t * scale) (take vl (drop (b * vl) indices))) = over_read"
proof -
  obtain b t where b: "b < len div vl" "t \<in> set (take vl (drop (b * vl) indices))" "length bytes < t * scale + 4"
    using pieces_block [OF assms(1,3,2)] by blast
  have "Suc b * vl \<le> len div vl * vl" using b(1) by (intro mult_le_mono1) simp
  then have "load (2 * vl) indices (b * vl) = Inr (take (2 * vl) (drop (b * vl) indices))"
    using assms(4) by (intro load_in) simp
  moreover have "gather32 bytes (map (\<lambda>t. t * scale) (take vl (drop (b * vl) indices))) = over_read"
    by (rule gather32_out) (use b(2,3) in auto)
  ultimately show ?thesis using b(1) by blast
qed

lemma sve_float_over_reads:
  assumes "0 < vl" "vl \<le> len" "length indices < len div vl * vl + vl"
  shows "sve_dot_product_float_dense vl fma indices ws len dense = over_read"
  unfolding sve_dot_product_float_dense_def
  by (intro simd_dot_over_reads [OF _ sve_indices_over_read(1) [OF assms]] reads_only)
    (simp only: sve_indices_over_read(2) [OF assms] bindE.simps)

lemma sve_uint16_over_reads:
  assumes vl: "0 < vl" "vl \<le> len" and len: "len \<le> length indices"
    and bad: "length indices < len div vl * vl + vl \<or> length vs < len div vl * vl + vl \<or> \<not> pieces_in vl 2 indices len bytes"
  shows "sve_dot_product_uint16_dense vl conv fma indices vs len bytes = over_read"
proof -
  have p: "map (push_bit 1) idx = map (\<lambda>t :: nat. t * 2) idx" for idx by (simp add: push_bit_eq_mult)
  have m: "min vl (2 * vl) = vl" by simp
  consider "length indices < len div vl * vl + vl" | "length vs < len div vl * vl + vl"
    | "len div vl * vl + vl \<le> length indices" "\<not> pieces_in vl 2 indices len bytes" using bad by fastforce
  then show ?thesis
  proof cases
    case 1
    note x = sve_indices_over_read [OF vl 1]
    show ?thesis unfolding sve_dot_product_uint16_dense_def
      by (intro simd_dot_over_reads [OF _ x(1)] reads_only) (simp only: x(2) bindE.simps)
  next
    case 2
    note x = sve_indices_over_read [OF vl 2]
    show ?thesis unfolding sve_dot_product_uint16_dense_def
      by (intro simd_dot_over_reads [OF _ x(1)] reads_only bind_over_read) (simp only: x(2) bindE.simps sum.distinct)
  next
    case 3
    obtain b where b: "b < len div vl" "load (2 * vl) indices (b * vl) = Inr (take (2 * vl) (drop (b * vl) indices))"
      "gather32 bytes (map (\<lambda>t. t * 2) (take vl (drop (b * vl) indices))) = over_read"
      using sve_pieces_over_read [OF 3(2) vl(1) len 3(1)] by blast
    show ?thesis unfolding sve_dot_product_uint16_dense_def
      by (intro simd_dot_over_reads [OF _ b(1)] reads_only) (simp only: b(2,3) bindE.simps p take_take m)
  qed
qed

lemma sve_uint8_over_reads:
  assumes vl: "0 < vl" "vl \<le> len" and len: "len \<le> length indices"
    and bad: "length indices < len div vl * vl + vl \<or> length bs < len div vl * vl + 3 * vl \<or> \<not> pieces_in vl 1 indices len bytes"
  shows "sve_dot_product_uint8_dense vl conv fma indices bs len bytes = over_read"
proof -
  have m: "min vl (2 * vl) = vl" by simp
  consider "length indices < len div vl * vl + vl" | "length bs < len div vl * vl + 3 * vl"
    | "len div vl * vl + vl \<le> length indices" "\<not> pieces_in vl 1 indices len bytes" using bad by fastforce
  then show ?thesis
  proof cases
    case 1
    note x = sve_indices_over_read [OF vl 1]
    show ?thesis unfolding sve_dot_product_uint8_dense_def
      by (intro simd_dot_over_reads [OF _ x(1)] reads_only) (simp only: x(2) bindE.simps)
  next
    case 2
    have "0 < len div vl" using vl by (simp add: div_greater_zero_iff)
    note l = last_block [OF this]
    have x: "load (4 * vl) bs ((len div vl - 1) * vl) = over_read" by (rule load_out) (use l 2 vl in linarith)+
    show ?thesis unfolding sve_dot_product_uint8_dense_def
      by (intro simd_dot_over_reads [OF _ l(1)] reads_only bind_over_read) (simp only: x bindE.simps sum.distinct)
  next
    case 3
    obtain b where b: "b < len div vl" "load (2 * vl) indices (b * vl) = Inr (take (2 * vl) (drop (b * vl) indices))"
      "gather32 bytes (map (\<lambda>t. t * 1) (take vl (drop (b * vl) indices))) = over_read"
      using sve_pieces_over_read [OF 3(2) vl(1) len 3(1)] by blast
    show ?thesis unfolding sve_dot_product_uint8_dense_def
      by (intro simd_dot_over_reads [OF _ b(1)] reads_only) (use b(3) in \<open>simp add: b(2) m\<close>)
  qed
qed

lemma sve_uint16_exact:
  fixes conv :: "nat \<Rightarrow> 'w :: comm_semiring_1"
  assumes row: "row_in indices vs len (length bytes div 2)" and pieces: "pieces_in vl 2 indices len bytes"
    and vl: "0 < vl" "len div vl * vl + vl \<le> length indices" "len div vl * vl + vl \<le> length vs"
  shows "sve_dot_product_uint16_dense vl conv (\<lambda>x y z. x * y + z) indices vs len bytes =
    Inr (sparse_dot conv indices vs len (typed_array 2 le_nat bytes))"
  unfolding sve_dot_product_uint16_dense_def
proof (rule simd_dot_row)
  fix i assume i: "i + vl \<le> len" "i + vl \<le> len div vl * vl"
  have "map (push_bit 1) idx = map (\<lambda>t :: nat. t * 2) idx" for idx by (simp add: push_bit_eq_mult)
  note g = this gather_codes [OF row_pieces_in [OF pieces i(2)]]
  have m: "min vl (2 * vl) = vl" by simp
  have "load (2 * vl) indices i = Inr (take (2 * vl) (drop i indices))" "load (2 * vl) vs i = Inr (take (2 * vl) (drop i vs))"
    using i(2) vl by (simp_all add: load_in)
  then show "bindE (load (2 * vl) indices i) (\<lambda>idx16. bindE (gather32 bytes (map (push_bit 1) (take vl idx16))) (\<lambda>dense_u32.
      bindE (load (2 * vl) vs i) (\<lambda>vals_16. Inr (map conv (take vl vals_16), map (\<lambda>x. conv (and x 0xFFFF)) dense_u32)))) =
    Inr (map conv (take vl (drop i vs)), map (\<lambda>t. conv (typed_array 2 le_nat bytes ! t)) (take vl (drop i indices)))"
    by (simp only: bindE.simps take_take m g)
qed (use row vl in \<open>simp_all add: sve_sum\<close>)

lemma sve_uint8_exact:
  fixes conv :: "nat \<Rightarrow> 'w :: comm_semiring_1"
  assumes row: "row_in indices bs len (length bytes)" and pieces: "pieces_in vl 1 indices len bytes"
    and vl: "0 < vl" "len div vl * vl + vl \<le> length indices" "len div vl * vl + 3 * vl \<le> length bs"
  shows "sve_dot_product_uint8_dense vl conv (\<lambda>x y z. x * y + z) indices bs len bytes =
    Inr (sparse_dot (conv \<circ> unat) indices bs len bytes)"
  unfolding sve_dot_product_uint8_dense_def
proof (rule simd_dot_row)
  fix i assume i: "i + vl \<le> len" "i + vl \<le> len div vl * vl"
  have "\<forall>t \<in> set (take vl (drop i indices)). t + 4 \<le> length bytes"
    using row_pieces_in [OF pieces i(2)] by simp
  note g = gather_bytes [OF this]
  have m: "min vl (2 * vl) = vl" "min vl (4 * vl) = vl" by simp_all
  have "load (2 * vl) indices i = Inr (take (2 * vl) (drop i indices))" "load (4 * vl) bs i = Inr (take (4 * vl) (drop i bs))"
    using i(2) vl by (simp_all add: load_in)
  then show "bindE (load (2 * vl) indices i) (\<lambda>idx16. bindE (gather32 bytes (take vl idx16)) (\<lambda>dense_u32.
      bindE (load (4 * vl) bs i) (\<lambda>vals_8. Inr (map (conv \<circ> unat) (take vl vals_8), map (\<lambda>x. conv (and x 0xFF)) dense_u32)))) =
    Inr (map (conv \<circ> unat) (take vl (drop i bs)), map (\<lambda>t. (conv \<circ> unat) (bytes ! t)) (take vl (drop i indices)))"
    by (simp only: bindE.simps take_take m g comp_apply)
qed (use row vl in \<open>simp_all add: sve_sum\<close>)

section \<open>The integer kernel\<close>

lemma u64_cong: "u64 a = u64 a' \<Longrightarrow> u64 b = u64 b' \<Longrightarrow> u64 (a + b) = u64 (a' + b')"
  unfolding u64_def by (rule mod_add_cong)

lemma u64_idem [simp]: "u64 (u64 a) = u64 a"
  by (simp add: u64_def)

lemma eight_lanes: "length xs = 8 \<Longrightarrow> \<exists>a b c d e f g h. xs = [a, b, c, d, e, f, g, h]"
  by (auto simp: length_Suc_conv numeral_eq_Suc)

definition neon_u16_step :: "nat list \<times> nat list \<Rightarrow> nat list \<Rightarrow> nat list \<Rightarrow> nat list \<times> nat list" where
  "neon_u16_step = (\<lambda>(sum_lo, sum_hi) vals gathered.
     let prod = map (\<lambda>(v, d). u32 (v * d)) (zip vals gathered); prod_lo = take 4 prod; prod_hi = drop 4 prod
     in (vaddw (vaddw sum_lo (take 2 prod_lo)) (drop 2 prod_lo), vaddw (vaddw sum_hi (take 2 prod_hi)) (drop 2 prod_hi)))"

lemma neon_u16_step:
  assumes "length vals = 8" "length gathered = 8" "\<forall>i < 8. vals ! i * gathered ! i < 2 ^ 32"
  shows "\<exists>a' b' c' d'. neon_u16_step ([a, b], [c, d]) vals gathered = ([a', b'], [c', d']) \<and>
    u64 (a' + b' + c' + d') = u64 (a + b + c + d + (\<Sum>i<8. vals ! i * gathered ! i))"
proof -
  obtain v0 v1 v2 v3 v4 v5 v6 v7 where v: "vals = [v0, v1, v2, v3, v4, v5, v6, v7]" using eight_lanes [OF assms(1)] by blast
  obtain d0 d1 d2 d3 d4 d5 d6 d7 where d: "gathered = [d0, d1, d2, d3, d4, d5, d6, d7]" using eight_lanes [OF assms(2)] by blast
  define p where "p i = vals ! i * gathered ! i" for i
  have "p i < 2 ^ 32" if "i < 8" for i using assms(3) that by (simp add: p_def)
  then have w: "u32 (p i) = p i" if "i < 8" for i using that by (simp add: u32_def)
  have "map (\<lambda>(v, d). u32 (v * d)) (zip vals gathered) = map (u32 \<circ> p) [0, 1, 2, 3, 4, 5, 6, 7]"
    by (simp add: v d p_def)
  also have "\<dots> = [p 0, p 1, p 2, p 3, p 4, p 5, p 6, p 7]" by (simp add: w)
  finally have e: "neon_u16_step ([a, b], [c, d]) vals gathered =
      ([u64 (u64 (a + p 0) + p 2), u64 (u64 (b + p 1) + p 3)], [u64 (u64 (c + p 4) + p 6), u64 (u64 (d + p 5) + p 7)])"
    by (simp add: neon_u16_step_def vaddw_def)
  have s: "(\<Sum>i<8. vals ! i * gathered ! i) = p 0 + p 1 + p 2 + p 3 + p 4 + p 5 + p 6 + p 7"
    by (simp add: p_def lessThan_nat_numeral lessThan_Suc)
  have "u64 (u64 (u64 (a + p 0) + p 2) + u64 (u64 (b + p 1) + p 3) + u64 (u64 (c + p 4) + p 6) + u64 (u64 (d + p 5) + p 7)) =
      u64 ((a + p 0 + p 2) + (b + p 1 + p 3) + (c + p 4 + p 6) + (d + p 5 + p 7))"
    by (intro u64_cong; simp; intro u64_cong; simp)
  then show ?thesis unfolding e s by (simp add: add_ac)
qed

lemma neon_uint16_exact:
  assumes row: "row_in indices values len (length dense)"
    and codes: "\<forall>i < len. values ! i * dense ! (indices ! i) < 2 ^ 32"
  shows "neon_dot_product_uint16_dense conv indices values len dense = Inr (conv (u64 (sparse_dot id indices values len dense)))"
proof -
  let ?f = "\<lambda>i. values ! i * dense ! (indices ! i)"
  let ?step = "\<lambda>acc b.
      bindE (load 8 indices (b * 8)) (\<lambda>idx. bindE (gather dense idx) (\<lambda>gathered. bindE (load 8 values (b * 8)) (\<lambda>vals.
      Inr (neon_u16_step acc vals gathered))))"
  have blocks: "\<exists>a b c d. foldE ?step ([0, 0], [0, 0]) [0..<n] = Inr ([a, b], [c, d]) \<and> u64 (a + b + c + d) = u64 (\<Sum>i<n * 8. ?f i)"
    if "n \<le> len div 8" for n
    using that
  proof (induction n)
    case (Suc n)
    then obtain a b c d where s: "foldE ?step ([0, 0], [0, 0]) [0..<n] = Inr ([a, b], [c, d])"
      "u64 (a + b + c + d) = u64 (\<Sum>i<n * 8. ?f i)" by auto
    have n: "n * 8 + 8 \<le> len" using block_fits [of n len 8] Suc.prems by simp
    let ?v = "take 8 (drop (n * 8) values)" and ?d = "map ((!) dense) (take 8 (drop (n * 8) indices))"
    have l: "n * 8 + 8 \<le> length indices" "n * 8 + 8 \<le> length values" using n row by (simp_all add: row_in_def)
    have nth: "?v ! i * ?d ! i = ?f (n * 8 + i)" if "i < 8" for i
    proof -
      have "i < length (take 8 (drop (n * 8) indices))" using that l by simp
      then show ?thesis using that l by (simp only: nth_map nth_take nth_drop)
    qed
    have "?v ! i * ?d ! i < 2 ^ 32" if "i < 8" for i
      using that n codes by (simp only: nth)
    then have "length ?v = 8" "length ?d = 8" "\<forall>i < 8. ?v ! i * ?d ! i < 2 ^ 32"
      using l by simp_all
    from neon_u16_step [OF this, of a b c d] obtain a' b' c' d' where
      e: "neon_u16_step ([a, b], [c, d]) ?v ?d = ([a', b'], [c', d'])"
        "u64 (a' + b' + c' + d') = u64 (a + b + c + d + (\<Sum>i<8. ?v ! i * ?d ! i))" by blast
    have eight: "(\<Sum>i<8. ?v ! i * ?d ! i) = (\<Sum>i<8. ?f (n * 8 + i))"
      by (rule sum.cong [OF refl]) (simp only: nth lessThan_iff)
    have "u64 (a' + b' + c' + d') = u64 (u64 (a + b + c + d) + (\<Sum>i<8. ?f (n * 8 + i)))"
      unfolding e(2) eight by (simp add: u64_def mod_simps)
    also have "\<dots> = u64 ((\<Sum>i<n * 8. ?f i) + (\<Sum>i<8. ?f (n * 8 + i)))"
      unfolding s(2) by (simp add: u64_def mod_simps)
    also have "\<dots> = u64 (\<Sum>i<Suc n * 8. ?f i)"
      using sum_lessThan_add [of ?f "n * 8" 8] by (simp add: add.commute)
    finally have "u64 (a' + b' + c' + d') = u64 (\<Sum>i<Suc n * 8. ?f i)" .
    moreover have "foldE ?step ([0, 0], [0, 0]) [0..<Suc n] = Inr ([a', b'], [c', d'])"
      using row_loads(1,2) [OF row n] e(1) s(1) gather_in [OF row_terms_in [OF row n]] by (simp add: foldE_append)
    ultimately show ?case by blast
  qed simp
  obtain a b c d where s: "foldE ?step ([0, 0], [0, 0]) [0..<len div 8] = Inr ([a, b], [c, d])"
    "u64 (a + b + c + d) = u64 (\<Sum>i<len div 8 * 8. ?f i)" using blocks [of "len div 8"] by blast
  have tail: "foldE (\<lambda>result_int i. bindE (rest_of id indices values dense i) (\<lambda>(v, d). Inr (u64 (result_int + u64 (v * d))))) (u64 x) [k..<n] =
      Inr (u64 (x + (\<Sum>i = k..<n. ?f i)))" if "n \<le> len" "k \<le> n" for x k n
    using that(2,1)
    by (induction n rule: dec_induct) (auto simp: foldE_append rest_of_in [OF row] u64_def mod_simps add.assoc)
  have "(\<Sum>i<len div 8 * 8. ?f i) + (\<Sum>i = len div 8 * 8..<len. ?f i) = (\<Sum>i<len. ?f i)"
    using sum.atLeastLessThan_concat [of 0 "len div 8 * 8" len ?f] by (simp add: atLeast0LessThan)
  then have total: "u64 ((\<Sum>i<len div 8 * 8. ?f i) + (\<Sum>i = len div 8 * 8..<len. ?f i)) = u64 (sparse_dot id indices values len dense)"
    by (simp add: sparse_dot_def)
  have "u64 (u64 (a + c) + u64 (b + d)) = u64 (\<Sum>i<len div 8 * 8. ?f i)"
    using u64_cong [of "u64 (a + c)" "a + c" "u64 (b + d)" "b + d"] s(2) by (simp add: add_ac)
  note u64_cong [OF this refl, of "\<Sum>i = len div 8 * 8..<len. ?f i", unfolded total]
  moreover have "neon_dot_product_uint16_dense conv indices values len dense =
      bindE (foldE ?step ([0, 0], [0, 0]) [0..<len div 8]) (\<lambda>(sum_lo, sum_hi).
      let total_lanes = vaddw sum_lo sum_hi; result_int = u64 (total_lanes ! 0 + total_lanes ! 1)
      in bindE (foldE (\<lambda>result_int i. bindE (rest_of id indices values dense i) (\<lambda>(v, d). Inr (u64 (result_int + u64 (v * d)))))
           result_int [len div 8 * 8..<len]) (\<lambda>result_int. Inr (conv result_int)))"
    unfolding neon_dot_product_uint16_dense_def neon_u16_step_def by (simp add: case_prod_unfold Let_def)
  moreover have "vaddw [a, b] [c, d] ! 0 + vaddw [a, b] [c, d] ! 1 = u64 (a + c) + u64 (b + d)" by (simp add: vaddw_def)
  ultimately show ?thesis by (simp only: s(1) bindE.simps prod.case Let_def tail [OF order_refl div_times_less_eq_dividend])
qed

section \<open>All rows\<close>

text \<open>The scalar loop and the vector loop over a well-formed matrix.\<close>

definition row_scores :: "nat \<Rightarrow> (byte list \<Rightarrow> 'v) \<Rightarrow> ('v \<Rightarrow> 'w) \<Rightarrow> sparse_vectors \<Rightarrow> 'v list \<Rightarrow> 'w :: {comm_monoid_add, times} list" where
  "row_scores sizeof dec conv vectors dense =
     map (\<lambda>(start, stop). sparse_dot conv (drop (nat start) (buf_elems (sv_indices vectors)))
            (typed_array sizeof dec (drop (nat start * sizeof) (buf_elems (sv_values vectors)))) (nat (stop - start)) dense)
       (zip (buf_elems (sv_indptr vectors)) (tl (buf_elems (sv_indptr vectors))))"

definition matrix_in :: "nat \<Rightarrow> sparse_vectors \<Rightarrow> nat \<Rightarrow> bool" where
  "matrix_in sizeof vectors dimension \<longleftrightarrow>
     csr_wf sizeof (buf_elems (sv_indptr vectors)) (buf_elems (sv_indices vectors)) (buf_elems (sv_values vectors)) \<and>
     (\<forall>t \<in> set (buf_elems (sv_indices vectors)). t < dimension) \<and> length (buf_elems (sv_indices vectors)) < 2 ^ 64"

lemma matrix_row:
  assumes wf: "matrix_in sizeof vectors n" and sizeof: "0 < sizeof" and i: "i < num_vectors vectors"
  defines "start \<equiv> buf_elems (sv_indptr vectors) ! i" and "stop \<equiv> buf_elems (sv_indptr vectors) ! (i + 1)"
  shows "i + 1 < length (buf_elems (sv_indptr vectors))" "0 \<le> start" "start \<le> stop"
    "nat stop \<le> length (buf_elems (sv_indices vectors))"
    "row_in (drop (nat start) (buf_elems (sv_indices vectors)))
      (typed_array sizeof dec (drop (nat start * sizeof) (buf_elems (sv_values vectors)))) (nat (stop - start)) n"
proof -
  let ?ptr = "buf_elems (sv_indptr vectors)" and ?ix = "buf_elems (sv_indices vectors)" and ?vs = "buf_elems (sv_values vectors)"
  have csr: "csr_wf sizeof ?ptr ?ix ?vs" using wf by (simp add: matrix_in_def)
  show len: "i + 1 < length ?ptr"
    using i by (auto simp: num_vectors_def buf_empty_def buf_size_def split: if_splits)
  show "0 \<le> start" using csr_wf_bounds [OF csr, of start] len by (simp add: start_def)
  show le: "start \<le> stop"
    using csr len by (auto simp: csr_wf_def start_def stop_def intro: sorted_nth_mono)
  have stop: "stop \<le> int (length ?ix)" using csr_wf_bounds [OF csr, of stop] len by (simp add: stop_def)
  then show n: "nat stop \<le> length ?ix" by simp
  have l: "nat (stop - start) = nat stop - nat start" "nat start \<le> nat stop" using le \<open>0 \<le> start\<close> by (simp_all add: nat_diff_distrib)
  have "length ?vs - nat start * sizeof = (length ?ix - nat start) * sizeof"
    using csr by (simp add: csr_wf_def diff_mult_distrib)
  then have d: "length (typed_array sizeof dec (drop (nat start * sizeof) ?vs)) = length ?ix - nat start"
    using sizeof by simp
  have "?ix ! (nat start + j) < n" if "j < nat (stop - start)" for j
  proof -
    have "nat start + j < length ?ix" using that n l by linarith
    then show ?thesis using wf by (simp add: matrix_in_def)
  qed
  then show "row_in (drop (nat start) ?ix) (typed_array sizeof dec (drop (nat start * sizeof) ?vs)) (nat (stop - start)) n"
    using diff_le_mono [OF n, of "nat start"] n l unfolding row_in_def d by simp
qed

lemma row_scores_nth:
  "row_scores sizeof dec conv vectors dense =
   map (\<lambda>i. let start = buf_elems (sv_indptr vectors) ! i; stop = buf_elems (sv_indptr vectors) ! (i + 1)
        in sparse_dot conv (drop (nat start) (buf_elems (sv_indices vectors)))
             (typed_array sizeof dec (drop (nat start * sizeof) (buf_elems (sv_values vectors)))) (nat (stop - start)) dense)
     [0..<num_vectors vectors]"
  unfolding row_scores_def
  by (rule nth_equalityI) (auto simp: num_vectors_def buf_empty_def buf_size_def nth_tl Let_def)

lemma span_of_row:
  assumes wf: "matrix_in sizeof vectors n" "0 < sizeof" and i: "i < num_vectors vectors"
  defines "start \<equiv> buf_elems (sv_indptr vectors) ! i" and "stop \<equiv> buf_elems (sv_indptr vectors) ! (i + 1)"
  shows "row_span (buf_elems (sv_indptr vectors)) i = Inr (nat start, nat (stop - start))"
  using row_span_Inr [OF matrix_row(1-3) [OF assms(1-3)]] matrix_row(2,3) [OF assms(1-3)]
  by (simp add: start_def stop_def nat_diff_distrib)

lemma simd_vectors_dense_eq:
  assumes wf: "matrix_in sizeof vectors n" "0 < sizeof"
    and row: "\<And>indices bytes len. row_in indices (typed_array sizeof dec bytes) len n \<Longrightarrow> len \<le> length (buf_elems (sv_indices vectors)) \<Longrightarrow>
      row_kernel indices (typed_array sizeof dec bytes) len = Inr (sparse_dot conv indices (typed_array sizeof dec bytes) len dense)"
  shows "simd_vectors_dense sizeof dec row_kernel vectors = Inr (row_scores sizeof dec conv vectors dense)"
  unfolding simd_vectors_dense_def row_scores_nth
proof (rule mapE_Inr_all)
  fix i assume "i \<in> set [0..<num_vectors vectors]"
  then have i: "i < num_vectors vectors" by simp
  note m = matrix_row [OF wf i]
  show "bindE (row_span (buf_elems (sv_indptr vectors)) i) (\<lambda>(start, len).
      row_kernel (drop start (buf_elems (sv_indices vectors)))
        (typed_array sizeof dec (drop (start * sizeof) (buf_elems (sv_values vectors)))) len) =
    Inr (let start = buf_elems (sv_indptr vectors) ! i; stop = buf_elems (sv_indptr vectors) ! (i + 1)
        in sparse_dot conv (drop (nat start) (buf_elems (sv_indices vectors)))
             (typed_array sizeof dec (drop (nat start * sizeof) (buf_elems (sv_values vectors)))) (nat (stop - start)) dense)"
    unfolding span_of_row [OF wf i] using row [OF m(5)] m(2,3,4) by (simp add: Let_def nat_diff_distrib)
qed

text \<open>A row of the scalar loop, which skips the zeros of the dense vector.\<close>

lemma foldE_row:
  fixes conv :: "'v :: {zero, order} \<Rightarrow> 'w :: comm_semiring_1"
  assumes row: "row_in ts vs len (length dense)" and zero: "conv 0 = 0" and "n \<le> len"
  shows "foldE (\<lambda>result j. bindE (read_at ts j) (\<lambda>t. bindE (read_at dense t) (\<lambda>d.
      if d \<le> 0 \<and> 0 \<le> d then Inr result else bindE (read_at vs j) (\<lambda>v. Inr (result + conv v * conv d))))) 0 [0..<n] =
    Inr (\<Sum>j<n. conv (vs ! j) * conv (dense ! (ts ! j)))"
  using assms(3)
proof (induction n)
  case (Suc n)
  then have n: "n < length ts" "n < length vs" "ts ! n < length dense" using row by (simp_all add: row_in_def)
  have "conv (dense ! (ts ! n)) = 0" if "dense ! (ts ! n) \<le> 0 \<and> 0 \<le> dense ! (ts ! n)"
    using that zero antisym [of "dense ! (ts ! n)" 0] by simp
  then show ?case using Suc n by (simp add: foldE_append)
qed simp

lemma scalar_vectors_dense_eq:
  fixes conv :: "'v :: {zero, order} \<Rightarrow> 'w :: comm_semiring_1"
  assumes wf: "matrix_in sizeof vectors (length dense)" "0 < sizeof" and zero: "conv 0 = 0"
  shows "dot_product_vectors_dense sizeof dec conv vectors dense = Inr (row_scores sizeof dec conv vectors dense)"
  unfolding dot_product_vectors_dense_def row_scores_nth
proof (rule mapE_Inr_all)
  fix i assume "i \<in> set [0..<num_vectors vectors]"
  then have i: "i < num_vectors vectors" by simp
  let ?ptr = "buf_elems (sv_indptr vectors)" and ?ix = "buf_elems (sv_indices vectors)" and ?vs = "buf_elems (sv_values vectors)"
  show "bindE (row_span ?ptr i) (\<lambda>(start, len).
      let idx_ptr = drop start ?ix; val_ptr = typed_array sizeof dec (drop (start * sizeof) ?vs)
      in foldE (\<lambda>result j. bindE (read_at idx_ptr j) (\<lambda>t. bindE (read_at dense t) (\<lambda>d.
           if d \<le> 0 \<and> 0 \<le> d then Inr result else bindE (read_at val_ptr j) (\<lambda>v. Inr (result + conv v * conv d))))) 0 [0..<len]) =
    Inr (let start = ?ptr ! i; stop = ?ptr ! (i + 1)
        in sparse_dot conv (drop (nat start) ?ix) (typed_array sizeof dec (drop (nat start * sizeof) ?vs)) (nat (stop - start)) dense)"
    unfolding span_of_row [OF wf i] bindE.simps prod.case Let_def sparse_dot_def
    by (rule foldE_row [where conv = conv, OF matrix_row(5) [OF wf i] zero le_refl])
qed

section \<open>The kernels and the scalar code\<close>

lemma row_in_mono: "row_in indices values len n \<Longrightarrow> n \<le> m \<Longrightarrow> row_in indices values len m"
  by (auto simp: row_in_def)

lemma matrix_in_mono: "matrix_in sizeof vectors n \<Longrightarrow> n \<le> m \<Longrightarrow> matrix_in sizeof vectors m"
  by (auto simp: matrix_in_def)

text \<open>The bytes of a row and the codes that \<open>le_nat\<close> reads from them.\<close>

lemma typed_bytes: "i < length bytes \<Longrightarrow> typed_array 1 hd bytes ! i = bytes ! i" "i < length bytes \<Longrightarrow> typed_array 1 le_nat bytes ! i = unat (bytes ! i)"
  by (simp_all add: typed_array_def decode_array_nth code_at_def take_Suc hd_drop_conv_nth)

lemma typed_bytes_eq [simp]: "typed_array 1 hd bytes = bytes" "typed_array 1 le_nat bytes = map unat bytes"
  by (rule nth_equalityI; simp add: typed_bytes [simplified])+

lemma row_scores_bytes:
  assumes "matrix_in 1 vectors (length cs)"
  shows "row_scores 1 hd (conv \<circ> unat) vectors cs = row_scores 1 le_nat conv vectors (map unat cs)"
  unfolding row_scores_nth
proof (rule map_cong [OF refl])
  fix i assume "i \<in> set [0..<num_vectors vectors]"
  then have i: "i < num_vectors vectors" by simp
  note row = matrix_row(5) [OF assms zero_less_one i, where dec = hd]
  show "(let start = buf_elems (sv_indptr vectors) ! i; stop = buf_elems (sv_indptr vectors) ! (i + 1)
      in sparse_dot (conv \<circ> unat) (drop (nat start) (buf_elems (sv_indices vectors)))
           (typed_array 1 hd (drop (nat start * 1) (buf_elems (sv_values vectors)))) (nat (stop - start)) cs) =
    (let start = buf_elems (sv_indptr vectors) ! i; stop = buf_elems (sv_indptr vectors) ! (i + 1)
      in sparse_dot conv (drop (nat start) (buf_elems (sv_indices vectors)))
           (typed_array 1 le_nat (drop (nat start * 1) (buf_elems (sv_values vectors)))) (nat (stop - start)) (map unat cs))"
    unfolding Let_def typed_bytes_eq sparse_dot_def
    by (rule sum.cong [OF refl]) (use row in \<open>auto simp: row_in_def\<close>)
qed

text \<open>The integer sum of a row of codes does not wrap.\<close>

lemma sparse_dot_fits:
  assumes "\<forall>i < len. values ! i < 2 ^ 16 \<and> dense ! (indices ! i) < 2 ^ 16" "len < 2 ^ 32"
  shows "u64 (sparse_dot id indices values len dense) = sparse_dot id indices values len dense"
proof -
  have "values ! i * dense ! (indices ! i) \<le> (2 ^ 16 - 1) * (2 ^ 16 - 1)" if "i < len" for i
    using assms(1) that by (intro mult_le_mono) fastforce+
  then have "(\<Sum>i<len. values ! i * dense ! (indices ! i)) \<le> (\<Sum>i<len. (2 ^ 16 - 1) * (2 ^ 16 - 1))"
    by (intro sum_mono) simp
  also have "\<dots> < 18446744073709551616" using assms(2) by simp
  finally show ?thesis by (simp add: sparse_dot_def)
qed

lemma typed_code_fits: "i < length bytes div 2 \<Longrightarrow> typed_array 2 le_nat bytes ! i < 2 ^ 16"
proof -
  assume "i < length bytes div 2"
  then have "typed_array 2 le_nat bytes ! i = le_nat (take 2 (drop (i * 2) bytes))"
    by (simp add: typed_array_def decode_array_nth code_at_def mult.commute)
  then show ?thesis using le_nat_less [of "take 2 (drop (i * 2) bytes)"]
    power_increasing [of "length (take 2 (drop (i * 2) bytes))" 2 "256 :: nat"] by simp
qed

abbreviation mul_add :: "'w \<Rightarrow> 'w \<Rightarrow> 'w \<Rightarrow> 'w :: {plus, times}" where
  "mul_add x y z \<equiv> x * y + z"

lemma float_scores_agree:
  fixes dense :: "'w :: {comm_semiring_1, order} list" and dec :: "byte list \<Rightarrow> 'w" and vectors
  assumes wf: "matrix_in 4 vectors (length dense)"
  defines "scalar \<equiv> dot_product_vectors_dense 4 dec id vectors dense"
  shows "avx2_dot_product_float_vectors_dense dec mul_add vectors dense = scalar"
    "avx512_dot_product_float_vectors_dense dec mul_add vectors dense = scalar"
    "neon_dot_product_float_vectors_dense dec mul_add vectors dense = scalar"
proof -
  have s: "scalar = Inr (row_scores 4 dec id vectors dense)"
    unfolding scalar_def by (rule scalar_vectors_dense_eq [OF wf]) simp_all
  show "avx2_dot_product_float_vectors_dense dec mul_add vectors dense = scalar"
    unfolding s avx2_dot_product_float_vectors_dense_def
    by (rule simd_vectors_dense_eq [OF wf]) (simp_all add: avx2_dot_product_exact)
  show "avx512_dot_product_float_vectors_dense dec mul_add vectors dense = scalar"
    unfolding s avx512_dot_product_float_vectors_dense_def
    by (rule simd_vectors_dense_eq [OF wf]) (simp_all add: avx512_dot_product_float_exact)
  show "neon_dot_product_float_vectors_dense dec mul_add vectors dense = scalar"
    unfolding s neon_dot_product_float_vectors_dense_def
    by (rule simd_vectors_dense_eq [OF wf]) (simp_all add: neon_dot_product_exact)
qed

lemma uint16_scores_agree:
  fixes vectors bytes n
  assumes wf: "matrix_in 2 vectors n" and n: "2 * n \<le> length bytes" and small: "length (buf_elems (sv_indices vectors)) < 2 ^ 32"
  defines "dense \<equiv> typed_array 2 le_nat bytes"
  defines "scalar \<equiv> (dot_product_vectors_dense 2 le_nat of_nat vectors dense :: exn + 'w :: comm_semiring_1 list)"
  shows "avx2_dot_product_uint16_vectors_dense of_nat mul_add vectors dense = scalar"
    "neon_dot_product_uint16_vectors_dense of_nat vectors dense = scalar"
    "2 * n + 2 \<le> length bytes \<Longrightarrow> avx512_dot_product_uint16_vectors_dense of_nat mul_add vectors bytes = scalar"
proof -
  have le: "n \<le> length dense" using n by (simp add: dense_def)
  note wf' = matrix_in_mono [OF wf le]
  have s: "scalar = Inr (row_scores 2 le_nat of_nat vectors dense)"
    unfolding scalar_def by (rule scalar_vectors_dense_eq [OF wf']) simp_all
  show "avx2_dot_product_uint16_vectors_dense of_nat mul_add vectors dense = scalar"
    unfolding s avx2_dot_product_uint16_vectors_dense_def
    by (rule simd_vectors_dense_eq [OF wf']) (simp_all add: avx2_dot_product_exact)
  show "neon_dot_product_uint16_vectors_dense of_nat vectors dense = scalar"
    unfolding s neon_dot_product_uint16_vectors_dense_def
  proof (rule simd_vectors_dense_eq [OF wf'])
    fix indices :: "term_t list" and rb :: "byte list" and len
    assume row: "row_in indices (typed_array 2 le_nat rb) len (length dense)" and len: "len \<le> length (buf_elems (sv_indices vectors))"
    have fits: "\<forall>i < len. typed_array 2 le_nat rb ! i < 2 ^ 16 \<and> dense ! (indices ! i) < 2 ^ 16"
      using row unfolding dense_def row_in_def
      by (auto intro!: typed_code_fits [simplified] simp del: length_typed_array simp: length_typed_array)
    have "typed_array 2 le_nat rb ! i * dense ! (indices ! i) < 2 ^ 32" if "i < len" for i
    proof -
      have "typed_array 2 le_nat rb ! i * dense ! (indices ! i) \<le> (2 ^ 16 - 1) * (2 ^ 16 - 1)"
        using fits that by (intro mult_le_mono) fastforce+
      then show ?thesis by simp
    qed
    then have "neon_dot_product_uint16_dense of_nat indices (typed_array 2 le_nat rb) len dense =
        Inr (of_nat (u64 (sparse_dot id indices (typed_array 2 le_nat rb) len dense)))"
      by (intro neon_uint16_exact [OF row]) blast
    moreover have "u64 (sparse_dot id indices (typed_array 2 le_nat rb) len dense) = sparse_dot id indices (typed_array 2 le_nat rb) len dense"
      by (rule sparse_dot_fits [OF fits]) (use len small in simp)
    ultimately show "neon_dot_product_uint16_dense of_nat indices (typed_array 2 le_nat rb) len dense =
        Inr (sparse_dot of_nat indices (typed_array 2 le_nat rb) len dense :: 'w)"
      by (simp add: sparse_dot_def)
  qed simp
  show "avx512_dot_product_uint16_vectors_dense of_nat mul_add vectors bytes = scalar" if pad: "2 * n + 2 \<le> length bytes"
    unfolding s avx512_dot_product_uint16_vectors_dense_def
  proof (rule simd_vectors_dense_eq [OF wf])
    fix indices :: "term_t list" and rb :: "byte list" and len
    assume row: "row_in indices (typed_array 2 le_nat rb) len n"
    have "indices ! i * 2 + 4 \<le> length bytes" if "i < len div 16 * 16" for i
    proof -
      have "i < len" using that div_times_less_eq_dividend [of len 16] by linarith
      then have "indices ! i < n" using row by (simp add: row_in_def)
      then show ?thesis using pad by linarith
    qed
    then have "pieces_in 16 2 indices len bytes" by (simp add: pieces_in_def)
    moreover have "row_in indices (typed_array 2 le_nat rb) len (length bytes div 2)"
      using row_in_mono [OF row le] by (simp add: dense_def)
    ultimately show "avx512_dot_product_uint16_dense of_nat mul_add indices (typed_array 2 le_nat rb) len bytes =
        Inr (sparse_dot of_nat indices (typed_array 2 le_nat rb) len dense :: 'w)"
      unfolding dense_def by (intro avx512_uint16_exact)
  qed simp
qed

lemma uint8_scores_agree:
  fixes vectors bytes n
  assumes wf: "matrix_in 1 vectors n" and n: "n \<le> length bytes"
  defines "scalar \<equiv> (dot_product_vectors_dense 1 le_nat of_nat vectors (typed_array 1 le_nat bytes) :: exn + 'w :: comm_semiring_1 list)"
  shows "avx2_dot_product_uint8_vectors_dense of_nat mul_add vectors bytes = scalar"
    "n + 3 \<le> length bytes \<Longrightarrow> avx512_dot_product_uint8_vectors_dense of_nat mul_add vectors bytes = scalar"
proof -
  note wf' = matrix_in_mono [OF wf n]
  have "scalar = Inr (row_scores 1 le_nat of_nat vectors (map unat bytes))"
    unfolding scalar_def typed_bytes_eq by (rule scalar_vectors_dense_eq) (use wf' in simp_all)
  then have s: "scalar = Inr (row_scores 1 hd (of_nat \<circ> unat) vectors bytes)" by (simp only: row_scores_bytes [OF wf'])
  show "avx2_dot_product_uint8_vectors_dense of_nat mul_add vectors bytes = scalar"
    unfolding s avx2_dot_product_uint8_vectors_dense_def
    by (rule simd_vectors_dense_eq [OF wf']) (simp_all add: avx2_dot_product_exact)
  show "avx512_dot_product_uint8_vectors_dense of_nat mul_add vectors bytes = scalar" if pad: "n + 3 \<le> length bytes"
    unfolding s avx512_dot_product_uint8_vectors_dense_def
  proof (rule simd_vectors_dense_eq [OF wf])
    fix indices :: "term_t list" and rb :: "byte list" and len
    assume row: "row_in indices (typed_array 1 hd rb) len n"
    have "indices ! i * 1 + 4 \<le> length bytes" if "i < len div 16 * 16" for i
    proof -
      have "i < len" using that div_times_less_eq_dividend [of len 16] by linarith
      then have "indices ! i < n" using row by (simp add: row_in_def)
      then show ?thesis using pad by linarith
    qed
    then have "pieces_in 16 1 indices len bytes" by (simp add: pieces_in_def)
    then show "avx512_dot_product_uint8_dense of_nat mul_add indices (typed_array 1 hd rb) len bytes =
        Inr (sparse_dot (of_nat \<circ> unat) indices (typed_array 1 hd rb) len bytes :: 'w)"
      by (intro avx512_uint8_exact row_in_mono [OF row n])
  qed simp
qed

text \<open>A row shorter than a register never meets one.\<close>

lemma simd_dot_short:
  fixes conv :: "'v \<Rightarrow> 'w :: comm_semiring_1"
  assumes "len < lanes" "row_in indices values len (length dense)" "\<And>s. length s = lanes \<Longrightarrow> horizontal s = sum_list s"
  shows "simd_dot lanes horizontal mul_add block (rest_of conv indices values dense) len = Inr (sparse_dot conv indices values len dense)"
  by (rule simd_dot_row) (use assms in simp_all)

lemma neon_uint8_reads:
  fixes conv :: "nat \<Rightarrow> 'w :: comm_semiring_1"
  assumes row: "row_in indices bs len (length bytes)"
  shows "neon_dot_product_uint8_dense conv mul_add indices bs len bytes =
    (if len < 4 \<or> len div 4 * 4 + 4 \<le> length bs then Inr (sparse_dot (conv \<circ> unat) indices bs len bytes) else over_read)"
proof (cases "len < 4")
  case True
  then show ?thesis unfolding neon_dot_product_uint8_dense_def by (simp add: simd_dot_short [OF True row neon_sum])
next
  case False
  then show ?thesis
    using neon_dot_product_exact(2) [OF row, of conv] neon_uint8_over_reads [OF row, of conv mul_add] by simp
qed

lemma sve_reads:
  fixes conv :: "nat \<Rightarrow> 'w :: comm_semiring_1"
  assumes vl: "0 < vl"
  shows "row_in indices ws len (length dense) \<Longrightarrow>
      sve_dot_product_float_dense vl mul_add indices ws len dense =
      (if len < vl \<or> len div vl * vl + vl \<le> length indices then Inr (sparse_dot id indices ws len (dense :: 'w list)) else over_read)"
    and "row_in indices vs len (length bytes div 2) \<Longrightarrow>
      sve_dot_product_uint16_dense vl conv mul_add indices vs len bytes =
      (if len < vl \<or> len div vl * vl + vl \<le> length indices \<and> len div vl * vl + vl \<le> length vs \<and> pieces_in vl 2 indices len bytes
       then Inr (sparse_dot conv indices vs len (typed_array 2 le_nat bytes)) else over_read)"
    and "row_in indices bs len (length bytes) \<Longrightarrow>
      sve_dot_product_uint8_dense vl conv mul_add indices bs len bytes =
      (if len < vl \<or> len div vl * vl + vl \<le> length indices \<and> len div vl * vl + 3 * vl \<le> length bs \<and> pieces_in vl 1 indices len bytes
       then Inr (sparse_dot (conv \<circ> unat) indices bs len bytes) else over_read)"
proof -
  assume row: "row_in indices ws len (length dense)"
  show "sve_dot_product_float_dense vl mul_add indices ws len dense =
      (if len < vl \<or> len div vl * vl + vl \<le> length indices then Inr (sparse_dot id indices ws len dense) else over_read)"
  proof (cases "len < vl")
    case True
    then show ?thesis unfolding sve_dot_product_float_dense_def by (simp add: simd_dot_short [OF True row sve_sum])
  next
    case False
    then show ?thesis
      using sve_dot_product_float_exact [OF row vl] sve_float_over_reads [OF vl, of len indices mul_add ws dense]
      by (cases "len div vl * vl + vl \<le> length indices") simp_all
  qed
next
  assume row: "row_in indices vs len (length bytes div 2)"
  then have len: "len \<le> length indices" by (simp add: row_in_def)
  show "sve_dot_product_uint16_dense vl conv mul_add indices vs len bytes =
      (if len < vl \<or> len div vl * vl + vl \<le> length indices \<and> len div vl * vl + vl \<le> length vs \<and> pieces_in vl 2 indices len bytes
       then Inr (sparse_dot conv indices vs len (typed_array 2 le_nat bytes)) else over_read)"
  proof (cases "len < vl")
    case True
    have "row_in indices vs len (length (typed_array 2 le_nat bytes))" using row by simp
    then show ?thesis unfolding sve_dot_product_uint16_dense_def by (simp add: simd_dot_short [OF True _ sve_sum] True)
  next
    case False
    then show ?thesis
      using sve_uint16_exact [OF row _ vl, of conv] sve_uint16_over_reads [OF vl _ len, of vs bytes conv mul_add]
      by (auto simp: not_le not_less)
  qed
next
  assume row: "row_in indices bs len (length bytes)"
  then have len: "len \<le> length indices" by (simp add: row_in_def)
  show "sve_dot_product_uint8_dense vl conv mul_add indices bs len bytes =
      (if len < vl \<or> len div vl * vl + vl \<le> length indices \<and> len div vl * vl + 3 * vl \<le> length bs \<and> pieces_in vl 1 indices len bytes
       then Inr (sparse_dot (conv \<circ> unat) indices bs len bytes) else over_read)"
  proof (cases "len < vl")
    case True
    then show ?thesis unfolding sve_dot_product_uint8_dense_def by (simp add: simd_dot_short [OF True row sve_sum])
  next
    case False
    then show ?thesis
      using sve_uint8_exact [OF row _ vl, of conv] sve_uint8_over_reads [OF vl _ len, of bs bytes conv mul_add]
      by (auto simp: not_le not_less)
  qed
qed

text \<open>The last load of a row of codes stays in the array of all codes.\<close>

definition codes_reach :: "sparse_vectors \<Rightarrow> nat \<Rightarrow> bool" where
  "codes_reach vectors i \<longleftrightarrow>
     (let start = nat (buf_elems (sv_indptr vectors) ! i); len = nat (buf_elems (sv_indptr vectors) ! (i + 1)) - start
      in len < 4 \<or> start + len div 4 * 4 + 4 \<le> length (buf_elems (sv_values vectors)))"

lemma neon_uint8_scores:
  fixes vectors bytes n
  assumes wf: "matrix_in 1 vectors n" and n: "n \<le> length bytes"
  defines "scalar \<equiv> (dot_product_vectors_dense 1 le_nat of_nat vectors (typed_array 1 le_nat bytes) :: exn + 'w :: comm_semiring_1 list)"
  shows "neon_dot_product_uint8_vectors_dense of_nat mul_add vectors bytes =
    (if \<forall>i < num_vectors vectors. codes_reach vectors i then scalar else over_read)"
proof -
  note wf' = matrix_in_mono [OF wf n]
  have "scalar = Inr (row_scores 1 le_nat of_nat vectors (map unat bytes))"
    unfolding scalar_def typed_bytes_eq by (rule scalar_vectors_dense_eq) (use wf' in simp_all)
  then have s: "scalar = Inr (row_scores 1 hd (of_nat \<circ> unat) vectors bytes)" by (simp only: row_scores_bytes [OF wf'])
  let ?ptr = "buf_elems (sv_indptr vectors)" and ?ix = "buf_elems (sv_indices vectors)" and ?vs = "buf_elems (sv_values vectors)"
  let ?row = "\<lambda>i. bindE (row_span ?ptr i) (\<lambda>(start, len).
      neon_dot_product_uint8_dense of_nat mul_add (drop start ?ix) (typed_array 1 hd (drop (start * 1) ?vs)) len bytes :: exn + 'w)"
  have row: "?row i = (if codes_reach vectors i then Inr (sparse_dot (of_nat \<circ> unat) (drop (nat (?ptr ! i)) ?ix)
      (typed_array 1 hd (drop (nat (?ptr ! i) * 1) ?vs)) (nat (?ptr ! (i + 1) - ?ptr ! i)) bytes) else over_read)"
    if i: "i < num_vectors vectors" for i
  proof -
    note m = matrix_row [OF wf' zero_less_one i]
    have "length ?vs = length ?ix" using wf by (simp add: matrix_in_def csr_wf_def)
    then have "nat (?ptr ! i) \<le> length ?vs" using m(2-4) by simp
    then have reach: "x + 4 \<le> length ?vs - nat (?ptr ! i) \<longleftrightarrow> nat (?ptr ! i) + x + 4 \<le> length ?vs" for x by linarith
    have len: "nat (?ptr ! (i + 1) - ?ptr ! i) = nat (?ptr ! (i + 1)) - nat (?ptr ! i)" using m(2,3) by (simp add: nat_diff_distrib)
    show ?thesis
      unfolding span_of_row [OF wf' zero_less_one i] bindE.simps prod.case
        neon_uint8_reads [OF m(5) [where dec = hd]]
      unfolding len codes_reach_def Let_def typed_bytes_eq length_drop mult_1_right reach ..
  qed
  show ?thesis
  proof (cases "\<forall>i < num_vectors vectors. codes_reach vectors i")
    case True
    then have "mapE ?row [0..<num_vectors vectors] = Inr (row_scores 1 hd (of_nat \<circ> unat) vectors bytes)"
      unfolding row_scores_nth Let_def by (intro mapE_Inr_all) (simp only: row set_upt atLeastLessThan_iff simp_thms if_True)
    then show ?thesis using True s by (simp add: neon_dot_product_uint8_vectors_dense_def simd_vectors_dense_def)
  next
    case False
    then obtain i where i: "i < num_vectors vectors" "\<not> codes_reach vectors i" by blast
    have "mapE ?row [0..<num_vectors vectors] = over_read"
    proof (rule mapE_fails)
      show "\<forall>i \<in> set [0..<num_vectors vectors]. ?row i = over_read \<or> (\<exists>y. ?row i = Inr y)"
      proof
        fix i assume "i \<in> set [0..<num_vectors vectors]"
        then have "i < num_vectors vectors" by simp
        from row [OF this] show "?row i = over_read \<or> (\<exists>y. ?row i = Inr y)" by (cases "codes_reach vectors i") simp_all
      qed
      show "\<exists>i \<in> set [0..<num_vectors vectors]. ?row i = over_read"
        by (rule bexI [of _ i]) (use i in \<open>simp_all only: row if_False set_upt atLeastLessThan_iff le0 simp_thms\<close>)
    qed
    then show ?thesis unfolding if_not_P [OF False] by (simp add: neon_dot_product_uint8_vectors_dense_def simd_vectors_dense_def)
  qed
qed

section \<open>The theorems\<close>

text \<open>
  C16: in exact arithmetic the vector kernels score the rows of a well-formed matrix as the scalar code
  does: AVX2, AVX-512 and NEON on floats; AVX2 and, by integers that do not wrap, NEON on 16-bit codes;
  AVX2 on 8-bit codes; AVX-512 on codes when the dense vector has one 16-bit element, or three bytes,
  to spare; NEON on 8-bit codes exactly when no row of four codes or more ends too close to the end
  of the codes for its last load of eight, and reads past that end otherwise.
\<close>

theorem simd_scores_agree:
  fixes dense :: "'w :: {comm_semiring_1, order} list"
  shows "(matrix_in 4 vectors (length dense) \<longrightarrow>
      avx2_dot_product_float_vectors_dense dec mul_add vectors dense = dot_product_vectors_dense 4 dec id vectors dense \<and>
      avx512_dot_product_float_vectors_dense dec mul_add vectors dense = dot_product_vectors_dense 4 dec id vectors dense \<and>
      neon_dot_product_float_vectors_dense dec mul_add vectors dense = dot_product_vectors_dense 4 dec id vectors dense) \<and>
    (matrix_in 2 vectors n \<and> 2 * n \<le> length bytes \<and> length (buf_elems (sv_indices vectors)) < 2 ^ 32 \<longrightarrow>
      avx2_dot_product_uint16_vectors_dense of_nat mul_add vectors (typed_array 2 le_nat bytes) =
        (dot_product_vectors_dense 2 le_nat of_nat vectors (typed_array 2 le_nat bytes) :: exn + 'w list) \<and>
      neon_dot_product_uint16_vectors_dense of_nat vectors (typed_array 2 le_nat bytes) =
        (dot_product_vectors_dense 2 le_nat of_nat vectors (typed_array 2 le_nat bytes) :: exn + 'w list) \<and>
      (2 * n + 2 \<le> length bytes \<longrightarrow> avx512_dot_product_uint16_vectors_dense of_nat mul_add vectors bytes =
        (dot_product_vectors_dense 2 le_nat of_nat vectors (typed_array 2 le_nat bytes) :: exn + 'w list))) \<and>
    (matrix_in 1 vectors n \<and> n \<le> length bytes \<longrightarrow>
      avx2_dot_product_uint8_vectors_dense of_nat mul_add vectors bytes =
        (dot_product_vectors_dense 1 le_nat of_nat vectors (typed_array 1 le_nat bytes) :: exn + 'w list) \<and>
      neon_dot_product_uint8_vectors_dense of_nat mul_add vectors bytes =
        (if \<forall>i < num_vectors vectors. codes_reach vectors i
         then (dot_product_vectors_dense 1 le_nat of_nat vectors (typed_array 1 le_nat bytes) :: exn + 'w list) else over_read) \<and>
      (n + 3 \<le> length bytes \<longrightarrow> avx512_dot_product_uint8_vectors_dense of_nat mul_add vectors bytes =
        (dot_product_vectors_dense 1 le_nat of_nat vectors (typed_array 1 le_nat bytes) :: exn + 'w list)))"
  by (intro conjI impI)
    (simp_all add: float_scores_agree uint16_scores_agree [where n = n and bytes = bytes] uint8_scores_agree [where n = n and bytes = bytes]
      neon_uint8_scores [where n = n and bytes = bytes])

theorem simd_scores_agree_witness:
  "avx2_dot_product_uint8_vectors_dense of_nat mul_add
     \<lparr>sv_indptr = buf_own [0, 2, 3], sv_indices = buf_own [0, 2, 1], sv_values = buf_own [3, 5, 7],
      sv_element_size = 1, sv_dimension = 3\<rparr> [10, 20, 30] =
   (dot_product_vectors_dense 1 le_nat of_nat
     \<lparr>sv_indptr = buf_own [0, 2, 3], sv_indices = buf_own [0, 2, 1], sv_values = buf_own [3, 5, 7],
      sv_element_size = 1, sv_dimension = 3\<rparr> (typed_array 1 le_nat [10, 20, 30]) :: exn + int list)"
  using simd_scores_agree [where 'w = int and n = 3 and bytes = "[10, 20, 30]" and
      vectors = "\<lparr>sv_indptr = buf_own [0, 2, 3], sv_indices = buf_own [0, 2, 1], sv_values = buf_own [3, 5, 7],
      sv_element_size = 1, sv_dimension = 3\<rparr>"]
  by (simp add: matrix_in_def csr_wf_def)

text \<open>
  C17: which rows the kernels read past the end of an array for. AVX-512 gathers codes in pieces of four
  bytes, so on a dense vector without padding a whole register with one of its last terms reads past
  it. NEON loads eight bytes for four codes. SVE loads whole registers of 16-bit terms and of codes,
  two and four times what it uses. Every other row is scored exactly.
\<close>

theorem simd_loads_need_slack:
  fixes conv :: "nat \<Rightarrow> 'w :: comm_semiring_1"
  assumes "0 < vl" and "row_in indices ws len n" and "row_in indices vs len n" and "row_in indices bs len n"
    and "n \<le> length (dense :: 'w list)" and "n \<le> length bytes div 2"
  shows "avx512_dot_product_uint16_dense conv mul_add indices vs len bytes =
      (if pieces_in 16 2 indices len bytes then Inr (sparse_dot conv indices vs len (typed_array 2 le_nat bytes)) else over_read) \<and>
    avx512_dot_product_uint8_dense conv mul_add indices bs len bytes =
      (if pieces_in 16 1 indices len bytes then Inr (sparse_dot (conv \<circ> unat) indices bs len bytes) else over_read) \<and>
    neon_dot_product_uint8_dense conv mul_add indices bs len bytes =
      (if len < 4 \<or> len div 4 * 4 + 4 \<le> length bs then Inr (sparse_dot (conv \<circ> unat) indices bs len bytes) else over_read) \<and>
    sve_dot_product_float_dense vl mul_add indices ws len dense =
      (if len < vl \<or> len div vl * vl + vl \<le> length indices then Inr (sparse_dot id indices ws len dense) else over_read) \<and>
    sve_dot_product_uint16_dense vl conv mul_add indices vs len bytes =
      (if len < vl \<or> len div vl * vl + vl \<le> length indices \<and> len div vl * vl + vl \<le> length vs \<and> pieces_in vl 2 indices len bytes
       then Inr (sparse_dot conv indices vs len (typed_array 2 le_nat bytes)) else over_read) \<and>
    sve_dot_product_uint8_dense vl conv mul_add indices bs len bytes =
      (if len < vl \<or> len div vl * vl + vl \<le> length indices \<and> len div vl * vl + 3 * vl \<le> length bs \<and> pieces_in vl 1 indices len bytes
       then Inr (sparse_dot (conv \<circ> unat) indices bs len bytes) else over_read)"
proof -
  have len: "len \<le> length indices" using assms(2) by (simp add: row_in_def)
  have ws: "row_in indices ws len (length dense)" and vs: "row_in indices vs len (length bytes div 2)"
    and bs: "row_in indices bs len (length bytes)"
    using row_in_mono assms by (blast, blast, metis row_in_mono div_le_dividend le_trans)
  show ?thesis
    using avx512_uint16_exact [OF vs, of conv] avx512_uint8_exact [OF bs, of conv] avx512_over_reads(1) [OF len, of bytes conv mul_add vs]
      avx512_over_reads(2) [OF len, of bytes conv mul_add bs]
      neon_uint8_reads [OF bs, of conv] sve_reads(1) [OF assms(1) ws] sve_reads(2) [OF assms(1) vs, of conv]
      sve_reads(3) [OF assms(1) bs, of conv] by simp
qed

theorem simd_loads_need_slack_witness:
  "neon_dot_product_uint8_dense int mul_add [0, 1, 1, 0] [1, 2, 3, 4] 4 [5, 6, 0, 0] = over_read \<and>
   sve_dot_product_float_dense 4 mul_add [0, 1, 1, 0] [1 :: int, 2, 3, 4] 4 [5, 6] = over_read"
proof -
  have row: "row_in [0, 1, 1, 0] xs 4 2" if "length xs = 4" for xs :: "'b list"
    using that by (auto simp: row_in_def less_Suc_eq numeral_eq_Suc)
  have "(0 :: nat) < 4" "2 \<le> length [5 :: int, 6]" "2 \<le> length [5 :: byte, 6, 0, 0] div 2" by simp_all
  note w = simd_loads_need_slack [OF this(1) row [of "[1 :: int, 2, 3, 4]"] row [of "[1, 2, 3, 4]"] row [of "[1, 2, 3, 4]"] this(2,3), of int]
  have "neon_dot_product_uint8_dense int mul_add [0, 1, 1, 0] [1, 2, 3, 4] 4 [5, 6, 0, 0] = over_read"
    using w by (simp only: list.size) simp
  moreover have "sve_dot_product_float_dense 4 mul_add [0, 1, 1, 0] [1 :: int, 2, 3, 4] 4 [5, 6] = over_read"
    using w by (simp only: list.size) simp
  ultimately show ?thesis ..
qed

end
