(* ===== verification/Spec2Isabelle.thy ===== *)
theory Spec2Isabelle
  imports Index_Factory Distance_SIMD
begin

text \<open>
  \<^bold>\<open>What the program is.\<close> \<^verbatim>\<open>nsparse\<close> searches sparse vectors: documents and queries are rows of
  terms (below \<open>2 ^ 16\<close>) and weights, the score of a document is its dot product with the query, and a
  search returns for each query the \<open>k\<close> documents of largest score. An index takes documents with
  \<open>add\<close>, is prepared by \<open>build\<close>, answers \<open>search\<close>, and can be written to a file that is read back by
  copying or by mapping. This development models the C++ code under \<^verbatim>\<open>src/nsparse/\<close>.

  \<^bold>\<open>Parts and how they interact.\<close> All indexes keep the documents in a compressed-row matrix
  (\<open>SparseVectors\<close>) and collect answers in bounded heaps (\<open>TopKHolder\<close>, \<open>DedupeTopKHolder\<close>).
  \<open>BrutalIndex\<close> scores every document. \<open>InvertedIndex\<close> builds one posting list per term with an upper
  bound and runs MaxScore over windows of documents. The Seismic indexes prune each posting list,
  partition it by k-means into clusters, give each cluster a summary vector, and at query time visit only
  clusters whose summary promises enough; one of them stores 8 or 16-bit codes. The disk indexes keep
  the documents of each cluster in blocks of a mapped file and read a budget of them per query.
  \<open>IDMapIndex\<close> puts external ids before any index. Index files carry a four-character id that selects the
  reader; the factory makes an index from a description.

  \<^bold>\<open>Theories and sources.\<close> Names of definitions are those of the code, with a prefix for the class where
  two classes share one (\<open>sv\<close>, \<open>il\<close>, \<open>ail\<close>, \<open>ii\<close>, \<open>bi\<close>, \<open>cl\<close>, \<open>slw\<close>, \<open>se\<close>, \<open>dk\<close>).

  \<^item> \<open>Prelude\<close>: \<^verbatim>\<open>types.h\<close>, \<^verbatim>\<open>utils/checks.h\<close>, exceptions as the left side of a sum, little-endian bytes,
    loops as \<open>foldE\<close> and \<open>mapE\<close>. \<open>Float32\<close>: IEEE binary32, its order and its bytes.
  \<^item> \<open>Std_Heap\<close>: the binary heap of \<^verbatim>\<open>std::priority_queue\<close> and the locale \<open>priority_queue\<close> it satisfies;
    \<open>Ranker\<close>: \<^verbatim>\<open>utils/ranker.h\<close>, \<^verbatim>\<open>utils/vector_process.h\<close>, on top of that locale.
  \<^item> \<open>Buf\<close>, \<open>Stream_IO\<close>: \<^verbatim>\<open>utils/buf.h\<close>, \<^verbatim>\<open>io/buffered_io.cpp\<close>, \<^verbatim>\<open>io/align.h\<close>, \<^verbatim>\<open>utils/mmap_cursor.h\<close>. The
    locale \<open>elem_codec\<close> is what an array of fixed-width elements needs to survive a file; it is interpreted
    for every element type the formats contain.
  \<^item> \<open>Sparse_Vectors\<close>: \<^verbatim>\<open>sparse_vectors.cpp\<close>. \<open>Inverted_Lists\<close>: \<^verbatim>\<open>invlists/inverted_lists.cpp\<close>.
  \<^item> \<open>Bitmap\<close>, \<open>Max_Score\<close>, \<open>Max_Score_Correct\<close>, \<open>Inverted_Index\<close>: \<^verbatim>\<open>inverted_index.cpp\<close>, from the window
    bitmap to the whole class.
  \<^item> \<open>Distance\<close>, \<open>Distance_SIMD\<close>: \<^verbatim>\<open>utils/distance.h\<close> and the kernels that replace it on AVX2, AVX-512, NEON
    and SVE; \<^verbatim>\<open>utils/dense_vector_matrix.h\<close>.
  \<^item> \<open>Brutal_Index\<close>: \<^verbatim>\<open>brutal_index.cpp\<close>, \<^verbatim>\<open>index.cpp\<close>. \<open>Exact_Matcher\<close>: \<^verbatim>\<open>id_selector.h\<close>, \<^verbatim>\<open>exact_matcher.h\<close>.
  \<^item> \<open>Counting_Sort\<close>, \<open>Clusters\<close>, \<open>Clusters_IO\<close>, \<open>KMeans\<close>: \<^verbatim>\<open>cluster/\<close>. \<open>Seismic_Build\<close>, \<open>Seismic_Spill\<close>:
    \<^verbatim>\<open>seismic_common.cpp\<close>, \<^verbatim>\<open>seismic_batched_build.cpp\<close>. \<open>Cluster_Walk\<close>, \<open>Seismic_Index\<close>: \<^verbatim>\<open>seismic_common.h\<close>,
    \<^verbatim>\<open>seismic_index.cpp\<close>. \<open>Scalar_Quantizer\<close>, \<open>Seismic_SQ_Index\<close>: \<^verbatim>\<open>utils/scalar_quantizer.h\<close>,
    \<^verbatim>\<open>seismic_scalar_quantized_index.cpp\<close>.
  \<^item> \<open>Inline_Forward\<close>, \<open>Disk_Search\<close>, \<open>Disk_Index\<close>: \<^verbatim>\<open>io/inline_forward_index_io.cpp\<close>,
    \<^verbatim>\<open>disk_seismic_search.cpp\<close>, \<^verbatim>\<open>disk_seismic_index_base.cpp\<close> and its two subclasses, which are one state with
    an optional quantizer.
  \<^item> \<open>Csr_File\<close>: \<^verbatim>\<open>index.cpp\<close>, \<^verbatim>\<open>utils/csr_layout.cpp\<close>. \<open>Id_Map_Index\<close>: \<^verbatim>\<open>id_map_index.cpp\<close> and the type
    \<open>any_index\<close> of all indexes behind the base class. \<open>Index_File\<close>: \<^verbatim>\<open>io/index_io.cpp\<close>. \<open>Index_Factory\<close>:
    \<^verbatim>\<open>index_factory.cpp\<close>.
\<close>

text \<open>
  \<^bold>\<open>How state and operations correspond.\<close> A class is a record of its members; an operation is a function
  from the state and its arguments to \<open>Inl\<close> of an exception or \<open>Inr\<close> of the results and the new state, in
  the order of the code, early returns included. The state an operation leaves behind when it throws is
  not modelled. Exceptions keep their type and the fixed part of their message. What C++ leaves
  undefined (a read past an array, signed overflow, a null dereference) is the exception
  \<open>Undefined_behaviour\<close> where the code relies on its caller or on a file not to cause it: dense arrays
  indexed by a term, rows and labels handed in, padding, accumulators, mapped arrays. It is not tracked
  everywhere. Where the checks before an access or the layout of a matrix the index made itself rule it
  out, the access is plain (\<open>query_row\<close>, \<open>row_entries\<close>, \<open>csr_rows\<close> and the like take list elements and
  subtract naturals), and the theorems name that layout among their hypotheses (\<open>csr_wf\<close>,
  \<open>sv_content_wf\<close>). A null
  pointer is \<open>None\<close>; a pointer with a length is a list, and where a pointer may be read beyond the length
  given, the rest of its buffer. Machine integers are naturals or integers with \<open>u16\<close>, \<open>u32\<close>, \<open>u64\<close>, \<open>i32\<close>
  written where the code can wrap, and 64-bit words in the bitmap.

  \<^bold>\<open>Weights.\<close> Definitions work for any type of weights with the operations the code uses, and so for
  \<open>f32\<close>. Theorems on exact scores and on round trips name what they need: ordered types, commutative
  semirings, a codec \<open>enc\<close>, \<open>dec\<close> whose \<open>dec\<close> undoes \<open>enc\<close>. They say nothing on the rounding of float sums.

  \<^bold>\<open>Parameters.\<close> What the code takes from outside is an argument: the bytes of a value (\<open>enc\<close>, \<open>dec\<close>), the
  conversions from integers (\<open>conv\<close>, \<open>of_int\<close>) and \<^verbatim>\<open>std::lround\<close>, the draws of the random engine and the
  default seed, the assignment of queries to threads, the address at which a file is mapped, the rounding
  of a fused multiply-add (\<open>fma\<close>), the number of lanes of an SVE register, what the file system refuses.
  \<open>Float32\<close> and \<open>Scalar_Quantizer\<close> give the codec and the rounding of the real type.

  \<^bold>\<open>Loops, bounds and fuel.\<close> Recursion is structural or has a measure. The window loop of MaxScore can run
  forever when the end of a window wraps, so it is \<open>partial_function (option)\<close>; that it returns is part of
  the theorem on the search, for document ids below the bound the theorem names. The count of trailing
  zeros has the fuel 64, the width of its word, and is proved to find the lowest bit. The splitting of
  terms into windows is proved to end with windows that cover the terms. No theorem is of the form "if
  the loop ends".

  \<^bold>\<open>What the lemmas show.\<close>

  \<^item> Search is exact where it promises to be: \<open>inverted_index_search_exact\<close>, \<open>brutal_search_exact\<close>,
    \<open>exact_match_best\<close>, \<open>topk_holder_best\<close>; \<open>seismic_search_exact\<close>, \<open>sq_search_exact\<close> and the two theorems on
    the disk indexes say which documents an approximate search ranges over and that it is exact there.
  \<^item> Equivalence: MaxScore with brute force on positive scores, any number of build windows with one, the spilled build with
    the one in memory, the transposed scores with the row scores, vector kernels with scalar ones, the
    mapped corpus with the copied one, decoded integer scores with scores of decoded values.
  \<^item> Files: every wire format is read back by both readers with equal answers afterwards, up to whole
    index files with id maps nested to any depth (a disk index must have a cluster); files of another
    format version are refused, what the readers of a corpus check and what they let through is told
    apart, and a mapped directory that was accepted never leads outside its section.
  \<^item> Invariants: the layout of a matrix, the offsets of a cluster list, the zeroed scratch buffer of a
    thread, the id map in step with its index as long as batches come with ids (\<open>id_map_run\<close>, by rule
    induction over its loads, batches with and without ids, and builds).
  \<^item> Bounds: the quantizer, the integer kernels, the bytes a vector kernel touches.
\<close>

text \<open>
  \<^bold>\<open>Not modelled.\<close>

  \<^item> \<^verbatim>\<open>gpu/\<close>: CUDA kernels, compiled on request only; \<open>Clusters\<close> and \<open>KMeans\<close> have the path without them.
  \<^item> \<^verbatim>\<open>utils/mmap_file.h\<close>, \<^verbatim>\<open>io/file_io.cpp\<close>, \<^verbatim>\<open>io/mmap_io.h\<close>: calls of the operating system. A mapping is its
    base address and bytes, a stream its bytes and position, a directory of files a map; a write does not
    fail, except where a theory makes the room left a parameter.
  \<^item> \<^verbatim>\<open>utils/prefetch.h\<close> and the advice given to the mapping: no effect on results.
  \<^item> \<^verbatim>\<open>utils/checks.h\<close> in part: the checks that modelled code calls. Formatted numbers in error messages
    are left out.
  \<^item> In the vector headers, the argmax and the sparse matrix products, which nothing in the library
    calls; in the kernels, the rounding of each operation is that of the type of weights.
  \<^item> Threads: a parallel loop is the sequence of its iterations with the scratch each thread owns; locks
    and data races are not modelled. An exception inside such a loop is reported as one.
  \<^item> \<^verbatim>\<open>std::sort\<close> is a stable sort, \<^verbatim>\<open>std::nth_element\<close> a sort and a cut: the order of equal keys is one of
    those the standard allows. The order in which a hash set lists its elements is that of a list.
  \<^item> Bindings, tests and benchmarks.
\<close>

end
